(* ===== verification/Prelude.thy ===== *)
theory Prelude
  imports Main "HOL-Library.Word" "HOL-Library.While_Combinator" "HOL-Library.Signed_Division"
    "HOL-Library.Multiset"
begin

text \<open>
  Shared vocabulary of the development: the result types of modelled C code, the
  machine integer types of \<open>kernel/types.h\<close>, and the generic lemmas on lists, loops
  and counting that the component theories use.
\<close>

section \<open>Results of C code\<close>

text \<open>
  A C function returns a value, stops the program with a fault, or does not return.
  \<open>Inl f\<close> is a fault; \<open>None\<close> around a result is a loop that never ends.
  The kernel's \<open>panic\<close> is a fault that carries its message.
\<close>

datatype cfault =
    NullDeref          \<comment> \<open>a null (or dangling) pointer is dereferenced\<close>
  | OutOfBounds int    \<comment> \<open>an array is accessed at this index, outside its bounds\<close>
  | DivByZero          \<comment> \<open>integer division or remainder by zero\<close>
  | Panic string       \<comment> \<open>the kernel's \<open>panic(msg)\<close>\<close>

type_synonym 'a cresult = "cfault + 'a"

definition ok_result :: "'a cresult \<Rightarrow> bool" where
  "ok_result r \<longleftrightarrow> (case r of Inl _ \<Rightarrow> False | Inr _ \<Rightarrow> True)"

definition bind_result :: "'a cresult \<Rightarrow> ('a \<Rightarrow> 'b cresult) \<Rightarrow> 'b cresult" where
  "bind_result r f = (case r of Inl e \<Rightarrow> Inl e | Inr x \<Rightarrow> f x)"

lemma bind_result_simps [simp]:
  "bind_result (Inl e) f = Inl e" "bind_result (Inr x) f = f x"
  by (simp_all add: bind_result_def)

lemma bind_result_InrE:
  assumes "bind_result r f = Inr y"
  obtains x where "r = Inr x" "f x = Inr y"
  using assms by (cases r) (auto simp: bind_result_def)

section \<open>Machine integers of kernel/types.h\<close>

type_synonym uchar = "8 word"
type_synonym ushort = "16 word"
type_synonym uint = "32 word"
type_synonym uint64 = "64 word"

lemma unat_bound: "unat (w :: 'a :: len word) < 2 ^ LENGTH('a)"
  by (rule unsigned_less)

lemma unat_of_nat_less: "i < 2 ^ LENGTH('a) \<Longrightarrow> unat (of_nat i :: 'a :: len word) = i"
  by (simp add: unat_of_nat)

lemma unat_ucast_up:
  fixes w :: "'a :: len word"
  assumes "LENGTH('a) \<le> LENGTH('b)"
  shows "unat (ucast w :: 'b :: len word) = unat w"
proof -
  have "unat w < 2 ^ LENGTH('b)"
    using unat_bound [of w] assms by (meson less_le_trans one_le_numeral power_increasing)
  then show ?thesis by (simp add: unsigned_ucast_eq take_bit_nat_eq_self)
qed

lemma unat_minus_1: "unat (- 1 :: 'a :: len word) = 2 ^ LENGTH('a) - 1"
  by (simp add: unsigned_minus_1_eq_mask mask_eq_exp_minus_1)

lemma unat_plus_1:
  fixes w :: "'a :: len word"
  assumes "unat w < 2 ^ LENGTH('a) - 1"
  shows "unat (w + 1) = Suc (unat w)"
proof -
  have "w + 1 = of_nat (Suc (unat w))" by simp
  moreover have "Suc (unat w) < 2 ^ LENGTH('a)" using assms by simp
  ultimately show ?thesis by (simp only: unat_of_nat_less)
qed

lemma unat_minus_1_64: "unat (- 1 :: uint64) = 2 ^ 64 - 1"
  by (simp add: unsigned_minus_1_eq_mask mask_eq_exp_minus_1)

text \<open>C's remainder on non-negative values.\<close>

lemma smod_nonneg: "0 \<le> (r :: int) \<Longrightarrow> 0 < n \<Longrightarrow> r smod n = r mod n"
  by (cases "r = 0") (simp_all add: signed_modulo_int_def)

section \<open>Loops\<close>

text \<open>
  A loop whose body keeps an invariant and decreases a measure under it returns, in a
  state that satisfies the invariant and fails the guard.
\<close>

lemma while_option_total:
  fixes m :: "'s \<Rightarrow> nat"
  assumes "P s" and "\<And>s. P s \<Longrightarrow> b s \<Longrightarrow> P (c s) \<and> m (c s) < m s"
  obtains t where "while_option b c s = Some t" "P t" "\<not> b t"
proof -
  obtain t where t: "while_option b c s = Some t"
    using measure_while_option_Some [where P = P and f = m and b = b and c = c] assms by blast
  have "P t"
    by (rule while_option_rule [OF _ t]) (use assms in auto)
  with t that while_option_stop [OF t] show ?thesis by blast
qed

text \<open>A loop whose guard is implied by an invariant of its body never returns.\<close>

lemma while_option_diverges:
  assumes "P s" and "\<And>s. P s \<Longrightarrow> b s" and "\<And>s. P s \<Longrightarrow> P (c s)"
  shows "while_option b c s = None"
proof (rule ccontr)
  assume "while_option b c s \<noteq> None"
  then obtain t where t: "while_option b c s = Some t" by blast
  have "P t" by (rule while_option_rule [OF _ t]) (use assms in auto)
  with assms(2) while_option_stop [OF t] show False by blast
qed

text \<open>
  A computation that may fault or not return, and the loop over such computations:
  \<open>while (b) c\<close> stops at the first fault of its body.
\<close>

type_synonym 'a run = "'a cresult option"

definition bind_run :: "'a run \<Rightarrow> ('a \<Rightarrow> 'b run) \<Rightarrow> 'b run" where
  "bind_run m f = Option.bind m (\<lambda>r. case r of Inl e \<Rightarrow> Some (Inl e) | Inr x \<Rightarrow> f x)"

lemma bind_run_simps [simp]:
  "bind_run None f = None" "bind_run (Some (Inl e)) f = Some (Inl e)"
  "bind_run (Some (Inr x)) f = f x"
  by (simp_all add: bind_run_def)

lemma bind_run_InrE:
  assumes "bind_run m f = Some (Inr y)"
  obtains x where "m = Some (Inr x)" "f x = Some (Inr y)"
  using assms by (cases m) (auto simp: bind_run_def split: sum.splits)

lemma bind_run_mono [partial_function_mono]:
  assumes "mono_option B" "\<And>y. mono_option (\<lambda>f. C y f)"
  shows "mono_option (\<lambda>f. bind_run (B f) (\<lambda>y. C y f))"
  unfolding bind_run_def
proof (rule bind_mono [OF assms(1)])
  show "mono_option (\<lambda>f. case r of Inl e \<Rightarrow> Some (Inl e) | Inr x \<Rightarrow> C x f)" for r
    using assms(2) by (cases r) (auto simp: monotone_def flat_ord_def)
qed

partial_function (option) while_run ::
    "('s \<Rightarrow> bool) \<Rightarrow> ('s \<Rightarrow> 's run) \<Rightarrow> 's \<Rightarrow> 's run" where
  "while_run b c s =
     (if b s then Option.bind (c s) (\<lambda>r. case r of Inl e \<Rightarrow> Some (Inl e) | Inr s' \<Rightarrow> while_run b c s')
      else Some (Inr s))"

declare while_run.simps [code]

lemma while_run_stop [simp]: "\<not> b s \<Longrightarrow> while_run b c s = Some (Inr s)"
  by (simp add: while_run.simps)

lemma while_run_step:
  "b s \<Longrightarrow> c s = Some (Inr s') \<Longrightarrow> while_run b c s = while_run b c s'"
  "b s \<Longrightarrow> c s = Some (Inl e) \<Longrightarrow> while_run b c s = Some (Inl e)"
  "b s \<Longrightarrow> c s = None \<Longrightarrow> while_run b c s = None"
  by (simp_all add: while_run.simps)

text \<open>Total correctness: the body does not fault, keeps \<open>P\<close> and decreases \<open>m\<close>.\<close>

lemma while_run_total:
  fixes m :: "'s \<Rightarrow> nat"
  assumes "P s"
    and "\<And>s. P s \<Longrightarrow> b s \<Longrightarrow> \<exists>s'. c s = Some (Inr s') \<and> P s' \<and> m s' < m s"
  obtains t where "while_run b c s = Some (Inr t)" "P t" "\<not> b t"
  using assms(1)
proof (induction "m s" arbitrary: s thesis rule: less_induct)
  case less
  show ?case
  proof (cases "b s")
    case True
    then obtain s' where s': "c s = Some (Inr s')" "P s'" "m s' < m s"
      using assms(2) less.prems(2) by blast
    obtain t where "while_run b c s' = Some (Inr t)" "P t" "\<not> b t"
      using less.hyps [OF s'(3) _ s'(2)] by blast
    then show ?thesis using less.prems(1) while_run_step(1) [of b s c s', OF True s'(1)] by metis
  next
    case False
    then show ?thesis using less.prems by simp
  qed
qed

text \<open>The body may fault: the loop ends, in a fault of the body or in a state with \<open>P\<close>.\<close>

lemma while_run_ends:
  fixes m :: "'s \<Rightarrow> nat"
  assumes "P s"
    and "\<And>s. P s \<Longrightarrow> b s \<Longrightarrow> (\<exists>e. c s = Some (Inl e) \<and> F e) \<or> (\<exists>s'. c s = Some (Inr s') \<and> P s' \<and> m s' < m s)"
  shows "(\<exists>e. while_run b c s = Some (Inl e) \<and> F e) \<or> (\<exists>t. while_run b c s = Some (Inr t) \<and> P t \<and> \<not> b t)"
  using assms(1)
proof (induction "m s" arbitrary: s rule: less_induct)
  case less
  show ?case
  proof (cases "b s")
    case True
    from assms(2) [OF less.prems True] show ?thesis
    proof
      assume "\<exists>e. c s = Some (Inl e) \<and> F e"
      then show ?thesis using while_run_step(2) [of b s c, OF True] by auto
    next
      assume "\<exists>s'. c s = Some (Inr s') \<and> P s' \<and> m s' < m s"
      then obtain s' where s': "c s = Some (Inr s')" "P s'" "m s' < m s" by blast
      show ?thesis
        unfolding while_run_step(1) [of b s c s', OF True s'(1)] by (rule less.hyps [OF s'(3,2)])
    qed
  next
    case False
    then show ?thesis using less.prems by simp
  qed
qed

text \<open>Partial correctness: when the loop returns, its guard is false.\<close>

lemma while_run_post:
  assumes "while_run b c s = Some (Inr t)"
  shows "\<not> b t"
proof -
  have "b = b \<longrightarrow> Inr t = (Inr t :: 'a cresult) \<longrightarrow> \<not> b t"
  proof (rule while_run.raw_induct [where P = "\<lambda>b' c' s r. b' = b \<longrightarrow> r = Inr t \<longrightarrow> \<not> b t", OF _ assms])
    fix f b' c' s r
    assume IH: "\<And>b' c' s r. f b' c' s = Some r \<Longrightarrow> b' = b \<longrightarrow> r = Inr t \<longrightarrow> \<not> b t"
      and eq: "(if b' s then Option.bind (c' s) (case_sum (\<lambda>e. Some (Inl e)) (f b' c')) else Some (Inr s)) = Some r"
    show "b' = b \<longrightarrow> r = Inr t \<longrightarrow> \<not> b t"
    proof (cases "b' s")
      case True
      then obtain v where "c' s = Some v" "case_sum (\<lambda>e. Some (Inl e)) (f b' c') v = Some r"
        using eq by (cases "c' s") auto
      then show ?thesis using IH [of b' c' _ r] by (cases v) auto
    next
      case False
      then show ?thesis using eq by auto
    qed
  qed
  then show ?thesis by simp
qed

text \<open>A loop that stays in states where its guard holds and its body returns never ends.\<close>

lemma while_run_diverges:
  assumes "P s" and "\<And>s. P s \<Longrightarrow> b s \<and> (\<exists>s'. c s = Some (Inr s') \<and> P s')"
  shows "while_run b c s = None"
proof (rule ccontr)
  assume "while_run b c s \<noteq> None"
  then obtain r where r: "while_run b c s = Some r" by blast
  have "b = b \<longrightarrow> c = c \<longrightarrow> \<not> P s"
  proof (rule while_run.raw_induct [where P = "\<lambda>b' c' s r. b' = b \<longrightarrow> c' = c \<longrightarrow> \<not> P s", OF _ r])
    fix f b' c' s r
    assume IH: "\<And>b' c' s r. f b' c' s = Some r \<Longrightarrow> b' = b \<longrightarrow> c' = c \<longrightarrow> \<not> P s"
      and eq: "(if b' s then Option.bind (c' s) (case_sum (\<lambda>e. Some (Inl e)) (f b' c')) else Some (Inr s)) = Some r"
    then show "b' = b \<longrightarrow> c' = c \<longrightarrow> \<not> P s" using assms(2) [of s] by auto
  qed
  with assms(1) show False by simp
qed

text \<open>A loop \<open>for (i = a; i < b; i++)\<close> over the indices \<open>[a..<b]\<close>.\<close>

fun run_for :: "(nat \<Rightarrow> 's \<Rightarrow> 's run) \<Rightarrow> nat list \<Rightarrow> 's \<Rightarrow> 's run" where
  "run_for f [] s = Some (Inr s)"
| "run_for f (i # is) s = bind_run (f i s) (run_for f is)"

lemma run_for_append: "run_for f (xs @ ys) s = bind_run (run_for f xs s) (run_for f ys)"
proof (induction xs arbitrary: s)
  case (Cons x xs)
  then show ?case by (cases "f x s") (auto simp: bind_run_def split: sum.splits)
qed simp

text \<open>An invariant indexed by the number of completed rounds.\<close>

lemma run_for_inv:
  assumes "P 0 s" "\<And>i s. i < n \<Longrightarrow> P i s \<Longrightarrow> \<exists>s'. f i s = Some (Inr s') \<and> P (Suc i) s'"
  shows "\<exists>t. run_for f [0..<n] s = Some (Inr t) \<and> P n t"
proof -
  have "\<exists>t. run_for f [k..<n] s = Some (Inr t) \<and> P n t" if "k \<le> n" "P k s" for k s
    using that
  proof (induction "n - k" arbitrary: k s)
    case (Suc m)
    then have k: "k < n" by simp
    obtain s' where s': "f k s = Some (Inr s')" "P (Suc k) s'" using assms(2) [OF k Suc.prems(2)] by blast
    then show ?case using Suc.hyps(1) [of "Suc k" s'] Suc.hyps(2) k by (simp add: upt_conv_Cons)
  qed auto
  then show ?thesis using assms(1) by blast
qed

text \<open>The same for a loop that is known to have ended.\<close>

lemma run_for_keeps:
  assumes "run_for f [0..<n] s = Some (Inr t)" "P 0 s"
    "\<And>i s s'. i < n \<Longrightarrow> P i s \<Longrightarrow> f i s = Some (Inr s') \<Longrightarrow> P (Suc i) s'"
  shows "P n t"
proof -
  have "P n t" if "k \<le> n" "P k s" "run_for f [k..<n] s = Some (Inr t)" for k s
    using that
  proof (induction "n - k" arbitrary: k s)
    case (Suc m)
    then have k: "k < n" by simp
    obtain s' where s': "f k s = Some (Inr s')" "run_for f [Suc k..<n] s' = Some (Inr t)"
      using Suc.prems(3) k by (auto simp: upt_conv_Cons elim: bind_run_InrE)
    then show ?case using Suc.hyps(1) [of "Suc k" s'] Suc.hyps(2) k assms(3) [OF k Suc.prems(2) s'(1)] by simp
  qed auto
  then show ?thesis using assms(1,2) by blast
qed

section \<open>Lists\<close>

lemma sum_list_map_update:
  fixes f :: "'a \<Rightarrow> 'b::ab_group_add"
  assumes "i < length xs"
  shows "sum_list (map f (xs[i := y])) = sum_list (map f xs) - f (xs ! i) + f y"
  using assms
proof (induction xs arbitrary: i)
  case (Cons x xs)
  then show ?case by (cases i) (auto simp: algebra_simps)
qed simp

lemma int_length_filter: "int (length (filter P xs)) = sum_list (map (\<lambda>x. if P x then 1 else 0) xs)"
  by (induction xs) auto

lemma length_filter_update:
  assumes "i < length xs"
  shows "int (length (filter P (xs[i := y])))
       = int (length (filter P xs)) - (if P (xs ! i) then 1 else 0) + (if P y then 1 else 0)"
  unfolding int_length_filter by (rule sum_list_map_update [OF assms])

lemma sum_list_nonneg_int:
  fixes f :: "'a \<Rightarrow> int"
  shows "(\<And>x. x \<in> set xs \<Longrightarrow> 0 \<le> f x) \<Longrightarrow> 0 \<le> sum_list (map f xs)"
  by (induction xs) (auto simp: add_nonneg_nonneg)

lemma member_le_sum_list_int:
  fixes f :: "'a \<Rightarrow> int"
  shows "(\<And>x. x \<in> set xs \<Longrightarrow> 0 \<le> f x) \<Longrightarrow> y \<in> set xs \<Longrightarrow> f y \<le> sum_list (map f xs)"
proof (induction xs)
  case (Cons x xs)
  then show ?case using sum_list_nonneg_int [of xs f] by fastforce
qed simp

lemma sum_list_mono_nth:
  fixes f :: "'a \<Rightarrow> int" and g :: "'b \<Rightarrow> int"
  assumes "length xs = length ys" "\<And>i. i < length xs \<Longrightarrow> f (xs ! i) \<le> g (ys ! i)"
  shows "sum_list (map f xs) \<le> sum_list (map g ys)"
proof -
  have "list_all2 (\<lambda>x y. f x \<le> g y) xs ys" using assms by (simp add: list_all2_conv_all_nth)
  then show ?thesis by (induction rule: list_all2_induct) auto
qed

lemma all_set_update:
  "(\<And>x. x \<in> set xs \<Longrightarrow> P x) \<Longrightarrow> P y \<Longrightarrow> \<forall>z\<in>set (xs[i := y]). P z"
  using set_update_subset_insert by fastforce

end
