(* ===== verification/Kstring.thy ===== *)
theory Kstring
  imports Prelude
begin

text \<open>
  The string and memory functions of \<open>kernel/string.c\<close>, over a byte-addressed memory.
  Addresses are 64-bit words, so that pointer arithmetic wraps around as in the code; the
  loop counters are the natural numbers of the arguments \<open>n\<close>. A loop that scans for a
  terminating byte is bounded by \<open>n\<close>, but for \<open>strlen\<close>, which may never return.
\<close>

type_synonym mem = "uint64 \<Rightarrow> uchar"

section \<open>Definitions\<close>

fun memset_loop :: "nat \<Rightarrow> mem \<Rightarrow> uint64 \<Rightarrow> uchar \<Rightarrow> nat \<Rightarrow> mem" where
  "memset_loop 0 m dst c i = m"
| "memset_loop (Suc k) m dst c i = memset_loop k (m(dst + of_nat i := c)) dst c (i + 1)"

text \<open>The \<open>int\<close> argument \<open>c\<close> is stored as a char.\<close>

definition memset :: "mem \<Rightarrow> uint64 \<Rightarrow> 32 word \<Rightarrow> uint \<Rightarrow> mem" where
  "memset m dst c n = memset_loop (unat n) m dst (ucast c) 0"

fun memcmp_loop :: "nat \<Rightarrow> mem \<Rightarrow> uint64 \<Rightarrow> uint64 \<Rightarrow> int" where
  "memcmp_loop 0 m s1 s2 = 0"
| "memcmp_loop (Suc n) m s1 s2 =
     (if m s1 \<noteq> m s2 then uint (m s1) - uint (m s2) else memcmp_loop n m (s1 + 1) (s2 + 1))"

definition memcmp :: "mem \<Rightarrow> uint64 \<Rightarrow> uint64 \<Rightarrow> uint \<Rightarrow> int" where
  "memcmp m v1 v2 n = memcmp_loop (unat n) m v1 v2"

text \<open>\<open>while(n-- > 0) *--d = *--s;\<close> and \<open>while(n-- > 0) *d++ = *s++;\<close>\<close>

fun copy_down :: "nat \<Rightarrow> mem \<Rightarrow> uint64 \<Rightarrow> uint64 \<Rightarrow> mem" where
  "copy_down 0 m d s = m"
| "copy_down (Suc n) m d s = copy_down n (m(d - 1 := m (s - 1))) (d - 1) (s - 1)"

fun copy_up :: "nat \<Rightarrow> mem \<Rightarrow> uint64 \<Rightarrow> uint64 \<Rightarrow> mem" where
  "copy_up 0 m d s = m"
| "copy_up (Suc n) m d s = copy_up n (m(d := m s)) (d + 1) (s + 1)"

definition memmove :: "mem \<Rightarrow> uint64 \<Rightarrow> uint64 \<Rightarrow> uint \<Rightarrow> mem" where
  "memmove m dst src n =
     (if n = 0 then m
      else if src < dst \<and> src + ucast n > dst
           then copy_down (unat n) m (dst + ucast n) (src + ucast n)
           else copy_up (unat n) m dst src)"

definition memcpy :: "mem \<Rightarrow> uint64 \<Rightarrow> uint64 \<Rightarrow> uint \<Rightarrow> mem" where
  "memcpy m dst src n = memmove m dst src n"

text \<open>The loop stops at the count, at the end of \<open>p\<close> or at the first difference.\<close>

fun strncmp_loop :: "nat \<Rightarrow> mem \<Rightarrow> uint64 \<Rightarrow> uint64 \<Rightarrow> int" where
  "strncmp_loop 0 m p q = 0"
| "strncmp_loop (Suc n) m p q =
     (if m p \<noteq> 0 \<and> m p = m q then strncmp_loop n m (p + 1) (q + 1)
      else uint (m p) - uint (m q))"

definition strncmp :: "mem \<Rightarrow> uint64 \<Rightarrow> uint64 \<Rightarrow> uint \<Rightarrow> int" where
  "strncmp m p q n = strncmp_loop (unat n) m p q"

text \<open>The copying loop of \<open>strncpy\<close>; the second loop fills up with zeroes.\<close>

fun zero_fill :: "nat \<Rightarrow> mem \<Rightarrow> uint64 \<Rightarrow> mem" where
  "zero_fill 0 m s = m"
| "zero_fill (Suc n) m s = zero_fill n (m(s := 0)) (s + 1)"

fun strncpy_loop :: "nat \<Rightarrow> mem \<Rightarrow> uint64 \<Rightarrow> uint64 \<Rightarrow> mem" where
  "strncpy_loop 0 m s t = m"
| "strncpy_loop (Suc n) m s t =
     (let m' = m(s := m t)
      in if m t \<noteq> 0 then strncpy_loop n m' (s + 1) (t + 1) else zero_fill n m' (s + 1))"

definition strncpy :: "mem \<Rightarrow> uint64 \<Rightarrow> uint64 \<Rightarrow> int \<Rightarrow> mem" where
  "strncpy m s t n = strncpy_loop (nat n) m s t"

text \<open>\<open>while(--n > 0 && (*s++ = *t++) != 0); *s = 0;\<close> for a positive \<open>n\<close>.\<close>

fun safestrcpy_loop :: "nat \<Rightarrow> mem \<Rightarrow> uint64 \<Rightarrow> uint64 \<Rightarrow> mem" where
  "safestrcpy_loop 0 m s t = m(s := 0)"
| "safestrcpy_loop (Suc n) m s t =
     (let m' = m(s := m t)
      in if m t \<noteq> 0 then safestrcpy_loop n m' (s + 1) (t + 1) else m'(s + 1 := 0))"

definition safestrcpy :: "mem \<Rightarrow> uint64 \<Rightarrow> uint64 \<Rightarrow> int \<Rightarrow> mem" where
  "safestrcpy m s t n = (if n \<le> 0 then m else safestrcpy_loop (nat (n - 1)) m s t)"

definition strlen :: "mem \<Rightarrow> uint64 \<Rightarrow> nat option" where
  "strlen m s = while_option (\<lambda>n. m (s + of_nat n) \<noteq> 0) Suc 0"

section \<open>Address arithmetic\<close>

lemma unat_add_of_nat:
  fixes a :: uint64
  assumes "unat a + i < 2 ^ 64"
  shows "unat (a + of_nat i) = unat a + i"
proof -
  have "unat (of_nat i :: uint64) = i" using assms by (simp add: unat_of_nat_less)
  then show ?thesis using assms by (simp add: unat_add_lem [THEN iffD1])
qed

text \<open>The offset of an address in a region that starts at \<open>d\<close>.\<close>

lemma offset_add: "i < 2 ^ 64 \<Longrightarrow> unat ((d :: uint64) + of_nat i - d) = i"
  by (simp add: unat_of_nat_less)

lemma add_offset: "(d :: uint64) + of_nat (unat (a - d)) = a"
  by simp

lemma offset_Suc:
  fixes a d :: uint64
  assumes "a \<noteq> d"
  shows "unat (a - d) = Suc (unat (a - (d + 1)))"
proof -
  have "a - d \<noteq> 0" using assms by simp
  then show ?thesis using unat_minus_one [of "a - d"] unat_gt_0 [of "a - d"]
    by (simp add: algebra_simps)
qed

section \<open>Copies\<close>

lemma copy_up_at:
  assumes "n < 2 ^ 64" "\<And>i j. i < j \<Longrightarrow> j < n \<Longrightarrow> d + of_nat i \<noteq> s + of_nat j"
  shows "copy_up n m d s a = (if unat (a - d) < n then m (s + (a - d)) else m a)"
  using assms
proof (induction n arbitrary: m d s)
  case (Suc n)
  have IH: "copy_up n m' (d + 1) (s + 1) a =
      (if unat (a - (d + 1)) < n then m' (s + 1 + (a - (d + 1))) else m' a)" for m'
  proof (rule Suc.IH)
    fix i j assume "i < j" "j < n"
    then show "d + 1 + of_nat i \<noteq> s + 1 + of_nat j" using Suc.prems(2) [of "Suc i" "Suc j"] by (simp add: add_ac)
  qed (use Suc.prems in simp)
  show ?case
  proof (cases "a = d")
    case True
    then have "\<not> unat (a - (d + 1)) < n" using Suc.prems(1) unat_minus_1_64 by simp
    then show ?thesis using IH True by simp
  next
    case False
    have "s + (a - d) \<noteq> d" if "unat (a - d) < Suc n"
    proof -
      have "0 < unat (a - d)" using False by (simp add: unat_gt_0)
      then show ?thesis using Suc.prems(2) [of 0 "unat (a - d)"] that by auto
    qed
    then show ?thesis using IH False offset_Suc [OF False] by auto
  qed
qed simp

lemma copy_down_at:
  assumes "n < 2 ^ 64" "\<And>i j. j < i \<Longrightarrow> i < n \<Longrightarrow> d + of_nat i \<noteq> s + of_nat j"
  shows "copy_down n m (d + of_nat n) (s + of_nat n) a = (if unat (a - d) < n then m (s + (a - d)) else m a)"
  using assms
proof (induction n arbitrary: m)
  case (Suc n)
  let ?m = "m(d + of_nat n := m (s + of_nat n))"
  have step: "copy_down (Suc n) m (d + of_nat (Suc n)) (s + of_nat (Suc n))
      = copy_down n ?m (d + of_nat n) (s + of_nat n)" by (simp add: algebra_simps)
  have IH: "copy_down n ?m (d + of_nat n) (s + of_nat n) a
      = (if unat (a - d) < n then ?m (s + (a - d)) else ?m a)"
    by (rule Suc.IH) (use Suc.prems in auto)
  have "s + (a - d) \<noteq> d + of_nat n" if "unat (a - d) < n"
    using Suc.prems(2) [of "unat (a - d)" n] that by auto
  moreover have "a = d + of_nat n \<longleftrightarrow> unat (a - d) = n"
    using Suc.prems(1) offset_add [of n d] add_offset [of d a] by (metis Suc_lessD)
  ultimately show ?case unfolding step IH by (auto simp: less_Suc_eq)
qed simp

lemma memmove_at:
  assumes "unat src + unat n < 2 ^ 64" "unat dst + unat n < 2 ^ 64"
  shows "memmove m dst src n a = (if unat (a - dst) < unat n then m (src + (a - dst)) else m a)"
proof -
  have n: "unat (ucast n :: uint64) = unat n" "ucast n = (of_nat (unat n) :: uint64)"
    by (simp_all add: unat_ucast_up)
  have lt: "unat n < 2 ^ 64" using unat_bound [of n] by simp
  have su: "unat (src + ucast n) = unat src + unat n" unfolding n(2) by (rule unat_add_of_nat [OF assms(1)])
  have addr: "unat (dst + of_nat i) = unat dst + i" "unat (src + of_nat i) = unat src + i" if "i < unat n" for i
    using that assms by (auto intro!: unat_add_of_nat)
  show ?thesis
  proof (cases "src < dst \<and> src + ucast n > dst")
    case True
    have "dst + of_nat i \<noteq> src + of_nat j" if "j < i" "i < unat n" for i j
    proof
      assume "dst + of_nat i = src + of_nat j"
      then have "unat dst + i = unat src + j" using addr that by (metis less_trans)
      then show False using True that by (simp add: word_less_nat_alt)
    qed
    then have "copy_down (unat n) m (dst + ucast n) (src + ucast n) a
        = (if unat (a - dst) < unat n then m (src + (a - dst)) else m a)"
      unfolding n(2) by (rule copy_down_at [OF lt])
    then show ?thesis using True by (simp add: memmove_def)
  next
    case False
    have "dst + of_nat i \<noteq> src + of_nat j" if "i < j" "j < unat n" for i j
    proof
      assume "dst + of_nat i = src + of_nat j"
      then have "unat dst + i = unat src + j" using addr that by (metis less_trans)
      moreover have "unat dst \<le> unat src \<or> unat src + unat n \<le> unat dst"
        using False su by (auto simp: word_less_nat_alt not_less)
      ultimately show False using that by linarith
    qed
    then have "copy_up (unat n) m dst src a = (if unat (a - dst) < unat n then m (src + (a - dst)) else m a)"
      by (rule copy_up_at [OF lt])
    then show ?thesis using False by (auto simp: memmove_def)
  qed
qed

text \<open>
  Property C16 (\<open>memmove\<close>): for regions that do not run past the end of memory, overlapping or
  not, \<open>memmove\<close> leaves at the destination what the source region held before, and every
  other byte as it was.
\<close>

theorem memmove_correct:
  assumes "unat src + unat n < 2 ^ 64" "unat dst + unat n < 2 ^ 64"
  shows "memmove m dst src n a = (if unat (a - dst) < unat n then m (src + (a - dst)) else m a)"
  using assms by (rule memmove_at)

theorem memmove_correct_witness:
  "memmove (\<lambda>a. ucast a) 5 3 4 6 = 4 \<and> memmove (\<lambda>a. ucast a) 5 3 4 9 = 9"
  using memmove_correct [of 3 4 5 "\<lambda>a. ucast a" 6] memmove_correct [of 3 4 5 "\<lambda>a. ucast a" 9] by simp

section \<open>Bounded string copies\<close>

text \<open>The source string \<open>t\<close> ends at offset \<open>c\<close>, or is cut at \<open>c = k\<close>.\<close>

definition cut_at :: "mem \<Rightarrow> uint64 \<Rightarrow> nat \<Rightarrow> nat \<Rightarrow> bool" where
  "cut_at m t k c \<longleftrightarrow> c \<le> k \<and> (\<forall>i<c. m (t + of_nat i) \<noteq> 0) \<and> (c < k \<longrightarrow> m (t + of_nat c) = 0)"

definition disjoint_regions :: "uint64 \<Rightarrow> uint64 \<Rightarrow> nat \<Rightarrow> bool" where
  "disjoint_regions s t n \<longleftrightarrow> (\<forall>i<n. \<forall>j<n. s + of_nat i \<noteq> t + of_nat j)"

lemma disjoint_regions_Suc:
  assumes "disjoint_regions s t (Suc n)"
  shows "disjoint_regions (s + 1) (t + 1) n" "\<And>j. j < Suc n \<Longrightarrow> s \<noteq> t + of_nat j"
proof -
  show "disjoint_regions (s + 1) (t + 1) n"
    unfolding disjoint_regions_def
  proof (intro allI impI)
    fix i j assume "i < n" "j < n"
    then have "s + of_nat (Suc i) \<noteq> t + of_nat (Suc j)" using assms unfolding disjoint_regions_def by blast
    then show "s + 1 + of_nat i \<noteq> t + 1 + of_nat j" by (simp add: add_ac)
  qed
  show "s \<noteq> t + of_nat j" if "j < Suc n" for j
  proof -
    have "s + of_nat 0 \<noteq> t + of_nat j" using assms that unfolding disjoint_regions_def by blast
    then show ?thesis by simp
  qed
qed

text \<open>Outside the destination nothing changes.\<close>

lemma safestrcpy_loop_outside:
  "k < unat (a - s) \<Longrightarrow> safestrcpy_loop k m s t a = m a"
proof (induction k arbitrary: m s t)
  case (Suc k)
  then have "a \<noteq> s" by auto
  then have "unat (a - s) = Suc (unat (a - (s + 1)))" by (rule offset_Suc)
  moreover have "a \<noteq> s + 1" using Suc.prems calculation by auto
  ultimately show ?case using Suc \<open>a \<noteq> s\<close> by (simp add: Let_def)
qed auto

lemma safestrcpy_loop_copies:
  assumes "k < 2 ^ 64 - 1" "disjoint_regions s t (Suc k)" "cut_at m t k c"
  shows "(\<forall>i<c. safestrcpy_loop k m s t (s + of_nat i) = m (t + of_nat i)) \<and>
    safestrcpy_loop k m s t (s + of_nat c) = 0"
  using assms
proof (induction k arbitrary: m s t c)
  case 0
  then show ?case by (simp add: cut_at_def)
next
  case (Suc k)
  let ?m = "m(s := m t)"
  note d = disjoint_regions_Suc [OF Suc.prems(2)]
  show ?case
  proof (cases c)
    case 0
    then have "m t = 0" using Suc.prems(3) by (simp add: cut_at_def)
    then show ?thesis using 0 by (simp add: Let_def)
  next
    case (Suc c')
    have nz: "m t \<noteq> 0" using Suc.prems(3) Suc by (auto simp: cut_at_def dest: spec [of _ 0])
    have same: "?m (t + 1 + of_nat j) = m (t + of_nat (Suc j))" if "j \<le> k" for j
      using d(2) [of "Suc j"] that by (auto simp: add_ac)
    have "cut_at ?m (t + 1) k c'"
      using Suc.prems(3) same Suc unfolding cut_at_def by (auto simp del: of_nat_Suc fun_upd_apply)
    then have IH: "\<forall>i<c'. safestrcpy_loop k ?m (s + 1) (t + 1) (s + 1 + of_nat i) = ?m (t + 1 + of_nat i)"
        "safestrcpy_loop k ?m (s + 1) (t + 1) (s + 1 + of_nat c') = 0"
      using Suc.IH [OF _ d(1)] Suc.prems(1) by auto
    have head: "safestrcpy_loop k ?m (s + 1) (t + 1) s = m t"
      using safestrcpy_loop_outside [of k s "s + 1" ?m "t + 1"] Suc.prems(1) unat_minus_1_64 by simp
    have "safestrcpy_loop k ?m (s + 1) (t + 1) (s + of_nat i) = m (t + of_nat i)" if "i < c" for i
    proof (cases i)
      case (Suc i')
      then have "i' < c'" "i' \<le> k" using that \<open>c = Suc c'\<close> Suc.prems(3) by (auto simp: cut_at_def)
      then show ?thesis using IH(1) same [of i'] Suc by (simp add: add_ac)
    qed (use head in simp)
    then show ?thesis using IH(2) nz Suc by (simp add: Let_def add_ac)
  qed
qed

text \<open>
  Also proved (\<open>safestrcpy\<close>): the destination of \<open>n\<close> bytes receives the source string up to its
  end or its first \<open>n - 1\<close> bytes, always followed by a NUL byte, and no byte outside the
  destination is written.
\<close>

theorem safestrcpy_terminates:
  assumes "0 < n" "n < 2 ^ 64" "disjoint_regions s t (nat n)" "cut_at m t (nat (n - 1)) c"
  shows "(\<forall>i<c. safestrcpy m s t n (s + of_nat i) = m (t + of_nat i)) \<and>
    safestrcpy m s t n (s + of_nat c) = 0 \<and> int c < n \<and>
    (\<forall>a. nat n \<le> unat (a - s) \<longrightarrow> safestrcpy m s t n a = m a)"
proof -
  define k where "k = nat (n - 1)"
  have k: "nat n = Suc k" "safestrcpy m s t n = safestrcpy_loop k m s t" "k < 2 ^ 64 - 1" "int k < n"
    using assms(1,2) by (auto simp: k_def safestrcpy_def)
  have "c \<le> k" using assms(4) by (simp add: cut_at_def k_def)
  then have "int c < n" using k(4) by linarith
  moreover have "safestrcpy_loop k m s t a = m a" if "nat n \<le> unat (a - s)" for a
    by (rule safestrcpy_loop_outside) (use that k in simp)
  ultimately show ?thesis
    using safestrcpy_loop_copies [of k s t m c] assms(3,4) unfolding k(1,2) k_def [symmetric] using k by auto
qed

theorem safestrcpy_terminates_witness:
  "let m = (\<lambda>a. if a = 102 then 0 else ucast a) :: mem in
   (\<forall>i<(2 :: nat). safestrcpy m 10 100 8 (10 + of_nat i) = m (100 + of_nat i)) \<and>
   safestrcpy m 10 100 8 (10 + of_nat 2) = 0 \<and> int 2 < 8 \<and>
   (\<forall>a. nat 8 \<le> unat (a - 10) \<longrightarrow> safestrcpy m 10 100 8 a = m a)"
proof -
  have d: "disjoint_regions 10 100 (nat 8)"
    unfolding disjoint_regions_def
  proof (intro allI impI)
    fix i j assume ij: "i < nat 8" "j < nat 8"
    then have "unat (10 + of_nat i :: uint64) = 10 + i" "unat (100 + of_nat j :: uint64) = 100 + j"
      using unat_add_of_nat [of 10 i] unat_add_of_nat [of 100 j] by simp_all
    moreover have "10 + i \<noteq> 100 + j" using ij by simp
    ultimately show "(10 :: uint64) + of_nat i \<noteq> 100 + of_nat j" by (metis (no_types))
  qed
  have c: "cut_at (\<lambda>a. if a = 102 then 0 else ucast a) 100 (nat (8 - 1)) 2"
    by (auto simp: cut_at_def less_2_cases_iff)
  show ?thesis
    unfolding Let_def by (rule safestrcpy_terminates [OF _ _ d c]) simp_all
qed

end
