(* ===== verification/Grep.thy ===== *)
theory Grep
  imports Prelude
begin

text \<open>
  The user program \<open>user/grep.c\<close>. A C string is the list of its characters before the NUL
  byte, so \<open>re[0] == '\0'\<close> is the empty list. The matcher is proved equal to a
  denotational reading of patterns, and the loop of \<open>grep\<close>, with its buffer of 1024 bytes
  and short reads, to a filter on lines.
\<close>

section \<open>The matcher\<close>

function (sequential) matchhere :: "string \<Rightarrow> string \<Rightarrow> bool"
  and matchstar :: "char \<Rightarrow> string \<Rightarrow> string \<Rightarrow> bool" where
  "matchhere [] text = True"
| "matchhere (c # re) text =
     (if re \<noteq> [] \<and> hd re = CHR ''*'' then matchstar c (tl re) text
      else if c = CHR ''$'' \<and> re = [] then text = []
      else if text \<noteq> [] \<and> (c = CHR ''.'' \<or> c = hd text) then matchhere re (tl text)
      else False)"
| "matchstar c re text =
     (if matchhere re text then True
      else if text \<noteq> [] \<and> (hd text = c \<or> c = CHR ''.'') then matchstar c re (tl text)
      else False)"
  by pat_completeness auto
termination
  by (relation "measures [case_sum (\<lambda>(re, t). 2 * length re) (\<lambda>(c, re, t). 2 * length re + 1),
        case_sum (\<lambda>(re, t). length t) (\<lambda>(c, re, t). length t)]") (auto simp: neq_Nil_conv)

declare matchhere.simps(2) [simp del] matchstar.simps [simp del]

text \<open>The loop of \<open>match\<close> tries every suffix of the text, the empty one included.\<close>

fun match_loop :: "string \<Rightarrow> string \<Rightarrow> bool" where
  "match_loop re text =
     (if matchhere re text then True else case text of [] \<Rightarrow> False | _ # text' \<Rightarrow> match_loop re text')"

declare match_loop.simps [simp del]

definition match :: "string \<Rightarrow> string \<Rightarrow> bool" where
  "match re text =
     (case re of
        c # re' \<Rightarrow> if c = CHR ''^'' then matchhere re' text else match_loop re text
      | [] \<Rightarrow> match_loop re text)"

section \<open>The line loop\<close>

abbreviation newline :: char where "newline \<equiv> CHR 0x0A"
abbreviation nul :: char where "nul \<equiv> CHR 0x00"

text \<open>\<open>strchr\<close> on the bytes that remain in the buffer: the search ends at a NUL byte.\<close>

fun strchr :: "string \<Rightarrow> char \<Rightarrow> nat option" where
  "strchr [] c = None"
| "strchr (x # xs) c = (if x = nul then None else if x = c then Some 0 else map_option Suc (strchr xs c))"

lemma strchr_bound: "strchr p c = Some q \<Longrightarrow> q < length p"
  by (induction p arbitrary: q) (auto split: if_splits)

text \<open>The inner loop: what it writes, and the bytes after the last newline.\<close>

function scan_lines :: "string \<Rightarrow> string \<Rightarrow> string \<times> string" where
  "scan_lines pattern p =
     (case strchr p newline of
        None \<Rightarrow> ([], p)
      | Some q \<Rightarrow>
          (let (out, rest) = scan_lines pattern (drop (Suc q) p)
           in ((if match pattern (take q p) then take (Suc q) p else []) @ out, rest)))"
  by pat_completeness auto
termination
  by (relation "measure (\<lambda>(pattern, p). length p)") (auto dest: strchr_bound)

declare scan_lines.simps [simp del]

definition BUFSIZE :: nat where "BUFSIZE = 1024"

text \<open>
  \<open>read(fd, buf+m, room)\<close> returns between one and \<open>room\<close> of the bytes left, and zero at the
  end of the file or when there is no room. \<open>amount\<close> is what the \<open>k\<close>-th call would like
  to return.
\<close>

definition read_amount :: "(nat \<Rightarrow> nat) \<Rightarrow> nat \<Rightarrow> nat \<Rightarrow> string \<Rightarrow> nat" where
  "read_amount amount k room input = min (max 1 (amount k)) (min room (length input))"

function grep_loop :: "string \<Rightarrow> (nat \<Rightarrow> nat) \<Rightarrow> nat \<Rightarrow> string \<Rightarrow> string \<Rightarrow> string" where
  "grep_loop pattern amount k input buf =
     (let n = read_amount amount k (BUFSIZE - length buf - 1) input
      in if n > 0
         then let (out, rest) = scan_lines pattern (buf @ take n input)
              in out @ grep_loop pattern amount (Suc k) (drop n input) rest
         else [])"
  by pat_completeness auto
termination
  by (relation "measure (\<lambda>(pattern, amount, k, input, buf). length input)") (auto simp: read_amount_def)

declare grep_loop.simps [simp del]

definition grep :: "string \<Rightarrow> (nat \<Rightarrow> nat) \<Rightarrow> string \<Rightarrow> string" where
  "grep pattern amount input = grep_loop pattern amount 0 input []"

section \<open>What patterns mean\<close>

text \<open>
  A pattern is a sequence of characters and wildcards, each possibly starred, with anchors
  at its two ends. Its language is a set of strings.
\<close>

datatype atom = Chr char | Dot
datatype item = One atom | Many atom

fun accepts :: "atom \<Rightarrow> char \<Rightarrow> bool" where
  "accepts (Chr x) c \<longleftrightarrow> x = c"
| "accepts Dot c \<longleftrightarrow> True"

definition atom_of :: "char \<Rightarrow> atom" where
  "atom_of c = (if c = CHR ''.'' then Dot else Chr c)"

fun items_of :: "string \<Rightarrow> item list" where
  "items_of [] = []"
| "items_of [c] = (if c = CHR ''$'' then [] else [One (atom_of c)])"
| "items_of (c # d # re) = (if d = CHR ''*'' then Many (atom_of c) # items_of re
     else One (atom_of c) # items_of (d # re))"

fun ends_anchored :: "string \<Rightarrow> bool" where
  "ends_anchored [] = False"
| "ends_anchored [c] = (c = CHR ''$'')"
| "ends_anchored (c # d # re) = (if d = CHR ''*'' then ends_anchored re else ends_anchored (d # re))"

fun lang :: "item list \<Rightarrow> string set" where
  "lang [] = {[]}"
| "lang (One a # is) = {c # w | c w. accepts a c \<and> w \<in> lang is}"
| "lang (Many a # is) = {u @ w | u w. list_all (accepts a) u \<and> w \<in> lang is}"

definition prefix_matches :: "item list \<Rightarrow> bool \<Rightarrow> string \<Rightarrow> bool" where
  "prefix_matches is anchored text \<longleftrightarrow> (\<exists>u v. text = u @ v \<and> u \<in> lang is \<and> (anchored \<longrightarrow> v = []))"

lemma prefix_matches_Nil: "prefix_matches [] anchored text \<longleftrightarrow> (anchored \<longrightarrow> text = [])"
  by (auto simp: prefix_matches_def)

lemma prefix_matches_One:
  "prefix_matches (One a # is) anchored text \<longleftrightarrow>
     (\<exists>c text'. text = c # text' \<and> accepts a c \<and> prefix_matches is anchored text')"
proof
  assume "prefix_matches (One a # is) anchored text"
  then obtain c w v where "text = c # (w @ v)" "accepts a c" "w \<in> lang is" "anchored \<longrightarrow> v = []"
    unfolding prefix_matches_def lang.simps by (elim exE conjE CollectE) simp
  then show "\<exists>c text'. text = c # text' \<and> accepts a c \<and> prefix_matches is anchored text'"
    unfolding prefix_matches_def by blast
next
  assume "\<exists>c text'. text = c # text' \<and> accepts a c \<and> prefix_matches is anchored text'"
  then obtain c w v where "text = (c # w) @ v" "accepts a c" "w \<in> lang is" "anchored \<longrightarrow> v = []"
    unfolding prefix_matches_def by auto
  then show "prefix_matches (One a # is) anchored text"
    unfolding prefix_matches_def lang.simps by blast
qed

lemma prefix_matches_ManyI:
  "text = u @ w @ v \<Longrightarrow> list_all (accepts a) u \<Longrightarrow> w \<in> lang is \<Longrightarrow> (anchored \<longrightarrow> v = []) \<Longrightarrow>
   prefix_matches (Many a # is) anchored text"
  unfolding prefix_matches_def lang.simps by (intro exI [of _ "u @ w"] exI [of _ v]) auto

lemma prefix_matches_ManyE:
  assumes "prefix_matches (Many a # is) anchored text"
  obtains u w v where "text = u @ w @ v" "list_all (accepts a) u" "w \<in> lang is" "anchored \<longrightarrow> v = []"
  using assms unfolding prefix_matches_def lang.simps by (elim exE conjE CollectE) simp

lemma prefix_matches_Many:
  "prefix_matches (Many a # is) anchored text \<longleftrightarrow> prefix_matches is anchored text \<or>
     (\<exists>c text'. text = c # text' \<and> accepts a c \<and> prefix_matches (Many a # is) anchored text')"
proof
  assume "prefix_matches (Many a # is) anchored text"
  then obtain u w v where t: "text = u @ w @ v" "list_all (accepts a) u" "w \<in> lang is" "anchored \<longrightarrow> v = []"
    by (rule prefix_matches_ManyE)
  show "prefix_matches is anchored text \<or>
     (\<exists>c text'. text = c # text' \<and> accepts a c \<and> prefix_matches (Many a # is) anchored text')"
  proof (cases u)
    case Nil
    then show ?thesis using t unfolding prefix_matches_def by auto
  next
    case (Cons c u')
    then have "prefix_matches (Many a # is) anchored (u' @ w @ v)"
      using t by (intro prefix_matches_ManyI [OF refl]) auto
    then show ?thesis using t Cons by auto
  qed
next
  assume "prefix_matches is anchored text \<or>
     (\<exists>c text'. text = c # text' \<and> accepts a c \<and> prefix_matches (Many a # is) anchored text')"
  then show "prefix_matches (Many a # is) anchored text"
  proof (elim disjE exE conjE)
    assume "prefix_matches is anchored text"
    then obtain u v where "text = [] @ u @ v" "u \<in> lang is" "anchored \<longrightarrow> v = []"
      by (auto simp: prefix_matches_def)
    then show ?thesis by (intro prefix_matches_ManyI) auto
  next
    fix c t' assume c: "text = c # t'" "accepts a c" "prefix_matches (Many a # is) anchored t'"
    from c(3) obtain u w v where "t' = u @ w @ v" "list_all (accepts a) u" "w \<in> lang is" "anchored \<longrightarrow> v = []"
      by (rule prefix_matches_ManyE)
    then show ?thesis using c by (intro prefix_matches_ManyI [of _ "c # u"]) auto
  qed
qed

lemma accepts_atom_of: "accepts (atom_of c) d \<longleftrightarrow> d = c \<or> c = CHR ''.''"
  by (auto simp: atom_of_def)

lemma matchhere_matchstar:
  "matchhere re text \<longleftrightarrow> prefix_matches (items_of re) (ends_anchored re) text"
  "matchstar c re text \<longleftrightarrow> prefix_matches (Many (atom_of c) # items_of re) (ends_anchored re) text"
proof (induction re "text" and c re "text" rule: matchhere_matchstar.induct)
  case (2 c re t)
  show ?case
  proof (cases re)
    case Nil
    then show ?thesis using 2 by (cases t) (auto simp: matchhere.simps prefix_matches_Nil prefix_matches_One accepts_atom_of)
  next
    case (Cons d re')
    then show ?thesis using 2 by (cases t) (auto simp: matchhere.simps prefix_matches_One accepts_atom_of)
  qed
next
  case (3 c re t)
  show ?case
    unfolding prefix_matches_Many [of "atom_of c" "items_of re" "ends_anchored re" t]
    using 3 by (cases t) (auto simp: matchstar.simps [of c re] accepts_atom_of)
qed (simp add: prefix_matches_Nil)

lemma match_loop_iff:
  "match_loop re text \<longleftrightarrow> (\<exists>pre rest. text = pre @ rest \<and> matchhere re rest)"
proof (induction "text")
  case (Cons c t)
  then show ?case by (subst match_loop.simps) (auto simp: Cons_eq_append_conv)
qed (simp add: match_loop.simps)

text \<open>
  Property C17 (the matcher is correct): \<open>match\<close> accepts a text exactly when some part of it is in
  the language of the pattern: at its start if the pattern begins with \<open>^\<close>, up to its end
  if the pattern ends in an unstarred \<open>$\<close>.
\<close>

theorem match_correct:
  "match re text \<longleftrightarrow>
     (let body = (if re \<noteq> [] \<and> hd re = CHR ''^'' then tl re else re)
      in \<exists>pre u v. text = pre @ u @ v \<and> u \<in> lang (items_of body) \<and>
           (re \<noteq> [] \<and> hd re = CHR ''^'' \<longrightarrow> pre = []) \<and> (ends_anchored body \<longrightarrow> v = []))"
proof -
  have "match re text \<longleftrightarrow> (if re \<noteq> [] \<and> hd re = CHR ''^'' then matchhere (tl re) text
      else \<exists>pre rest. text = pre @ rest \<and> matchhere re rest)"
    by (cases re) (auto simp: match_def match_loop_iff)
  then show ?thesis
    unfolding matchhere_matchstar prefix_matches_def Let_def by (cases "re \<noteq> [] \<and> hd re = CHR ''^''") auto
qed

theorem match_correct_witness:
  "match ''^ab*c'' ''abbcd'' \<longleftrightarrow>
     (\<exists>pre u v. ''abbcd'' = pre @ u @ v \<and> u \<in> lang (items_of ''ab*c'') \<and> pre = [])"
  using match_correct [of "''^ab*c''" "''abbcd''"] by simp

section \<open>The line loop is a filter\<close>

definition clean :: "string \<Rightarrow> bool" where
  "clean l \<longleftrightarrow> newline \<notin> set l \<and> nul \<notin> set l"

definition unlines :: "string list \<Rightarrow> string" where
  "unlines ls = concat (map (\<lambda>l. l @ [newline]) ls)"

lemma unlines_simps [simp]:
  "unlines [] = []" "unlines (l # ls) = l @ newline # unlines ls" "unlines (ls @ ks) = unlines ls @ unlines ks"
  by (simp_all add: unlines_def)

lemma strchr_clean: "clean l \<Longrightarrow> strchr (l @ newline # p) newline = Some (length l)"
  by (induction l) (auto simp: clean_def)

lemma strchr_none: "clean l \<Longrightarrow> strchr l newline = None"
  by (induction l) (auto simp: clean_def)

lemma scan_lines_unlines:
  "list_all clean ls \<Longrightarrow> clean r \<Longrightarrow>
   scan_lines pattern (unlines ls @ r) = (unlines (filter (match pattern) ls), r)"
proof (induction ls)
  case Nil
  then show ?case by (simp add: scan_lines.simps [of pattern r] strchr_none)
next
  case (Cons l ls)
  have "strchr (l @ newline # (unlines ls @ r)) newline = Some (length l)"
    using Cons.prems by (intro strchr_clean) simp
  then show ?case
    using Cons by (subst scan_lines.simps) simp
qed

text \<open>A prefix of the input is some complete lines and a part of the next one.\<close>

lemma split_prefix:
  assumes "x @ y = unlines ls @ r" "list_all clean ls" "clean r"
  shows "\<exists>ls1 ls2 r1. x = unlines ls1 @ r1 \<and> r1 @ y = unlines ls2 @ r \<and> ls = ls1 @ ls2 \<and> clean r1 \<and>
    (ls2 \<noteq> [] \<longrightarrow> length r1 \<le> length (hd ls2))"
  using assms
proof (induction ls arbitrary: x)
  case Nil
  then have "clean x" by (auto simp: clean_def)
  then show ?case using Nil by (intro exI [of _ "[]"] exI [of _ x]) simp
next
  case (Cons l ls)
  have eq: "x @ y = l @ newline # (unlines ls @ r)" using Cons.prems(1) by simp
  show ?case
  proof (cases "length x \<le> length l")
    case True
    then have "x = take (length x) l" using arg_cong [OF eq, of "take (length x)"] by simp
    then have "clean x" using Cons.prems(2) set_take_subset [of "length x" l] by (auto simp: clean_def)
    then show ?thesis
      using Cons.prems True by (intro exI [of _ "[]"] exI [of _ "l # ls"] exI [of _ x]) simp
  next
    case False
    then obtain x' where x: "x = l @ newline # x'" "x' @ y = unlines ls @ r"
      using eq by (auto simp: append_eq_append_conv2 append_eq_Cons_conv)
    then obtain ls1 ls2 r1 where "x' = unlines ls1 @ r1" "r1 @ y = unlines ls2 @ r" "ls = ls1 @ ls2" "clean r1"
        "ls2 \<noteq> [] \<longrightarrow> length r1 \<le> length (hd ls2)"
      using Cons.IH [of x'] Cons.prems by auto
    then show ?thesis using x
      by (intro exI [of _ "l # ls1"] exI [of _ ls2] exI [of _ r1]) simp
  qed
qed

lemma grep_loop_filters:
  assumes "buf @ input = unlines ls @ r" "list_all clean ls" "clean r" "clean buf"
    and "list_all (\<lambda>l. length l \<le> 1022) ls"
  shows "grep_loop pattern amount k input buf = unlines (filter (match pattern) ls)"
  using assms
proof (induction pattern amount k input buf arbitrary: ls rule: grep_loop.induct)
  case (1 pattern amount k input buf)
  define n where "n = read_amount amount k (BUFSIZE - length buf - 1) input"
  show ?case
  proof (cases "n > 0")
    case True
    have eq: "(buf @ take n input) @ drop n input = unlines ls @ r" using 1(2) by simp
    obtain ls1 ls2 r1 where s: "buf @ take n input = unlines ls1 @ r1" "r1 @ drop n input = unlines ls2 @ r"
        "ls = ls1 @ ls2" "clean r1"
      using split_prefix [OF eq 1(3,4)] by blast
    then have sc: "scan_lines pattern (buf @ take n input) = (unlines (filter (match pattern) ls1), r1)"
      using 1(3) by (simp add: scan_lines_unlines)
    then have "grep_loop pattern amount (Suc k) (drop n input) r1 = unlines (filter (match pattern) ls2)"
      using 1(1) [OF n_def True sc [symmetric] refl s(2)] 1(3,4,6) s(3,4) by simp
    then show ?thesis
      using True sc s(3) unfolding grep_loop.simps [of pattern amount k input buf] n_def [symmetric] by simp
  next
    case False
    obtain ls1 ls2 r1 where s: "buf = unlines ls1 @ r1" "ls = ls1 @ ls2" "r1 @ input = unlines ls2 @ r"
        "ls2 \<noteq> [] \<longrightarrow> length r1 \<le> length (hd ls2)"
      using split_prefix [OF 1(2-4)] by blast
    have l1: "ls1 = []" using s(1) 1(5) by (cases ls1) (auto simp: clean_def)
    have "ls = []"
    proof (rule ccontr)
      assume ne: "ls \<noteq> []"
      then have "length buf \<le> length (hd ls)" "length (hd ls) \<le> 1022"
        using s l1 1(6) by (auto simp: neq_Nil_conv)
      then have "input = []" using False by (auto simp: n_def read_amount_def BUFSIZE_def)
      then have "newline \<in> set buf" using 1(2) ne by (cases ls) auto
      then show False using 1(5) by (simp add: clean_def)
    qed
    then show ?thesis using False unfolding grep_loop.simps [of pattern amount k input buf] n_def [symmetric] by simp
  qed
qed



end
