(* ===== verification/Locks.thy ===== *)
theory Locks
  imports Prelude
begin

text \<open>
  Spin locks (\<open>kernel/spinlock.c\<close>) and sleep locks (\<open>kernel/sleeplock.c\<close>). The operations on
  one CPU are functions. \<open>acquire\<close> and \<open>release\<close> are cut at their memory accesses, and a
  step relation interleaves these pieces over all CPUs that compete for one lock; it gives
  mutual exclusion. A CPU is named by its \<open>hartid\<close>, and \<open>mycpu()\<close> by the argument \<open>c\<close>.
\<close>

section \<open>Data\<close>

record spinlock =
  locked :: uint
  lname :: string
  lcpu :: "nat option"       \<comment> \<open>\<open>lk->cpu\<close>, a null pointer is \<open>None\<close>\<close>

record cpu =
  noff :: int                \<comment> \<open>depth of \<open>push_off\<close> nesting\<close>
  intena :: bool             \<comment> \<open>interrupts enabled before \<open>push_off\<close>\<close>
  intr :: bool               \<comment> \<open>the \<open>SIE\<close> bit that \<open>intr_get\<close> reads\<close>

definition initlock :: "string \<Rightarrow> spinlock" where
  "initlock name = \<lparr>locked = 0, lname = name, lcpu = None\<rparr>"

definition holding :: "nat \<Rightarrow> spinlock \<Rightarrow> bool" where
  "holding c lk \<longleftrightarrow> locked lk \<noteq> 0 \<and> lcpu lk = Some c"

section \<open>Interrupt nesting\<close>

definition push_off :: "cpu \<Rightarrow> cpu" where
  "push_off u =
     (let old = intr u; u = u\<lparr>intr := False\<rparr>;
          u = (if noff u = 0 then u\<lparr>intena := old\<rparr> else u)
      in u\<lparr>noff := noff u + 1\<rparr>)"

definition pop_off :: "cpu \<Rightarrow> cpu cresult" where
  "pop_off u =
     (if intr u then Inl (Panic ''pop_off - interruptible'')
      else if noff u < 1 then Inl (Panic ''pop_off'')
      else let u = u\<lparr>noff := noff u - 1\<rparr>
           in Inr (if noff u = 0 \<and> intena u then u\<lparr>intr := True\<rparr> else u))"

section \<open>Acquire and release\<close>

text \<open>The part of \<open>acquire\<close> before the spin loop.\<close>

definition acquire_enter :: "nat \<Rightarrow> spinlock \<Rightarrow> cpu \<Rightarrow> cpu cresult" where
  "acquire_enter c lk u =
     (let u = push_off u in if holding c lk then Inl (Panic ''acquire'') else Inr u)"

text \<open>The atomic swap: the old value, and the lock with 1 stored in it.\<close>

definition test_and_set :: "spinlock \<Rightarrow> uint \<times> spinlock" where
  "test_and_set lk = (locked lk, lk\<lparr>locked := 1\<rparr>)"

definition acquire_record :: "nat \<Rightarrow> spinlock \<Rightarrow> spinlock" where
  "acquire_record c lk = lk\<lparr>lcpu := Some c\<rparr>"

definition release_enter :: "nat \<Rightarrow> spinlock \<Rightarrow> spinlock cresult" where
  "release_enter c lk = (if \<not> holding c lk then Inl (Panic ''release'') else Inr (lk\<lparr>lcpu := None\<rparr>))"

definition lock_release :: "spinlock \<Rightarrow> spinlock" where
  "lock_release lk = lk\<lparr>locked := 0\<rparr>"

text \<open>
  The whole operations, run by one CPU with no interference. \<open>acquire\<close> on a lock that
  another CPU holds spins: \<open>None\<close>.
\<close>

definition acquire :: "nat \<Rightarrow> spinlock \<times> cpu \<Rightarrow> (spinlock \<times> cpu) run" where
  "acquire c s =
     (case s of (lk, u) \<Rightarrow>
        (case acquire_enter c lk u of
           Inl e \<Rightarrow> Some (Inl e)
         | Inr u \<Rightarrow>
             bind_run (while_run (\<lambda>(old, lk). old \<noteq> 0) (\<lambda>(old, lk). Some (Inr (test_and_set lk))) (test_and_set lk))
               (\<lambda>(old, lk). Some (Inr (acquire_record c lk, u)))))"

definition release :: "nat \<Rightarrow> spinlock \<times> cpu \<Rightarrow> (spinlock \<times> cpu) cresult" where
  "release c s =
     (case s of (lk, u) \<Rightarrow>
        bind_result (release_enter c lk) (\<lambda>lk.
        bind_result (pop_off u) (\<lambda>u. Inr (lock_release lk, u))))"

lemma acquire_free:
  assumes "locked lk = 0"
  shows "acquire c (lk, u) = Some (Inr (lk\<lparr>locked := 1, lcpu := Some c\<rparr>, push_off u))"
  using assms by (simp add: acquire_def acquire_enter_def holding_def test_and_set_def acquire_record_def Let_def)

lemma acquire_again: "holding c lk \<Longrightarrow> acquire c (lk, u) = Some (Inl (Panic ''acquire''))"
  by (simp add: acquire_def acquire_enter_def Let_def)

lemma acquire_busy:
  assumes "locked lk \<noteq> 0" "lcpu lk \<noteq> Some c"
  shows "acquire c (lk, u) = None"
proof -
  have "while_run (\<lambda>(old, lk). old \<noteq> 0) (\<lambda>(old, lk). Some (Inr (test_and_set lk))) (test_and_set lk) = None"
    by (rule while_run_diverges [where P = "\<lambda>(old, lk). old \<noteq> 0 \<and> locked lk \<noteq> 0"])
      (use assms in \<open>auto simp: test_and_set_def\<close>)
  then show ?thesis using assms by (simp add: acquire_def acquire_enter_def Let_def holding_def)
qed

text \<open>Interrupts are off whenever a critical section is open.\<close>

definition cpu_ok :: "cpu \<Rightarrow> bool" where
  "cpu_ok u \<longleftrightarrow> 0 \<le> noff u \<and> (0 < noff u \<longrightarrow> \<not> intr u)"

lemma push_off_ok: "cpu_ok u \<Longrightarrow> cpu_ok (push_off u) \<and> noff (push_off u) = noff u + 1 \<and> \<not> intr (push_off u)"
  by (auto simp: cpu_ok_def push_off_def Let_def)

lemma pop_off_ok: "cpu_ok u \<Longrightarrow> 0 < noff u \<Longrightarrow> \<exists>u'. pop_off u = Inr u' \<and> cpu_ok u' \<and> noff u' = noff u - 1"
  by (auto simp: cpu_ok_def pop_off_def Let_def)

lemma release_held:
  assumes "holding c lk" "cpu_ok u" "0 < noff u"
  shows "\<exists>u'. release c (lk, u) = Inr (lk\<lparr>lcpu := None, locked := 0\<rparr>, u') \<and> cpu_ok u' \<and> noff u' = noff u - 1"
  using pop_off_ok [OF assms(2,3)] assms(1) by (auto simp: release_def release_enter_def lock_release_def)

section \<open>Sleep locks\<close>

text \<open>
  The critical section of each operation is one step; its spin lock is not repeated here.
  \<open>None\<close> is a caller that sleeps because the lock is taken.
\<close>

record sleeplock =
  slocked :: uint
  sname :: string
  spid :: int

definition initsleeplock :: "string \<Rightarrow> sleeplock" where
  "initsleeplock name = \<lparr>slocked = 0, sname = name, spid = 0\<rparr>"

definition acquiresleep :: "int \<Rightarrow> sleeplock \<Rightarrow> sleeplock option" where
  "acquiresleep p lk = (if slocked lk \<noteq> 0 then None else Some (lk\<lparr>slocked := 1, spid := p\<rparr>))"

definition releasesleep :: "sleeplock \<Rightarrow> sleeplock" where
  "releasesleep lk = lk\<lparr>slocked := 0, spid := 0\<rparr>"

definition holdingsleep :: "int \<Rightarrow> sleeplock \<Rightarrow> bool" where
  "holdingsleep p lk \<longleftrightarrow> slocked lk \<noteq> 0 \<and> spid lk = p"

section \<open>CPUs that compete for a lock\<close>

datatype lock_pc =
    Outside         \<comment> \<open>not in \<open>acquire\<close> or \<open>release\<close>\<close>
  | Spinning        \<comment> \<open>in the loop of \<open>acquire\<close>\<close>
  | Taken           \<comment> \<open>the swap returned 0, \<open>lk->cpu\<close> is not yet written\<close>
  | Critical        \<comment> \<open>between \<open>acquire\<close> and \<open>release\<close>\<close>
  | Releasing       \<comment> \<open>\<open>lk->cpu\<close> is cleared, \<open>lk->locked\<close> not yet\<close>
  | Leaving         \<comment> \<open>before \<open>pop_off\<close>\<close>

record machine =
  m_lock :: spinlock
  m_cpu :: "nat \<Rightarrow> cpu"
  m_pc :: "nat \<Rightarrow> lock_pc"

inductive lock_step :: "machine \<Rightarrow> machine \<Rightarrow> bool" where
  set_intr: "m_pc m c = Outside \<Longrightarrow> noff (m_cpu m c) = 0 \<Longrightarrow>
     lock_step m (m\<lparr>m_cpu := (m_cpu m)(c := (m_cpu m c)\<lparr>intr := b\<rparr>)\<rparr>)"
| enter: "m_pc m c = Outside \<Longrightarrow> acquire_enter c (m_lock m) (m_cpu m c) = Inr u \<Longrightarrow>
     lock_step m (m\<lparr>m_cpu := (m_cpu m)(c := u), m_pc := (m_pc m)(c := Spinning)\<rparr>)"
| spin: "m_pc m c = Spinning \<Longrightarrow> test_and_set (m_lock m) = (old, lk) \<Longrightarrow>
     lock_step m (m\<lparr>m_lock := lk, m_pc := (m_pc m)(c := if old \<noteq> 0 then Spinning else Taken)\<rparr>)"
| own: "m_pc m c = Taken \<Longrightarrow>
     lock_step m (m\<lparr>m_lock := acquire_record c (m_lock m), m_pc := (m_pc m)(c := Critical)\<rparr>)"
| unown: "m_pc m c = Critical \<Longrightarrow> release_enter c (m_lock m) = Inr lk \<Longrightarrow>
     lock_step m (m\<lparr>m_lock := lk, m_pc := (m_pc m)(c := Releasing)\<rparr>)"
| unlock: "m_pc m c = Releasing \<Longrightarrow>
     lock_step m (m\<lparr>m_lock := lock_release (m_lock m), m_pc := (m_pc m)(c := Leaving)\<rparr>)"
| leave: "m_pc m c = Leaving \<Longrightarrow> pop_off (m_cpu m c) = Inr u \<Longrightarrow>
     lock_step m (m\<lparr>m_cpu := (m_cpu m)(c := u), m_pc := (m_pc m)(c := Outside)\<rparr>)"

inductive_cases lock_stepE: "lock_step m m'"

definition lock_init :: "machine \<Rightarrow> bool" where
  "lock_init m \<longleftrightarrow> (\<exists>name. m_lock m = initlock name) \<and>
     (\<forall>c. m_pc m c = Outside \<and> noff (m_cpu m c) = 0)"

definition lock_reachable :: "machine \<Rightarrow> bool" where
  "lock_reachable m \<longleftrightarrow> (\<exists>m0. lock_init m0 \<and> lock_step\<^sup>*\<^sup>* m0 m)"

text \<open>A CPU owns the lock from the successful swap to the store that releases it.\<close>

definition owns :: "machine \<Rightarrow> nat \<Rightarrow> bool" where
  "owns m c \<longleftrightarrow> m_pc m c \<in> {Taken, Critical, Releasing}"

section \<open>Nesting restores the interrupt state\<close>

fun push_n :: "nat \<Rightarrow> cpu \<Rightarrow> cpu" where
  "push_n 0 u = u" | "push_n (Suc n) u = push_n n (push_off u)"

fun pop_n :: "nat \<Rightarrow> cpu \<Rightarrow> cpu cresult" where
  "pop_n 0 u = Inr u" | "pop_n (Suc n) u = bind_result (pop_off u) (pop_n n)"

lemma push_n_facts:
  "0 < n \<Longrightarrow> 0 \<le> noff u \<Longrightarrow>
   push_n n u = u\<lparr>intr := False, noff := noff u + int n, intena := (if noff u = 0 then intr u else intena u)\<rparr>"
proof (induction n arbitrary: u)
  case (Suc n)
  have step: "push_off u = u\<lparr>intr := False, noff := noff u + 1, intena := (if noff u = 0 then intr u else intena u)\<rparr>"
    by (simp add: push_off_def Let_def)
  show ?case
  proof (cases n)
    case 0
    then show ?thesis by (simp add: step)
  next
    case (Suc k)
    then show ?thesis using Suc.IH [of "push_off u"] Suc.prems by (simp add: step)
  qed
qed simp

lemma pop_n_facts:
  "0 < n \<Longrightarrow> \<not> intr u \<Longrightarrow> int n \<le> noff u \<Longrightarrow>
   pop_n n u = Inr (u\<lparr>noff := noff u - int n, intr := (noff u = int n \<and> intena u)\<rparr>)"
proof (induction n arbitrary: u)
  case (Suc n)
  show ?case
  proof (cases n)
    case 0
    then show ?thesis using Suc.prems by (auto simp: pop_off_def Let_def)
  next
    case (Suc k)
    have "pop_off u = Inr (u\<lparr>noff := noff u - 1\<rparr>)" using Suc.prems Suc by (auto simp: pop_off_def Let_def)
    then show ?thesis using Suc.IH [of "u\<lparr>noff := noff u - 1\<rparr>"] Suc.prems Suc by (auto simp: algebra_simps)
  qed
qed simp

text \<open>
  Also proved (\<open>push_off\<close> and \<open>pop_off\<close> match): after any number of nested \<open>push_off\<close>s interrupts are
  off, and as many \<open>pop_off\<close>s do not panic and restore the depth and the interrupt state
  from before the first, provided interrupts are off inside a nest.
\<close>

theorem push_pop_balanced:
  assumes "0 \<le> noff u" "noff u > 0 \<longrightarrow> \<not> intr u" "0 < n"
  shows "\<not> intr (push_n n u) \<and>
    (\<exists>v. pop_n n (push_n n u) = Inr v \<and> noff v = noff u \<and> intr v = intr u)"
  using assms by (auto simp: push_n_facts pop_n_facts)

theorem push_pop_balanced_witness:
  "let u = \<lparr>noff = 0, intena = False, intr = True\<rparr> in
   \<not> intr (push_n 3 u) \<and> (\<exists>v. pop_n 3 (push_n 3 u) = Inr v \<and> noff v = noff u \<and> intr v = intr u)"
  unfolding Let_def by (rule push_pop_balanced) simp_all

section \<open>Mutual exclusion\<close>

definition lock_inv :: "machine \<Rightarrow> bool" where
  "lock_inv m \<longleftrightarrow> (locked (m_lock m) \<noteq> 0 \<longrightarrow> (\<exists>c. owns m c)) \<and>
     (\<forall>c d. owns m c \<longrightarrow> owns m d \<longrightarrow> c = d) \<and>
     (\<forall>c. owns m c \<longrightarrow> locked (m_lock m) \<noteq> 0) \<and>
     (\<forall>c. lcpu (m_lock m) = Some c \<longleftrightarrow> m_pc m c = Critical) \<and>
     (\<forall>c. 0 \<le> noff (m_cpu m c) \<and> (noff (m_cpu m c) > 0 \<longrightarrow> \<not> intr (m_cpu m c)) \<and>
        noff (m_cpu m c) = (if m_pc m c = Outside then 0 else 1))"

lemma lock_inv_init: "lock_init m \<Longrightarrow> lock_inv m"
  by (auto simp: lock_init_def lock_inv_def owns_def initlock_def)

lemma lock_inv_step: "lock_step m m' \<Longrightarrow> lock_inv m \<Longrightarrow> lock_inv m'"
proof (induction rule: lock_step.induct)
  case (set_intr m c b)
  then show ?case by (auto simp: lock_inv_def owns_def)
next
  case (enter m c u)
  then have "u = push_off (m_cpu m c)" by (auto simp: acquire_enter_def Let_def split: if_splits)
  then have u: "noff u = 1" "\<not> intr u" using enter by (auto simp: lock_inv_def push_off_def Let_def)
  have o: "owns (m\<lparr>m_cpu := (m_cpu m)(c := u), m_pc := (m_pc m)(c := Spinning)\<rparr>) d \<longleftrightarrow> owns m d" for d
    using enter by (auto simp: owns_def)
  show ?case using enter u unfolding lock_inv_def o by auto
next
  case (spin m c old lk)
  then have lk: "lk = (m_lock m)\<lparr>locked := 1\<rparr>" "old = locked (m_lock m)" by (auto simp: test_and_set_def)
  have o: "owns (m\<lparr>m_lock := lk, m_pc := (m_pc m)(c := if old \<noteq> 0 then Spinning else Taken)\<rparr>) d \<longleftrightarrow>
      (if d = c then old = 0 else owns m d)" for d
    by (auto simp: owns_def)
  have "\<not> owns m c" using spin by (simp add: owns_def)
  then show ?case
  proof (cases "old = 0")
    case True
    then have "\<not> owns m d" for d using spin lk(2) by (auto simp: lock_inv_def)
    then show ?thesis using True spin lk unfolding lock_inv_def o by auto
  next
    case False
    then show ?thesis using \<open>\<not> owns m c\<close> spin lk unfolding lock_inv_def o by auto
  qed
next
  case (own m c)
  have o: "owns (m\<lparr>m_lock := acquire_record c (m_lock m), m_pc := (m_pc m)(c := Critical)\<rparr>) d \<longleftrightarrow> owns m d" for d
    using own by (auto simp: owns_def)
  have "owns m c" using own by (simp add: owns_def)
  moreover have "m_pc m d \<noteq> Critical" if "d \<noteq> c" for d
    using own that \<open>owns m c\<close> by (auto simp: lock_inv_def owns_def)
  ultimately show ?case
    using own unfolding lock_inv_def o by (auto simp: acquire_record_def)
next
  case (unown m c lk)
  have o: "owns (m\<lparr>m_lock := lk, m_pc := (m_pc m)(c := Releasing)\<rparr>) d \<longleftrightarrow> owns m d" for d
    using unown by (auto simp: owns_def)
  have "lk = (m_lock m)\<lparr>lcpu := None\<rparr>" using unown by (auto simp: release_enter_def split: if_splits)
  moreover have "owns m c" using unown by (simp add: owns_def)
  moreover have "m_pc m d \<noteq> Critical" if "d \<noteq> c" for d
    using unown that \<open>owns m c\<close> by (auto simp: lock_inv_def owns_def)
  ultimately show ?case
    using unown unfolding lock_inv_def o by auto
next
  case (unlock m c)
  have o: "owns (m\<lparr>m_lock := lock_release (m_lock m), m_pc := (m_pc m)(c := Leaving)\<rparr>) d \<longleftrightarrow> d \<noteq> c \<and> owns m d" for d
    by (auto simp: owns_def)
  have "owns m c" using unlock by (simp add: owns_def)
  then have "\<not> owns m d" if "d \<noteq> c" for d using unlock that by (auto simp: lock_inv_def)
  then show ?case
    using unlock unfolding lock_inv_def o by (auto simp: lock_release_def)
next
  case (leave m c u)
  have o: "owns (m\<lparr>m_cpu := (m_cpu m)(c := u), m_pc := (m_pc m)(c := Outside)\<rparr>) d \<longleftrightarrow> owns m d" for d
    using leave by (auto simp: owns_def)
  have "noff u = 0" using leave by (auto simp: pop_off_def lock_inv_def Let_def split: if_splits)
  then show ?case
    using leave unfolding lock_inv_def o by auto
qed

lemma lock_reachable_inv: "lock_reachable m \<Longrightarrow> lock_inv m"
  unfolding lock_reachable_def
proof (elim exE conjE)
  fix m0 assume "lock_init m0" and r: "lock_step\<^sup>*\<^sup>* m0 m"
  from r show "lock_inv m"
    by (induction rule: rtranclp_induct) (auto intro: lock_inv_step lock_inv_init [OF \<open>lock_init m0\<close>])
qed

text \<open>
  Property C8 (mutual exclusion): in every interleaving of CPUs that use the lock through \<open>acquire\<close>
  and \<open>release\<close>, at most one CPU is in the critical section; a CPU that is in it has
  interrupts off and passes the check of \<open>release\<close>, and one on its way out passes the
  checks of \<open>pop_off\<close>: neither panics.
\<close>

theorem spinlock_mutual_exclusion:
  assumes "lock_reachable m" "m_pc m c = Critical"
  shows "(\<forall>d. m_pc m d = Critical \<longrightarrow> d = c) \<and> \<not> intr (m_cpu m c) \<and> holding c (m_lock m) \<and>
    (\<forall>d. m_pc m d = Leaving \<longrightarrow> ok_result (pop_off (m_cpu m d)))"
proof -
  have inv: "lock_inv m" using assms(1) by (rule lock_reachable_inv)
  have "owns m c" using assms(2) by (simp add: owns_def)
  moreover have "owns m d" if "m_pc m d = Critical" for d using that by (simp add: owns_def)
  ultimately show ?thesis
    using inv assms(2)
    by (auto simp: lock_inv_def holding_def pop_off_def Let_def ok_result_def)
qed

definition two_cpus :: machine where
  "two_cpus = \<lparr>m_lock = initlock ''kmem'', m_cpu = (\<lambda>c. \<lparr>noff = 0, intena = False, intr = False\<rparr>),
     m_pc = (\<lambda>c. Outside)\<rparr>"

definition cpu0_in :: machine where
  "cpu0_in = \<lparr>m_lock = \<lparr>locked = 1, lname = ''kmem'', lcpu = Some 0\<rparr>,
     m_cpu = (\<lambda>c. \<lparr>noff = 0, intena = False, intr = False\<rparr>)(0 := \<lparr>noff = 1, intena = False, intr = False\<rparr>),
     m_pc = (\<lambda>c. Outside)(0 := Critical)\<rparr>"

lemma cpu0_in_reachable: "lock_reachable cpu0_in"
proof -
  let ?u = "push_off (m_cpu two_cpus 0)"
  let ?m1 = "two_cpus\<lparr>m_cpu := (m_cpu two_cpus)(0 := ?u), m_pc := (m_pc two_cpus)(0 := Spinning)\<rparr>"
  let ?m2 = "?m1\<lparr>m_lock := snd (test_and_set (m_lock ?m1)),
    m_pc := (m_pc ?m1)(0 := if fst (test_and_set (m_lock ?m1)) \<noteq> 0 then Spinning else Taken)\<rparr>"
  let ?m3 = "?m2\<lparr>m_lock := acquire_record 0 (m_lock ?m2), m_pc := (m_pc ?m2)(0 := Critical)\<rparr>"
  have "lock_step two_cpus ?m1"
    by (rule enter) (simp_all add: two_cpus_def acquire_enter_def Let_def holding_def initlock_def)
  moreover have "lock_step ?m1 ?m2" by (rule spin) simp_all
  moreover have "lock_step ?m2 ?m3" by (rule own) (simp add: two_cpus_def test_and_set_def initlock_def)
  ultimately have "lock_step\<^sup>*\<^sup>* two_cpus ?m3" by (meson rtranclp.intros)
  moreover have "?m3 = cpu0_in"
    by (simp add: two_cpus_def cpu0_in_def test_and_set_def acquire_record_def initlock_def push_off_def Let_def fun_eq_iff)
  moreover have "lock_init two_cpus" by (auto simp: lock_init_def two_cpus_def)
  ultimately show ?thesis unfolding lock_reachable_def by metis
qed

theorem spinlock_mutual_exclusion_witness:
  "m_pc cpu0_in 0 = Critical \<and> m_pc cpu0_in 1 \<noteq> Critical \<and> \<not> intr (m_cpu cpu0_in 0) \<and> holding 0 (m_lock cpu0_in)"
proof -
  have "m_pc cpu0_in 0 = Critical" by (simp add: cpu0_in_def)
  with spinlock_mutual_exclusion [OF cpu0_in_reachable this] show ?thesis by (metis zero_neq_one)
qed

end
