(* ===== verification/Bio.thy ===== *)
theory Bio
  imports Locks
begin

text \<open>
  The buffer cache (\<open>kernel/bio.c\<close>). The \<open>NBUF\<close> buffers and the list head are the entries of
  one array, the head at index \<open>NBUF\<close>; \<open>prev\<close> and \<open>next\<close> are indices. The disk driver is
  modelled by what \<open>virtio_disk_rw\<close> does: a write stores the buffer as the block of its
  number, a read loads it. Writes are also recorded in order, for reasoning about crashes.
  An operation that has to sleep for a locked buffer gives \<open>None\<close>. The argument \<open>p\<close> is
  \<open>myproc()->pid\<close>.
\<close>

section \<open>Data\<close>

type_synonym block = "uchar list"

definition NBUF :: nat where "NBUF = 30"
definition BSIZE :: nat where "BSIZE = 1024"

record buf =
  valid :: bool
  dev :: uint
  blockno :: uint
  lock :: sleeplock
  refcnt :: uint
  prev :: nat
  "next" :: nat
  bdata :: block

record bstate =
  bufs :: "buf list"
  disk :: "uint \<Rightarrow> block"
  writes :: "(uint \<times> block) list"

definition upd :: "nat \<Rightarrow> (buf \<Rightarrow> buf) \<Rightarrow> bstate \<Rightarrow> bstate" where
  "upd i f s = s\<lparr>bufs := (bufs s)[i := f (bufs s ! i)]\<rparr>"

section \<open>Operations\<close>

text \<open>Insertion of buffer \<open>b\<close> behind the head, as in \<open>binit\<close> and \<open>brelse\<close>.\<close>

definition insert_front :: "nat \<Rightarrow> bstate \<Rightarrow> bstate" where
  "insert_front b s =
     (let s = upd b (\<lambda>x. x\<lparr>next := next (bufs s ! NBUF)\<rparr>) s;
          s = upd b (\<lambda>x. x\<lparr>prev := NBUF\<rparr>) s;
          s = upd (next (bufs s ! NBUF)) (\<lambda>x. x\<lparr>prev := b\<rparr>) s
      in upd NBUF (\<lambda>x. x\<lparr>next := b\<rparr>) s)"

definition unlink :: "nat \<Rightarrow> bstate \<Rightarrow> bstate" where
  "unlink b s =
     (let s = upd (next (bufs s ! b)) (\<lambda>x. x\<lparr>prev := prev (bufs s ! b)\<rparr>) s
      in upd (prev (bufs s ! b)) (\<lambda>x. x\<lparr>next := next (bufs s ! b)\<rparr>) s)"

definition binit :: "bstate \<Rightarrow> bstate" where
  "binit s =
     (let s = upd NBUF (\<lambda>x. x\<lparr>prev := NBUF, next := NBUF\<rparr>) s
      in foldl (\<lambda>s b. insert_front b (upd b (\<lambda>x. x\<lparr>lock := initsleeplock ''buffer''\<rparr>) s)) s [0..<NBUF])"

text \<open>The search loops of \<open>bget\<close>: the first buffer along \<open>link\<close> with \<open>P\<close>, or the head.\<close>

definition scan :: "(buf \<Rightarrow> nat) \<Rightarrow> (buf \<Rightarrow> bool) \<Rightarrow> bstate \<Rightarrow> nat \<Rightarrow> nat run" where
  "scan link P s = while_run (\<lambda>b. b \<noteq> NBUF \<and> \<not> P (bufs s ! b)) (\<lambda>b. Some (Inr (link (bufs s ! b))))"

definition lock_buf :: "int \<Rightarrow> nat \<Rightarrow> bstate \<Rightarrow> (nat \<times> bstate) run" where
  "lock_buf p b s =
     (case acquiresleep p (lock (bufs s ! b)) of
        None \<Rightarrow> None
      | Some l \<Rightarrow> Some (Inr (b, upd b (\<lambda>x. x\<lparr>lock := l\<rparr>) s)))"

definition bget :: "int \<Rightarrow> uint \<Rightarrow> uint \<Rightarrow> bstate \<Rightarrow> (nat \<times> bstate) run" where
  "bget p d bn s =
     bind_run (scan next (\<lambda>x. dev x = d \<and> blockno x = bn) s (next (bufs s ! NBUF))) (\<lambda>b.
       if b \<noteq> NBUF then lock_buf p b (upd b (\<lambda>x. x\<lparr>refcnt := refcnt x + 1\<rparr>) s)
       else bind_run (scan prev (\<lambda>x. refcnt x = 0) s (prev (bufs s ! NBUF))) (\<lambda>b.
              if b \<noteq> NBUF
              then lock_buf p b (upd b (\<lambda>x. x\<lparr>dev := d, blockno := bn, valid := False, refcnt := 1\<rparr>) s)
              else Some (Inl (Panic ''bget: no buffers''))))"

definition virtio_disk_rw :: "nat \<Rightarrow> bool \<Rightarrow> bstate \<Rightarrow> bstate" where
  "virtio_disk_rw b write s =
     (if write
      then s\<lparr>disk := (disk s)(blockno (bufs s ! b) := bdata (bufs s ! b)),
             writes := writes s @ [(blockno (bufs s ! b), bdata (bufs s ! b))]\<rparr>
      else upd b (\<lambda>x. x\<lparr>bdata := disk s (blockno x)\<rparr>) s)"

definition bread :: "int \<Rightarrow> uint \<Rightarrow> uint \<Rightarrow> bstate \<Rightarrow> (nat \<times> bstate) run" where
  "bread p d bn s =
     bind_run (bget p d bn s) (\<lambda>(b, s).
       Some (Inr (b, if \<not> valid (bufs s ! b)
                     then upd b (\<lambda>x. x\<lparr>valid := True\<rparr>) (virtio_disk_rw b False s) else s)))"

definition bwrite :: "int \<Rightarrow> nat \<Rightarrow> bstate \<Rightarrow> bstate cresult" where
  "bwrite p b s =
     (if \<not> holdingsleep p (lock (bufs s ! b)) then Inl (Panic ''bwrite'') else Inr (virtio_disk_rw b True s))"

definition brelse :: "int \<Rightarrow> nat \<Rightarrow> bstate \<Rightarrow> bstate cresult" where
  "brelse p b s =
     (if \<not> holdingsleep p (lock (bufs s ! b)) then Inl (Panic ''brelse'')
      else let s = upd b (\<lambda>x. x\<lparr>lock := releasesleep (lock x)\<rparr>) s;
               s = upd b (\<lambda>x. x\<lparr>refcnt := refcnt x - 1\<rparr>) s
           in Inr (if refcnt (bufs s ! b) = 0 then insert_front b (unlink b s) else s))"

definition bpin :: "nat \<Rightarrow> bstate \<Rightarrow> bstate" where
  "bpin b s = upd b (\<lambda>x. x\<lparr>refcnt := refcnt x + 1\<rparr>) s"

definition bunpin :: "nat \<Rightarrow> bstate \<Rightarrow> bstate" where
  "bunpin b s = upd b (\<lambda>x. x\<lparr>refcnt := refcnt x - 1\<rparr>) s"

text \<open>A client changes the data of a buffer it holds.\<close>

definition set_data :: "nat \<Rightarrow> block \<Rightarrow> bstate \<Rightarrow> bstate" where
  "set_data b bs s = upd b (\<lambda>x. x\<lparr>bdata := bs\<rparr>) s"

section \<open>Doubly linked segments\<close>

text \<open>\<open>xs\<close> lies between \<open>a\<close> and \<open>b\<close> along \<open>nx\<close>, and backwards along \<open>pv\<close>.\<close>

fun seg :: "(nat \<Rightarrow> nat) \<Rightarrow> (nat \<Rightarrow> nat) \<Rightarrow> nat \<Rightarrow> nat list \<Rightarrow> nat \<Rightarrow> bool" where
  "seg nx pv a [] b \<longleftrightarrow> nx a = b \<and> pv b = a"
| "seg nx pv a (x # xs) b \<longleftrightarrow> nx a = x \<and> pv x = a \<and> seg nx pv x xs b"

lemma seg_append: "seg nx pv a (xs @ y # ys) b \<longleftrightarrow> seg nx pv a xs y \<and> seg nx pv y ys b"
  by (induction xs arbitrary: a) auto

lemma seg_cong:
  "(\<And>x. x \<in> set (a # xs) \<Longrightarrow> nx x = nx' x) \<Longrightarrow> (\<And>x. x \<in> set (xs @ [b]) \<Longrightarrow> pv x = pv' x) \<Longrightarrow>
   seg nx pv a xs b = seg nx' pv' a xs b"
  by (induction xs arbitrary: a) auto

lemma seg_ends: "seg nx pv a xs b \<Longrightarrow> nx a = hd (xs @ [b]) \<and> pv b = last (a # xs)"
  by (induction xs arbitrary: a) auto

lemma seg_unlink:
  assumes "seg nx pv a (xs @ i # ys) b" "distinct (a # xs @ i # ys)" "b \<notin> set (xs @ i # ys)"
  shows "seg (nx(pv i := nx i)) (pv(nx i := pv i)) a (xs @ ys) b"
proof -
  have s: "seg nx pv a xs i" "seg nx pv i ys b" using assms(1) by (simp_all add: seg_append)
  have e: "pv i = last (a # xs)" "nx i = hd (ys @ [b])" using seg_ends [OF s(1)] seg_ends [OF s(2)] by auto
  show ?thesis
    using s e assms(2,3)
  proof (induction xs arbitrary: a)
    case Nil
    show ?case
    proof (cases ys)
      case Nil
      then show ?thesis using Nil.prems by simp
    next
      case (Cons y ys')
      have "seg (nx(a := y)) (pv(y := a)) y ys' b = seg nx pv y ys' b"
        using Nil.prems Cons by (intro seg_cong) auto
      moreover have "nx i = y" "pv i = a" "seg nx pv y ys' b" using Nil.prems Cons by auto
      ultimately show ?thesis using Cons by (simp add: fun_upd_def)
    qed
  next
    case (Cons x xs)
    have "pv i \<in> set (x # xs)" using Cons.prems(3) by (metis last_ConsR last_in_set list.distinct(1))
    then have a: "pv i \<noteq> a" using Cons.prems(5) by auto
    have "nx i \<in> set (ys @ [b])" unfolding Cons.prems(4) by (rule hd_in_set) simp
    then have x: "nx i \<noteq> x" using Cons.prems(5,6) by auto
    have "seg (nx(pv i := nx i)) (pv(nx i := pv i)) x (xs @ ys) b"
      by (rule Cons.IH) (use Cons.prems in auto)
    moreover have "nx a = x" "pv x = a" using Cons.prems(1) by auto
    ultimately show ?case using a x by (auto simp: fun_upd_def)
  qed
qed

lemma seg_insert_front:
  assumes "seg nx pv h xs h" "distinct (h # i # xs)"
  shows "seg (nx(i := nx h, h := i)) (pv(i := h, nx h := i)) h (i # xs) h"
proof (cases xs)
  case Nil
  then show ?thesis using assms by auto
next
  case (Cons x xs')
  have "seg (nx(i := nx h, h := i)) (pv(i := h, nx h := i)) x xs' h = seg nx pv x xs' h"
    using assms Cons by (intro seg_cong) auto
  then show ?thesis using assms Cons by auto
qed

section \<open>The list of buffers\<close>

abbreviation nexts :: "bstate \<Rightarrow> nat \<Rightarrow> nat" where "nexts s \<equiv> (\<lambda>i. next (bufs s ! i))"
abbreviation prevs :: "bstate \<Rightarrow> nat \<Rightarrow> nat" where "prevs s \<equiv> (\<lambda>i. prev (bufs s ! i))"

text \<open>
  \<open>ord\<close> is the list behind the head, from the most to the least recently released buffer;
  after \<open>binit\<close> it has all buffers.
\<close>

definition linked :: "bstate \<Rightarrow> nat list \<Rightarrow> bool" where
  "linked s ord \<longleftrightarrow> length (bufs s) = Suc NBUF \<and> distinct ord \<and> set ord \<subseteq> {0..<NBUF} \<and>
     seg (nexts s) (prevs s) NBUF ord NBUF"

definition lru :: "bstate \<Rightarrow> nat list \<Rightarrow> bool" where
  "lru s ord \<longleftrightarrow> linked s ord \<and> set ord = {0..<NBUF}"

lemma upd_nth:
  "i < length (bufs s) \<Longrightarrow> bufs (upd i f s) ! j = (if j = i then f (bufs s ! i) else bufs s ! j)"
  by (simp add: upd_def nth_list_update)

lemma upd_simps [simp]:
  "length (bufs (upd i f s)) = length (bufs s)" "disk (upd i f s) = disk s" "writes (upd i f s) = writes s"
  by (simp_all add: upd_def)

text \<open>Changes that leave the links alone keep the list.\<close>

lemma linked_cong:
  assumes "linked s ord" "length (bufs s') = length (bufs s)"
    and "\<And>i. i < length (bufs s) \<Longrightarrow> next (bufs s' ! i) = next (bufs s ! i) \<and> prev (bufs s' ! i) = prev (bufs s ! i)"
  shows "linked s' ord"
proof -
  have "seg (nexts s') (prevs s') NBUF ord NBUF = seg (nexts s) (prevs s) NBUF ord NBUF"
    using assms by (intro seg_cong) (auto simp: linked_def)
  then show ?thesis using assms by (simp add: linked_def)
qed

lemma linked_upd:
  assumes "linked s ord" "i \<le> NBUF" "\<And>x. next (f x) = next x" "\<And>x. prev (f x) = prev x"
  shows "linked (upd i f s) ord"
  by (rule linked_cong [OF assms(1)]) (use assms in \<open>auto simp: upd_nth linked_def\<close>)

lemma linked_split:
  assumes "linked s (xs @ b # ys)"
  shows "seg (nexts s) (prevs s) NBUF xs b" "seg (nexts s) (prevs s) b ys NBUF"
    "nexts s b = hd (ys @ [NBUF])" "prevs s b = last (NBUF # xs)"
    "nexts s b \<noteq> b" "nexts s b \<le> NBUF" "prevs s b \<le> NBUF"
proof -
  show s: "seg (nexts s) (prevs s) NBUF xs b" "seg (nexts s) (prevs s) b ys NBUF"
    using assms by (simp_all add: linked_def seg_append)
  show e: "nexts s b = hd (ys @ [NBUF])" "prevs s b = last (NBUF # xs)"
    using seg_ends [OF s(1)] seg_ends [OF s(2)] by auto
  have "nexts s b \<in> set (ys @ [NBUF])" unfolding e(1) by (rule hd_in_set) simp
  moreover have "prevs s b \<in> set (NBUF # xs)" unfolding e(2) by (rule last_in_set) simp
  moreover have "set (xs @ b # ys) \<subseteq> {0..<NBUF}" "distinct (xs @ b # ys)" using assms by (simp_all add: linked_def)
  ultimately show "nexts s b \<noteq> b" "nexts s b \<le> NBUF" "prevs s b \<le> NBUF" by auto
qed

lemma linked_head:
  assumes "linked s ord"
  shows "nexts s NBUF = hd (ord @ [NBUF])" "prevs s NBUF = last (NBUF # ord)" "nexts s NBUF \<le> NBUF"
proof -
  show e: "nexts s NBUF = hd (ord @ [NBUF])" "prevs s NBUF = last (NBUF # ord)"
    using assms seg_ends [of "nexts s" "prevs s" NBUF ord NBUF] by (auto simp: linked_def)
  have "nexts s NBUF \<in> set (ord @ [NBUF])" unfolding e(1) by (rule hd_in_set) simp
  then show "nexts s NBUF \<le> NBUF" using assms by (auto simp: linked_def)
qed

text \<open>Taking buffer \<open>b\<close> out and putting it in front.\<close>

lemma unlink_linked:
  assumes "linked s (xs @ b # ys)"
  shows "linked (unlink b s) (xs @ ys)"
proof -
  note l = linked_split [OF assms]
  have len: "length (bufs s) = Suc NBUF" using assms by (simp add: linked_def)
  have e: "nexts s b < length (bufs s)" "prevs s b < length (bufs s)" using l(6,7) len by simp_all
  let ?s = "upd (nexts s b) (\<lambda>x. x\<lparr>prev := prev (bufs s ! b)\<rparr>) s"
  have s1: "nexts ?s = nexts s" "prevs ?s = (prevs s)(nexts s b := prevs s b)"
    using e by (auto simp: upd_nth fun_eq_iff)
  have pb: "prevs ?s b = prevs s b" using fun_cong [OF s1(2), of b] l(5) by simp
  have un: "unlink b s = upd (prevs s b) (\<lambda>x. x\<lparr>next := nexts s b\<rparr>) ?s"
    unfolding unlink_def Let_def using fun_cong [OF s1(1), of b] pb by simp
  have "nexts (unlink b s) = (nexts s)(prevs s b := nexts s b)"
    unfolding un using s1(1) e by (auto simp: upd_nth fun_eq_iff)
  moreover have "prevs (unlink b s) = (prevs s)(nexts s b := prevs s b)"
    unfolding un s1(2) [symmetric] using e by (auto simp: upd_nth fun_eq_iff)
  moreover have "seg ((nexts s)(prevs s b := nexts s b)) ((prevs s)(nexts s b := prevs s b)) NBUF (xs @ ys) NBUF"
    by (rule seg_unlink) (use assms in \<open>auto simp: linked_def\<close>)
  ultimately show ?thesis using assms len by (simp add: linked_def unlink_def Let_def)
qed

lemma insert_front_linked:
  assumes "linked s ord" "b < NBUF" "b \<notin> set ord"
  shows "linked (insert_front b s) (b # ord)"
proof -
  have len: "length (bufs s) = Suc NBUF" using assms by (simp add: linked_def)
  have h: "nexts s NBUF < length (bufs s)" using linked_head [OF assms(1)] len by simp
  let ?s1 = "upd b (\<lambda>x. x\<lparr>next := nexts s NBUF\<rparr>) s"
  let ?s2 = "upd b (\<lambda>x. x\<lparr>prev := NBUF\<rparr>) ?s1"
  let ?s3 = "upd (nexts s NBUF) (\<lambda>x. x\<lparr>prev := b\<rparr>) ?s2"
  have n2: "nexts ?s2 = (nexts s)(b := nexts s NBUF)" "prevs ?s2 = (prevs s)(b := NBUF)"
    using assms(2) len by (auto simp: upd_nth fun_eq_iff)
  have eq: "insert_front b s = upd NBUF (\<lambda>x. x\<lparr>next := b\<rparr>) ?s3"
    unfolding insert_front_def Let_def using fun_cong [OF n2(1), of NBUF] assms(2) by simp
  have n3: "nexts ?s3 = (nexts s)(b := nexts s NBUF)" "prevs ?s3 = (prevs s)(b := NBUF, nexts s NBUF := b)"
    using n2 h by (auto simp: upd_nth fun_eq_iff)
  have "nexts (insert_front b s) = (nexts s)(b := nexts s NBUF, NBUF := b)"
    unfolding eq n3(1) [symmetric] using len by (auto simp: upd_nth fun_eq_iff)
  moreover have "prevs (insert_front b s) = (prevs s)(b := NBUF, nexts s NBUF := b)"
    unfolding eq n3(2) [symmetric] using len by (auto simp: upd_nth fun_eq_iff)
  moreover have "seg ((nexts s)(b := nexts s NBUF, NBUF := b)) ((prevs s)(b := NBUF, nexts s NBUF := b)) NBUF (b # ord) NBUF"
    by (rule seg_insert_front) (use assms in \<open>auto simp: linked_def\<close>)
  ultimately show ?thesis using assms len by (simp add: linked_def eq)
qed

text \<open>The search loops return the first buffer in list order, or in reverse order.\<close>

lemma scan_next:
  assumes "seg (nexts s) (prevs s) a xs NBUF" "NBUF \<notin> set xs"
  shows "scan next P s (nexts s a) = Some (Inr (case find (\<lambda>b. P (bufs s ! b)) xs of None \<Rightarrow> NBUF | Some b \<Rightarrow> b))"
  using assms
proof (induction xs arbitrary: a)
  case Nil
  then show ?case by (simp add: scan_def)
next
  case (Cons x xs)
  show ?case
  proof (cases "P (bufs s ! x)")
    case True
    then show ?thesis using Cons.prems by (simp add: scan_def)
  next
    case False
    then have "scan next P s x = scan next P s (nexts s x)"
      unfolding scan_def using Cons.prems by (intro while_run_step) auto
    then show ?thesis using Cons False by simp
  qed
qed

lemma scan_prev:
  assumes "seg (nexts s) (prevs s) NBUF xs a" "NBUF \<notin> set xs"
  shows "scan prev P s (prevs s a) = Some (Inr (case find (\<lambda>b. P (bufs s ! b)) (rev xs) of None \<Rightarrow> NBUF | Some b \<Rightarrow> b))"
  using assms
proof (induction xs arbitrary: a rule: rev_induct)
  case Nil
  then show ?case by (simp add: scan_def)
next
  case (snoc x xs)
  have s: "seg (nexts s) (prevs s) NBUF xs x" "prevs s a = x" using snoc.prems by (auto simp: seg_append)
  show ?case
  proof (cases "P (bufs s ! x)")
    case True
    then show ?thesis using snoc.prems s by (simp add: scan_def)
  next
    case False
    then have "scan prev P s x = scan prev P s (prevs s x)"
      unfolding scan_def using snoc.prems by (intro while_run_step) auto
    then show ?thesis using snoc s False by simp
  qed
qed

section \<open>What the cache shows of the disk\<close>

text \<open>
  For a device \<open>d\<close>: the buffer of a block, its contents as readers see them, its reference
  count and the process that holds it.
\<close>

definition slot :: "bstate \<Rightarrow> uint \<Rightarrow> uint \<Rightarrow> nat option" where
  "slot s d bn = find (\<lambda>b. dev (bufs s ! b) = d \<and> blockno (bufs s ! b) = bn) [0..<NBUF]"

definition view :: "bstate \<Rightarrow> uint \<Rightarrow> uint \<Rightarrow> block" where
  "view s d bn = (case slot s d bn of None \<Rightarrow> disk s bn
     | Some b \<Rightarrow> if valid (bufs s ! b) then bdata (bufs s ! b) else disk s bn)"

definition refs :: "bstate \<Rightarrow> uint \<Rightarrow> uint \<Rightarrow> nat" where
  "refs s d bn = (case slot s d bn of None \<Rightarrow> 0 | Some b \<Rightarrow> unat (refcnt (bufs s ! b)))"

definition holder :: "bstate \<Rightarrow> uint \<Rightarrow> uint \<Rightarrow> int option" where
  "holder s d bn = (case slot s d bn of None \<Rightarrow> None
     | Some b \<Rightarrow> if slocked (lock (bufs s ! b)) \<noteq> 0 then Some (spid (lock (bufs s ! b))) else None)"

text \<open>
  No block has two buffers, buffers in use are buffers of the device, and a buffer that
  nobody uses is unlocked and holds what is on the disk.
\<close>

definition cache_ok :: "uint \<Rightarrow> bstate \<Rightarrow> bool" where
  "cache_ok d s \<longleftrightarrow>
     (\<forall>b<NBUF. \<forall>c<NBUF. dev (bufs s ! b) = d \<longrightarrow> dev (bufs s ! c) = d \<longrightarrow>
        blockno (bufs s ! b) = blockno (bufs s ! c) \<longrightarrow> b = c) \<and>
     (\<forall>b<NBUF. refcnt (bufs s ! b) \<noteq> 0 \<longrightarrow> dev (bufs s ! b) = d) \<and>
     (\<forall>b<NBUF. refcnt (bufs s ! b) = 0 \<longrightarrow> slocked (lock (bufs s ! b)) = 0 \<and>
        (dev (bufs s ! b) = d \<longrightarrow> valid (bufs s ! b) \<longrightarrow> bdata (bufs s ! b) = disk s (blockno (bufs s ! b))))"

definition binv :: "uint \<Rightarrow> bstate \<Rightarrow> bool" where
  "binv d s \<longleftrightarrow> (\<exists>ord. lru s ord) \<and> cache_ok d s"

lemma slot_SomeD: "slot s d bn = Some b \<Longrightarrow> b < NBUF \<and> dev (bufs s ! b) = d \<and> blockno (bufs s ! b) = bn"
  by (auto simp: slot_def find_Some_iff)

lemma slot_None: "slot s d bn = None \<longleftrightarrow> (\<forall>b<NBUF. \<not> (dev (bufs s ! b) = d \<and> blockno (bufs s ! b) = bn))"
  by (auto simp: slot_def find_None_iff)

lemma slot_Some:
  assumes "cache_ok d s"
  shows "slot s d bn = Some b \<longleftrightarrow> b < NBUF \<and> dev (bufs s ! b) = d \<and> blockno (bufs s ! b) = bn"
proof
  assume r: "b < NBUF \<and> dev (bufs s ! b) = d \<and> blockno (bufs s ! b) = bn"
  then obtain c where c: "slot s d bn = Some c" using slot_None [of s d bn] by fastforce
  have "c = b" using slot_SomeD [OF c] r assms by (auto simp: cache_ok_def)
  then show "slot s d bn = Some b" using c by simp
qed (rule slot_SomeD)

lemmas cache_obs = view_def refs_def holder_def

text \<open>The links do not matter to the contents.\<close>

definition core :: "buf \<Rightarrow> bool \<times> uint \<times> uint \<times> sleeplock \<times> uint \<times> block" where
  "core x = (valid x, dev x, blockno x, lock x, refcnt x, bdata x)"

definition same_core :: "bstate \<Rightarrow> bstate \<Rightarrow> bool" where
  "same_core s s' \<longleftrightarrow> (\<forall>b<NBUF. core (bufs s ! b) = core (bufs s' ! b)) \<and> disk s = disk s' \<and> writes s = writes s'"

lemma same_core_obs:
  assumes "same_core s s'"
  shows "slot s d bn = slot s' d bn" "view s d bn = view s' d bn" "refs s d bn = refs s' d bn"
    "holder s d bn = holder s' d bn" "cache_ok d s = cache_ok d s'"
proof -
  have c: "valid (bufs s ! b) = valid (bufs s' ! b)" "dev (bufs s ! b) = dev (bufs s' ! b)"
    "blockno (bufs s ! b) = blockno (bufs s' ! b)" "lock (bufs s ! b) = lock (bufs s' ! b)"
    "refcnt (bufs s ! b) = refcnt (bufs s' ! b)" "bdata (bufs s ! b) = bdata (bufs s' ! b)" if "b < NBUF" for b
    using assms that by (auto simp: same_core_def core_def)
  show slot: "slot s d bn = slot s' d bn" for bn
    unfolding slot_def by (rule find_cong) (auto simp: c)
  show "view s d bn = view s' d bn" "refs s d bn = refs s' d bn" "holder s d bn = holder s' d bn"
    using slot_SomeD [of s d bn] assms
    by (auto simp: cache_obs slot [symmetric] c same_core_def split: option.split)
  have "disk s = disk s'" using assms by (simp add: same_core_def)
  then show "cache_ok d s = cache_ok d s'"
    unfolding cache_ok_def by (simp add: c cong: conj_cong imp_cong)
qed

lemma same_core_trans: "same_core a b \<Longrightarrow> same_core b c \<Longrightarrow> same_core a c"
  by (simp add: same_core_def)

lemma same_core_upd:
  "i < length (bufs s) \<Longrightarrow> (\<And>x. core (f x) = core x) \<Longrightarrow> same_core s (upd i f s)"
  by (auto simp: same_core_def upd_nth)

lemma unlink_core:
  assumes "linked s (xs @ b # ys)"
  shows "same_core s (unlink b s)"
proof -
  note l = linked_split [OF assms]
  have len: "length (bufs s) = Suc NBUF" using assms by (simp add: linked_def)
  let ?s = "upd (nexts s b) (\<lambda>x. x\<lparr>prev := prev (bufs s ! b)\<rparr>) s"
  have "prevs ?s b = prevs s b" using l(5,6) len by (simp add: upd_nth)
  then have "prevs ?s b < length (bufs ?s)" using l(7) len by simp
  then have "same_core ?s (unlink b s)"
    unfolding unlink_def Let_def by (intro same_core_upd) (auto simp: core_def)
  moreover have "same_core s ?s" using l(6) len by (intro same_core_upd) (auto simp: core_def)
  ultimately show ?thesis by (rule same_core_trans [rotated])
qed

lemma insert_front_core:
  assumes "linked s ord" "b < NBUF"
  shows "same_core s (insert_front b s)"
proof -
  have len: "length (bufs s) = Suc NBUF" using assms by (simp add: linked_def)
  let ?s1 = "upd b (\<lambda>x. x\<lparr>next := nexts s NBUF\<rparr>) s"
  let ?s2 = "upd b (\<lambda>x. x\<lparr>prev := NBUF\<rparr>) ?s1"
  have "nexts ?s2 NBUF = nexts s NBUF" using assms(2) len by (simp add: upd_nth)
  then have "nexts ?s2 NBUF < length (bufs ?s2)" using linked_head(3) [OF assms(1)] len by simp
  then have c3: "same_core ?s2 (upd (nexts ?s2 NBUF) (\<lambda>x. x\<lparr>prev := b\<rparr>) ?s2)" (is "same_core _ ?s3")
    by (intro same_core_upd) (auto simp: core_def)
  have c1: "same_core s ?s1" and c2: "same_core ?s1 ?s2" using assms(2) len
    by (auto intro!: same_core_upd simp: core_def)
  have "same_core ?s3 (upd NBUF (\<lambda>x. x\<lparr>next := b\<rparr>) ?s3)"
    using len by (intro same_core_upd) (auto simp: core_def)
  then show ?thesis
    unfolding insert_front_def Let_def
    by (rule same_core_trans [OF same_core_trans [OF same_core_trans [OF c1 c2] c3]])
qed

text \<open>An update of the buffer of \<open>bn\<close> that keeps its key.\<close>

lemma upd_obs:
  assumes "length (bufs s) = Suc NBUF" "slot s d bn = Some b"
    and "dev (f (bufs s ! b)) = d" "blockno (f (bufs s ! b)) = bn"
  shows "slot (upd b f s) d bn' = slot s d bn'"
    "bn' \<noteq> bn \<Longrightarrow> view (upd b f s) d bn' = view s d bn'"
    "bn' \<noteq> bn \<Longrightarrow> refs (upd b f s) d bn' = refs s d bn'"
    "bn' \<noteq> bn \<Longrightarrow> holder (upd b f s) d bn' = holder s d bn'"
proof -
  have b: "b < NBUF" "dev (bufs s ! b) = d" "blockno (bufs s ! b) = bn" using slot_SomeD [OF assms(2)] by auto
  have n: "bufs (upd b f s) ! c = (if c = b then f (bufs s ! b) else bufs s ! c)" for c
    using b assms(1) by (simp add: upd_nth)
  show slot: "slot (upd b f s) d bn' = slot s d bn'" for bn'
    unfolding slot_def by (rule find_cong) (auto simp: n assms b)
  have "slot s d bn' \<noteq> Some b" if "bn' \<noteq> bn" using that b slot_SomeD [of s d bn' b] by auto
  then show "bn' \<noteq> bn \<Longrightarrow> view (upd b f s) d bn' = view s d bn'"
    "bn' \<noteq> bn \<Longrightarrow> refs (upd b f s) d bn' = refs s d bn'"
    "bn' \<noteq> bn \<Longrightarrow> holder (upd b f s) d bn' = holder s d bn'"
    by (auto simp: cache_obs slot n split: option.split)
qed

lemma cache_ok_upd:
  assumes "cache_ok d s" "length (bufs s) = Suc NBUF" "b < NBUF"
    and "dev (f (bufs s ! b)) = dev (bufs s ! b)" "blockno (f (bufs s ! b)) = blockno (bufs s ! b)"
    and "refcnt (f (bufs s ! b)) \<noteq> 0 \<Longrightarrow> dev (bufs s ! b) = d"
    and "refcnt (f (bufs s ! b)) = 0 \<Longrightarrow> slocked (lock (f (bufs s ! b))) = 0 \<and> (dev (bufs s ! b) = d \<longrightarrow>
        valid (f (bufs s ! b)) \<longrightarrow> bdata (f (bufs s ! b)) = disk s (blockno (bufs s ! b)))"
  shows "cache_ok d (upd b f s)"
  using assms unfolding cache_ok_def by (auto simp: upd_nth)

lemma binv_upd:
  assumes "binv d s" "b < NBUF"
    and "dev (f (bufs s ! b)) = dev (bufs s ! b)" "blockno (f (bufs s ! b)) = blockno (bufs s ! b)"
    and "refcnt (f (bufs s ! b)) \<noteq> 0 \<Longrightarrow> dev (bufs s ! b) = d"
    and "refcnt (f (bufs s ! b)) = 0 \<Longrightarrow> slocked (lock (f (bufs s ! b))) = 0 \<and> (dev (bufs s ! b) = d \<longrightarrow>
        valid (f (bufs s ! b)) \<longrightarrow> bdata (f (bufs s ! b)) = disk s (blockno (bufs s ! b)))"
    and "\<And>x. next (f x) = next x" "\<And>x. prev (f x) = prev x"
  shows "binv d (upd b f s)"
proof -
  obtain ord where ord: "lru s ord" "cache_ok d s" using assms(1) by (auto simp: binv_def)
  then have "lru (upd b f s) ord" using linked_upd [of s ord b f] assms by (auto simp: lru_def)
  moreover have "cache_ok d (upd b f s)"
    by (rule cache_ok_upd) (use ord assms in \<open>auto simp: lru_def linked_def\<close>)
  ultimately show ?thesis by (auto simp: binv_def)
qed

lemma binv_length: "binv d s \<Longrightarrow> length (bufs s) = Suc NBUF"
  by (auto simp: binv_def lru_def linked_def)

text \<open>A cached block: \<open>bget\<close> finds its buffer, and the list is not changed.\<close>

lemma find_unique: "\<exists>x\<in>set xs. P x \<Longrightarrow> (\<And>x. x \<in> set xs \<Longrightarrow> P x \<Longrightarrow> x = y) \<Longrightarrow> find P xs = Some y"
  by (induction xs) auto

lemma bget_hit:
  assumes "binv d s" "slot s d bn = Some b" "holder s d bn = None" "refcnt (bufs s ! b) \<noteq> - 1"
  shows "\<exists>s'. bget p d bn s = Some (Inr (b, s')) \<and> binv d s' \<and> slot s' d bn = Some b \<and>
    bufs s' ! b = (bufs s ! b)\<lparr>refcnt := refcnt (bufs s ! b) + 1, lock := (lock (bufs s ! b))\<lparr>slocked := 1, spid := p\<rparr>\<rparr> \<and>
    disk s' = disk s \<and> writes s' = writes s \<and>
    (\<forall>bn'. bn' \<noteq> bn \<longrightarrow> view s' d bn' = view s d bn' \<and> refs s' d bn' = refs s d bn' \<and> holder s' d bn' = holder s d bn') \<and>
    (\<forall>bn'. slot s' d bn' = slot s d bn') \<and> (\<forall>c. c \<noteq> b \<longrightarrow> bufs s' ! c = bufs s ! c)"
proof -
  obtain ord where ord: "lru s ord" and ok: "cache_ok d s" using assms(1) by (auto simp: binv_def)
  have b: "b < NBUF" "dev (bufs s ! b) = d" "blockno (bufs s ! b) = bn" using slot_SomeD [OF assms(2)] by auto
  have len: "length (bufs s) = Suc NBUF" using assms(1) by (rule binv_length)
  let ?P = "\<lambda>x. dev x = d \<and> blockno x = bn"
  have "find (\<lambda>c. ?P (bufs s ! c)) ord = Some b"
  proof (rule find_unique)
    show "\<exists>c\<in>set ord. ?P (bufs s ! c)" using ord b by (auto simp: lru_def)
    show "c = b" if "c \<in> set ord" "?P (bufs s ! c)" for c
      using slot_Some [OF ok, of bn c] assms(2) that ord by (auto simp: lru_def)
  qed
  moreover have "seg (nexts s) (prevs s) NBUF ord NBUF" "NBUF \<notin> set ord" using ord by (auto simp: lru_def linked_def)
  ultimately have sc: "scan next ?P s (next (bufs s ! NBUF)) = Some (Inr b)"
    using scan_next [of s NBUF ord ?P] by simp
  let ?f = "\<lambda>x. x\<lparr>refcnt := refcnt x + 1\<rparr>"
  let ?l = "(lock (bufs s ! b))\<lparr>slocked := 1, spid := p\<rparr>"
  let ?s1 = "upd b ?f s"
  let ?s2 = "upd b (\<lambda>x. x\<lparr>lock := ?l\<rparr>) ?s1"
  have n1: "bufs ?s1 ! b = ?f (bufs s ! b)" and n2: "bufs ?s2 ! b = (?f (bufs s ! b))\<lparr>lock := ?l\<rparr>"
    using b len by (simp_all add: upd_nth)
  have ul: "slocked (lock (bufs s ! b)) = 0" using assms(2,3) by (auto simp: holder_def split: if_splits)
  have get: "bget p d bn s = Some (Inr (b, ?s2))"
    using sc b n1 ul by (simp add: bget_def lock_buf_def acquiresleep_def)
  have nz: "refcnt (bufs s ! b) + 1 \<noteq> 0" using assms(4) by (metis add.inverse_unique add.commute)
  have i1: "binv d ?s1" by (rule binv_upd [OF assms(1) b(1)]) (use nz b in auto)
  have i2: "binv d ?s2" by (rule binv_upd [OF i1 b(1)]) (use n1 nz b in auto)
  note o1 = upd_obs [OF len assms(2), of ?f, simplified, OF b(2,3)]
  have sl1: "slot ?s1 d bn = Some b" using o1(1) assms(2) by simp
  note o2 = upd_obs [OF binv_length [OF i1] sl1, of "\<lambda>x. x\<lparr>lock := ?l\<rparr>"]
  have o2': "slot ?s2 d bn' = slot ?s1 d bn'" "bn' \<noteq> bn \<Longrightarrow> view ?s2 d bn' = view ?s1 d bn'"
    "bn' \<noteq> bn \<Longrightarrow> refs ?s2 d bn' = refs ?s1 d bn'" "bn' \<noteq> bn \<Longrightarrow> holder ?s2 d bn' = holder ?s1 d bn'" for bn'
    using o2 n1 b by simp_all
  show ?thesis
    by (intro exI [of _ ?s2] conjI get i2) (use o1 o2' sl1 n2 b len in \<open>simp_all add: upd_nth\<close>)
qed

text \<open>A block that is not cached: \<open>bget\<close> recycles the least recently used free buffer.\<close>

lemma find_exists: "\<exists>x\<in>set xs. P x \<Longrightarrow> \<exists>y\<in>set xs. find P xs = Some y \<and> P y"
  by (induction xs) auto

lemma bget_miss:
  assumes "binv d s" "slot s d bn = None" "lru s ord" "\<exists>b<NBUF. refcnt (bufs s ! b) = 0"
  shows "\<exists>b s'. bget p d bn s = Some (Inr (b, s')) \<and> find (\<lambda>b. refcnt (bufs s ! b) = 0) (rev ord) = Some b \<and>
    binv d s' \<and> slot s' d bn = Some b \<and> \<not> valid (bufs s' ! b) \<and> refcnt (bufs s' ! b) = 1 \<and>
    slocked (lock (bufs s' ! b)) \<noteq> 0 \<and> spid (lock (bufs s' ! b)) = p \<and>
    disk s' = disk s \<and> writes s' = writes s \<and>
    (\<forall>bn'. bn' \<noteq> bn \<longrightarrow> view s' d bn' = view s d bn' \<and> refs s' d bn' = refs s d bn' \<and> holder s' d bn' = holder s d bn') \<and>
    (\<forall>bn' c. bn' \<noteq> bn \<longrightarrow> slot s d bn' = Some c \<longrightarrow> 0 < refs s d bn' \<longrightarrow> slot s' d bn' = Some c \<and> bufs s' ! c = bufs s ! c)"
proof -
  have ok: "cache_ok d s" using assms(1) by (simp add: binv_def)
  have len: "length (bufs s) = Suc NBUF" using assms(1) by (rule binv_length)
  have sg: "seg (nexts s) (prevs s) NBUF ord NBUF" "NBUF \<notin> set ord" "set ord = {0..<NBUF}"
    using assms(3) by (auto simp: lru_def linked_def)
  let ?P = "\<lambda>x. dev x = d \<and> blockno x = bn"
  have "find (\<lambda>c. ?P (bufs s ! c)) ord = None" using assms(2) sg(3) by (auto simp: slot_None find_None_iff)
  then have sc: "scan next ?P s (next (bufs s ! NBUF)) = Some (Inr NBUF)"
    using scan_next [OF sg(1,2), of ?P] by simp
  obtain b where f: "find (\<lambda>c. refcnt (bufs s ! c) = 0) (rev ord) = Some b" and b: "b < NBUF" "refcnt (bufs s ! b) = 0"
    using find_exists [of "rev ord" "\<lambda>c. refcnt (bufs s ! c) = 0"] assms(4) sg(3)
    by (metis atLeastLessThan_iff le0 set_rev)
  have sp: "scan prev (\<lambda>x. refcnt x = 0) s (prev (bufs s ! NBUF)) = Some (Inr b)"
    using scan_prev [OF sg(1,2), of "\<lambda>x. refcnt x = 0"] f by simp
  have clean: "slocked (lock (bufs s ! b)) = 0"
    "dev (bufs s ! b) = d \<longrightarrow> valid (bufs s ! b) \<longrightarrow> bdata (bufs s ! b) = disk s (blockno (bufs s ! b))"
    using ok b by (auto simp: cache_ok_def)
  let ?f = "\<lambda>x. x\<lparr>dev := d, blockno := bn, valid := False, refcnt := 1\<rparr>"
  let ?l = "(lock (bufs s ! b))\<lparr>slocked := 1, spid := p\<rparr>"
  let ?s1 = "upd b ?f s"
  let ?s2 = "upd b (\<lambda>x. x\<lparr>lock := ?l\<rparr>) ?s1"
  have n1: "bufs ?s1 ! c = (if c = b then ?f (bufs s ! b) else bufs s ! c)" for c
    using b len by (simp add: upd_nth)
  have n2: "bufs ?s2 ! c = (if c = b then (?f (bufs s ! b))\<lparr>lock := ?l\<rparr> else bufs s ! c)" for c
    using b len n1 by (simp add: upd_nth)
  have get: "bget p d bn s = Some (Inr (b, ?s2))"
    using sc sp b n1 [of b] clean(1) by (simp add: bget_def lock_buf_def acquiresleep_def)
  have "lru ?s2 ord"
    using assms(3) b unfolding lru_def by (auto intro!: linked_upd)
  moreover have ok2: "cache_ok d ?s2"
    using ok assms(2) by (auto simp: cache_ok_def n2 slot_None)
  ultimately have inv: "binv d ?s2" by (auto simp: binv_def)
  have sl: "slot ?s2 d bn = Some b" using slot_Some [OF ok2] b by (simp add: n2)
  have other: "slot ?s2 d bn' = (if slot s d bn' = Some b then None else slot s d bn')" if "bn' \<noteq> bn" for bn'
  proof (cases "slot s d bn'")
    case None
    then have "slot ?s2 d bn' = None" using that unfolding slot_None by (auto simp: n2)
    then show ?thesis using None by simp
  next
    case (Some c)
    then have c: "c < NBUF" "dev (bufs s ! c) = d" "blockno (bufs s ! c) = bn'" using slot_SomeD by auto
    show ?thesis
    proof (cases "c = b")
      case True
      then have "dev (bufs s ! e) = d \<longrightarrow> blockno (bufs s ! e) = bn' \<longrightarrow> e = b" if "e < NBUF" for e
        using ok c that by (auto simp: cache_ok_def)
      then have "slot ?s2 d bn' = None" using that unfolding slot_None by (auto simp: n2)
      then show ?thesis using Some True by simp
    next
      case False
      then have "slot ?s2 d bn' = Some c" using slot_Some [OF ok2] c by (simp add: n2)
      then show ?thesis using Some False by simp
    qed
  qed
  have obs: "view ?s2 d bn' = view s d bn' \<and> refs ?s2 d bn' = refs s d bn' \<and> holder ?s2 d bn' = holder s d bn'"
    if ne: "bn' \<noteq> bn" for bn'
  proof (cases "slot s d bn' = Some b")
    case True
    then show ?thesis using other [OF ne] clean b(2) slot_SomeD [OF True] by (simp add: cache_obs)
  next
    case False
    then show ?thesis using other [OF ne] by (auto simp: cache_obs n2 split: option.split)
  qed
  have frame: "slot ?s2 d bn' = Some c \<and> bufs ?s2 ! c = bufs s ! c"
    if "bn' \<noteq> bn" "slot s d bn' = Some c" "0 < refs s d bn'" for bn' c
  proof -
    have "c \<noteq> b" using that b(2) by (auto simp: refs_def)
    then show ?thesis using other [OF that(1)] that(2) n2 [of c] by simp
  qed
  show ?thesis
    by (intro exI [of _ b] exI [of _ ?s2] conjI get f inv sl) (use n2 [of b] obs frame in simp_all)
qed

section \<open>The interface of the cache\<close>

text \<open>What clients rely on: the visible contents, the references, the holders, and the disk.\<close>

type_synonym cstate = "(uint \<Rightarrow> block) \<times> (uint \<Rightarrow> nat) \<times> (uint \<Rightarrow> int option) \<times> (uint \<Rightarrow> block) \<times> (uint \<times> block) list"

definition cabs :: "uint \<Rightarrow> bstate \<Rightarrow> cstate" where
  "cabs d s = (view s d, refs s d, holder s d, disk s, writes s)"

text \<open>A new buffer can be had for \<open>bn\<close>: it has one, or some buffer is free.\<close>

definition available :: "uint \<Rightarrow> uint \<Rightarrow> bstate \<Rightarrow> bool" where
  "available d bn s \<longleftrightarrow> slot s d bn \<noteq> None \<or> (\<exists>b<NBUF. refcnt (bufs s ! b) = 0)"

lemma fill_spec:
  assumes inv: "binv d s" and sl: "slot s d bn = Some b" and nz: "refcnt (bufs s ! b) \<noteq> 0"
  defines "s' \<equiv> (if \<not> valid (bufs s ! b) then upd b (\<lambda>x. x\<lparr>valid := True\<rparr>) (virtio_disk_rw b False s) else s)"
  shows "binv d s'" "slot s' d bn = Some b" "valid (bufs s' ! b)" "bdata (bufs s' ! b) = view s d bn"
    "cabs d s' = cabs d s" "slot s' d bn' = slot s d bn'" "c \<noteq> b \<Longrightarrow> bufs s' ! c = bufs s ! c"
proof -
  have b: "b < NBUF" "dev (bufs s ! b) = d" "blockno (bufs s ! b) = bn" using slot_SomeD [OF sl] by auto
  have len: "length (bufs s) = Suc NBUF" using inv by (rule binv_length)
  have "binv d s' \<and> slot s' d bn = Some b \<and> valid (bufs s' ! b) \<and> bdata (bufs s' ! b) = view s d bn \<and> cabs d s' = cabs d s \<and>
      (\<forall>bn'. slot s' d bn' = slot s d bn') \<and> (\<forall>c. c \<noteq> b \<longrightarrow> bufs s' ! c = bufs s ! c)"
  proof (cases "valid (bufs s ! b)")
    case True
    then show ?thesis using inv sl by (simp add: s'_def view_def)
  next
    case False
    let ?f = "\<lambda>x. x\<lparr>bdata := disk s (blockno x), valid := True\<rparr>"
    have s': "s' = upd b ?f s" using False b len by (simp add: s'_def virtio_disk_rw_def upd_def)
    have i: "binv d (upd b ?f s)" by (rule binv_upd [OF inv b(1)]) (use nz b in auto)
    have n: "bufs (upd b ?f s) ! b = ?f (bufs s ! b)" using b len by (simp add: upd_nth)
    have o: "slot (upd b ?f s) d bn' = slot s d bn'" "bn' \<noteq> bn \<Longrightarrow> view (upd b ?f s) d bn' = view s d bn'"
      "bn' \<noteq> bn \<Longrightarrow> refs (upd b ?f s) d bn' = refs s d bn'" "bn' \<noteq> bn \<Longrightarrow> holder (upd b ?f s) d bn' = holder s d bn'" for bn'
      using upd_obs [OF len sl, of ?f] b by simp_all
    have "view (upd b ?f s) d bn = view s d bn" "refs (upd b ?f s) d bn = refs s d bn" "holder (upd b ?f s) d bn = holder s d bn"
      using o(1) sl n False b by (simp_all add: cache_obs)
    then have "view (upd b ?f s) d bn' = view s d bn' \<and> refs (upd b ?f s) d bn' = refs s d bn' \<and>
        holder (upd b ?f s) d bn' = holder s d bn'" for bn'
      using o(2-4) [of bn'] by (cases "bn' = bn") auto
    then have "cabs d (upd b ?f s) = cabs d s" by (simp add: cabs_def fun_eq_iff)
    then show ?thesis unfolding s' using i o(1) sl n b False len by (simp add: view_def upd_nth)
  qed
  then show "binv d s'" "slot s' d bn = Some b" "valid (bufs s' ! b)" "bdata (bufs s' ! b) = view s d bn"
    "cabs d s' = cabs d s" "slot s' d bn' = slot s d bn'" "c \<noteq> b \<Longrightarrow> bufs s' ! c = bufs s ! c" by auto
qed

lemma bread_spec:
  assumes inv: "binv d s" and abs: "cabs d s = (V, R, H, D, W)"
    and pre: "H bn = None" "R bn < 2 ^ 32 - 1" "available d bn s"
  shows "\<exists>b s'. bread p d bn s = Some (Inr (b, s')) \<and> binv d s' \<and> slot s' d bn = Some b \<and>
    valid (bufs s' ! b) \<and> bdata (bufs s' ! b) = V bn \<and>
    cabs d s' = (V, R(bn := R bn + 1), H(bn := Some p), D, W) \<and>
    (\<forall>bn' c. bn' \<noteq> bn \<longrightarrow> slot s d bn' = Some c \<longrightarrow> 0 < R bn' \<longrightarrow> slot s' d bn' = Some c \<and> bufs s' ! c = bufs s ! c)"
proof -
  have "\<exists>b s1. bget p d bn s = Some (Inr (b, s1)) \<and> binv d s1 \<and> slot s1 d bn = Some b \<and>
      refcnt (bufs s1 ! b) \<noteq> 0 \<and> cabs d s1 = (V, R(bn := R bn + 1), H(bn := Some p), D, W) \<and>
      (\<forall>bn' c. bn' \<noteq> bn \<longrightarrow> slot s d bn' = Some c \<longrightarrow> 0 < R bn' \<longrightarrow> slot s1 d bn' = Some c \<and> bufs s1 ! c = bufs s ! c)"
  proof (cases "slot s d bn")
    case (Some b)
    let ?x = "(bufs s ! b)\<lparr>refcnt := refcnt (bufs s ! b) + 1, lock := (lock (bufs s ! b))\<lparr>slocked := 1, spid := p\<rparr>\<rparr>"
    have rc: "unat (refcnt (bufs s ! b)) = R bn" using abs Some by (auto simp: cabs_def refs_def)
    then have nm: "refcnt (bufs s ! b) \<noteq> - 1" using pre(2) unat_minus_1 [where 'a = 32] by auto
    have suc: "unat (refcnt (bufs s ! b) + 1) = R bn + 1"
      using rc pre(2) unat_plus_1 [of "refcnt (bufs s ! b)"] by simp
    have h: "holder s d bn = None" using abs pre(1) by (simp add: cabs_def)
    obtain s1 where g: "bget p d bn s = Some (Inr (b, s1))" "binv d s1" "slot s1 d bn = Some b" "bufs s1 ! b = ?x"
      "disk s1 = disk s" "writes s1 = writes s"
      "\<forall>bn'. bn' \<noteq> bn \<longrightarrow> view s1 d bn' = view s d bn' \<and> refs s1 d bn' = refs s d bn' \<and> holder s1 d bn' = holder s d bn'"
      "\<forall>bn'. slot s1 d bn' = slot s d bn'" "\<forall>c. c \<noteq> b \<longrightarrow> bufs s1 ! c = bufs s ! c"
      using bget_hit [OF inv Some h nm, of p] by blast
    have fr: "slot s1 d bn' = Some c \<and> bufs s1 ! c = bufs s ! c" if "bn' \<noteq> bn" "slot s d bn' = Some c" for bn' c
      using g(8,9) that slot_SomeD [OF that(2)] slot_SomeD [OF Some] by auto
    have "view s1 d bn = view s d bn" "refs s1 d bn = R bn + 1" "holder s1 d bn = Some p"
      using g(3,4,5) Some suc by (simp_all add: cache_obs)
    then have "cabs d s1 = (V, R(bn := R bn + 1), H(bn := Some p), D, W)"
      using g abs by (auto simp: cabs_def fun_eq_iff)
    then show ?thesis using g(1-4) suc fr by (intro exI [of _ b] exI [of _ s1]) auto
  next
    case None
    obtain ord where ord: "lru s ord" using inv by (auto simp: binv_def)
    have free: "\<exists>b<NBUF. refcnt (bufs s ! b) = 0" using pre(3) None by (simp add: available_def)
    obtain b s1 where g: "bget p d bn s = Some (Inr (b, s1))" "binv d s1" "slot s1 d bn = Some b"
      "\<not> valid (bufs s1 ! b)" "refcnt (bufs s1 ! b) = 1" "slocked (lock (bufs s1 ! b)) \<noteq> 0"
      "spid (lock (bufs s1 ! b)) = p" "disk s1 = disk s" "writes s1 = writes s"
      "\<forall>bn'. bn' \<noteq> bn \<longrightarrow> view s1 d bn' = view s d bn' \<and> refs s1 d bn' = refs s d bn' \<and> holder s1 d bn' = holder s d bn'"
      "\<forall>bn' c. bn' \<noteq> bn \<longrightarrow> slot s d bn' = Some c \<longrightarrow> 0 < refs s d bn' \<longrightarrow> slot s1 d bn' = Some c \<and> bufs s1 ! c = bufs s ! c"
      using bget_miss [OF inv None ord free, of p] by blast
    have "view s1 d bn = view s d bn" "refs s1 d bn = Suc 0" "refs s d bn = 0" "holder s1 d bn = Some p"
      using g(3-8) None by (simp_all add: cache_obs)
    then have "cabs d s1 = (V, R(bn := R bn + 1), H(bn := Some p), D, W)"
      using g abs by (auto simp: cabs_def fun_eq_iff)
    moreover have "R = refs s d" using abs by (simp add: cabs_def)
    ultimately show ?thesis using g by (intro exI [of _ b] exI [of _ s1]) auto
  qed
  then obtain b s1 where 1: "bget p d bn s = Some (Inr (b, s1))" "binv d s1" "slot s1 d bn = Some b"
    "refcnt (bufs s1 ! b) \<noteq> 0" "cabs d s1 = (V, R(bn := R bn + 1), H(bn := Some p), D, W)"
    "\<forall>bn' c. bn' \<noteq> bn \<longrightarrow> slot s d bn' = Some c \<longrightarrow> 0 < R bn' \<longrightarrow> slot s1 d bn' = Some c \<and> bufs s1 ! c = bufs s ! c"
    by blast
  let ?t = "if \<not> valid (bufs s1 ! b) then upd b (\<lambda>x. x\<lparr>valid := True\<rparr>) (virtio_disk_rw b False s1) else s1"
  note f = fill_spec [OF 1(2-4)]
  have "view s1 d bn = V bn" using 1(5) by (simp add: cabs_def)
  moreover have "slot ?t d bn' = Some c \<and> bufs ?t ! c = bufs s ! c"
    if "bn' \<noteq> bn" "slot s d bn' = Some c" "0 < R bn'" for bn' c
  proof -
    have "slot s1 d bn' = Some c" "bufs s1 ! c = bufs s ! c" using 1(6) that by auto
    moreover have "c \<noteq> b" using slot_SomeD [OF 1(3)] slot_SomeD [OF calculation(1)] that(1) by auto
    ultimately show ?thesis using f(6,7) by auto
  qed
  ultimately show ?thesis using 1 f by (simp add: bread_def)
qed

text \<open>Writing a held buffer.\<close>

lemma holder_held:
  assumes "slot s d bn = Some b" "holder s d bn = Some p"
  shows "holdingsleep p (lock (bufs s ! b))"
  using assms by (auto simp: holder_def holdingsleep_def split: if_splits)

lemma bwrite_spec:
  assumes inv: "binv d s" and abs: "cabs d s = (V, R, H, D, W)"
    and pre: "slot s d bn = Some b" "H bn = Some p" "valid (bufs s ! b)"
  shows "\<exists>s'. bwrite p b s = Inr s' \<and> binv d s' \<and> (\<forall>bn'. slot s' d bn' = slot s d bn') \<and> bufs s' = bufs s \<and>
    cabs d s' = (V, R, H, D(bn := V bn), W @ [(bn, V bn)])"
proof -
  have b: "b < NBUF" "dev (bufs s ! b) = d" "blockno (bufs s ! b) = bn" using slot_SomeD [OF pre(1)] by auto
  have a: "V = view s d" "R = refs s d" "H = holder s d" "D = disk s" "W = writes s" using abs by (auto simp: cabs_def)
  have Vb: "bdata (bufs s ! b) = V bn" using pre a by (simp add: view_def)
  let ?s = "s\<lparr>disk := D(bn := V bn), writes := W @ [(bn, V bn)]\<rparr>"
  have w: "bwrite p b s = Inr ?s"
    using holder_held [OF pre(1)] pre(2) a b Vb by (simp add: bwrite_def virtio_disk_rw_def)
  have sl: "slot (s\<lparr>disk := X, writes := Y\<rparr>) d bn' = slot s d bn'" for X Y bn' by (simp add: slot_def)
  have "cache_ok d ?s" using inv b Vb a by (auto simp: binv_def cache_ok_def)
  moreover have "\<exists>ord. lru ?s ord" using inv by (simp add: binv_def lru_def linked_def)
  moreover have "view ?s d bn' = V bn'" for bn'
    using pre(1,3) Vb a by (cases "bn' = bn") (auto simp: view_def sl split: option.split)
  moreover have "refs ?s d bn' = R bn'" "holder ?s d bn' = H bn'" for bn'
    using a by (auto simp: refs_def holder_def sl split: option.split)
  ultimately show ?thesis
    using w sl by (intro exI [of _ ?s]) (auto simp: binv_def cabs_def fun_eq_iff)
qed

text \<open>An update of the buffer of \<open>bn\<close> that keeps its key, seen through the interface.\<close>

lemma upd_cabs:
  assumes len: "length (bufs s) = Suc NBUF" and abs: "cabs d s = (V, R, H, D, W)" and sl: "slot s d bn = Some b"
    and key: "dev (f (bufs s ! b)) = d" "blockno (f (bufs s ! b)) = bn"
  shows "cabs d (upd b f s) =
    (V(bn := if valid (f (bufs s ! b)) then bdata (f (bufs s ! b)) else D bn),
     R(bn := unat (refcnt (f (bufs s ! b)))),
     H(bn := if slocked (lock (f (bufs s ! b))) \<noteq> 0 then Some (spid (lock (f (bufs s ! b)))) else None), D, W)"
proof -
  have b: "b < NBUF" using slot_SomeD [OF sl] by auto
  have a: "V = view s d" "R = refs s d" "H = holder s d" "D = disk s" "W = writes s" using abs by (auto simp: cabs_def)
  have n: "bufs (upd b f s) ! b = f (bufs s ! b)" using b len by (simp add: upd_nth)
  have o: "slot (upd b f s) d bn' = slot s d bn'" "bn' \<noteq> bn \<Longrightarrow> view (upd b f s) d bn' = view s d bn'"
    "bn' \<noteq> bn \<Longrightarrow> refs (upd b f s) d bn' = refs s d bn'" "bn' \<noteq> bn \<Longrightarrow> holder (upd b f s) d bn' = holder s d bn'" for bn'
    using upd_obs [where f = f, OF len sl key] by blast+
  have at: "view (upd b f s) d bn = (if valid (f (bufs s ! b)) then bdata (f (bufs s ! b)) else D bn)"
    "refs (upd b f s) d bn = unat (refcnt (f (bufs s ! b)))"
    "holder (upd b f s) d bn = (if slocked (lock (f (bufs s ! b))) \<noteq> 0 then Some (spid (lock (f (bufs s ! b)))) else None)"
    using o(1) [of bn] sl n a by (simp_all add: cache_obs)
  have "view (upd b f s) d bn' = (V(bn := if valid (f (bufs s ! b)) then bdata (f (bufs s ! b)) else D bn)) bn'"
    "refs (upd b f s) d bn' = (R(bn := unat (refcnt (f (bufs s ! b))))) bn'"
    "holder (upd b f s) d bn' = (H(bn := if slocked (lock (f (bufs s ! b))) \<noteq> 0 then Some (spid (lock (f (bufs s ! b)))) else None)) bn'" for bn'
    using o(2-4) [of bn'] at a by (cases "bn' = bn", simp_all)+
  then show ?thesis using a unfolding cabs_def by (auto simp: fun_eq_iff)
qed

lemma slot_obs:
  assumes "cabs d s = (V, R, H, D, W)" "slot s d bn = Some b"
  shows "unat (refcnt (bufs s ! b)) = R bn" "valid (bufs s ! b) \<Longrightarrow> bdata (bufs s ! b) = V bn"
    "H bn = (if slocked (lock (bufs s ! b)) \<noteq> 0 then Some (spid (lock (bufs s ! b))) else None)"
    "b < NBUF" "dev (bufs s ! b) = d" "blockno (bufs s ! b) = bn"
    "D = disk s" "(if valid (bufs s ! b) then bdata (bufs s ! b) else D bn) = V bn"
  using assms slot_SomeD [OF assms(2)] by (auto simp: cabs_def cache_obs)

lemma set_data_spec:
  assumes inv: "binv d s" and abs: "cabs d s = (V, R, H, D, W)"
    and pre: "slot s d bn = Some b" "valid (bufs s ! b)" "0 < R bn"
  shows "binv d (set_data b bs s)" "slot (set_data b bs s) d bn' = slot s d bn'"
    "valid (bufs (set_data b bs s) ! c) = valid (bufs s ! c)"
    "cabs d (set_data b bs s) = (V(bn := bs), R, H, D, W)"
proof -
  note o = slot_obs [OF abs pre(1)]
  have len: "length (bufs s) = Suc NBUF" using inv by (rule binv_length)
  have nz: "refcnt (bufs s ! b) \<noteq> 0" using o(1) pre(3) by auto
  show "binv d (set_data b bs s)" unfolding set_data_def by (rule binv_upd [OF inv o(4)]) (use nz o in auto)
  show "slot (set_data b bs s) d bn' = slot s d bn'" unfolding set_data_def by (rule upd_obs [OF len pre(1)]) (use o in auto)
  show "valid (bufs (set_data b bs s) ! c) = valid (bufs s ! c)" using o(4) len by (simp add: set_data_def upd_nth)
  show "cabs d (set_data b bs s) = (V(bn := bs), R, H, D, W)"
    unfolding set_data_def using upd_cabs [OF len abs pre(1), of "\<lambda>x. x\<lparr>bdata := bs\<rparr>"] o pre by auto
qed

lemma refcnt_minus_1:
  "unat (refcnt x) = n \<Longrightarrow> 0 < n \<Longrightarrow> unat (refcnt x - 1) = n - 1"
  using unat_minus_one [of "refcnt x"] by (cases "refcnt x = 0") auto

lemma bpin_spec:
  assumes inv: "binv d s" and abs: "cabs d s = (V, R, H, D, W)"
    and pre: "slot s d bn = Some b" "R bn < 2 ^ 32 - 1"
  shows "binv d (bpin b s)" "slot (bpin b s) d bn' = slot s d bn'" "valid (bufs (bpin b s) ! c) = valid (bufs s ! c)"
    "cabs d (bpin b s) = (V, R(bn := R bn + 1), H, D, W)"
proof -
  note o = slot_obs [OF abs pre(1)]
  have len: "length (bufs s) = Suc NBUF" using inv by (rule binv_length)
  have suc: "unat (refcnt (bufs s ! b) + 1) = R bn + 1" using o(1) pre(2) unat_plus_1 [of "refcnt (bufs s ! b)"] by simp
  then have nz: "refcnt (bufs s ! b) + 1 \<noteq> 0" by auto
  show "binv d (bpin b s)" unfolding bpin_def by (rule binv_upd [OF inv o(4)]) (use nz o in auto)
  show "slot (bpin b s) d bn' = slot s d bn'" unfolding bpin_def by (rule upd_obs [OF len pre(1)]) (use o in auto)
  show "valid (bufs (bpin b s) ! c) = valid (bufs s ! c)" using o(4) len by (simp add: bpin_def upd_nth)
  show "cabs d (bpin b s) = (V, R(bn := R bn + 1), H, D, W)"
    unfolding bpin_def using upd_cabs [OF len abs pre(1), of "\<lambda>x. x\<lparr>refcnt := refcnt x + 1\<rparr>"] o suc
    by (auto simp: fun_eq_iff)
qed

lemma bunpin_spec:
  assumes inv: "binv d s" and abs: "cabs d s = (V, R, H, D, W)"
    and pre: "slot s d bn = Some b" "1 < R bn"
  shows "binv d (bunpin b s)" "slot (bunpin b s) d bn' = slot s d bn'" "valid (bufs (bunpin b s) ! c) = valid (bufs s ! c)"
    "cabs d (bunpin b s) = (V, R(bn := R bn - 1), H, D, W)"
proof -
  note o = slot_obs [OF abs pre(1)]
  have len: "length (bufs s) = Suc NBUF" using inv by (rule binv_length)
  have dec: "unat (refcnt (bufs s ! b) - 1) = R bn - 1" using o(1) pre(2) by (intro refcnt_minus_1) auto
  then have nz: "refcnt (bufs s ! b) - 1 \<noteq> 0" using pre(2) by (metis diff_is_0_eq not_le unsigned_0)
  show "binv d (bunpin b s)" unfolding bunpin_def by (rule binv_upd [OF inv o(4)]) (use nz o in auto)
  show "slot (bunpin b s) d bn' = slot s d bn'" unfolding bunpin_def by (rule upd_obs [OF len pre(1)]) (use o in auto)
  show "valid (bufs (bunpin b s) ! c) = valid (bufs s ! c)" using o(4) len by (simp add: bunpin_def upd_nth)
  show "cabs d (bunpin b s) = (V, R(bn := R bn - 1), H, D, W)"
    unfolding bunpin_def using upd_cabs [OF len abs pre(1), of "\<lambda>x. x\<lparr>refcnt := refcnt x - 1\<rparr>"] o dec
    by (auto simp: fun_eq_iff)
qed

text \<open>Moving a buffer to the front changes only the order.\<close>

lemma move_front:
  assumes "binv d s" "b < NBUF" "lru s ord"
  shows "same_core s (insert_front b (unlink b s))" "lru (insert_front b (unlink b s)) (b # remove1 b ord)"
    "binv d (insert_front b (unlink b s))"
proof -
  obtain xs ys where o: "ord = xs @ b # ys" using assms by (metis atLeastLessThan_iff le0 lru_def split_list)
  then have l: "linked s (xs @ b # ys)" using assms(3) by (simp add: lru_def)
  have d: "distinct ord" "set ord = {0..<NBUF}" using assms(3) by (auto simp: lru_def linked_def)
  then have r: "remove1 b ord = xs @ ys" "b \<notin> set (xs @ ys)" using o by (auto simp: remove1_append)
  note u = unlink_linked [OF l]
  show c: "same_core s (insert_front b (unlink b s))"
    by (rule same_core_trans [OF unlink_core [OF l] insert_front_core [OF u assms(2)]])
  have "linked (insert_front b (unlink b s)) (b # xs @ ys)" by (rule insert_front_linked [OF u assms(2) r(2)])
  then show m: "lru (insert_front b (unlink b s)) (b # remove1 b ord)"
    using d o r by (auto simp: lru_def)
  show "binv d (insert_front b (unlink b s))"
    using m assms(1) same_core_obs(5) [OF c, of d] by (auto simp: binv_def)
qed

lemma brelse_spec:
  assumes inv: "binv d s" and abs: "cabs d s = (V, R, H, D, W)"
    and pre: "slot s d bn = Some b" "H bn = Some p" "0 < R bn" "R bn = 1 \<Longrightarrow> V bn = D bn"
  shows "\<exists>s'. brelse p b s = Inr s' \<and> binv d s' \<and> (\<forall>bn'. slot s' d bn' = slot s d bn') \<and>
    (\<forall>c<NBUF. valid (bufs s' ! c) = valid (bufs s ! c)) \<and>
    cabs d s' = (V, R(bn := R bn - 1), H(bn := None), D, W)"
proof -
  note o = slot_obs [OF abs pre(1)]
  have len: "length (bufs s) = Suc NBUF" using inv by (rule binv_length)
  have held: "holdingsleep p (lock (bufs s ! b))"
    using holder_held [OF pre(1)] pre(2) abs by (simp add: cabs_def)
  let ?f = "\<lambda>x. x\<lparr>lock := releasesleep (lock x), refcnt := refcnt x - 1\<rparr>"
  let ?s = "upd b ?f s"
  have two: "upd b (\<lambda>x. x\<lparr>refcnt := refcnt x - 1\<rparr>) (upd b (\<lambda>x. x\<lparr>lock := releasesleep (lock x)\<rparr>) s) = ?s"
    using o(4) len by (simp add: upd_def)
  have n: "bufs ?s ! b = ?f (bufs s ! b)" using o(4) len by (simp add: upd_nth)
  have dec: "unat (refcnt (bufs s ! b) - 1) = R bn - 1" using o(1) pre(3) by (rule refcnt_minus_1)
  then have z: "refcnt (bufs s ! b) - 1 = 0 \<longleftrightarrow> R bn = 1" using pre(3) by (auto simp: word_unat_eq_iff)
  have i: "binv d ?s"
    by (rule binv_upd [OF inv o(4)]) (use z pre(4) o in \<open>auto simp: releasesleep_def\<close>)
  have sl: "slot ?s d bn' = slot s d bn'" for bn' by (rule upd_obs [OF len pre(1)]) (use o in auto)
  have c: "cabs d ?s = (V, R(bn := R bn - 1), H(bn := None), D, W)"
    using upd_cabs [OF len abs pre(1), of ?f] o dec by (auto simp: fun_eq_iff releasesleep_def)
  have v: "valid (bufs ?s ! e) = valid (bufs s ! e)" for e using o(4) len by (simp add: upd_nth)
  have res: "brelse p b s = Inr (if R bn = 1 then insert_front b (unlink b ?s) else ?s)"
    using held z n two by (simp add: brelse_def Let_def)
  show ?thesis
  proof (cases "R bn = 1")
    case False
    then show ?thesis using res i sl c v by auto
  next
    case True
    obtain ord where ord: "lru ?s ord" using i by (auto simp: binv_def)
    note m = move_front [OF i o(4) ord]
    have "cabs d (insert_front b (unlink b ?s)) = cabs d ?s"
      using same_core_obs [OF m(1), of d] m(1) by (auto simp: cabs_def fun_eq_iff same_core_def)
    moreover have "valid (bufs (insert_front b (unlink b ?s)) ! e) = valid (bufs s ! e)" if "e < NBUF" for e
      using m(1) that v by (auto simp: same_core_def core_def)
    ultimately show ?thesis
      using True res m(3) sl c same_core_obs(1) [OF m(1), of d] by auto
  qed
qed

text \<open>Fewer than \<open>NBUF\<close> blocks in use leave a buffer for another block.\<close>

lemma available_card:
  assumes "binv d s" "cabs d s = (V, R, H, D, W)" "card {bn. 0 < R bn} < NBUF"
  shows "available d bn s"
proof (rule ccontr)
  assume "\<not> available d bn s"
  then have nz: "refcnt (bufs s ! b) \<noteq> 0" if "b < NBUF" for b using that by (auto simp: available_def)
  have ok: "cache_ok d s" using assms(1) by (simp add: binv_def)
  have R: "R = refs s d" using assms(2) by (simp add: cabs_def)
  let ?f = "\<lambda>b. blockno (bufs s ! b)"
  have "inj_on ?f {0..<NBUF}"
    using ok nz by (intro inj_onI) (auto simp: cache_ok_def)
  then have "card (?f ` {0..<NBUF}) = NBUF" by (simp add: card_image)
  moreover have "{bn. 0 < R bn} = ?f ` {0..<NBUF}"
  proof
    show "{bn. 0 < R bn} \<subseteq> ?f ` {0..<NBUF}"
    proof
      fix bn assume "bn \<in> {bn. 0 < R bn}"
      then obtain b where "slot s d bn = Some b" by (auto simp: R refs_def split: option.splits)
      then show "bn \<in> ?f ` {0..<NBUF}" using slot_SomeD [of s d bn b] by (auto intro!: image_eqI [of _ _ b])
    qed
    show "?f ` {0..<NBUF} \<subseteq> {bn. 0 < R bn}"
    proof clarify
      fix b assume "b \<in> {0..<NBUF}"
      then have "slot s d (?f b) = Some b" "refcnt (bufs s ! b) \<noteq> 0"
        using slot_Some [OF ok] ok nz by (auto simp: cache_ok_def)
      then show "0 < R (?f b)" by (simp add: R refs_def unat_gt_0)
    qed
  qed
  ultimately show False using assms(3) by simp
qed

text \<open>Without a buffer to recycle the kernel panics.\<close>

lemma bread_unavailable:
  assumes inv: "binv d s" and na: "\<not> available d bn s"
  shows "bread p d bn s = Some (Inl (Panic ''bget: no buffers''))"
proof -
  obtain ord where ord: "lru s ord" using inv by (auto simp: binv_def)
  have sg: "seg (nexts s) (prevs s) NBUF ord NBUF" "NBUF \<notin> set ord" "set ord = {0..<NBUF}"
    using ord by (auto simp: lru_def linked_def)
  let ?P = "\<lambda>x. dev x = d \<and> blockno x = bn"
  have "slot s d bn = None" "\<forall>b<NBUF. refcnt (bufs s ! b) \<noteq> 0" using na by (auto simp: available_def)
  then have "find (\<lambda>c. ?P (bufs s ! c)) ord = None" "find (\<lambda>c. refcnt (bufs s ! c) = 0) (rev ord) = None"
    using sg(3) by (auto simp: slot_None find_None_iff)
  then have "scan next ?P s (next (bufs s ! NBUF)) = Some (Inr NBUF)"
    "scan prev (\<lambda>x. refcnt x = 0) s (prev (bufs s ! NBUF)) = Some (Inr NBUF)"
    using scan_next [OF sg(1,2), of ?P] scan_prev [OF sg(1,2), of "\<lambda>x. refcnt x = 0"] by simp_all
  then show ?thesis by (simp add: bread_def bget_def)
qed

section \<open>Boot\<close>

definition zero_buf :: buf where
  "zero_buf = \<lparr>valid = False, dev = 0, blockno = 0, lock = \<lparr>slocked = 0, sname = [], spid = 0\<rparr>, refcnt = 0,
     prev = 0, next = 0, bdata = replicate BSIZE 0\<rparr>"

definition boot_cache :: "(uint \<Rightarrow> block) \<Rightarrow> bstate" where
  "boot_cache D = \<lparr>bufs = replicate (Suc NBUF) zero_buf, disk = D, writes = []\<rparr>"

definition unused :: "bstate \<Rightarrow> bool" where
  "unused s \<longleftrightarrow> (\<forall>b<NBUF. refcnt (bufs s ! b) = 0 \<and> dev (bufs s ! b) = 0 \<and> slocked (lock (bufs s ! b)) = 0)"

lemma unused_cong: "same_core s s' \<Longrightarrow> unused s \<Longrightarrow> unused s'"
  by (auto simp: unused_def same_core_def core_def)

lemma binit_loop:
  assumes "linked s ord" "distinct xs" "set xs \<subseteq> {0..<NBUF}" "set xs \<inter> set ord = {}" "unused s"
  defines "t \<equiv> foldl (\<lambda>s b. insert_front b (upd b (\<lambda>x. x\<lparr>lock := initsleeplock ''buffer''\<rparr>) s)) s xs"
  shows "linked t (rev xs @ ord) \<and> unused t \<and> disk t = disk s \<and> writes t = writes s"
  unfolding t_def using assms(1-5)
proof (induction xs arbitrary: s ord)
  case (Cons b xs)
  let ?s = "upd b (\<lambda>x. x\<lparr>lock := initsleeplock ''buffer''\<rparr>) s"
  have b: "b < NBUF" "b \<notin> set ord" using Cons.prems by auto
  have l: "linked ?s ord" using Cons.prems(1) b by (intro linked_upd) auto
  have len: "length (bufs s) = Suc NBUF" using Cons.prems(1) by (simp add: linked_def)
  have u: "unused ?s" using Cons.prems(5) b len by (auto simp: unused_def upd_nth initsleeplock_def)
  note c = insert_front_core [OF l b(1)]
  have "linked (insert_front b ?s) (b # ord)" by (rule insert_front_linked [OF l b])
  moreover have "unused (insert_front b ?s)" by (rule unused_cong [OF c u])
  moreover have "disk (insert_front b ?s) = disk s" "writes (insert_front b ?s) = writes s"
    using c by (simp_all add: same_core_def)
  ultimately show ?case using Cons.IH [of "insert_front b ?s" "b # ord"] Cons.prems by auto
qed simp

lemma binit_inv:
  assumes "d \<noteq> 0"
  shows "binv d (binit (boot_cache D))" "cabs d (binit (boot_cache D)) = (D, \<lambda>_. 0, \<lambda>_. None, D, [])"
proof -
  let ?s = "upd NBUF (\<lambda>x. x\<lparr>prev := NBUF, next := NBUF\<rparr>) (boot_cache D)"
  have n: "bufs ?s ! b = (if b = NBUF then zero_buf\<lparr>prev := NBUF, next := NBUF\<rparr> else zero_buf)" if "b \<le> NBUF" for b
    using that by (auto simp: upd_nth boot_cache_def simp del: replicate_Suc)
  have "linked ?s []" using n [of NBUF] by (simp add: linked_def boot_cache_def)
  moreover have "unused ?s" using n by (simp add: unused_def zero_buf_def)
  ultimately have t: "linked (binit (boot_cache D)) (rev [0..<NBUF])" "unused (binit (boot_cache D))"
    "disk (binit (boot_cache D)) = D" "writes (binit (boot_cache D)) = []"
    using binit_loop [of ?s "[]" "[0..<NBUF]"] unfolding binit_def Let_def by (auto simp: boot_cache_def)
  then show "binv d (binit (boot_cache D))"
    using assms by (auto simp: binv_def lru_def cache_ok_def unused_def)
  have "slot (binit (boot_cache D)) d bn = None" for bn using t(2) assms by (simp add: slot_None unused_def)
  then show "cabs d (binit (boot_cache D)) = (D, \<lambda>_. 0, \<lambda>_. None, D, [])"
    using t by (simp add: cabs_def cache_obs fun_eq_iff)
qed

section \<open>Clients of the cache\<close>

text \<open>
  The states that clients of the device \<open>d\<close> reach by any interleaving of calls. Buffers are
  changed only by the process that holds them, and are not released for the last time
  while they differ from the disk: \<open>log_write\<close> pins them, and \<open>bwrite\<close> makes them equal.
\<close>

inductive cache_reach :: "uint \<Rightarrow> (uint \<Rightarrow> block) \<Rightarrow> bstate \<Rightarrow> bool" for d D0 where
  c_boot: "cache_reach d D0 (binit (boot_cache D0))"
| c_read: "cache_reach d D0 s \<Longrightarrow> refs s d bn < 2 ^ 32 - 1 \<Longrightarrow> bread p d bn s = Some (Inr (b, s')) \<Longrightarrow>
     cache_reach d D0 s'"
| c_modify: "cache_reach d D0 s \<Longrightarrow> slot s d bn = Some b \<Longrightarrow> holder s d bn = Some p \<Longrightarrow> valid (bufs s ! b) \<Longrightarrow>
     0 < refs s d bn \<Longrightarrow> cache_reach d D0 (set_data b bs s)"
| c_write: "cache_reach d D0 s \<Longrightarrow> slot s d bn = Some b \<Longrightarrow> valid (bufs s ! b) \<Longrightarrow> bwrite p b s = Inr s' \<Longrightarrow>
     cache_reach d D0 s'"
| c_pin: "cache_reach d D0 s \<Longrightarrow> slot s d bn = Some b \<Longrightarrow> refs s d bn < 2 ^ 32 - 1 \<Longrightarrow> cache_reach d D0 (bpin b s)"
| c_unpin: "cache_reach d D0 s \<Longrightarrow> slot s d bn = Some b \<Longrightarrow> 1 < refs s d bn \<Longrightarrow> cache_reach d D0 (bunpin b s)"
| c_release: "cache_reach d D0 s \<Longrightarrow> slot s d bn = Some b \<Longrightarrow> 0 < refs s d bn \<Longrightarrow>
     (refs s d bn = 1 \<Longrightarrow> view s d bn = disk s bn) \<Longrightarrow> brelse p b s = Inr s' \<Longrightarrow> cache_reach d D0 s'"

lemma bwrite_holder: "slot s d bn = Some b \<Longrightarrow> bwrite p b s = Inr s' \<Longrightarrow> holder s d bn = Some p"
  by (auto simp: bwrite_def holder_def holdingsleep_def split: if_splits)

lemma brelse_holder: "slot s d bn = Some b \<Longrightarrow> brelse p b s = Inr s' \<Longrightarrow> holder s d bn = Some p"
  by (auto simp: brelse_def holder_def holdingsleep_def split: if_splits)

text \<open>A read of a held block sleeps.\<close>

lemma bread_held:
  assumes inv: "binv d s" and h: "holder s d bn \<noteq> None"
  shows "bread p d bn s = None"
proof -
  obtain ord where ord: "lru s ord" and ok: "cache_ok d s" using inv by (auto simp: binv_def)
  obtain b where b: "slot s d bn = Some b" "slocked (lock (bufs s ! b)) \<noteq> 0"
    using h by (auto simp: holder_def split: option.splits if_splits)
  have bn: "b < NBUF" "dev (bufs s ! b) = d" "blockno (bufs s ! b) = bn" using slot_SomeD [OF b(1)] by auto
  let ?P = "\<lambda>x. dev x = d \<and> blockno x = bn"
  have "find (\<lambda>c. ?P (bufs s ! c)) ord = Some b"
  proof (rule find_unique)
    show "\<exists>c\<in>set ord. ?P (bufs s ! c)" using ord bn by (auto simp: lru_def)
    show "c = b" if "c \<in> set ord" "?P (bufs s ! c)" for c
      using slot_Some [OF ok, of bn c] b(1) that ord by (auto simp: lru_def)
  qed
  moreover have "seg (nexts s) (prevs s) NBUF ord NBUF" "NBUF \<notin> set ord" using ord by (auto simp: lru_def linked_def)
  ultimately have "scan next ?P s (next (bufs s ! NBUF)) = Some (Inr b)"
    using scan_next [of s NBUF ord ?P] by simp
  moreover have "lock (bufs (upd b (\<lambda>x. x\<lparr>refcnt := refcnt x + 1\<rparr>) s) ! b) = lock (bufs s ! b)"
    using bn binv_length [OF inv] by (simp add: upd_nth)
  ultimately show ?thesis using bn b(2) by (simp add: bread_def bget_def lock_buf_def acquiresleep_def)
qed

lemma cabs_eq: "cabs d s = (view s d, refs s d, holder s d, disk s, writes s)"
  by (simp add: cabs_def)

lemma cache_reach_inv:
  assumes "cache_reach d D0 s" "d \<noteq> 0"
  shows "binv d s"
  using assms(1)
proof induction
  case c_boot
  show ?case by (rule binit_inv [OF assms(2)])
next
  case (c_read s bn p b s')
  have "holder s d bn = None" using bread_held [OF c_read.IH, of bn p] c_read.hyps(3) by (cases "holder s d bn") auto
  moreover have "available d bn s" using bread_unavailable [OF c_read.IH, of bn p] c_read.hyps(3) by auto
  ultimately show ?case using bread_spec [OF c_read.IH cabs_eq, of bn p] c_read.hyps by auto
next
  case (c_modify s bn b p bs)
  then show ?case using set_data_spec(1) [OF c_modify.IH cabs_eq] by blast
next
  case (c_write s bn b p s')
  then show ?case using bwrite_spec [OF c_write.IH cabs_eq, of bn b p] bwrite_holder by fastforce
next
  case (c_pin s bn b)
  then show ?case using bpin_spec(1) [OF c_pin.IH cabs_eq] by blast
next
  case (c_unpin s bn b)
  then show ?case using bunpin_spec(1) [OF c_unpin.IH cabs_eq] by blast
next
  case (c_release s bn b p s')
  then show ?case using brelse_spec [OF c_release.IH cabs_eq, of bn b p] brelse_holder by fastforce
qed

text \<open>
  Property C10 (the cache is transparent): in every state that clients reach, the recency list links
  every buffer exactly once, no block has two buffers, and \<open>bread\<close> of a block nobody holds
  returns the one buffer of that block, locked by the caller, with the last contents
  written to it through the cache or else the disk's, changing what no reader sees. It
  panics exactly when the block is not cached and every buffer is in use.
\<close>

theorem bread_current:
  assumes "cache_reach d D0 s" "d \<noteq> 0" "holder s d bn = None" "refs s d bn < 2 ^ 32 - 1"
  shows "(\<exists>ord. lru s ord) \<and>
    (\<forall>b<NBUF. \<forall>c<NBUF. dev (bufs s ! b) = d \<and> dev (bufs s ! c) = d \<and> blockno (bufs s ! b) = blockno (bufs s ! c) \<longrightarrow> b = c) \<and>
    (if available d bn s
     then \<exists>b s'. bread p d bn s = Some (Inr (b, s')) \<and> dev (bufs s' ! b) = d \<and> blockno (bufs s' ! b) = bn \<and>
       valid (bufs s' ! b) \<and> bdata (bufs s' ! b) = view s d bn \<and> holdingsleep p (lock (bufs s' ! b)) \<and>
       view s' d = view s d \<and> disk s' = disk s \<and> refs s' d = (refs s d)(bn := refs s d bn + 1)
     else bread p d bn s = Some (Inl (Panic ''bget: no buffers'')))"
proof -
  have inv: "binv d s" by (rule cache_reach_inv [OF assms(1,2)])
  have "\<exists>b s'. bread p d bn s = Some (Inr (b, s')) \<and> dev (bufs s' ! b) = d \<and> blockno (bufs s' ! b) = bn \<and>
       valid (bufs s' ! b) \<and> bdata (bufs s' ! b) = view s d bn \<and> holdingsleep p (lock (bufs s' ! b)) \<and>
       view s' d = view s d \<and> disk s' = disk s \<and> refs s' d = (refs s d)(bn := refs s d bn + 1)"
    if av: "available d bn s"
  proof -
    obtain b s' where r: "bread p d bn s = Some (Inr (b, s'))" "slot s' d bn = Some b" "valid (bufs s' ! b)"
      "bdata (bufs s' ! b) = view s d bn"
      "cabs d s' = (view s d, (refs s d)(bn := refs s d bn + 1), (holder s d)(bn := Some p), disk s, writes s)"
      using bread_spec [OF inv cabs_eq assms(3,4) av, of p] by blast
    then have "holder s' d bn = Some p" by (simp add: cabs_def)
    then show ?thesis using r slot_SomeD [OF r(2)] holder_held [OF r(2)] by (auto simp: cabs_def)
  qed
  moreover have "bread p d bn s = Some (Inl (Panic ''bget: no buffers''))" if "\<not> available d bn s"
    by (rule bread_unavailable [OF inv that])
  ultimately show ?thesis using inv by (auto simp: binv_def cache_ok_def)
qed

theorem bread_current_witness:
  "let s = binit (boot_cache (\<lambda>_. [])) in (\<exists>ord. lru s ord) \<and>
    (\<forall>b<NBUF. \<forall>c<NBUF. dev (bufs s ! b) = 1 \<and> dev (bufs s ! c) = 1 \<and> blockno (bufs s ! b) = blockno (bufs s ! c) \<longrightarrow> b = c) \<and>
    (if available 1 7 s
     then \<exists>b s'. bread 3 1 7 s = Some (Inr (b, s')) \<and> dev (bufs s' ! b) = 1 \<and> blockno (bufs s' ! b) = 7 \<and>
       valid (bufs s' ! b) \<and> bdata (bufs s' ! b) = view s 1 7 \<and> holdingsleep 3 (lock (bufs s' ! b)) \<and>
       view s' 1 = view s 1 \<and> disk s' = disk s \<and> refs s' 1 = (refs s 1)(7 := refs s 1 7 + 1)
     else bread 3 1 7 s = Some (Inl (Panic ''bget: no buffers'')))"
  unfolding Let_def
  by (rule bread_current [OF c_boot]) (use binit_inv(2) [of 1] in \<open>simp_all add: cabs_def\<close>)

end
