(* ===== verification/Physmem.thy ===== *)
theory Physmem
  imports Kstring
begin

text \<open>
  Multi-byte values in memory: little-endian encodings of natural numbers as byte lists,
  regions of the byte-addressed memory of \<open>Kstring\<close>, and 64-bit loads and stores.
\<close>

section \<open>Little-endian bytes\<close>

fun le_bytes :: "nat \<Rightarrow> nat \<Rightarrow> uchar list" where
  "le_bytes 0 x = []"
| "le_bytes (Suc n) x = of_nat x # le_bytes n (x div 256)"

fun le_nat :: "uchar list \<Rightarrow> nat" where
  "le_nat [] = 0"
| "le_nat (b # bs) = unat b + 256 * le_nat bs"

lemma length_le_bytes [simp]: "length (le_bytes n x) = n"
  by (induction n arbitrary: x) auto

lemma le_nat_le_bytes: "le_nat (le_bytes n x) = x mod 256 ^ n"
proof (induction n arbitrary: x)
  case (Suc n)
  have "unat (of_nat x :: uchar) = x mod 256" by (simp add: unat_of_nat)
  then show ?case using Suc by (simp add: mod_mult2_eq)
qed simp

lemma le_nat_bound: "le_nat bs < 256 ^ length bs"
proof (induction bs)
  case (Cons b bs)
  have "unat b < 256" using unat_bound [of b] by simp
  then show ?case using Cons by simp
qed simp

lemma le_bytes_le_nat: "le_bytes (length bs) (le_nat bs) = bs"
proof (induction bs)
  case (Cons b bs)
  have b: "unat b < 256" using unat_bound [of b] by simp
  have "unat (of_nat (unat b + 256 * le_nat bs) :: uchar) = unat b"
    using b by (simp add: unat_of_nat del: of_nat_add of_nat_mult)
  then have "of_nat (unat b + 256 * le_nat bs) = b" by (simp only: word_unat_eq_iff)
  moreover have "(unat b + 256 * le_nat bs) div 256 = le_nat bs" using b by simp
  ultimately show ?case using Cons by simp
qed simp

section \<open>Regions\<close>

definition load_bytes :: "mem \<Rightarrow> uint64 \<Rightarrow> nat \<Rightarrow> uchar list" where
  "load_bytes m a n = map (\<lambda>i. m (a + of_nat i)) [0..<n]"

definition store_bytes :: "mem \<Rightarrow> uint64 \<Rightarrow> uchar list \<Rightarrow> mem" where
  "store_bytes m a bs = (\<lambda>x. if unat (x - a) < length bs then bs ! unat (x - a) else m x)"

lemma length_load_bytes [simp]: "length (load_bytes m a n) = n"
  by (simp add: load_bytes_def)

lemma load_store_same: "length bs < 2 ^ 64 \<Longrightarrow> load_bytes (store_bytes m a bs) a (length bs) = bs"
  by (rule nth_equalityI) (auto simp: load_bytes_def store_bytes_def unat_of_nat_less)

text \<open>Two regions are apart when no address is in both.\<close>

definition apart :: "uint64 \<Rightarrow> nat \<Rightarrow> uint64 \<Rightarrow> nat \<Rightarrow> bool" where
  "apart a n b k \<longleftrightarrow> (\<forall>i<n. \<not> unat (a + of_nat i - b) < k)"

lemma load_store_apart: "apart a n b (length bs) \<Longrightarrow> load_bytes (store_bytes m b bs) a n = load_bytes m a n"
  by (auto simp: load_bytes_def store_bytes_def apart_def)

lemma load_bytes_cong:
  "(\<And>i. i < n \<Longrightarrow> m (a + of_nat i) = m' (a + of_nat i)) \<Longrightarrow> load_bytes m a n = load_bytes m' a n"
  by (simp add: load_bytes_def)

section \<open>64-bit loads and stores\<close>

definition load64 :: "mem \<Rightarrow> uint64 \<Rightarrow> uint64" where
  "load64 m a = of_nat (le_nat (load_bytes m a 8))"

definition store64 :: "mem \<Rightarrow> uint64 \<Rightarrow> uint64 \<Rightarrow> mem" where
  "store64 m a v = store_bytes m a (le_bytes 8 (unat v))"

lemma load64_store64 [simp]: "load64 (store64 m a v) a = v"
proof -
  have "load_bytes (store64 m a v) a 8 = le_bytes 8 (unat v)"
    unfolding store64_def using load_store_same [of "le_bytes 8 (unat v)" m a] by simp
  moreover have "unat v mod 256 ^ 8 = unat v" using unat_bound [of v] by (intro mod_less) simp
  ultimately show ?thesis by (simp add: load64_def le_nat_le_bytes)
qed

lemma aligned_room:
  fixes a :: nat
  assumes "a mod d = 0" "a < d * e" "k < d"
  shows "a + k < d * e"
proof -
  obtain q where q: "a = d * q" using assms(1) by (metis mod_0_imp_dvd dvdE)
  then have "q < e" using assms(2) by simp
  then have "d * (q + 1) \<le> d * e" by (intro mult_le_mono) auto
  then show ?thesis using q assms(3) by simp
qed

text \<open>Aligned words do not overlap.\<close>

lemma aligned_apart:
  fixes a b :: uint64
  assumes "unat a mod 8 = 0" "unat b mod 8 = 0" "a \<noteq> b"
  shows "apart a 8 b 8"
  unfolding apart_def
proof (intro allI impI notI)
  fix i :: nat assume i: "i < 8" and "unat (a + of_nat i - b) < 8"
  moreover have "a + of_nat i = b + of_nat (unat (a + of_nat i - b))" by simp
  ultimately obtain j where j: "j < 8" "a + of_nat i = b + of_nat j" by metis
  have wrap: "unat (c + of_nat k) = unat c + k" if "unat c mod 8 = 0" "k < 8" for c :: uint64 and k
  proof -
    have "unat c < 8 * 2 ^ 61" using unat_bound [of c] by simp
    then have "unat c + k < 8 * 2 ^ 61" using that by (intro aligned_room)
    then show ?thesis by (intro unat_add_of_nat) simp
  qed
  have "unat a + i = unat b + j" using wrap [OF assms(1) i] wrap [OF assms(2) j(1)] j(2) by metis
  then have "unat a = unat b" using assms i j(1) by presburger
  then show False using assms(3) by (simp add: word_unat_eq_iff)
qed

lemma load64_store64_other:
  "unat a mod 8 = 0 \<Longrightarrow> unat b mod 8 = 0 \<Longrightarrow> a \<noteq> b \<Longrightarrow> load64 (store64 m b v) a = load64 m a"
  unfolding load64_def store64_def by (simp add: load_store_apart aligned_apart)

lemma store64_outside: "8 \<le> unat (x - a) \<Longrightarrow> store64 m a v x = m x"
  by (simp add: store64_def store_bytes_def)

lemma load64_cong: "(\<And>i. i < 8 \<Longrightarrow> m (a + of_nat i) = m' (a + of_nat i)) \<Longrightarrow> load64 m a = load64 m' a"
  unfolding load64_def by (metis load_bytes_cong)

section \<open>Memset\<close>

lemma memset_loop_at:
  "k + i < 2 ^ 64 \<Longrightarrow> memset_loop k m dst c i a = (if i \<le> unat (a - dst) \<and> unat (a - dst) < i + k then c else m a)"
proof (induction k arbitrary: m i)
  case (Suc k)
  have "a = dst + of_nat i \<longleftrightarrow> unat (a - dst) = i"
    using Suc.prems offset_add [of i dst] add_offset [of dst a] by (metis add_lessD1 add.commute)
  then show ?case using Suc by auto
qed auto

lemma memset_at: "memset m dst c n a = (if unat (a - dst) < unat n then ucast c else m a)"
  using unat_bound [of n] by (simp add: memset_def memset_loop_at)

section \<open>Pages\<close>

definition PGSIZE :: uint64 where "PGSIZE = 4096"

abbreviation page_aligned :: "uint64 \<Rightarrow> bool" where "page_aligned p \<equiv> p mod PGSIZE = 0"

unbundle bit_operations_syntax

definition PGROUNDUP :: "uint64 \<Rightarrow> uint64" where
  "PGROUNDUP sz = (sz + PGSIZE - 1) AND NOT (PGSIZE - 1)"

definition PGROUNDDOWN :: "uint64 \<Rightarrow> uint64" where
  "PGROUNDDOWN a = a AND NOT (PGSIZE - 1)"

lemma round_down_unat: "unat (a AND NOT (PGSIZE - 1)) = unat a div 4096 * 4096"
proof -
  have "PGSIZE - 1 = mask 12" by (simp add: PGSIZE_def mask_eq_exp_minus_1)
  then have e: "a AND NOT (PGSIZE - 1) = push_bit 12 (drop_bit 12 a)"
    by (auto intro!: bit_word_eqI simp: bit_and_iff bit_not_iff bit_mask_iff bit_push_bit_iff bit_drop_bit_eq not_less)
  have lt: "unat a div 4096 * 4096 < 2 ^ 64"
    using unat_bound [of a] by (intro le_less_trans [OF div_times_less_eq_dividend]) simp
  have "unat (push_bit 12 (drop_bit 12 a)) = take_bit 64 (unat a div 4096 * 4096)"
    unfolding unsigned_push_bit_eq unsigned_drop_bit_eq
    by (simp add: drop_bit_eq_div push_bit_eq_mult take_bit_nat_eq_self unat_bound [of a, simplified])
  then show ?thesis using e lt by (simp add: take_bit_nat_eq_self)
qed

lemma PGROUNDDOWN_unat: "unat (PGROUNDDOWN a) = unat a div 4096 * 4096"
  unfolding PGROUNDDOWN_def by (rule round_down_unat)

lemma PGROUNDUP_unat:
  assumes "unat sz + 4095 < 2 ^ 64"
  shows "unat (PGROUNDUP sz) = (unat sz + 4095) div 4096 * 4096"
proof -
  have "sz + PGSIZE - 1 = sz + of_nat 4095" by (simp add: PGSIZE_def)
  then have "unat (sz + PGSIZE - 1) = unat sz + 4095" by (simp only: unat_add_of_nat [OF assms])
  then show ?thesis unfolding PGROUNDUP_def by (simp add: round_down_unat)
qed

lemma page_aligned_unat: "page_aligned p \<longleftrightarrow> unat p mod 4096 = 0"
  by (simp add: PGSIZE_def word_arith_nat_mod word_unat_eq_iff unat_of_nat_less)

text \<open>Offsets inside an aligned page do not wrap around.\<close>

lemma page_offset:
  assumes "page_aligned p" "i < 4096"
  shows "unat (p + of_nat i) = unat p + i"
proof -
  have "unat p < 4096 * 2 ^ 52" using unat_bound [of p] by simp
  then have "unat p + i < 4096 * 2 ^ 52" using assms by (intro aligned_room) (simp_all add: page_aligned_unat)
  then show ?thesis by (intro unat_add_of_nat) simp
qed

lemma in_page_iff:
  assumes "page_aligned p"
  shows "unat (x - p) < 4096 \<longleftrightarrow> unat x div 4096 = unat p div 4096"
proof -
  obtain q where q: "unat p = 4096 * q" using assms by (metis page_aligned_unat mod_0_imp_dvd dvdE)
  show ?thesis
  proof
    assume o: "unat (x - p) < 4096"
    then have "unat x = 4096 * q + unat (x - p)" using page_offset [OF assms, of "unat (x - p)"] q by simp
    then show "unat x div 4096 = unat p div 4096" using o q by simp
  next
    assume "unat x div 4096 = unat p div 4096"
    then have "unat x div 4096 = q" using q by simp
    then have "unat x = 4096 * q + unat x mod 4096" by (metis mult_div_mod_eq)
    moreover have "unat x mod 4096 < 4096" by simp
    ultimately have "unat p \<le> unat x" "unat x - unat p < 4096" using q by linarith+
    then show "unat (x - p) < 4096" by (simp add: unat_sub word_le_nat_alt)
  qed
qed

lemma pages_disjoint:
  assumes "page_aligned p" "page_aligned q" "p \<noteq> q" "unat (x - p) < 4096"
  shows "\<not> unat (x - q) < 4096"
proof
  assume "unat (x - q) < 4096"
  then have d: "unat p div 4096 = unat q div 4096" using assms in_page_iff by metis
  have "unat p = 4096 * (unat p div 4096)" "unat q = 4096 * (unat q div 4096)"
    using assms(1,2) by (simp_all add: page_aligned_unat mod_0_imp_dvd)
  then have "unat p = unat q" using d by simp
  then show False using assms(3) by (simp add: word_unat_eq_iff)
qed

end
