(* ===== verification/Log.thy ===== *)
theory Log
  imports Bio Physmem
begin

text \<open>
  The write-ahead log (\<open>kernel/log.c\<close>) over the buffer cache. A file system call collects the
  numbers of the blocks it changes with \<open>log_write\<close>; \<open>commit\<close> copies them to the log area,
  writes the header, installs them at home and clears the header. The header is stored in
  a block as the code lays it out: 32-bit little-endian words, the count first. \<open>begin_op\<close>
  that has to wait gives \<open>None\<close>.
\<close>

section \<open>The header block\<close>

definition MAXOPBLOCKS :: nat where "MAXOPBLOCKS = 10"
definition LOGSIZE :: nat where "LOGSIZE = MAXOPBLOCKS * 3"

text \<open>The \<open>i\<close>-th 32-bit word of a block.\<close>

definition get32 :: "block \<Rightarrow> nat \<Rightarrow> uint" where
  "get32 bs i = of_nat (le_nat (take 4 (drop (4 * i) bs)))"

definition put32 :: "block \<Rightarrow> nat \<Rightarrow> uint \<Rightarrow> block" where
  "put32 bs i v = take (4 * i) bs @ le_bytes 4 (unat v) @ drop (4 * i + 4) bs"

section \<open>State\<close>

record log =
  l_start :: uint
  l_size :: int
  outstanding :: int
  committing :: bool
  l_dev :: uint
  lh_n :: int
  lh_block :: "uint list"

record fsys =
  fl :: log
  fc :: bstate

section \<open>Installing and recovering\<close>

definition log_block :: "log \<Rightarrow> nat \<Rightarrow> uint" where
  "log_block l tail = l_start l + of_nat tail + 1"

text \<open>One turn of the loop of \<open>install_trans\<close>.\<close>

definition install_one :: "int \<Rightarrow> bool \<Rightarrow> log \<Rightarrow> nat \<Rightarrow> bstate \<Rightarrow> bstate run" where
  "install_one p recovering l tail s =
     bind_run (bread p (l_dev l) (log_block l tail) s) (\<lambda>(lbuf, s).
     bind_run (bread p (l_dev l) (lh_block l ! tail) s) (\<lambda>(dbuf, s).
     bind_run (Some (bwrite p dbuf (set_data dbuf (bdata (bufs s ! lbuf)) s))) (\<lambda>s.
     let s = (if \<not> recovering then bunpin dbuf s else s) in
     bind_run (Some (brelse p lbuf s)) (\<lambda>s.
     Some (brelse p dbuf s)))))"

definition install_trans :: "int \<Rightarrow> bool \<Rightarrow> log \<Rightarrow> bstate \<Rightarrow> bstate run" where
  "install_trans p recovering l = run_for (install_one p recovering l) [0..<nat (lh_n l)]"

text \<open>The copying loops of \<open>read_head\<close> and \<open>write_head\<close>.\<close>

definition head_blocks :: "block \<Rightarrow> nat \<Rightarrow> uint list \<Rightarrow> uint list cresult" where
  "head_blocks bs n old =
     (if LOGSIZE < n then Inl (OutOfBounds (int LOGSIZE))
      else Inr (map (\<lambda>i. get32 bs (i + 1)) [0..<n] @ drop n old))"

definition head_block :: "int \<Rightarrow> uint list \<Rightarrow> block \<Rightarrow> block" where
  "head_block n blocks bs =
     foldl (\<lambda>bs i. put32 bs (i + 1) (blocks ! i)) (put32 bs 0 (of_int n)) [0..<nat n]"

definition read_head :: "int \<Rightarrow> fsys \<Rightarrow> fsys run" where
  "read_head p k =
     bind_run (bread p (l_dev (fl k)) (l_start (fl k)) (fc k)) (\<lambda>(b, s).
     let bs = bdata (bufs s ! b); n = sint (get32 bs 0) in
     bind_run (Some (head_blocks bs (nat n) (lh_block (fl k)))) (\<lambda>blocks.
     bind_run (Some (brelse p b s)) (\<lambda>s.
     Some (Inr (k\<lparr>fl := (fl k)\<lparr>lh_n := n, lh_block := blocks\<rparr>, fc := s\<rparr>)))))"

definition write_head :: "int \<Rightarrow> log \<Rightarrow> bstate \<Rightarrow> bstate run" where
  "write_head p l s =
     bind_run (bread p (l_dev l) (l_start l) s) (\<lambda>(b, s).
     bind_run (Some (bwrite p b (set_data b (head_block (lh_n l) (lh_block l) (bdata (bufs s ! b))) s))) (\<lambda>s.
     Some (brelse p b s)))"

definition recover_from_log :: "int \<Rightarrow> fsys \<Rightarrow> fsys run" where
  "recover_from_log p k =
     bind_run (read_head p k) (\<lambda>k.
     bind_run (install_trans p True (fl k) (fc k)) (\<lambda>s.
     let l = (fl k)\<lparr>lh_n := 0\<rparr> in
     bind_run (write_head p l s) (\<lambda>s. Some (Inr \<lparr>fl = l, fc = s\<rparr>))))"

definition initlog :: "int \<Rightarrow> uint \<Rightarrow> uint \<Rightarrow> uint \<Rightarrow> fsys \<Rightarrow> fsys run" where
  "initlog p d logstart nlog k =
     (if 4 * (LOGSIZE + 1) \<ge> BSIZE then Some (Inl (Panic ''initlog: too big logheader''))
      else recover_from_log p (k\<lparr>fl := (fl k)\<lparr>l_start := logstart, l_size := sint nlog, l_dev := d\<rparr>\<rparr>))"

section \<open>Committing\<close>

definition write_one :: "int \<Rightarrow> log \<Rightarrow> nat \<Rightarrow> bstate \<Rightarrow> bstate run" where
  "write_one p l tail s =
     bind_run (bread p (l_dev l) (log_block l tail) s) (\<lambda>(to, s).
     bind_run (bread p (l_dev l) (lh_block l ! tail) s) (\<lambda>(from, s).
     bind_run (Some (bwrite p to (set_data to (bdata (bufs s ! from)) s))) (\<lambda>s.
     bind_run (Some (brelse p from s)) (\<lambda>s.
     Some (brelse p to s)))))"

definition write_log :: "int \<Rightarrow> log \<Rightarrow> bstate \<Rightarrow> bstate run" where
  "write_log p l = run_for (write_one p l) [0..<nat (lh_n l)]"

definition commit :: "int \<Rightarrow> fsys \<Rightarrow> fsys run" where
  "commit p k =
     (if lh_n (fl k) > 0
      then bind_run (write_log p (fl k) (fc k)) (\<lambda>s.
           bind_run (write_head p (fl k) s) (\<lambda>s.
           bind_run (install_trans p False (fl k) s) (\<lambda>s.
           let l = (fl k)\<lparr>lh_n := 0\<rparr> in
           bind_run (write_head p l s) (\<lambda>s. Some (Inr \<lparr>fl = l, fc = s\<rparr>)))))
      else Some (Inr k))"

definition begin_op :: "log \<Rightarrow> log option" where
  "begin_op l =
     (if committing l then None
      else if lh_n l + (outstanding l + 1) * int MAXOPBLOCKS > int LOGSIZE then None
      else Some (l\<lparr>outstanding := outstanding l + 1\<rparr>))"

definition end_op :: "int \<Rightarrow> fsys \<Rightarrow> fsys run" where
  "end_op p k =
     (let l = (fl k)\<lparr>outstanding := outstanding (fl k) - 1\<rparr>
      in if committing l then Some (Inl (Panic ''log.committing''))
         else if outstanding l = 0
              then bind_run (commit p (k\<lparr>fl := l\<lparr>committing := True\<rparr>\<rparr>)) (\<lambda>k.
                     Some (Inr (k\<lparr>fl := (fl k)\<lparr>committing := False\<rparr>\<rparr>)))
              else Some (Inr (k\<lparr>fl := l\<rparr>)))"

text \<open>The search loop of \<open>log_write\<close>: the index of the block in the log, or \<open>n\<close>.\<close>

fun absorb_index :: "uint list \<Rightarrow> uint \<Rightarrow> nat \<Rightarrow> nat \<Rightarrow> nat" where
  "absorb_index blocks bn 0 i = i"
| "absorb_index blocks bn (Suc k) i = (if blocks ! i = bn then i else absorb_index blocks bn k (i + 1))"

definition log_write :: "nat \<Rightarrow> fsys \<Rightarrow> fsys cresult" where
  "log_write b k =
     (let l = fl k; bn = blockno (bufs (fc k) ! b)
      in if lh_n l \<ge> int LOGSIZE \<or> lh_n l \<ge> l_size l - 1 then Inl (Panic ''too big a transaction'')
         else if outstanding l < 1 then Inl (Panic ''log_write outside of trans'')
         else let i = absorb_index (lh_block l) bn (nat (lh_n l)) 0;
                  l' = l\<lparr>lh_block := (lh_block l)[i := bn]\<rparr>
              in if int i = lh_n l
                 then Inr \<lparr>fl = l'\<lparr>lh_n := lh_n l + 1\<rparr>, fc = bpin b (fc k)\<rparr>
                 else Inr (k\<lparr>fl := l'\<rparr>))"

section \<open>Words in blocks\<close>

lemma length_put32: "4 * i + 4 \<le> length bs \<Longrightarrow> length (put32 bs i v) = length bs"
  by (simp add: put32_def)

lemma get32_put32:
  assumes "4 * i + 4 \<le> length bs" "4 * j + 4 \<le> length bs"
  shows "get32 (put32 bs i v) j = (if i = j then v else get32 bs j)"
proof (cases "i = j")
  case True
  have "take 4 (drop (4 * i) (put32 bs i v)) = le_bytes 4 (unat v)"
    using assms(1) by (simp add: put32_def)
  moreover have "unat v mod 256 ^ 4 = unat v" using unat_bound [of v] by (intro mod_less) simp
  ultimately show ?thesis using True by (simp add: get32_def le_nat_le_bytes)
next
  case False
  have "take 4 (drop (4 * j) (put32 bs i v)) = take 4 (drop (4 * j) bs)"
  proof (cases "j < i")
    case True
    then have "4 * j + 4 \<le> 4 * i" by simp
    then show ?thesis using assms by (simp add: put32_def drop_take)
  next
    case False
    with \<open>i \<noteq> j\<close> have "4 * i + 4 \<le> 4 * j" by simp
    then show ?thesis using assms by (simp add: put32_def)
  qed
  then show ?thesis using False by (simp add: get32_def)
qed

lemma head_block_facts:
  assumes "4 * n + 4 \<le> length bs" "0 \<le> m" "nat m = n"
  shows "length (head_block m blocks bs) = length bs \<and> get32 (head_block m blocks bs) 0 = of_int m \<and>
    (\<forall>i<n. get32 (head_block m blocks bs) (i + 1) = blocks ! i)"
proof -
  let ?b0 = "put32 bs 0 (of_int m)"
  let ?f = "\<lambda>bs i. put32 bs (i + 1) (blocks ! i)"
  have l0: "length ?b0 = length bs" using assms(1) by (simp add: length_put32)
  have "length (foldl ?f ?b0 [0..<k]) = length bs \<and> get32 (foldl ?f ?b0 [0..<k]) 0 = of_int m \<and>
      (\<forall>i<k. get32 (foldl ?f ?b0 [0..<k]) (i + 1) = blocks ! i)" if "k \<le> n" for k
    using that
  proof (induction k)
    case 0
    then show ?case using l0 assms(1) by (simp add: get32_put32)
  next
    case (Suc k)
    then have "4 * (k + 1) + 4 \<le> length bs" using assms(1) by simp
    then show ?case using Suc by (auto simp: length_put32 get32_put32 less_Suc_eq)
  qed
  then show ?thesis using assms(3) by (simp add: head_block_def)
qed

section \<open>One block at a time\<close>

text \<open>A block that nobody references shows what is on the disk.\<close>

lemma unreferenced_clean:
  assumes "binv d s" "cabs d s = (V, R, H, D, W)" "R bn = 0"
  shows "V bn = D bn" "H bn = None"
proof -
  have a: "V = view s d" "R = refs s d" "H = holder s d" "D = disk s" using assms(2) by (auto simp: cabs_def)
  have "V bn = D bn \<and> H bn = None"
  proof (cases "slot s d bn")
    case (Some b)
    then have z: "refcnt (bufs s ! b) = 0" using assms(3) by (simp add: a refs_def unat_0_iff)
    have b: "b < NBUF" "dev (bufs s ! b) = d" "blockno (bufs s ! b) = bn" using slot_SomeD [OF Some] by auto
    have "\<forall>b<NBUF. refcnt (bufs s ! b) = 0 \<longrightarrow> slocked (lock (bufs s ! b)) = 0 \<and>
        (dev (bufs s ! b) = d \<longrightarrow> valid (bufs s ! b) \<longrightarrow> bdata (bufs s ! b) = disk s (blockno (bufs s ! b)))"
      using assms(1) by (simp add: binv_def cache_ok_def)
    then have "slocked (lock (bufs s ! b)) = 0" "valid (bufs s ! b) \<longrightarrow> bdata (bufs s ! b) = disk s bn"
      using z b by auto
    then show ?thesis using Some by (simp add: a view_def holder_def)
  qed (simp add: a cache_obs)
  then show "V bn = D bn" "H bn = None" by auto
qed

lemma referenced_available:
  assumes "cabs d s = (V, R, H, D, W)" "0 < R bn"
  shows "available d bn s"
  using assms by (auto simp: cabs_def refs_def available_def split: option.splits)

lemma card_insert_le_Suc: "card (insert a (A :: uint set)) \<le> Suc (card A)"
  by (simp add: card_insert_if)

lemma card_used_update:
  fixes R :: "uint \<Rightarrow> nat"
  shows "card {x. 0 < (R(bn := v)) x} \<le> Suc (card {x. 0 < R x})"
proof -
  have "{x. 0 < (R(bn := v)) x} \<subseteq> insert bn {x. 0 < R x}" by auto
  then have "card {x. 0 < (R(bn := v)) x} \<le> card (insert bn {x. 0 < R x})" by (rule card_mono [rotated]) simp
  also have "\<dots> \<le> Suc (card {x. 0 < R x})" by (rule card_insert_le_Suc)
  finally show ?thesis .
qed

text \<open>
  Two blocks are brought into the cache, \<open>a\<close> first. This is how both loops of the log begin.
\<close>

lemma bread_two:
  assumes inv: "binv d s" and abs: "cabs d s = (V, R, H, D, W)"
    and ab: "a \<noteq> b" "H a = None" "H b = None" "R a < 2 ^ 31" "R b < 2 ^ 31"
    and room: "card {x. 0 < R x} < NBUF" "0 < R b \<or> Suc (card {x. 0 < R x}) < NBUF"
  shows "\<exists>i j s1 s2. bread p d a s = Some (Inr (i, s1)) \<and> bread p d b s1 = Some (Inr (j, s2)) \<and>
    binv d s2 \<and> slot s2 d a = Some i \<and> slot s2 d b = Some j \<and> valid (bufs s2 ! i) \<and> valid (bufs s2 ! j) \<and>
    bdata (bufs s2 ! i) = V a \<and> bdata (bufs s2 ! j) = V b \<and>
    cabs d s2 = (V, R(a := R a + 1, b := R b + 1), H(a := Some p, b := Some p), D, W)"
proof -
  have "R a < 2 ^ 32 - 1" "available d a s" using ab room(1) available_card [OF inv abs] by auto
  then obtain i s1 where 1: "bread p d a s = Some (Inr (i, s1))" "binv d s1" "slot s1 d a = Some i"
    "valid (bufs s1 ! i)" "bdata (bufs s1 ! i) = V a" "cabs d s1 = (V, R(a := R a + 1), H(a := Some p), D, W)"
    using bread_spec [OF inv abs ab(2), of p] by blast
  have "card {x. 0 < (R(a := R a + 1)) x} < NBUF" if "Suc (card {x. 0 < R x}) < NBUF"
    using card_used_update [of R a "R a + 1"] that by linarith
  then have av: "available d b s1"
    using room(2) referenced_available [OF 1(6), of b] available_card [OF 1(2,6)] ab(1) by auto
  have pre: "(H(a := Some p)) b = None" "(R(a := R a + 1)) b < 2 ^ 32 - 1" using ab by auto
  obtain j s2 where 2: "bread p d b s1 = Some (Inr (j, s2))" "binv d s2" "slot s2 d b = Some j"
    "valid (bufs s2 ! j)" "bdata (bufs s2 ! j) = V b"
    "cabs d s2 = (V, (R(a := R a + 1))(b := (R(a := R a + 1)) b + 1), (H(a := Some p))(b := Some p), D, W)"
    "\<forall>bn' c. bn' \<noteq> b \<longrightarrow> slot s1 d bn' = Some c \<longrightarrow> 0 < (R(a := R a + 1)) bn' \<longrightarrow>
       slot s2 d bn' = Some c \<and> bufs s2 ! c = bufs s1 ! c"
    using bread_spec [OF 1(2,6) pre av, of p] by blast
  have "slot s2 d a = Some i" "bufs s2 ! i = bufs s1 ! i" using 2(7) 1(3) ab(1) by auto
  then show ?thesis
    using 1 2 ab(1) by (intro exI [of _ i] exI [of _ j] exI [of _ s1] exI [of _ s2]) simp
qed

text \<open>A turn of \<open>write_log\<close> copies a cached block to its log block.\<close>

lemma write_one_spec:
  assumes inv: "binv (l_dev l) s" and abs: "cabs (l_dev l) s = (V, R, H, D, W)"
    and a: "a = log_block l i" and b: "b = lh_block l ! i"
    and ab: "a \<noteq> b" "H a = None" "H b = None" "R a < 2 ^ 31" "R b < 2 ^ 31"
    and room: "card {x. 0 < R x} < NBUF" "0 < R b"
  shows "\<exists>s'. write_one p l i s = Some (Inr s') \<and> binv (l_dev l) s' \<and>
    cabs (l_dev l) s' = (V(a := V b), R, H, D(a := V b), W @ [(a, V b)])"
proof -
  let ?d = "l_dev l"
  obtain i1 j s1 s2 where 2: "bread p ?d a s = Some (Inr (i1, s1))" "bread p ?d b s1 = Some (Inr (j, s2))"
    "binv ?d s2" "slot s2 ?d a = Some i1" "slot s2 ?d b = Some j" "valid (bufs s2 ! i1)" "valid (bufs s2 ! j)"
    "bdata (bufs s2 ! i1) = V a" "bdata (bufs s2 ! j) = V b"
    "cabs ?d s2 = (V, R(a := R a + 1, b := R b + 1), H(a := Some p, b := Some p), D, W)"
    using bread_two [OF inv abs ab room(1), of p] room(2) by blast
  let ?R = "R(a := R a + 1, b := R b + 1)" and ?H = "H(a := Some p, b := Some p)"
  let ?s3 = "set_data i1 (V b) s2"
  have "0 < ?R a" using ab(1) by simp
  note 3 = set_data_spec [OF 2(3,10,4,6) this, of "V b"]
  have sl3: "slot ?s3 ?d a = Some i1" "slot ?s3 ?d b = Some j" using 3(2) 2(4,5) by auto
  have v3: "valid (bufs ?s3 ! i1)" using 3(3) 2(6) by simp
  have "?H a = Some p" using ab(1) by simp
  then obtain s4 where 4: "bwrite p i1 ?s3 = Inr s4" "binv ?d s4" "\<forall>bn. slot s4 ?d bn = slot ?s3 ?d bn"
    "cabs ?d s4 = (V(a := V b), ?R, ?H, D(a := (V(a := V b)) a), W @ [(a, (V(a := V b)) a)])"
    using bwrite_spec [OF 3(1,4) sl3(1) _ v3, of p] by blast
  have "?H b = Some p" "0 < ?R b" "?R b \<noteq> 1" "slot s4 ?d b = Some j" using 4(3) sl3 room(2) by auto
  then obtain s5 where 5: "brelse p j s4 = Inr s5" "binv ?d s5" "\<forall>bn. slot s5 ?d bn = slot s4 ?d bn"
    "cabs ?d s5 = (V(a := V b), ?R(b := ?R b - 1), ?H(b := None), D(a := (V(a := V b)) a), W @ [(a, (V(a := V b)) a)])"
    using brelse_spec [OF 4(2,4), of b j p] by blast
  have "(?H(b := None)) a = Some p" "0 < (?R(b := ?R b - 1)) a" "slot s5 ?d a = Some i1"
    using 5(3) 4(3) sl3 ab(1) by auto
  then obtain s6 where 6: "brelse p i1 s5 = Inr s6" "binv ?d s6"
    "cabs ?d s6 = (V(a := V b), (?R(b := ?R b - 1))(a := (?R(b := ?R b - 1)) a - 1), (?H(b := None))(a := None),
       D(a := (V(a := V b)) a), W @ [(a, (V(a := V b)) a)])"
    using brelse_spec [OF 5(2,4), of a i1 p] by auto
  have R: "(?R(b := ?R b - 1))(a := (?R(b := ?R b - 1)) a - 1) = R" using ab(1) by auto
  have H: "(?H(b := None))(a := None) = H" using ab by (auto simp: fun_eq_iff)
  have "write_one p l i s = Some (Inr s6)"
    unfolding write_one_def a [symmetric] b [symmetric] using 2(1,2,9) 4(1) 5(1) 6(1) by simp
  then show ?thesis using 6(2,3) unfolding R H by auto
qed

text \<open>A turn of \<open>install_trans\<close> copies a log block home; when committing it also unpins.\<close>

lemma install_one_spec:
  assumes inv: "binv (l_dev l) s" and abs: "cabs (l_dev l) s = (V, R, H, D, W)"
    and a: "a = log_block l i" and b: "b = lh_block l ! i"
    and ab: "a \<noteq> b" "H a = None" "H b = None" "R a < 2 ^ 31" "R b < 2 ^ 31" "R a = 0"
    and room: "card {x. 0 < R x} < NBUF" "recovering \<Longrightarrow> Suc (card {x. 0 < R x}) < NBUF" "\<not> recovering \<Longrightarrow> 0 < R b"
  shows "\<exists>s'. install_one p recovering l i s = Some (Inr s') \<and> binv (l_dev l) s' \<and>
    cabs (l_dev l) s' = (V(b := V a), if recovering then R else R(b := R b - 1), H, D(b := V a), W @ [(b, V a)])"
proof -
  let ?d = "l_dev l"
  have rm: "0 < R b \<or> Suc (card {x. 0 < R x}) < NBUF" using room by auto
  obtain i1 j s1 s2 where 2: "bread p ?d a s = Some (Inr (i1, s1))" "bread p ?d b s1 = Some (Inr (j, s2))"
    "binv ?d s2" "slot s2 ?d a = Some i1" "slot s2 ?d b = Some j" "valid (bufs s2 ! i1)" "valid (bufs s2 ! j)"
    "bdata (bufs s2 ! i1) = V a" "bdata (bufs s2 ! j) = V b"
    "cabs ?d s2 = (V, R(a := R a + 1, b := R b + 1), H(a := Some p, b := Some p), D, W)"
    using bread_two [OF inv abs ab(1-5) room(1) rm, of p] by blast
  let ?R = "R(a := R a + 1, b := R b + 1)" and ?H = "H(a := Some p, b := Some p)"
  let ?V = "V(b := V a)" and ?D = "D(b := V a)" and ?W = "W @ [(b, V a)]"
  let ?s3 = "set_data j (V a) s2"
  have "0 < ?R b" by simp
  note 3 = set_data_spec [OF 2(3,10,5,7) this, of "V a"]
  have sl3: "slot ?s3 ?d a = Some i1" "slot ?s3 ?d b = Some j" using 3(2) 2(4,5) by auto
  have v3: "valid (bufs ?s3 ! j)" using 3(3) 2(7) by simp
  have "?H b = Some p" by simp
  then obtain s4 where 4: "bwrite p j ?s3 = Inr s4" "binv ?d s4" "\<forall>bn. slot s4 ?d bn = slot ?s3 ?d bn"
    "cabs ?d s4 = (?V, ?R, ?H, ?D, ?W)"
    using bwrite_spec [OF 3(1,4) sl3(2) _ v3, of p] by (auto simp: fun_upd_def)
  define s5 where "s5 = (if \<not> recovering then bunpin j s4 else s4)"
  define R5 where "R5 = (if recovering then ?R else ?R(b := ?R b - 1))"
  have 5: "binv ?d s5" "slot s5 ?d a = Some i1" "slot s5 ?d b = Some j" "cabs ?d s5 = (?V, R5, ?H, ?D, ?W)"
  proof -
    have "binv ?d s5 \<and> (\<forall>bn. slot s5 ?d bn = slot s4 ?d bn) \<and> cabs ?d s5 = (?V, R5, ?H, ?D, ?W)"
    proof (cases recovering)
      case True
      then show ?thesis using 4 by (simp add: s5_def R5_def)
    next
      case False
      then have "1 < ?R b" "slot s4 ?d b = Some j" using room(3) 4(3) sl3 by auto
      from bunpin_spec [OF 4(2,4) this(2,1)] show ?thesis using False by (auto simp: s5_def R5_def fun_eq_iff)
    qed
    then show "binv ?d s5" "slot s5 ?d a = Some i1" "slot s5 ?d b = Some j" "cabs ?d s5 = (?V, R5, ?H, ?D, ?W)"
      using 4(3) sl3 by auto
  qed
  have clean: "?V a = ?D a" using ab(1) unreferenced_clean(1) [OF inv abs ab(6)] by simp
  have R5a: "R5 a = 1" "R5 b = (if recovering then R b + 1 else R b)" using ab(1,6) by (auto simp: R5_def)
  then have "?H a = Some p" "0 < R5 a" using ab(1) by auto
  then obtain s6 where 6: "brelse p i1 s5 = Inr s6" "binv ?d s6" "\<forall>bn. slot s6 ?d bn = slot s5 ?d bn"
    "cabs ?d s6 = (?V, R5(a := R5 a - 1), ?H(a := None), ?D, ?W)"
    using brelse_spec [OF 5(1,4,2), of p] clean by blast
  have "(?H(a := None)) b = Some p" "0 < (R5(a := R5 a - 1)) b" "slot s6 ?d b = Some j" "?V b = ?D b"
    using 6(3) 5(3) ab(1) R5a room(3) by auto
  then obtain s7 where 7: "brelse p j s6 = Inr s7" "binv ?d s7"
    "cabs ?d s7 = (?V, (R5(a := R5 a - 1))(b := (R5(a := R5 a - 1)) b - 1), (?H(a := None))(b := None), ?D, ?W)"
    using brelse_spec [OF 6(2,4), of b j p] by auto
  have R: "(R5(a := R5 a - 1))(b := (R5(a := R5 a - 1)) b - 1) = (if recovering then R else R(b := R b - 1))"
    using ab(1,6) R5a by (auto simp: R5_def fun_eq_iff)
  have H: "(?H(a := None))(b := None) = H" using ab by (auto simp: fun_eq_iff)
  have "install_one p recovering l i s = Some (Inr s7)"
    unfolding install_one_def a [symmetric] b [symmetric] using 2(1,2,8) 4(1) 6(1) 7(1) by (simp add: Let_def s5_def)
  then show ?thesis using 7(2,3) unfolding R H by auto
qed

lemma write_head_spec:
  assumes inv: "binv (l_dev l) s" and abs: "cabs (l_dev l) s = (V, R, H, D, W)" and h: "h = l_start l"
    and pre: "H h = None" "R h = 0" "card {x. 0 < R x} < NBUF"
  defines "blk \<equiv> head_block (lh_n l) (lh_block l) (V h)"
  shows "\<exists>s'. write_head p l s = Some (Inr s') \<and> binv (l_dev l) s' \<and>
    cabs (l_dev l) s' = (V(h := blk), R, H, D(h := blk), W @ [(h, blk)])"
proof -
  let ?d = "l_dev l"
  have "R h < 2 ^ 32 - 1" "available ?d h s" using pre available_card [OF inv abs] by auto
  then obtain b s1 where 1: "bread p ?d h s = Some (Inr (b, s1))" "binv ?d s1" "slot s1 ?d h = Some b"
    "valid (bufs s1 ! b)" "bdata (bufs s1 ! b) = V h" "cabs ?d s1 = (V, R(h := R h + 1), H(h := Some p), D, W)"
    using bread_spec [OF inv abs pre(1), of p] by blast
  have "0 < (R(h := R h + 1)) h" by simp
  note 2 = set_data_spec [OF 1(2,6,3,4) this, of blk]
  have s2: "slot (set_data b blk s1) ?d h = Some b" "valid (bufs (set_data b blk s1) ! b)" using 2(2,3) 1(3,4) by auto
  have "(H(h := Some p)) h = Some p" by simp
  then obtain s3 where 3: "bwrite p b (set_data b blk s1) = Inr s3" "binv ?d s3" "\<forall>bn. slot s3 ?d bn = slot (set_data b blk s1) ?d bn"
    "cabs ?d s3 = (V(h := blk), R(h := R h + 1), H(h := Some p), D(h := blk), W @ [(h, blk)])"
    using bwrite_spec [OF 2(1,4) s2(1) _ s2(2), of p] by (auto simp: fun_upd_def)
  have "slot s3 ?d h = Some b" using 3(3) s2 by simp
  then obtain s4 where 4: "brelse p b s3 = Inr s4" "binv ?d s4"
    "cabs ?d s4 = (V(h := blk), (R(h := R h + 1))(h := (R(h := R h + 1)) h - 1), (H(h := Some p))(h := None), D(h := blk), W @ [(h, blk)])"
    using brelse_spec [OF 3(2,4), of h b p] by auto
  have "write_head p l s = Some (Inr s4)"
    unfolding write_head_def h [symmetric] using 1(1,5) 3(1) 4(1) by (simp add: blk_def)
  moreover have "(H(h := Some p))(h := None) = H" "(R(h := R h + 1))(h := (R(h := R h + 1)) h - 1) = R" using pre by auto
  ultimately show ?thesis using 4 by auto
qed

section \<open>Sequences of disk writes\<close>

definition apply_writes :: "(uint \<times> block) list \<Rightarrow> (uint \<Rightarrow> block) \<Rightarrow> uint \<Rightarrow> block" where
  "apply_writes ws D = foldl (\<lambda>D (bn, x). D(bn := x)) D ws"

lemma apply_writes_simps [simp]:
  "apply_writes [] D = D" "apply_writes ((bn, x) # ws) D = apply_writes ws (D(bn := x))"
  "apply_writes (ws @ vs) D = apply_writes vs (apply_writes ws D)"
  by (simp_all add: apply_writes_def)

lemma apply_writes_other: "bn \<notin> fst ` set ws \<Longrightarrow> apply_writes ws D bn = D bn"
  by (induction ws rule: rev_induct) auto

lemma apply_writes_map:
  assumes "distinct (map f is)" "i \<in> set is"
  shows "apply_writes (map (\<lambda>i. (f i, g i)) is) D (f i) = g i"
  using assms
proof (induction "is" rule: rev_induct)
  case (snoc j js)
  then show ?case by (cases "i = j") (auto simp: image_iff)
qed simp

text \<open>Writes to other blocks first do not matter, and equal disks stay equal.\<close>

lemma apply_writes_cong: "D bn = D' bn \<Longrightarrow> apply_writes ws D bn = apply_writes ws D' bn"
  by (induction ws rule: rev_induct) auto

section \<open>The loops\<close>

text \<open>The blocks of the log on disk: the header, and as many more as a transaction can have.\<close>

definition area :: "log \<Rightarrow> uint set" where
  "area l = insert (l_start l) (log_block l ` {0..<min LOGSIZE (nat (l_size l - 1))})"

lemma LOGSIZE_30: "LOGSIZE = 30" by (simp add: LOGSIZE_def MAXOPBLOCKS_def)

lemma log_block_inj: "inj_on (log_block l) {0..<LOGSIZE}"
proof (rule inj_onI)
  fix i j assume "i \<in> {0..<LOGSIZE}" "j \<in> {0..<LOGSIZE}" "log_block l i = log_block l j"
  then have "unat (of_nat i :: uint) = unat (of_nat j :: uint)" "i < 2 ^ LENGTH(32)" "j < 2 ^ LENGTH(32)"
    by (simp_all add: log_block_def LOGSIZE_30)
  then show "i = j" by (simp add: unat_of_nat_less)
qed

lemma log_block_start: "i < LOGSIZE \<Longrightarrow> log_block l i \<noteq> l_start l"
proof
  assume i: "i < LOGSIZE" and "log_block l i = l_start l"
  then have "(of_nat (Suc i) :: uint) = 0" by (simp add: log_block_def add.assoc) (simp add: add.commute)
  moreover have "unat (of_nat (Suc i) :: uint) = Suc i" using i by (intro unat_of_nat_less) (simp add: LOGSIZE_30)
  ultimately show False by simp
qed

text \<open>A transaction: distinct blocks outside the log, fewer than the cache has buffers.\<close>

definition trans_ok :: "log \<Rightarrow> bool" where
  "trans_ok l \<longleftrightarrow> 0 \<le> lh_n l \<and> nat (lh_n l) \<le> length (lh_block l) \<and> length (lh_block l) = LOGSIZE \<and>
     nat (lh_n l) \<le> nat (l_size l - 1) \<and> distinct (take (nat (lh_n l)) (lh_block l)) \<and> set (take (nat (lh_n l)) (lh_block l)) \<inter> area l = {}"

lemma trans_okD:
  assumes "trans_ok l" "i < nat (lh_n l)"
  shows "i < LOGSIZE" "lh_block l ! i \<notin> area l" "log_block l i \<in> area l" "log_block l i \<noteq> lh_block l ! i"
    "\<And>j. j < nat (lh_n l) \<Longrightarrow> lh_block l ! i = lh_block l ! j \<Longrightarrow> i = j"
proof -
  show i: "i < LOGSIZE" using assms by (auto simp: trans_ok_def)
  have "lh_block l ! i \<in> set (take (nat (lh_n l)) (lh_block l))"
    using assms by (auto simp: trans_ok_def in_set_conv_nth intro!: exI [of _ i])
  then show na: "lh_block l ! i \<notin> area l" using assms(1) by (auto simp: trans_ok_def)
  show "log_block l i \<in> area l" using i assms by (simp add: area_def trans_ok_def)
  then show "log_block l i \<noteq> lh_block l ! i" using na by auto
  show "i = j" if "j < nat (lh_n l)" "lh_block l ! i = lh_block l ! j" for j
    using assms that nth_eq_iff_index_eq [of "take (nat (lh_n l)) (lh_block l)" i j] by (auto simp: trans_ok_def)
qed

definition log_writes :: "log \<Rightarrow> (uint \<Rightarrow> block) \<Rightarrow> nat \<Rightarrow> (uint \<times> block) list" where
  "log_writes l V k = map (\<lambda>i. (log_block l i, V (lh_block l ! i))) [0..<k]"

definition home_writes :: "log \<Rightarrow> (uint \<Rightarrow> block) \<Rightarrow> nat \<Rightarrow> (uint \<times> block) list" where
  "home_writes l V k = map (\<lambda>i. (lh_block l ! i, V (log_block l i))) [0..<k]"

text \<open>The blocks of the transaction from \<open>k\<close> on are pinned once; nothing else is in use.\<close>

definition pins :: "log \<Rightarrow> nat \<Rightarrow> uint \<Rightarrow> nat" where
  "pins l k bn = (if bn \<in> (!) (lh_block l) ` {k..<nat (lh_n l)} then 1 else 0)"

lemma pins_card: "card {x. 0 < pins l k x} \<le> nat (lh_n l) - k"
proof -
  have "{x. 0 < pins l k x} = (!) (lh_block l) ` {k..<nat (lh_n l)}" by (auto simp: pins_def)
  then show ?thesis using card_image_le [of "{k..<nat (lh_n l)}" "(!) (lh_block l)"] by simp
qed

lemma pins_Suc:
  assumes "trans_ok l" "k < nat (lh_n l)"
  shows "(pins l k)(lh_block l ! k := pins l k (lh_block l ! k) - 1) = pins l (Suc k)"
proof -
  have "{k..<nat (lh_n l)} = insert k {Suc k..<nat (lh_n l)}" using assms(2) by auto
  moreover have "lh_block l ! k \<notin> (!) (lh_block l) ` {Suc k..<nat (lh_n l)}"
  proof
    assume "lh_block l ! k \<in> (!) (lh_block l) ` {Suc k..<nat (lh_n l)}"
    then obtain j where "Suc k \<le> j" "j < nat (lh_n l)" "lh_block l ! k = lh_block l ! j" by auto
    with trans_okD(5) [OF assms] show False by fastforce
  qed
  ultimately show ?thesis by (auto simp: pins_def fun_eq_iff)
qed

lemma write_log_spec:
  assumes ok: "trans_ok l" and n: "lh_n l < int NBUF"
    and inv: "binv (l_dev l) s" and abs: "cabs (l_dev l) s = (V, pins l 0, \<lambda>_. None, D, W)"
  defines "ws \<equiv> log_writes l V (nat (lh_n l))"
  shows "\<exists>s'. write_log p l s = Some (Inr s') \<and> binv (l_dev l) s' \<and>
    cabs (l_dev l) s' = (apply_writes ws V, pins l 0, \<lambda>_. None, apply_writes ws D, W @ ws)"
proof -
  let ?P = "\<lambda>k s. binv (l_dev l) s \<and> cabs (l_dev l) s =
    (apply_writes (log_writes l V k) V, pins l 0, \<lambda>_. None, apply_writes (log_writes l V k) D, W @ log_writes l V k)"
  have "\<exists>t. run_for (write_one p l) [0..<nat (lh_n l)] s = Some (Inr t) \<and> ?P (nat (lh_n l)) t"
  proof (rule run_for_inv)
    show "?P 0 s" using inv abs by (simp add: log_writes_def)
    fix k s assume k: "k < nat (lh_n l)" and P: "?P k s"
    note t = trans_okD [OF ok k]
    let ?a = "log_block l k" and ?b = "lh_block l ! k"
    have fst: "fst ` set (log_writes l V k) \<subseteq> area l"
      using k trans_okD(3) [OF ok] by (auto simp: log_writes_def)
    have Vb: "apply_writes (log_writes l V k) V ?b = V ?b" using t(2) fst by (intro apply_writes_other) auto
    have ra: "pins l 0 ?a < 2 ^ 31" "pins l 0 ?b < 2 ^ 31" "0 < pins l 0 ?b" using k by (auto simp: pins_def)
    have "nat (lh_n l) < NBUF" using n by (simp add: NBUF_def)
    then have c: "card {x. 0 < pins l 0 x} < NBUF" using pins_card [of l 0] by linarith
    obtain s' where "write_one p l k s = Some (Inr s')" "binv (l_dev l) s'" "cabs (l_dev l) s' =
        ((apply_writes (log_writes l V k) V)(?a := V ?b), pins l 0, \<lambda>_. None, (apply_writes (log_writes l V k) D)(?a := V ?b),
         (W @ log_writes l V k) @ [(?a, V ?b)])"
      using write_one_spec [of l s "apply_writes (log_writes l V k) V" "pins l 0" "\<lambda>_. None" _ _ ?a k ?b p] P t(4) ra c Vb
      by auto
    moreover have "log_writes l V (Suc k) = log_writes l V k @ [(?a, V ?b)]" by (simp add: log_writes_def)
    ultimately show "\<exists>s'. write_one p l k s = Some (Inr s') \<and> ?P (Suc k) s'" by auto
  qed
  then show ?thesis by (simp add: write_log_def ws_def)
qed

lemma install_trans_spec:
  assumes ok: "trans_ok l" and n: "lh_n l < int NBUF \<or> recovering"
    and inv: "binv (l_dev l) s"
    and abs: "cabs (l_dev l) s = (V, if recovering then (\<lambda>_. 0) else pins l 0, \<lambda>_. None, D, W)"
  defines "ws \<equiv> home_writes l V (nat (lh_n l))"
  shows "\<exists>s'. install_trans p recovering l s = Some (Inr s') \<and> binv (l_dev l) s' \<and>
    cabs (l_dev l) s' = (apply_writes ws V, \<lambda>_. 0, \<lambda>_. None, apply_writes ws D, W @ ws)"
proof -
  let ?R = "\<lambda>k. if recovering then (\<lambda>_. 0) else pins l k"
  let ?P = "\<lambda>k s. binv (l_dev l) s \<and> cabs (l_dev l) s =
    (apply_writes (home_writes l V k) V, ?R k, \<lambda>_. None, apply_writes (home_writes l V k) D, W @ home_writes l V k)"
  have "\<exists>t. run_for (install_one p recovering l) [0..<nat (lh_n l)] s = Some (Inr t) \<and> ?P (nat (lh_n l)) t"
  proof (rule run_for_inv)
    show "?P 0 s" using inv abs by (simp add: home_writes_def)
    fix k s assume k: "k < nat (lh_n l)" and P: "?P k s"
    note t = trans_okD [OF ok k]
    let ?a = "log_block l k" and ?b = "lh_block l ! k"
    let ?V = "apply_writes (home_writes l V k) V" and ?D = "apply_writes (home_writes l V k) D"
    have "?a \<notin> fst ` set (home_writes l V k)" using trans_okD(2) [OF ok] t(3) k by (auto simp: home_writes_def)
    then have Va: "?V ?a = V ?a" by (rule apply_writes_other)
    have "?a \<notin> (!) (lh_block l) ` {k..<nat (lh_n l)}" using trans_okD(2) [OF ok] t(3) by auto
    then have ra: "?R k ?a = 0" "?R k ?b < 2 ^ 31" by (auto simp: pins_def)
    have pb: "\<not> recovering \<Longrightarrow> 0 < ?R k ?b" using k by (auto simp: pins_def)
    have "nat (lh_n l) < NBUF" if "\<not> recovering" using n that by (auto simp: NBUF_def)
    then have "card {x. 0 < pins l k x} < NBUF" if "\<not> recovering" using pins_card [of l k] that by fastforce
    then have c: "card {x. 0 < ?R k x} < NBUF" "recovering \<Longrightarrow> Suc (card {x. 0 < ?R k x}) < NBUF" by (auto simp: NBUF_def)
    have "\<exists>s'. install_one p recovering l k s = Some (Inr s') \<and> binv (l_dev l) s' \<and> cabs (l_dev l) s' =
        (?V(?b := ?V ?a), if recovering then ?R k else (?R k)(?b := ?R k ?b - 1), \<lambda>_. None, ?D(?b := ?V ?a),
         (W @ home_writes l V k) @ [(?b, ?V ?a)])"
      by (rule install_one_spec) (use P t(4) ra c pb in auto)
    moreover have "(if recovering then ?R k else (?R k)(?b := ?R k ?b - 1)) = ?R (Suc k)"
      using pins_Suc [OF ok k] by simp
    moreover have "home_writes l V (Suc k) = home_writes l V k @ [(?b, V ?a)]" by (simp add: home_writes_def)
    ultimately show "\<exists>s'. install_one p recovering l k s = Some (Inr s') \<and> ?P (Suc k) s'" unfolding Va by auto
  qed
  moreover have "?R (nat (lh_n l)) = (\<lambda>_. 0)" by (auto simp: pins_def)
  ultimately show ?thesis by (simp add: install_trans_def ws_def)
qed

section \<open>What a disk stands for\<close>

text \<open>
  The header that recovery finds on a disk, the writes it has to make, and the disk as it
  looks once they are made. A crash is only visible through \<open>logical\<close>.
\<close>

definition header :: "log \<Rightarrow> (uint \<Rightarrow> block) \<Rightarrow> log" where
  "header l D = (let bs = D (l_start l); n = sint (get32 bs 0)
     in l\<lparr>lh_n := n, lh_block := map (\<lambda>i. get32 bs (i + 1)) [0..<nat n] @ drop (nat n) (lh_block l)\<rparr>)"

definition pending :: "log \<Rightarrow> (uint \<Rightarrow> block) \<Rightarrow> (uint \<times> block) list" where
  "pending l D = home_writes (header l D) D (nat (lh_n (header l D)))"

definition logical :: "log \<Rightarrow> (uint \<Rightarrow> block) \<Rightarrow> uint \<Rightarrow> block" where
  "logical l D = apply_writes (pending l D) D"

definition log_ok :: "log \<Rightarrow> (uint \<Rightarrow> block) \<Rightarrow> bool" where
  "log_ok l D \<longleftrightarrow> trans_ok (header l D) \<and> length (D (l_start l)) = BSIZE"

text \<open>What recovery writes.\<close>

definition recover_writes :: "log \<Rightarrow> (uint \<Rightarrow> block) \<Rightarrow> (uint \<times> block) list" where
  "recover_writes l D = pending l D @ [(l_start l, put32 (D (l_start l)) 0 0)]"

lemma header_simps [simp]:
  "l_start (header l D) = l_start l" "l_dev (header l D) = l_dev l" "l_size (header l D) = l_size l"
  "area (header l D) = area l" "log_block (header l D) i = log_block l i"
  by (simp_all add: header_def Let_def area_def log_block_def fun_eq_iff)

lemma area_memb: "l_start l \<in> area l" "i < LOGSIZE \<Longrightarrow> i < nat (l_size l - 1) \<Longrightarrow> log_block l i \<in> area l"
  by (simp_all add: area_def)

lemma header_cong: "D (l_start l) = D' (l_start l) \<Longrightarrow> header l D = header l D'"
  by (simp add: header_def)

lemma pending_targets:
  assumes "log_ok l D"
  shows "fst ` set (pending l D) \<inter> area l = {}"
  using trans_okD(2) [of "header l D"] assms by (auto simp: pending_def home_writes_def log_ok_def)

lemma pending_cong:
  assumes "log_ok l D" "\<forall>bn\<in>area l. D bn = D' bn"
  shows "pending l D' = pending l D" "log_ok l D'"
proof -
  have h: "header l D' = header l D" using assms(2) area_memb(1) by (intro header_cong) simp
  then show "log_ok l D'" using assms area_memb(1) by (simp add: log_ok_def)
  show "pending l D' = pending l D"
    using assms h trans_okD(3) [of "header l D"] by (auto simp: pending_def home_writes_def log_ok_def)
qed

lemma apply_writes_indep: "bn \<in> fst ` set ws \<Longrightarrow> apply_writes ws D bn = apply_writes ws D' bn"
proof (induction ws rule: rev_induct)
  case (snoc w ws)
  then show ?case by (cases w) auto
qed simp

lemma apply_writes_again: "apply_writes ws (apply_writes (take j ws) D) = apply_writes ws D"
proof
  fix bn
  show "apply_writes ws (apply_writes (take j ws) D) bn = apply_writes ws D bn"
  proof (cases "bn \<in> fst ` set ws")
    case False
    then have "bn \<notin> fst ` set (take j ws)" using set_take_subset by fastforce
    with False show ?thesis by (simp add: apply_writes_other)
  qed (rule apply_writes_indep)
qed

lemma cleared_log:
  assumes "length (D (l_start l)) = BSIZE" "get32 (D (l_start l)) 0 = 0" "length (lh_block l) = LOGSIZE"
  shows "lh_n (header l D) = 0" "pending l D = []" "logical l D = D" "log_ok l D"
proof -
  show n: "lh_n (header l D) = 0" using assms by (simp add: header_def Let_def)
  then show p: "pending l D = []" by (simp add: pending_def home_writes_def)
  then show "logical l D = D" by (simp add: logical_def)
  show "log_ok l D" using n assms by (simp add: log_ok_def trans_ok_def) (simp add: header_def Let_def)
qed

lemma get32_cleared: "length bs = BSIZE \<Longrightarrow> get32 (put32 bs 0 0) 0 = 0" "length bs = BSIZE \<Longrightarrow> length (put32 bs 0 0) = BSIZE"
  by (simp_all add: get32_put32 length_put32 BSIZE_def)

text \<open>A crash at any moment of a recovery leaves a disk that stands for the same blocks.\<close>

lemma recovery_prefix:
  fixes j :: nat and bn :: uint
  assumes ok: "log_ok l D" and len: "length (lh_block l) = LOGSIZE"
  defines "E \<equiv> apply_writes (take j (recover_writes l D)) D"
  shows "log_ok l E" "bn \<notin> area l \<Longrightarrow> logical l E bn = logical l D bn"
proof -
  have "log_ok l E \<and> (bn \<notin> area l \<longrightarrow> logical l E bn = logical l D bn)"
  proof (cases "j \<le> length (pending l D)")
    case True
    then have E: "E = apply_writes (take j (pending l D)) D" by (simp add: E_def recover_writes_def)
    have "x \<notin> fst ` set (take j (pending l D))" if "x \<in> area l" for x
      using pending_targets [OF ok] that set_take_subset [of j "pending l D"] by (auto simp: subset_iff)
    then have "\<forall>x\<in>area l. D x = E x" by (simp add: E apply_writes_other)
    note c = pending_cong [OF ok this]
    then show ?thesis by (simp add: logical_def E apply_writes_again)
  next
    case False
    then have E: "E = (apply_writes (pending l D) D)(l_start l := put32 (D (l_start l)) 0 0)"
      by (simp add: E_def recover_writes_def)
    have "length (D (l_start l)) = BSIZE" using ok by (simp add: log_ok_def)
    then have h: "length (E (l_start l)) = BSIZE" "get32 (E (l_start l)) 0 = 0" by (simp_all add: E get32_cleared)
    note c = cleared_log [of E l, OF h len]
    then show ?thesis using area_memb(1) [of l] by (auto simp: E logical_def)
  qed
  then show "log_ok l E" "bn \<notin> area l \<Longrightarrow> logical l E bn = logical l D bn" by auto
qed

section \<open>Recovery and commit\<close>

lemma read_head_spec:
  assumes ok: "log_ok l D" and inv: "binv (l_dev l) s" and abs: "cabs (l_dev l) s = (D, \<lambda>_. 0, \<lambda>_. None, D, W)"
  shows "\<exists>s'. read_head p \<lparr>fl = l, fc = s\<rparr> = Some (Inr \<lparr>fl = header l D, fc = s'\<rparr>) \<and> binv (l_dev l) s' \<and>
    cabs (l_dev l) s' = (D, \<lambda>_. 0, \<lambda>_. None, D, W)"
proof -
  let ?d = "l_dev l" and ?h = "l_start l"
  have "available ?d ?h s" using available_card [OF inv abs] by (simp add: NBUF_def)
  then obtain b s1 where 1: "bread p ?d ?h s = Some (Inr (b, s1))" "binv ?d s1" "slot s1 ?d ?h = Some b"
    "bdata (bufs s1 ! b) = D ?h" "cabs ?d s1 = (D, (\<lambda>_. 0)(?h := 0 + 1), (\<lambda>_. None)(?h := Some p), D, W)"
    using bread_spec [OF inv abs, of ?h p] by auto
  obtain s2 where 2: "brelse p b s1 = Inr s2" "binv ?d s2"
    "cabs ?d s2 = (D, ((\<lambda>_. 0)(?h := 0 + 1))(?h := ((\<lambda>_. 0)(?h := 0 + 1)) ?h - 1), ((\<lambda>_. None)(?h := Some p))(?h := None), D, W)"
    using brelse_spec [OF 1(2,5,3), of p] by auto
  have "nat (sint (get32 (D ?h) 0)) \<le> LOGSIZE"
    using ok by (simp add: log_ok_def trans_ok_def) (simp add: header_def Let_def)
  then have "read_head p \<lparr>fl = l, fc = s\<rparr> = Some (Inr \<lparr>fl = header l D, fc = s2\<rparr>)"
    unfolding read_head_def using 1(1,4) 2(1) by (simp add: Let_def head_blocks_def header_def)
  moreover have "((\<lambda>_. 0 :: nat)(?h := 0 + 1))(?h := ((\<lambda>_. 0)(?h := 0 + 1)) ?h - 1) = (\<lambda>_. 0)"
    "((\<lambda>_. None)(?h := Some p))(?h := None) = (\<lambda>_. None)" by (auto simp: fun_eq_iff)
  ultimately show ?thesis using 2 by auto
qed

lemma head_block_0: "head_block 0 bl bs = put32 bs 0 0"
  by (simp add: head_block_def)

lemma recover_spec:
  assumes ok: "log_ok l D" and inv: "binv (l_dev l) s" and abs: "cabs (l_dev l) s = (D, \<lambda>_. 0, \<lambda>_. None, D, W)"
  defines "ws \<equiv> recover_writes l D"
  shows "\<exists>s'. recover_from_log p \<lparr>fl = l, fc = s\<rparr> = Some (Inr \<lparr>fl = (header l D)\<lparr>lh_n := 0\<rparr>, fc = s'\<rparr>) \<and>
    binv (l_dev l) s' \<and> cabs (l_dev l) s' = (apply_writes ws D, \<lambda>_. 0, \<lambda>_. None, apply_writes ws D, W @ ws)"
proof -
  let ?d = "l_dev l" and ?h = "l_start l" and ?l = "header l D"
  let ?D = "apply_writes (pending l D) D"
  obtain s1 where 1: "read_head p \<lparr>fl = l, fc = s\<rparr> = Some (Inr \<lparr>fl = ?l, fc = s1\<rparr>)" "binv ?d s1"
    "cabs ?d s1 = (D, \<lambda>_. 0, \<lambda>_. None, D, W)" using read_head_spec [OF ok inv abs] by blast
  have t: "trans_ok ?l" using ok by (simp add: log_ok_def)
  obtain s2 where 2: "install_trans p True ?l s1 = Some (Inr s2)" "binv ?d s2"
    "cabs ?d s2 = (?D, \<lambda>_. 0, \<lambda>_. None, ?D, W @ pending l D)"
    using install_trans_spec [OF t, of True s1 D D W p] 1 by (auto simp: pending_def)
  have hd: "?D ?h = D ?h" using pending_targets [OF ok] area_memb(1) [of l] by (intro apply_writes_other) auto
  obtain s3 where 3: "write_head p (?l\<lparr>lh_n := 0\<rparr>) s2 = Some (Inr s3)" "binv ?d s3"
    "cabs ?d s3 = (?D(?h := put32 (D ?h) 0 0), \<lambda>_. 0, \<lambda>_. None, ?D(?h := put32 (D ?h) 0 0), (W @ pending l D) @ [(?h, put32 (D ?h) 0 0)])"
    using write_head_spec [of "?l\<lparr>lh_n := 0\<rparr>" s2 ?D "\<lambda>_. 0" "\<lambda>_. None" ?D "W @ pending l D" ?h p] 2
    by (auto simp: head_block_0 hd NBUF_def)
  have "recover_from_log p \<lparr>fl = l, fc = s\<rparr> = Some (Inr \<lparr>fl = ?l\<lparr>lh_n := 0\<rparr>, fc = s3\<rparr>)"
    unfolding recover_from_log_def using 1(1) 2(1) 3(1) by (simp add: Let_def)
  then show ?thesis using 3 by (simp add: ws_def recover_writes_def)
qed

text \<open>The disk when the header of a commit has just been written.\<close>

definition committed :: "log \<Rightarrow> (uint \<Rightarrow> block) \<Rightarrow> (uint \<Rightarrow> block) \<Rightarrow> uint \<Rightarrow> block" where
  "committed l V D = (apply_writes (log_writes l V (nat (lh_n l))) D)
     (l_start l := head_block (lh_n l) (lh_block l) (D (l_start l)))"

definition commit_writes :: "log \<Rightarrow> (uint \<Rightarrow> block) \<Rightarrow> (uint \<Rightarrow> block) \<Rightarrow> (uint \<times> block) list" where
  "commit_writes l V D = log_writes l V (nat (lh_n l)) @
     [(l_start l, head_block (lh_n l) (lh_block l) (D (l_start l)))] @ recover_writes l (committed l V D)"

lemma log_writes_targets: "trans_ok l \<Longrightarrow> k \<le> nat (lh_n l) \<Longrightarrow> fst ` set (log_writes l V k) \<subseteq> area l - {l_start l}"
proof -
  assume t: "trans_ok l" "k \<le> nat (lh_n l)"
  then have "i < LOGSIZE" "log_block l i \<in> area l" if "i < k" for i using trans_okD(1,3) [OF t(1), of i] that by simp_all
  then show ?thesis using log_block_start [of _ l] by (auto simp: log_writes_def)
qed

lemma committed_facts:
  assumes ok: "trans_ok l" and len: "length (D (l_start l)) = BSIZE"
  shows "header l (committed l V D) = l" "log_ok l (committed l V D)"
    "pending l (committed l V D) = map (\<lambda>i. (lh_block l ! i, V (lh_block l ! i))) [0..<nat (lh_n l)]"
    "bn \<notin> area l \<Longrightarrow> committed l V D bn = D bn"
proof -
  let ?n = "nat (lh_n l)" and ?bs = "head_block (lh_n l) (lh_block l) (D (l_start l))"
  have n: "?n \<le> LOGSIZE" "0 \<le> lh_n l" "length (lh_block l) = LOGSIZE" using ok by (auto simp: trans_ok_def)
  then have "4 * ?n + 4 \<le> length (D (l_start l))" by (simp add: len BSIZE_def LOGSIZE_30)
  note h = head_block_facts [OF this n(2) refl, of "lh_block l"]
  have s: "sint (of_int (lh_n l) :: uint) = lh_n l"
    using n by (simp add: signed_of_int signed_take_bit_int_eq_self LOGSIZE_30)
  have "map (\<lambda>i. get32 ?bs (i + 1)) [0..<?n] @ drop ?n (lh_block l) = lh_block l"
    using h n by (intro nth_equalityI) (auto simp: nth_append)
  then show hd: "header l (committed l V D) = l" using h s by (simp add: header_def Let_def committed_def)
  then show "log_ok l (committed l V D)" using ok h len by (simp add: log_ok_def committed_def)
  have "committed l V D (log_block l i) = V (lh_block l ! i)" if "i < ?n" for i
  proof -
    have "distinct (map (log_block l) [0..<?n])"
      using log_block_inj [of l] n by (auto simp: distinct_map intro: inj_on_subset)
    from apply_writes_map [OF this, of i "\<lambda>i. V (lh_block l ! i)" D] show ?thesis
      using that log_block_start [of i l] n by (simp add: committed_def log_writes_def)
  qed
  then show "pending l (committed l V D) = map (\<lambda>i. (lh_block l ! i, V (lh_block l ! i))) [0..<?n]"
    by (simp add: pending_def hd home_writes_def)
  show "committed l V D bn = D bn" if "bn \<notin> area l"
    using that log_writes_targets [OF ok order_refl, of V] area_memb(1) [of l]
    by (auto simp: committed_def intro!: apply_writes_other)
qed

lemma commit_spec:
  assumes ok: "trans_ok l" and n: "0 < lh_n l" "lh_n l < int NBUF" and len: "length (D (l_start l)) = BSIZE"
    and inv: "binv (l_dev l) s" and abs: "cabs (l_dev l) s = (V, pins l 0, \<lambda>_. None, D, W)"
  defines "ws \<equiv> commit_writes l V D"
  shows "\<exists>s'. commit p \<lparr>fl = l, fc = s\<rparr> = Some (Inr \<lparr>fl = l\<lparr>lh_n := 0\<rparr>, fc = s'\<rparr>) \<and> binv (l_dev l) s' \<and>
    cabs (l_dev l) s' = (apply_writes ws V, \<lambda>_. 0, \<lambda>_. None, apply_writes ws D, W @ ws)"
proof -
  let ?d = "l_dev l" and ?h = "l_start l" and ?n = "nat (lh_n l)"
  let ?lw = "log_writes l V ?n" and ?C = "committed l V D" and ?hb = "head_block (lh_n l) (lh_block l) (D (l_start l))"
  obtain s1 where 1: "write_log p l s = Some (Inr s1)" "binv ?d s1"
    "cabs ?d s1 = (apply_writes ?lw V, pins l 0, \<lambda>_. None, apply_writes ?lw D, W @ ?lw)"
    using write_log_spec [OF ok n(2) inv abs] by blast
  have nh: "pins l 0 ?h = 0" using trans_okD(2) [OF ok] area_memb(1) [of l] by (auto simp: pins_def)
  then have Vh: "V ?h = D ?h" using unreferenced_clean(1) [OF inv abs] by simp
  have "?h \<notin> fst ` set ?lw" using log_writes_targets [OF ok order_refl, of V] by auto
  then have lwh: "apply_writes ?lw V ?h = D ?h" by (simp add: apply_writes_other Vh)
  have "?n < NBUF" using n by (simp add: NBUF_def)
  then have c: "card {x. 0 < pins l 0 x} < NBUF" using pins_card [of l 0] by linarith
  let ?V = "(apply_writes ?lw V)(?h := ?hb)"
  obtain s2 where 2: "write_head p l s1 = Some (Inr s2)" "binv ?d s2"
    "cabs ?d s2 = (?V, pins l 0, \<lambda>_. None, ?C, (W @ ?lw) @ [(?h, ?hb)])"
    using write_head_spec [OF 1(2,3) refl refl nh c, of p] by (auto simp: lwh committed_def)
  have p: "pending l ?C = home_writes l ?C ?n" using committed_facts(1) [where D = D, OF ok len] by (simp add: pending_def)
  have "log_block l ` {0..<?n} \<subseteq> area l - {?h}"
    using log_writes_targets [OF ok order_refl, of V] by (simp add: log_writes_def image_image)
  moreover have "log_block l i \<in> fst ` set ?lw" if "i < ?n" for i using that by (force simp: log_writes_def)
  ultimately have VC: "?V (log_block l i) = ?C (log_block l i)" if "i < ?n" for i
    using that apply_writes_indep [of "log_block l i" ?lw V D] by (auto simp: committed_def)
  then have hw: "home_writes l ?V ?n = pending l ?C" unfolding p by (simp add: home_writes_def)
  obtain s3 where 3: "install_trans p False l s2 = Some (Inr s3)" "binv ?d s3"
    "cabs ?d s3 = (apply_writes (pending l ?C) ?V, \<lambda>_. 0, \<lambda>_. None, apply_writes (pending l ?C) ?C, ((W @ ?lw) @ [(?h, ?hb)]) @ pending l ?C)"
    using install_trans_spec [OF ok, of False s2 ?V ?C "(W @ ?lw) @ [(?h, ?hb)]" p] 2 n(2) by (auto simp: hw)
  have "?h \<notin> fst ` set (pending l ?C)"
    using pending_targets [OF committed_facts(2) [where D = D and V = V, OF ok len]] area_memb(1) [of l] by blast
  then have Ch: "apply_writes (pending l ?C) ?V ?h = ?C ?h" by (simp add: apply_writes_other committed_def)
  let ?z = "put32 (?C ?h) 0 0"
  have w: "binv (l_dev (l\<lparr>lh_n := 0\<rparr>)) s3" "cabs (l_dev (l\<lparr>lh_n := 0\<rparr>)) s3 =
    (apply_writes (pending l ?C) ?V, \<lambda>_. 0, \<lambda>_. None, apply_writes (pending l ?C) ?C, ((W @ ?lw) @ [(?h, ?hb)]) @ pending l ?C)"
    using 3(2,3) by simp_all
  have "\<exists>s4. write_head p (l\<lparr>lh_n := 0\<rparr>) s3 = Some (Inr s4) \<and> binv ?d s4 \<and>
    cabs ?d s4 = ((apply_writes (pending l ?C) ?V)(?h := ?z), \<lambda>_. 0, \<lambda>_. None, (apply_writes (pending l ?C) ?C)(?h := ?z),
      (((W @ ?lw) @ [(?h, ?hb)]) @ pending l ?C) @ [(?h, ?z)])"
    using write_head_spec [OF w refl refl refl, of p] by (simp add: NBUF_def Ch head_block_0)
  then obtain s4 where 4: "write_head p (l\<lparr>lh_n := 0\<rparr>) s3 = Some (Inr s4)" "binv ?d s4"
    "cabs ?d s4 = ((apply_writes (pending l ?C) ?V)(?h := ?z), \<lambda>_. 0, \<lambda>_. None, (apply_writes (pending l ?C) ?C)(?h := ?z),
      (((W @ ?lw) @ [(?h, ?hb)]) @ pending l ?C) @ [(?h, ?z)])" by blast
  have "commit p \<lparr>fl = l, fc = s\<rparr> = Some (Inr \<lparr>fl = l\<lparr>lh_n := 0\<rparr>, fc = s4\<rparr>)"
    unfolding commit_def using n 1(1) 2(1) 3(1) 4(1) by (simp add: Let_def)
  moreover have "apply_writes ws V = (apply_writes (pending l ?C) ?V)(?h := ?z)"
    "apply_writes ws D = (apply_writes (pending l ?C) ?C)(?h := ?z)"
    by (simp_all add: ws_def commit_writes_def recover_writes_def committed_def)
  ultimately show ?thesis using 4 by (simp add: ws_def commit_writes_def recover_writes_def)
qed

text \<open>
  The disk after the first \<open>j\<close> writes of a commit stands for the old blocks until the header
  is written, and for the new ones from then on.
\<close>

lemma commit_prefix:
  fixes j :: nat
  assumes ok: "trans_ok l" and len: "length (D (l_start l)) = BSIZE" "get32 (D (l_start l)) 0 = 0"
    and V: "\<And>bn. bn \<notin> set (take (nat (lh_n l)) (lh_block l)) \<Longrightarrow> V bn = D bn"
  defines "E \<equiv> apply_writes (take j (commit_writes l V D)) D"
  shows "log_ok l E \<and> (\<forall>bn. bn \<notin> area l \<longrightarrow> logical l E bn = (if j \<le> nat (lh_n l) then D bn else V bn))"
proof (cases "j \<le> nat (lh_n l)")
  let ?h = "l_start l" and ?n = "nat (lh_n l)"
  have ll: "length (lh_block l) = LOGSIZE" "nat (lh_n l) \<le> length (lh_block l)" using ok by (auto simp: trans_ok_def)
  {
    case True
    then have "take j (commit_writes l V D) = log_writes l V j" by (simp add: commit_writes_def log_writes_def take_map)
    then have E: "E = apply_writes (log_writes l V j) D" by (simp add: E_def)
    have "?h \<notin> fst ` set (log_writes l V j)" using log_writes_targets [OF ok True, of V] by auto
    then have "E ?h = D ?h" by (simp add: E apply_writes_other)
    then have "length (E ?h) = BSIZE" "get32 (E ?h) 0 = 0" using len by auto
    note c = cleared_log [of E l, OF this ll(1)]
    have "E bn = D bn" if "bn \<notin> area l" for bn
      unfolding E using log_writes_targets [OF ok True, of V] that by (intro apply_writes_other) auto
    then show ?thesis using c True by auto
  next
    case False
    let ?C = "committed l V D"
    note cf = committed_facts [where V = V and D = D, OF ok len(1)]
    have lw: "length (log_writes l V ?n) = ?n" by (simp add: log_writes_def)
    obtain i where i: "j = Suc (?n + i)" using False less_imp_Suc_add [of ?n j] by auto
    have E: "E = apply_writes (take i (recover_writes l ?C)) ?C"
      by (simp add: E_def commit_writes_def lw i Suc_diff_le) (simp add: committed_def)
    have "logical l E bn = V bn" if bn: "bn \<notin> area l" for bn
    proof -
      have "logical l E bn = apply_writes (pending l ?C) ?C bn"
        unfolding E using recovery_prefix(2) [OF cf(2) ll(1) bn] by (simp add: logical_def)
      also have "\<dots> = V bn"
      proof (cases "bn \<in> set (take ?n (lh_block l))")
        case True
        then obtain i where "i < ?n" "bn = lh_block l ! i" using ll(2) by (auto simp: in_set_conv_nth)
        moreover have "map ((!) (lh_block l)) [0..<?n] = take ?n (lh_block l)"
          using ll(2) by (intro nth_equalityI) simp_all
        then have "distinct (map ((!) (lh_block l)) [0..<?n])" using ok by (simp add: trans_ok_def)
        ultimately show ?thesis
          using apply_writes_map [of "(!) (lh_block l)" "[0..<?n]" i "\<lambda>i. V (lh_block l ! i)" ?C] by (simp add: cf(3))
      next
        case False
        then have "bn \<notin> fst ` set (pending l ?C)" using ll(2) by (auto simp: cf(3) in_set_conv_nth)
        then show ?thesis using V [OF False] cf(4) [OF bn] by (simp add: apply_writes_other)
      qed
      finally show ?thesis .
    qed
    then show ?thesis using recovery_prefix(1) [OF cf(2) ll(1)] False by (auto simp: E)
  }
qed

text \<open>Only where the log is matters, not what the header in memory happened to hold.\<close>

lemma header_other:
  assumes "l_start l = l_start l'" "l_size l = l_size l'" "length (lh_block l) = LOGSIZE" "length (lh_block l') = LOGSIZE"
  shows "log_ok l D \<longleftrightarrow> log_ok l' D" "logical l D = logical l' D" "recover_writes l D = recover_writes l' D" "area l = area l'"
proof -
  have lb: "log_block l = log_block l'" using assms(1) by (simp add: log_block_def fun_eq_iff)
  then show a: "area l = area l'" using assms(1,2) by (simp add: area_def)
  let ?n = "nat (sint (get32 (D (l_start l')) 0))"
  have n: "lh_n (header l D) = lh_n (header l' D)" using assms(1) by (simp add: header_def Let_def)
  have t: "take ?n (lh_block (header l D)) = take ?n (lh_block (header l' D))" "lh_n (header l' D) = sint (get32 (D (l_start l')) 0)"
    "length (lh_block (header l D)) = length (lh_block (header l' D))"
    using assms by (simp_all add: header_def Let_def)
  then show "log_ok l D \<longleftrightarrow> log_ok l' D" using n a assms(1,2) by (simp add: log_ok_def trans_ok_def)
  have "lh_block (header l D) ! i = lh_block (header l' D) ! i" if "i < ?n" for i
    using nth_take [of i ?n "lh_block (header l D)"] nth_take [of i ?n "lh_block (header l' D)"] that t(1) by simp
  then have p: "pending l D = pending l' D" using n t(2) lb by (simp add: pending_def home_writes_def)
  then show "logical l D = logical l' D" "recover_writes l D = recover_writes l' D"
    using assms(1) by (simp_all add: logical_def recover_writes_def)
qed

text \<open>Mounting: recovery on a cache that has just been initialised over a disk.\<close>

lemma initlog_spec:
  assumes len: "length (lh_block l0) = LOGSIZE" "length (lh_block l) = LOGSIZE" and d: "d \<noteq> 0" and ok: "log_ok l D" and nlog: "sint nlog = l_size l"
  shows "\<exists>k'. initlog p d (l_start l) nlog \<lparr>fl = l0, fc = binit (boot_cache D)\<rparr> = Some (Inr k') \<and>
    lh_n (fl k') = 0 \<and> writes (fc k') = recover_writes l D \<and> disk (fc k') = apply_writes (recover_writes l D) D \<and>
    view (fc k') d = disk (fc k') \<and> (\<forall>bn. bn \<notin> area l \<longrightarrow> disk (fc k') bn = logical l D bn)"
proof -
  define l1 where "l1 = l0\<lparr>l_start := l_start l, l_size := sint nlog, l_dev := d\<rparr>"
  have "l_start l1 = l_start l" "l_size l1 = l_size l" "length (lh_block l1) = LOGSIZE" using len nlog by (simp_all add: l1_def)
  note o = header_other [OF this len(2)]
  have ld: "l_dev l1 = d" by (simp add: l1_def)
  have "binv (l_dev l1) (binit (boot_cache D))" "cabs (l_dev l1) (binit (boot_cache D)) = (D, \<lambda>_. 0, \<lambda>_. None, D, [])"
    using binit_inv [OF d, of D] by (simp_all add: ld)
  from recover_spec [OF _ this, of p] obtain s' where
    "recover_from_log p \<lparr>fl = l1, fc = binit (boot_cache D)\<rparr> = Some (Inr \<lparr>fl = (header l1 D)\<lparr>lh_n := 0\<rparr>, fc = s'\<rparr>)"
    "cabs d s' = (apply_writes (recover_writes l D) D, \<lambda>_. 0, \<lambda>_. None, apply_writes (recover_writes l D) D, recover_writes l D)"
    using ok o by (auto simp: ld)
  moreover have "apply_writes (recover_writes l D) D bn = logical l D bn" if "bn \<notin> area l" for bn
    using that area_memb(1) [of l] by (auto simp: recover_writes_def logical_def)
  ultimately show ?thesis unfolding initlog_def by (auto simp: l1_def cabs_def BSIZE_def LOGSIZE_30)
qed

text \<open>
  Property C1 (a commit is atomic with respect to crashes). Let the cache hold the changed blocks of a
  transaction, each pinned once, and let the log on disk be empty. \<open>commit\<close> returns; and if the
  machine stops after any number \<open>j\<close> of its disk writes and boots again, \<open>initlog\<close> returns with an
  empty log and with every block outside the log as it was before the commit when at most
  the copies in the log had been written, and as the transaction left it otherwise.
\<close>

theorem commit_crash_safe:
  assumes "trans_ok l" "0 < lh_n l" "lh_n l < int NBUF" "l_dev l \<noteq> 0"
    and "binv (l_dev l) s" "refs s (l_dev l) = pins l 0" "holder s (l_dev l) = (\<lambda>_. None)"
    and "length (disk s (l_start l)) = BSIZE" "get32 (disk s (l_start l)) 0 = 0" "length (lh_block l0) = LOGSIZE" "sint nlog = l_size l"
  shows "\<exists>ws s'. commit p \<lparr>fl = l, fc = s\<rparr> = Some (Inr \<lparr>fl = l\<lparr>lh_n := 0\<rparr>, fc = s'\<rparr>) \<and>
    writes s' = writes s @ ws \<and> disk s' = apply_writes ws (disk s) \<and>
    (\<forall>j. \<exists>k'. initlog p' (l_dev l) (l_start l) nlog
        \<lparr>fl = l0, fc = binit (boot_cache (apply_writes (take j ws) (disk s)))\<rparr> = Some (Inr k') \<and>
      lh_n (fl k') = 0 \<and>
      (\<forall>bn. bn \<notin> area l \<longrightarrow> disk (fc k') bn = (if j \<le> nat (lh_n l) then disk s bn else view s (l_dev l) bn)))"
proof -
  let ?d = "l_dev l" and ?V = "view s (l_dev l)" and ?D = "disk s"
  let ?ws = "commit_writes l ?V ?D"
  have abs: "cabs ?d s = (?V, pins l 0, \<lambda>_. None, ?D, writes s)" using assms by (simp add: cabs_def)
  obtain s' where s': "commit p \<lparr>fl = l, fc = s\<rparr> = Some (Inr \<lparr>fl = l\<lparr>lh_n := 0\<rparr>, fc = s'\<rparr>)"
    "writes s' = writes s @ ?ws" "disk s' = apply_writes ?ws ?D"
    using commit_spec [OF assms(1-3,8,5) abs, of p] by (auto simp: cabs_def)
  have "?V bn = ?D bn" if "bn \<notin> set (take (nat (lh_n l)) (lh_block l))" for bn
  proof -
    have "bn \<notin> (!) (lh_block l) ` {0..<nat (lh_n l)}" using that assms(1) by (auto simp: trans_ok_def in_set_conv_nth)
    then show ?thesis using unreferenced_clean(1) [OF assms(5) abs] by (simp add: pins_def)
  qed
  note c = commit_prefix [where V = ?V, OF assms(1,8,9) this]
  have len: "length (lh_block l) = LOGSIZE" using assms(1) by (simp add: trans_ok_def)
  have "\<exists>k'. initlog p' ?d (l_start l) nlog \<lparr>fl = l0, fc = binit (boot_cache (apply_writes (take j ?ws) ?D))\<rparr> = Some (Inr k') \<and>
      lh_n (fl k') = 0 \<and> (\<forall>bn. bn \<notin> area l \<longrightarrow> disk (fc k') bn = (if j \<le> nat (lh_n l) then ?D bn else ?V bn))" for j
    using initlog_spec [OF assms(10) len assms(4) _ assms(11), of "apply_writes (take j ?ws) ?D" p'] c [of j] by auto
  then show ?thesis using s' by blast
qed


section \<open>Registering blocks\<close>

definition logged :: "log \<Rightarrow> uint set" where
  "logged l = set (take (nat (lh_n l)) (lh_block l))"

lemma absorb_index_spec:
  assumes "i + k \<le> length bl"
  shows "absorb_index bl bn k i = (if bn \<in> set (take k (drop i bl)) then i + length (takeWhile (\<lambda>x. x \<noteq> bn) (take k (drop i bl))) else i + k)"
  using assms
proof (induction bl bn k i rule: absorb_index.induct)
  case (2 bl bn k i)
  then have "drop i bl = bl ! i # drop (Suc i) bl" by (simp add: Cons_nth_drop_Suc)
  then show ?case using 2 by auto
qed simp

lemma absorb_index_cases:
  assumes "n \<le> length bl"
  shows "bn \<notin> set (take n bl) \<Longrightarrow> absorb_index bl bn n 0 = n"
    "bn \<in> set (take n bl) \<Longrightarrow> absorb_index bl bn n 0 < n \<and> bl ! absorb_index bl bn n 0 = bn"
proof -
  note a = absorb_index_spec [of 0 n bl bn]
  show "bn \<notin> set (take n bl) \<Longrightarrow> absorb_index bl bn n 0 = n" using a assms by simp
  assume b: "bn \<in> set (take n bl)"
  let ?t = "takeWhile (\<lambda>x. x \<noteq> bn) (take n bl)"
  have "?t \<noteq> take n bl" using b by (auto simp: takeWhile_eq_all_conv)
  then have len: "length ?t < length (take n bl)"
    using takeWhile_eq_take [of "\<lambda>x. x \<noteq> bn" "take n bl"] take_all [of "take n bl" "length ?t"] not_le by metis
  then have "take n bl ! length ?t = bn" using nth_length_takeWhile [OF len] by simp
  then show "absorb_index bl bn n 0 < n \<and> bl ! absorb_index bl bn n 0 = bn" using a assms b len by simp
qed

lemma log_write_spec:
  assumes "trans_ok (fl k)" "lh_n (fl k) < l_size (fl k) - 1" "lh_n (fl k) < int LOGSIZE" "1 \<le> outstanding (fl k)"
    and "blockno (bufs (fc k) ! b) \<notin> area (fl k)"
  shows "\<exists>k'. log_write b k = Inr k' \<and> trans_ok (fl k') \<and>
    logged (fl k') = insert (blockno (bufs (fc k) ! b)) (logged (fl k)) \<and> lh_n (fl k') = int (card (logged (fl k'))) \<and>
    (blockno (bufs (fc k) ! b) \<in> logged (fl k) \<longrightarrow> k' = k) \<and>
    fc k' = (if blockno (bufs (fc k) ! b) \<in> logged (fl k) then fc k else bpin b (fc k)) \<and>
    (l_start (fl k'), l_dev (fl k'), outstanding (fl k'), l_size (fl k'), committing (fl k')) =
      (l_start (fl k), l_dev (fl k), outstanding (fl k), l_size (fl k), committing (fl k))"
proof -
  let ?l = "fl k" and ?bn = "blockno (bufs (fc k) ! b)"
  let ?n = "nat (lh_n (fl k))"
  have t: "0 \<le> lh_n ?l" "length (lh_block ?l) = LOGSIZE" "?n < LOGSIZE" "?n \<le> length (lh_block ?l)"
    "distinct (take ?n (lh_block ?l))" "set (take ?n (lh_block ?l)) \<inter> area ?l = {}"
    using assms(1,3) by (auto simp: trans_ok_def)
  note i = absorb_index_cases [OF t(4), of ?bn]
  have card: "card (set (take ?n (lh_block ?l))) = ?n" using t by (simp add: distinct_card)
  show ?thesis
  proof (cases "?bn \<in> logged ?l")
    case True
    then have j: "absorb_index (lh_block ?l) ?bn ?n 0 < ?n" "lh_block ?l ! absorb_index (lh_block ?l) ?bn ?n 0 = ?bn"
      using i(2) by (auto simp: logged_def)
    then have "(lh_block ?l)[absorb_index (lh_block ?l) ?bn ?n 0 := ?bn] = lh_block ?l" by (metis list_update_id)
    moreover have "int (absorb_index (lh_block ?l) ?bn ?n 0) \<noteq> lh_n ?l" using j by linarith
    ultimately have "log_write b k = Inr k" using assms by (simp add: log_write_def Let_def)
    then show ?thesis using assms(1) True t card by (auto simp: logged_def)
  next
    case False
    then have j: "absorb_index (lh_block ?l) ?bn ?n 0 = ?n" using i(1) by (simp add: logged_def)
    let ?l' = "?l\<lparr>lh_block := (lh_block ?l)[?n := ?bn], lh_n := lh_n ?l + 1\<rparr>"
    have "log_write b k = Inr \<lparr>fl = ?l', fc = bpin b (fc k)\<rparr>" using assms j t by (simp add: log_write_def Let_def)
    moreover have "take (nat (lh_n ?l + 1)) ((lh_block ?l)[?n := ?bn]) = take ?n (lh_block ?l) @ [?bn]"
      using t by (simp add: nat_add_distrib take_Suc_conv_app_nth)
    moreover have "area ?l' = area ?l" by (simp add: area_def log_block_def)
    moreover have "nat (lh_n ?l + 1) \<le> nat (l_size ?l - 1)" using assms(2) by simp
    ultimately show ?thesis
      using False t assms(5) card by (auto simp: trans_ok_def logged_def)
  qed
qed

lemma area_far:
  assumes "l_start l = 2" "l_size l = 30" "32 \<le> unat x"
  shows "x \<notin> area l"
proof
  assume "x \<in> area l"
  then consider "x = 2" | i where "i < 29" "x = of_nat (i + 3)"
    by (auto simp: area_def log_block_def LOGSIZE_30 assms(1,2))
  then show False
  proof cases
    case 2
    have "unat (of_nat (i + 3) :: uint) = i + 3" using 2(1) by (intro unat_of_nat_less) simp
    then show ?thesis using 2 assms(3) by simp
  qed (use assms in simp)
qed

text \<open>
  Also proved (the reservation is one block short). On an idle log of the size \<open>mkfs\<close> gives it, \<open>begin_op\<close> admits
  three operations at once, which together may register thirty blocks; yet in any
  state with twenty-nine registered blocks \<open>log_write\<close> of the thirtieth panics.
\<close>

theorem log_reservation_short:
  "let l0 = l\<lparr>l_size := int LOGSIZE, lh_n := 0, outstanding := 0, committing := False\<rparr>
   in Option.bind (begin_op l0) (\<lambda>l1. Option.bind (begin_op l1) begin_op) = Some (l0\<lparr>outstanding := 3\<rparr>) \<and>
      lh_n (l0\<lparr>outstanding := 3\<rparr>) + 3 * int MAXOPBLOCKS = int LOGSIZE \<and>
      (\<forall>blocks b s. log_write b \<lparr>fl = l0\<lparr>outstanding := 3, lh_n := 3 * int MAXOPBLOCKS - 1, lh_block := blocks\<rparr>, fc = s\<rparr>
         = Inl (Panic ''too big a transaction''))"
  by (simp add: begin_op_def LOGSIZE_def MAXOPBLOCKS_def log_write_def Let_def)

text \<open>A cache that holds one changed block of a transaction, pinned and released.\<close>

lemma one_block_transaction:
  assumes "d \<noteq> 0"
  shows "\<exists>s. binv d s \<and> cabs d s = (D(60 := x), (\<lambda>_. 0)(60 := 1), \<lambda>_. None, D, [])"
proof -
  note i = binit_inv [OF assms, of D]
  have "available d 60 (binit (boot_cache D))" using available_card [OF i] by (simp add: NBUF_def)
  then obtain b s1 where 1: "bread 5 d 60 (binit (boot_cache D)) = Some (Inr (b, s1))" "binv d s1" "slot s1 d 60 = Some b"
    "valid (bufs s1 ! b)" "cabs d s1 = (D, (\<lambda>_. 0)(60 := 0 + 1), (\<lambda>_. None)(60 := Some 5), D, [])"
    using bread_spec [OF i, of 60 5] by auto
  let ?s2 = "set_data b x s1"
  have "0 < ((\<lambda>_. 0 :: nat)(60 :: uint := 0 + 1)) 60" by simp
  note 2 = set_data_spec [OF 1(2,5,3,4) this, of x]
  have "slot ?s2 d 60 = Some b" "((\<lambda>_. 0 :: nat)(60 :: uint := 0 + 1)) 60 < 2 ^ 32 - 1" using 2(2) 1(3) by auto
  note 3 = bpin_spec [OF 2(1,4) this]
  have "slot (bpin b ?s2) d 60 = Some b" using 3(2) 2(2) 1(3) by simp
  from brelse_spec [OF 3(1,4) this, of 5] show ?thesis by (auto simp: fun_upd_def cong: if_cong)
qed

abbreviation demo_log :: log where
  "demo_log \<equiv> \<lparr>l_start = 2, l_size = 30, outstanding = 0, committing = True, l_dev = 1, lh_n = 1, lh_block = replicate 30 60\<rparr>"

lemma demo_log_ok: "trans_ok demo_log" "pins demo_log 0 = (\<lambda>_. 0)(60 := 1)"
  by (simp_all add: trans_ok_def LOGSIZE_30 take_Suc area_far pins_def fun_eq_iff)

theorem commit_crash_safe_witness:
  "let D = (\<lambda>_. replicate BSIZE 0) in \<exists>s ws s'. view s 1 = D(60 := replicate BSIZE 1) \<and> disk s = D \<and>
    commit 5 \<lparr>fl = demo_log, fc = s\<rparr> = Some (Inr \<lparr>fl = demo_log\<lparr>lh_n := 0\<rparr>, fc = s'\<rparr>) \<and>
    (\<forall>j. \<exists>k'. initlog 1 1 2 30 \<lparr>fl = demo_log, fc = binit (boot_cache (apply_writes (take j ws) D))\<rparr> = Some (Inr k') \<and>
      disk (fc k') 60 = (if j \<le> 1 then replicate BSIZE 0 else replicate BSIZE 1))"
proof -
  let ?D = "\<lambda>_ :: uint. replicate BSIZE (0 :: uchar)"
  obtain s where s: "binv 1 s" "cabs 1 s = (?D(60 := replicate BSIZE 1), (\<lambda>_. 0)(60 := 1), \<lambda>_. None, ?D, [])"
    using one_block_transaction [of 1 ?D "replicate BSIZE 1"] by auto
  then have o: "view s 1 = ?D(60 := replicate BSIZE 1)" "refs s 1 = (\<lambda>_. 0)(60 := 1)" "holder s 1 = (\<lambda>_. None)" "disk s = ?D"
    by (simp_all add: cabs_def)
  have z: "get32 (replicate BSIZE 0) 0 = 0" by (simp add: get32_def BSIZE_def) code_simp
  have a: "(60 :: uint) \<notin> area demo_log" by (simp add: area_far)
  have "\<exists>ws s'. commit 5 \<lparr>fl = demo_log, fc = s\<rparr> = Some (Inr \<lparr>fl = demo_log\<lparr>lh_n := 0\<rparr>, fc = s'\<rparr>) \<and>
    writes s' = writes s @ ws \<and> disk s' = apply_writes ws (disk s) \<and>
    (\<forall>j. \<exists>k'. initlog 1 (l_dev demo_log) (l_start demo_log) 30
        \<lparr>fl = demo_log, fc = binit (boot_cache (apply_writes (take j ws) (disk s)))\<rparr> = Some (Inr k') \<and>
      lh_n (fl k') = 0 \<and>
      (\<forall>bn. bn \<notin> area demo_log \<longrightarrow> disk (fc k') bn = (if j \<le> nat (lh_n demo_log) then disk s bn else view s (l_dev demo_log) bn)))"
    by (rule commit_crash_safe) (use s o demo_log_ok z in \<open>simp_all add: NBUF_def LOGSIZE_30 BSIZE_def\<close>)
  then obtain ws s' where w: "commit 5 \<lparr>fl = demo_log, fc = s\<rparr> = Some (Inr \<lparr>fl = demo_log\<lparr>lh_n := 0\<rparr>, fc = s'\<rparr>)"
    "\<And>j. \<exists>k'. initlog 1 (l_dev demo_log) (l_start demo_log) 30
        \<lparr>fl = demo_log, fc = binit (boot_cache (apply_writes (take j ws) (disk s)))\<rparr> = Some (Inr k') \<and> lh_n (fl k') = 0 \<and>
      (\<forall>bn. bn \<notin> area demo_log \<longrightarrow> disk (fc k') bn = (if j \<le> nat (lh_n demo_log) then disk s bn else view s (l_dev demo_log) bn))"
    by blast
  have "\<exists>k'. initlog 1 1 2 30 \<lparr>fl = demo_log, fc = binit (boot_cache (apply_writes (take j ws) ?D))\<rparr> = Some (Inr k') \<and>
      disk (fc k') 60 = (if j \<le> 1 then replicate BSIZE 0 else replicate BSIZE 1)" for j
  proof -
    obtain k' where "initlog 1 (l_dev demo_log) (l_start demo_log) 30
        \<lparr>fl = demo_log, fc = binit (boot_cache (apply_writes (take j ws) (disk s)))\<rparr> = Some (Inr k')"
      "disk (fc k') 60 = (if j \<le> nat (lh_n demo_log) then disk s 60 else view s (l_dev demo_log) 60)"
      using w(2) [of j] a by blast
    then show ?thesis by (intro exI [of _ k']) (simp add: o)
  qed
  then show ?thesis unfolding Let_def using w(1) o by blast
qed


end
