(* ===== verification/Fs.thy ===== *)
theory Fs
  imports Log
begin

text \<open>
  The file system (\<open>kernel/fs.c\<close>, \<open>kernel/fs.h\<close>) over the buffer cache and the log: the block bitmap, inodes,
  file contents, directories and path names. A buffer is an index into the cache and an in-memory inode an index
  into \<open>itable\<close>; the critical sections of \<open>itable.lock\<close> are single steps, and an operation that has to
  sleep for a buffer or an inode gives \<open>None\<close>. \<open>p\<close> is \<open>myproc()->pid\<close>. Where file contents go to or come from
  is an argument: \<open>put dst bytes\<close> says whether \<open>either_copyout\<close> of the bytes succeeds and \<open>get src m\<close> is what
  \<open>either_copyin\<close> delivers, with whether it succeeds; a copy that fails may have delivered a part.
\<close>

unbundle bit_operations_syntax

section \<open>Layout of the disk\<close>

definition NDIRECT :: nat where "NDIRECT = 12"
definition NINDIRECT :: nat where "NINDIRECT = BSIZE div 4"
definition MAXFILE :: nat where "MAXFILE = NDIRECT + NINDIRECT"
definition FSMAGIC :: uint where "FSMAGIC = 0x10203040"
definition IPB :: nat where "IPB = BSIZE div 64"
definition BPB :: nat where "BPB = BSIZE * 8"
definition DIRSIZ :: nat where "DIRSIZ = 14"
definition ROOTINO :: uint where "ROOTINO = 1"
definition ROOTDEV :: uint where "ROOTDEV = 1"
definition NINODE :: nat where "NINODE = 50"
definition T_DIR :: ushort where "T_DIR = 1"

record superblock =
  sb_magic :: uint
  sb_size :: uint
  sb_nblocks :: uint
  sb_ninodes :: uint
  sb_nlog :: uint
  sb_logstart :: uint
  sb_inodestart :: uint
  sb_bmapstart :: uint

record inode =
  i_dev :: uint
  i_inum :: uint
  i_ref :: int
  i_lock :: sleeplock
  i_valid :: bool
  i_type :: ushort
  i_major :: ushort
  i_minor :: ushort
  i_nlink :: ushort
  i_size :: uint
  i_addrs :: "uint list"

record fs =
  fk :: fsys
  sb :: superblock
  inodes :: "inode list"

definition IBLOCK :: "uint \<Rightarrow> superblock \<Rightarrow> uint" where
  "IBLOCK i x = i div of_nat IPB + sb_inodestart x"

definition BBLOCK :: "uint \<Rightarrow> superblock \<Rightarrow> uint" where
  "BBLOCK b x = b div of_nat BPB + sb_bmapstart x"

text \<open>A part of a block, and a block with a part replaced.\<close>

definition slice :: "block \<Rightarrow> nat \<Rightarrow> nat \<Rightarrow> uchar list" where
  "slice bs off n = take n (drop off bs)"

definition splice :: "block \<Rightarrow> nat \<Rightarrow> uchar list \<Rightarrow> block" where
  "splice bs off xs = take off bs @ xs @ drop (off + length xs) bs"

definition get16 :: "block \<Rightarrow> nat \<Rightarrow> ushort" where
  "get16 bs off = of_nat (le_nat (slice bs off 2))"

section \<open>The layers below\<close>

definition fbread :: "int \<Rightarrow> uint \<Rightarrow> uint \<Rightarrow> fs \<Rightarrow> (nat \<times> fs) run" where
  "fbread p d bn s = bind_run (bread p d bn (fc (fk s))) (\<lambda>(b, c). Some (Inr (b, s\<lparr>fk := (fk s)\<lparr>fc := c\<rparr>\<rparr>)))"

definition fbrelse :: "int \<Rightarrow> nat \<Rightarrow> fs \<Rightarrow> fs run" where
  "fbrelse p b s = bind_run (Some (brelse p b (fc (fk s)))) (\<lambda>c. Some (Inr (s\<lparr>fk := (fk s)\<lparr>fc := c\<rparr>\<rparr>)))"

definition fdata :: "nat \<Rightarrow> fs \<Rightarrow> block" where
  "fdata b s = bdata (bufs (fc (fk s)) ! b)"

definition fset_data :: "nat \<Rightarrow> block \<Rightarrow> fs \<Rightarrow> fs" where
  "fset_data b bs s = s\<lparr>fk := (fk s)\<lparr>fc := set_data b bs (fc (fk s))\<rparr>\<rparr>"

definition flog_write :: "nat \<Rightarrow> fs \<Rightarrow> fs run" where
  "flog_write b s = bind_run (Some (log_write b (fk s))) (\<lambda>k. Some (Inr (s\<lparr>fk := k\<rparr>)))"

text \<open>A change of the data of a held buffer that is logged: \<open>... bp->data ...; log_write(bp)\<close>.\<close>

definition fwrite :: "nat \<Rightarrow> block \<Rightarrow> fs \<Rightarrow> fs run" where
  "fwrite b bs s = flog_write b (fset_data b bs s)"

definition upd_inode :: "nat \<Rightarrow> (inode \<Rightarrow> inode) \<Rightarrow> fs \<Rightarrow> fs" where
  "upd_inode ip f s = s\<lparr>inodes := (inodes s)[ip := f (inodes s ! ip)]\<rparr>"

abbreviation ino :: "fs \<Rightarrow> nat \<Rightarrow> inode" where "ino s ip \<equiv> inodes s ! ip"

section \<open>Blocks\<close>

definition readsb :: "int \<Rightarrow> uint \<Rightarrow> fs \<Rightarrow> fs run" where
  "readsb p d s =
     bind_run (fbread p d 1 s) (\<lambda>(bp, s).
     let w = get32 (fdata bp s);
         s = s\<lparr>sb := \<lparr>sb_magic = w 0, sb_size = w 1, sb_nblocks = w 2, sb_ninodes = w 3, sb_nlog = w 4,
               sb_logstart = w 5, sb_inodestart = w 6, sb_bmapstart = w 7\<rparr>\<rparr>
     in fbrelse p bp s)"

definition fsinit :: "int \<Rightarrow> uint \<Rightarrow> fs \<Rightarrow> fs run" where
  "fsinit p d s =
     bind_run (readsb p d s) (\<lambda>s.
     if sb_magic (sb s) \<noteq> FSMAGIC then Some (Inl (Panic ''invalid file system''))
     else bind_run (initlog p d (sb_logstart (sb s)) (sb_nlog (sb s)) (fk s)) (\<lambda>k. Some (Inr (s\<lparr>fk := k\<rparr>))))"

definition bzero :: "int \<Rightarrow> uint \<Rightarrow> uint \<Rightarrow> fs \<Rightarrow> fs run" where
  "bzero p d bno s =
     bind_run (fbread p d bno s) (\<lambda>(bp, s).
     bind_run (fwrite bp (replicate BSIZE 0) s) (fbrelse p bp))"

text \<open>The bit of block \<open>bi\<close> in a bitmap block, and the inner loop of \<open>balloc\<close> over \<open>k\<close> bits from \<open>bi\<close>.\<close>

definition bit_mask :: "nat \<Rightarrow> uchar" where
  "bit_mask bi = push_bit (bi mod 8) 1"

definition bit_used :: "block \<Rightarrow> nat \<Rightarrow> bool" where
  "bit_used bs bi \<longleftrightarrow> bs ! (bi div 8) AND bit_mask bi \<noteq> 0"

fun find_free :: "block \<Rightarrow> nat \<Rightarrow> nat \<Rightarrow> nat option" where
  "find_free bs 0 bi = None"
| "find_free bs (Suc k) bi = (if \<not> bit_used bs bi then Some bi else find_free bs k (bi + 1))"

fun balloc_loop :: "int \<Rightarrow> uint \<Rightarrow> nat list \<Rightarrow> fs \<Rightarrow> (uint \<times> fs) run" where
  "balloc_loop p d [] s = Some (Inr (0, s))"
| "balloc_loop p d (b # rest) s =
     bind_run (fbread p d (BBLOCK (of_nat b) (sb s)) s) (\<lambda>(bp, s).
     let bs = fdata bp s
     in case find_free bs (min BPB (unat (sb_size (sb s)) - b)) 0 of
          Some bi \<Rightarrow>
            bind_run (fwrite bp (bs[bi div 8 := bs ! (bi div 8) OR bit_mask bi]) s) (\<lambda>s.
            bind_run (fbrelse p bp s) (\<lambda>s.
            bind_run (bzero p d (of_nat (b + bi)) s) (\<lambda>s.
            Some (Inr (of_nat (b + bi), s)))))
        | None \<Rightarrow> bind_run (fbrelse p bp s) (balloc_loop p d rest))"

text \<open>The outer loop runs over the multiples of \<open>BPB\<close> below \<open>sb.size\<close>.\<close>

definition balloc :: "int \<Rightarrow> uint \<Rightarrow> fs \<Rightarrow> (uint \<times> fs) run" where
  "balloc p d s =
     balloc_loop p d (map (\<lambda>i. i * BPB) [0..<(unat (sb_size (sb s)) + BPB - 1) div BPB]) s"

definition bfree :: "int \<Rightarrow> uint \<Rightarrow> uint \<Rightarrow> fs \<Rightarrow> fs run" where
  "bfree p d b s =
     bind_run (fbread p d (BBLOCK b (sb s)) s) (\<lambda>(bp, s).
     let bs = fdata bp s; bi = unat b mod BPB
     in if \<not> bit_used bs bi then Some (Inl (Panic ''freeing free block''))
        else bind_run (fwrite bp (bs[bi div 8 := bs ! (bi div 8) AND NOT (bit_mask bi)]) s) (fbrelse p bp))"

section \<open>Inodes\<close>

definition iinit :: "fs \<Rightarrow> fs" where
  "iinit s = foldl (\<lambda>s i. upd_inode i (\<lambda>ip. ip\<lparr>i_lock := initsleeplock ''inode''\<rparr>) s) s [0..<NINODE]"

text \<open>The loop of \<open>iget\<close> over the table: the entry of the inode, or the first empty one.\<close>

fun iget_scan :: "uint \<Rightarrow> uint \<Rightarrow> nat list \<Rightarrow> nat option \<Rightarrow> inode list \<Rightarrow> nat + nat option" where
  "iget_scan d inum [] emp tab = Inr emp"
| "iget_scan d inum (i # is) emp tab =
     (if i_ref (tab ! i) > 0 \<and> i_dev (tab ! i) = d \<and> i_inum (tab ! i) = inum then Inl i
      else iget_scan d inum is (if emp = None \<and> i_ref (tab ! i) = 0 then Some i else emp) tab)"

definition iget :: "uint \<Rightarrow> uint \<Rightarrow> fs \<Rightarrow> (nat \<times> fs) cresult" where
  "iget d inum s =
     (case iget_scan d inum [0..<NINODE] None (inodes s) of
        Inl i \<Rightarrow> Inr (i, upd_inode i (\<lambda>ip. ip\<lparr>i_ref := i_ref ip + 1\<rparr>) s)
      | Inr None \<Rightarrow> Inl (Panic ''iget: no inodes'')
      | Inr (Some i) \<Rightarrow> Inr (i, upd_inode i (\<lambda>ip. ip\<lparr>i_dev := d, i_inum := inum, i_ref := 1, i_valid := False\<rparr>) s))"

definition dinode_at :: "uint \<Rightarrow> nat" where
  "dinode_at inum = 64 * (unat inum mod IPB)"

fun ialloc_loop :: "int \<Rightarrow> uint \<Rightarrow> ushort \<Rightarrow> nat list \<Rightarrow> fs \<Rightarrow> (nat option \<times> fs) run" where
  "ialloc_loop p d type [] s = Some (Inr (None, s))"
| "ialloc_loop p d type (i # is) s =
     (let inum = of_nat i
      in bind_run (fbread p d (IBLOCK inum (sb s)) s) (\<lambda>(bp, s).
         if get16 (fdata bp s) (dinode_at inum) = 0
         then bind_run (fwrite bp (splice (fdata bp s) (dinode_at inum) (le_bytes 2 (unat type) @ replicate 62 0)) s) (\<lambda>s.
              bind_run (fbrelse p bp s) (\<lambda>s.
              bind_run (Some (iget d inum s)) (\<lambda>(ip, s). Some (Inr (Some ip, s)))))
         else bind_run (fbrelse p bp s) (ialloc_loop p d type is)))"

definition ialloc :: "int \<Rightarrow> uint \<Rightarrow> ushort \<Rightarrow> fs \<Rightarrow> (nat option \<times> fs) run" where
  "ialloc p d type s = ialloc_loop p d type [1..<unat (sb_ninodes (sb s))] s"

text \<open>The on-disk form of an inode, field by field.\<close>

definition dinode_bytes :: "inode \<Rightarrow> uchar list" where
  "dinode_bytes ip = le_bytes 2 (unat (i_type ip)) @ le_bytes 2 (unat (i_major ip)) @ le_bytes 2 (unat (i_minor ip)) @
     le_bytes 2 (unat (i_nlink ip)) @ le_bytes 4 (unat (i_size ip)) @ concat (map (\<lambda>a. le_bytes 4 (unat a)) (i_addrs ip))"

definition dinode_read :: "block \<Rightarrow> nat \<Rightarrow> inode \<Rightarrow> inode" where
  "dinode_read bs off ip = ip\<lparr>i_type := get16 bs off, i_major := get16 bs (off + 2), i_minor := get16 bs (off + 4),
     i_nlink := get16 bs (off + 6), i_size := get32 bs (off div 4 + 2),
     i_addrs := map (\<lambda>j. get32 bs (off div 4 + 3 + j)) [0..<NDIRECT + 1]\<rparr>"

definition iupdate :: "int \<Rightarrow> nat \<Rightarrow> fs \<Rightarrow> fs run" where
  "iupdate p ip s =
     bind_run (fbread p (i_dev (ino s ip)) (IBLOCK (i_inum (ino s ip)) (sb s)) s) (\<lambda>(bp, s).
     bind_run (fwrite bp (splice (fdata bp s) (dinode_at (i_inum (ino s ip))) (dinode_bytes (ino s ip))) s) (fbrelse p bp))"

definition idup :: "nat \<Rightarrow> fs \<Rightarrow> fs" where
  "idup ip s = upd_inode ip (\<lambda>i. i\<lparr>i_ref := i_ref i + 1\<rparr>) s"

definition ilock :: "int \<Rightarrow> nat \<Rightarrow> fs \<Rightarrow> fs run" where
  "ilock p ip s =
     (if i_ref (ino s ip) < 1 then Some (Inl (Panic ''ilock''))
      else case acquiresleep p (i_lock (ino s ip)) of
             None \<Rightarrow> None
           | Some lk \<Rightarrow>
               let s = upd_inode ip (\<lambda>i. i\<lparr>i_lock := lk\<rparr>) s
               in if i_valid (ino s ip) then Some (Inr s)
                  else bind_run (fbread p (i_dev (ino s ip)) (IBLOCK (i_inum (ino s ip)) (sb s)) s) (\<lambda>(bp, s).
                       let s = upd_inode ip (dinode_read (fdata bp s) (dinode_at (i_inum (ino s ip)))) s
                       in bind_run (fbrelse p bp s) (\<lambda>s.
                          let s = upd_inode ip (\<lambda>i. i\<lparr>i_valid := True\<rparr>) s
                          in if i_type (ino s ip) = 0 then Some (Inl (Panic ''ilock: no type'')) else Some (Inr s))))"

definition iunlock :: "int \<Rightarrow> nat \<Rightarrow> fs \<Rightarrow> fs cresult" where
  "iunlock p ip s =
     (if \<not> holdingsleep p (i_lock (ino s ip)) \<or> i_ref (ino s ip) < 1 then Inl (Panic ''iunlock'')
      else Inr (upd_inode ip (\<lambda>i. i\<lparr>i_lock := releasesleep (i_lock i)\<rparr>) s))"

section \<open>File contents\<close>

definition bmap :: "int \<Rightarrow> nat \<Rightarrow> nat \<Rightarrow> fs \<Rightarrow> (uint \<times> fs) run" where
  "bmap p ip bn s =
     (if bn < NDIRECT
      then let addr = i_addrs (ino s ip) ! bn
           in if addr = 0
              then bind_run (balloc p (i_dev (ino s ip)) s) (\<lambda>(addr, s).
                   if addr = 0 then Some (Inr (0, s))
                   else Some (Inr (addr, upd_inode ip (\<lambda>i. i\<lparr>i_addrs := (i_addrs i)[bn := addr]\<rparr>) s)))
              else Some (Inr (addr, s))
      else let bn = bn - NDIRECT
           in if bn < NINDIRECT
              then let addr = i_addrs (ino s ip) ! NDIRECT
                   in bind_run
                        (if addr = 0
                         then bind_run (balloc p (i_dev (ino s ip)) s) (\<lambda>(addr, s).
                              if addr = 0 then Some (Inr (0, s))
                              else Some (Inr (addr, upd_inode ip (\<lambda>i. i\<lparr>i_addrs := (i_addrs i)[NDIRECT := addr]\<rparr>) s)))
                         else Some (Inr (addr, s)))
                        (\<lambda>(addr, s).
                          if addr = 0 then Some (Inr (0, s))
                          else bind_run (fbread p (i_dev (ino s ip)) addr s) (\<lambda>(bp, s).
                               let addr = get32 (fdata bp s) bn
                               in if addr = 0
                                  then bind_run (balloc p (i_dev (ino s ip)) s) (\<lambda>(addr, s).
                                       bind_run (if addr \<noteq> 0 then fwrite bp (put32 (fdata bp s) bn addr) s else Some (Inr s)) (\<lambda>s.
                                       bind_run (fbrelse p bp s) (\<lambda>s. Some (Inr (addr, s)))))
                                  else bind_run (fbrelse p bp s) (\<lambda>s. Some (Inr (addr, s)))))
              else Some (Inl (Panic ''bmap: out of range'')))"

text \<open>The loop of \<open>itrunc\<close> over the direct blocks, and the one over the words of the indirect block.\<close>

definition trunc_direct :: "int \<Rightarrow> nat \<Rightarrow> nat \<Rightarrow> fs \<Rightarrow> fs run" where
  "trunc_direct p ip i s =
     (let a = i_addrs (ino s ip) ! i
      in if a \<noteq> 0
         then bind_run (bfree p (i_dev (ino s ip)) a s) (\<lambda>s.
              Some (Inr (upd_inode ip (\<lambda>x. x\<lparr>i_addrs := (i_addrs x)[i := 0]\<rparr>) s)))
         else Some (Inr s))"

definition trunc_indirect :: "int \<Rightarrow> nat \<Rightarrow> nat \<Rightarrow> nat \<Rightarrow> fs \<Rightarrow> fs run" where
  "trunc_indirect p ip bp j s =
     (let a = get32 (fdata bp s) j in if a \<noteq> 0 then bfree p (i_dev (ino s ip)) a s else Some (Inr s))"

definition itrunc :: "int \<Rightarrow> nat \<Rightarrow> fs \<Rightarrow> fs run" where
  "itrunc p ip s =
     bind_run (run_for (trunc_direct p ip) [0..<NDIRECT] s) (\<lambda>s.
     bind_run
       (let ind = i_addrs (ino s ip) ! NDIRECT
        in if ind \<noteq> 0
           then bind_run (fbread p (i_dev (ino s ip)) ind s) (\<lambda>(bp, s).
                bind_run (run_for (trunc_indirect p ip bp) [0..<NINDIRECT] s) (\<lambda>s.
                bind_run (fbrelse p bp s) (\<lambda>s.
                bind_run (bfree p (i_dev (ino s ip)) ind s) (\<lambda>s.
                Some (Inr (upd_inode ip (\<lambda>x. x\<lparr>i_addrs := (i_addrs x)[NDIRECT := 0]\<rparr>) s))))))
           else Some (Inr s))
       (\<lambda>s. iupdate p ip (upd_inode ip (\<lambda>x. x\<lparr>i_size := 0\<rparr>) s)))"

definition iput :: "int \<Rightarrow> nat \<Rightarrow> fs \<Rightarrow> fs run" where
  "iput p ip s =
     bind_run
       (if i_ref (ino s ip) = 1 \<and> i_valid (ino s ip) \<and> i_nlink (ino s ip) = 0
        then case acquiresleep p (i_lock (ino s ip)) of
               None \<Rightarrow> None
             | Some lk \<Rightarrow>
                 bind_run (itrunc p ip (upd_inode ip (\<lambda>i. i\<lparr>i_lock := lk\<rparr>) s)) (\<lambda>s.
                 bind_run (iupdate p ip (upd_inode ip (\<lambda>i. i\<lparr>i_type := 0\<rparr>) s)) (\<lambda>s.
                 Some (Inr (upd_inode ip (\<lambda>i. i\<lparr>i_valid := False, i_lock := releasesleep (i_lock i)\<rparr>) s))))
        else Some (Inr s))
       (\<lambda>s. Some (Inr (upd_inode ip (\<lambda>i. i\<lparr>i_ref := i_ref i - 1\<rparr>) s)))"

definition iunlockput :: "int \<Rightarrow> nat \<Rightarrow> fs \<Rightarrow> fs run" where
  "iunlockput p ip s = bind_run (Some (iunlock p ip s)) (iput p ip)"

record stat =
  st_dev :: uint
  st_ino :: uint
  st_type :: ushort
  st_nlink :: ushort
  st_size :: uint64

definition stati :: "inode \<Rightarrow> stat" where
  "stati ip = \<lparr>st_dev = i_dev ip, st_ino = i_inum ip, st_type = i_type ip, st_nlink = i_nlink ip, st_size = ucast (i_size ip)\<rparr>"

text \<open>
  The loops of \<open>readi\<close> and \<open>writei\<close>. The bytes handed to \<open>put\<close> so far are in \<open>out\<close>.
\<close>

function readi_loop :: "int \<Rightarrow> nat \<Rightarrow> (uint64 \<Rightarrow> uchar list \<Rightarrow> bool) \<Rightarrow> uint64 \<Rightarrow> nat \<Rightarrow> nat \<Rightarrow> nat \<Rightarrow> uchar list \<Rightarrow> fs \<Rightarrow>
    (int \<times> uchar list \<times> fs) run" where
  "readi_loop p ip put dst off tot n out s =
     (if tot < n
      then bind_run (bmap p ip (off div BSIZE) s) (\<lambda>(addr, s).
           if addr = 0 then Some (Inr (int tot, out, s))
           else bind_run (fbread p (i_dev (ino s ip)) addr s) (\<lambda>(bp, s).
                let m = min (n - tot) (BSIZE - off mod BSIZE);
                    bytes = slice (fdata bp s) (off mod BSIZE) m
                in if \<not> put dst bytes
                   then bind_run (fbrelse p bp s) (\<lambda>s. Some (Inr (-1, out, s)))
                   else bind_run (fbrelse p bp s) (readi_loop p ip put (dst + of_nat m) (off + m) (tot + m) n (out @ bytes))))
      else Some (Inr (int tot, out, s)))"
  by pat_completeness auto
termination
  by (relation "measure (\<lambda>(p, ip, put, dst, off, tot, n, out, s). n - tot)") (auto simp: BSIZE_def)

definition readi :: "int \<Rightarrow> nat \<Rightarrow> (uint64 \<Rightarrow> uchar list \<Rightarrow> bool) \<Rightarrow> uint64 \<Rightarrow> uint \<Rightarrow> uint \<Rightarrow> fs \<Rightarrow> (int \<times> uchar list \<times> fs) run" where
  "readi p ip put dst off n s =
     (if off > i_size (ino s ip) \<or> off + n < off then Some (Inr (0, [], s))
      else let n = (if off + n > i_size (ino s ip) then i_size (ino s ip) - off else n)
           in readi_loop p ip put dst (unat off) 0 (unat n) [] s)"

function writei_loop :: "int \<Rightarrow> nat \<Rightarrow> (uint64 \<Rightarrow> nat \<Rightarrow> uchar list \<times> bool) \<Rightarrow> uint64 \<Rightarrow> nat \<Rightarrow> nat \<Rightarrow> nat \<Rightarrow> fs \<Rightarrow>
    (nat \<times> nat \<times> fs) run" where
  "writei_loop p ip get src off tot n s =
     (if tot < n
      then bind_run (bmap p ip (off div BSIZE) s) (\<lambda>(addr, s).
           if addr = 0 then Some (Inr (off, tot, s))
           else bind_run (fbread p (i_dev (ino s ip)) addr s) (\<lambda>(bp, s).
                let m = min (n - tot) (BSIZE - off mod BSIZE);
                    (bytes, ok) = get src m;
                    s = fset_data bp (splice (fdata bp s) (off mod BSIZE) bytes) s
                in if \<not> ok
                   then bind_run (fbrelse p bp s) (\<lambda>s. Some (Inr (off, tot, s)))
                   else bind_run (flog_write bp s) (\<lambda>s.
                        bind_run (fbrelse p bp s) (writei_loop p ip get (src + of_nat m) (off + m) (tot + m) n))))
      else Some (Inr (off, tot, s)))"
  by pat_completeness auto
termination
  by (relation "measure (\<lambda>(p, ip, get, src, off, tot, n, s). n - tot)") (auto simp: BSIZE_def)

definition writei :: "int \<Rightarrow> nat \<Rightarrow> (uint64 \<Rightarrow> nat \<Rightarrow> uchar list \<times> bool) \<Rightarrow> uint64 \<Rightarrow> uint \<Rightarrow> uint \<Rightarrow> fs \<Rightarrow> (int \<times> fs) run" where
  "writei p ip get src off n s =
     (if off > i_size (ino s ip) \<or> off + n < off then Some (Inr (-1, s))
      else if off + n > of_nat (MAXFILE * BSIZE) then Some (Inr (-1, s))
      else bind_run (writei_loop p ip get src (unat off) 0 (unat n) s) (\<lambda>(off, tot, s).
           let s = (if off > unat (i_size (ino s ip)) then upd_inode ip (\<lambda>i. i\<lparr>i_size := of_nat off\<rparr>) s else s)
           in bind_run (iupdate p ip s) (\<lambda>s. Some (Inr (int tot, s)))))"

section \<open>Directories\<close>

text \<open>\<open>strncmp\<close> on two name arrays.\<close>

fun name_diff :: "nat \<Rightarrow> uchar list \<Rightarrow> uchar list \<Rightarrow> int" where
  "name_diff 0 xs ys = 0"
| "name_diff (Suc n) xs ys =
     (if hd xs \<noteq> 0 \<and> hd xs = hd ys then name_diff n (tl xs) (tl ys) else uint (hd xs) - uint (hd ys))"

definition namecmp :: "uchar list \<Rightarrow> uchar list \<Rightarrow> int" where
  "namecmp s t = name_diff DIRSIZ s t"

text \<open>A read of one entry into a kernel variable, and the offsets that the loops visit.\<close>

definition read_dirent :: "int \<Rightarrow> nat \<Rightarrow> nat \<Rightarrow> fs \<Rightarrow> (int \<times> uchar list \<times> fs) run" where
  "read_dirent p dp off s = readi p dp (\<lambda>_ _. True) 0 (of_nat off) 16 s"

definition dirent_offsets :: "inode \<Rightarrow> nat list" where
  "dirent_offsets dp = map (\<lambda>i. 16 * i) [0..<(unat (i_size dp) + 15) div 16]"

fun dirlookup_loop :: "int \<Rightarrow> nat \<Rightarrow> uchar list \<Rightarrow> nat list \<Rightarrow> fs \<Rightarrow> ((nat \<times> nat) option \<times> fs) run" where
  "dirlookup_loop p dp name [] s = Some (Inr (None, s))"
| "dirlookup_loop p dp name (off # offs) s =
     bind_run (read_dirent p dp off s) (\<lambda>(r, de, s).
     if r \<noteq> 16 then Some (Inl (Panic ''dirlookup read''))
     else if get16 de 0 = 0 then dirlookup_loop p dp name offs s
     else if namecmp name (drop 2 de) = 0
     then bind_run (Some (iget (i_dev (ino s dp)) (ucast (get16 de 0)) s)) (\<lambda>(ip, s). Some (Inr (Some (ip, off), s)))
     else dirlookup_loop p dp name offs s)"

text \<open>The result is the inode with the offset of its entry.\<close>

definition dirlookup :: "int \<Rightarrow> nat \<Rightarrow> uchar list \<Rightarrow> fs \<Rightarrow> ((nat \<times> nat) option \<times> fs) run" where
  "dirlookup p dp name s =
     (if i_type (ino s dp) \<noteq> T_DIR then Some (Inl (Panic ''dirlookup not DIR''))
      else dirlookup_loop p dp name (dirent_offsets (ino s dp)) s)"

text \<open>The search of \<open>dirlink\<close> for an empty entry; without one \<open>off\<close> is behind the last.\<close>

fun find_empty :: "int \<Rightarrow> nat \<Rightarrow> nat list \<Rightarrow> nat \<Rightarrow> fs \<Rightarrow> (nat \<times> fs) run" where
  "find_empty p dp [] behind s = Some (Inr (behind, s))"
| "find_empty p dp (off # offs) behind s =
     bind_run (read_dirent p dp off s) (\<lambda>(r, de, s).
     if r \<noteq> 16 then Some (Inl (Panic ''dirlink read''))
     else if get16 de 0 = 0 then Some (Inr (off, s))
     else find_empty p dp offs behind s)"

text \<open>\<open>strncpy\<close> into a name array of an entry.\<close>

definition pad_name :: "uchar list \<Rightarrow> uchar list" where
  "pad_name name = (let cs = takeWhile (\<lambda>c. c \<noteq> 0) (take DIRSIZ name) in cs @ replicate (DIRSIZ - length cs) 0)"

definition dirlink :: "int \<Rightarrow> nat \<Rightarrow> uchar list \<Rightarrow> uint \<Rightarrow> fs \<Rightarrow> (int \<times> fs) run" where
  "dirlink p dp name inum s =
     bind_run (dirlookup p dp name s) (\<lambda>(found, s).
     case found of
       Some (ip, _) \<Rightarrow> bind_run (iput p ip s) (\<lambda>s. Some (Inr (-1, s)))
     | None \<Rightarrow>
         let offs = dirent_offsets (ino s dp)
         in bind_run (find_empty p dp offs (16 * length offs) s) (\<lambda>(off, s).
            let de = le_bytes 2 (unat inum) @ pad_name name
            in bind_run (writei p dp (\<lambda>src m. (take m (drop (unat src) de), True)) 0 (of_nat off) 16 s) (\<lambda>(r, s).
               Some (Inr (if r \<noteq> 16 then -1 else 0, s)))))"

section \<open>Paths\<close>

text \<open>
  A path is its bytes up to the terminating zero; \<open>name\<close> is an array of \<open>DIRSIZ\<close> bytes. The result is the rest of
  the path and the new contents of the array.
\<close>

definition skipelem :: "uchar list \<Rightarrow> uchar list \<Rightarrow> (uchar list \<times> uchar list) option" where
  "skipelem path name =
     (let path = dropWhile (\<lambda>c. c = 47) path
      in if path = [] then None
         else let elem = takeWhile (\<lambda>c. c \<noteq> 47) path;
                  path = dropWhile (\<lambda>c. c \<noteq> 47) path;
                  name = (if length elem \<ge> DIRSIZ then take DIRSIZ elem
                          else elem @ [0] @ drop (length elem + 1) name)
              in Some (dropWhile (\<lambda>c. c = 47) path, name))"

lemma skipelem_shorter: "skipelem path name = Some (rest, name') \<Longrightarrow> length rest < length path"
proof -
  assume a: "skipelem path name = Some (rest, name')"
  let ?p = "dropWhile (\<lambda>c. c = 47) path"
  have ne: "?p \<noteq> []" and rest: "rest = dropWhile (\<lambda>c. c = 47) (dropWhile (\<lambda>c. c \<noteq> 47) ?p)"
    using a by (auto simp: skipelem_def Let_def split: if_splits)
  have "hd ?p \<noteq> 47" using hd_dropWhile [OF ne] by simp
  with ne have "length (dropWhile (\<lambda>c. c \<noteq> 47) ?p) < length ?p"
    by (cases ?p) (auto simp: length_dropWhile_le le_imp_less_Suc)
  moreover have "length rest \<le> length (dropWhile (\<lambda>c. c \<noteq> 47) ?p)" "length ?p \<le> length path"
    unfolding rest by (rule length_dropWhile_le)+
  ultimately show ?thesis by linarith
qed

function namex_loop :: "int \<Rightarrow> bool \<Rightarrow> uchar list \<Rightarrow> uchar list \<Rightarrow> nat \<Rightarrow> fs \<Rightarrow> (nat option \<times> uchar list \<times> fs) run" where
  "namex_loop p parent path name ip s =
     (case skipelem path name of
        None \<Rightarrow>
          if parent then bind_run (iput p ip s) (\<lambda>s. Some (Inr (None, name, s)))
          else Some (Inr (Some ip, name, s))
      | Some (path', name) \<Rightarrow>
          bind_run (ilock p ip s) (\<lambda>s.
          if i_type (ino s ip) \<noteq> T_DIR
          then bind_run (iunlockput p ip s) (\<lambda>s. Some (Inr (None, name, s)))
          else if parent \<and> path' = []
          then bind_run (Some (iunlock p ip s)) (\<lambda>s. Some (Inr (Some ip, name, s)))
          else bind_run (dirlookup p ip name s) (\<lambda>(found, s).
               case found of
                 None \<Rightarrow> bind_run (iunlockput p ip s) (\<lambda>s. Some (Inr (None, name, s)))
               | Some (next_ip, _) \<Rightarrow> bind_run (iunlockput p ip s) (namex_loop p parent path' name next_ip))))"
  by pat_completeness auto
termination
  by (relation "measure (\<lambda>(p, parent, path, name, ip, s). length path)") (auto dest: skipelem_shorter)

definition namex :: "int \<Rightarrow> nat \<Rightarrow> bool \<Rightarrow> uchar list \<Rightarrow> uchar list \<Rightarrow> fs \<Rightarrow> (nat option \<times> uchar list \<times> fs) run" where
  "namex p cwd parent path name s =
     bind_run (if path \<noteq> [] \<and> hd path = 47 then Some (iget ROOTDEV ROOTINO s) else Some (Inr (cwd, idup cwd s)))
       (\<lambda>(ip, s). namex_loop p parent path name ip s)"

definition namei :: "int \<Rightarrow> nat \<Rightarrow> uchar list \<Rightarrow> fs \<Rightarrow> (nat option \<times> fs) run" where
  "namei p cwd path s = bind_run (namex p cwd False path (replicate DIRSIZ 0) s) (\<lambda>(ip, _, s). Some (Inr (ip, s)))"

definition nameiparent :: "int \<Rightarrow> nat \<Rightarrow> uchar list \<Rightarrow> uchar list \<Rightarrow> fs \<Rightarrow> (nat option \<times> uchar list \<times> fs) run" where
  "nameiparent p cwd path name s = namex p cwd True path name s"

end
