(* ===== verification/Txn.thy ===== *)
theory Txn
  imports Log
begin

text \<open>
  What the file system relies on inside a transaction: the contents \<open>V\<close> of the blocks as it sees them, the set \<open>L\<close> of
  blocks logged so far and the holders \<open>H\<close> of buffers. Reading, logging and releasing a block are given over
  these, from the lemmas of \<open>Bio\<close> and \<open>Log\<close>; references, the LRU list and the log header do not appear any more.
\<close>

text \<open>The device, the blocks of the log, the number of blocks a transaction can hold, and the number of system calls in progress.\<close>

type_synonym tenv = "uint \<times> uint set \<times> nat \<times> int"

definition tx :: "tenv \<Rightarrow> (uint \<Rightarrow> block) \<Rightarrow> uint set \<Rightarrow> (uint \<Rightarrow> int option) \<Rightarrow> fsys \<Rightarrow> bool" where
  "tx e V L H k \<longleftrightarrow> (case e of (d, A, cap, nop) \<Rightarrow>
     l_dev (fl k) = d \<and> area (fl k) = A \<and> int cap = min (int LOGSIZE) (l_size (fl k) - 1) \<and>
     trans_ok (fl k) \<and> logged (fl k) = L \<and> outstanding (fl k) = nop \<and> 1 \<le> nop \<and> \<not> committing (fl k) \<and> binv d (fc k) \<and>
     (\<exists>R D W. cabs d (fc k) = (V, R, H, D, W) \<and>
        (\<forall>bn. R bn = (if bn \<in> L then 1 else 0) + (if H bn \<noteq> None then 1 else 0)) \<and> (\<forall>bn. bn \<notin> L \<longrightarrow> V bn = D bn) \<and>
        length (D (l_start (fl k))) = BSIZE \<and> get32 (D (l_start (fl k))) 0 = 0))"

definition held :: "bstate \<Rightarrow> uint \<Rightarrow> uint \<Rightarrow> nat \<Rightarrow> bool" where
  "held c d bn b \<longleftrightarrow> slot c d bn = Some b \<and> valid (bufs c ! b)"

lemma txI:
  assumes "l_dev (fl k) = d" "area (fl k) = A" "int cap = min (int LOGSIZE) (l_size (fl k) - 1)"
    "trans_ok (fl k)" "logged (fl k) = L" "outstanding (fl k) = nop" "1 \<le> nop" "\<not> committing (fl k)" "binv d (fc k)" "cabs d (fc k) = (V, R, H, D, W)"
    "\<And>bn. R bn = (if bn \<in> L then 1 else 0) + (if H bn \<noteq> None then 1 else 0)" "\<And>bn. bn \<notin> L \<Longrightarrow> V bn = D bn"
    "length (D (l_start (fl k))) = BSIZE" "get32 (D (l_start (fl k))) 0 = 0"
  shows "tx (d, A, cap, nop) V L H k"
  using assms unfolding tx_def by auto

lemma held_data:
  assumes "tx (d, A, cap, nop) V L H k" "held (fc k) d bn b"
  shows "bdata (bufs (fc k) ! b) = V bn" "b < NBUF" "blockno (bufs (fc k) ! b) = bn"
proof -
  obtain R D W where "cabs d (fc k) = (V, R, H, D, W)" using assms(1) unfolding tx_def by auto
  then show "bdata (bufs (fc k) ! b) = V bn" "b < NBUF" "blockno (bufs (fc k) ! b) = bn"
    using slot_obs [of d "fc k" V R H D W bn b] assms(2) by (auto simp: held_def)
qed

lemma tx_read:
  assumes t: "tx (d, A, cap, nop) V L H k" and free: "H bn = None" and room: "card (L \<union> {x. H x \<noteq> None}) < NBUF"
  shows "\<exists>b c. bread p d bn (fc k) = Some (Inr (b, c)) \<and> tx (d, A, cap, nop) V L (H(bn := Some p)) (k\<lparr>fc := c\<rparr>) \<and> held c d bn b \<and>
    (\<forall>bn' b'. H bn' \<noteq> None \<longrightarrow> held (fc k) d bn' b' \<longrightarrow> held c d bn' b')"
proof -
  obtain R D W where t': "l_dev (fl k) = d" "area (fl k) = A" "int cap = min (int LOGSIZE) (l_size (fl k) - 1)"
    "trans_ok (fl k)" "logged (fl k) = L" "outstanding (fl k) = nop" "1 \<le> nop" "\<not> committing (fl k)" and inv: "binv d (fc k)" and abs: "cabs d (fc k) = (V, R, H, D, W)"
    and R: "\<forall>bn. R bn = (if bn \<in> L then 1 else 0) + (if H bn \<noteq> None then 1 else 0)" and D: "\<forall>bn. bn \<notin> L \<longrightarrow> V bn = D bn"
    and hd: "length (D (l_start (fl k))) = BSIZE" "get32 (D (l_start (fl k))) 0 = 0"
    using t unfolding tx_def by auto
  have "{x. 0 < R x} = L \<union> {x. H x \<noteq> None}" by (auto simp: R)
  then have "available d bn (fc k)" using available_card [OF inv abs] room by simp
  moreover have "R bn < 2 ^ 32 - 1" by (simp add: R)
  ultimately obtain b c where b: "bread p d bn (fc k) = Some (Inr (b, c))" "binv d c" "slot c d bn = Some b" "valid (bufs c ! b)"
    "cabs d c = (V, R(bn := R bn + 1), H(bn := Some p), D, W)"
    "\<forall>bn' x. bn' \<noteq> bn \<longrightarrow> slot (fc k) d bn' = Some x \<longrightarrow> 0 < R bn' \<longrightarrow> slot c d bn' = Some x \<and> bufs c ! x = bufs (fc k) ! x"
    using bread_spec [OF inv abs free, of p] by blast
  have "tx (d, A, cap, nop) V L (H(bn := Some p)) (k\<lparr>fc := c\<rparr>)"
    by (rule txI [where R = "R(bn := R bn + 1)"]) (use t' b(2,5) R D hd free in auto)
  moreover have "held c d bn' b'" if "H bn' \<noteq> None" "held (fc k) d bn' b'" for bn' b'
  proof -
    have "bn' \<noteq> bn" using that(1) free by auto
    moreover have "0 < R bn'" using that(1) by (simp add: R)
    ultimately show ?thesis using b(6) that(2) by (auto simp: held_def)
  qed
  ultimately show ?thesis using b by (auto simp: held_def)
qed

lemma tx_write:
  assumes t: "tx (d, A, cap, nop) V L H k" and h: "held (fc k) d bn b" "H bn = Some p" and out: "bn \<notin> A" and room: "card L < cap"
  shows "\<exists>k'. log_write b (k\<lparr>fc := set_data b bs (fc k)\<rparr>) = Inr k' \<and> tx (d, A, cap, nop) (V(bn := bs)) (insert bn L) H k' \<and>
    (\<forall>bn' b'. held (fc k') d bn' b' = held (fc k) d bn' b')"
proof -
  obtain R D W where t': "l_dev (fl k) = d" "area (fl k) = A" "int cap = min (int LOGSIZE) (l_size (fl k) - 1)"
    "trans_ok (fl k)" "logged (fl k) = L" "outstanding (fl k) = nop" "1 \<le> nop" "\<not> committing (fl k)" and inv: "binv d (fc k)" and abs: "cabs d (fc k) = (V, R, H, D, W)"
    and R: "\<forall>bn. R bn = (if bn \<in> L then 1 else 0) + (if H bn \<noteq> None then 1 else 0)" and D: "\<forall>bn. bn \<notin> L \<longrightarrow> V bn = D bn"
    and hd: "length (D (l_start (fl k))) = BSIZE" "get32 (D (l_start (fl k))) 0 = 0"
    using t unfolding tx_def by auto
  have sl: "slot (fc k) d bn = Some b" "valid (bufs (fc k) ! b)" "0 < R bn" using h by (auto simp: held_def R)
  let ?k = "k\<lparr>fc := set_data b bs (fc k)\<rparr>"
  note w = set_data_spec [OF inv abs sl, of bs]
  have bn: "blockno (bufs (fc ?k) ! b) = bn"
    using slot_SomeD [of "fc ?k" d bn b] w(2) sl(1) by simp
  have n: "lh_n (fl k) = int (card L)"
    using t'(4,5) by (auto simp: trans_ok_def logged_def distinct_card)
  have pre: "trans_ok (fl ?k)" "lh_n (fl ?k) < l_size (fl ?k) - 1" "lh_n (fl ?k) < int LOGSIZE" "1 \<le> outstanding (fl ?k)"
      "blockno (bufs (fc ?k) ! b) \<notin> area (fl ?k)"
    using t' n room out bn by auto
  obtain k' where k': "log_write b ?k = Inr k'" "trans_ok (fl k')" "logged (fl k') = insert bn L"
    "fc k' = (if bn \<in> L then fc ?k else bpin b (fc ?k))"
    "(l_start (fl k'), l_dev (fl k'), outstanding (fl k'), l_size (fl k'), committing (fl k')) =
      (l_start (fl k), l_dev (fl k), outstanding (fl k), l_size (fl k), committing (fl k))"
    using log_write_spec [OF pre] bn t'(5) by auto
  have ar: "area (fl k') = A" using k'(5) t'(2) by (simp add: area_def log_block_def)
  have Rb: "R bn < 2 ^ 32 - 1" by (simp add: R)
  have sl': "slot (fc ?k) d bn = Some b" using w(2) sl(1) by simp
  note pin = bpin_spec [of d "fc ?k" "V(bn := bs)" R H D W bn b, simplified, OF w(1,4) w(2) [THEN trans, OF sl(1)] Rb [simplified]]
  have "tx (d, A, cap, nop) (V(bn := bs)) (insert bn L) H k'"
  proof (cases "bn \<in> L")
    case True
    then have c: "fc k' = set_data b bs (fc k)" using k'(4) by simp
    show ?thesis
      by (rule txI [where R = R and D = D and W = W]) (use True c k' ar t' w(1,4) R D hd in \<open>auto simp: insert_absorb\<close>)
  next
    case False
    then have c: "fc k' = bpin b (set_data b bs (fc k))" using k'(4) by simp
    show ?thesis
      by (rule txI [where R = "R(bn := R bn + 1)" and D = D and W = W]) (use False c k' ar t' pin(1,4) R D hd in auto)
  qed
  moreover have "held (fc k') d bn' b' = held (fc k) d bn' b'" for bn' b'
    using k'(4) w(2,3) pin(2,3) by (auto simp: held_def)
  ultimately show ?thesis using k'(1) by blast
qed

lemma tx_release:
  assumes t: "tx (d, A, cap, nop) V L H k" and h: "held (fc k) d bn b" "H bn = Some p"
  shows "\<exists>c. brelse p b (fc k) = Inr c \<and> tx (d, A, cap, nop) V L (H(bn := None)) (k\<lparr>fc := c\<rparr>) \<and>
    (\<forall>bn' b'. held c d bn' b' = held (fc k) d bn' b')"
proof -
  obtain R D W where t': "l_dev (fl k) = d" "area (fl k) = A" "int cap = min (int LOGSIZE) (l_size (fl k) - 1)"
    "trans_ok (fl k)" "logged (fl k) = L" "outstanding (fl k) = nop" "1 \<le> nop" "\<not> committing (fl k)" and inv: "binv d (fc k)" and abs: "cabs d (fc k) = (V, R, H, D, W)"
    and R: "\<forall>bn. R bn = (if bn \<in> L then 1 else 0) + (if H bn \<noteq> None then 1 else 0)" and D: "\<forall>bn. bn \<notin> L \<longrightarrow> V bn = D bn"
    and hd: "length (D (l_start (fl k))) = BSIZE" "get32 (D (l_start (fl k))) 0 = 0"
    using t unfolding tx_def by auto
  have sl: "slot (fc k) d bn = Some b" using h by (simp add: held_def)
  have "0 < R bn" "R bn = 1 \<Longrightarrow> V bn = D bn" using h(2) R D by (auto split: if_splits)
  then obtain c where c: "brelse p b (fc k) = Inr c" "binv d c" "\<forall>bn'. slot c d bn' = slot (fc k) d bn'"
    "\<forall>x<NBUF. valid (bufs c ! x) = valid (bufs (fc k) ! x)" "cabs d c = (V, R(bn := R bn - 1), H(bn := None), D, W)"
    using brelse_spec [OF inv abs sl h(2)] by blast
  have "tx (d, A, cap, nop) V L (H(bn := None)) (k\<lparr>fc := c\<rparr>)"
    by (rule txI [where R = "R(bn := R bn - 1)" and D = D and W = W]) (use t' c(2,5) R D hd h(2) in auto)
  moreover have "held c d bn' b' = held (fc k) d bn' b'" for bn' b'
    using c(3,4) slot_SomeD [of "fc k" d bn' b'] by (auto simp: held_def)
  ultimately show ?thesis using c(1) by blast
qed

end
