(* ===== verification/Fs_Blocks.thy ===== *)
theory Fs_Blocks
  imports Fs Txn
begin

text \<open>
  The block layer of \<open>kernel/fs.c\<close> inside a transaction: what reading, logging and releasing a block do to the file
  system state, and the block allocator over the bitmap.
\<close>

section \<open>Blocks in a transaction\<close>

definition ftx :: "tenv \<Rightarrow> (uint \<Rightarrow> block) \<Rightarrow> uint set \<Rightarrow> (uint \<Rightarrow> int option) \<Rightarrow> fs \<Rightarrow> bool" where
  "ftx e V L H s = tx e V L H (fk s)"

definition fheld :: "fs \<Rightarrow> uint \<Rightarrow> uint \<Rightarrow> nat \<Rightarrow> bool" where
  "fheld s d bn b = held (fc (fk s)) d bn b"

text \<open>Superblock and inode table stay, and buffers that are held stay where they are.\<close>

definition keeps :: "uint \<Rightarrow> (uint \<Rightarrow> int option) \<Rightarrow> fs \<Rightarrow> fs \<Rightarrow> bool" where
  "keeps d H s s' \<longleftrightarrow> sb s' = sb s \<and> inodes s' = inodes s \<and>
     (\<forall>bn b. H bn \<noteq> None \<longrightarrow> fheld s d bn b \<longrightarrow> fheld s' d bn b)"

lemma keeps_refl [simp]: "keeps d H s s" by (simp add: keeps_def)

lemma keeps_trans: "keeps d H s t \<Longrightarrow> keeps d H t u \<Longrightarrow> keeps d H s u" by (simp add: keeps_def)

lemma keepsD: "keeps d H s s' \<Longrightarrow> sb s' = sb s" "keeps d H s s' \<Longrightarrow> inodes s' = inodes s" by (simp_all add: keeps_def)

lemma fdata_held: "ftx (d, A, cap, nop) V L H s \<Longrightarrow> fheld s d bn b \<Longrightarrow> fdata b s = V bn"
  unfolding ftx_def fheld_def fdata_def by (rule held_data)

lemma fbread_ok:
  assumes t: "ftx (d, A, cap, nop) V L H s" and free: "H bn = None" and room: "card (L \<union> {x. H x \<noteq> None}) < NBUF"
  shows "\<exists>b s'. fbread p d bn s = Some (Inr (b, s')) \<and> ftx (d, A, cap, nop) V L (H(bn := Some p)) s' \<and> fheld s' d bn b \<and>
    fdata b s' = V bn \<and> keeps d H s s'"
proof -
  obtain b c where b: "bread p d bn (fc (fk s)) = Some (Inr (b, c))" "tx (d, A, cap, nop) V L (H(bn := Some p)) ((fk s)\<lparr>fc := c\<rparr>)"
    "held c d bn b" "\<forall>bn' b'. H bn' \<noteq> None \<longrightarrow> held (fc (fk s)) d bn' b' \<longrightarrow> held c d bn' b'"
    using tx_read [OF t [unfolded ftx_def] free room] by blast
  let ?s = "s\<lparr>fk := (fk s)\<lparr>fc := c\<rparr>\<rparr>"
  have t': "ftx (d, A, cap, nop) V L (H(bn := Some p)) ?s" and h: "fheld ?s d bn b" using b(2,3) by (simp_all add: ftx_def fheld_def)
  show ?thesis
    using b(1,4) t' h fdata_held [OF t' h]
    by (intro exI [of _ b] exI [of _ ?s]) (auto simp: fbread_def keeps_def fheld_def)
qed

lemma fwrite_ok:
  assumes t: "ftx (d, A, cap, nop) V L H s" and h: "fheld s d bn b" "H bn = Some p" and out: "bn \<notin> A" and room: "card L < cap"
  shows "\<exists>s'. fwrite b bs s = Some (Inr s') \<and> ftx (d, A, cap, nop) (V(bn := bs)) (insert bn L) H s' \<and> fheld s' d bn b \<and> keeps d H s s'"
proof -
  obtain k' where k': "log_write b ((fk s)\<lparr>fc := set_data b bs (fc (fk s))\<rparr>) = Inr k'" "tx (d, A, cap, nop) (V(bn := bs)) (insert bn L) H k'"
    "\<forall>bn' b'. held (fc k') d bn' b' = held (fc (fk s)) d bn' b'"
    using tx_write [OF t [unfolded ftx_def] h(1) [unfolded fheld_def] h(2) out room] by blast
  then show ?thesis
    using h by (intro exI [of _ "s\<lparr>fk := k'\<rparr>"]) (auto simp: fwrite_def flog_write_def fset_data_def ftx_def keeps_def fheld_def)
qed

lemma fbrelse_ok:
  assumes t: "ftx (d, A, cap, nop) V L H s" and h: "fheld s d bn b" "H bn = Some p"
  shows "\<exists>s'. fbrelse p b s = Some (Inr s') \<and> ftx (d, A, cap, nop) V L (H(bn := None)) s' \<and> keeps d H s s'"
proof -
  obtain c where c: "brelse p b (fc (fk s)) = Inr c" "tx (d, A, cap, nop) V L (H(bn := None)) ((fk s)\<lparr>fc := c\<rparr>)"
    "\<forall>bn' b'. held c d bn' b' = held (fc (fk s)) d bn' b'"
    using tx_release [OF t [unfolded ftx_def] h(1) [unfolded fheld_def] h(2)] by blast
  then show ?thesis
    by (intro exI [of _ "s\<lparr>fk := (fk s)\<lparr>fc := c\<rparr>\<rparr>"]) (auto simp: fbrelse_def ftx_def keeps_def fheld_def)
qed

lemma keeps_upd: "keeps d (H(bn := v)) s s' \<Longrightarrow> H bn = None \<Longrightarrow> keeps d H s s'"
  unfolding keeps_def by (metis fun_upd_apply)

text \<open>
  The interface that the rest of \<open>kernel/fs.c\<close> uses: the state \<open>inv V L H\<close> of a transaction and the laws of reading, logging
  and releasing a buffer. A block is looked at, or replaced through the log.
\<close>

locale block_layer =
  fixes inv :: "(uint \<Rightarrow> block) \<Rightarrow> uint set \<Rightarrow> (uint \<Rightarrow> int option) \<Rightarrow> 's \<Rightarrow> bool"
    and holds :: "'s \<Rightarrow> uint \<Rightarrow> nat \<Rightarrow> bool"
    and keep :: "(uint \<Rightarrow> int option) \<Rightarrow> 's \<Rightarrow> 's \<Rightarrow> bool"
    and rd :: "int \<Rightarrow> uint \<Rightarrow> 's \<Rightarrow> (nat \<times> 's) run"
    and wr :: "nat \<Rightarrow> block \<Rightarrow> 's \<Rightarrow> 's run"
    and rel :: "int \<Rightarrow> nat \<Rightarrow> 's \<Rightarrow> 's run"
    and dat :: "nat \<Rightarrow> 's \<Rightarrow> block"
    and area_blocks :: "uint set"
    and capacity :: nat
  assumes read_law: "inv V L H s \<Longrightarrow> H bn = None \<Longrightarrow> card (L \<union> {x. H x \<noteq> None}) < NBUF \<Longrightarrow>
      \<exists>b s'. rd p bn s = Some (Inr (b, s')) \<and> inv V L (H(bn := Some p)) s' \<and> holds s' bn b \<and> dat b s' = V bn \<and> keep H s s'"
    and write_law: "inv V L H s \<Longrightarrow> holds s bn b \<Longrightarrow> H bn = Some p \<Longrightarrow> bn \<notin> area_blocks \<Longrightarrow> card L < capacity \<Longrightarrow>
      \<exists>s'. wr b bs s = Some (Inr s') \<and> inv (V(bn := bs)) (insert bn L) H s' \<and> holds s' bn b \<and> keep H s s'"
    and release_law: "inv V L H s \<Longrightarrow> holds s bn b \<Longrightarrow> H bn = Some p \<Longrightarrow>
      \<exists>s'. rel p b s = Some (Inr s') \<and> inv V L (H(bn := None)) s' \<and> keep H s s'"
    and keep_trans: "keep H s t \<Longrightarrow> keep H t u \<Longrightarrow> keep H s u"
    and keep_less: "keep (H(bn := v)) s t \<Longrightarrow> H bn = None \<Longrightarrow> keep H s t"
begin

lemma look:
  assumes t: "inv V L H s" and free: "H bn = None" and room: "card (L \<union> {x. H x \<noteq> None}) < NBUF"
  shows "\<exists>b s1 s2. rd p bn s = Some (Inr (b, s1)) \<and> dat b s1 = V bn \<and> keep H s s1 \<and>
    rel p b s1 = Some (Inr s2) \<and> inv V L H s2 \<and> keep H s s2"
proof -
  obtain b s1 where 1: "rd p bn s = Some (Inr (b, s1))" "inv V L (H(bn := Some p)) s1" "holds s1 bn b" "dat b s1 = V bn" "keep H s s1"
    using read_law [OF t free room] by blast
  obtain s2 where 2: "rel p b s1 = Some (Inr s2)" "inv V L ((H(bn := Some p))(bn := None)) s2" "keep (H(bn := Some p)) s1 s2"
    using release_law [OF 1(2,3)] by auto
  have H: "(H(bn := Some p))(bn := None) = H" using free by (simp add: fun_upd_idem)
  show ?thesis using 1 2(1) 2(2) [unfolded H] keep_trans [OF 1(5) keep_less [OF 2(3) free]] by blast
qed

lemma replace_block:
  assumes t: "inv V L H s" and free: "H bn = None" and room: "card (L \<union> {x. H x \<noteq> None}) < NBUF" "card L < capacity"
    and out: "bn \<notin> area_blocks"
  shows "\<exists>b s1 s2 s3. rd p bn s = Some (Inr (b, s1)) \<and> dat b s1 = V bn \<and> keep H s s1 \<and> wr b bs s1 = Some (Inr s2) \<and>
    rel p b s2 = Some (Inr s3) \<and> inv (V(bn := bs)) (insert bn L) H s3 \<and> keep H s s3"
proof -
  obtain b s1 where 1: "rd p bn s = Some (Inr (b, s1))" "inv V L (H(bn := Some p)) s1" "holds s1 bn b" "dat b s1 = V bn" "keep H s s1"
    using read_law [OF t free room(1)] by blast
  obtain s2 where 2: "wr b bs s1 = Some (Inr s2)" "inv (V(bn := bs)) (insert bn L) (H(bn := Some p)) s2" "holds s2 bn b" "keep (H(bn := Some p)) s1 s2"
    using write_law [OF 1(2,3) _ out room(2), of p bs] by auto
  obtain s3 where 3: "rel p b s2 = Some (Inr s3)" "inv (V(bn := bs)) (insert bn L) ((H(bn := Some p))(bn := None)) s3" "keep (H(bn := Some p)) s2 s3"
    using release_law [OF 2(2,3)] by auto
  have H: "(H(bn := Some p))(bn := None) = H" using free by (simp add: fun_upd_idem)
  have "keep H s s3" using 1(5) keep_less [OF 2(4) free] keep_less [OF 3(3) free] keep_trans by blast
  then show ?thesis using 1 2(1) 3(1,2) [unfolded H] by blast
qed

end

interpretation fsb: block_layer "ftx (d, A, cap, nop)" "\<lambda>s. fheld s d" "keeps d" "\<lambda>p. fbread p d" fwrite fbrelse fdata A cap for d A cap nop
  by unfold_locales (fact fbread_ok fwrite_ok fbrelse_ok keeps_trans keeps_upd)+

lemmas modify_block = fsb.replace_block

lemma peek_block:
  assumes t: "ftx (d, A, cap, nop) V L H s" and free: "H bn = None" and room: "card (L \<union> {x. H x \<noteq> None}) < NBUF"
  shows "\<exists>b s1 s2. fbread p d bn s = Some (Inr (b, s1)) \<and> fdata b s1 = V bn \<and> keeps d H s s1 \<and>
    (\<forall>s'. fk s' = fk s1 \<longrightarrow> (\<exists>k. fbrelse p b s' = Some (Inr (s'\<lparr>fk := k\<rparr>)) \<and> k = fk s2)) \<and>
    ftx (d, A, cap, nop) V L H s2 \<and> keeps d H s s2"
proof -
  obtain b s1 s2 where 1: "fbread p d bn s = Some (Inr (b, s1))" "fdata b s1 = V bn" "keeps d H s s1" "fbrelse p b s1 = Some (Inr s2)"
    "ftx (d, A, cap, nop) V L H s2" "keeps d H s s2"
    using fsb.look [OF t free room] by blast
  have "\<exists>k. fbrelse p b s' = Some (Inr (s'\<lparr>fk := k\<rparr>)) \<and> k = fk s2" if "fk s' = fk s1" for s'
    using 1(4) that by (auto simp: fbrelse_def split: sum.splits elim!: bind_run_InrE)
  then show ?thesis using 1 by blast
qed

section \<open>The bitmap\<close>

lemma bit_used_bit: "bit_used bs bi \<longleftrightarrow> bit (bs ! (bi div 8)) (bi mod 8)"
  by (simp add: bit_used_def bit_mask_def bit_iff_and_push_bit_not_eq_0)

lemma bit_mask_bit: "bit (bit_mask i) n \<longleftrightarrow> n = i mod 8"
proof -
  have "i mod 8 < 8" by simp
  then show ?thesis by (auto simp: bit_mask_def push_bit_eq_mult bit_exp_iff)
qed

lemma same_bit: "i div 8 = j div 8 \<Longrightarrow> i mod 8 = j mod 8 \<Longrightarrow> i = (j::nat)"
  by (metis div_mult_mod_eq)

lemma bit_used_set:
  assumes "i < 8 * length bs"
  shows "bit_used (bs[i div 8 := bs ! (i div 8) OR bit_mask i]) j \<longleftrightarrow> bit_used bs j \<or> j = i"
proof -
  have "i div 8 < length bs" using assms by auto
  then show ?thesis using same_bit [of j i]
    by (cases "j div 8 = i div 8") (auto simp: bit_used_bit bit_or_iff bit_mask_bit)
qed

lemma bit_used_clear:
  assumes "i < 8 * length bs"
  shows "bit_used (bs[i div 8 := bs ! (i div 8) AND NOT (bit_mask i)]) j \<longleftrightarrow> bit_used bs j \<and> j \<noteq> i"
proof -
  have "i div 8 < length bs" using assms by auto
  moreover have "j mod 8 < 8" by simp
  ultimately show ?thesis using same_bit [of j i]
    by (cases "j div 8 = i div 8") (auto simp: bit_used_bit bit_and_iff bit_not_iff bit_mask_bit)
qed

lemma find_free_find: "find_free bs k bi = find (\<lambda>i. \<not> bit_used bs i) [bi..<bi + k]"
  by (induction bs k bi rule: find_free.induct) (auto simp: upt_conv_Cons simp del: upt_Suc)

text \<open>Whether block \<open>b\<close> is in use, and the block of the bitmap that says so.\<close>

definition map_block :: "superblock \<Rightarrow> nat \<Rightarrow> uint" where
  "map_block x b = of_nat (b div BPB) + sb_bmapstart x"

definition used :: "superblock \<Rightarrow> (uint \<Rightarrow> block) \<Rightarrow> nat \<Rightarrow> bool" where
  "used x V b = bit_used (V (map_block x b)) (b mod BPB)"

lemma BBLOCK_nat: "b < 2 ^ 32 \<Longrightarrow> BBLOCK (of_nat b) x = map_block x b"
proof -
  assume b: "b < 2 ^ 32"
  have "unat (of_nat b div of_nat BPB :: uint) = b div BPB"
    using b by (simp add: unat_div BPB_def BSIZE_def unat_of_nat)
  moreover have "unat (of_nat (b div BPB) :: uint) = b div BPB"
    using b by (simp add: unat_of_nat BPB_def BSIZE_def)
  ultimately have "(of_nat b div of_nat BPB :: uint) = of_nat (b div BPB)" by (simp only: word_unat_eq_iff)
  then show ?thesis by (simp add: BBLOCK_def map_block_def)
qed

lemma map_block_eq:
  assumes "b < 2 ^ 32" "c < 2 ^ 32"
  shows "map_block x b = map_block x c \<longleftrightarrow> b div BPB = c div BPB"
proof -
  have u: "unat (of_nat (n div BPB) :: uint) = n div BPB" if "n < 2 ^ 32" for n
    using that by (simp add: unat_of_nat BPB_def BSIZE_def)
  have "map_block x b = map_block x c \<longleftrightarrow> (of_nat (b div BPB) :: uint) = of_nat (c div BPB)" by (simp add: map_block_def)
  also have "\<dots> \<longleftrightarrow> b div BPB = c div BPB" using u [OF assms(1)] u [OF assms(2)] by (metis)
  finally show ?thesis .
qed

definition mark :: "nat \<Rightarrow> block \<Rightarrow> block" where
  "mark i bs = bs[i div 8 := bs ! (i div 8) OR bit_mask i]"

definition unmark :: "nat \<Rightarrow> block \<Rightarrow> block" where
  "unmark i bs = bs[i div 8 := bs ! (i div 8) AND NOT (bit_mask i)]"

lemma used_mark:
  assumes "b < 2 ^ 32" "c < 2 ^ 32" "length (V (map_block x b)) = BSIZE"
  shows "used x (V(map_block x b := mark (b mod BPB) (V (map_block x b)))) c \<longleftrightarrow> used x V c \<or> c = b"
    "used x (V(map_block x b := unmark (b mod BPB) (V (map_block x b)))) c \<longleftrightarrow> used x V c \<and> c \<noteq> b"
proof -
  have m: "b mod BPB < 8 * length (V (map_block x b))" using assms(3) by (simp add: BPB_def BSIZE_def)
  have e: "c mod BPB = b mod BPB \<longleftrightarrow> c = b" if "c div BPB = b div BPB" using that by (metis div_mult_mod_eq)
  show "used x (V(map_block x b := mark (b mod BPB) (V (map_block x b)))) c \<longleftrightarrow> used x V c \<or> c = b"
    "used x (V(map_block x b := unmark (b mod BPB) (V (map_block x b)))) c \<longleftrightarrow> used x V c \<and> c \<noteq> b"
    using map_block_eq [OF assms(2,1), of x] bit_used_set [OF m] bit_used_clear [OF m] e
    by (cases "c div BPB = b div BPB"; auto simp: used_def mark_def unmark_def)+
qed

text \<open>
  What the allocator needs: the bitmap is not part of the log and nobody holds its blocks, and a block that is free is not
  one of the log or of the bitmap and nobody holds it.
\<close>

definition bitmap_ok :: "superblock \<Rightarrow> uint set \<Rightarrow> (uint \<Rightarrow> block) \<Rightarrow> (uint \<Rightarrow> int option) \<Rightarrow> bool" where
  "bitmap_ok x A V H \<longleftrightarrow> (\<forall>b<unat (sb_size x).
     map_block x b \<notin> A \<and> length (V (map_block x b)) = BSIZE \<and> H (map_block x b) = None \<and>
     (\<not> used x V b \<longrightarrow> of_nat b \<notin> A \<and> H (of_nat b) = None \<and> (\<forall>c<unat (sb_size x). of_nat b \<noteq> map_block x c)))"

definition alloc_view :: "superblock \<Rightarrow> (uint \<Rightarrow> block) \<Rightarrow> nat \<Rightarrow> uint \<Rightarrow> block" where
  "alloc_view x V b = V(map_block x b := mark (b mod BPB) (V (map_block x b)), of_nat b := replicate BSIZE 0)"

lemma BPB_pos: "0 < BPB" by (simp add: BPB_def BSIZE_def)

lemma room_insert: "card ((L :: uint set) \<union> Y) + 1 < n \<Longrightarrow> card (insert x L \<union> Y) < n"
  using card_insert_le_Suc [of x "L \<union> Y"] by simp

lemma balloc_found:
  assumes t: "ftx (d, A, cap, nop) V L H s" and ok: "bitmap_ok (sb s) A V H" and b: "b < unat (sb_size (sb s))" "\<not> used (sb s) V b"
    and room: "card (L \<union> {x. H x \<noteq> None}) + 1 < NBUF" "card L + 1 < cap" and fin: "finite L"
  shows "\<exists>bp s1 s2 s3 s4. fbread p d (map_block (sb s) b) s = Some (Inr (bp, s1)) \<and> fdata bp s1 = V (map_block (sb s) b) \<and> keeps d H s s1 \<and>
    fwrite bp (mark (b mod BPB) (V (map_block (sb s) b))) s1 = Some (Inr s2) \<and> fbrelse p bp s2 = Some (Inr s3) \<and>
    bzero p d (of_nat b) s3 = Some (Inr s4) \<and>
    ftx (d, A, cap, nop) (alloc_view (sb s) V b) (insert (of_nat b) (insert (map_block (sb s) b) L)) H s4 \<and> keeps d H s s4"
proof -
  let ?mb = "map_block (sb s) b"
  have m: "?mb \<notin> A" "H ?mb = None" "of_nat b \<notin> A" "H (of_nat b) = None" using ok b by (auto simp: bitmap_ok_def)
  have r: "card (L \<union> {x. H x \<noteq> None}) < NBUF" "card L < cap" using room by simp_all
  obtain bp s1 s2 s3 where 1: "fbread p d ?mb s = Some (Inr (bp, s1))" "fdata bp s1 = V ?mb" "keeps d H s s1"
    "fwrite bp (mark (b mod BPB) (V ?mb)) s1 = Some (Inr s2)" "fbrelse p bp s2 = Some (Inr s3)"
    "ftx (d, A, cap, nop) (V(?mb := mark (b mod BPB) (V ?mb))) (insert ?mb L) H s3" "keeps d H s s3"
    using modify_block [OF t m(2) r m(1)] by blast
  have r2: "card (insert ?mb L \<union> {x. H x \<noteq> None}) < NBUF" using room_insert [OF room(1)] .
  have "card (insert ?mb L) \<le> card L + 1" using card_insert_le_Suc [of ?mb L] by simp
  then have r3: "card (insert ?mb L) < cap" using room(2) by simp
  obtain bq u1 u2 u3 where 2: "fbread p d (of_nat b) s3 = Some (Inr (bq, u1))" "fwrite bq (replicate BSIZE 0) u1 = Some (Inr u2)"
    "fbrelse p bq u2 = Some (Inr u3)"
    "ftx (d, A, cap, nop) ((V(?mb := mark (b mod BPB) (V ?mb)))(of_nat b := replicate BSIZE 0)) (insert (of_nat b) (insert ?mb L)) H u3"
    "keeps d H s3 u3"
    using modify_block [OF 1(6) m(4) r2 r3 m(3)] by blast
  have "bzero p d (of_nat b) s3 = Some (Inr u3)" using 2 by (simp add: bzero_def)
  then show ?thesis using 1 2(4) keeps_trans [OF 1(7) 2(5)] unfolding alloc_view_def by blast
qed

text \<open>The scan from bitmap block \<open>j\<close> on, when everything before it is in use.\<close>

lemma balloc_scan:
  assumes "ftx (d, A, cap, nop) V L H s" "bitmap_ok (sb s) A V H" "finite L"
    "card (L \<union> {x. H x \<noteq> None}) + 1 < NBUF" "card L + 1 < cap"
    "\<forall>c<j * BPB. c < unat (sb_size (sb s)) \<longrightarrow> used (sb s) V c" "n = (unat (sb_size (sb s)) + BPB - 1) div BPB"
  shows "\<exists>r s'. balloc_loop p d (map (\<lambda>i. i * BPB) [j..<n]) s = Some (Inr (r, s')) \<and> keeps d H s s' \<and>
    (r = 0 \<and> (\<forall>b<unat (sb_size (sb s)). used (sb s) V b) \<and> ftx (d, A, cap, nop) V L H s' \<or>
     (\<exists>b<unat (sb_size (sb s)). r = of_nat b \<and> \<not> used (sb s) V b \<and> (\<forall>c<b. used (sb s) V c) \<and>
       ftx (d, A, cap, nop) (alloc_view (sb s) V b) (insert (of_nat b) (insert (map_block (sb s) b) L)) H s'))"
  using assms
proof (induction "n - j" arbitrary: j s)
  case 0
  let ?size = "unat (sb_size (sb s))"
  have "?size \<le> n * BPB" using 0(8) BPB_pos by (simp add: BPB_def BSIZE_def)
  also have "\<dots> \<le> j * BPB" using 0(1) by simp
  finally have "used (sb s) V b" if "b < ?size" for b using 0(7) that by auto
  then show ?case using 0 by auto
next
  case (Suc m)
  let ?size = "unat (sb_size (sb s))" and ?b = "j * BPB"
  have j: "j < n" using Suc(2) by simp
  then have jb: "?b < ?size" using Suc.prems(7) BPB_pos by (simp add: BPB_def BSIZE_def)
  have size: "?size < 2 ^ 32" using unat_bound [of "sb_size (sb s)"] by simp
  have mb: "BBLOCK (of_nat ?b) (sb s) = map_block (sb s) ?b" using jb size by (intro BBLOCK_nat) simp
  let ?mb = "map_block (sb s) ?b" and ?k = "min BPB (?size - ?b)"
  have in_block: "map_block (sb s) (?b + i) = ?mb" "(?b + i) mod BPB = i" if "i < BPB" for i
    using that by (simp_all add: map_block_def div_plus_div_distrib_dvd_right)
  have list: "map (\<lambda>i. i * BPB) [j..<n] = ?b # map (\<lambda>i. i * BPB) [Suc j..<n]" using j by (simp add: upt_conv_Cons)
  show ?case
  proof (cases "find_free (V ?mb) ?k 0")
    case (Some bi)
    then have bi: "bi < ?k" "\<not> bit_used (V ?mb) bi" "\<forall>i<bi. bit_used (V ?mb) i"
      by (auto simp: find_free_find find_Some_iff)
    then have bi': "bi < BPB" "?b + bi < ?size" by auto
    let ?c = "?b + bi"
    have nu: "\<not> used (sb s) V ?c" using bi(2) in_block [OF bi'(1)] by (simp add: used_def)
    have low: "used (sb s) V c" if "c < ?c" for c
    proof (cases "c < ?b")
      case False
      then have i: "c = ?b + (c - ?b)" "c - ?b < bi" using that by auto
      then show ?thesis using bi(3) bi'(1) in_block [of "c - ?b"] unfolding used_def by (metis order.strict_trans)
    qed (use Suc.prems(6) jb in auto)
    obtain bp s1 s2 s3 s4 where f: "fbread p d (map_block (sb s) ?c) s = Some (Inr (bp, s1))" "fdata bp s1 = V (map_block (sb s) ?c)"
      "keeps d H s s1" "fwrite bp (mark (?c mod BPB) (V (map_block (sb s) ?c))) s1 = Some (Inr s2)" "fbrelse p bp s2 = Some (Inr s3)"
      "bzero p d (of_nat ?c) s3 = Some (Inr s4)"
      "ftx (d, A, cap, nop) (alloc_view (sb s) V ?c) (insert (of_nat ?c) (insert (map_block (sb s) ?c) L)) H s4" "keeps d H s s4"
      using balloc_found [OF Suc.prems(1,2) bi'(2) nu Suc.prems(4,5,3)] by blast
    note eq = in_block [OF bi'(1)]
    have "balloc_loop p d (map (\<lambda>i. i * BPB) [j..<n]) s = Some (Inr (of_nat ?c, s4))"
      using f(1,2,4-6) Some keepsD(1) [OF f(3)] unfolding eq list by (simp add: mb Let_def mark_def del: of_nat_mult of_nat_add)
    then show ?thesis using f(7,8) bi'(2) nu low by blast
  next
    case None
    have all: "bit_used (V ?mb) i" if "i < ?k" for i using None that by (auto simp: find_free_find find_None_iff)
    have "H ?mb = None" using Suc.prems(2) jb by (auto simp: bitmap_ok_def)
    moreover have "card (L \<union> {x. H x \<noteq> None}) < NBUF" using Suc.prems(4) by simp
    ultimately obtain bp s1 s2 where f: "fbread p d ?mb s = Some (Inr (bp, s1))" "fdata bp s1 = V ?mb" "keeps d H s s1"
      "\<forall>s'. fk s' = fk s1 \<longrightarrow> (\<exists>k. fbrelse p bp s' = Some (Inr (s'\<lparr>fk := k\<rparr>)) \<and> k = fk s2)" "ftx (d, A, cap, nop) V L H s2" "keeps d H s s2"
      using peek_block [OF Suc.prems(1)] by blast
    let ?s2 = "s1\<lparr>fk := fk s2\<rparr>"
    have rel: "fbrelse p bp s1 = Some (Inr ?s2)" using f(4) by auto
    have t2: "ftx (d, A, cap, nop) V L H ?s2" "keeps d H s ?s2" "sb ?s2 = sb s"
      using f(3,5,6) by (auto simp: ftx_def keeps_def fheld_def)
    have step: "balloc_loop p d (map (\<lambda>i. i * BPB) [j..<n]) s = balloc_loop p d (map (\<lambda>i. i * BPB) [Suc j..<n]) ?s2"
      using f(1,2) None keepsD(1) [OF f(3)] rel unfolding list by (simp add: mb Let_def del: of_nat_mult)
    have low: "\<forall>c<Suc j * BPB. c < ?size \<longrightarrow> used (sb s) V c"
    proof (intro allI impI)
      fix c assume c: "c < Suc j * BPB" "c < ?size"
      show "used (sb s) V c"
      proof (cases "c < ?b")
        case False
        then have "c - ?b < ?k" "c = ?b + (c - ?b)" using c by auto
        then show ?thesis using all [of "c - ?b"] in_block [of "c - ?b"] by (metis min_less_iff_conj used_def)
      qed (use Suc.prems(6) c in auto)
    qed
    have "m = n - Suc j" using Suc(2) by simp
    from Suc.hyps(1) [OF this t2(1) _ Suc.prems(3-5), unfolded t2(3), OF Suc.prems(2) low Suc.prems(7)]
    show ?thesis unfolding step using keeps_trans [OF t2(2)] by blast
  qed
qed

lemma balloc_ok:
  assumes "ftx (d, A, cap, nop) V L H s" "bitmap_ok (sb s) A V H" "finite L"
    "card (L \<union> {x. H x \<noteq> None}) + 1 < NBUF" "card L + 1 < cap"
  shows "\<exists>r s'. balloc p d s = Some (Inr (r, s')) \<and> keeps d H s s' \<and>
    (r = 0 \<and> (\<forall>b<unat (sb_size (sb s)). used (sb s) V b) \<and> ftx (d, A, cap, nop) V L H s' \<or>
     (\<exists>b<unat (sb_size (sb s)). r = of_nat b \<and> \<not> used (sb s) V b \<and> (\<forall>c<b. used (sb s) V c) \<and>
       ftx (d, A, cap, nop) (alloc_view (sb s) V b) (insert (of_nat b) (insert (map_block (sb s) b) L)) H s'))"
  unfolding balloc_def by (rule balloc_scan [OF assms]) simp_all

end
