(* ===== verification/Fs_File.thy ===== *)
theory Fs_File
  imports Fs_Blocks
begin

text \<open>
  Files (\<open>kernel/fs.c\<close>): the blocks of an inode, reached directly and through the indirect block, how \<open>bmap\<close> extends
  them, and reading and writing the contents.
\<close>

section \<open>The blocks of a file\<close>

text \<open>Block \<open>k\<close> of the contents, and for \<open>k = MAXFILE\<close> the indirect block itself. 0 means that there is none.\<close>

definition blk :: "(uint \<Rightarrow> block) \<Rightarrow> inode \<Rightarrow> nat \<Rightarrow> uint" where
  "blk V i k = (if k < NDIRECT then i_addrs i ! k else if k = MAXFILE then i_addrs i ! NDIRECT
     else if i_addrs i ! NDIRECT = 0 then 0 else get32 (V (i_addrs i ! NDIRECT)) (k - NDIRECT))"

text \<open>A block of some file: in use, not of the log, not one of the metadata blocks \<open>M\<close>, and not held.\<close>

definition data_block :: "superblock \<Rightarrow> uint set \<Rightarrow> uint set \<Rightarrow> (uint \<Rightarrow> block) \<Rightarrow> (uint \<Rightarrow> int option) \<Rightarrow> uint \<Rightarrow> bool" where
  "data_block x A M V H a \<longleftrightarrow> unat a < unat (sb_size x) \<and> used x V (unat a) \<and> a \<notin> A \<and> a \<notin> M \<and> H a = None \<and> length (V a) = BSIZE"

definition file_ok :: "superblock \<Rightarrow> uint set \<Rightarrow> uint set \<Rightarrow> (uint \<Rightarrow> block) \<Rightarrow> (uint \<Rightarrow> int option) \<Rightarrow> inode \<Rightarrow> bool" where
  "file_ok x A M V H i \<longleftrightarrow> length (i_addrs i) = Suc NDIRECT \<and>
     (\<forall>k\<le>MAXFILE. blk V i k \<noteq> 0 \<longrightarrow> data_block x A M V H (blk V i k)) \<and>
     (\<forall>j\<le>MAXFILE. \<forall>k\<le>MAXFILE. blk V i j \<noteq> 0 \<longrightarrow> blk V i j = blk V i k \<longrightarrow> j = k)"

text \<open>The metadata blocks, the bitmap among them, are whole, in use, not held, and apart from the log.\<close>

definition disk_ok :: "superblock \<Rightarrow> uint set \<Rightarrow> uint set \<Rightarrow> (uint \<Rightarrow> block) \<Rightarrow> (uint \<Rightarrow> int option) \<Rightarrow> bool" where
  "disk_ok x A M V H \<longleftrightarrow> bitmap_ok x A V H \<and> (\<forall>b<unat (sb_size x). map_block x b \<in> M) \<and> M \<inter> A = {} \<and>
     (\<forall>a\<in>M. H a = None \<and> length (V a) = BSIZE) \<and>
     (\<forall>b<unat (sb_size x). \<not> used x V b \<longrightarrow> of_nat b \<notin> M) \<and> (0 < unat (sb_size x) \<longrightarrow> used x V 0)"

lemma size_bound: "b < unat (sb_size x) \<Longrightarrow> b < 2 ^ 32" "b < unat (sb_size x) \<Longrightarrow> unat (of_nat b :: uint) = b"
  using unat_bound [of "sb_size x"] by (auto intro!: unat_of_nat_less)

lemma length_mark [simp]: "length (mark i bs) = length bs" "length (unmark i bs) = length bs"
  by (simp_all add: mark_def unmark_def)

text \<open>Allocating a free block.\<close>

lemma alloc_facts:
  assumes ok: "disk_ok x A M V H" and b: "b < unat (sb_size x)" "\<not> used x V b"
  shows "\<And>c. c < unat (sb_size x) \<Longrightarrow> used x (alloc_view x V b) c \<longleftrightarrow> used x V c \<or> c = b"
    "disk_ok x A M (alloc_view x V b) H" "data_block x A M (alloc_view x V b) H (of_nat b)"
    "alloc_view x V b (of_nat b) = replicate BSIZE 0" "of_nat b \<noteq> (0 :: uint)"
    "\<And>a. data_block x A M V H a \<Longrightarrow> a \<noteq> of_nat b \<and> alloc_view x V b a = V a \<and> data_block x A M (alloc_view x V b) H a"
proof -
  let ?mb = "map_block x b" and ?V = "alloc_view x V b"
  have M: "map_block x c \<in> M" "length (V (map_block x c)) = BSIZE" "map_block x c \<notin> A" "H (map_block x c) = None"
    if "c < unat (sb_size x)" for c
    using ok that by (auto simp: disk_ok_def bitmap_ok_def)
  have nb: "of_nat b \<notin> M" "of_nat b \<notin> A" "H (of_nat b) = None" using ok b by (auto simp: disk_ok_def bitmap_ok_def)
  show u: "used x ?V c \<longleftrightarrow> used x V c \<or> c = b" if "c < unat (sb_size x)" for c
  proof -
    have "map_block x c \<noteq> of_nat b" using M(1) [OF that] nb(1) by auto
    then have "used x ?V c = used x (V(?mb := mark (b mod BPB) (V ?mb))) c" by (simp add: used_def alloc_view_def)
    then show ?thesis using used_mark(1) [where V = V and x = x, OF size_bound(1) [OF b(1)] size_bound(1) [OF that] M(2) [OF b(1)]] by simp
  qed
  have len: "length (?V a) = BSIZE" if "a \<in> M" for a
    using that ok M(2) [OF b(1)] nb(1) by (auto simp: alloc_view_def disk_ok_def)
  show z: "of_nat b \<noteq> (0 :: uint)"
  proof
    assume "of_nat b = (0 :: uint)"
    then have "b = 0" using size_bound(2) [OF b(1)] by simp
    then show False using ok b by (auto simp: disk_ok_def)
  qed
  show "?V (of_nat b) = replicate BSIZE 0" by (simp add: alloc_view_def)
  then show "data_block x A M ?V H (of_nat b)"
    using b(1) size_bound(2) [OF b(1)] u [OF b(1)] nb by (simp add: data_block_def)
  show "disk_ok x A M ?V H"
    unfolding disk_ok_def bitmap_ok_def
    using ok M len u nb unfolding disk_ok_def bitmap_ok_def by auto
  show "a \<noteq> of_nat b \<and> ?V a = V a \<and> data_block x A M ?V H a" if a: "data_block x A M V H a" for a
  proof -
    have "a \<noteq> of_nat b" using a b size_bound(2) [OF b(1)] by (auto simp: data_block_def)
    moreover have "a \<noteq> ?mb" using a M(1) [OF b(1)] by (auto simp: data_block_def)
    ultimately have "?V a = V a" by (simp add: alloc_view_def)
    then show ?thesis using a \<open>a \<noteq> of_nat b\<close> u by (auto simp: data_block_def)
  qed
qed

lemma blk_same:
  assumes "file_ok x A M V H i" "\<And>a. data_block x A M V H a \<Longrightarrow> V' a = V a" "k \<le> MAXFILE"
  shows "blk V' i k = blk V i k"
proof -
  have "V' (i_addrs i ! NDIRECT) = V (i_addrs i ! NDIRECT)" if "i_addrs i ! NDIRECT \<noteq> 0"
  proof -
    have "blk V i MAXFILE = i_addrs i ! NDIRECT" by (simp add: blk_def MAXFILE_def)
    then show ?thesis using assms(1,2) that by (metis file_ok_def order_refl)
  qed
  then show ?thesis by (simp add: blk_def)
qed

text \<open>A file is extended by one block \<open>a\<close> at place \<open>j\<close>.\<close>

lemma file_extend:
  assumes ok: "file_ok x A M V H i" and j: "j \<le> MAXFILE" "blk V i j = 0" and len: "length (i_addrs i') = Suc NDIRECT"
    and new: "\<And>k. k \<le> MAXFILE \<Longrightarrow> blk V' i' k = (if k = j then a else blk V i k)"
    and a: "data_block x A M V' H a" "\<And>k. k \<le> MAXFILE \<Longrightarrow> blk V i k \<noteq> 0 \<Longrightarrow> blk V i k \<noteq> a" "a \<noteq> 0"
    and old: "\<And>k. k \<le> MAXFILE \<Longrightarrow> blk V i k \<noteq> 0 \<Longrightarrow> data_block x A M V' H (blk V i k)"
  shows "file_ok x A M V' H i'"
  unfolding file_ok_def
proof (intro conjI allI impI)
  show "length (i_addrs i') = Suc NDIRECT" by (rule len)
next
  fix k assume k: "k \<le> MAXFILE" "blk V' i' k \<noteq> 0"
  then show "data_block x A M V' H (blk V' i' k)" using new [OF k(1)] a(1) old [OF k(1)] by (cases "k = j") auto
next
  fix k l assume k: "k \<le> MAXFILE" and l: "l \<le> MAXFILE" and nz: "blk V' i' k \<noteq> 0" and eq: "blk V' i' k = blk V' i' l"
  have uniq: "k = l" if "blk V i k \<noteq> 0" "blk V i k = blk V i l" using ok k l that by (auto simp: file_ok_def)
  show "k = l"
    using nz eq uniq a(2) [OF k] a(2) [OF l] a(3) new [OF k] new [OF l] by (cases "k = j"; cases "l = j") auto
qed

lemma NINDIRECT_256: "NINDIRECT = 256" "MAXFILE = 268" "NDIRECT = 12"
  by (simp_all add: NINDIRECT_def MAXFILE_def NDIRECT_def BSIZE_def)

lemma get32_zeros: "4 * j + 4 \<le> BSIZE \<Longrightarrow> get32 (replicate BSIZE 0) j = 0"
proof -
  assume j: "4 * j + 4 \<le> BSIZE"
  then have "take 4 (drop (4 * j) (replicate BSIZE (0 :: uchar))) = replicate 4 0" by simp
  then show ?thesis by (simp add: get32_def numeral_eq_Suc)
qed

section \<open>Mapping a block of a file\<close>

text \<open>
  The outcome of an attempt to allocate block \<open>k\<close> of file \<open>i\<close>: \<open>r\<close> is the new block, filled with zeroes, or 0 when the disk
  is full. Nothing else about the file or about blocks outside \<open>E\<close> changes, and at most \<open>n\<close> more blocks are logged.
\<close>

definition grown :: "superblock \<Rightarrow> uint set \<Rightarrow> uint set \<Rightarrow> (uint \<Rightarrow> int option) \<Rightarrow> uint set \<Rightarrow> nat \<Rightarrow> nat \<Rightarrow> uint \<Rightarrow>
    (uint \<Rightarrow> block) \<times> uint set \<times> inode \<Rightarrow> (uint \<Rightarrow> block) \<times> uint set \<times> inode \<Rightarrow> bool" where
  "grown x A M H E n k r = (\<lambda>(V, L, i) (V', L', i').
     disk_ok x A M V' H \<and> file_ok x A M V' H i' \<and> (\<exists>as. i' = i\<lparr>i_addrs := as\<rparr>) \<and>
     (\<forall>m\<le>MAXFILE. blk V' i' m = (if m = k \<and> r \<noteq> 0 then r else blk V i m)) \<and>
     (\<forall>a. data_block x A M V H a \<longrightarrow> (a \<notin> E \<longrightarrow> V' a = V a) \<and> data_block x A M V' H a) \<and>
     (r \<noteq> 0 \<longrightarrow> V' r = replicate BSIZE 0 \<and> \<not> data_block x A M V H r) \<and> (r = 0 \<longrightarrow> (\<forall>b<unat (sb_size x). used x V' b)) \<and>
     finite L' \<and> L \<subseteq> L' \<and> (\<exists>N. L' = L \<union> N \<and> finite N \<and> card N \<le> n))"

lemma room_union:
  fixes L N Y :: "uint set"
  assumes "finite N" "card N \<le> n" "card (L \<union> Y) + n + k < c"
  shows "card (L \<union> N \<union> Y) + k < c"
proof -
  have "L \<union> N \<union> Y = (L \<union> Y) \<union> N" by auto
  then show ?thesis using card_Un_le [of "L \<union> Y" N] assms by simp
qed

lemma slot_alloc:
  assumes t: "ftx (d, A, cap, nop) V L H s" and dok: "disk_ok (sb s) A M V H" and fok: "file_ok (sb s) A M V H (ino s ip)"
    and ip: "ip < length (inodes s)" "i_dev (ino s ip) = d" and j: "j \<le> NDIRECT" "i_addrs (ino s ip) ! j = 0"
    and room: "finite L" "card (L \<union> {x. H x \<noteq> None}) + 1 < NBUF" "card L + 1 < cap"
  shows "\<exists>r s' V' L' i'.
    bind_run (balloc p d s) (\<lambda>(addr, s). if addr = 0 then Some (Inr (0, s))
      else Some (Inr (addr, upd_inode ip (\<lambda>i. i\<lparr>i_addrs := (i_addrs i)[j := addr]\<rparr>) s))) = Some (Inr (r, s')) \<and>
    ftx (d, A, cap, nop) V' L' H s' \<and> sb s' = sb s \<and> inodes s' = (inodes s)[ip := i'] \<and>
    grown (sb s) A M H {} 2 (if j = NDIRECT then MAXFILE else j) r (V, L, ino s ip) (V', L', i') \<and>
    (r \<noteq> 0 \<longrightarrow> i_addrs i' ! j = r)"
proof -
  let ?i = "ino s ip" and ?x = "sb s" and ?k = "if j = NDIRECT then MAXFILE else j"
  have bok: "bitmap_ok ?x A V H" using dok by (simp add: disk_ok_def)
  obtain r s' where r: "balloc p d s = Some (Inr (r, s'))" "keeps d H s s'"
    and c: "r = 0 \<and> (\<forall>b<unat (sb_size ?x). used ?x V b) \<and> ftx (d, A, cap, nop) V L H s' \<or>
     (\<exists>b<unat (sb_size ?x). r = of_nat b \<and> \<not> used ?x V b \<and> (\<forall>c<b. used ?x V c) \<and>
       ftx (d, A, cap, nop) (alloc_view ?x V b) (insert (of_nat b) (insert (map_block ?x b) L)) H s')"
    using balloc_ok [OF t bok room] by blast
  note env = keepsD [OF r(2)]
  from c show ?thesis
  proof (elim disjE conjE exE)
    assume z: "r = 0" "\<forall>b<unat (sb_size ?x). used ?x V b" "ftx (d, A, cap, nop) V L H s'"
    have "grown ?x A M H {} 2 ?k 0 (V, L, ?i) (V, L, ?i)"
      unfolding grown_def prod.case using dok fok z(2) room(1) by (auto intro: exI [of _ "i_addrs ?i"] exI [of _ "{}"])
    then show ?thesis
      using r(1) z env by (intro exI [of _ 0] exI [of _ s'] exI [of _ V] exI [of _ L] exI [of _ ?i]) simp
  next
    fix b assume b: "b < unat (sb_size ?x)" "r = of_nat b" "\<not> used ?x V b"
      and t': "ftx (d, A, cap, nop) (alloc_view ?x V b) (insert (of_nat b) (insert (map_block ?x b) L)) H s'"
    let ?V = "alloc_view ?x V b" and ?i' = "?i\<lparr>i_addrs := (i_addrs ?i)[j := r]\<rparr>"
    note f = alloc_facts [OF dok b(1,3), folded b(2)]
    have len: "length (i_addrs ?i) = Suc NDIRECT" using fok by (simp add: file_ok_def)
    have same: "blk ?V ?i m = blk V ?i m" if "m \<le> MAXFILE" for m
      by (rule blk_same [OF fok _ that]) (use f(6) in blast)
    have nd: "\<not> MAXFILE < NDIRECT" by (simp add: NINDIRECT_256)
    have zero: "blk V ?i ?k = 0" using j by (auto simp: blk_def NINDIRECT_256)
    have blk': "blk ?V ?i' m = (if m = ?k then r else blk V ?i m)" if m: "m \<le> MAXFILE" for m
    proof (cases "j = NDIRECT")
      case True
      have "get32 (?V r) (m - NDIRECT) = 0" if "m < MAXFILE" "NDIRECT \<le> m"
        using that f(4) get32_zeros [of "m - NDIRECT"] by (simp add: NINDIRECT_256 BSIZE_def)
      then show ?thesis using True m j(2) len f(5) nd by (auto simp: blk_def)
    next
      case False
      then show ?thesis using same [OF m] j(1) len by (auto simp: blk_def NINDIRECT_256 nth_list_update)
    qed
    have data: "data_block ?x A M V H (blk V ?i m)" if "m \<le> MAXFILE" "blk V ?i m \<noteq> 0" for m
      using fok that by (simp add: file_ok_def)
    have ok': "file_ok ?x A M ?V H ?i'"
    proof (rule file_extend [OF fok _ zero, where a = r])
      show "blk ?V ?i' m = (if m = ?k then r else blk V ?i m)" if "m \<le> MAXFILE" for m by (rule blk' [OF that])
      show "blk V ?i m \<noteq> r" if "m \<le> MAXFILE" "blk V ?i m \<noteq> 0" for m using f(6) [OF data [OF that]] by simp
      show "data_block ?x A M ?V H (blk V ?i m)" if "m \<le> MAXFILE" "blk V ?i m \<noteq> 0" for m using f(6) [OF data [OF that]] by simp
    qed (use f(3,5) len j(1) in \<open>simp_all add: NINDIRECT_256\<close>)
    have "grown ?x A M H {} 2 ?k r (V, L, ?i) (?V, insert r (insert (map_block ?x b) L), ?i')"
      unfolding grown_def prod.case
    proof (intro conjI)
      have c2: "card {r, map_block ?x b} \<le> 2" by (simp add: card_insert_if)
      show "\<exists>N. insert r (insert (map_block ?x b) L) = L \<union> N \<and> finite N \<and> card N \<le> 2"
        by (intro exI [of _ "{r, map_block ?x b}"] conjI c2) auto
    qed (use f ok' blk' room(1) in auto)
    moreover have "bind_run (balloc p d s) (\<lambda>(addr, s). if addr = 0 then Some (Inr (0, s))
        else Some (Inr (addr, upd_inode ip (\<lambda>i. i\<lparr>i_addrs := (i_addrs i)[j := addr]\<rparr>) s))) =
        Some (Inr (r, s'\<lparr>inodes := (inodes s)[ip := ?i']\<rparr>))"
      using r(1) f(5) env by (simp add: upd_inode_def)
    moreover have "ftx (d, A, cap, nop) ?V (insert r (insert (map_block ?x b) L)) H (s'\<lparr>inodes := (inodes s)[ip := ?i']\<rparr>)"
      using t' b(2) by (simp add: ftx_def)
    moreover have "i_addrs ?i' ! j = r" using j(1) len by simp
    ultimately show ?thesis
      using env by (intro exI [of _ r] exI [of _ "s'\<lparr>inodes := (inodes s)[ip := ?i']\<rparr>"] exI [of _ ?V]
        exI [of _ "insert r (insert (map_block ?x b) L)"] exI [of _ ?i']) simp
  qed
qed

text \<open>A block that the file has is found, and nothing changes.\<close>

lemma bmap_mapped:
  assumes t: "ftx (d, A, cap, nop) V L H s" and fok: "file_ok x A M V H (ino s ip)" and dev: "i_dev (ino s ip) = d"
    and bn: "bn < MAXFILE" "blk V (ino s ip) bn \<noteq> 0" and room: "card (L \<union> {x. H x \<noteq> None}) < NBUF"
  shows "\<exists>s'. bmap p ip bn s = Some (Inr (blk V (ino s ip) bn, s')) \<and> ftx (d, A, cap, nop) V L H s' \<and> keeps d H s s'"
proof (cases "bn < NDIRECT")
  case True
  then show ?thesis using t bn by (auto simp: bmap_def blk_def)
next
  case False
  let ?i = "ino s ip" and ?ind = "i_addrs (ino s ip) ! NDIRECT"
  have ind: "?ind \<noteq> 0" using False bn by (auto simp: blk_def)
  have "blk V ?i MAXFILE = ?ind" by (simp add: blk_def NINDIRECT_256)
  then have "H ?ind = None" using fok ind by (auto simp: file_ok_def data_block_def)
  then obtain b s1 s2 where f: "fbread p d ?ind s = Some (Inr (b, s1))" "fdata b s1 = V ?ind" "keeps d H s s1"
    "\<forall>s'. fk s' = fk s1 \<longrightarrow> (\<exists>k. fbrelse p b s' = Some (Inr (s'\<lparr>fk := k\<rparr>)) \<and> k = fk s2)" "ftx (d, A, cap, nop) V L H s2" "keeps d H s s2"
    using peek_block [OF t _ room] by blast
  let ?s = "s1\<lparr>fk := fk s2\<rparr>"
  have rel: "fbrelse p b s1 = Some (Inr ?s)" using f(4) by auto
  have "bn - NDIRECT < NINDIRECT" using bn False by (simp add: NINDIRECT_256)
  then have "bmap p ip bn s = Some (Inr (blk V ?i bn, ?s))"
    using False f(1,2) rel ind bn dev by (simp add: bmap_def blk_def Let_def)
  moreover have "ftx (d, A, cap, nop) V L H ?s" "keeps d H s ?s" using f by (auto simp: ftx_def keeps_def fheld_def)
  ultimately show ?thesis by blast
qed

text \<open>The indirect block of a file is held while an entry of it is filled in.\<close>

lemma disk_ok_hold:
  assumes "disk_ok x A M V H" "data_block x A M V H a"
  shows "disk_ok x A M V (H(a := Some p))"
proof -
  have "of_nat b \<noteq> a" if "b < unat (sb_size x)" "\<not> used x V b" for b
    using that assms(2) size_bound(2) [OF that(1)] by (auto simp: data_block_def)
  moreover have "map_block x b \<noteq> a" if "b < unat (sb_size x)" for b
    using that assms by (auto simp: data_block_def disk_ok_def)
  ultimately show ?thesis using assms unfolding disk_ok_def bitmap_ok_def by (auto simp: data_block_def)
qed

lemma entry_alloc:
  assumes t: "ftx (d, A, cap, nop) V L H s" and dok: "disk_ok (sb s) A M V H" and fok: "file_ok (sb s) A M V H i"
    and ind: "i_addrs i ! NDIRECT = a" "a \<noteq> 0" and bn: "bn < NINDIRECT" and dev: "i_dev (ino s ip) = d"
    and room: "finite L" "card (L \<union> {x. H x \<noteq> None}) + 3 < NBUF" "card L + 2 < cap"
  shows "\<exists>r s' V' L'.
    bind_run (fbread p d a s) (\<lambda>(bp, s).
       let addr = get32 (fdata bp s) bn
       in if addr = 0
          then bind_run (balloc p (i_dev (ino s ip)) s) (\<lambda>(addr, s).
               bind_run (if addr \<noteq> 0 then fwrite bp (put32 (fdata bp s) bn addr) s else Some (Inr s)) (\<lambda>s.
               bind_run (fbrelse p bp s) (\<lambda>s. Some (Inr (addr, s)))))
          else bind_run (fbrelse p bp s) (\<lambda>s. Some (Inr (addr, s)))) = Some (Inr (r, s')) \<and>
    ftx (d, A, cap, nop) V' L' H s' \<and> keeps d H s s' \<and>
    (if get32 (V a) bn \<noteq> 0 then r = get32 (V a) bn \<and> V' = V \<and> L' = L
     else grown (sb s) A M H {a} 3 (NDIRECT + bn) r (V, L, i) (V', L', i))"
proof -
  let ?x = "sb s" and ?k = "NDIRECT + bn"
  have ka: "blk V i MAXFILE = a" and kk: "blk V i ?k = get32 (V a) bn" using ind bn by (auto simp: blk_def NINDIRECT_256)
  have da: "data_block ?x A M V H a" using fok ka ind(2) by (auto simp: file_ok_def)
  then have ha: "H a = None" and la: "length (V a) = BSIZE" and oa: "a \<notin> A" by (auto simp: data_block_def)
  have r1: "card (L \<union> {x. H x \<noteq> None}) < NBUF" using room(2) by simp
  obtain bp s1 where 1: "fbread p d a s = Some (Inr (bp, s1))" "ftx (d, A, cap, nop) V L (H(a := Some p)) s1" "fheld s1 d a bp"
    "fdata bp s1 = V a" "keeps d H s s1" using fbread_ok [OF t ha r1] by blast
  have dev1: "i_dev (ino s1 ip) = d" using keepsD(2) [OF 1(5)] dev by simp
  have Hback: "(H(a := Some p))(a := None) = H" using ha by (simp add: fun_upd_idem)
  show ?thesis
  proof (cases "get32 (V a) bn = 0")
    case False
    obtain s2 where 2: "fbrelse p bp s1 = Some (Inr s2)" "ftx (d, A, cap, nop) V L H s2" "keeps d (H(a := Some p)) s1 s2"
      using fbrelse_ok [OF 1(2,3)] unfolding Hback by auto
    have "keeps d H s s2" using 1(5) keeps_upd [OF 2(3) ha] keeps_trans by blast
    then show ?thesis using False 1 2 by (auto simp: Let_def intro!: exI [of _ s2])
  next
    case True
    let ?H = "H(a := Some p)"
    have dok': "disk_ok ?x A M V ?H" by (rule disk_ok_hold [OF dok da])
    then have bok: "bitmap_ok (sb s1) A V ?H" using keepsD(1) [OF 1(5)] by (simp add: disk_ok_def)
    have "{x. ?H x \<noteq> None} = insert a {x. H x \<noteq> None}" using ha by auto
    then have "card (L \<union> {x. ?H x \<noteq> None}) \<le> card (L \<union> {x. H x \<noteq> None}) + 1"
      using card_insert_le_Suc [of a "L \<union> {x. H x \<noteq> None}"] by simp
    then have r2: "card (L \<union> {x. ?H x \<noteq> None}) + 1 < NBUF" "card L + 1 < cap" using room by simp_all
    obtain r s2 where r: "balloc p d s1 = Some (Inr (r, s2))" "keeps d ?H s1 s2"
      and c: "r = 0 \<and> (\<forall>b<unat (sb_size ?x). used ?x V b) \<and> ftx (d, A, cap, nop) V L ?H s2 \<or>
       (\<exists>b<unat (sb_size ?x). r = of_nat b \<and> \<not> used ?x V b \<and> (\<forall>c<b. used ?x V c) \<and>
         ftx (d, A, cap, nop) (alloc_view ?x V b) (insert (of_nat b) (insert (map_block ?x b) L)) ?H s2)"
      using balloc_ok [OF 1(2) bok room(1) r2, of p, unfolded keepsD(1) [OF 1(5)]] by blast
    have h2: "fheld s2 d a bp" using r(2) 1(3) by (auto simp: keeps_def)
    have k2: "keeps d H s s2" using 1(5) keeps_upd [OF r(2) ha] keeps_trans by blast
    from c show ?thesis
    proof (elim disjE conjE exE)
      assume z: "r = 0" "\<forall>b<unat (sb_size ?x). used ?x V b" "ftx (d, A, cap, nop) V L ?H s2"
      obtain s3 where 3: "fbrelse p bp s2 = Some (Inr s3)" "ftx (d, A, cap, nop) V L H s3" "keeps d ?H s2 s3"
        using fbrelse_ok [OF z(3) h2] unfolding Hback by auto
      have "grown ?x A M H {a} 3 ?k 0 (V, L, i) (V, L, i)"
        unfolding grown_def prod.case using dok fok z(2) room(1) by (auto intro: exI [of _ "i_addrs i"] exI [of _ "{}"])
      moreover have "keeps d H s s3" using k2 keeps_upd [OF 3(3) ha] keeps_trans by blast
      ultimately show ?thesis
        using True 1(1,4) r(1) 3 z(1) dev1 by (intro exI [of _ 0] exI [of _ s3] exI [of _ V] exI [of _ L]) (simp add: Let_def)
    next
      fix b assume b: "b < unat (sb_size ?x)" "r = of_nat b" "\<not> used ?x V b"
        and t': "ftx (d, A, cap, nop) (alloc_view ?x V b) (insert (of_nat b) (insert (map_block ?x b) L)) ?H s2"
      let ?V = "alloc_view ?x V b" and ?L = "insert r (insert (map_block ?x b) L)"
      note f = alloc_facts [OF dok b(1,3), folded b(2)]
      have da': "data_block ?x A M ?V H a" "?V a = V a" "a \<noteq> r" using f(6) [OF da] by auto
      have d2: "fdata bp s2 = V a" using fdata_held [OF t' h2] da'(2) by simp
      have "?L = {r, map_block ?x b} \<union> L" by auto
      then have "card ?L \<le> card L + 2"
        using card_Un_le [of "{r, map_block ?x b}" L] by (simp add: card_insert_if split: if_splits)
      then have "card ?L < cap" using room(3) by simp
      then obtain s3 where 3: "fwrite bp (put32 (V a) bn r) s2 = Some (Inr s3)"
        "ftx (d, A, cap, nop) (?V(a := put32 (V a) bn r)) (insert a ?L) ?H s3" "fheld s3 d a bp" "keeps d ?H s2 s3"
        using fwrite_ok [OF t' [folded b(2)] h2 _ oa, of p "put32 (V a) bn r"] by auto
      obtain s4 where 4: "fbrelse p bp s3 = Some (Inr s4)" "ftx (d, A, cap, nop) (?V(a := put32 (V a) bn r)) (insert a ?L) H s4" "keeps d ?H s3 s4"
        using fbrelse_ok [OF 3(2,3)] unfolding Hback by auto
      let ?W = "?V(a := put32 (V a) bn r)"
      have lw: "length (put32 (V a) bn r) = BSIZE" using la bn by (simp add: length_put32 NINDIRECT_256 BSIZE_def)
      have mem: "map_block ?x c \<noteq> a" if "c < unat (sb_size ?x)" for c using da dok that by (auto simp: data_block_def disk_ok_def)
      have used': "used ?x ?W c = used ?x ?V c" if "c < unat (sb_size ?x)" for c using mem [OF that] by (simp add: used_def)
      have db: "data_block ?x A M ?W H q = data_block ?x A M ?V H q" for q
        using used' lw da'(1) by (auto simp: data_block_def)
      have aM: "a \<notin> M" using da by (simp add: data_block_def)
      have dokW: "disk_ok ?x A M ?W H"
        using f(2) mem used' aM unfolding disk_ok_def bitmap_ok_def by auto
      have same: "blk ?V i m = blk V i m" if "m \<le> MAXFILE" for m by (rule blk_same [OF fok _ that]) (use f(6) in blast)
      have blk': "blk ?W i m = (if m = ?k then r else blk V i m)" if "m \<le> MAXFILE" for m
      proof (cases "m < NDIRECT \<or> m = MAXFILE")
        case True
        then show ?thesis using bn by (auto simp: blk_def NINDIRECT_256)
      next
        case False
        then have m: "\<not> m < NDIRECT" "m \<noteq> MAXFILE" "m - NDIRECT < NINDIRECT" using that by (auto simp: NINDIRECT_256)
        have "get32 (put32 (V a) bn r) (m - NDIRECT) = (if bn = m - NDIRECT then r else get32 (V a) (m - NDIRECT))"
          using m(3) bn la by (intro get32_put32) (simp_all add: NINDIRECT_256 BSIZE_def)
        then show ?thesis using m ind by (auto simp: blk_def)
      qed
      have data: "data_block ?x A M V H (blk V i m)" if "m \<le> MAXFILE" "blk V i m \<noteq> 0" for m
        using fok that by (simp add: file_ok_def)
      have zero: "blk V i ?k = 0" using True kk by simp
      have ok': "file_ok ?x A M ?W H i"
      proof (rule file_extend [OF fok _ zero, where a = r])
        show "blk ?W i m = (if m = ?k then r else blk V i m)" if "m \<le> MAXFILE" for m by (rule blk' [OF that])
        show "blk V i m \<noteq> r" if "m \<le> MAXFILE" "blk V i m \<noteq> 0" for m using f(6) [OF data [OF that]] by simp
        show "data_block ?x A M ?W H (blk V i m)" if "m \<le> MAXFILE" "blk V i m \<noteq> 0" for m
          using f(6) [OF data [OF that]] db by simp
      qed (use f(3,5) db fok bn in \<open>simp_all add: NINDIRECT_256 file_ok_def\<close>)
      have "grown ?x A M H {a} 3 ?k r (V, L, i) (?W, insert a ?L, i)"
        unfolding grown_def prod.case
      proof (intro conjI)
        have c3: "card {a, r, map_block ?x b} \<le> 3" by (simp add: card_insert_if)
        show "\<exists>N. insert a ?L = L \<union> N \<and> finite N \<and> card N \<le> 3"
          by (intro exI [of _ "{a, r, map_block ?x b}"] conjI c3) auto
        show "\<forall>q. data_block ?x A M V H q \<longrightarrow> (q \<notin> {a} \<longrightarrow> ?W q = V q) \<and> data_block ?x A M ?W H q" using f(6) db by auto
        show "\<exists>as. i = i\<lparr>i_addrs := as\<rparr>" by (rule exI [of _ "i_addrs i"]) simp
      qed (use f dokW ok' blk' room(1) da'(3) in auto)
      moreover have "keeps d H s s4" using k2 keeps_upd [OF 3(4) ha] keeps_upd [OF 4(3) ha] keeps_trans by blast
      moreover have "bind_run (fbread p d a s) (\<lambda>(bp, s).
         let addr = get32 (fdata bp s) bn
         in if addr = 0
            then bind_run (balloc p (i_dev (ino s ip)) s) (\<lambda>(addr, s).
                 bind_run (if addr \<noteq> 0 then fwrite bp (put32 (fdata bp s) bn addr) s else Some (Inr s)) (\<lambda>s.
                 bind_run (fbrelse p bp s) (\<lambda>s. Some (Inr (addr, s)))))
            else bind_run (fbrelse p bp s) (\<lambda>s. Some (Inr (addr, s)))) = Some (Inr (r, s4))"
        using True 1(1,4) r(1) f(5) d2 3(1) 4(1) dev1 by (simp add: Let_def)
      ultimately show ?thesis using True 4(2) by (metis (no_types, lifting))
    qed
  qed
qed

text \<open>The same for the whole of \<open>bmap\<close>; the indirect block may be new as well.\<close>

definition filled :: "superblock \<Rightarrow> uint set \<Rightarrow> uint set \<Rightarrow> (uint \<Rightarrow> int option) \<Rightarrow> nat \<Rightarrow> uint \<Rightarrow>
    (uint \<Rightarrow> block) \<times> uint set \<times> inode \<Rightarrow> (uint \<Rightarrow> block) \<times> uint set \<times> inode \<Rightarrow> bool" where
  "filled x A M H k r = (\<lambda>(V, L, i) (V', L', i').
     disk_ok x A M V' H \<and> file_ok x A M V' H i' \<and> (\<exists>as. i' = i\<lparr>i_addrs := as\<rparr>) \<and>
     (\<forall>m<MAXFILE. blk V' i' m = (if m = k \<and> r \<noteq> 0 then r else blk V i m)) \<and>
     (\<forall>m\<le>MAXFILE. blk V' i' m = blk V i m \<or> \<not> data_block x A M V H (blk V' i' m)) \<and>
     (\<forall>a. data_block x A M V H a \<longrightarrow> (a \<noteq> blk V i MAXFILE \<longrightarrow> V' a = V a) \<and> data_block x A M V' H a) \<and>
     (r \<noteq> 0 \<longrightarrow> V' r = replicate BSIZE 0 \<and> \<not> data_block x A M V H r) \<and> (r = 0 \<longrightarrow> (\<forall>b<unat (sb_size x). used x V' b)) \<and>
     finite L' \<and> (\<exists>N. L' = L \<union> N \<and> finite N \<and> card N \<le> 5))"

lemma grown_filled:
  assumes "grown x A M H {} 2 k r (V, L, i) (V', L', i')"
  shows "filled x A M H k r (V, L, i) (V', L', i')"
proof -
  obtain N where "L' = L \<union> N" "finite N" "card N \<le> 2" using assms by (auto simp: grown_def)
  then have N: "\<exists>N. L' = L \<union> N \<and> finite N \<and> card N \<le> 5" by (intro exI [of _ N]) simp
  show ?thesis using assms N unfolding grown_def filled_def prod.case by auto
qed

lemma grown_entry_filled:
  assumes g1: "grown x A M H {} 2 MAXFILE a (V, L, i) (V1, L1, i1)" "a \<noteq> 0"
    and g2: "grown x A M H {a} 3 k r (V1, L1, i1) (V', L', i1)" and k: "k < MAXFILE" and z: "blk V i MAXFILE = 0"
  shows "filled x A M H k r (V, L, i) (V', L', i1)"
  unfolding filled_def prod.case
proof (intro conjI allI impI)
  show "\<exists>as. i1 = i\<lparr>i_addrs := as\<rparr>" using g1(1) by (auto simp: grown_def)
  show "\<exists>N. L' = L \<union> N \<and> finite N \<and> card N \<le> 5"
  proof -
    obtain N1 N2 where n: "L1 = L \<union> N1" "finite N1" "card N1 \<le> 2" "L' = L1 \<union> N2" "finite N2" "card N2 \<le> 3"
      using g1(1) g2 by (auto simp: grown_def)
    then have "card (N1 \<union> N2) \<le> 5" using card_Un_le [of N1 N2] by simp
    then show ?thesis using n by (intro exI [of _ "N1 \<union> N2"]) auto
  qed
  show "blk V' i1 m = (if m = k \<and> r \<noteq> 0 then r else blk V i m)" if "m < MAXFILE" for m
    using that g1(1) g2 k by (auto simp: grown_def)
  show "blk V' i1 m = blk V i m \<or> \<not> data_block x A M V H (blk V' i1 m)" if "m \<le> MAXFILE" for m
    using that g1 g2 by (auto simp: grown_def)
  show "V' q = V q" if q: "data_block x A M V H q" "q \<noteq> blk V i MAXFILE" for q
  proof -
    have "V1 q = V q" "data_block x A M V1 H q" "\<not> data_block x A M V H a" using g1 q(1) by (auto simp: grown_def)
    moreover have "q \<noteq> a" using calculation q(1) by auto
    ultimately show ?thesis using g2 by (auto simp: grown_def)
  qed
  show "data_block x A M V' H q" if "data_block x A M V H q" for q using that g1(1) g2 by (auto simp: grown_def)
  show "\<not> data_block x A M V H r" if "r \<noteq> 0" using that g1(1) g2 by (auto simp: grown_def)
qed (use g2 in \<open>auto simp: grown_def\<close>)

lemma grown_entry_only:
  assumes g: "grown x A M H {a} 3 k r (V, L, i) (V', L', i)" and k: "k < MAXFILE" and ind: "blk V i MAXFILE = a"
  shows "filled x A M H k r (V, L, i) (V', L', i)"
proof -
  obtain N where "L' = L \<union> N" "finite N" "card N \<le> 3" using g by (auto simp: grown_def)
  then have N: "\<exists>N. L' = L \<union> N \<and> finite N \<and> card N \<le> 5" by (intro exI [of _ N]) simp
  show ?thesis using g N k ind unfolding grown_def filled_def prod.case by auto
qed

lemma bmap_ok:
  assumes t: "ftx (d, A, cap, nop) V L H s" and dok: "disk_ok (sb s) A M V H" and fok: "file_ok (sb s) A M V H (ino s ip)"
    and ip: "ip < length (inodes s)" "i_dev (ino s ip) = d" and bn: "bn < MAXFILE" "blk V (ino s ip) bn = 0"
    and room: "finite L" "card (L \<union> {x. H x \<noteq> None}) + 5 < NBUF" "card L + 4 < cap"
  shows "\<exists>r s' V' L' i'. bmap p ip bn s = Some (Inr (r, s')) \<and> ftx (d, A, cap, nop) V' L' H s' \<and> sb s' = sb s \<and>
    inodes s' = (inodes s)[ip := i'] \<and> filled (sb s) A M H bn r (V, L, ino s ip) (V', L', i')"
proof (cases "bn < NDIRECT")
  case True
  then have z: "i_addrs (ino s ip) ! bn = 0" "bn \<le> NDIRECT" "bn \<noteq> NDIRECT" using bn(2) by (auto simp: blk_def)
  have r1: "card (L \<union> {x. H x \<noteq> None}) + 1 < NBUF" "card L + 1 < cap" using room by simp_all
  from slot_alloc [OF t dok fok ip z(2,1) room(1) r1, of p, unfolded if_not_P [OF z(3)]]
  obtain r s' V' L' i' where o: "bind_run (balloc p d s) (\<lambda>(addr, s). if addr = 0 then Some (Inr (0, s))
      else Some (Inr (addr, upd_inode ip (\<lambda>i. i\<lparr>i_addrs := (i_addrs i)[bn := addr]\<rparr>) s))) = Some (Inr (r, s'))"
    "ftx (d, A, cap, nop) V' L' H s'" "sb s' = sb s" "inodes s' = (inodes s)[ip := i']"
    "grown (sb s) A M H {} 2 bn r (V, L, ino s ip) (V', L', i')" by blast
  then have "bmap p ip bn s = Some (Inr (r, s'))" using True z ip(2) by (simp add: bmap_def)
  then show ?thesis using o grown_filled by blast
next
  case False
  let ?i = "ino s ip" and ?k = "bn - NDIRECT"
  have k: "?k < NINDIRECT" "NDIRECT + ?k = bn" using bn False by (simp_all add: NINDIRECT_256)
  have r1: "card (L \<union> {x. H x \<noteq> None}) + 1 < NBUF" "card L + 1 < cap" using room by simp_all
  have max: "blk V ?i MAXFILE = i_addrs ?i ! NDIRECT" by (simp add: blk_def NINDIRECT_256)
  show ?thesis
  proof (cases "i_addrs ?i ! NDIRECT = 0")
    case True
    from slot_alloc [OF t dok fok ip order_refl True room(1) r1, of p, unfolded if_P [OF refl]]
    obtain a s1 V1 L1 i1 where o: "bind_run (balloc p d s) (\<lambda>(addr, s). if addr = 0 then Some (Inr (0, s))
        else Some (Inr (addr, upd_inode ip (\<lambda>i. i\<lparr>i_addrs := (i_addrs i)[NDIRECT := addr]\<rparr>) s))) = Some (Inr (a, s1))"
      "ftx (d, A, cap, nop) V1 L1 H s1" "sb s1 = sb s" "inodes s1 = (inodes s)[ip := i1]"
      "grown (sb s) A M H {} 2 MAXFILE a (V, L, ?i) (V1, L1, i1)" "a \<noteq> 0 \<longrightarrow> i_addrs i1 ! NDIRECT = a" by blast
    show ?thesis
    proof (cases "a = 0")
      case True
      have "bmap p ip bn s = Some (Inr (0, s1))"
        using False k(1) o(1) \<open>i_addrs ?i ! NDIRECT = 0\<close> True ip(2) by (simp add: bmap_def Let_def)
      moreover have "filled (sb s) A M H bn 0 (V, L, ?i) (V1, L1, i1)"
        using grown_filled [OF o(5)] True unfolding filled_def prod.case by auto
      ultimately show ?thesis using o(2-4) by blast
    next
      case nz: False
      obtain N where N: "L1 = L \<union> N" "finite N" "card N \<le> 2" using o(5) by (auto simp: grown_def)
      have ok1: "disk_ok (sb s1) A M V1 H" "file_ok (sb s1) A M V1 H i1" using o(3,5) by (auto simp: grown_def)
      have r2: "card (L1 \<union> {x. H x \<noteq> None}) + 3 < NBUF" unfolding N(1) by (rule room_union [OF N(2,3)]) (use room(2) in simp)
      have r3: "card L1 + 2 < cap" using N room(3) card_Un_le [of L N] by simp
      have fin: "finite L1" using N room(1) by simp
      have ind: "i_addrs i1 ! NDIRECT = a" using o(6) nz by simp
      have i1: "ino s1 ip = i1" "i_dev i1 = d" using o(4,5) ip by (auto simp: grown_def)
      have dev1: "i_dev (ino s1 ip) = d" using i1 by simp
      from entry_alloc [OF o(2) ok1 ind nz k(1) dev1 fin r2 r3, of p]
      obtain r s' V' L' where e: "bind_run (fbread p d a s1) (\<lambda>(bp, s).
         let addr = get32 (fdata bp s) ?k
         in if addr = 0
            then bind_run (balloc p (i_dev (ino s ip)) s) (\<lambda>(addr, s).
                 bind_run (if addr \<noteq> 0 then fwrite bp (put32 (fdata bp s) ?k addr) s else Some (Inr s)) (\<lambda>s.
                 bind_run (fbrelse p bp s) (\<lambda>s. Some (Inr (addr, s)))))
            else bind_run (fbrelse p bp s) (\<lambda>s. Some (Inr (addr, s)))) = Some (Inr (r, s'))"
        "ftx (d, A, cap, nop) V' L' H s'" "keeps d H s1 s'"
        "if get32 (V1 a) ?k \<noteq> 0 then r = get32 (V1 a) ?k \<and> V' = V1 \<and> L' = L1
         else grown (sb s1) A M H {a} 3 (NDIRECT + ?k) r (V1, L1, i1) (V', L', i1)" by blast
      have "get32 (V1 a) ?k = 0"
        using o(5) nz get32_zeros [of ?k] k(1) by (auto simp: grown_def NINDIRECT_256 BSIZE_def)
      then have g: "grown (sb s) A M H {a} 3 bn r (V1, L1, i1) (V', L', i1)" using e(4) o(3) k(2) by simp
      have "bmap p ip bn s = Some (Inr (r, s'))"
        using False k(1) o(1) e(1) \<open>i_addrs ?i ! NDIRECT = 0\<close> nz ip(2) i1
        by (simp add: bmap_def Let_def)
      moreover have "filled (sb s) A M H bn r (V, L, ?i) (V', L', i1)"
        by (rule grown_entry_filled [OF o(5) nz g bn(1)]) (use max \<open>i_addrs ?i ! NDIRECT = 0\<close> in simp)
      ultimately show ?thesis using e(2) keepsD [OF e(3)] o(3,4) by auto
    qed
  next
    case nz: False
    let ?a = "i_addrs ?i ! NDIRECT"
    have r2: "card (L \<union> {x. H x \<noteq> None}) + 3 < NBUF" "card L + 2 < cap" using room by simp_all
    from entry_alloc [OF t dok fok refl nz k(1) ip(2) room(1) r2, of p]
    obtain r s' V' L' where e: "bind_run (fbread p d ?a s) (\<lambda>(bp, s).
       let addr = get32 (fdata bp s) ?k
       in if addr = 0
          then bind_run (balloc p (i_dev (ino s ip)) s) (\<lambda>(addr, s).
               bind_run (if addr \<noteq> 0 then fwrite bp (put32 (fdata bp s) ?k addr) s else Some (Inr s)) (\<lambda>s.
               bind_run (fbrelse p bp s) (\<lambda>s. Some (Inr (addr, s)))))
          else bind_run (fbrelse p bp s) (\<lambda>s. Some (Inr (addr, s)))) = Some (Inr (r, s'))"
      "ftx (d, A, cap, nop) V' L' H s'" "keeps d H s s'"
      "if get32 (V ?a) ?k \<noteq> 0 then r = get32 (V ?a) ?k \<and> V' = V \<and> L' = L
       else grown (sb s) A M H {?a} 3 (NDIRECT + ?k) r (V, L, ?i) (V', L', ?i)" by blast
    have "get32 (V ?a) ?k = 0" using bn False nz by (simp add: blk_def)
    then have g: "grown (sb s) A M H {?a} 3 bn r (V, L, ?i) (V', L', ?i)" using e(4) k(2) by simp
    have "bmap p ip bn s = Some (Inr (r, s'))"
      using False k(1) e(1) nz ip(2) by (simp add: bmap_def Let_def)
    then show ?thesis using e(2) keepsD [OF e(3)] grown_entry_only [OF g bn(1) max]
      by (intro exI [of _ r] exI [of _ s'] exI [of _ V'] exI [of _ L'] exI [of _ ?i]) simp
  qed
qed

section \<open>The contents of a file\<close>

definition cont :: "(uint \<Rightarrow> block) \<Rightarrow> inode \<Rightarrow> nat \<Rightarrow> uchar" where
  "cont V i x = (if blk V i (x div BSIZE) = 0 then 0 else V (blk V i (x div BSIZE)) ! (x mod BSIZE))"

lemma BSIZE_pos: "0 < BSIZE" by (simp add: BSIZE_def)

lemma same_block:
  assumes "off mod BSIZE + j < BSIZE"
  shows "(off + j) div BSIZE = off div BSIZE" "(off + j) mod BSIZE = off mod BSIZE + j"
proof -
  have j: "j < BSIZE" using assms by simp
  show "(off + j) div BSIZE = off div BSIZE" using div_add1_eq [of off j BSIZE] assms j by simp
  have "(off + j) mod BSIZE = (off mod BSIZE + j) mod BSIZE" by (simp add: mod_add_left_eq)
  then show "(off + j) mod BSIZE = off mod BSIZE + j" using assms by simp
qed

lemma chunk_cont:
  assumes "blk V i (off div BSIZE) \<noteq> 0" "length (V (blk V i (off div BSIZE))) = BSIZE" "off mod BSIZE + m \<le> BSIZE"
  shows "slice (V (blk V i (off div BSIZE))) (off mod BSIZE) m = map (cont V i) [off..<off + m]"
proof (rule nth_equalityI)
  show "length (slice (V (blk V i (off div BSIZE))) (off mod BSIZE) m) = length (map (cont V i) [off..<off + m])"
    using assms by (simp add: slice_def)
  fix j assume "j < length (slice (V (blk V i (off div BSIZE))) (off mod BSIZE) m)"
  then have j: "j < m" "off mod BSIZE + j < BSIZE" using assms by (auto simp: slice_def)
  then show "slice (V (blk V i (off div BSIZE))) (off mod BSIZE) m ! j = map (cont V i) [off..<off + m] ! j"
    using assms same_block [OF j(2)] by (simp add: slice_def cont_def)
qed

lemma room_lt: "x < MAXFILE * BSIZE \<Longrightarrow> x div BSIZE < MAXFILE"
  using BSIZE_pos by (simp add: less_mult_imp_div_less)

lemma readi_loop_ok:
  assumes "ftx (d, A, cap, nop) V L H s" "file_ok x A M V H i" "ino s ip = i" "i_dev i = d" "card (L \<union> {x. H x \<noteq> None}) < NBUF"
    "\<forall>y < sz. blk V i (y div BSIZE) \<noteq> 0" "sz \<le> MAXFILE * BSIZE" "tot \<le> n" "off + (n - tot) \<le> sz"
  shows "\<exists>s'. readi_loop p ip (\<lambda>_ _. True) dst off tot n out s = Some (Inr (int n, out @ map (cont V i) [off..<off + (n - tot)], s')) \<and>
    ftx (d, A, cap, nop) V L H s' \<and> keeps d H s s'"
  using assms
proof (induction "n - tot" arbitrary: off tot dst out s rule: less_induct)
  case less
  show ?case
  proof (cases "tot < n")
    case False
    then show ?thesis using less.prems by (subst readi_loop.simps) auto
  next
    case True
    let ?k = "off div BSIZE" and ?m = "min (n - tot) (BSIZE - off mod BSIZE)"
    have off: "off < sz" using True less.prems(9) by simp
    have k: "?k < MAXFILE" "blk V i ?k \<noteq> 0" using off less.prems(6,7) room_lt [of off] by auto
    let ?a = "blk V i ?k"
    have da: "data_block x A M V H ?a" using less.prems(2) k by (auto simp: file_ok_def)
    have m: "0 < ?m" "off mod BSIZE + ?m \<le> BSIZE" using True BSIZE_pos mod_less_divisor [OF BSIZE_pos, of off] by auto
    obtain s1 where 1: "bmap p ip ?k s = Some (Inr (?a, s1))" "ftx (d, A, cap, nop) V L H s1" "keeps d H s s1"
      using bmap_mapped [OF less.prems(1), of x M ip ?k p] less.prems(2-5) k by auto
    have "H ?a = None" using da by (simp add: data_block_def)
    then obtain b s2 s3 where 2: "fbread p d ?a s1 = Some (Inr (b, s2))" "fdata b s2 = V ?a" "keeps d H s1 s2"
      "\<forall>s'. fk s' = fk s2 \<longrightarrow> (\<exists>k. fbrelse p b s' = Some (Inr (s'\<lparr>fk := k\<rparr>)) \<and> k = fk s3)" "ftx (d, A, cap, nop) V L H s3" "keeps d H s1 s3"
      using peek_block [OF 1(2) _ less.prems(5)] by blast
    let ?s = "s2\<lparr>fk := fk s3\<rparr>"
    have rel: "fbrelse p b s2 = Some (Inr ?s)" using 2(4) by auto
    have t3: "ftx (d, A, cap, nop) V L H ?s" "keeps d H s ?s"
      using 1(3) 2(3,5,6) by (auto simp: ftx_def keeps_def fheld_def)
    have i3: "ino ?s ip = i" using keepsD(2) [OF t3(2)] less.prems(3) by simp
    have dev: "i_dev (ino s1 ip) = d" using keepsD(2) [OF 1(3)] less.prems(3,4) by simp
    have ch: "slice (V ?a) (off mod BSIZE) ?m = map (cont V i) [off..<off + ?m]"
      by (rule chunk_cont [OF k(2) _ m(2)]) (use da in \<open>simp add: data_block_def\<close>)
    have step: "readi_loop p ip (\<lambda>_ _. True) dst off tot n out s =
        readi_loop p ip (\<lambda>_ _. True) (dst + of_nat ?m) (off + ?m) (tot + ?m) n (out @ map (cont V i) [off..<off + ?m]) ?s"
      using True 1(1) 2(1,2) rel ch k(2) dev by (subst readi_loop.simps) (simp add: Let_def del: readi_loop.simps)
    have dec: "n - (tot + ?m) < n - tot" using True m(1) by simp
    have le: "tot + ?m \<le> n" "off + ?m + (n - (tot + ?m)) \<le> sz" using True less.prems(9) by auto
    from less.hyps [OF dec t3(1) less.prems(2) i3 less.prems(4-7) le, of "dst + of_nat ?m" "out @ map (cont V i) [off..<off + ?m]"]
    obtain s' where s': "readi_loop p ip (\<lambda>_ _. True) (dst + of_nat ?m) (off + ?m) (tot + ?m) n (out @ map (cont V i) [off..<off + ?m]) ?s =
        Some (Inr (int n, (out @ map (cont V i) [off..<off + ?m]) @ map (cont V i) [off + ?m..<off + ?m + (n - (tot + ?m))], s'))"
      "ftx (d, A, cap, nop) V L H s'" "keeps d H ?s s'" by blast
    have "[off..<off + ?m] @ [off + ?m..<off + ?m + (n - (tot + ?m))] = [off..<off + (n - tot)]"
    proof -
      have e: "off + (n - tot) = (off + ?m) + (n - (tot + ?m))" using le(1) by simp
      show ?thesis unfolding e by (metis le_add1 upt_add_eq_append)
    qed
    then have "map (cont V i) [off..<off + ?m] @ map (cont V i) [off + ?m..<off + ?m + (n - (tot + ?m))] = map (cont V i) [off..<off + (n - tot)]"
      by (metis map_append)
    then show ?thesis using step s' keeps_trans [OF t3(2) s'(3)] by auto
  qed
qed

end
