(* ===== verification/Fs_Rw.thy ===== *)
theory Fs_Rw
  imports Fs_File
begin

text \<open>
  Reading and writing files (\<open>readi\<close>, \<open>writei\<close>, \<open>iupdate\<close> and \<open>ilock\<close> of \<open>kernel/fs.c\<close>): a file is an array of
  bytes, whatever blocks it is made of.
\<close>

section \<open>Changing a block of the contents\<close>

lemma content_update:
  assumes dok: "disk_ok x A M V H" and fok: "file_ok x A M V H i" and k: "k < MAXFILE" "blk V i k \<noteq> 0" and len: "length bs = BSIZE"
  defines "W \<equiv> V(blk V i k := bs)"
  shows "disk_ok x A M W H" "file_ok x A M W H i" "\<And>m. m \<le> MAXFILE \<Longrightarrow> blk W i m = blk V i m"
    "\<And>q. data_block x A M W H q = data_block x A M V H q"
    "\<And>y. y < MAXFILE * BSIZE \<Longrightarrow> cont W i y = (if y div BSIZE = k then bs ! (y mod BSIZE) else cont V i y)"
    "\<And>b. b < unat (sb_size x) \<Longrightarrow> used x W b = used x V b"
proof -
  let ?a = "blk V i k"
  have da: "data_block x A M V H ?a" using fok k by (auto simp: file_ok_def)
  have uniq: "m = k" if "m \<le> MAXFILE" "blk V i m = ?a" for m
    using fok that k by (metis file_ok_def less_or_eq_imp_le)
  have aM: "?a \<notin> M" using da by (simp add: data_block_def)
  then have mb: "map_block x b \<noteq> ?a" if "b < unat (sb_size x)" for b using dok that by (auto simp: disk_ok_def)
  show used': "used x W b = used x V b" if "b < unat (sb_size x)" for b using mb [OF that] by (simp add: used_def W_def)
  have "blk V i MAXFILE = i_addrs i ! NDIRECT" by (simp add: blk_def NINDIRECT_256)
  then have ind: "i_addrs i ! NDIRECT \<noteq> ?a" using uniq [of MAXFILE] k by auto
  show blk': "blk W i m = blk V i m" if "m \<le> MAXFILE" for m using ind by (simp add: blk_def W_def)
  show db: "data_block x A M W H q = data_block x A M V H q" for q
    using used' len da by (auto simp: data_block_def W_def)
  show "disk_ok x A M W H" using dok mb used' aM unfolding disk_ok_def bitmap_ok_def by (auto simp: W_def)
  show "file_ok x A M W H i" using fok blk' db unfolding file_ok_def by auto
  show "cont W i y = (if y div BSIZE = k then bs ! (y mod BSIZE) else cont V i y)" if "y < MAXFILE * BSIZE" for y
    using room_lt [OF that] blk' [of "y div BSIZE"] uniq [of "y div BSIZE"] k by (auto simp: cont_def W_def)
qed

lemma filled_cont:
  assumes f: "filled x A M H k r (V, L, i) (V', L', i')" and fok: "file_ok x A M V H i" and k: "blk V i k = 0" and y: "y < MAXFILE * BSIZE"
  shows "cont V' i' y = cont V i y"
proof -
  let ?m = "y div BSIZE"
  have m: "?m < MAXFILE" by (rule room_lt [OF y])
  have b: "blk V' i' ?m = (if ?m = k \<and> r \<noteq> 0 then r else blk V i ?m)" using f m by (auto simp: filled_def)
  have z: "V' r = replicate BSIZE 0" if "r \<noteq> 0" using f that by (auto simp: filled_def)
  have same: "V' (blk V i ?m) = V (blk V i ?m)" if "blk V i ?m \<noteq> 0"
  proof -
    have "data_block x A M V H (blk V i ?m)" using fok that m by (auto simp: file_ok_def)
    moreover have "blk V i ?m \<noteq> blk V i MAXFILE"
      using fok that m unfolding file_ok_def by (metis less_or_eq_imp_le order_refl nat_neq_iff)
    ultimately show ?thesis using f by (auto simp: filled_def)
  qed
  show ?thesis using b z same k by (auto simp: cont_def BSIZE_def)
qed

section \<open>One call of bmap\<close>

text \<open>
  Block \<open>k\<close> of the file is wanted: \<open>r\<close> is its number, or 0 if the disk is full. The contents do not change, and neither do
  the blocks of other files.
\<close>

definition mapped_block :: "superblock \<Rightarrow> uint set \<Rightarrow> uint set \<Rightarrow> (uint \<Rightarrow> int option) \<Rightarrow> nat \<Rightarrow> uint \<Rightarrow>
    (uint \<Rightarrow> block) \<times> uint set \<times> inode \<Rightarrow> (uint \<Rightarrow> block) \<times> uint set \<times> inode \<Rightarrow> bool" where
  "mapped_block x A M H k r = (\<lambda>(V, L, i) (V', L', i').
     disk_ok x A M V' H \<and> file_ok x A M V' H i' \<and> (\<exists>as. i' = i\<lparr>i_addrs := as\<rparr>) \<and>
     (\<forall>y<MAXFILE * BSIZE. cont V' i' y = cont V i y) \<and>
     (\<forall>m<MAXFILE. blk V i m \<noteq> 0 \<longrightarrow> blk V' i' m \<noteq> 0) \<and>
     (r \<noteq> 0 \<longrightarrow> blk V' i' k = r) \<and> (r = 0 \<longrightarrow> (\<forall>b<unat (sb_size x). used x V' b)) \<and>
     (\<forall>a. data_block x A M V H a \<longrightarrow> (\<forall>m\<le>MAXFILE. blk V i m \<noteq> a) \<longrightarrow>
        V' a = V a \<and> data_block x A M V' H a \<and> (\<forall>m\<le>MAXFILE. blk V' i' m \<noteq> a)) \<and>
     (\<exists>N. L' = L \<union> N \<and> finite N \<and> card N \<le> 5))"

lemma filled_mapped:
  assumes f: "filled x A M H k r (V, L, i) (V', L', i')" and fok: "file_ok x A M V H i" and k: "blk V i k = 0" "k < MAXFILE"
  shows "mapped_block x A M H k r (V, L, i) (V', L', i')"
proof -
  have "V' a = V a \<and> data_block x A M V' H a \<and> (\<forall>m\<le>MAXFILE. blk V' i' m \<noteq> a)"
    if a: "data_block x A M V H a" "\<forall>m\<le>MAXFILE. blk V i m \<noteq> a" for a
  proof -
    have "a \<noteq> blk V i MAXFILE" using a(2) by force
    then show ?thesis using f a unfolding filled_def prod.case by metis
  qed
  then show ?thesis
    using f k filled_cont [OF f fok k(1)] unfolding mapped_block_def filled_def prod.case by auto
qed

lemma bmap_any:
  assumes t: "ftx (d, A, cap, nop) V L H s" and dok: "disk_ok (sb s) A M V H" and fok: "file_ok (sb s) A M V H (ino s ip)"
    and ip: "ip < length (inodes s)" "i_dev (ino s ip) = d" and bn: "bn < MAXFILE"
    and room: "finite L" "card (L \<union> {x. H x \<noteq> None}) + 5 < NBUF" "card L + 4 < cap"
  shows "\<exists>r s' V' L' i'. bmap p ip bn s = Some (Inr (r, s')) \<and> ftx (d, A, cap, nop) V' L' H s' \<and> sb s' = sb s \<and>
    inodes s' = (inodes s)[ip := i'] \<and> mapped_block (sb s) A M H bn r (V, L, ino s ip) (V', L', i')"
proof (cases "blk V (ino s ip) bn = 0")
  case True
  then show ?thesis
    using bmap_ok [OF t dok fok ip bn True room, of p] filled_mapped [OF _ fok True bn] by blast
next
  case False
  have r1: "card (L \<union> {x. H x \<noteq> None}) < NBUF" using room(2) by simp
  obtain s' where s': "bmap p ip bn s = Some (Inr (blk V (ino s ip) bn, s'))" "ftx (d, A, cap, nop) V L H s'" "keeps d H s s'"
    using bmap_mapped [OF t fok ip(2) bn False r1] by blast
  have "mapped_block (sb s) A M H bn (blk V (ino s ip) bn) (V, L, ino s ip) (V, L, ino s ip)"
    unfolding mapped_block_def prod.case using dok fok False
    by (auto intro: exI [of _ "i_addrs (ino s ip)"] exI [of _ "{}"])
  then show ?thesis using s' keepsD [OF s'(3)] ip(1)
    by (intro exI [of _ "blk V (ino s ip) bn"] exI [of _ s'] exI [of _ V] exI [of _ L] exI [of _ "ino s ip"]) simp
qed

section \<open>Writing\<close>

lemma length_splice: "off + length xs \<le> length bs \<Longrightarrow> length (splice bs off xs) = length bs"
  by (simp add: splice_def)

lemma nth_splice:
  assumes "off + length xs \<le> length bs" "j < length bs"
  shows "splice bs off xs ! j = (if off \<le> j \<and> j < off + length xs then xs ! (j - off) else bs ! j)"
  using assms by (auto simp: splice_def nth_append)

text \<open>The number of blocks that a range touches.\<close>

definition rounds :: "nat \<Rightarrow> nat \<Rightarrow> nat" where
  "rounds off n = (if n = 0 then 0 else (off mod BSIZE + n + BSIZE - 1) div BSIZE)"

lemma rounds_step:
  assumes "0 < n" and m_def: "m = min n (BSIZE - off mod BSIZE)"
  shows "rounds (off + m) (n - m) + 1 \<le> rounds off n" "0 < rounds off n" "0 < m" "off mod BSIZE + m \<le> BSIZE"
proof -
  have b: "off mod BSIZE < BSIZE" by (simp add: BSIZE_def)
  show m: "0 < m" "off mod BSIZE + m \<le> BSIZE" using assms b by (auto simp: m_def)
  have ge: "BSIZE \<le> off mod BSIZE + n + BSIZE - 1" using assms(1) by simp
  then have "1 \<le> (off mod BSIZE + n + BSIZE - 1) div BSIZE"
    using div_le_mono [OF ge, of BSIZE] BSIZE_pos by simp
  then show pos: "0 < rounds off n" using assms(1) by (simp add: rounds_def)
  show "rounds (off + m) (n - m) + 1 \<le> rounds off n"
  proof (cases "n - m = 0")
    case True
    then show ?thesis using pos by (simp add: rounds_def)
  next
    case False
    then have e: "m = BSIZE - off mod BSIZE" "m < n" by (auto simp: m_def)
    have "off + m = off div BSIZE * BSIZE + (off mod BSIZE + m)" using div_mult_mod_eq [of off BSIZE] by linarith
    then have "off + m = (off div BSIZE + 1) * BSIZE" using e(1) b by simp
    then have z: "(off + m) mod BSIZE = 0" by simp
    have "off mod BSIZE + n + BSIZE - 1 = (n - m + BSIZE - 1) + BSIZE" using e b by simp
    moreover have "(n - m + BSIZE - 1 + BSIZE) div BSIZE = (n - m + BSIZE - 1) div BSIZE + 1" using BSIZE_pos by (intro div_add_self2) simp
    ultimately have "rounds off n = (n - m + BSIZE - 1) div BSIZE + 1" using assms(1) by (simp add: rounds_def)
    then show ?thesis using False by (simp add: rounds_def z)
  qed
qed

text \<open>
  The state of a write after the bytes of \<open>[off, off')\<close>, which are those of \<open>G\<close>.
\<close>

definition written :: "superblock \<Rightarrow> uint set \<Rightarrow> uint set \<Rightarrow> (uint \<Rightarrow> int option) \<Rightarrow> (nat \<Rightarrow> uchar) \<Rightarrow> nat \<Rightarrow> nat \<Rightarrow> nat \<Rightarrow>
    (uint \<Rightarrow> block) \<times> uint set \<times> inode \<Rightarrow> (uint \<Rightarrow> block) \<times> uint set \<times> inode \<Rightarrow> bool" where
  "written x A M H G off off' n = (\<lambda>(V, L, i) (V', L', i').
     disk_ok x A M V' H \<and> file_ok x A M V' H i' \<and> (\<exists>as. i' = i\<lparr>i_addrs := as\<rparr>) \<and>
     (\<forall>y<MAXFILE * BSIZE. cont V' i' y = (if off \<le> y \<and> y < off' then G y else cont V i y)) \<and>
     (\<forall>m<MAXFILE. blk V i m \<noteq> 0 \<longrightarrow> blk V' i' m \<noteq> 0) \<and>
     (\<forall>y. off \<le> y \<longrightarrow> y < off' \<longrightarrow> blk V' i' (y div BSIZE) \<noteq> 0) \<and>
     (\<forall>a. data_block x A M V H a \<longrightarrow> (\<forall>m\<le>MAXFILE. blk V i m \<noteq> a) \<longrightarrow>
        V' a = V a \<and> data_block x A M V' H a \<and> (\<forall>m\<le>MAXFILE. blk V' i' m \<noteq> a)) \<and>
     (\<exists>N. L' = L \<union> N \<and> finite N \<and> card N \<le> n))"

lemma written_trans:
  assumes w1: "written x A M H G off off1 n1 (V, L, i) (V1, L1, i1)" and w2: "written x A M H G off1 off2 n2 (V1, L1, i1) (V2, L2, i2)"
    and le: "off \<le> off1" "off1 \<le> off2" "off2 \<le> MAXFILE * BSIZE"
  shows "written x A M H G off off2 (n1 + n2) (V, L, i) (V2, L2, i2)"
  unfolding written_def prod.case
proof (intro conjI allI impI)
  show "\<exists>N. L2 = L \<union> N \<and> finite N \<and> card N \<le> n1 + n2"
  proof -
    obtain N1 N2 where n: "L1 = L \<union> N1" "finite N1" "card N1 \<le> n1" "L2 = L1 \<union> N2" "finite N2" "card N2 \<le> n2"
      using w1 w2 by (auto simp: written_def)
    then have "card (N1 \<union> N2) \<le> n1 + n2" using card_Un_le [of N1 N2] by simp
    then show ?thesis using n by (intro exI [of _ "N1 \<union> N2"]) auto
  qed
  show "\<exists>as. i2 = i\<lparr>i_addrs := as\<rparr>" using w1 w2 by (auto simp: written_def)
  show "cont V2 i2 y = (if off \<le> y \<and> y < off2 then G y else cont V i y)" if "y < MAXFILE * BSIZE" for y
    using w1 w2 that le by (auto simp: written_def)
  show "blk V2 i2 m \<noteq> 0" if "m < MAXFILE" "blk V i m \<noteq> 0" for m using w1 w2 that by (auto simp: written_def)
  show "blk V2 i2 (y div BSIZE) \<noteq> 0" if y: "off \<le> y" "y < off2" for y
  proof (cases "y < off1")
    case True
    then have "blk V1 i1 (y div BSIZE) \<noteq> 0" using w1 y by (auto simp: written_def)
    moreover have "y div BSIZE < MAXFILE" using y le by (intro room_lt) simp
    ultimately show ?thesis using w2 by (auto simp: written_def)
  qed (use w2 y in \<open>auto simp: written_def\<close>)
  fix a assume "data_block x A M V H a" "\<forall>m\<le>MAXFILE. blk V i m \<noteq> a"
  then have "V1 a = V a \<and> data_block x A M V1 H a \<and> (\<forall>m\<le>MAXFILE. blk V1 i1 m \<noteq> a)" using w1 by (auto simp: written_def)
  moreover from this have "V2 a = V1 a \<and> data_block x A M V2 H a \<and> (\<forall>m\<le>MAXFILE. blk V2 i2 m \<noteq> a)" using w2 by (auto simp: written_def)
  ultimately show "V2 a = V a" "data_block x A M V2 H a" "\<And>m. m \<le> MAXFILE \<Longrightarrow> blk V2 i2 m \<noteq> a" by auto
qed (use w1 w2 in \<open>auto simp: written_def\<close>)

lemma mapped_written:
  assumes "mapped_block x A M H k r (V, L, i) (V', L', i')"
  shows "written x A M H G off off 5 (V, L, i) (V', L', i')"
  using assms unfolding mapped_block_def written_def prod.case by auto

text \<open>Storing bytes in a block of the file.\<close>

lemma update_written:
  assumes dok: "disk_ok x A M V H" and fok: "file_ok x A M V H i" and b: "blk V i (off div BSIZE) \<noteq> 0"
    and m: "off mod BSIZE + m \<le> BSIZE" "off + m \<le> MAXFILE * BSIZE" "0 < m"
  shows "written x A M H G off (off + m) 1 (V, L, i)
    (V(blk V i (off div BSIZE) := splice (V (blk V i (off div BSIZE))) (off mod BSIZE) (map G [off..<off + m])),
     insert (blk V i (off div BSIZE)) L, i)"
proof -
  let ?k = "off div BSIZE" and ?a = "blk V i (off div BSIZE)"
  let ?bs = "splice (V ?a) (off mod BSIZE) (map G [off..<off + m])"
  have k: "?k < MAXFILE" using m(2,3) by (intro room_lt) simp
  have la: "length (V ?a) = BSIZE" using fok k b by (auto simp: file_ok_def data_block_def)
  have len: "length ?bs = BSIZE" using la m(1) by (simp add: length_splice)
  note u = content_update [OF dok fok k b len]
  have c: "cont (V(?a := ?bs)) i y = (if off \<le> y \<and> y < off + m then G y else cont V i y)" if y: "y < MAXFILE * BSIZE" for y
  proof (cases "y div BSIZE = ?k")
    case True
    have d: "off = ?k * BSIZE + off mod BSIZE" "y = ?k * BSIZE + y mod BSIZE"
      using div_mult_mod_eq [of off BSIZE] div_mult_mod_eq [of y BSIZE] True by simp_all
    have yb: "y mod BSIZE < length (V ?a)" using la BSIZE_pos by simp
    have ln: "off mod BSIZE + length (map G [off..<off + m]) \<le> length (V ?a)" using m(1) la by simp
    have iff: "off mod BSIZE \<le> y mod BSIZE \<and> y mod BSIZE < off mod BSIZE + m \<longleftrightarrow> off \<le> y \<and> y < off + m" using d by linarith
    have "?bs ! (y mod BSIZE) = (if off \<le> y \<and> y < off + m then map G [off..<off + m] ! (y mod BSIZE - off mod BSIZE) else V ?a ! (y mod BSIZE))"
      using nth_splice [OF ln yb] iff by simp
    moreover have "map G [off..<off + m] ! (y mod BSIZE - off mod BSIZE) = G y" if "off \<le> y" "y < off + m"
    proof -
      have "y mod BSIZE - off mod BSIZE < m" "off + (y mod BSIZE - off mod BSIZE) = y" using d that by linarith+
      then show ?thesis by simp
    qed
    moreover have "cont V i y = V ?a ! (y mod BSIZE)" using True b by (simp add: cont_def)
    ultimately show ?thesis using u(5) [OF y] True by simp
  next
    case False
    have "\<not> (off \<le> y \<and> y < off + m)"
    proof
      assume r: "off \<le> y \<and> y < off + m"
      then have "y - off < m" by linarith
      then have "(off + (y - off)) div BSIZE = ?k" using m(1) by (intro same_block) linarith
      then show False using r False by simp
    qed
    then show ?thesis using u(5) [OF y] False by auto
  qed
  have mp: "blk (V(?a := ?bs)) i (y div BSIZE) \<noteq> 0" if "off \<le> y" "y < off + m" for y
  proof -
    have "y - off < m" using that by linarith
    then have "(off + (y - off)) div BSIZE = ?k" using m(1) by (intro same_block) linarith
    then have "y div BSIZE = ?k" using that by simp
    then show ?thesis using u(3) [of ?k] k b by simp
  qed
  have ins: "\<exists>N. insert ?a L = L \<union> N \<and> finite N \<and> card N \<le> 1" by (intro exI [of _ "{?a}"]) auto
  have iso: "(V(?a := ?bs)) q = V q \<and> data_block x A M (V(?a := ?bs)) H q \<and> (\<forall>l\<le>MAXFILE. blk (V(?a := ?bs)) i l \<noteq> q)"
    if "data_block x A M V H q" "\<forall>l\<le>MAXFILE. blk V i l \<noteq> q" for q
  proof -
    have "q \<noteq> ?a" using that(2) k by (metis less_or_eq_imp_le)
    then show ?thesis using that u(3,4) by auto
  qed
  show ?thesis
    unfolding written_def prod.case using u(1,2,3) c mp ins iso by (auto intro: exI [of _ "i_addrs i"])
qed

text \<open>One round of the loop of \<open>writei\<close>: the block is mapped and the bytes are stored in it.\<close>

lemma written_mono: "written x A M H G off off' n a b \<Longrightarrow> n \<le> k \<Longrightarrow> written x A M H G off off' k a b"
  unfolding written_def by (cases a; cases b) (auto intro: order_trans)

lemma write_round:
  assumes t: "ftx (d, A, cap, nop) V L H s" and dok: "disk_ok (sb s) A M V H" and fok: "file_ok (sb s) A M V H (ino s ip)"
    and ip: "ip < length (inodes s)" "i_dev (ino s ip) = d" and room: "finite L" "card (L \<union> {x. H x \<noteq> None}) + 6 < NBUF" "card L + 6 \<le> cap"
    and m: "off mod BSIZE + m \<le> BSIZE" "off + m \<le> MAXFILE * BSIZE" "0 < m"
  shows "\<exists>r s1 V1 L1 i1. bmap p ip (off div BSIZE) s = Some (Inr (r, s1)) \<and> sb s1 = sb s \<and> inodes s1 = (inodes s)[ip := i1] \<and>
    (if r = 0 then ftx (d, A, cap, nop) V1 L1 H s1 \<and> written (sb s) A M H G off off 6 (V, L, ino s ip) (V1, L1, i1) \<and>
       (\<forall>b<unat (sb_size (sb s)). used (sb s) V1 b)
     else \<exists>bp s2 s3 s4 V2. fbread p d r s1 = Some (Inr (bp, s2)) \<and>
       inodes s2 = inodes s1 \<and> fwrite bp (splice (fdata bp s2) (off mod BSIZE) (map G [off..<off + m])) s2 = Some (Inr s3) \<and>
       fbrelse p bp s3 = Some (Inr s4) \<and> sb s4 = sb s \<and> inodes s4 = (inodes s)[ip := i1] \<and>
       ftx (d, A, cap, nop) V2 (insert r L1) H s4 \<and> written (sb s) A M H G off (off + m) 6 (V, L, ino s ip) (V2, insert r L1, i1))"
proof -
  let ?x = "sb s" and ?i = "ino s ip"
  have k: "off div BSIZE < MAXFILE" using m by (intro room_lt) simp
  have ra: "card (L \<union> {x. H x \<noteq> None}) + 5 < NBUF" "card L + 4 < cap" using room by simp_all
  obtain r s1 V1 L1 i1 where 1: "bmap p ip (off div BSIZE) s = Some (Inr (r, s1))" "ftx (d, A, cap, nop) V1 L1 H s1" "sb s1 = sb s"
    "inodes s1 = (inodes s)[ip := i1]" and mp: "mapped_block ?x A M H (off div BSIZE) r (V, L, ?i) (V1, L1, i1)"
    using bmap_any [OF t dok fok ip k room(1) ra, of p] by blast
  note w1 = mapped_written [OF mp, where G = G and off = off]
  show ?thesis
  proof (cases "r = 0")
    case True
    then have "\<forall>b<unat (sb_size ?x). used ?x V1 b" using mp by (auto simp: mapped_block_def)
    then show ?thesis using 1 True written_mono [OF w1, of 6] by auto
  next
    case False
    have ok1: "disk_ok ?x A M V1 H" "file_ok ?x A M V1 H i1" "blk V1 i1 (off div BSIZE) = r"
      using mp False by (auto simp: mapped_block_def)
    have da: "data_block ?x A M V1 H r" using ok1(2,3) False k by (auto simp: file_ok_def)
    obtain N where N: "L1 = L \<union> N" "finite N" "card N \<le> 5" using w1 by (auto simp: written_def)
    have r2: "card (L1 \<union> {x. H x \<noteq> None}) < NBUF" unfolding N(1) using room_union [OF N(2,3), of L "{x. H x \<noteq> None}" 0 NBUF] room(2) by simp
    have r3: "card L1 < cap" using N room(3) card_Un_le [of L N] by simp
    have "H r = None" "r \<notin> A" using da by (auto simp: data_block_def)
    from modify_block [OF 1(2) this(1) r2 r3 this(2), of p "splice (V1 r) (off mod BSIZE) (map G [off..<off + m])"]
    obtain bp s2 s3 s4 where 2: "fbread p d r s1 = Some (Inr (bp, s2))" "fdata bp s2 = V1 r" "keeps d H s1 s2"
      "fwrite bp (splice (V1 r) (off mod BSIZE) (map G [off..<off + m])) s2 = Some (Inr s3)" "fbrelse p bp s3 = Some (Inr s4)"
      "ftx (d, A, cap, nop) (V1(r := splice (V1 r) (off mod BSIZE) (map G [off..<off + m]))) (insert r L1) H s4" "keeps d H s1 s4"
      by blast
    have "blk V1 i1 (off div BSIZE) \<noteq> 0" using ok1(3) False by simp
    note w2 = update_written [OF ok1(1,2) this m, of G L1, unfolded ok1(3)]
    have "off \<le> off + m" by simp
    note w = written_trans [OF w1 w2 order_refl this m(2)]
    show ?thesis using 1 2 w False keepsD [OF 2(3)] keepsD [OF 2(7)] by auto
  qed
qed

text \<open>
  The whole loop. \<open>get\<close> delivers the bytes that \<open>G\<close> puts at the offsets written. The loop stops early only when the disk
  is full.
\<close>

definition source :: "(uint64 \<Rightarrow> nat \<Rightarrow> uchar list \<times> bool) \<Rightarrow> uint64 \<Rightarrow> nat \<Rightarrow> nat \<Rightarrow> (nat \<Rightarrow> uchar) \<Rightarrow> bool" where
  "source get src off n G \<longleftrightarrow> (\<forall>t m. t + m \<le> n \<longrightarrow> get (src + of_nat t) m = (map G [off + t..<off + t + m], True))"

lemma source_next:
  assumes "source get src off n G" "m \<le> n"
  shows "source get (src + of_nat m) (off + m) (n - m) G" "get src m = (map G [off..<off + m], True)"
proof -
  show "source get (src + of_nat m) (off + m) (n - m) G"
    unfolding source_def
  proof (intro allI impI)
    fix t k assume "t + k \<le> n - m"
    then have "(m + t) + k \<le> n" using assms(2) by simp
    then have "get (src + of_nat (m + t)) k = (map G [off + (m + t)..<off + (m + t) + k], True)"
      using assms(1) unfolding source_def by blast
    then show "get (src + of_nat m + of_nat t) k = (map G [off + m + t..<off + m + t + k], True)"
      by (simp add: add.assoc)
  qed
  have "0 + m \<le> n" using assms(2) by simp
  then have "get (src + of_nat 0) m = (map G [off + 0..<off + 0 + m], True)" using assms(1) unfolding source_def by blast
  then show "get src m = (map G [off..<off + m], True)" by simp
qed

lemma advance:
  fixes m n tot off c :: nat
  assumes "m \<le> n - tot" "tot \<le> n" "off + (n - tot) \<le> c"
  shows "off + m + (n - (tot + m)) \<le> c" "tot + m \<le> n" "tot + m + w \<le> n \<Longrightarrow> off + m + w \<le> c"
  using assms by linarith+

lemma writei_loop_ok:
  assumes "ftx (d, A, cap, nop) V L H s" "disk_ok (sb s) A M V H" "file_ok (sb s) A M V H (ino s ip)"
    "ip < length (inodes s)" "i_dev (ino s ip) = d" "finite L"
    "card (L \<union> {x. H x \<noteq> None}) + 6 * rounds off (n - tot) < NBUF" "card L + 6 * rounds off (n - tot) \<le> cap"
    "off + (n - tot) \<le> MAXFILE * BSIZE" "source get src off (n - tot) G" "tot \<le> n"
  shows "\<exists>w s' V' L' i'. writei_loop p ip get src off tot n s = Some (Inr (off + w, tot + w, s')) \<and> tot + w \<le> n \<and>
    ftx (d, A, cap, nop) V' L' H s' \<and> sb s' = sb s \<and> inodes s' = (inodes s)[ip := i'] \<and>
    written (sb s) A M H G off (off + w) (6 * rounds off (n - tot)) (V, L, ino s ip) (V', L', i') \<and>
    (tot + w < n \<longrightarrow> (\<forall>b<unat (sb_size (sb s)). used (sb s) V' b))"
  using assms
proof (induction "n - tot" arbitrary: off tot src s V L rule: less_induct)
  case less
  let ?x = "sb s" and ?i = "ino s ip"
  show ?case
  proof (cases "tot < n")
    case False
    have "written ?x A M H G off off (6 * rounds off (n - tot)) (V, L, ?i) (V, L, ?i)"
      unfolding written_def prod.case using less.prems(2,3) by (auto intro: exI [of _ "i_addrs ?i"] exI [of _ "{}"])
    moreover have "writei_loop p ip get src off tot n s = Some (Inr (off + 0, tot + 0, s))" using False by (subst writei_loop.simps) simp
    ultimately show ?thesis
      using less.prems False by (intro exI [of _ 0] exI [of _ s] exI [of _ V] exI [of _ L] exI [of _ ?i]) simp
  next
    case True
    let ?m = "min (n - tot) (BSIZE - off mod BSIZE)" and ?R = "rounds off (n - tot)"
    have pos: "0 < n - tot" using True by simp
    note rs = rounds_step [OF pos refl, of off]
    have m: "?m \<le> n - tot" by simp
    have fit: "off + ?m \<le> MAXFILE * BSIZE" using less.prems(9) m by linarith
    have room: "card (L \<union> {x. H x \<noteq> None}) + 6 < NBUF" "card L + 6 \<le> cap" using less.prems(7,8) rs(2) by linarith+
    obtain r s1 V1 L1 i1 where 1: "bmap p ip (off div BSIZE) s = Some (Inr (r, s1))" "sb s1 = sb s" "inodes s1 = (inodes s)[ip := i1]"
      and c: "if r = 0 then ftx (d, A, cap, nop) V1 L1 H s1 \<and> written ?x A M H G off off 6 (V, L, ?i) (V1, L1, i1) \<and>
       (\<forall>b<unat (sb_size ?x). used ?x V1 b)
       else \<exists>bp s2 s3 s4 V2. fbread p d r s1 = Some (Inr (bp, s2)) \<and>
       inodes s2 = inodes s1 \<and> fwrite bp (splice (fdata bp s2) (off mod BSIZE) (map G [off..<off + ?m])) s2 = Some (Inr s3) \<and>
       fbrelse p bp s3 = Some (Inr s4) \<and> sb s4 = sb s \<and> inodes s4 = (inodes s)[ip := i1] \<and>
       ftx (d, A, cap, nop) V2 (insert r L1) H s4 \<and> written ?x A M H G off (off + ?m) 6 (V, L, ?i) (V2, insert r L1, i1)"
      using write_round [OF less.prems(1-6) room rs(4) fit rs(3), of p G] by blast
    show ?thesis
    proof (cases "r = 0")
      case True
      have "writei_loop p ip get src off tot n s = Some (Inr (off + 0, tot + 0, s1))"
        using 1(1) True \<open>tot < n\<close> by (subst writei_loop.simps) simp
      moreover have "written ?x A M H G off (off + 0) (6 * ?R) (V, L, ?i) (V1, L1, i1)"
        using c True rs(2) by (auto intro: written_mono)
      ultimately show ?thesis using 1 c True less.prems(11)
        by (intro exI [of _ 0] exI [of _ s1] exI [of _ V1] exI [of _ L1] exI [of _ i1]) simp
    next
      case False
      then obtain bp s2 s3 s4 V2 where 2: "fbread p d r s1 = Some (Inr (bp, s2))" "inodes s2 = inodes s1"
        "fwrite bp (splice (fdata bp s2) (off mod BSIZE) (map G [off..<off + ?m])) s2 = Some (Inr s3)"
        "fbrelse p bp s3 = Some (Inr s4)" "sb s4 = sb s" "inodes s4 = (inodes s)[ip := i1]"
        "ftx (d, A, cap, nop) V2 (insert r L1) H s4" and w: "written ?x A M H G off (off + ?m) 6 (V, L, ?i) (V2, insert r L1, i1)"
        using c by auto
      note src = source_next [OF less.prems(10) m]
      have i1: "ino s1 ip = i1" "ino s4 ip = i1" using 1(3) 2(6) less.prems(4) by simp_all
      have dev: "i_dev i1 = d" using w less.prems(5) by (auto simp: written_def)
      have step: "writei_loop p ip get src off tot n s = writei_loop p ip get (src + of_nat ?m) (off + ?m) (tot + ?m) n s4"
        using True False 1(1) 2(1,3,4) [unfolded fwrite_def] src(2) i1 dev by (subst writei_loop.simps) (simp add: Let_def fwrite_def del: writei_loop.simps)
      obtain N where N: "insert r L1 = L \<union> N" "finite N" "card N \<le> 6" using w by (auto simp: written_def)
      have left: "n - (tot + ?m) = n - tot - ?m" by simp
      let ?R' = "rounds (off + ?m) (n - (tot + ?m))"
      have R: "?R' + 1 \<le> ?R" unfolding left by (rule rs(1))
      have pre: "disk_ok (sb s4) A M V2 H" "file_ok (sb s4) A M V2 H (ino s4 ip)" "ip < length (inodes s4)" "i_dev (ino s4 ip) = d"
        "finite (insert r L1)"
        using w 2(5,6) i1 dev less.prems(4,6) N by (auto simp: written_def)
      have q1: "card (insert r L1 \<union> {x. H x \<noteq> None}) + 6 * ?R' < NBUF"
        unfolding N(1) by (rule room_union [OF N(2,3)]) (use less.prems(7) R in linarith)
      have q2: "card (insert r L1) + 6 * ?R' \<le> cap"
        using N less.prems(8) R card_Un_le [of L N] by simp
      note q3 = advance [OF m less.prems(11,9)]
      have q4: "source get (src + of_nat ?m) (off + ?m) (n - (tot + ?m)) G" unfolding left by (rule src(1))
      have dec: "n - (tot + ?m) < n - tot" using rs(3) True by simp
      from less.hyps [OF dec 2(7) pre q1 q2 q3(1) q4 q3(2)]
      obtain w' s' V' L' i' where 3: "writei_loop p ip get (src + of_nat ?m) (off + ?m) (tot + ?m) n s4 =
          Some (Inr (off + ?m + w', tot + ?m + w', s'))" "tot + ?m + w' \<le> n"
        "ftx (d, A, cap, nop) V' L' H s'" "sb s' = sb s4" "inodes s' = (inodes s4)[ip := i']"
        "written ?x A M H G (off + ?m) (off + ?m + w') (6 * ?R') (V2, insert r L1, i1) (V', L', i')"
        "tot + ?m + w' < n \<longrightarrow> (\<forall>b<unat (sb_size ?x). used ?x V' b)"
        unfolding i1 2(5) by blast
      have "written ?x A M H G off (off + ?m + w') (6 + 6 * ?R') (V, L, ?i) (V', L', i')" by (rule written_trans [OF w 3(6) le_add1 le_add1 q3(3) [OF 3(2)]])
      then have "written ?x A M H G off (off + ?m + w') (6 * ?R) (V, L, ?i) (V', L', i')"
        by (rule written_mono) (use R in linarith)
      then have wr: "written ?x A M H G off (off + (?m + w')) (6 * ?R) (V, L, ?i) (V', L', i')"
        unfolding add.assoc [of off ?m w'] .
      show ?thesis
        using step 3(1-5,7) wr 2(5,6)
        by (intro exI [of _ "?m + w'"] exI [of _ s'] exI [of _ V'] exI [of _ L'] exI [of _ i']) (simp add: add.assoc)
    qed
  qed
qed

end
