(* ===== verification/Fs_Inode.thy ===== *)
theory Fs_Inode
  imports Fs_Rw
begin

text \<open>
  Inodes on disk (\<open>iupdate\<close>, \<open>ilock\<close>) and files as byte lists: \<open>readi\<close> and \<open>writei\<close> of \<open>kernel/fs.c\<close> implement
  reading and overwriting a list of bytes, and leave every other file alone.
\<close>

section \<open>The on-disk form of an inode\<close>

lemma slice_splice:
  assumes "off \<le> length bs" "k + n \<le> length xs"
  shows "slice (splice bs off xs) (off + k) n = take n (drop k xs)"
proof -
  have "drop (off + k) (splice bs off xs) = drop k xs @ drop (off + length xs) bs"
    using assms by (simp add: splice_def)
  then show ?thesis using assms by (simp add: slice_def)
qed

lemma take_drop_concat:
  assumes "\<forall>x\<in>set xs. length (f x) = n" "j < length xs"
  shows "take n (drop (n * j) (concat (map f xs))) = f (xs ! j)"
  using assms
proof (induction xs arbitrary: j)
  case (Cons x xs)
  then show ?case by (cases j) simp_all
qed simp

lemma length_concat_map: "\<forall>x\<in>set xs. length (f x) = n \<Longrightarrow> length (concat (map f xs)) = n * length xs"
  by (induction xs) simp_all

lemma length_dinode_bytes: "length (i_addrs i) = Suc NDIRECT \<Longrightarrow> length (dinode_bytes i) = 64"
  by (simp add: dinode_bytes_def length_concat_map [where n = 4] NDIRECT_def)

lemma get16_le_bytes: "slice bs off 2 = le_bytes 2 (unat v) \<Longrightarrow> get16 bs off = v"
proof -
  assume a: "slice bs off 2 = le_bytes 2 (unat v)"
  have "unat v < 65536" using unat_bound [of v] by simp
  then show ?thesis using a by (simp add: get16_def le_nat_le_bytes)
qed

lemma get32_le_bytes: "slice bs (4 * k) 4 = le_bytes 4 (unat v) \<Longrightarrow> get32 bs k = v"
proof -
  assume a: "slice bs (4 * k) 4 = le_bytes 4 (unat v)"
  have "unat v < 4294967296" using unat_bound [of v] by simp
  then show ?thesis using a by (simp add: get32_def slice_def le_nat_le_bytes)
qed

lemma dinode_parts:
  assumes "length (i_addrs i) = Suc NDIRECT"
  shows "take 2 (drop 0 (dinode_bytes i)) = le_bytes 2 (unat (i_type i))" "take 2 (drop 2 (dinode_bytes i)) = le_bytes 2 (unat (i_major i))"
    "take 2 (drop 4 (dinode_bytes i)) = le_bytes 2 (unat (i_minor i))" "take 2 (drop 6 (dinode_bytes i)) = le_bytes 2 (unat (i_nlink i))"
    "take 4 (drop 8 (dinode_bytes i)) = le_bytes 4 (unat (i_size i))"
    "\<And>j. j \<le> NDIRECT \<Longrightarrow> take 4 (drop (12 + 4 * j) (dinode_bytes i)) = le_bytes 4 (unat (i_addrs i ! j))"
proof -
  show "take 4 (drop (12 + 4 * j) (dinode_bytes i)) = le_bytes 4 (unat (i_addrs i ! j))" if "j \<le> NDIRECT" for j
  proof -
    have "drop (12 + 4 * j) (dinode_bytes i) = drop (4 * j) (concat (map (\<lambda>a. le_bytes 4 (unat a)) (i_addrs i)))"
      by (simp add: dinode_bytes_def)
    then show ?thesis using take_drop_concat [of "i_addrs i" "\<lambda>a. le_bytes 4 (unat a)" 4 j] that assms by simp
  qed
qed (simp_all add: dinode_bytes_def)

text \<open>What \<open>iupdate\<close> stores is what \<open>ilock\<close> reads.\<close>

lemma dinode_roundtrip:
  assumes len: "length (i_addrs i) = Suc NDIRECT" and off: "64 * k + 64 \<le> length bs"
  shows "dinode_read (splice bs (64 * k) (dinode_bytes i)) (64 * k) j =
    j\<lparr>i_type := i_type i, i_major := i_major i, i_minor := i_minor i, i_nlink := i_nlink i, i_size := i_size i, i_addrs := i_addrs i\<rparr>"
proof -
  let ?bs = "splice bs (64 * k) (dinode_bytes i)"
  have l: "length (dinode_bytes i) = 64" by (rule length_dinode_bytes [OF len])
  have sl: "slice ?bs (64 * k + c) n = take n (drop c (dinode_bytes i))" if "c + n \<le> 64" for c n
    using slice_splice [of "64 * k" bs c n "dinode_bytes i"] off l that by simp
  note d = dinode_parts [OF len]
  have 16: "get16 ?bs (64 * k) = i_type i" "get16 ?bs (64 * k + 2) = i_major i" "get16 ?bs (64 * k + 4) = i_minor i"
    "get16 ?bs (64 * k + 6) = i_nlink i"
    using sl [of 0 2] sl [of 2 2] sl [of 4 2] sl [of 6 2] d by (auto intro: get16_le_bytes)
  have 32: "get32 ?bs (64 * k div 4 + 2) = i_size i"
    by (rule get32_le_bytes) (use sl [of 8 4] d in \<open>simp add: algebra_simps\<close>)
  have a: "get32 ?bs (64 * k div 4 + 3 + j) = i_addrs i ! j" if "j \<le> NDIRECT" for j
  proof (rule get32_le_bytes)
    have e: "4 * (64 * k div 4 + 3 + j) = 64 * k + (12 + 4 * j)" by simp
    have "12 + 4 * j + 4 \<le> 64" using that by (simp add: NDIRECT_def)
    then show "slice ?bs (4 * (64 * k div 4 + 3 + j)) 4 = le_bytes 4 (unat (i_addrs i ! j))"
      unfolding e using sl [of "12 + 4 * j" 4] d(6) [OF that] by simp
  qed
  have "map (\<lambda>j. get32 ?bs (64 * k div 4 + 3 + j)) [0..<NDIRECT + 1] = i_addrs i"
    by (rule nth_equalityI) (use len a in \<open>simp_all del: upt_Suc\<close>)
  then show ?thesis using 16 32 by (simp add: dinode_read_def)
qed

section \<open>Changing a metadata block\<close>

lemma meta_update:
  assumes dok: "disk_ok x A M V H" and a: "a \<in> M" "\<forall>b<unat (sb_size x). map_block x b \<noteq> a" and len: "length bs = BSIZE"
  defines "W \<equiv> V(a := bs)"
  shows "disk_ok x A M W H" "\<And>q. data_block x A M W H q = data_block x A M V H q" "\<And>q. data_block x A M V H q \<Longrightarrow> W q = V q"
    "\<And>b. b < unat (sb_size x) \<Longrightarrow> used x W b = used x V b"
proof -
  show used': "used x W b = used x V b" if "b < unat (sb_size x)" for b using a(2) that by (simp add: used_def W_def)
  show same: "W q = V q" if "data_block x A M V H q" for q using that a(1) by (auto simp: data_block_def W_def)
  show "data_block x A M W H q = data_block x A M V H q" for q
    using used' len a(1) by (auto simp: data_block_def W_def)
  show "disk_ok x A M W H" using dok a used' len unfolding disk_ok_def bitmap_ok_def by (auto simp: W_def)
qed

lemma file_same:
  assumes fok: "file_ok x A M V H i" and same: "\<And>q. data_block x A M V H q \<Longrightarrow> W q = V q"
    and data: "\<And>q. data_block x A M V H q \<Longrightarrow> data_block x A M W H q"
  shows "file_ok x A M W H i" "\<And>k. k \<le> MAXFILE \<Longrightarrow> blk W i k = blk V i k" "\<And>y. y < MAXFILE * BSIZE \<Longrightarrow> cont W i y = cont V i y"
proof -
  show b: "blk W i k = blk V i k" if "k \<le> MAXFILE" for k by (rule blk_same [OF fok same that])
  show "file_ok x A M W H i" using fok b data unfolding file_ok_def by auto
  show "cont W i y = cont V i y" if "y < MAXFILE * BSIZE" for y
  proof -
    have "y div BSIZE < MAXFILE" by (rule room_lt [OF that])
    then have k: "y div BSIZE \<le> MAXFILE" by simp
    have "W (blk V i (y div BSIZE)) = V (blk V i (y div BSIZE))" if "blk V i (y div BSIZE) \<noteq> 0"
      using that fok k same by (auto simp: file_ok_def)
    then show ?thesis using b [OF k] by (simp add: cont_def)
  qed
qed

section \<open>Files as byte lists\<close>

text \<open>
  The state of a file that a locked inode describes: its blocks, one for every byte below the size, and the block that the
  inode itself is in.
\<close>

definition file_inv :: "superblock \<Rightarrow> uint set \<Rightarrow> uint set \<Rightarrow> (uint \<Rightarrow> block) \<Rightarrow> (uint \<Rightarrow> int option) \<Rightarrow> uint \<Rightarrow> inode \<Rightarrow> bool" where
  "file_inv x A M V H d i \<longleftrightarrow> disk_ok x A M V H \<and> file_ok x A M V H i \<and> i_dev i = d \<and> unat (i_size i) \<le> MAXFILE * BSIZE \<and>
     (\<forall>y<unat (i_size i). blk V i (y div BSIZE) \<noteq> 0) \<and>
     IBLOCK (i_inum i) x \<in> M \<and> (\<forall>b<unat (sb_size x). map_block x b \<noteq> IBLOCK (i_inum i) x)"

definition contents :: "(uint \<Rightarrow> block) \<Rightarrow> inode \<Rightarrow> uchar list" where
  "contents V i = map (cont V i) [0..<unat (i_size i)]"

definition on_disk :: "superblock \<Rightarrow> (uint \<Rightarrow> block) \<Rightarrow> inode \<Rightarrow> bool" where
  "on_disk x V i \<longleftrightarrow> dinode_read (V (IBLOCK (i_inum i) x)) (dinode_at (i_inum i)) i = i"

lemma length_contents [simp]: "length (contents V i) = unat (i_size i)" by (simp add: contents_def)

lemma inode_size_simps [simp]:
  "blk V (i\<lparr>i_size := z\<rparr>) k = blk V i k" "cont V (i\<lparr>i_size := z\<rparr>) y = cont V i y"
  "file_ok x A M V H (i\<lparr>i_size := z\<rparr>) = file_ok x A M V H i"
  by (simp_all add: blk_def cont_def file_ok_def)

lemma add_overflow: "(a :: uint) + b < a \<longleftrightarrow> 2 ^ 32 \<le> unat a + unat b"
  using unat_bound [of a] unat_bound [of b]
  by (simp add: word_less_nat_alt unat_plus_if' ; linarith)

lemma unat_add: "unat (a :: uint) + unat b < 2 ^ 32 \<Longrightarrow> unat (a + b) = unat a + unat b"
  by (simp add: unat_plus_if')

lemma readi_ok:
  assumes t: "ftx (d, A, cap, nop) V L H s" and inv: "file_inv (sb s) A M V H d (ino s ip)" and room: "card (L \<union> {x. H x \<noteq> None}) < NBUF"
    and bs_def: "bs = (if unat (i_size (ino s ip)) < unat off \<or> 2 ^ 32 \<le> unat off + unat n then [] else take (unat n) (drop (unat off) (contents V (ino s ip))))"
  shows "\<exists>s'. readi p ip (\<lambda>_ _. True) dst off n s = Some (Inr (int (length bs), bs, s')) \<and> ftx (d, A, cap, nop) V L H s' \<and> keeps d H s s'"
proof (cases "unat (i_size (ino s ip)) < unat off \<or> 2 ^ 32 \<le> unat off + unat n")
  case True
  then have "i_size (ino s ip) < off \<or> off + n < off" using add_overflow [of off n] by (auto simp: word_less_nat_alt)
  then show ?thesis using True t by (auto simp: readi_def bs_def)
next
  case False
  let ?i = "ino s ip" and ?off = "unat off"
  let ?n = "if off + n > i_size ?i then i_size ?i - off else n"
  have le: "?off \<le> unat (i_size ?i)" and ov: "?off + unat n < 2 ^ 32" using False by auto
  have n: "unat ?n = min (unat n) (unat (i_size ?i) - ?off)"
    using le unat_add [OF ov] by (auto simp: word_less_nat_alt unat_sub word_le_nat_alt)
  have b: "0 \<le> unat ?n" "?off + (unat ?n - 0) \<le> unat (i_size ?i)" using n le by auto
  have i: "file_ok (sb s) A M V H ?i" "i_dev ?i = d" "\<forall>y<unat (i_size ?i). blk V ?i (y div BSIZE) \<noteq> 0" "unat (i_size ?i) \<le> MAXFILE * BSIZE"
    using inv by (auto simp: file_inv_def)
  obtain s' where s': "readi_loop p ip (\<lambda>_ _. True) dst ?off 0 (unat ?n) [] s = Some (Inr (int (unat ?n), map (cont V ?i) [?off..<?off + unat ?n], s'))"
    "ftx (d, A, cap, nop) V L H s'" "keeps d H s s'"
    using readi_loop_ok [OF t i(1) refl i(2) room i(3,4) b, of p dst "[]"] by auto
  have bs: "bs = map (cont V ?i) [?off..<?off + unat ?n]"
    by (rule nth_equalityI) (use False le n in \<open>auto simp: bs_def contents_def\<close>)
  have "\<not> (off > i_size ?i \<or> off + n < off)" using False add_overflow [of off n] by (auto simp: word_less_nat_alt)
  then have "readi p ip (\<lambda>_ _. True) dst off n s = Some (Inr (int (unat ?n), bs, s'))" using s'(1) bs by (simp add: readi_def Let_def)
  moreover have "length bs = unat ?n" by (simp add: bs)
  ultimately show ?thesis using s'(2,3) by auto
qed

text \<open>\<open>iupdate\<close>.\<close>

lemma iupdate_ok:
  assumes t: "ftx (d, A, cap, nop) V L H s" and inv: "file_inv (sb s) A M V H d (ino s ip)"
    and room: "card (L \<union> {x. H x \<noteq> None}) < NBUF" "card L < cap"
  defines "i \<equiv> ino s ip" and "a \<equiv> IBLOCK (i_inum (ino s ip)) (sb s)"
  shows "\<exists>s' bs. iupdate p ip s = Some (Inr s') \<and> length bs = BSIZE \<and> ftx (d, A, cap, nop) (V(a := bs)) (insert a L) H s' \<and> keeps d H s s' \<and>
    on_disk (sb s) (V(a := bs)) i \<and> file_inv (sb s) A M (V(a := bs)) H d i \<and>
    (\<forall>y<MAXFILE * BSIZE. cont (V(a := bs)) i y = cont V i y) \<and> (\<forall>m\<le>MAXFILE. blk (V(a := bs)) i m = blk V i m) \<and>
    (\<forall>q. data_block (sb s) A M V H q \<longrightarrow> (V(a := bs)) q = V q \<and> data_block (sb s) A M (V(a := bs)) H q) \<and>
    (\<forall>b<unat (sb_size (sb s)). used (sb s) (V(a := bs)) b = used (sb s) V b)"
proof -
  let ?x = "sb s" and ?o = "dinode_at (i_inum i)"
  have m: "a \<in> M" "\<forall>b<unat (sb_size ?x). map_block ?x b \<noteq> a" and dok: "disk_ok ?x A M V H" and fok: "file_ok ?x A M V H i" and dev: "i_dev i = d"
    using inv by (auto simp: file_inv_def i_def a_def)
  have a: "H a = None" "a \<notin> A" "length (V a) = BSIZE" using dok m(1) by (auto simp: disk_ok_def)
  have len: "length (i_addrs i) = Suc NDIRECT" using fok by (simp add: file_ok_def)
  let ?bs = "splice (V a) ?o (dinode_bytes i)"
  have o: "?o + 64 \<le> BSIZE"
    using mod_less_divisor [of IPB "unat (i_inum i)"] by (simp add: dinode_at_def IPB_def BSIZE_def)
  have lb: "length ?bs = BSIZE" using o a(3) length_dinode_bytes [OF len] by (simp add: length_splice)
  obtain b s1 s2 s3 where w: "fbread p d a s = Some (Inr (b, s1))" "fdata b s1 = V a" "keeps d H s s1" "fwrite b ?bs s1 = Some (Inr s2)"
    "fbrelse p b s2 = Some (Inr s3)" "ftx (d, A, cap, nop) (V(a := ?bs)) (insert a L) H s3" "keeps d H s s3"
    using modify_block [OF t a(1) room a(2), of p ?bs] by blast
  have run: "iupdate p ip s = Some (Inr s3)"
    using w(1,2,4,5) keepsD [OF w(3)] dev by (simp add: iupdate_def i_def a_def)
  have disk: "on_disk ?x (V(a := ?bs)) i"
    using dinode_roundtrip [OF len, of "unat (i_inum i) mod IPB" "V a" i] o a(3)
    by (simp add: on_disk_def a_def i_def dinode_at_def)
  note u = meta_update [OF dok m lb]
  have same: "(V(a := ?bs)) q = V q" "data_block ?x A M (V(a := ?bs)) H q" if "data_block ?x A M V H q" for q
    using u(2,3) that by blast+
  note f = file_same [OF fok same]
  have "blk (V(a := ?bs)) i (y div BSIZE) \<noteq> 0" if y: "y < unat (i_size i)" for y
  proof -
    have "y div BSIZE < MAXFILE" using y inv by (intro room_lt) (auto simp: file_inv_def i_def)
    then show ?thesis using f(2) [of "y div BSIZE"] inv y by (auto simp: file_inv_def i_def)
  qed
  then have "file_inv ?x A M (V(a := ?bs)) H d i" using inv u(1) f(1) by (auto simp: file_inv_def i_def)
  then show ?thesis using run lb w(6,7) disk f(2,3) same u(4) by blast
qed


text \<open>
  What a write does to the disk beyond the file itself: the blocks of all other files stay, and at most \<open>n\<close> blocks
  are logged.
\<close>

definition others_kept :: "superblock \<Rightarrow> uint set \<Rightarrow> uint set \<Rightarrow> (uint \<Rightarrow> int option) \<Rightarrow> nat \<Rightarrow>
    (uint \<Rightarrow> block) \<times> uint set \<times> inode \<Rightarrow> (uint \<Rightarrow> block) \<times> uint set \<times> inode \<Rightarrow> bool" where
  "others_kept x A M H n = (\<lambda>(V, L, i) (V', L', i').
     (\<forall>a. data_block x A M V H a \<longrightarrow> (\<forall>m\<le>MAXFILE. blk V i m \<noteq> a) \<longrightarrow>
        V' a = V a \<and> data_block x A M V' H a \<and> (\<forall>m\<le>MAXFILE. blk V' i' m \<noteq> a)) \<and>
     (\<exists>N. L' = L \<union> N \<and> finite N \<and> card N \<le> n))"

definition apart_files :: "(uint \<Rightarrow> block) \<Rightarrow> inode \<Rightarrow> inode \<Rightarrow> bool" where
  "apart_files V i j \<longleftrightarrow> (\<forall>k\<le>MAXFILE. \<forall>m\<le>MAXFILE. blk V j k \<noteq> 0 \<longrightarrow> blk V i m \<noteq> blk V j k)"

lemma others_kept_file:
  assumes k: "others_kept x A M H n (V, L, i) (V', L', i')" and j: "file_inv x A M V H d j" "apart_files V i j" and dok: "disk_ok x A M V' H"
  shows "file_inv x A M V' H d j" "apart_files V' i' j" "contents V' j = contents V j"
proof -
  have fok: "file_ok x A M V H j" using j(1) by (simp add: file_inv_def)
  have b: "V' (blk V j m) = V (blk V j m)" "data_block x A M V' H (blk V j m)" "\<forall>l\<le>MAXFILE. blk V' i' l \<noteq> blk V j m"
    if "m \<le> MAXFILE" "blk V j m \<noteq> 0" for m
    using k fok that j(2) unfolding others_kept_def file_ok_def apart_files_def prod.case by blast+
  have ind: "blk V j MAXFILE = i_addrs j ! NDIRECT" by (simp add: blk_def NINDIRECT_256)
  have same: "blk V' j m = blk V j m" for m using b(1) [of MAXFILE] ind by (simp add: blk_def)
  have fok': "file_ok x A M V' H j" using fok b(2) unfolding file_ok_def same by blast
  show "apart_files V' i' j" using b(3) unfolding apart_files_def same by metis
  have c: "cont V' j y = cont V j y" if "y < unat (i_size j)" for y
  proof -
    have "y div BSIZE < MAXFILE" using that j(1) by (intro room_lt) (auto simp: file_inv_def)
    then show ?thesis using b(1) [of "y div BSIZE"] by (auto simp: cont_def same)
  qed
  then show "contents V' j = contents V j" by (simp add: contents_def)
  show "file_inv x A M V' H d j" using j(1) dok fok' same unfolding file_inv_def by auto
qed

text \<open>The list of bytes after the loop of \<open>writei\<close> and the change of the size.\<close>

lemma contents_written:
  assumes w: "written x A M H G off (off + w) n (V, L, i) (V', L', i')" and off: "off \<le> unat (i_size i)" "off + w \<le> MAXFILE * BSIZE"
    and G: "\<And>y. y < w \<Longrightarrow> G (off + y) = bs ! y" "w \<le> length bs" and sz: "unat (i_size i) \<le> MAXFILE * BSIZE"
    and z: "unat z = max (unat (i_size i)) (off + w)"
  shows "contents V' (i'\<lparr>i_size := z\<rparr>) = splice (contents V i) off (take w bs)"
proof (rule nth_equalityI)
  let ?c = "splice (contents V i) off (take w bs)"
  have l: "length ?c = unat z" using off(1) G(2) z by (auto simp: splice_def)
  then show "length (contents V' (i'\<lparr>i_size := z\<rparr>)) = length ?c" by simp
  fix y assume "y < length (contents V' (i'\<lparr>i_size := z\<rparr>))"
  then have y: "y < unat z" by simp
  then have yb: "y < MAXFILE * BSIZE" using z off(2) sz by simp
  have "contents V' (i'\<lparr>i_size := z\<rparr>) ! y = cont V' i' y" using y by (simp add: contents_def)
  also have "\<dots> = (if off \<le> y \<and> y < off + w then G y else cont V i y)" using w yb by (auto simp: written_def)
  also have "\<dots> = ?c ! y"
    using G(1) [of "y - off"] off(1) G(2) y z by (auto simp: splice_def nth_append contents_def)
  finally show "contents V' (i'\<lparr>i_size := z\<rparr>) ! y = ?c ! y" .
qed


text \<open>The bytes \<open>bs\<close> are at \<open>src\<close> and can all be copied.\<close>

definition feeds :: "(uint64 \<Rightarrow> nat \<Rightarrow> uchar list \<times> bool) \<Rightarrow> uint64 \<Rightarrow> uchar list \<Rightarrow> bool" where
  "feeds get src bs \<longleftrightarrow> (\<forall>t m. t + m \<le> length bs \<longrightarrow> get (src + of_nat t) m = (take m (drop t bs), True))"

lemma feeds_source:
  assumes "feeds get src bs"
  shows "source get src off (length bs) (\<lambda>y. bs ! (y - off))"
  unfolding source_def
proof (intro allI impI)
  fix t m assume tm: "t + m \<le> length bs"
  have "take m (drop t bs) = map (\<lambda>y. bs ! (y - off)) [off + t..<off + t + m]"
    by (rule nth_equalityI) (use tm in auto)
  then show "get (src + of_nat t) m = (map (\<lambda>y. bs ! (y - off)) [off + t..<off + t + m], True)"
    using assms tm by (auto simp: feeds_def)
qed

lemma room_logged:
  fixes L N Y :: "uint set"
  assumes "L' = L \<union> N" "finite N" "card N \<le> n" "card (L \<union> Y) + n < c" "card L + n < c'"
  shows "card (L' \<union> Y) < c" "card L' < c'"
  using room_union [OF assms(2,3), of L Y 0 c] card_Un_le [of L N] assms by auto

text \<open>The invariant after the loop and the change of the size, and the effect of the final \<open>iupdate\<close> on other files.\<close>

lemma written_inv:
  assumes inv: "file_inv x A M V H d i" and w: "written x A M H G off (off + w) n (V, L, i) (V', L', i')"
    and off: "off \<le> unat (i_size i)" "off + w \<le> MAXFILE * BSIZE" and z: "unat z = max (unat (i_size i)) (off + w)"
  shows "file_inv x A M V' H d (i'\<lparr>i_size := z\<rparr>)"
proof -
  obtain as where as: "i' = i\<lparr>i_addrs := as\<rparr>" using w by (auto simp: written_def)
  have sz: "unat (i_size i) \<le> MAXFILE * BSIZE" and mp: "\<forall>y<unat (i_size i). blk V i (y div BSIZE) \<noteq> 0"
    using inv by (auto simp: file_inv_def)
  have "blk V' i' (y div BSIZE) \<noteq> 0" if y: "y < unat z" for y
  proof (cases "y < unat (i_size i)")
    case True
    have "y div BSIZE < MAXFILE" using True sz by (intro room_lt) linarith
    then show ?thesis using w mp True by (auto simp: written_def)
  next
    case False
    then have "off \<le> y" "y < off + w" using y z off by auto
    then show ?thesis using w by (auto simp: written_def)
  qed
  then show ?thesis using inv w z off(2) as by (auto simp: file_inv_def written_def)
qed

lemma written_others:
  assumes w: "written x A M H G off off' n (V, L, i) (V1, L1, i1)" and b: "\<forall>m\<le>MAXFILE. blk V' i' m = blk V1 i1 m"
    and q: "\<forall>q. data_block x A M V1 H q \<longrightarrow> V' q = V1 q \<and> data_block x A M V' H q"
  shows "others_kept x A M H (n + 1) (V, L, i) (V', insert a L1, i')"
  unfolding others_kept_def prod.case
proof (intro conjI allI impI)
  obtain N where N: "L1 = L \<union> N" "finite N" "card N \<le> n" using w by (auto simp: written_def)
  have "card (insert a N) \<le> n + 1" using N(2,3) card_insert_le_Suc [of a N] by simp
  then show "\<exists>N. insert a L1 = L \<union> N \<and> finite N \<and> card N \<le> n + 1"
    using N by (intro exI [of _ "insert a N"]) auto
  fix c assume "data_block x A M V H c" "\<forall>m\<le>MAXFILE. blk V i m \<noteq> c"
  then have 1: "V1 c = V c" "data_block x A M V1 H c" "\<forall>m\<le>MAXFILE. blk V1 i1 m \<noteq> c" using w by (auto simp: written_def)
  then show "V' c = V c" "data_block x A M V' H c" using q by auto
  show "blk V' i' m \<noteq> c" if "m \<le> MAXFILE" for m using b 1(3) that by simp
qed

lemma writei_guards:
  assumes "unat off \<le> unat (i_size i)" "unat off + k \<le> MAXFILE * BSIZE"
  shows "\<not> (off > i_size i \<or> off + of_nat k < off)" "\<not> off + of_nat k > of_nat (MAXFILE * BSIZE)" "unat (of_nat k :: uint) = k"
proof -
  have lim: "MAXFILE * BSIZE < 2 ^ 32" by (simp add: NINDIRECT_256 BSIZE_def)
  show n: "unat (of_nat k :: uint) = k" using assms(2) lim by (intro unat_of_nat_less) simp
  then have ov: "unat off + unat (of_nat k :: uint) < 2 ^ 32" using assms(2) lim by linarith
  show "\<not> (off > i_size i \<or> off + of_nat k < off)" "\<not> off + of_nat k > of_nat (MAXFILE * BSIZE)"
    using assms lim ov n add_overflow [of off "of_nat k"] unat_add [OF ov]
    by (auto simp: word_less_nat_alt unat_of_nat simp del: of_nat_mult)
qed

lemma writei_ok:
  assumes t: "ftx (d, A, cap, nop) V L H s" and inv: "file_inv (sb s) A M V H d (ino s ip)" and ip: "ip < length (inodes s)" and fin: "finite L"
    and room: "card (L \<union> {x. H x \<noteq> None}) + 6 * rounds (unat off) (length bs) + 1 < NBUF" "card L + 6 * rounds (unat off) (length bs) + 1 \<le> cap"
    and off: "unat off \<le> unat (i_size (ino s ip))" "unat off + length bs \<le> MAXFILE * BSIZE" and get: "feeds get src bs"
  shows "\<exists>w s' V' L' i'. writei p ip get src off (of_nat (length bs)) s = Some (Inr (int w, s')) \<and> w \<le> length bs \<and>
    ftx (d, A, cap, nop) V' L' H s' \<and> sb s' = sb s \<and> inodes s' = (inodes s)[ip := i'] \<and> (\<exists>as z. i' = (ino s ip)\<lparr>i_addrs := as, i_size := z\<rparr>) \<and>
    file_inv (sb s) A M V' H d i' \<and> on_disk (sb s) V' i' \<and>
    contents V' i' = splice (contents V (ino s ip)) (unat off) (take w bs) \<and>
    others_kept (sb s) A M H (6 * rounds (unat off) (length bs) + 1) (V, L, ino s ip) (V', L', i') \<and>
    (w < length bs \<longrightarrow> (\<forall>b<unat (sb_size (sb s)). used (sb s) V' b))"
proof -
  let ?x = "sb s" and ?i = "ino s ip" and ?o = "unat off" and ?R = "rounds (unat off) (length bs)" and ?G = "\<lambda>y. bs ! (y - unat off)"
  have f: "disk_ok ?x A M V H" "file_ok ?x A M V H ?i" "i_dev ?i = d" and sz: "unat (i_size ?i) \<le> MAXFILE * BSIZE"
    using inv by (auto simp: file_inv_def)
  note guard = writei_guards [OF off]
  have r: "card (L \<union> {x. H x \<noteq> None}) + 6 * rounds ?o (length bs - 0) < NBUF" "card L + 6 * rounds ?o (length bs - 0) \<le> cap"
    "?o + (length bs - 0) \<le> MAXFILE * BSIZE" "0 \<le> length bs" using room off by simp_all
  have src: "source get src ?o (length bs - 0) ?G" using feeds_source [OF get] by simp
  obtain w s1 V1 L1 i1 where l: "writei_loop p ip get src ?o 0 (length bs) s = Some (Inr (?o + w, w, s1))" "w \<le> length bs"
    "ftx (d, A, cap, nop) V1 L1 H s1" "sb s1 = sb s" "inodes s1 = (inodes s)[ip := i1]"
    and wr: "written ?x A M H ?G ?o (?o + w) (6 * ?R) (V, L, ?i) (V1, L1, i1)" and full: "w < length bs \<longrightarrow> (\<forall>b<unat (sb_size ?x). used ?x V1 b)"
    using writei_loop_ok [OF t f(1,2) ip f(3) fin r(1,2,3) src r(4), of p] by auto
  obtain as where as: "i1 = ?i\<lparr>i_addrs := as\<rparr>" using wr by (auto simp: written_def)
  let ?z = "if unat (i_size ?i) < ?o + w then of_nat (?o + w) else i_size ?i"
  let ?i2 = "i1\<lparr>i_size := ?z\<rparr>"
  have w: "?o + w \<le> MAXFILE * BSIZE" using l(2) off(2) by simp
  then have z: "unat ?z = max (unat (i_size ?i)) (?o + w)" by (simp add: unat_of_nat_less NINDIRECT_256 BSIZE_def del: of_nat_add)
  let ?s2 = "if ?o + w > unat (i_size (ino s1 ip)) then upd_inode ip (\<lambda>i. i\<lparr>i_size := of_nat (?o + w)\<rparr>) s1 else s1"
  have s2: "sb ?s2 = sb s" "inodes ?s2 = (inodes s)[ip := ?i2]" "ftx (d, A, cap, nop) V1 L1 H ?s2" "ino ?s2 ip = ?i2"
    using l(3-5) ip as by (auto simp: upd_inode_def ftx_def)
  obtain N where N: "L1 = L \<union> N" "finite N" "card N \<le> 6 * ?R" using wr by (auto simp: written_def)
  have c2: "card L + 6 * ?R < cap" "card (L \<union> {x. H x \<noteq> None}) + 6 * ?R < NBUF" using room by simp_all
  note r2 = room_logged [OF N c2(2,1)]
  let ?a = "IBLOCK (i_inum ?i2) ?x"
  have inv2: "file_inv (sb ?s2) A M V1 H d (ino ?s2 ip)" unfolding s2(1,4) by (rule written_inv [OF inv wr off(1) w z])
  obtain s' bl where u: "iupdate p ip ?s2 = Some (Inr s')" "ftx (d, A, cap, nop) (V1(?a := bl)) (insert ?a L1) H s'" "keeps d H ?s2 s'"
    "on_disk ?x (V1(?a := bl)) ?i2" "file_inv ?x A M (V1(?a := bl)) H d ?i2"
    "\<forall>y<MAXFILE * BSIZE. cont (V1(?a := bl)) ?i2 y = cont V1 ?i2 y" "\<forall>m\<le>MAXFILE. blk (V1(?a := bl)) ?i2 m = blk V1 i1 m"
    "\<forall>q. data_block ?x A M V1 H q \<longrightarrow> (V1(?a := bl)) q = V1 q \<and> data_block ?x A M (V1(?a := bl)) H q"
    "\<forall>b<unat (sb_size ?x). used ?x (V1(?a := bl)) b = used ?x V1 b"
    using iupdate_ok [OF s2(3) inv2 r2, of p] unfolding s2(1,4) inode_size_simps by blast
  have run: "writei p ip get src off (of_nat (length bs)) s = Some (Inr (int w, s'))"
    unfolding writei_def if_not_P [OF guard(1)] if_not_P [OF guard(2)] guard(3) l(1) using u(1) by (simp add: Let_def)
  have "contents (V1(?a := bl)) ?i2 = contents V1 ?i2" using u(6) z w sz by (auto simp: contents_def)
  then have cont: "contents (V1(?a := bl)) ?i2 = splice (contents V ?i) ?o (take w bs)"
    using contents_written [OF wr off(1) w _ l(2) sz z] by simp
  note oth = written_others [OF wr u(7,8), of ?a]
  have "(\<exists>as z. ?i2 = ?i\<lparr>i_addrs := as, i_size := z\<rparr>)" unfolding as by blast
  then show ?thesis using run l(2) u(2,4,5,9) keepsD [OF u(3)] s2(1,2) cont oth full by metis
qed

end
