(* ===== verification/Fs_Io.thy ===== *)
theory Fs_Io
  imports Fs_Inode
begin

text \<open>
  The properties of the block allocator and of reading and writing files (\<open>balloc\<close>, \<open>readi\<close>, \<open>writei\<close> of
  \<open>kernel/fs.c\<close>), with a disk as \<open>mkfs\<close> lays it out as the example.
\<close>

section \<open>Reading, writing and allocating\<close>

text \<open>
  Property C3 (\<open>writei\<close> overwrites a part of a byte list). Inside a transaction with room, let \<open>ip\<close> be the locked inode
  of a well-formed file, \<open>off\<close> at most its size and the write within the largest file size.
  \<open>writei\<close> returns the number \<open>w\<close> of bytes written, which is smaller than asked only when every block of the disk is
  in use. Afterwards the contents of the file are the old ones with the first \<open>w\<close> bytes of the source put at
  \<open>off\<close>, grown if needed; the inode on disk is the one in memory; the file is well formed; and every other file
  that had no block in common with it keeps its contents and still has none.
\<close>

theorem writei_overwrites:
  assumes "ftx (d, A, cap, nop) V L H s" "file_inv (sb s) A M V H d (ino s ip)" "ip < length (inodes s)" "finite L"
    and "card (L \<union> {x. H x \<noteq> None}) + 6 * rounds (unat off) (length bs) + 1 < NBUF" "card L + 6 * rounds (unat off) (length bs) + 1 \<le> cap"
    and "unat off \<le> unat (i_size (ino s ip))" "unat off + length bs \<le> MAXFILE * BSIZE" "feeds get src bs"
  shows "\<exists>w s' V' L'. writei p ip get src off (of_nat (length bs)) s = Some (Inr (int w, s')) \<and> w \<le> length bs \<and>
    (w < length bs \<longrightarrow> (\<forall>b<unat (sb_size (sb s)). used (sb s) V' b)) \<and>
    ftx (d, A, cap, nop) V' L' H s' \<and> sb s' = sb s \<and> (\<forall>q. q \<noteq> ip \<longrightarrow> ino s' q = ino s q) \<and>
    file_inv (sb s) A M V' H d (ino s' ip) \<and> on_disk (sb s) V' (ino s' ip) \<and>
    contents V' (ino s' ip) = splice (contents V (ino s ip)) (unat off) (take w bs) \<and>
    (\<forall>j. file_inv (sb s) A M V H d j \<longrightarrow> apart_files V (ino s ip) j \<longrightarrow>
       file_inv (sb s) A M V' H d j \<and> apart_files V' (ino s' ip) j \<and> contents V' j = contents V j)"
proof -
  obtain w s' V' L' i' where w: "writei p ip get src off (of_nat (length bs)) s = Some (Inr (int w, s'))" "w \<le> length bs"
    "ftx (d, A, cap, nop) V' L' H s'" "sb s' = sb s" "inodes s' = (inodes s)[ip := i']" "file_inv (sb s) A M V' H d i'" "on_disk (sb s) V' i'"
    "contents V' i' = splice (contents V (ino s ip)) (unat off) (take w bs)"
    and o: "others_kept (sb s) A M H (6 * rounds (unat off) (length bs) + 1) (V, L, ino s ip) (V', L', i')"
    and f: "w < length bs \<longrightarrow> (\<forall>b<unat (sb_size (sb s)). used (sb s) V' b)"
    using writei_ok [OF assms, of p] by blast
  have i: "ino s' ip = i'" "\<forall>q. q \<noteq> ip \<longrightarrow> ino s' q = ino s q" using w(5) assms(3) by simp_all
  have dok: "disk_ok (sb s) A M V' H" using w(6) by (simp add: file_inv_def)
  show ?thesis using w f i others_kept_file [OF o _ _ dok] by metis
qed

text \<open>
  Property C25 (what was written is read back). After such a write of the bytes \<open>bs\<close>, \<open>readi\<close> of the same inode with any
  offset and count returns exactly the bytes of the overwritten contents that lie in the range, and none when the
  offset is behind the end or the range wraps around; it changes neither the contents nor the file.
\<close>

theorem writei_readi:
  assumes "ftx (d, A, cap, nop) V L H s" "file_inv (sb s) A M V H d (ino s ip)" "ip < length (inodes s)" "finite L"
    and "card (L \<union> {x. H x \<noteq> None}) + 6 * rounds (unat off) (length bs) + 1 < NBUF" "card L + 6 * rounds (unat off) (length bs) + 1 \<le> cap"
    and "unat off \<le> unat (i_size (ino s ip))" "unat off + length bs \<le> MAXFILE * BSIZE" "feeds get src bs"
  shows "\<exists>w s'. writei p ip get src off (of_nat (length bs)) s = Some (Inr (int w, s')) \<and>
    (\<forall>off' n dst. let all = splice (contents V (ino s ip)) (unat off) (take w bs);
       out = (if length all < unat off' \<or> 2 ^ 32 \<le> unat off' + unat n then [] else take (unat n) (drop (unat off') all))
     in \<exists>s''. readi p ip (\<lambda>_ _. True) dst off' n s' = Some (Inr (int (length out), out, s'')) \<and> inodes s'' = inodes s')"
proof -
  let ?n = "6 * rounds (unat off) (length bs) + 1"
  obtain w s' V' L' i' where w: "writei p ip get src off (of_nat (length bs)) s = Some (Inr (int w, s'))"
    "ftx (d, A, cap, nop) V' L' H s'" "sb s' = sb s" "inodes s' = (inodes s)[ip := i']" "file_inv (sb s) A M V' H d i'"
    "contents V' i' = splice (contents V (ino s ip)) (unat off) (take w bs)"
    and o: "others_kept (sb s) A M H ?n (V, L, ino s ip) (V', L', i')"
    using writei_ok [OF assms, of p] by blast
  obtain N where N: "L' = L \<union> N" "finite N" "card N \<le> ?n" using o by (auto simp: others_kept_def)
  have room: "card (L' \<union> {x. H x \<noteq> None}) < NBUF"
    using room_union [OF N(2,3), of L "{x. H x \<noteq> None}" 0 NBUF] assms(5) N(1) by simp
  have i: "ino s' ip = i'" using w(4) assms(3) by simp
  then have inv: "file_inv (sb s') A M V' H d (ino s' ip)" using w(3,5) by simp
  have sz: "unat (i_size i') = length (splice (contents V (ino s ip)) (unat off) (take w bs))" unfolding w(6) [symmetric] by simp
  note readi_ok [OF w(2) inv room refl, where p = p, unfolded i w(6) sz]
  then have "\<forall>off' n dst. let all = splice (contents V (ino s ip)) (unat off) (take w bs);
       out = (if length all < unat off' \<or> 2 ^ 32 \<le> unat off' + unat n then [] else take (unat n) (drop (unat off') all))
     in \<exists>s''. readi p ip (\<lambda>_ _. True) dst off' n s' = Some (Inr (int (length out), out, s'')) \<and> inodes s'' = inodes s'"
    unfolding Let_def using keepsD(2) by blast
  then show ?thesis using w(1) by blast
qed

text \<open>
  Also proved (\<open>balloc\<close> takes the lowest free block). On a well-formed disk \<open>balloc\<close> returns 0, changing nothing, only when
  every block is in use. Otherwise it returns the lowest block that is free, marks that one and no other as used, and
  fills it with zeroes; no block but it and its bitmap block changes.
\<close>

theorem balloc_lowest_free:
  assumes "ftx (d, A, cap, nop) V L H s" "disk_ok (sb s) A M V H" "finite L" "card (L \<union> {x. H x \<noteq> None}) + 1 < NBUF" "card L + 1 < cap"
  shows "\<exists>r s' V' L'. balloc p d s = Some (Inr (r, s')) \<and> ftx (d, A, cap, nop) V' L' H s' \<and> disk_ok (sb s) A M V' H \<and> keeps d H s s' \<and>
    (if r = 0 then V' = V \<and> (\<forall>b<unat (sb_size (sb s)). used (sb s) V b)
     else unat r < unat (sb_size (sb s)) \<and> \<not> used (sb s) V (unat r) \<and> (\<forall>c<unat r. used (sb s) V c) \<and>
       (\<forall>c<unat (sb_size (sb s)). used (sb s) V' c \<longleftrightarrow> used (sb s) V c \<or> c = unat r) \<and>
       V' r = replicate BSIZE 0 \<and> (\<forall>a. a \<noteq> r \<longrightarrow> a \<noteq> map_block (sb s) (unat r) \<longrightarrow> V' a = V a))"
proof -
  have "bitmap_ok (sb s) A V H" using assms(2) by (simp add: disk_ok_def)
  from balloc_ok [OF assms(1) this assms(3-5), of p] obtain r s' where r: "balloc p d s = Some (Inr (r, s'))" "keeps d H s s'"
    and c: "r = 0 \<and> (\<forall>b<unat (sb_size (sb s)). used (sb s) V b) \<and> ftx (d, A, cap, nop) V L H s' \<or>
     (\<exists>b<unat (sb_size (sb s)). r = of_nat b \<and> \<not> used (sb s) V b \<and> (\<forall>c<b. used (sb s) V c) \<and>
       ftx (d, A, cap, nop) (alloc_view (sb s) V b) (insert (of_nat b) (insert (map_block (sb s) b) L)) H s')" by blast
  from c show ?thesis
  proof (elim disjE conjE exE)
    assume "r = 0" "\<forall>b<unat (sb_size (sb s)). used (sb s) V b" "ftx (d, A, cap, nop) V L H s'"
    then show ?thesis using r assms(2) by (intro exI [of _ r] exI [of _ s'] exI [of _ V] exI [of _ L]) simp
  next
    fix b assume b: "b < unat (sb_size (sb s))" "r = of_nat b" "\<not> used (sb s) V b" "\<forall>c<b. used (sb s) V c"
      and t: "ftx (d, A, cap, nop) (alloc_view (sb s) V b) (insert (of_nat b) (insert (map_block (sb s) b) L)) H s'"
    note f = alloc_facts [OF assms(2) b(1,3)]
    have u: "unat r = b" using size_bound(2) [OF b(1)] b(2) by simp
    have "\<forall>a. a \<noteq> r \<longrightarrow> a \<noteq> map_block (sb s) b \<longrightarrow> alloc_view (sb s) V b a = V a" using b(2) by (simp add: alloc_view_def)
    then show ?thesis using r t f(1,2,4,5) b u by (intro exI conjI [OF r(1) conjI [OF t]]) auto
  qed
qed

section \<open>A disk as \<open>mkfs\<close> lays it out\<close>

definition demo_sb :: superblock where
  "demo_sb = \<lparr>sb_magic = FSMAGIC, sb_size = 2000, sb_nblocks = 1954, sb_ninodes = 200, sb_nlog = 30, sb_logstart = 2,
     sb_inodestart = 32, sb_bmapstart = 45\<rparr>"

definition demo_disk :: "uint \<Rightarrow> block" where
  "demo_disk bn = (if bn = 45 then replicate 8 255 @ replicate 1016 0 else replicate BSIZE 0)"

definition demo_inode :: inode where
  "demo_inode = \<lparr>i_dev = 1, i_inum = 1, i_ref = 1, i_lock = initsleeplock ''inode'', i_valid = True, i_type = 2, i_major = 0, i_minor = 0,
     i_nlink = 1, i_size = 0, i_addrs = replicate 13 0\<rparr>"

definition demo_fs :: fs where
  "demo_fs = \<lparr>fk = \<lparr>fl = demo_log\<lparr>outstanding := 1, committing := False, lh_n := 0\<rparr>, fc = binit (boot_cache demo_disk)\<rparr>, sb = demo_sb, inodes = [demo_inode]\<rparr>"

lemma demo_header: "length (demo_disk 2) = BSIZE" "get32 (demo_disk 2) 0 = 0"
  using get32_zeros [of 0] by (simp_all add: demo_disk_def BSIZE_def)

lemma demo_ftx: "ftx (1, area demo_log, 29, 1) demo_disk {} (\<lambda>_. None) demo_fs"
  unfolding ftx_def by (rule txI) (use demo_header binit_inv [of 1 demo_disk] in \<open>simp_all add: demo_fs_def trans_ok_def logged_def LOGSIZE_30 area_def log_block_def\<close>)

lemma demo_map_block: "b < 2000 \<Longrightarrow> map_block demo_sb b = 45"
  by (simp add: map_block_def demo_sb_def BPB_def BSIZE_def)

lemma demo_used: "b < 2000 \<Longrightarrow> used demo_sb demo_disk b \<longleftrightarrow> b < 64"
proof -
  assume b: "b < 2000"
  have e: "b mod BPB = b" using b by (simp add: BPB_def BSIZE_def)
  have "bit (255 :: uchar) (b mod 8)"
  proof -
    have "b mod 8 \<in> {0, 1, 2, 3, 4, 5, 6, 7}" by auto
    then show ?thesis by auto
  qed
  moreover have "(replicate 8 255 @ replicate 1016 (0 :: uchar)) ! (b div 8) = (if b < 64 then 255 else 0)"
    using b by (auto simp: nth_append)
  ultimately show ?thesis using b by (simp add: used_def demo_map_block e demo_disk_def bit_used_bit)
qed

lemma demo_size: "unat (sb_size demo_sb) = 2000" by (simp add: demo_sb_def)

lemma demo_disk_ok: "disk_ok demo_sb (area demo_log) {32, 45} demo_disk (\<lambda>_. None)"
proof -
  have a: "x \<notin> area demo_log" if "32 \<le> unat x" for x using that by (simp add: area_far)
  have "of_nat b \<notin> area demo_log \<and> of_nat b \<noteq> (32 :: uint) \<and> of_nat b \<noteq> (45 :: uint)" if "64 \<le> b" "b < 2000" for b
  proof -
    have u: "unat (of_nat b :: uint) = b" using that by (intro unat_of_nat_less) simp
    then have "unat (of_nat b :: uint) \<noteq> unat (32 :: uint)" "unat (of_nat b :: uint) \<noteq> unat (45 :: uint)" using that by simp_all
    then show ?thesis using a [of "of_nat b"] u that by auto
  qed
  moreover have "length (demo_disk x) = BSIZE" for x by (simp add: demo_disk_def BSIZE_def)
  ultimately show ?thesis
    by (auto simp: disk_ok_def bitmap_ok_def demo_size demo_map_block demo_used a)
qed

lemma demo_file_inv: "file_inv demo_sb (area demo_log) {32, 45} demo_disk (\<lambda>_. None) 1 demo_inode"
proof -
  have z: "blk V demo_inode k = 0" if "k \<le> MAXFILE" for V k using that by (auto simp: blk_def demo_inode_def NINDIRECT_256)
  have "file_ok demo_sb (area demo_log) {32, 45} demo_disk (\<lambda>_. None) demo_inode"
    using z by (auto simp: file_ok_def) (simp add: demo_inode_def NDIRECT_def)
  then show ?thesis using demo_disk_ok
    by (simp add: file_inv_def demo_size demo_map_block) (simp add: demo_inode_def IBLOCK_def demo_sb_def IPB_def BSIZE_def)
qed

lemma demo_rounds: "rounds 0 (Suc (Suc (Suc (Suc (Suc 0))))) = 1" by (simp add: rounds_def BSIZE_def)

lemma feeds_list: "length bs < 2 ^ 64 \<Longrightarrow> feeds (\<lambda>src m. (take m (drop (unat src) bs), True)) 0 bs"
  by (auto simp: feeds_def unat_of_nat_less)

lemma demo_simps: "sb demo_fs = demo_sb" "ino demo_fs 0 = demo_inode" "inodes demo_fs = [demo_inode]" "i_size demo_inode = 0" "contents V demo_inode = []"
  by (simp_all add: demo_fs_def demo_inode_def contents_def)

abbreviation hello :: "uchar list" where
  "hello \<equiv> [72, 69, 76, 76, 79]"

abbreviation from_list :: "uchar list \<Rightarrow> uint64 \<Rightarrow> nat \<Rightarrow> uchar list \<times> bool" where
  "from_list bs \<equiv> \<lambda>src m. (take m (drop (unat src) bs), True)"

lemma demo_write: "file_inv (sb demo_fs) (area demo_log) {32, 45} demo_disk (\<lambda>_. None) 1 (ino demo_fs 0)" "feeds (from_list hello) 0 hello"
  by (simp add: demo_simps demo_file_inv) (simp add: feeds_list)

lemma demo_room:
  "0 < length (inodes demo_fs)" "finite ({} :: uint set)"
  "card ({} \<union> {x :: uint. (\<lambda>_. None :: int option) x \<noteq> None}) + 6 * rounds (unat (0 :: uint)) (length hello) + 1 < NBUF"
  "card ({} :: uint set) + 6 * rounds (unat (0 :: uint)) (length hello) + 1 \<le> 29"
  "unat (0 :: uint) \<le> unat (i_size (ino demo_fs 0))" "unat (0 :: uint) + length hello \<le> MAXFILE * BSIZE"
  by (simp_all add: demo_simps demo_rounds NBUF_def NINDIRECT_256 BSIZE_def)

theorem writei_overwrites_witness:
  "\<exists>w s' V'. writei 3 0 (from_list hello) 0 0 5 demo_fs = Some (Inr (int w, s')) \<and> w \<le> 5 \<and>
    contents V' (ino s' 0) = take w hello \<and> on_disk demo_sb V' (ino s' 0)"
proof -
  obtain w s' V' where "writei 3 0 (from_list hello) 0 0 (of_nat (length hello)) demo_fs = Some (Inr (int w, s'))"
    "w \<le> length hello" "on_disk (sb demo_fs) V' (ino s' 0)"
    "contents V' (ino s' 0) = splice (contents demo_disk (ino demo_fs 0)) (unat (0 :: uint)) (take w hello)"
    using writei_overwrites [OF demo_ftx demo_write(1) demo_room demo_write(2), of 3] by blast
  then show ?thesis by (auto simp: demo_simps splice_def)
qed

theorem writei_readi_witness:
  "\<exists>w s' s'' out. writei 3 0 (from_list hello) 0 0 5 demo_fs = Some (Inr (int w, s')) \<and>
    readi 3 0 (\<lambda>_ _. True) 0 1 3 s' = Some (Inr (int (length out), out, s'')) \<and>
    out = (if w = 0 then [] else take 3 (drop 1 (take w hello)))"
proof -
  obtain w s' where w: "writei 3 0 (from_list hello) 0 0 (of_nat (length hello)) demo_fs = Some (Inr (int w, s'))"
    and r: "\<forall>off' n dst. let all = splice (contents demo_disk (ino demo_fs 0)) (unat (0 :: uint)) (take w hello);
       out = (if length all < unat off' \<or> 2 ^ 32 \<le> unat off' + unat n then [] else take (unat n) (drop (unat off') all))
     in \<exists>s''. readi 3 0 (\<lambda>_ _. True) dst off' n s' = Some (Inr (int (length out), out, s'')) \<and> inodes s'' = inodes s'"
    using writei_readi [OF demo_ftx demo_write(1) demo_room demo_write(2), of 3] by (elim exE conjE) (rule that)
  have e: "splice (contents demo_disk (ino demo_fs 0)) (unat (0 :: uint)) (take w hello) = take w hello" by (simp add: demo_simps splice_def)
  have o: "(if length (take w hello) < unat (1 :: uint) \<or> 2 ^ 32 \<le> unat (1 :: uint) + unat (3 :: uint) then []
      else take (unat (3 :: uint)) (drop (unat (1 :: uint)) (take w hello))) = (if w = 0 then [] else take 3 (drop 1 (take w hello)))" (is "_ = ?out")
    by (cases w) simp_all
  obtain s'' where rd: "readi 3 0 (\<lambda>_ _. True) 0 1 3 s' = Some (Inr (int (length ?out), ?out, s''))"
    using r [rule_format, of 1 3 0] unfolding Let_def e o by (elim exE conjE) (rule that)
  have "of_nat (length hello) = (5 :: uint)" by simp
  then have w5: "writei 3 0 (from_list hello) 0 0 5 demo_fs = Some (Inr (int w, s'))" using w by (simp only:)
  show ?thesis by (intro exI conjI, rule w5, rule rd, rule refl)
qed

theorem balloc_lowest_free_witness:
  "\<exists>r s' V'. balloc 3 1 demo_fs = Some (Inr (r, s')) \<and> r = 64 \<and> V' r = replicate BSIZE 0 \<and> used demo_sb V' 64 \<and> \<not> used demo_sb V' 65"
proof -
  obtain r s' V' L' where b: "balloc 3 1 demo_fs = Some (Inr (r, s'))"
    "if r = 0 then V' = demo_disk \<and> (\<forall>b<unat (sb_size (sb demo_fs)). used (sb demo_fs) demo_disk b)
     else unat r < unat (sb_size (sb demo_fs)) \<and> \<not> used (sb demo_fs) demo_disk (unat r) \<and> (\<forall>c<unat r. used (sb demo_fs) demo_disk c) \<and>
       (\<forall>c<unat (sb_size (sb demo_fs)). used (sb demo_fs) V' c \<longleftrightarrow> used (sb demo_fs) demo_disk c \<or> c = unat r) \<and>
       V' r = replicate BSIZE 0 \<and> (\<forall>a. a \<noteq> r \<longrightarrow> a \<noteq> map_block (sb demo_fs) (unat r) \<longrightarrow> V' a = demo_disk a)"
    using balloc_lowest_free [OF demo_ftx, of "{32, 45}" 3] demo_disk_ok by (auto simp: demo_simps NBUF_def)
  have "r \<noteq> 0"
  proof
    assume "r = 0"
    then have "used demo_sb demo_disk 1999" using b(2) by (simp add: demo_simps demo_size)
    then show False by (simp add: demo_used)
  qed
  then have r: "unat r < 2000" "\<not> used demo_sb demo_disk (unat r)" "\<forall>c<unat r. used demo_sb demo_disk c"
    "\<forall>c<2000. used demo_sb V' c \<longleftrightarrow> used demo_sb demo_disk c \<or> c = unat r" "V' r = replicate BSIZE 0"
    using b(2) by (auto simp: demo_simps demo_size)
  have "\<not> 64 < unat r" using r(1,3) demo_used [of 64] by auto
  then have u: "unat r = 64" using r(1,2) demo_used [of "unat r"] by simp
  then have "r = 64" by (simp add: word_unat_eq_iff)
  then show ?thesis using b(1) r(4,5) u demo_used [of 65] by auto
qed

end
