(* ===== verification/Fs_Dir.thy ===== *)
theory Fs_Dir
  imports Fs_Io
begin

text \<open>
  Directories (\<open>dirlookup\<close>, \<open>dirlink\<close> of \<open>kernel/fs.c\<close>) as maps from names to inode numbers, and the splitting of path names
  (\<open>skipelem\<close>).
\<close>

section \<open>Names and entries\<close>

text \<open>The name in an array of \<open>DIRSIZ\<close> bytes, which need not be terminated.\<close>

definition cname :: "uchar list \<Rightarrow> uchar list" where
  "cname xs = takeWhile (\<lambda>b. b \<noteq> 0) (take DIRSIZ xs)"

lemma name_diff_zero:
  assumes "n \<le> length xs" "n \<le> length ys"
  shows "name_diff n xs ys = 0 \<longleftrightarrow> takeWhile (\<lambda>b. b \<noteq> 0) (take n xs) = takeWhile (\<lambda>b. b \<noteq> 0) (take n ys)"
  using assms
proof (induction n arbitrary: xs ys)
  case (Suc n)
  then show ?case by (cases xs; cases ys) (auto simp: word_uint_eq_iff)
qed simp

lemma namecmp_zero: "DIRSIZ \<le> length s \<Longrightarrow> DIRSIZ \<le> length t \<Longrightarrow> namecmp s t = 0 \<longleftrightarrow> cname s = cname t"
  by (simp add: namecmp_def cname_def name_diff_zero)

lemma cname_pad: "cname (pad_name name) = cname name" "length (pad_name name) = DIRSIZ"
proof -
  let ?c = "takeWhile (\<lambda>b. b \<noteq> 0) (take DIRSIZ name)"
  have l: "length ?c \<le> DIRSIZ" using length_takeWhile_le [of "\<lambda>b. b \<noteq> 0" "take DIRSIZ name"] by simp
  then show len: "length (pad_name name) = DIRSIZ" by (simp add: pad_name_def Let_def)
  have "takeWhile (\<lambda>b. b \<noteq> 0) (?c @ replicate k 0) = ?c" for k
    by (subst takeWhile_append2) (auto dest: set_takeWhileD)
  then show "cname (pad_name name) = cname name" using len by (simp add: cname_def pad_name_def Let_def)
qed

text \<open>A directory is a sequence of 16-byte entries: an inode number, 0 for none, and a name.\<close>

definition dir_entry :: "uchar list \<Rightarrow> nat \<Rightarrow> ushort \<times> uchar list" where
  "dir_entry c k = (let e = take 16 (drop (16 * k) c) in (get16 e 0, drop 2 e))"

definition entries :: "uchar list \<Rightarrow> (ushort \<times> uchar list) list" where
  "entries c = map (dir_entry c) [0..<length c div 16]"

definition matches :: "uchar list \<Rightarrow> ushort \<times> uchar list \<Rightarrow> bool" where
  "matches name e \<longleftrightarrow> fst e \<noteq> 0 \<and> cname (snd e) = cname name"

definition dir_find :: "(ushort \<times> uchar list) list \<Rightarrow> uchar list \<Rightarrow> nat option" where
  "dir_find es name = find (\<lambda>k. matches name (es ! k)) [0..<length es]"

text \<open>The map from names to inode numbers that a directory stands for.\<close>

definition dir_map :: "(ushort \<times> uchar list) list \<Rightarrow> uchar list \<Rightarrow> ushort option" where
  "dir_map es name = map_option (\<lambda>k. fst (es ! k)) (dir_find es name)"

lemma length_entries [simp]: "length (entries c) = length c div 16" by (simp add: entries_def)

lemma nth_entries: "k < length c div 16 \<Longrightarrow> entries c ! k = dir_entry c k" by (simp add: entries_def)

section \<open>Looking up\<close>

definition dir_inv :: "superblock \<Rightarrow> uint set \<Rightarrow> uint set \<Rightarrow> (uint \<Rightarrow> block) \<Rightarrow> (uint \<Rightarrow> int option) \<Rightarrow> uint \<Rightarrow> inode \<Rightarrow> bool" where
  "dir_inv x A M V H d i \<longleftrightarrow> file_inv x A M V H d i \<and> i_type i = T_DIR \<and> 16 dvd unat (i_size i)"

lemma read_dirent_ok:
  assumes t: "ftx (d, A, cap, nop) V L H s" and inv: "dir_inv (sb s) A M V H d (ino s dp)" and room: "card (L \<union> {x. H x \<noteq> None}) < NBUF"
    and k: "k < unat (i_size (ino s dp)) div 16"
  shows "\<exists>s'. read_dirent p dp (16 * k) s = Some (Inr (16, take 16 (drop (16 * k) (contents V (ino s dp))), s')) \<and>
    ftx (d, A, cap, nop) V L H s' \<and> keeps d H s s'"
proof -
  let ?sz = "unat (i_size (ino s dp))" and ?c = "contents V (ino s dp)"
  have f: "file_inv (sb s) A M V H d (ino s dp)" using inv by (simp add: dir_inv_def)
  have lim: "?sz \<le> MAXFILE * BSIZE" using f by (simp add: file_inv_def)
  have "?sz div 16 * 16 \<le> ?sz" by simp
  then have fit: "16 * k + 16 \<le> ?sz" using k by linarith
  have u: "unat (of_nat (16 * k) :: uint) = 16 * k" using fit lim by (intro unat_of_nat_less) (simp add: NINDIRECT_256 BSIZE_def)
  have c: "\<not> (?sz < unat (of_nat (16 * k) :: uint) \<or> 2 ^ 32 \<le> unat (of_nat (16 * k) :: uint) + unat (16 :: uint))"
    unfolding u using fit lim by (simp add: NINDIRECT_256 BSIZE_def)
  have l: "length (take 16 (drop (16 * k) ?c)) = 16" using fit by simp
  show ?thesis
    using readi_ok [OF t f room refl, where off = "of_nat (16 * k)" and n = 16 and p = p and dst = 0, unfolded if_not_P [OF c]] l u by (simp add: read_dirent_def)
qed

lemma dirlookup_loop_ok:
  assumes "ftx (d, A, cap, nop) V L H s" "dir_inv (sb s) A M V H d (ino s dp)" "card (L \<union> {x. H x \<noteq> None}) < NBUF" "DIRSIZ \<le> length name"
    and "n = unat (i_size (ino s dp)) div 16" "es = entries (contents V (ino s dp))"
  shows "\<exists>s'. ftx (d, A, cap, nop) V L H s' \<and> keeps d H s s' \<and>
    dirlookup_loop p dp name (map (\<lambda>i. 16 * i) [k..<n]) s =
    (case find (\<lambda>j. matches name (es ! j)) [k..<n] of
       None \<Rightarrow> Some (Inr (None, s'))
     | Some j \<Rightarrow> bind_run (Some (iget d (ucast (fst (es ! j))) s')) (\<lambda>(ip, s). Some (Inr (Some (ip, 16 * j), s))))"
  using assms
proof (induction "n - k" arbitrary: k s)
  case 0
  then show ?case by (auto intro!: exI [of _ s])
next
  case (Suc m)
  let ?c = "contents V (ino s dp)" and ?e = "take 16 (drop (16 * k) (contents V (ino s dp)))"
  have k: "k < n" using Suc(2) by simp
  then have kz: "k < unat (i_size (ino s dp)) div 16" using Suc.prems(5) by simp
  obtain s1 where 1: "read_dirent p dp (16 * k) s = Some (Inr (16, ?e, s1))" "ftx (d, A, cap, nop) V L H s1" "keeps d H s s1"
    using read_dirent_ok [OF Suc.prems(1-3) kz] by blast
  have en: "es ! k = (get16 ?e 0, drop 2 ?e)" using kz Suc.prems(6) by (simp add: nth_entries dir_entry_def Let_def)
  have "length ?e = 16" using kz by (simp add: min_def) linarith
  then have nm: "namecmp name (drop 2 ?e) = 0 \<longleftrightarrow> cname (snd (es ! k)) = cname name"
    using Suc.prems(4) en by (subst namecmp_zero) (auto simp: DIRSIZ_def)
  have dev: "i_dev (ino s1 dp) = d" "ino s1 dp = ino s dp" "sb s1 = sb s"
    using Suc.prems(2) keepsD [OF 1(3)] by (auto simp: dir_inv_def file_inv_def)
  have up: "[k..<n] = k # [Suc k..<n]" using k by (rule upt_conv_Cons)
  show ?case
  proof (cases "matches name (es ! k)")
    case True
    then have "dirlookup_loop p dp name (map (\<lambda>i. 16 * i) [k..<n]) s =
        bind_run (Some (iget d (ucast (fst (es ! k))) s1)) (\<lambda>(ip, s). Some (Inr (Some (ip, 16 * k), s)))"
      using 1(1) nm en dev unfolding up matches_def by (simp add: Let_def)
    then show ?thesis using 1(2,3) True up by (intro exI [of _ s1]) simp
  next
    case False
    then have step: "dirlookup_loop p dp name (map (\<lambda>i. 16 * i) [k..<n]) s = dirlookup_loop p dp name (map (\<lambda>i. 16 * i) [Suc k..<n]) s1"
      using 1(1) nm en unfolding up matches_def by (auto simp: Let_def)
    have "m = n - Suc k" using Suc(2) by simp
    from Suc.hyps(1) [OF this 1(2) _ Suc.prems(3,4)] Suc.prems(2,5,6) dev
    obtain s' where "ftx (d, A, cap, nop) V L H s'" "keeps d H s1 s'"
      "dirlookup_loop p dp name (map (\<lambda>i. 16 * i) [Suc k..<n]) s1 =
      (case find (\<lambda>j. matches name (es ! j)) [Suc k..<n] of
         None \<Rightarrow> Some (Inr (None, s'))
       | Some j \<Rightarrow> bind_run (Some (iget d (ucast (fst (es ! j))) s')) (\<lambda>(ip, s). Some (Inr (Some (ip, 16 * j), s))))"
      by auto
    then show ?thesis using step up False keeps_trans [OF 1(3)] by (intro exI [of _ s']) auto
  qed
qed

lemma dirent_offsets_div: "16 dvd unat (i_size i) \<Longrightarrow> dirent_offsets i = map (\<lambda>j. 16 * j) [0..<unat (i_size i) div 16]"
  by (elim dvdE) (simp add: dirent_offsets_def)

lemma dirlookup_ok:
  assumes t: "ftx (d, A, cap, nop) V L H s" and inv: "dir_inv (sb s) A M V H d (ino s dp)" and room: "card (L \<union> {x. H x \<noteq> None}) < NBUF"
    and name: "DIRSIZ \<le> length name" and es: "es = entries (contents V (ino s dp))"
  shows "\<exists>s'. ftx (d, A, cap, nop) V L H s' \<and> keeps d H s s' \<and>
    dirlookup p dp name s = (case dir_find es name of
       None \<Rightarrow> Some (Inr (None, s'))
     | Some j \<Rightarrow> bind_run (Some (iget d (ucast (fst (es ! j))) s')) (\<lambda>(ip, s). Some (Inr (Some (ip, 16 * j), s))))"
proof -
  have i: "i_type (ino s dp) = T_DIR" "16 dvd unat (i_size (ino s dp))" using inv by (auto simp: dir_inv_def)
  have l: "length es = unat (i_size (ino s dp)) div 16" using es by simp
  show ?thesis
    using dirlookup_loop_ok [OF t inv room name refl es, of p 0] i(1)
    unfolding dirlookup_def dirent_offsets_div [OF i(2)] dir_find_def l by simp
qed

section \<open>Adding an entry\<close>

definition free_slot :: "(ushort \<times> uchar list) list \<Rightarrow> nat" where
  "free_slot es = (case find (\<lambda>k. fst (es ! k) = 0) [0..<length es] of None \<Rightarrow> length es | Some k \<Rightarrow> k)"

definition put_entry :: "(ushort \<times> uchar list) list \<Rightarrow> ushort \<times> uchar list \<Rightarrow> (ushort \<times> uchar list) list" where
  "put_entry es e = (let k = free_slot es in if k < length es then es[k := e] else es @ [e])"

lemma find_empty_ok:
  assumes "ftx (d, A, cap, nop) V L H s" "dir_inv (sb s) A M V H d (ino s dp)" "card (L \<union> {x. H x \<noteq> None}) < NBUF"
    and "n = unat (i_size (ino s dp)) div 16" "es = entries (contents V (ino s dp))"
  shows "\<exists>s'. ftx (d, A, cap, nop) V L H s' \<and> keeps d H s s' \<and>
    find_empty p dp (map (\<lambda>i. 16 * i) [k..<n]) (16 * n) s =
    Some (Inr (16 * (case find (\<lambda>j. fst (es ! j) = 0) [k..<n] of None \<Rightarrow> n | Some j \<Rightarrow> j), s'))"
  using assms
proof (induction "n - k" arbitrary: k s)
  case 0
  then show ?case by (auto intro!: exI [of _ s])
next
  case (Suc m)
  let ?e = "take 16 (drop (16 * k) (contents V (ino s dp)))"
  have k: "k < n" using Suc(2) by simp
  then have kz: "k < unat (i_size (ino s dp)) div 16" using Suc.prems(4) by simp
  obtain s1 where 1: "read_dirent p dp (16 * k) s = Some (Inr (16, ?e, s1))" "ftx (d, A, cap, nop) V L H s1" "keeps d H s s1"
    using read_dirent_ok [OF Suc.prems(1-3) kz] by blast
  have en: "fst (es ! k) = get16 ?e 0" using kz Suc.prems(5) by (simp add: nth_entries dir_entry_def Let_def)
  note dev = keepsD [OF 1(3)]
  have up: "[k..<n] = k # [Suc k..<n]" using k by (rule upt_conv_Cons)
  show ?case
  proof (cases "get16 ?e 0 = 0")
    case True
    then show ?thesis using 1 en up by (intro exI [of _ s1]) simp
  next
    case False
    have "m = n - Suc k" using Suc(2) by simp
    from Suc.hyps(1) [OF this 1(2) _ Suc.prems(3)] Suc.prems(2,4,5) dev
    obtain s' where "ftx (d, A, cap, nop) V L H s'" "keeps d H s1 s'"
      "find_empty p dp (map (\<lambda>i. 16 * i) [Suc k..<n]) (16 * n) s1 =
        Some (Inr (16 * (case find (\<lambda>j. fst (es ! j) = 0) [Suc k..<n] of None \<Rightarrow> n | Some j \<Rightarrow> j), s'))"
      by auto
    then show ?thesis using 1(1) False en up keeps_trans [OF 1(3)] by (intro exI [of _ s']) auto
  qed
qed

lemma free_slot_le: "free_slot es \<le> length es"
  by (auto simp: free_slot_def find_Some_iff split: option.split)

lemma free_slot_free: "free_slot es < length es \<Longrightarrow> fst (es ! free_slot es) = 0"
proof (cases "find (\<lambda>k. fst (es ! k) = 0) [0..<length es]")
  case (Some k)
  then have "fst (es ! k) = 0" by (auto simp: find_Some_iff)
  then show ?thesis using Some by (simp add: free_slot_def)
qed (simp add: free_slot_def)

text \<open>The bytes of an entry, and the directory after they are put in a slot.\<close>

lemma entry_splice:
  assumes c: "length c = 16 * n" and e: "length e = 16" and k: "k \<le> n"
  shows "j \<noteq> k \<Longrightarrow> j < n \<Longrightarrow> dir_entry (splice c (16 * k) e) j = dir_entry c j" "dir_entry (splice c (16 * k) e) k = (get16 e 0, drop 2 e)"
    "length (splice c (16 * k) e) = 16 * (if k < n then n else Suc n)"
proof -
  show "length (splice c (16 * k) e) = 16 * (if k < n then n else Suc n)" using assms by (auto simp: splice_def)
  have "take 16 (drop (16 * k) (splice c (16 * k) e)) = e" using assms by (simp add: splice_def)
  then show "dir_entry (splice c (16 * k) e) k = (get16 e 0, drop 2 e)" by (simp add: dir_entry_def)
  assume j: "j \<noteq> k" "j < n"
  have "take 16 (drop (16 * j) (splice c (16 * k) e)) = take 16 (drop (16 * j) c)"
  proof (cases "j < k")
    case True
    then have "16 * j + 16 \<le> 16 * k" "16 * k \<le> length c" using c k by simp_all
    then show ?thesis by (simp add: splice_def take_drop)
  next
    case False
    then have "16 * k + 16 \<le> 16 * j" using j by simp
    then show ?thesis using c e k by (simp add: splice_def)
  qed
  then show "dir_entry (splice c (16 * k) e) j = dir_entry c j" by (simp add: dir_entry_def)
qed

lemma entries_splice:
  assumes c: "length c = 16 * n" and e: "length e = 16" and k: "k = free_slot (entries c)"
  shows "entries (splice c (16 * k) e) = put_entry (entries c) (get16 e 0, drop 2 e)"
proof (rule nth_equalityI)
  have kn: "k \<le> n" using free_slot_le [of "entries c"] c k by simp
  note s = entry_splice [OF c e kn]
  show len: "length (entries (splice c (16 * k) e)) = length (put_entry (entries c) (get16 e 0, drop 2 e))"
    using c s(3) k by (simp add: put_entry_def Let_def)
  fix j assume "j < length (entries (splice c (16 * k) e))"
  then have j: "j < (if k < n then n else Suc n)" using s(3) by simp
  have "entries (splice c (16 * k) e) ! j = dir_entry (splice c (16 * k) e) j" using j s(3) by (subst nth_entries) simp_all
  also have "\<dots> = put_entry (entries c) (get16 e 0, drop 2 e) ! j"
    using j s(1) [of j] s(2) c k kn by (cases "j = k"; cases "k < n") (auto simp: put_entry_def Let_def nth_append nth_entries)
  finally show "entries (splice c (16 * k) e) ! j = put_entry (entries c) (get16 e 0, drop 2 e) ! j" .
qed

lemma dirent_bytes:
  fixes inum :: uint
  assumes "unat inum < 65536"
  shows "length (le_bytes 2 (unat inum) @ pad_name name) = 16" "get16 (le_bytes 2 (unat inum) @ pad_name name) 0 = ucast inum"
    "drop 2 (le_bytes 2 (unat inum) @ pad_name name) = pad_name name"
  using assms by (simp_all add: cname_pad(2) DIRSIZ_def get16_def slice_def le_nat_le_bytes)


lemma dirent_rounds: "rounds (16 * k) 16 = 1"
proof -
  have "16 * k mod BSIZE = 16 * (k mod 64)" using mult_mod_right [of 16 k 64] by (simp add: BSIZE_def)
  then show ?thesis by (simp add: rounds_def BSIZE_def)
qed

lemma dir_written:
  assumes inv: "dir_inv x A M V H d i" and i': "file_inv x A M V' H d i'" "\<exists>as z. i' = i\<lparr>i_addrs := as, i_size := z\<rparr>" and de: "length de = 16"
    and c: "contents V' i' = splice (contents V i) (16 * free_slot es) de" and es: "es = entries (contents V i)"
  shows "dir_inv x A M V' H d i' \<and> entries (contents V' i') = put_entry es (get16 de 0, drop 2 de)"
proof -
  obtain n where n: "length (contents V i) = 16 * n" using inv by (auto simp: dir_inv_def elim: dvdE)
  have k: "free_slot es \<le> n" using free_slot_le [of es] es n by simp
  have "unat (i_size i') = 16 * (if free_slot es < n then n else Suc n)"
    using entry_splice(3) [OF n de k] unfolding c [symmetric] by simp
  then have "dir_inv x A M V' H d i'" using i' inv by (auto simp: dir_inv_def)
  moreover have "entries (contents V' i') = put_entry es (get16 de 0, drop 2 de)"
    unfolding c es by (rule entries_splice [OF n de refl])
  ultimately show ?thesis by blast
qed

lemma dirlink_ok:
  assumes t: "ftx (d, A, cap, nop) V L H s" and inv: "dir_inv (sb s) A M V H d (ino s dp)" and dp: "dp < length (inodes s)" and fin: "finite L"
    and room: "card (L \<union> {x. H x \<noteq> None}) + 7 < NBUF" "card L + 7 \<le> cap" and name: "DIRSIZ \<le> length name"
    and es: "es = entries (contents V (ino s dp))" and absent: "dir_find es name = None" and inum: "unat inum < 65536"
    and space: "unat (i_size (ino s dp)) + 16 \<le> MAXFILE * BSIZE"
  shows "\<exists>r s' V' L' i'. dirlink p dp name inum s = Some (Inr (r, s')) \<and> ftx (d, A, cap, nop) V' L' H s' \<and> sb s' = sb s \<and>
    inodes s' = (inodes s)[dp := i'] \<and> file_inv (sb s) A M V' H d i' \<and> others_kept (sb s) A M H 7 (V, L, ino s dp) (V', L', i') \<and>
    (if r = 0 then dir_inv (sb s) A M V' H d i' \<and> entries (contents V' i') = put_entry es (ucast inum, pad_name name)
     else r = -1 \<and> (\<forall>b<unat (sb_size (sb s)). used (sb s) V' b))"
proof -
  let ?i = "ino s dp" and ?n = "unat (i_size (ino s dp)) div 16" and ?c = "contents V (ino s dp)"
  let ?k = "free_slot es" and ?de = "le_bytes 2 (unat inum) @ pad_name name"
  have room0: "card (L \<union> {x. H x \<noteq> None}) < NBUF" using room(1) by simp
  have sz: "unat (i_size ?i) = 16 * ?n" and type: "i_type ?i = T_DIR" using inv by (auto simp: dir_inv_def)
  obtain s1 where 1: "dirlookup p dp name s = Some (Inr (None, s1))" "ftx (d, A, cap, nop) V L H s1" "keeps d H s s1"
    using dirlookup_ok [OF t inv room0 name es, of p] absent by auto
  note k1 = keepsD [OF 1(3)]
  have inv1: "dir_inv (sb s1) A M V H d (ino s1 dp)" using inv k1 by simp
  have n1: "?n = unat (i_size (ino s1 dp)) div 16" and es1: "es = entries (contents V (ino s1 dp))" using es k1 by simp_all
  have len: "length es = ?n" using es by simp
  obtain s2 where 2: "ftx (d, A, cap, nop) V L H s2" "keeps d H s1 s2"
    "find_empty p dp (map (\<lambda>i. 16 * i) [0..<?n]) (16 * ?n) s1 = Some (Inr (16 * ?k, s2))"
    using find_empty_ok [OF 1(2) inv1 room0 n1 es1, of p 0] unfolding free_slot_def len by blast
  note k2 = keepsD [OF 2(2)]
  have k: "?k \<le> ?n" using free_slot_le [of es] len by simp
  have lim: "16 * ?k + 16 \<le> MAXFILE * BSIZE" using k space sz by linarith
  then have u: "unat (of_nat (16 * ?k) :: uint) = 16 * ?k" by (intro unat_of_nat_less) (simp add: NINDIRECT_256 BSIZE_def)
  note de = dirent_bytes [OF inum, of name]
  have "length ?de < 2 ^ 64" unfolding de(1) by simp
  note fd = feeds_list [OF this]
  have f2: "file_inv (sb s2) A M V H d (ino s2 dp)" using inv k1 k2 by (simp add: dir_inv_def)
  have pre: "dp < length (inodes s2)" "card (L \<union> {x. H x \<noteq> None}) + 6 * rounds (unat (of_nat (16 * ?k) :: uint)) (length ?de) + 1 < NBUF"
    "card L + 6 * rounds (unat (of_nat (16 * ?k) :: uint)) (length ?de) + 1 \<le> cap"
    "unat (of_nat (16 * ?k) :: uint) \<le> unat (i_size (ino s2 dp))" "unat (of_nat (16 * ?k) :: uint) + length ?de \<le> MAXFILE * BSIZE"
    unfolding u de(1) dirent_rounds using dp room lim k sz k1 k2 by simp_all
  obtain w s' V' L' i' where w: "writei p dp (\<lambda>src m. (take m (drop (unat src) ?de), True)) 0 (of_nat (16 * ?k)) (of_nat (length ?de)) s2 = Some (Inr (int w, s'))"
    "w \<le> length ?de" "ftx (d, A, cap, nop) V' L' H s'" "sb s' = sb s2" "inodes s' = (inodes s2)[dp := i']"
    "\<exists>as z. i' = (ino s2 dp)\<lparr>i_addrs := as, i_size := z\<rparr>" "file_inv (sb s2) A M V' H d i'"
    "contents V' i' = splice (contents V (ino s2 dp)) (unat (of_nat (16 * ?k) :: uint)) (take w ?de)"
    "others_kept (sb s2) A M H (6 * rounds (unat (of_nat (16 * ?k) :: uint)) (length ?de) + 1) (V, L, ino s2 dp) (V', L', i')"
    "w < length ?de \<longrightarrow> (\<forall>b<unat (sb_size (sb s2)). used (sb s2) V' b)"
    using writei_ok [OF 2(1) f2 pre(1) fin pre(2-5) fd, of p] by blast
  have w16: "writei p dp (\<lambda>src m. (take m (drop (unat src) ?de), True)) 0 (of_nat (16 * ?k)) 16 s2 = Some (Inr (int w, s'))"
    using w(1) unfolding de(1) by simp
  have run: "dirlink p dp name inum s = Some (Inr (if int w \<noteq> 16 then -1 else 0, s'))"
    unfolding dirlink_def using 1(1) 2(3) w16 k1 dirent_offsets_div [of "ino s1 dp"] inv1
    by (simp add: dir_inv_def Let_def del: of_nat_mult)
  have kz: "sb s2 = sb s" "inodes s2 = inodes s" using k1 k2 by simp_all
  have "dir_inv (sb s) A M V' H d i' \<and> entries (contents V' i') = put_entry es (ucast inum, pad_name name)" if "w = 16"
  proof (rule dir_written [OF inv _ _ de(1), unfolded de(2,3), OF _ _ _ es])
    show "contents V' i' = splice ?c (16 * ?k) ?de" using w(8) that de(1) u kz by simp
  qed (use w(6,7) kz in auto)
  then show ?thesis
    using run w(3-5,7,9,10) de(1) u dirent_rounds [of ?k] kz
    by (intro exI [of _ "if int w \<noteq> 16 then - 1 else 0"] exI [of _ s'] exI [of _ V'] exI [of _ L'] exI [of _ i']) (use w(2) in auto)
qed


section \<open>The inode table\<close>

lemma iget_scan_cases:
  "case iget_scan d n qs emp tab of
     Inl i \<Rightarrow> i \<in> set qs \<and> i_ref (tab ! i) > 0 \<and> i_dev (tab ! i) = d \<and> i_inum (tab ! i) = n
   | Inr None \<Rightarrow> emp = None \<and> (\<forall>i\<in>set qs. i_ref (tab ! i) \<noteq> 0)
   | Inr (Some i) \<Rightarrow> emp = Some i \<or> i \<in> set qs \<and> i_ref (tab ! i) = 0"
  by (induction d n qs emp tab rule: iget_scan.induct) (auto split: sum.splits option.splits if_splits)

definition itable_ok :: "fs \<Rightarrow> bool" where
  "itable_ok s \<longleftrightarrow> length (inodes s) = NINODE \<and> (\<forall>i\<in>set (inodes s). 0 \<le> i_ref i)"

text \<open>A reference that was just taken: the entry is in use, and it is not valid if this is the only reference.\<close>

lemma iget_ok:
  assumes ok: "itable_ok s" and room: "\<exists>q<NINODE. i_ref (ino s q) = 0"
  shows "\<exists>ip s1. iget d n s = Inr (ip, s1) \<and> fk s1 = fk s \<and> sb s1 = sb s \<and> ip < NINODE \<and> i_dev (ino s1 ip) = d \<and> i_inum (ino s1 ip) = n \<and>
    1 \<le> i_ref (ino s1 ip) \<and> (i_ref (ino s1 ip) = 1 \<longrightarrow> \<not> i_valid (ino s1 ip)) \<and> (\<forall>q. q \<noteq> ip \<longrightarrow> ino s1 q = ino s q)"
proof -
  have len: "length (inodes s) = NINODE" using ok by (simp add: itable_ok_def)
  note c = iget_scan_cases [where d = d and n = n and qs = "[0..<NINODE]" and emp = None and tab = "inodes s"]
  show ?thesis
  proof (cases "iget_scan d n [0..<NINODE] None (inodes s)")
    case (Inl i)
    then show ?thesis using c len by (auto simp: iget_def upd_inode_def)
  next
    case (Inr r)
    then obtain i where "r = Some i" using c room by (cases r) auto
    then show ?thesis using Inr c len by (auto simp: iget_def upd_inode_def)
  qed
qed

lemma iput_iget:
  assumes "1 \<le> i_ref (ino s ip)" "i_ref (ino s ip) = 1 \<longrightarrow> \<not> i_valid (ino s ip)"
  shows "iput p ip s = Some (Inr (upd_inode ip (\<lambda>i. i\<lparr>i_ref := i_ref i - 1\<rparr>) s))"
  using assms by (auto simp: iput_def)

section \<open>A directory is a map\<close>

lemma find_upt_Some: "find P [0..<n] = Some k \<longleftrightarrow> k < n \<and> P k \<and> (\<forall>j<k. \<not> P j)"
  by (auto simp: find_Some_iff)

lemma find_upt_Suc: "\<not> P n \<Longrightarrow> find P [0..<Suc n] = find P [0..<n]"
proof (cases "find P [0..<n]")
  case None
  then have "\<forall>j<n. \<not> P j" by (simp add: find_None_iff)
  moreover assume "\<not> P n"
  ultimately have "find P [0..<Suc n] = None" by (auto simp: find_None_iff less_Suc_eq simp del: upt_Suc)
  then show ?thesis using None by simp
next
  case (Some k)
  then have "find P [0..<Suc n] = Some k" by (simp only: find_upt_Some) simp
  then show ?thesis using Some by simp
qed

lemma put_entry_nth:
  "length (put_entry es e) = (if free_slot es < length es then length es else Suc (length es))"
  "j < length (put_entry es e) \<Longrightarrow> put_entry es e ! j = (if j = free_slot es then e else es ! j)"
  using free_slot_le [of es] by (auto simp: put_entry_def Let_def nth_append nth_list_update less_Suc_eq)

lemma matches_cname: "cname q = cname q' \<Longrightarrow> matches q e = matches q' e"
  by (simp add: matches_def)

lemma dir_find_put:
  assumes absent: "dir_find es name = None" and e: "fst e \<noteq> 0" "cname (snd e) = cname name"
  shows "dir_find (put_entry es e) q = (if cname q = cname name then Some (free_slot es) else dir_find es q)"
proof -
  let ?k = "free_slot es" and ?es = "put_entry es e"
  have none: "\<not> matches name (es ! j)" if "j < length es" for j using absent that by (simp add: dir_find_def find_None_iff)
  have k: "?k < length ?es" using put_entry_nth(1) [of es e] free_slot_le [of es] by auto
  have old: "matches q (?es ! j) = (if j = ?k then cname q = cname name else matches q (es ! j))" if "j < length ?es" for j
    using put_entry_nth(2) [OF that] e by (auto simp: matches_def)
  show ?thesis
  proof (cases "cname q = cname name")
    case True
    have "\<not> matches q (?es ! j)" if "j < ?k" for j
      using old [of j] that k none [of j] matches_cname [OF True] free_slot_le [of es] by auto
    then show ?thesis using True old [OF k] k by (simp add: dir_find_def find_upt_Some)
  next
    case False
    have free: "\<not> matches q (es ! ?k)" if "?k < length es" using free_slot_free [OF that] by (simp add: matches_def)
    have same: "matches q (?es ! j) = matches q (es ! j)" if "j < length es" for j
      using old [of j] False that free put_entry_nth(1) [of es e] by (cases "j = ?k") auto
    have cong: "find (\<lambda>j. matches q (?es ! j)) [0..<length es] = dir_find es q"
      unfolding dir_find_def by (rule find_cong) (use same in auto)
    show ?thesis
    proof (cases "?k < length es")
      case True
      then show ?thesis using False cong put_entry_nth(1) [of es e] by (simp add: dir_find_def)
    next
      case nk: False
      then have "?k = length es" using free_slot_le [of es] by simp
      then have "\<not> matches q (?es ! length es)" using old [OF k] False by simp
      then show ?thesis using False nk cong put_entry_nth(1) [of es e] find_upt_Suc [of "\<lambda>j. matches q (?es ! j)" "length es"]
        by (simp add: dir_find_def del: upt_Suc)
    qed
  qed
qed

lemma dir_map_put:
  assumes "dir_map es name = None" "fst e \<noteq> 0" "cname (snd e) = cname name"
  shows "dir_map (put_entry es e) q = (if cname q = cname name then Some (fst e) else dir_map es q)"
proof -
  have a: "dir_find es name = None" using assms(1) by (simp add: dir_map_def)
  have f: "put_entry es e ! free_slot es = e" using put_entry_nth(1) [of es e] put_entry_nth(2) [of _ es e] free_slot_le [of es] by auto
  have "put_entry es e ! k = es ! k" if "dir_find es q = Some k" for k
  proof -
    have "k < length es" "matches q (es ! k)" using that by (auto simp: dir_find_def find_upt_Some)
    moreover have "k \<noteq> free_slot es" using calculation free_slot_free [of es] by (auto simp: matches_def)
    ultimately show ?thesis using put_entry_nth(1) [of es e] put_entry_nth(2) [of _ es e] by auto
  qed
  then show ?thesis using f by (cases "dir_find es q") (auto simp: dir_map_def dir_find_put [OF a assms(2,3)])
qed


lemma dirlookup_map:
  assumes "ftx (d, A, cap, nop) V L H s" "dir_inv (sb s) A M V H d (ino s dp)" "card (L \<union> {x. H x \<noteq> None}) < NBUF" "DIRSIZ \<le> length q"
  shows "\<exists>off s'. keeps d H s s' \<and> ftx (d, A, cap, nop) V L H s' \<and> dirlookup p dp q s = (case dir_map (entries (contents V (ino s dp))) q of
      None \<Rightarrow> Some (Inr (None, s'))
    | Some n \<Rightarrow> bind_run (Some (iget d (ucast n) s')) (\<lambda>(ip, s). Some (Inr (Some (ip, off), s))))"
  using dirlookup_ok [OF assms refl, of p]
  by (cases "dir_find (entries (contents V (ino s dp))) q") (auto simp: dir_map_def)

text \<open>
  Property C4 (a directory implements a map). Inside a transaction with room let \<open>dp\<close> be the locked inode of a directory,
  \<open>name\<close> the \<open>DIRSIZ\<close> bytes of a name. If the directory has an entry of that name, \<open>dirlink\<close> returns -1 and
  changes no block. Otherwise it returns 0 and from then on \<open>dirlookup\<close> gives the inode \<open>inum\<close> for the name and
  what it gave before for every other name, or it returns -1 because every block of the disk is in use. Other
  files keep their contents.
\<close>

theorem dirlink_updates_map:
  assumes "ftx (d, A, cap, nop) V L H s" "dir_inv (sb s) A M V H d (ino s dp)" "dp < length (inodes s)" "finite L"
    and "card (L \<union> {x. H x \<noteq> None}) + 7 < NBUF" "card L + 7 \<le> cap" "DIRSIZ \<le> length name" "inum \<noteq> 0" "unat inum < 65536"
    and "unat (i_size (ino s dp)) + 16 \<le> MAXFILE * BSIZE" "itable_ok s" "\<exists>q<NINODE. i_ref (ino s q) = 0"
  defines "old \<equiv> dir_map (entries (contents V (ino s dp)))"
  shows "\<exists>r s' V' L'. dirlink p dp name inum s = Some (Inr (r, s')) \<and> ftx (d, A, cap, nop) V' L' H s' \<and>
    (if old name \<noteq> None then r = -1 \<and> V' = V
     else if r \<noteq> 0 then r = -1 \<and> (\<forall>b<unat (sb_size (sb s)). used (sb s) V' b)
     else dir_inv (sb s) A M V' H d (ino s' dp) \<and>
       (\<forall>q. DIRSIZ \<le> length q \<longrightarrow> (\<exists>off s''. dirlookup p dp q s' =
          (case (if cname q = cname name then Some (ucast inum) else old q) of
             None \<Rightarrow> Some (Inr (None, s''))
           | Some n \<Rightarrow> bind_run (Some (iget d (ucast n) s'')) (\<lambda>(ip, s). Some (Inr (Some (ip, off), s))))))) \<and>
    (\<forall>j. file_inv (sb s) A M V H d j \<longrightarrow> apart_files V (ino s dp) j \<longrightarrow> contents V' j = contents V j)"
proof (cases "old name")
  case None
  let ?es = "entries (contents V (ino s dp))"
  have a: "dir_find ?es name = None" using None by (simp add: old_def dir_map_def)
  obtain r s' V' L' i' where l: "dirlink p dp name inum s = Some (Inr (r, s'))" "ftx (d, A, cap, nop) V' L' H s'" "sb s' = sb s"
    "inodes s' = (inodes s)[dp := i']" "file_inv (sb s) A M V' H d i'" and o: "others_kept (sb s) A M H 7 (V, L, ino s dp) (V', L', i')"
    and c: "if r = 0 then dir_inv (sb s) A M V' H d i' \<and> entries (contents V' i') = put_entry ?es (ucast inum, pad_name name)
     else r = -1 \<and> (\<forall>b<unat (sb_size (sb s)). used (sb s) V' b)"
    using dirlink_ok [OF assms(1-7) refl a assms(9,10), of p] by blast
  have i: "ino s' dp = i'" using l(4) assms(3) by simp
  have "disk_ok (sb s) A M V' H" using l(5) by (simp add: file_inv_def)
  note iso = others_kept_file(3) [OF o _ _ this]
  have look: "\<exists>off s''. dirlookup p dp q s' = (case (if cname q = cname name then Some (ucast inum) else old q) of
       None \<Rightarrow> Some (Inr (None, s''))
     | Some n \<Rightarrow> bind_run (Some (iget d (ucast n) s'')) (\<lambda>(ip, s). Some (Inr (Some (ip, off), s))))"
    if r: "r = 0" and q: "DIRSIZ \<le> length q" for q
  proof -
    have "unat (ucast inum :: ushort) = unat inum" using assms(9) by (simp add: unsigned_ucast_eq take_bit_nat_eq_self)
    then have n: "ucast inum \<noteq> (0 :: ushort)" using assms(8) by (auto simp: word_unat_eq_iff)
    obtain N where N: "L' = L \<union> N" "finite N" "card N \<le> 7" using o by (auto simp: others_kept_def)
    have room: "card (L' \<union> {x. H x \<noteq> None}) < NBUF"
      using room_union [OF N(2,3), of L "{x. H x \<noteq> None}" 0 NBUF] assms(5) N(1) by simp
    have inv: "dir_inv (sb s') A M V' H d (ino s' dp)" using c r i l(3) by simp
    have m: "dir_map (entries (contents V' (ino s' dp))) q = (if cname q = cname name then Some (ucast inum) else old q)"
      using dir_map_put [OF None [unfolded old_def], of "(ucast inum, pad_name name)" q] n c r i by (simp add: cname_pad old_def)
    show ?thesis using dirlookup_map [OF l(2) inv room q, of p] unfolding m by blast
  qed
  show ?thesis using l(1,2) None c i look iso by (intro exI [of _ r] exI [of _ s'] exI [of _ V'] exI [of _ L']) auto
next
  case (Some n)
  have room: "card (L \<union> {x. H x \<noteq> None}) < NBUF" using assms(5) by simp
  obtain off s1 where 1: "keeps d H s s1" "ftx (d, A, cap, nop) V L H s1"
    "dirlookup p dp name s = bind_run (Some (iget d (ucast n) s1)) (\<lambda>(ip, s). Some (Inr (Some (ip, off), s)))"
    using dirlookup_map [OF assms(1,2) room assms(7), of p] Some by (auto simp: old_def)
  have "itable_ok s1" "\<exists>q<NINODE. i_ref (ino s1 q) = 0" using assms(11,12) keepsD [OF 1(1)] by (auto simp: itable_ok_def)
  from iget_ok [OF this, of d "ucast n"] obtain ip s2 where 2: "iget d (ucast n) s1 = Inr (ip, s2)" "fk s2 = fk s1"
    "1 \<le> i_ref (ino s2 ip)" "i_ref (ino s2 ip) = 1 \<longrightarrow> \<not> i_valid (ino s2 ip)" by blast
  have "dirlink p dp name inum s = Some (Inr (-1, upd_inode ip (\<lambda>i. i\<lparr>i_ref := i_ref i - 1\<rparr>) s2))"
    using 1(3) 2(1) iput_iget [OF 2(3,4), of p] by (simp add: dirlink_def)
  moreover have "ftx (d, A, cap, nop) V L H (upd_inode ip (\<lambda>i. i\<lparr>i_ref := i_ref i - 1\<rparr>) s2)"
    using 1(2) 2(2) by (simp add: ftx_def upd_inode_def)
  ultimately show ?thesis using Some by (intro exI conjI) auto
qed


text \<open>The root directory, still empty, of the disk of \<open>Fs_Io\<close>.\<close>

definition demo_root :: fs where
  "demo_root = demo_fs\<lparr>inodes := demo_inode\<lparr>i_type := T_DIR\<rparr> # replicate 49 (demo_inode\<lparr>i_ref := 0\<rparr>)\<rparr>"

lemma demo_root_facts:
  "ftx (1, area demo_log, 29, 1) demo_disk {} (\<lambda>_. None) demo_root"
  "dir_inv (sb demo_root) (area demo_log) {32, 45} demo_disk (\<lambda>_. None) 1 (ino demo_root 0)"
  "itable_ok demo_root" "i_ref (ino demo_root 1) = 0"
proof -
  show "ftx (1, area demo_log, 29, 1) demo_disk {} (\<lambda>_. None) demo_root" using demo_ftx by (simp add: demo_root_def ftx_def)
  have i: "ino demo_root 0 = demo_inode\<lparr>i_type := T_DIR\<rparr>" "sb demo_root = demo_sb" by (simp_all add: demo_root_def demo_simps)
  have "file_inv x A M V H d (j\<lparr>i_type := t\<rparr>) = file_inv x A M V H d j" for x A M V H d j t
    by (simp add: file_inv_def file_ok_def blk_def)
  then show "dir_inv (sb demo_root) (area demo_log) {32, 45} demo_disk (\<lambda>_. None) 1 (ino demo_root 0)"
    using demo_file_inv i by (simp add: dir_inv_def demo_simps)
  show "itable_ok demo_root" "i_ref (ino demo_root 1) = 0" by (simp_all add: demo_root_def itable_ok_def NINODE_def demo_inode_def)
qed

theorem dirlink_updates_map_witness:
  "\<exists>r s' V'. dirlink 3 0 (97 # replicate 13 0) 7 demo_root = Some (Inr (r, s')) \<and>
    (if r = 0 then \<exists>off s''. dirlookup 3 0 (97 # replicate 13 0) s' = bind_run (Some (iget 1 7 s'')) (\<lambda>(ip, s). Some (Inr (Some (ip, off), s)))
     else r = -1 \<and> (\<forall>b<2000. used demo_sb V' b))"
proof -
  let ?name = "97 # replicate 13 0 :: uchar list"
  have es: "entries (contents demo_disk (ino demo_root 0)) = []" by (simp add: demo_root_def entries_def contents_def demo_inode_def)
  have old: "dir_map (entries (contents demo_disk (ino demo_root 0))) ?name = None" unfolding es by (simp add: dir_map_def dir_find_def)
  have pre: "0 < length (inodes demo_root)" "finite ({} :: uint set)" "card ({} \<union> {x :: uint. (\<lambda>_. None :: int option) x \<noteq> None}) + 7 < NBUF"
    "card ({} :: uint set) + 7 \<le> 29" "DIRSIZ \<le> length ?name" "(7 :: uint) \<noteq> 0" "unat (7 :: uint) < 65536"
    "unat (i_size (ino demo_root 0)) + 16 \<le> MAXFILE * BSIZE"
    by (simp_all add: demo_root_def NBUF_def DIRSIZ_def demo_inode_def NINDIRECT_256 BSIZE_def)
  have ex: "\<exists>q<NINODE. i_ref (ino demo_root q) = 0" using demo_root_facts(4) by (intro exI [of _ 1]) (simp add: NINODE_def)
  obtain r s' V' where "dirlink 3 0 ?name 7 demo_root = Some (Inr (r, s'))"
    "if dir_map (entries (contents demo_disk (ino demo_root 0))) ?name \<noteq> None then r = -1 \<and> V' = demo_disk
     else if r \<noteq> 0 then r = -1 \<and> (\<forall>b<unat (sb_size (sb demo_root)). used (sb demo_root) V' b)
     else dir_inv (sb demo_root) (area demo_log) {32, 45} V' (\<lambda>_. None) 1 (ino s' 0) \<and>
       (\<forall>q. DIRSIZ \<le> length q \<longrightarrow> (\<exists>off s''. dirlookup 3 0 q s' =
          (case (if cname q = cname ?name then Some (ucast (7 :: uint)) else dir_map (entries (contents demo_disk (ino demo_root 0))) q) of
             None \<Rightarrow> Some (Inr (None, s''))
           | Some n \<Rightarrow> bind_run (Some (iget 1 (ucast n) s'')) (\<lambda>(ip, s). Some (Inr (Some (ip, off), s))))))"
    using dirlink_updates_map [OF demo_root_facts(1,2) pre demo_root_facts(3) ex, of 3] by (elim exE conjE) (rule that)
  note l = this [unfolded old]
  have sb: "sb demo_root = demo_sb" by (simp add: demo_root_def demo_simps)
  show ?thesis
  proof (cases "r = 0")
    case True
    then have look: "\<forall>q. DIRSIZ \<le> length q \<longrightarrow> (\<exists>off s''. dirlookup 3 0 q s' =
          (case (if cname q = cname ?name then Some (ucast (7 :: uint)) else dir_map (entries (contents demo_disk (ino demo_root 0))) q) of
             None \<Rightarrow> Some (Inr (None, s''))
           | Some n \<Rightarrow> bind_run (Some (iget 1 (ucast n) s'')) (\<lambda>(ip, s). Some (Inr (Some (ip, off), s)))))"
      using l(2) by simp
    have "\<exists>off s''. dirlookup 3 0 ?name s' =
        bind_run (Some (iget 1 (ucast (ucast (7 :: uint) :: ushort)) s'')) (\<lambda>(ip, s). Some (Inr (Some (ip, off), s)))"
      using look [rule_format, OF pre(5)] unfolding if_P [OF refl] option.case .
    moreover have "ucast (ucast (7 :: uint) :: ushort) = (7 :: uint)" by simp
    ultimately show ?thesis using l(1) True by auto
  next
    case False
    then show ?thesis using l by (auto simp: sb demo_size)
  qed
qed

section \<open>Path names\<close>

text \<open>The parts of a path between slashes, and the elements, which are the parts that are not empty.\<close>

fun segments :: "uchar list \<Rightarrow> uchar list list" where
  "segments [] = [[]]"
| "segments (c # cs) = (if c = 47 then [] # segments cs else (c # hd (segments cs)) # tl (segments cs))"

definition elements :: "uchar list \<Rightarrow> uchar list list" where
  "elements path = filter (\<lambda>e. e \<noteq> []) (segments path)"

lemma segments_ne [simp]: "segments cs \<noteq> []"
  by (cases cs) auto

lemma segments_slash: "segments (47 # cs) = [] # segments cs" by simp

lemma elements_dropWhile: "elements (dropWhile (\<lambda>c. c = 47) path) = elements path"
  by (induction path) (auto simp: elements_def)

lemma segments_span:
  assumes "47 \<notin> set e"
  shows "segments e = [e]" "segments (e @ 47 # cs) = e # segments cs"
  using assms by (induction e) auto

lemma takeWhile_ne: "xs \<noteq> [] \<Longrightarrow> hd xs \<noteq> z \<Longrightarrow> takeWhile (\<lambda>c. c \<noteq> z) xs \<noteq> []"
  by (cases xs) auto

lemma elements_span:
  "elements path = (let e = takeWhile (\<lambda>c. c \<noteq> 47) path in (if e = [] then [] else [e]) @ elements (dropWhile (\<lambda>c. c \<noteq> 47) path))"
proof -
  let ?e = "takeWhile (\<lambda>c. c \<noteq> 47) path" and ?r = "dropWhile (\<lambda>c. c \<noteq> 47) path"
  have e: "47 \<notin> set ?e" by (auto dest: set_takeWhileD)
  have p: "path = ?e @ ?r" by simp
  show ?thesis
  proof (cases ?r)
    case Nil
    have "?e = path" using p unfolding Nil by simp
    then have "segments path = [?e]" using segments_span(1) [OF e] by (simp only:)
    then show ?thesis unfolding Nil Let_def by (simp add: elements_def)
  next
    case (Cons c cs)
    then have c: "c = 47" using hd_dropWhile [of "\<lambda>c. c \<noteq> 47" path] by simp
    have "segments path = ?e # segments cs" using segments_span(2) [OF e, of cs] p Cons c by metis
    then show ?thesis using Cons c by (simp add: elements_def Let_def)
  qed
qed

lemma elements_Nil: "xs \<noteq> [] \<longrightarrow> hd xs \<noteq> 47 \<Longrightarrow> xs = [] \<longleftrightarrow> elements xs = []"
  by (cases "xs = []", simp add: elements_def, subst elements_span) (simp add: takeWhile_ne Let_def)

text \<open>
  Also proved (\<open>skipelem\<close> walks the elements of a path). \<open>skipelem\<close> fails exactly when the path has no element. Otherwise it
  removes the first one, leaving a path with the remaining elements that does not start with a slash and is empty
  exactly when nothing remains; and the name array holds the first \<open>DIRSIZ\<close> bytes of the element, terminated if it is
  shorter.
\<close>

theorem skipelem_elements:
  assumes "length name = DIRSIZ"
  shows "case elements path of
      [] \<Rightarrow> skipelem path name = None
    | e # es \<Rightarrow> \<exists>rest name'. skipelem path name = Some (rest, name') \<and> elements rest = es \<and> (rest = [] \<longleftrightarrow> es = []) \<and>
        (rest \<noteq> [] \<longrightarrow> hd rest \<noteq> 47) \<and> length name' = DIRSIZ \<and> take (length e) name' = take DIRSIZ e \<and>
        (length e < DIRSIZ \<longrightarrow> name' ! length e = 0)"
proof -
  let ?p = "dropWhile (\<lambda>c. c = 47) path"
  let ?e = "takeWhile (\<lambda>c. c \<noteq> 47) ?p" and ?r = "dropWhile (\<lambda>c. c = 47) (dropWhile (\<lambda>c. c \<noteq> 47) ?p)"
  let ?n = "if length ?e \<ge> DIRSIZ then take DIRSIZ ?e else ?e @ [0] @ drop (length ?e + 1) name"
  show ?thesis
  proof (cases "?p = []")
    case True
    have "elements (dropWhile (\<lambda>c. c = 47) path) = []" unfolding True by (simp add: elements_def)
    then have "elements path = []" by (simp add: elements_dropWhile)
    then show ?thesis using True by (simp add: skipelem_def)
  next
    case False
    have h: "hd ?p \<noteq> 47" using hd_dropWhile [OF False] by simp
    have ne: "?e \<noteq> []" by (rule takeWhile_ne [OF False h])
    have els: "elements path = ?e # elements ?r"
      unfolding elements_dropWhile [of path, symmetric] elements_span [of ?p] elements_dropWhile [of "dropWhile (\<lambda>c. c \<noteq> 47) ?p"]
      using ne by (simp only: Let_def if_False append.simps)
    have r: "?r \<noteq> [] \<longrightarrow> hd ?r \<noteq> 47" using hd_dropWhile by blast
    note iff = elements_Nil [OF r]
    have n: "length ?n = DIRSIZ" "take (length ?e) ?n = take DIRSIZ ?e" "length ?e < DIRSIZ \<longrightarrow> ?n ! length ?e = 0" using assms by auto
    have "skipelem path name = Some (?r, ?n)" using False by (simp add: skipelem_def Let_def)
    then show ?thesis unfolding els list.case using r iff n by blast
  qed
qed

theorem skipelem_elements_witness:
  "\<exists>rest name'. skipelem [47, 47, 97, 47, 47, 98, 98] (replicate 14 1) = Some (rest, name') \<and> elements rest = [[98, 98]] \<and>
    take 1 name' = [97] \<and> name' ! 1 = 0"
proof -
  have e: "elements [47, 47, 97, 47, 47, 98, 98] = [[97], [98, 98]]" by (simp add: elements_def)
  show ?thesis
    using skipelem_elements [of "replicate 14 1" "[47, 47, 97, 47, 47, 98, 98]"] unfolding e list.case by (auto simp: DIRSIZ_def)
qed

end
