(* ===== verification/Fs_Op.thy ===== *)
theory Fs_Op
  imports Fs_Dir
begin

text \<open>
  A whole file system call: \<open>begin_op\<close>, changes inside the transaction, \<open>end_op\<close> (\<open>kernel/log.c\<close>). Between calls the log is
  empty and the cache agrees with the disk.
\<close>

definition begin_fs :: "fs \<Rightarrow> fs run" where
  "begin_fs s = (case begin_op (fl (fk s)) of None \<Rightarrow> None | Some l \<Rightarrow> Some (Inr (s\<lparr>fk := (fk s)\<lparr>fl := l\<rparr>\<rparr>)))"

definition end_fs :: "int \<Rightarrow> fs \<Rightarrow> fs run" where
  "end_fs p s = bind_run (end_op p (fk s)) (\<lambda>k. Some (Inr (s\<lparr>fk := k\<rparr>)))"

section \<open>The state between calls\<close>

definition idle :: "uint \<times> uint set \<times> nat \<Rightarrow> (uint \<Rightarrow> block) \<Rightarrow> fs \<Rightarrow> bool" where
  "idle e V s \<longleftrightarrow> (case e of (d, A, cap) \<Rightarrow> let l = fl (fk s) in
     l_dev l = d \<and> area l = A \<and> int cap = min (int LOGSIZE) (l_size l - 1) \<and> cap < NBUF \<and> outstanding l = 0 \<and> \<not> committing l \<and> lh_n l = 0 \<and>
     length (lh_block l) = LOGSIZE \<and> length (V (l_start l)) = BSIZE \<and> get32 (V (l_start l)) 0 = 0 \<and> binv d (fc (fk s)) \<and>
     (\<exists>W. cabs d (fc (fk s)) = (V, \<lambda>_. 0, \<lambda>_. None, V, W)))"

lemma idle_begin:
  assumes "idle (d, A, cap) V s"
  shows "\<exists>s'. begin_fs s = Some (Inr s') \<and> ftx (d, A, cap, 1) V {} (\<lambda>_. None) s' \<and> sb s' = sb s \<and> inodes s' = inodes s"
proof -
  let ?l = "(fl (fk s))\<lparr>outstanding := 1\<rparr>"
  have b: "begin_op (fl (fk s)) = Some ?l" using assms by (simp add: idle_def begin_op_def MAXOPBLOCKS_def LOGSIZE_30 Let_def)
  obtain W where W: "cabs d (fc (fk s)) = (V, \<lambda>_. 0, \<lambda>_. None, V, W)" using assms by (auto simp: idle_def Let_def)
  have "ftx (d, A, cap, 1) V {} (\<lambda>_. None) (s\<lparr>fk := (fk s)\<lparr>fl := ?l\<rparr>\<rparr>)"
    unfolding ftx_def by (rule txI) (use assms W in \<open>auto simp: idle_def Let_def trans_ok_def logged_def area_def log_block_def\<close>)
  then show ?thesis using b by (simp add: begin_fs_def)
qed

text \<open>The disk after a whole commit.\<close>

lemma commit_done:
  assumes ok: "trans_ok l" and hd: "length (D (l_start l)) = BSIZE" "get32 (D (l_start l)) 0 = 0"
    and V: "\<And>bn. bn \<notin> logged l \<Longrightarrow> V bn = D bn"
  defines "F \<equiv> apply_writes (commit_writes l V D) D"
  shows "\<And>bn. bn \<notin> area l \<Longrightarrow> F bn = V bn" "length (F (l_start l)) = BSIZE" "get32 (F (l_start l)) 0 = 0"
proof -
  let ?C = "committed l V D" and ?h = "l_start l"
  have len: "length (?C ?h) = BSIZE" using committed_facts(2) [where V = V and D = D, OF ok hd(1)] by (simp add: log_ok_def)
  have "F ?h = put32 (?C ?h) 0 0" by (simp add: F_def commit_writes_def recover_writes_def)
  then show h: "length (F ?h) = BSIZE" "get32 (F ?h) 0 = 0" using get32_cleared [OF len] by simp_all
  have lb: "length (lh_block l) = LOGSIZE" using ok by (simp add: trans_ok_def)
  have lw: "nat (lh_n l) < length (commit_writes l V D)" by (simp add: commit_writes_def log_writes_def)
  have "logical l F bn = V bn" if "bn \<notin> area l" for bn
    using commit_prefix [where V = V and D = D and j = "length (commit_writes l V D)", OF ok hd] V that lw
    by (simp add: F_def logged_def)
  then show "F bn = V bn" if "bn \<notin> area l" for bn using cleared_log(3) [where D = F and l = l, OF h lb] that by simp
qed

lemma idle_end:
  assumes t: "ftx (d, A, cap, 1) V L (\<lambda>_. None) s" and cap: "cap < NBUF"
  shows "\<exists>s' V'. end_fs p s = Some (Inr s') \<and> idle (d, A, cap) V' s' \<and> (\<forall>bn. bn \<notin> A \<longrightarrow> V' bn = V bn) \<and> sb s' = sb s \<and> inodes s' = inodes s"
proof -
  let ?l = "(fl (fk s))\<lparr>outstanding := 0, committing := True\<rparr>" and ?c = "fc (fk s)"
  obtain R D W where l: "l_dev (fl (fk s)) = d" "area (fl (fk s)) = A" "int cap = min (int LOGSIZE) (l_size (fl (fk s)) - 1)"
    "trans_ok (fl (fk s))" "logged (fl (fk s)) = L" "outstanding (fl (fk s)) = 1" "\<not> committing (fl (fk s))" and inv: "binv d ?c"
    and abs: "cabs d ?c = (V, R, \<lambda>_. None, D, W)" and R: "\<forall>bn. R bn = (if bn \<in> L then 1 else 0)" and D: "\<forall>bn. bn \<notin> L \<longrightarrow> V bn = D bn"
    and hd: "length (D (l_start (fl (fk s)))) = BSIZE" "get32 (D (l_start (fl (fk s)))) 0 = 0"
    using t unfolding ftx_def tx_def by auto
  have ok: "trans_ok ?l" "logged ?l = L" "area ?l = A" using l(2,4,5) by (auto simp: trans_ok_def logged_def area_def log_block_def)
  have lb: "length (lh_block ?l) = LOGSIZE" using ok(1) by (simp add: trans_ok_def)
  show ?thesis
  proof (cases "lh_n (fl (fk s)) > 0")
    case True
    have n: "lh_n ?l < int NBUF" using l(3,4) cap by (auto simp: trans_ok_def NBUF_def LOGSIZE_30)
    have "R = pins ?l 0"
      using R ok(1) unfolding ok(2) [symmetric] logged_def trans_ok_def pins_def fun_eq_iff
      by (auto simp: in_set_conv_nth image_iff)
    then have abs': "cabs (l_dev ?l) ?c = (V, pins ?l 0, \<lambda>_. None, D, W)" using abs l(1) by simp
    let ?ws = "commit_writes ?l V D"
    obtain c' where c: "commit p \<lparr>fl = ?l, fc = ?c\<rparr> = Some (Inr \<lparr>fl = ?l\<lparr>lh_n := 0\<rparr>, fc = c'\<rparr>)" "binv d c'"
      "cabs d c' = (apply_writes ?ws V, \<lambda>_. 0, \<lambda>_. None, apply_writes ?ws D, W @ ?ws)"
      using commit_spec [OF ok(1) _ n _ _ abs', of p] True hd inv l(1) by auto
    have eq: "apply_writes ?ws V = apply_writes ?ws D" using unreferenced_clean(1) [OF c(2,3)] by auto
    note f = commit_done [OF ok(1), of D V, unfolded ok(2,3)]
    let ?s = "s\<lparr>fk := \<lparr>fl = ?l\<lparr>lh_n := 0, committing := False\<rparr>, fc = c'\<rparr>\<rparr>"
    have "(fk s)\<lparr>fl := ?l\<rparr> = \<lparr>fl = ?l, fc = ?c\<rparr>" by simp
    then have "commit p ((fk s)\<lparr>fl := ?l\<rparr>) = Some (Inr \<lparr>fl = ?l\<lparr>lh_n := 0\<rparr>, fc = c'\<rparr>)" using c(1) by (simp only:)
    then have "end_fs p s = Some (Inr ?s)" using l(6,7) by (simp add: end_fs_def end_op_def Let_def)
    moreover have "idle (d, A, cap) (apply_writes ?ws D) ?s"
      using f hd D c(2) c(3) [unfolded eq] l(1-3) lb cap by (auto simp: idle_def Let_def area_def log_block_def)
    ultimately show ?thesis using f(1) hd D by (intro exI [of _ ?s] exI [of _ "apply_writes ?ws D"]) auto
  next
    case False
    then have z: "lh_n (fl (fk s)) = 0" using l(4) by (simp add: trans_ok_def)
    then have L: "L = {}" using l(5) by (simp add: logged_def)
    then have VD: "V = D" "R = (\<lambda>_. 0)" using D R by auto
    let ?s = "s\<lparr>fk := (fk s)\<lparr>fl := (fl (fk s))\<lparr>outstanding := 0, committing := False\<rparr>\<rparr>\<rparr>"
    have "end_fs p s = Some (Inr ?s)" using z l(6,7) by (simp add: end_fs_def end_op_def commit_def Let_def)
    moreover have "idle (d, A, cap) V ?s" using l(1-3) lb z cap abs inv hd VD by (auto simp: idle_def Let_def area_def log_block_def)
    ultimately show ?thesis by auto
  qed
qed

end
