(* ===== verification/Ring.thy ===== *)
theory Ring
  imports Prelude
begin

text \<open>
  Ring buffers with free-running counters. Pipes, the console and the UART keep bytes in an
  array whose size \<open>N\<close> is a power of two, between a read counter \<open>r\<close> and a write counter
  \<open>w\<close> that are never reduced and wrap around at their word width. The generic lemmas say
  what such a buffer holds; the locale \<open>ring\<close> is the contract its clients rely on.
\<close>

section \<open>Contents\<close>

definition ring_contents :: "nat \<Rightarrow> 'a list \<Rightarrow> 'w :: len word \<Rightarrow> 'w word \<Rightarrow> 'a list" where
  "ring_contents N buf r w = map (\<lambda>k. buf ! (unat (r + of_nat k) mod N)) [0..<unat (w - r)]"

lemma length_ring_contents [simp]: "length (ring_contents N buf r w) = unat (w - r)"
  by (simp add: ring_contents_def)

lemma ring_empty: "ring_contents N buf r r = []"
  by (simp add: ring_contents_def)

lemma ring_empty_iff: "ring_contents N buf r w = [] \<longleftrightarrow> r = w"
proof -
  have "ring_contents N buf r w = [] \<longleftrightarrow> unat (w - r) = 0" by (metis length_0_conv length_ring_contents)
  also have "\<dots> \<longleftrightarrow> w - r = 0" by (rule unsigned_eq_0_iff)
  finally show ?thesis by auto
qed

lemma ring_full_iff:
  fixes r w :: "'w :: len word"
  assumes "N < 2 ^ LENGTH('w)"
  shows "w = r + of_nat N \<longleftrightarrow> length (ring_contents N buf r w) = N"
proof -
  have "w = r + of_nat N \<longleftrightarrow> w - r = of_nat N" by (auto simp: algebra_simps)
  also have "\<dots> \<longleftrightarrow> unat (w - r) = N"
    using unat_of_nat_less [OF assms] word_unat_eq_iff [of "w - r" "of_nat N"] by auto
  finally show ?thesis by simp
qed

text \<open>Wrap-around of the counter does not disturb the index, as \<open>N\<close> divides the word size.\<close>

lemma ring_index:
  fixes r :: "'w :: len word"
  assumes "N dvd 2 ^ LENGTH('w)"
  shows "unat (r + of_nat k) mod N = (unat r + k) mod N"
proof -
  have "unat (r + of_nat k) = (unat r + k) mod 2 ^ LENGTH('w)"
    by (simp add: unat_word_ariths unat_of_nat mod_add_right_eq)
  then show ?thesis using assms by (simp add: mod_mod_cancel)
qed

lemma offset_mod_distinct:
  assumes "k < d" "d < N"
  shows "(a + k) mod N \<noteq> (a + d) mod (N :: nat)"
proof
  assume "(a + k) mod N = (a + d) mod N"
  then have "N dvd (a + d) - (a + k)" using assms by (intro mod_eq_dvd_iff_nat [THEN iffD1]) auto
  then have "N \<le> d - k" using assms by (intro dvd_imp_le) auto
  then show False using assms by simp
qed

lemma unat_Suc_diff:
  fixes r w :: "'w :: len word"
  assumes "unat (w - r) < N" "N < 2 ^ LENGTH('w)"
  shows "unat (w + 1 - r) = Suc (unat (w - r))"
proof -
  have "w + 1 - r = of_nat (Suc (unat (w - r)))" by simp
  moreover have "Suc (unat (w - r)) < 2 ^ LENGTH('w)" using assms by simp
  ultimately show ?thesis by (simp only: unat_of_nat_less)
qed

lemma ring_put:
  fixes r w :: "'w :: len word"
  assumes N: "N dvd 2 ^ LENGTH('w)" "N < 2 ^ LENGTH('w)" and room: "unat (w - r) < N" and len: "length buf = N"
  shows "ring_contents N (buf[unat w mod N := b]) r (w + 1) = ring_contents N buf r w @ [b]"
proof -
  let ?d = "unat (w - r)"
  have w: "w = r + of_nat ?d" by simp
  have idx: "unat w mod N = (unat r + ?d) mod N" using ring_index [OF N(1), of r ?d] by simp
  have old: "buf[unat w mod N := b] ! (unat (r + of_nat k) mod N) = buf ! (unat (r + of_nat k) mod N)" if "k < ?d" for k
    using offset_mod_distinct [OF that room, of "unat r"] unfolding idx ring_index [OF N(1)] by simp
  have new: "buf[unat w mod N := b] ! (unat (r + of_nat ?d) mod N) = b"
    using len room unfolding idx ring_index [OF N(1)] by simp
  show ?thesis
    unfolding ring_contents_def unat_Suc_diff [OF room N(2)] using old new by simp
qed

lemma ring_get:
  fixes r w :: "'w :: len word"
  assumes "w \<noteq> r"
  shows "ring_contents N buf r w = buf ! (unat r mod N) # ring_contents N buf (r + 1) w"
proof -
  have ne: "w - r \<noteq> 0" using assms by simp
  have d: "unat (w - r) = Suc (unat (w - (r + 1)))"
    using unat_minus_one [OF ne] unat_gt_0 [of "w - r"] ne by (simp add: algebra_simps)
  show ?thesis
    unfolding ring_contents_def d by (simp add: upt_conv_Cons map_Suc_upt [symmetric] add_ac del: upt_Suc)
qed

lemma ring_get_length:
  fixes r w :: "'w :: len word"
  assumes "w \<noteq> r"
  shows "unat (w - r) = Suc (unat (w - (r + 1)))"
  using arg_cong [OF ring_get [OF assms, of 1 "[]"], of length] by simp

lemma ring_unput:
  fixes r w :: "'w :: len word"
  assumes "w \<noteq> r"
  shows "ring_contents N buf r w = ring_contents N buf r (w - 1) @ [buf ! (unat (w - 1) mod N)]"
    "unat (w - r) = Suc (unat (w - 1 - r))"
proof -
  show d: "unat (w - r) = Suc (unat (w - 1 - r))"
    using ring_get_length [OF assms] by (simp add: algebra_simps)
  show "ring_contents N buf r w = ring_contents N buf r (w - 1) @ [buf ! (unat (w - 1) mod N)]"
    unfolding ring_contents_def d by simp
qed

lemma ring_append:
  fixes r w e :: "'w :: len word"
  assumes "unat (w - r) + unat (e - w) < 2 ^ LENGTH('w)"
  shows "ring_contents N buf r w @ ring_contents N buf w e = ring_contents N buf r e"
    "unat (e - r) = unat (w - r) + unat (e - w)"
proof -
  have "e - r = (w - r) + (e - w)" by simp
  then show d: "unat (e - r) = unat (w - r) + unat (e - w)"
    using assms by (metis unat_add_lem)
  have "w + of_nat k = r + of_nat (unat (w - r) + k)" for k by simp
  then have "ring_contents N buf w e = map (\<lambda>k. buf ! (unat (r + of_nat k) mod N)) [unat (w - r)..<unat (e - r)]"
    unfolding ring_contents_def d
    by (intro nth_equalityI) (simp_all del: of_nat_add)
  then show "ring_contents N buf r w @ ring_contents N buf w e = ring_contents N buf r e"
    unfolding ring_contents_def d by (simp add: map_append [symmetric] upt_add_eq_append [symmetric] del: map_append)
qed

section \<open>The contract\<close>

locale ring =
  fixes inv :: "'r \<Rightarrow> bool" and contents :: "'r \<Rightarrow> uchar list" and cap :: nat
    and put :: "'r \<Rightarrow> uchar \<Rightarrow> 'r" and get :: "'r \<Rightarrow> uchar \<times> 'r"
  assumes bounded: "inv r \<Longrightarrow> length (contents r) \<le> cap"
    and put: "inv r \<Longrightarrow> length (contents r) < cap \<Longrightarrow> inv (put r b) \<and> contents (put r b) = contents r @ [b]"
    and get: "inv r \<Longrightarrow> contents r = b # bs \<Longrightarrow>
      fst (get r) = b \<and> inv (snd (get r)) \<and> contents (snd (get r)) = bs"
begin

fun put_all :: "'r \<Rightarrow> uchar list \<Rightarrow> 'r" where
  "put_all r [] = r"
| "put_all r (b # bs) = put_all (put r b) bs"

fun get_n :: "nat \<Rightarrow> 'r \<Rightarrow> uchar list \<times> 'r" where
  "get_n 0 r = ([], r)"
| "get_n (Suc n) r = (let (b, r) = get r; (bs, r) = get_n n r in (b # bs, r))"

lemma put_all_appends:
  "inv r \<Longrightarrow> length (contents r) + length bs \<le> cap \<Longrightarrow>
   inv (put_all r bs) \<and> contents (put_all r bs) = contents r @ bs"
proof (induction bs arbitrary: r)
  case (Cons b bs)
  then show ?case using put [of r b] by simp
qed simp

lemma get_n_takes:
  "inv r \<Longrightarrow> n \<le> length (contents r) \<Longrightarrow>
   fst (get_n n r) = take n (contents r) \<and> inv (snd (get_n n r)) \<and> contents (snd (get_n n r)) = drop n (contents r)"
proof (induction n arbitrary: r)
  case (Suc n)
  then obtain b bs where c: "contents r = b # bs" by (cases "contents r") auto
  then show ?case
    using get [OF Suc.prems(1) c] Suc.IH [of "snd (get r)"] Suc.prems by (simp add: split_def Let_def)
qed simp

end

end
