(* ===== verification/Pipe.thy ===== *)
theory Pipe
  imports Ring
begin

text \<open>
  Pipes (\<open>kernel/pipe.c\<close>). Every operation runs under the pipe's lock until it returns or
  sleeps, so a call is a sequence of atomic runs: a run ends in \<open>Returns v\<close>, or in
  \<open>Sleeps i\<close> when the loop goes to sleep at index \<open>i\<close>, from which it continues when it
  is woken. The channels on which a run calls \<open>wakeup\<close> are part of its result. The one-byte
  \<open>copyin\<close> and \<open>copyout\<close> calls at \<open>addr + i\<close> are the arguments \<open>src\<close> and \<open>dst\<close>: the
  byte read, \<open>None\<close> on a fault, and whether the store succeeds.
\<close>

section \<open>Data\<close>

definition PIPESIZE :: nat where "PIPESIZE = 512"

record pipe =
  data :: "uchar list"
  nread :: uint
  nwrite :: uint
  readopen :: bool
  writeopen :: bool

datatype pchan = Chan_nread | Chan_nwrite
datatype outcome = Returns int | Sleeps nat

section \<open>Operations\<close>

text \<open>The page that \<open>kalloc\<close> returned holds \<open>bytes\<close>.\<close>

definition pipe_init :: "uchar list \<Rightarrow> pipe" where
  "pipe_init bytes = \<lparr>data = bytes, nread = 0, nwrite = 0, readopen = True, writeopen = True\<rparr>"

text \<open>\<open>pi->data[pi->nwrite++ % PIPESIZE] = ch\<close> and \<open>ch = pi->data[pi->nread++ % PIPESIZE]\<close>.\<close>

definition pipe_put :: "pipe \<Rightarrow> uchar \<Rightarrow> pipe" where
  "pipe_put pi ch = pi\<lparr>data := (data pi)[unat (nwrite pi) mod PIPESIZE := ch], nwrite := nwrite pi + 1\<rparr>"

definition pipe_get :: "pipe \<Rightarrow> uchar \<times> pipe" where
  "pipe_get pi = (data pi ! (unat (nread pi) mod PIPESIZE), pi\<lparr>nread := nread pi + 1\<rparr>)"

text \<open>The result says whether the page is freed.\<close>

definition pipeclose :: "bool \<Rightarrow> pipe \<Rightarrow> pipe \<times> pchan list \<times> bool" where
  "pipeclose writable pi =
     (let (pi, wakes) = (if writable then (pi\<lparr>writeopen := False\<rparr>, [Chan_nread])
                         else (pi\<lparr>readopen := False\<rparr>, [Chan_nwrite]))
      in (pi, wakes, \<not> readopen pi \<and> \<not> writeopen pi))"

function pipewrite_loop ::
    "(nat \<Rightarrow> uchar option) \<Rightarrow> bool \<Rightarrow> nat \<Rightarrow> nat \<Rightarrow> pipe \<Rightarrow> pipe \<times> pchan list \<times> outcome" where
  "pipewrite_loop src is_killed n i pi =
     (if i < n
      then if \<not> readopen pi \<or> is_killed then (pi, [], Returns (-1))
           else if nwrite pi = nread pi + of_nat PIPESIZE then (pi, [Chan_nread], Sleeps i)
           else (case src i of
                   None \<Rightarrow> (pi, [Chan_nread], Returns (int i))
                 | Some ch \<Rightarrow> pipewrite_loop src is_killed n (i + 1) (pipe_put pi ch))
      else (pi, [Chan_nread], Returns (int i)))"
  by pat_completeness auto
termination
  by (relation "measure (\<lambda>(src, k, n, i, pi). n - i)") auto

declare pipewrite_loop.simps [simp del]

text \<open>A run of \<open>pipewrite\<close> from its start, or from the index \<open>i\<close> where it slept.\<close>

definition pipewrite ::
    "(nat \<Rightarrow> uchar option) \<Rightarrow> bool \<Rightarrow> int \<Rightarrow> nat \<Rightarrow> pipe \<Rightarrow> pipe \<times> pchan list \<times> outcome" where
  "pipewrite src is_killed n i pi = pipewrite_loop src is_killed (nat n) i pi"

text \<open>
  The copying loop of \<open>piperead\<close>; the bytes that reach the caller are part of the result.
  The counter is advanced before the byte is stored.
\<close>

function piperead_loop :: "(nat \<Rightarrow> bool) \<Rightarrow> nat \<Rightarrow> nat \<Rightarrow> pipe \<Rightarrow> pipe \<times> uchar list \<times> nat" where
  "piperead_loop dst n i pi =
     (if i < n \<and> nread pi \<noteq> nwrite pi
      then let (ch, pi) = pipe_get pi
           in if \<not> dst i then (pi, [], i)
              else let (pi, bytes, j) = piperead_loop dst n (i + 1) pi in (pi, ch # bytes, j)
      else (pi, [], i))"
  by pat_completeness auto
termination
  by (relation "measure (\<lambda>(dst, n, i, pi). n - i)") auto

declare piperead_loop.simps [simp del]

definition piperead ::
    "(nat \<Rightarrow> bool) \<Rightarrow> bool \<Rightarrow> int \<Rightarrow> pipe \<Rightarrow> pipe \<times> pchan list \<times> uchar list \<times> outcome" where
  "piperead dst is_killed n pi =
     (if nread pi = nwrite pi \<and> writeopen pi
      then if is_killed then (pi, [], [], Returns (-1)) else (pi, [], [], Sleeps 0)
      else let (pi, bytes, i) = piperead_loop dst (nat n) 0 pi
           in (pi, [Chan_nwrite], bytes, Returns (int i)))"

section \<open>The pipe is a bounded byte queue\<close>

definition pipe_inv :: "pipe \<Rightarrow> bool" where
  "pipe_inv pi \<longleftrightarrow> length (data pi) = PIPESIZE \<and> unat (nwrite pi - nread pi) \<le> PIPESIZE"

definition pipe_contents :: "pipe \<Rightarrow> uchar list" where
  "pipe_contents pi = ring_contents PIPESIZE (data pi) (nread pi) (nwrite pi)"

lemma PIPESIZE_word: "PIPESIZE dvd 2 ^ LENGTH(32)" "PIPESIZE < 2 ^ LENGTH(32)"
  by (simp_all add: PIPESIZE_def)

lemma pipe_full_iff:
  "nwrite pi = nread pi + of_nat PIPESIZE \<longleftrightarrow> length (pipe_contents pi) = PIPESIZE"
  unfolding pipe_contents_def by (rule ring_full_iff [OF PIPESIZE_word(2)])

lemma pipe_empty_iff: "nread pi = nwrite pi \<longleftrightarrow> pipe_contents pi = []"
  unfolding pipe_contents_def by (rule ring_empty_iff [symmetric])

interpretation pq: ring pipe_inv pipe_contents PIPESIZE pipe_put pipe_get
proof
  fix pi show "length (pipe_contents pi) \<le> PIPESIZE" if "pipe_inv pi"
    using that by (simp add: pipe_inv_def pipe_contents_def)
next
  fix pi b assume pi: "pipe_inv pi" "length (pipe_contents pi) < PIPESIZE"
  then have room: "unat (nwrite pi - nread pi) < PIPESIZE" by (simp add: pipe_contents_def)
  have "pipe_contents (pipe_put pi b) = pipe_contents pi @ [b]"
    unfolding pipe_contents_def pipe_put_def
    using ring_put [OF PIPESIZE_word room, of "data pi" b] pi by (simp add: pipe_inv_def)
  moreover have "unat (nwrite pi + 1 - nread pi) \<le> PIPESIZE"
    using unat_Suc_diff [OF room PIPESIZE_word(2)] room by simp
  ultimately show "pipe_inv (pipe_put pi b) \<and> pipe_contents (pipe_put pi b) = pipe_contents pi @ [b]"
    using pi by (simp add: pipe_inv_def pipe_put_def)
next
  fix pi b bs assume pi: "pipe_inv pi" "pipe_contents pi = b # bs"
  then have ne: "nwrite pi \<noteq> nread pi" using pipe_empty_iff [of pi] by auto
  have "unat (nwrite pi - (nread pi + 1)) \<le> PIPESIZE"
    using ring_get_length [OF ne] pi(1) by (simp add: pipe_inv_def)
  then show "fst (pipe_get pi) = b \<and> pipe_inv (snd (pipe_get pi)) \<and> pipe_contents (snd (pipe_get pi)) = bs"
    using ring_get [OF ne, of PIPESIZE "data pi"] pi
    by (simp add: pipe_get_def pipe_contents_def pipe_inv_def)
qed

section \<open>What the operations do to the queue\<close>

text \<open>
  A run of \<open>pipewrite\<close> that starts at \<open>i\<close> accepts the bytes from \<open>i\<close> up to the index where it
  stops, in order, and stops early only when the pipe is full, the source faults, the
  reader is gone or the writer was killed.
\<close>

definition stop_index :: "nat \<Rightarrow> outcome \<Rightarrow> nat" where
  "stop_index i r = (case r of Returns v \<Rightarrow> if v < 0 then i else nat v | Sleeps j \<Rightarrow> j)"

lemma pipewrite_accepts:
  assumes "pipe_inv pi" "i \<le> n" "readopen pi" "\<not> is_killed" "\<And>k. k < n \<Longrightarrow> src k \<noteq> None"
    and "m = min (n - i) (PIPESIZE - length (pipe_contents pi))"
  shows "\<exists>pi'. pipewrite_loop src is_killed n i pi =
      (pi', [Chan_nread], if i + m = n then Returns (int n) else Sleeps (i + m)) \<and>
    pipe_inv pi' \<and> pipe_contents pi' = pipe_contents pi @ map (\<lambda>k. the (src k)) [i..<i + m] \<and>
    readopen pi' = readopen pi \<and> writeopen pi' = writeopen pi"
  using assms
proof (induction src is_killed n i pi arbitrary: m rule: pipewrite_loop.induct)
  case (1 src is_killed n i pi)
  show ?case
  proof (cases "i < n \<and> length (pipe_contents pi) < PIPESIZE")
    case False
    moreover have "length (pipe_contents pi) \<le> PIPESIZE" using 1(2) by (rule pq.bounded)
    ultimately have "m = 0" "i < n \<longrightarrow> nwrite pi = nread pi + of_nat PIPESIZE"
      using 1(7) by (auto simp: pipe_full_iff)
    then show ?thesis using 1(2-5) by (subst pipewrite_loop.simps) auto
  next
    case True
    then obtain ch where ch: "src i = Some ch" using 1(6) by blast
    let ?pi = "pipe_put pi ch"
    have put: "pipe_inv ?pi" "pipe_contents ?pi = pipe_contents pi @ [ch]"
      using pq.put 1(2) True by auto
    have flags: "readopen ?pi = readopen pi" "writeopen ?pi = writeopen pi" by (simp_all add: pipe_put_def)
    have nf: "nwrite pi \<noteq> nread pi + of_nat PIPESIZE" using True pipe_full_iff [of pi] by auto
    then have step: "pipewrite_loop src is_killed n i pi = pipewrite_loop src is_killed n (i + 1) ?pi"
      using True 1(4,5) ch by (subst pipewrite_loop.simps) simp
    have "0 < m" using True 1(7) by auto
    then obtain m' where m: "m = Suc m'" by (cases m) auto
    have m': "m' = min (n - (i + 1)) (PIPESIZE - length (pipe_contents ?pi))"
      using 1(7) m put(2) by simp
    have "\<exists>pi'. pipewrite_loop src is_killed n (i + 1) ?pi =
        (pi', [Chan_nread], if i + 1 + m' = n then Returns (int n) else Sleeps (i + 1 + m')) \<and>
      pipe_inv pi' \<and> pipe_contents pi' = pipe_contents ?pi @ map (\<lambda>k. the (src k)) [i + 1..<i + 1 + m'] \<and>
      readopen pi' = readopen ?pi \<and> writeopen pi' = writeopen ?pi"
      by (rule 1(1)) (use True 1(4-6) nf ch put(1) m' flags in auto)
    moreover have "[i..<i + m] = i # [i + 1..<i + 1 + m']" using m by (simp add: upt_conv_Cons)
    ultimately show ?thesis unfolding step put flags using ch m by auto
  qed
qed

lemma piperead_delivers:
  assumes "pipe_inv pi" "i \<le> n" "\<And>k. k < n \<Longrightarrow> dst k" "m = min (n - i) (length (pipe_contents pi))"
  shows "\<exists>pi'. piperead_loop dst n i pi = (pi', take m (pipe_contents pi), i + m) \<and>
    pipe_inv pi' \<and> pipe_contents pi' = drop m (pipe_contents pi) \<and>
    readopen pi' = readopen pi \<and> writeopen pi' = writeopen pi"
  using assms
proof (induction dst n i pi arbitrary: m rule: piperead_loop.induct)
  case (1 dst n i pi)
  show ?case
  proof (cases "i < n \<and> nread pi \<noteq> nwrite pi")
    case False
    then have "m = 0" using 1(5) pipe_empty_iff [of pi] by auto
    then show ?thesis using False 1(2) by (subst piperead_loop.simps) auto
  next
    case True
    obtain ch bs where c: "pipe_contents pi = ch # bs" using True pipe_empty_iff [of pi] by (cases "pipe_contents pi") auto
    obtain pi1 where g: "pipe_get pi = (ch, pi1)" "pipe_inv pi1" "pipe_contents pi1 = bs"
      using pq.get [OF 1(2) c] by (cases "pipe_get pi") auto
    have flags: "readopen pi1 = readopen pi" "writeopen pi1 = writeopen pi"
      using g(1) by (auto simp: pipe_get_def)
    obtain m' where m: "m = Suc m'" "m' = min (n - (i + 1)) (length (pipe_contents pi1))"
      using True 1(5) c g(3) by (cases m) auto
    have "\<exists>pi'. piperead_loop dst n (i + 1) pi1 = (pi', take m' (pipe_contents pi1), i + 1 + m') \<and>
        pipe_inv pi' \<and> pipe_contents pi' = drop m' (pipe_contents pi1) \<and>
        readopen pi' = readopen pi1 \<and> writeopen pi' = writeopen pi1"
      by (rule 1(1) [OF True g(1) [symmetric] refl]) (use True 1(4) g(2) m(2) in auto)
    then show ?thesis
      using True g 1(4) c m(1) flags by (subst piperead_loop.simps) auto
  qed
qed

section \<open>Runs of many callers\<close>

text \<open>
  The atomic runs of all callers, in the order in which they hold the lock. A writer whose
  run slept continues later with a run from its index.
\<close>

datatype pipe_run =
    Write "nat \<Rightarrow> uchar option" bool int nat   \<comment> \<open>source, killed, count, start index\<close>
  | Read bool int                              \<comment> \<open>killed, count; the destination is valid\<close>
  | Close bool

text \<open>The bytes a run accepts or delivers.\<close>

definition exec_run :: "pipe_run \<Rightarrow> pipe \<Rightarrow> pipe \<times> uchar list \<times> uchar list" where
  "exec_run e pi =
     (case e of
        Write src k n i \<Rightarrow>
          (let (pi', wakes, r) = pipewrite src k n i pi
           in (pi', map (\<lambda>j. the (src j)) [i..<i + unat (nwrite pi' - nwrite pi)], []))
      | Read k n \<Rightarrow> (let (pi', wakes, bytes, r) = piperead (\<lambda>_. True) k n pi in (pi', [], bytes))
      | Close w \<Rightarrow> (let (pi', wakes, freed) = pipeclose w pi in (pi', [], [])))"

fun exec_runs :: "pipe_run list \<Rightarrow> pipe \<Rightarrow> pipe \<times> uchar list \<times> uchar list" where
  "exec_runs [] pi = (pi, [], [])"
| "exec_runs (e # es) pi =
     (let (pi, acc, del) = exec_run e pi; (pi, acc', del') = exec_runs es pi
      in (pi, acc @ acc', del @ del'))"

text \<open>A run of \<open>pipewrite\<close> in general: it accepts a prefix of what it is asked to write.\<close>

lemma pipewrite_loop_accepts:
  assumes "pipe_inv pi"
  shows "case pipewrite_loop src k n i pi of (pi', wakes, r) \<Rightarrow> pipe_inv pi' \<and>
    (\<exists>m. nwrite pi' = nwrite pi + of_nat m \<and> m \<le> PIPESIZE - length (pipe_contents pi) \<and>
       pipe_contents pi' = pipe_contents pi @ map (\<lambda>j. the (src j)) [i..<i + m])"
  using assms
proof (induction src k n i pi rule: pipewrite_loop.induct)
  case (1 src k n i pi)
  have stop: "pipe_inv pi \<and> (\<exists>m. nwrite pi = nwrite pi + of_nat m \<and> m \<le> PIPESIZE - length (pipe_contents pi) \<and>
       pipe_contents pi = pipe_contents pi @ map (\<lambda>j. the (src j)) [i..<i + m])"
    using 1(2) by (auto intro: exI [of _ 0])
  show ?case
  proof (cases "i < n \<and> readopen pi \<and> \<not> k \<and> nwrite pi \<noteq> nread pi + of_nat PIPESIZE \<and> src i \<noteq> None")
    case False
    then show ?thesis using stop
      by (subst pipewrite_loop.simps) (auto split: option.splits)
  next
    case True
    then obtain ch where ch: "src i = Some ch" by blast
    have room: "length (pipe_contents pi) < PIPESIZE"
      using True pipe_full_iff [of pi] pq.bounded [OF 1(2)] by auto
    note put = pq.put [OF 1(2) room, of ch]
    have step: "pipewrite_loop src k n i pi = pipewrite_loop src k n (i + 1) (pipe_put pi ch)"
      using True ch by (subst pipewrite_loop.simps) simp
    obtain pi' wakes r where e: "pipewrite_loop src k n (i + 1) (pipe_put pi ch) = (pi', wakes, r)"
      by (metis prod_cases3)
    have "case pipewrite_loop src k n (i + 1) (pipe_put pi ch) of (pi', wakes, r) \<Rightarrow> pipe_inv pi' \<and>
      (\<exists>m. nwrite pi' = nwrite (pipe_put pi ch) + of_nat m \<and> m \<le> PIPESIZE - length (pipe_contents (pipe_put pi ch)) \<and>
         pipe_contents pi' = pipe_contents (pipe_put pi ch) @ map (\<lambda>j. the (src j)) [i + 1..<i + 1 + m])"
      by (rule 1(1)) (use True put ch in auto)
    then obtain m where m: "pipe_inv pi'" "nwrite pi' = nwrite (pipe_put pi ch) + of_nat m"
      "m \<le> PIPESIZE - length (pipe_contents (pipe_put pi ch))"
      "pipe_contents pi' = pipe_contents (pipe_put pi ch) @ map (\<lambda>j. the (src j)) [i + 1..<i + 1 + m]"
      unfolding e by auto
    then have "nwrite pi' = nwrite pi + of_nat (Suc m) \<and> Suc m \<le> PIPESIZE - length (pipe_contents pi) \<and>
       pipe_contents pi' = pipe_contents pi @ map (\<lambda>j. the (src j)) [i..<i + Suc m]"
      using put room ch by (auto simp: pipe_put_def upt_conv_Cons simp del: upt_Suc)
    then show ?thesis using m(1) unfolding step e by blast
  qed
qed

lemma exec_run_fifo:
  assumes "pipe_inv pi" "exec_run e pi = (pi', acc, del)"
  shows "pipe_inv pi' \<and> pipe_contents pi @ acc = del @ pipe_contents pi'"
proof (cases e)
  case (Write src k n i)
  obtain wakes r where w: "pipewrite_loop src k (nat n) i pi = (pi', wakes, r)"
    "acc = map (\<lambda>j. the (src j)) [i..<i + unat (nwrite pi' - nwrite pi)]" "del = []"
    using assms(2) Write by (auto simp: exec_run_def pipewrite_def split: prod.splits)
  obtain m where m: "pipe_inv pi'" "nwrite pi' = nwrite pi + of_nat m" "m \<le> PIPESIZE"
      "pipe_contents pi' = pipe_contents pi @ map (\<lambda>j. the (src j)) [i..<i + m]"
    using pipewrite_loop_accepts [OF assms(1), where src = src and k = k and n = "nat n" and i = i] w(1) by auto
  have "unat (nwrite pi' - nwrite pi) = m" using m(2,3) PIPESIZE_word(2) by (simp add: unat_of_nat_less)
  then show ?thesis using m w by simp
next
  case (Read k n)
  show ?thesis
  proof (cases "nread pi = nwrite pi \<and> writeopen pi")
    case True
    then show ?thesis using assms Read by (auto simp: exec_run_def piperead_def split: if_splits)
  next
    case False
    obtain j where "piperead_loop (\<lambda>_. True) (nat n) 0 pi = (pi', del, j)" "acc = []"
      using assms(2) Read False by (auto simp: exec_run_def piperead_def split: prod.splits)
    then show ?thesis using piperead_delivers [OF assms(1) _ _ refl, of 0 "nat n" "\<lambda>_. True"] by auto
  qed
next
  case (Close w)
  then show ?thesis
    using assms by (auto simp: exec_run_def pipeclose_def pipe_inv_def pipe_contents_def Let_def split: if_splits)
qed

text \<open>
  Property C13 (a pipe is a byte stream): over any interleaving of runs of writers and readers, sleeping
  writers included, and however often the 32-bit counters wrap around, the bytes delivered
  to readers followed by the bytes in the buffer are the bytes accepted from writers, in
  order; the buffer never holds more than its 512 bytes.
\<close>

theorem pipe_stream:
  assumes "length bytes = 512" "exec_runs es (pipe_init bytes) = (pi, acc, del)"
  shows "acc = del @ pipe_contents pi \<and> length (pipe_contents pi) \<le> 512"
proof -
  have "pipe_inv pi \<and> pipe_contents pi0 @ acc = del @ pipe_contents pi"
    if "pipe_inv pi0" "exec_runs es pi0 = (pi, acc, del)" for pi0 acc del
    using that
  proof (induction es arbitrary: pi0 acc del)
    case (Cons e es)
    obtain pi1 a d a' d' where 1: "exec_run e pi0 = (pi1, a, d)" "exec_runs es pi1 = (pi, a', d')"
      "acc = a @ a'" "del = d @ d'"
      using Cons.prems(2) by (auto split: prod.splits)
    then show ?case using exec_run_fifo [OF Cons.prems(1) 1(1)] Cons.IH [OF _ 1(2)]
      by (metis append.assoc)
  qed auto
  moreover have "pipe_inv (pipe_init bytes)" "pipe_contents (pipe_init bytes) = []"
    using assms(1) by (simp_all add: pipe_init_def pipe_inv_def PIPESIZE_def pipe_contents_def ring_empty)
  ultimately have "pipe_inv pi" "acc = del @ pipe_contents pi" using assms(2) by fastforce+
  then show ?thesis using pq.bounded [of pi] by (simp add: PIPESIZE_def)
qed

theorem pipe_stream_witness:
  "let (pi, acc, del) = exec_runs [Write (\<lambda>i. Some (of_nat i)) False 600 0, Read False 5,
       Write (\<lambda>i. Some (of_nat i)) False 600 512] (pipe_init (replicate 512 5))
   in acc = del @ pipe_contents pi \<and> length (pipe_contents pi) \<le> 512"
proof -
  obtain pi acc del where e: "exec_runs [Write (\<lambda>i. Some (of_nat i)) False 600 0, Read False 5,
       Write (\<lambda>i. Some (of_nat i)) False 600 512] (pipe_init (replicate 512 5)) = (pi, acc, del)"
    by (metis prod_cases3)
  have len: "length (replicate 512 (5 :: uchar)) = 512" by simp
  show ?thesis using pipe_stream [OF len e] by (simp only: e prod.case Let_def)
qed

end
