(* ===== verification/File.thy ===== *)
theory File
  imports Fs_Op Pipe
begin

text \<open>
  The file table (\<open>kernel/file.c\<close>, \<open>kernel/file.h\<close>): open files over pipes, inodes and devices. A file is an index into
  \<open>ftable\<close>, a pipe an index into the list of pipes. User memory is an argument: \<open>ok addr n\<close> says whether \<open>n\<close> bytes can be
  stored at \<open>addr\<close>, \<open>get addr n\<close> is what is copied from there and whether all of it was. The device switch is an argument
  too: the functions of a major number, if it has them. A call that goes to sleep on a pipe gives \<open>None\<close> here;
  \<open>Pipe\<close> has its continuation.
\<close>

section \<open>Data\<close>

datatype ftype = FD_NONE | FD_PIPE | FD_INODE | FD_DEVICE

record open_file =
  f_type :: ftype
  f_ref :: int
  f_readable :: bool
  f_writable :: bool
  f_pipe :: nat
  f_ip :: nat
  f_off :: uint
  f_major :: int

record fstate =
  ftable :: "open_file list"
  ffs :: fs
  pipes :: "pipe list"

definition NFILE :: nat where "NFILE = 100"
definition NDEV :: int where "NDEV = 10"

type_synonym user_ok = "uint64 \<Rightarrow> nat \<Rightarrow> bool"
type_synonym user_get = "uint64 \<Rightarrow> nat \<Rightarrow> uchar list \<times> bool"

definition upd_file :: "nat \<Rightarrow> (open_file \<Rightarrow> open_file) \<Rightarrow> fstate \<Rightarrow> fstate" where
  "upd_file f g s = s\<lparr>ftable := (ftable s)[f := g (ftable s ! f)]\<rparr>"

text \<open>A call of the file system, of one that may panic, and of one that starts a transaction.\<close>

definition on_fs :: "(fs \<Rightarrow> fs run) \<Rightarrow> fstate \<Rightarrow> fstate run" where
  "on_fs c s = bind_run (c (ffs s)) (\<lambda>x. Some (Inr (s\<lparr>ffs := x\<rparr>)))"

section \<open>Operations\<close>

fun filealloc_scan :: "nat list \<Rightarrow> fstate \<Rightarrow> nat option \<times> fstate" where
  "filealloc_scan [] s = (None, s)"
| "filealloc_scan (f # fs) s =
     (if f_ref (ftable s ! f) = 0 then (Some f, upd_file f (\<lambda>x. x\<lparr>f_ref := 1\<rparr>) s) else filealloc_scan fs s)"

definition filealloc :: "fstate \<Rightarrow> nat option \<times> fstate" where
  "filealloc s = filealloc_scan [0..<NFILE] s"

definition filedup :: "nat \<Rightarrow> fstate \<Rightarrow> fstate cresult" where
  "filedup f s =
     (if f_ref (ftable s ! f) < 1 then Inl (Panic ''filedup'') else Inr (upd_file f (\<lambda>x. x\<lparr>f_ref := f_ref x + 1\<rparr>) s))"

definition close_pipe :: "nat \<Rightarrow> bool \<Rightarrow> fstate \<Rightarrow> fstate" where
  "close_pipe q writable s = s\<lparr>pipes := (pipes s)[q := fst (pipeclose writable (pipes s ! q))]\<rparr>"

definition fileclose :: "int \<Rightarrow> nat \<Rightarrow> fstate \<Rightarrow> fstate run" where
  "fileclose p f s =
     (if f_ref (ftable s ! f) < 1 then Some (Inl (Panic ''fileclose''))
      else let s = upd_file f (\<lambda>x. x\<lparr>f_ref := f_ref x - 1\<rparr>) s
           in if f_ref (ftable s ! f) > 0 then Some (Inr s)
              else let ff = ftable s ! f;
                       s = upd_file f (\<lambda>x. x\<lparr>f_ref := 0, f_type := FD_NONE\<rparr>) s
                   in case f_type ff of
                        FD_PIPE \<Rightarrow> Some (Inr (close_pipe (f_pipe ff) (f_writable ff) s))
                      | FD_NONE \<Rightarrow> Some (Inr s)
                      | _ \<Rightarrow> bind_run (on_fs begin_fs s) (\<lambda>s.
                             bind_run (on_fs (iput p (f_ip ff)) s) (on_fs (end_fs p))))"

text \<open>
  \<open>struct stat\<close> as the 24 bytes that \<open>copyout\<close> takes from the stack; the compiler puts four bytes between \<open>nlink\<close> and
  \<open>size\<close>, with contents \<open>pad\<close>.
\<close>

definition stat_bytes :: "uchar list \<Rightarrow> stat \<Rightarrow> uchar list" where
  "stat_bytes pad st = le_bytes 4 (unat (st_dev st)) @ le_bytes 4 (unat (st_ino st)) @ le_bytes 2 (unat (st_type st)) @
     le_bytes 2 (unat (st_nlink st)) @ take 4 pad @ le_bytes 8 (unat (st_size st))"

definition filestat :: "int \<Rightarrow> user_ok \<Rightarrow> uchar list \<Rightarrow> nat \<Rightarrow> uint64 \<Rightarrow> fstate \<Rightarrow> (int \<times> uchar list \<times> fstate) run" where
  "filestat p ok pad f addr s =
     (let ip = f_ip (ftable s ! f)
      in if f_type (ftable s ! f) = FD_INODE \<or> f_type (ftable s ! f) = FD_DEVICE
         then bind_run (on_fs (ilock p ip) s) (\<lambda>s.
              let st = stati (ino (ffs s) ip)
              in bind_run (on_fs (\<lambda>x. Some (iunlock p ip x)) s) (\<lambda>s.
                 if \<not> ok addr 24 then Some (Inr (-1, [], s)) else Some (Inr (0, stat_bytes pad st, s))))
         else Some (Inr (-1, [], s)))"

definition pipe_result :: "nat \<Rightarrow> pipe \<Rightarrow> outcome \<Rightarrow> uchar list \<Rightarrow> fstate \<Rightarrow> (int \<times> uchar list \<times> fstate) run" where
  "pipe_result q pi r out s =
     (case r of Returns v \<Rightarrow> Some (Inr (v, out, s\<lparr>pipes := (pipes s)[q := pi]\<rparr>)) | Sleeps _ \<Rightarrow> None)"

type_synonym device = "uint64 \<Rightarrow> int \<Rightarrow> fstate \<Rightarrow> (int \<times> uchar list \<times> fstate) run"

text \<open>The bytes that reach user memory are part of the result. \<open>kld\<close> is \<open>killed(myproc())\<close>.\<close>

definition fileread :: "int \<Rightarrow> bool \<Rightarrow> user_ok \<Rightarrow> (int \<Rightarrow> device option) \<Rightarrow> nat \<Rightarrow> uint64 \<Rightarrow> int \<Rightarrow> fstate \<Rightarrow>
    (int \<times> uchar list \<times> fstate) run" where
  "fileread p kld ok devread f addr n s =
     (let x = ftable s ! f
      in if \<not> f_readable x then Some (Inr (-1, [], s))
         else case f_type x of
           FD_PIPE \<Rightarrow>
             let (pi, _, out, r) = piperead (\<lambda>i. ok (addr + of_nat i) 1) kld n (pipes s ! f_pipe x)
             in pipe_result (f_pipe x) pi r out s
         | FD_DEVICE \<Rightarrow>
             if f_major x < 0 \<or> f_major x \<ge> NDEV then Some (Inr (-1, [], s))
             else (case devread (f_major x) of None \<Rightarrow> Some (Inr (-1, [], s)) | Some d \<Rightarrow> d addr n s)
         | FD_INODE \<Rightarrow>
             bind_run (on_fs (ilock p (f_ip x)) s) (\<lambda>s.
             bind_run (readi p (f_ip x) (\<lambda>a bs. ok a (length bs)) addr (f_off x) (of_int n) (ffs s)) (\<lambda>(r, out, y).
             let s = s\<lparr>ffs := y\<rparr>;
                 s = (if r > 0 then upd_file f (\<lambda>x. x\<lparr>f_off := f_off x + of_int r\<rparr>) s else s)
             in bind_run (on_fs (\<lambda>x. Some (iunlock p (f_ip (ftable s ! f)) x)) s) (\<lambda>s. Some (Inr (r, out, s)))))
         | FD_NONE \<Rightarrow> Some (Inl (Panic ''fileread'')))"

definition write_max :: int where
  "write_max = ((int MAXOPBLOCKS - 1 - 1 - 2) div 2) * int BSIZE"

text \<open>One turn of the loop of \<open>filewrite\<close>: the result of \<open>writei\<close>.\<close>

definition write_chunk :: "int \<Rightarrow> user_get \<Rightarrow> nat \<Rightarrow> uint64 \<Rightarrow> int \<Rightarrow> fstate \<Rightarrow> (int \<times> fstate) run" where
  "write_chunk p get f a n1 s =
     bind_run (on_fs begin_fs s) (\<lambda>s.
     bind_run (on_fs (ilock p (f_ip (ftable s ! f))) s) (\<lambda>s.
     bind_run (writei p (f_ip (ftable s ! f)) get a (f_off (ftable s ! f)) (of_int n1) (ffs s)) (\<lambda>(r, y).
     let s = s\<lparr>ffs := y\<rparr>;
         s = (if r > 0 then upd_file f (\<lambda>x. x\<lparr>f_off := f_off x + of_int r\<rparr>) s else s)
     in bind_run (on_fs (\<lambda>x. Some (iunlock p (f_ip (ftable s ! f)) x)) s) (\<lambda>s.
        bind_run (on_fs (end_fs p) s) (\<lambda>s. Some (Inr (r, s)))))))"

function filewrite_loop :: "int \<Rightarrow> user_get \<Rightarrow> nat \<Rightarrow> uint64 \<Rightarrow> int \<Rightarrow> int \<Rightarrow> fstate \<Rightarrow> (int \<times> fstate) run" where
  "filewrite_loop p get f addr n i s =
     (if i < n
      then let n1 = min (n - i) write_max
           in bind_run (write_chunk p get f (addr + of_int i) n1 s) (\<lambda>(r, s).
              if r \<noteq> n1 then Some (Inr (i, s)) else filewrite_loop p get f addr n (i + n1) s)
      else Some (Inr (i, s)))"
  by pat_completeness auto
termination
  by (relation "measure (\<lambda>(p, get, f, addr, n, i, s). nat (n - i))") (auto simp: write_max_def MAXOPBLOCKS_def BSIZE_def)

declare filewrite_loop.simps [simp del]

definition filewrite :: "int \<Rightarrow> bool \<Rightarrow> user_get \<Rightarrow> (int \<Rightarrow> device option) \<Rightarrow> nat \<Rightarrow> uint64 \<Rightarrow> int \<Rightarrow> fstate \<Rightarrow> (int \<times> fstate) run" where
  "filewrite p kld get devwrite f addr n s =
     (let x = ftable s ! f
      in if \<not> f_writable x then Some (Inr (-1, s))
         else case f_type x of
           FD_PIPE \<Rightarrow>
             let src = (\<lambda>i. case get (addr + of_nat i) 1 of (ch # _, True) \<Rightarrow> Some ch | _ \<Rightarrow> None);
                 (pi, _, r) = pipewrite src kld n 0 (pipes s ! f_pipe x)
             in bind_run (pipe_result (f_pipe x) pi r [] s) (\<lambda>(r, _, s). Some (Inr (r, s)))
         | FD_DEVICE \<Rightarrow>
             if f_major x < 0 \<or> f_major x \<ge> NDEV then Some (Inr (-1, s))
             else (case devwrite (f_major x) of
                     None \<Rightarrow> Some (Inr (-1, s))
                   | Some d \<Rightarrow> bind_run (d addr n s) (\<lambda>(r, _, s). Some (Inr (r, s))))
         | FD_INODE \<Rightarrow>
             bind_run (filewrite_loop p get f addr n 0 s) (\<lambda>(i, s). Some (Inr (if i = n then n else -1, s)))
         | FD_NONE \<Rightarrow> Some (Inl (Panic ''filewrite'')))"

end
