(* ===== verification/Kalloc.thy ===== *)
theory Kalloc
  imports Physmem
begin

text \<open>
  The physical page allocator (\<open>kernel/kalloc.c\<close>). The free list runs through memory: the
  first word of a free page is the address of the next one. The linker symbol \<open>end\<close> is the
  parameter \<open>kend\<close>. Each critical section is one step.
\<close>

section \<open>Definitions\<close>

definition KERNBASE :: uint64 where "KERNBASE = 0x80000000"
definition PHYSTOP :: uint64 where "PHYSTOP = KERNBASE + 128 * 1024 * 1024"

record kmem =
  ram :: mem
  freelist :: uint64         \<comment> \<open>a null pointer is 0\<close>

definition kfree :: "uint64 \<Rightarrow> uint64 \<Rightarrow> kmem \<Rightarrow> kmem cresult" where
  "kfree kend pa k =
     (if pa mod PGSIZE \<noteq> 0 \<or> pa < kend \<or> pa \<ge> PHYSTOP then Inl (Panic ''kfree'')
      else let m = memset (ram k) pa 1 (ucast PGSIZE)
           in Inr \<lparr>ram = store64 m pa (freelist k), freelist = pa\<rparr>)"

definition kalloc :: "kmem \<Rightarrow> uint64 \<times> kmem" where
  "kalloc k =
     (let r = freelist k
      in if r \<noteq> 0
         then (r, \<lparr>ram = memset (ram k) r 5 (ucast PGSIZE), freelist = load64 (ram k) r\<rparr>)
         else (r, k))"

definition freerange :: "uint64 \<Rightarrow> uint64 \<Rightarrow> uint64 \<Rightarrow> kmem \<Rightarrow> kmem run" where
  "freerange kend pa_start pa_end k =
     bind_run (while_run (\<lambda>(p, k). p + PGSIZE \<le> pa_end)
                 (\<lambda>(p, k). bind_run (Some (kfree kend p k)) (\<lambda>k. Some (Inr (p + PGSIZE, k))))
                 (PGROUNDUP pa_start, k))
       (\<lambda>(p, k). Some (Inr k))"

definition kinit :: "uint64 \<Rightarrow> mem \<Rightarrow> kmem run" where
  "kinit kend m = freerange kend kend PHYSTOP \<lparr>ram = m, freelist = 0\<rparr>"

section \<open>The free list in memory\<close>

definition valid_page :: "uint64 \<Rightarrow> uint64 \<Rightarrow> bool" where
  "valid_page kend p \<longleftrightarrow> page_aligned p \<and> kend \<le> p \<and> p < PHYSTOP \<and> p \<noteq> 0"

fun chain :: "mem \<Rightarrow> uint64 \<Rightarrow> uint64 list \<Rightarrow> bool" where
  "chain m r [] \<longleftrightarrow> r = 0"
| "chain m r (p # ps) \<longleftrightarrow> r = p \<and> chain m (load64 m p) ps"

definition free_pages :: "uint64 \<Rightarrow> kmem \<Rightarrow> uint64 list \<Rightarrow> bool" where
  "free_pages kend k ps \<longleftrightarrow> chain (ram k) (freelist k) ps \<and> distinct ps \<and> (\<forall>p\<in>set ps. valid_page kend p)"

lemma ucast_PGSIZE: "unat (ucast PGSIZE :: uint) = 4096"
  by (simp add: PGSIZE_def)

lemma chain_cong:
  "(\<And>p. p \<in> set ps \<Longrightarrow> load64 m p = load64 m' p) \<Longrightarrow> chain m r ps = chain m' r ps"
  by (induction ps arbitrary: r) auto

text \<open>A page is untouched by changes to another page.\<close>

lemma load64_other_page:
  assumes "page_aligned p" "page_aligned q" "p \<noteq> q" "i < 512" "\<And>x. \<not> unat (x - q) < 4096 \<Longrightarrow> m' x = m x"
  shows "load64 m' (p + of_nat (8 * i)) = load64 m (p + of_nat (8 * i))"
proof (rule load64_cong)
  fix j :: nat assume j: "j < 8"
  have "unat (p + of_nat (8 * i) + of_nat j - p) = 8 * i + j"
    using assms(4) j offset_add [of "8 * i + j" p] by (simp add: add_ac)
  then have "unat (p + of_nat (8 * i) + of_nat j - p) < 4096" using assms(4) j by simp
  from pages_disjoint [OF assms(1-3) this]
  show "m' (p + of_nat (8 * i) + of_nat j) = m (p + of_nat (8 * i) + of_nat j)" by (rule assms(5))
qed

lemma load64_other_page0:
  "page_aligned p \<Longrightarrow> page_aligned q \<Longrightarrow> p \<noteq> q \<Longrightarrow> (\<And>x. \<not> unat (x - q) < 4096 \<Longrightarrow> m' x = m x) \<Longrightarrow>
   load64 m' p = load64 m p"
  using load64_other_page [of p q 0 m' m] by simp

lemma chain_other_page:
  assumes "chain m r ps" "page_aligned p" "p \<notin> set ps" "\<And>q. q \<in> set ps \<Longrightarrow> page_aligned q"
    and "\<And>x. \<not> unat (x - p) < 4096 \<Longrightarrow> m' x = m x"
  shows "chain m' r ps"
proof -
  have "load64 m' q = load64 m q" if "q \<in> set ps" for q
    by (rule load64_other_page0 [OF assms(4) [OF that] assms(2) _ assms(5)]) (use that assms(3) in auto)
  then show ?thesis using assms(1) chain_cong [of ps m' m] by blast
qed

lemma kfree_frees:
  assumes "free_pages kend k ps" "valid_page kend p" "p \<notin> set ps"
  shows "\<exists>k'. kfree kend p k = Inr k' \<and> free_pages kend k' (p # ps) \<and>
    (\<forall>x. \<not> unat (x - p) < 4096 \<longrightarrow> ram k' x = ram k x)"
proof -
  let ?m = "store64 (memset (ram k) p 1 (ucast PGSIZE)) p (freelist k)"
  have pa: "page_aligned p" using assms(2) by (simp add: valid_page_def)
  have out: "?m x = ram k x" if "\<not> unat (x - p) < 4096" for x
    using that by (simp add: store64_outside memset_at ucast_PGSIZE)
  have "chain ?m (freelist k) ps"
    by (rule chain_other_page [of "ram k" _ _ p]) (use assms out pa in \<open>auto simp: free_pages_def valid_page_def\<close>)
  then have "free_pages kend \<lparr>ram = ?m, freelist = p\<rparr> (p # ps)"
    using assms by (simp add: free_pages_def)
  then show ?thesis
    using assms(2) out by (auto simp: kfree_def valid_page_def Let_def not_less not_le)
qed

lemma kalloc_allocates:
  assumes "free_pages kend k (p # ps)"
  shows "\<exists>k'. kalloc k = (p, k') \<and> free_pages kend k' ps \<and>
    (\<forall>x. ram k' x = (if unat (x - p) < 4096 then 5 else ram k x))"
proof -
  let ?m = "memset (ram k) p 5 (ucast PGSIZE)"
  have p: "freelist k = p" "valid_page kend p" "p \<notin> set ps" using assms by (auto simp: free_pages_def)
  have m: "?m x = (if unat (x - p) < 4096 then 5 else ram k x)" for x
    by (simp add: memset_at ucast_PGSIZE)
  have pa: "page_aligned p" using p(2) by (simp add: valid_page_def)
  have "chain ?m (load64 (ram k) p) ps"
    by (rule chain_other_page [of "ram k" _ _ p]) (use assms m p pa in \<open>auto simp: free_pages_def valid_page_def\<close>)
  then have "free_pages kend \<lparr>ram = ?m, freelist = load64 (ram k) p\<rparr> ps"
    using assms by (simp add: free_pages_def)
  then show ?thesis using p m by (auto simp: kalloc_def valid_page_def Let_def)
qed

lemma kalloc_empty: "free_pages kend k [] \<Longrightarrow> kalloc k = (0, k)"
  by (simp add: free_pages_def kalloc_def)

section \<open>Sequences of allocations\<close>

text \<open>
  The callers of the allocator: a page may be freed by whoever owns it, and its bytes may
  be written by its owner. \<open>owned\<close> is the set of pages handed out and not yet freed.
\<close>

inductive alloc_step :: "uint64 \<Rightarrow> kmem \<times> uint64 set \<Rightarrow> kmem \<times> uint64 set \<Rightarrow> bool" for kend where
  alloc: "kalloc k = (r, k') \<Longrightarrow> alloc_step kend (k, owned) (k', if r = 0 then owned else insert r owned)"
| free: "p \<in> owned \<Longrightarrow> kfree kend p k = Inr k' \<Longrightarrow> alloc_step kend (k, owned) (k', owned - {p})"
| store: "p \<in> owned \<Longrightarrow> (\<And>x. \<not> unat (x - p) < 4096 \<Longrightarrow> m x = ram k x) \<Longrightarrow>
     alloc_step kend (k, owned) (k\<lparr>ram := m\<rparr>, owned)"

inductive_cases alloc_stepE: "alloc_step kend s s'"

definition alloc_inv :: "uint64 \<Rightarrow> uint64 set \<Rightarrow> kmem \<times> uint64 set \<Rightarrow> bool" where
  "alloc_inv kend pages s \<longleftrightarrow> (\<exists>ps. free_pages kend (fst s) ps \<and> set ps \<inter> snd s = {} \<and>
     set ps \<union> snd s = pages \<and> (\<forall>p\<in>pages. valid_page kend p))"

lemma alloc_inv_step: "alloc_step kend s s' \<Longrightarrow> alloc_inv kend pages s \<Longrightarrow> alloc_inv kend pages s'"
proof (induction rule: alloc_step.induct)
  case (alloc k r k' owned)
  then obtain ps where ps: "free_pages kend k ps" "set ps \<inter> owned = {}" "set ps \<union> owned = pages"
    "\<forall>p\<in>pages. valid_page kend p" by (auto simp: alloc_inv_def)
  show ?case
  proof (cases ps)
    case Nil
    then have "r = 0" "k' = k" using kalloc_empty [of kend k] ps(1) alloc by auto
    then show ?thesis using alloc by simp
  next
    case (Cons p qs)
    then have q: "r = p" "free_pages kend k' qs" "p \<noteq> 0" "p \<notin> set qs"
      using kalloc_allocates [of kend k p qs] ps(1) alloc by (auto simp: free_pages_def valid_page_def)
    then show ?thesis using ps Cons by (auto simp: alloc_inv_def intro!: exI [of _ qs])
  qed
next
  case (free p owned k k')
  then obtain ps where ps: "free_pages kend k ps" "set ps \<inter> owned = {}" "set ps \<union> owned = pages"
    "\<forall>p\<in>pages. valid_page kend p" by (auto simp: alloc_inv_def)
  then have "free_pages kend k' (p # ps)"
    using kfree_frees [OF ps(1), of p] free by auto
  then show ?case using ps free(1) by (auto simp: alloc_inv_def intro!: exI [of _ "p # ps"])
next
  case (store p owned m k)
  then obtain ps where ps: "free_pages kend k ps" "set ps \<inter> owned = {}" "set ps \<union> owned = pages"
    "\<forall>p\<in>pages. valid_page kend p" by (auto simp: alloc_inv_def)
  have "chain m (freelist k) ps"
    by (rule chain_other_page [of "ram k" _ _ p]) (use ps store in \<open>auto simp: free_pages_def valid_page_def\<close>)
  then show ?case using ps by (auto simp: alloc_inv_def free_pages_def intro!: exI [of _ ps])
qed

section \<open>Boot\<close>

text \<open>The pages \<open>freerange\<close> frees: \<open>n\<close> consecutive ones from \<open>p\<close>, the last freed first.\<close>

definition pages_from :: "uint64 \<Rightarrow> nat \<Rightarrow> uint64 list" where
  "pages_from p n = rev (map (\<lambda>i. p + of_nat (4096 * i)) [0..<n])"

lemma pages_from_simps:
  "pages_from p 0 = []" "pages_from p (Suc n) = pages_from (p + PGSIZE) n @ [p]"
proof -
  have "map (\<lambda>i. p + of_nat (4096 * i)) [0..<Suc n] = p # map (\<lambda>i. p + PGSIZE + of_nat (4096 * i)) [0..<n]"
    by (simp add: upt_conv_Cons map_Suc_upt [symmetric] PGSIZE_def algebra_simps del: upt_Suc)
  then show "pages_from p 0 = []" "pages_from p (Suc n) = pages_from (p + PGSIZE) n @ [p]"
    by (simp_all add: pages_from_def del: upt_Suc)
qed

lemma PHYSTOP_unat: "unat PHYSTOP = 2281701376"
  by (simp add: PHYSTOP_def KERNBASE_def)

lemma freerange_loop:
  assumes "unat p + 4096 * n = unat PHYSTOP" "page_aligned p" "kend \<le> p" "0 < p"
    and "free_pages kend k ps" "\<And>q. q \<in> set ps \<Longrightarrow> q < p"
  shows "\<exists>q k'. while_run (\<lambda>(p, k). p + PGSIZE \<le> PHYSTOP)
      (\<lambda>(p, k). bind_run (Some (kfree kend p k)) (\<lambda>k. Some (Inr (p + PGSIZE, k)))) (p, k) = Some (Inr (q, k')) \<and>
    free_pages kend k' (pages_from p n @ ps)"
  using assms
proof (induction n arbitrary: p k ps)
  case 0
  have "unat (p + PGSIZE) = unat p + 4096"
    using unat_add_of_nat [of p 4096] 0 PHYSTOP_unat by (simp add: PGSIZE_def)
  then have "\<not> p + PGSIZE \<le> PHYSTOP" using 0 by (simp add: word_le_nat_alt)
  then show ?case using 0 by (intro exI [of _ p] exI [of _ k]) (simp add: pages_from_simps)
next
  case (Suc n)
  have s: "unat (p + PGSIZE) = unat p + 4096"
    using unat_add_of_nat [of p 4096] Suc.prems(1) PHYSTOP_unat by (simp add: PGSIZE_def)
  have vp: "valid_page kend p"
    using Suc.prems PHYSTOP_unat by (auto simp: valid_page_def word_less_nat_alt)
  obtain k1 where k1: "kfree kend p k = Inr k1" "free_pages kend k1 (p # ps)"
    using kfree_frees [OF Suc.prems(5) vp] Suc.prems(6) by blast
  have "\<exists>q k'. while_run (\<lambda>(p, k). p + PGSIZE \<le> PHYSTOP)
      (\<lambda>(p, k). bind_run (Some (kfree kend p k)) (\<lambda>k. Some (Inr (p + PGSIZE, k)))) (p + PGSIZE, k1) = Some (Inr (q, k')) \<and>
    free_pages kend k' (pages_from (p + PGSIZE) n @ p # ps)"
  proof (rule Suc.IH)
    show "page_aligned (p + PGSIZE)" using Suc.prems(2) s by (simp add: page_aligned_unat)
    show "kend \<le> p + PGSIZE" "0 < p + PGSIZE" using Suc.prems(3,4) s by (auto simp: word_le_nat_alt word_less_nat_alt)
    show "q < p + PGSIZE" if "q \<in> set (p # ps)" for q
      using Suc.prems(6) [of q] that s by (auto simp: word_less_nat_alt)
  qed (use Suc.prems(1) s k1(2) in auto)
  moreover have "p + PGSIZE \<le> PHYSTOP" using Suc.prems(1) s by (simp add: word_le_nat_alt)
  ultimately show ?case
    using k1(1) by (simp add: pages_from_simps while_run_step(1))
qed

lemma kinit_frees_all:
  assumes "0 < kend" "kend \<le> PHYSTOP"
  shows "\<exists>k n. kinit kend m = Some (Inr k) \<and> free_pages kend k (pages_from (PGROUNDUP kend) n) \<and>
    unat (PGROUNDUP kend) + 4096 * n = unat PHYSTOP"
proof -
  let ?p = "PGROUNDUP kend"
  have k: "0 < unat kend" "unat kend \<le> 2281701376"
    using assms PHYSTOP_unat by (simp_all add: word_less_nat_alt word_le_nat_alt)
  then have p: "unat ?p = (unat kend + 4095) div 4096 * 4096" by (intro PGROUNDUP_unat) simp
  define q where "q = (unat kend + 4095) div 4096"
  have q: "unat kend \<le> q * 4096" "q \<le> 557056"
    using k unfolding q_def by linarith+
  then have n: "unat ?p + 4096 * (557056 - q) = unat PHYSTOP" using p by (simp add: PHYSTOP_unat q_def)
  have al: "page_aligned ?p" using p by (simp add: page_aligned_unat)
  have ge: "kend \<le> ?p" "0 < ?p" using p q(1) k(1) by (auto simp: word_le_nat_alt word_less_nat_alt q_def)
  have "free_pages kend \<lparr>ram = m, freelist = 0\<rparr> []" by (simp add: free_pages_def)
  from freerange_loop [OF n al ge this] obtain r k' where
    "while_run (\<lambda>(p, k). p + PGSIZE \<le> PHYSTOP)
      (\<lambda>(p, k). bind_run (Some (kfree kend p k)) (\<lambda>k. Some (Inr (p + PGSIZE, k)))) (?p, \<lparr>ram = m, freelist = 0\<rparr>)
     = Some (Inr (r, k'))" "free_pages kend k' (pages_from ?p (557056 - q))"
    by auto
  then show ?thesis using n by (auto simp: kinit_def freerange_def)
qed



end
