(* ===== verification/Vm.thy ===== *)
theory Vm
  imports Kalloc
begin

text \<open>
  Page tables and user memory (\<open>kernel/vm.c\<close>). A page table is a page of 512 words in the
  byte memory of \<open>Physmem\<close>, found through the direct map; page-table pages come from the
  allocator of \<open>Kalloc\<close>, and every operation works on the state \<open>kmem\<close> of both. The result of
  a C function that returns an integer is paired with the new state.
\<close>

section \<open>Page-table entries\<close>

definition PTE_V :: uint64 where "PTE_V = 1"
definition PTE_R :: uint64 where "PTE_R = 2"
definition PTE_W :: uint64 where "PTE_W = 4"
definition PTE_X :: uint64 where "PTE_X = 8"
definition PTE_U :: uint64 where "PTE_U = 16"

definition PA2PTE :: "uint64 \<Rightarrow> uint64" where "PA2PTE pa = push_bit 10 (drop_bit 12 pa)"
definition PTE2PA :: "uint64 \<Rightarrow> uint64" where "PTE2PA pte = push_bit 12 (drop_bit 10 pte)"
definition PTE_FLAGS :: "uint64 \<Rightarrow> uint64" where "PTE_FLAGS pte = pte AND 0x3FF"

definition PXSHIFT :: "nat \<Rightarrow> nat" where "PXSHIFT level = 12 + 9 * level"
definition PX :: "nat \<Rightarrow> uint64 \<Rightarrow> uint64" where "PX level va = drop_bit (PXSHIFT level) va AND 0x1FF"
definition MAXVA :: uint64 where "MAXVA = push_bit (9 + 9 + 9 + 12 - 1) 1"
definition TRAMPOLINE :: uint64 where "TRAMPOLINE = MAXVA - PGSIZE"
definition TRAPFRAME :: uint64 where "TRAPFRAME = TRAMPOLINE - PGSIZE"

section \<open>Walking\<close>

text \<open>The address of entry \<open>i\<close> of a page-table page, and one turn of the loop of \<open>walk\<close>.\<close>

definition entry :: "uint64 \<Rightarrow> uint64 \<Rightarrow> uint64" where
  "entry pagetable i = pagetable + 8 * i"

definition walk_level :: "bool \<Rightarrow> uint64 \<Rightarrow> nat \<Rightarrow> uint64 \<Rightarrow> kmem \<Rightarrow> uint64 option \<times> kmem" where
  "walk_level alloc va level pagetable k =
     (let pte = entry pagetable (PX level va)
      in if load64 (ram k) pte AND PTE_V \<noteq> 0 then (Some (PTE2PA (load64 (ram k) pte)), k)
         else if \<not> alloc then (None, k)
         else let (pt, k) = kalloc k
              in if pt = 0 then (None, k)
                 else let m = memset (ram k) pt 0 (ucast PGSIZE)
                      in (Some pt, k\<lparr>ram := store64 m pte (PA2PTE pt OR PTE_V)\<rparr>))"

definition walk :: "uint64 \<Rightarrow> uint64 \<Rightarrow> bool \<Rightarrow> kmem \<Rightarrow> (uint64 \<times> kmem) cresult" where
  "walk pagetable va alloc k =
     (if va \<ge> MAXVA then Inl (Panic ''walk'')
      else case walk_level alloc va 2 pagetable k of
             (None, k) \<Rightarrow> Inr (0, k)
           | (Some pt, k) \<Rightarrow>
               (case walk_level alloc va 1 pt k of
                  (None, k) \<Rightarrow> Inr (0, k)
                | (Some pt, k) \<Rightarrow> Inr (entry pt (PX 0 va), k)))"

definition walkaddr :: "uint64 \<Rightarrow> uint64 \<Rightarrow> kmem \<Rightarrow> uint64 cresult" where
  "walkaddr pagetable va k =
     (if va \<ge> MAXVA then Inr 0
      else bind_result (walk pagetable va False k) (\<lambda>(pte, k).
             if pte = 0 then Inr 0
             else let e = load64 (ram k) pte
                  in if e AND PTE_V = 0 then Inr 0
                     else if e AND PTE_U = 0 then Inr 0
                     else Inr (PTE2PA e)))"

section \<open>Mapping and unmapping\<close>

partial_function (option) mappages_loop ::
    "uint64 \<Rightarrow> uint64 \<Rightarrow> uint64 \<Rightarrow> uint64 \<Rightarrow> uint64 \<Rightarrow> kmem \<Rightarrow> (int \<times> kmem) run" where
  "mappages_loop pagetable perm lst a pa k =
     (case walk pagetable a True k of
        Inl e \<Rightarrow> Some (Inl e)
      | Inr (pte, k) \<Rightarrow>
          if pte = 0 then Some (Inr (-1, k))
          else if load64 (ram k) pte AND PTE_V \<noteq> 0 then Some (Inl (Panic ''mappages: remap''))
          else let k = k\<lparr>ram := store64 (ram k) pte (PA2PTE pa OR perm OR PTE_V)\<rparr>
               in if a = lst then Some (Inr (0, k))
                  else mappages_loop pagetable perm lst (a + PGSIZE) (pa + PGSIZE) k)"

definition mappages :: "uint64 \<Rightarrow> uint64 \<Rightarrow> uint64 \<Rightarrow> uint64 \<Rightarrow> uint64 \<Rightarrow> kmem \<Rightarrow> (int \<times> kmem) run" where
  "mappages pagetable va sz pa perm k =
     (if va mod PGSIZE \<noteq> 0 then Some (Inl (Panic ''mappages: va not aligned''))
      else if sz mod PGSIZE \<noteq> 0 then Some (Inl (Panic ''mappages: size not aligned''))
      else if sz = 0 then Some (Inl (Panic ''mappages: size''))
      else mappages_loop pagetable perm (va + sz - PGSIZE) va pa k)"

definition kvmmap :: "uint64 \<Rightarrow> uint64 \<Rightarrow> uint64 \<Rightarrow> uint64 \<Rightarrow> uint64 \<Rightarrow> kmem \<Rightarrow> kmem run" where
  "kvmmap kpgtbl va pa sz perm k =
     bind_run (mappages kpgtbl va sz pa perm k) (\<lambda>(r, k).
       if r \<noteq> 0 then Some (Inl (Panic ''kvmmap'')) else Some (Inr k))"

text \<open>One turn of the loop of \<open>uvmunmap\<close>.\<close>

definition unmap_page :: "uint64 \<Rightarrow> uint64 \<Rightarrow> bool \<Rightarrow> uint64 \<Rightarrow> kmem \<Rightarrow> kmem cresult" where
  "unmap_page kend pagetable do_free a k =
     bind_result (walk pagetable a False k) (\<lambda>(pte, k).
       if pte = 0 then Inl (Panic ''uvmunmap: walk'')
       else let e = load64 (ram k) pte
            in if e AND PTE_V = 0 then Inl (Panic ''uvmunmap: not mapped'')
               else if PTE_FLAGS e = PTE_V then Inl (Panic ''uvmunmap: not a leaf'')
               else bind_result (if do_free then kfree kend (PTE2PA e) k else Inr k) (\<lambda>k.
                      Inr (k\<lparr>ram := store64 (ram k) pte 0\<rparr>)))"

definition uvmunmap :: "uint64 \<Rightarrow> uint64 \<Rightarrow> uint64 \<Rightarrow> uint64 \<Rightarrow> bool \<Rightarrow> kmem \<Rightarrow> kmem run" where
  "uvmunmap kend pagetable va npages do_free k =
     (if va mod PGSIZE \<noteq> 0 then Some (Inl (Panic ''uvmunmap: not aligned''))
      else bind_run (while_run (\<lambda>(a, k). a < va + npages * PGSIZE)
                       (\<lambda>(a, k). bind_run (Some (unmap_page kend pagetable do_free a k)) (\<lambda>k. Some (Inr (a + PGSIZE, k))))
                       (va, k))
             (\<lambda>(a, k). Some (Inr k)))"

definition uvmcreate :: "kmem \<Rightarrow> uint64 \<times> kmem" where
  "uvmcreate k =
     (let (pt, k) = kalloc k
      in if pt = 0 then (0, k) else (pt, k\<lparr>ram := memset (ram k) pt 0 (ucast PGSIZE)\<rparr>))"

text \<open>The result of \<open>kalloc\<close> is used unchecked.\<close>

definition uvmfirst :: "uint64 \<Rightarrow> uint64 \<Rightarrow> uint \<Rightarrow> kmem \<Rightarrow> kmem run" where
  "uvmfirst pagetable src sz k =
     (if ucast sz \<ge> PGSIZE then Some (Inl (Panic ''uvmfirst: more than a page''))
      else let (mem, k) = kalloc k; k = k\<lparr>ram := memset (ram k) mem 0 (ucast PGSIZE)\<rparr>
           in bind_run (mappages pagetable 0 PGSIZE mem (PTE_W OR PTE_R OR PTE_X OR PTE_U) k) (\<lambda>(_, k).
                Some (Inr (k\<lparr>ram := memmove (ram k) mem src sz\<rparr>))))"

section \<open>Growing, shrinking and freeing\<close>

definition uvmdealloc :: "uint64 \<Rightarrow> uint64 \<Rightarrow> uint64 \<Rightarrow> uint64 \<Rightarrow> kmem \<Rightarrow> (uint64 \<times> kmem) run" where
  "uvmdealloc kend pagetable oldsz newsz k =
     (if newsz \<ge> oldsz then Some (Inr (oldsz, k))
      else if PGROUNDUP newsz < PGROUNDUP oldsz
      then let npages = (PGROUNDUP oldsz - PGROUNDUP newsz) div PGSIZE
           in bind_run (uvmunmap kend pagetable (PGROUNDUP newsz) (scast (ucast npages :: 32 word)) True k) (\<lambda>k.
                Some (Inr (newsz, k)))
      else Some (Inr (newsz, k)))"

partial_function (option) uvmalloc_loop ::
    "uint64 \<Rightarrow> uint64 \<Rightarrow> uint64 \<Rightarrow> uint64 \<Rightarrow> uint64 \<Rightarrow> uint64 \<Rightarrow> kmem \<Rightarrow> (uint64 \<times> kmem) run" where
  "uvmalloc_loop kend pagetable oldsz newsz xperm a k =
     (if \<not> a < newsz then Some (Inr (newsz, k))
      else case kalloc k of
        (mem, k) \<Rightarrow>
          if mem = 0 then bind_run (uvmdealloc kend pagetable a oldsz k) (\<lambda>(_, k). Some (Inr (0, k)))
          else bind_run (mappages pagetable a PGSIZE mem (PTE_R OR PTE_U OR xperm)
                           (k\<lparr>ram := memset (ram k) mem 0 (ucast PGSIZE)\<rparr>)) (\<lambda>(r, k).
                 if r \<noteq> 0
                 then bind_run (Some (kfree kend mem k)) (\<lambda>k.
                      bind_run (uvmdealloc kend pagetable a oldsz k) (\<lambda>(_, k). Some (Inr (0, k))))
                 else uvmalloc_loop kend pagetable oldsz newsz xperm (a + PGSIZE) k))"

definition uvmalloc :: "uint64 \<Rightarrow> uint64 \<Rightarrow> uint64 \<Rightarrow> uint64 \<Rightarrow> uint64 \<Rightarrow> kmem \<Rightarrow> (uint64 \<times> kmem) run" where
  "uvmalloc kend pagetable oldsz newsz xperm k =
     (if newsz < oldsz then Some (Inr (oldsz, k))
      else uvmalloc_loop kend pagetable (PGROUNDUP oldsz) newsz xperm (PGROUNDUP oldsz) k)"

text \<open>\<open>freewalk\<close> from entry \<open>i\<close> on.\<close>

partial_function (option) freewalk_from :: "uint64 \<Rightarrow> uint64 \<Rightarrow> nat \<Rightarrow> kmem \<Rightarrow> kmem run" where
  "freewalk_from kend pagetable i k =
     (if \<not> i < 512 then Some (kfree kend pagetable k)
      else let pte = load64 (ram k) (entry pagetable (of_nat i))
           in if pte AND PTE_V \<noteq> 0 \<and> pte AND (PTE_R OR PTE_W OR PTE_X) = 0
              then bind_run (freewalk_from kend (PTE2PA pte) 0 k) (\<lambda>k.
                     freewalk_from kend pagetable (i + 1) (k\<lparr>ram := store64 (ram k) (entry pagetable (of_nat i)) 0\<rparr>))
              else if pte AND PTE_V \<noteq> 0 then Some (Inl (Panic ''freewalk: leaf''))
              else freewalk_from kend pagetable (i + 1) k)"

definition freewalk :: "uint64 \<Rightarrow> uint64 \<Rightarrow> kmem \<Rightarrow> kmem run" where
  "freewalk kend pagetable k = freewalk_from kend pagetable 0 k"

definition uvmfree :: "uint64 \<Rightarrow> uint64 \<Rightarrow> uint64 \<Rightarrow> kmem \<Rightarrow> kmem run" where
  "uvmfree kend pagetable sz k =
     bind_run (if sz > 0 then uvmunmap kend pagetable 0 (PGROUNDUP sz div PGSIZE) True k else Some (Inr k)) (\<lambda>k.
       freewalk kend pagetable k)"

partial_function (option) uvmcopy_loop ::
    "uint64 \<Rightarrow> uint64 \<Rightarrow> uint64 \<Rightarrow> uint64 \<Rightarrow> uint64 \<Rightarrow> kmem \<Rightarrow> (int \<times> kmem) run" where
  "uvmcopy_loop kend old new sz i k =
     (if \<not> i < sz then Some (Inr (0, k))
      else case walk old i False k of
        Inl e \<Rightarrow> Some (Inl e)
      | Inr (pte, k) \<Rightarrow>
          if pte = 0 then Some (Inl (Panic ''uvmcopy: pte should exist''))
          else let e = load64 (ram k) pte
               in if e AND PTE_V = 0 then Some (Inl (Panic ''uvmcopy: page not present''))
                  else case kalloc k of
                    (mem, k) \<Rightarrow>
                      if mem = 0 then bind_run (uvmunmap kend new 0 (i div PGSIZE) True k) (\<lambda>k. Some (Inr (-1, k)))
                      else bind_run (mappages new i PGSIZE mem (PTE_FLAGS e)
                                       (k\<lparr>ram := memmove (ram k) mem (PTE2PA e) (ucast PGSIZE)\<rparr>)) (\<lambda>(r, k).
                             if r \<noteq> 0
                             then bind_run (Some (kfree kend mem k)) (\<lambda>k.
                                  bind_run (uvmunmap kend new 0 (i div PGSIZE) True k) (\<lambda>k. Some (Inr (-1, k))))
                             else uvmcopy_loop kend old new sz (i + PGSIZE) k))"

definition uvmcopy :: "uint64 \<Rightarrow> uint64 \<Rightarrow> uint64 \<Rightarrow> uint64 \<Rightarrow> kmem \<Rightarrow> (int \<times> kmem) run" where
  "uvmcopy kend old new sz k = uvmcopy_loop kend old new sz 0 k"

definition uvmclear :: "uint64 \<Rightarrow> uint64 \<Rightarrow> kmem \<Rightarrow> kmem cresult" where
  "uvmclear pagetable va k =
     bind_result (walk pagetable va False k) (\<lambda>(pte, k).
       if pte = 0 then Inl (Panic ''uvmclear'')
       else Inr (k\<lparr>ram := store64 (ram k) pte (load64 (ram k) pte AND NOT PTE_U)\<rparr>))"

section \<open>Copying between kernel and user memory\<close>

text \<open>The bytes that fit into the rest of the page of \<open>va\<close>, at most \<open>len\<close>.\<close>

definition chunk :: "uint64 \<Rightarrow> uint64 \<Rightarrow> uint64 \<Rightarrow> uint64" where
  "chunk va va0 len = (let n = PGSIZE - (va - va0) in if n > len then len else n)"

partial_function (option) copyout :: "uint64 \<Rightarrow> uint64 \<Rightarrow> uint64 \<Rightarrow> uint64 \<Rightarrow> kmem \<Rightarrow> (int \<times> kmem) run" where
  "copyout pagetable dstva src len k =
     (if \<not> len > 0 then Some (Inr (0, k))
      else let va0 = PGROUNDDOWN dstva
           in if va0 \<ge> MAXVA then Some (Inr (-1, k))
              else case walk pagetable va0 False k of
                Inl e \<Rightarrow> Some (Inl e)
              | Inr (pte, k) \<Rightarrow>
                  let e = load64 (ram k) pte
                  in if pte = 0 \<or> e AND PTE_V = 0 \<or> e AND PTE_U = 0 \<or> e AND PTE_W = 0 then Some (Inr (-1, k))
                     else let n = chunk dstva va0 len;
                              k = k\<lparr>ram := memmove (ram k) (PTE2PA e + (dstva - va0)) src (ucast n)\<rparr>
                          in copyout pagetable (va0 + PGSIZE) (src + n) (len - n) k)"

partial_function (option) copyin :: "uint64 \<Rightarrow> uint64 \<Rightarrow> uint64 \<Rightarrow> uint64 \<Rightarrow> kmem \<Rightarrow> (int \<times> kmem) run" where
  "copyin pagetable dst srcva len k =
     (if \<not> len > 0 then Some (Inr (0, k))
      else let va0 = PGROUNDDOWN srcva
           in case walkaddr pagetable va0 k of
                Inl e \<Rightarrow> Some (Inl e)
              | Inr pa0 \<Rightarrow>
                  if pa0 = 0 then Some (Inr (-1, k))
                  else let n = chunk srcva va0 len;
                           k = k\<lparr>ram := memmove (ram k) dst (pa0 + (srcva - va0)) (ucast n)\<rparr>
                       in copyin pagetable (dst + n) (va0 + PGSIZE) (len - n) k)"

text \<open>The inner loop of \<open>copyinstr\<close>: whether the zero was found, and the rest of \<open>max\<close> and \<open>dst\<close>.\<close>

fun copystr_page :: "nat \<Rightarrow> uint64 \<Rightarrow> uint64 \<Rightarrow> uint64 \<Rightarrow> mem \<Rightarrow> bool \<times> uint64 \<times> uint64 \<times> mem" where
  "copystr_page 0 p dst maxlen m = (False, dst, maxlen, m)"
| "copystr_page (Suc n) p dst maxlen m =
     (if m p = 0 then (True, dst, maxlen, m(dst := 0))
      else copystr_page n (p + 1) (dst + 1) (maxlen - 1) (m(dst := m p)))"

partial_function (option) copyinstr :: "uint64 \<Rightarrow> uint64 \<Rightarrow> uint64 \<Rightarrow> uint64 \<Rightarrow> kmem \<Rightarrow> (int \<times> kmem) run" where
  "copyinstr pagetable dst srcva maxlen k =
     (if \<not> maxlen > 0 then Some (Inr (-1, k))
      else let va0 = PGROUNDDOWN srcva
           in case walkaddr pagetable va0 k of
                Inl e \<Rightarrow> Some (Inl e)
              | Inr pa0 \<Rightarrow>
                  if pa0 = 0 then Some (Inr (-1, k))
                  else case copystr_page (unat (chunk srcva va0 maxlen)) (pa0 + (srcva - va0)) dst maxlen (ram k) of
                    (got_null, dst, maxlen, m) \<Rightarrow>
                      if got_null then Some (Inr (0, k\<lparr>ram := m\<rparr>))
                      else copyinstr pagetable dst (va0 + PGSIZE) maxlen (k\<lparr>ram := m\<rparr>))"

section \<open>Words and entries\<close>

lemma mask9: "(0x1FF :: uint64) = mask 9" by (simp add: mask_eq_exp_minus_1)

lemma PX_less: "PX level va < 512"
proof -
  have "unat (take_bit 9 (drop_bit (PXSHIFT level) va)) < 512"
    unfolding unsigned_take_bit_eq by (simp add: take_bit_eq_mod)
  then show ?thesis unfolding PX_def mask9 take_bit_eq_mask [symmetric] by (simp add: word_less_nat_alt)
qed

lemma unat_less_512: "(i :: uint64) < 512 \<longleftrightarrow> unat i < 512"
  by (simp add: word_less_nat_alt)

lemma MAXVA_unat: "unat MAXVA = 2 ^ 38"
  by (simp add: MAXVA_def)

text \<open>The three indices determine the page.\<close>

lemma PX_bit: "bit (PX level va) n \<longleftrightarrow> n < 9 \<and> bit va (12 + 9 * level + n)"
  unfolding PX_def mask9 by (auto simp: bit_and_iff bit_mask_iff bit_drop_bit_eq PXSHIFT_def)

lemma small_bit:
  fixes va :: uint64
  assumes "unat va < 2 ^ k" "k \<le> n"
  shows "\<not> bit va n"
proof -
  have "unat (take_bit k va) = unat va" using assms(1) by (simp add: unsigned_take_bit_eq take_bit_nat_eq_self)
  then have "take_bit k va = va" by (simp only: word_unat_eq_iff)
  then show ?thesis using assms(2) by (metis bit_take_bit_iff not_le)
qed

lemma round_down_bit: "bit (PGROUNDDOWN va) n \<longleftrightarrow> 12 \<le> n \<and> bit va n"
proof -
  have "PGSIZE - 1 = (mask 12 :: uint64)" by (simp add: PGSIZE_def mask_eq_exp_minus_1)
  moreover have "n < 64" if "bit va n" using that bit_imp_le_length [of va n] by simp
  ultimately show ?thesis unfolding PGROUNDDOWN_def by (auto simp: bit_and_iff bit_not_iff bit_mask_iff)
qed

lemma PX_page:
  assumes "va < MAXVA" "va' < MAXVA"
  shows "PX 2 va = PX 2 va' \<and> PX 1 va = PX 1 va' \<and> PX 0 va = PX 0 va' \<longleftrightarrow> PGROUNDDOWN va = PGROUNDDOWN va'"
proof
  assume p: "PX 2 va = PX 2 va' \<and> PX 1 va = PX 1 va' \<and> PX 0 va = PX 0 va'"
  show "PGROUNDDOWN va = PGROUNDDOWN va'"
  proof (rule bit_word_eqI)
    fix n
    have s: "38 \<le> n \<Longrightarrow> \<not> bit va n \<and> \<not> bit va' n"
      using assms small_bit [of va 38 n] small_bit [of va' 38 n] by (simp add: word_less_nat_alt MAXVA_unat)
    have b: "bit va (12 + 9 * l + j) = bit va' (12 + 9 * l + j)" if "l < 3" "j < 9" for l j
      using p that PX_bit [of l va j] PX_bit [of l va' j] by (auto simp: numeral_3_eq_3 less_Suc_eq numeral_2_eq_2)
    have "bit va n = bit va' n" if "12 \<le> n" "n < 39"
    proof -
      have "n = 12 + 9 * ((n - 12) div 9) + (n - 12) mod 9" using that by simp
      moreover have "(n - 12) div 9 < 3" using that by (simp add: div_less_iff_less_mult)
      ultimately show ?thesis using b [of "(n - 12) div 9" "(n - 12) mod 9"] by simp
    qed
    then show "bit (PGROUNDDOWN va) n = bit (PGROUNDDOWN va') n" using s by (cases "n < 39") (auto simp: round_down_bit)
  qed
next
  assume p: "PGROUNDDOWN va = PGROUNDDOWN va'"
  have b: "bit va n = bit va' n" if "12 \<le> n" for n
    using p that round_down_bit [of va n] round_down_bit [of va' n] by simp
  have "PX l va = PX l va'" for l by (rule bit_word_eqI) (simp add: PX_bit b)
  then show "PX 2 va = PX 2 va' \<and> PX 1 va = PX 1 va' \<and> PX 0 va = PX 0 va'" by simp
qed

lemma aligned_round: "page_aligned a \<Longrightarrow> PGROUNDDOWN a = a"
proof -
  assume "page_aligned a"
  then have "unat a mod 4096 = 0" by (simp only: page_aligned_unat)
  then have "unat (PGROUNDDOWN a) = unat a" by (simp add: PGROUNDDOWN_unat mod_0_imp_dvd)
  then show ?thesis by (simp only: word_unat_eq_iff)
qed

lemma aligned_bit: "page_aligned a \<Longrightarrow> bit a n \<Longrightarrow> 12 \<le> n"
  using round_down_bit [of a n] aligned_round [of a] by simp

lemma flag_exps: "PTE_V = 2 ^ 0" "PTE_U = 2 ^ 4" "PTE_W = 2 ^ 2"
  by (simp_all add: PTE_V_def PTE_U_def PTE_W_def)

lemma flag_bits:
  "bit PTE_V n \<longleftrightarrow> n = 0" "bit PTE_U n \<longleftrightarrow> n = 4" "bit PTE_W n \<longleftrightarrow> n = 2"
  unfolding flag_exps by (auto simp only: bit_exp_iff possible_bit_word) simp_all

lemma single_bit_and:
  fixes e :: uint64
  shows "e AND PTE_V = 0 \<longleftrightarrow> \<not> bit e 0" "e AND PTE_U = 0 \<longleftrightarrow> \<not> bit e 4" "e AND PTE_W = 0 \<longleftrightarrow> \<not> bit e 2"
  unfolding flag_exps by (simp_all only: and_exp_eq_0_iff_not_bit)

lemma PTE2PA_entry:
  assumes "page_aligned pa" "perm < 1024"
  shows "PTE2PA (PA2PTE pa OR perm OR PTE_V) = pa" "(PA2PTE pa OR perm OR PTE_V) AND PTE_V \<noteq> 0"
    "bit (PA2PTE pa OR perm OR PTE_V) 4 = bit perm 4" "bit (PA2PTE pa OR perm OR PTE_V) 2 = bit perm 2"
proof -
  have p: "\<not> bit perm n" if "10 \<le> n" for n
    using small_bit [of perm 10 n] assms(2) that by (simp add: word_less_nat_alt)
  show "PTE2PA (PA2PTE pa OR perm OR PTE_V) = pa"
  proof (rule bit_word_eqI)
    fix n assume "n < LENGTH(64)"
    then show "bit (PTE2PA (PA2PTE pa OR perm OR PTE_V)) n = bit pa n"
      using p [of "n - 2"] aligned_bit [OF assms(1), of n]
      by (auto simp: PTE2PA_def PA2PTE_def bit_push_bit_iff bit_drop_bit_eq bit_or_iff flag_bits)
  qed
  show "(PA2PTE pa OR perm OR PTE_V) AND PTE_V \<noteq> 0" by (simp add: single_bit_and bit_or_iff flag_bits)
  show "bit (PA2PTE pa OR perm OR PTE_V) 4 = bit perm 4" "bit (PA2PTE pa OR perm OR PTE_V) 2 = bit perm 2"
    by (simp_all add: PA2PTE_def bit_or_iff flag_bits bit_push_bit_iff)
qed

text \<open>Entries of aligned pages are aligned words inside them, and different entries differ.\<close>

lemma entry_unat:
  assumes "page_aligned p" "i < 512"
  shows "unat (entry p i) = unat p + 8 * unat i" "unat (entry p i - p) = 8 * unat i"
proof -
  have l: "8 * unat i < 4096" using assms(2) by (simp add: unat_less_512)
  have e: "entry p i = p + of_nat (8 * unat i)" by (simp add: entry_def)
  show "unat (entry p i) = unat p + 8 * unat i" unfolding e by (rule page_offset [OF assms(1) l])
  show "unat (entry p i - p) = 8 * unat i" unfolding e using l by (intro offset_add) simp
qed

lemma entry_aligned: "page_aligned p \<Longrightarrow> i < 512 \<Longrightarrow> unat (entry p i) mod 8 = 0"
proof -
  assume a: "page_aligned p" "i < 512"
  then have "unat p mod 4096 = 0" by (simp add: page_aligned_unat)
  then obtain c where "unat p = 4096 * c" by (metis mod_0_imp_dvd dvdE)
  then have "unat (entry p i) = 8 * (512 * c + unat i)" using entry_unat(1) [OF a] by simp
  then show ?thesis by (metis mod_mult_self1_is_0)
qed

lemma entry_inj:
  assumes "page_aligned p" "page_aligned q" "i < 512" "j < 512"
  shows "entry p i = entry q j \<longleftrightarrow> p = q \<and> i = j"
proof
  assume e: "entry p i = entry q j"
  have "unat (entry p i - p) < 4096" "unat (entry p i - q) < 4096"
    using entry_unat(2) [OF assms(1,3)] entry_unat(2) [OF assms(2,4)] assms(3,4) e by (simp_all add: unat_less_512)
  then have "p = q" using pages_disjoint [OF assms(1,2)] by blast
  then have "8 * unat i = 8 * unat j" using e entry_unat(2) [OF assms(1,3)] entry_unat(2) [OF assms(2,4)] by metis
  then show "p = q \<and> i = j" using \<open>p = q\<close> by (simp add: word_unat_eq_iff)
qed simp

lemma load_store_entry:
  assumes "page_aligned p" "page_aligned q" "i < 512" "j < 512"
  shows "load64 (store64 m (entry p i) v) (entry q j) = (if q = p \<and> j = i then v else load64 m (entry q j))"
  using entry_inj [OF assms(1,2,3,4)] load64_store64_other [of "entry q j" "entry p i" m v]
    entry_aligned [OF assms(1,3)] entry_aligned [OF assms(2,4)] by auto

lemma store_entry_outside:
  assumes "page_aligned p" "i < 512" "\<not> unat (x - p) < 4096"
  shows "store64 m (entry p i) v x = m x"
proof (rule store64_outside, rule ccontr)
  assume "\<not> 8 \<le> unat (x - entry p i)"
  moreover have "x = entry p i + of_nat (unat (x - entry p i))" by simp
  ultimately obtain j where j: "j < 8" "x = entry p i + of_nat j" by (metis not_le)
  then have "x - p = of_nat (8 * unat i + j)" by (simp add: entry_def)
  then have "unat (x - p) = 8 * unat i + j"
    using assms(2) j(1) by (simp add: unat_of_nat_less unat_less_512 del: of_nat_add of_nat_mult)
  then show False using assms(2,3) j(1) by (simp add: unat_less_512)
qed

text \<open>Loads of entries see only their page.\<close>

lemma load_entry_cong:
  assumes "page_aligned p" "i < 512" "\<And>x. unat (x - p) < 4096 \<Longrightarrow> m' x = m x"
  shows "load64 m' (entry p i) = load64 m (entry p i)"
proof (rule load64_cong)
  fix j :: nat assume j: "j < 8"
  have "entry p i + of_nat j - p = of_nat (8 * unat i + j)" by (simp add: entry_def)
  then have "unat (entry p i + of_nat j - p) = 8 * unat i + j"
    using assms(2) j by (simp add: unat_of_nat_less unat_less_512 del: of_nat_add of_nat_mult)
  then show "m' (entry p i + of_nat j) = m (entry p i + of_nat j)" using assms(2,3) j by (simp add: unat_less_512)
qed

lemma load_entry_zero:
  assumes "page_aligned p" "i < 512" "\<And>x. unat (x - p) < 4096 \<Longrightarrow> m x = 0"
  shows "load64 m (entry p i) = 0"
proof -
  have "load64 m (entry p i) = load64 (\<lambda>_. 0) (entry p i)"
    by (rule load_entry_cong [OF assms(1,2)]) (simp add: assms(3))
  also have "\<dots> = 0" by (simp add: load64_def load_bytes_def) (simp add: upt_conv_Cons)
  finally show ?thesis .
qed

section \<open>The tree of page-table pages\<close>

text \<open>
  The page a path of indices leads to. The first two levels of a table are its inner
  nodes; the entries of the third are the leaves.
\<close>

definition child :: "mem \<Rightarrow> uint64 \<Rightarrow> uint64 \<Rightarrow> uint64 option" where
  "child m p i = (let e = load64 m (entry p i) in if e AND PTE_V \<noteq> 0 then Some (PTE2PA e) else None)"

fun node :: "mem \<Rightarrow> uint64 \<Rightarrow> uint64 list \<Rightarrow> uint64 option" where
  "node m p [] = Some p"
| "node m p (i # is) = Option.bind (child m p i) (\<lambda>q. node m q is)"

definition is_path :: "uint64 list \<Rightarrow> bool" where
  "is_path \<pi> \<longleftrightarrow> length \<pi> \<le> 2 \<and> (\<forall>i\<in>set \<pi>. i < 512)"

definition tables :: "mem \<Rightarrow> uint64 \<Rightarrow> uint64 set" where
  "tables m root = {q. \<exists>\<pi>. is_path \<pi> \<and> node m root \<pi> = Some q}"

definition leaf :: "mem \<Rightarrow> uint64 \<Rightarrow> uint64 \<Rightarrow> uint64" where
  "leaf m root va = (case node m root [PX 2 va, PX 1 va] of None \<Rightarrow> 0 | Some q \<Rightarrow> load64 m (entry q (PX 0 va)))"

definition pt_inv :: "uint64 \<Rightarrow> mem \<Rightarrow> uint64 \<Rightarrow> bool" where
  "pt_inv kend m root \<longleftrightarrow> (\<forall>q\<in>tables m root. valid_page kend q) \<and>
     (\<forall>\<pi> \<rho> q. is_path \<pi> \<longrightarrow> is_path \<rho> \<longrightarrow> node m root \<pi> = Some q \<longrightarrow> node m root \<rho> = Some q \<longrightarrow> \<pi> = \<rho>)"

definition vm_inv :: "uint64 \<Rightarrow> kmem \<Rightarrow> uint64 \<Rightarrow> uint64 list \<Rightarrow> bool" where
  "vm_inv kend k root ps \<longleftrightarrow> free_pages kend k ps \<and> pt_inv kend (ram k) root \<and> set ps \<inter> tables (ram k) root = {}"

lemma node_snoc: "node m p (\<pi> @ [i]) = Option.bind (node m p \<pi>) (\<lambda>q. child m q i)"
  by (induction \<pi> arbitrary: p) (auto simp: bind_assoc)

lemma node_append: "node m p (\<pi> @ \<rho>) = Option.bind (node m p \<pi>) (\<lambda>q. node m q \<rho>)"
  by (induction \<pi> arbitrary: p) (auto simp: bind_assoc)

lemma is_path_snoc: "is_path (\<pi> @ [i]) \<longleftrightarrow> length \<pi> \<le> 1 \<and> is_path \<pi> \<and> i < 512"
  by (auto simp: is_path_def)

lemma is_path_PX: "is_path [PX 2 va, PX 1 va]" "is_path [PX 2 va]" "is_path []"
  by (simp_all add: is_path_def PX_less)

lemma tablesI: "is_path \<pi> \<Longrightarrow> node m root \<pi> = Some q \<Longrightarrow> q \<in> tables m root"
  by (auto simp: tables_def)

lemma pt_invD:
  assumes "pt_inv kend m root"
  shows "q \<in> tables m root \<Longrightarrow> valid_page kend q" "q \<in> tables m root \<Longrightarrow> page_aligned q"
    "is_path \<pi> \<Longrightarrow> is_path \<rho> \<Longrightarrow> node m root \<pi> = Some q \<Longrightarrow> node m root \<rho> = Some q \<Longrightarrow> \<pi> = \<rho>"
  using assms by (auto simp: pt_inv_def valid_page_def)

text \<open>Changing one entry changes only the nodes reached through it.\<close>

lemma node_update:
  assumes inv: "pt_inv kend m root" and p: "is_path \<pi>" "node m root \<pi> = Some p"
    and same: "\<And>q j. q \<in> tables m root \<Longrightarrow> j < 512 \<Longrightarrow> (q, j) \<noteq> (p, i) \<Longrightarrow> load64 m' (entry q j) = load64 m (entry q j)"
    and \<rho>: "is_path \<rho>" "\<And>\<sigma>. \<rho> \<noteq> \<pi> @ i # \<sigma>"
  shows "node m' root \<rho> = node m root \<rho>"
  using \<rho>
proof (induction \<rho> rule: rev_induct)
  case (snoc j \<rho>)
  have r: "is_path \<rho>" "j < 512" using snoc.prems(1) by (auto simp: is_path_snoc)
  have "\<rho> \<noteq> \<pi> @ i # \<sigma>" for \<sigma> using snoc.prems(2) [of "\<sigma> @ [j]"] by auto
  then have IH: "node m' root \<rho> = node m root \<rho>" using snoc.IH r by blast
  show ?case
  proof (cases "node m root \<rho>")
    case (Some q)
    have "(q, j) \<noteq> (p, i)"
    proof
      assume "(q, j) = (p, i)"
      then have "\<rho> = \<pi>" using pt_invD(3) [OF inv r(1) p(1)] Some p(2) by simp
      then show False using snoc.prems(2) [of "[]"] \<open>(q, j) = (p, i)\<close> by simp
    qed
    then have "child m' q j = child m q j" using same tablesI [OF r(1) Some] r(2) by (simp add: child_def)
    then show ?thesis using IH Some by (simp add: node_snoc)
  qed (simp add: node_snoc IH)
qed simp

lemma node_cong:
  assumes "pt_inv kend m root" "\<And>q x. q \<in> tables m root \<Longrightarrow> unat (x - q) < 4096 \<Longrightarrow> m' x = m x" "is_path \<rho>"
  shows "node m' root \<rho> = node m root \<rho>"
  using assms(3)
proof (induction \<rho> rule: rev_induct)
  case (snoc j \<rho>)
  have r: "is_path \<rho>" "j < 512" using snoc.prems by (auto simp: is_path_snoc)
  show ?case
  proof (cases "node m root \<rho>")
    case (Some q)
    have q: "q \<in> tables m root" by (rule tablesI [OF r(1) Some])
    have "load64 m' (entry q j) = load64 m (entry q j)"
      by (rule load_entry_cong) (use assms(2) [OF q] pt_invD(2) [OF assms(1) q] r in auto)
    then show ?thesis using snoc.IH [OF r(1)] Some by (simp add: node_snoc child_def)
  qed (use snoc.IH [OF r(1)] in \<open>simp add: node_snoc\<close>)
qed simp

text \<open>A table whose pages are not touched keeps its nodes, its leaves and its invariant.\<close>

lemma tables_frame:
  assumes inv: "pt_inv kend m root" and same: "\<And>q x. q \<in> tables m root \<Longrightarrow> unat (x - q) < 4096 \<Longrightarrow> m' x = m x"
  shows "tables m' root = tables m root" "leaf m' root va = leaf m root va" "pt_inv kend m' root"
proof -
  have n: "node m' root \<rho> = node m root \<rho>" if "is_path \<rho>" for \<rho> by (rule node_cong [OF inv _ that]) (rule same)
  then show t: "tables m' root = tables m root" by (auto simp: tables_def)
  show "pt_inv kend m' root" using inv n by (auto simp: pt_inv_def t)
  have "load64 m' (entry q (PX 0 va)) = load64 m (entry q (PX 0 va))" if "node m root [PX 2 va, PX 1 va] = Some q" for q
    using load_entry_cong [of q "PX 0 va" m' m] same pt_invD(2) [OF inv] tablesI [OF is_path_PX(1) that] PX_less by blast
  then show "leaf m' root va = leaf m root va" unfolding leaf_def n [OF is_path_PX(1)] by (auto split: option.split)
qed

text \<open>Storing a leaf entry.\<close>

lemma leaf_store:
  fixes e :: uint64
  assumes inv: "pt_inv kend m root" and q: "node m root [PX 2 va, PX 1 va] = Some q"
  defines "m' \<equiv> store64 m (entry q (PX 0 va)) e"
  shows "tables m' root = tables m root" "pt_inv kend m' root"
    "leaf m' root va' = (if PX 2 va' = PX 2 va \<and> PX 1 va' = PX 1 va \<and> PX 0 va' = PX 0 va then e else leaf m root va')"
    "\<And>x. \<not> unat (x - q) < 4096 \<Longrightarrow> m' x = m x"
proof -
  have qt: "q \<in> tables m root" by (rule tablesI [OF is_path_PX(1) q])
  have qa: "page_aligned q" by (rule pt_invD(2) [OF inv qt])
  have ld: "load64 m' (entry p j) = (if p = q \<and> j = PX 0 va then e else load64 m (entry p j))"
    if "p \<in> tables m root" "j < 512" for p j
    unfolding m'_def using load_store_entry [OF qa _ PX_less that(2)] pt_invD(2) [OF inv that(1)] by simp
  have n: "node m' root \<rho> = node m root \<rho>" if "is_path \<rho>" for \<rho>
  proof (rule node_update [OF inv is_path_PX(1) q _ that])
    show "load64 m' (entry p j) = load64 m (entry p j)" if "p \<in> tables m root" "j < 512" "(p, j) \<noteq> (q, PX 0 va)" for p j
      using ld [OF that(1,2)] that(3) by auto
    show "\<rho> \<noteq> [PX 2 va, PX 1 va] @ PX 0 va # \<sigma>" for \<sigma> using that by (auto simp: is_path_def)
  qed
  then show t: "tables m' root = tables m root" by (auto simp: tables_def)
  show "pt_inv kend m' root" using inv n by (auto simp: pt_inv_def t)
  show "leaf m' root va' = (if PX 2 va' = PX 2 va \<and> PX 1 va' = PX 1 va \<and> PX 0 va' = PX 0 va then e else leaf m root va')"
  proof (cases "node m root [PX 2 va', PX 1 va']")
    case None
    then show ?thesis using q n [OF is_path_PX(1), of va'] by (auto simp: leaf_def simp del: node.simps)
  next
    case (Some p)
    have "p = q \<longleftrightarrow> PX 2 va' = PX 2 va \<and> PX 1 va' = PX 1 va"
      using pt_invD(3) [OF inv is_path_PX(1) is_path_PX(1) Some, of va] q Some by (auto simp del: node.simps)
    then show ?thesis
      using ld [OF tablesI [OF is_path_PX(1) Some] PX_less, of 0 va'] Some n [OF is_path_PX(1), of va']
      by (auto simp: leaf_def simp del: node.simps)
  qed
  show "m' x = m x" if "\<not> unat (x - q) < 4096" for x
    unfolding m'_def by (rule store_entry_outside [OF qa PX_less that])
qed

text \<open>
  What an operation on a table may do besides changing leaves: take pages from the front
  of the free list for new tables, and write to table pages.
\<close>

definition grows :: "uint64 \<Rightarrow> uint64 \<Rightarrow> kmem \<Rightarrow> uint64 list \<Rightarrow> kmem \<Rightarrow> uint64 list \<Rightarrow> bool" where
  "grows kend root k ps k' ps' \<longleftrightarrow> vm_inv kend k' root ps' \<and>
     (\<exists>used. ps = used @ ps' \<and> tables (ram k') root = tables (ram k) root \<union> set used) \<and>
     (\<forall>x. (\<forall>q\<in>tables (ram k') root. \<not> unat (x - q) < 4096) \<longrightarrow> ram k' x = ram k x)"

lemma grows_refl: "vm_inv kend k root ps \<Longrightarrow> grows kend root k ps k ps"
  by (simp add: grows_def)

lemma grows_trans: "grows kend root k ps k1 ps1 \<Longrightarrow> grows kend root k1 ps1 k2 ps2 \<Longrightarrow> grows kend root k ps k2 ps2"
  unfolding grows_def by (elim conjE exE, intro conjI exI allI impI) (auto intro: append_assoc [symmetric])

lemma grows_inv: "grows kend root k ps k' ps' \<Longrightarrow> vm_inv kend k' root ps'"
  by (simp add: grows_def)

text \<open>Linking a fresh, cleared page into an empty inner entry.\<close>

lemma link_table:
  assumes inv: "vm_inv kend k root (r # ps)" and p: "is_path (\<pi> @ [i])" "node (ram k) root \<pi> = Some p"
    and none: "child (ram k) p i = None" and ka: "kalloc k = (r', k1)"
  defines "k' \<equiv> k1\<lparr>ram := store64 (memset (ram k1) r' 0 (ucast PGSIZE)) (entry p i) (PA2PTE r' OR PTE_V)\<rparr>"
  shows "r' = r" "r \<noteq> 0" "grows kend root k (r # ps) k' ps" "node (ram k') root (\<pi> @ [i]) = Some r"
    "leaf (ram k') root va = leaf (ram k) root va"
proof -
  let ?m = "ram k" and ?m' = "ram k'"
  have i: "i < 512" "is_path \<pi>" "length \<pi> \<le> 1" using p(1) by (auto simp: is_path_snoc)
  have fp: "free_pages kend k (r # ps)" and pi: "pt_inv kend ?m root" and dj: "set (r # ps) \<inter> tables ?m root = {}"
    using inv by (auto simp: vm_inv_def)
  from kalloc_allocates [OF fp] ka have r: "r' = r" "free_pages kend k1 ps"
    "\<And>x. ram k1 x = (if unat (x - r) < 4096 then 5 else ?m x)" by auto
  show "r' = r" by (rule r(1))
  have rv: "valid_page kend r" "r \<notin> set ps" using fp by (auto simp: free_pages_def)
  then show "r \<noteq> 0" by (simp add: valid_page_def)
  have pt: "p \<in> tables ?m root" by (rule tablesI [OF i(2) p(2)])
  have al: "page_aligned p" "page_aligned r" using pt_invD(2) [OF pi pt] rv by (auto simp: valid_page_def)
  have rt: "r \<notin> tables ?m root" "r \<noteq> p" using dj pt by auto
  let ?z = "memset (ram k1) r 0 (ucast PGSIZE)"
  have z: "?z x = (if unat (x - r) < 4096 then 0 else ?m x)" for x by (simp add: memset_at ucast_PGSIZE r(3))
  have m': "?m' = store64 ?z (entry p i) (PA2PTE r OR PTE_V)" by (simp add: k'_def r(1))
  have ld: "load64 ?m' (entry q j) = (if q = p \<and> j = i then PA2PTE r OR PTE_V else load64 ?z (entry q j))"
    if "page_aligned q" "j < 512" for q j unfolding m' by (rule load_store_entry [OF al(1) that(1) i(1) that(2)])
  have zold: "load64 ?z (entry q j) = load64 ?m (entry q j)" if "q \<in> tables ?m root" "j < 512" for q j
  proof (rule load_entry_cong [OF pt_invD(2) [OF pi that(1)] that(2)])
    show "?z x = ?m x" if x: "unat (x - q) < 4096" for x
      using pages_disjoint [OF pt_invD(2) [OF pi \<open>q \<in> tables ?m root\<close>] al(2) _ x] rt(1) z \<open>q \<in> tables ?m root\<close> by auto
  qed
  have znew: "load64 ?m' (entry r j) = 0" if "j < 512" for j
    using ld [OF al(2) that] load_entry_zero [OF al(2) that, of ?z] z rt(2) by simp
  have old: "node ?m' root \<rho> = node ?m root \<rho>" if "is_path \<rho>" "\<And>\<sigma>. \<rho> \<noteq> \<pi> @ i # \<sigma>" for \<rho>
    by (rule node_update [OF pi i(2) p(2) _ that]) (use ld zold pt_invD(2) [OF pi] in auto)
  have e: "PTE2PA (PA2PTE r OR PTE_V) = r" "(PA2PTE r OR PTE_V) AND PTE_V \<noteq> 0"
    using PTE2PA_entry(1,2) [OF al(2), of 0] by simp_all
  have "node ?m' root \<pi> = Some p" using old [OF i(2)] p(2) by simp
  then show nr: "node ?m' root (\<pi> @ [i]) = Some r"
    using ld [OF al(1) i(1)] e by (simp add: node_snoc child_def)
  have below: "node ?m' root (\<pi> @ i # j # \<sigma>) = None" "node ?m root (\<pi> @ i # \<sigma>) = None" if "j < 512" for j \<sigma>
  proof -
    have "node ?m' root ((\<pi> @ [i]) @ j # \<sigma>) = Option.bind (node ?m' root (\<pi> @ [i])) (\<lambda>q. node ?m' q (j # \<sigma>))"
      by (rule node_append)
    also have "\<dots> = None" unfolding nr using znew [OF that] by (simp add: child_def)
    finally have "node ?m' root ((\<pi> @ [i]) @ j # \<sigma>) = None" .
    then show "node ?m' root (\<pi> @ i # j # \<sigma>) = None" by simp
    show "node ?m root (\<pi> @ i # \<sigma>) = None" unfolding node_append p(2) using none by simp
  qed
  have char: "node ?m' root \<rho> = (if \<rho> = \<pi> @ [i] then Some r else node ?m root \<rho>)" if "is_path \<rho>" for \<rho>
  proof (cases "\<exists>\<sigma>. \<rho> = \<pi> @ i # \<sigma>")
    case True
    then obtain \<sigma> where s: "\<rho> = \<pi> @ i # \<sigma>" ..
    show ?thesis
    proof (cases \<sigma>)
      case (Cons j \<tau>)
      then have "j < 512" using that s by (simp add: is_path_def)
      then show ?thesis using below [of j] s Cons by auto
    qed (use s nr in simp)
  next
    case False
    then show ?thesis using old [OF that] by auto
  qed
  have t: "tables ?m' root = insert r (tables ?m root)"
  proof (intro equalityI subsetI)
    fix q assume "q \<in> tables ?m' root"
    then show "q \<in> insert r (tables ?m root)" using char by (auto simp: tables_def split: if_splits)
  next
    fix q assume "q \<in> insert r (tables ?m root)"
    then consider "q = r" | \<rho> where "is_path \<rho>" "node ?m root \<rho> = Some q" by (auto simp: tables_def)
    then show "q \<in> tables ?m' root"
    proof cases
      case 1
      then show ?thesis using tablesI [OF p(1) nr] by simp
    next
      case 2
      then show ?thesis using char [OF 2(1)] below(2) [of 0 "[]"] by (intro tablesI [OF 2(1)]) auto
    qed
  qed
  have "pt_inv kend ?m' root"
    unfolding pt_inv_def
  proof (intro conjI allI impI)
    show "\<forall>q\<in>tables ?m' root. valid_page kend q" using t rv pt_invD(1) [OF pi] by auto
    fix \<rho> \<sigma> q assume a: "is_path \<rho>" "is_path \<sigma>" "node ?m' root \<rho> = Some q" "node ?m' root \<sigma> = Some q"
    show "\<rho> = \<sigma>"
      using a(3,4) char [OF a(1)] char [OF a(2)] pt_invD(3) [OF pi a(1,2)] tablesI [OF a(1)] tablesI [OF a(2)] rt(1)
      by (auto split: if_splits)
  qed
  moreover have "free_pages kend k' ps"
  proof -
    have c: "chain (ram k1) (freelist k1) ps" using r(2) by (simp add: free_pages_def)
    have "chain ?z (freelist k1) ps"
      by (rule chain_other_page [OF c al(2) rv(2)])
        (use r(2) in \<open>auto simp: free_pages_def valid_page_def memset_at ucast_PGSIZE\<close>)
    then have "chain ?m' (freelist k1) ps"
      by (rule chain_other_page [OF _ al(1)])
        (use dj pt r(2) store_entry_outside [OF al(1) i(1)] m' in \<open>auto simp: free_pages_def valid_page_def\<close>)
    then show ?thesis using r(2) by (simp add: free_pages_def k'_def)
  qed
  ultimately have "vm_inv kend k' root ps" using t dj rv(2) by (auto simp: vm_inv_def)
  moreover have "?m' x = ?m x" if "\<forall>q\<in>tables ?m' root. \<not> unat (x - q) < 4096" for x
    using that t pt store_entry_outside [OF al(1) i(1), of x] z [of x] by (simp add: m')
  ultimately show "grows kend root k (r # ps) k' ps"
    unfolding grows_def using t by (intro conjI exI [of _ "[r]"]) auto
  show "leaf ?m' root va = leaf ?m root va"
  proof (cases "[PX 2 va, PX 1 va] = \<pi> @ [i]")
    case True
    then have "node ?m root [PX 2 va, PX 1 va] = None" "node ?m' root [PX 2 va, PX 1 va] = Some r"
      unfolding True using nr below(2) [of 0 "[]"] by (simp_all del: node.simps)
    then show ?thesis using znew [OF PX_less] by (simp add: leaf_def del: node.simps)
  next
    case False
    then have n: "node ?m' root [PX 2 va, PX 1 va] = node ?m root [PX 2 va, PX 1 va]"
      unfolding char [OF is_path_PX(1)] by (simp only: if_False)
    show ?thesis
    proof (cases "node ?m root [PX 2 va, PX 1 va]")
      case (Some q)
      have q: "q \<in> tables ?m root" by (rule tablesI [OF is_path_PX(1) Some])
      have "q \<noteq> p" using pt_invD(3) [OF pi is_path_PX(1) i(2) Some] p(2) i(3) by auto
      then show ?thesis using n Some ld [OF pt_invD(2) [OF pi q] PX_less, of 0 va] zold [OF q PX_less, of 0 va]
        by (simp add: leaf_def del: node.simps)
    qed (use n in \<open>simp add: leaf_def del: node.simps\<close>)
  qed
qed

section \<open>The walk\<close>

lemma walk_level_cases:
  assumes inv: "vm_inv kend k root ps" and p: "is_path (\<pi> @ [PX level va])" "node (ram k) root \<pi> = Some p"
  shows "walk_level False va level p k = (child (ram k) p (PX level va), k)"
    "\<exists>r k' ps'. walk_level True va level p k = (r, k') \<and> grows kend root k ps k' ps' \<and>
       (\<forall>va. leaf (ram k') root va = leaf (ram k) root va) \<and>
       length ps \<le> Suc (length ps') \<and>
       (case r of None \<Rightarrow> ps' = [] | Some q \<Rightarrow> node (ram k') root (\<pi> @ [PX level va]) = Some q)"
proof -
  let ?i = "PX level va"
  show "walk_level False va level p k = (child (ram k) p ?i, k)" by (simp add: walk_level_def child_def Let_def)
  have n: "node (ram k) root (\<pi> @ [?i]) = child (ram k) p ?i" by (simp add: node_snoc p(2))
  show "\<exists>r k' ps'. walk_level True va level p k = (r, k') \<and> grows kend root k ps k' ps' \<and>
       (\<forall>va. leaf (ram k') root va = leaf (ram k) root va) \<and>
       length ps \<le> Suc (length ps') \<and>
       (case r of None \<Rightarrow> ps' = [] | Some q \<Rightarrow> node (ram k') root (\<pi> @ [PX level va]) = Some q)"
  proof (cases "child (ram k) p ?i")
    case (Some q)
    then have "walk_level True va level p k = (Some q, k)"
      by (auto simp: walk_level_def child_def Let_def split: if_splits)
    then show ?thesis using grows_refl [OF inv] Some n by auto
  next
    case None
    then have v: "load64 (ram k) (entry p ?i) AND PTE_V = 0" by (simp add: child_def Let_def split: if_splits)
    show ?thesis
    proof (cases ps)
      case Nil
      then have "kalloc k = (0, k)" using inv by (auto simp: vm_inv_def intro: kalloc_empty)
      then have "walk_level True va level p k = (None, k)" using v by (simp add: walk_level_def Let_def)
      then show ?thesis using grows_refl [OF inv] Nil by auto
    next
      case (Cons r rs)
      obtain r' k1 where ka: "kalloc k = (r', k1)" by (cases "kalloc k")
      note l = link_table [OF inv [unfolded Cons] p None ka]
      have "walk_level True va level p k =
          (Some r, k1\<lparr>ram := store64 (memset (ram k1) r' 0 (ucast PGSIZE)) (entry p ?i) (PA2PTE r' OR PTE_V)\<rparr>)"
        using v ka l(1,2) by (simp add: walk_level_def Let_def)
      then show ?thesis using l Cons by auto
    qed
  qed
qed

lemma walk_lookup:
  assumes inv: "vm_inv kend k root ps" and va: "va < MAXVA"
  shows "walk root va False k = Inr (case node (ram k) root [PX 2 va, PX 1 va] of None \<Rightarrow> 0 | Some q \<Rightarrow> entry q (PX 0 va), k)"
proof -
  have p2: "is_path ([] @ [PX 2 va])" by (simp add: is_path_PX)
  have 2: "walk_level False va 2 root k = (child (ram k) root (PX 2 va), k)"
    using walk_level_cases(1) [OF inv p2] by simp
  show ?thesis
  proof (cases "child (ram k) root (PX 2 va)")
    case None
    then show ?thesis using 2 va by (simp add: walk_def)
  next
    case (Some q)
    have p1: "is_path ([PX 2 va] @ [PX 1 va])" using is_path_PX(1) by simp
    have n: "node (ram k) root [PX 2 va] = Some q" using Some by simp
    show ?thesis using walk_level_cases(1) [OF inv p1 n] 2 Some va by (simp add: walk_def not_le [symmetric] split: option.split)
  qed
qed

lemma entry_nonzero: "valid_page kend q \<Longrightarrow> i < 512 \<Longrightarrow> entry q i \<noteq> 0"
proof
  assume v: "valid_page kend q" "i < 512" "entry q i = 0"
  then have "unat q + 8 * unat i = 0" using entry_unat(1) [of q i] by (simp add: valid_page_def)
  then show False using v(1) by (simp add: valid_page_def word_unat_eq_iff)
qed

text \<open>What a lookup sees of a table is \<open>leaf\<close>.\<close>

lemma walk_leaf:
  assumes inv: "vm_inv kend k root ps" and va: "va < MAXVA"
  obtains pte where "walk root va False k = Inr (pte, k)" "pte = 0 \<Longrightarrow> leaf (ram k) root va = 0"
    "pte \<noteq> 0 \<Longrightarrow> load64 (ram k) pte = leaf (ram k) root va"
    "pte \<noteq> 0 \<Longrightarrow> \<exists>q. node (ram k) root [PX 2 va, PX 1 va] = Some q \<and> pte = entry q (PX 0 va)"
proof (cases "node (ram k) root [PX 2 va, PX 1 va]")
  case None
  then show ?thesis using that [of 0] walk_lookup [OF assms] by (simp add: leaf_def del: node.simps)
next
  case (Some q)
  have pi: "pt_inv kend (ram k) root" using inv by (simp add: vm_inv_def)
  have "entry q (PX 0 va) \<noteq> 0"
    by (rule entry_nonzero [OF pt_invD(1) [OF pi tablesI [OF is_path_PX(1) Some]] PX_less])
  then show ?thesis using that [of "entry q (PX 0 va)"] walk_lookup [OF assms] Some by (simp add: leaf_def del: node.simps)
qed

lemma walkaddr_leaf:
  assumes "vm_inv kend k root ps"
  shows "walkaddr root va k = Inr (if va < MAXVA \<and> leaf (ram k) root va AND PTE_V \<noteq> 0 \<and> leaf (ram k) root va AND PTE_U \<noteq> 0
    then PTE2PA (leaf (ram k) root va) else 0)"
proof (cases "va < MAXVA")
  case True
  from walk_leaf [OF assms True] obtain pte where "walk root va False k = Inr (pte, k)"
    "pte = 0 \<Longrightarrow> leaf (ram k) root va = 0" "pte \<noteq> 0 \<Longrightarrow> load64 (ram k) pte = leaf (ram k) root va" by metis
  then show ?thesis using True by (cases "pte = 0") (auto simp: walkaddr_def Let_def not_le)
qed (auto simp: walkaddr_def not_less)

lemma walk_alloc:
  assumes inv: "vm_inv kend k root ps" and va: "va < MAXVA"
  obtains pte k' ps' where "walk root va True k = Inr (pte, k')" "grows kend root k ps k' ps'"
    "\<And>va. leaf (ram k') root va = leaf (ram k) root va" "pte = 0 \<Longrightarrow> ps' = []" "length ps \<le> length ps' + 2"
    "pte \<noteq> 0 \<Longrightarrow> \<exists>q. node (ram k') root [PX 2 va, PX 1 va] = Some q \<and> pte = entry q (PX 0 va)"
proof -
  have p2: "is_path ([] @ [PX 2 va])" by (simp add: is_path_PX)
  obtain r k1 ps1 where 1: "walk_level True va 2 root k = (r, k1)" "grows kend root k ps k1 ps1"
    "\<And>va. leaf (ram k1) root va = leaf (ram k) root va" "length ps \<le> Suc (length ps1)"
    "case r of None \<Rightarrow> ps1 = [] | Some q \<Rightarrow> node (ram k1) root ([] @ [PX 2 va]) = Some q"
    using walk_level_cases(2) [OF inv p2, of root] by auto
  show ?thesis
  proof (cases r)
    case None
    then show ?thesis using that [of 0 k1 ps1] 1 va by (simp add: walk_def)
  next
    case (Some q)
    have p1: "is_path ([PX 2 va] @ [PX 1 va])" using is_path_PX(1) by simp
    have n: "node (ram k1) root [PX 2 va] = Some q" using 1(5) Some by simp
    obtain r2 k2 ps2 where 2: "walk_level True va 1 q k1 = (r2, k2)" "grows kend root k1 ps1 k2 ps2"
      "\<And>va. leaf (ram k2) root va = leaf (ram k1) root va" "length ps1 \<le> Suc (length ps2)"
      "case r2 of None \<Rightarrow> ps2 = [] | Some q \<Rightarrow> node (ram k2) root ([PX 2 va] @ [PX 1 va]) = Some q"
      using walk_level_cases(2) [OF grows_inv [OF 1(2)] p1 n] by blast
    have g: "grows kend root k ps k2 ps2" by (rule grows_trans [OF 1(2) 2(2)])
    show ?thesis
    proof (cases r2)
      case None
      then show ?thesis using that [of 0 k2 ps2] 1 2 g va Some by (simp add: walk_def)
    next
      case (Some q2)
      have pi: "pt_inv kend (ram k2) root" using grows_inv [OF g] by (simp add: vm_inv_def)
      have n2: "node (ram k2) root [PX 2 va, PX 1 va] = Some q2" using 2(5) Some by simp
      have "entry q2 (PX 0 va) \<noteq> 0"
        by (rule entry_nonzero [OF pt_invD(1) [OF pi tablesI [OF is_path_PX(1) n2]] PX_less])
      then show ?thesis
        using that [of "entry q2 (PX 0 va)" k2 ps2] 1 2 g va \<open>r = Some q\<close> Some n2 by (simp add: walk_def del: node.simps)
    qed
  qed
qed

section \<open>Mapping pages\<close>

lemma add_page:
  assumes "unat a + 4096 < 2 ^ 64"
  shows "unat (a + PGSIZE) = unat a + 4096" "page_aligned a \<Longrightarrow> page_aligned (a + PGSIZE)"
proof -
  show "unat (a + PGSIZE) = unat a + 4096" using unat_add_of_nat [OF assms] by (simp add: PGSIZE_def)
  then show "page_aligned a \<Longrightarrow> page_aligned (a + PGSIZE)" by (simp only: page_aligned_unat) simp
qed

lemma grows_store_leaf:
  assumes g: "grows kend root k ps k' ps'" and q: "node (ram k') root [PX 2 va, PX 1 va] = Some q"
  shows "grows kend root k ps (k'\<lparr>ram := store64 (ram k') (entry q (PX 0 va)) e\<rparr>) ps'"
proof -
  have inv: "vm_inv kend k' root ps'" by (rule grows_inv [OF g])
  then have pi: "pt_inv kend (ram k') root" and fp: "free_pages kend k' ps'" and dj: "set ps' \<inter> tables (ram k') root = {}"
    by (auto simp: vm_inv_def)
  note l = leaf_store [OF pi q, where e = e]
  have qt: "q \<in> tables (ram k') root" by (rule tablesI [OF is_path_PX(1) q])
  have qa: "page_aligned q" by (rule pt_invD(2) [OF pi qt])
  have "chain (store64 (ram k') (entry q (PX 0 va)) e) (freelist k') ps'"
    by (rule chain_other_page [of "ram k'" _ _ q])
      (use fp dj qt qa l(4) in \<open>auto simp: free_pages_def valid_page_def\<close>)
  then have "vm_inv kend (k'\<lparr>ram := store64 (ram k') (entry q (PX 0 va)) e\<rparr>) root ps'"
    using fp dj l(1,2) by (simp add: vm_inv_def free_pages_def)
  then show ?thesis using g l(1,4) qt by (auto simp: grows_def)
qed

text \<open>The leaves after mapping \<open>n + 1\<close> pages from \<open>a\<close> to the pages from \<open>pa\<close>.\<close>

definition mapped :: "uint64 \<Rightarrow> nat \<Rightarrow> uint64 \<Rightarrow> uint64 \<Rightarrow> (uint64 \<Rightarrow> uint64) \<Rightarrow> uint64 \<Rightarrow> uint64" where
  "mapped a n pa perm L va =
     (if unat a \<le> unat va \<and> unat va < unat a + 4096 * n
      then PA2PTE (pa + PGROUNDDOWN (va - a)) OR perm OR PTE_V else L va)"

lemma PGROUNDDOWN_diff:
  assumes "page_aligned a" "unat a + 4096 \<le> unat va"
  shows "PGROUNDDOWN (va - a) = PGSIZE + PGROUNDDOWN (va - (a + PGSIZE))"
proof -
  have u1: "unat (a + PGSIZE) = unat a + 4096"
    using assms(2) unat_bound [of va] unat_add_of_nat [of a 4096] by (simp add: PGSIZE_def)
  have d1: "unat (va - (a + PGSIZE)) = unat va - unat a - 4096"
    using assms(2) u1 by (simp add: unat_sub word_le_nat_alt)
  have d2: "unat (va - a) = unat va - unat a" using assms(2) by (simp add: unat_sub word_le_nat_alt)
  have "unat (PGROUNDDOWN (va - a)) = unat (PGROUNDDOWN (va - (a + PGSIZE))) + 4096"
    unfolding PGROUNDDOWN_unat d1 d2 using assms(2) by (simp add: le_div_geq [of 4096 "unat va - unat a"])
  moreover have "unat (PGROUNDDOWN (va - (a + PGSIZE)) + of_nat 4096) = unat (PGROUNDDOWN (va - (a + PGSIZE))) + 4096"
  proof (rule unat_add_of_nat)
    have "unat (PGROUNDDOWN (va - (a + PGSIZE))) \<le> unat va - unat a - 4096"
      unfolding PGROUNDDOWN_unat d1 by simp
    then show "unat (PGROUNDDOWN (va - (a + PGSIZE))) + 4096 < 2 ^ 64" using assms(2) unat_bound [of va] by simp
  qed
  ultimately have "PGROUNDDOWN (va - a) = PGROUNDDOWN (va - (a + PGSIZE)) + of_nat 4096" by (simp only: word_unat_eq_iff)
  then show ?thesis by (simp add: PGSIZE_def)
qed

lemma same_page_iff:
  assumes "page_aligned a" "a < MAXVA" "va < MAXVA"
  shows "PX 2 va = PX 2 a \<and> PX 1 va = PX 1 a \<and> PX 0 va = PX 0 a \<longleftrightarrow> unat a \<le> unat va \<and> unat va < unat a + 4096"
proof -
  obtain c where c: "unat a = 4096 * c" using assms(1) by (metis page_aligned_unat mod_0_imp_dvd dvdE)
  have "PGROUNDDOWN va = PGROUNDDOWN a \<longleftrightarrow> unat va div 4096 * 4096 = unat a"
    unfolding aligned_round [OF assms(1)] by (simp add: word_unat_eq_iff PGROUNDDOWN_unat)
  also have "\<dots> \<longleftrightarrow> unat va div 4096 = c" using c by simp
  also have "\<dots> \<longleftrightarrow> unat a \<le> unat va \<and> unat va < unat a + 4096" using c by (auto simp: div_nat_eqI)
  finally show ?thesis using PX_page [OF assms(3,2)] by simp
qed

lemma mapped_step:
  assumes "page_aligned a" "a < MAXVA" "va < MAXVA" "unat a + 4096 * Suc n \<le> 2 ^ 38"
  shows "mapped (a + PGSIZE) n (pa + PGSIZE) perm
      (\<lambda>va. if PX 2 va = PX 2 a \<and> PX 1 va = PX 1 a \<and> PX 0 va = PX 0 a then PA2PTE pa OR perm OR PTE_V else L va) va =
    mapped a (Suc n) pa perm L va"
proof -
  have u1: "unat (a + PGSIZE) = unat a + 4096" using assms(4) unat_add_of_nat [of a 4096] by (simp add: PGSIZE_def)
  note s = same_page_iff [OF assms(1,2,3)]
  consider "unat va < unat a" | "unat a \<le> unat va" "unat va < unat a + 4096" | "unat a + 4096 \<le> unat va" by linarith
  then show ?thesis
  proof cases
    case 2
    have "unat (va - a) < 4096" using 2 by (simp add: unat_sub word_le_nat_alt)
    then have "PGROUNDDOWN (va - a) = 0" by (simp add: word_unat_eq_iff PGROUNDDOWN_unat)
    then show ?thesis using 2 s u1 by (simp add: mapped_def)
  next
    case 3
    then show ?thesis using s u1 PGROUNDDOWN_diff [OF assms(1) 3] by (auto simp: mapped_def add.assoc)
  qed (use s u1 in \<open>auto simp: mapped_def\<close>)
qed

lemma mapped_0 [simp]: "mapped a 0 pa perm L = L"
  by (auto simp: mapped_def fun_eq_iff)

lemma map_one:
  assumes inv: "vm_inv kend k root ps" and a: "a < MAXVA" and free: "leaf (ram k) root a AND PTE_V = 0"
  obtains k' where "\<And>lst. mappages_loop root perm lst a pa k = Some (Inr (-1, k'))" "grows kend root k ps k' []"
      "\<And>va. leaf (ram k') root va = leaf (ram k) root va" "length ps \<le> 2"
    | k' ps' where "\<And>lst. mappages_loop root perm lst a pa k =
        (if a = lst then Some (Inr (0, k')) else mappages_loop root perm lst (a + PGSIZE) (pa + PGSIZE) k')"
      "grows kend root k ps k' ps'"
      "\<And>va. leaf (ram k') root va = (if PX 2 va = PX 2 a \<and> PX 1 va = PX 1 a \<and> PX 0 va = PX 0 a
         then PA2PTE pa OR perm OR PTE_V else leaf (ram k) root va)" "length ps \<le> length ps' + 2"
proof -
  from walk_alloc [OF inv a] obtain pte k1 ps1 where w: "walk root a True k = Inr (pte, k1)" "grows kend root k ps k1 ps1"
    "\<And>va. leaf (ram k1) root va = leaf (ram k) root va" "pte = 0 \<Longrightarrow> ps1 = []"
    "length ps \<le> length ps1 + 2"
    "pte \<noteq> 0 \<Longrightarrow> \<exists>q. node (ram k1) root [PX 2 a, PX 1 a] = Some q \<and> pte = entry q (PX 0 a)" by metis
  show ?thesis
  proof (cases "pte = 0")
    case True
    show ?thesis by (rule that(1) [of k1]) (use w True in \<open>simp_all add: mappages_loop.simps [of root perm _ a pa k]\<close>)
  next
    case False
    then obtain q where q: "node (ram k1) root [PX 2 a, PX 1 a] = Some q" "pte = entry q (PX 0 a)" using w(6) by blast
    let ?k = "k1\<lparr>ram := store64 (ram k1) (entry q (PX 0 a)) (PA2PTE pa OR perm OR PTE_V)\<rparr>"
    have "load64 (ram k1) pte AND PTE_V = 0" using free w(3) [of a] q by (simp add: leaf_def del: node.simps)
    moreover have "pt_inv kend (ram k1) root" using grows_inv [OF w(2)] by (simp add: vm_inv_def)
    note l = leaf_store [OF this q(1), where e = "PA2PTE pa OR perm OR PTE_V"]
    ultimately show ?thesis
      by (intro that(2) [of ?k ps1]) (use w(1-3,5) False q(2) grows_store_leaf [OF w(2) q(1)] l(3) in
        \<open>simp_all add: mappages_loop.simps [of root perm _ a pa k] Let_def\<close>)
  qed
qed

lemma mappages_loop_spec:
  assumes "vm_inv kend k root ps" "page_aligned a" "unat a + 4096 * Suc n \<le> 2 ^ 38"
    and "\<And>va. unat a \<le> unat va \<Longrightarrow> unat va < unat a + 4096 * Suc n \<Longrightarrow> leaf (ram k) root va AND PTE_V = 0"
  shows "\<exists>r k' ps'. mappages_loop root perm (a + of_nat (4096 * n)) a pa k = Some (Inr (r, k')) \<and>
    grows kend root k ps k' ps' \<and> (r = 0 \<or> r = -1 \<and> ps' = []) \<and> length ps \<le> length ps' + 2 * Suc n \<and>
    (\<exists>j\<le>Suc n. (r = 0 \<longrightarrow> j = Suc n) \<and> (\<forall>va<MAXVA. leaf (ram k') root va = mapped a j pa perm (leaf (ram k) root) va))"
  using assms
proof (induction n arbitrary: a pa k ps)
  case 0
  have a: "a < MAXVA" using 0(3) by (simp add: word_less_nat_alt MAXVA_unat)
  have free: "leaf (ram k) root a AND PTE_V = 0" using 0(4) by simp
  show ?case
  proof (cases rule: map_one [where perm = perm and pa = pa, OF 0(1) a free])
    case (1 k')
    then show ?thesis by (intro exI [of _ "-1"] exI [of _ k'] exI [of _ "[]"]) (auto intro!: exI [of _ 0])
  next
    case one: (2 k' ps')
    have "leaf (ram k') root va = mapped a 1 pa perm (leaf (ram k) root) va" if "va < MAXVA" for va
      using mapped_step [OF 0(2) a that, of 0 pa perm "leaf (ram k) root"] 0(3) one(3) [of va] by simp
    then show ?thesis using one by (intro exI [of _ 0] exI [of _ k'] exI [of _ ps']) auto
  qed
next
  case (Suc n)
  have a: "a < MAXVA" using Suc.prems(3) by (simp add: word_less_nat_alt MAXVA_unat)
  have free: "leaf (ram k) root a AND PTE_V = 0" using Suc.prems(4) by simp
  have b: "unat a + 4096 < 2 ^ 64" using Suc.prems(3) by simp
  note ap = add_page [OF b]
  have ne: "a \<noteq> a + of_nat (4096 * Suc n)"
  proof
    assume "a = a + of_nat (4096 * Suc n)"
    moreover have "unat (a + of_nat (4096 * Suc n)) = unat a + 4096 * Suc n"
      using Suc.prems(3) by (intro unat_add_of_nat) simp
    ultimately show False by simp
  qed
  have lst: "a + of_nat (4096 * Suc n) = a + PGSIZE + of_nat (4096 * n)" by (simp add: PGSIZE_def algebra_simps)
  show ?case
  proof (cases rule: map_one [where perm = perm and pa = pa, OF Suc.prems(1) a free])
    case (1 k')
    then show ?thesis by (intro exI [of _ "-1"] exI [of _ k'] exI [of _ "[]"]) (auto intro!: exI [of _ 0])
  next
    case one: (2 k1 ps1)
    have "leaf (ram k1) root va AND PTE_V = 0"
      if "unat (a + PGSIZE) \<le> unat va" "unat va < unat (a + PGSIZE) + 4096 * Suc n" for va
    proof -
      have "va < MAXVA" using that ap(1) Suc.prems(3) by (simp add: word_less_nat_alt MAXVA_unat)
      from same_page_iff [OF Suc.prems(2) a this] that ap(1)
      have "leaf (ram k1) root va = leaf (ram k) root va" using one(3) [of va] by auto
      then show ?thesis using Suc.prems(4) [of va] that ap(1) by simp
    qed
    from Suc.IH [OF grows_inv [OF one(2)] ap(2) [OF Suc.prems(2)] _ this, of "pa + PGSIZE"]
    obtain r k' ps' j where r: "mappages_loop root perm (a + PGSIZE + of_nat (4096 * n)) (a + PGSIZE) (pa + PGSIZE) k1 = Some (Inr (r, k'))"
      "grows kend root k1 ps1 k' ps'" "r = 0 \<or> r = -1 \<and> ps' = []" "j \<le> Suc n" "r = 0 \<longrightarrow> j = Suc n"
      "length ps1 \<le> length ps' + 2 * Suc n"
      "\<forall>va<MAXVA. leaf (ram k') root va = mapped (a + PGSIZE) j (pa + PGSIZE) perm (leaf (ram k1) root) va"
      using ap(1) Suc.prems(3) by auto
    have "leaf (ram k') root va = mapped a (Suc j) pa perm (leaf (ram k) root) va" if "va < MAXVA" for va
    proof -
      have "leaf (ram k1) root = (\<lambda>va. if PX 2 va = PX 2 a \<and> PX 1 va = PX 1 a \<and> PX 0 va = PX 0 a
          then PA2PTE pa OR perm OR PTE_V else leaf (ram k) root va)" using one(3) by (simp add: fun_eq_iff)
      moreover have "unat a + 4096 * Suc j \<le> 2 ^ 38" using Suc.prems(3) r(4) by simp
      ultimately show ?thesis using r(7) mapped_step [OF Suc.prems(2) a that, of j] that by simp
    qed
    moreover have "mappages_loop root perm (a + of_nat (4096 * Suc n)) a pa k = Some (Inr (r, k'))"
      unfolding one(1) using ne r(1) by (simp only: if_False lst)
    moreover have "length ps \<le> length ps' + 2 * Suc (Suc n)" using one(4) r(6) by simp
    ultimately show ?thesis using grows_trans [OF one(2) r(2)] r(3-5)
      by (intro exI [of _ r] exI [of _ k'] exI [of _ ps'] conjI exI [of _ "Suc j"]) auto
  qed
qed

lemma aligned_add:
  fixes a b :: uint64
  assumes "page_aligned a" "page_aligned b"
  shows "page_aligned (a + b)"
proof -
  have "unat (a + b) mod 4096 = (unat a + unat b) mod 4096" by (simp add: unat_word_ariths mod_mod_cancel)
  also have "\<dots> = 0" using assms unfolding page_aligned_unat by (metis mod_add_eq add_0 mod_0)
  finally show ?thesis unfolding page_aligned_unat .
qed

lemma aligned_PGROUNDDOWN: "page_aligned (PGROUNDDOWN a)"
  unfolding page_aligned_unat PGROUNDDOWN_unat by simp

lemma mappages_spec:
  assumes inv: "vm_inv kend k root ps" and al: "page_aligned va" "page_aligned sz" "sz \<noteq> 0" and b: "unat va + unat sz \<le> 2 ^ 38"
    and free: "\<And>a. unat va \<le> unat a \<Longrightarrow> unat a < unat va + unat sz \<Longrightarrow> leaf (ram k) root a AND PTE_V = 0"
  shows "\<exists>r k' ps'. mappages root va sz pa perm k = Some (Inr (r, k')) \<and> grows kend root k ps k' ps' \<and> (r = 0 \<or> r = -1 \<and> ps' = []) \<and>
    length ps \<le> length ps' + 2 * (unat sz div 4096) \<and> (\<exists>j\<le>unat sz div 4096. (r = 0 \<longrightarrow> j = unat sz div 4096) \<and>
       (\<forall>a<MAXVA. leaf (ram k') root a = mapped va j pa perm (leaf (ram k) root) a))"
proof -
  obtain c where c: "unat sz = 4096 * c" using al(2) by (metis page_aligned_unat mod_0_imp_dvd dvdE)
  moreover have "unat sz \<noteq> 0" using al(3) by (simp add: unat_eq_zero)
  ultimately obtain n where n: "unat sz = 4096 * Suc n" by (cases c) auto
  have "sz = of_nat (unat sz)" by simp
  then have "sz = of_nat (4096 * Suc n)" unfolding n .
  then have e: "va + sz - PGSIZE = va + of_nat (4096 * n)" by (simp add: PGSIZE_def)
  have m: "mappages root va sz pa perm k = mappages_loop root perm (va + of_nat (4096 * n)) va pa k"
    by (simp only: mappages_def al e simp_thms if_False)
  have "unat sz div 4096 = Suc n" using n by simp
  then show ?thesis unfolding m
    using mappages_loop_spec [OF inv al(1), of n perm pa] b free unfolding n by simp
qed


text \<open>A new table is empty.\<close>

lemma empty_table:
  assumes "valid_page kend r" "\<And>x. unat (x - r) < 4096 \<Longrightarrow> m x = 0"
  shows "pt_inv kend m r" "tables m r = {r}" "leaf m r va = 0"
proof -
  have "page_aligned r" using assms(1) by (simp add: valid_page_def)
  then have c: "child m r i = None" if "i < 512" for i
    using load_entry_zero [of r i m] assms(2) that by (simp add: child_def)
  have n: "node m r \<pi> = (if \<pi> = [] then Some r else None)" if "is_path \<pi>" for \<pi>
    using that c by (cases \<pi>) (auto simp: is_path_def)
  have "is_path []" by (simp add: is_path_def)
  then show t: "tables m r = {r}" using n by (auto simp: tables_def split: if_splits)
  show "pt_inv kend m r" unfolding pt_inv_def t using n assms(1) by (auto split: if_splits)
  show "leaf m r va = 0" using n [OF is_path_PX(1), of va] by (simp add: leaf_def del: node.simps)
qed

lemma uvmcreate_spec:
  assumes "free_pages kend k (r # ps)"
  shows "\<exists>k'. uvmcreate k = (r, k') \<and> vm_inv kend k' r ps \<and> tables (ram k') r = {r} \<and> (\<forall>va. leaf (ram k') r va = 0) \<and>
    (\<forall>x. \<not> unat (x - r) < 4096 \<longrightarrow> ram k' x = ram k x)"
proof -
  have r: "valid_page kend r" "r \<notin> set ps" "page_aligned r" "r \<noteq> 0" using assms by (auto simp: free_pages_def valid_page_def)
  obtain k1 where k1: "kalloc k = (r, k1)" "free_pages kend k1 ps" "\<And>x. ram k1 x = (if unat (x - r) < 4096 then 5 else ram k x)"
    using kalloc_allocates [OF assms] by auto
  let ?m = "memset (ram k1) r 0 (ucast PGSIZE)"
  have m: "?m x = (if unat (x - r) < 4096 then 0 else ram k x)" for x by (simp add: memset_at ucast_PGSIZE k1(3))
  have "chain ?m (freelist k1) ps"
    by (rule chain_other_page [of "ram k1" _ _ r]) (use k1(2,3) m r in \<open>auto simp: free_pages_def valid_page_def\<close>)
  moreover note e = empty_table [of kend r ?m, OF r(1)]
  ultimately have "vm_inv kend (k1\<lparr>ram := ?m\<rparr>) r ps" using k1(2) r(2) m by (auto simp: vm_inv_def free_pages_def)
  then show ?thesis using k1(1) r(4) m e by (auto simp: uvmcreate_def)
qed

text \<open>A booted machine with one page table, for witnesses.\<close>

lemma booted_table:
  "\<exists>k root ps. vm_inv 0x80021d50 k root ps \<and> length ps = 32733 \<and> (\<forall>va. leaf (ram k) root va = 0)"
proof -
  obtain k0 n where k0: "free_pages 0x80021d50 k0 (pages_from (PGROUNDUP 0x80021d50) n)"
    "unat (PGROUNDUP 0x80021d50) + 4096 * n = unat PHYSTOP"
    using kinit_frees_all [of "0x80021d50" "\<lambda>_. 0"] by (auto simp: PHYSTOP_def KERNBASE_def)
  have "unat (PGROUNDUP 0x80021d50) = 2147622912" by (subst PGROUNDUP_unat) simp_all
  then have "length (pages_from (PGROUNDUP 0x80021d50) n) = Suc 32733" using k0(2) by (simp add: PHYSTOP_unat pages_from_def)
  then obtain r ps where "pages_from (PGROUNDUP 0x80021d50) n = r # ps" "length ps = 32733"
    unfolding length_Suc_conv by blast
  then show ?thesis using uvmcreate_spec [of "0x80021d50" k0 r ps] k0(1) by auto
qed


end
