(* ===== verification/Proc.thy ===== *)
theory Proc
  imports Locks Vm
begin

text \<open>
  The process table (\<open>kernel/proc.c\<close>, \<open>kernel/proc.h\<close>). A process is its index in the table;
  a null \<open>struct proc*\<close> is \<open>None\<close>. The spin locks are those of \<open>Locks\<close> and the page tables those of
  \<open>Vm\<close>. Each function is run by CPU \<open>c\<close> on the state it finds: a lock that another CPU holds
  makes it spin (\<open>None\<close>), and a second \<open>acquire\<close> by the same CPU is a panic. Calls of the file
  layer are recorded in \<open>calls\<close> in the order in which they are made. The linker symbols
  \<open>end\<close>, \<open>trampoline\<close> and the address of \<open>forkret\<close> are parameters.
\<close>

section \<open>State\<close>

definition NPROC :: nat where "NPROC = 64"
definition NOFILE :: nat where "NOFILE = 16"

text \<open>A wait channel: a null pointer, the address of a process, or the address of another object.\<close>

datatype channel = Null | Proc_chan nat | Addr_chan uint64

datatype procstate = UNUSED | USED | SLEEPING | RUNNABLE | RUNNING | ZOMBIE

record kcontext =
  c_ra :: uint64
  c_sp :: uint64
  c_saved :: "uint64 list"      \<comment> \<open>\<open>s0\<close> to \<open>s11\<close>\<close>

record proc =
  p_lock :: spinlock
  p_state :: procstate
  p_chan :: channel
  p_killed :: int
  p_xstate :: int
  p_pid :: int
  p_parent :: "nat option"
  p_kstack :: uint64
  p_sz :: uint64
  p_pagetable :: uint64
  p_trapframe :: uint64
  p_context :: kcontext
  p_ofile :: "nat option list"
  p_cwd :: "nat option"
  p_name :: "uchar list"
  p_priority :: int
  p_total_time :: uint64
  p_idle_time :: uint64

datatype kcall = Filedup nat | Fileclose nat | Idup "nat option" | Iput "nat option" | Begin_op | End_op

record kernel =
  procs :: "proc list"
  nextpid :: int
  initproc :: "nat option"
  wait_lock :: spinlock
  pid_lock :: spinlock
  kcpu :: cpu
  kram :: kmem
  calls :: "kcall list"

abbreviation pr :: "kernel \<Rightarrow> nat \<Rightarrow> proc" where "pr s i \<equiv> procs s ! i"

definition upd_proc :: "nat \<Rightarrow> (proc \<Rightarrow> proc) \<Rightarrow> kernel \<Rightarrow> kernel" where
  "upd_proc i f s = s\<lparr>procs := (procs s)[i := f (procs s ! i)]\<rparr>"

definition proc_chan :: "nat option \<Rightarrow> channel" where
  "proc_chan p = (case p of None \<Rightarrow> Null | Some i \<Rightarrow> Proc_chan i)"

section \<open>Locks of the table\<close>

definition acquire_proc :: "nat \<Rightarrow> nat \<Rightarrow> kernel \<Rightarrow> kernel run" where
  "acquire_proc c i s = bind_run (acquire c (p_lock (pr s i), kcpu s)) (\<lambda>(lk, u).
     Some (Inr (upd_proc i (\<lambda>p. p\<lparr>p_lock := lk\<rparr>) (s\<lparr>kcpu := u\<rparr>))))"

definition release_proc :: "nat \<Rightarrow> nat \<Rightarrow> kernel \<Rightarrow> kernel run" where
  "release_proc c i s = bind_run (Some (release c (p_lock (pr s i), kcpu s))) (\<lambda>(lk, u).
     Some (Inr (upd_proc i (\<lambda>p. p\<lparr>p_lock := lk\<rparr>) (s\<lparr>kcpu := u\<rparr>))))"

definition acquire_wait :: "nat \<Rightarrow> kernel \<Rightarrow> kernel run" where
  "acquire_wait c s = bind_run (acquire c (wait_lock s, kcpu s)) (\<lambda>(lk, u). Some (Inr (s\<lparr>wait_lock := lk, kcpu := u\<rparr>)))"

definition release_wait :: "nat \<Rightarrow> kernel \<Rightarrow> kernel run" where
  "release_wait c s = bind_run (Some (release c (wait_lock s, kcpu s))) (\<lambda>(lk, u). Some (Inr (s\<lparr>wait_lock := lk, kcpu := u\<rparr>)))"

section \<open>Allocating and freeing processes\<close>

definition KSTACK :: "nat \<Rightarrow> uint64" where "KSTACK p = TRAMPOLINE - of_nat (p + 1) * 2 * PGSIZE"

definition procinit :: "kernel \<Rightarrow> kernel" where
  "procinit s =
     (let s = s\<lparr>pid_lock := initlock ''nextpid'', wait_lock := initlock ''wait_lock''\<rparr>
      in foldl (\<lambda>s i. upd_proc i (\<lambda>p. p\<lparr>p_lock := initlock ''proc'', p_state := UNUSED, p_kstack := KSTACK i\<rparr>) s)
           s [0..<NPROC])"

definition proc_mapstacks :: "uint64 \<Rightarrow> kmem \<Rightarrow> kmem run" where
  "proc_mapstacks kpgtbl =
     run_for (\<lambda>i k. let (pa, k) = kalloc k
                    in if pa = 0 then Some (Inl (Panic ''kalloc''))
                       else kvmmap kpgtbl (KSTACK i) pa PGSIZE (PTE_R OR PTE_W) k) [0..<NPROC]"

definition allocpid :: "nat \<Rightarrow> kernel \<Rightarrow> (int \<times> kernel) run" where
  "allocpid c s =
     bind_run (acquire c (pid_lock s, kcpu s)) (\<lambda>(lk, u).
     let pid = nextpid s; s = s\<lparr>pid_lock := lk, kcpu := u, nextpid := nextpid s + 1\<rparr>
     in bind_run (Some (release c (pid_lock s, kcpu s))) (\<lambda>(lk, u).
        Some (Inr (pid, s\<lparr>pid_lock := lk, kcpu := u\<rparr>))))"

definition proc_pagetable :: "uint64 \<Rightarrow> uint64 \<Rightarrow> uint64 \<Rightarrow> kmem \<Rightarrow> (uint64 \<times> kmem) run" where
  "proc_pagetable kend trampoline trapframe k =
     (case uvmcreate k of (pagetable, k) \<Rightarrow>
        if pagetable = 0 then Some (Inr (0, k))
        else bind_run (mappages pagetable TRAMPOLINE PGSIZE trampoline (PTE_R OR PTE_X) k) (\<lambda>(r, k).
             if r < 0 then bind_run (uvmfree kend pagetable 0 k) (\<lambda>k. Some (Inr (0, k)))
             else bind_run (mappages pagetable TRAPFRAME PGSIZE trapframe (PTE_R OR PTE_W) k) (\<lambda>(r, k).
                  if r < 0
                  then bind_run (uvmunmap kend pagetable TRAMPOLINE 1 False k) (\<lambda>k.
                       bind_run (uvmfree kend pagetable 0 k) (\<lambda>k. Some (Inr (0, k))))
                  else Some (Inr (pagetable, k)))))"

definition proc_freepagetable :: "uint64 \<Rightarrow> uint64 \<Rightarrow> uint64 \<Rightarrow> kmem \<Rightarrow> kmem run" where
  "proc_freepagetable kend pagetable sz k =
     bind_run (uvmunmap kend pagetable TRAMPOLINE 1 False k) (\<lambda>k.
     bind_run (uvmunmap kend pagetable TRAPFRAME 1 False k) (\<lambda>k.
     uvmfree kend pagetable sz k))"

text \<open>The memory that \<open>freeproc\<close> gives back.\<close>

definition free_memory :: "uint64 \<Rightarrow> proc \<Rightarrow> kmem \<Rightarrow> kmem run" where
  "free_memory kend p k =
     bind_run (if p_trapframe p \<noteq> 0 then Some (kfree kend (p_trapframe p) k) else Some (Inr k)) (\<lambda>k.
     if p_pagetable p \<noteq> 0 then proc_freepagetable kend (p_pagetable p) (p_sz p) k else Some (Inr k))"

definition clear_proc :: "proc \<Rightarrow> proc" where
  "clear_proc p = p\<lparr>p_trapframe := 0, p_pagetable := 0, p_sz := 0, p_pid := 0, p_parent := None,
     p_name := (p_name p)[0 := 0], p_chan := Null, p_killed := 0, p_xstate := 0, p_state := UNUSED\<rparr>"

definition freeproc :: "uint64 \<Rightarrow> nat \<Rightarrow> kernel \<Rightarrow> kernel run" where
  "freeproc kend i s =
     bind_run (free_memory kend (pr s i) (kram s)) (\<lambda>k. Some (Inr (upd_proc i clear_proc (s\<lparr>kram := k\<rparr>))))"

fun find_unused :: "nat \<Rightarrow> nat list \<Rightarrow> kernel \<Rightarrow> (nat option \<times> kernel) run" where
  "find_unused c [] s = Some (Inr (None, s))"
| "find_unused c (i # is) s =
     bind_run (acquire_proc c i s) (\<lambda>s.
     if p_state (pr s i) = UNUSED then Some (Inr (Some i, s))
     else bind_run (release_proc c i s) (find_unused c is))"

definition allocproc :: "uint64 \<Rightarrow> uint64 \<Rightarrow> uint64 \<Rightarrow> nat \<Rightarrow> kernel \<Rightarrow> (nat option \<times> kernel) run" where
  "allocproc kend trampoline forkret c s =
     bind_run (find_unused c [0..<NPROC] s) (\<lambda>(p, s).
     case p of
       None \<Rightarrow> Some (Inr (None, s))
     | Some i \<Rightarrow>
         bind_run (allocpid c s) (\<lambda>(pid, s).
         let s = upd_proc i (\<lambda>p. p\<lparr>p_pid := pid, p_state := USED\<rparr>) s;
             (tf, k) = kalloc (kram s);
             s = upd_proc i (\<lambda>p. p\<lparr>p_trapframe := tf\<rparr>) (s\<lparr>kram := k\<rparr>)
         in if tf = 0
            then bind_run (freeproc kend i s) (\<lambda>s. bind_run (release_proc c i s) (\<lambda>s. Some (Inr (None, s))))
            else bind_run (proc_pagetable kend trampoline tf (kram s)) (\<lambda>(pt, k).
                 let s = upd_proc i (\<lambda>p. p\<lparr>p_pagetable := pt\<rparr>) (s\<lparr>kram := k\<rparr>)
                 in if pt = 0
                    then bind_run (freeproc kend i s) (\<lambda>s. bind_run (release_proc c i s) (\<lambda>s. Some (Inr (None, s))))
                    else Some (Inr (Some i,
                           upd_proc i (\<lambda>p. p\<lparr>p_context := \<lparr>c_ra = forkret, c_sp = p_kstack p + PGSIZE,
                             c_saved = replicate 12 0\<rparr>\<rparr>) s)))))"

section \<open>Creating processes\<close>

definition TF_EPC :: uint64 where "TF_EPC = 24"
definition TF_SP :: uint64 where "TF_SP = 48"
definition TF_A0 :: uint64 where "TF_A0 = 112"
definition TF_SIZE :: nat where "TF_SIZE = 288"

text \<open>\<open>safestrcpy\<close> between two name arrays of 16 bytes.\<close>

definition copy_name :: "uchar list \<Rightarrow> uchar list \<Rightarrow> uchar list" where
  "copy_name src dst =
     (let n = length (takeWhile (\<lambda>x. x \<noteq> 0) (take 15 src)) in take n src @ [0] @ drop (n + 1) dst)"

definition userinit :: "uint64 \<Rightarrow> uint64 \<Rightarrow> uint64 \<Rightarrow> uint64 \<Rightarrow> uint \<Rightarrow> uchar list \<Rightarrow> nat option \<Rightarrow> nat \<Rightarrow> kernel \<Rightarrow> kernel run" where
  "userinit kend trampoline forkret initcode codesize nm root c s =
     bind_run (allocproc kend trampoline forkret c s) (\<lambda>(p, s).
     case p of
       None \<Rightarrow> Some (Inl NullDeref)
     | Some i \<Rightarrow>
         let s = s\<lparr>initproc := Some i\<rparr>
         in bind_run (uvmfirst (p_pagetable (pr s i)) initcode codesize (kram s)) (\<lambda>k.
            let tf = p_trapframe (pr s i);
                m = store64 (store64 (ram k) (tf + TF_EPC) 0) (tf + TF_SP) PGSIZE;
                s = upd_proc i (\<lambda>p. p\<lparr>p_sz := PGSIZE, p_name := copy_name nm (p_name p), p_cwd := root,
                      p_state := RUNNABLE\<rparr>) (s\<lparr>kram := k\<lparr>ram := m\<rparr>\<rparr>)
            in release_proc c i s))"

definition growproc :: "uint64 \<Rightarrow> nat \<Rightarrow> 32 word \<Rightarrow> kernel \<Rightarrow> (int \<times> kernel) run" where
  "growproc kend i n s =
     (let sz = p_sz (pr s i); pt = p_pagetable (pr s i)
      in if sint n > 0
         then bind_run (uvmalloc kend pt sz (sz + scast n) PTE_W (kram s)) (\<lambda>(sz', k).
                if sz' = 0 then Some (Inr (-1, s\<lparr>kram := k\<rparr>))
                else Some (Inr (0, upd_proc i (\<lambda>p. p\<lparr>p_sz := sz'\<rparr>) (s\<lparr>kram := k\<rparr>))))
         else if sint n < 0
         then bind_run (uvmdealloc kend pt sz (sz + scast n) (kram s)) (\<lambda>(sz', k).
                Some (Inr (0, upd_proc i (\<lambda>p. p\<lparr>p_sz := sz'\<rparr>) (s\<lparr>kram := k\<rparr>))))
         else Some (Inr (0, upd_proc i (\<lambda>p. p\<lparr>p_sz := sz\<rparr>) s)))"

text \<open>The loop of \<open>fork\<close> over the open files: the child's table and the calls of \<open>filedup\<close>.\<close>

definition dup_files :: "nat option list \<Rightarrow> nat option list \<Rightarrow> nat option list" where
  "dup_files ps cs = map (\<lambda>(f, g). case f of None \<Rightarrow> g | Some x \<Rightarrow> Some x) (zip ps cs)"

definition dup_calls :: "nat option list \<Rightarrow> kcall list" where
  "dup_calls ps = map Filedup (concat (map (\<lambda>f. case f of None \<Rightarrow> [] | Some x \<Rightarrow> [x]) ps))"

definition fork :: "uint64 \<Rightarrow> uint64 \<Rightarrow> uint64 \<Rightarrow> nat \<Rightarrow> nat \<Rightarrow> kernel \<Rightarrow> (int \<times> kernel) run" where
  "fork kend trampoline forkret c p s =
     bind_run (allocproc kend trampoline forkret c s) (\<lambda>(np, s).
     case np of
       None \<Rightarrow> Some (Inr (-1, s))
     | Some np \<Rightarrow>
         bind_run (uvmcopy kend (p_pagetable (pr s p)) (p_pagetable (pr s np)) (p_sz (pr s p)) (kram s)) (\<lambda>(r, k).
         let s = s\<lparr>kram := k\<rparr>
         in if r < 0
            then bind_run (freeproc kend np s) (\<lambda>s. bind_run (release_proc c np s) (\<lambda>s. Some (Inr (-1, s))))
            else let tf = p_trapframe (pr s np);
                     m = store_bytes (ram (kram s)) tf (load_bytes (ram (kram s)) (p_trapframe (pr s p)) TF_SIZE);
                     m = store64 m (tf + TF_A0) 0;
                     s = s\<lparr>kram := (kram s)\<lparr>ram := m\<rparr>,
                           calls := calls s @ dup_calls (p_ofile (pr s p)) @ [Idup (p_cwd (pr s p))]\<rparr>;
                     s = upd_proc np (\<lambda>q. q\<lparr>p_sz := p_sz (pr s p), p_ofile := dup_files (p_ofile (pr s p)) (p_ofile q),
                           p_cwd := p_cwd (pr s p), p_name := copy_name (p_name (pr s p)) (p_name q)\<rparr>) s;
                     pid = p_pid (pr s np)
                 in bind_run (release_proc c np s) (\<lambda>s.
                    bind_run (acquire_wait c s) (\<lambda>s.
                    bind_run (release_wait c (upd_proc np (\<lambda>q. q\<lparr>p_parent := Some p\<rparr>) s)) (\<lambda>s.
                    bind_run (acquire_proc c np s) (\<lambda>s.
                    bind_run (release_proc c np (upd_proc np (\<lambda>q. q\<lparr>p_state := RUNNABLE\<rparr>) s)) (\<lambda>s.
                    Some (Inr (pid, s)))))))))"

definition sfork :: "uint64 \<Rightarrow> uint64 \<Rightarrow> uint64 \<Rightarrow> nat \<Rightarrow> nat \<Rightarrow> kernel \<Rightarrow> (int \<times> kernel) run" where
  "sfork kend trampoline forkret c p s =
     bind_run (allocproc kend trampoline forkret c s) (\<lambda>(np, s).
     case np of
       None \<Rightarrow> Some (Inr (-1, s))
     | Some np \<Rightarrow>
         let s = upd_proc np (\<lambda>q. q\<lparr>p_sz := p_sz (pr s p), p_pagetable := p_pagetable (pr s p), p_parent := Some p,
                   p_state := RUNNABLE, p_context := p_context (pr s p)\<rparr>) s
         in Some (Inr (p_pid (pr s np), s)))"

section \<open>Sleeping and waking\<close>

text \<open>One turn of the loop of \<open>wakeup\<close>; \<open>me\<close> is \<open>myproc()\<close>.\<close>

definition wake_one :: "nat \<Rightarrow> nat option \<Rightarrow> channel \<Rightarrow> nat \<Rightarrow> kernel \<Rightarrow> kernel run" where
  "wake_one c me ch i s =
     (if me = Some i then Some (Inr s)
      else bind_run (acquire_proc c i s) (\<lambda>s.
             release_proc c i (if p_state (pr s i) = SLEEPING \<and> p_chan (pr s i) = ch
               then upd_proc i (\<lambda>p. p\<lparr>p_state := RUNNABLE\<rparr>) s else s)))"

definition wakeup :: "nat \<Rightarrow> nat option \<Rightarrow> channel \<Rightarrow> kernel \<Rightarrow> kernel run" where
  "wakeup c me ch = run_for (wake_one c me ch) [0..<NPROC]"

text \<open>\<open>sched\<close> up to the switch: the checks that the caller is in order.\<close>

definition sched :: "nat \<Rightarrow> nat \<Rightarrow> kernel \<Rightarrow> kernel cresult" where
  "sched c p s =
     (if \<not> holding c (p_lock (pr s p)) then Inl (Panic ''sched p->lock'')
      else if noff (kcpu s) \<noteq> 1 then Inl (Panic ''sched locks'')
      else if p_state (pr s p) = RUNNING then Inl (Panic ''sched running'')
      else if intr (kcpu s) then Inl (Panic ''sched interruptible'')
      else Inr s)"

text \<open>
  \<open>sleep\<close> up to the switch, with the caller's lock \<open>wait_lock\<close> (the only one used for sleeping in this file),
  and what runs when the process is scheduled again.
\<close>

definition sleep_wait :: "nat \<Rightarrow> nat \<Rightarrow> channel \<Rightarrow> kernel \<Rightarrow> kernel run" where
  "sleep_wait c p ch s =
     bind_run (acquire_proc c p s) (\<lambda>s.
     bind_run (release_wait c s) (\<lambda>s.
     Some (sched c p (upd_proc p (\<lambda>q. q\<lparr>p_chan := ch, p_state := SLEEPING\<rparr>) s))))"

definition resume_wait :: "nat \<Rightarrow> nat \<Rightarrow> kernel \<Rightarrow> kernel run" where
  "resume_wait c p s =
     bind_run (release_proc c p (upd_proc p (\<lambda>q. q\<lparr>p_chan := Null\<rparr>) s)) (acquire_wait c)"

definition yield :: "nat \<Rightarrow> nat \<Rightarrow> kernel \<Rightarrow> kernel run" where
  "yield c p s =
     bind_run (acquire_proc c p s) (\<lambda>s. Some (sched c p (upd_proc p (\<lambda>q. q\<lparr>p_state := RUNNABLE\<rparr>) s)))"

section \<open>Exit, wait and kill\<close>

definition reparent_one :: "nat \<Rightarrow> nat \<Rightarrow> nat \<Rightarrow> kernel \<Rightarrow> kernel run" where
  "reparent_one c p i s =
     (if p_parent (pr s i) = Some p
      then wakeup c (Some p) (proc_chan (initproc s)) (upd_proc i (\<lambda>q. q\<lparr>p_parent := initproc s\<rparr>) s)
      else Some (Inr s))"

definition reparent :: "nat \<Rightarrow> nat \<Rightarrow> kernel \<Rightarrow> kernel run" where
  "reparent c p = run_for (reparent_one c p) [0..<NPROC]"

definition close_calls :: "nat option list \<Rightarrow> kcall list" where
  "close_calls fs = map Fileclose (concat (map (\<lambda>f. case f of None \<Rightarrow> [] | Some x \<Rightarrow> [x]) fs))"

definition exit :: "nat \<Rightarrow> nat \<Rightarrow> int \<Rightarrow> kernel \<Rightarrow> kernel run" where
  "exit c p status s =
     (if initproc s = Some p then Some (Inl (Panic ''init exiting''))
      else let s = s\<lparr>calls := calls s @ close_calls (p_ofile (pr s p)) @ [Begin_op, Iput (p_cwd (pr s p)), End_op]\<rparr>;
               s = upd_proc p (\<lambda>q. q\<lparr>p_ofile := map (\<lambda>_. None) (p_ofile q), p_cwd := None\<rparr>) s
           in bind_run (acquire_wait c s) (\<lambda>s.
              bind_run (reparent c p s) (\<lambda>s.
              bind_run (wakeup c (Some p) (proc_chan (p_parent (pr s p))) s) (\<lambda>s.
              bind_run (acquire_proc c p s) (\<lambda>s.
              bind_run (release_wait c (upd_proc p (\<lambda>q. q\<lparr>p_xstate := status, p_state := ZOMBIE\<rparr>) s)) (\<lambda>s.
              Some (sched c p s)))))))"

definition killed :: "nat \<Rightarrow> nat \<Rightarrow> kernel \<Rightarrow> (int \<times> kernel) run" where
  "killed c p s =
     bind_run (acquire_proc c p s) (\<lambda>s. bind_run (release_proc c p s) (\<lambda>s. Some (Inr (p_killed (pr s p), s))))"

definition setkilled :: "nat \<Rightarrow> nat \<Rightarrow> kernel \<Rightarrow> kernel run" where
  "setkilled c p s =
     bind_run (acquire_proc c p s) (\<lambda>s. release_proc c p (upd_proc p (\<lambda>q. q\<lparr>p_killed := 1\<rparr>) s))"

text \<open>
  The copy of the exit status to the waiting process, if it gave an address. \<open>xout i\<close> is where \<open>&pp->xstate\<close>
  lies in memory.
\<close>

definition report_status :: "nat \<Rightarrow> uint64 \<Rightarrow> (nat \<Rightarrow> uint64) \<Rightarrow> nat \<Rightarrow> kernel \<Rightarrow> (int \<times> kmem) run" where
  "report_status p addr xout i s =
     (if addr \<noteq> 0
      then copyout (p_pagetable (pr s p)) addr (xout i) 4
        ((kram s)\<lparr>ram := store_bytes (ram (kram s)) (xout i) (le_bytes 4 (nat (p_xstate (pr s i) mod 2 ^ 32)))\<rparr>)
      else Some (Inr (0, kram s)))"

text \<open>
  The scan of \<open>wait\<close>: \<open>Inl r\<close> is a return of \<open>r\<close>, with all locks released, and \<open>Inr havekids\<close> the end of
  the loop.
\<close>

fun wait_scan :: "uint64 \<Rightarrow> nat \<Rightarrow> nat \<Rightarrow> uint64 \<Rightarrow> (nat \<Rightarrow> uint64) \<Rightarrow> nat list \<Rightarrow> bool \<Rightarrow> kernel \<Rightarrow> ((int + bool) \<times> kernel) run" where
  "wait_scan kend c p addr xout [] havekids s = Some (Inr (Inr havekids, s))"
| "wait_scan kend c p addr xout (i # is) havekids s =
     (if p_parent (pr s i) = Some p
      then bind_run (acquire_proc c i s) (\<lambda>s.
           if p_state (pr s i) = ZOMBIE
           then let pid = p_pid (pr s i)
                in bind_run (report_status p addr xout i s) (\<lambda>(r, k).
                   let s = s\<lparr>kram := k\<rparr>
                   in if r < 0
                      then bind_run (release_proc c i s) (\<lambda>s. bind_run (release_wait c s) (\<lambda>s. Some (Inr (Inl (-1), s))))
                      else bind_run (freeproc kend i s) (\<lambda>s.
                           bind_run (release_proc c i s) (\<lambda>s.
                           bind_run (release_wait c s) (\<lambda>s. Some (Inr (Inl pid, s))))))
           else bind_run (release_proc c i s) (wait_scan kend c p addr xout is True))
      else wait_scan kend c p addr xout is havekids s)"

text \<open>One turn of the endless loop of \<open>wait\<close>: it returns, or the process sleeps and the turn is repeated.\<close>

definition wait_turn :: "uint64 \<Rightarrow> nat \<Rightarrow> nat \<Rightarrow> uint64 \<Rightarrow> (nat \<Rightarrow> uint64) \<Rightarrow> kernel \<Rightarrow> (int option \<times> kernel) run" where
  "wait_turn kend c p addr xout s =
     bind_run (wait_scan kend c p addr xout [0..<NPROC] False s) (\<lambda>(r, s).
     case r of
       Inl v \<Rightarrow> Some (Inr (Some v, s))
     | Inr havekids \<Rightarrow>
         bind_run (if \<not> havekids then Some (Inr (1, s)) else killed c p s) (\<lambda>(q, s).
         if q \<noteq> 0 then bind_run (release_wait c s) (\<lambda>s. Some (Inr (Some (-1), s)))
         else bind_run (sleep_wait c p (Proc_chan p) s) (\<lambda>s. Some (Inr (None, s)))))"

definition wait :: "uint64 \<Rightarrow> nat \<Rightarrow> nat \<Rightarrow> uint64 \<Rightarrow> (nat \<Rightarrow> uint64) \<Rightarrow> kernel \<Rightarrow> (int option \<times> kernel) run" where
  "wait kend c p addr xout s = bind_run (acquire_wait c s) (wait_turn kend c p addr xout)"

fun kill_scan :: "nat \<Rightarrow> int \<Rightarrow> nat list \<Rightarrow> kernel \<Rightarrow> (int \<times> kernel) run" where
  "kill_scan c pid [] s = Some (Inr (-1, s))"
| "kill_scan c pid (i # is) s =
     bind_run (acquire_proc c i s) (\<lambda>s.
     if p_pid (pr s i) = pid
     then let s = upd_proc i (\<lambda>p. p\<lparr>p_killed := 1\<rparr>) s;
              s = (if p_state (pr s i) = SLEEPING then upd_proc i (\<lambda>p. p\<lparr>p_state := RUNNABLE\<rparr>) s else s)
          in bind_run (release_proc c i s) (\<lambda>s. Some (Inr (0, s)))
     else bind_run (release_proc c i s) (kill_scan c pid is))"

definition kill :: "nat \<Rightarrow> int \<Rightarrow> kernel \<Rightarrow> (int \<times> kernel) run" where
  "kill c pid = kill_scan c pid [0..<NPROC]"

section \<open>Scheduling\<close>

text \<open>
  One pass of the loop of \<open>scheduler\<close>. \<open>run i\<close> is what happens between the switch to process \<open>i\<close> and the switch
  back: it is user and kernel code of the process, so it is a parameter.
\<close>

fun sched_pass :: "(nat \<Rightarrow> kernel \<Rightarrow> kernel run) \<Rightarrow> nat \<Rightarrow> nat list \<Rightarrow> bool \<Rightarrow> kernel \<Rightarrow> (bool \<times> kernel) run" where
  "sched_pass prog c [] found s = Some (Inr (found, s))"
| "sched_pass prog c (i # is) found s =
     bind_run (acquire_proc c i s) (\<lambda>s.
     if p_state (pr s i) = RUNNABLE
     then bind_run (prog i (upd_proc i (\<lambda>p. p\<lparr>p_state := RUNNING\<rparr>) s)) (\<lambda>s.
          bind_run (release_proc c i s) (sched_pass prog c is True))
     else bind_run (release_proc c i s) (sched_pass prog c is found))"

definition scheduler_round :: "(nat \<Rightarrow> kernel \<Rightarrow> kernel run) \<Rightarrow> nat \<Rightarrow> kernel \<Rightarrow> (bool \<times> kernel) run" where
  "scheduler_round prog c s = sched_pass prog c [0..<NPROC] False (s\<lparr>kcpu := (kcpu s)\<lparr>intr := True\<rparr>\<rparr>)"

definition count_zombies :: "kernel \<Rightarrow> nat" where
  "count_zombies s = length (filter (\<lambda>p. p_state p = ZOMBIE) (procs s))"

end
