(* ===== verification/Sysfile.thy ===== *)
theory Sysfile
  imports File Proc
begin

text \<open>
  The file system calls (\<open>kernel/sysfile.c\<close>) and \<open>pipealloc\<close> (\<open>kernel/pipe.c\<close>). A call takes its decoded arguments: a
  path is the bytes that \<open>argstr\<close> fetched, \<open>None\<close> when it failed, and \<open>ok\<close> and \<open>get\<close> are user memory as in \<open>File\<close>.
  The state is the kernel's files with the descriptors and the current directory of the calling process. The names
  that \<open>nameiparent\<close> stores go to an array of zeroes; what the stack holds there is never read.
\<close>

unbundle bit_operations_syntax

section \<open>Data\<close>

definition T_FILE :: ushort where "T_FILE = 2"
definition T_DEVICE :: ushort where "T_DEVICE = 3"
definition O_RDONLY :: uint where "O_RDONLY = 0x000"
definition O_WRONLY :: uint where "O_WRONLY = 0x001"
definition O_RDWR :: uint where "O_RDWR = 0x002"
definition O_CREATE :: uint where "O_CREATE = 0x200"
definition O_TRUNC :: uint where "O_TRUNC = 0x400"

record task =
  tf :: fstate
  ofile :: "nat option list"
  t_cwd :: nat

text \<open>A call of a lower layer that changes its part of the state and returns a value.\<close>

definition on_files :: "(fstate \<Rightarrow> fstate run) \<Rightarrow> task \<Rightarrow> task run" where
  "on_files c t = bind_run (c (tf t)) (\<lambda>x. Some (Inr (t\<lparr>tf := x\<rparr>)))"

definition fs_call :: "(fs \<Rightarrow> ('a \<times> fs) run) \<Rightarrow> task \<Rightarrow> ('a \<times> task) run" where
  "fs_call c t = bind_run (c (ffs (tf t))) (\<lambda>(v, x). Some (Inr (v, t\<lparr>tf := (tf t)\<lparr>ffs := x\<rparr>\<rparr>)))"

definition fs_do :: "(fs \<Rightarrow> fs run) \<Rightarrow> task \<Rightarrow> task run" where
  "fs_do c t = on_files (on_fs c) t"

section \<open>Descriptors\<close>

definition argfd :: "int \<Rightarrow> task \<Rightarrow> (nat \<times> nat) option" where
  "argfd fd t =
     (if fd < 0 \<or> fd \<ge> int NOFILE then None
      else case ofile t ! nat fd of None \<Rightarrow> None | Some f \<Rightarrow> Some (nat fd, f))"

fun fdalloc_scan :: "nat \<Rightarrow> nat list \<Rightarrow> task \<Rightarrow> int \<times> task" where
  "fdalloc_scan f [] t = (-1, t)"
| "fdalloc_scan f (fd # fds) t =
     (if ofile t ! fd = None then (int fd, t\<lparr>ofile := (ofile t)[fd := Some f]\<rparr>) else fdalloc_scan f fds t)"

definition fdalloc :: "nat \<Rightarrow> task \<Rightarrow> int \<times> task" where
  "fdalloc f t = fdalloc_scan f [0..<NOFILE] t"

definition sys_dup :: "int \<Rightarrow> task \<Rightarrow> (int \<times> task) run" where
  "sys_dup fd t =
     (case argfd fd t of
        None \<Rightarrow> Some (Inr (-1, t))
      | Some (_, f) \<Rightarrow>
          let (fd, t) = fdalloc f t
          in if fd < 0 then Some (Inr (-1, t))
             else bind_run (on_files (\<lambda>x. Some (filedup f x)) t) (\<lambda>t. Some (Inr (fd, t))))"

definition sys_read :: "int \<Rightarrow> bool \<Rightarrow> user_ok \<Rightarrow> (int \<Rightarrow> device option) \<Rightarrow> int \<Rightarrow> uint64 \<Rightarrow> int \<Rightarrow> task \<Rightarrow>
    (int \<times> uchar list \<times> task) run" where
  "sys_read p kld ok devread fd addr n t =
     (case argfd fd t of
        None \<Rightarrow> Some (Inr (-1, [], t))
      | Some (_, f) \<Rightarrow> bind_run (fileread p kld ok devread f addr n (tf t)) (\<lambda>(r, out, x). Some (Inr (r, out, t\<lparr>tf := x\<rparr>))))"

definition sys_write :: "int \<Rightarrow> bool \<Rightarrow> user_get \<Rightarrow> (int \<Rightarrow> device option) \<Rightarrow> int \<Rightarrow> uint64 \<Rightarrow> int \<Rightarrow> task \<Rightarrow> (int \<times> task) run" where
  "sys_write p kld get devwrite fd addr n t =
     (case argfd fd t of
        None \<Rightarrow> Some (Inr (-1, t))
      | Some (_, f) \<Rightarrow> bind_run (filewrite p kld get devwrite f addr n (tf t)) (\<lambda>(r, x). Some (Inr (r, t\<lparr>tf := x\<rparr>))))"

definition sys_close :: "int \<Rightarrow> int \<Rightarrow> task \<Rightarrow> (int \<times> task) run" where
  "sys_close p fd t =
     (case argfd fd t of
        None \<Rightarrow> Some (Inr (-1, t))
      | Some (fd, f) \<Rightarrow> bind_run (on_files (fileclose p f) (t\<lparr>ofile := (ofile t)[fd := None]\<rparr>)) (\<lambda>t. Some (Inr (0, t))))"

definition sys_fstat :: "int \<Rightarrow> user_ok \<Rightarrow> uchar list \<Rightarrow> int \<Rightarrow> uint64 \<Rightarrow> task \<Rightarrow> (int \<times> uchar list \<times> task) run" where
  "sys_fstat p ok pad fd st t =
     (case argfd fd t of
        None \<Rightarrow> Some (Inr (-1, [], t))
      | Some (_, f) \<Rightarrow> bind_run (filestat p ok pad f st (tf t)) (\<lambda>(r, out, x). Some (Inr (r, out, t\<lparr>tf := x\<rparr>))))"

section \<open>Links\<close>

text \<open>The two ways out of a call inside a transaction: \<open>end_op\<close> and the result.\<close>

definition end_with :: "int \<Rightarrow> int \<Rightarrow> fs \<Rightarrow> (int \<times> fs) run" where
  "end_with p r s = bind_run (end_fs p s) (\<lambda>s. Some (Inr (r, s)))"

definition add_nlink :: "nat \<Rightarrow> ushort \<Rightarrow> fs \<Rightarrow> fs" where
  "add_nlink ip n s = upd_inode ip (\<lambda>i. i\<lparr>i_nlink := i_nlink i + n\<rparr>) s"

text \<open>The label \<open>bad\<close> of \<open>sys_link\<close>.\<close>

definition link_bad :: "int \<Rightarrow> nat \<Rightarrow> fs \<Rightarrow> (int \<times> fs) run" where
  "link_bad p ip s =
     bind_run (ilock p ip s) (\<lambda>s.
     bind_run (iupdate p ip (add_nlink ip (-1) s)) (\<lambda>s.
     bind_run (iunlockput p ip s) (end_with p (-1))))"

definition sys_link :: "int \<Rightarrow> nat \<Rightarrow> uchar list option \<Rightarrow> uchar list option \<Rightarrow> fs \<Rightarrow> (int \<times> fs) run" where
  "sys_link p cwd old new s =
     (case (old, new) of
        (Some old, Some new) \<Rightarrow>
          bind_run (begin_fs s) (\<lambda>s.
          bind_run (namei p cwd old s) (\<lambda>(ip, s).
          case ip of
            None \<Rightarrow> end_with p (-1) s
          | Some ip \<Rightarrow>
              bind_run (ilock p ip s) (\<lambda>s.
              if i_type (ino s ip) = T_DIR then bind_run (iunlockput p ip s) (end_with p (-1))
              else
              bind_run (iupdate p ip (add_nlink ip 1 s)) (\<lambda>s.
              bind_run (Some (iunlock p ip s)) (\<lambda>s.
              bind_run (nameiparent p cwd new (replicate DIRSIZ 0) s) (\<lambda>(dp, name, s).
              case dp of
                None \<Rightarrow> link_bad p ip s
              | Some dp \<Rightarrow>
                  bind_run (ilock p dp s) (\<lambda>s.
                  if i_dev (ino s dp) \<noteq> i_dev (ino s ip) then bind_run (iunlockput p dp s) (link_bad p ip)
                  else
                  bind_run (dirlink p dp name (i_inum (ino s ip)) s) (\<lambda>(r, s).
                  if r < 0 then bind_run (iunlockput p dp s) (link_bad p ip)
                  else bind_run (iunlockput p dp s) (\<lambda>s. bind_run (iput p ip s) (end_with p 0)))))))))) 
      | _ \<Rightarrow> Some (Inr (-1, s)))"

fun isdirempty_loop :: "int \<Rightarrow> nat \<Rightarrow> nat list \<Rightarrow> fs \<Rightarrow> (bool \<times> fs) run" where
  "isdirempty_loop p dp [] s = Some (Inr (True, s))"
| "isdirempty_loop p dp (off # offs) s =
     bind_run (read_dirent p dp off s) (\<lambda>(r, de, s).
     if r \<noteq> 16 then Some (Inl (Panic ''isdirempty: readi''))
     else if get16 de 0 \<noteq> 0 then Some (Inr (False, s))
     else isdirempty_loop p dp offs s)"

definition isdirempty :: "int \<Rightarrow> nat \<Rightarrow> fs \<Rightarrow> (bool \<times> fs) run" where
  "isdirempty p dp s = isdirempty_loop p dp (drop 2 (dirent_offsets (ino s dp))) s"

text \<open>\<open>memset(&de, 0, sizeof(de))\<close> and the \<open>writei\<close> of the empty entry.\<close>

definition clear_dirent :: "int \<Rightarrow> nat \<Rightarrow> nat \<Rightarrow> fs \<Rightarrow> fs run" where
  "clear_dirent p dp off s =
     bind_run (writei p dp (\<lambda>src m. (take m (drop (unat src) (replicate 16 0)), True)) 0 (of_nat off) 16 s) (\<lambda>(r, s).
     if r \<noteq> 16 then Some (Inl (Panic ''unlink: writei'')) else Some (Inr s))"

text \<open>The bytes of "." and "..".\<close>

definition dot :: "uchar list" where "dot = [46, 0]"
definition dotdot :: "uchar list" where "dotdot = [46, 46, 0]"

definition unlink_bad :: "int \<Rightarrow> nat \<Rightarrow> fs \<Rightarrow> (int \<times> fs) run" where
  "unlink_bad p dp s = bind_run (iunlockput p dp s) (end_with p (-1))"

definition sys_unlink :: "int \<Rightarrow> nat \<Rightarrow> uchar list option \<Rightarrow> fs \<Rightarrow> (int \<times> fs) run" where
  "sys_unlink p cwd path s =
     (case path of
        None \<Rightarrow> Some (Inr (-1, s))
      | Some path \<Rightarrow>
          bind_run (begin_fs s) (\<lambda>s.
          bind_run (nameiparent p cwd path (replicate DIRSIZ 0) s) (\<lambda>(dp, name, s).
          case dp of
            None \<Rightarrow> end_with p (-1) s
          | Some dp \<Rightarrow>
              bind_run (ilock p dp s) (\<lambda>s.
              if namecmp name dot = 0 \<or> namecmp name dotdot = 0 then unlink_bad p dp s
              else
              bind_run (dirlookup p dp name s) (\<lambda>(found, s).
              case found of
                None \<Rightarrow> unlink_bad p dp s
              | Some (ip, off) \<Rightarrow>
                  bind_run (ilock p ip s) (\<lambda>s.
                  if sint (i_nlink (ino s ip)) < 1 then Some (Inl (Panic ''unlink: nlink < 1''))
                  else
                  bind_run (if i_type (ino s ip) = T_DIR then isdirempty p ip s else Some (Inr (True, s))) (\<lambda>(e, s).
                  if \<not> e then bind_run (iunlockput p ip s) (unlink_bad p dp)
                  else
                  bind_run (clear_dirent p dp off s) (\<lambda>s.
                  bind_run (if i_type (ino s ip) = T_DIR then iupdate p dp (add_nlink dp (-1) s) else Some (Inr s)) (\<lambda>s.
                  bind_run (iunlockput p dp s) (\<lambda>s.
                  bind_run (iupdate p ip (add_nlink ip (-1) s)) (\<lambda>s.
                  bind_run (iunlockput p ip s) (end_with p 0))))))))))))"

section \<open>Creating and opening\<close>

text \<open>The label \<open>fail\<close> of \<open>create\<close>.\<close>

definition create_fail :: "int \<Rightarrow> nat \<Rightarrow> nat \<Rightarrow> fs \<Rightarrow> (nat option \<times> fs) run" where
  "create_fail p ip dp s =
     bind_run (iupdate p ip (upd_inode ip (\<lambda>i. i\<lparr>i_nlink := 0\<rparr>) s)) (\<lambda>s.
     bind_run (iunlockput p ip s) (\<lambda>s.
     bind_run (iunlockput p dp s) (\<lambda>s. Some (Inr (None, s)))))"

text \<open>The entries for "." and ".." of a new directory; the result is negative when one could not be made.\<close>

definition create_dots :: "int \<Rightarrow> nat \<Rightarrow> nat \<Rightarrow> fs \<Rightarrow> (int \<times> fs) run" where
  "create_dots p ip dp s =
     bind_run (dirlink p ip dot (i_inum (ino s ip)) s) (\<lambda>(r, s).
     if r < 0 then Some (Inr (-1, s)) else dirlink p ip dotdot (i_inum (ino s dp)) s)"

definition create :: "int \<Rightarrow> nat \<Rightarrow> uchar list \<Rightarrow> ushort \<Rightarrow> ushort \<Rightarrow> ushort \<Rightarrow> fs \<Rightarrow> (nat option \<times> fs) run" where
  "create p cwd path type major minor s =
     bind_run (nameiparent p cwd path (replicate DIRSIZ 0) s) (\<lambda>(dp, name, s).
     case dp of
       None \<Rightarrow> Some (Inr (None, s))
     | Some dp \<Rightarrow>
         bind_run (ilock p dp s) (\<lambda>s.
         bind_run (dirlookup p dp name s) (\<lambda>(found, s).
         case found of
           Some (ip, _) \<Rightarrow>
             bind_run (iunlockput p dp s) (\<lambda>s.
             bind_run (ilock p ip s) (\<lambda>s.
             if type = T_FILE \<and> (i_type (ino s ip) = T_FILE \<or> i_type (ino s ip) = T_DEVICE) then Some (Inr (Some ip, s))
             else bind_run (iunlockput p ip s) (\<lambda>s. Some (Inr (None, s)))))
         | None \<Rightarrow>
             bind_run (ialloc p (i_dev (ino s dp)) type s) (\<lambda>(ip, s).
             case ip of
               None \<Rightarrow> bind_run (iunlockput p dp s) (\<lambda>s. Some (Inr (None, s)))
             | Some ip \<Rightarrow>
                 bind_run (ilock p ip s) (\<lambda>s.
                 bind_run (iupdate p ip (upd_inode ip (\<lambda>i. i\<lparr>i_major := major, i_minor := minor, i_nlink := 1\<rparr>) s)) (\<lambda>s.
                 bind_run (if type = T_DIR then create_dots p ip dp s else Some (Inr (0, s))) (\<lambda>(r, s).
                 if r < 0 then create_fail p ip dp s
                 else
                 bind_run (dirlink p dp name (i_inum (ino s ip)) s) (\<lambda>(r, s).
                 if r < 0 then create_fail p ip dp s
                 else
                 bind_run (if type = T_DIR then iupdate p dp (add_nlink dp 1 s) else Some (Inr s)) (\<lambda>s.
                 bind_run (iunlockput p dp s) (\<lambda>s. Some (Inr (Some ip, s))))))))))))"

text \<open>\<open>sys_open\<close> up to the inode, locked, or \<open>None\<close> after \<open>end_op\<close>.\<close>

definition open_path :: "int \<Rightarrow> nat \<Rightarrow> uchar list \<Rightarrow> uint \<Rightarrow> fs \<Rightarrow> (nat option \<times> fs) run" where
  "open_path p cwd path omode s =
     bind_run (if omode AND O_CREATE \<noteq> 0 then create p cwd path T_FILE 0 0 s
               else bind_run (namei p cwd path s) (\<lambda>(ip, s).
                    case ip of
                      None \<Rightarrow> Some (Inr (None, s))
                    | Some ip \<Rightarrow>
                        bind_run (ilock p ip s) (\<lambda>s.
                        if i_type (ino s ip) = T_DIR \<and> omode \<noteq> O_RDONLY
                        then bind_run (iunlockput p ip s) (\<lambda>s. Some (Inr (None, s)))
                        else Some (Inr (Some ip, s)))))
       (\<lambda>(ip, s). case ip of
           None \<Rightarrow> bind_run (end_fs p s) (\<lambda>s. Some (Inr (None, s)))
         | Some ip \<Rightarrow>
             if i_type (ino s ip) = T_DEVICE \<and> (sint (i_major (ino s ip)) < 0 \<or> sint (i_major (ino s ip)) \<ge> NDEV)
             then bind_run (iunlockput p ip s) (\<lambda>s. bind_run (end_fs p s) (\<lambda>s. Some (Inr (None, s))))
             else Some (Inr (Some ip, s)))"

text \<open>The new open file of the inode \<open>ip\<close>.\<close>

definition open_fill :: "nat \<Rightarrow> inode \<Rightarrow> uint \<Rightarrow> open_file \<Rightarrow> open_file" where
  "open_fill ip i omode f =
     (let f = (if i_type i = T_DEVICE then f\<lparr>f_type := FD_DEVICE, f_major := sint (i_major i)\<rparr> else f\<lparr>f_type := FD_INODE, f_off := 0\<rparr>)
      in f\<lparr>f_ip := ip, f_readable := (omode AND O_WRONLY = 0), f_writable := (omode AND O_WRONLY \<noteq> 0 \<or> omode AND O_RDWR \<noteq> 0)\<rparr>)"

definition sys_open :: "int \<Rightarrow> uchar list option \<Rightarrow> uint \<Rightarrow> task \<Rightarrow> (int \<times> task) run" where
  "sys_open p path omode t =
     (case path of
        None \<Rightarrow> Some (Inr (-1, t))
      | Some path \<Rightarrow>
          bind_run (fs_do begin_fs t) (\<lambda>t.
          bind_run (fs_call (open_path p (t_cwd t) path omode) t) (\<lambda>(ip, t).
          case ip of
            None \<Rightarrow> Some (Inr (-1, t))
          | Some ip \<Rightarrow>
              let (f, x) = filealloc (tf t); t = t\<lparr>tf := x\<rparr>
              in case f of
                   None \<Rightarrow> bind_run (fs_do (iunlockput p ip) t) (fs_call (end_with p (-1)))
                 | Some f \<Rightarrow>
                     let (fd, t) = fdalloc f t
                     in if fd < 0
                        then bind_run (on_files (fileclose p f) t) (\<lambda>t.
                             bind_run (fs_do (iunlockput p ip) t) (fs_call (end_with p (-1))))
                        else
                        let t = t\<lparr>tf := upd_file f (open_fill ip (ino (ffs (tf t)) ip) omode) (tf t)\<rparr>
                        in bind_run (if omode AND O_TRUNC \<noteq> 0 \<and> i_type (ino (ffs (tf t)) ip) = T_FILE
                                     then fs_do (itrunc p ip) t else Some (Inr t)) (\<lambda>t.
                           bind_run (fs_do (\<lambda>s. Some (iunlock p ip s)) t) (fs_call (end_with p fd))))))"

text \<open>\<open>sys_mkdir\<close> and \<open>sys_mknod\<close> fetch the path inside the transaction.\<close>

definition make_node :: "int \<Rightarrow> nat \<Rightarrow> uchar list option \<Rightarrow> ushort \<Rightarrow> ushort \<Rightarrow> ushort \<Rightarrow> fs \<Rightarrow> (int \<times> fs) run" where
  "make_node p cwd path type major minor s =
     bind_run (begin_fs s) (\<lambda>s.
     bind_run (case path of None \<Rightarrow> Some (Inr (None, s)) | Some path \<Rightarrow> create p cwd path type major minor s) (\<lambda>(ip, s).
     case ip of
       None \<Rightarrow> end_with p (-1) s
     | Some ip \<Rightarrow> bind_run (iunlockput p ip s) (end_with p 0)))"

definition sys_mkdir :: "int \<Rightarrow> nat \<Rightarrow> uchar list option \<Rightarrow> fs \<Rightarrow> (int \<times> fs) run" where
  "sys_mkdir p cwd path s = make_node p cwd path T_DIR 0 0 s"

definition sys_mknod :: "int \<Rightarrow> nat \<Rightarrow> uchar list option \<Rightarrow> uint \<Rightarrow> uint \<Rightarrow> fs \<Rightarrow> (int \<times> fs) run" where
  "sys_mknod p cwd path major minor s = make_node p cwd path T_DEVICE (ucast major) (ucast minor) s"

definition sys_chdir :: "int \<Rightarrow> uchar list option \<Rightarrow> task \<Rightarrow> (int \<times> task) run" where
  "sys_chdir p path t =
     bind_run (fs_do begin_fs t) (\<lambda>t.
     bind_run (case path of None \<Rightarrow> Some (Inr (None, t)) | Some path \<Rightarrow> fs_call (namei p (t_cwd t) path) t) (\<lambda>(ip, t).
     case ip of
       None \<Rightarrow> fs_call (end_with p (-1)) t
     | Some ip \<Rightarrow>
         bind_run (fs_do (ilock p ip) t) (\<lambda>t.
         if i_type (ino (ffs (tf t)) ip) \<noteq> T_DIR
         then bind_run (fs_do (iunlockput p ip) t) (fs_call (end_with p (-1)))
         else
         bind_run (fs_do (\<lambda>s. Some (iunlock p ip s)) t) (\<lambda>t.
         bind_run (fs_do (iput p (t_cwd t)) t) (\<lambda>t.
         bind_run (fs_do (end_fs p) t) (\<lambda>t. Some (Inr (0, t\<lparr>t_cwd := ip\<rparr>))))))))"

section \<open>Pipes\<close>

text \<open>\<open>page\<close> is what \<open>kalloc\<close> returns: the bytes of a page, or nothing.\<close>

definition pipe_end :: "bool \<Rightarrow> nat \<Rightarrow> open_file \<Rightarrow> open_file" where
  "pipe_end w q f = f\<lparr>f_type := FD_PIPE, f_readable := \<not> w, f_writable := w, f_pipe := q\<rparr>"

definition pipealloc :: "int \<Rightarrow> uchar list option \<Rightarrow> fstate \<Rightarrow> ((nat \<times> nat) option \<times> fstate) run" where
  "pipealloc p page s =
     (let (f0, s) = filealloc s
      in case f0 of
           None \<Rightarrow> Some (Inr (None, s))
         | Some f0 \<Rightarrow>
             let (f1, s) = filealloc s
             in case f1 of
                  None \<Rightarrow> bind_run (fileclose p f0 s) (\<lambda>s. Some (Inr (None, s)))
                | Some f1 \<Rightarrow>
                    (case page of
                       None \<Rightarrow> bind_run (fileclose p f0 s) (\<lambda>s. bind_run (fileclose p f1 s) (\<lambda>s. Some (Inr (None, s))))
                     | Some bytes \<Rightarrow>
                         let q = length (pipes s);
                             s = s\<lparr>pipes := pipes s @ [pipe_init bytes]\<rparr>;
                             s = upd_file f0 (pipe_end False q) s;
                             s = upd_file f1 (pipe_end True q) s
                         in Some (Inr (Some (f0, f1), s))))"

text \<open>The two \<open>fileclose\<close> calls of the ways out of \<open>sys_pipe\<close>.\<close>

definition close_both :: "int \<Rightarrow> uchar list \<Rightarrow> nat \<Rightarrow> nat \<Rightarrow> task \<Rightarrow> (int \<times> uchar list \<times> task) run" where
  "close_both p out rfile wfile t =
     bind_run (on_files (fileclose p rfile) t) (\<lambda>t. bind_run (on_files (fileclose p wfile) t) (\<lambda>t. Some (Inr (-1, out, t))))"

text \<open>The result has the bytes stored at \<open>fdarray\<close>.\<close>

definition sys_pipe :: "int \<Rightarrow> user_ok \<Rightarrow> uchar list option \<Rightarrow> uint64 \<Rightarrow> task \<Rightarrow> (int \<times> uchar list \<times> task) run" where
  "sys_pipe p ok page fdarray t =
     bind_run (pipealloc p page (tf t)) (\<lambda>(r, x).
     let t = t\<lparr>tf := x\<rparr>
     in case r of
          None \<Rightarrow> Some (Inr (-1, [], t))
        | Some (rfile, wfile) \<Rightarrow>
            let (fd0, t) = fdalloc rfile t
            in if fd0 < 0 then close_both p [] rfile wfile t
               else
               let (fd1, t) = fdalloc wfile t
               in if fd1 < 0 then close_both p [] rfile wfile (t\<lparr>ofile := (ofile t)[nat fd0 := None]\<rparr>)
                  else if \<not> ok fdarray 4 \<or> \<not> ok (fdarray + 4) 4
                  then close_both p (if ok fdarray 4 then le_bytes 4 (nat fd0) else []) rfile wfile (t\<lparr>ofile := (ofile t)[nat fd0 := None, nat fd1 := None]\<rparr>)
                  else Some (Inr (0, le_bytes 4 (nat fd0) @ le_bytes 4 (nat fd1), t)))"

end
