(* ===== verification/Shell.thy ===== *)
theory Shell
  imports Sysfile
begin

text \<open>
  The command parser of the shell (\<open>user/sh.c\<close>). The input line is an array \<open>b\<close> of characters with a terminating NUL at index
  \<open>es\<close>; a pointer into it is an index, and \<open>char **ps\<close> is an index that is passed and returned. A command refers
  to its words by a pair of indices, the first and the one behind the last character (\<open>argv[i]\<close> and \<open>eargv[i]\<close>,
  \<open>file\<close> and \<open>efile\<close>). Parsing ends the program by \<open>panic\<close> on a syntax error, which is \<open>Panic\<close> here.
\<close>

unbundle bit_operations_syntax

section \<open>Commands\<close>

datatype 'a cmd =
    Execcmd "'a list"
  | Redircmd "'a cmd" 'a uint int
  | Pipecmd "'a cmd" "'a cmd"
  | Listcmd "'a cmd" "'a cmd"
  | Backcmd "'a cmd"

type_synonym span = "nat \<times> nat"

definition MAXARGS :: nat where "MAXARGS = 10"

definition execcmd :: "span cmd" where
  "execcmd = Execcmd []"

definition redircmd :: "span cmd \<Rightarrow> nat \<Rightarrow> nat \<Rightarrow> uint \<Rightarrow> int \<Rightarrow> span cmd" where
  "redircmd subcmd f efile mode fd = Redircmd subcmd (f, efile) mode fd"

definition pipecmd :: "span cmd \<Rightarrow> span cmd \<Rightarrow> span cmd" where
  "pipecmd left right = Pipecmd left right"

definition listcmd :: "span cmd \<Rightarrow> span cmd \<Rightarrow> span cmd" where
  "listcmd left right = Listcmd left right"

definition backcmd :: "span cmd \<Rightarrow> span cmd" where
  "backcmd subcmd = Backcmd subcmd"

section \<open>Tokens\<close>

abbreviation NUL :: char where
  "NUL \<equiv> CHR 0x00"

definition whitespace :: "char list" where
  "whitespace = [CHR '' '', CHR 0x09, CHR 0x0D, CHR 0x0A, CHR 0x0B]"

definition symbols :: "char list" where
  "symbols = ''<|>&;()''"

text \<open>The loop \<open>while(s < es && strchr(whitespace, *s)) s++\<close>, and the one over the characters of a word.\<close>

function skip_white :: "char list \<Rightarrow> nat \<Rightarrow> nat \<Rightarrow> nat" where
  "skip_white b es s = (if s < es \<and> b ! s \<in> set whitespace then skip_white b es (s + 1) else s)"
  by pat_completeness auto
termination by (relation "measure (\<lambda>(b, es, s). es - s)") auto

function skip_word :: "char list \<Rightarrow> nat \<Rightarrow> nat \<Rightarrow> nat" where
  "skip_word b es s =
     (if s < es \<and> b ! s \<notin> set whitespace \<and> b ! s \<notin> set symbols then skip_word b es (s + 1) else s)"
  by pat_completeness auto
termination by (relation "measure (\<lambda>(b, es, s). es - s)") auto

declare skip_white.simps [simp del] skip_word.simps [simp del]

text \<open>The result is the kind of the token, its span and the new position.\<close>

definition gettoken :: "char list \<Rightarrow> nat \<Rightarrow> nat \<Rightarrow> char \<times> nat \<times> nat \<times> nat" where
  "gettoken b es ps =
     (let q = skip_white b es ps;
          (ret, eq) =
            (if b ! q = NUL then (NUL, q)
             else if b ! q \<in> set ''|();&<'' then (b ! q, q + 1)
             else if b ! q = CHR ''>'' then (if b ! (q + 1) = CHR ''>'' then (CHR ''+'', q + 2) else (CHR ''>'', q + 1))
             else (CHR ''a'', skip_word b es q))
      in (ret, q, eq, skip_white b es eq))"

definition peek :: "char list \<Rightarrow> nat \<Rightarrow> nat \<Rightarrow> char list \<Rightarrow> nat \<times> bool" where
  "peek b es ps toks = (let s = skip_white b es ps in (s, b ! s \<noteq> NUL \<and> b ! s \<in> set toks))"

section \<open>The parser\<close>

text \<open>
  \<open>parseexec\<close> adds words to the \<open>execcmd\<close> that it made first, which by then may be inside redirections.
\<close>

fun add_arg :: "'a \<Rightarrow> 'a cmd \<Rightarrow> 'a cmd" where
  "add_arg a (Redircmd c f mode fd) = Redircmd (add_arg a c) f mode fd"
| "add_arg a (Execcmd args) = Execcmd (args @ [a])"
| "add_arg a c = c"

definition redirect :: "char \<Rightarrow> span cmd \<Rightarrow> nat \<Rightarrow> nat \<Rightarrow> span cmd" where
  "redirect tok cmd q eq =
     (if tok = CHR ''<'' then redircmd cmd q eq O_RDONLY 0
      else if tok = CHR ''>'' then redircmd cmd q eq (O_WRONLY OR O_CREATE OR O_TRUNC) 1
      else if tok = CHR ''+'' then redircmd cmd q eq (O_WRONLY OR O_CREATE) 1
      else cmd)"

partial_function (option) parseredirs :: "char list \<Rightarrow> nat \<Rightarrow> span cmd \<Rightarrow> nat \<Rightarrow> (span cmd \<times> nat) run" where
  [code]: "parseredirs b es cmd ps =
     (let (ps, r) = peek b es ps ''<>''
      in if \<not> r then Some (Inr (cmd, ps))
         else let (tok, _, _, ps) = gettoken b es ps;
                  (a, q, eq, ps) = gettoken b es ps
              in if a \<noteq> CHR ''a'' then Some (Inl (Panic ''missing file for redirection''))
                 else parseredirs b es (redirect tok cmd q eq) ps)"

text \<open>The loops of \<open>parseexec\<close> and \<open>parseline\<close>.\<close>

partial_function (option) exec_loop :: "char list \<Rightarrow> nat \<Rightarrow> span cmd \<Rightarrow> nat \<Rightarrow> nat \<Rightarrow> (span cmd \<times> nat) run" where
  [code]: "exec_loop b es ret argc ps =
     (let (ps, r) = peek b es ps ''|)&;''
      in if r then Some (Inr (ret, ps))
         else let (tok, q, eq, ps) = gettoken b es ps
              in if tok = NUL then Some (Inr (ret, ps))
                 else if tok \<noteq> CHR ''a'' then Some (Inl (Panic ''syntax''))
                 else if argc + 1 \<ge> MAXARGS then Some (Inl (Panic ''too many args''))
                 else bind_run (parseredirs b es (add_arg (q, eq) ret) ps) (\<lambda>x. exec_loop b es (fst x) (argc + 1) (snd x)))"

partial_function (option) back_loop :: "char list \<Rightarrow> nat \<Rightarrow> span cmd \<Rightarrow> nat \<Rightarrow> (span cmd \<times> nat) run" where
  [code]: "back_loop b es cmd ps =
     (let (ps, r) = peek b es ps ''&''
      in if r then let (_, _, _, ps) = gettoken b es ps in back_loop b es (backcmd cmd) ps
         else Some (Inr (cmd, ps)))"

text \<open>The mutually recursive functions as one, which says which of them is called.\<close>

datatype parse_fun = Parseline | Parsepipe | Parseexec | Parseblock

partial_function (option) parse :: "char list \<Rightarrow> nat \<Rightarrow> parse_fun \<Rightarrow> nat \<Rightarrow> (span cmd \<times> nat) run" where
  [code]: "parse b es f ps =
     (case f of
        Parseline \<Rightarrow>
          bind_run (parse b es Parsepipe ps) (\<lambda>x.
          bind_run (back_loop b es (fst x) (snd x)) (\<lambda>x.
          let (ps, r) = peek b es (snd x) '';''
          in if r
             then let (_, _, _, ps) = gettoken b es ps
                  in bind_run (parse b es Parseline ps) (\<lambda>y. Some (Inr (listcmd (fst x) (fst y), snd y)))
             else Some (Inr (fst x, ps))))
      | Parsepipe \<Rightarrow>
          bind_run (parse b es Parseexec ps) (\<lambda>x.
          let (ps, r) = peek b es (snd x) ''|''
          in if r
             then let (_, _, _, ps) = gettoken b es ps
                  in bind_run (parse b es Parsepipe ps) (\<lambda>y. Some (Inr (pipecmd (fst x) (fst y), snd y)))
             else Some (Inr (fst x, ps)))
      | Parseblock \<Rightarrow>
          let (ps, r) = peek b es ps ''(''
          in if \<not> r then Some (Inl (Panic ''parseblock''))
             else let (_, _, _, ps) = gettoken b es ps
                  in bind_run (parse b es Parseline ps) (\<lambda>x.
                     let (ps, r) = peek b es (snd x) '')''
                     in if \<not> r then Some (Inl (Panic ''syntax - missing )''))
                        else let (_, _, _, ps) = gettoken b es ps in parseredirs b es (fst x) ps)
      | Parseexec \<Rightarrow>
          let (ps, r) = peek b es ps ''(''
          in if r then parse b es Parseblock ps
             else bind_run (parseredirs b es execcmd ps) (\<lambda>x. exec_loop b es (fst x) 0 (snd x)))"

definition parseline :: "char list \<Rightarrow> nat \<Rightarrow> nat \<Rightarrow> (span cmd \<times> nat) run" where
  "parseline b es ps = parse b es Parseline ps"

text \<open>\<open>nulterminate\<close> writes a NUL behind every word.\<close>

fun nulterminate :: "span cmd \<Rightarrow> char list \<Rightarrow> char list" where
  "nulterminate (Execcmd args) b = fold (\<lambda>(q, eq) b. b[eq := NUL]) args b"
| "nulterminate (Redircmd c (q, eq) mode fd) b = (nulterminate c b)[eq := NUL]"
| "nulterminate (Pipecmd l r) b = nulterminate r (nulterminate l b)"
| "nulterminate (Listcmd l r) b = nulterminate r (nulterminate l b)"
| "nulterminate (Backcmd c) b = nulterminate c b"

definition str_len :: "char list \<Rightarrow> nat" where
  "str_len b = length (takeWhile (\<lambda>c. c \<noteq> NUL) b)"

definition parsecmd :: "char list \<Rightarrow> (span cmd \<times> char list) run" where
  "parsecmd b =
     (let es = str_len b
      in bind_run (parseline b es 0) (\<lambda>(cmd, s).
         let (s, _) = peek b es s []
         in if s \<noteq> es then Some (Inl (Panic ''syntax'')) else Some (Inr (cmd, nulterminate cmd b))))"

section \<open>Reading tokens\<close>

lemma skip_white_facts:
  assumes "s \<le> es"
  shows "s \<le> skip_white b es s \<and> skip_white b es s \<le> es \<and> (skip_white b es s < es \<longrightarrow> b ! skip_white b es s \<notin> set whitespace)"
  using assms
proof (induction b es s rule: skip_white.induct)
  case (1 b es s)
  show ?case
  proof (cases "s < es \<and> b ! s \<in> set whitespace")
    case True
    then have e: "skip_white b es s = skip_white b es (s + 1)" by (subst skip_white.simps) simp
    have "s + 1 \<le> skip_white b es (s + 1) \<and> skip_white b es (s + 1) \<le> es \<and> (skip_white b es (s + 1) < es \<longrightarrow> b ! skip_white b es (s + 1) \<notin> set whitespace)"
      using 1(1) True by simp
    then show ?thesis unfolding e by simp
  next
    case False
    then have "skip_white b es s = s" by (subst skip_white.simps) auto
    then show ?thesis using False 1(2) by auto
  qed
qed

definition wordchar :: "char \<Rightarrow> bool" where
  "wordchar c \<longleftrightarrow> c \<notin> set whitespace \<and> c \<notin> set symbols"

lemma skip_word_facts:
  assumes "s \<le> es"
  shows "s \<le> skip_word b es s \<and> skip_word b es s \<le> es \<and> (skip_word b es s < es \<longrightarrow> \<not> wordchar (b ! skip_word b es s)) \<and>
    (\<forall>i. s \<le> i \<longrightarrow> i < skip_word b es s \<longrightarrow> wordchar (b ! i))"
  using assms
proof (induction b es s rule: skip_word.induct)
  case (1 b es s)
  show ?case
  proof (cases "s < es \<and> wordchar (b ! s)")
    case True
    then have e: "skip_word b es s = skip_word b es (s + 1)" by (subst skip_word.simps) (simp add: wordchar_def)
    have ih: "s + 1 \<le> skip_word b es (s + 1) \<and> skip_word b es (s + 1) \<le> es \<and> (skip_word b es (s + 1) < es \<longrightarrow> \<not> wordchar (b ! skip_word b es (s + 1))) \<and>
      (\<forall>i. s + 1 \<le> i \<longrightarrow> i < skip_word b es (s + 1) \<longrightarrow> wordchar (b ! i))"
      by (rule 1(1)) (use True in \<open>simp_all add: wordchar_def\<close>)
    have "wordchar (b ! i)" if "s \<le> i" "i < skip_word b es (s + 1)" for i using that ih True by (cases "i = s") auto
    then show ?thesis unfolding e using ih by auto
  next
    case False
    then have "skip_word b es s = s" by (subst skip_word.simps) (auto simp: wordchar_def)
    then show ?thesis using False 1(2) by auto
  qed
qed

text \<open>Where the terminating NUL is.\<close>

definition ends_at :: "char list \<Rightarrow> nat \<Rightarrow> bool" where
  "ends_at b es \<longleftrightarrow> es < length b \<and> b ! es = NUL \<and> (\<forall>i<es. b ! i \<noteq> NUL)"

lemma gettoken_ge:
  assumes e: "ends_at b es" and p: "p \<le> es" and t: "gettoken b es p = (ret, q, eq, p')"
  shows "p \<le> q" "q \<le> eq" "eq \<le> p'" "p' \<le> es" "ret \<noteq> NUL \<longleftrightarrow> q < eq" "ret = NUL \<Longrightarrow> q = es"
    "ret = CHR ''a'' \<Longrightarrow> (\<forall>i. q \<le> i \<longrightarrow> i < eq \<longrightarrow> wordchar (b ! i)) \<and> (eq < es \<longrightarrow> \<not> wordchar (b ! eq))"
proof -
  have q: "q = skip_white b es p" and r: "(ret, eq) = (if b ! q = NUL then (NUL, q)
             else if b ! q \<in> set ''|();&<'' then (b ! q, q + 1)
             else if b ! q = CHR ''>'' then (if b ! (q + 1) = CHR ''>'' then (CHR ''+'', q + 2) else (CHR ''>'', q + 1))
             else (CHR ''a'', skip_word b es q))" and p': "p' = skip_white b es eq"
    using t by (auto simp: gettoken_def Let_def split: if_splits)
  note qf = skip_white_facts [OF p, of b, folded q]
  note wf = skip_word_facts [of q es b]
  have nz: "b ! q \<noteq> NUL \<longleftrightarrow> q < es" using e qf by (auto simp: ends_at_def le_less)
  have nz2: "q + 1 < es" if "b ! (q + 1) = CHR ''>''" "q < es" using e that by (cases "q + 1 = es") (auto simp: ends_at_def)
  have w: "q < skip_word b es q" if "q < es" "b ! q \<notin> set ''|();&<''" "b ! q \<noteq> CHR ''>''"
  proof (rule ccontr)
    assume "\<not> q < skip_word b es q"
    then have "skip_word b es q = q" using wf qf by auto
    moreover have "wordchar (b ! q)" using qf that by (auto simp: wordchar_def symbols_def)
    ultimately show False using wf qf that(1) by auto
  qed
  have eq: "q \<le> eq" "eq \<le> es" "ret \<noteq> NUL \<longleftrightarrow> q < eq" "ret = NUL \<Longrightarrow> q = es" 
    using r qf wf w nz nz2 by (auto split: if_splits)
  note pf = skip_white_facts [OF eq(2), of b, folded p']
  show "p \<le> q" "q \<le> eq" "eq \<le> p'" "p' \<le> es" "ret \<noteq> NUL \<longleftrightarrow> q < eq" "ret = NUL \<Longrightarrow> q = es" using qf eq pf by auto
  show "ret = CHR ''a'' \<Longrightarrow> (\<forall>i. q \<le> i \<longrightarrow> i < eq \<longrightarrow> wordchar (b ! i)) \<and> (eq < es \<longrightarrow> \<not> wordchar (b ! eq))"
    using r qf wf by (auto split: if_splits)
qed

end
