(* ===== verification/Shell_Parse.thy ===== *)
theory Shell_Parse
  imports Shell
begin

text \<open>
  The functions of the command parser (\<open>user/sh.c\<close>) always end: every token that is read moves the position on, and the functions that
  call each other without reading a token are ordered. Each of them returns a command, every word of which is a maximal run of word
  characters, or ends the program with a message.
\<close>

section \<open>The parser always ends\<close>

text \<open>A span of a maximal run of word characters.\<close>

definition word_span :: "char list \<Rightarrow> nat \<Rightarrow> span \<Rightarrow> bool" where
  "word_span b es = (\<lambda>(q, eq). q < eq \<and> eq \<le> es \<and> (\<forall>i. q \<le> i \<longrightarrow> i < eq \<longrightarrow> wordchar (b ! i)) \<and> (eq < es \<longrightarrow> \<not> wordchar (b ! eq)))"

definition spans_ok :: "char list \<Rightarrow> nat \<Rightarrow> span cmd \<Rightarrow> bool" where
  "spans_ok b es c \<longleftrightarrow> (\<forall>x\<in>set_cmd c. word_span b es x)"

definition ends_well :: "char list \<Rightarrow> nat \<Rightarrow> nat \<Rightarrow> (span cmd \<times> nat) run \<Rightarrow> bool" where
  "ends_well b es p m \<longleftrightarrow> (\<exists>msg. m = Some (Inl (Panic msg))) \<or> (\<exists>c p'. m = Some (Inr (c, p')) \<and> p \<le> p' \<and> p' \<le> es \<and> spans_ok b es c)"

lemma ends_wellI:
  "ends_well b es p (Some (Inl (Panic msg)))" "p \<le> p' \<Longrightarrow> p' \<le> es \<Longrightarrow> spans_ok b es c \<Longrightarrow> ends_well b es p (Some (Inr (c, p')))"
  by (simp_all add: ends_well_def)

lemma ends_well_bind:
  assumes m: "ends_well b es q m" and g: "\<And>c p'. q \<le> p' \<Longrightarrow> p' \<le> es \<Longrightarrow> spans_ok b es c \<Longrightarrow> ends_well b es p (g (c, p'))"
  shows "ends_well b es p (bind_run m g)"
  using m unfolding ends_well_def [of b es q]
proof (elim disjE exE conjE)
  fix c p' assume "m = Some (Inr (c, p'))" "q \<le> p'" "p' \<le> es" "spans_ok b es c"
  then show ?thesis using g by simp
qed (simp add: ends_wellI)

lemma ends_well_le: "ends_well b es p' m \<Longrightarrow> p \<le> p' \<Longrightarrow> ends_well b es p m"
  unfolding ends_well_def by fastforce

lemma spans_simps [simp]:
  "spans_ok b es execcmd" "spans_ok b es (backcmd c) = spans_ok b es c" "spans_ok b es (listcmd c c') \<longleftrightarrow> spans_ok b es c \<and> spans_ok b es c'"
  "spans_ok b es (pipecmd c c') \<longleftrightarrow> spans_ok b es c \<and> spans_ok b es c'"
  by (auto simp: spans_ok_def execcmd_def backcmd_def listcmd_def pipecmd_def)

lemma set_add_arg: "set_cmd (add_arg a c) \<subseteq> insert a (set_cmd c)"
proof (induction a c rule: add_arg.induct)
  case (1 a c f mode fd)
  then show ?case by (simp only: add_arg.simps cmd.set) blast
next
  case (2 a args)
  show ?case by (simp only: add_arg.simps cmd.set) simp
qed (simp_all only: add_arg.simps subset_insertI)

lemma spans_add_arg: "spans_ok b es c \<Longrightarrow> word_span b es a \<Longrightarrow> spans_ok b es (add_arg a c)"
  unfolding spans_ok_def using set_add_arg [of a c] by (metis insert_iff subset_iff)

lemma spans_redirect: "spans_ok b es c \<Longrightarrow> word_span b es (q, eq) \<Longrightarrow> spans_ok b es (redirect tok c q eq)"
  by (auto simp: redirect_def redircmd_def spans_ok_def)

lemma peek_facts:
  assumes e: "ends_at b es" and p: "p \<le> es" and k: "peek b es p toks = (p1, r)"
  shows "p \<le> p1" "p1 \<le> es" "r \<Longrightarrow> p1 < es" "skip_white b es p1 = p1"
proof -
  have p1: "p1 = skip_white b es p" "r \<longleftrightarrow> b ! p1 \<noteq> NUL \<and> b ! p1 \<in> set toks" using k by (auto simp: peek_def Let_def)
  note f = skip_white_facts [OF p, of b, folded p1(1)]
  show "p \<le> p1" "p1 \<le> es" using f by auto
  show "r \<Longrightarrow> p1 < es" using f p1(2) e by (auto simp: ends_at_def le_less)
  show "skip_white b es p1 = p1" using f by (subst skip_white.simps) auto
qed

lemma peek_gettoken:
  assumes e: "ends_at b es" and p: "p \<le> es" and k: "peek b es p toks = (p1, True)" and g: "gettoken b es p1 = (t, q, eq, p2)"
  shows "p < p2" "p2 \<le> es" "t \<noteq> NUL"
proof -
  note f = peek_facts [OF e p k]
  have q: "q = p1" using g f(4) by (auto simp: gettoken_def Let_def split: prod.splits)
  note t = gettoken_ge [OF e f(2) g]
  show "t \<noteq> NUL" using t(6) q f(3) by auto
  then show "p < p2" "p2 \<le> es" using t f(1) by auto
qed

lemma word_span_token:
  assumes "ends_at b es" "p \<le> es" "gettoken b es p = (CHR ''a'', q, eq, p')"
  shows "word_span b es (q, eq)"
  using gettoken_ge [OF assms] by (simp add: word_span_def)

lemma parseredirs_ends:
  assumes e: "ends_at b es" and "p \<le> es" "spans_ok b es c"
  shows "ends_well b es p (parseredirs b es c p)"
  using assms(2-)
proof (induction "es - p" arbitrary: c p rule: less_induct)
  case less
  obtain p1 r where k: "peek b es p ''<>'' = (p1, r)" by (cases "peek b es p ''<>''")
  note f = peek_facts [OF e less.prems(1) k]
  show ?case
  proof (cases r)
    case True
    obtain t q0 eq0 p2 where g: "gettoken b es p1 = (t, q0, eq0, p2)" by (metis prod_cases4)
    obtain a q eq p3 where g': "gettoken b es p2 = (a, q, eq, p3)" by (metis prod_cases4)
    have k': "peek b es p ''<>'' = (p1, True)" using k True by simp
    note n = peek_gettoken [OF e less.prems(1) k' g]
    note n' = gettoken_ge [OF e n(2) g']
    have "ends_well b es p (parseredirs b es (redirect t c q eq) p3)" if "a = CHR ''a''"
    proof (rule ends_well_le [OF less.hyps])
      show "spans_ok b es (redirect t c q eq)" using spans_redirect [OF less.prems(2)] word_span_token [OF e n(2)] g' that by blast
    qed (use n n' in auto)
    then show ?thesis using k g g' True by (subst parseredirs.simps) (simp add: ends_wellI)
  next
    case False
    then show ?thesis using k f less.prems by (subst parseredirs.simps) (simp add: ends_wellI)
  qed
qed

lemma exec_loop_ends:
  assumes e: "ends_at b es" and "p \<le> es" "spans_ok b es c"
  shows "ends_well b es p (exec_loop b es c n p)"
  using assms(2-)
proof (induction "es - p" arbitrary: c n p rule: less_induct)
  case less
  obtain p1 r where k: "peek b es p ''|)&;'' = (p1, r)" by (cases "peek b es p ''|)&;''")
  note f = peek_facts [OF e less.prems(1) k]
  show ?case
  proof (cases r)
    case True
    then show ?thesis using k f less.prems by (subst exec_loop.simps) (simp add: ends_wellI)
  next
    case False
    obtain t q eq p2 where g: "gettoken b es p1 = (t, q, eq, p2)" by (metis prod_cases4)
    note m = gettoken_ge [OF e f(2) g]
    have "ends_well b es p (bind_run (parseredirs b es (add_arg (q, eq) c) p2) (\<lambda>x. exec_loop b es (fst x) (n + 1) (snd x)))" if t: "t = CHR ''a''"
    proof (rule ends_well_bind)
      have "spans_ok b es (add_arg (q, eq) c)" using spans_add_arg [OF less.prems(2)] word_span_token [OF e f(2)] g t by blast
      then show "ends_well b es p2 (parseredirs b es (add_arg (q, eq) c) p2)" by (rule parseredirs_ends [OF e m(4)])
    next
      fix c' p' assume p': "p2 \<le> p'" "p' \<le> es" "spans_ok b es c'"
      have "p < p'" using p'(1) m(1-3,5) f(1) t by simp
      then show "ends_well b es p (exec_loop b es (fst (c', p')) (n + 1) (snd (c', p')))"
        unfolding fst_conv snd_conv by (intro ends_well_le [OF less.hyps]) (use p' in auto)
    qed
    then show ?thesis using k g False m f less.prems by (subst exec_loop.simps) (auto simp: ends_wellI)
  qed
qed

lemma back_loop_ends:
  assumes e: "ends_at b es" and "p \<le> es" "spans_ok b es c"
  shows "ends_well b es p (back_loop b es c p)"
  using assms(2-)
proof (induction "es - p" arbitrary: c p rule: less_induct)
  case less
  obtain p1 r where k: "peek b es p ''&'' = (p1, r)" by (cases "peek b es p ''&''")
  note f = peek_facts [OF e less.prems(1) k]
  show ?case
  proof (cases r)
    case True
    then have k': "peek b es p ''&'' = (p1, True)" using k by simp
    obtain t q eq p2 where g: "gettoken b es p1 = (t, q, eq, p2)" by (metis prod_cases4)
    note n = peek_gettoken [OF e less.prems(1) k' g]
    have "ends_well b es p (back_loop b es (backcmd c) p2)" by (intro ends_well_le [OF less.hyps]) (use n less.prems in auto)
    then show ?thesis using k' g by (subst back_loop.simps) simp
  next
    case False
    then show ?thesis using k f less.prems by (subst back_loop.simps) (simp add: ends_wellI)
  qed
qed

text \<open>A call that is followed by a token and a second call.\<close>

lemma ends_then:
  assumes e: "ends_at b es" and p: "p \<le> es" and c: "spans_ok b es c"
    and later: "\<And>p2. p < p2 \<Longrightarrow> p2 \<le> es \<Longrightarrow> ends_well b es p2 (parse b es f p2)"
    and mk: "\<And>c'. spans_ok b es c' \<Longrightarrow> spans_ok b es (mk c c')"
  shows "ends_well b es p (let (ps, r) = peek b es p toks
      in if r then let (_, _, _, ps) = gettoken b es ps in bind_run (parse b es f ps) (\<lambda>y. Some (Inr (mk c (fst y), snd y)))
         else Some (Inr (c, ps)))"
proof -
  obtain p1 r where k: "peek b es p toks = (p1, r)" by (cases "peek b es p toks")
  note f = peek_facts [OF e p k]
  obtain t q eq p2 where g: "gettoken b es p1 = (t, q, eq, p2)" by (metis prod_cases4)
  have "ends_well b es p (bind_run (parse b es f p2) (\<lambda>y. Some (Inr (mk c (fst y), snd y))))" if r
  proof (rule ends_well_bind)
    have "peek b es p toks = (p1, True)" using k that by simp
    note n = peek_gettoken [OF e p this g]
    show "ends_well b es p2 (parse b es f p2)" using later n by blast
    fix c' p' assume "p2 \<le> p'" "p' \<le> es" "spans_ok b es c'"
    then show "ends_well b es p (Some (Inr (mk c (fst (c', p')), snd (c', p'))))" using mk n by (auto intro: ends_wellI)
  qed
  then show ?thesis using k g f c by (auto intro: ends_wellI)
qed

fun rank :: "parse_fun \<Rightarrow> nat" where
  "rank Parseline = 3" | "rank Parsepipe = 2" | "rank Parseexec = 1" | "rank Parseblock = 0"

lemma parse_ends:
  assumes e: "ends_at b es" and "p \<le> es"
  shows "ends_well b es p (parse b es f p)"
  using assms(2)
proof (induction "4 * (es - p) + rank f" arbitrary: f p rule: less_induct)
  case less
  have later: "ends_well b es p2 (parse b es g p2)" if "p < p2" "p2 \<le> es" for p2 g
    by (rule less.hyps [OF _ that(2)]) (use that in \<open>cases g; auto\<close>)
  have tail: "ends_well b es p (let (ps, r) = peek b es p' toks
      in if r then let (_, _, _, ps) = gettoken b es ps in bind_run (parse b es g ps) (\<lambda>y. Some (Inr (mk c (fst y), snd y)))
         else Some (Inr (c, ps)))" if "p \<le> p'" "p' \<le> es" "spans_ok b es c" "mk = listcmd \<or> mk = pipecmd" for p' c toks g mk
    by (rule ends_well_le [OF ends_then [OF e that(2,3)] that(1)]) (use that later in auto)
  show ?case
  proof (cases f)
    case Parseline
    have 1: "ends_well b es p (parse b es Parsepipe p)" by (rule less.hyps) (use less.prems Parseline in auto)
    show ?thesis unfolding Parseline
      by (subst parse.simps, unfold parse_fun.case, intro ends_well_bind [OF 1] ends_well_bind [OF back_loop_ends [OF e]])
        (use tail [where mk = listcmd] in auto)
  next
    case Parsepipe
    have 1: "ends_well b es p (parse b es Parseexec p)" by (rule less.hyps) (use less.prems Parsepipe in auto)
    show ?thesis unfolding Parsepipe
      by (subst parse.simps, unfold parse_fun.case, intro ends_well_bind [OF 1]) (use tail [where mk = pipecmd] in auto)
  next
    case Parseexec
    obtain p1 r where k: "peek b es p ''('' = (p1, r)" by (cases "peek b es p ''(''")
    note f = peek_facts [OF e less.prems k]
    have 1: "ends_well b es p1 (parse b es Parseblock p1)" by (rule less.hyps) (use f Parseexec in auto)
    have 2: "ends_well b es p1 (parseredirs b es execcmd p1)" by (rule parseredirs_ends [OF e f(2)]) simp
    have "ends_well b es p1 (bind_run (parseredirs b es execcmd p1) (\<lambda>x. exec_loop b es (fst x) 0 (snd x)))"
      by (rule ends_well_bind [OF 2]) (auto intro: ends_well_le [OF exec_loop_ends [OF e]])
    then have "ends_well b es p1 (parse b es Parseexec p)" using 1 k by (subst parse.simps) simp
    then show ?thesis unfolding Parseexec using f(1) by (rule ends_well_le)
  next
    case Parseblock
    obtain p1 r where k: "peek b es p ''('' = (p1, r)" by (cases "peek b es p ''(''")
    obtain t q eq p2 where g: "gettoken b es p1 = (t, q, eq, p2)" by (metis prod_cases4)
    show ?thesis
    proof (cases r)
      case True
      then have k': "peek b es p ''('' = (p1, True)" using k by simp
      note n = peek_gettoken [OF e less.prems k' g]
      have "ends_well b es p (let (ps, r) = peek b es p' '')'' in if \<not> r then Some (Inl (Panic ''syntax - missing )''))
          else let (_, _, _, ps) = gettoken b es ps in parseredirs b es c ps)" if c: "p2 \<le> p'" "p' \<le> es" "spans_ok b es c" for c p'
      proof -
        obtain p3 r3 where k3: "peek b es p' '')'' = (p3, r3)" by (cases "peek b es p' '')''")
        obtain t4 q4 eq4 p4 where g4: "gettoken b es p3 = (t4, q4, eq4, p4)" by (metis prod_cases4)
        have "ends_well b es p (parseredirs b es c p4)" if r3
        proof -
          have "peek b es p' '')'' = (p3, True)" using k3 that by simp
          note m = peek_gettoken [OF e c(2) this g4]
          show ?thesis by (rule ends_well_le [OF parseredirs_ends [OF e m(2) c(3)]]) (use m n c in auto)
        qed
        then show ?thesis using k3 g4 by (auto intro: ends_wellI)
      qed
      then have "ends_well b es p (bind_run (parse b es Parseline p2) (\<lambda>x. let (ps, r) = peek b es (snd x) '')'' in if \<not> r then Some (Inl (Panic ''syntax - missing )''))
          else let (_, _, _, ps) = gettoken b es ps in parseredirs b es (fst x) ps))"
        by (intro ends_well_bind [OF later [OF n(1,2)]]) simp
      then show ?thesis unfolding Parseblock using k' g by (subst parse.simps) simp
    qed (use k Parseblock in \<open>subst parse.simps; simp add: ends_wellI\<close>)
  qed
qed

end
