(* ===== verification/Shell_Print.thy ===== *)
theory Shell_Print
  imports Shell_Parse
begin

text \<open>
  The grammar of the shell (\<open>user/sh.c\<close>) from the other side: \<open>command_tokens\<close> writes a command as a sequence of tokens, and
  each function of the parser, run on an array that holds such a sequence, returns the command that was written
  (\<open>command_parses\<close>).
\<close>

section \<open>Token sequences\<close>

text \<open>The tokens that \<open>gettoken\<close> reads from a position on, each with its kind and its characters.\<close>

type_synonym token = "char \<times> char list"

definition piece :: "char list \<Rightarrow> span \<Rightarrow> char list" where
  "piece b = (\<lambda>(q, eq). take (eq - q) (drop q b))"

inductive tokens :: "char list \<Rightarrow> nat \<Rightarrow> nat \<Rightarrow> token list \<Rightarrow> bool" for b es where
  tokens_end: "gettoken b es p = (NUL, q, eq, p') \<Longrightarrow> tokens b es p []"
| tokens_next: "gettoken b es p = (t, q, eq, p') \<Longrightarrow> t \<noteq> NUL \<Longrightarrow> tokens b es p' ts \<Longrightarrow> tokens b es p ((t, piece b (q, eq)) # ts)"

inductive_cases tokens_NilE: "tokens b es p []"
inductive_cases tokens_ConsE: "tokens b es p (x # ts)"

definition starts :: "char list \<Rightarrow> token list \<Rightarrow> bool" where
  "starts xs ts \<longleftrightarrow> (case ts of [] \<Rightarrow> False | (t, w) # _ \<Rightarrow> t \<noteq> CHR ''a'' \<and> hd w \<in> set xs)"

lemma starts_simps [simp]: "\<not> starts xs []" "starts xs ((t, w) # ts) \<longleftrightarrow> t \<noteq> CHR ''a'' \<and> hd w \<in> set xs"
  by (simp_all add: starts_def)

lemma tokens_get:
  assumes "ends_at b es" "p \<le> es" "tokens b es p ((t, w) # ts)"
  shows "\<exists>q eq p'. gettoken b es p = (t, q, eq, p') \<and> t \<noteq> NUL \<and> piece b (q, eq) = w \<and> p' \<le> es \<and> tokens b es p' ts"
  using assms(3) by (rule tokens_ConsE) (use gettoken_ge(4) [OF assms(1,2)] in auto)

lemma gettoken_skip: "skip_white b es p1 = skip_white b es p \<Longrightarrow> gettoken b es p1 = gettoken b es p"
  by (simp add: gettoken_def)

lemma tokens_peek:
  assumes e: "ends_at b es" and p: "p \<le> es" and ts: "tokens b es p ts" and xs: "set xs \<subseteq> set symbols"
  shows "\<exists>p1. peek b es p xs = (p1, starts xs ts) \<and> p1 \<le> es \<and> tokens b es p1 ts"
proof -
  obtain p1 r where k: "peek b es p xs = (p1, r)" by (cases "peek b es p xs")
  note f = peek_facts [OF e p k]
  have p1: "p1 = skip_white b es p" "r \<longleftrightarrow> b ! p1 \<noteq> NUL \<and> b ! p1 \<in> set xs" using k by (auto simp: peek_def Let_def)
  have g: "gettoken b es p1 = gettoken b es p" by (rule gettoken_skip) (use f(4) p1(1) in simp)
  have t1: "tokens b es p1 ts" using ts by cases (auto intro: tokens.intros simp: g)
  have "r = starts xs ts"
    using ts
  proof cases
    case (tokens_end q eq p')
    then have "q = es" using gettoken_ge(6) [OF e p tokens_end(2)] by simp
    moreover have "q = p1" using tokens_end(2) p1(1) by (auto simp: gettoken_def Let_def split: if_splits)
    ultimately show ?thesis using p1(2) e tokens_end(1) by (simp add: ends_at_def)
  next
    case (tokens_next t q eq p' ts')
    note n = gettoken_ge [OF e p tokens_next(2)]
    have q: "q = p1" using tokens_next(2) p1(1) by (auto simp: gettoken_def Let_def split: if_splits)
    have lt: "q < eq" "eq \<le> es" using n tokens_next(3) by auto
    have hd: "hd (piece b (q, eq)) = b ! q" using lt e by (simp add: piece_def ends_at_def hd_drop_conv_nth hd_take)
    have a: "wordchar (b ! q)" if "t = CHR ''a''" using n(7) [OF that] lt by auto
    have na: "b ! q \<in> set symbols \<longleftrightarrow> t \<noteq> CHR ''a''"
      using tokens_next(2,3) p1(1) q a by (auto simp: gettoken_def Let_def symbols_def wordchar_def split: if_splits)
    have "b ! q \<noteq> NUL" using lt e by (auto simp: ends_at_def)
    then show ?thesis using p1(2) q hd xs na tokens_next(1) by auto
  qed
  then show ?thesis using k f(2) t1 by auto
qed

section \<open>The tokens of a command\<close>

abbreviation wtok :: "char list \<Rightarrow> token" where
  "wtok w \<equiv> (CHR ''a'', w)"

abbreviation stok :: "char \<Rightarrow> token" where
  "stok c \<equiv> (c, [c])"

definition redir_token :: "uint \<Rightarrow> token" where
  "redir_token mode =
     (if mode = O_RDONLY then stok CHR ''<'' else if mode = O_WRONLY OR O_CREATE OR O_TRUNC then stok CHR ''>'' else (CHR ''+'', ''>>''))"

definition redir_ok :: "uint \<Rightarrow> int \<Rightarrow> bool" where
  "redir_ok mode fd \<longleftrightarrow> mode = O_RDONLY \<and> fd = 0 \<or> mode \<in> {O_WRONLY OR O_CREATE OR O_TRUNC, O_WRONLY OR O_CREATE} \<and> fd = 1"

definition paren :: "bool \<Rightarrow> token list \<Rightarrow> token list" where
  "paren p ts = (if p then stok CHR ''('' # ts @ [stok CHR '')''] else ts)"

text \<open>
  The tokens of a command where the grammar wants a line (0), a line without \<open>;\<close> (1), a pipeline (2) or a simple
  command (3), with brackets where they are needed.
\<close>

fun command_tokens :: "nat \<Rightarrow> char list cmd \<Rightarrow> token list" where
  "command_tokens n (Execcmd ws) = map wtok ws"
| "command_tokens n (Redircmd c f mode fd) = command_tokens 3 c @ [redir_token mode, wtok f]"
| "command_tokens n (Pipecmd l r) = paren (n > 2) (command_tokens 3 l @ stok CHR ''|'' # command_tokens 2 r)"
| "command_tokens n (Backcmd c) = paren (n > 1) (command_tokens 1 c @ [stok CHR ''&''])"
| "command_tokens n (Listcmd l r) = paren (n > 0) (command_tokens 1 l @ stok CHR '';'' # command_tokens 0 r)"

fun cmd_ok :: "char list cmd \<Rightarrow> bool" where
  "cmd_ok (Execcmd ws) \<longleftrightarrow> length ws < MAXARGS"
| "cmd_ok (Redircmd c f mode fd) \<longleftrightarrow> cmd_ok c \<and> redir_ok mode fd"
| "cmd_ok (Pipecmd l r) \<longleftrightarrow> cmd_ok l \<and> cmd_ok r"
| "cmd_ok (Backcmd c) \<longleftrightarrow> cmd_ok c"
| "cmd_ok (Listcmd l r) \<longleftrightarrow> cmd_ok l \<and> cmd_ok r"

section \<open>Parsing the parts\<close>

text \<open>\<open>m\<close> returns a command with the words of \<open>c\<close>, and the tokens \<open>ts\<close> are left.\<close>

definition gives :: "char list \<Rightarrow> nat \<Rightarrow> (span cmd \<times> nat) run \<Rightarrow> char list cmd \<Rightarrow> token list \<Rightarrow> bool" where
  "gives b es m c ts \<longleftrightarrow> (\<exists>pc p. m = Some (Inr (pc, p)) \<and> p \<le> es \<and> map_cmd (piece b) pc = c \<and> tokens b es p ts)"

lemma givesI: "p \<le> es \<Longrightarrow> map_cmd (piece b) pc = c \<Longrightarrow> tokens b es p ts \<Longrightarrow> gives b es (Some (Inr (pc, p))) c ts"
  by (auto simp: gives_def)

lemma gives_bind:
  assumes "gives b es m c ts" "\<And>pc p. p \<le> es \<Longrightarrow> map_cmd (piece b) pc = c \<Longrightarrow> tokens b es p ts \<Longrightarrow> gives b es (g (pc, p)) c' ts'"
  shows "gives b es (bind_run m g) c' ts'"
  using assms unfolding gives_def by fastforce

fun wrap :: "char list cmd \<Rightarrow> char list \<times> uint \<times> int \<Rightarrow> char list cmd" where
  "wrap c (f, mode, fd) = Redircmd c f mode fd"

definition redirs :: "(char list \<times> uint \<times> int) list \<Rightarrow> token list" where
  "redirs rs = concat (map (\<lambda>(f, mode, fd). [redir_token mode, wtok f]) rs)"

definition redirs_ok :: "(char list \<times> uint \<times> int) list \<Rightarrow> bool" where
  "redirs_ok rs \<longleftrightarrow> (\<forall>(f, mode, fd) \<in> set rs. redir_ok mode fd)"

lemma map_add_arg: "map_cmd g (add_arg a c) = add_arg (g a) (map_cmd g c)"
  by (induction c) auto

lemma mode_neq: "O_RDONLY \<noteq> O_WRONLY OR O_CREATE OR O_TRUNC" "O_RDONLY \<noteq> O_WRONLY OR O_CREATE" "O_WRONLY OR O_CREATE OR O_TRUNC \<noteq> O_WRONLY OR O_CREATE"
  by (simp_all add: O_RDONLY_def O_WRONLY_def O_CREATE_def O_TRUNC_def)

lemma redirect_map:
  "redir_ok mode fd \<Longrightarrow> map_cmd (piece b) (redirect (fst (redir_token mode)) pc q eq) = Redircmd (map_cmd (piece b) pc) (piece b (q, eq)) mode fd"
  using mode_neq by (auto simp: redirect_def redir_token_def redircmd_def redir_ok_def)

lemma redir_token_starts [simp]: "starts ''<>'' (redir_token mode # ts)" "\<not> starts ''('' (redir_token mode # ts)"
  by (simp_all add: redir_token_def)

lemma symbols_subset: "set ''<>'' \<subseteq> set symbols" "set ''|)&;'' \<subseteq> set symbols" "set ''&'' \<subseteq> set symbols" "set '';'' \<subseteq> set symbols"
  "set ''|'' \<subseteq> set symbols" "set ''('' \<subseteq> set symbols" "set '')'' \<subseteq> set symbols"
  by (simp_all add: symbols_def)

lemma parseredirs_gives:
  assumes e: "ends_at b es" and "p \<le> es" "tokens b es p (redirs rs @ ts)" "\<not> starts ''<>'' ts" "redirs_ok rs"
  shows "gives b es (parseredirs b es pc p) (foldl wrap (map_cmd (piece b) pc) rs) ts"
  using assms(2-)
proof (induction rs arbitrary: pc p)
  case Nil
  then obtain p1 where "peek b es p ''<>'' = (p1, False)" "p1 \<le> es" "tokens b es p1 ts"
    using tokens_peek [OF e Nil(1) _ symbols_subset(1), of ts] by (auto simp: redirs_def)
  then show ?case by (subst parseredirs.simps) (simp add: givesI)
next
  case (Cons r rs)
  obtain f mode fd where r: "r = (f, mode, fd)" by (cases r) auto
  have t: "tokens b es p (redir_token mode # wtok f # redirs rs @ ts)" using Cons.prems(2) r by (simp add: redirs_def)
  obtain p1 where k: "peek b es p ''<>'' = (p1, True)" "p1 \<le> es" "tokens b es p1 (redir_token mode # wtok f # redirs rs @ ts)"
    using tokens_peek [OF e Cons.prems(1) t symbols_subset(1)] by auto
  obtain q0 eq0 p2 where g: "gettoken b es p1 = (fst (redir_token mode), q0, eq0, p2)" "p2 \<le> es" "tokens b es p2 (wtok f # redirs rs @ ts)"
    using tokens_get [OF e k(2), of "fst (redir_token mode)" "snd (redir_token mode)" "wtok f # redirs rs @ ts"] k(3) by auto
  obtain q eq p3 where g': "gettoken b es p2 = (CHR ''a'', q, eq, p3)" "piece b (q, eq) = f" "p3 \<le> es" "tokens b es p3 (redirs rs @ ts)"
    using tokens_get [OF e g(2,3)] by auto
  have ok: "redir_ok mode fd" "redirs_ok rs" using Cons.prems(4) r by (auto simp: redirs_ok_def)
  have "gives b es (parseredirs b es (redirect (fst (redir_token mode)) pc q eq) p3) (foldl wrap (map_cmd (piece b) (redirect (fst (redir_token mode)) pc q eq)) rs) ts"
    by (rule Cons.IH) (use g' Cons.prems(3) ok in auto)
  then show ?case using k(1) g(1) g'(1,2) redirect_map [OF ok(1)] by (subst parseredirs.simps) (simp add: r)
qed

lemma exec_loop_stop:
  assumes e: "ends_at b es" and p: "p \<le> es" "tokens b es p ts" and s: "ts = [] \<or> starts ''|)&;'' ts"
  shows "gives b es (exec_loop b es pc n p) (map_cmd (piece b) pc) ts"
proof -
  obtain p1 where k: "peek b es p ''|)&;'' = (p1, starts ''|)&;'' ts)" "p1 \<le> es" "tokens b es p1 ts"
    using tokens_peek [OF e p symbols_subset(2)] by auto
  show ?thesis
  proof (cases "ts = []")
    case True
    then obtain q eq p2 where g: "gettoken b es p1 = (NUL, q, eq, p2)" using k(3) by (auto elim: tokens_NilE)
    have p2: "p2 \<le> es" "es \<le> p2" using gettoken_ge [OF e k(2) g] by auto
    then have "gettoken b es p2 = gettoken b es p1" using gettoken_ge [OF e k(2) g] g by (auto simp: gettoken_def Let_def split: if_splits)
    then have "tokens b es p2 []" using g by (auto intro: tokens.intros)
    then show ?thesis using k g True p2 by (subst exec_loop.simps) (simp add: givesI)
  qed (use k s in \<open>subst exec_loop.simps; simp add: givesI\<close>)
qed

lemma exec_loop_gives:
  assumes e: "ends_at b es" and "p \<le> es" "tokens b es p (map wtok ws @ redirs rs @ ts)" "ts = [] \<or> starts ''|)&;'' ts" "redirs_ok rs"
    and "ws = [] \<longrightarrow> rs = []" "map_cmd (piece b) pc = Execcmd ws0" "n + length ws < MAXARGS"
  shows "gives b es (exec_loop b es pc n p) (foldl wrap (Execcmd (ws0 @ ws)) rs) ts"
  using assms(2-)
proof (induction ws arbitrary: p pc n ws0)
  case Nil
  then show ?case using exec_loop_stop [OF e Nil(1) _ Nil(3), of pc n] by (simp add: redirs_def)
next
  case (Cons w ws)
  have t: "tokens b es p (wtok w # map wtok ws @ redirs rs @ ts)" using Cons.prems(2) by simp
  obtain p1 where k: "peek b es p ''|)&;'' = (p1, False)" "p1 \<le> es" "tokens b es p1 (wtok w # map wtok ws @ redirs rs @ ts)"
    using tokens_peek [OF e Cons.prems(1) t symbols_subset(2)] by auto
  obtain q eq p2 where g: "gettoken b es p1 = (CHR ''a'', q, eq, p2)" "piece b (q, eq) = w" "p2 \<le> es" "tokens b es p2 (map wtok ws @ redirs rs @ ts)"
    using tokens_get [OF e k(2,3)] by auto
  have step: "exec_loop b es pc n p = bind_run (parseredirs b es (add_arg (q, eq) pc) p2) (\<lambda>x. exec_loop b es (fst x) (n + 1) (snd x))"
    using k(1) g(1) Cons.prems(7) by (subst exec_loop.simps) simp
  have a: "map_cmd (piece b) (add_arg (q, eq) pc) = Execcmd (ws0 @ [w])" using Cons.prems(6) g(2) by (simp add: map_add_arg)
  have nr: "\<not> starts ''<>'' ts" using Cons.prems(3) by (cases ts) (auto simp: starts_def)
  show ?case
  proof (cases "ws = []")
    case True
    have "gives b es (parseredirs b es (add_arg (q, eq) pc) p2) (foldl wrap (Execcmd (ws0 @ [w])) rs) ts"
      using parseredirs_gives [OF e g(3) _ nr Cons.prems(4), of "add_arg (q, eq) pc"] g(4) True a by simp
    then show ?thesis unfolding step
    proof (rule gives_bind)
      fix pc' p' assume a: "p' \<le> es" "map_cmd (piece b) pc' = foldl wrap (Execcmd (ws0 @ [w])) rs" "tokens b es p' ts"
      show "gives b es (exec_loop b es (fst (pc', p')) (n + 1) (snd (pc', p'))) (foldl wrap (Execcmd (ws0 @ w # ws)) rs) ts"
        using exec_loop_stop [OF e a(1,3) Cons.prems(3), of pc' "n + 1"] a(2) True by simp
    qed
  next
    case False
    then have "\<not> starts ''<>'' (map wtok ws @ redirs rs @ ts)" by (cases ws) auto
    then have "gives b es (parseredirs b es (add_arg (q, eq) pc) p2) (Execcmd (ws0 @ [w])) (map wtok ws @ redirs rs @ ts)"
      using parseredirs_gives [OF e g(3), of "[]" "map wtok ws @ redirs rs @ ts" "add_arg (q, eq) pc"] g(4) a by (simp add: redirs_def redirs_ok_def)
    then show ?thesis unfolding step
    proof (rule gives_bind)
      fix pc' p' assume "p' \<le> es" "map_cmd (piece b) pc' = Execcmd (ws0 @ [w])" "tokens b es p' (map wtok ws @ redirs rs @ ts)"
      then show "gives b es (exec_loop b es (fst (pc', p')) (n + 1) (snd (pc', p'))) (foldl wrap (Execcmd (ws0 @ w # ws)) rs) ts"
        using Cons.IH [of p' pc' "ws0 @ [w]" "n + 1"] Cons.prems(3,4,7) False by simp
    qed
  qed
qed

section \<open>Parsing commands\<close>

lemma back_loop_gives:
  assumes e: "ends_at b es" and "p \<le> es" "tokens b es p (replicate k (stok CHR ''&'') @ ts)" "\<not> starts ''&'' ts"
  shows "gives b es (back_loop b es pc p) ((Backcmd ^^ k) (map_cmd (piece b) pc)) ts"
  using assms(2-)
proof (induction k arbitrary: pc p)
  case 0
  then obtain p1 where "peek b es p ''&'' = (p1, False)" "p1 \<le> es" "tokens b es p1 ts"
    using tokens_peek [OF e 0(1) _ symbols_subset(3), of ts] by auto
  then show ?case by (subst back_loop.simps) (simp add: givesI)
next
  case (Suc k)
  obtain p1 where k: "peek b es p ''&'' = (p1, True)" "p1 \<le> es" "tokens b es p1 (stok CHR ''&'' # replicate k (stok CHR ''&'') @ ts)"
    using tokens_peek [OF e Suc.prems(1,2) symbols_subset(3)] by auto
  obtain q eq p2 where g: "gettoken b es p1 = (CHR ''&'', q, eq, p2)" "p2 \<le> es" "tokens b es p2 (replicate k (stok CHR ''&'') @ ts)"
    using tokens_get [OF e k(2,3)] by auto
  have "gives b es (back_loop b es (backcmd pc) p2) ((Backcmd ^^ k) (map_cmd (piece b) (backcmd pc))) ts"
    by (rule Suc.IH) (use g Suc.prems in auto)
  then show ?case using k(1) g(1) by (subst back_loop.simps) (simp add: backcmd_def funpow_swap1)
qed

text \<open>What \<open>parse_fun\<close> does on the tokens of \<open>c\<close> when what follows cannot belong to it.\<close>

fun level :: "parse_fun \<Rightarrow> nat" where
  "level Parseline = 0" | "level Parsepipe = 2" | "level Parseexec = 3" | "level Parseblock = 3"

fun follow :: "parse_fun \<Rightarrow> char list" where
  "follow Parseline = '')''" | "follow Parsepipe = '')&;''" | "follow Parseexec = ''|)&;''" | "follow Parseblock = ''|)&;''"

definition parses :: "char list \<Rightarrow> nat \<Rightarrow> parse_fun \<Rightarrow> char list cmd \<Rightarrow> bool" where
  "parses b es f c \<longleftrightarrow> (\<forall>p ts. p \<le> es \<longrightarrow> tokens b es p (command_tokens (level f) c @ ts) \<longrightarrow> ts = [] \<or> starts (follow f) ts \<longrightarrow>
     gives b es (parse b es f p) c ts)"

lemma parsesD:
  assumes "parses b es f c" "p \<le> es" "tokens b es p (command_tokens (level f) c @ ts)" "ts = [] \<or> starts (follow f) ts"
  shows "gives b es (parse b es f p) c ts"
  using assms unfolding parses_def by blast

lemma starts_mono: "starts xs ts \<Longrightarrow> set xs \<subseteq> set ys \<Longrightarrow> starts ys ts"
  by (cases ts) (auto simp: starts_def)

lemma starts_disjoint: "ts = [] \<or> starts xs ts \<Longrightarrow> set xs \<inter> set ys = {} \<Longrightarrow> \<not> starts ys ts"
  by (cases ts) (auto simp: starts_def)

lemma simple_pipe:
  assumes e: "ends_at b es" and x: "parses b es Parseexec c" and t: "command_tokens 2 c = command_tokens 3 c"
  shows "parses b es Parsepipe c"
  unfolding parses_def
proof (intro allI impI)
  fix p ts assume p: "p \<le> es" "tokens b es p (command_tokens (level Parsepipe) c @ ts)" and s: "ts = [] \<or> starts (follow Parsepipe) ts"
  have "ts = [] \<or> starts (follow Parseexec) ts" using s starts_mono [of _ ts] by auto
  then have "gives b es (parse b es Parseexec p) c ts" using parsesD [OF x p(1) _ ] p(2) t by auto
  moreover have "\<not> starts ''|'' ts" using s by (rule starts_disjoint) simp
  ultimately show "gives b es (parse b es Parsepipe p) c ts"
    using tokens_peek [OF e _ _ symbols_subset(5)] by (subst parse.simps) (fastforce simp: gives_def)
qed

lemma pipe_line:
  assumes e: "ends_at b es" and x: "parses b es Parsepipe c" and p: "p \<le> es" "tokens b es p (command_tokens 2 c @ replicate k (stok CHR ''&'') @ ts)"
    and s: "ts = [] \<or> starts '');'' ts"
  shows "gives b es (bind_run (parse b es Parsepipe p) (\<lambda>x. back_loop b es (fst x) (snd x))) ((Backcmd ^^ k) c) ts"
proof (rule gives_bind)
  have "replicate k (stok CHR ''&'') @ ts = [] \<or> starts (follow Parsepipe) (replicate k (stok CHR ''&'') @ ts)"
    using s starts_mono [of "'');''" ts "'')&;''"] by (cases k) auto
  then show "gives b es (parse b es Parsepipe p) c (replicate k (stok CHR ''&'') @ ts)" using parsesD [OF x p(1)] p(2) by auto
  have ns: "\<not> starts ''&'' ts" using s by (rule starts_disjoint) simp
  fix pc p' assume "p' \<le> es" "map_cmd (piece b) pc = c" "tokens b es p' (replicate k (stok CHR ''&'') @ ts)"
  then show "gives b es (back_loop b es (fst (pc, p')) (snd (pc, p'))) ((Backcmd ^^ k) c) ts"
    using back_loop_gives [OF e _ _ ns] by auto
qed

text \<open>A command without its redirections.\<close>

lemma unwrap:
  "\<exists>c0 rs. c = foldl wrap c0 rs \<and> (\<forall>d f m n. c0 \<noteq> Redircmd d f m n) \<and> size c0 \<le> size c"
proof (induction c)
  case (Redircmd c f m n)
  then obtain c0 rs where c: "c = foldl wrap c0 rs" "\<forall>d f m n. c0 \<noteq> Redircmd d f m n" "size c0 \<le> size c" by blast
  then have "Redircmd c f m n = foldl wrap c0 (rs @ [(f, m, n)])" by (simp add:)
  then show ?case using c by (intro exI [of _ c0] exI [of _ "rs @ [(f, m, n)]"]) auto
next
  case (Execcmd ws)
  show ?case by (intro exI [of _ "Execcmd ws"] exI [of _ "[]"]) simp
next
  case (Pipecmd l r)
  show ?case by (intro exI [of _ "Pipecmd l r"] exI [of _ "[]"]) simp
next
  case (Listcmd l r)
  show ?case by (intro exI [of _ "Listcmd l r"] exI [of _ "[]"]) simp
next
  case (Backcmd d)
  show ?case by (intro exI [of _ "Backcmd d"] exI [of _ "[]"]) simp
qed

lemma wrap_tokens: "rs \<noteq> [] \<or> n = 3 \<Longrightarrow> command_tokens n (foldl wrap c rs) = command_tokens 3 c @ redirs rs"
proof (induction rs arbitrary: n rule: rev_induct)
  case (snoc r rs)
  then show ?case by (cases r) (simp add: redirs_def)
qed (simp add: redirs_def)

lemma wrap_ok: "cmd_ok (foldl wrap c rs) \<longleftrightarrow> cmd_ok c \<and> redirs_ok rs"
proof (induction rs rule: rev_induct)
  case (snoc r rs)
  then show ?case by (cases r) (auto simp: redirs_ok_def)
qed (simp add: redirs_ok_def)

lemma exec_parses:
  assumes e: "ends_at b es" and ok: "length ws < MAXARGS" "redirs_ok rs"
  shows "parses b es Parseexec (foldl wrap (Execcmd ws) rs)"
  unfolding parses_def
proof (intro allI impI)
  fix p ts assume p: "p \<le> es" and t: "tokens b es p (command_tokens (level Parseexec) (foldl wrap (Execcmd ws) rs) @ ts)"
    and s: "ts = [] \<or> starts (follow Parseexec) ts"
  have t': "tokens b es p (map wtok ws @ redirs rs @ ts)" using t by (simp add: wrap_tokens)
  have s': "ts = [] \<or> starts ''|)&;'' ts" using s by simp
  have nr: "\<not> starts ''<>'' ts" using s' by (rule starts_disjoint) simp
  have "\<not> starts ''('' ts" using s' by (rule starts_disjoint) simp
  then have "\<not> starts ''('' (map wtok ws @ redirs rs @ ts)" by (cases ws; cases rs) (auto simp: redirs_def)
  then obtain p1 where k: "peek b es p ''('' = (p1, False)" "p1 \<le> es" "tokens b es p1 (map wtok ws @ redirs rs @ ts)"
    using tokens_peek [OF e p t' symbols_subset(6)] by auto
  have x: "map_cmd (piece b) execcmd = Execcmd []" by (simp add: execcmd_def)
  have "gives b es (bind_run (parseredirs b es execcmd p1) (\<lambda>x. exec_loop b es (fst x) 0 (snd x))) (foldl wrap (Execcmd ws) rs) ts"
  proof (cases "ws = []")
    case True
    have "gives b es (parseredirs b es execcmd p1) (foldl wrap (Execcmd []) rs) ts"
      using parseredirs_gives [OF e k(2) _ nr ok(2), of execcmd] k(3) True x by simp
    then show ?thesis
    proof (rule gives_bind)
      fix pc p' assume a: "p' \<le> es" "map_cmd (piece b) pc = foldl wrap (Execcmd []) rs" "tokens b es p' ts"
      show "gives b es (exec_loop b es (fst (pc, p')) 0 (snd (pc, p'))) (foldl wrap (Execcmd ws) rs) ts"
        using exec_loop_stop [OF e a(1,3) s', of pc 0] a(2) True by simp
    qed
  next
    case False
    then have "\<not> starts ''<>'' (map wtok ws @ redirs rs @ ts)" by (cases ws) auto
    then have "gives b es (parseredirs b es execcmd p1) (Execcmd []) (map wtok ws @ redirs rs @ ts)"
      using parseredirs_gives [OF e k(2), of "[]" "map wtok ws @ redirs rs @ ts" execcmd] k(3) x by (simp add: redirs_def redirs_ok_def)
    then show ?thesis
    proof (rule gives_bind)
      fix pc p' assume a: "p' \<le> es" "map_cmd (piece b) pc = Execcmd []" "tokens b es p' (map wtok ws @ redirs rs @ ts)"
      show "gives b es (exec_loop b es (fst (pc, p')) 0 (snd (pc, p'))) (foldl wrap (Execcmd ws) rs) ts"
        using exec_loop_gives [OF e a(1,3) s' ok(2) _ a(2), of 0] False ok(1) by simp
    qed
  qed
  then show "gives b es (parse b es Parseexec p) (foldl wrap (Execcmd ws) rs) ts" using k(1) by (subst parse.simps) simp
qed

lemma block_parses:
  assumes e: "ends_at b es" and l: "parses b es Parseline c" and t: "command_tokens 3 c = stok CHR ''('' # command_tokens 0 c @ [stok CHR '')'']"
    and ok: "redirs_ok rs"
  shows "parses b es Parseexec (foldl wrap c rs)"
  unfolding parses_def
proof (intro allI impI)
  fix p ts assume p: "p \<le> es" and ts: "tokens b es p (command_tokens (level Parseexec) (foldl wrap c rs) @ ts)"
    and s: "ts = [] \<or> starts (follow Parseexec) ts"
  let ?r = "stok CHR '')'' # redirs rs @ ts"
  have t': "tokens b es p (stok CHR ''('' # command_tokens 0 c @ ?r)" using ts t by (simp add: wrap_tokens)
  have nr: "\<not> starts ''<>'' ts" using s unfolding follow.simps by (rule starts_disjoint) simp
  obtain p1 where k: "peek b es p ''('' = (p1, True)" "p1 \<le> es" "tokens b es p1 (stok CHR ''('' # command_tokens 0 c @ ?r)"
    using tokens_peek [OF e p t' symbols_subset(6)] by auto
  obtain p2 where k2: "peek b es p1 ''('' = (p2, True)" "p2 \<le> es" "tokens b es p2 (stok CHR ''('' # command_tokens 0 c @ ?r)"
    using tokens_peek [OF e k(2,3) symbols_subset(6)] by auto
  obtain q eq p3 where g: "gettoken b es p2 = (CHR ''('', q, eq, p3)" "p3 \<le> es" "tokens b es p3 (command_tokens 0 c @ ?r)"
    using tokens_get [OF e k2(2,3)] by auto
  have "gives b es (parse b es Parseline p3) c ?r" using parsesD [OF l g(2), of ?r] g(3) by simp
  then have "gives b es (bind_run (parse b es Parseline p3) (\<lambda>x. let (ps, r) = peek b es (snd x) '')''
      in if \<not> r then Some (Inl (Panic ''syntax - missing )'')) else let (_, _, _, ps) = gettoken b es ps in parseredirs b es (fst x) ps)) (foldl wrap c rs) ts"
  proof (rule gives_bind)
    fix pc p4 assume a: "p4 \<le> es" "map_cmd (piece b) pc = c" "tokens b es p4 ?r"
    obtain p5 where k5: "peek b es p4 '')'' = (p5, True)" "p5 \<le> es" "tokens b es p5 ?r"
      using tokens_peek [OF e a(1,3) symbols_subset(7)] by auto
    obtain q eq p6 where g6: "gettoken b es p5 = (CHR '')'', q, eq, p6)" "p6 \<le> es" "tokens b es p6 (redirs rs @ ts)"
      using tokens_get [OF e k5(2,3)] by auto
    show "gives b es (let (ps, r) = peek b es (snd (pc, p4)) '')'' in if \<not> r then Some (Inl (Panic ''syntax - missing )''))
        else let (_, _, _, ps) = gettoken b es ps in parseredirs b es (fst (pc, p4)) ps) (foldl wrap c rs) ts"
      using parseredirs_gives [OF e g6(2,3) nr ok, of pc] a(2) k5(1) g6(1) by simp
  qed
  then have "gives b es (parse b es Parseblock p1) (foldl wrap c rs) ts" using k2(1) g(1) by (subst parse.simps) simp
  then show "gives b es (parse b es Parseexec p) (foldl wrap c rs) ts" using k(1) by (subst parse.simps) simp
qed

lemma parse_line_end:
  assumes e: "ends_at b es" and g: "gives b es (bind_run (parse b es Parsepipe p) (\<lambda>x. back_loop b es (fst x) (snd x))) c ts" and s: "\<not> starts '';'' ts"
  shows "gives b es (parse b es Parseline p) c ts"
proof -
  obtain pc p' where m: "bind_run (parse b es Parsepipe p) (\<lambda>x. back_loop b es (fst x) (snd x)) = Some (Inr (pc, p'))" "p' \<le> es"
    "map_cmd (piece b) pc = c" "tokens b es p' ts" using g by (auto simp: gives_def)
  obtain p1 where k: "peek b es p' '';'' = (p1, False)" "p1 \<le> es" "tokens b es p1 ts"
    using tokens_peek [OF e m(2,4) symbols_subset(4)] s by auto
  have "parse b es Parseline p = Some (Inr (pc, p1))"
    using m(1) k(1) by (subst parse.simps) (auto elim!: bind_run_InrE)
  then show ?thesis using k m(3) by (simp add: givesI)
qed

lemma parse_line_list:
  assumes e: "ends_at b es" and g: "gives b es (bind_run (parse b es Parsepipe p) (\<lambda>x. back_loop b es (fst x) (snd x))) c (stok CHR '';'' # command_tokens 0 d @ ts)"
    and d: "parses b es Parseline d" and s: "ts = [] \<or> starts '')'' ts"
  shows "gives b es (parse b es Parseline p) (Listcmd c d) ts"
proof -
  obtain pc p' where m: "bind_run (parse b es Parsepipe p) (\<lambda>x. back_loop b es (fst x) (snd x)) = Some (Inr (pc, p'))" "p' \<le> es"
    "map_cmd (piece b) pc = c" "tokens b es p' (stok CHR '';'' # command_tokens 0 d @ ts)" using g by (auto simp: gives_def)
  obtain p1 where k: "peek b es p' '';'' = (p1, True)" "p1 \<le> es" "tokens b es p1 (stok CHR '';'' # command_tokens 0 d @ ts)"
    using tokens_peek [OF e m(2,4) symbols_subset(4)] by auto
  obtain q eq p2 where t: "gettoken b es p1 = (CHR '';'', q, eq, p2)" "p2 \<le> es" "tokens b es p2 (command_tokens 0 d @ ts)"
    using tokens_get [OF e k(2,3)] by auto
  obtain pd p3 where r: "parse b es Parseline p2 = Some (Inr (pd, p3))" "p3 \<le> es" "map_cmd (piece b) pd = d" "tokens b es p3 ts"
    using parsesD [OF d t(2), of ts] t(3) s by (auto simp: gives_def)
  have "parse b es Parseline p = Some (Inr (listcmd pc pd, p3))"
    using m(1) k(1) t(1) r(1) by (subst parse.simps) (auto elim!: bind_run_InrE)
  then show ?thesis using r m(3) by (simp add: givesI listcmd_def)
qed

lemma pipe_parses:
  assumes e: "ends_at b es" and l: "parses b es Parseexec l" and r: "parses b es Parsepipe r"
  shows "parses b es Parsepipe (Pipecmd l r)"
  unfolding parses_def
proof (intro allI impI)
  fix p ts assume p: "p \<le> es" and ts: "tokens b es p (command_tokens (level Parsepipe) (Pipecmd l r) @ ts)"
    and s: "ts = [] \<or> starts (follow Parsepipe) ts"
  have ts': "tokens b es p (command_tokens 3 l @ stok CHR ''|'' # command_tokens 2 r @ ts)" using ts by (simp add: paren_def)
  have g: "gives b es (parse b es Parseexec p) l (stok CHR ''|'' # command_tokens 2 r @ ts)"
    using parsesD [OF l p, of "stok CHR ''|'' # command_tokens 2 r @ ts"] ts' by simp
  then obtain pl p1 where m: "parse b es Parseexec p = Some (Inr (pl, p1))" "p1 \<le> es" "map_cmd (piece b) pl = l"
    "tokens b es p1 (stok CHR ''|'' # command_tokens 2 r @ ts)" by (auto simp: gives_def)
  obtain p2 where k: "peek b es p1 ''|'' = (p2, True)" "p2 \<le> es" "tokens b es p2 (stok CHR ''|'' # command_tokens 2 r @ ts)"
    using tokens_peek [OF e m(2,4) symbols_subset(5)] by auto
  obtain q eq p3 where t: "gettoken b es p2 = (CHR ''|'', q, eq, p3)" "p3 \<le> es" "tokens b es p3 (command_tokens 2 r @ ts)"
    using tokens_get [OF e k(2,3)] by auto
  obtain pr p4 where w: "parse b es Parsepipe p3 = Some (Inr (pr, p4))" "p4 \<le> es" "map_cmd (piece b) pr = r" "tokens b es p4 ts"
    using parsesD [OF r t(2), of ts] t(3) s by (auto simp: gives_def)
  have "parse b es Parsepipe p = Some (Inr (pipecmd pl pr, p4))" using m(1) k(1) t(1) w(1) by (subst parse.simps) simp
  then show "gives b es (parse b es Parsepipe p) (Pipecmd l r) ts" using w m(3) by (simp add: givesI pipecmd_def)
qed

lemma unback: "\<exists>c0 k. c = (Backcmd ^^ k) c0 \<and> (\<forall>d. c0 \<noteq> Backcmd d) \<and> size c0 \<le> size c"
proof (induction c)
  case (Backcmd c)
  then obtain c0 k where c: "c = (Backcmd ^^ k) c0" "\<forall>d. c0 \<noteq> Backcmd d" "size c0 \<le> size c" by blast
  then show ?case by (intro exI [of _ c0] exI [of _ "Suc k"]) auto
next
  case (Execcmd ws)
  show ?case by (intro exI [of _ "Execcmd ws"] exI [of _ "0"]) simp
next
  case (Redircmd d f m n)
  show ?case by (intro exI [of _ "Redircmd d f m n"] exI [of _ "0"]) simp
next
  case (Pipecmd l r)
  show ?case by (intro exI [of _ "Pipecmd l r"] exI [of _ "0"]) simp
next
  case (Listcmd l r)
  show ?case by (intro exI [of _ "Listcmd l r"] exI [of _ "0"]) simp
qed

lemma back_tokens:
  assumes "\<forall>d. c0 \<noteq> Backcmd d"
  shows "command_tokens 1 ((Backcmd ^^ k) c0) = command_tokens 2 c0 @ replicate k (stok CHR ''&'')"
    "0 < k \<Longrightarrow> command_tokens 0 ((Backcmd ^^ k) c0) = command_tokens 2 c0 @ replicate k (stok CHR ''&'')"
proof -
  show 1: "command_tokens 1 ((Backcmd ^^ k) c0) = command_tokens 2 c0 @ replicate k (stok CHR ''&'')" for k
  proof (induction k)
    case 0
    then show ?case using assms by (cases c0) (auto simp: paren_def)
  next
    case (Suc k)
    then show ?case using replicate_append_same [of k "stok CHR ''&''"] by (simp add: paren_def)
  qed
  show "0 < k \<Longrightarrow> command_tokens 0 ((Backcmd ^^ k) c0) = command_tokens 2 c0 @ replicate k (stok CHR ''&'')"
    using 1 [of k] by (cases k) (auto simp: paren_def)
qed

lemma back_ok: "cmd_ok ((Backcmd ^^ k) c) = cmd_ok c" by (induction k) auto

lemma line_parses:
  assumes e: "ends_at b es" and x: "parses b es Parsepipe c0" and t: "command_tokens 0 ((Backcmd ^^ k) c0) = command_tokens 2 c0 @ replicate k (stok CHR ''&'')"
  shows "parses b es Parseline ((Backcmd ^^ k) c0)"
  unfolding parses_def
proof (intro allI impI)
  fix p ts assume p: "p \<le> es" and ts: "tokens b es p (command_tokens (level Parseline) ((Backcmd ^^ k) c0) @ ts)" and s: "ts = [] \<or> starts (follow Parseline) ts"
  have s': "ts = [] \<or> starts '');'' ts" using s starts_mono [of "'')''" ts "'');''"] by auto
  have "\<not> starts '';'' ts" using s unfolding follow.simps by (rule starts_disjoint) simp
  then show "gives b es (parse b es Parseline p) ((Backcmd ^^ k) c0) ts"
    using parse_line_end [OF e pipe_line [OF e x p _ s', of k]] ts t by simp
qed

lemma list_parses:
  assumes e: "ends_at b es" and x: "parses b es Parsepipe c0" and c0: "\<forall>d. c0 \<noteq> Backcmd d" and d: "parses b es Parseline d"
  shows "parses b es Parseline (Listcmd ((Backcmd ^^ k) c0) d)"
  unfolding parses_def
proof (intro allI impI)
  let ?r = "\<lambda>ts. stok CHR '';'' # command_tokens 0 d @ ts"
  fix p ts assume p: "p \<le> es" and ts: "tokens b es p (command_tokens (level Parseline) (Listcmd ((Backcmd ^^ k) c0) d) @ ts)"
    and s: "ts = [] \<or> starts (follow Parseline) ts"
  have t: "tokens b es p (command_tokens 2 c0 @ replicate k (stok CHR ''&'') @ ?r ts)"
    using ts back_tokens(1) [OF c0, of k] by (simp add: paren_def)
  have "?r ts = [] \<or> starts '');'' (?r ts)" by simp
  from parse_line_list [OF e pipe_line [OF e x p t this] d] s
  show "gives b es (parse b es Parseline p) (Listcmd ((Backcmd ^^ k) c0) d) ts" by simp
qed

lemma command_parses:
  assumes e: "ends_at b es"
  shows "cmd_ok c \<Longrightarrow> parses b es Parseexec c \<and> parses b es Parsepipe c \<and> parses b es Parseline c"
proof (induction "size c" arbitrary: c rule: less_induct)
  case less
  note sp = simple_pipe [OF e] and bp = block_parses [OF e, where rs = "[]", simplified foldl_Nil]
  have r0: "redirs_ok []" by (simp add: redirs_ok_def)
  have IH: "parses b es Parseexec d" "parses b es Parsepipe d" "parses b es Parseline d" if "size d < size c" "cmd_ok d" for d
    using less.hyps [OF that] by auto
  have line: "parses b es Parseline c" if "parses b es Parsepipe c" "command_tokens 0 c = command_tokens 2 c"
    using line_parses [OF e that(1), of 0] that(2) by simp
  show ?case
  proof (cases c)
    case (Execcmd ws)
    have x: "parses b es Parseexec c" using exec_parses [OF e _ r0, of ws] less.prems Execcmd by simp
    then show ?thesis using sp [OF x] line Execcmd by simp
  next
    case (Redircmd c' f m n)
    obtain c0 rs where c: "c = foldl wrap c0 rs" "\<forall>d f m n. c0 \<noteq> Redircmd d f m n" "size c0 \<le> size c" using unwrap by blast
    then have rs: "rs \<noteq> []" using Redircmd by auto
    have "size (foldl wrap c0 rs) > size c0" using rs unwrap
    proof (induction rs rule: rev_induct)
      case (snoc r rs)
      then show ?case by (cases r; cases "rs = []") auto
    qed simp
    then have lt: "size c0 < size c" and ok: "cmd_ok c0" "redirs_ok rs" using c(1) less.prems by (simp_all add: wrap_ok)
    have x: "parses b es Parseexec c"
    proof (cases c0)
      case (Execcmd ws)
      then show ?thesis using exec_parses [OF e _ ok(2), of ws] ok(1) c(1) by simp
    qed (use block_parses [OF e IH(3) [OF lt ok(1)] _ ok(2)] c in \<open>auto simp: paren_def\<close>)
    then show ?thesis using sp [OF x] line Redircmd by simp
  next
    case (Pipecmd l r)
    have p: "parses b es Parsepipe c" using pipe_parses [OF e IH(1,2), of l r] less.prems Pipecmd by simp
    have l: "parses b es Parseline c" using line [OF p] Pipecmd by (simp add: paren_def)
    have x: "parses b es Parseexec c" by (rule bp [OF l _ r0]) (simp add: Pipecmd paren_def)
    show ?thesis using p l x by simp
  next
    case (Listcmd l r)
    obtain c0 k where c0: "l = (Backcmd ^^ k) c0" "\<forall>d. c0 \<noteq> Backcmd d" "size c0 \<le> size l" using unback by blast
    have l: "parses b es Parseline c"
      unfolding Listcmd c0(1) by (rule list_parses [OF e IH(2) c0(2) IH(3)]) (use c0 Listcmd less.prems in \<open>auto simp: back_ok\<close>)
    have x: "parses b es Parseexec c" by (rule bp [OF l _ r0]) (simp add: Listcmd paren_def)
    show ?thesis using sp [OF x] l x by (simp add: Listcmd paren_def)
  next
    case (Backcmd d)
    obtain c0 k where c0: "d = (Backcmd ^^ k) c0" "\<forall>d. c0 \<noteq> Backcmd d" "size c0 \<le> size d" using unback by blast
    then have c: "c = (Backcmd ^^ Suc k) c0" using Backcmd by simp
    have "parses b es Parsepipe c0" by (rule IH(2)) (use c0 c less.prems Backcmd in \<open>auto simp: back_ok\<close>)
    then have l: "parses b es Parseline c" unfolding c by (rule line_parses [OF e]) (rule back_tokens(2) [OF c0(2)], simp)
    have x: "parses b es Parseexec c" by (rule bp [OF l _ r0]) (simp add: Backcmd paren_def)
    show ?thesis using sp [OF x] l x by (simp add: Backcmd paren_def)
  qed
qed

end
