(* ===== verification/Shell_Words.thy ===== *)
theory Shell_Words
  imports Shell_Print
begin

text \<open>
  The whole of \<open>parsecmd\<close> (\<open>user/sh.c\<close>): it ends on every line, \<open>nulterminate\<close> cuts the line into exactly the words of the
  command, and a printed command is read back.
\<close>

section \<open>Cutting the line into words\<close>

text \<open>A word of a command as a C string.\<close>

definition cstr :: "char list \<Rightarrow> span \<Rightarrow> char list" where
  "cstr b = (\<lambda>(q, eq). takeWhile (\<lambda>c. c \<noteq> NUL) (drop q b))"

lemma fold_nul:
  "length (fold (\<lambda>(q, eq) b. b[eq := NUL]) xs b) = length b"
  "i < length b \<Longrightarrow> fold (\<lambda>(q, eq) b. b[eq := NUL]) xs b ! i = (if i \<in> snd ` set xs then NUL else b ! i)"
proof -
  show l: "length (fold (\<lambda>(q, eq) b. b[eq := NUL]) xs b) = length b" for b by (induction xs arbitrary: b) auto
  show "i < length b \<Longrightarrow> fold (\<lambda>(q, eq) b. b[eq := NUL]) xs b ! i = (if i \<in> snd ` set xs then NUL else b ! i)"
  proof (induction xs arbitrary: b)
    case (Cons x xs)
    then show ?case by (cases x) (simp add: nth_list_update)
  qed simp
qed

lemma nulterminate_nth:
  "length (nulterminate c b) = length b \<and> (\<forall>i<length b. nulterminate c b ! i = (if i \<in> snd ` set_cmd c then NUL else b ! i))"
proof (induction c b rule: nulterminate.induct)
  case (1 args b)
  show ?case using fold_nul(1) [of args b] fold_nul(2) [of _ b args] by simp
next
  case (2 c q eq mode fd b)
  have "(nulterminate c b)[eq := NUL] ! i = (if i \<in> snd ` insert (q, eq) (set_cmd c) then NUL else b ! i)" if "i < length b" for i
    using 2 that by (cases "i = eq") auto
  then show ?case using 2 by auto
next
  case (3 l r b)
  then show ?case by (auto simp: image_Un)
next
  case (4 l r b)
  then show ?case by (auto simp: image_Un)
qed simp

lemma cstr_nulterminate:
  assumes e: "ends_at b es" and ok: "spans_ok b es c" and x: "x \<in> set_cmd c"
  shows "cstr (nulterminate c b) x = piece b x"
proof -
  obtain q eq where qe: "x = (q, eq)" by (cases x)
  let ?b = "nulterminate c b"
  have w: "q < eq" "eq \<le> es" "\<And>i. q \<le> i \<Longrightarrow> i < eq \<Longrightarrow> wordchar (b ! i)" using ok x qe by (auto simp: spans_ok_def word_span_def)
  have eb: "es < length b" "\<And>i. i < es \<Longrightarrow> b ! i \<noteq> NUL" using e by (auto simp: ends_at_def)
  note n = nulterminate_nth [of c b]
  have "i \<notin> snd ` set_cmd c" if "q \<le> i" "i < eq" for i
  proof
    assume "i \<in> snd ` set_cmd c"
    then obtain q' where "(q', i) \<in> set_cmd c" by force
    then have "i < es \<longrightarrow> \<not> wordchar (b ! i)" using ok by (auto simp: spans_ok_def word_span_def)
    then show False using w that by auto
  qed
  then have same: "?b ! i = b ! i" if "q \<le> i" "i < eq" for i using that n w eb by auto
  have "eq \<in> snd ` set_cmd c" using x qe by force
  then have nul: "?b ! eq = NUL" using n w eb by auto
  have l: "length (piece b (q, eq)) = eq - q" using w eb by (simp add: piece_def)
  have p: "drop q ?b = piece b (q, eq) @ NUL # drop (Suc eq) ?b"
  proof (rule nth_equalityI)
    show "length (drop q ?b) = length (piece b (q, eq) @ NUL # drop (Suc eq) ?b)" using l n w eb by simp
    fix i assume "i < length (drop q ?b)"
    then have i: "drop q ?b ! i = ?b ! (q + i)" by simp
    show "drop q ?b ! i = (piece b (q, eq) @ NUL # drop (Suc eq) ?b) ! i"
    proof (cases "i < eq - q")
      case True
      then show ?thesis using i l same [of "q + i"] w eb by (simp add: nth_append piece_def)
    next
      case False
      then obtain k where k: "i = eq - q + k" by (metis le_iff_add not_less)
      then have q: "q + i = eq + k" and m: "i - length (piece b (q, eq)) = k" "\<not> i < length (piece b (q, eq))" using w l by simp_all
      have "(piece b (q, eq) @ NUL # drop (Suc eq) ?b) ! i = (NUL # drop (Suc eq) ?b) ! k" using m by (simp add: nth_append)
      then show ?thesis unfolding i q using nul n w eb by (cases k) simp_all
    qed
  qed
  have "ch \<noteq> NUL" if ch: "ch \<in> set (piece b (q, eq))" for ch
  proof -
    obtain i where i: "i < length (piece b (q, eq))" "ch = piece b (q, eq) ! i" using ch unfolding in_set_conv_nth by blast
    then have "ch = b ! (q + i)" "q + i < es" using l w eb by (simp_all add: piece_def)
    then show ?thesis using eb(2) by simp
  qed
  then show ?thesis unfolding qe cstr_def prod.case p by (subst takeWhile_append2) auto
qed

lemma str_len_ends: "NUL \<in> set b \<Longrightarrow> ends_at b (str_len b)"
proof -
  assume "NUL \<in> set b"
  then obtain xs ys where b: "b = xs @ NUL # ys" "NUL \<notin> set xs" using split_list_first by metis
  then have "str_len b = length xs" unfolding str_len_def by (subst b, subst takeWhile_append2) auto
  then show ?thesis using b by (auto simp: ends_at_def nth_append in_set_conv_nth)
qed

text \<open>
  Property C29 (the command parser always ends, and its words are cut out of the line). For every line, \<open>parsecmd\<close> either
  ends with a syntax error or returns a command. In that case the array has been changed only by writing NULs, in place, and every
  word of the command, read as a C string from the array, is a non-empty sequence of characters of the original line
  that are neither white space nor symbols, and that could not be longer.
\<close>

theorem parsecmd_total:
  assumes "NUL \<in> set b"
  shows "(\<exists>msg. parsecmd b = Some (Inl (Panic msg))) \<or>
    (\<exists>c b'. parsecmd b = Some (Inr (c, b')) \<and> length b' = length b \<and> (\<forall>i<length b. b' ! i = b ! i \<or> b' ! i = NUL) \<and>
      (\<forall>(q, eq) \<in> set_cmd c. q < eq \<and> eq \<le> str_len b \<and> cstr b' (q, eq) = take (eq - q) (drop q b) \<and>
        (\<forall>i. q \<le> i \<longrightarrow> i < eq \<longrightarrow> wordchar (b ! i)) \<and> (eq < str_len b \<longrightarrow> \<not> wordchar (b ! eq))))"
proof -
  let ?es = "str_len b"
  have e: "ends_at b ?es" by (rule str_len_ends [OF assms])
  show ?thesis
  proof (cases "\<exists>msg. parsecmd b = Some (Inl (Panic msg))")
    case False
    have r: "ends_well b ?es 0 (parse b ?es Parseline 0)" by (rule parse_ends [OF e]) simp
    obtain c p where c: "parse b ?es Parseline 0 = Some (Inr (c, p))" "spans_ok b ?es c"
      using r False unfolding ends_well_def by (auto simp: parsecmd_def parseline_def Let_def)
    then have "parsecmd b = Some (Inr (c, nulterminate c b))"
      using False by (auto simp: parsecmd_def parseline_def Let_def split: prod.splits if_splits)
    moreover have "length (nulterminate c b) = length b \<and> (\<forall>i<length b. nulterminate c b ! i = b ! i \<or> nulterminate c b ! i = NUL)"
      using nulterminate_nth [of c b] by auto
    moreover have "\<forall>(q, eq) \<in> set_cmd c. q < eq \<and> eq \<le> ?es \<and> cstr (nulterminate c b) (q, eq) = take (eq - q) (drop q b) \<and>
        (\<forall>i. q \<le> i \<longrightarrow> i < eq \<longrightarrow> wordchar (b ! i)) \<and> (eq < ?es \<longrightarrow> \<not> wordchar (b ! eq))"
      using c(2) cstr_nulterminate [OF e c(2)] by (auto simp: spans_ok_def word_span_def piece_def)
    ultimately show ?thesis by blast
  qed simp
qed

theorem parsecmd_total_witness:
  "\<exists>c b'. parsecmd ('' a>b'' @ [NUL, CHR ''z'']) = Some (Inr (c, b')) \<and> set_cmd c = {(1, 2), (3, 4)} \<and> cstr b' (1, 2) = ''a'' \<and>
    cstr b' (3, 4) = ''b''"
proof -
  let ?b = "'' a>b'' @ [NUL, CHR ''z'']" and ?c = "Redircmd (Execcmd [(1, 2)]) (3, 4) (O_WRONLY OR O_CREATE OR O_TRUNC) 1"
  have r: "parsecmd ?b = Some (Inr (?c, nulterminate ?c ?b))" by code_simp
  have "NUL \<in> set ?b" by simp
  from parsecmd_total [OF this] have "cstr (nulterminate ?c ?b) (1, 2) = take (2 - 1) (drop 1 ?b) \<and> cstr (nulterminate ?c ?b) (3, 4) = take (4 - 3) (drop 3 ?b)"
    unfolding r by simp
  then show ?thesis using r by (simp add: insert_commute)
qed

section \<open>Printing\<close>

text \<open>The text of a command: its tokens with a space behind each.\<close>

definition unlex :: "token list \<Rightarrow> char list" where
  "unlex ts = concat (map (\<lambda>(t, w). w @ '' '') ts)"

definition show_cmd :: "char list cmd \<Rightarrow> char list" where
  "show_cmd c = unlex (command_tokens 0 c)"

definition word_ok :: "char list \<Rightarrow> bool" where
  "word_ok w \<longleftrightarrow> w \<noteq> [] \<and> (\<forall>c\<in>set w. wordchar c \<and> c \<noteq> NUL)"

definition token_ok :: "token \<Rightarrow> bool" where
  "token_ok = (\<lambda>(t, w). t = CHR ''a'' \<and> word_ok w \<or> t \<in> set ''|();&<>'' \<and> w = [t] \<or> t = CHR ''+'' \<and> w = ''>>'')"

lemma skip_word_run:
  assumes "\<And>i. i < n \<Longrightarrow> wordchar (b ! (q + i))" "q + n < es" "\<not> wordchar (b ! (q + n))"
  shows "skip_word b es q = q + n"
  using assms
proof (induction n arbitrary: q)
  case 0
  then show ?case by (subst skip_word.simps) (auto simp: wordchar_def)
next
  case (Suc n)
  have "skip_word b es q = skip_word b es (q + 1)" using Suc.prems(1) [of 0] Suc.prems(2) by (subst skip_word.simps) (simp add: wordchar_def)
  also have "\<dots> = q + 1 + n" by (rule Suc.IH) (use Suc.prems(1) [of "Suc _"] Suc.prems(2,3) in auto)
  finally show ?case by simp
qed

lemma space_white: "CHR '' '' \<in> set whitespace" "\<not> wordchar CHR '' ''"
  by (simp_all add: whitespace_def wordchar_def)

lemma token_hd: "token_ok (t, w) \<Longrightarrow> w \<noteq> [] \<and> hd w \<notin> set whitespace \<and> hd w \<noteq> NUL"
  by (cases w) (auto simp: token_ok_def word_ok_def wordchar_def whitespace_def)

lemma gettoken_at:
  assumes t: "token_ok (t, w)" and w: "take (length w) (drop q b) = w" "b ! (q + length w) = CHR '' ''" "q + length w < es" "es < length b"
    and n: "q + length w + 1 = es \<or> b ! (q + length w + 1) \<notin> set whitespace"
  shows "gettoken b es q = (t, q, q + length w, q + length w + 1)"
proof -
  note h = token_hd [OF t]
  have nth: "b ! (q + i) = w ! i" if "i < length w" for i using arg_cong [OF w(1), of "\<lambda>x. x ! i"] that w(3,4) by simp
  have bq: "b ! q = hd w" using nth [of 0] h by (simp add: hd_conv_nth)
  have s: "skip_white b es q = q" using h bq w(3) by (subst skip_white.simps) simp
  have "skip_white b es (q + length w + 1) = q + length w + 1" using n w(3) by (subst skip_white.simps) auto
  then have s': "skip_white b es (q + length w) = q + length w + 1" using w(2,3) space_white(1) by (subst skip_white.simps) simp
  consider "t = CHR ''a''" "word_ok w" | "t \<in> set ''|();&<''" "w = [t]" | "t = CHR ''>''" "w = [t]" | "t = CHR ''+''" "w = ''>>''"
    using t by (auto simp: token_ok_def)
  then show ?thesis
  proof cases
    case 1
    have c: "wordchar (w ! i)" if "i < length w" for i using 1(2) that by (simp add: word_ok_def)
    have "skip_word b es q = q + length w" by (rule skip_word_run) (use c nth w(2,3) space_white in auto)
    moreover have "wordchar (b ! q)" using c [of 0] h bq by (simp add: hd_conv_nth)
    then have "b ! q \<notin> set ''|();&<''" "b ! q \<noteq> CHR ''>''" by (auto simp: wordchar_def symbols_def)
    ultimately show ?thesis using 1(1) s s' h bq unfolding gettoken_def Let_def by auto
  next
    case 2
    then show ?thesis using s s' h bq unfolding gettoken_def Let_def by auto
  next
    case 3
    then have "b ! (q + 1) \<noteq> CHR ''>''" using w(2) by simp
    then show ?thesis using 3 s s' bq unfolding gettoken_def Let_def by simp
  next
    case 4
    then have "b ! (q + 1) = CHR ''>''" using nth [of 1] by simp
    then show ?thesis using 4 s s' bq unfolding gettoken_def Let_def by (simp add: numeral_2_eq_2)
  qed
qed

lemma unlex_simps [simp]: "unlex [] = []" "unlex ((t, w) # ts) = w @ CHR '' '' # unlex ts" "unlex (ts @ us) = unlex ts @ unlex us"
  by (simp_all add: unlex_def)

lemma tokens_unlex:
  assumes "\<forall>x\<in>set ts. token_ok x" "b = unlex (pre @ ts) @ NUL # junk" "es = length (unlex (pre @ ts))"
  shows "tokens b es (length (unlex pre)) ts"
  using assms
proof (induction ts arbitrary: pre)
  case Nil
  then have "b ! es = NUL" "es = length (unlex pre)" by (simp_all add: nth_append)
  moreover have "skip_white b es es = es" by (subst skip_white.simps) simp
  ultimately have "gettoken b es (length (unlex pre)) = (NUL, es, es, es)" by (simp add: gettoken_def Let_def)
  then show ?case by (rule tokens_end)
next
  case (Cons x ts)
  obtain t w where x: "x = (t, w)" by (cases x)
  let ?q = "length (unlex pre)"
  have b: "b = unlex pre @ w @ CHR '' '' # unlex ts @ NUL # junk" and es: "es = ?q + length w + 1 + length (unlex ts)"
    using Cons.prems(2,3) x by simp_all
  have ok: "token_ok (t, w)" "\<forall>x\<in>set ts. token_ok x" using Cons.prems(1) x by auto
  have p: "take (length w) (drop ?q b) = w" unfolding b by simp
  have sp: "b ! (?q + length w) = CHR '' ''" unfolding b by (simp add: nth_append)
  have "?q + length w + 1 = es \<or> b ! (?q + length w + 1) \<notin> set whitespace"
  proof (cases ts)
    case (Cons y ys)
    obtain t' w' where y: "y = (t', w')" by (cases y)
    have "w' \<noteq> []" "hd w' \<notin> set whitespace" using token_hd [of t' w'] ok(2) Cons y by auto
    moreover have "b ! (?q + length w + 1) = hd w'" unfolding b using Cons y \<open>w' \<noteq> []\<close> by (simp add: nth_append hd_conv_nth)
    ultimately show ?thesis by simp
  qed (use es in simp)
  then have g: "gettoken b es ?q = (t, ?q, ?q + length w, ?q + length w + 1)"
    by (intro gettoken_at [OF ok(1) p sp]) (use es b in auto)
  have "tokens b es (length (unlex (pre @ [(t, w)]))) ts" by (rule Cons.IH) (use ok(2) Cons.prems(2,3) x in auto)
  then have "tokens b es (?q + length w + 1) ts" by simp
  moreover have "t \<noteq> NUL" using ok(1) by (auto simp: token_ok_def)
  moreover have "piece b (?q, ?q + length w) = w" using p by (simp add: piece_def)
  ultimately show ?case using tokens_next [OF g] x by simp
qed

lemma stok_ok: "t \<in> set ''|();&<>'' \<Longrightarrow> token_ok (stok t)" by (simp add: token_ok_def)

lemma redir_token_ok: "token_ok (redir_token mode)" by (simp add: token_ok_def redir_token_def)

lemma command_tokens_ok: "\<forall>w\<in>set_cmd c. word_ok w \<Longrightarrow> \<forall>x\<in>set (command_tokens n c). token_ok x"
proof (induction n c rule: command_tokens.induct)
  case (1 n ws)
  then show ?case by (simp add: token_ok_def)
next
  case (2 n c f mode fd)
  moreover have "token_ok (wtok f)" using "2.prems" by (simp add: token_ok_def)
  ultimately show ?case using redir_token_ok [of mode] by simp
qed (simp_all add: ball_Un paren_def stok_ok)

lemma unlex_no_nul: "\<forall>x\<in>set ts. token_ok x \<Longrightarrow> NUL \<notin> set (unlex ts)"
proof (induction ts)
  case (Cons x ts)
  obtain t w where x: "x = (t, w)" by (cases x)
  have "token_ok (t, w)" using Cons.prems x by simp
  then have "NUL \<notin> set w" by (auto simp: token_ok_def word_ok_def)
  then show ?case using Cons x by simp
qed simp

text \<open>
  Property C28 (printed commands are read back). Take any command built from simple commands with up to nine words, redirections,
  pipelines, lists and background commands, nested in any way. Write it down with spaces between the tokens and with
  brackets where the grammar needs them. \<open>parsecmd\<close> of that line returns exactly the command, where its words are read from the
  array that \<open>nulterminate\<close> has cut.
\<close>

theorem parsecmd_show:
  assumes "cmd_ok c" "\<forall>w\<in>set_cmd c. word_ok w"
  shows "\<exists>pc b'. parsecmd (show_cmd c @ NUL # junk) = Some (Inr (pc, b')) \<and> map_cmd (cstr b') pc = c"
proof -
  let ?b = "show_cmd c @ NUL # junk" and ?es = "length (show_cmd c)"
  have ok: "\<forall>x\<in>set (command_tokens 0 c). token_ok x" by (rule command_tokens_ok [OF assms(2)])
  have "takeWhile (\<lambda>c. c \<noteq> NUL) ?b = show_cmd c" using unlex_no_nul [OF ok] by (subst takeWhile_append2) (auto simp: show_cmd_def)
  then have es: "str_len ?b = ?es" by (simp add: str_len_def)
  have e: "ends_at ?b ?es" using str_len_ends [of ?b] es by simp
  have t: "tokens ?b ?es 0 (command_tokens 0 c)" using tokens_unlex [OF ok, of ?b "[]" junk ?es] by (simp add: show_cmd_def)
  have "parses ?b ?es Parseline c" using command_parses [OF e assms(1)] by simp
  then obtain pc p where pc: "parse ?b ?es Parseline 0 = Some (Inr (pc, p))" "p \<le> ?es" "map_cmd (piece ?b) pc = c" "tokens ?b ?es p []"
    using parsesD [of ?b ?es Parseline c 0 "[]"] t by (auto simp: gives_def)
  have "ends_well ?b ?es 0 (parse ?b ?es Parseline 0)" by (rule parse_ends [OF e]) simp
  then have sp: "spans_ok ?b ?es pc" using pc(1) by (auto simp: ends_well_def)
  obtain q eq p' where g: "gettoken ?b ?es p = (NUL, q, eq, p')" using pc(4) by (auto elim: tokens_NilE)
  have "q = ?es" using gettoken_ge(6) [OF e pc(2) g] by simp
  then have "fst (peek ?b ?es p []) = ?es" using g by (auto simp: gettoken_def peek_def Let_def split: if_splits)
  then have run: "parsecmd ?b = Some (Inr (pc, nulterminate pc ?b))"
    using pc(1) unfolding parsecmd_def Let_def es parseline_def by (cases "peek ?b ?es p []") simp
  have "map_cmd (cstr (nulterminate pc ?b)) pc = map_cmd (piece ?b) pc"
    by (rule cmd.map_cong [OF refl]) (rule cstr_nulterminate [OF e sp])
  then show ?thesis using run pc(3) by auto
qed

theorem parsecmd_show_witness:
  "\<exists>pc b'. parsecmd (''( ls -l < f & ) | wc > out '' @ [NUL]) = Some (Inr (pc, b')) \<and>
    map_cmd (cstr b') pc =
      Pipecmd (Backcmd (Redircmd (Execcmd [''ls'', ''-l'']) ''f'' O_RDONLY 0))
        (Redircmd (Execcmd [''wc'']) ''out'' (O_WRONLY OR O_CREATE OR O_TRUNC) 1)"
proof -
  let ?c = "Pipecmd (Backcmd (Redircmd (Execcmd [''ls'', ''-l'']) ''f'' O_RDONLY 0))
        (Redircmd (Execcmd [''wc'']) ''out'' (O_WRONLY OR O_CREATE OR O_TRUNC) 1)"
  have "cmd_ok ?c" by (simp add: redir_ok_def MAXARGS_def)
  moreover have "\<forall>w\<in>set_cmd ?c. word_ok w" by (simp add: word_ok_def wordchar_def whitespace_def symbols_def)
  moreover have "show_cmd ?c = ''( ls -l < f & ) | wc > out ''" by code_simp
  ultimately show ?thesis using parsecmd_show [of ?c "[]"] by simp
qed

end
