(* ===== verification/Umalloc.thy ===== *)
theory Umalloc
  imports Prelude
begin

text \<open>
  The allocator of user programs (\<open>user/umalloc.c\<close>). A pointer is a byte address, the size of \<open>Header\<close> is 16 and pointer
  arithmetic on headers counts in these. The memory is seen at the headers only: \<open>hdr st p\<close> is the header at \<open>p\<close>; the program may write
  anything into the bytes behind the header of a block that it owns. \<open>sbrk\<close> is a system call and an argument: it maps the number
  of bytes and the end of the memory to the address returned and the new end.
\<close>

section \<open>The code\<close>

record Header =
  s_ptr :: nat
  s_size :: uint

record uheap =
  hdr :: "nat \<Rightarrow> Header"
  freep :: nat
  brk :: nat

type_synonym sbrk = "int \<Rightarrow> nat \<Rightarrow> nat \<times> nat"

definition units :: "uint \<Rightarrow> nat" where
  "units n = unat n * 16"

partial_function (option) free_find :: "(nat \<Rightarrow> Header) \<Rightarrow> nat \<Rightarrow> nat \<Rightarrow> nat option" where
  [code]: "free_find h bp p =
     (let n = s_ptr (h p)
      in if bp > p \<and> bp < n then Some p
         else if p \<ge> n \<and> (bp > p \<or> bp < n) then Some p
         else free_find h bp n)"

definition free :: "nat \<Rightarrow> uheap \<Rightarrow> uheap option" where
  "free ap st =
     (let bp = ap - 16
      in map_option (\<lambda>p.
           let h = hdr st;
               n = s_ptr (h p);
               h = (if bp + units (s_size (h bp)) = n
                    then let h = h(bp := (h bp)\<lparr>s_size := s_size (h bp) + s_size (h n)\<rparr>) in h(bp := (h bp)\<lparr>s_ptr := s_ptr (h n)\<rparr>)
                    else h(bp := (h bp)\<lparr>s_ptr := n\<rparr>));
               h = (if p + units (s_size (h p)) = bp
                    then let h = h(p := (h p)\<lparr>s_size := s_size (h p) + s_size (h bp)\<rparr>) in h(p := (h p)\<lparr>s_ptr := s_ptr (h bp)\<rparr>)
                    else h(p := (h p)\<lparr>s_ptr := bp\<rparr>))
           in st\<lparr>hdr := h, freep := p\<rparr>)
         (free_find (hdr st) bp (freep st)))"

text \<open>The argument of \<open>sbrk\<close> is an \<open>int\<close>, so the number of bytes is truncated to 32 bits. \<open>(char * )-1\<close> is the largest address.\<close>

definition morecore :: "sbrk \<Rightarrow> uint \<Rightarrow> uheap \<Rightarrow> (nat \<times> uheap) option" where
  "morecore sbrk nu st =
     (let nu = (if nu < 4096 then 4096 else nu);
          (p, b) = sbrk (sint (word_of_nat (units nu) :: 32 word)) (brk st);
          st = st\<lparr>brk := b\<rparr>
      in if p = 2 ^ 64 - 1 then Some (0, st)
         else map_option (\<lambda>st. (freep st, st)) (free (p + 16) (st\<lparr>hdr := (hdr st)(p := (hdr st p)\<lparr>s_size := nu\<rparr>)\<rparr>)))"

definition take_block :: "uint \<Rightarrow> nat \<Rightarrow> nat \<Rightarrow> uheap \<Rightarrow> nat \<times> uheap" where
  "take_block nunits prevp p st =
     (let h = hdr st;
          (p, h) =
            (if s_size (h p) = nunits then (p, h(prevp := (h prevp)\<lparr>s_ptr := s_ptr (h p)\<rparr>))
             else let h = h(p := (h p)\<lparr>s_size := s_size (h p) - nunits\<rparr>);
                      p = p + units (s_size (h p))
                  in (p, h(p := (h p)\<lparr>s_size := nunits\<rparr>)))
      in (p + 16, st\<lparr>hdr := h, freep := prevp\<rparr>))"

partial_function (option) malloc_loop :: "sbrk \<Rightarrow> uint \<Rightarrow> nat \<Rightarrow> nat \<Rightarrow> uheap \<Rightarrow> (nat \<times> uheap) option" where
  [code]: "malloc_loop sbrk nunits prevp p st =
     (if s_size (hdr st p) \<ge> nunits then Some (take_block nunits prevp p st)
      else if p = freep st
           then Option.bind (morecore sbrk nunits st) (\<lambda>(p, st).
                if p = 0 then Some (0, st) else malloc_loop sbrk nunits p (s_ptr (hdr st p)) st)
           else malloc_loop sbrk nunits p (s_ptr (hdr st p)) st)"

definition malloc :: "sbrk \<Rightarrow> nat \<Rightarrow> uint \<Rightarrow> uheap \<Rightarrow> (nat \<times> uheap) option" where
  "malloc sbrk base nbytes st =
     (let nunits = word_of_nat ((unat nbytes + 16 - 1) div 16 + 1);
          st = (if freep st = 0 then st\<lparr>hdr := (hdr st)(base := \<lparr>s_ptr = base, s_size = 0\<rparr>), freep := base\<rparr> else st)
      in malloc_loop sbrk nunits (freep st) (s_ptr (hdr st (freep st))) st)"

end
