(* ===== verification/Umalloc_Ring.thy ===== *)
theory Umalloc_Ring
  imports Umalloc
begin

text \<open>
  The free list of \<open>user/umalloc.c\<close> is a ring through the free blocks in the order of their addresses, which \<open>base\<close>, below them all,
  closes. This theory has the order: the successor on the ring, insertion and removal of nodes, the arc from one node to another,
  and where the search of \<open>free\<close> ends.
\<close>

section \<open>Successors\<close>

definition succ :: "nat \<Rightarrow> nat set \<Rightarrow> nat \<Rightarrow> nat" where
  "succ base F p = (if \<exists>q\<in>F. p < q then Min {q \<in> F. p < q} else base)"

definition free_ring :: "nat \<Rightarrow> nat set \<Rightarrow> (nat \<Rightarrow> nat) \<Rightarrow> bool" where
  "free_ring base F nx \<longleftrightarrow> finite F \<and> (\<forall>b\<in>F. base < b) \<and> (\<forall>p\<in>insert base F. nx p = succ base F p)"

text \<open>\<open>p\<close> is the last node below \<open>b\<close>.\<close>

definition pred :: "nat \<Rightarrow> nat set \<Rightarrow> nat \<Rightarrow> nat \<Rightarrow> bool" where
  "pred base F b p \<longleftrightarrow> p \<in> insert base F \<and> p < b \<and> (\<forall>r\<in>F. p < r \<longrightarrow> b < r)"

lemma succ_up:
  assumes "finite F" "q \<in> F" "p < q"
  shows "succ base F p \<in> F" "p < succ base F p" "succ base F p \<le> q"
proof -
  have s: "succ base F p = Min {q \<in> F. p < q}" using assms by (auto simp: succ_def)
  have "Min {q \<in> F. p < q} \<in> {q \<in> F. p < q}" by (rule Min_in) (use assms in auto)
  then show "succ base F p \<in> F" "p < succ base F p" using s by auto
  show "succ base F p \<le> q" unfolding s by (rule Min_le) (use assms in auto)
qed

lemma succ_last: "(\<And>q. q \<in> F \<Longrightarrow> q \<le> p) \<Longrightarrow> succ base F p = base"
  by (force simp: succ_def)

lemma succ_eqI:
  assumes "finite F" "q \<in> F" "p < q" "\<And>r. r \<in> F \<Longrightarrow> p < r \<Longrightarrow> q \<le> r"
  shows "succ base F p = q"
proof -
  have "q \<le> succ base F p" by (rule assms(4) [OF succ_up(1,2) [OF assms(1-3)]])
  then show ?thesis using succ_up(3) [OF assms(1-3), of base] by simp
qed

lemma succ_cong: "{r \<in> F. p < r} = {r \<in> G. q < r} \<Longrightarrow> succ base F p = succ base G q"
  unfolding succ_def by (metis (mono_tags, lifting) mem_Collect_eq)

lemma ringD:
  assumes "free_ring base F nx" "p \<in> insert base F"
  shows "nx p \<in> insert base F" "\<And>r. r \<in> F \<Longrightarrow> p < r \<Longrightarrow> nx p \<in> F \<and> p < nx p \<and> nx p \<le> r"
    "nx p \<le> p \<Longrightarrow> nx p = base \<and> (\<forall>r\<in>F. r \<le> p)"
proof -
  have F: "finite F" and n: "nx p = succ base F p" and b: "\<And>b. b \<in> F \<Longrightarrow> base < b" using assms by (auto simp: free_ring_def)
  show u: "\<And>r. r \<in> F \<Longrightarrow> p < r \<Longrightarrow> nx p \<in> F \<and> p < nx p \<and> nx p \<le> r" using succ_up [OF F] n by auto
  show "nx p \<in> insert base F" using u succ_last [of F p base] n by (cases "\<exists>r\<in>F. p < r") (auto simp: not_less)
  assume "nx p \<le> p"
  then have l: "\<forall>r\<in>F. r \<le> p" using u by (meson not_less)
  then show "nx p = base \<and> (\<forall>r\<in>F. r \<le> p)" using succ_last [of F p base] n by auto
qed

lemma ring_cong: "free_ring base F nx \<Longrightarrow> (\<And>p. p \<in> insert base F \<Longrightarrow> nx' p = nx p) \<Longrightarrow> free_ring base F nx'"
  by (auto simp: free_ring_def)

lemma succ_insert:
  assumes F: "finite F" "\<And>r. r \<in> F \<Longrightarrow> base < r" and p: "pred base F b p"
  shows "succ base (insert b F) p = b" "succ base (insert b F) b = succ base F p"
    "\<And>q. q \<in> insert base F \<Longrightarrow> q \<noteq> p \<Longrightarrow> succ base (insert b F) q = succ base F q"
proof -
  have pr: "p \<in> insert base F" "p < b" "\<And>r. r \<in> F \<Longrightarrow> p < r \<Longrightarrow> b < r" using p by (auto simp: pred_def)
  show "succ base (insert b F) p = b" by (rule succ_eqI) (use F pr in \<open>auto dest: less_imp_le\<close>)
  show "succ base (insert b F) b = succ base F p" by (rule succ_cong) (use pr in force)
  fix q assume q: "q \<in> insert base F" "q \<noteq> p"
  show "succ base (insert b F) q = succ base F q"
  proof (cases "q < p")
    case True
    then have pf: "p \<in> F" using pr(1) q(1) F(2) by force
    note u = succ_up [OF F(1) pf True, of base]
    have le: "succ base F q \<le> r" if "r \<in> insert b F" "q < r" for r using that u(3) pr(2) succ_up(3) [OF F(1), of r q base] by auto
    show ?thesis by (rule succ_eqI) (use u F le in auto)
  next
    case False
    then have "p < q" using q(2) by simp
    then have "q \<in> F" using q(1) pr(1) F(2) by force
    then have "b < q" using pr(3) \<open>p < q\<close> by simp
    then show ?thesis by (intro succ_cong) auto
  qed
qed

lemma ring_insert:
  assumes r: "free_ring base F nx" and p: "pred base F b p"
  shows "free_ring base (insert b F) (nx(b := nx p, p := b))"
proof -
  have F: "finite F" "\<And>r. r \<in> F \<Longrightarrow> base < r" and n: "\<And>q. q \<in> insert base F \<Longrightarrow> nx q = succ base F q" using r by (auto simp: free_ring_def)
  have pb: "p \<in> insert base F" "p < b" "base < b" using p F(2) by (force simp: pred_def)+
  note s = succ_insert [OF F p]
  have "(nx(b := nx p, p := b)) q = succ base (insert b F) q" if "q \<in> insert base (insert b F)" for q
    using s n that pb by (cases "q = p"; cases "q = b") auto
  then show ?thesis using F pb unfolding free_ring_def by auto
qed

lemma ring_remove:
  assumes r: "free_ring base F nx" and p: "p \<in> insert base F" "nx p = q" "q \<in> F"
  shows "free_ring base (F - {q}) (nx(p := nx q))" "p < q" "pred base (F - {q}) q p"
proof -
  have F: "finite F" "\<And>r. r \<in> F \<Longrightarrow> base < r" and n: "\<And>q. q \<in> insert base F \<Longrightarrow> nx q = succ base F q" using r by (auto simp: free_ring_def)
  show pq: "p < q" using ringD(3) [OF r p(1)] p F(2) by force
  have le: "q \<le> r" if "r \<in> F" "p < r" for r using ringD(2) [OF r p(1) that] p(2) by simp
  have i: "insert q (F - {q}) = F" using p(3) by auto
  show pr: "pred base (F - {q}) q p" using p(1) pq le unfolding pred_def by force
  note s = succ_insert [OF _ _ pr, unfolded i]
  have "(nx(p := nx q)) x = succ base (F - {q}) x" if "x \<in> insert base (F - {q})" for x
    using s(2,3) n that F p by (cases "x = p") auto
  then show "free_ring base (F - {q}) (nx(p := nx q))" using F unfolding free_ring_def by auto
qed

section \<open>Walking along the ring\<close>

definition arc :: "nat \<Rightarrow> nat set \<Rightarrow> nat \<Rightarrow> nat \<Rightarrow> nat set" where
  "arc base F p f = {q \<in> insert base F. if p \<le> f then p \<le> q \<and> q \<le> f else p \<le> q \<or> q \<le> f}"

lemma arc_step:
  assumes r: "free_ring base F nx" and p: "p \<in> insert base F" "f \<in> insert base F" "p \<noteq> f"
  shows "arc base F p f = insert p (arc base F (nx p) f)" "p \<notin> arc base F (nx p) f"
proof -
  have b: "\<And>b. b \<in> F \<Longrightarrow> base < b" using r by (simp add: free_ring_def)
  have ge: "base \<le> q" if "q \<in> insert base F" for q using that b by (auto dest: less_imp_le)
  consider "\<exists>r\<in>F. p < r" | "\<forall>r\<in>F. r \<le> p" by (meson not_less)
  then have "arc base F p f = insert p (arc base F (nx p) f) \<and> p \<notin> arc base F (nx p) f"
  proof cases
    case 1
    then obtain r0 where r0: "r0 \<in> F" "p < r0" by blast
    have u: "p < nx p" using ringD(2) [OF r p(1) r0] by simp
    have le: "nx p \<le> q" if "q \<in> insert base F" "p < q" for q using ringD(2) [OF r p(1)] that p(1) b ge by fastforce
    have iff: "p \<le> q \<longleftrightarrow> q = p \<or> nx p \<le> q" if "q \<in> insert base F" for q using le [OF that] u by (cases "p < q") auto
    show ?thesis
    proof (cases "p < f")
      case True
      then show ?thesis using iff p u le [OF p(2)] by (auto simp: arc_def)
    next
      case False
      then show ?thesis using iff p u by (auto simp: arc_def)
    qed
  next
    case 2
    then have l: "q \<le> p" if "q \<in> insert base F" for q using that ge [OF p(1)] by auto
    have n: "nx p = base" using r p(1) succ_last [of F p base] 2 by (auto simp: free_ring_def)
    show ?thesis using l ge p l [OF p(2)] unfolding arc_def n by force
  qed
  then show "arc base F p f = insert p (arc base F (nx p) f)" "p \<notin> arc base F (nx p) f" by auto
qed

lemma arc_all:
  assumes r: "free_ring base F nx" and f: "f \<in> insert base F"
  shows "arc base F (nx f) f = insert base F"
proof -
  have b: "\<And>b. b \<in> F \<Longrightarrow> base < b" using r by (simp add: free_ring_def)
  have ge: "base \<le> q" if "q \<in> insert base F" for q using that b by (auto dest: less_imp_le)
  show ?thesis
  proof (cases "nx f \<le> f")
    case True
    then show ?thesis using ringD(3) [OF r f True] ge [OF f] ge by (auto simp: arc_def)
  next
    case False
    then have "nx f \<le> q" if "q \<in> insert base F" "f < q" for q using ringD(2) [OF r f] that ge [OF f] by fastforce
    then show ?thesis using False unfolding arc_def by force
  qed
qed

lemma finite_arc: "finite F \<Longrightarrow> finite (arc base F p f)"
  by (simp add: arc_def)

lemma free_find_pred:
  assumes r: "free_ring base F (\<lambda>p. s_ptr (h p))" and b: "base < bp" "bp \<notin> F" and p: "p \<in> insert base F"
  shows "\<exists>q. free_find h bp p = Some q \<and> pred base F bp q"
  using p
proof (induction "if p < bp then card {q \<in> F. p < q} else card F + 1 + card {q \<in> F. p < q}" arbitrary: p rule: less_induct)
  case less
  let ?n = "s_ptr (h p)"
  have F: "finite F" "\<And>b. b \<in> F \<Longrightarrow> base < b" using r by (simp_all add: free_ring_def)
  note d = ringD [OF r less.prems]
  have pb: "p \<noteq> bp" using less.prems b by auto
  note step = free_find.simps [of h bp p, unfolded Let_def]
  have smaller: "card {q \<in> F. ?n < q} < card {q \<in> F. p < q}" if "p < ?n"
  proof (rule psubset_card_mono)
    show "{q \<in> F. ?n < q} \<subset> {q \<in> F. p < q}" using that d(1) F(2) less.prems by force
  qed (use F in simp)
  have le: "card {q \<in> F. base < q} \<le> card F" by (rule card_mono) (use F in auto)
  show ?case
  proof (cases "bp > p \<and> bp < ?n \<or> p \<ge> ?n \<and> (bp > p \<or> bp < ?n)")
    case True
    then have s: "free_find h bp p = Some p" by (subst step) auto
    have "p < bp" using True d(3) b(1) by auto
    moreover have "bp < r" if "r \<in> F" "p < r" for r using True d(2) [OF that] that by auto
    ultimately show ?thesis using s less.prems by (auto simp: pred_def)
  next
    case False
    then have s: "free_find h bp p = free_find h bp ?n" by (subst step) auto
    show ?thesis
    proof (cases "p < bp")
      case True
      then have "p < ?n" "?n \<le> bp" using False by auto
      moreover have "?n \<noteq> bp" using d(1) b by auto
      ultimately have n: "p < ?n" "?n < bp" by simp_all
      show ?thesis unfolding s by (rule less.hyps) (use n True smaller d(1) in auto)
    next
      case nb: False
      show ?thesis
      proof (cases "p < ?n")
        case True
        then show ?thesis unfolding s by (intro less.hyps) (use nb smaller d(1) in auto)
      next
        case False
        then have "?n = base" using d(3) by simp
        then show ?thesis unfolding s by (intro less.hyps) (use nb b le in auto)
      qed
    qed
  qed
qed

end
