(* ===== verification/Umalloc_Safe.thy ===== *)
theory Umalloc_Safe
  imports Umalloc_Ring
begin

text \<open>
  Safety of the allocator of user programs (\<open>user/umalloc.c\<close>): blocks in use and free blocks never overlap, neighbouring free blocks are
  merged, no memory is lost, and both calls always return.
\<close>

section \<open>The layout of the heap\<close>

text \<open>
  \<open>F\<close> are the headers of the free blocks, \<open>A\<close> those of the blocks in use, \<open>sz b\<close> the bytes of block \<open>b\<close> and \<open>lim\<close> the end of
  the memory.
\<close>

definition apart :: "nat set \<Rightarrow> (nat \<Rightarrow> nat) \<Rightarrow> bool" where
  "apart S sz \<longleftrightarrow> (\<forall>a\<in>S. \<forall>b\<in>S. a < b \<longrightarrow> a + sz a \<le> b)"

definition within :: "nat \<Rightarrow> nat \<Rightarrow> nat set \<Rightarrow> (nat \<Rightarrow> nat) \<Rightarrow> bool" where
  "within base lim S sz \<longleftrightarrow> (\<forall>b\<in>S. base + 16 \<le> b \<and> 0 < sz b \<and> b + sz b \<le> lim)"

text \<open>Free blocks that have another right behind them.\<close>

definition adj :: "nat set \<Rightarrow> (nat \<Rightarrow> nat) \<Rightarrow> nat set" where
  "adj F sz = {a \<in> F. a + sz a \<in> F}"

definition bytes_of :: "nat set \<Rightarrow> (nat \<Rightarrow> nat) \<Rightarrow> nat set" where
  "bytes_of S sz = (\<Union>b\<in>S. {b..<b + sz b})"

lemma withinD: "within base lim S sz \<Longrightarrow> b \<in> S \<Longrightarrow> base < b \<and> 0 < sz b \<and> b + sz b \<le> lim"
  by (force simp: within_def)

lemma apartD: "apart S sz \<Longrightarrow> a \<in> S \<Longrightarrow> b \<in> S \<Longrightarrow> a < b \<Longrightarrow> a + sz a \<le> b"
  by (simp add: apart_def)

lemma layout_cong:
  assumes "\<And>b. b \<in> S \<Longrightarrow> sz' b = sz b"
  shows "apart S sz' = apart S sz" "within base lim S sz' = within base lim S sz" "adj S sz' = adj S sz" "bytes_of S sz' = bytes_of S sz"
  using assms by (auto simp: apart_def within_def adj_def bytes_of_def)

text \<open>Joining a block with the one right behind it.\<close>

lemma layout_join:
  assumes ap: "apart S sz" and wi: "within base lim S sz" and a: "a \<in> S" "c \<in> S" "a + sz a = c"
  shows "apart (S - {c}) (sz(a := sz a + sz c))" "within base lim (S - {c}) (sz(a := sz a + sz c))"
    "bytes_of (S - {c}) (sz(a := sz a + sz c)) = bytes_of S sz"
proof -
  have pos: "0 < sz a" "0 < sz c" "c + sz c \<le> lim" using wi a by (auto simp: within_def)
  have ac: "a < c" "a \<noteq> c" using a(3) pos by auto
  have "x + (sz(a := sz a + sz c)) x \<le> y" if "x \<in> S - {c}" "y \<in> S - {c}" "x < y" for x y
  proof (cases "x = a")
    case True
    then have "c \<le> y" using apartD [OF ap a(1)] that a(3) by auto
    then have "c + sz c \<le> y" using apartD [OF ap a(2), of y] that by auto
    then show ?thesis using True a(3) by simp
  qed (use apartD [OF ap] that in auto)
  then show "apart (S - {c}) (sz(a := sz a + sz c))" by (simp add: apart_def)
  show "within base lim (S - {c}) (sz(a := sz a + sz c))" using wi a pos ac by (auto simp: within_def)
  have "{a..<a + (sz a + sz c)} = {a..<a + sz a} \<union> {c..<c + sz c}" using a(3) by auto
  moreover have "S = insert a (insert c (S - {a, c}))" "S - {c} = insert a (S - {a, c})" using a ac by auto
  ultimately show "bytes_of (S - {c}) (sz(a := sz a + sz c)) = bytes_of S sz"
    unfolding bytes_of_def by (smt (verit) Diff_iff SUP_cong UN_insert Un_assoc fun_upd_apply insert_iff)
qed

text \<open>Splitting a block.\<close>

lemma layout_split:
  assumes ap: "apart S sz" and wi: "within base lim S sz" and a: "a \<in> S" "0 < m" "m < sz a" and c: "c = a + m"
  shows "c \<notin> S" "apart (insert c S) (sz(a := m, c := sz a - m))" "within base lim (insert c S) (sz(a := m, c := sz a - m))"
    "bytes_of (insert c S) (sz(a := m, c := sz a - m)) = bytes_of S sz"
proof -
  let ?sz = "sz(a := m, c := sz a - m)"
  have ac: "a < c" "a \<noteq> c" using a c by auto
  show cS: "c \<notin> S" using apartD [OF ap a(1), of c] ac a c by auto
  have up: "c + (sz a - m) \<le> y" if "y \<in> S" "a < y" for y using apartD [OF ap a(1) that] c a by simp
  have dn: "x + sz x \<le> a" if "x \<in> S" "x < a" for x using apartD [OF ap that(1) a(1) that(2)] .
  have "x + ?sz x \<le> y" if x: "x \<in> insert c S" and y: "y \<in> insert c S" and xy: "x < y" for x y
  proof -
    consider "x = c" | "x = a" | "x \<in> S" "x \<noteq> a" "x \<noteq> c" using x by auto
    then show ?thesis
    proof cases
      case 1
      then have "y \<in> S" "a < y" using y xy ac by auto
      then show ?thesis using 1 up by simp
    next
      case 2
      then have "c \<le> y" using y xy up [of y] by auto
      then show ?thesis using 2 ac c by simp
    next
      case 3
      then show ?thesis using y xy dn [of x] ac apartD [OF ap 3(1), of y] up [of x] by (cases "y = c") force+
    qed
  qed
  then show "apart (insert c S) ?sz" by (simp add: apart_def)
  show "within base lim (insert c S) ?sz" using wi a ac c by (force simp: within_def)
  have "{a..<a + sz a} = {a..<a + m} \<union> {c..<c + (sz a - m)}" using a c by auto
  moreover have "S = insert a (S - {a})" "insert c S = insert a (insert c (S - {a}))" using a by auto
  moreover have "\<And>x. x \<in> S - {a} \<Longrightarrow> ?sz x = sz x" using cS by auto
  ultimately show "bytes_of (insert c S) ?sz = bytes_of S sz"
    unfolding bytes_of_def using ac by (smt (verit) SUP_cong UN_insert Un_assoc fun_upd_apply)
qed


definition blocks_ok :: "nat \<Rightarrow> nat \<Rightarrow> nat set \<Rightarrow> nat set \<Rightarrow> (nat \<Rightarrow> nat) \<Rightarrow> (nat \<Rightarrow> nat) \<Rightarrow> bool" where
  "blocks_ok base lim F A nx sz \<longleftrightarrow>
     free_ring base F nx \<and> finite A \<and> F \<inter> A = {} \<and> apart (F \<union> A) sz \<and> within base lim (F \<union> A) sz"

lemma blocks_cong:
  assumes "blocks_ok base lim F A nx sz" "\<And>p. p \<in> insert base F \<Longrightarrow> nx' p = nx p" "\<And>b. b \<in> F \<union> A \<Longrightarrow> sz' b = sz b"
  shows "blocks_ok base lim F A nx' sz'"
  using assms ring_cong [of base F nx nx'] layout_cong(1,2) [of "F \<union> A" sz' sz] by (simp add: blocks_ok_def)

lemma blocks_free:
  assumes "blocks_ok base lim F A nx sz" "b \<in> A" "pred base F b p"
  shows "blocks_ok base lim (insert b F) (A - {b}) (nx(b := nx p, p := b)) sz"
proof -
  have "insert b F \<union> (A - {b}) = F \<union> A" "insert b F \<inter> (A - {b}) = {}" using assms(1,2) by (auto simp: blocks_ok_def)
  then show ?thesis using assms ring_insert [of base F nx b p] by (simp add: blocks_ok_def)
qed

lemma blocks_join:
  assumes ok: "blocks_ok base lim F A nx sz" and a: "a \<in> F" "nx a = c" "c \<in> F" "a + sz a = c"
  shows "blocks_ok base lim (F - {c}) A (nx(a := nx c)) (sz(a := sz a + sz c))"
    "bytes_of ((F - {c}) \<union> A) (sz(a := sz a + sz c)) = bytes_of (F \<union> A) sz"
    "c \<notin> adj F sz \<Longrightarrow> adj (F - {c}) (sz(a := sz a + sz c)) \<subseteq> adj F sz - {a}"
proof -
  have e: "(F - {c}) \<union> A = F \<union> A - {c}" "(F - {c}) \<inter> A = {}" using ok a by (auto simp: blocks_ok_def)
  note j = layout_join [of "F \<union> A" sz base lim a c]
  show "blocks_ok base lim (F - {c}) A (nx(a := nx c)) (sz(a := sz a + sz c))"
    using ok a ring_remove(1) [of base F nx a c] j e by (auto simp: blocks_ok_def)
  show "bytes_of ((F - {c}) \<union> A) (sz(a := sz a + sz c)) = bytes_of (F \<union> A) sz"
    unfolding e by (rule j(3)) (use ok a in \<open>auto simp: blocks_ok_def\<close>)
  show "c \<notin> adj F sz \<Longrightarrow> adj (F - {c}) (sz(a := sz a + sz c)) \<subseteq> adj F sz - {a}" using a by (auto simp: adj_def add.assoc [symmetric])
qed

lemma adj_insert:
  assumes ok: "blocks_ok base lim F A nx sz" and b: "b \<in> A" "pred base F b p" and m: "adj F sz = {}"
  shows "adj (insert b F) sz \<subseteq> {p, b}" "b \<in> adj (insert b F) sz \<Longrightarrow> nx p \<in> F \<and> b + sz b = nx p" 
    "p \<in> adj (insert b F) sz \<Longrightarrow> p \<in> F \<and> p + sz p = b"
proof -
  have ap: "apart (F \<union> A) sz" and wi: "within base lim (F \<union> A) sz" and r: "free_ring base F nx" and bF: "b \<notin> F" using ok b by (auto simp: blocks_ok_def)
  have p: "p \<in> insert base F" "p < b" "\<And>r. r \<in> F \<Longrightarrow> p < r \<Longrightarrow> b < r" using b(2) by (auto simp: pred_def)
  have pos: "0 < sz x" "base < x" if "x \<in> F \<union> A" for x using withinD [OF wi that] by auto
  have only: "x = p \<and> p \<in> F \<and> p + sz p = b" if x: "x \<in> F" "x + sz x \<in> insert b F" for x
  proof -
    have e: "x + sz x = b" using m x by (auto simp: adj_def)
    then have "x < b" using pos [of x] x by simp
    then have "x \<le> p" using p(3) [of x] x(1) by (meson not_less not_less_iff_gr_or_eq)
    moreover have "\<not> x < p"
    proof
      assume "x < p"
      then have "p \<in> F" using p(1) pos(2) [of x] x by auto
      then have "x + sz x \<le> p" using apartD [OF ap] x \<open>x < p\<close> by simp
      then show False using e p(2) by simp
    qed
    ultimately have "x = p" by simp
    then show ?thesis using e x by simp
  qed
  then show "adj (insert b F) sz \<subseteq> {p, b}" by (auto simp: adj_def)
  show "p \<in> adj (insert b F) sz \<Longrightarrow> p \<in> F \<and> p + sz p = b" using only p(2) by (auto simp: adj_def)
  assume "b \<in> adj (insert b F) sz"
  then have y: "b + sz b \<in> F" using pos(1) [of b] b(1) by (auto simp: adj_def)
  then have n: "nx p \<in> F" "p < nx p" "nx p \<le> b + sz b" using ringD(2) [OF r p(1) y] p(2) by auto
  have "b < nx p" by (rule p(3)) (use n in simp_all)
  then have "b + sz b \<le> nx p" using apartD [OF ap, of b "nx p"] b(1) n by simp
  then show "nx p \<in> F \<and> b + sz b = nx p" using n by simp
qed

section \<open>Freeing\<close>

definition bsz :: "uheap \<Rightarrow> nat \<Rightarrow> nat" where
  "bsz st b = units (s_size (hdr st b))"

definition heap_inv :: "nat \<Rightarrow> nat set \<Rightarrow> nat set \<Rightarrow> uheap \<Rightarrow> bool" where
  "heap_inv base F A st \<longleftrightarrow> blocks_ok base (brk st) F A (\<lambda>p. s_ptr (hdr st p)) (bsz st) \<and> adj F (bsz st) = {} \<and> freep st \<in> insert base F \<and>
     0 < base \<and> s_size (hdr st base) = 0 \<and> base + 16 \<le> brk st \<and> brk st \<le> 2 ^ 36"

lemma units_add:
  assumes "units x + units y < 2 ^ 36"
  shows "units (x + y) = units x + units y"
proof -
  have "unat x + unat y < 2 ^ LENGTH(32)" using assms by (simp add: units_def)
  then have "unat (x + y) = unat x + unat y" by (rule unat_add_lem [THEN iffD1])
  then show ?thesis by (simp add: units_def)
qed

text \<open>The two tests of \<open>free\<close>, for a block \<open>b\<close> that is inserted behind \<open>p\<close>.\<close>

lemma merge_next:
  assumes ok: "blocks_ok base lim F A nx sz" and b: "b \<in> A" "pred base F b p" and m: "adj F sz = {}" and N: "N \<longleftrightarrow> b + sz b = nx p"
    and F1: "F1 = (if N then insert b F - {nx p} else insert b F)"
    and nx1: "nx1 = (if N then nx(p := b, b := nx (nx p)) else nx(b := nx p, p := b))"
    and sz1: "sz1 = (if N then sz(b := sz b + sz (nx p)) else sz)"
  shows "blocks_ok base lim F1 (A - {b}) nx1 sz1" "bytes_of (F1 \<union> (A - {b})) sz1 = bytes_of (F \<union> A) sz" "adj F1 sz1 \<subseteq> {p}"
    "p \<in> adj F1 sz1 \<Longrightarrow> p + sz p = b" "b \<in> F1" "p \<in> insert base F1" "nx1 p = b" "sz1 p = sz p" "sz b \<le> sz1 b" "N \<Longrightarrow> nx p \<in> F \<and> nx p \<noteq> p \<and> nx p \<noteq> b"
proof -
  have r: "free_ring base F nx" and bF: "b \<notin> F" and wi: "within base lim (F \<union> A) sz" using ok b by (auto simp: blocks_ok_def)
  have p: "p \<in> insert base F" "p < b" "p \<noteq> b" using b(2) by (auto simp: pred_def)
  note pos = withinD [OF wi, of b]
  show n: "N \<Longrightarrow> nx p \<in> F \<and> nx p \<noteq> p \<and> nx p \<noteq> b" using N ringD(1) [OF r p(1)] pos b(1) p by auto
  have un: "insert b F \<union> (A - {b}) = F \<union> A" using b by auto
  note f = blocks_free [OF ok b]
  note ai = adj_insert [OF ok b m]
  note j = blocks_join [OF f, of b "nx p"]
  have "blocks_ok base lim F1 (A - {b}) nx1 sz1 \<and> bytes_of (F1 \<union> (A - {b})) sz1 = bytes_of (F \<union> A) sz \<and> adj F1 sz1 \<subseteq> {p}"
  proof (cases N)
    case True
    have "nx p \<notin> adj (insert b F) sz" using ai(1) n True by auto
    moreover have e: "(nx(b := nx p, p := b))(b := (nx(b := nx p, p := b)) (nx p)) = nx1" using True n p by (auto simp: nx1)
    ultimately show ?thesis using True j n ai(1) p(3) un unfolding e by (auto simp: F1 sz1 N)
  next
    case False
    then have "b \<notin> adj (insert b F) sz" using ai(2) by (auto simp: N)
    then show ?thesis using False f ai(1) un by (auto simp: F1 nx1 sz1)
  qed
  then show "blocks_ok base lim F1 (A - {b}) nx1 sz1" "bytes_of (F1 \<union> (A - {b})) sz1 = bytes_of (F \<union> A) sz" "adj F1 sz1 \<subseteq> {p}" by auto
  show "b \<in> F1" "p \<in> insert base F1" "nx1 p = b" "sz1 p = sz p" "sz b \<le> sz1 b" using n p by (auto simp: F1 nx1 sz1)
  assume "p \<in> adj F1 sz1"
  then have "p \<in> adj (insert b F) sz" using p bF by (auto simp: adj_def F1 sz1 split: if_splits)
  then show "p + sz p = b" using ai(3) by simp
qed

lemma merge_prev:
  assumes ok: "blocks_ok base lim F A nx sz" and p: "b \<in> F" "p \<in> insert base F" "nx p = b" "p \<noteq> b" and P: "P \<longleftrightarrow> p + sz p = b" "P \<Longrightarrow> p \<noteq> base"
    and m: "adj F sz \<subseteq> {p}" "p \<in> adj F sz \<Longrightarrow> P"
    and F2: "F2 = (if P then F - {b} else F)"
    and nx2: "nx2 = (if P then nx(p := nx b) else nx)"
    and sz2: "sz2 = (if P then sz(p := sz p + sz b) else sz)"
  shows "blocks_ok base lim F2 A nx2 sz2" "bytes_of (F2 \<union> A) sz2 = bytes_of (F \<union> A) sz" "adj F2 sz2 = {}" "p \<in> insert base F2" "\<exists>q\<in>F2. sz b \<le> sz2 q"
proof -
  note j = blocks_join [OF ok, of p b]
  have bm: "b \<notin> adj F sz" using m(1) p(4) by auto
  have "blocks_ok base lim F2 A nx2 sz2 \<and> bytes_of (F2 \<union> A) sz2 = bytes_of (F \<union> A) sz \<and> adj F2 sz2 = {}"
  proof (cases P)
    case True
    then show ?thesis using j p P bm m(1) by (auto simp: F2 nx2 sz2)
  next
    case False
    then show ?thesis using ok m by (auto simp: F2 nx2 sz2)
  qed
  then show "blocks_ok base lim F2 A nx2 sz2" "bytes_of (F2 \<union> A) sz2 = bytes_of (F \<union> A) sz" "adj F2 sz2 = {}" by auto
  show "p \<in> insert base F2" using p by (auto simp: F2)
  show "\<exists>q\<in>F2. sz b \<le> sz2 q" using p P(2) by (cases P) (auto simp: F2 sz2 intro: bexI [of _ p] bexI [of _ b])
qed


lemma header_upd: "(x :: Header)\<lparr>s_size := k, s_ptr := p\<rparr> = \<lparr>s_ptr = p, s_size = k\<rparr>"
  by (cases x) simp

lemma free_unfold:
  assumes "free_find (hdr st) b (freep st) = Some p" "n = s_ptr (hdr st p)" "p \<noteq> b" "n \<noteq> b"
    and N: "N \<longleftrightarrow> b + bsz st b = n" and P: "P \<longleftrightarrow> p + bsz st p = b"
    and h1: "h1 = (if N then (hdr st)(b := \<lparr>s_ptr = s_ptr (hdr st n), s_size = s_size (hdr st b) + s_size (hdr st n)\<rparr>) else (hdr st)(b := (hdr st b)\<lparr>s_ptr := n\<rparr>))"
    and h2: "h2 = (if P then h1(p := \<lparr>s_ptr = s_ptr (h1 b), s_size = s_size (h1 p) + s_size (h1 b)\<rparr>) else h1(p := (h1 p)\<lparr>s_ptr := b\<rparr>))"
  shows "free (b + 16) st = Some (st\<lparr>hdr := h2, freep := p\<rparr>)"
proof -
  have n: "s_ptr (hdr st p) = n" using assms(2) by simp
  show ?thesis using assms(1,3,4) unfolding free_def h2 h1 N P bsz_def
    by (simp add: Let_def header_upd n)
qed

lemma free_block:
  assumes i: "heap_inv base F A st" and b: "b \<in> A"
  shows "\<exists>F' st'. free (b + 16) st = Some st' \<and> heap_inv base F' (A - {b}) st' \<and> bytes_of (F' \<union> (A - {b})) (bsz st') = bytes_of (F \<union> A) (bsz st) \<and>
    brk st' = brk st \<and> (\<forall>a\<in>A - {b}. hdr st' a = hdr st a) \<and> (\<exists>q\<in>F'. bsz st b \<le> bsz st' q)"
proof -
  let ?h = "hdr st" and ?sz = "bsz st" and ?nx = "\<lambda>p. s_ptr (hdr st p)" and ?A = "A - {b}"
  have ok: "blocks_ok base (brk st) F A ?nx ?sz" and m: "adj F ?sz = {}" and fp: "freep st \<in> insert base F" and z: "s_size (?h base) = 0" "0 < base"
    and lim: "base + 16 \<le> brk st" "brk st \<le> 2 ^ 36" using i by (auto simp: heap_inv_def)
  have r: "free_ring base F ?nx" and bF: "b \<notin> F" "F \<inter> A = {}" and wi: "within base (brk st) (F \<union> A) ?sz" using ok b by (auto simp: blocks_ok_def)
  have bb: "base < b" using withinD [OF wi, of b] b by simp
  have zb: "?sz base = 0" using z by (simp add: bsz_def units_def)
  obtain p where p: "free_find ?h b (freep st) = Some p" "pred base F b p" using free_find_pred [OF r bb bF(1) fp] by auto
  have pp: "p \<in> insert base F" "p < b" "p \<noteq> b" using p(2) by (auto simp: pred_def)
  define n where "n = ?nx p"
  have nb: "n \<noteq> b" using ringD(1) [OF r pp(1)] bF(1) bb by (auto simp: n_def)
  define N where "N \<longleftrightarrow> b + ?sz b = n"
  define P where "P \<longleftrightarrow> p + ?sz p = b"
  define h1 where "h1 = (if N then ?h(b := \<lparr>s_ptr = s_ptr (?h n), s_size = s_size (?h b) + s_size (?h n)\<rparr>) else ?h(b := (?h b)\<lparr>s_ptr := n\<rparr>))"
  define h2 where "h2 = (if P then h1(p := \<lparr>s_ptr = s_ptr (h1 b), s_size = s_size (h1 p) + s_size (h1 b)\<rparr>) else h1(p := (h1 p)\<lparr>s_ptr := b\<rparr>))"
  have run: "free (b + 16) st = Some (st\<lparr>hdr := h2, freep := p\<rparr>)"
    by (rule free_unfold [OF p(1) n_def pp(3) nb N_def P_def h1_def h2_def])
  define F1 where "F1 = (if N then insert b F - {n} else insert b F)"
  define nx1 where "nx1 = (if N then ?nx(p := b, b := ?nx n) else ?nx(b := n, p := b))"
  define sz1 where "sz1 = (if N then ?sz(b := ?sz b + ?sz n) else ?sz)"
  note s1 = merge_next [OF ok b p(2) m, folded n_def, OF N_def F1_def nx1_def sz1_def]
  define F2 where "F2 = (if P then F1 - {b} else F1)"
  define nx2 where "nx2 = (if P then nx1(p := nx1 b) else nx1)"
  define sz2 where "sz2 = (if P then sz1(p := sz1 p + sz1 b) else sz1)"
  have PP: "P \<longleftrightarrow> p + sz1 p = b" "P \<Longrightarrow> p \<noteq> base" "p \<in> adj F1 sz1 \<Longrightarrow> P" using s1(4,8) zb bb by (auto simp: P_def)
  note s2 = merge_prev [OF s1(1,5,6,7) pp(3) PP(1,2) s1(3) PP(3) F2_def nx2_def sz2_def]
  have small: "x + y < 2 ^ 36" if "q \<in> G" "within base (brk st) G zz" "zz q = x + y" for q x y G zz using withinD [OF that(2,1)] that(3) lim by simp
  have w1: "within base (brk st) (F1 \<union> ?A) sz1" "within base (brk st) (F2 \<union> ?A) sz2" using s1(1) s2(1) by (auto simp: blocks_ok_def)
  have u1: "units (s_size (h1 q)) = sz1 q" for q
    using small [OF _ w1(1), of b "?sz b" "?sz n"] s1(5) by (auto simp: h1_def sz1_def bsz_def units_add)
  have u2: "units (s_size (h2 q)) = sz2 q" for q
  proof (cases "P \<and> q = p")
    case True
    then have "p \<in> F2" using s2(4) PP(2) by auto
    then have "sz1 p + sz1 b < 2 ^ 36" using small [OF _ w1(2), of p "sz1 p" "sz1 b"] True by (auto simp: sz2_def)
    then show ?thesis using True by (auto simp: h2_def sz2_def u1 units_add)
  qed (auto simp: h2_def sz2_def u1)
  have n2: "s_ptr (h2 q) = nx2 q" for q using pp(3) by (auto simp: h2_def h1_def nx2_def nx1_def)
  have same: "h2 a = ?h a" if "a \<in> ?A" for a using that bF(2) pp(1,3) s1 withinD [OF wi, of a] by (auto simp: h2_def h1_def)
  have "p = base \<or> base \<noteq> p" "base \<noteq> b" using bb by auto
  then have z2: "s_size (h2 base) = 0" using z(1) PP(2) by (auto simp: h2_def h1_def)
  have bz: "bsz (st\<lparr>hdr := h2, freep := p\<rparr>) = sz2" by (rule ext) (simp add: bsz_def u2)
  show ?thesis
  proof (intro exI conjI, rule run)
    show "heap_inv base F2 ?A (st\<lparr>hdr := h2, freep := p\<rparr>)" using s2(1,3,4) z2 z(2) lim by (simp add: heap_inv_def bz n2)
  qed (use s1(2,9) s2(2,5) same bz in \<open>auto intro: order_trans\<close>)
qed


section \<open>Allocating\<close>

lemma units_sub: "y \<le> x \<Longrightarrow> units (x - y) = units x - units y"
  by (simp add: units_def unat_sub diff_mult_distrib)

lemma units_le [simp]: "units x \<le> units y \<longleftrightarrow> x \<le> y"
  by (simp add: units_def word_le_nat_alt)

lemma units_eq [simp]: "units x = units y \<longleftrightarrow> x = y"
  by (simp add: units_def word_unat_eq_iff)

lemma units_pos: "0 < units x \<longleftrightarrow> x \<noteq> 0"
  by (simp add: units_def unat_gt_0)

lemma take_exact:
  assumes i: "heap_inv base F A st" and q: "q \<in> F" "s_size (hdr st q) = nunits" and pr: "pr \<in> insert base F" "s_ptr (hdr st pr) = q"
    and st': "st' = st\<lparr>hdr := (hdr st)(pr := (hdr st pr)\<lparr>s_ptr := s_ptr (hdr st q)\<rparr>), freep := pr\<rparr>"
  shows "take_block nunits pr q st = (q + 16, st')" "q \<notin> A" "heap_inv base (F - {q}) (insert q A) st'" "bsz st' = bsz st" "(F - {q}) \<union> insert q A = F \<union> A"
    "\<forall>a\<in>A. hdr st' a = hdr st a"
proof -
  have ok: "blocks_ok base (brk st) F A (\<lambda>p. s_ptr (hdr st p)) (bsz st)" using i by (simp add: heap_inv_def)
  then have r: "free_ring base F (\<lambda>p. s_ptr (hdr st p))" and wi: "within base (brk st) (F \<union> A) (bsz st)" and d: "F \<inter> A = {}" by (simp_all add: blocks_ok_def)
  note rm = ring_remove [OF r pr q(1)]
  show "take_block nunits pr q st = (q + 16, st')" using q by (simp add: take_block_def st' Let_def)
  show qA: "q \<notin> A" and un: "(F - {q}) \<union> insert q A = F \<union> A" using q(1) d by auto
  show bz: "bsz st' = bsz st" by (rule ext) (simp add: st' bsz_def)
  have nx: "(\<lambda>p. s_ptr (hdr st' p)) = (\<lambda>p. s_ptr (hdr st p))(pr := s_ptr (hdr st q))" by (rule ext) (simp add: st')
  have "adj (F - {q}) (bsz st) \<subseteq> adj F (bsz st)" by (auto simp: adj_def)
  moreover have "(F - {q}) \<inter> insert q A = {}" "finite (insert q A)" using d ok by (auto simp: blocks_ok_def)
  ultimately show "heap_inv base (F - {q}) (insert q A) st'"
    using i ok rm pr(1) unfolding heap_inv_def blocks_ok_def nx bz un by (auto simp: st')
  show "\<forall>a\<in>A. hdr st' a = hdr st a" using pr(1) d withinD [OF wi] by (auto simp: st')
qed

lemma take_split:
  assumes i: "heap_inv base F A st" and q: "q \<in> F" "nunits < s_size (hdr st q)" "nunits \<noteq> 0" and pr: "pr \<in> insert base F"
    and c: "c = q + (bsz st q - units nunits)"
    and st': "st' = st\<lparr>hdr := (hdr st)(q := (hdr st q)\<lparr>s_size := s_size (hdr st q) - nunits\<rparr>, c := (hdr st c)\<lparr>s_size := nunits\<rparr>), freep := pr\<rparr>"
  shows "take_block nunits pr q st = (c + 16, st')" "c \<notin> A" "heap_inv base F (insert c A) st'" "bsz st' c = units nunits"
    "bytes_of (F \<union> insert c A) (bsz st') = bytes_of (F \<union> A) (bsz st)" "\<forall>a\<in>A. hdr st' a = hdr st a"
proof -
  have ok: "blocks_ok base (brk st) F A (\<lambda>p. s_ptr (hdr st p)) (bsz st)" using i by (simp add: heap_inv_def)
  then have r: "free_ring base F (\<lambda>p. s_ptr (hdr st p))" and ap: "apart (F \<union> A) (bsz st)" and wi: "within base (brk st) (F \<union> A) (bsz st)" and d: "F \<inter> A = {}"
    by (simp_all add: blocks_ok_def)
  have lt: "units nunits < bsz st q" using q(2) by (simp add: bsz_def units_def word_less_nat_alt)
  have m: "0 < bsz st q - units nunits" "bsz st q - units nunits < bsz st q" using lt units_pos [of nunits] q(3) by auto
  note sp = layout_split [OF ap wi _ m c]
  have qF: "q \<in> F \<union> A" using q(1) by simp
  have sub: "units (s_size (hdr st q) - nunits) = bsz st q - units nunits" using q(2) by (simp add: units_sub bsz_def)
  have cq: "c \<noteq> q" "q < c" "base < c" using m withinD [OF wi qF] by (auto simp: c)
  have cF: "c \<notin> F" "c \<notin> A" using sp(1) [OF qF] by auto
  then show "c \<notin> A" by simp
  show "take_block nunits pr q st = (c + 16, st')" using q(2) sub c cq by (simp add: take_block_def st' Let_def)
  have bz: "bsz st' = (bsz st)(q := bsz st q - units nunits, c := bsz st q - (bsz st q - units nunits))"
    using lt cq sub by (auto simp: fun_eq_iff bsz_def [of st'] st') (simp_all add: bsz_def)
  have un: "insert c (F \<union> A) = F \<union> insert c A" by auto
  have nx: "s_ptr (hdr st' p) = s_ptr (hdr st p)" for p by (simp add: st')
  have "adj F (bsz st') = {}"
  proof -
    have "x + bsz st' x \<notin> F" if "x \<in> F" for x
      using i that cF cq by (cases "x = q") (auto simp: bz heap_inv_def adj_def c [symmetric])
    then show ?thesis by (simp add: adj_def)
  qed
  moreover have "s_size (hdr st' base) = 0" using i cq withinD [OF wi qF] by (auto simp: st' heap_inv_def)
  moreover have "blocks_ok base (brk st) F (insert c A) (\<lambda>p. s_ptr (hdr st' p)) (bsz st')"
    using sp(2,3) [OF qF] ok d cF unfolding blocks_ok_def nx bz un by auto
  ultimately show "heap_inv base F (insert c A) st'" using i pr unfolding heap_inv_def by (simp add: st')
  show "bsz st' c = units nunits" using lt by (simp add: bz)
  show "bytes_of (F \<union> insert c A) (bsz st') = bytes_of (F \<union> A) (bsz st)" using sp(4) [OF qF] unfolding bz un .
  show "\<forall>a\<in>A. hdr st' a = hdr st a" using cF q(1) d by (auto simp: st')
qed

lemma take_block:
  assumes i: "heap_inv base F A st" and q: "q \<in> insert base F" "nunits \<le> s_size (hdr st q)" "nunits \<noteq> 0" and pr: "pr \<in> insert base F" "s_ptr (hdr st pr) = q"
  shows "\<exists>F' b st'. take_block nunits pr q st = (b + 16, st') \<and> b \<notin> A \<and> heap_inv base F' (insert b A) st' \<and> bsz st' b = units nunits \<and>
    bytes_of (F' \<union> insert b A) (bsz st') = bytes_of (F \<union> A) (bsz st) \<and> brk st' = brk st \<and> (\<forall>a\<in>A. hdr st' a = hdr st a)"
proof -
  have qF: "q \<in> F" using i q by (auto simp: heap_inv_def)
  show ?thesis
  proof (cases "s_size (hdr st q) = nunits")
    case True
    note t = take_exact [OF i qF True pr refl]
    show ?thesis by (intro exI conjI, rule t(1)) (use t True in \<open>auto simp: bsz_def\<close>)
  next
    case False
    then have lt: "nunits < s_size (hdr st q)" using q(2) by simp
    note t = take_split [OF i qF lt q(3) pr(1) refl refl]
    show ?thesis by (intro exI conjI, rule t(1)) (use t in auto)
  qed
qed

text \<open>The search starts behind \<open>freep\<close> and sees every node of the ring before it asks for more memory.\<close>

lemma malloc_loop_finds:
  assumes r: "free_ring base F (\<lambda>p. s_ptr (hdr st p))" and f: "freep st \<in> insert base F"
    and "p \<in> insert base F" "prevp \<in> insert base F" "s_ptr (hdr st prevp) = p" "q \<in> arc base F p (freep st)" "nunits \<le> s_size (hdr st q)"
  shows "\<exists>pr q. q \<in> insert base F \<and> pr \<in> insert base F \<and> s_ptr (hdr st pr) = q \<and> nunits \<le> s_size (hdr st q) \<and>
    malloc_loop sbrk nunits prevp p st = Some (take_block nunits pr q st)"
  using assms(3-6)
proof (induction "card (arc base F p (freep st))" arbitrary: p prevp rule: less_induct)
  case less
  show ?case
  proof (cases "nunits \<le> s_size (hdr st p)")
    case True
    then have "malloc_loop sbrk nunits prevp p st = Some (take_block nunits prevp p st)" by (subst malloc_loop.simps) simp
    then show ?thesis using True less.prems by blast
  next
    case False
    have fin: "finite F" using r by (simp add: free_ring_def)
    have pf: "p \<noteq> freep st" using False less.prems(4) assms(7) by (auto simp: arc_def)
    then have s: "malloc_loop sbrk nunits prevp p st = malloc_loop sbrk nunits p (s_ptr (hdr st p)) st" using False by (subst malloc_loop.simps) simp
    note a = arc_step [OF r less.prems(1) f pf]
    show ?thesis unfolding s
    proof (rule less.hyps)
      show "card (arc base F (s_ptr (hdr st p)) (freep st)) < card (arc base F p (freep st))" using a finite_arc [OF fin] by simp
      show "s_ptr (hdr st p) \<in> insert base F" by (rule ringD(1) [OF r less.prems(1)])
      show "q \<in> arc base F (s_ptr (hdr st p)) (freep st)" using less.prems(4) a(1) False assms(7) by auto
    qed (use less.prems in auto)
  qed
qed

lemma malloc_loop_none:
  assumes r: "free_ring base F (\<lambda>p. s_ptr (hdr st p))" and f: "freep st \<in> insert base F"
    and "p \<in> insert base F" "\<forall>q\<in>insert base F. \<not> nunits \<le> s_size (hdr st q)"
  shows "malloc_loop sbrk nunits prevp p st = Option.bind (morecore sbrk nunits st) (\<lambda>(p, st). if p = 0 then Some (0, st) else malloc_loop sbrk nunits p (s_ptr (hdr st p)) st)"
  using assms(3)
proof (induction "card (arc base F p (freep st))" arbitrary: p prevp rule: less_induct)
  case less
  have n: "\<not> nunits \<le> s_size (hdr st p)" using assms(4) less.prems by blast
  show ?case
  proof (cases "p = freep st")
    case True
    then show ?thesis using n by (subst malloc_loop.simps) simp
  next
    case False
    have fin: "finite F" using r by (simp add: free_ring_def)
    have s: "malloc_loop sbrk nunits prevp p st = malloc_loop sbrk nunits p (s_ptr (hdr st p)) st" using False n by (subst malloc_loop.simps) simp
    show ?thesis unfolding s
      by (rule less.hyps) (use arc_step [OF r less.prems f False] finite_arc [OF fin] ringD(1) [OF r less.prems] in auto)
  qed
qed

end
