(* ===== verification/Umalloc_Run.thy ===== *)
theory Umalloc_Run
  imports Umalloc_Safe
begin

text \<open>
  Programs that allocate and free (\<open>user/umalloc.c\<close>): any sequence of \<open>malloc\<close>, \<open>free\<close> and growth of the memory by others, and what it
  never does.
\<close>

section \<open>Asking for more memory\<close>

lemma freep_pos: "heap_inv base F A st \<Longrightarrow> freep st \<noteq> 0"
  using withinD unfolding heap_inv_def blocks_ok_def by (metis UnI1 insert_iff less_nat_zero_code not_gr_zero)

lemma heap_inv_grow:
  assumes "heap_inv base F A st" "brk st \<le> k" "k \<le> 2 ^ 36"
  shows "heap_inv base F A (st\<lparr>brk := k\<rparr>)"
proof -
  have "bsz (st\<lparr>brk := k\<rparr>) = bsz st" by (simp add: fun_eq_iff bsz_def)
  moreover have "within base (brk st) (F \<union> A) (bsz st) \<Longrightarrow> within base k (F \<union> A) (bsz st)"
    unfolding within_def using assms(2) le_trans by blast
  ultimately show ?thesis using assms by (simp add: heap_inv_def blocks_ok_def)
qed

text \<open>What \<open>sbrk\<close> promises: it adds memory at the end and returns where it begins, or it fails and changes nothing. No process gets 64 GiB.\<close>

definition sbrk_ok :: "sbrk \<Rightarrow> bool" where
  "sbrk_ok sbrk \<longleftrightarrow> (\<forall>n b. 0 \<le> n \<longrightarrow> sbrk n b = (2 ^ 64 - 1, b) \<or> sbrk n b = (b, b + nat n) \<and> b + nat n \<le> 2 ^ 36)"

lemma new_block:
  assumes i: "heap_inv base F A st" and nu: "nu \<noteq> 0" "brk st + units nu \<le> 2 ^ 36" and b: "b = brk st"
    and st': "st' = st\<lparr>brk := b + units nu, hdr := (hdr st)(b := (hdr st b)\<lparr>s_size := nu\<rparr>)\<rparr>"
  shows "heap_inv base F (insert b A) st'" "b \<notin> A" "bytes_of (F \<union> insert b A) (bsz st') = bytes_of (F \<union> A) (bsz st) \<union> {brk st..<brk st'}"
    "bsz st' b = units nu" "\<forall>a\<in>A. hdr st' a = hdr st a"
proof -
  have ok: "blocks_ok base (brk st) F A (\<lambda>p. s_ptr (hdr st p)) (bsz st)" and lim: "base + 16 \<le> brk st" and m: "adj F (bsz st) = {}" using i by (simp_all add: heap_inv_def)
  then have wi: "within base (brk st) (F \<union> A) (bsz st)" and ap: "apart (F \<union> A) (bsz st)" by (simp_all add: blocks_ok_def)
  have below: "x < b" "x + bsz st x \<le> b" "x \<noteq> b" if "x \<in> F \<union> A" for x using withinD [OF wi that] b by auto
  then have bn: "b \<notin> F" "b \<notin> A" by blast+
  then show "b \<notin> A" by simp
  have bz: "bsz st' = (bsz st)(b := units nu)" by (rule ext) (simp add: st' bsz_def)
  then have same: "bsz st' x = bsz st x" if "x \<in> F \<union> A" for x using below that by simp
  have nx: "s_ptr (hdr st' p) = s_ptr (hdr st p)" for p by (simp add: st')
  have un: "F \<union> insert b A = insert b (F \<union> A)" by auto
  have pos: "0 < units nu" using nu(1) units_pos by blast
  have "apart (insert b (F \<union> A)) (bsz st')" using ap below unfolding apart_def bz by force
  moreover have "within base (b + units nu) (insert b (F \<union> A)) (bsz st')" using wi lim b pos below(2) unfolding within_def bz by (auto intro: trans_le_add1)
  ultimately have "blocks_ok base (b + units nu) F (insert b A) (\<lambda>p. s_ptr (hdr st' p)) (bsz st')"
    using ok bn unfolding blocks_ok_def nx un by auto
  moreover have "adj F (bsz st') = {}" using m layout_cong(3) [of F "bsz st'" "bsz st"] same by simp
  ultimately show "heap_inv base F (insert b A) st'" using i lim b nu(2) unfolding heap_inv_def by (auto simp: st')
  have "brk st' = b + units nu" by (simp add: st')
  moreover have "bytes_of (F \<union> A) (bsz st') = bytes_of (F \<union> A) (bsz st)" by (rule layout_cong(4)) (rule same)
  moreover have "bytes_of (insert b (F \<union> A)) (bsz st') = {b..<b + units nu} \<union> bytes_of (F \<union> A) (bsz st')" by (simp add: bytes_of_def bz)
  ultimately show "bytes_of (F \<union> insert b A) (bsz st') = bytes_of (F \<union> A) (bsz st) \<union> {brk st..<brk st'}" unfolding un using b by auto
  show "bsz st' b = units nu" by (simp add: bz)
  show "\<forall>a\<in>A. hdr st' a = hdr st a" using bn by (auto simp: st')
qed

definition core_units :: "uint \<Rightarrow> uint" where
  "core_units nu = (if nu < 4096 then 4096 else nu)"

lemma sint_units: "units nu < 2 ^ 31 \<Longrightarrow> sint (word_of_nat (units nu) :: 32 word) = int (units nu)"
  by (simp add: signed_of_nat signed_take_bit_int_eq_self)

lemma morecore_cases:
  assumes i: "heap_inv base F A st" and s: "sbrk_ok sbrk" and n: "units nu < 2 ^ 31"
  shows "morecore sbrk nu st = Some (0, st) \<or>
    (\<exists>F' st' q. morecore sbrk nu st = Some (freep st', st') \<and> heap_inv base F' A st' \<and> brk st \<le> brk st' \<and> (\<forall>a\<in>A. hdr st' a = hdr st a) \<and>
      bytes_of (F' \<union> A) (bsz st') = bytes_of (F \<union> A) (bsz st) \<union> {brk st..<brk st'} \<and> q \<in> F' \<and> nu \<le> s_size (hdr st' q))"
proof -
  let ?nu = "core_units nu"
  have big: "nu \<le> ?nu" "?nu \<noteq> 0" by (auto simp: core_units_def)
  have "units ?nu < 2 ^ 31" using n by (simp add: core_units_def units_def)
  then have si: "sint (word_of_nat (units ?nu) :: 32 word) = int (units ?nu)" by (rule sint_units)
  note mc = morecore_def [of sbrk nu st, unfolded Let_def, folded core_units_def, unfolded si]
  have lim: "brk st \<le> 2 ^ 36" using i by (simp add: heap_inv_def)
  have "0 \<le> int (units ?nu)" by simp
  then consider "sbrk (int (units ?nu)) (brk st) = (2 ^ 64 - 1, brk st)" |
    "sbrk (int (units ?nu)) (brk st) = (brk st, brk st + units ?nu)" "brk st + units ?nu \<le> 2 ^ 36"
    using s unfolding sbrk_ok_def by (metis nat_int)
  then show ?thesis
  proof cases
    case 1
    then show ?thesis using mc by simp
  next
    case 2
    let ?st = "st\<lparr>brk := brk st + units ?nu, hdr := (hdr st)(brk st := (hdr st (brk st))\<lparr>s_size := ?nu\<rparr>)\<rparr>"
    note nb = new_block [OF i big(2) 2(2) refl refl]
    obtain F' st' where f: "free (brk st + 16) ?st = Some st'" "heap_inv base F' (insert (brk st) A - {brk st}) st'"
      "bytes_of (F' \<union> (insert (brk st) A - {brk st})) (bsz st') = bytes_of (F \<union> insert (brk st) A) (bsz ?st)" "brk st' = brk ?st"
      "\<forall>a\<in>insert (brk st) A - {brk st}. hdr st' a = hdr ?st a" "\<exists>q\<in>F'. bsz ?st (brk st) \<le> bsz st' q"
      using free_block [OF nb(1), of "brk st"] by auto
    have A: "insert (brk st) A - {brk st} = A" using nb(2) by auto
    obtain q where q: "q \<in> F'" "?nu \<le> s_size (hdr st' q)" using f(6) nb(4) by (auto simp: bsz_def)
    have "morecore sbrk nu st = Some (freep st', st')" unfolding mc using 2 f(1) lim by simp
    then show ?thesis using f(2-5) nb(3,5) q big(1) unfolding A by fastforce
  qed
qed


section \<open>Allocation\<close>

definition want :: "uint \<Rightarrow> uint" where
  "want nbytes = word_of_nat ((unat nbytes + 16 - 1) div 16 + 1)"

lemma units_want: "unat nbytes + 16 \<le> units (want nbytes)" "units (want nbytes) < unat nbytes + 32" "want nbytes \<noteq> 0"
proof -
  have nat: "unat (word_of_nat k :: uint) = k" if "k < 2 ^ 32" for k using that by (simp add: unsigned_of_nat take_bit_nat_eq_self)
  have "unat nbytes < 2 ^ LENGTH(32)" by (rule unsigned_less)
  then have "(unat nbytes + 15) div 16 + 1 < 2 ^ 32" by simp
  moreover have "unat nbytes + 16 - 1 = unat nbytes + 15" by simp
  ultimately have w: "unat (want nbytes) = (unat nbytes + 15) div 16 + 1" unfolding want_def using nat by metis
  then show "unat nbytes + 16 \<le> units (want nbytes)" "units (want nbytes) < unat nbytes + 32" unfolding units_def w by (simp_all add: algebra_simps)
  then show "want nbytes \<noteq> 0" by (auto simp: units_def)
qed

lemma malloc_searches:
  assumes i: "heap_inv base F A st" and p: "p \<in> insert base F" "s_ptr (hdr st p) = x" and f: "freep st = p" and q: "q \<in> insert base F" "nunits \<le> s_size (hdr st q)" "nunits \<noteq> 0"
  shows "\<exists>F' b st'. malloc_loop sbrk nunits p x st = Some (b + 16, st') \<and> b \<notin> A \<and> heap_inv base F' (insert b A) st' \<and> bsz st' b = units nunits \<and>
    bytes_of (F' \<union> insert b A) (bsz st') = bytes_of (F \<union> A) (bsz st) \<and> brk st' = brk st \<and> (\<forall>a\<in>A. hdr st' a = hdr st a)"
proof -
  have r: "free_ring base F (\<lambda>p. s_ptr (hdr st p))" using i by (simp add: heap_inv_def blocks_ok_def)
  have fp: "freep st \<in> insert base F" and a: "q \<in> arc base F x (freep st)" and x: "x \<in> insert base F"
    using arc_all [OF r, of p] ringD(1) [OF r p(1)] p f q(1) by auto
  obtain pr q' where "q' \<in> insert base F" "pr \<in> insert base F" "s_ptr (hdr st pr) = q'" "nunits \<le> s_size (hdr st q')"
    "malloc_loop sbrk nunits p x st = Some (take_block nunits pr q' st)"
    using malloc_loop_finds [OF r fp x p a q(2), of sbrk] by blast
  then show ?thesis using take_block [OF i _ _ q(3), of q' pr] by auto
qed

text \<open>\<open>malloc\<close> on a heap that is set up.\<close>

lemma malloc_block:
  assumes i: "heap_inv base F A st" and s: "sbrk_ok sbrk" and n: "unat nbytes + 48 \<le> 2 ^ 31"
  shows "malloc sbrk base nbytes st = Some (0, st) \<and> (\<forall>q\<in>F. bsz st q < units (want nbytes)) \<or>
    (\<exists>F' b st'. malloc sbrk base nbytes st = Some (b + 16, st') \<and> b \<notin> A \<and> heap_inv base F' (insert b A) st' \<and> bsz st' b = units (want nbytes) \<and>
      bytes_of (F' \<union> insert b A) (bsz st') = bytes_of (F \<union> A) (bsz st) \<union> {brk st..<brk st'} \<and> brk st \<le> brk st' \<and> (\<forall>a\<in>A. hdr st' a = hdr st a))"
    (is "?fails \<or> ?works")
proof -
  have r: "free_ring base F (\<lambda>p. s_ptr (hdr st p))" and f: "freep st \<in> insert base F"
    using i by (simp_all add: heap_inv_def blocks_ok_def)
  have f0: "freep st \<noteq> 0" by (rule freep_pos [OF i])
  let ?w = "want nbytes"
  have m: "malloc sbrk base nbytes st = malloc_loop sbrk ?w (freep st) (s_ptr (hdr st (freep st))) st" using f0 by (simp add: malloc_def want_def)
  have w: "units ?w < 2 ^ 31" "?w \<noteq> 0" using units_want [of nbytes] n by auto
  show ?thesis
  proof (cases "\<exists>q\<in>insert base F. ?w \<le> s_size (hdr st q)")
    case True
    then obtain q where q: "q \<in> insert base F" "?w \<le> s_size (hdr st q)" by blast
    have ?works using malloc_searches [OF i f refl refl q w(2), of sbrk] unfolding m by fastforce
    then show ?thesis ..
  next
    case False
    have "s_ptr (hdr st (freep st)) \<in> insert base F" by (rule ringD(1) [OF r f])
    note l = malloc_loop_none [OF r f this, of ?w sbrk "freep st"]
    have small: "\<forall>q\<in>F. bsz st q < units ?w" using False by (auto simp: bsz_def not_le [symmetric])
    from morecore_cases [OF i s w(1)] show ?thesis
    proof (elim disjE exE conjE)
      assume "morecore sbrk ?w st = Some (0, st)"
      then show ?thesis using l False small unfolding m by simp
    next
      fix F' st' q
      assume c: "morecore sbrk ?w st = Some (freep st', st')" and i': "heap_inv base F' A st'" and le: "brk st \<le> brk st'" and h: "\<forall>a\<in>A. hdr st' a = hdr st a"
        and byt: "bytes_of (F' \<union> A) (bsz st') = bytes_of (F \<union> A) (bsz st) \<union> {brk st..<brk st'}" and q: "q \<in> F'" "?w \<le> s_size (hdr st' q)"
      have f': "freep st' \<in> insert base F'" using i' by (simp add: heap_inv_def)
      have "freep st' \<noteq> 0" by (rule freep_pos [OF i'])
      then have "malloc sbrk base nbytes st = malloc_loop sbrk ?w (freep st') (s_ptr (hdr st' (freep st'))) st'" using l c False unfolding m by simp
      then have ?works using malloc_searches [OF i' f' refl refl _ q(2) w(2), of sbrk] q(1) byt le h unfolding m by fastforce
      then show ?thesis ..
    qed
  qed
qed

section \<open>Programs\<close>

text \<open>
  The states of a program that has used the allocator, with the blocks it holds (the address that \<open>malloc\<close> returned and the number of
  bytes asked for) and the bytes that the allocator got from \<open>sbrk\<close>. Others may move the end of the memory up, too.
\<close>

inductive alloc_run :: "sbrk \<Rightarrow> nat \<Rightarrow> uheap \<Rightarrow> (nat \<rightharpoonup> nat) \<Rightarrow> nat set \<Rightarrow> bool" for sbrk base where
  run_start: "freep st = 0 \<Longrightarrow> 0 < base \<Longrightarrow> base + 16 \<le> brk st \<Longrightarrow> brk st \<le> 2 ^ 36 \<Longrightarrow> alloc_run sbrk base st Map.empty {}"
| run_malloc: "alloc_run sbrk base st L G \<Longrightarrow> unat nbytes + 48 \<le> 2 ^ 31 \<Longrightarrow> malloc sbrk base nbytes st = Some (r, st') \<Longrightarrow>
    alloc_run sbrk base st' (if r = 0 then L else L(r \<mapsto> unat nbytes)) (G \<union> {brk st..<brk st'})"
| run_free: "alloc_run sbrk base st L G \<Longrightarrow> p \<in> dom L \<Longrightarrow> free p st = Some st' \<Longrightarrow> alloc_run sbrk base st' (L(p := None)) G"
| run_grow: "alloc_run sbrk base st L G \<Longrightarrow> brk st \<le> k \<Longrightarrow> k \<le> 2 ^ 36 \<Longrightarrow> alloc_run sbrk base (st\<lparr>brk := k\<rparr>) L G"

definition run_inv :: "nat \<Rightarrow> uheap \<Rightarrow> (nat \<rightharpoonup> nat) \<Rightarrow> nat set \<Rightarrow> bool" where
  "run_inv base st L G \<longleftrightarrow> (\<exists>F A. heap_inv base F A st \<and> dom L = (\<lambda>a. a + 16) ` A \<and> G = bytes_of (F \<union> A) (bsz st) \<and>
     (\<forall>a\<in>A. the (L (a + 16)) + 16 \<le> bsz st a))"

text \<open>The first call sets the ring up.\<close>

definition set_up :: "nat \<Rightarrow> uheap \<Rightarrow> uheap" where
  "set_up base st = (if freep st = 0 then st\<lparr>hdr := (hdr st)(base := \<lparr>s_ptr = base, s_size = 0\<rparr>), freep := base\<rparr> else st)"

lemma malloc_set_up: "0 < base \<Longrightarrow> malloc sbrk base nbytes st = malloc sbrk base nbytes (set_up base st)"
  by (simp add: malloc_def set_up_def Let_def)

lemma set_up_fresh:
  assumes "freep st = 0" "0 < base" "base + 16 \<le> brk st" "brk st \<le> 2 ^ 36"
  shows "heap_inv base {} {} (set_up base st)"
  using assms by (auto simp: heap_inv_def set_up_def blocks_ok_def free_ring_def succ_def apart_def within_def adj_def)

lemma bsz_brk [simp]: "bsz (st\<lparr>brk := k\<rparr>) = bsz st"
  by (simp add: fun_eq_iff bsz_def)

lemma run_inv_malloc:
  assumes v: "run_inv base st L G" and s: "sbrk_ok sbrk" and n: "unat nbytes + 48 \<le> 2 ^ 31"
  shows "\<exists>r st'. malloc sbrk base nbytes st = Some (r, st') \<and> (r \<noteq> 0 \<longrightarrow> r \<notin> dom L) \<and>
    run_inv base st' (if r = 0 then L else L(r \<mapsto> unat nbytes)) (G \<union> {brk st..<brk st'})"
proof -
  obtain F A where i: "heap_inv base F A st" and L: "dom L = (\<lambda>a. a + 16) ` A" and G: "G = bytes_of (F \<union> A) (bsz st)" and sz: "\<forall>a\<in>A. the (L (a + 16)) + 16 \<le> bsz st a"
    using v unfolding run_inv_def by blast
  from malloc_block [OF i s n] show ?thesis
  proof (elim disjE conjE exE)
    assume "malloc sbrk base nbytes st = Some (0, st)"
    then show ?thesis using v by simp
  next
    fix F' b st'
    assume m: "malloc sbrk base nbytes st = Some (b + 16, st')" and b: "b \<notin> A" and i': "heap_inv base F' (insert b A) st'" and w: "bsz st' b = units (want nbytes)"
      and byt: "bytes_of (F' \<union> insert b A) (bsz st') = bytes_of (F \<union> A) (bsz st) \<union> {brk st..<brk st'}" and h: "\<forall>a\<in>A. hdr st' a = hdr st a"
    let ?L = "L(b + 16 \<mapsto> unat nbytes)"
    have "the (?L (a + 16)) + 16 \<le> bsz st' a" if "a \<in> insert b A" for a
      using that sz h b w units_want(1) [of nbytes] by (cases "a = b") (auto simp: bsz_def)
    moreover have "dom ?L = (\<lambda>a. a + 16) ` insert b A" using L by auto
    ultimately have "run_inv base st' ?L (G \<union> {brk st..<brk st'})" unfolding run_inv_def G using i' byt by blast
    moreover have "b + 16 \<notin> dom L" using L b by auto
    ultimately show ?thesis using m by auto
  qed
qed

lemma run_inv_free:
  assumes v: "run_inv base st L G" and p: "p \<in> dom L"
  shows "\<exists>st'. free p st = Some st' \<and> run_inv base st' (L(p := None)) G"
proof -
  obtain F A where i: "heap_inv base F A st" and L: "dom L = (\<lambda>a. a + 16) ` A" and G: "G = bytes_of (F \<union> A) (bsz st)" and sz: "\<forall>a\<in>A. the (L (a + 16)) + 16 \<le> bsz st a"
    using v unfolding run_inv_def by blast
  obtain b where b: "b \<in> A" "p = b + 16" using p L by auto
  obtain F' st' where f: "free p st = Some st'" "heap_inv base F' (A - {b}) st'" "bytes_of (F' \<union> (A - {b})) (bsz st') = bytes_of (F \<union> A) (bsz st)"
    "\<forall>a\<in>A - {b}. hdr st' a = hdr st a" using free_block [OF i b(1)] unfolding b(2) by blast
  have "dom (L(p := None)) = (\<lambda>a. a + 16) ` (A - {b})" using L b by auto
  moreover have "\<forall>a\<in>A - {b}. the ((L(p := None)) (a + 16)) + 16 \<le> bsz st' a" using sz f(4) b by (auto simp: bsz_def)
  ultimately show ?thesis using f unfolding run_inv_def G by metis
qed

lemma alloc_run_inv:
  assumes s: "sbrk_ok sbrk" and r: "alloc_run sbrk base st L G"
  shows "0 < base \<and> run_inv base (set_up base st) L G \<and> (freep st = 0 \<longrightarrow> L = Map.empty)"
  using r
proof induction
  case (run_start st)
  have "heap_inv base {} {} (set_up base st)" by (rule set_up_fresh) (use run_start in auto)
  then show ?case using run_start unfolding run_inv_def by (intro conjI exI [of _ "{}"]) (auto simp: bytes_of_def)
next
  case (run_malloc st L G nbytes r st')
  have b: "brk (set_up base st) = brk st" by (simp add: set_up_def)
  obtain r' st'' where m: "malloc sbrk base nbytes st = Some (r', st'')" "run_inv base st'' (if r' = 0 then L else L(r' \<mapsto> unat nbytes)) (G \<union> {brk st..<brk st''})"
    using run_inv_malloc [OF _ s run_malloc(2)] run_malloc malloc_set_up b by metis
  have e: "r' = r" "st'' = st'" using m run_malloc(3) by auto
  have "freep st' \<noteq> 0" using m(2) e run_malloc unfolding run_inv_def by (auto dest: freep_pos)
  then have "set_up base st' = st'" by (simp add: set_up_def)
  then show ?case using m(2) [unfolded e] run_malloc(4) \<open>freep st' \<noteq> 0\<close> by simp
next
  case (run_free st L G p st')
  then have "freep st \<noteq> 0" by auto
  then have "set_up base st = st" by (simp add: set_up_def)
  then have f: "run_inv base st' (L(p := None)) G" using run_inv_free [of base st L G p] run_free by auto
  then have "freep st' \<noteq> 0" using run_free unfolding run_inv_def by (auto dest: freep_pos)
  then have "set_up base st' = st'" by (simp add: set_up_def)
  then show ?case using f run_free(4) \<open>freep st' \<noteq> 0\<close> by metis
next
  case (run_grow st L G k)
  have "set_up base (st\<lparr>brk := k\<rparr>) = (set_up base st)\<lparr>brk := k\<rparr>" by (simp add: set_up_def)
  moreover have "brk (set_up base st) \<le> k" "bsz ((set_up base st)\<lparr>brk := k\<rparr>) = bsz (set_up base st)"
    using run_grow(2) by (auto simp: set_up_def bsz_def)
  moreover have "run_inv base (set_up base st) L G" using run_grow(4) by simp
  ultimately have "run_inv base (set_up base (st\<lparr>brk := k\<rparr>)) L G" using heap_inv_grow [OF _ _ run_grow(3)] unfolding run_inv_def by metis
  then show ?case using run_grow(4) by simp
qed


text \<open>The first block of all.\<close>

definition core_mem :: "nat \<Rightarrow> nat \<Rightarrow> uint \<Rightarrow> nat \<Rightarrow> uheap \<Rightarrow> uheap" where
  "core_mem base b nu k st = st\<lparr>hdr := (hdr st)(b := \<lparr>s_ptr = base, s_size = nu\<rparr>, base := \<lparr>s_ptr = b, s_size = 0\<rparr>), freep := base, brk := k\<rparr>"

lemma malloc_fresh:
  assumes st: "freep st = 0" "0 < base" "base < b" and w: "want nbytes = w" "core_units w = nu"
    and s: "sbrk (sint (word_of_nat (units nu) :: 32 word)) (brk st) = (b, k)" "b \<noteq> 2 ^ 64 - 1"
  shows "malloc sbrk base nbytes st = Some (take_block (want nbytes) base b (core_mem base b nu k st))"
proof -
  let ?st = "st\<lparr>hdr := (hdr st)(base := \<lparr>s_ptr = base, s_size = 0\<rparr>), freep := base\<rparr>"
  let ?st2 = "?st\<lparr>brk := k, hdr := (hdr ?st)(b := (hdr ?st b)\<lparr>s_size := nu\<rparr>)\<rparr>"
  have w0: "w \<noteq> 0" "w \<le> nu" using units_want(3) [of nbytes] w by (auto simp: core_units_def)
  have bb: "b \<noteq> base" using st by simp
  have "free_find (hdr ?st2) b base = Some base" using bb st(3) by (subst free_find.simps) (simp add: Let_def)
  then have f: "free (b + 16) ?st2 = Some (core_mem base b nu k st)"
    using bb st by (simp add: free_def Let_def units_def core_mem_def header_upd)
  have m: "morecore sbrk w ?st = Some (base, core_mem base b nu k st)"
    using s f w(2) by (simp add: morecore_def Let_def core_units_def core_mem_def)
  have "malloc sbrk base nbytes st = malloc_loop sbrk w base base ?st" using st w by (simp add: malloc_def want_def Let_def)
  also have "\<dots> = malloc_loop sbrk w base b (core_mem base b nu k st)"
    using m w0 st bb by (subst malloc_loop.simps) (simp add: core_mem_def)
  also have "\<dots> = Some (take_block w base b (core_mem base b nu k st))" using w0 bb by (subst malloc_loop.simps) (simp add: core_mem_def)
  finally show ?thesis using w by simp
qed


definition sbrk_1m :: sbrk where
  "sbrk_1m n b = (if b + nat n \<le> 2 ^ 20 then (b, b + nat n) else (2 ^ 64 - 1, b))"

definition fresh_mem :: uheap where
  "fresh_mem = \<lparr>hdr = \<lambda>_. \<lparr>s_ptr = 0, s_size = 0\<rparr>, freep = 0, brk = 4096\<rparr>"



text \<open>
  Also proved (a request for four gigabytes). The number of bytes is computed in 64 bits, but the parameter of \<open>sbrk\<close> is an \<open>int\<close>. A
  first request for 4294967295 bytes asks the kernel for 16 bytes, and \<open>malloc\<close> returns a pointer to the very end of the memory.
\<close>

theorem malloc_truncates:
  assumes "freep st = 0" "0 < base" "base < brk st" "brk st \<noteq> 2 ^ 64 - 1" "sbrk 16 (brk st) = (brk st, brk st + 16)"
  shows "\<exists>st'. malloc sbrk base 4294967295 st = Some (brk st', st') \<and> brk st' = brk st + 16"
proof -
  have w: "want 4294967295 = 268435457" by (simp add: want_def)
  have c: "core_units 268435457 = 268435457" by (simp add: core_units_def)
  have "sint (word_of_nat (units 268435457) :: 32 word) = 16" by (simp add: units_def)
  then have "malloc sbrk base 4294967295 st = Some (take_block (want 4294967295) base (brk st) (core_mem base (brk st) 268435457 (brk st + 16) st))"
    by (intro malloc_fresh [OF assms(1-3) w c]) (use assms in simp_all)
  then show ?thesis using assms(3) by (simp add: w take_block_def Let_def core_mem_def)
qed

theorem malloc_truncates_witness:
  "\<exists>st'. malloc sbrk_1m 16 4294967295 fresh_mem = Some (brk st', st') \<and> brk st' = 4112"
  using malloc_truncates [of fresh_mem 16 sbrk_1m] by (simp add: fresh_mem_def sbrk_1m_def)

end
