(* ===== verification/Virtio.thy ===== *)
theory Virtio
  imports Bio Ring
begin

text \<open>
  The driver of the virtio disk (\<open>kernel/virtio_disk.c\<close>, \<open>kernel/virtio.h\<close>). The descriptors, the two rings and the book-keeping are one
  record. A buffer is a number, and a request is named by its buffer, since the caller of \<open>virtio_disk_rw\<close> holds the buffer's lock: \<open>v_pc b\<close> is
  where the thread that works on buffer \<open>b\<close> stands. All driver code runs under \<open>vdisk_lock\<close>, so each piece between two sleeps is one step.
  Addresses given to the device are named by what they point at. The device itself works on this state, too; what it may do is
  \<open>device_step\<close>, which follows the virtio specification for chains that have the required form, and leaves all else open.
\<close>

unbundle bit_operations_syntax

section \<open>Data\<close>

definition NUM :: nat where "NUM = 8"

datatype dma = Null_addr | Ops_addr nat | Data_addr nat | Status_addr nat

definition VRING_DESC_F_NEXT :: ushort where "VRING_DESC_F_NEXT = 1"
definition VRING_DESC_F_WRITE :: ushort where "VRING_DESC_F_WRITE = 2"
definition VIRTIO_BLK_T_IN :: uint where "VIRTIO_BLK_T_IN = 0"
definition VIRTIO_BLK_T_OUT :: uint where "VIRTIO_BLK_T_OUT = 1"

record virtq_desc =
  d_addr :: dma
  d_len :: uint
  d_flags :: ushort
  d_next :: nat

definition zero_desc :: virtq_desc where
  "zero_desc = \<lparr>d_addr = Null_addr, d_len = 0, d_flags = 0, d_next = 0\<rparr>"

record virtio_blk_req =
  q_type :: uint
  q_reserved :: uint
  q_sector :: uint64

text \<open>A thread tries to get descriptors, sleeps for them, or has submitted its request and is awake or asleep.\<close>

datatype vpc = Idle | Trying | Sleep_desc | Waiting nat nat nat | Asleep nat nat nat

record vdisk =
  v_desc :: "virtq_desc list"
  v_avail_idx :: ushort
  v_avail_ring :: "nat list"
  v_used_idx :: ushort            \<comment> \<open>\<open>disk.used->idx\<close>, written by the device\<close>
  v_used_ring :: "nat list"
  v_free :: "bool list"
  v_seen_idx :: ushort            \<comment> \<open>\<open>disk.used_idx\<close>\<close>
  v_info_b :: "nat option list"
  v_info_status :: "uchar list"
  v_ops :: "virtio_blk_req list"
  v_bdisk :: "nat \<Rightarrow> bool"        \<comment> \<open>\<open>b->disk\<close>\<close>
  v_blockno :: "nat \<Rightarrow> uint"
  v_bdata :: "nat \<Rightarrow> block"
  v_write :: "nat \<Rightarrow> bool"
  v_pc :: "nat \<Rightarrow> vpc"
  v_taken_idx :: ushort           \<comment> \<open>the device: how far it has read the ring\<close>
  v_taken :: "nat list"           \<comment> \<open>the device: chains it works on\<close>
  v_blocks :: "uint64 \<Rightarrow> block"   \<comment> \<open>the device: the disk\<close>

section \<open>Descriptors\<close>

definition awaken :: "(nat \<Rightarrow> vpc) \<Rightarrow> nat \<Rightarrow> vpc" where
  "awaken pc b = (if pc b = Sleep_desc then Trying else pc b)"

definition wakeup_descs :: "vdisk \<Rightarrow> vdisk" where
  "wakeup_descs s = s\<lparr>v_pc := awaken (v_pc s)\<rparr>"

definition wakeup_buf :: "nat \<Rightarrow> vdisk \<Rightarrow> vdisk" where
  "wakeup_buf b s = s\<lparr>v_pc := (v_pc s)(b := (case v_pc s b of Asleep x y z \<Rightarrow> Waiting x y z | q \<Rightarrow> q))\<rparr>"

text \<open>\<open>None\<close> is the result -1.\<close>

definition alloc_desc :: "vdisk \<Rightarrow> nat option \<times> vdisk" where
  "alloc_desc s =
     (case find (\<lambda>i. v_free s ! i) [0..<NUM] of
        None \<Rightarrow> (None, s)
      | Some i \<Rightarrow> (Some i, s\<lparr>v_free := (v_free s)[i := False]\<rparr>))"

definition free_desc :: "nat \<Rightarrow> vdisk \<Rightarrow> vdisk cresult" where
  "free_desc i s =
     (if i \<ge> NUM then Inl (Panic ''free_desc 1'')
      else if v_free s ! i then Inl (Panic ''free_desc 2'')
      else Inr (wakeup_descs (s\<lparr>v_desc := (v_desc s)[i := \<lparr>d_addr = Null_addr, d_len = 0, d_flags = 0, d_next = 0\<rparr>],
                               v_free := (v_free s)[i := True]\<rparr>)))"

partial_function (option) free_chain :: "nat \<Rightarrow> vdisk \<Rightarrow> vdisk run" where
  [code]: "free_chain i s =
     (let flag = d_flags (v_desc s ! i); nxt = d_next (v_desc s ! i)
      in bind_run (Some (free_desc i s)) (\<lambda>s.
         if flag AND VRING_DESC_F_NEXT \<noteq> 0 then free_chain nxt s else Some (Inr s)))"

fun free_all :: "nat list \<Rightarrow> vdisk \<Rightarrow> vdisk cresult" where
  "free_all [] s = Inr s"
| "free_all (i # is) s = bind_result (free_desc i s) (free_all is)"

text \<open>\<open>k\<close> more descriptors after those in \<open>idx\<close>.\<close>

fun alloc_more :: "nat \<Rightarrow> nat list \<Rightarrow> vdisk \<Rightarrow> (nat list option \<times> vdisk) cresult" where
  "alloc_more 0 idx s = Inr (Some idx, s)"
| "alloc_more (Suc k) idx s =
     (case alloc_desc s of
        (None, s) \<Rightarrow> bind_result (free_all idx s) (\<lambda>s. Inr (None, s))
      | (Some i, s) \<Rightarrow> alloc_more k (idx @ [i]) s)"

definition alloc3_desc :: "vdisk \<Rightarrow> (nat list option \<times> vdisk) cresult" where
  "alloc3_desc s = alloc_more 3 [] s"

section \<open>Requests\<close>

definition sector_of :: "vdisk \<Rightarrow> nat \<Rightarrow> uint64" where
  "sector_of s b = ucast (v_blockno s b * 2)"

definition set_desc :: "nat \<Rightarrow> dma \<Rightarrow> uint \<Rightarrow> ushort \<Rightarrow> nat \<Rightarrow> vdisk \<Rightarrow> vdisk" where
  "set_desc i a l f n s = s\<lparr>v_desc := (v_desc s)[i := \<lparr>d_addr = a, d_len = l, d_flags = f, d_next = n\<rparr>]\<rparr>"

definition rw_submit :: "nat \<Rightarrow> bool \<Rightarrow> nat \<Rightarrow> nat \<Rightarrow> nat \<Rightarrow> vdisk \<Rightarrow> vdisk" where
  "rw_submit b write i0 i1 i2 s =
     (let s = s\<lparr>v_ops := (v_ops s)[i0 := \<lparr>q_type = (if write then VIRTIO_BLK_T_OUT else VIRTIO_BLK_T_IN), q_reserved = 0, q_sector = sector_of s b\<rparr>]\<rparr>;
          s = set_desc i0 (Ops_addr i0) 16 VRING_DESC_F_NEXT i1 s;
          s = set_desc i1 (Data_addr b) 1024 ((if write then 0 else VRING_DESC_F_WRITE) OR VRING_DESC_F_NEXT) i2 s;
          s = s\<lparr>v_info_status := (v_info_status s)[i0 := 0xff]\<rparr>;
          s = set_desc i2 (Status_addr i0) 1 VRING_DESC_F_WRITE 0 s;
          s = s\<lparr>v_bdisk := (v_bdisk s)(b := True), v_info_b := (v_info_b s)[i0 := Some b]\<rparr>;
          s = s\<lparr>v_avail_ring := (v_avail_ring s)[unat (v_avail_idx s) mod NUM := i0]\<rparr>
      in s\<lparr>v_avail_idx := v_avail_idx s + 1\<rparr>)"

text \<open>
  \<open>virtio_disk_rw\<close> from its start, or from waking up for descriptors, to the next sleep, and from waking up for the buffer to
  the next sleep or the return.
\<close>

definition rw_try :: "nat \<Rightarrow> vdisk \<Rightarrow> vdisk cresult" where
  "rw_try b s =
     bind_result (alloc3_desc s) (\<lambda>(idx, s).
     case idx of
       Some [i0, i1, i2] \<Rightarrow> (let s = rw_submit b (v_write s b) i0 i1 i2 s in Inr (s\<lparr>v_pc := (v_pc s)(b := Asleep i0 i1 i2)\<rparr>))
     | _ \<Rightarrow> Inr (s\<lparr>v_pc := (v_pc s)(b := Sleep_desc)\<rparr>))"

definition rw_wait :: "nat \<Rightarrow> nat \<Rightarrow> nat \<Rightarrow> nat \<Rightarrow> vdisk \<Rightarrow> vdisk run" where
  "rw_wait b i0 i1 i2 s =
     (if v_bdisk s b then Some (Inr (s\<lparr>v_pc := (v_pc s)(b := Asleep i0 i1 i2)\<rparr>))
      else bind_run (free_chain i0 (s\<lparr>v_info_b := (v_info_b s)[i0 := None]\<rparr>)) (\<lambda>s. Some (Inr (s\<lparr>v_pc := (v_pc s)(b := Idle)\<rparr>))))"

definition intr_one :: "vdisk \<Rightarrow> vdisk run" where
  "intr_one s =
     (let i0 = v_used_ring s ! (unat (v_seen_idx s) mod NUM)
      in if i0 \<ge> NUM then Some (Inl (OutOfBounds (int i0)))
         else if v_info_status s ! i0 \<noteq> 0 then Some (Inl (Panic ''virtio_disk_intr status''))
         else case v_info_b s ! i0 of
                None \<Rightarrow> Some (Inl NullDeref)
              | Some b \<Rightarrow> (let s = wakeup_buf b (s\<lparr>v_bdisk := (v_bdisk s)(b := False)\<rparr>) in Some (Inr (s\<lparr>v_seen_idx := v_seen_idx s + 1\<rparr>))))"

definition virtio_disk_intr :: "vdisk \<Rightarrow> vdisk run" where
  "virtio_disk_intr = while_run (\<lambda>s. v_seen_idx s \<noteq> v_used_idx s) intr_one"

section \<open>The device\<close>

text \<open>The request that starts at descriptor \<open>i0\<close>, if the chain has the required form: type, sector, buffer and place of the status.\<close>

definition chain_at :: "nat \<Rightarrow> vdisk \<Rightarrow> (bool \<times> uint64 \<times> nat \<times> nat) option" where
  "chain_at i0 s =
     (if i0 \<ge> NUM then None
      else let d0 = v_desc s ! i0
           in if d_flags d0 \<noteq> VRING_DESC_F_NEXT \<or> d_next d0 \<ge> NUM then None
              else let d1 = v_desc s ! d_next d0
                   in if d_flags d1 AND VRING_DESC_F_NEXT = 0 \<or> d_next d1 \<ge> NUM \<or> d_len d0 \<noteq> 16 \<or> d_len d1 \<noteq> 1024 then None
                      else let d2 = v_desc s ! d_next d1
                           in case (d_addr d0, d_addr d1, d_addr d2) of
                                (Ops_addr k, Data_addr b, Status_addr j) \<Rightarrow>
                                  if k \<ge> NUM \<or> j \<ge> NUM \<or> d_len d2 \<noteq> 1 \<or> d_flags d2 \<noteq> VRING_DESC_F_WRITE then None
                                  else let q = v_ops s ! k; w = (q_type q = VIRTIO_BLK_T_OUT)
                                       in if (w \<or> q_type q = VIRTIO_BLK_T_IN) \<and> (d_flags d1 AND VRING_DESC_F_WRITE = 0) = w
                                          then Some (w, q_sector q, b, j) else None
                              | _ \<Rightarrow> None)"

definition device_take :: "vdisk \<Rightarrow> vdisk" where
  "device_take s = s\<lparr>v_taken := v_taken s @ [v_avail_ring s ! (unat (v_taken_idx s) mod NUM)], v_taken_idx := v_taken_idx s + 1\<rparr>"

definition device_done :: "nat \<Rightarrow> bool \<times> uint64 \<times> nat \<times> nat \<Rightarrow> vdisk \<Rightarrow> vdisk" where
  "device_done i0 = (\<lambda>(w, sec, b, j) s.
     let s = (if w then s\<lparr>v_blocks := (v_blocks s)(sec := v_bdata s b)\<rparr> else s\<lparr>v_bdata := (v_bdata s)(b := v_blocks s sec)\<rparr>)
     in s\<lparr>v_info_status := (v_info_status s)[j := 0], v_taken := remove1 i0 (v_taken s),
          v_used_ring := (v_used_ring s)[unat (v_used_idx s) mod NUM := i0], v_used_idx := v_used_idx s + 1\<rparr>)"

definition device_step :: "vdisk \<Rightarrow> vdisk \<Rightarrow> bool" where
  "device_step s s' \<longleftrightarrow>
     v_taken_idx s \<noteq> v_avail_idx s \<and> s' = device_take s \<or>
     (\<exists>i0\<in>set (v_taken s). case chain_at i0 s of None \<Rightarrow> True | Some r \<Rightarrow> s' = device_done i0 r s)"

end
