(* ===== verification/Virtio_Inv.thy ===== *)
theory Virtio_Inv
  imports Virtio
begin

text \<open>
  The invariant of the disk driver (\<open>kernel/virtio_disk.c\<close>): who owns which descriptors, which requests are in the rings or at the device, and
  what has been transferred; and that every step of the driver, of the device and of the interrupt handler keeps it.
\<close>

unbundle bit_operations_syntax

section \<open>Requests in flight\<close>

definition chain_of :: "vdisk \<Rightarrow> nat \<Rightarrow> nat list" where
  "chain_of s b = (case v_pc s b of Waiting x y z \<Rightarrow> [x, y, z] | Asleep x y z \<Rightarrow> [x, y, z] | _ \<Rightarrow> [])"

definition active :: "vdisk \<Rightarrow> nat \<Rightarrow> bool" where
  "active s b \<longleftrightarrow> v_pc s b \<noteq> Idle"

definition queued :: "vdisk \<Rightarrow> nat list" where
  "queued s = ring_contents NUM (v_avail_ring s) (v_taken_idx s) (v_avail_idx s)"

definition used :: "vdisk \<Rightarrow> nat list" where
  "used s = ring_contents NUM (v_used_ring s) (v_seen_idx s) (v_used_idx s)"

definition pending :: "vdisk \<Rightarrow> nat list" where
  "pending s = queued s @ v_taken s @ used s"

definition free_set :: "vdisk \<Rightarrow> nat set" where
  "free_set s = {x. x < NUM \<and> v_free s ! x}"

text \<open>The device has made the transfer for buffer \<open>b\<close>.\<close>

definition moved :: "vdisk \<Rightarrow> nat \<Rightarrow> bool" where
  "moved s b \<longleftrightarrow> (\<exists>x y z. chain_of s b = [x, y, z] \<and> x \<notin> set (queued s) \<union> set (v_taken s))"

definition lens_ok :: "vdisk \<Rightarrow> bool" where
  "lens_ok s \<longleftrightarrow> length (v_desc s) = NUM \<and> length (v_avail_ring s) = NUM \<and> length (v_used_ring s) = NUM \<and> length (v_free s) = NUM \<and>
     length (v_info_b s) = NUM \<and> length (v_info_status s) = NUM \<and> length (v_ops s) = NUM"

definition owners_ok :: "vdisk \<Rightarrow> bool" where
  "owners_ok s \<longleftrightarrow> (\<forall>b. distinct (chain_of s b) \<and> set (chain_of s b) \<subseteq> {..<NUM}) \<and>
     (\<forall>b b'. b \<noteq> b' \<longrightarrow> set (chain_of s b) \<inter> set (chain_of s b') = {}) \<and> (\<forall>x<NUM. v_free s ! x \<longleftrightarrow> (\<forall>b. x \<notin> set (chain_of s b)))"

definition formed :: "vdisk \<Rightarrow> nat \<Rightarrow> nat \<Rightarrow> nat \<Rightarrow> nat \<Rightarrow> bool" where
  "formed s b x y z \<longleftrightarrow> v_desc s ! x = \<lparr>d_addr = Ops_addr x, d_len = 16, d_flags = VRING_DESC_F_NEXT, d_next = y\<rparr> \<and>
     v_desc s ! y = \<lparr>d_addr = Data_addr b, d_len = 1024, d_flags = (if v_write s b then 0 else VRING_DESC_F_WRITE) OR VRING_DESC_F_NEXT, d_next = z\<rparr> \<and>
     v_desc s ! z = \<lparr>d_addr = Status_addr x, d_len = 1, d_flags = VRING_DESC_F_WRITE, d_next = 0\<rparr> \<and>
     v_ops s ! x = \<lparr>q_type = (if v_write s b then VIRTIO_BLK_T_OUT else VIRTIO_BLK_T_IN), q_reserved = 0, q_sector = sector_of s b\<rparr> \<and>
     v_info_b s ! x = Some b"

definition chains_ok :: "vdisk \<Rightarrow> bool" where
  "chains_ok s \<longleftrightarrow> (\<forall>b x y z. chain_of s b = [x, y, z] \<longrightarrow> formed s b x y z)"

definition pending_ok :: "vdisk \<Rightarrow> bool" where
  "pending_ok s \<longleftrightarrow> distinct (pending s) \<and> (\<forall>x\<in>set (pending s). \<exists>b y z. chain_of s b = [x, y, z]) \<and>
     (\<forall>b x y z. chain_of s b = [x, y, z] \<longrightarrow> (x \<in> set (pending s) \<longleftrightarrow> v_bdisk s b)) \<and> (\<forall>x\<in>set (used s). v_info_status s ! x = 0)"

definition sleepers_ok :: "vdisk \<Rightarrow> bool" where
  "sleepers_ok s \<longleftrightarrow> (\<forall>b x y z. v_pc s b = Asleep x y z \<longrightarrow> v_bdisk s b) \<and> (\<forall>b. v_pc s b = Sleep_desc \<longrightarrow> card (free_set s) < 3)"

text \<open>The contents, against those of the disk \<open>D\<close> before the current requests and of the buffers \<open>G\<close> when their requests began.\<close>

definition data_ok :: "vdisk \<Rightarrow> (uint64 \<Rightarrow> block) \<Rightarrow> (nat \<Rightarrow> block) \<Rightarrow> bool" where
  "data_ok s D G \<longleftrightarrow> (\<forall>b b'. active s b \<longrightarrow> active s b' \<longrightarrow> sector_of s b = sector_of s b' \<longrightarrow> b = b') \<and>
     (\<forall>b. active s b \<longrightarrow> v_bdata s b = (if moved s b \<and> \<not> v_write s b then D (sector_of s b) else G b)) \<and>
     (\<forall>b. active s b \<longrightarrow> v_write s b \<longrightarrow> moved s b \<longrightarrow> v_blocks s (sector_of s b) = G b) \<and>
     (\<forall>x. (\<forall>b. active s b \<longrightarrow> v_write s b \<longrightarrow> moved s b \<longrightarrow> sector_of s b \<noteq> x) \<longrightarrow> v_blocks s x = D x)"

definition vinv :: "vdisk \<Rightarrow> (uint64 \<Rightarrow> block) \<Rightarrow> (nat \<Rightarrow> block) \<Rightarrow> bool" where
  "vinv s D G \<longleftrightarrow> lens_ok s \<and> owners_ok s \<and> chains_ok s \<and> pending_ok s \<and> sleepers_ok s \<and> data_ok s D G"

lemma NUM_facts: "NUM dvd 2 ^ LENGTH(16)" "NUM < 2 ^ LENGTH(16)" "0 < NUM"
  by (simp_all add: NUM_def)

lemma chain_of_cases: "chain_of s b = [] \<or> (\<exists>x y z. chain_of s b = [x, y, z])"
  by (auto simp: chain_of_def split: vpc.splits)

lemma chain_active: "chain_of s b \<noteq> [] \<Longrightarrow> active s b"
  by (auto simp: chain_of_def active_def split: vpc.splits)

lemma moved_chain: "moved s b \<Longrightarrow> active s b"
  by (auto simp: moved_def intro: chain_active)

text \<open>Changes that no request in flight can see.\<close>

lemma vinv_cong:
  assumes v: "vinv s D G" and len: "length (v_desc s') = NUM" and pc: "\<And>b. chain_of s' b = chain_of s b" "\<And>b. active s' b = active s b"
    and desc: "\<And>x b. x \<in> set (chain_of s b) \<Longrightarrow> v_desc s' ! x = v_desc s ! x" and sl: "sleepers_ok s'"
    and eq: "s' = s\<lparr>v_desc := v_desc s', v_pc := v_pc s'\<rparr>"
  shows "vinv s' D G"
proof -
  note f = arg_cong [OF eq, of v_free] arg_cong [OF eq, of v_avail_ring] arg_cong [OF eq, of v_avail_idx] arg_cong [OF eq, of v_used_ring] arg_cong [OF eq, of v_used_idx]
    arg_cong [OF eq, of v_seen_idx] arg_cong [OF eq, of v_info_b] arg_cong [OF eq, of v_info_status] arg_cong [OF eq, of v_ops] arg_cong [OF eq, of v_bdisk]
    arg_cong [OF eq, of v_blockno] arg_cong [OF eq, of v_bdata] arg_cong [OF eq, of v_write] arg_cong [OF eq, of v_taken_idx] arg_cong [OF eq, of v_taken] arg_cong [OF eq, of v_blocks]
  note f = f [simplified]
  have q: "queued s' = queued s" "used s' = used s" "pending s' = pending s" by (simp_all add: queued_def used_def pending_def f)
  have m: "moved s' b = moved s b" "sector_of s' b = sector_of s b" for b by (simp_all add: moved_def pc q f sector_of_def)
  have "lens_ok s'" "owners_ok s'" "pending_ok s'" "data_ok s' D G"
    using v len by (simp_all add: vinv_def lens_ok_def owners_ok_def pending_ok_def data_ok_def pc q m f)
  moreover have "chains_ok s'"
    using v desc unfolding vinv_def chains_ok_def formed_def pc m f by (metis list.set_intros(1) list.set_intros(2))
  ultimately show ?thesis using sl by (simp add: vinv_def)
qed


section \<open>Allocating and freeing descriptors\<close>

lemma awaken_awaken [simp]: "awaken (awaken p) = awaken p"
  by (simp add: fun_eq_iff awaken_def)

lemma alloc_desc_cases:
  obtains "alloc_desc s = (None, s)" "free_set s = {}" |
    i where "i \<in> free_set s" "alloc_desc s = (Some i, s\<lparr>v_free := (v_free s)[i := False]\<rparr>)"
proof (cases "find (\<lambda>i. v_free s ! i) [0..<NUM]")
  case None
  then have "free_set s = {}" unfolding free_set_def find_None_iff by auto
  then show ?thesis using that(1) None by (simp add: alloc_desc_def)
next
  case (Some i)
  then have "i \<in> free_set s" unfolding free_set_def find_Some_iff by auto
  then show ?thesis using that(2) Some by (simp add: alloc_desc_def)
qed

lemma free_set_upd: "length (v_free s) = NUM \<Longrightarrow> i \<in> free_set s \<Longrightarrow> free_set (s\<lparr>v_free := (v_free s)[i := False]\<rparr>) = free_set s - {i}"
  by (auto simp: free_set_def nth_list_update split: if_splits)

text \<open>Without three free descriptors the driver gives back what it got, and wakes up the others that wait for descriptors.\<close>

lemma alloc3_desc_cases:
  assumes len: "lens_ok s"
  obtains x y z where "x \<in> free_set s" "y \<in> free_set s" "z \<in> free_set s" "distinct [x, y, z]"
      "alloc3_desc s = Inr (Some [x, y, z], s\<lparr>v_free := (v_free s)[x := False, y := False, z := False]\<rparr>)" |
    d p where "card (free_set s) < 3" "alloc3_desc s = Inr (None, s\<lparr>v_desc := d, v_pc := p\<rparr>)" "length d = NUM" "\<And>x. x \<notin> free_set s \<Longrightarrow> d ! x = v_desc s ! x"
      "p = v_pc s \<or> p = awaken (v_pc s)"
proof -
  note len' = len [unfolded lens_ok_def]
  have nth: "(v_free s)[x := False, x := True] = v_free s" if "x \<in> free_set s" for x
    using that len' by (intro nth_equalityI) (auto simp: free_set_def nth_list_update)
  have nth2: "(v_free s)[x := False, y := False, x := True, y := True] = v_free s" if "x \<in> free_set s" "y \<in> free_set s" for x y
    using that len' by (intro nth_equalityI) (auto simp: free_set_def nth_list_update)
  show thesis
  proof (cases rule: alloc_desc_cases [of s])
    case 1
    then show ?thesis using that(2) [of "v_pc s" "v_desc s"] len' by (simp add: alloc3_desc_def numeral_3_eq_3)
  next
    case (2 x)
    let ?s1 = "s\<lparr>v_free := (v_free s)[x := False]\<rparr>"
    have f1: "free_set ?s1 = free_set s - {x}" using free_set_upd 2(1) len' by blast
    have x: "x < NUM" "v_free s ! x" using 2(1) by (auto simp: free_set_def)
    show ?thesis
    proof (cases rule: alloc_desc_cases [of ?s1])
      case 1
      have "free_set s = {x}" using 1(2) f1 2(1) by auto
      moreover have "alloc3_desc s = Inr (None, s\<lparr>v_desc := (v_desc s)[x := zero_desc], v_pc := awaken (v_pc s)\<rparr>)"
        using 2(2) 1(1) x len' nth [OF 2(1)] by (simp add: alloc3_desc_def numeral_3_eq_3 free_desc_def wakeup_descs_def zero_desc_def)
      ultimately show ?thesis using that(2) len' by simp
    next
      case (2 y)
      note y2 = 2
      let ?s2 = "?s1\<lparr>v_free := (v_free ?s1)[y := False]\<rparr>"
      have y: "y < NUM" "y \<noteq> x" "y \<in> free_set s" using y2(1) f1 by (auto simp: free_set_def)
      have f2: "free_set ?s2 = free_set s - {x, y}" using free_set_upd [of ?s1 y] y2(1) f1 len' by auto
      show ?thesis
      proof (cases rule: alloc_desc_cases [of ?s2])
        case 1
        have "free_set s \<subseteq> {x, y}" using 1(2) f2 by auto
        then have "card (free_set s) \<le> card {x, y}" by (intro card_mono) simp_all
        also have "\<dots> < 3" using y(2) by simp
        finally have "card (free_set s) < 3" .
        moreover have "alloc3_desc s = Inr (None, s\<lparr>v_desc := (v_desc s)[x := zero_desc, y := zero_desc], v_pc := awaken (v_pc s)\<rparr>)"
          using \<open>alloc_desc s = _\<close> y2(2) 1(1) x y len' nth2 [OF \<open>x \<in> free_set s\<close> y(3)]
          by (simp add: alloc3_desc_def numeral_3_eq_3 free_desc_def wakeup_descs_def zero_desc_def)
        moreover have "(v_desc s)[x := zero_desc, y := zero_desc] ! w = v_desc s ! w" if "w \<notin> free_set s" for w
          using that \<open>x \<in> free_set s\<close> y(3) by (metis nth_list_update_neq)
        ultimately show ?thesis using that(2) [of "awaken (v_pc s)" "(v_desc s)[x := zero_desc, y := zero_desc]"] len' by simp
      next
        case (2 z)
        have "z \<in> free_set s" "z \<noteq> x" "z \<noteq> y" using 2(1) f2 by auto
        moreover have "alloc3_desc s = Inr (Some [x, y, z], s\<lparr>v_free := (v_free s)[x := False, y := False, z := False]\<rparr>)"
          using \<open>alloc_desc s = _\<close> y2(2) 2(2) by (simp add: alloc3_desc_def numeral_3_eq_3)
        ultimately show ?thesis using that(1) [of x y z] \<open>x \<in> free_set s\<close> y by auto
      qed
    qed
  qed
qed

lemma flag_facts:
  "VRING_DESC_F_NEXT AND VRING_DESC_F_NEXT \<noteq> 0" "((if w then 0 else VRING_DESC_F_WRITE) OR VRING_DESC_F_NEXT) AND VRING_DESC_F_NEXT \<noteq> 0"
  "VRING_DESC_F_WRITE AND VRING_DESC_F_NEXT = 0" "((if w then 0 else VRING_DESC_F_WRITE) OR VRING_DESC_F_NEXT) AND VRING_DESC_F_WRITE = 0 \<longleftrightarrow> w"
  by (simp_all add: VRING_DESC_F_NEXT_def VRING_DESC_F_WRITE_def)

lemma free_chain_spec:
  assumes len: "lens_ok s" and x: "distinct [x, y, z]" "x < NUM" "y < NUM" "z < NUM" "\<not> v_free s ! x" "\<not> v_free s ! y" "\<not> v_free s ! z"
    and f: "d_flags (v_desc s ! x) AND VRING_DESC_F_NEXT \<noteq> 0" "d_next (v_desc s ! x) = y" "d_flags (v_desc s ! y) AND VRING_DESC_F_NEXT \<noteq> 0" "d_next (v_desc s ! y) = z"
      "d_flags (v_desc s ! z) AND VRING_DESC_F_NEXT = 0"
  shows "free_chain x s = Some (Inr (s\<lparr>v_desc := (v_desc s)[x := zero_desc, y := zero_desc, z := zero_desc], v_free := (v_free s)[x := True, y := True, z := True],
    v_pc := awaken (v_pc s)\<rparr>))"
proof -
  define g where "g i s = s\<lparr>v_desc := (v_desc s)[i := zero_desc], v_free := (v_free s)[i := True], v_pc := awaken (v_pc s)\<rparr>" for i and s :: vdisk
  have fd: "free_desc i t = Inr (g i t)" if "i < NUM" "\<not> v_free t ! i" for i t
    using that by (simp add: free_desc_def wakeup_descs_def g_def zero_desc_def)
  have "free_chain x s = free_chain y (g x s)" using f x by (subst free_chain.simps) (simp add: fd)
  also have "\<dots> = free_chain z (g y (g x s))" using f x by (subst free_chain.simps) (simp add: fd g_def)
  also have "\<dots> = Some (Inr (g z (g y (g x s))))" using f x by (subst free_chain.simps) (simp add: fd g_def)
  finally show ?thesis by (simp add: g_def)
qed

end
