(* ===== verification/Virtio_Steps.thy ===== *)
theory Virtio_Steps
  imports Virtio_Inv
begin

text \<open>
  Every step of the disk driver (\<open>kernel/virtio_disk.c\<close>), of its interrupt handler and of the device keeps the invariant, and no step of
  the driver fails.
\<close>

unbundle bit_operations_syntax

section \<open>Facts about a state\<close>

lemma vinvD:
  assumes "vinv s D G"
  shows "lens_ok s" "owners_ok s" "chains_ok s" "pending_ok s" "sleepers_ok s" "data_ok s D G"
  using assms by (simp_all add: vinv_def)

lemma chainD:
  assumes v: "vinv s D G" and c: "chain_of s b = [x, y, z]"
  shows "distinct [x, y, z]" "x < NUM" "y < NUM" "z < NUM" "\<not> v_free s ! x" "\<not> v_free s ! y" "\<not> v_free s ! z" "formed s b x y z"
    "x \<in> set (pending s) \<longleftrightarrow> v_bdisk s b" "\<And>b'. b' \<noteq> b \<Longrightarrow> x \<notin> set (chain_of s b') \<and> y \<notin> set (chain_of s b') \<and> z \<notin> set (chain_of s b')"
proof -
  have "distinct (chain_of s b)" "set (chain_of s b) \<subseteq> {..<NUM}" using vinvD(2) [OF v] by (auto simp: owners_ok_def)
  then show d: "distinct [x, y, z]" "x < NUM" "y < NUM" "z < NUM" by (simp_all add: c)
  have "x \<in> set (chain_of s b)" "y \<in> set (chain_of s b)" "z \<in> set (chain_of s b)" by (simp_all add: c)
  then show "\<not> v_free s ! x" "\<not> v_free s ! y" "\<not> v_free s ! z" using vinvD(2) [OF v] d unfolding owners_ok_def by blast+
  show "formed s b x y z" using vinvD(3) [OF v] c by (simp add: chains_ok_def)
  show "x \<in> set (pending s) \<longleftrightarrow> v_bdisk s b" using vinvD(4) [OF v] c by (auto simp: pending_ok_def)
  show "x \<notin> set (chain_of s b') \<and> y \<notin> set (chain_of s b') \<and> z \<notin> set (chain_of s b')" if "b' \<noteq> b" for b'
  proof -
    have "set (chain_of s b) \<inter> set (chain_of s b') = {}" using vinvD(2) [OF v] that unfolding owners_ok_def by metis
    then show ?thesis by (simp add: c)
  qed
qed

lemma pendingD:
  assumes v: "vinv s D G" and x: "x \<in> set (pending s)"
  shows "\<exists>b y z. chain_of s b = [x, y, z]" "x < NUM" "\<not> v_free s ! x"
proof -
  show e: "\<exists>b y z. chain_of s b = [x, y, z]" using vinvD(4) [OF v] x by (simp add: pending_ok_def)
  then show "x < NUM" "\<not> v_free s ! x" using chainD(2,5) [OF v] by blast+
qed

lemma distinct_pending: "vinv s D G \<Longrightarrow> distinct (pending s)"
  by (simp add: vinv_def pending_ok_def)

lemma short_list:
  assumes "distinct xs" "set xs \<subseteq> {..<NUM} - {x}" "x < NUM"
  shows "length xs < NUM"
proof -
  have "length xs = card (set xs)" using assms(1) by (simp add: distinct_card)
  also have "\<dots> \<le> card ({..<NUM} - {x})" using assms(2) by (intro card_mono) auto
  also have "\<dots> < NUM" using assms(3) by simp
  finally show ?thesis .
qed

text \<open>Putting a head into the ring of available requests.\<close>

lemma queued_put:
  assumes v: "vinv s D G" and x: "x < NUM" "x \<notin> set (queued s)"
  shows "ring_contents NUM ((v_avail_ring s)[unat (v_avail_idx s) mod NUM := x]) (v_taken_idx s) (v_avail_idx s + 1) = queued s @ [x]"
proof -
  have "set (queued s) \<subseteq> {..<NUM} - {x}" using pendingD(2) [OF v] x by (auto simp: pending_def)
  moreover have "distinct (queued s)" using distinct_pending [OF v] by (simp add: pending_def)
  ultimately have "unat (v_avail_idx s - v_taken_idx s) < NUM" using short_list [of "queued s" x] x(1) by (simp add: queued_def)
  then show ?thesis using ring_put [OF NUM_facts(1,2), where buf = "v_avail_ring s"] vinvD(1) [OF v] by (simp add: queued_def lens_ok_def)
qed

section \<open>Starting a request\<close>

lemma rw_submit_simps:
  "v_desc (rw_submit b w x y z s) = (v_desc s)[x := \<lparr>d_addr = Ops_addr x, d_len = 16, d_flags = VRING_DESC_F_NEXT, d_next = y\<rparr>,
     y := \<lparr>d_addr = Data_addr b, d_len = 1024, d_flags = (if w then 0 else VRING_DESC_F_WRITE) OR VRING_DESC_F_NEXT, d_next = z\<rparr>,
     z := \<lparr>d_addr = Status_addr x, d_len = 1, d_flags = VRING_DESC_F_WRITE, d_next = 0\<rparr>]"
  "v_ops (rw_submit b w x y z s) = (v_ops s)[x := \<lparr>q_type = (if w then VIRTIO_BLK_T_OUT else VIRTIO_BLK_T_IN), q_reserved = 0, q_sector = sector_of s b\<rparr>]"
  "v_avail_ring (rw_submit b w x y z s) = (v_avail_ring s)[unat (v_avail_idx s) mod NUM := x]" "v_avail_idx (rw_submit b w x y z s) = v_avail_idx s + 1"
  "v_info_b (rw_submit b w x y z s) = (v_info_b s)[x := Some b]" "v_info_status (rw_submit b w x y z s) = (v_info_status s)[x := 0xff]"
  "v_bdisk (rw_submit b w x y z s) = (v_bdisk s)(b := True)" "v_free (rw_submit b w x y z s) = v_free s" "v_used_idx (rw_submit b w x y z s) = v_used_idx s"
  "v_used_ring (rw_submit b w x y z s) = v_used_ring s" "v_seen_idx (rw_submit b w x y z s) = v_seen_idx s" "v_blockno (rw_submit b w x y z s) = v_blockno s"
  "v_bdata (rw_submit b w x y z s) = v_bdata s" "v_write (rw_submit b w x y z s) = v_write s" "v_pc (rw_submit b w x y z s) = v_pc s"
  "v_taken_idx (rw_submit b w x y z s) = v_taken_idx s" "v_taken (rw_submit b w x y z s) = v_taken s" "v_blocks (rw_submit b w x y z s) = v_blocks s"
  by (simp_all add: rw_submit_def Let_def set_desc_def)

lemma rw_try_sleeps:
  assumes v: "vinv s D G" and pc: "v_pc s b = Trying" and c: "card (free_set s) < 3" and d: "length d = NUM" "\<And>x. x \<notin> free_set s \<Longrightarrow> d ! x = v_desc s ! x"
    and p: "p = v_pc s \<or> p = awaken (v_pc s)"
  shows "vinv (s\<lparr>v_desc := d, v_pc := p(b := Sleep_desc)\<rparr>) D G" (is "vinv ?s D G")
proof (rule vinv_cong [OF v])
  have pcs: "p b' = v_pc s b' \<or> v_pc s b' = Sleep_desc \<and> p b' = Trying" for b' using p by (cases "v_pc s b' = Sleep_desc") (auto simp: awaken_def)
  show "chain_of ?s b' = chain_of s b'" for b' using pc pcs [of b'] by (auto simp: chain_of_def)
  show "active ?s b' = active s b'" for b' using pc pcs [of b'] by (auto simp: active_def)
  show "v_desc ?s ! x = v_desc s ! x" if "x \<in> set (chain_of s b')" for x b'
    using that d(2) vinvD(2) [OF v] by (auto simp: owners_ok_def free_set_def)
  have fs: "free_set ?s = free_set s" by (simp add: free_set_def)
  have "v_bdisk s b'" if "p b' = Asleep x y z" for b' x y z
    using that pcs [of b'] vinvD(5) [OF v] unfolding sleepers_ok_def by (metis vpc.distinct(13))
  then show "sleepers_ok ?s" using c unfolding sleepers_ok_def fs by auto
qed (use d in simp_all)

lemma rw_try_submits:
  assumes v: "vinv s D G" and pc: "v_pc s b = Trying" and x: "x \<in> free_set s" "y \<in> free_set s" "z \<in> free_set s" "distinct [x, y, z]"
    and s1: "s1 = rw_submit b (v_write s b) x y z (s\<lparr>v_free := (v_free s)[x := False, y := False, z := False]\<rparr>)"
  shows "vinv (s1\<lparr>v_pc := (v_pc s1)(b := Asleep x y z)\<rparr>) D G" (is "vinv ?s D G")
proof -
  have len: "length (v_desc s) = NUM" "length (v_avail_ring s) = NUM" "length (v_free s) = NUM" "length (v_info_b s) = NUM" "length (v_info_status s) = NUM"
    "length (v_ops s) = NUM" "length (v_used_ring s) = NUM" using vinvD(1) [OF v] by (simp_all add: lens_ok_def)
  have lt: "x < NUM" "y < NUM" "z < NUM" and fr: "v_free s ! x" "v_free s ! y" "v_free s ! z" using x by (auto simp: free_set_def)
  have own: "w \<notin> set (chain_of s b')" if "w \<in> {x, y, z}" for w b' using that lt fr vinvD(2) [OF v] by (auto simp: owners_ok_def)
  have np: "w \<notin> set (pending s)" if "w \<in> {x, y, z}" for w using that fr pendingD(3) [OF v] by blast
  have cb: "chain_of s b = []" using pc by (simp add: chain_of_def)
  have ch: "chain_of ?s b' = (if b' = b then [x, y, z] else chain_of s b')" for b' by (simp add: chain_of_def s1 rw_submit_simps)
  have ac: "active ?s b' = active s b'" for b' using pc by (auto simp: active_def s1 rw_submit_simps)
  have "x \<notin> set (queued s)" using np [of x] by (simp add: pending_def)
  from queued_put [OF v lt(1) this] have q: "queued ?s = queued s @ [x]" "used ?s = used s" "v_taken ?s = v_taken s"
    unfolding queued_def [of ?s] used_def by (simp_all add: s1 rw_submit_simps)
  have sec: "sector_of ?s b' = sector_of s b'" for b' by (simp add: sector_of_def s1 rw_submit_simps)
  have nth: "v_desc ?s ! w = v_desc s ! w" "v_ops ?s ! w = v_ops s ! w" "v_info_b ?s ! w = v_info_b s ! w" if "w \<in> set (chain_of s b')" for w b'
  proof -
    have "w \<noteq> x" "w \<noteq> y" "w \<noteq> z" using own [of _ b'] that by blast+
    then show "v_desc ?s ! w = v_desc s ! w" "v_ops ?s ! w = v_ops s ! w" "v_info_b ?s ! w = v_info_b s ! w" by (simp_all add: s1 rw_submit_simps)
  qed
  have "lens_ok ?s" using len by (simp add: lens_ok_def s1 rw_submit_simps)
  moreover have "owners_ok ?s"
  proof -
    have "distinct (chain_of ?s b') \<and> set (chain_of ?s b') \<subseteq> {..<NUM}" for b' using ch lt x(4) vinvD(2) [OF v] by (simp add: owners_ok_def)
    moreover have "set (chain_of ?s b') \<inter> set (chain_of ?s b'') = {}" if "b' \<noteq> b''" for b' b''
      using that own vinvD(2) [OF v] unfolding ch owners_ok_def by auto
    moreover have "v_free ?s ! w \<longleftrightarrow> (\<forall>b'. w \<notin> set (chain_of ?s b'))" if "w < NUM" for w
    proof -
      have "v_free ?s ! w \<longleftrightarrow> w \<notin> {x, y, z} \<and> v_free s ! w" using len lt that by (auto simp: s1 rw_submit_simps nth_list_update)
      also have "\<dots> \<longleftrightarrow> w \<notin> {x, y, z} \<and> (\<forall>b'. w \<notin> set (chain_of s b'))" using vinvD(2) [OF v] that by (simp add: owners_ok_def)
      also have "\<dots> \<longleftrightarrow> (\<forall>b'. w \<notin> set (chain_of ?s b'))" unfolding ch using cb by (metis empty_iff list.set(1) list.simps(15) empty_set)
      finally show ?thesis .
    qed
    ultimately show ?thesis by (simp add: owners_ok_def)
  qed
  moreover have "chains_ok ?s"
  proof -
    have "formed ?s b x y z" using x(4) lt len by (simp add: formed_def s1 rw_submit_simps sector_of_def)
    moreover have "formed ?s b' x' y' z'" if "b' \<noteq> b" "chain_of s b' = [x', y', z']" for b' x' y' z'
    proof -
      have "v_write ?s b' = v_write s b'" by (simp add: s1 rw_submit_simps)
      then show ?thesis using chainD(8) [OF v that(2)] nth [of _ b'] unfolding formed_def sec that(2) by simp
    qed
    ultimately show ?thesis by (auto simp: chains_ok_def ch)
  qed
  moreover have "pending_ok ?s"
  proof -
    have p: "set (pending ?s) = insert x (set (pending s))" "distinct (pending ?s)"
      using distinct_pending [OF v] np [of x] by (auto simp: pending_def q)
    have bd: "v_bdisk ?s b' = (b' = b \<or> v_bdisk s b')" for b' by (auto simp: s1 rw_submit_simps)
    have heads: "\<exists>b' y' z'. chain_of ?s b' = [w, y', z']" if w: "w \<in> set (pending ?s)" for w
    proof (cases "w = x")
      case True
      then show ?thesis using ch [of b] by auto
    next
      case False
      then obtain b' y' z' where c: "chain_of s b' = [w, y', z']" using pendingD(1) [OF v, of w] w p(1) by auto
      then have "b' \<noteq> b" using cb by auto
      then show ?thesis using c ch by auto
    qed
    have iff: "w \<in> set (pending ?s) \<longleftrightarrow> v_bdisk ?s b'" if "chain_of ?s b' = [w, y', z']" for b' w y' z'
    proof (cases "b' = b")
      case True
      then show ?thesis using that ch [of b] p(1) bd by auto
    next
      case False
      then have c: "chain_of s b' = [w, y', z']" using that ch by simp
      then have "w \<noteq> x" using own [of x b'] by auto
      then show ?thesis using chainD(9) [OF v c] False p(1) bd by simp
    qed
    have "v_info_status ?s ! w = 0" if "w \<in> set (used s)" for w
    proof -
      have "w \<noteq> x" using that np [of x] by (auto simp: pending_def)
      then show ?thesis using that vinvD(4) [OF v] by (simp add: pending_ok_def s1 rw_submit_simps)
    qed
    then show ?thesis unfolding pending_ok_def q(2) using p(2) heads iff by blast
  qed
  moreover have "sleepers_ok ?s"
  proof -
    have "free_set ?s \<subseteq> free_set s" using len lt by (auto simp: free_set_def s1 rw_submit_simps nth_list_update split: if_splits)
    then have "card (free_set ?s) \<le> card (free_set s)" by (intro card_mono) (auto simp: free_set_def)
    moreover have pcs: "v_pc ?s b' = (if b' = b then Asleep x y z else v_pc s b')" "v_bdisk ?s b' = (b' = b \<or> v_bdisk s b')" for b'
      by (auto simp: s1 rw_submit_simps)
    ultimately show ?thesis using vinvD(5) [OF v] unfolding sleepers_ok_def pcs by (auto intro: le_less_trans)
  qed
  moreover have "data_ok ?s D G"
  proof -
    have "moved ?s b' = moved s b'" for b'
      using cb own [of x b'] by (auto simp: moved_def ch q)
    moreover have "v_bdata ?s = v_bdata s" "v_write ?s = v_write s" "v_blocks ?s = v_blocks s" by (simp_all add: s1 rw_submit_simps)
    ultimately show ?thesis using vinvD(6) [OF v] unfolding data_ok_def ac sec by simp
  qed
  ultimately show ?thesis by (simp add: vinv_def)
qed

lemma rw_try_inv:
  assumes v: "vinv s D G" and pc: "v_pc s b = Trying"
  shows "\<exists>s'. rw_try b s = Inr s' \<and> vinv s' D G"
proof (cases rule: alloc3_desc_cases [OF vinvD(1) [OF v]])
  case (1 x y z)
  then show ?thesis using rw_try_submits [OF v pc 1(1-4) refl] by (simp add: rw_try_def Let_def)
next
  case (2 d p)
  then show ?thesis using rw_try_sleeps [OF v pc 2(1,3,4,5)] by (simp add: rw_try_def)
qed


section \<open>Waiting for the request\<close>

lemma rw_wait_sleeps:
  assumes v: "vinv s D G" and pc: "v_pc s b = Waiting x y z" and d: "v_bdisk s b"
  shows "vinv (s\<lparr>v_pc := (v_pc s)(b := Asleep x y z)\<rparr>) D G" (is "vinv ?s D G")
proof (rule vinv_cong [OF v])
  have fs: "free_set ?s = free_set s" by (simp add: free_set_def)
  show "sleepers_ok ?s" using vinvD(5) [OF v] d unfolding sleepers_ok_def fs by auto
qed (use pc vinvD(1) [OF v] in \<open>auto simp: chain_of_def active_def lens_ok_def\<close>)

text \<open>The request is finished: what has been transferred, and the state after the return.\<close>

lemma finished:
  assumes v: "vinv s D G" and c: "chain_of s b = [x, y, z]" and d: "\<not> v_bdisk s b"
  shows "moved s b" "v_write s b \<Longrightarrow> v_blocks s (sector_of s b) = G b \<and> v_bdata s b = G b"
    "\<not> v_write s b \<Longrightarrow> v_bdata s b = D (sector_of s b) \<and> v_blocks s (sector_of s b) = D (sector_of s b)"
proof -
  show m: "moved s b" using chainD(9) [OF v c] d c by (auto simp: moved_def pending_def)
  have a: "active s b" using c by (intro chain_active) simp
  show "v_write s b \<Longrightarrow> v_blocks s (sector_of s b) = G b \<and> v_bdata s b = G b" using vinvD(6) [OF v] m a by (simp add: data_ok_def)
  have only: "b' = b" if "active s b'" "sector_of s b' = sector_of s b" for b' using vinvD(6) [OF v] that a by (simp add: data_ok_def)
  assume r: "\<not> v_write s b"
  have "\<forall>b'. active s b' \<longrightarrow> v_write s b' \<longrightarrow> moved s b' \<longrightarrow> sector_of s b' \<noteq> sector_of s b" using only r by blast
  then have "v_blocks s (sector_of s b) = D (sector_of s b)" using vinvD(6) [OF v] unfolding data_ok_def by blast
  then show "v_bdata s b = D (sector_of s b) \<and> v_blocks s (sector_of s b) = D (sector_of s b)" using vinvD(6) [OF v] m a r by (simp add: data_ok_def)
qed

lemma rw_wait_returns:
  assumes v: "vinv s D G" and pc: "v_pc s b = Waiting x y z" and d: "\<not> v_bdisk s b"
  shows "\<exists>s'. rw_wait b x y z s = Some (Inr s') \<and> v_pc s' b = Idle \<and> v_bdata s' = v_bdata s \<and> v_blocks s' = v_blocks s \<and>
    vinv s' (if v_write s b then D(sector_of s b := G b) else D) G"
proof -
  have c: "chain_of s b = [x, y, z]" using pc by (simp add: chain_of_def)
  note cd = chainD [OF v c]
  have len: "length (v_desc s) = NUM" "length (v_avail_ring s) = NUM" "length (v_free s) = NUM" "length (v_info_b s) = NUM" "length (v_info_status s) = NUM"
    "length (v_ops s) = NUM" "length (v_used_ring s) = NUM" using vinvD(1) [OF v] by (simp_all add: lens_ok_def)
  let ?s0 = "s\<lparr>v_info_b := (v_info_b s)[x := None]\<rparr>"
  define s' where "s' = s\<lparr>v_info_b := (v_info_b s)[x := None], v_desc := (v_desc s)[x := zero_desc, y := zero_desc, z := zero_desc],
    v_free := (v_free s)[x := True, y := True, z := True], v_pc := (awaken (v_pc s))(b := Idle)\<rparr>"
  have "lens_ok ?s0" using vinvD(1) [OF v] by (simp add: lens_ok_def)
  from free_chain_spec [OF this, of x y z] have "free_chain x ?s0 = Some (Inr (?s0\<lparr>v_desc := (v_desc s)[x := zero_desc, y := zero_desc, z := zero_desc],
    v_free := (v_free s)[x := True, y := True, z := True], v_pc := awaken (v_pc s)\<rparr>))"
    using cd(1-7) cd(8) [unfolded formed_def] flag_facts by simp
  then have run: "rw_wait b x y z s = Some (Inr s')" using d by (simp add: rw_wait_def s'_def)
  have pcs: "v_pc s' b' = (if b' = b then Idle else if v_pc s b' = Sleep_desc then Trying else v_pc s b')" for b' by (simp add: s'_def awaken_def)
  have ch: "chain_of s' b' = (if b' = b then [] else chain_of s b')" for b' using pcs [of b'] by (auto simp: chain_of_def)
  have ac: "active s' b' = (b' \<noteq> b \<and> active s b')" for b' using pcs [of b'] by (auto simp: active_def)
  have q: "queued s' = queued s" "used s' = used s" "v_taken s' = v_taken s" "pending s' = pending s" by (simp_all add: queued_def used_def pending_def s'_def)
  have mv: "moved s' b' = (b' \<noteq> b \<and> moved s b')" for b' by (auto simp: moved_def ch q)
  have sec: "sector_of s' b' = sector_of s b'" for b' by (simp add: sector_of_def s'_def)
  have "lens_ok s'" using len by (simp add: lens_ok_def s'_def)
  moreover have "owners_ok s'"
  proof -
    have "v_free s' ! w \<longleftrightarrow> (\<forall>b'. w \<notin> set (chain_of s' b'))" if "w < NUM" for w
    proof -
      have "v_free s' ! w \<longleftrightarrow> w \<in> {x, y, z} \<or> v_free s ! w" using len cd(2-4) that by (auto simp: s'_def nth_list_update)
      moreover have "v_free s ! w \<longleftrightarrow> (\<forall>b'. w \<notin> set (chain_of s b'))" using vinvD(2) [OF v] that by (simp add: owners_ok_def)
      moreover have "(\<forall>b'. w \<notin> set (chain_of s' b')) \<longleftrightarrow> w \<in> {x, y, z} \<or> (\<forall>b'. w \<notin> set (chain_of s b'))"
      proof (cases "w \<in> {x, y, z}")
        case True
        then show ?thesis using cd(10) unfolding ch by auto
      next
        case False
        then have "w \<notin> set (chain_of s b)" using c by simp
        then show ?thesis using False unfolding ch by auto
      qed
      ultimately show ?thesis by simp
    qed
    then show ?thesis using vinvD(2) [OF v] unfolding owners_ok_def ch by auto
  qed
  moreover have "chains_ok s'"
  proof -
    have "formed s' b' x' y' z'" if "b' \<noteq> b" "chain_of s b' = [x', y', z']" for b' x' y' z'
    proof -
      have n: "x' \<notin> {x, y, z}" "y' \<notin> {x, y, z}" "z' \<notin> {x, y, z}" using cd(10) [OF that(1)] that(2) by auto
      then have "v_desc s' ! x' = v_desc s ! x'" "v_desc s' ! y' = v_desc s ! y'" "v_desc s' ! z' = v_desc s ! z'" "v_info_b s' ! x' = v_info_b s ! x'"
        "v_ops s' = v_ops s" "v_write s' = v_write s" by (simp_all add: s'_def)
      then show ?thesis using chainD(8) [OF v that(2)] unfolding formed_def sec by simp
    qed
    then show ?thesis by (auto simp: chains_ok_def ch)
  qed
  moreover have "pending_ok s'"
  proof -
    have "\<exists>b' y' z'. chain_of s' b' = [w, y', z']" if w: "w \<in> set (pending s)" for w
    proof -
      obtain b' y' z' where b': "chain_of s b' = [w, y', z']" using pendingD(1) [OF v w] by blast
      then have "b' \<noteq> b" using w cd(9) d c by auto
      then show ?thesis using b' ch by auto
    qed
    moreover have "v_bdisk s' = v_bdisk s" "v_info_status s' = v_info_status s" by (simp_all add: s'_def)
    ultimately show ?thesis using vinvD(4) [OF v] unfolding pending_ok_def q ch by (simp split: if_splits)
  qed
  moreover have "sleepers_ok s'" using vinvD(5) [OF v] unfolding sleepers_ok_def pcs by (auto simp: s'_def)
  moreover have "data_ok s' (if v_write s b then D(sector_of s b := G b) else D) G"
  proof -
    have dt: "v_bdata s' = v_bdata s" "v_blocks s' = v_blocks s" "v_write s' = v_write s" by (simp_all add: s'_def)
    have a: "active s b" using c by (intro chain_active) simp
    have only: "b' = b" if "active s b'" "sector_of s b' = sector_of s b" for b' using vinvD(6) [OF v] that a by (simp add: data_ok_def)
    have blocks: "v_blocks s w = (if v_write s b then D(sector_of s b := G b) else D) w"
      if w: "\<forall>b'. b' \<noteq> b \<and> active s b' \<longrightarrow> v_write s b' \<longrightarrow> b' \<noteq> b \<and> moved s b' \<longrightarrow> sector_of s b' \<noteq> w" for w
    proof (cases "w = sector_of s b")
      case True
      then show ?thesis using finished [OF v c d] by auto
    next
      case False
      then have "\<forall>b'. active s b' \<longrightarrow> v_write s b' \<longrightarrow> moved s b' \<longrightarrow> sector_of s b' \<noteq> w" using w by metis
      then show ?thesis using vinvD(6) [OF v] False unfolding data_ok_def by auto
    qed
    show ?thesis using vinvD(6) [OF v] only blocks unfolding data_ok_def ac mv sec dt by auto
  qed
  ultimately have "vinv s' (if v_write s b then D(sector_of s b := G b) else D) G" by (simp add: vinv_def)
  then show ?thesis using run by (intro exI [of _ s']) (simp add: s'_def)
qed


section \<open>The interrupt handler\<close>

lemma intr_one_inv:
  assumes v: "vinv s D G" and ne: "v_seen_idx s \<noteq> v_used_idx s"
  shows "\<exists>s'. intr_one s = Some (Inr s') \<and> vinv s' D G \<and> length (used s') < length (used s)"
proof -
  define x where "x = v_used_ring s ! (unat (v_seen_idx s) mod NUM)"
  have u: "used s = x # ring_contents NUM (v_used_ring s) (v_seen_idx s + 1) (v_used_idx s)"
    unfolding used_def x_def by (rule ring_get) (use ne in simp)
  have xp: "x \<in> set (pending s)" using u by (simp add: pending_def)
  obtain b y z where c: "chain_of s b = [x, y, z]" using pendingD(1) [OF v xp] by blast
  note cd = chainD [OF v c]
  have st: "v_info_status s ! x = 0" using vinvD(4) [OF v] u by (simp add: pending_ok_def)
  define s' where "s' = s\<lparr>v_bdisk := (v_bdisk s)(b := False), v_pc := (v_pc s)(b := Waiting x y z), v_seen_idx := v_seen_idx s + 1\<rparr>"
  have "(case v_pc s b of Asleep x y z \<Rightarrow> Waiting x y z | q \<Rightarrow> q) = Waiting x y z" using c by (simp add: chain_of_def split: vpc.splits)
  then have run: "intr_one s = Some (Inr s')"
    using cd(2,8) st by (simp add: intr_one_def Let_def x_def [symmetric] formed_def wakeup_buf_def s'_def)
  have ch: "chain_of s' b' = chain_of s b'" for b' using c by (simp add: chain_of_def s'_def)
  have ac: "active s' b' = active s b'" for b' using c by (auto simp: active_def s'_def chain_of_def split: vpc.splits)
  have q: "queued s' = queued s" "v_taken s' = v_taken s" "used s = x # used s'" using u by (simp_all add: queued_def used_def s'_def)
  have p: "set (pending s) = insert x (set (pending s'))" "distinct (pending s')" "x \<notin> set (pending s')"
    using distinct_pending [OF v] by (auto simp: pending_def q)
  have mv: "moved s' b' = moved s b'" for b' by (simp add: moved_def ch q(1,2))
  have sec: "sector_of s' b' = sector_of s b'" for b' by (simp add: sector_of_def s'_def)
  have same: "v_desc s' = v_desc s" "v_ops s' = v_ops s" "v_info_b s' = v_info_b s" "v_write s' = v_write s" "v_info_status s' = v_info_status s" "v_bdata s' = v_bdata s"
    "v_blocks s' = v_blocks s" "v_free s' = v_free s" by (simp_all add: s'_def)
  have "lens_ok s'" "owners_ok s'" "chains_ok s'" "data_ok s' D G"
    using vinvD [OF v] by (simp_all add: lens_ok_def owners_ok_def chains_ok_def formed_def data_ok_def ch ac mv sec same) (simp add: s'_def)
  moreover have "pending_ok s'"
  proof -
    have "w \<in> set (pending s') \<longleftrightarrow> v_bdisk s' b'" if b': "chain_of s b' = [w, y', z']" for b' w y' z'
    proof (cases "b' = b")
      case True
      then show ?thesis using b' c p(3) by (simp add: s'_def)
    next
      case False
      then have "w \<noteq> x" using cd(10) [OF False] b' by auto
      then show ?thesis using chainD(9) [OF v b'] False p(1) by (simp add: s'_def)
    qed
    then show ?thesis using vinvD(4) [OF v] p(1,2) q(3) unfolding pending_ok_def ch same by auto
  qed
  moreover have "sleepers_ok s'"
  proof -
    have "free_set s' = free_set s" by (simp add: free_set_def s'_def)
    then show ?thesis using vinvD(5) [OF v] unfolding sleepers_ok_def by (auto simp: s'_def)
  qed
  ultimately have "vinv s' D G" by (simp add: vinv_def)
  then show ?thesis using run q(3) by simp
qed

lemma virtio_disk_intr_inv:
  assumes v: "vinv s D G"
  shows "\<exists>s'. virtio_disk_intr s = Some (Inr s') \<and> vinv s' D G \<and> used s' = []"
proof -
  obtain t where "while_run (\<lambda>s. v_seen_idx s \<noteq> v_used_idx s) intr_one s = Some (Inr t)" "vinv t D G" "\<not> v_seen_idx t \<noteq> v_used_idx t"
    by (rule while_run_total [of "\<lambda>s. vinv s D G" s "\<lambda>s. v_seen_idx s \<noteq> v_used_idx s" intr_one "\<lambda>s. length (used s)"])
      (use v intr_one_inv in auto)
  then show ?thesis by (auto simp: virtio_disk_intr_def used_def ring_empty)
qed

section \<open>The device\<close>

lemma device_take_inv:
  assumes v: "vinv s D G" and ne: "v_taken_idx s \<noteq> v_avail_idx s"
  shows "vinv (device_take s) D G"
proof -
  let ?s = "device_take s"
  define x where "x = v_avail_ring s ! (unat (v_taken_idx s) mod NUM)"
  have "queued s = x # ring_contents NUM (v_avail_ring s) (v_taken_idx s + 1) (v_avail_idx s)"
    unfolding queued_def x_def by (rule ring_get) (use ne in simp)
  then have q: "queued s = x # queued ?s" "v_taken ?s = v_taken s @ [x]" "used ?s = used s"
    by (simp_all add: queued_def used_def device_take_def x_def)
  have ch: "chain_of ?s b = chain_of s b" "active ?s b = active s b" "sector_of ?s b = sector_of s b" for b
    by (simp_all add: chain_of_def active_def sector_of_def device_take_def)
  have mv: "moved ?s b = moved s b" for b by (auto simp: moved_def ch q)
  have p: "set (pending ?s) = set (pending s)" "distinct (pending ?s) = distinct (pending s)" by (auto simp: pending_def q)
  have same: "v_desc ?s = v_desc s" "v_ops ?s = v_ops s" "v_info_b ?s = v_info_b s" "v_write ?s = v_write s" "v_info_status ?s = v_info_status s" "v_bdata ?s = v_bdata s"
    "v_blocks ?s = v_blocks s" "v_free ?s = v_free s" "v_bdisk ?s = v_bdisk s" "v_pc ?s = v_pc s" "v_avail_ring ?s = v_avail_ring s" "v_used_ring ?s = v_used_ring s"
    "free_set ?s = free_set s" by (simp_all add: device_take_def free_set_def)
  show ?thesis using v unfolding vinv_def lens_ok_def owners_ok_def chains_ok_def formed_def pending_ok_def sleepers_ok_def data_ok_def ch mv p q(3) same .
qed

lemma chain_at_formed:
  assumes v: "vinv s D G" and c: "chain_of s b = [x, y, z]"
  shows "chain_at x s = Some (v_write s b, sector_of s b, b, x)"
  using chainD(2-4,8) [OF v c] flag_facts unfolding formed_def chain_at_def
  by (auto simp: Let_def VIRTIO_BLK_T_OUT_def VIRTIO_BLK_T_IN_def)

lemma device_done_inv:
  assumes v: "vinv s D G" and t: "x \<in> set (v_taken s)" and c: "chain_of s b = [x, y, z]"
  shows "vinv (device_done x (v_write s b, sector_of s b, b, x) s) D G" (is "vinv ?s D G")
proof -
  note cd = chainD [OF v c]
  have len: "length (v_used_ring s) = NUM" "length (v_info_status s) = NUM" using vinvD(1) [OF v] by (simp_all add: lens_ok_def)
  have dp: "distinct (pending s)" by (rule distinct_pending [OF v])
  then have xn: "x \<notin> set (queued s)" "x \<notin> set (used s)" "distinct (v_taken s)" using t by (auto simp: pending_def)
  have "set (used s) \<subseteq> {..<NUM} - {x}" using pendingD(2) [OF v] xn(2) by (auto simp: pending_def)
  then have "unat (v_used_idx s - v_seen_idx s) < NUM" using short_list [of "used s" x] cd(2) dp by (simp add: used_def pending_def)
  then have "ring_contents NUM ((v_used_ring s)[unat (v_used_idx s) mod NUM := x]) (v_seen_idx s) (v_used_idx s + 1) = used s @ [x]"
    using ring_put [OF NUM_facts(1,2), where buf = "v_used_ring s"] len by (simp add: used_def)
  then have us: "used ?s = used s @ [x]" unfolding used_def [of ?s] by (simp add: device_done_def Let_def)
  have q: "queued ?s = queued s" "v_taken ?s = remove1 x (v_taken s)" by (simp_all add: queued_def device_done_def Let_def)
  note q = q us
  have ch: "chain_of ?s b' = chain_of s b'" "active ?s b' = active s b'" "sector_of ?s b' = sector_of s b'" for b'
    by (simp_all add: chain_of_def active_def sector_of_def device_done_def Let_def)
  have p: "set (pending ?s) = set (pending s)" "distinct (pending ?s)" using dp t by (auto simp: pending_def q distinct_remove1)
  have same: "v_desc ?s = v_desc s" "v_ops ?s = v_ops s" "v_info_b ?s = v_info_b s" "v_write ?s = v_write s" "v_free ?s = v_free s" "v_bdisk ?s = v_bdisk s" "v_pc ?s = v_pc s"
    "v_avail_ring ?s = v_avail_ring s" "free_set ?s = free_set s" "length (v_used_ring ?s) = length (v_used_ring s)" "v_info_status ?s = (v_info_status s)[x := 0]"
    "length ((v_info_status s)[x := 0]) = length (v_info_status s)"
    by (simp_all add: device_done_def free_set_def Let_def)
  have mb: "moved ?s b" "\<not> moved s b" using c xn t by (auto simp: moved_def ch q)
  have mo: "moved ?s b' = moved s b'" if "b' \<noteq> b" for b'
  proof -
    have "x \<notin> set (chain_of s b')" using cd(10) [OF that] by simp
    then show ?thesis using xn(3) by (auto simp: moved_def ch q)
  qed
  have ab: "active s b" using c by (intro chain_active) simp
  have only: "b' = b" if "active s b'" "sector_of s b' = sector_of s b" for b' using vinvD(6) [OF v] that ab by (simp add: data_ok_def)
  have bd: "v_bdata s b = G b" using vinvD(6) [OF v] ab mb(2) by (simp add: data_ok_def)
  have blk: "v_blocks s (sector_of s b) = D (sector_of s b)" using vinvD(6) [OF v] only mb(2) unfolding data_ok_def by metis
  have "pending_ok ?s"
    using vinvD(4) [OF v] p len cd(2) unfolding pending_ok_def ch q(3) same by (auto simp: nth_list_update)
  moreover have "data_ok ?s D G"
  proof (cases "v_write s b")
    case True
    then have d: "v_bdata ?s = v_bdata s" "v_blocks ?s = (v_blocks s)(sector_of s b := G b)" using bd by (simp_all add: device_done_def Let_def)
    have 1: "v_bdata s b' = (if moved ?s b' \<and> \<not> v_write s b' then D (sector_of s b') else G b')" if "active s b'" for b'
      using vinvD(6) [OF v] that mo [of b'] True bd by (cases "b' = b") (auto simp: data_ok_def)
    have 2: "((v_blocks s)(sector_of s b := G b)) (sector_of s b') = G b'" if "active s b'" "v_write s b'" "moved ?s b'" for b'
      using vinvD(6) [OF v] that mo [of b'] only [of b'] by (cases "b' = b") (auto simp: data_ok_def)
    have 3: "((v_blocks s)(sector_of s b := G b)) w = D w" if "\<forall>b'. active s b' \<longrightarrow> v_write s b' \<longrightarrow> moved ?s b' \<longrightarrow> sector_of s b' \<noteq> w" for w
    proof -
      have "w \<noteq> sector_of s b" using that ab True mb(1) by blast
      moreover have "\<forall>b'. active s b' \<longrightarrow> v_write s b' \<longrightarrow> moved s b' \<longrightarrow> sector_of s b' \<noteq> w" using that mo mb(2) by metis
      ultimately show ?thesis using vinvD(6) [OF v] by (simp add: data_ok_def)
    qed
    show ?thesis using vinvD(6) [OF v] 1 2 3 unfolding data_ok_def ch d same by blast
  next
    case False
    then have d: "v_bdata ?s = (v_bdata s)(b := D (sector_of s b))" "v_blocks ?s = v_blocks s" using blk by (simp_all add: device_done_def Let_def)
    have 1: "((v_bdata s)(b := D (sector_of s b))) b' = (if moved ?s b' \<and> \<not> v_write s b' then D (sector_of s b') else G b')" if "active s b'" for b'
      using vinvD(6) [OF v] that mo [of b'] False mb(1) by (cases "b' = b") (auto simp: data_ok_def)
    have w: "v_write s b' \<Longrightarrow> moved ?s b' = moved s b'" for b' using mo [of b'] False by (cases "b' = b") auto
    show ?thesis using vinvD(6) [OF v] 1 w unfolding data_ok_def ch d same by blast
  qed
  moreover have "lens_ok ?s \<and> owners_ok ?s \<and> chains_ok ?s \<and> sleepers_ok ?s"
    using v unfolding vinv_def lens_ok_def owners_ok_def chains_ok_def formed_def sleepers_ok_def ch same by blast
  ultimately show ?thesis by (simp add: vinv_def)
qed

lemma device_step_inv:
  assumes v: "vinv s D G" and d: "device_step s s'"
  shows "vinv s' D G"
  using d unfolding device_step_def
proof (elim disjE conjE bexE)
  fix x assume x: "x \<in> set (v_taken s)" "case chain_at x s of None \<Rightarrow> True | Some r \<Rightarrow> s' = device_done x r s"
  have "x \<in> set (pending s)" using x(1) by (simp add: pending_def)
  then obtain b y z where c: "chain_of s b = [x, y, z]" using pendingD(1) [OF v] by blast
  then show ?thesis using device_done_inv [OF v x(1) c] x(2) chain_at_formed [OF v c] by simp
qed (use device_take_inv [OF v] in simp)

end
