(* ===== verification/Virtio_Init.thy ===== *)
theory Virtio_Init
  imports Virtio
begin

text \<open>
  \<open>virtio_disk_init\<close> (\<open>kernel/virtio_disk.c\<close>): the check of the device, the negotiation of features, and the empty queue. What a register of the
  device reads as depends on what has been written to the registers before, so the device is a function from the writes so far. The
  three pages are the results of \<open>kalloc\<close>.
\<close>

unbundle bit_operations_syntax

section \<open>Registers\<close>

definition VIRTIO_MMIO_MAGIC_VALUE :: uint where "VIRTIO_MMIO_MAGIC_VALUE = 0x000"
definition VIRTIO_MMIO_VERSION :: uint where "VIRTIO_MMIO_VERSION = 0x004"
definition VIRTIO_MMIO_DEVICE_ID :: uint where "VIRTIO_MMIO_DEVICE_ID = 0x008"
definition VIRTIO_MMIO_VENDOR_ID :: uint where "VIRTIO_MMIO_VENDOR_ID = 0x00c"
definition VIRTIO_MMIO_DEVICE_FEATURES :: uint where "VIRTIO_MMIO_DEVICE_FEATURES = 0x010"
definition VIRTIO_MMIO_DRIVER_FEATURES :: uint where "VIRTIO_MMIO_DRIVER_FEATURES = 0x020"
definition VIRTIO_MMIO_QUEUE_SEL :: uint where "VIRTIO_MMIO_QUEUE_SEL = 0x030"
definition VIRTIO_MMIO_QUEUE_NUM_MAX :: uint where "VIRTIO_MMIO_QUEUE_NUM_MAX = 0x034"
definition VIRTIO_MMIO_QUEUE_NUM :: uint where "VIRTIO_MMIO_QUEUE_NUM = 0x038"
definition VIRTIO_MMIO_QUEUE_READY :: uint where "VIRTIO_MMIO_QUEUE_READY = 0x044"
definition VIRTIO_MMIO_STATUS :: uint where "VIRTIO_MMIO_STATUS = 0x070"
definition VIRTIO_MMIO_QUEUE_DESC_LOW :: uint where "VIRTIO_MMIO_QUEUE_DESC_LOW = 0x080"
definition VIRTIO_MMIO_QUEUE_DESC_HIGH :: uint where "VIRTIO_MMIO_QUEUE_DESC_HIGH = 0x084"
definition VIRTIO_MMIO_DRIVER_DESC_LOW :: uint where "VIRTIO_MMIO_DRIVER_DESC_LOW = 0x090"
definition VIRTIO_MMIO_DRIVER_DESC_HIGH :: uint where "VIRTIO_MMIO_DRIVER_DESC_HIGH = 0x094"
definition VIRTIO_MMIO_DEVICE_DESC_LOW :: uint where "VIRTIO_MMIO_DEVICE_DESC_LOW = 0x0a0"
definition VIRTIO_MMIO_DEVICE_DESC_HIGH :: uint where "VIRTIO_MMIO_DEVICE_DESC_HIGH = 0x0a4"
definition VIRTIO_CONFIG_S_ACKNOWLEDGE :: uint where "VIRTIO_CONFIG_S_ACKNOWLEDGE = 1"
definition VIRTIO_CONFIG_S_DRIVER :: uint where "VIRTIO_CONFIG_S_DRIVER = 2"
definition VIRTIO_CONFIG_S_DRIVER_OK :: uint where "VIRTIO_CONFIG_S_DRIVER_OK = 4"
definition VIRTIO_CONFIG_S_FEATURES_OK :: uint where "VIRTIO_CONFIG_S_FEATURES_OK = 8"
definition VIRTIO_BLK_F_RO :: nat where "VIRTIO_BLK_F_RO = 5"
definition VIRTIO_BLK_F_SCSI :: nat where "VIRTIO_BLK_F_SCSI = 7"
definition VIRTIO_BLK_F_CONFIG_WCE :: nat where "VIRTIO_BLK_F_CONFIG_WCE = 11"
definition VIRTIO_BLK_F_MQ :: nat where "VIRTIO_BLK_F_MQ = 12"
definition VIRTIO_F_ANY_LAYOUT :: nat where "VIRTIO_F_ANY_LAYOUT = 27"
definition VIRTIO_RING_F_INDIRECT_DESC :: nat where "VIRTIO_RING_F_INDIRECT_DESC = 28"
definition VIRTIO_RING_F_EVENT_IDX :: nat where "VIRTIO_RING_F_EVENT_IDX = 29"

section \<open>The set-up\<close>

definition disk_found :: "((uint \<times> uint) list \<Rightarrow> uint \<Rightarrow> uint) \<Rightarrow> bool" where
  "disk_found reg \<longleftrightarrow> reg [] VIRTIO_MMIO_MAGIC_VALUE = 0x74726976 \<and> reg [] VIRTIO_MMIO_VERSION = 2 \<and> reg [] VIRTIO_MMIO_DEVICE_ID = 2 \<and>
     reg [] VIRTIO_MMIO_VENDOR_ID = 0x554d4551"

definition driver_features :: "uint \<Rightarrow> uint64" where
  "driver_features f =
     (let f = ucast f;
          f = f AND NOT (push_bit VIRTIO_BLK_F_RO 1);
          f = f AND NOT (push_bit VIRTIO_BLK_F_SCSI 1);
          f = f AND NOT (push_bit VIRTIO_BLK_F_CONFIG_WCE 1);
          f = f AND NOT (push_bit VIRTIO_BLK_F_MQ 1);
          f = f AND NOT (push_bit VIRTIO_F_ANY_LAYOUT 1);
          f = f AND NOT (push_bit VIRTIO_RING_F_EVENT_IDX 1)
      in f AND NOT (push_bit VIRTIO_RING_F_INDIRECT_DESC 1))"

definition queue_writes :: "uint64 \<Rightarrow> uint64 \<Rightarrow> uint64 \<Rightarrow> (uint \<times> uint) list" where
  "queue_writes da aa ua =
     [(VIRTIO_MMIO_QUEUE_NUM, of_nat NUM),
      (VIRTIO_MMIO_QUEUE_DESC_LOW, ucast da), (VIRTIO_MMIO_QUEUE_DESC_HIGH, ucast (drop_bit 32 da)),
      (VIRTIO_MMIO_DRIVER_DESC_LOW, ucast aa), (VIRTIO_MMIO_DRIVER_DESC_HIGH, ucast (drop_bit 32 aa)),
      (VIRTIO_MMIO_DEVICE_DESC_LOW, ucast ua), (VIRTIO_MMIO_DEVICE_DESC_HIGH, ucast (drop_bit 32 ua)),
      (VIRTIO_MMIO_QUEUE_READY, 1)]"

definition virtio_disk_init :: "((uint \<times> uint) list \<Rightarrow> uint \<Rightarrow> uint) \<Rightarrow> uint64 \<Rightarrow> uint64 \<Rightarrow> uint64 \<Rightarrow> vdisk \<Rightarrow> ((uint \<times> uint) list \<times> vdisk) cresult" where
  "virtio_disk_init reg da aa ua s =
     (if \<not> disk_found reg then Inl (Panic ''could not find virtio disk'')
      else let status = 0; ws = [(VIRTIO_MMIO_STATUS, status)];
               status = status OR VIRTIO_CONFIG_S_ACKNOWLEDGE; ws = ws @ [(VIRTIO_MMIO_STATUS, status)];
               status = status OR VIRTIO_CONFIG_S_DRIVER; ws = ws @ [(VIRTIO_MMIO_STATUS, status)];
               ws = ws @ [(VIRTIO_MMIO_DRIVER_FEATURES, ucast (driver_features (reg ws VIRTIO_MMIO_DEVICE_FEATURES)))];
               status = status OR VIRTIO_CONFIG_S_FEATURES_OK; ws = ws @ [(VIRTIO_MMIO_STATUS, status)];
               status = reg ws VIRTIO_MMIO_STATUS
           in if status AND VIRTIO_CONFIG_S_FEATURES_OK = 0 then Inl (Panic ''virtio disk FEATURES_OK unset'')
              else let ws = ws @ [(VIRTIO_MMIO_QUEUE_SEL, 0)]
                   in if reg ws VIRTIO_MMIO_QUEUE_READY \<noteq> 0 then Inl (Panic ''virtio disk should not be ready'')
                      else let qmax = reg ws VIRTIO_MMIO_QUEUE_NUM_MAX
                           in if qmax = 0 then Inl (Panic ''virtio disk has no queue 0'')
                              else if unat qmax < NUM then Inl (Panic ''virtio disk max queue too short'')
                              else if da = 0 \<or> aa = 0 \<or> ua = 0 then Inl (Panic ''virtio disk kalloc'')
                              else let s = s\<lparr>v_desc := replicate NUM zero_desc, v_avail_idx := 0, v_avail_ring := replicate NUM 0,
                                             v_used_idx := 0, v_used_ring := replicate NUM 0\<rparr>;
                                       ws = ws @ queue_writes da aa ua;
                                       s = s\<lparr>v_free := replicate NUM True\<rparr>;
                                       status = status OR VIRTIO_CONFIG_S_DRIVER_OK
                                   in Inr (ws @ [(VIRTIO_MMIO_STATUS, status)], s))"

text \<open>The state before: the driver's static data, which starts as zero, and a device that has read nothing from the queue.\<close>

definition power_on :: "vdisk \<Rightarrow> bool" where
  "power_on s \<longleftrightarrow> length (v_info_b s) = NUM \<and> length (v_info_status s) = NUM \<and> length (v_ops s) = NUM \<and> v_seen_idx s = 0 \<and>
     v_pc s = (\<lambda>_. Idle) \<and> v_taken s = [] \<and> v_taken_idx s = 0"

section \<open>What is negotiated\<close>

lemma driver_features_bits:
  "bit (driver_features f) n \<longleftrightarrow> bit f n \<and> n \<notin> {VIRTIO_BLK_F_RO, VIRTIO_BLK_F_SCSI, VIRTIO_BLK_F_CONFIG_WCE, VIRTIO_BLK_F_MQ, VIRTIO_F_ANY_LAYOUT,
     VIRTIO_RING_F_EVENT_IDX, VIRTIO_RING_F_INDIRECT_DESC}"
  by (auto simp: driver_features_def Let_def bit_simps dest: bit_imp_le_length)

end
