(* ===== verification/Virtio_Run.thy ===== *)
theory Virtio_Run
  imports Virtio_Steps Virtio_Init
begin

text \<open>
  Runs of the disk driver: threads that call \<open>virtio_disk_rw\<close> on buffers they have locked, interrupts, and the device, in any order. Beside the
  state a run carries the abstract disk \<open>D\<close>, on which a request takes effect at once when it returns, and the contents \<open>G b\<close>
  that the buffer \<open>b\<close> had when its request began. The threads and the requests they make are arbitrary, except that two requests under way
  are never for the same block, since the buffer cache has one locked buffer for each block.
\<close>

section \<open>Runs\<close>

definition rw_call :: "nat \<Rightarrow> bool \<Rightarrow> uint \<Rightarrow> block \<Rightarrow> vdisk \<Rightarrow> vdisk" where
  "rw_call b w no d s = s\<lparr>v_write := (v_write s)(b := w), v_blockno := (v_blockno s)(b := no), v_bdata := (v_bdata s)(b := d), v_pc := (v_pc s)(b := Trying)\<rparr>"

definition disk_ready :: "vdisk \<Rightarrow> bool" where
  "disk_ready s \<longleftrightarrow> lens_ok s \<and> v_free s = replicate NUM True \<and> v_pc s = (\<lambda>_. Idle) \<and> v_taken s = [] \<and> v_avail_idx s = v_taken_idx s \<and> v_used_idx s = v_seen_idx s"

inductive vrun :: "(vdisk \<Rightarrow> vdisk \<Rightarrow> bool) \<Rightarrow> vdisk \<Rightarrow> (uint64 \<Rightarrow> block) \<Rightarrow> (nat \<Rightarrow> block) \<Rightarrow> bool" for step where
  start: "power_on s0 \<Longrightarrow> virtio_disk_init reg da aa ua s0 = Inr (ws, s) \<Longrightarrow> vrun step s (v_blocks s) G"
| call: "vrun step s D G \<Longrightarrow> v_pc s b = Idle \<Longrightarrow> (\<And>b'. active s b' \<Longrightarrow> sector_of s b' \<noteq> ucast (no * 2)) \<Longrightarrow> vrun step (rw_call b w no d s) D (G(b := d))"
| attempt: "vrun step s D G \<Longrightarrow> v_pc s b = Trying \<Longrightarrow> rw_try b s = Inr s' \<Longrightarrow> vrun step s' D G"
| sleep_on: "vrun step s D G \<Longrightarrow> v_pc s b = Waiting x y z \<Longrightarrow> v_bdisk s b \<Longrightarrow> rw_wait b x y z s = Some (Inr s') \<Longrightarrow> vrun step s' D G"
| return: "vrun step s D G \<Longrightarrow> v_pc s b = Waiting x y z \<Longrightarrow> \<not> v_bdisk s b \<Longrightarrow> rw_wait b x y z s = Some (Inr s') \<Longrightarrow>
    vrun step s' (if v_write s b then D(sector_of s b := G b) else D) G"
| interrupt: "vrun step s D G \<Longrightarrow> virtio_disk_intr s = Some (Inr s') \<Longrightarrow> vrun step s' D G"
| device: "vrun step s D G \<Longrightarrow> step s s' \<Longrightarrow> vrun step s' D G"

lemma init_ready: "power_on s0 \<Longrightarrow> virtio_disk_init reg da aa ua s0 = Inr (ws, s) \<Longrightarrow> disk_ready s"
  by (auto simp: virtio_disk_init_def Let_def disk_ready_def lens_ok_def power_on_def split: if_splits)

lemma ready_inv:
  assumes "disk_ready s"
  shows "vinv s (v_blocks s) G"
proof -
  have c: "chain_of s b = []" "\<not> active s b" for b using assms by (simp_all add: disk_ready_def chain_of_def active_def)
  have q: "queued s = []" "used s = []" "pending s = []" using assms by (simp_all add: disk_ready_def queued_def used_def pending_def ring_empty)
  have "owners_ok s" using assms by (simp add: owners_ok_def c disk_ready_def)
  moreover have "sleepers_ok s" using assms by (simp add: sleepers_ok_def disk_ready_def)
  ultimately show ?thesis using assms by (simp add: vinv_def chains_ok_def pending_ok_def data_ok_def c q disk_ready_def)
qed

lemma call_inv:
  assumes v: "vinv s D G" and pc: "v_pc s b = Idle" and n: "\<And>b'. active s b' \<Longrightarrow> sector_of s b' \<noteq> ucast (no * 2)"
  shows "vinv (rw_call b w no d s) D (G(b := d))" (is "vinv ?s _ _")
proof -
  have cb: "chain_of s b = []" "\<not> active s b" using pc by (simp_all add: chain_of_def active_def)
  have ch: "chain_of ?s b' = chain_of s b'" for b' using pc by (simp add: chain_of_def rw_call_def)
  have ac: "active ?s b' \<longleftrightarrow> b' = b \<or> active s b'" for b' by (simp add: active_def rw_call_def)
  have q: "queued ?s = queued s" "used ?s = used s" "v_taken ?s = v_taken s" "pending ?s = pending s" by (simp_all add: queued_def used_def pending_def rw_call_def)
  have mv: "moved ?s b' = moved s b'" for b' by (simp add: moved_def ch q)
  have mb: "\<not> moved s b" by (simp add: moved_def cb)
  have sec: "sector_of ?s b' = (if b' = b then ucast (no * 2) else sector_of s b')" for b' by (simp add: sector_of_def rw_call_def)
  have same: "v_desc ?s = v_desc s" "v_ops ?s = v_ops s" "v_info_b ?s = v_info_b s" "v_info_status ?s = v_info_status s" "v_blocks ?s = v_blocks s" "v_free ?s = v_free s"
    "v_bdisk ?s = v_bdisk s" "v_write ?s = (v_write s)(b := w)" "v_bdata ?s = (v_bdata s)(b := d)" "v_avail_ring ?s = v_avail_ring s" "v_used_ring ?s = v_used_ring s"
    "free_set ?s = free_set s" by (simp_all add: rw_call_def free_set_def)
  have "lens_ok ?s" "owners_ok ?s" "pending_ok ?s" using vinvD(1,2,4) [OF v] unfolding lens_ok_def owners_ok_def pending_ok_def ch q same by auto
  moreover have "chains_ok ?s"
  proof -
    have "formed ?s b' x y z" if "chain_of s b' = [x, y, z]" for b' x y z
    proof -
      have "b' \<noteq> b" using that cb by auto
      then show ?thesis using chainD(8) [OF v that] unfolding formed_def same sec by simp
    qed
    then show ?thesis by (simp add: chains_ok_def ch)
  qed
  moreover have "sleepers_ok ?s" using vinvD(5) [OF v] unfolding sleepers_ok_def same by (auto simp: rw_call_def)
  moreover have "data_ok ?s D (G(b := d))"
  proof -
    have ne: "b' \<noteq> b" if "active s b'" for b' using that cb by auto
    have w: "v_blocks s x = D x" if "\<forall>b'. b' = b \<or> active s b' \<longrightarrow> ((v_write s)(b := w)) b' \<longrightarrow> moved s b' \<longrightarrow> (if b' = b then ucast (no * 2) else sector_of s b') \<noteq> x" for x
    proof -
      have "\<forall>b'. active s b' \<longrightarrow> v_write s b' \<longrightarrow> moved s b' \<longrightarrow> sector_of s b' \<noteq> x" using that ne by (metis fun_upd_other)
      then show ?thesis using vinvD(6) [OF v] by (simp add: data_ok_def)
    qed
    have n': "ucast (no * 2) \<noteq> sector_of s b'" if "active s b'" for b' using n [OF that] by simp
    show ?thesis using vinvD(6) [OF v] n n' mb ne w unfolding data_ok_def ac mv sec same by auto
  qed
  ultimately show ?thesis by (simp add: vinv_def)
qed

lemma vrun_inv:
  assumes st: "\<And>s s'. step s s' \<Longrightarrow> device_step s s'" and "vrun step s D G"
  shows "vinv s D G"
  using assms(2)
proof induction
  case (start s0 reg da aa ua ws s G)
  then show ?case by (intro ready_inv init_ready)
next
  case (call s D G b no w d)
  then show ?case by (intro call_inv) auto
next
  case (attempt s D G b s')
  then show ?case using rw_try_inv by fastforce
next
  case (sleep_on s D G b x y z s')
  then show ?case using rw_wait_sleeps by (auto simp: rw_wait_def)
next
  case (return s D G b x y z s')
  then show ?case using rw_wait_returns by fastforce
next
  case (interrupt s D G s')
  then show ?case using virtio_disk_intr_inv by fastforce
next
  case (device s D G s')
  then show ?case using device_step_inv st by blast
qed

section \<open>The properties of the driver\<close>

lemma asleep_pending:
  assumes v: "vinv s D G" and c: "v_pc s b = Asleep x y z"
  shows "x \<in> set (pending s)"
proof -
  have "chain_of s b = [x, y, z]" "v_bdisk s b" using c vinvD(5) [OF v] by (auto simp: chain_of_def sleepers_ok_def)
  then show ?thesis using chainD(9) [OF v] by blast
qed

lemma sleeper_owner:
  assumes v: "vinv s D G" and c: "v_pc s b = Sleep_desc"
  shows "\<exists>b'. chain_of s b' \<noteq> []"
proof (rule ccontr)
  assume "\<nexists>b'. chain_of s b' \<noteq> []"
  then have "free_set s = {..<NUM}" using vinvD(2) [OF v] by (auto simp: free_set_def owners_ok_def)
  then show False using c vinvD(5) [OF v] by (auto simp: sleepers_ok_def NUM_def)
qed

section \<open>A run\<close>

text \<open>A write of block 5, from the call to just before its return.\<close>

definition disk_off :: vdisk where
  "disk_off = \<lparr>v_desc = [], v_avail_idx = 0, v_avail_ring = [], v_used_idx = 0, v_used_ring = [],
     v_free = replicate NUM False, v_seen_idx = 0, v_info_b = replicate NUM None, v_info_status = replicate NUM 0,
     v_ops = replicate NUM \<lparr>q_type = 0, q_reserved = 0, q_sector = 0\<rparr>, v_bdisk = (\<lambda>_. False), v_blockno = (\<lambda>_. 0), v_bdata = (\<lambda>_. []), v_write = (\<lambda>_. False),
     v_pc = (\<lambda>_. Idle), v_taken_idx = 0, v_taken = [], v_blocks = (\<lambda>_. [])\<rparr>"

definition qemu :: "(uint \<times> uint) list \<Rightarrow> uint \<Rightarrow> uint" where
  "qemu ws r = (if r = 0 then 0x74726976 else if r = 4 \<or> r = 8 then 2 else if r = 0xc then 0x554d4551 else if r = 0x70 then 11 else if r = 0x34 then 1024 else 0)"

definition disk0 :: vdisk where "disk0 = snd (projr (virtio_disk_init qemu 0x87fff000 0x87ffe000 0x87ffd000 disk_off))"
definition disk_called :: vdisk where "disk_called = rw_call 0 True 5 [7] disk0"
definition disk_submitted :: vdisk where "disk_submitted = projr (rw_try 0 disk_called)"
definition disk_served :: vdisk where "disk_served = (let s = device_take disk_submitted in device_done 0 (the (chain_at 0 s)) s)"
definition disk_finished :: vdisk where "disk_finished = projr (the (virtio_disk_intr disk_served))"


lemma disk0_init: "power_on disk_off" "virtio_disk_init qemu 0x87fff000 0x87ffe000 0x87ffd000 disk_off = Inr (fst (projr (virtio_disk_init qemu 0x87fff000 0x87ffe000 0x87ffd000 disk_off)), disk0)"
proof -
  show "power_on disk_off" by (simp add: power_on_def disk_off_def)
  have "\<not> isl (virtio_disk_init qemu 0x87fff000 0x87ffe000 0x87ffd000 disk_off)" by code_simp
  then show "virtio_disk_init qemu 0x87fff000 0x87ffe000 0x87ffd000 disk_off = Inr (fst (projr (virtio_disk_init qemu 0x87fff000 0x87ffe000 0x87ffd000 disk_off)), disk0)"
    by (simp add: disk0_def)
qed

lemmas disk0_ready = init_ready [OF disk0_init, unfolded disk_ready_def]

lemma run_submitted: "vrun device_step disk_submitted (v_blocks disk0) ((\<lambda>_. [])(0 := [7]))"
proof -
  have "vrun device_step disk0 (v_blocks disk0) (\<lambda>_. [])" by (rule vrun.start [OF disk0_init])
  then have "vrun device_step disk_called (v_blocks disk0) ((\<lambda>_. [])(0 := [7]))"
    unfolding disk_called_def by (rule vrun.call) (simp_all add: disk0_ready active_def)
  moreover have "v_pc disk_called 0 = Trying" by code_simp
  moreover have "\<not> isl (rw_try 0 disk_called)" by code_simp
  then have "rw_try 0 disk_called = Inr disk_submitted" by (simp add: disk_submitted_def)
  ultimately show ?thesis by (rule vrun.attempt)
qed

lemma run_finished: "vrun device_step disk_finished (v_blocks disk0) ((\<lambda>_. [])(0 := [7]))"
proof -
  have "v_taken_idx disk_submitted \<noteq> v_avail_idx disk_submitted" by code_simp
  then have "vrun device_step (device_take disk_submitted) (v_blocks disk0) ((\<lambda>_. [])(0 := [7]))"
    by (intro vrun.device [OF run_submitted]) (simp add: device_step_def)
  moreover have "chain_at 0 (device_take disk_submitted) \<noteq> None" "0 \<in> set (v_taken (device_take disk_submitted))" by code_simp+
  then have "device_step (device_take disk_submitted) disk_served" unfolding device_step_def disk_served_def Let_def by force
  ultimately have "vrun device_step disk_served (v_blocks disk0) ((\<lambda>_. [])(0 := [7]))" by (rule vrun.device)
  moreover have "virtio_disk_intr disk_served \<noteq> None" "\<not> isl (the (virtio_disk_intr disk_served))" by code_simp+
  then have "virtio_disk_intr disk_served = Some (Inr disk_finished)" by (auto simp: disk_finished_def)
  ultimately show ?thesis by (rule vrun.interrupt)
qed

section \<open>The theorems\<close>

text \<open>
  Property C11 (the disk driver moves the right data): the device is taken to serve requests as the virtio specification says, in any order. Then in every
  run of any number of threads no step of the driver panics, follows a null pointer, leaves an array or runs forever; when a write is about to
  return, its block on the disk has the contents the buffer had at the call; when a read is about to return, its buffer has
  the contents of the block on the abstract disk; and blocks that are not being written are as the finished requests have left them.
\<close>

theorem disk_rw_correct:
  assumes "\<And>s s'. step s s' \<Longrightarrow> device_step s s'" and "vrun step s D G"
  shows "(v_pc s b = Trying \<longrightarrow> (\<exists>s'. rw_try b s = Inr s')) \<and>
    (v_pc s b = Waiting x y z \<longrightarrow> (\<exists>s'. rw_wait b x y z s = Some (Inr s'))) \<and>
    (\<exists>s'. virtio_disk_intr s = Some (Inr s')) \<and>
    (v_pc s b = Waiting x y z \<longrightarrow> \<not> v_bdisk s b \<longrightarrow>
      (if v_write s b then v_blocks s (sector_of s b) = G b else v_bdata s b = D (sector_of s b))) \<and>
    ((\<forall>b'. active s b' \<longrightarrow> v_write s b' \<longrightarrow> sector_of s b' \<noteq> sec) \<longrightarrow> v_blocks s sec = D sec)"
proof -
  have v: "vinv s D G" by (rule vrun_inv [OF assms])
  have w: "\<exists>s'. rw_wait b x y z s = Some (Inr s')" if "v_pc s b = Waiting x y z"
    using rw_wait_returns [OF v that] by (cases "v_bdisk s b") (auto simp: rw_wait_def)
  have f: "if v_write s b then v_blocks s (sector_of s b) = G b else v_bdata s b = D (sector_of s b)" if "v_pc s b = Waiting x y z" "\<not> v_bdisk s b"
    using finished [OF v _ that(2), of x y z] that(1) by (auto simp: chain_of_def)
  have "v_blocks s sec = D sec" if "\<forall>b'. active s b' \<longrightarrow> v_write s b' \<longrightarrow> sector_of s b' \<noteq> sec"
    using vinvD(6) [OF v] that by (simp add: data_ok_def)
  then show ?thesis using w f rw_try_inv [OF v] virtio_disk_intr_inv [OF v] by blast
qed

theorem disk_rw_correct_witness:
  "v_pc disk_finished 0 = Waiting 0 1 2 \<and> v_write disk_finished 0 \<and> sector_of disk_finished 0 = 10 \<and> v_blocks disk_finished 10 = [7] \<and>
    (\<exists>s'. rw_wait 0 0 1 2 disk_finished = Some (Inr s'))"
proof -
  have p: "v_pc disk_finished 0 = Waiting 0 1 2" by code_simp
  have q: "\<not> v_bdisk disk_finished 0" by code_simp
  have w: "v_write disk_finished 0" by code_simp
  have s: "sector_of disk_finished 0 = 10" by code_simp
  show ?thesis using disk_rw_correct [of device_step, OF _ run_finished, where b = 0 and x = 0 and y = 1 and z = 2] p q w s by simp
qed

text \<open>
  Property C12 (no wake-up is lost in the disk driver): when a request is under way and no thread can run, since all of them sleep, for descriptors or
  for their requests, then a request waits for the device in the ring, the device works on one, or a finished one waits for the interrupt handler. So
  the threads never sleep with nobody left to wake them up.
\<close>

theorem disk_no_lost_wakeup:
  assumes "\<And>s s'. step s s' \<Longrightarrow> device_step s s'" and "vrun step s D G" and "active s b"
    and "\<And>b'. v_pc s b' \<noteq> Trying" and "\<And>b' x y z. v_pc s b' \<noteq> Waiting x y z"
  shows "v_taken_idx s \<noteq> v_avail_idx s \<or> v_taken s \<noteq> [] \<or> v_seen_idx s \<noteq> v_used_idx s"
proof -
  have v: "vinv s D G" by (rule vrun_inv [OF assms(1,2)])
  have pc: "v_pc s b' = Idle \<or> v_pc s b' = Sleep_desc \<or> (\<exists>x y z. v_pc s b' = Asleep x y z)" for b' using assms(4,5) [of b'] by (cases "v_pc s b'") auto
  have "\<exists>b' x y z. v_pc s b' = Asleep x y z"
  proof (cases "v_pc s b = Sleep_desc")
    case True
    then obtain b' where "chain_of s b' \<noteq> []" using sleeper_owner [OF v] by blast
    then show ?thesis using pc [of b'] by (auto simp: chain_of_def)
  qed (use pc [of b] assms(3) in \<open>auto simp: active_def\<close>)
  then have "pending s \<noteq> []" using asleep_pending [OF v] by fastforce
  then show ?thesis by (auto simp: pending_def queued_def used_def ring_empty_iff)
qed

theorem disk_no_lost_wakeup_witness:
  "active disk_submitted 0 \<and> v_taken disk_submitted = [] \<and> v_seen_idx disk_submitted = v_used_idx disk_submitted \<and>
    v_taken_idx disk_submitted \<noteq> v_avail_idx disk_submitted"
proof -
  have pc: "v_pc disk_submitted 0 = Asleep 0 1 2" by code_simp
  have other: "v_pc disk_submitted b = Idle" if "b \<noteq> 0" for b
  proof -
    have c: "v_pc disk_called b = Idle" "lens_ok disk_called" using that disk0_ready by (simp_all add: disk_called_def rw_call_def lens_ok_def)
    show ?thesis by (cases rule: alloc3_desc_cases [OF c(2)]) (use that c(1) in \<open>auto simp: disk_submitted_def rw_try_def Let_def rw_submit_simps awaken_def\<close>)
  qed
  have "v_pc disk_submitted b \<noteq> Trying" "v_pc disk_submitted b \<noteq> Waiting x y z" for b x y z using pc other [of b] by (cases "b = 0"; simp)+
  moreover have a: "active disk_submitted 0" by (simp add: active_def pc)
  moreover have t: "v_taken disk_submitted = []" by code_simp
  moreover have u: "v_seen_idx disk_submitted = v_used_idx disk_submitted" by code_simp
  ultimately show ?thesis using disk_no_lost_wakeup [of device_step, OF _ run_submitted a] by blast
qed

end
