(* ===== verification/Uart.thy ===== *)
theory Uart
  imports Ring
begin

text \<open>
  The transmit side of the UART driver (\<open>kernel/uart.c\<close>). The device is the list \<open>sent\<close> of
  bytes stored to its holding register and the parameter \<open>idle\<close>: \<open>idle k\<close> is whether the
  \<open>k\<close>-th read of the line status register shows \<open>LSR_TX_IDLE\<close>. Each function runs under
  \<open>uart_tx_lock\<close>; \<open>uartputc\<close> sleeps when the buffer is full.
\<close>

definition UART_TX_BUF_SIZE :: nat where "UART_TX_BUF_SIZE = 32"

record uart =
  uart_tx_buf :: "uchar list"
  uart_tx_w :: uint64
  uart_tx_r :: uint64
  sent :: "uchar list"       \<comment> \<open>stores to \<open>THR\<close>\<close>
  lsr_reads :: nat           \<comment> \<open>reads of \<open>LSR\<close> so far\<close>
  wakeups :: nat             \<comment> \<open>calls of \<open>wakeup(&uart_tx_r)\<close>\<close>

definition uart_put :: "uart \<Rightarrow> uchar \<Rightarrow> uart" where
  "uart_put u c = u\<lparr>uart_tx_buf := (uart_tx_buf u)[unat (uart_tx_w u) mod UART_TX_BUF_SIZE := c],
     uart_tx_w := uart_tx_w u + 1\<rparr>"

definition uart_get :: "uart \<Rightarrow> uchar \<times> uart" where
  "uart_get u = (uart_tx_buf u ! (unat (uart_tx_r u) mod UART_TX_BUF_SIZE), u\<lparr>uart_tx_r := uart_tx_r u + 1\<rparr>)"

text \<open>The loop of \<open>uartstart\<close> ends when the buffer is empty or the device is busy.\<close>

function uartstart :: "(nat \<Rightarrow> bool) \<Rightarrow> uart \<Rightarrow> uart" where
  "uartstart idle u =
     (if uart_tx_w u = uart_tx_r u then u
      else let busy = \<not> idle (lsr_reads u); u = u\<lparr>lsr_reads := Suc (lsr_reads u)\<rparr>
           in if busy then u
              else let (c, u) = uart_get u; u = u\<lparr>wakeups := Suc (wakeups u)\<rparr>
                   in uartstart idle (u\<lparr>sent := sent u @ [c]\<rparr>))"
  by pat_completeness auto
termination
proof (relation "measure (\<lambda>(idle, u). unat (uart_tx_w u - uart_tx_r u))", simp, goal_cases)
  case (1 idle u busy u1 p c u2 u3)
  then have ne: "uart_tx_w u \<noteq> uart_tx_r u" by simp
  show ?case using ring_get_length [OF ne] 1 by (auto simp: uart_get_def)
qed

declare uartstart.simps [simp del]

text \<open>\<open>None\<close>: the caller spins forever because the kernel has panicked. \<open>Inl\<close>: it sleeps.\<close>

definition uartputc :: "(nat \<Rightarrow> bool) \<Rightarrow> bool \<Rightarrow> uchar \<Rightarrow> uart \<Rightarrow> (uart + uart) option" where
  "uartputc idle panicked c u =
     (if panicked then None
      else if uart_tx_w u = uart_tx_r u + of_nat UART_TX_BUF_SIZE then Some (Inl u)
      else Some (Inr (uartstart idle (uart_put u c))))"

section \<open>The transmit buffer is a bounded byte queue\<close>

definition uart_inv :: "uart \<Rightarrow> bool" where
  "uart_inv u \<longleftrightarrow> length (uart_tx_buf u) = UART_TX_BUF_SIZE \<and> unat (uart_tx_w u - uart_tx_r u) \<le> UART_TX_BUF_SIZE"

definition uart_pending :: "uart \<Rightarrow> uchar list" where
  "uart_pending u = ring_contents UART_TX_BUF_SIZE (uart_tx_buf u) (uart_tx_r u) (uart_tx_w u)"

lemma UART_TX_BUF_SIZE_word: "UART_TX_BUF_SIZE dvd 2 ^ LENGTH(64)" "UART_TX_BUF_SIZE < 2 ^ LENGTH(64)"
  by (simp_all add: UART_TX_BUF_SIZE_def)

lemma uart_full_iff:
  "uart_tx_w u = uart_tx_r u + of_nat UART_TX_BUF_SIZE \<longleftrightarrow> length (uart_pending u) = UART_TX_BUF_SIZE"
  unfolding uart_pending_def by (rule ring_full_iff [OF UART_TX_BUF_SIZE_word(2)])

lemma uart_empty_iff: "uart_tx_r u = uart_tx_w u \<longleftrightarrow> uart_pending u = []"
  unfolding uart_pending_def by (rule ring_empty_iff [symmetric])

interpretation uq: ring uart_inv uart_pending UART_TX_BUF_SIZE uart_put uart_get
proof
  fix u show "length (uart_pending u) \<le> UART_TX_BUF_SIZE" if "uart_inv u"
    using that by (simp add: uart_inv_def uart_pending_def)
next
  fix u b assume u: "uart_inv u" "length (uart_pending u) < UART_TX_BUF_SIZE"
  then have room: "unat (uart_tx_w u - uart_tx_r u) < UART_TX_BUF_SIZE" by (simp add: uart_pending_def)
  have "uart_pending (uart_put u b) = uart_pending u @ [b]"
    unfolding uart_pending_def uart_put_def
    using ring_put [OF UART_TX_BUF_SIZE_word room, of "uart_tx_buf u" b] u by (simp add: uart_inv_def)
  moreover have "unat (uart_tx_w u + 1 - uart_tx_r u) \<le> UART_TX_BUF_SIZE"
    using unat_Suc_diff [OF room UART_TX_BUF_SIZE_word(2)] room by simp
  ultimately show "uart_inv (uart_put u b) \<and> uart_pending (uart_put u b) = uart_pending u @ [b]"
    using u by (simp add: uart_inv_def uart_put_def)
next
  fix u b bs assume u: "uart_inv u" "uart_pending u = b # bs"
  then have ne: "uart_tx_w u \<noteq> uart_tx_r u" using uart_empty_iff [of u] by auto
  have "unat (uart_tx_w u - (uart_tx_r u + 1)) \<le> UART_TX_BUF_SIZE"
    using ring_get_length [OF ne] u(1) by (simp add: uart_inv_def)
  then show "fst (uart_get u) = b \<and> uart_inv (snd (uart_get u)) \<and> uart_pending (snd (uart_get u)) = bs"
    using ring_get [OF ne, of UART_TX_BUF_SIZE "uart_tx_buf u"] u
    by (simp add: uart_get_def uart_pending_def uart_inv_def)
qed

lemma uart_frame [simp]:
  "uart_inv (u\<lparr>lsr_reads := k\<rparr>) = uart_inv u" "uart_pending (u\<lparr>lsr_reads := k\<rparr>) = uart_pending u"
  "uart_inv (u\<lparr>wakeups := k\<rparr>) = uart_inv u" "uart_pending (u\<lparr>wakeups := k\<rparr>) = uart_pending u"
  "uart_inv (u\<lparr>sent := bs\<rparr>) = uart_inv u" "uart_pending (u\<lparr>sent := bs\<rparr>) = uart_pending u"
  by (simp_all add: uart_inv_def uart_pending_def)

lemma uartstart_sends:
  "uart_inv u \<Longrightarrow> uart_inv (uartstart idle u) \<and> sent (uartstart idle u) @ uart_pending (uartstart idle u)
     = sent u @ uart_pending u \<and> (uart_pending (uartstart idle u) = [] \<or> (\<exists>k\<ge>lsr_reads u. \<not> idle k))"
proof (induction idle u rule: uartstart.induct)
  case (1 idle u)
  show ?case
  proof (cases "uart_tx_w u = uart_tx_r u")
    case True
    then show ?thesis using 1(2) uart_empty_iff [of u] by (subst (1 2 3 4) uartstart.simps) auto
  next
    case False
    then obtain c cs where p: "uart_pending u = c # cs" using uart_empty_iff [of u] by (cases "uart_pending u") auto
    let ?u = "u\<lparr>lsr_reads := Suc (lsr_reads u)\<rparr>"
    show ?thesis
    proof (cases "idle (lsr_reads u)")
      case True
      obtain u2 where g: "uart_get ?u = (c, u2)" "uart_inv u2" "uart_pending u2 = cs"
        using uq.get [of ?u c cs] 1(2) p by (cases "uart_get ?u") auto
      have s2: "sent u2 = sent u" "lsr_reads u2 = Suc (lsr_reads u)" using g(1) by (auto simp: uart_get_def)
      let ?v = "u2\<lparr>wakeups := Suc (wakeups u2), sent := sent u2 @ [c]\<rparr>"
      have step: "uartstart idle u = uartstart idle ?v"
        using False True g(1) by (subst uartstart.simps) (simp add: Let_def)
      have "uart_inv (uartstart idle ?v) \<and> sent (uartstart idle ?v) @ uart_pending (uartstart idle ?v)
          = sent ?v @ uart_pending ?v \<and> (uart_pending (uartstart idle ?v) = [] \<or> (\<exists>k\<ge>lsr_reads ?v. \<not> idle k))"
        using 1(1) [OF False refl refl _ g(1) [symmetric] refl] True g(2) by simp
      then show ?thesis unfolding step using p g(3) s2 by (auto intro: Suc_leD)
    next
      case busy: False
      then have "uartstart idle u = ?u" using False by (subst uartstart.simps) (simp add: Let_def)
      then show ?thesis using 1(2) busy by auto
    qed
  qed
qed

text \<open>The driver's entry points, in the order in which they hold the lock.\<close>

datatype uart_call = Putc uchar | Intr

definition exec_call :: "(nat \<Rightarrow> bool) \<Rightarrow> uart_call \<Rightarrow> uart \<Rightarrow> uart \<times> uchar list" where
  "exec_call idle e u =
     (case e of
        Putc c \<Rightarrow> (case uartputc idle False c u of Some (Inr u') \<Rightarrow> (u', [c]) | _ \<Rightarrow> (u, []))
      | Intr \<Rightarrow> (uartstart idle u, []))"

fun exec_calls :: "(nat \<Rightarrow> bool) \<Rightarrow> uart_call list \<Rightarrow> uart \<Rightarrow> uart \<times> uchar list" where
  "exec_calls idle [] u = (u, [])"
| "exec_calls idle (e # es) u =
     (let (u, acc) = exec_call idle e u; (u, acc') = exec_calls idle es u in (u, acc @ acc'))"

lemma exec_call_stream:
  assumes "uart_inv u" "exec_call idle e u = (u', acc)"
  shows "uart_inv u' \<and> sent u @ uart_pending u @ acc = sent u' @ uart_pending u'"
proof (cases e)
  case (Putc c)
  show ?thesis
  proof (cases "uart_tx_w u = uart_tx_r u + of_nat UART_TX_BUF_SIZE")
    case True
    then show ?thesis using assms Putc by (simp add: exec_call_def uartputc_def)
  next
    case False
    then have room: "length (uart_pending u) < UART_TX_BUF_SIZE"
      using uart_full_iff [of u] uq.bounded [OF assms(1)] by auto
    have put: "uart_inv (uart_put u c)" "uart_pending (uart_put u c) = uart_pending u @ [c]"
      using uq.put [OF assms(1) room, of c] by auto
    have "u' = uartstart idle (uart_put u c)" "acc = [c]" "sent (uart_put u c) = sent u"
      using assms(2) Putc False by (auto simp: exec_call_def uartputc_def uart_put_def)
    then show ?thesis using uartstart_sends [OF put(1), of idle] put(2) by simp
  qed
next
  case Intr
  then show ?thesis using assms uartstart_sends [OF assms(1), of idle] by (auto simp: exec_call_def)
qed

text \<open>
  Also proved (the UART loses nothing): over any interleaving of \<open>uartputc\<close> calls and transmit
  interrupts, whatever the device status, the bytes stored to the device followed by those
  still in the buffer are the bytes accepted by \<open>uartputc\<close>, in order; and a further
  \<open>uartstart\<close> that never finds the device busy sends all of them.
\<close>

theorem uart_stream:
  assumes "length buf = 32"
    and "exec_calls idle es \<lparr>uart_tx_buf = buf, uart_tx_w = 0, uart_tx_r = 0, sent = [], lsr_reads = 0, wakeups = 0\<rparr>
           = (u, acc)"
  shows "acc = sent u @ uart_pending u \<and> length (uart_pending u) \<le> 32 \<and> sent (uartstart (\<lambda>_. True) u) = acc"
proof -
  let ?u0 = "\<lparr>uart_tx_buf = buf, uart_tx_w = 0, uart_tx_r = 0, sent = [], lsr_reads = 0, wakeups = 0\<rparr>"
  have "uart_inv u \<and> sent u0 @ uart_pending u0 @ acc = sent u @ uart_pending u"
    if "uart_inv u0" "exec_calls idle es u0 = (u, acc)" for u0 acc
    using that
  proof (induction es arbitrary: u0 acc)
    case (Cons e es)
    obtain u1 a a' where 1: "exec_call idle e u0 = (u1, a)" "exec_calls idle es u1 = (u, a')" "acc = a @ a'"
      using Cons.prems(2) by (auto split: prod.splits)
    then show ?case using exec_call_stream [OF Cons.prems(1) 1(1)] Cons.IH [OF _ 1(2)] by (metis append.assoc)
  qed auto
  moreover have "uart_inv ?u0" "uart_pending ?u0 = []"
    using assms(1) by (simp_all add: uart_inv_def UART_TX_BUF_SIZE_def uart_pending_def ring_empty)
  ultimately have "uart_inv u" "acc = sent u @ uart_pending u" using assms(2) by fastforce+
  then show ?thesis
    using uq.bounded [of u] uartstart_sends [of u "\<lambda>_. True"] by (auto simp: UART_TX_BUF_SIZE_def)
qed

theorem uart_stream_witness:
  "let (u, acc) = exec_calls (\<lambda>k. k = 2) [Putc 65, Putc 66, Intr]
       \<lparr>uart_tx_buf = replicate 32 0, uart_tx_w = 0, uart_tx_r = 0, sent = [], lsr_reads = 0, wakeups = 0\<rparr>
   in acc = sent u @ uart_pending u \<and> length (uart_pending u) \<le> 32 \<and> sent (uartstart (\<lambda>_. True) u) = acc"
proof -
  obtain u acc where e: "exec_calls (\<lambda>k. k = 2) [Putc 65, Putc 66, Intr]
       \<lparr>uart_tx_buf = replicate 32 0, uart_tx_w = 0, uart_tx_r = 0, sent = [], lsr_reads = 0, wakeups = 0\<rparr> = (u, acc)"
    by (rule prod.exhaust)
  have len: "length (replicate 32 (0 :: uchar)) = 32" by simp
  show ?thesis using uart_stream [OF len e] by (simp only: e prod.case Let_def)
qed

end
