(* ===== verification/Console.thy ===== *)
theory Console
  imports Ring
begin

text \<open>
  The console (\<open>kernel/console.c\<close>): the interrupt handler edits a line at the end of a ring
  buffer, and \<open>consoleread\<close> takes finished lines from its start. Both run under
  \<open>cons.lock\<close>. What \<open>consputc\<close> sends to the UART is collected in \<open>echo\<close>. The handler is
  proved to implement an abstract line editor, and \<open>consoleread\<close> to return its lines.
\<close>

section \<open>Definitions\<close>

definition INPUT_BUF_SIZE :: nat where "INPUT_BUF_SIZE = 128"

record cons =
  cbuf :: "uchar list"
  c_r :: uint
  c_w :: uint
  c_e :: uint
  echo :: "uchar list"       \<comment> \<open>bytes sent by \<open>uartputc_sync\<close>\<close>
  cwakes :: nat              \<comment> \<open>calls of \<open>wakeup(&cons.r)\<close>\<close>

definition BACKSPACE :: int where "BACKSPACE = 0x100"

definition control :: "uchar \<Rightarrow> uchar" where "control x = x - 64"   \<comment> \<open>\<open>C(x)\<close>\<close>

definition consputc :: "int \<Rightarrow> cons \<Rightarrow> cons" where
  "consputc c s = s\<lparr>echo := echo s @ (if c = BACKSPACE then [8, 32, 8] else [of_int c])\<rparr>"

text \<open>The loop of \<open>Control-U\<close>.\<close>

function kill_line :: "cons \<Rightarrow> cons" where
  "kill_line s =
     (if c_e s \<noteq> c_w s \<and> cbuf s ! (unat (c_e s - 1) mod INPUT_BUF_SIZE) \<noteq> 10
      then kill_line (consputc BACKSPACE (s\<lparr>c_e := c_e s - 1\<rparr>))
      else s)"
  by pat_completeness auto
termination
proof (relation "measure (\<lambda>s. unat (c_e s - c_w s))", simp, goal_cases)
  case (1 s)
  then have ne: "c_e s \<noteq> c_w s" by simp
  show ?case using ring_get_length [OF ne] by (simp add: consputc_def algebra_simps)
qed

declare kill_line.simps [simp del]

definition consoleintr :: "uchar \<Rightarrow> cons \<Rightarrow> cons" where
  "consoleintr c s =
     (if c = control 80 then s                       \<comment> \<open>\<open>procdump\<close> only prints\<close>
      else if c = control 85 then kill_line s
      else if c = control 72 \<or> c = 127
           then if c_e s \<noteq> c_w s then consputc BACKSPACE (s\<lparr>c_e := c_e s - 1\<rparr>) else s
      else if c \<noteq> 0 \<and> unat (c_e s - c_r s) < INPUT_BUF_SIZE
           then let c = (if c = 13 then 10 else c);
                    s = consputc (uint c) s;
                    s = s\<lparr>cbuf := (cbuf s)[unat (c_e s) mod INPUT_BUF_SIZE := c], c_e := c_e s + 1\<rparr>
                in if c = 10 \<or> c = control 68 \<or> unat (c_e s - c_r s) = INPUT_BUF_SIZE
                   then s\<lparr>c_w := c_e s, cwakes := Suc (cwakes s)\<rparr> else s
      else s)"

text \<open>
  \<open>consoleread\<close> from the point where \<open>n\<close> of \<open>target\<close> bytes are missing. The result has the
  bytes stored since then; \<open>Inl n\<close> is a caller that sleeps with \<open>n\<close> bytes missing, \<open>Inr v\<close>
  a return value. \<open>dst n\<close> is whether the store with \<open>n\<close> bytes missing succeeds.
\<close>

fun consoleread_loop ::
    "(nat \<Rightarrow> bool) \<Rightarrow> bool \<Rightarrow> nat \<Rightarrow> nat \<Rightarrow> cons \<Rightarrow> cons \<times> uchar list \<times> (nat + int)" where
  "consoleread_loop dst is_killed target 0 s = (s, [], Inr (int target))"
| "consoleread_loop dst is_killed target (Suc n) s =
     (if c_r s = c_w s then (s, [], if is_killed then Inr (-1) else Inl (Suc n))
      else let c = cbuf s ! (unat (c_r s) mod INPUT_BUF_SIZE); s = s\<lparr>c_r := c_r s + 1\<rparr>
           in if c = control 68
              then (if Suc n < target then s\<lparr>c_r := c_r s - 1\<rparr> else s, [], Inr (int target - int (Suc n)))
              else if \<not> dst (Suc n) then (s, [], Inr (int target - int (Suc n)))
              else if c = 10 then (s, [c], Inr (int target - int n))
              else let (s, bytes, r) = consoleread_loop dst is_killed target n s in (s, c # bytes, r))"

definition consoleread ::
    "(nat \<Rightarrow> bool) \<Rightarrow> bool \<Rightarrow> int \<Rightarrow> cons \<Rightarrow> cons \<times> uchar list \<times> (nat + int)" where
  "consoleread dst is_killed n s =
     (if n \<le> 0 then (s, [], Inr 0) else consoleread_loop dst is_killed (nat n) (nat n) s)"

section \<open>The line editor it implements\<close>

record editor =
  lines :: "uchar list"      \<comment> \<open>finished input\<close>
  line :: "uchar list"       \<comment> \<open>the line being edited\<close>

text \<open>\<open>procdump\<close>, kill, erase, and a character that is kept, possibly ending the line.\<close>

definition edit :: "uchar \<Rightarrow> editor \<Rightarrow> editor" where
  "edit c d =
     (if c = control 80 then d
      else if c = control 85 then d\<lparr>line := []\<rparr>
      else if c = control 72 \<or> c = 127 then d\<lparr>line := butlast (line d)\<rparr>
      else if c = 0 \<or> INPUT_BUF_SIZE \<le> length (lines d) + length (line d) then d
      else let c = (if c = 13 then 10 else c); l = line d @ [c]
           in if c = 10 \<or> c = control 68 \<or> length (lines d) + length l = INPUT_BUF_SIZE
              then \<lparr>lines = lines d @ l, line = []\<rparr> else d\<lparr>line := l\<rparr>)"

definition cons_inv :: "cons \<Rightarrow> bool" where
  "cons_inv s \<longleftrightarrow> length (cbuf s) = INPUT_BUF_SIZE \<and>
     unat (c_w s - c_r s) + unat (c_e s - c_w s) \<le> INPUT_BUF_SIZE \<and>
     10 \<notin> set (ring_contents INPUT_BUF_SIZE (cbuf s) (c_w s) (c_e s))"

definition editor_of :: "cons \<Rightarrow> editor" where
  "editor_of s = \<lparr>lines = ring_contents INPUT_BUF_SIZE (cbuf s) (c_r s) (c_w s),
     line = ring_contents INPUT_BUF_SIZE (cbuf s) (c_w s) (c_e s)\<rparr>"

section \<open>The handler implements the editor\<close>

lemma INPUT_BUF_SIZE_word: "INPUT_BUF_SIZE dvd 2 ^ LENGTH(32)" "INPUT_BUF_SIZE < 2 ^ LENGTH(32)"
  by (simp_all add: INPUT_BUF_SIZE_def)

lemma consputc_frame [simp]:
  "cbuf (consputc c s) = cbuf s" "c_r (consputc c s) = c_r s" "c_w (consputc c s) = c_w s"
  "c_e (consputc c s) = c_e s" "cwakes (consputc c s) = cwakes s"
  "cons_inv (consputc c s) = cons_inv s" "editor_of (consputc c s) = editor_of s"
  by (simp_all add: consputc_def cons_inv_def editor_of_def)

lemma line_length: "length (lines (editor_of s)) = unat (c_w s - c_r s)" "length (line (editor_of s)) = unat (c_e s - c_w s)"
  by (simp_all add: editor_of_def)

lemma erase_one:
  assumes "cons_inv s" "c_e s \<noteq> c_w s"
  shows "cons_inv (s\<lparr>c_e := c_e s - 1\<rparr>)"
    "editor_of (s\<lparr>c_e := c_e s - 1\<rparr>) = (editor_of s)\<lparr>line := butlast (line (editor_of s))\<rparr>"
    "cbuf s ! (unat (c_e s - 1) mod INPUT_BUF_SIZE) \<noteq> 10"
  using ring_unput(1) [OF assms(2), of INPUT_BUF_SIZE "cbuf s"] ring_unput(2) [OF assms(2)] assms(1)
  by (auto simp: cons_inv_def editor_of_def)

lemma kill_line_kills:
  "cons_inv s \<Longrightarrow> cons_inv (kill_line s) \<and> editor_of (kill_line s) = (editor_of s)\<lparr>line := []\<rparr>"
proof (induction s rule: kill_line.induct)
  case (1 s)
  show ?case
  proof (cases "c_e s = c_w s")
    case True
    then show ?thesis using 1(2) by (simp add: kill_line.simps [of s] editor_of_def ring_empty)
  next
    case False
    note e = erase_one [OF 1(2) False]
    let ?s = "consputc BACKSPACE (s\<lparr>c_e := c_e s - 1\<rparr>)"
    have "kill_line s = kill_line ?s" using False e(3) by (subst kill_line.simps) simp
    then show ?thesis using 1(1) False e by simp
  qed
qed

text \<open>Storing a character at the edit index extends the edited line and nothing else.\<close>

lemma store_char:
  assumes inv: "cons_inv s" and room: "unat (c_w s - c_r s) + unat (c_e s - c_w s) < INPUT_BUF_SIZE"
    and s': "s' = s\<lparr>cbuf := (cbuf s)[unat (c_e s) mod INPUT_BUF_SIZE := c], c_e := c_e s + 1\<rparr>"
  shows "editor_of s' = (editor_of s)\<lparr>line := line (editor_of s) @ [c]\<rparr>"
    "unat (c_e s' - c_r s') = Suc (unat (c_w s - c_r s) + unat (c_e s - c_w s))"
    "length (cbuf s') = INPUT_BUF_SIZE"
proof -
  let ?N = INPUT_BUF_SIZE and ?b = "cbuf s'"
  have len: "length (cbuf s) = ?N" "?N < 2 ^ 32" using inv INPUT_BUF_SIZE_word by (auto simp: cons_inv_def)
  have lt: "unat (c_w s - c_r s) + unat (c_e s - c_w s) < 2 ^ LENGTH(32)" using room len(2) by simp
  note app = ring_append(1) [OF lt, of ?N "cbuf s"] ring_append(2) [OF lt]
  have re: "unat (c_e s - c_r s) < ?N" and we: "unat (c_e s - c_w s) < ?N" using app(2) room by auto
  have put: "ring_contents ?N ?b (c_r s) (c_e s + 1) = ring_contents ?N (cbuf s) (c_r s) (c_e s) @ [c]"
    "ring_contents ?N ?b (c_w s) (c_e s + 1) = ring_contents ?N (cbuf s) (c_w s) (c_e s) @ [c]"
    using ring_put [OF INPUT_BUF_SIZE_word re, of "cbuf s" c] ring_put [OF INPUT_BUF_SIZE_word we, of "cbuf s" c] len s'
    by simp_all
  have we1: "unat (c_e s + 1 - c_w s) = Suc (unat (c_e s - c_w s))"
    by (rule unat_Suc_diff [OF we INPUT_BUF_SIZE_word(2)])
  have lt1: "unat (c_w s - c_r s) + unat (c_e s + 1 - c_w s) < 2 ^ LENGTH(32)" using we1 room len(2) by simp
  note app1 = ring_append(1) [OF lt1, of ?N ?b] ring_append(2) [OF lt1]
  have "ring_contents ?N ?b (c_r s) (c_w s) @ ring_contents ?N ?b (c_w s) (c_e s + 1)
      = ring_contents ?N (cbuf s) (c_r s) (c_w s) @ ring_contents ?N (cbuf s) (c_w s) (c_e s) @ [c]"
    by (simp only: app1(1) put(1) append_assoc [symmetric] app(1))
  moreover have "length (ring_contents ?N ?b (c_r s) (c_w s)) = length (ring_contents ?N (cbuf s) (c_r s) (c_w s))" by simp
  ultimately have "ring_contents ?N ?b (c_r s) (c_w s) = ring_contents ?N (cbuf s) (c_r s) (c_w s)"
    by (metis append_eq_append_conv)
  then show "editor_of s' = (editor_of s)\<lparr>line := line (editor_of s) @ [c]\<rparr>"
    using put(2) s' by (simp add: editor_of_def)
  show "unat (c_e s' - c_r s') = Suc (unat (c_w s - c_r s) + unat (c_e s - c_w s))" "length (cbuf s') = ?N"
    using app1(2) we1 s' len by simp_all
qed

lemma consoleintr_edits:
  assumes inv: "cons_inv s"
  shows "cons_inv (consoleintr c s) \<and> editor_of (consoleintr c s) = edit c (editor_of s)"
proof -
  consider (dump) "c = control 80" | (kill) "c = control 85" "c \<noteq> control 80"
    | (erase) "c = control 72 \<or> c = 127" "c \<noteq> control 80" "c \<noteq> control 85"
    | (other) "c \<noteq> control 80" "c \<noteq> control 85" "\<not> (c = control 72 \<or> c = 127)" by blast
  then show ?thesis
  proof cases
    case dump
    then show ?thesis using inv by (simp add: consoleintr_def edit_def)
  next
    case kill
    then show ?thesis using kill_line_kills [OF inv] by (simp add: consoleintr_def edit_def)
  next
    case erase
    have "line (editor_of s) = []" if "c_e s = c_w s" using that by (simp add: editor_of_def ring_empty)
    then show ?thesis
      using erase inv erase_one [OF inv] by (cases "c_e s = c_w s") (auto simp: consoleintr_def edit_def)
  next
    case other
    have lt: "unat (c_w s - c_r s) + unat (c_e s - c_w s) < 2 ^ LENGTH(32)"
      using inv INPUT_BUF_SIZE_word(2) by (simp add: cons_inv_def)
    have size: "unat (c_e s - c_r s) = length (lines (editor_of s)) + length (line (editor_of s))"
      using ring_append(2) [OF lt] by (simp add: line_length)
    show ?thesis
    proof (cases "c \<noteq> 0 \<and> unat (c_e s - c_r s) < INPUT_BUF_SIZE")
      case False
      then show ?thesis using other inv size by (auto simp: consoleintr_def edit_def)
    next
      case True
      define d where "d = (if c = 13 then 10 else c)"
      define s1 where "s1 = consputc (uint d) s"
      define s2 where "s2 = s1\<lparr>cbuf := (cbuf s1)[unat (c_e s1) mod INPUT_BUF_SIZE := d], c_e := c_e s1 + 1\<rparr>"
      have i1: "cons_inv s1" "editor_of s1 = editor_of s" using inv by (simp_all add: s1_def)
      have r1: "unat (c_w s1 - c_r s1) + unat (c_e s1 - c_w s1) < INPUT_BUF_SIZE"
        using True size by (simp add: line_length s1_def)
      note st = store_char [OF i1(1) r1 s2_def]
      define commit where "commit \<longleftrightarrow> d = 10 \<or> d = control 68 \<or> unat (c_e s2 - c_r s2) = INPUT_BUF_SIZE"
      have res: "consoleintr c s = (if commit then s2\<lparr>c_w := c_e s2, cwakes := Suc (cwakes s2)\<rparr> else s2)"
        using other True by (simp add: consoleintr_def Let_def commit_def s2_def s1_def d_def)
      have sz: "unat (c_e s2 - c_r s2) = Suc (length (lines (editor_of s)) + length (line (editor_of s)))"
        using st(2) i1(2) by (metis line_length)
      have ed: "edit c (editor_of s) = (if commit
          then \<lparr>lines = lines (editor_of s) @ line (editor_of s) @ [d], line = []\<rparr>
          else (editor_of s)\<lparr>line := line (editor_of s) @ [d]\<rparr>)"
        using other True size sz by (simp add: edit_def Let_def commit_def d_def)
      have e2: "lines (editor_of s2) = lines (editor_of s)" "line (editor_of s2) = line (editor_of s) @ [d]"
        using st(1) i1(2) by simp_all
      have lt2: "unat (c_w s2 - c_r s2) + unat (c_e s2 - c_w s2) < 2 ^ LENGTH(32)"
        using arg_cong [OF e2(1), of length] arg_cong [OF e2(2), of length] True size INPUT_BUF_SIZE_word(2)
        by (simp add: line_length)
      note app = ring_append(1) [OF lt2, of INPUT_BUF_SIZE "cbuf s2"] ring_append(2) [OF lt2]
      have le: "unat (c_e s2 - c_r s2) \<le> INPUT_BUF_SIZE" using sz True size by simp
      show ?thesis
      proof (cases commit)
        case True
        have "ring_contents INPUT_BUF_SIZE (cbuf s2) (c_r s2) (c_e s2) = lines (editor_of s) @ line (editor_of s) @ [d]"
          using app(1) e2 by (simp add: editor_of_def)
        then show ?thesis using True res ed le st(3) by (simp add: cons_inv_def editor_of_def ring_empty)
      next
        case False
        have "10 \<notin> set (line (editor_of s))" using inv by (simp add: cons_inv_def editor_of_def)
        moreover have "d \<noteq> 10" using False by (simp add: commit_def)
        ultimately have "10 \<notin> set (ring_contents INPUT_BUF_SIZE (cbuf s2) (c_w s2) (c_e s2))"
          using e2(2) by (simp add: editor_of_def)
        then have "cons_inv s2" using app(2) le st(3) by (simp add: cons_inv_def)
        moreover have "editor_of s2 = (editor_of s)\<lparr>line := line (editor_of s) @ [d]\<rparr>" using st(1) i1(2) by simp
        ultimately show ?thesis using False res ed by simp
      qed
    qed
  qed
qed

text \<open>
  Property C14 (line editing): for every sequence of input bytes, the interrupt handler leaves the
  ring buffer in the state of an abstract line editor that ran the same bytes: erase and
  kill change only the unfinished line, a newline, an end-of-file character or a full
  buffer finishes it, and nothing is ever stored beyond 128 bytes.
\<close>

theorem console_refines_editor:
  assumes "cons_inv s"
  shows "cons_inv (fold consoleintr cs s) \<and> editor_of (fold consoleintr cs s) = fold edit cs (editor_of s)"
  using assms by (induction cs arbitrary: s) (auto simp: consoleintr_edits)

definition cons_start :: cons where
  "cons_start = \<lparr>cbuf = replicate 128 0, c_r = 0, c_w = 0, c_e = 0, echo = [], cwakes = 0\<rparr>"

lemma cons_start_inv: "cons_inv cons_start" "editor_of cons_start = \<lparr>lines = [], line = []\<rparr>"
  by (simp_all add: cons_start_def cons_inv_def editor_of_def ring_empty INPUT_BUF_SIZE_def)

theorem console_refines_editor_witness:
  "cons_inv (fold consoleintr [104, 120, 8, 105, 10, 111] cons_start) \<and>
   editor_of (fold consoleintr [104, 120, 8, 105, 10, 111] cons_start) = \<lparr>lines = [104, 105, 10], line = [111]\<rparr>"
proof -
  have "fold edit [104, 120, 8, 105, 10, 111] \<lparr>lines = [], line = []\<rparr> = \<lparr>lines = [104, 105, 10], line = [111]\<rparr>"
    by (simp add: edit_def control_def INPUT_BUF_SIZE_def)
  then show ?thesis
    using console_refines_editor [OF cons_start_inv(1), of "[104, 120, 8, 105, 10, 111]"]
    unfolding cons_start_inv(2) by simp
qed

section \<open>Reading lines\<close>

lemma take_char:
  assumes "cons_inv s" "lines (editor_of s) = c # rest"
  shows "c_r s \<noteq> c_w s" "cbuf s ! (unat (c_r s) mod INPUT_BUF_SIZE) = c"
    "cons_inv (s\<lparr>c_r := c_r s + 1\<rparr>)" "editor_of (s\<lparr>c_r := c_r s + 1\<rparr>) = (editor_of s)\<lparr>lines := rest\<rparr>"
proof -
  show ne: "c_r s \<noteq> c_w s" using assms(2) by (auto simp: editor_of_def ring_empty)
  then have "c_w s \<noteq> c_r s" by simp
  note g = ring_get [OF this, of INPUT_BUF_SIZE "cbuf s"] ring_get_length [OF this]
  then show "cbuf s ! (unat (c_r s) mod INPUT_BUF_SIZE) = c" "cons_inv (s\<lparr>c_r := c_r s + 1\<rparr>)"
    "editor_of (s\<lparr>c_r := c_r s + 1\<rparr>) = (editor_of s)\<lparr>lines := rest\<rparr>"
    using assms by (simp_all add: editor_of_def cons_inv_def)
qed

lemma consoleread_loop_plain:
  assumes "cons_inv s" "lines (editor_of s) = l @ rest" "\<forall>c\<in>set l. c \<noteq> 10 \<and> c \<noteq> control 68" "length l \<le> n"
  shows "\<exists>s1. cons_inv s1 \<and> editor_of s1 = (editor_of s)\<lparr>lines := rest\<rparr> \<and>
    consoleread_loop (\<lambda>_. True) k target n s =
      (case consoleread_loop (\<lambda>_. True) k target (n - length l) s1 of (s', bs, r) \<Rightarrow> (s', l @ bs, r))"
  using assms
proof (induction l arbitrary: n s)
  case Nil
  then show ?case by (intro exI [of _ s]) simp
next
  case (Cons c l)
  then obtain n' where n: "n = Suc n'" by (cases n) auto
  note t = take_char [OF Cons.prems(1), of c "l @ rest"]
  let ?s = "s\<lparr>c_r := c_r s + 1\<rparr>"
  have "cons_inv ?s" "lines (editor_of ?s) = l @ rest" using t Cons.prems(2) by simp_all
  then obtain s1 where "cons_inv s1" "editor_of s1 = (editor_of ?s)\<lparr>lines := rest\<rparr>"
    "consoleread_loop (\<lambda>_. True) k target n' ?s =
      (case consoleread_loop (\<lambda>_. True) k target (n' - length l) s1 of (s', bs, r) \<Rightarrow> (s', l @ bs, r))"
    using Cons.IH [of ?s n'] Cons.prems n by auto
  then show ?case
    using t Cons.prems n by (intro exI [of _ s1]) (auto simp: Let_def split: prod.split)
qed

text \<open>
  Property C15 (reading a line): a \<open>read\<close> of \<open>n\<close> bytes into valid memory, with finished input
  \<open>l\<close> without newline and \<open>^D\<close> at the front, returns \<open>l\<close> and the newline if that comes
  next, \<open>l\<close> alone if \<open>^D\<close> comes next, where \<open>^D\<close> stays in the buffer to give the next
  \<open>read\<close> an empty result unless \<open>l\<close> is empty, and the first \<open>n\<close> bytes of a longer line.
  The rest of the finished input and the unfinished line stay as they are.
\<close>

theorem consoleread_lines:
  assumes "cons_inv s" "lines (editor_of s) = l @ rest" "0 < n"
    and "\<forall>c\<in>set l. c \<noteq> 10 \<and> c \<noteq> control 68"
    and "int (length l) = n \<or> int (length l) < n \<and> rest \<noteq> [] \<and> (hd rest = 10 \<or> hd rest = control 68)"
  shows "\<exists>s' bytes. consoleread (\<lambda>_. True) k n s = (s', bytes, Inr (int (length bytes))) \<and> cons_inv s' \<and>
    line (editor_of s') = line (editor_of s) \<and>
    bytes = (if int (length l) < n \<and> hd rest = 10 then l @ [10] else l) \<and>
    lines (editor_of s') =
      (if int (length l) < n \<and> (hd rest = 10 \<or> l = []) then tl rest else rest)"
proof -
  have read: "consoleread (\<lambda>_. True) k n s = consoleread_loop (\<lambda>_. True) k (nat n) (nat n) s"
    using assms(3) by (simp add: consoleread_def)
  have len: "length l \<le> nat n" using assms(5) by auto
  obtain s1 where s1: "cons_inv s1" "editor_of s1 = (editor_of s)\<lparr>lines := rest\<rparr>"
    "consoleread_loop (\<lambda>_. True) k (nat n) (nat n) s =
      (case consoleread_loop (\<lambda>_. True) k (nat n) (nat n - length l) s1 of (s', bs, r) \<Rightarrow> (s', l @ bs, r))"
    using consoleread_loop_plain [OF assms(1,2,4) len] by blast
  show ?thesis
  proof (cases "int (length l) = n")
    case True
    then have "nat n - length l = 0" by simp
    then show ?thesis using s1 read True assms(3) by auto
  next
    case False
    then obtain c rs where c: "rest = c # rs" "c = 10 \<or> c = control 68" "int (length l) < n"
      using assms(5) by (cases rest) auto
    then obtain m where m: "nat n - length l = Suc m" "int m = n - int (length l) - 1"
      by (cases "nat n - length l") (auto simp: nat_diff_split)
    have "lines (editor_of s1) = c # rs" using s1(2) c by simp
    note t = take_char [OF s1(1) this]
    have nd: "(10 :: uchar) \<noteq> control 68" by (simp add: control_def)
    have lt: "Suc m < nat n \<longleftrightarrow> l \<noteq> []" using m by (cases l) auto
    show ?thesis
    proof (cases "c = 10")
      case True
      then show ?thesis using t nd m s1 read c by (auto simp: Let_def)
    next
      case False
      then have "c = control 68" using c by simp
      moreover have "s1\<lparr>c_r := c_r s1 + 1 - 1\<rparr> = s1" by simp
      ultimately show ?thesis using t nd m s1 read c False lt by (auto simp: Let_def)
    qed
  qed
qed

definition two_lines :: cons where
  "two_lines = fold consoleintr [104, 105, 10, 111, 107, 10, 120] cons_start"

lemma two_lines_facts: "cons_inv two_lines" "editor_of two_lines = \<lparr>lines = [104, 105, 10, 111, 107, 10], line = [120]\<rparr>"
proof -
  have f: "fold edit [104, 105, 10, 111, 107, 10, 120] \<lparr>lines = [], line = []\<rparr>
      = \<lparr>lines = [104, 105, 10, 111, 107, 10], line = [120]\<rparr>"
    by (simp add: edit_def control_def INPUT_BUF_SIZE_def)
  have "cons_inv (fold consoleintr cs s) \<and> editor_of (fold consoleintr cs s) = fold edit cs (editor_of s)"
    if "cons_inv s" for s cs
    using that by (induction cs arbitrary: s) (auto simp: consoleintr_edits)
  from this [OF cons_start_inv(1), of "[104, 105, 10, 111, 107, 10, 120]"]
  show "cons_inv two_lines" "editor_of two_lines = \<lparr>lines = [104, 105, 10, 111, 107, 10], line = [120]\<rparr>"
    unfolding cons_start_inv(2) f by (simp_all add: two_lines_def)
qed

theorem consoleread_lines_witness:
  "\<exists>s' bytes. consoleread (\<lambda>_. True) False 100 two_lines = (s', bytes, Inr (int (length bytes))) \<and> cons_inv s' \<and>
    line (editor_of s') = line (editor_of two_lines) \<and>
    bytes = (if int (length [104, 105 :: uchar]) < 100 \<and> hd [10, 111, 107, 10 :: uchar] = 10 then [104, 105] @ [10] else [104, 105]) \<and>
    lines (editor_of s') = (if int (length [104, 105 :: uchar]) < 100 \<and> (hd [10, 111, 107, 10 :: uchar] = 10 \<or> [104, 105 :: uchar] = [])
       then tl [10, 111, 107, 10] else [10, 111, 107, 10])"
  by (rule consoleread_lines [OF two_lines_facts(1)]) (simp_all add: two_lines_facts(2) control_def)

end
