(* ===== verification/Printf.thy ===== *)
theory Printf
  imports Console Locks
begin

text \<open>
  Formatted output of the kernel (\<open>kernel/printf.c\<close>). Characters go to the console by \<open>consputc\<close>. The format is the list of its characters, the
  terminating NUL comes behind the last. A variable argument carries its C type, and \<open>va_arg\<close> for an argument that is missing or has another
  type, which C leaves undefined, is a fault.
\<close>

unbundle bit_operations_syntax

section \<open>State\<close>

record printer =
  pr_lock :: spinlock
  pr_locking :: bool
  panicked :: bool
  pr_cpu :: cpu
  pr_cons :: cons

datatype va = Va_int uint | Va_long uint64 | Va_str "char list option"

definition digits :: "char list" where
  "digits = ''0123456789abcdef''"

definition put :: "char \<Rightarrow> printer \<Rightarrow> printer" where
  "put c s = s\<lparr>pr_cons := consputc (of_char c) (pr_cons s)\<rparr>"

definition putstr :: "char list \<Rightarrow> printer \<Rightarrow> printer" where
  "putstr cs s = foldl (\<lambda>s c. put c s) s cs"

section \<open>Numbers\<close>

text \<open>The loop that fills \<open>buf\<close>, an array of 16 characters, with the digits from the last to the first.\<close>

function fill_digits :: "uint64 \<Rightarrow> uint64 \<Rightarrow> char list \<Rightarrow> char list cresult" where
  "fill_digits base x buf =
     (if length buf \<ge> 16 then Inl (OutOfBounds (int (length buf)))
      else let buf = buf @ [digits ! unat (x mod base)]; x = x div base
           in if x \<noteq> 0 then fill_digits base x buf else Inr buf)"
  by pat_completeness auto
termination by (relation "measure (\<lambda>(base, x, buf). 16 - length buf)") auto

declare fill_digits.simps [simp del]

definition printint :: "uint64 \<Rightarrow> uint64 \<Rightarrow> bool \<Rightarrow> printer \<Rightarrow> printer cresult" where
  "printint xx base sign s =
     (let neg = (sign \<and> sint xx < 0); x = (if neg then - xx else xx)
      in bind_result (fill_digits base x []) (\<lambda>buf.
         bind_result (if \<not> neg then Inr buf else if length buf \<ge> 16 then Inl (OutOfBounds (int (length buf))) else Inr (buf @ ''-'')) (\<lambda>buf.
         Inr (putstr (rev buf) s))))"

fun ptr_digits :: "nat \<Rightarrow> uint64 \<Rightarrow> char list" where
  "ptr_digits 0 x = []"
| "ptr_digits (Suc k) x = digits ! unat (drop_bit 60 x) # ptr_digits k (push_bit 4 x)"

definition printptr :: "uint64 \<Rightarrow> printer \<Rightarrow> printer" where
  "printptr x s = putstr (''0x'' @ ptr_digits 16 x) s"

section \<open>Formats\<close>

definition char_at :: "char list \<Rightarrow> nat \<Rightarrow> char" where
  "char_at fmt i = (if i < length fmt then fmt ! i else CHR 0x00)"

fun va_int :: "va list \<Rightarrow> (uint \<times> va list) cresult" where
  "va_int (Va_int n # ap) = Inr (n, ap)"
| "va_int _ = Inl NullDeref"

fun va_long :: "va list \<Rightarrow> (uint64 \<times> va list) cresult" where
  "va_long (Va_long n # ap) = Inr (n, ap)"
| "va_long _ = Inl NullDeref"

fun va_str :: "va list \<Rightarrow> (char list option \<times> va list) cresult" where
  "va_str (Va_str t # ap) = Inr (t, ap)"
| "va_str _ = Inl NullDeref"

definition print_int :: "uint64 \<Rightarrow> bool \<Rightarrow> va list \<Rightarrow> printer \<Rightarrow> (va list \<times> printer) cresult" where
  "print_int base sign ap s = bind_result (va_int ap) (\<lambda>(n, ap). bind_result (printint (scast n) base sign s) (\<lambda>s. Inr (ap, s)))"

definition print_long :: "uint64 \<Rightarrow> bool \<Rightarrow> va list \<Rightarrow> printer \<Rightarrow> (va list \<times> printer) cresult" where
  "print_long base sign ap s = bind_result (va_long ap) (\<lambda>(n, ap). bind_result (printint n base sign s) (\<lambda>s. Inr (ap, s)))"

text \<open>One conversion: by how much \<open>i\<close> moves beyond \<open>c0\<close>, and the effect; \<open>None\<close> is the \<open>break\<close> at the end of the format.\<close>

definition conversion :: "char \<Rightarrow> char \<Rightarrow> char \<Rightarrow> va list \<Rightarrow> printer \<Rightarrow> (nat \<times> (va list \<times> printer) cresult) option" where
  "conversion c0 c1 c2 ap s =
     (if c0 = CHR ''d'' then Some (0, print_int 10 True ap s)
      else if c0 = CHR ''l'' \<and> c1 = CHR ''d'' then Some (1, print_long 10 True ap s)
      else if c0 = CHR ''l'' \<and> c1 = CHR ''l'' \<and> c2 = CHR ''d'' then Some (2, print_long 10 True ap s)
      else if c0 = CHR ''u'' then Some (0, print_int 10 False ap s)
      else if c0 = CHR ''l'' \<and> c1 = CHR ''u'' then Some (1, print_long 10 False ap s)
      else if c0 = CHR ''l'' \<and> c1 = CHR ''l'' \<and> c2 = CHR ''u'' then Some (2, print_long 10 False ap s)
      else if c0 = CHR ''x'' then Some (0, print_int 16 False ap s)
      else if c0 = CHR ''l'' \<and> c1 = CHR ''x'' then Some (1, print_long 16 False ap s)
      else if c0 = CHR ''l'' \<and> c1 = CHR ''l'' \<and> c2 = CHR ''x'' then Some (2, print_long 16 False ap s)
      else if c0 = CHR ''p'' then Some (0, bind_result (va_long ap) (\<lambda>(n, ap). Inr (ap, printptr n s)))
      else if c0 = CHR ''s'' then
        Some (0, bind_result (va_str ap) (\<lambda>(t, ap). Inr (ap, putstr (takeWhile (\<lambda>c. c \<noteq> CHR 0x00) (case t of None \<Rightarrow> ''(null)'' | Some t \<Rightarrow> t)) s)))
      else if c0 = CHR ''%'' then Some (0, Inr (ap, put CHR ''%'' s))
      else if c0 = CHR 0x00 then None
      else Some (0, Inr (ap, put c0 (put CHR ''%'' s))))"

function printf_loop :: "char list \<Rightarrow> nat \<Rightarrow> va list \<Rightarrow> printer \<Rightarrow> printer cresult" where
  "printf_loop fmt i ap s =
     (let cx = char_at fmt i
      in if cx = CHR 0x00 then Inr s
         else if cx \<noteq> CHR ''%'' then printf_loop fmt (i + 1) ap (put cx s)
         else let i = i + 1; c0 = char_at fmt i;
                  c1 = (if c0 \<noteq> CHR 0x00 then char_at fmt (i + 1) else CHR 0x00);
                  c2 = (if c1 \<noteq> CHR 0x00 then char_at fmt (i + 2) else CHR 0x00)
              in case conversion c0 c1 c2 ap s of
                   None \<Rightarrow> Inr s
                 | Some (k, Inl e) \<Rightarrow> Inl e
                 | Some (k, Inr (ap, s)) \<Rightarrow> printf_loop fmt (i + k + 1) ap s)"
  by pat_completeness auto
termination by (relation "measure (\<lambda>(fmt, i, ap, s). length fmt - i)") (auto simp: char_at_def split: if_splits)

declare printf_loop.simps [simp del]

definition printf :: "nat \<Rightarrow> char list \<Rightarrow> va list \<Rightarrow> printer \<Rightarrow> printer run" where
  "printf c fmt ap s =
     (let locking = pr_locking s
      in bind_run (if locking then bind_run (acquire c (pr_lock s, pr_cpu s)) (\<lambda>(lk, u). Some (Inr (s\<lparr>pr_lock := lk, pr_cpu := u\<rparr>))) else Some (Inr s)) (\<lambda>s.
         bind_run (Some (printf_loop fmt 0 ap s)) (\<lambda>s.
         if locking then bind_run (Some (release c (pr_lock s, pr_cpu s))) (\<lambda>(lk, u). Some (Inr (s\<lparr>pr_lock := lk, pr_cpu := u\<rparr>))) else Some (Inr s))))"

text \<open>\<open>panic\<close> up to the loop in which it stays.\<close>

definition panic :: "nat \<Rightarrow> char list \<Rightarrow> printer \<Rightarrow> printer run" where
  "panic c t s =
     bind_run (printf c ''panic: '' [] (s\<lparr>pr_locking := False\<rparr>)) (\<lambda>s.
     bind_run (printf c (''%s'' @ [CHR 0x0A]) [Va_str (Some t)] s) (\<lambda>s. Some (Inr (s\<lparr>panicked := True\<rparr>))))"

definition printfinit :: "printer \<Rightarrow> printer" where
  "printfinit s = s\<lparr>pr_lock := initlock ''pr'', pr_locking := True\<rparr>"

section \<open>Numerals\<close>

text \<open>The numeral of a number in a given base, and the number it stands for.\<close>

fun numeral_of :: "nat \<Rightarrow> nat \<Rightarrow> char list" where
  "numeral_of b n = (if b < 2 \<or> n < b then [digits ! n] else numeral_of b (n div b) @ [digits ! (n mod b)])"

declare numeral_of.simps [simp del]

definition digit_value :: "char \<Rightarrow> nat" where
  "digit_value c = length (takeWhile (\<lambda>d. d \<noteq> c) digits)"

definition value_of :: "nat \<Rightarrow> char list \<Rightarrow> nat" where
  "value_of b cs = foldl (\<lambda>n c. n * b + digit_value c) 0 cs"

lemma digit_value_digit: "n < 16 \<Longrightarrow> digit_value (digits ! n) = n"
  by (simp add: digit_value_def digits_def numeral_eq_Suc less_Suc_eq) auto

lemma value_append: "value_of b (cs @ [c]) = value_of b cs * b + digit_value c"
  by (simp add: value_of_def)

lemma value_numeral:
  assumes "2 \<le> b" "b \<le> 16"
  shows "value_of b (numeral_of b n) = n"
proof (induction n rule: less_induct)
  case (less n)
  show ?case
  proof (cases "n < b")
    case True
    then show ?thesis using assms by (simp add: numeral_of.simps [of b n] value_of_def digit_value_digit)
  next
    case False
    then have "value_of b (numeral_of b (n div b)) = n div b" using assms by (intro less.IH) auto
    moreover have "n mod b < 16" using assms mod_less_divisor [of b n] by linarith
    ultimately show ?thesis using False assms by (simp add: numeral_of.simps [of b n] value_append digit_value_digit)
  qed
qed

lemma length_numeral:
  assumes "2 \<le> b"
  shows "length (numeral_of b n) \<le> Suc k \<longleftrightarrow> n < b ^ Suc k"
proof (induction k arbitrary: n)
  case 0
  have "numeral_of b m \<noteq> []" for m by (subst numeral_of.simps) simp
  then show ?case using assms by (simp add: numeral_of.simps [of b n])
next
  case (Suc k)
  have "n < b \<Longrightarrow> n < b ^ Suc (Suc k)" using assms by (meson less_le_trans one_le_numeral power_increasing self_le_power zero_less_Suc order.trans)
  moreover have "n div b < b ^ Suc k \<longleftrightarrow> n < b ^ Suc (Suc k)" using assms by (simp add: div_less_iff_less_mult mult.commute)
  ultimately show ?case using Suc.IH [of "n div b"] assms by (simp add: numeral_of.simps [of b n])
qed

lemma fill_digits_numeral:
  assumes b: "2 \<le> unat base" and l: "length buf \<le> 16"
  shows "fill_digits base x buf =
    (if length buf + length (numeral_of (unat base) (unat x)) \<le> 16 then Inr (buf @ rev (numeral_of (unat base) (unat x))) else Inl (OutOfBounds 16))"
  using l
proof (induction "16 - length buf" arbitrary: x buf rule: less_induct)
  case less
  let ?b = "unat base" let ?n = "unat x" let ?buf = "buf @ [digits ! (?n mod ?b)]"
  have ne: "numeral_of ?b m \<noteq> []" for m by (subst numeral_of.simps) simp
  have div: "unat (x div base) = ?n div ?b" "unat (x mod base) = ?n mod ?b" by (simp_all add: unat_div unat_mod)
  have z: "x div base = 0 \<longleftrightarrow> ?n < ?b" using b div(1) by (metis div_eq_0_iff not_numeral_le_zero unat_eq_zero)
  show ?case
  proof (cases "length buf \<ge> 16")
    case True
    then have "length buf = 16" using less.prems by simp
    then show ?thesis using ne by (simp add: fill_digits.simps [of base x buf] Suc_leI)
  next
    case False
    show ?thesis
    proof (cases "?n < ?b")
      case True
      then show ?thesis using False z by (simp add: fill_digits.simps [of base x buf] Let_def div numeral_of.simps [of ?b ?n])
    next
      case nb: False
      then have "fill_digits base x buf = fill_digits base (x div base) ?buf" using False z by (simp add: fill_digits.simps [of base x buf] Let_def div)
      also have "\<dots> = (if length ?buf + length (numeral_of ?b (unat (x div base))) \<le> 16 then Inr (?buf @ rev (numeral_of ?b (unat (x div base)))) else Inl (OutOfBounds 16))"
        by (rule less.hyps) (use False in auto)
      finally show ?thesis using nb b by (simp add: div(1) numeral_of.simps [of ?b ?n])
    qed
  qed
qed

section \<open>What the conversions print\<close>

definition signed_numeral :: "int \<Rightarrow> char list" where
  "signed_numeral i = (if i < 0 then CHR ''-'' # numeral_of 10 (nat (- i)) else numeral_of 10 (nat i))"

lemma unat_of_int_small:
  fixes i :: int
  assumes "0 \<le> i" "i < 2 ^ LENGTH('a)"
  shows "unat (word_of_int i :: 'a :: len word) = nat i"
  using assms by (simp add: unsigned_of_int take_bit_int_eq_self)

lemma sint_range: "- (2 ^ 63) \<le> sint n" "sint n < 2 ^ 63" for n :: uint64
  using sint_ge [of n] sint_lt [of n] by simp_all

lemma unat_sint_64: "0 \<le> sint n \<Longrightarrow> unat n = nat (sint n)" for n :: uint64
  using unat_of_int_small [of "sint n", where 'a = 64] sint_range(2) [of n] by simp

lemma unat_neg_64: "sint n < 0 \<Longrightarrow> unat (- n) = nat (- sint n)" for n :: uint64
  using unat_of_int_small [of "- sint n", where 'a = 64] sint_range(1) [of n] by simp

lemma putstr_append: "putstr (cs @ ds) s = putstr ds (putstr cs s)"
  by (simp add: putstr_def)

lemma of_char_not_backspace: "of_char c \<noteq> BACKSPACE"
proof -
  have "of_char c mod (256 :: int) = of_char c" by simp
  then show ?thesis unfolding BACKSPACE_def by (metis mod_self zero_neq_numeral)
qed

lemma putstr_echo: "echo (pr_cons (putstr cs s)) = echo (pr_cons s) @ map of_char cs"
proof (induction cs arbitrary: s)
  case (Cons c cs)
  have "echo (pr_cons (put c s)) = echo (pr_cons s) @ [of_char c]"
    using of_char_not_backspace [of c] by (simp add: put_def consputc_def of_int_of_char)
  then show ?case using Cons.IH [of "put c s"] by (simp add: putstr_def)
qed (simp add: putstr_def)

lemma putstr_frame [simp]:
  "pr_lock (putstr cs s) = pr_lock s" "pr_locking (putstr cs s) = pr_locking s" "panicked (putstr cs s) = panicked s" "pr_cpu (putstr cs s) = pr_cpu s"
  by (induction cs arbitrary: s) (simp_all add: putstr_def put_def)

lemma printint_unsigned:
  "2 \<le> unat b \<Longrightarrow> printint x b False s = (if unat x < unat b ^ 16 then Inr (putstr (numeral_of (unat b) (unat x)) s) else Inl (OutOfBounds 16))"
  using length_numeral [of "unat b" "unat x" 15] by (simp add: printint_def fill_digits_numeral)

lemma printint_signed:
  "printint x 10 True s =
    (if - (10 ^ 15) < sint x \<and> sint x < 10 ^ 16 then Inr (putstr (signed_numeral (sint x)) s) else Inl (OutOfBounds 16))"
proof (cases "sint x < 0")
  case True
  then show ?thesis using length_numeral [of 10 "unat (- x)" 14] unat_neg_64 [of x]
    by (auto simp: printint_def fill_digits_numeral signed_numeral_def)
next
  case False
  then show ?thesis using length_numeral [of 10 "unat x" 15] unat_sint_64 [of x] by (auto simp: printint_def fill_digits_numeral signed_numeral_def)
qed

text \<open>All 16 digits of a 64-bit number.\<close>

definition hex16 :: "nat \<Rightarrow> char list" where
  "hex16 n = map (\<lambda>j. digits ! (n div 16 ^ (15 - j) mod 16)) [0..<16]"

lemma value_map:
  "value_of 16 (map (\<lambda>j. digits ! (n div 16 ^ (k - 1 - j) mod 16)) [0..<k]) = n mod 16 ^ k"
proof (induction k arbitrary: n)
  case (Suc k)
  have "map (\<lambda>j. digits ! (n div 16 ^ (Suc k - 1 - j) mod 16)) [0..<k] = map (\<lambda>j. digits ! ((n div 16) div 16 ^ (k - 1 - j) mod 16)) [0..<k]"
  proof (rule map_cong [OF refl])
    fix j assume "j \<in> set [0..<k]"
    then have "Suc k - 1 - j = Suc (k - 1 - j)" by auto
    then show "digits ! (n div 16 ^ (Suc k - 1 - j) mod 16) = digits ! ((n div 16) div 16 ^ (k - 1 - j) mod 16)" by (simp add: div_mult2_eq)
  qed
  then have "value_of 16 (map (\<lambda>j. digits ! (n div 16 ^ (Suc k - 1 - j) mod 16)) [0..<Suc k]) = (n div 16 mod 16 ^ k) * 16 + digit_value (digits ! (n mod 16))"
    using Suc.IH [of "n div 16"] by (simp only: upt_Suc_append le0 map_append list.map value_append) simp
  then show ?case by (simp only: digit_value_digit power_Suc mod_mult2_eq mult.commute)
qed (simp add: value_of_def)

lemma value_hex16: "n < 2 ^ 64 \<Longrightarrow> value_of 16 (hex16 n) = n"
  using value_map [of n 16] by (simp add: hex16_def)

lemma ptr_digits_map:
  "k \<le> 16 \<Longrightarrow> ptr_digits k x = map (\<lambda>j. digits ! (unat x div 16 ^ (15 - j) mod 16)) [0..<k]"
proof (induction k arbitrary: x)
  case (Suc k)
  have hd: "unat (drop_bit 60 x) = unat x div 16 ^ 15 mod 16"
  proof -
    have "unat x < 2 ^ 64" using unat_bound [of x] by simp
    then have "unat x div 16 ^ 15 < 16" by (simp add: less_mult_imp_div_less)
    moreover have "unat (drop_bit 60 x) = unat x div 2 ^ 60" unfolding unsigned_drop_bit_eq by (simp only: drop_bit_eq_div take_bit_nat_eq_self unat_bound)
    ultimately show ?thesis by simp
  qed
  have tl: "unat (push_bit 4 x) div 16 ^ (15 - j) mod 16 = unat x div 16 ^ (15 - Suc j) mod 16" if "j < k" for j
  proof -
    define m where "m = 14 - j"
    have j: "15 - j = Suc m" "15 - Suc j = m" "(16 :: nat) ^ 16 = 16 ^ Suc m * 16 ^ Suc j" using that Suc.prems by (auto simp: m_def simp flip: power_add)
    have "unat (push_bit 4 x) = (16 * unat x) mod 16 ^ 16" unfolding push_bit_eq_mult by (simp add: unat_word_ariths mult.commute)
    then have "unat (push_bit 4 x) div 16 ^ Suc m = (16 * unat x) div 16 ^ Suc m mod 16 ^ Suc j" by (simp only: j(3) mod_mult2_eq) simp
    moreover have "(16 * unat x) div 16 ^ Suc m = unat x div 16 ^ m" by simp
    moreover have "14 - j = m" by (simp add: m_def)
    ultimately show ?thesis by (simp add: j(1) mod_mod_cancel)
  qed
  have "ptr_digits (Suc k) x = map (\<lambda>j. digits ! (unat x div 16 ^ (15 - j) mod 16)) (0 # map Suc [0..<k])"
    using Suc.IH [of "push_bit 4 x"] Suc.prems by (simp add: hd tl)
  then show ?case by (simp only: upt_conv_Cons map_Suc_upt)
qed simp

lemma printptr_hex: "printptr x s = putstr (''0x'' @ hex16 (unat x)) s"
  by (simp only: printptr_def hex16_def ptr_digits_map order_refl)

section \<open>Formats as lists of pieces\<close>

text \<open>A piece of a format with its argument; \<open>Dec\<close>, \<open>Uns\<close> and \<open>Hex\<close> carry the number of letters \<open>l\<close> for a long argument.\<close>

datatype fmt_piece = Lit char | Percent | Dec uint | Dec_long bool uint64 | Uns uint | Uns_long bool uint64 | Hex uint | Hex_long bool uint64 |
  Ptr uint64 | Str "char list option" | Unknown char

definition ell :: "bool \<Rightarrow> char list" where
  "ell two = (if two then ''ll'' else ''l'')"

fun piece_fmt :: "fmt_piece \<Rightarrow> char list" where
  "piece_fmt (Lit c) = [c]"
| "piece_fmt Percent = ''%%''"
| "piece_fmt (Dec n) = ''%d''"
| "piece_fmt (Dec_long two n) = ''%'' @ ell two @ ''d''"
| "piece_fmt (Uns n) = ''%u''"
| "piece_fmt (Uns_long two n) = ''%'' @ ell two @ ''u''"
| "piece_fmt (Hex n) = ''%x''"
| "piece_fmt (Hex_long two n) = ''%'' @ ell two @ ''x''"
| "piece_fmt (Ptr n) = ''%p''"
| "piece_fmt (Str t) = ''%s''"
| "piece_fmt (Unknown c) = [CHR ''%'', c]"

fun piece_args :: "fmt_piece \<Rightarrow> va list" where
  "piece_args (Lit c) = []"
| "piece_args Percent = []"
| "piece_args (Dec n) = [Va_int n]"
| "piece_args (Dec_long two n) = [Va_long n]"
| "piece_args (Uns n) = [Va_int n]"
| "piece_args (Uns_long two n) = [Va_long n]"
| "piece_args (Hex n) = [Va_int n]"
| "piece_args (Hex_long two n) = [Va_long n]"
| "piece_args (Ptr n) = [Va_long n]"
| "piece_args (Str t) = [Va_str t]"
| "piece_args (Unknown c) = []"

fun piece_text :: "fmt_piece \<Rightarrow> char list" where
  "piece_text (Lit c) = [c]"
| "piece_text Percent = ''%''"
| "piece_text (Dec n) = signed_numeral (sint n)"
| "piece_text (Dec_long two n) = signed_numeral (sint n)"
| "piece_text (Uns n) = numeral_of 10 (unat n)"
| "piece_text (Uns_long two n) = numeral_of 10 (unat n)"
| "piece_text (Hex n) = numeral_of 16 (unat n)"
| "piece_text (Hex_long two n) = numeral_of 16 (unat n)"
| "piece_text (Ptr n) = ''0x'' @ hex16 (unat n)"
| "piece_text (Str t) = (case t of None \<Rightarrow> ''(null)'' | Some t \<Rightarrow> t)"
| "piece_text (Unknown c) = [CHR ''%'', c]"

text \<open>What the code prints as meant: the numbers fit its array, and unsigned 32-bit numbers are in the range of \<open>int\<close>.\<close>

fun piece_ok :: "fmt_piece \<Rightarrow> bool" where
  "piece_ok (Lit c) \<longleftrightarrow> c \<noteq> CHR ''%'' \<and> c \<noteq> CHR 0x00"
| "piece_ok Percent \<longleftrightarrow> True"
| "piece_ok (Dec n) \<longleftrightarrow> True"
| "piece_ok (Dec_long two n) \<longleftrightarrow> - (10 ^ 15) < sint n \<and> sint n < 10 ^ 16"
| "piece_ok (Uns n) \<longleftrightarrow> unat n < 2 ^ 31"
| "piece_ok (Uns_long two n) \<longleftrightarrow> unat n < 10 ^ 16"
| "piece_ok (Hex n) \<longleftrightarrow> unat n < 2 ^ 31"
| "piece_ok (Hex_long two n) \<longleftrightarrow> True"
| "piece_ok (Ptr n) \<longleftrightarrow> True"
| "piece_ok (Str t) \<longleftrightarrow> (case t of None \<Rightarrow> True | Some t \<Rightarrow> CHR 0x00 \<notin> set t)"
| "piece_ok (Unknown c) \<longleftrightarrow> c \<notin> set ''dluxps%'' \<and> c \<noteq> CHR 0x00"

lemma sint_scast: "sint (scast n :: uint64) = sint n" for n :: uint
  by (rule sint_up_scast) (simp add: is_up)

lemma neg_mod: "k mod m = k + m" if "- m \<le> k" "k < 0" for k m :: int
proof -
  have "k mod m = (k + m) mod m" by simp
  also have "\<dots> = k + m" using that by (intro mod_pos_pos_trivial) simp_all
  finally show ?thesis .
qed

lemma unat_scast:
  fixes n :: uint
  shows "unat (scast n :: uint64) = (if unat n < 2 ^ 31 then unat n else unat n + (2 ^ 64 - 2 ^ 32))"
proof -
  have r: "- (2 ^ 31) \<le> sint n" "sint n < 2 ^ 31" using sint_ge [of n] sint_lt [of n] by simp_all
  have "int (unat n) = sint n mod 2 ^ 32" using uint_sint [of n] by (simp add: take_bit_eq_mod)
  moreover have "int (unat (scast n :: uint64)) = sint n mod 2 ^ 64" using uint_sint [of "scast n :: uint64"] by (simp add: take_bit_eq_mod sint_scast)
  moreover have "sint n < 0 \<Longrightarrow> sint n mod 2 ^ 32 = sint n + 2 ^ 32" "sint n < 0 \<Longrightarrow> sint n mod 2 ^ 64 = sint n + 2 ^ 64"
    using r by (intro neg_mod; simp)+
  then have "sint n mod 2 ^ 32 = (if 0 \<le> sint n then sint n else sint n + 2 ^ 32)" "sint n mod 2 ^ 64 = (if 0 \<le> sint n then sint n else sint n + 2 ^ 64)"
    using r by auto
  ultimately have "int (unat n) = (if 0 \<le> sint n then sint n else sint n + 2 ^ 32)" "int (unat (scast n :: uint64)) = (if 0 \<le> sint n then sint n else sint n + 2 ^ 64)"
    by argo+
  moreover have "M = (if N < 2 ^ 31 then N else N + (2 ^ 64 - 2 ^ 32))"
    if "int N = (if 0 \<le> k then k else k + 2 ^ 32)" "int M = (if 0 \<le> k then k else k + 2 ^ 64)" "- (2 ^ 31) \<le> k" "k < 2 ^ 31" for N M k
    using that by (auto split: if_splits)
  ultimately show ?thesis using r by blast
qed

lemma print_int_cases:
  "print_int 10 True (Va_int n # ap) s = Inr (ap, putstr (signed_numeral (sint n)) s)"
  "unat n < 2 ^ 31 \<Longrightarrow> print_int 10 False (Va_int n # ap) s = Inr (ap, putstr (numeral_of 10 (unat n)) s)"
  "unat n < 2 ^ 31 \<Longrightarrow> print_int 16 False (Va_int n # ap) s = Inr (ap, putstr (numeral_of 16 (unat n)) s)"
proof -
  have "- (2 ^ 31) \<le> sint n" "sint n < 2 ^ 31" using sint_ge [of n] sint_lt [of n] by simp_all
  then show "print_int 10 True (Va_int n # ap) s = Inr (ap, putstr (signed_numeral (sint n)) s)"
    by (simp add: print_int_def printint_signed sint_scast)
qed (simp_all add: print_int_def printint_unsigned unat_scast)

lemma print_long_cases:
  "- (10 ^ 15) < sint n \<Longrightarrow> sint n < 10 ^ 16 \<Longrightarrow> print_long 10 True (Va_long n # ap) s = Inr (ap, putstr (signed_numeral (sint n)) s)"
  "unat n < 10 ^ 16 \<Longrightarrow> print_long 10 False (Va_long n # ap) s = Inr (ap, putstr (numeral_of 10 (unat n)) s)"
  "print_long 16 False (Va_long n # ap) s = Inr (ap, putstr (numeral_of 16 (unat n)) s)"
proof -
  have "unat n < 16 ^ 16" using unat_bound [of n] by simp
  then show "print_long 16 False (Va_long n # ap) s = Inr (ap, putstr (numeral_of 16 (unat n)) s)"
    by (simp add: print_long_def printint_unsigned)
qed (simp_all add: print_long_def printint_unsigned printint_signed)

section \<open>The loop over the format\<close>

lemma char_at_append [simp]:
  "char_at (pre @ c # cs) (length pre) = c" "char_at (pre @ b # c # cs) (Suc (length pre)) = c"
  "char_at (pre @ a # b # c # cs) (Suc (Suc (length pre))) = c" "char_at (pre @ a # b # c # d # cs) (Suc (Suc (Suc (length pre)))) = d"
  by (simp_all add: char_at_def nth_append)

lemma takeWhile_str: "CHR 0x00 \<notin> set t \<Longrightarrow> takeWhile (\<lambda>c. c \<noteq> CHR 0x00) t = t"
  by (auto simp: takeWhile_eq_all_conv)

lemma put_putstr: "put c s = putstr [c] s"
  by (simp add: putstr_def)

lemma printf_loop_piece:
  assumes "piece_ok p"
  shows "printf_loop (pre @ piece_fmt p @ cs) (length pre) (piece_args p @ ap) s =
    printf_loop (pre @ piece_fmt p @ cs) (length pre + length (piece_fmt p)) ap (putstr (piece_text p) s)"
proof -
  note run = printf_loop.simps [of "pre @ c # cs" "length pre" for c cs]
  show ?thesis
    using assms
    by (cases p) (simp_all add: run conversion_def Let_def print_int_cases print_long_cases printptr_hex put_putstr ell_def takeWhile_str
      split: option.splits flip: putstr_append)
qed

lemma printf_loop_pieces:
  assumes "\<forall>p\<in>set ps. piece_ok p"
  shows "printf_loop (pre @ concat (map piece_fmt ps)) (length pre) (concat (map piece_args ps)) s = Inr (putstr (concat (map piece_text ps)) s)"
  using assms
proof (induction ps arbitrary: pre s)
  case Nil
  then show ?case by (simp add: printf_loop.simps [of pre "length pre"] char_at_def putstr_def)
next
  case (Cons p ps)
  then show ?case
    using printf_loop_piece [of p pre "concat (map piece_fmt ps)" "concat (map piece_args ps)" s] Cons.IH [of "pre @ piece_fmt p" "putstr (piece_text p) s"]
    by (simp add: putstr_append)
qed

section \<open>The properties\<close>

text \<open>A lock of \<open>printf\<close> that is free, so that the call does not wait.\<close>

definition printer_ready :: "printer \<Rightarrow> bool" where
  "printer_ready s \<longleftrightarrow> locked (pr_lock s) = 0 \<and> lcpu (pr_lock s) = None \<and> cpu_ok (pr_cpu s)"

lemma putstr_lock: "putstr t (s\<lparr>pr_lock := lk, pr_cpu := u\<rparr>) = (putstr t s)\<lparr>pr_lock := lk, pr_cpu := u\<rparr>"
proof (induction t arbitrary: s)
  case (Cons c t)
  have "put c (s\<lparr>pr_lock := lk, pr_cpu := u\<rparr>) = (put c s)\<lparr>pr_lock := lk, pr_cpu := u\<rparr>" by (simp add: put_def)
  then show ?case using Cons.IH [of "put c s"] by (simp add: putstr_def)
qed (simp add: putstr_def)

lemma putstr_same_lock: "(putstr t s)\<lparr>pr_lock := pr_lock s, pr_cpu := u\<rparr> = (putstr t s)\<lparr>pr_cpu := u\<rparr>"
  using putstr_frame(1) [of t s] by (cases "putstr t s") simp

lemma printf_locked:
  assumes "printer_ready s" "\<And>s. printf_loop fmt 0 ap s = Inr (putstr t s)"
  shows "\<exists>u. printf c fmt ap s = Some (Inr ((putstr t s)\<lparr>pr_cpu := u\<rparr>)) \<and> cpu_ok u \<and> noff u = noff (pr_cpu s)"
proof (cases "pr_locking s")
  case False
  then show ?thesis using assms by (intro exI [of _ "pr_cpu s"]) (auto simp: printf_def printer_ready_def)
next
  case True
  let ?lk = "(pr_lock s)\<lparr>locked := 1, lcpu := Some c\<rparr>" let ?u = "push_off (pr_cpu s)"
  have u: "cpu_ok ?u" "noff ?u = noff (pr_cpu s) + 1" "0 \<le> noff (pr_cpu s)" using push_off_ok [of "pr_cpu s"] assms(1) by (auto simp: printer_ready_def cpu_ok_def)
  then obtain v where v: "release c (?lk, ?u) = Inr (?lk\<lparr>lcpu := None, locked := 0\<rparr>, v)" "cpu_ok v" "noff v = noff (pr_cpu s)"
    using release_held [of c ?lk ?u] by (auto simp: holding_def)
  have "?lk\<lparr>lcpu := None, locked := 0\<rparr> = pr_lock s" using assms(1) by (cases "pr_lock s") (simp add: printer_ready_def)
  moreover have "acquire c (pr_lock s, pr_cpu s) = Some (Inr (?lk, ?u))" using assms(1) by (simp add: acquire_free printer_ready_def)
  ultimately have "printf c fmt ap s = Some (Inr ((putstr t s)\<lparr>pr_cpu := v\<rparr>))"
    using True v(1) by (simp add: printf_def assms(2) putstr_lock putstr_same_lock)
  then show ?thesis using v by blast
qed


definition printer0 :: printer where
  "printer0 = \<lparr>pr_lock = initlock ''pr'', pr_locking = True, panicked = False, pr_cpu = \<lparr>noff = 0, intena = False, intr = True\<rparr>,
     pr_cons = \<lparr>cbuf = [], c_r = 0, c_w = 0, c_e = 0, echo = [], cwakes = 0\<rparr>\<rparr>"


text \<open>Before it stops, \<open>panic\<close> prints its message without the lock and sets \<open>panicked\<close>.\<close>

lemma panic_prints:
  assumes "CHR 0x00 \<notin> set t"
  shows "panic c t s = Some (Inr ((putstr (''panic: '' @ t @ [CHR 0x0A]) (s\<lparr>pr_locking := False\<rparr>))\<lparr>panicked := True\<rparr>))"
proof -
  let ?ps = "map Lit ''panic: ''" let ?qs = "[Str (Some t), Lit CHR 0x0A]"
  have "\<forall>p\<in>set ?ps. piece_ok p" "\<forall>p\<in>set ?qs. piece_ok p" using assms by simp_all
  note run = this [THEN printf_loop_pieces, of "[]"]
  have a: "printf c ''panic: '' [] (s\<lparr>pr_locking := False\<rparr>) = Some (Inr (putstr ''panic: '' (s\<lparr>pr_locking := False\<rparr>)))"
    using run(1) [of "s\<lparr>pr_locking := False\<rparr>"] by (simp add: printf_def)
  have "printf c (''%s'' @ [CHR 0x0A]) [Va_str (Some t)] r = Some (Inr (putstr (t @ [CHR 0x0A]) r))" if "\<not> pr_locking r" for r
    using run(2) [of r] that by (simp add: printf_def)
  then show ?thesis unfolding panic_def putstr_append [of "''panic: ''"] using a by simp
qed

text \<open>
  Property C35 (\<open>printf\<close> and large unsigned numbers): \<open>%u\<close> reads its argument as an \<open>int\<close>, so a number of at least \<open>2 ^ 31\<close> becomes a 64-bit number with 20
  digits, and the digits do not fit the array of 16 characters; the same happens to \<open>%lu\<close> from \<open>10 ^ 16\<close> on. Below these bounds the
  decimal numeral is printed, from which the number can be read back.
\<close>

theorem printf_unsigned:
  "printf c ''%u'' [Va_int n] (s\<lparr>pr_locking := False\<rparr>) =
     Some (if unat n < 2 ^ 31 then Inr (putstr (numeral_of 10 (unat n)) (s\<lparr>pr_locking := False\<rparr>)) else Inl (OutOfBounds 16)) \<and>
   printf c ''%lu'' [Va_long m] (s\<lparr>pr_locking := False\<rparr>) =
     Some (if unat m < 10 ^ 16 then Inr (putstr (numeral_of 10 (unat m)) (s\<lparr>pr_locking := False\<rparr>)) else Inl (OutOfBounds 16)) \<and>
   value_of 10 (numeral_of 10 (unat m)) = unat m"
proof -
  have "printf_loop ''%u'' 0 [Va_int n] s = (if unat n < 2 ^ 31 then Inr (putstr (numeral_of 10 (unat n)) s) else Inl (OutOfBounds 16))" for s
    using unat_scast [of n] by (simp add: printf_loop.simps char_at_def conversion_def print_int_def printint_unsigned)
  moreover have "printf_loop ''%lu'' 0 [Va_long m] s = (if unat m < 10 ^ 16 then Inr (putstr (numeral_of 10 (unat m)) s) else Inl (OutOfBounds 16))" for s
    by (simp add: printf_loop.simps char_at_def conversion_def print_long_def printint_unsigned)
  ultimately show ?thesis using value_numeral [of 10 "unat m"] by (simp add: printf_def)
qed

end
