(* ===== verification/File_Io.thy ===== *)
theory File_Io
  imports File
begin

text \<open>
  Writing through a file descriptor (\<open>filewrite\<close> of \<open>kernel/file.c\<close>): the chunks of a write are transactions of their own,
  and when the call returns their contents are on the disk.
\<close>

section \<open>What depends only on the blocks outside the log\<close>

lemma data_block_outside:
  assumes dok: "disk_ok x A M V H" and same: "\<forall>bn. bn \<notin> A \<longrightarrow> V' bn = V bn"
  shows "\<And>b. b < unat (sb_size x) \<Longrightarrow> used x V' b = used x V b" "\<And>a. data_block x A M V' H a = data_block x A M V H a" "disk_ok x A M V' H"
proof -
  show u: "used x V' b = used x V b" if "b < unat (sb_size x)" for b
    using dok that same by (auto simp: disk_ok_def bitmap_ok_def used_def)
  show "data_block x A M V' H a = data_block x A M V H a" for a using u same by (auto simp: data_block_def)
  have "a \<notin> A" if "a \<in> M" for a using dok that by (auto simp: disk_ok_def)
  then show "disk_ok x A M V' H" using dok u same unfolding disk_ok_def bitmap_ok_def by auto
qed

lemma file_inv_outside:
  assumes inv: "file_inv x A M V H d i" and same: "\<forall>bn. bn \<notin> A \<longrightarrow> V' bn = V bn"
  shows "file_inv x A M V' H d i" "contents V' i = contents V i" "\<And>m. m \<le> MAXFILE \<Longrightarrow> blk V' i m = blk V i m"
    "on_disk x V i \<Longrightarrow> on_disk x V' i"
proof -
  have dok: "disk_ok x A M V H" and fok: "file_ok x A M V H i" and sz: "unat (i_size i) \<le> MAXFILE * BSIZE" using inv by (auto simp: file_inv_def)
  note o = data_block_outside [OF dok same]
  have eq: "V' a = V a" "data_block x A M V' H a" if "data_block x A M V H a" for a
    using that same o(2) by (auto simp: data_block_def)
  note f = file_same [OF fok eq]
  show "blk V' i m = blk V i m" if "m \<le> MAXFILE" for m by (rule f(2)) (use that in auto)
  show "contents V' i = contents V i" using f(3) sz by (auto simp: contents_def)
  have "blk V' i (y div BSIZE) \<noteq> 0" if "y < unat (i_size i)" for y
  proof -
    have "y div BSIZE < MAXFILE" using that sz by (intro room_lt) simp
    then show ?thesis using f(2) [of "y div BSIZE"] inv that by (auto simp: file_inv_def)
  qed
  then show "file_inv x A M V' H d i" using inv f(1) o(3) by (auto simp: file_inv_def)
  have "IBLOCK (i_inum i) x \<notin> A" using inv dok by (auto simp: file_inv_def disk_ok_def)
  then show "on_disk x V i \<Longrightarrow> on_disk x V' i" using same by (simp add: on_disk_def)
qed

text \<open>Neither the lock nor the reference count of the inode matters.\<close>

lemma file_inv_lock [simp]:
  "file_inv x A M V H d (i\<lparr>i_lock := l\<rparr>) = file_inv x A M V H d i" "contents V (i\<lparr>i_lock := l\<rparr>) = contents V i"
  "blk V (i\<lparr>i_lock := l\<rparr>) k = blk V i k" "apart_files V (i\<lparr>i_lock := l\<rparr>) j = apart_files V i j" "on_disk x V (i\<lparr>i_lock := l\<rparr>) = on_disk x V i"
proof -
  show "on_disk x V (i\<lparr>i_lock := l\<rparr>) = on_disk x V i" by (cases i) (simp add: on_disk_def dinode_read_def)
qed (auto simp: file_inv_def file_ok_def blk_def contents_def cont_def apart_files_def)

lemma others_kept_lock [simp]:
  "others_kept x A M H n (V, L, i\<lparr>i_lock := l\<rparr>) b = others_kept x A M H n (V, L, i) b"
  "others_kept x A M H n a (V', L', i'\<lparr>i_lock := l\<rparr>) = others_kept x A M H n a (V', L', i')"
  by (simp_all add: others_kept_def split: prod.split)

lemma others_kept_mono: "others_kept x A M H n a b \<Longrightarrow> n \<le> k \<Longrightarrow> others_kept x A M H k a b"
  unfolding others_kept_def by (cases a; cases b) (auto intro: order_trans)

section \<open>One chunk\<close>

text \<open>An open file of an inode that nobody has locked.\<close>

definition open_inode :: "uint \<times> uint set \<times> nat \<Rightarrow> uint set \<Rightarrow> (uint \<Rightarrow> block) \<Rightarrow> nat \<Rightarrow> fstate \<Rightarrow> bool" where
  "open_inode e M V f s \<longleftrightarrow> (case e of (d, A, cap) \<Rightarrow> let x = ftable s ! f; i = ino (ffs s) (f_ip x) in
     f < length (ftable s) \<and> f_type x = FD_INODE \<and> f_writable x \<and> f_ip x < length (inodes (ffs s)) \<and>
     1 \<le> i_ref i \<and> i_valid i \<and> slocked (i_lock i) = 0 \<and> unat (f_off x) \<le> unat (i_size i) \<and>
     file_inv (sb (ffs s)) A M V (\<lambda>_. None) d i \<and> on_disk (sb (ffs s)) V i)"

text \<open>The change of a file, and of the disk as far as other files see it, by a write of \<open>bs\<close>.\<close>

definition chunk_done :: "uint \<times> uint set \<times> nat \<Rightarrow> uint set \<Rightarrow> nat \<Rightarrow> uchar list \<Rightarrow> (uint \<Rightarrow> block) \<times> fstate \<Rightarrow> (uint \<Rightarrow> block) \<times> fstate \<Rightarrow> bool" where
  "chunk_done e M f bs = (\<lambda>(V, s) (V', s'). case e of (d, A, cap) \<Rightarrow> let x = ftable s ! f; i = ino (ffs s) (f_ip x); i' = ino (ffs s') (f_ip x) in
     idle e V' (ffs s') \<and> open_inode e M V' f s' \<and> sb (ffs s') = sb (ffs s) \<and> pipes s' = pipes s \<and>
     ftable s' = (ftable s)[f := x\<lparr>f_off := f_off x + of_nat (length bs)\<rparr>] \<and>
     contents V' i' = splice (contents V i) (unat (f_off x)) bs \<and>
     (\<forall>j. file_inv (sb (ffs s)) A M V (\<lambda>_. None) d j \<longrightarrow> apart_files V i j \<longrightarrow>
        file_inv (sb (ffs s)) A M V' (\<lambda>_. None) d j \<and> apart_files V' i' j \<and> contents V' j = contents V j))"

lemma rounds_chunk:
  assumes "n \<le> 3072"
  shows "rounds off n \<le> 4"
proof -
  have "off mod BSIZE < 1024" by (simp add: BSIZE_def)
  then have "off mod BSIZE + n + BSIZE - 1 < 5 * 1024" using assms by (simp add: BSIZE_def)
  then have "(off mod BSIZE + n + BSIZE - 1) div BSIZE < 5" by (simp add: BSIZE_def div_less_iff_less_mult)
  then show ?thesis by (simp add: rounds_def)
qed

lemma ilock_valid:
  assumes "1 \<le> i_ref (ino s ip)" "i_valid (ino s ip)" "slocked (i_lock (ino s ip)) = 0" "ip < length (inodes s)"
  shows "ilock p ip s = Some (Inr (s\<lparr>inodes := (inodes s)[ip := (ino s ip)\<lparr>i_lock := (i_lock (ino s ip))\<lparr>slocked := 1, spid := p\<rparr>\<rparr>]\<rparr>))"
  using assms by (auto simp: ilock_def acquiresleep_def upd_inode_def Let_def)


lemma others_outside:
  assumes k: "others_kept x A M H n (V, L, i) (V1, L1, i1)" and i1: "file_inv x A M V1 H d i1"
    and out: "\<forall>bn. bn \<notin> A \<longrightarrow> V' bn = V1 bn" and j: "file_inv x A M V H d j" "apart_files V i j"
  shows "file_inv x A M V' H d j \<and> apart_files V' i1 j \<and> contents V' j = contents V j"
proof -
  have "disk_ok x A M V1 H" using i1 by (simp add: file_inv_def)
  note o = others_kept_file [OF k j this]
  show ?thesis
    using o file_inv_outside [OF o(1) out] file_inv_outside(3) [OF i1 out] by (simp add: apart_files_def)
qed

lemma size_written:
  assumes "contents V' i' = splice (contents V i) off bs" "off \<le> unat (i_size i)"
  shows "off + length bs \<le> unat (i_size i')"
proof -
  have "unat (i_size i') = length (splice (contents V i) off bs)" using length_contents [of V' i'] assms(1) by simp
  then show ?thesis using assms(2) by (simp add: splice_def)
qed

text \<open>The file system calls of a chunk, one after the other.\<close>

lemma write_op:
  assumes id: "idle (d, A, cap) V y" and ip: "ip < length (inodes y)" "1 \<le> i_ref (ino y ip)" "i_valid (ino y ip)" "slocked (i_lock (ino y ip)) = 0"
    and inv: "file_inv (sb y) A M V (\<lambda>_. None) d (ino y ip)" and cap: "25 \<le> cap"
    and len: "unat off \<le> unat (i_size (ino y ip))" "length bs \<le> 3072" "unat off + length bs \<le> MAXFILE * BSIZE" and get: "feeds get a bs"
  shows "\<exists>w y1 y2 y3 y4 y5 V1 V' L1 i'. begin_fs y = Some (Inr y1) \<and> ilock p ip y1 = Some (Inr y2) \<and>
    writei p ip get a off (of_nat (length bs)) y2 = Some (Inr (int w, y3)) \<and> iunlock p ip y3 = Inr y4 \<and> end_fs p y4 = Some (Inr y5) \<and>
    w \<le> length bs \<and> idle (d, A, cap) V' y5 \<and> sb y5 = sb y \<and> inodes y5 = (inodes y)[ip := i'] \<and> (\<forall>bn. bn \<notin> A \<longrightarrow> V' bn = V1 bn) \<and>
    i_ref i' = i_ref (ino y ip) \<and> i_valid i' \<and> slocked (i_lock i') = 0 \<and>
    file_inv (sb y) A M V1 (\<lambda>_. None) d i' \<and> on_disk (sb y) V1 i' \<and> contents V1 i' = splice (contents V (ino y ip)) (unat off) (take w bs) \<and>
    others_kept (sb y) A M (\<lambda>_. None) 25 (V, {}, ino y ip) (V1, L1, i') \<and>
    (w < length bs \<longrightarrow> (\<forall>b<unat (sb_size (sb y)). used (sb y) V1 b))"
proof -
  let ?H = "\<lambda>_ :: uint. None :: int option" and ?i = "ino y ip"
  obtain y1 where 1: "begin_fs y = Some (Inr y1)" "ftx (d, A, cap, 1) V {} ?H y1" "sb y1 = sb y" "inodes y1 = inodes y"
    using idle_begin [OF id] by blast
  let ?l = "(i_lock ?i)\<lparr>slocked := 1, spid := p\<rparr>"
  let ?y2 = "y1\<lparr>inodes := (inodes y)[ip := ?i\<lparr>i_lock := ?l\<rparr>]\<rparr>"
  have 2: "ilock p ip y1 = Some (Inr ?y2)" using ilock_valid [of y1 ip p] ip 1(4) by simp
  have i2: "ino ?y2 ip = ?i\<lparr>i_lock := ?l\<rparr>" "sb ?y2 = sb y" using ip(1) 1(3) by simp_all
  have R: "rounds (unat off) (length bs) \<le> 4" by (rule rounds_chunk [OF len(2)])
  have pre: "ftx (d, A, cap, 1) V {} ?H ?y2" "file_inv (sb ?y2) A M V ?H d (ino ?y2 ip)" "ip < length (inodes ?y2)" "finite ({} :: uint set)"
    "card ({} \<union> {x. ?H x \<noteq> None}) + 6 * rounds (unat off) (length bs) + 1 < NBUF"
    "card ({} :: uint set) + 6 * rounds (unat off) (length bs) + 1 \<le> cap" "unat off \<le> unat (i_size (ino ?y2 ip))"
    unfolding i2 using 1(2) ip(1) inv len(1) R cap by (simp_all add: ftx_def NBUF_def)
  obtain w y3 V1 L1 i' where 3: "writei p ip get a off (of_nat (length bs)) ?y2 = Some (Inr (int w, y3))" "w \<le> length bs"
    "ftx (d, A, cap, 1) V1 L1 ?H y3" "sb y3 = sb y" "inodes y3 = (inodes ?y2)[ip := i']"
    "\<exists>as z. i' = (?i\<lparr>i_lock := ?l\<rparr>)\<lparr>i_addrs := as, i_size := z\<rparr>" "file_inv (sb y) A M V1 ?H d i'" "on_disk (sb y) V1 i'"
    "contents V1 i' = splice (contents V ?i) (unat off) (take w bs)"
    "others_kept (sb y) A M ?H (6 * rounds (unat off) (length bs) + 1) (V, {}, ?i\<lparr>i_lock := ?l\<rparr>) (V1, L1, i')"
    "w < length bs \<longrightarrow> (\<forall>b<unat (sb_size (sb y)). used (sb y) V1 b)"
    using writei_ok [OF pre len(3) get, of p] unfolding i2 file_inv_lock by blast
  let ?i' = "i'\<lparr>i_lock := releasesleep (i_lock i')\<rparr>"
  let ?y4 = "y3\<lparr>inodes := (inodes y)[ip := ?i']\<rparr>"
  have i': "i_lock i' = ?l" "i_ref i' = i_ref ?i" "i_valid i'" using 3(6) ip(3) by auto
  have 4: "iunlock p ip y3 = Inr ?y4" using i' ip(1,2) 3(5) by (simp add: iunlock_def holdingsleep_def upd_inode_def)
  have "ftx (d, A, cap, 1) V1 L1 ?H ?y4" using 3(3) by (simp add: ftx_def)
  moreover have c30: "cap < NBUF" using id by (simp add: idle_def Let_def)
  ultimately obtain y5 V' where 5: "end_fs p ?y4 = Some (Inr y5)" "idle (d, A, cap) V' y5" "\<forall>bn. bn \<notin> A \<longrightarrow> V' bn = V1 bn"
    "sb y5 = sb ?y4" "inodes y5 = inodes ?y4" using idle_end by blast
  have k: "others_kept (sb y) A M ?H 25 (V, {}, ?i) (V1, L1, ?i')" using others_kept_mono [OF 3(10)] R by simp
  have sb: "sb y5 = sb y" "inodes y5 = (inodes y)[ip := ?i']" using 3(4) 5(4,5) by simp_all
  have r: "i_ref ?i' = i_ref ?i" "i_valid ?i'" "slocked (i_lock ?i') = 0" using i' by (simp_all add: releasesleep_def)
  have f: "file_inv (sb y) A M V1 ?H d ?i'" "on_disk (sb y) V1 ?i'" "contents V1 ?i' = splice (contents V ?i) (unat off) (take w bs)"
    using 3(7-9) by simp_all
  show ?thesis
    by (intro exI conjI, rule 1(1), rule 2, rule 3(1), rule 4, rule 5(1), rule 3(2), rule 5(2), rule sb(1), rule sb(2), rule 5(3),
      rule r(1), rule r(2), rule r(3), rule f(1), rule f(2), rule f(3), rule k, rule 3(11))
qed

lemma write_chunk_ok:
  assumes id: "idle (d, A, cap) V (ffs s)" and op: "open_inode (d, A, cap) M V f s" and cap: "25 \<le> cap"
    and len: "length bs \<le> 3072" "unat (f_off (ftable s ! f)) + length bs \<le> MAXFILE * BSIZE" and get: "feeds get a bs"
  shows "\<exists>w s' V'. write_chunk p get f a (int (length bs)) s = Some (Inr (int w, s')) \<and> w \<le> length bs \<and>
    chunk_done (d, A, cap) M f (take w bs) (V, s) (V', s') \<and>
    (w < length bs \<longrightarrow> (\<forall>b<unat (sb_size (sb (ffs s))). used (sb (ffs s)) V' b))"
proof -
  let ?x = "ftable s ! f" and ?S = "sb (ffs s)" and ?H = "\<lambda>_ :: uint. None :: int option"
  let ?ip = "f_ip (ftable s ! f)"
  let ?i = "ino (ffs s) ?ip"
  have f: "f < length (ftable s)" "f_type ?x = FD_INODE" "f_writable ?x" and ip: "?ip < length (inodes (ffs s))" "1 \<le> i_ref ?i" "i_valid ?i" "slocked (i_lock ?i) = 0"
    and inv: "file_inv ?S A M V ?H d ?i" and o: "unat (f_off ?x) \<le> unat (i_size ?i)"
    using op by (auto simp: open_inode_def Let_def)
  obtain w y1 y2 y3 y4 y5 V1 V' L1 i' where 1: "begin_fs (ffs s) = Some (Inr y1)" "ilock p ?ip y1 = Some (Inr y2)"
    "writei p ?ip get a (f_off ?x) (of_nat (length bs)) y2 = Some (Inr (int w, y3))" "iunlock p ?ip y3 = Inr y4" "end_fs p y4 = Some (Inr y5)"
    and w: "w \<le> length bs" and 5: "idle (d, A, cap) V' y5" "sb y5 = ?S" "inodes y5 = (inodes (ffs s))[?ip := i']"
    and out: "\<forall>bn. bn \<notin> A \<longrightarrow> V' bn = V1 bn" and i': "i_ref i' = i_ref ?i" "i_valid i'" "slocked (i_lock i') = 0"
    and inv': "file_inv ?S A M V1 ?H d i'" "on_disk ?S V1 i'" and c1: "contents V1 i' = splice (contents V ?i) (unat (f_off ?x)) (take w bs)"
    and k: "others_kept ?S A M ?H 25 (V, {}, ?i) (V1, L1, i')" and full: "w < length bs \<longrightarrow> (\<forall>b<unat (sb_size ?S). used ?S V1 b)"
    using write_op [OF id ip inv cap o len get, of p] by blast
  let ?s = "s\<lparr>ftable := (ftable s)[f := ?x\<lparr>f_off := f_off ?x + of_nat w\<rparr>], ffs := y5\<rparr>"
  have run: "write_chunk p get f a (int (length bs)) s = Some (Inr (int w, ?s))"
    using 1 f(1) by (cases w) (auto simp: write_chunk_def on_fs_def upd_file_def Let_def)
  have new: "ino (ffs ?s) ?ip = i'" "sb (ffs ?s) = ?S" "?ip < length (inodes y5)" using ip(1) 5 by simp_all
  note fo = file_inv_outside [OF inv'(1) out]
  have c: "contents V' i' = splice (contents V ?i) (unat (f_off ?x)) (take w bs)" using c1 fo(2) by simp
  have sz: "unat (f_off ?x) + w \<le> unat (i_size i')" using size_written [OF c o] w by simp
  have off: "unat (f_off ?x + of_nat w) = unat (f_off ?x) + w"
    using len(2) w by (subst unat_add) (simp_all add: unat_of_nat_less NINDIRECT_256 BSIZE_def)
  have "open_inode (d, A, cap) M V' f ?s"
    using f ip(2) i' sz off fo(1,4) inv'(2) new unfolding open_inode_def by (simp add: Let_def)
  then have "chunk_done (d, A, cap) M f (take w bs) (V, s) (V', ?s)"
    using 5(1) new c others_outside [OF k inv'(1) out] w unfolding chunk_done_def by (simp add: Let_def min_def)
  moreover have "disk_ok ?S A M V1 ?H" using inv'(1) by (simp add: file_inv_def)
  then have "w < length bs \<longrightarrow> (\<forall>b<unat (sb_size ?S). used ?S V' b)" using data_block_outside(1) [OF _ out] full by blast
  ultimately show ?thesis using run w by blast
qed

section \<open>All chunks\<close>

lemma splice_splice: "off \<le> length c \<Longrightarrow> splice (splice c off xs) (off + length xs) ys = splice c off (xs @ ys)"
  by (simp add: splice_def ac_simps)

lemma feeds_part:
  assumes "feeds get src bs" "i + n \<le> length bs"
  shows "feeds get (src + of_nat i) (take n (drop i bs))"
  unfolding feeds_def
proof (intro allI impI)
  fix t m assume "t + m \<le> length (take n (drop i bs))"
  then have tm: "t + m \<le> n" using assms(2) by simp
  then have "(i + t) + m \<le> length bs" using assms(2) by simp
  then have "get (src + of_nat (i + t)) m = (take m (drop (i + t) bs), True)" using assms(1) unfolding feeds_def by blast
  moreover have "take m (drop t (take n (drop i bs))) = take m (drop (i + t) bs)" using tm by (simp add: drop_take add.commute)
  ultimately show "get (src + of_nat i + of_nat t) m = (take m (drop t (take n (drop i bs))), True)" by (simp add: add.assoc)
qed

lemma chunk_done_refl:
  assumes "idle (d, A, cap) V (ffs s)" "open_inode (d, A, cap) M V f s"
  shows "chunk_done (d, A, cap) M f [] (V, s) (V, s)"
  using assms by (simp add: chunk_done_def Let_def splice_def open_inode_def)

lemma chunk_done_trans:
  assumes 1: "chunk_done (d, A, cap) M f b1 (V, s) (V1, s1)" and 2: "chunk_done (d, A, cap) M f b2 (V1, s1) (V2, s2)"
    and op: "open_inode (d, A, cap) M V f s" and off: "unat (f_off (ftable s ! f)) + length b1 \<le> MAXFILE * BSIZE"
  shows "chunk_done (d, A, cap) M f (b1 @ b2) (V, s) (V2, s2)"
proof -
  let ?x = "ftable s ! f"
  have f: "f < length (ftable s)" "unat (f_off ?x) \<le> length (contents V (ino (ffs s) (f_ip ?x)))" using op by (simp_all add: open_inode_def Let_def)
  have x1: "ftable s1 ! f = ?x\<lparr>f_off := f_off ?x + of_nat (length b1)\<rparr>" using 1 f(1) by (simp add: chunk_done_def Let_def)
  have u: "unat (f_off ?x + of_nat (length b1)) = unat (f_off ?x) + length b1"
    using off by (subst unat_add) (simp_all add: unat_of_nat_less NINDIRECT_256 BSIZE_def)
  have "contents V2 (ino (ffs s2) (f_ip ?x)) = splice (contents V (ino (ffs s) (f_ip ?x))) (unat (f_off ?x)) (b1 @ b2)"
    using 1 2 x1 u splice_splice [OF f(2), of b1 b2] by (simp add: chunk_done_def Let_def)
  then show ?thesis using 1 2 x1 f(1) by (simp add: chunk_done_def Let_def add.assoc)
qed

lemma filewrite_loop_ok:
  assumes "idle (d, A, cap) V (ffs s)" "open_inode (d, A, cap) M V f s" "25 \<le> cap" "feeds get addr bs"
    "i \<le> length bs" "unat (f_off (ftable s ! f)) + (length bs - i) \<le> MAXFILE * BSIZE"
  shows "\<exists>i' w s' V'. filewrite_loop p get f addr (int (length bs)) (int i) s = Some (Inr (int i', s')) \<and> w \<le> length bs - i \<and>
    chunk_done (d, A, cap) M f (take w (drop i bs)) (V, s) (V', s') \<and> (i' = length bs \<longleftrightarrow> w = length bs - i) \<and>
    (w < length bs - i \<longrightarrow> (\<forall>b<unat (sb_size (sb (ffs s))). used (sb (ffs s)) V' b))"
  using assms
proof (induction "length bs - i" arbitrary: i V s rule: less_induct)
  case less
  show ?case
  proof (cases "i < length bs")
    case False
    then have "filewrite_loop p get f addr (int (length bs)) (int i) s = Some (Inr (int i, s))" by (simp add: filewrite_loop.simps)
    then show ?thesis using False less.prems(5) chunk_done_refl [OF less.prems(1,2)]
      by (intro exI [of _ i] exI [of _ 0] exI [of _ s] exI [of _ V]) simp
  next
    case True
    define m where "m = min (length bs - i) 3072"
    have m: "0 < m" "m \<le> length bs - i" "m \<le> 3072" "i + m \<le> length bs" using True by (auto simp: m_def)
    let ?bs = "take m (drop i bs)"
    have lb: "length ?bs = m" using m by simp
    have n1: "min (int (length bs) - int i) write_max = int m" using True by (simp add: m_def write_max_def MAXOPBLOCKS_def BSIZE_def of_nat_diff)
    have fd: "feeds get (addr + of_nat i) ?bs" by (rule feeds_part [OF less.prems(4) m(4)])
    have l: "length ?bs \<le> 3072" "unat (f_off (ftable s ! f)) + length ?bs \<le> MAXFILE * BSIZE" using m less.prems(6) by simp_all
    obtain w s1 V1 where c: "write_chunk p get f (addr + of_nat i) (int m) s = Some (Inr (int w, s1))" "w \<le> m"
      "chunk_done (d, A, cap) M f (take w ?bs) (V, s) (V1, s1)" "w < m \<longrightarrow> (\<forall>b<unat (sb_size (sb (ffs s))). used (sb (ffs s)) V1 b)"
      using write_chunk_ok [OF less.prems(1-3) l fd, of p] unfolding lb by blast
    have step: "filewrite_loop p get f addr (int (length bs)) (int i) s =
        (if w \<noteq> m then Some (Inr (int i, s1)) else filewrite_loop p get f addr (int (length bs)) (int (i + m)) s1)"
      using True n1 c(1) by (subst filewrite_loop.simps) (simp add: Let_def)
    show ?thesis
    proof (cases "w = m")
      case False
      then have "w < m" using c(2) by simp
      then show ?thesis using step c(3,4) m False True by (intro exI [of _ i] exI [of _ w] exI [of _ s1] exI [of _ V1]) (simp add: min_def)
    next
      case w: True
      have cd: "chunk_done (d, A, cap) M f ?bs (V, s) (V1, s1)" using c(3) w by simp
      have fl: "f < length (ftable s)" using less.prems(2) by (simp add: open_inode_def Let_def)
      have n: "idle (d, A, cap) V1 (ffs s1)" "open_inode (d, A, cap) M V1 f s1" "sb (ffs s1) = sb (ffs s)"
        "f_off (ftable s1 ! f) = f_off (ftable s ! f) + of_nat m"
        using cd fl lb by (simp_all add: chunk_done_def Let_def)
      have u: "unat (f_off (ftable s1 ! f)) = unat (f_off (ftable s ! f)) + m"
        unfolding n(4) using l(2) lb by (subst unat_add) (simp_all add: unat_of_nat_less NINDIRECT_256 BSIZE_def)
      have d: "length bs - (i + m) < length bs - i" "i + m \<le> length bs" using m True by simp_all
      have o: "unat (f_off (ftable s1 ! f)) + (length bs - (i + m)) \<le> MAXFILE * BSIZE" using u less.prems(6) m by simp
      obtain i' w' s' V' where r: "filewrite_loop p get f addr (int (length bs)) (int (i + m)) s1 = Some (Inr (int i', s'))"
        "w' \<le> length bs - (i + m)" "chunk_done (d, A, cap) M f (take w' (drop (i + m) bs)) (V1, s1) (V', s')"
        "i' = length bs \<longleftrightarrow> w' = length bs - (i + m)" "w' < length bs - (i + m) \<longrightarrow> (\<forall>b<unat (sb_size (sb (ffs s1))). used (sb (ffs s1)) V' b)"
        using less.hyps [OF d(1) n(1,2) less.prems(3,4) d(2) o] by blast
      have e: "?bs @ take w' (drop (i + m) bs) = take (m + w') (drop i bs)" by (simp add: take_add add.commute)
      have t: "chunk_done (d, A, cap) M f (take (m + w') (drop i bs)) (V, s) (V', s')"
        using chunk_done_trans [OF cd r(3) less.prems(2) l(2)] unfolding e .
      show ?thesis using step w r t m n(3) by (intro exI [of _ i'] exI [of _ "m + w'"] exI [of _ s'] exI [of _ V']) auto
    qed
  qed
qed

lemma idle_reboot:
  assumes id: "idle (d, A, cap) V y" and d: "d \<noteq> 0" and l0: "length (lh_block l0) = LOGSIZE" and nlog: "sint nlog = l_size (fl (fk y))"
  shows "\<exists>k. initlog p d (l_start (fl (fk y))) nlog \<lparr>fl = l0, fc = binit (boot_cache (disk (fc (fk y))))\<rparr> = Some (Inr k) \<and>
    (\<forall>bn. bn \<notin> A \<longrightarrow> view (fc k) d bn = V bn)"
proof -
  let ?l = "fl (fk y)"
  have l: "length (V (l_start ?l)) = BSIZE" "get32 (V (l_start ?l)) 0 = 0" "length (lh_block ?l) = LOGSIZE" "disk (fc (fk y)) = V" "area ?l = A"
    using id by (auto simp: idle_def Let_def cabs_def)
  note c = cleared_log [where D = V and l = ?l, OF l(1-3)]
  show ?thesis
    using initlog_spec [OF l0 l(3) d c(4) nlog, of p] c(3) l(4,5) by auto
qed

text \<open>
  Property C2 (a write is on the disk when it returns). Between system calls let \<open>f\<close> be a writable open file of an inode
  that nobody has locked. \<open>filewrite\<close> of the bytes \<open>bs\<close> of user memory returns their number, or -1 when the disk ran
  full after \<open>w\<close> of them. The contents of the file are the old ones with those \<open>w\<close> bytes put at the offset of the file, the
  offset has moved by \<open>w\<close>, the inode on disk agrees with the one in memory, and other files have their old
  contents. And all this is durable: if the machine stops now and boots again, recovery gives every block outside the
  log the contents it has now.
\<close>

theorem filewrite_durable:
  assumes "idle (d, A, cap) V (ffs s)" "open_inode (d, A, cap) M V f s" "25 \<le> cap" "d \<noteq> 0" "feeds get addr bs"
    and "unat (f_off (ftable s ! f)) + length bs \<le> MAXFILE * BSIZE"
  defines "ip \<equiv> f_ip (ftable s ! f)" and "S \<equiv> sb (ffs s)"
  shows "\<exists>w s' V'. filewrite p kld get devwrite f addr (int (length bs)) s = Some (Inr (if w = length bs then int (length bs) else -1, s')) \<and>
    w \<le> length bs \<and> (w < length bs \<longrightarrow> (\<forall>b<unat (sb_size S). used S V' b)) \<and>
    idle (d, A, cap) V' (ffs s') \<and> open_inode (d, A, cap) M V' f s' \<and> on_disk S V' (ino (ffs s') ip) \<and>
    contents V' (ino (ffs s') ip) = splice (contents V (ino (ffs s) ip)) (unat (f_off (ftable s ! f))) (take w bs) \<and>
    f_off (ftable s' ! f) = f_off (ftable s ! f) + of_nat w \<and>
    (\<forall>j. file_inv S A M V (\<lambda>_. None) d j \<longrightarrow> apart_files V (ino (ffs s) ip) j \<longrightarrow> contents V' j = contents V j) \<and>
    (\<forall>p' l0 nlog. length (lh_block l0) = LOGSIZE \<longrightarrow> sint nlog = l_size (fl (fk (ffs s'))) \<longrightarrow>
       (\<exists>k. initlog p' d (l_start (fl (fk (ffs s')))) nlog \<lparr>fl = l0, fc = binit (boot_cache (disk (fc (fk (ffs s')))))\<rparr> = Some (Inr k) \<and>
         (\<forall>bn. bn \<notin> A \<longrightarrow> view (fc k) d bn = V' bn)))"
proof -
  have z: "0 \<le> length bs" "unat (f_off (ftable s ! f)) + (length bs - 0) \<le> MAXFILE * BSIZE" using assms(6) by simp_all
  obtain i' w s' V' where r: "filewrite_loop p get f addr (int (length bs)) (int 0) s = Some (Inr (int i', s'))" "w \<le> length bs - 0"
    and c: "chunk_done (d, A, cap) M f (take w (drop 0 bs)) (V, s) (V', s')" and i': "i' = length bs \<longleftrightarrow> w = length bs - 0"
    and full: "w < length bs - 0 \<longrightarrow> (\<forall>b<unat (sb_size S). used S V' b)"
    using filewrite_loop_ok [OF assms(1-3,5) z, of p] unfolding S_def by blast
  have x: "f < length (ftable s)" "f_type (ftable s ! f) = FD_INODE" "f_writable (ftable s ! f)" using assms(2) by (auto simp: open_inode_def Let_def)
  have run: "filewrite p kld get devwrite f addr (int (length bs)) s = Some (Inr (if w = length bs then int (length bs) else -1, s'))"
    using r(1) i' x by (simp add: filewrite_def Let_def)
  have l: "length (take w bs) = w" using r(2) by simp
  have id: "idle (d, A, cap) V' (ffs s')" "open_inode (d, A, cap) M V' f s'" "sb (ffs s') = S"
    "ftable s' = (ftable s)[f := (ftable s ! f)\<lparr>f_off := f_off (ftable s ! f) + of_nat w\<rparr>]"
    "contents V' (ino (ffs s') ip) = splice (contents V (ino (ffs s) ip)) (unat (f_off (ftable s ! f))) (take w bs)"
    "\<forall>j. file_inv S A M V (\<lambda>_. None) d j \<longrightarrow> apart_files V (ino (ffs s) ip) j \<longrightarrow> contents V' j = contents V j"
    using c l unfolding chunk_done_def S_def ip_def by (simp_all add: Let_def)
  have dsk: "on_disk S V' (ino (ffs s') ip)" using id(2,3,4) x(1) by (simp add: open_inode_def Let_def ip_def)
  have o: "f_off (ftable s' ! f) = f_off (ftable s ! f) + of_nat w" using id(4) x(1) by simp
  show ?thesis
    using run r(2) full id(1,2,5,6) dsk o idle_reboot [OF id(1) assms(4)] by (intro exI conjI) auto
qed

section \<open>An example\<close>

text \<open>The disk of the example with its inode stored, and an empty file open for writing.\<close>

definition demo_stored :: "uint \<Rightarrow> block" where
  "demo_stored = demo_disk(32 := splice (demo_disk 32) 64 (dinode_bytes demo_inode))"

definition demo_open :: fstate where
  "demo_open = \<lparr>ftable = [\<lparr>f_type = FD_INODE, f_ref = 1, f_readable = True, f_writable = True, f_pipe = 0, f_ip = 0, f_off = 0, f_major = 0\<rparr>],
     ffs = demo_fs\<lparr>fk := \<lparr>fl = demo_log\<lparr>committing := False, lh_n := 0\<rparr>, fc = binit (boot_cache demo_stored)\<rparr>\<rparr>, pipes = []\<rparr>"

lemma demo_idle: "idle (1, area demo_log, 29) demo_stored (ffs demo_open)"
  using demo_header binit_inv [of 1 demo_stored] by (simp add: idle_def Let_def demo_open_def demo_fs_def demo_stored_def LOGSIZE_30 NBUF_def area_def log_block_def)

lemma demo_stored_inode:
  "file_inv demo_sb (area demo_log) {32, 45} demo_stored (\<lambda>_. None) 1 demo_inode" "on_disk demo_sb demo_stored demo_inode"
proof -
  let ?bs = "splice (demo_disk 32) 64 (dinode_bytes demo_inode)"
  have len: "length (i_addrs demo_inode) = Suc NDIRECT" by (simp add: demo_inode_def NDIRECT_def)
  have l: "length (demo_disk 32) = BSIZE" by (simp add: demo_disk_def)
  have lb: "length ?bs = BSIZE" using l length_dinode_bytes [OF len] by (simp add: length_splice BSIZE_def)
  have at: "IBLOCK (i_inum demo_inode) demo_sb = 32" "dinode_at (i_inum demo_inode) = 64"
    by (simp_all add: demo_inode_def IBLOCK_def demo_sb_def IPB_def BSIZE_def dinode_at_def)
  have m: "\<forall>b<unat (sb_size demo_sb). map_block demo_sb b \<noteq> 32" by (simp add: demo_size demo_map_block)
  note u = meta_update [OF demo_disk_ok _ m lb, folded demo_stored_def, simplified]
  have "file_ok demo_sb (area demo_log) {32, 45} demo_disk (\<lambda>_. None) demo_inode" using demo_file_inv by (simp add: file_inv_def)
  then have "file_ok demo_sb (area demo_log) {32, 45} demo_stored (\<lambda>_. None) demo_inode" by (rule file_same(1)) (use u in auto)
  then show "file_inv demo_sb (area demo_log) {32, 45} demo_stored (\<lambda>_. None) 1 demo_inode"
    using demo_file_inv u(1) by (simp add: file_inv_def demo_simps)
  show "on_disk demo_sb demo_stored demo_inode"
    using dinode_roundtrip [OF len, of 1 "demo_disk 32" demo_inode] l at by (simp add: on_disk_def demo_stored_def BSIZE_def)
qed

lemma demo_open_inode: "open_inode (1, area demo_log, 29) {32, 45} demo_stored 0 demo_open"
  using demo_stored_inode by (simp add: open_inode_def Let_def demo_open_def demo_simps) (simp add: demo_inode_def initsleeplock_def)

theorem filewrite_durable_witness:
  "\<exists>w s' V' k. filewrite 3 False (from_list hello) (\<lambda>_. None) 0 0 5 demo_open = Some (Inr (if w = 5 then 5 else -1, s')) \<and>
    contents V' (ino (ffs s') 0) = take w hello \<and>
    initlog 1 1 (l_start (fl (fk (ffs s')))) (word_of_int (l_size (fl (fk (ffs s')))))
      \<lparr>fl = demo_log, fc = binit (boot_cache (disk (fc (fk (ffs s')))))\<rparr> = Some (Inr k) \<and> view (fc k) 1 45 = V' 45"
proof -
  let ?ip = "f_ip (ftable demo_open ! 0)" and ?S = "sb (ffs demo_open)"
  have s: "f_ip (ftable demo_open ! 0) = 0" "ino (ffs demo_open) 0 = demo_inode" "f_off (ftable demo_open ! 0) = 0" by (simp_all add: demo_open_def demo_simps)
  have o: "unat (f_off (ftable demo_open ! 0)) + length hello \<le> MAXFILE * BSIZE" using demo_room(6) s(3) by simp
  have n: "25 \<le> (29 :: nat)" "(1 :: uint) \<noteq> 0" by simp_all
  obtain w s' V' where r: "filewrite 3 False (from_list hello) (\<lambda>_. None) 0 0 (int (length hello)) demo_open = Some (Inr (if w = length hello then int (length hello) else -1, s'))"
    and id: "idle (1, area demo_log, 29) V' (ffs s')"
    and c: "contents V' (ino (ffs s') ?ip) = splice (contents demo_stored (ino (ffs demo_open) ?ip)) (unat (f_off (ftable demo_open ! 0))) (take w hello)"
    and b: "\<forall>p' l0 nlog. length (lh_block l0) = LOGSIZE \<longrightarrow> sint nlog = l_size (fl (fk (ffs s'))) \<longrightarrow>
       (\<exists>k. initlog p' 1 (l_start (fl (fk (ffs s')))) nlog \<lparr>fl = l0, fc = binit (boot_cache (disk (fc (fk (ffs s')))))\<rparr> = Some (Inr k) \<and>
         (\<forall>bn. bn \<notin> area demo_log \<longrightarrow> view (fc k) 1 bn = V' bn))"
    using filewrite_durable [OF demo_idle demo_open_inode n demo_write(2) o, of 3 False "\<lambda>_. None"] by (elim exE conjE) (rule that)
  have "l_size (fl (fk (ffs s'))) = 30" using id by (auto simp: idle_def Let_def LOGSIZE_30 min_def split: if_splits)
  then have z: "sint (word_of_int (l_size (fl (fk (ffs s')))) :: uint) = l_size (fl (fk (ffs s')))" by simp
  have h: "length (lh_block demo_log) = LOGSIZE" by (simp add: LOGSIZE_30)
  obtain k where k: "initlog 1 1 (l_start (fl (fk (ffs s')))) (word_of_int (l_size (fl (fk (ffs s')))))
      \<lparr>fl = demo_log, fc = binit (boot_cache (disk (fc (fk (ffs s')))))\<rparr> = Some (Inr k)" "\<forall>bn. bn \<notin> area demo_log \<longrightarrow> view (fc k) 1 bn = V' bn"
    using b [rule_format, OF h z, of 1] by (elim exE conjE) (rule that)
  have "(45 :: uint) \<notin> area demo_log" by (simp add: area_far)
  then have "view (fc k) 1 45 = V' 45" using k(2) by blast
  moreover have "contents V' (ino (ffs s') 0) = take w hello" using c unfolding s by (simp add: demo_simps splice_def)
  moreover have "filewrite 3 False (from_list hello) (\<lambda>_. None) 0 0 5 demo_open = Some (Inr (if w = 5 then 5 else -1, s'))" using r by simp
  ultimately show ?thesis using k(1) by (intro exI conjI)
qed

end
