(* ===== verification/Sysfile_Refs.thy ===== *)
theory Sysfile_Refs
  imports Sysfile
begin

text \<open>
  File descriptors (\<open>kernel/sysfile.c\<close>, \<open>kernel/file.c\<close>): the reference count of an open file is the number of
  descriptors that refer to it, and every call keeps it so.
\<close>

section \<open>Counting references\<close>

text \<open>\<open>others f\<close> is the number of references to \<open>f\<close> that are not descriptors of the process: those of other processes, and in
  the middle of a call those that are not a descriptor yet.\<close>

definition refs_ok :: "(nat \<Rightarrow> int) \<Rightarrow> task \<Rightarrow> bool" where
  "refs_ok others t \<longleftrightarrow> length (ofile t) = NOFILE \<and> length (ftable (tf t)) = NFILE \<and>
     (\<forall>f<NFILE. f_ref (ftable (tf t) ! f) = int (count_list (ofile t) (Some f)) + others f) \<and>
     (\<forall>f<NFILE. f_ref (ftable (tf t) ! f) = 0 \<longrightarrow> f_type (ftable (tf t) ! f) = FD_NONE) \<and>
     (\<forall>f. Some f \<in> set (ofile t) \<longrightarrow> f < NFILE)"

lemma count_list_update:
  "i < length xs \<Longrightarrow> int (count_list (xs[i := x]) y) = int (count_list xs y) + (if x = y then 1 else 0) - (if xs ! i = y then 1 else 0)"
proof (induction xs arbitrary: i)
  case (Cons a xs)
  show ?case
  proof (cases i)
    case (Suc j)
    then show ?thesis using Cons.prems Cons.IH [of j] by (simp split: if_splits)
  qed simp
qed simp

lemma set_update_subset: "Some f \<in> set (xs[i := x]) \<Longrightarrow> x = Some f \<or> Some f \<in> set xs"
  using set_update_subset_insert [of xs i x] by auto

text \<open>Changing a descriptor and the table.\<close>

lemma refs_ofile:
  assumes "refs_ok r t" "fd < NOFILE" "case v of Some g \<Rightarrow> g < NFILE | None \<Rightarrow> True"
  shows "refs_ok (\<lambda>f. r f + (if ofile t ! fd = Some f then 1 else 0) - (if v = Some f then 1 else 0)) (t\<lparr>ofile := (ofile t)[fd := v]\<rparr>)"
  using assms by (auto simp: refs_ok_def count_list_update dest!: set_update_subset)

lemma refs_table:
  assumes "refs_ok r t" "ftable x = (ftable (tf t))[f := g]" "f_ref g = 0 \<longrightarrow> f_type g = FD_NONE"
  shows "refs_ok (\<lambda>h. if h = f \<and> h < NFILE then r h + f_ref g - f_ref (ftable (tf t) ! f) else r h) (t\<lparr>tf := x\<rparr>)"
proof -
  have n: "ftable x ! h = (if h = f then g else ftable (tf t) ! h)" if "h < NFILE" for h
    using assms(1,2) that by (simp add: refs_ok_def nth_list_update)
  have l: "length (ftable x) = NFILE" using assms(1,2) by (simp add: refs_ok_def)
  show ?thesis using assms(1,3) n l unfolding refs_ok_def by simp
qed

lemma refs_same: "refs_ok r t \<Longrightarrow> ftable (tf t') = ftable (tf t) \<Longrightarrow> ofile t' = ofile t \<Longrightarrow> refs_ok r t'"
  by (simp add: refs_ok_def)

lemma refs_eq: "refs_ok r t \<Longrightarrow> (\<And>f. f < NFILE \<Longrightarrow> r f = r' f) \<Longrightarrow> refs_ok r' t"
  by (simp add: refs_ok_def)

lemma on_fs_tab: "on_fs c s = Some (Inr s') \<Longrightarrow> ftable s' = ftable s \<and> pipes s' = pipes s"
  by (auto simp: on_fs_def elim: bind_run_InrE)

lemma fs_do_tab: "fs_do c t = Some (Inr t') \<Longrightarrow> ftable (tf t') = ftable (tf t) \<and> ofile t' = ofile t \<and> pipes (tf t') = pipes (tf t)"
  by (auto simp: fs_do_def on_files_def dest: on_fs_tab elim!: bind_run_InrE)

lemma fs_call_tab: "fs_call c t = Some (Inr (v, t')) \<Longrightarrow> ftable (tf t') = ftable (tf t) \<and> ofile t' = ofile t \<and> pipes (tf t') = pipes (tf t)"
  by (auto simp: fs_call_def elim!: bind_run_InrE)

section \<open>The operations\<close>

lemma fdalloc_ok:
  assumes "refs_ok r t" "f < NFILE" "fdalloc f t = (fd, t')"
  shows "if fd < 0 then fd = -1 \<and> t' = t \<and> None \<notin> set (ofile t)
    else fd < int NOFILE \<and> ofile t ! nat fd = None \<and> (\<forall>k<nat fd. ofile t ! k \<noteq> None) \<and>
      t' = t\<lparr>ofile := (ofile t)[nat fd := Some f]\<rparr> \<and> refs_ok (r(f := r f - 1)) t'"
proof -
  have len: "length (ofile t) = NOFILE" using assms(1) by (simp add: refs_ok_def)
  have "fd = -1 \<and> t' = t \<and> (\<forall>k\<in>set fds. ofile t ! k \<noteq> None) \<or>
    (\<exists>pre n post. fds = pre @ n # post \<and> fd = int n \<and> ofile t ! n = None \<and> (\<forall>k\<in>set pre. ofile t ! k \<noteq> None) \<and>
      t' = t\<lparr>ofile := (ofile t)[n := Some f]\<rparr>)"
    if "fdalloc_scan f fds t = (fd, t')" for fds
    using that
  proof (induction fds)
    case (Cons n fds)
    then show ?case
    proof (cases "ofile t ! n = None")
      case True
      then show ?thesis using Cons.prems by (intro disjI2 exI [of _ "[]"]) auto
    next
      case False
      then have "fdalloc_scan f fds t = (fd, t')" using Cons.prems by (simp split: if_splits)
      from Cons.IH [OF this] show ?thesis
      proof (elim disjE exE)
        fix pre m post
        assume "fds = pre @ m # post \<and> fd = int m \<and> ofile t ! m = None \<and> (\<forall>k\<in>set pre. ofile t ! k \<noteq> None) \<and> t' = t\<lparr>ofile := (ofile t)[m := Some f]\<rparr>"
        then show ?thesis using False by (intro disjI2 exI [of _ "n # pre"] exI [of _ m] exI [of _ post]) simp
      qed (use False in simp)
    qed
  qed auto
  from this [of "[0..<NOFILE]"] assms(3) have c: "fd = -1 \<and> t' = t \<and> (\<forall>k\<in>set [0..<NOFILE]. ofile t ! k \<noteq> None) \<or>
    (\<exists>pre n post. [0..<NOFILE] = pre @ n # post \<and> fd = int n \<and> ofile t ! n = None \<and> (\<forall>k\<in>set pre. ofile t ! k \<noteq> None) \<and>
      t' = t\<lparr>ofile := (ofile t)[n := Some f]\<rparr>)" by (simp add: fdalloc_def)
  have upto: "n < m \<and> pre = [0..<n]" if "[0..<m] = pre @ n # post" for pre n post and m :: nat
  proof -
    have l: "length pre < m" using arg_cong [OF that, of length] by simp
    have "n = length pre" using arg_cong [OF that, of "\<lambda>xs. xs ! length pre"] l by simp
    then show ?thesis using arg_cong [OF that, of "take (length pre)"] l by (simp add: take_upt)
  qed
  have s: "if fd < 0 then fd = -1 \<and> t' = t \<and> (\<forall>k\<in>set [0..<NOFILE]. ofile t ! k \<noteq> None)
    else 0 \<le> fd \<and> fd < int NOFILE \<and> ofile t ! nat fd = None \<and> (\<forall>k. k < nat fd \<longrightarrow> ofile t ! k \<noteq> None) \<and>
      t' = t\<lparr>ofile := (ofile t)[nat fd := Some f]\<rparr>"
    using c by (auto dest: upto)
  show ?thesis
  proof (cases "fd < 0")
    case True
    then show ?thesis using s len by (auto simp: in_set_conv_nth)
  next
    case False
    then have "refs_ok (r(f := r f - 1)) t'"
      using s assms(2) refs_eq [OF refs_ofile [OF assms(1), of "nat fd" "Some f"]] by auto
    then show ?thesis using s False by auto
  qed
qed

lemma filealloc_ok:
  assumes r: "refs_ok r t" and a: "filealloc (tf t) = (g, x)"
  shows "case g of None \<Rightarrow> x = tf t \<and> (\<forall>f<NFILE. f_ref (ftable (tf t) ! f) \<noteq> 0)
    | Some f \<Rightarrow> f < NFILE \<and> f_ref (ftable (tf t) ! f) = 0 \<and> f_type (ftable (tf t) ! f) = FD_NONE \<and>
        x = upd_file f (\<lambda>y. y\<lparr>f_ref := 1\<rparr>) (tf t) \<and> refs_ok (r(f := r f + 1)) (t\<lparr>tf := x\<rparr>)"
proof -
  have sc: "case g of None \<Rightarrow> x = s \<and> (\<forall>f\<in>set fs. f_ref (ftable s ! f) \<noteq> 0)
    | Some f \<Rightarrow> f \<in> set fs \<and> f_ref (ftable s ! f) = 0 \<and> x = upd_file f (\<lambda>y. y\<lparr>f_ref := 1\<rparr>) s"
    if "filealloc_scan fs s = (g, x)" for fs s
    using that by (induction fs) (auto split: if_splits option.splits)
  note s = sc [OF a [unfolded filealloc_def]]
  show ?thesis
  proof (cases g)
    case (Some f)
    then have f: "f < NFILE" "f_ref (ftable (tf t) ! f) = 0" "x = upd_file f (\<lambda>y. y\<lparr>f_ref := 1\<rparr>) (tf t)" using s by auto
    moreover have "f_type (ftable (tf t) ! f) = FD_NONE" using r f by (simp add: refs_ok_def)
    moreover have "refs_ok (r(f := r f + 1)) (t\<lparr>tf := x\<rparr>)"
      using f refs_eq [OF refs_table [OF r, of x f]] by (auto simp: upd_file_def)
    ultimately show ?thesis using Some by simp
  qed (use s in auto)
qed

lemma filedup_ok:
  assumes r: "refs_ok r t" and f: "f < NFILE" "1 \<le> f_ref (ftable (tf t) ! f)"
  shows "\<exists>x. filedup f (tf t) = Inr x \<and> refs_ok (r(f := r f + 1)) (t\<lparr>tf := x\<rparr>)"
proof -
  let ?x = "upd_file f (\<lambda>y. y\<lparr>f_ref := f_ref y + 1\<rparr>) (tf t)"
  have "filedup f (tf t) = Inr ?x" using f by (simp add: filedup_def)
  moreover have "refs_ok (r(f := r f + 1)) (t\<lparr>tf := ?x\<rparr>)"
    using f refs_eq [OF refs_table [OF r, of ?x f]] by (auto simp: upd_file_def)
  ultimately show ?thesis by blast
qed

lemma fileclose_ok:
  assumes r: "refs_ok r t" and f: "f < NFILE" and c: "fileclose p f (tf t) = Some (Inr x)"
  shows "refs_ok (r(f := r f - 1)) (t\<lparr>tf := x\<rparr>)"
proof -
  let ?g = "ftable (tf t) ! f"
  let ?h = "if f_ref ?g > 1 then ?g\<lparr>f_ref := f_ref ?g - 1\<rparr> else ?g\<lparr>f_ref := 0, f_type := FD_NONE\<rparr>"
  have len: "f < length (ftable (tf t))" using r f by (simp add: refs_ok_def)
  have 1: "1 \<le> f_ref ?g" using c by (auto simp: fileclose_def split: if_splits)
  have "ftable x = (ftable (tf t))[f := ?h]"
    using c len 1
    by (auto simp: fileclose_def upd_file_def Let_def close_pipe_def split: if_splits ftype.splits dest!: on_fs_tab elim!: bind_run_InrE)
  from refs_table [OF r this] show ?thesis by (rule refs_eq) (use 1 in auto)
qed

text \<open>Closing an open file of no type only frees its entry.\<close>

lemma fileclose_none:
  assumes "f < length (ftable s)" "f_ref (ftable s ! f) = 1" "f_type (ftable s ! f) = FD_NONE"
  shows "fileclose p f s = Some (Inr (upd_file f (\<lambda>y. y\<lparr>f_ref := 0, f_type := FD_NONE\<rparr>) s))"
  using assms by (simp add: fileclose_def upd_file_def Let_def)

section \<open>Reading and writing leave the counts alone\<close>

definition same_refs :: "fstate \<Rightarrow> fstate \<Rightarrow> bool" where
  "same_refs s s' \<longleftrightarrow> map f_ref (ftable s') = map f_ref (ftable s) \<and> map f_type (ftable s') = map f_type (ftable s)"

lemma same_refs_refl [simp]: "same_refs s s" by (simp add: same_refs_def)

lemma same_refs_trans: "same_refs s s1 \<Longrightarrow> same_refs s1 s2 \<Longrightarrow> same_refs s s2" by (simp add: same_refs_def)

lemma same_refs_tab: "ftable s' = ftable s \<Longrightarrow> same_refs s s'" by (simp add: same_refs_def)

lemma same_refs_off: "same_refs s (upd_file f (\<lambda>x. x\<lparr>f_off := g x\<rparr>) s)"
  by (cases "f < length (ftable s)") (simp_all add: same_refs_def upd_file_def map_update list_update_same_conv list_update_beyond)

lemma same_refs_on_fs: "on_fs c s = Some (Inr s') \<Longrightarrow> same_refs s s'" by (auto dest: on_fs_tab intro: same_refs_tab)

lemma refs_ok_same:
  assumes "refs_ok r t" "same_refs (tf t) x"
  shows "refs_ok r (t\<lparr>tf := x\<rparr>)"
proof -
  have l: "length (ftable x) = length (ftable (tf t))" using assms(2) unfolding same_refs_def by (metis length_map)
  have "f_ref (ftable x ! f) = f_ref (ftable (tf t) ! f) \<and> f_type (ftable x ! f) = f_type (ftable (tf t) ! f)" if "f < length (ftable (tf t))" for f
    using assms(2) that l unfolding same_refs_def by (metis nth_map)
  then show ?thesis using assms(1) l by (simp add: refs_ok_def)
qed

definition devices_ok :: "(int \<Rightarrow> device option) \<Rightarrow> bool" where
  "devices_ok dv \<longleftrightarrow> (\<forall>m d a n s v out s'. dv m = Some d \<longrightarrow> d a n s = Some (Inr (v, out, s')) \<longrightarrow> ftable s' = ftable s)"

lemma advance_same:
  assumes "on_fs c (if 0 < v then upd_file f (\<lambda>x. x\<lparr>f_off := f_off x + w\<rparr>) (s\<lparr>ffs := y\<rparr>) else s\<lparr>ffs := y\<rparr>) = Some (Inr s')"
  shows "same_refs s s'"
proof -
  have "same_refs s (s\<lparr>ffs := y\<rparr>)" by (simp add: same_refs_tab)
  moreover have "same_refs (s\<lparr>ffs := y\<rparr>) (if 0 < v then upd_file f (\<lambda>x. x\<lparr>f_off := f_off x + w\<rparr>) (s\<lparr>ffs := y\<rparr>) else s\<lparr>ffs := y\<rparr>)"
    by (simp add: same_refs_off)
  ultimately show ?thesis using same_refs_on_fs [OF assms] by (blast intro: same_refs_trans)
qed

lemma fileread_same:
  assumes "fileread p kld ok dv f addr n s = Some (Inr (v, out, s'))" "devices_ok dv"
  shows "same_refs s s'"
  using assms
  by (auto simp: fileread_def Let_def pipe_result_def devices_ok_def split: if_splits ftype.splits option.splits outcome.splits prod.splits
    elim!: bind_run_InrE intro: same_refs_tab dest!: same_refs_on_fs advance_same intro: same_refs_trans)

lemma write_chunk_same:
  assumes "write_chunk p get f a n s = Some (Inr (v, s'))"
  shows "same_refs s s'"
  using assms
  by (auto simp: write_chunk_def Let_def elim!: bind_run_InrE dest!: same_refs_on_fs advance_same intro: same_refs_trans)

lemma filewrite_loop_same: "filewrite_loop p get f addr n i s = Some (Inr (v, s')) \<Longrightarrow> same_refs s s'"
proof (induction p get f addr n i s arbitrary: v s' rule: filewrite_loop.induct)
  case (1 p get f addr n i s)
  note IH = 1(1) and prems = 1(2)
  let ?m = "min (n - i) write_max"
  show ?case
  proof (cases "i < n")
    case True
    obtain w s1 where w: "write_chunk p get f (addr + of_int i) ?m s = Some (Inr (w, s1))"
      "(if w \<noteq> ?m then Some (Inr (i, s1)) else filewrite_loop p get f addr n (i + ?m) s1) = Some (Inr (v, s'))"
      using prems True by (subst (asm) filewrite_loop.simps) (auto simp: Let_def elim!: bind_run_InrE)
    have "same_refs s1 s'"
    proof (cases "w = ?m")
      case True
      have "\<not> w \<noteq> ?m" "filewrite_loop p get f addr n (i + ?m) s1 = Some (Inr (v, s'))" using w(2) True by simp_all
      from IH [OF \<open>i < n\<close> refl this] show ?thesis .
    qed (use w(2) in simp)
    then show ?thesis using write_chunk_same [OF w(1)] by (blast intro: same_refs_trans)
  qed (use prems in \<open>simp add: filewrite_loop.simps\<close>)
qed

lemma filewrite_same:
  assumes "filewrite p kld get dv f addr n s = Some (Inr (v, s'))" "devices_ok dv"
  shows "same_refs s s'"
  using assms
  by (auto simp: filewrite_def Let_def pipe_result_def devices_ok_def split: if_splits ftype.splits option.splits outcome.splits prod.splits
    elim!: bind_run_InrE intro: same_refs_tab dest: filewrite_loop_same)

lemma filestat_same: "filestat p ok pad f addr s = Some (Inr (v, out, s')) \<Longrightarrow> same_refs s s'"
  by (auto simp: filestat_def Let_def split: if_splits elim!: bind_run_InrE dest!: same_refs_on_fs intro: same_refs_trans)

section \<open>The calls\<close>

lemma argfd_ok:
  assumes "refs_ok r t" "argfd fd t = Some (k, f)"
  shows "fd = int k" "k < NOFILE" "ofile t ! k = Some f" "f < NFILE" "r f < f_ref (ftable (tf t) ! f)"
proof -
  show k: "fd = int k" "k < NOFILE" "ofile t ! k = Some f" using assms(2) by (auto simp: argfd_def split: if_splits option.splits)
  then have m: "Some f \<in> set (ofile t)" using assms(1) nth_mem [of k "ofile t"] by (simp add: refs_ok_def)
  then show "f < NFILE" using assms(1) by (simp add: refs_ok_def)
  moreover have "0 < count_list (ofile t) (Some f)" using m by (simp add: count_list_0_iff neq0_conv [symmetric] del: neq0_conv)
  ultimately show "r f < f_ref (ftable (tf t) ! f)" using assms(1) by (simp add: refs_ok_def)
qed

lemma sys_dup_ok:
  assumes r: "refs_ok r t" and pos: "\<forall>f<NFILE. 0 \<le> r f"
  shows "\<exists>v t'. sys_dup fd t = Some (Inr (v, t')) \<and> refs_ok r t' \<and>
    (if v < 0 then v = -1 \<and> t' = t \<and> (argfd fd t = None \<or> None \<notin> set (ofile t))
     else v < int NOFILE \<and> ofile t ! nat v = None \<and> (\<forall>k<nat v. ofile t ! k \<noteq> None) \<and> 0 \<le> fd \<and> fd < int NOFILE \<and>
       ofile t ! nat fd \<noteq> None \<and> ofile t' = (ofile t)[nat v := ofile t ! nat fd])"
proof (cases "argfd fd t")
  case None
  then show ?thesis using r by (simp add: sys_dup_def)
next
  case (Some kf)
  then obtain k f where kf: "argfd fd t = Some (k, f)" by (cases kf) auto
  note a = argfd_ok [OF r kf]
  obtain v t1 where f: "fdalloc f t = (v, t1)" by (cases "fdalloc f t") auto
  note fd = fdalloc_ok [OF r a(4) f]
  show ?thesis
  proof (cases "v < 0")
    case True
    then show ?thesis using fd kf f r by (simp add: sys_dup_def)
  next
    case False
    then have v: "v < int NOFILE" "ofile t ! nat v = None" "\<forall>k<nat v. ofile t ! k \<noteq> None" "t1 = t\<lparr>ofile := (ofile t)[nat v := Some f]\<rparr>"
      "refs_ok (r(f := r f - 1)) t1" using fd by auto
    have "1 \<le> f_ref (ftable (tf t1) ! f)" using v(4) a(4,5) pos by (simp, fastforce)
    from filedup_ok [OF v(5) a(4) this] obtain x where x: "filedup f (tf t1) = Inr x" "refs_ok r (t1\<lparr>tf := x\<rparr>)" by auto
    then show ?thesis using kf f False v(1-4) a(1-3) by (simp add: sys_dup_def on_files_def)
  qed
qed

lemma sys_close_refs:
  assumes r: "refs_ok r t" and c: "sys_close p fd t = Some (Inr (v, t'))"
  shows "refs_ok r t'"
proof (cases "argfd fd t")
  case (Some kf)
  then obtain k f where kf: "argfd fd t = Some (k, f)" by (cases kf) auto
  note a = argfd_ok [OF r kf]
  let ?t = "t\<lparr>ofile := (ofile t)[k := None]\<rparr>"
  obtain x where x: "fileclose p f (tf ?t) = Some (Inr x)" "t' = ?t\<lparr>tf := x\<rparr>"
    using c kf by (auto simp: sys_close_def on_files_def elim!: bind_run_InrE)
  have "refs_ok (r(f := r f + 1)) ?t" by (rule refs_eq [OF refs_ofile [OF r a(2)]]) (use a(3) in auto)
  from fileclose_ok [OF this a(4) x(1)] show ?thesis using x(2) by simp
qed (use r c in \<open>simp add: sys_close_def\<close>)

lemma on_files_close:
  assumes "refs_ok r t" "f < NFILE" "on_files (fileclose p f) t = Some (Inr t')"
  shows "refs_ok (r(f := r f - 1)) t'" "ofile t' = ofile t"
  using assms fileclose_ok [OF assms(1,2)] by (auto simp: on_files_def elim!: bind_run_InrE)

lemma open_fill_ref [simp]: "f_ref (open_fill ip i m g) = f_ref g" "f_type (open_fill ip i m g) \<noteq> FD_NONE"
  by (simp_all add: open_fill_def Let_def)

end
