(* ===== verification/Sysfile_Calls.thy ===== *)
theory Sysfile_Calls
  imports Sysfile_Refs Fs_Io
begin

text \<open>
  The calls of \<open>kernel/sysfile.c\<close> together: every one keeps the reference counts of the open files, and the
  two descriptors of \<open>sys_pipe\<close> are the two ends of one byte queue.
\<close>

section \<open>Opening\<close>

lemma refs_upd_file:
  assumes "refs_ok r (t\<lparr>tf := x\<rparr>)" "f_ref (g (ftable x ! f)) = f_ref (ftable x ! f)" "f_ref (ftable x ! f) \<noteq> 0"
  shows "refs_ok r (t\<lparr>tf := upd_file f g x\<rparr>)"
  using refs_eq [OF refs_table [OF assms(1), of "upd_file f g x" f "g (ftable x ! f)"]] assms(2,3) by (simp add: upd_file_def)

lemma refs_pipes: "refs_ok r (t\<lparr>tf := x\<rparr>) \<Longrightarrow> refs_ok r (t\<lparr>tf := x\<lparr>pipes := ps\<rparr>\<rparr>)"
  by (simp add: refs_ok_def)

lemma sys_open_refs:
  assumes r: "refs_ok r t" and c: "sys_open p path omode t = Some (Inr (v, t'))"
  shows "refs_ok r t'"
proof (cases path)
  case (Some pa)
  obtain t1 ip t2 where b: "fs_do begin_fs t = Some (Inr t1)" "fs_call (open_path p (t_cwd t1) pa omode) t1 = Some (Inr (ip, t2))"
    using c Some by (auto simp: sys_open_def elim!: bind_run_InrE)
  have r2: "refs_ok r t2" using refs_same [OF r] fs_do_tab [OF b(1)] fs_call_tab [OF b(2)] by simp
  show ?thesis
  proof (cases ip)
    case None
    then show ?thesis using c Some b r2 by (simp add: sys_open_def)
  next
    case ip: (Some ip')
    obtain g x where g: "filealloc (tf t2) = (g, x)" by (cases "filealloc (tf t2)") auto
    note a = filealloc_ok [OF r2 g]
    have undo: "refs_ok q t'" if "refs_ok q t3" "bind_run (fs_do (iunlockput p ip') t3) (fs_call (end_with p (-1))) = Some (Inr (v, t'))" for q t3
      using that refs_same [OF that(1)] by (auto dest!: fs_do_tab fs_call_tab elim!: bind_run_InrE)
    show ?thesis
    proof (cases g)
      case None
      then have "bind_run (fs_do (iunlockput p ip') t2) (fs_call (end_with p (-1))) = Some (Inr (v, t'))"
        using c Some b ip g a by (simp add: sys_open_def Let_def)
      from undo [OF r2 this] show ?thesis .
    next
      case f: (Some f)
      let ?t3 = "t2\<lparr>tf := x\<rparr>"
      have a': "f < NFILE" "refs_ok (r(f := r f + 1)) ?t3" using a f by auto
      obtain fd t4 where fd: "fdalloc f ?t3 = (fd, t4)" by (cases "fdalloc f ?t3") auto
      note d = fdalloc_ok [OF a'(2,1) fd]
      show ?thesis
      proof (cases "fd < 0")
        case True
        then obtain t5 where t5: "on_files (fileclose p f) ?t3 = Some (Inr t5)"
          "bind_run (fs_do (iunlockput p ip') t5) (fs_call (end_with p (-1))) = Some (Inr (v, t'))"
          using c Some b ip g f fd d by (auto simp: sys_open_def Let_def elim!: bind_run_InrE)
        from undo [OF on_files_close(1) [OF a'(2,1) t5(1)] t5(2)] show ?thesis by simp
      next
        case False
        then have r4: "refs_ok r t4" using d by auto
        let ?y = "upd_file f (open_fill ip' (ino (ffs (tf t4)) ip') omode) (tf t4)"
        have e: "f_ref (ftable (tf t4) ! f) \<noteq> 0"
          using a f d False r2 by (auto simp: upd_file_def refs_ok_def)
        have r5: "refs_ok r (t4\<lparr>tf := ?y\<rparr>)" by (rule refs_upd_file) (use r4 e in simp_all)
        obtain t6 t7 where "(if omode AND O_TRUNC \<noteq> 0 \<and> i_type (ino (ffs ?y) ip') = T_FILE then fs_do (itrunc p ip') (t4\<lparr>tf := ?y\<rparr>) else Some (Inr (t4\<lparr>tf := ?y\<rparr>))) = Some (Inr t6)"
          "fs_do (\<lambda>s. Some (iunlock p ip' s)) t6 = Some (Inr t7)" "fs_call (end_with p fd) t7 = Some (Inr (v, t'))"
          using c Some b ip g f fd False by (auto simp: sys_open_def Let_def elim!: bind_run_InrE)
        then show ?thesis using refs_same [OF r5] by (auto split: if_splits dest!: fs_do_tab fs_call_tab)
      qed
    qed
  qed
qed (use r c in \<open>simp add: sys_open_def\<close>)

lemma sys_chdir_refs:
  assumes "refs_ok r t" "sys_chdir p path t = Some (Inr (v, t'))"
  shows "refs_ok r t'"
  using assms refs_same [OF assms(1)]
  by (auto simp: sys_chdir_def split: option.splits if_splits elim!: bind_run_InrE dest!: fs_do_tab fs_call_tab)

section \<open>Pipes\<close>

lemma pipealloc_ok:
  assumes r: "refs_ok r t"
  shows "\<exists>res x. pipealloc p page (tf t) = Some (Inr (res, x)) \<and> ffs x = ffs (tf t) \<and>
    (case res of
       None \<Rightarrow> refs_ok r (t\<lparr>tf := x\<rparr>) \<and> pipes x = pipes (tf t)
     | Some (f0, f1) \<Rightarrow> \<exists>bytes. page = Some bytes \<and> f0 < NFILE \<and> f1 < NFILE \<and> f0 \<noteq> f1 \<and>
         refs_ok (r(f0 := r f0 + 1, f1 := r f1 + 1)) (t\<lparr>tf := x\<rparr>) \<and> pipes x = pipes (tf t) @ [pipe_init bytes] \<and>
         (\<exists>g0 g1. ftable x ! f0 = pipe_end False (length (pipes (tf t))) g0 \<and> ftable x ! f1 = pipe_end True (length (pipes (tf t))) g1 \<and>
           f_ref g0 = 1 \<and> f_ref g1 = 1))"
proof -
  obtain a0 x0 where 0: "filealloc (tf t) = (a0, x0)" by (cases "filealloc (tf t)") auto
  note a = filealloc_ok [OF r 0]
  show ?thesis
  proof (cases a0)
    case None
    then show ?thesis using 0 a r by (simp add: pipealloc_def)
  next
    case f0: (Some f0)
    let ?t0 = "t\<lparr>tf := x0\<rparr>"
    have a': "f0 < NFILE" "f_type (ftable (tf t) ! f0) = FD_NONE" "x0 = upd_file f0 (\<lambda>y. y\<lparr>f_ref := 1\<rparr>) (tf t)" "refs_ok (r(f0 := r f0 + 1)) ?t0"
      using a f0 by auto
    have len: "length (ftable (tf t)) = NFILE" using r by (simp add: refs_ok_def)
    have e0: "ftable x0 ! f0 = (ftable (tf t) ! f0)\<lparr>f_ref := 1\<rparr>" "length (ftable x0) = NFILE" "pipes x0 = pipes (tf t)" "ffs x0 = ffs (tf t)"
      using a'(1,3) len by (simp_all add: upd_file_def)
    obtain a1 x1 where 1: "filealloc x0 = (a1, x1)" by (cases "filealloc x0") auto
    have one: "filealloc (tf ?t0) = (a1, x1)" using 1 by simp
    note b = filealloc_ok [OF a'(4) one]
    show ?thesis
    proof (cases a1)
      case None
      let ?x = "upd_file f0 (\<lambda>y. y\<lparr>f_ref := 0, f_type := FD_NONE\<rparr>) x0"
      have c: "fileclose p f0 x0 = Some (Inr ?x)" by (rule fileclose_none) (use e0 a' in simp_all)
      have "refs_ok r (t\<lparr>tf := ?x\<rparr>)" using fileclose_ok [OF a'(4,1), of p ?x] c by simp
      then show ?thesis using 0 f0 1 None b c e0 by (simp add: pipealloc_def upd_file_def)
    next
      case f1: (Some f1)
      let ?t1 = "?t0\<lparr>tf := x1\<rparr>"
      have b': "f1 < NFILE" "f_ref (ftable x0 ! f1) = 0" "f_type (ftable x0 ! f1) = FD_NONE" "x1 = upd_file f1 (\<lambda>y. y\<lparr>f_ref := 1\<rparr>) x0"
        "refs_ok (r(f0 := r f0 + 1, f1 := (r(f0 := r f0 + 1)) f1 + 1)) ?t1" using b f1 by auto
      have ne: "f0 \<noteq> f1" using b'(2) e0(1) by auto
      then have r1: "refs_ok (r(f0 := r f0 + 1, f1 := r f1 + 1)) ?t1" using b'(5) by simp
      have e1: "ftable x1 ! f1 = (ftable x0 ! f1)\<lparr>f_ref := 1\<rparr>" "ftable x1 ! f0 = ftable x0 ! f0" "length (ftable x1) = NFILE"
          "pipes x1 = pipes (tf t)" "ffs x1 = ffs (tf t)"
        using b'(1,4) ne e0 by (simp_all add: upd_file_def)
      show ?thesis
      proof (cases page)
        case None
        let ?x = "upd_file f0 (\<lambda>y. y\<lparr>f_ref := 0, f_type := FD_NONE\<rparr>) x1"
        let ?y = "upd_file f1 (\<lambda>y. y\<lparr>f_ref := 0, f_type := FD_NONE\<rparr>) ?x"
        have c: "fileclose p f0 x1 = Some (Inr ?x)" by (rule fileclose_none) (use e0 e1 a' in simp_all)
        have c': "fileclose p f1 ?x = Some (Inr ?y)" by (rule fileclose_none) (use e1 b' ne in \<open>simp_all add: upd_file_def\<close>)
        have "refs_ok (r(f1 := r f1 + 1)) (?t1\<lparr>tf := ?x\<rparr>)"
          by (rule refs_eq [OF fileclose_ok [OF r1 a'(1), of p ?x]]) (use c ne in auto)
        from fileclose_ok [OF this b'(1), of p ?y] have "refs_ok r (t\<lparr>tf := ?y\<rparr>)" using c' by simp
        then show ?thesis using 0 f0 1 f1 None c c' e1 by (simp add: pipealloc_def upd_file_def)
      next
        case pg: (Some bytes)
        let ?q = "length (pipes (tf t))"
        let ?x = "upd_file f1 (pipe_end True ?q) (upd_file f0 (pipe_end False ?q) (x1\<lparr>pipes := pipes x1 @ [pipe_init bytes]\<rparr>))"
        have run: "pipealloc p page (tf t) = Some (Inr (Some (f0, f1), ?x))"
          using 0 f0 1 f1 pg e1(4) by (simp add: pipealloc_def Let_def)
        have rr: "refs_ok (r(f0 := r f0 + 1, f1 := r f1 + 1)) (t\<lparr>tf := ?x\<rparr>)"
          using r1 by (intro refs_upd_file refs_pipes) (use e0 e1 ne in \<open>simp_all add: upd_file_def pipe_end_def\<close>)
        have t0: "ftable ?x ! f0 = pipe_end False ?q (ftable x1 ! f0)" "ftable ?x ! f1 = pipe_end True ?q (ftable x1 ! f1)"
          "f_ref (ftable x1 ! f0) = 1" "f_ref (ftable x1 ! f1) = 1" "pipes ?x = pipes (tf t) @ [pipe_init bytes]" "ffs ?x = ffs (tf t)"
          using ne e0 e1 a'(1) b'(1) by (simp_all add: upd_file_def)
        show ?thesis using run rr t0 pg a'(1) b'(1) ne by (intro exI [of _ "Some (f0, f1)"] exI [of _ ?x]) auto
      qed
    qed
  qed
qed

lemma close_both_refs:
  assumes r: "refs_ok (r(f0 := r f0 + 1, f1 := r f1 + 1)) t" and f: "f0 < NFILE" "f1 < NFILE" "f0 \<noteq> f1"
    and c: "close_both p out f0 f1 t = Some (Inr (v, o', t'))"
  shows "refs_ok r t'"
proof -
  obtain t1 where t1: "on_files (fileclose p f0) t = Some (Inr t1)" "on_files (fileclose p f1) t1 = Some (Inr t')"
    using c by (auto simp: close_both_def elim!: bind_run_InrE)
  have "refs_ok (r(f1 := r f1 + 1)) t1" by (rule refs_eq [OF on_files_close(1) [OF r f(1) t1(1)]]) (use f in auto)
  from on_files_close(1) [OF this f(2) t1(2)] show ?thesis by simp
qed

text \<open>A descriptor that is taken back.\<close>

lemma refs_undo_fd:
  assumes "refs_ok r t" "ofile t ! fd = Some f" "fd < NOFILE"
  shows "refs_ok (r(f := r f + 1)) (t\<lparr>ofile := (ofile t)[fd := None]\<rparr>)"
  by (rule refs_eq [OF refs_ofile [OF assms(1,3), of None]]) (use assms in auto)

lemma fdalloc_some:
  assumes "refs_ok r t" "f < NFILE" "fdalloc f t = (fd, t')" "\<not> fd < 0"
  shows "refs_ok (r(f := r f - 1)) t'" "t' = t\<lparr>ofile := (ofile t)[nat fd := Some f]\<rparr>" "nat fd < NOFILE" "ofile t ! nat fd = None" "ofile t' ! nat fd = Some f"
proof -
  note d = fdalloc_ok [OF assms(1-3)]
  have len: "length (ofile t) = NOFILE" using assms(1) by (simp add: refs_ok_def)
  show "refs_ok (r(f := r f - 1)) t'" "t' = t\<lparr>ofile := (ofile t)[nat fd := Some f]\<rparr>" "nat fd < NOFILE" "ofile t ! nat fd = None"
    using d assms(4) by auto
  then show "ofile t' ! nat fd = Some f" using len by simp
qed

lemma sys_pipe_refs:
  assumes r: "refs_ok r t" and c: "sys_pipe p ok page a t = Some (Inr (v, out, t'))"
  shows "refs_ok r t'"
proof -
  obtain res x where pa: "pipealloc p page (tf t) = Some (Inr (res, x))" and
    P: "case res of None \<Rightarrow> refs_ok r (t\<lparr>tf := x\<rparr>) | Some (f0, f1) \<Rightarrow> f0 < NFILE \<and> f1 < NFILE \<and> f0 \<noteq> f1 \<and> refs_ok (r(f0 := r f0 + 1, f1 := r f1 + 1)) (t\<lparr>tf := x\<rparr>)"
    using pipealloc_ok [OF r, of p page] by (fastforce split: option.splits)
  show ?thesis
  proof (cases res)
    case None
    then show ?thesis using P pa c by (simp add: sys_pipe_def)
  next
    case (Some ff)
    then obtain f0 f1 where ff: "res = Some (f0, f1)" by (cases ff) auto
    let ?t = "t\<lparr>tf := x\<rparr>" and ?r = "r(f0 := r f0 + 1, f1 := r f1 + 1)"
    have f: "f0 < NFILE" "f1 < NFILE" "f0 \<noteq> f1" and r0: "refs_ok ?r ?t" using P ff by auto
    note cb = close_both_refs [OF _ f]
    obtain fd0 t0 where d0: "fdalloc f0 ?t = (fd0, t0)" by (cases "fdalloc f0 ?t") auto
    obtain fd1 t1 where d1: "fdalloc f1 t0 = (fd1, t1)" by (cases "fdalloc f1 t0") auto
    show ?thesis
    proof (cases "fd0 < 0")
      case True
      then have "t0 = ?t" using fdalloc_ok [OF r0 f(1) d0] by simp
      then have "close_both p [] f0 f1 ?t = Some (Inr (v, out, t'))" using c pa ff d0 True by (simp add: sys_pipe_def)
      from cb [OF r0 this] show ?thesis .
    next
      case p0: False
      note s0 = fdalloc_some [OF r0 f(1) d0 p0]
      have r1: "refs_ok (r(f1 := r f1 + 1)) t0" by (rule refs_eq [OF s0(1)]) (use f(3) in auto)
      show ?thesis
      proof (cases "fd1 < 0")
        case True
        then have "t1 = t0" using fdalloc_ok [OF r1 f(2) d1] by simp
        then have "close_both p [] f0 f1 (t0\<lparr>ofile := (ofile t0)[nat fd0 := None]\<rparr>) = Some (Inr (v, out, t'))"
          using c pa ff d0 d1 True p0 by (simp add: sys_pipe_def)
        moreover have "refs_ok ?r (t0\<lparr>ofile := (ofile t0)[nat fd0 := None]\<rparr>)"
          by (rule refs_eq [OF refs_undo_fd [OF r1 s0(5,3)]]) (use f(3) in auto)
        ultimately show ?thesis by (rule cb [rotated])
      next
        case p1: False
        note s1 = fdalloc_some [OF r1 f(2) d1 p1]
        have r2: "refs_ok r t1" using s1(1) by simp
        have ne: "nat fd0 \<noteq> nat fd1" using s0(5) s1(4) by auto
        show ?thesis
        proof (cases "ok a 4 \<and> ok (a + 4) 4")
          case True
          then show ?thesis using c pa ff d0 d1 p0 p1 r2 by (simp add: sys_pipe_def)
        next
          case False
          let ?t1 = "t1\<lparr>ofile := (ofile t1)[nat fd0 := None]\<rparr>"
          have o1: "ofile t1 ! nat fd0 = Some f0" "ofile ?t1 ! nat fd1 = Some f1" using s0(5) s1(2,5) ne by simp_all
          have "refs_ok (r(f0 := r f0 + 1)) ?t1" by (rule refs_undo_fd [OF r2 o1(1) s0(3)])
          from refs_undo_fd [OF this o1(2) s1(3)] have "refs_ok ?r (t1\<lparr>ofile := (ofile t1)[nat fd0 := None, nat fd1 := None]\<rparr>)" using f(3) by simp
          moreover have "close_both p (if ok a 4 then le_bytes 4 (nat fd0) else []) f0 f1 (t1\<lparr>ofile := (ofile t1)[nat fd0 := None, nat fd1 := None]\<rparr>) = Some (Inr (v, out, t'))"
            using c pa ff d0 d1 p0 p1 False by (simp add: sys_pipe_def split: if_splits)
          ultimately show ?thesis by (rule cb)
        qed
      qed
    qed
  qed
qed

section \<open>Any call\<close>

text \<open>What a call depends on besides its arguments and the state: the process and its memory, the devices, a page for a pipe.\<close>

record env =
  e_pid :: int
  e_killed :: bool
  e_ok :: user_ok
  e_get :: user_get
  e_devread :: "int \<Rightarrow> device option"
  e_devwrite :: "int \<Rightarrow> device option"
  e_pad :: "uchar list"
  e_page :: "uchar list option"

datatype file_call =
    C_dup int | C_read int uint64 int | C_write int uint64 int | C_close int | C_fstat int uint64
  | C_link "uchar list option" "uchar list option" | C_unlink "uchar list option" | C_open "uchar list option" uint
  | C_mkdir "uchar list option" | C_mknod "uchar list option" uint uint | C_chdir "uchar list option" | C_pipe uint64

definition no_bytes :: "(int \<times> task) run \<Rightarrow> (int \<times> uchar list \<times> task) run" where
  "no_bytes m = bind_run m (\<lambda>(v, t). Some (Inr (v, [], t)))"

fun run_call :: "env \<Rightarrow> file_call \<Rightarrow> task \<Rightarrow> (int \<times> uchar list \<times> task) run" where
  "run_call e (C_dup fd) t = no_bytes (sys_dup fd t)"
| "run_call e (C_read fd a n) t = sys_read (e_pid e) (e_killed e) (e_ok e) (e_devread e) fd a n t"
| "run_call e (C_write fd a n) t = no_bytes (sys_write (e_pid e) (e_killed e) (e_get e) (e_devwrite e) fd a n t)"
| "run_call e (C_close fd) t = no_bytes (sys_close (e_pid e) fd t)"
| "run_call e (C_fstat fd a) t = sys_fstat (e_pid e) (e_ok e) (e_pad e) fd a t"
| "run_call e (C_link old new) t = no_bytes (fs_call (sys_link (e_pid e) (t_cwd t) old new) t)"
| "run_call e (C_unlink path) t = no_bytes (fs_call (sys_unlink (e_pid e) (t_cwd t) path) t)"
| "run_call e (C_open path m) t = no_bytes (sys_open (e_pid e) path m t)"
| "run_call e (C_mkdir path) t = no_bytes (fs_call (sys_mkdir (e_pid e) (t_cwd t) path) t)"
| "run_call e (C_mknod path ma mi) t = no_bytes (fs_call (sys_mknod (e_pid e) (t_cwd t) path ma mi) t)"
| "run_call e (C_chdir path) t = no_bytes (sys_chdir (e_pid e) path t)"
| "run_call e (C_pipe a) t = sys_pipe (e_pid e) (e_ok e) (e_page e) a t"

fun run_calls :: "(env \<times> file_call) list \<Rightarrow> task \<Rightarrow> task run" where
  "run_calls [] t = Some (Inr t)"
| "run_calls ((e, c) # cs) t = bind_run (run_call e c t) (\<lambda>(_, _, t). run_calls cs t)"

lemma no_bytesE: "no_bytes m = Some (Inr (v, out, t)) \<Longrightarrow> m = Some (Inr (v, t))"
  by (auto simp: no_bytes_def elim!: bind_run_InrE)

lemma run_call_refs:
  assumes r: "refs_ok r t" and pos: "\<forall>f<NFILE. 0 \<le> r f" and dv: "devices_ok (e_devread e)" "devices_ok (e_devwrite e)"
    and c: "run_call e c t = Some (Inr (v, out, t'))"
  shows "refs_ok r t'"
proof -
  have fc: "refs_ok r t'" if "no_bytes (fs_call g t) = Some (Inr (v, out, t'))" for g
    using fs_call_tab [OF no_bytesE [OF that]] refs_same [OF r] by simp
  show ?thesis
  proof (cases c)
    case (C_dup fd)
    then show ?thesis using c sys_dup_ok [OF r pos, of fd] by (auto dest!: no_bytesE)
  next
    case (C_read fd a n)
    then show ?thesis using c r dv by (auto simp: sys_read_def split: option.splits elim!: bind_run_InrE dest!: fileread_same intro: refs_ok_same)
  next
    case (C_write fd a n)
    then show ?thesis using c r dv by (auto simp: sys_write_def split: option.splits elim!: bind_run_InrE dest!: no_bytesE filewrite_same intro: refs_ok_same)
  next
    case (C_fstat fd a)
    then show ?thesis using c r by (auto simp: sys_fstat_def split: option.splits elim!: bind_run_InrE dest!: filestat_same intro: refs_ok_same)
  next
    case (C_close fd)
    then show ?thesis using c sys_close_refs [OF r] by (auto dest!: no_bytesE)
  next
    case (C_open path m)
    then show ?thesis using c sys_open_refs [OF r] by (auto dest!: no_bytesE)
  next
    case (C_chdir path)
    then show ?thesis using c sys_chdir_refs [OF r] by (auto dest!: no_bytesE)
  next
    case (C_pipe a)
    then show ?thesis using c sys_pipe_refs [OF r] by simp
  qed (use c fc in auto)
qed

text \<open>
  Property C5 (reference counts of open files). Whatever sequence of file system calls a process makes, with any arguments
  and on every path through them, errors included: if before it the reference count of every open file was the
  number of descriptors that refer to it, those of other processes included, and unused entries had no type, then so it is after
  it. The device functions are assumed to leave the file table alone.
\<close>

theorem descriptors_counted:
  assumes "refs_ok (\<lambda>f. int (others f)) t" "\<forall>(e, c) \<in> set cs. devices_ok (e_devread e) \<and> devices_ok (e_devwrite e)"
    and "run_calls cs t = Some (Inr t')"
  shows "refs_ok (\<lambda>f. int (others f)) t'"
  using assms
proof (induction cs arbitrary: t)
  case (Cons ec cs)
  obtain e c where ec: "ec = (e, c)" by (cases ec) auto
  obtain v out t1 where 1: "run_call e c t = Some (Inr (v, out, t1))" "run_calls cs t1 = Some (Inr t')"
    using Cons.prems(3) ec by (auto elim!: bind_run_InrE)
  have "refs_ok (\<lambda>f. int (others f)) t1"
    by (rule run_call_refs [OF Cons.prems(1) _ _ _ 1(1)]) (use Cons.prems(2) ec in auto)
  then show ?case by (rule Cons.IH) (use Cons.prems(2) 1(2) in auto)
qed simp

section \<open>The two ends of a pipe\<close>

lemma feeds_byte: "feeds get addr bs \<Longrightarrow> i < length bs \<Longrightarrow> get (addr + of_nat i) 1 = ([bs ! i], True)"
  unfolding feeds_def by (drule spec [of _ i], drule spec [of _ 1]) (simp add: take_Suc_conv_app_nth hd_drop_conv_nth take_Suc drop_eq_Nil)

lemma argfd_int: "k < NOFILE \<Longrightarrow> ofile t ! k = Some f \<Longrightarrow> argfd (int k) t = Some (k, f)"
  by (simp add: argfd_def)

lemma pipe_write_end:
  assumes x: "f_type (ftable s ! f) = FD_PIPE" "f_writable (ftable s ! f)" "f_pipe (ftable s ! f) < length (pipes s)"
    and pi: "pipes s ! f_pipe (ftable s ! f) = pi" "pipe_inv pi" "readopen pi"
    and bs: "feeds get addr bs" "length (pipe_contents pi) + length bs \<le> PIPESIZE"
  shows "\<exists>pi'. filewrite p False get dv f addr (int (length bs)) s = Some (Inr (int (length bs), s\<lparr>pipes := (pipes s)[f_pipe (ftable s ! f) := pi']\<rparr>)) \<and>
    pipe_inv pi' \<and> pipe_contents pi' = pipe_contents pi @ bs \<and> readopen pi' \<and> writeopen pi' = writeopen pi"
proof -
  let ?src = "\<lambda>i. case get (addr + of_nat i) 1 of (ch # _, True) \<Rightarrow> Some ch | _ \<Rightarrow> None"
  have src: "?src i = Some (bs ! i)" if "i < length bs" for i using feeds_byte [OF bs(1) that] by simp
  have m: "length bs = min (length bs - 0) (PIPESIZE - length (pipe_contents pi))" using bs(2) by simp
  obtain pi' where p: "pipewrite_loop ?src False (length bs) 0 pi = (pi', [Chan_nread], if 0 + length bs = length bs then Returns (int (length bs)) else Sleeps (0 + length bs))"
    "pipe_inv pi'" "pipe_contents pi' = pipe_contents pi @ map (\<lambda>k. the (?src k)) [0..<0 + length bs]" "readopen pi' = readopen pi" "writeopen pi' = writeopen pi"
    using pipewrite_accepts [OF pi(2) _ pi(3) _ _ m, of False ?src] src by auto
  have "map (\<lambda>k. the (?src k)) [0..<0 + length bs] = bs" by (rule nth_equalityI) (simp_all add: src del: One_nat_def)
  then show ?thesis using p x pi(1,3) by (intro exI [of _ pi']) (simp add: filewrite_def pipewrite_def pipe_result_def Let_def)
qed

lemma pipe_read_end:
  assumes x: "f_type (ftable s ! f) = FD_PIPE" "f_readable (ftable s ! f)"
    and pi: "pipes s ! f_pipe (ftable s ! f) = pi" "pipe_inv pi" "pipe_contents pi \<noteq> []"
  shows "\<exists>s'. fileread p False (\<lambda>_ _. True) dv f addr n s = Some (Inr (int (min (nat n) (length (pipe_contents pi))), take (nat n) (pipe_contents pi), s'))"
proof -
  have ne: "nread pi \<noteq> nwrite pi" using pi(3) pipe_empty_iff by blast
  obtain pi' where "piperead_loop (\<lambda>_. True) (nat n) 0 pi = (pi', take (min (nat n - 0) (length (pipe_contents pi))) (pipe_contents pi), 0 + min (nat n - 0) (length (pipe_contents pi)))"
    using piperead_delivers [OF pi(2), of 0 "nat n" "\<lambda>_. True"] by auto
  moreover have "take (min (nat n) (length (pipe_contents pi))) (pipe_contents pi) = take (nat n) (pipe_contents pi)" by (simp add: min_def)
  ultimately show ?thesis using x pi(1) ne by (simp add: fileread_def piperead_def pipe_result_def Let_def)
qed

lemma close_both_fails: "close_both p out f0 f1 t = Some (Inr (v, o', t')) \<Longrightarrow> v = -1"
  by (auto simp: close_both_def elim!: bind_run_InrE)

lemma sys_pipe_success:
  assumes r: "refs_ok r t" and c: "sys_pipe p ok page a t = Some (Inr (0, out, t'))"
  shows "\<exists>rd wr f0 f1 q g0 g1 bytes. page = Some bytes \<and> out = le_bytes 4 rd @ le_bytes 4 wr \<and> rd \<noteq> wr \<and> rd < NOFILE \<and> wr < NOFILE \<and>
    ofile t ! rd = None \<and> ofile t ! wr = None \<and> ofile t' = (ofile t)[rd := Some f0, wr := Some f1] \<and>
    ftable (tf t') ! f0 = pipe_end False q g0 \<and> ftable (tf t') ! f1 = pipe_end True q g1 \<and>
    q = length (pipes (tf t)) \<and> pipes (tf t') = pipes (tf t) @ [pipe_init bytes]"
proof -
  obtain res x where pa: "pipealloc p page (tf t) = Some (Inr (res, x))" and
    P: "case res of None \<Rightarrow> True | Some (f0, f1) \<Rightarrow> \<exists>bytes. page = Some bytes \<and> f0 < NFILE \<and> f1 < NFILE \<and> f0 \<noteq> f1 \<and>
      refs_ok (r(f0 := r f0 + 1, f1 := r f1 + 1)) (t\<lparr>tf := x\<rparr>) \<and> pipes x = pipes (tf t) @ [pipe_init bytes] \<and>
      (\<exists>g0 g1. ftable x ! f0 = pipe_end False (length (pipes (tf t))) g0 \<and> ftable x ! f1 = pipe_end True (length (pipes (tf t))) g1)"
    using pipealloc_ok [OF r, of p page] by (fastforce split: option.splits)
  obtain f0 f1 where res: "res = Some (f0, f1)" using c pa by (cases res) (auto simp: sys_pipe_def)
  let ?t = "t\<lparr>tf := x\<rparr>"
  obtain fd0 t0 where d0: "fdalloc f0 ?t = (fd0, t0)" by (cases "fdalloc f0 ?t") auto
  obtain fd1 t1 where d1: "fdalloc f1 t0 = (fd1, t1)" by (cases "fdalloc f1 t0") auto
  have r0: "refs_ok (r(f0 := r f0 + 1, f1 := r f1 + 1)) ?t" and f: "f0 < NFILE" "f1 < NFILE" using P res by auto
  have p: "\<not> fd0 < 0" "\<not> fd1 < 0" "out = le_bytes 4 (nat fd0) @ le_bytes 4 (nat fd1)" "t' = t1"
    using c pa res d0 d1 by (auto simp: sys_pipe_def split: if_splits dest!: close_both_fails)
  note s0 = fdalloc_some [OF r0 f(1) d0 p(1)]
  note s1 = fdalloc_some [OF s0(1) f(2) d1 p(2)]
  have ne: "nat fd0 \<noteq> nat fd1" using s0(5) s1(4) by auto
  then have "ofile t ! nat fd1 = None" using s0(2) s1(4) by simp
  moreover have "ofile t' = (ofile t)[nat fd0 := Some f0, nat fd1 := Some f1]" "tf t' = x" using p(4) s1(2) s0(2) by simp_all
  moreover obtain bytes g0 g1 where "page = Some bytes" "pipes x = pipes (tf t) @ [pipe_init bytes]"
    "ftable x ! f0 = pipe_end False (length (pipes (tf t))) g0" "ftable x ! f1 = pipe_end True (length (pipes (tf t))) g1"
    using P res by auto
  ultimately show ?thesis using p(3) ne s0(3,4) s1(3)
    by (intro exI [of _ "nat fd0"] exI [of _ "nat fd1"] exI [of _ f0] exI [of _ f1] exI [of _ "length (pipes (tf t))"] exI [of _ g0] exI [of _ g1] exI [of _ bytes]) simp
qed

text \<open>
  Property C26 (a pipe carries bytes from its write descriptor to its read descriptor). When \<open>sys_pipe\<close> succeeds it has stored two
  different descriptors that were free. A \<open>write\<close> of up to 512 bytes to the second returns their
  number, and a \<open>read\<close> of \<open>n\<close> bytes from the first then returns the first \<open>n\<close> of them; a \<open>read\<close> from the second and a
  \<open>write\<close> to the first fail.
\<close>

theorem pipe_roundtrip:
  assumes "refs_ok (\<lambda>f. int (others f)) t" "sys_pipe p ok (Some page) a t = Some (Inr (0, out, t1))" "length page = PIPESIZE"
    and "feeds get addr bs" "bs \<noteq> []" "length bs \<le> PIPESIZE"
  shows "\<exists>rd wr t2. out = le_bytes 4 rd @ le_bytes 4 wr \<and> rd \<noteq> wr \<and> rd < NOFILE \<and> wr < NOFILE \<and> ofile t ! rd = None \<and> ofile t ! wr = None \<and>
    sys_write p False get devwrite (int wr) addr (int (length bs)) t1 = Some (Inr (int (length bs), t2)) \<and>
    (\<exists>t3. sys_read p' False (\<lambda>_ _. True) devread (int rd) addr' n t2 = Some (Inr (int (min (nat n) (length bs)), take (nat n) bs, t3))) \<and>
    sys_write p False get devwrite (int rd) addr (int (length bs)) t1 = Some (Inr (-1, t1)) \<and>
    sys_read p' False (\<lambda>_ _. True) devread (int wr) addr' n t1 = Some (Inr (-1, [], t1))"
proof -
  obtain rd wr f0 f1 q g0 g1 bytes where "page = bytes" and fd: "out = le_bytes 4 rd @ le_bytes 4 wr" "rd \<noteq> wr" "rd < NOFILE" "wr < NOFILE"
    "ofile t ! rd = None" "ofile t ! wr = None" and o: "ofile t1 = (ofile t)[rd := Some f0, wr := Some f1]"
    and e: "ftable (tf t1) ! f0 = pipe_end False q g0" "ftable (tf t1) ! f1 = pipe_end True q g1"
    and q: "q = length (pipes (tf t))" and ps: "pipes (tf t1) = pipes (tf t) @ [pipe_init bytes]"
    using sys_pipe_success [OF assms(1,2)] by auto
  have len: "length (ofile t) = NOFILE" using assms(1) by (simp add: refs_ok_def)
  have a: "argfd (int rd) t1 = Some (rd, f0)" "argfd (int wr) t1 = Some (wr, f1)" using o fd len by (simp_all add: argfd_int)
  have pi: "pipe_inv (pipe_init bytes)" "pipe_contents (pipe_init bytes) = []" "readopen (pipe_init bytes)"
    using assms(3) \<open>page = bytes\<close> by (simp_all add: pipe_init_def pipe_inv_def pipe_contents_def ring_empty)
  let ?s = "tf t1"
  obtain pi' where w: "filewrite p False get devwrite f1 addr (int (length bs)) ?s = Some (Inr (int (length bs), ?s\<lparr>pipes := (pipes ?s)[q := pi']\<rparr>))"
    "pipe_inv pi'" "pipe_contents pi' = bs"
    using pipe_write_end [of ?s f1 "pipe_init bytes" get addr bs p devwrite] e(2) ps q pi assms(4,6) by (auto simp: pipe_end_def)
  let ?t2 = "t1\<lparr>tf := ?s\<lparr>pipes := (pipes ?s)[q := pi']\<rparr>\<rparr>"
  have "sys_write p False get devwrite (int wr) addr (int (length bs)) t1 = Some (Inr (int (length bs), ?t2))"
    using a(2) w(1) by (simp add: sys_write_def)
  then have wr: "\<exists>t2. t2 = ?t2 \<and> sys_write p False get devwrite (int wr) addr (int (length bs)) t1 = Some (Inr (int (length bs), t2))" by simp
  obtain s' where "fileread p' False (\<lambda>_ _. True) devread f0 addr' n (tf ?t2) = Some (Inr (int (min (nat n) (length bs)), take (nat n) bs, s'))"
    using pipe_read_end [of "tf ?t2" f0 pi' p' devread addr' n] e(1) ps q w(2,3) assms(5) by (auto simp: pipe_end_def)
  moreover have "argfd (int rd) ?t2 = Some (rd, f0)" by (rule argfd_int) (use o fd len in simp_all)
  ultimately have "\<exists>t3. sys_read p' False (\<lambda>_ _. True) devread (int rd) addr' n ?t2 = Some (Inr (int (min (nat n) (length bs)), take (nat n) bs, t3))"
    by (simp add: sys_read_def)
  moreover have "sys_write p False get devwrite (int rd) addr (int (length bs)) t1 = Some (Inr (-1, t1))"
    "sys_read p' False (\<lambda>_ _. True) devread (int wr) addr' n t1 = Some (Inr (-1, [], t1))"
    using a e by (simp_all add: sys_write_def sys_read_def filewrite_def fileread_def pipe_end_def)
  ultimately show ?thesis using fd wr by blast
qed

section \<open>An example\<close>

text \<open>A process with one open file; the rest of the table is free.\<close>

definition free_file :: open_file where
  "free_file = \<lparr>f_type = FD_NONE, f_ref = 0, f_readable = False, f_writable = False, f_pipe = 0, f_ip = 0, f_off = 0, f_major = 0\<rparr>"

definition demo_task :: task where
  "demo_task = \<lparr>tf = \<lparr>ftable = free_file\<lparr>f_type := FD_INODE, f_ref := 1, f_readable := True\<rparr> # replicate 99 free_file, ffs = demo_fs, pipes = []\<rparr>,
     ofile = Some 0 # replicate 15 None, t_cwd = 0\<rparr>"

definition demo_env :: env where
  "demo_env = \<lparr>e_pid = 3, e_killed = False, e_ok = \<lambda>_ _. True, e_get = from_list hello, e_devread = \<lambda>_. None, e_devwrite = \<lambda>_. None,
     e_pad = [], e_page = Some (replicate PIPESIZE 0)\<rparr>"

lemma scans: "[0..<NOFILE] = 0 # 1 # 2 # [3..<16]" "[0..<NFILE] = 0 # 1 # 2 # [3..<100]" "NOFILE \<noteq> 0"
  by (simp_all add: NOFILE_def NFILE_def upt_rec)

lemma replicate_split: "replicate 15 x = x # x # replicate 13 x" "replicate 99 x = x # x # replicate 97 x"
  by (simp_all add: numeral_eq_Suc)

lemma demo_task_refs: "refs_ok (\<lambda>_. int 0) demo_task"
proof -
  have "count_list (replicate n None) (Some f) = 0" for n and f :: nat by (induction n) auto
  then have "f_ref (ftable (tf demo_task) ! f) = int (count_list (ofile demo_task) (Some f))"
    "f_ref (ftable (tf demo_task) ! f) = 0 \<longrightarrow> f_type (ftable (tf demo_task) ! f) = FD_NONE" if "f < NFILE" for f
    using that by (cases f; simp add: demo_task_def free_file_def NFILE_def)+
  moreover have "f < NFILE" if "Some f \<in> set (ofile demo_task)" for f using that by (auto simp: demo_task_def NFILE_def)
  ultimately show ?thesis by (auto simp: refs_ok_def) (simp_all add: demo_task_def NOFILE_def NFILE_def)
qed

theorem descriptors_counted_witness:
  "\<exists>t'. run_calls [(demo_env, C_dup 0), (demo_env, C_close 0)] demo_task = Some (Inr t') \<and> refs_ok (\<lambda>_. 0) t' \<and> ofile t' ! 1 = Some 0"
proof -
  let ?cs = "[(demo_env, C_dup 0), (demo_env, C_close 0)]"
  have "\<exists>t'. run_calls ?cs demo_task = Some (Inr t') \<and> ofile t' ! 1 = Some 0"
    by (simp add: demo_task_def no_bytes_def sys_dup_def sys_close_def argfd_def fdalloc_def scans replicate_split on_files_def filedup_def upd_file_def fileclose_def Let_def free_file_def)
  then obtain t' where t': "run_calls ?cs demo_task = Some (Inr t')" "ofile t' ! 1 = Some 0" by blast
  have "\<forall>(e, c) \<in> set ?cs. devices_ok (e_devread e) \<and> devices_ok (e_devwrite e)" by (simp add: devices_ok_def demo_env_def)
  from descriptors_counted [OF demo_task_refs this t'(1)] show ?thesis using t' by auto
qed

lemma demo_pipe: "\<exists>t'. sys_pipe 3 (\<lambda>_ _. True) (Some (replicate PIPESIZE 0)) 0 demo_task = Some (Inr (0, le_bytes 4 1 @ le_bytes 4 2, t'))"
  by (simp add: demo_task_def free_file_def sys_pipe_def pipealloc_def filealloc_def scans replicate_split numeral_2_eq_2 upd_file_def fdalloc_def Let_def)

theorem pipe_roundtrip_witness:
  "\<exists>rd wr t1 t2 t3. sys_pipe 3 (\<lambda>_ _. True) (Some (replicate PIPESIZE 0)) 0 demo_task = Some (Inr (0, le_bytes 4 rd @ le_bytes 4 wr, t1)) \<and>
    sys_write 3 False (from_list hello) (\<lambda>_. None) (int wr) 0 5 t1 = Some (Inr (5, t2)) \<and>
    sys_read 4 False (\<lambda>_ _. True) (\<lambda>_. None) (int rd) 0 3 t2 = Some (Inr (3, [72, 69, 76], t3))"
proof -
  obtain t1 where t1: "sys_pipe 3 (\<lambda>_ _. True) (Some (replicate PIPESIZE 0)) 0 demo_task = Some (Inr (0, le_bytes 4 1 @ le_bytes 4 2, t1))"
    using demo_pipe by blast
  have h: "hello \<noteq> []" "length hello \<le> PIPESIZE" "length (replicate PIPESIZE (0 :: uchar)) = PIPESIZE" by (simp_all add: PIPESIZE_def)
  obtain rd wr t2 t3 where o: "le_bytes 4 1 @ le_bytes 4 2 = le_bytes 4 rd @ le_bytes 4 wr"
    and w: "sys_write 3 False (from_list hello) (\<lambda>_. None) (int wr) 0 (int (length hello)) t1 = Some (Inr (int (length hello), t2))"
    and rd: "sys_read 4 False (\<lambda>_ _. True) (\<lambda>_. None) (int rd) 0 3 t2 = Some (Inr (int (min (nat 3) (length hello)), take (nat 3) hello, t3))"
    using pipe_roundtrip [OF demo_task_refs t1 h(3) demo_write(2) h(1,2), of "\<lambda>_. None" 4 "\<lambda>_. None" 0 3] by blast
  show ?thesis using t1 o w rd by (intro exI [of _ rd] exI [of _ wr] exI [of _ t1] exI [of _ t2] exI [of _ t3]) simp
qed

end
