(* ===== verification/Fs_Unlink.thy ===== *)
theory Fs_Unlink
  imports Sysfile Fs_Dir
begin

text \<open>
  Removing names (\<open>isdirempty\<close> and the entry that \<open>sys_unlink\<close> clears, \<open>kernel/sysfile.c\<close>): clearing the entry that \<open>dirlookup\<close> found
  removes exactly that name from the map of the directory.
\<close>

section \<open>Overwriting a mapped block\<close>

lemma writei_loop_mono: "writei_loop p ip get src off tot n s = Some (Inr (o', t', s')) \<Longrightarrow> tot \<le> t'"
proof (induction p ip get src off tot n s arbitrary: o' t' s' rule: writei_loop.induct)
  case (1 p ip get src off tot n s)
  note IH = 1(1) and prems = 1(2)
  show ?case
  proof (cases "tot < n")
    case True
    let ?m = "min (n - tot) (BSIZE - off mod BSIZE)"
    obtain addr s1 where b: "bmap p ip (off div BSIZE) s = Some (Inr (addr, s1))"
      using prems True by (subst (asm) writei_loop.simps) (auto elim!: bind_run_InrE)
    show ?thesis
    proof (cases "addr = 0")
      case z: True
      then show ?thesis using prems True b by (subst (asm) writei_loop.simps) simp
    next
      case nz: False
      obtain bp s2 bytes ok where r: "fbread p (i_dev (ino s1 ip)) addr s1 = Some (Inr (bp, s2))" "get src ?m = (bytes, ok)"
        using prems True b nz by (subst (asm) writei_loop.simps) (auto elim!: bind_run_InrE simp: Let_def split: prod.splits)
      show ?thesis
      proof (cases ok)
        case False
        then show ?thesis using prems True b nz r by (subst (asm) writei_loop.simps) (auto elim!: bind_run_InrE simp: Let_def)
      next
        case k: True
        then have kk: "\<not> \<not> ok" by simp
        obtain s4 where "writei_loop p ip get (src + of_nat ?m) (off + ?m) (tot + ?m) n s4 = Some (Inr (o', t', s'))"
          using prems True b nz r k by (subst (asm) writei_loop.simps) (auto elim!: bind_run_InrE simp: Let_def)
        from IH [OF True nz refl refl r(2) [symmetric] refl kk this] show ?thesis by simp
      qed
    qed
  qed (use prems in \<open>simp add: writei_loop.simps\<close>)
qed

lemma writei_first_block:
  assumes "writei_loop p ip get src off 0 n s = Some (Inr (o', t', s'))" "bmap p ip (off div BSIZE) s = Some (Inr (addr, s1))" "addr \<noteq> 0"
    and "n \<le> BSIZE - off mod BSIZE" "snd (get src n)"
  shows "n \<le> t'"
proof (cases "n = 0")
  case False
  then have n: "0 < n" by simp
  have m: "min n (BSIZE - off mod BSIZE) = n" using assms(4) by simp
  obtain bytes where g: "get src n = (bytes, True)" using assms(5) by (cases "get src n") auto
  obtain s2 where "writei_loop p ip get (src + of_nat n) (off + n) (0 + n) n s2 = Some (Inr (o', t', s'))"
    using assms(1-3) n by (subst (asm) writei_loop.simps) (auto elim!: bind_run_InrE simp: Let_def m g split: if_splits)
  then show ?thesis using writei_loop_mono by fastforce
qed simp

section \<open>Clearing an entry\<close>

definition names_unique :: "(ushort \<times> uchar list) list \<Rightarrow> bool" where
  "names_unique es \<longleftrightarrow> (\<forall>i<length es. \<forall>j<length es. fst (es ! i) \<noteq> 0 \<longrightarrow> fst (es ! j) \<noteq> 0 \<longrightarrow> cname (snd (es ! i)) = cname (snd (es ! j)) \<longrightarrow> i = j)"

lemma find_upt_cong: "(\<And>j. j < n \<Longrightarrow> P j = Q j) \<Longrightarrow> find P [0..<n] = find Q [0..<n]"
  by (rule find_cong) auto

lemma dir_map_clear:
  assumes u: "names_unique es" and k: "dir_find es name = Some k"
  shows "dir_map (es[k := (0, z)]) q = (if cname q = cname name then None else dir_map es q)" "names_unique (es[k := (0, z)])"
proof -
  have kn: "k < length es" "matches name (es ! k)" using k by (auto simp: dir_find_def find_upt_Some)
  have m: "matches q (es[k := (0, z)] ! j) = (if j = k then False else matches q (es ! j))" if "j < length es" for j
    using that by (simp add: nth_list_update matches_def)
  have only: "j = k" if "matches q (es ! j)" "j < length es" "cname q = cname name" for j
    using u that kn by (auto simp: names_unique_def matches_def)
  have notk: "\<not> matches q (es ! k)" if "cname q \<noteq> cname name" using kn(2) that by (auto simp: matches_def)
  show "dir_map (es[k := (0, z)]) q = (if cname q = cname name then None else dir_map es q)"
  proof (cases "cname q = cname name")
    case True
    then have "find (\<lambda>j. matches q (es[k := (0, z)] ! j)) [0..<length es] = None"
      using m only by (auto simp: find_None_iff)
    then show ?thesis using True by (simp add: dir_map_def dir_find_def)
  next
    case False
    have "find (\<lambda>j. matches q (es[k := (0, z)] ! j)) [0..<length es] = find (\<lambda>j. matches q (es ! j)) [0..<length es]"
      by (rule find_upt_cong) (use m notk [OF False] in auto)
    then have e: "dir_find (es[k := (0, z)]) q = dir_find es q" by (simp add: dir_find_def)
    have "j \<noteq> k" if "dir_find es q = Some j" for j using that notk [OF False] by (auto simp: dir_find_def find_upt_Some)
    then show ?thesis using False unfolding dir_map_def e by (cases "dir_find es q") auto
  qed
  have "es[k := (0, z)] ! j = (if j = k then (0, z) else es ! j)" if "j < length es" for j using that by (simp add: nth_list_update)
  then show "names_unique (es[k := (0, z)])" using u unfolding names_unique_def by simp
qed

lemma names_unique_put:
  assumes u: "names_unique es" and absent: "dir_map es name = None" and e: "cname (snd e) = cname name"
  shows "names_unique (put_entry es e)"
proof -
  have none: "\<not> matches name (es ! j)" if "j < length es" for j using absent that by (simp add: dir_map_def dir_find_def find_None_iff)
  have nth: "put_entry es e ! j = (if j = free_slot es then e else es ! j)" "j = free_slot es \<or> j < length es" if "j < length (put_entry es e)" for j
    using put_entry_nth(2) [OF that] put_entry_nth(1) [of es e] that free_slot_le [of es] by (auto split: if_splits)
  show ?thesis unfolding names_unique_def
  proof (intro allI impI)
    fix i j assume ij: "i < length (put_entry es e)" "j < length (put_entry es e)" and z: "fst (put_entry es e ! i) \<noteq> 0" "fst (put_entry es e ! j) \<noteq> 0"
      and c: "cname (snd (put_entry es e ! i)) = cname (snd (put_entry es e ! j))"
    have new: "a = b" if "a = free_slot es" "b < length es" "b \<noteq> free_slot es" "fst (es ! b) \<noteq> 0" "cname (snd (es ! b)) = cname (snd e)" for a b :: nat
      using none [OF that(2)] that(4,5) e by (simp add: matches_def)
    show "i = j"
    proof (cases "i = free_slot es"; cases "j = free_slot es")
      assume "i \<noteq> free_slot es" "j \<noteq> free_slot es"
      then show ?thesis using u z c nth [OF ij(1)] nth [OF ij(2)] unfolding names_unique_def by simp
    qed (use z c nth [OF ij(1)] nth [OF ij(2)] new [of i j] new [of j i] in simp_all)
  qed
qed

lemma entries_clear:
  assumes c: "length c = 16 * n" and e: "length e = 16" and k: "k < n"
  shows "entries (splice c (16 * k) e) = (entries c)[k := (get16 e 0, drop 2 e)]"
proof (rule nth_equalityI)
  note s = entry_splice [OF c e less_imp_le [OF k]]
  show "length (entries (splice c (16 * k) e)) = length ((entries c)[k := (get16 e 0, drop 2 e)])" using s(3) c k by simp
  fix j assume "j < length (entries (splice c (16 * k) e))"
  then have j: "j < n" using s(3) k by simp
  then have "entries (splice c (16 * k) e) ! j = dir_entry (splice c (16 * k) e) j" using s(3) k by (subst nth_entries) simp_all
  then show "entries (splice c (16 * k) e) ! j = (entries c)[k := (get16 e 0, drop 2 e)] ! j"
    using s(1,2) j c by (cases "j = k") (simp_all add: nth_entries)
qed

lemma zero_dirent: "get16 (replicate 16 0) 0 = 0" "drop 2 (replicate 16 (0 :: uchar)) = replicate 14 0"
  by (simp_all add: get16_def slice_def numeral_eq_Suc)

lemma clear_dirent_ok:
  assumes t: "ftx (d, A, cap, nop) V L H s" and inv: "dir_inv (sb s) A M V H d (ino s dp)" and dp: "dp < length (inodes s)" and fin: "finite L"
    and room: "card (L \<union> {x. H x \<noteq> None}) + 7 < NBUF" "card L + 7 \<le> cap" and k: "k < unat (i_size (ino s dp)) div 16"
  shows "\<exists>s' V' L' i'. clear_dirent p dp (16 * k) s = Some (Inr s') \<and> ftx (d, A, cap, nop) V' L' H s' \<and> sb s' = sb s \<and>
    inodes s' = (inodes s)[dp := i'] \<and> dir_inv (sb s) A M V' H d i' \<and> on_disk (sb s) V' i' \<and>
    others_kept (sb s) A M H 7 (V, L, ino s dp) (V', L', i') \<and>
    entries (contents V' i') = (entries (contents V (ino s dp)))[k := (0, replicate 14 0)]"
proof -
  let ?i = "ino s dp" and ?n = "unat (i_size (ino s dp)) div 16" and ?de = "replicate 16 (0 :: uchar)" and ?off = "of_nat (16 * k) :: uint"
  have f: "file_inv (sb s) A M V H d ?i" and sz: "unat (i_size ?i) = 16 * ?n" and ty: "i_type ?i = T_DIR" using inv by (auto simp: dir_inv_def)
  have lim: "16 * k + 16 \<le> unat (i_size ?i)" "unat (i_size ?i) \<le> MAXFILE * BSIZE" using k sz f by (auto simp: file_inv_def)
  then have u: "unat ?off = 16 * k" by (intro unat_of_nat_less) (simp add: NINDIRECT_256 BSIZE_def)
  have pre: "card (L \<union> {x. H x \<noteq> None}) + 6 * rounds (unat ?off) (length ?de) + 1 < NBUF" "card L + 6 * rounds (unat ?off) (length ?de) + 1 \<le> cap"
    "unat ?off \<le> unat (i_size ?i)" "unat ?off + length ?de \<le> MAXFILE * BSIZE"
    unfolding u length_replicate dirent_rounds using room lim by simp_all
  have fd: "feeds (\<lambda>src m. (take m (drop (unat src) ?de), True)) 0 ?de" by (rule feeds_list) simp
  obtain w s' V' L' i' where w: "writei p dp (\<lambda>src m. (take m (drop (unat src) ?de), True)) 0 ?off (of_nat (length ?de)) s = Some (Inr (int w, s'))"
    "w \<le> length ?de" "ftx (d, A, cap, nop) V' L' H s'" "sb s' = sb s" "inodes s' = (inodes s)[dp := i']" "\<exists>as z. i' = ?i\<lparr>i_addrs := as, i_size := z\<rparr>"
    "file_inv (sb s) A M V' H d i'" "on_disk (sb s) V' i'" "contents V' i' = splice (contents V ?i) (unat ?off) (take w ?de)"
    "others_kept (sb s) A M H (6 * rounds (unat ?off) (length ?de) + 1) (V, L, ?i) (V', L', i')"
    using writei_ok [OF t f dp fin pre fd, of p] by blast
  have blk: "(16 * k) div BSIZE < MAXFILE" "blk V ?i ((16 * k) div BSIZE) \<noteq> 0"
  proof -
    show "(16 * k) div BSIZE < MAXFILE" using lim by (intro room_lt) simp
    show "blk V ?i ((16 * k) div BSIZE) \<noteq> 0" using f lim(1) by (simp add: file_inv_def)
  qed
  have r0: "card (L \<union> {x. H x \<noteq> None}) < NBUF" and fk: "file_ok (sb s) A M V H ?i" "i_dev ?i = d" using room(1) f by (auto simp: file_inv_def)
  obtain s1 where b: "bmap p dp ((16 * k) div BSIZE) s = Some (Inr (blk V ?i ((16 * k) div BSIZE), s1))"
    using bmap_mapped [OF t fk blk r0, of p] by blast
  have "16 * k mod BSIZE = 16 * (k mod 64)" using mult_mod_right [of 16 k 64] by (simp add: BSIZE_def)
  then have m: "16 \<le> BSIZE - 16 * k mod BSIZE" by (simp add: BSIZE_def)
  obtain o2 s2 where "writei_loop p dp (\<lambda>src m. (take m (drop (unat src) ?de), True)) 0 (16 * k) 0 16 s = Some (Inr (o2, w, s2))"
    using w(1) u unfolding writei_def by (auto split: if_splits elim!: bind_run_InrE simp: Let_def simp del: of_nat_mult)
  from writei_first_block [OF this b blk(2) m] have w16: "w = 16" using w(2) by simp
  have run: "clear_dirent p dp (16 * k) s = Some (Inr s')" using w(1) w16 by (simp add: clear_dirent_def del: of_nat_mult)
  have c: "length (contents V ?i) = 16 * ?n" using sz by simp
  have "contents V' i' = splice (contents V ?i) (16 * k) ?de" using w(9) w16 u by simp
  moreover have "entries (splice (contents V ?i) (16 * k) ?de) = (entries (contents V ?i))[k := (0, replicate 14 0)]"
    using entries_clear [OF c _ k, of ?de] by (simp add: zero_dirent)
  moreover have "unat (i_size i') = 16 * ?n"
    using entry_splice(3) [OF c _ less_imp_le [OF k], of ?de] k calculation(1) length_contents [of V' i'] by simp
  ultimately have "entries (contents V' i') = (entries (contents V ?i))[k := (0, replicate 14 0)]" "dir_inv (sb s) A M V' H d i'"
    using w(6,7) ty by (auto simp: dir_inv_def)
  moreover have "others_kept (sb s) A M H 7 (V, L, ?i) (V', L', i')" using w(10) unfolding u length_replicate dirent_rounds by simp
  ultimately show ?thesis using run w(3,4,5,8) by (intro exI conjI)
qed

text \<open>
  Property C27 (unlinking removes one name). Inside a transaction with room let \<open>dp\<close> be the locked inode of a directory whose
  names are all different, and \<open>name\<close> one that it has. \<open>dirlookup\<close> reports the offset of an entry; clearing that
  entry, as \<open>sys_unlink\<close> does, never fails, even on a full disk. Afterwards \<open>dirlookup\<close> does not find the name, gives for
  every other name what it gave before, and the names are still all different; other files keep their contents.
\<close>

theorem unlink_removes_name:
  assumes "ftx (d, A, cap, nop) V L H s" "dir_inv (sb s) A M V H d (ino s dp)" "dp < length (inodes s)" "finite L"
    and "card (L \<union> {x. H x \<noteq> None}) + 7 < NBUF" "card L + 7 \<le> cap" "DIRSIZ \<le> length name"
  defines "es \<equiv> entries (contents V (ino s dp))"
  assumes "names_unique es" "dir_map es name = Some n"
  shows "\<exists>off s0 s' V' L'. dirlookup p dp name s = bind_run (Some (iget d (ucast n) s0)) (\<lambda>(ip, s). Some (Inr (Some (ip, off), s))) \<and>
    clear_dirent p dp off s = Some (Inr s') \<and> ftx (d, A, cap, nop) V' L' H s' \<and> dir_inv (sb s) A M V' H d (ino s' dp) \<and>
    names_unique (entries (contents V' (ino s' dp))) \<and>
    (\<forall>q. DIRSIZ \<le> length q \<longrightarrow> (\<exists>off s''. dirlookup p dp q s' =
       (case (if cname q = cname name then None else dir_map es q) of
          None \<Rightarrow> Some (Inr (None, s''))
        | Some n \<Rightarrow> bind_run (Some (iget d (ucast n) s'')) (\<lambda>(ip, s). Some (Inr (Some (ip, off), s)))))) \<and>
    (\<forall>j. file_inv (sb s) A M V H d j \<longrightarrow> apart_files V (ino s dp) j \<longrightarrow> contents V' j = contents V j)"
proof -
  obtain k where k: "dir_find es name = Some k" "n = fst (es ! k)" using assms(10) by (auto simp: dir_map_def)
  have kn: "k < unat (i_size (ino s dp)) div 16" using k(1) by (simp add: dir_find_def find_upt_Some es_def)
  have r0: "card (L \<union> {x. H x \<noteq> None}) < NBUF" using assms(5) by simp
  obtain s0 where 0: "dirlookup p dp name s = bind_run (Some (iget d (ucast n) s0)) (\<lambda>(ip, s). Some (Inr (Some (ip, 16 * k), s)))"
    using dirlookup_ok [OF assms(1,2) r0 assms(7) refl, of p] k unfolding es_def by auto
  obtain s' V' L' i' where c: "clear_dirent p dp (16 * k) s = Some (Inr s')" "ftx (d, A, cap, nop) V' L' H s'" "sb s' = sb s"
    "inodes s' = (inodes s)[dp := i']" "dir_inv (sb s) A M V' H d i'" "entries (contents V' i') = es[k := (0, replicate 14 0)]"
    and o: "others_kept (sb s) A M H 7 (V, L, ino s dp) (V', L', i')"
    using clear_dirent_ok [OF assms(1-6) kn, of p] unfolding es_def by blast
  have i: "ino s' dp = i'" using c(4) assms(3) by simp
  have "disk_ok (sb s) A M V' H" using c(5) by (simp add: dir_inv_def file_inv_def)
  note iso = others_kept_file(3) [OF o _ _ this]
  obtain N where N: "L' = L \<union> N" "finite N" "card N \<le> 7" using o by (auto simp: others_kept_def)
  have room: "card (L' \<union> {x. H x \<noteq> None}) < NBUF"
    using room_union [OF N(2,3), of L "{x. H x \<noteq> None}" 0 NBUF] assms(5) N(1) by simp
  have inv: "dir_inv (sb s') A M V' H d (ino s' dp)" using c i by simp
  have m: "dir_map (entries (contents V' (ino s' dp))) q = (if cname q = cname name then None else dir_map es q)" for q
    using dir_map_clear(1) [OF assms(9) k(1)] c(6) i by simp
  have u: "names_unique (entries (contents V' (ino s' dp)))" using dir_map_clear(2) [OF assms(9) k(1)] c(6) i by simp
  have look: "\<forall>q. DIRSIZ \<le> length q \<longrightarrow> (\<exists>off s''. dirlookup p dp q s' =
       (case (if cname q = cname name then None else dir_map es q) of
          None \<Rightarrow> Some (Inr (None, s''))
        | Some n \<Rightarrow> bind_run (Some (iget d (ucast n) s'')) (\<lambda>(ip, s). Some (Inr (Some (ip, off), s)))))"
    using dirlookup_map [OF c(2) inv room, of _ p] unfolding m by blast
  have "dir_inv (sb s) A M V' H d (ino s' dp)" using inv c(3) by simp
  then show ?thesis using 0 c(1,2) u look iso by (intro exI conjI) auto
qed

section \<open>Empty directories\<close>

lemma isdirempty_loop_ok:
  assumes "ftx (d, A, cap, nop) V L H s" "dir_inv (sb s) A M V H d (ino s dp)" "card (L \<union> {x. H x \<noteq> None}) < NBUF"
    and "n = unat (i_size (ino s dp)) div 16" "es = entries (contents V (ino s dp))"
  shows "\<exists>s'. ftx (d, A, cap, nop) V L H s' \<and> keeps d H s s' \<and>
    isdirempty_loop p dp (map (\<lambda>i. 16 * i) [k..<n]) s = Some (Inr (\<forall>j\<in>{k..<n}. fst (es ! j) = 0, s'))"
  using assms
proof (induction "n - k" arbitrary: k s)
  case 0
  then show ?case by (auto intro!: exI [of _ s])
next
  case (Suc m)
  let ?e = "take 16 (drop (16 * k) (contents V (ino s dp)))"
  have k: "k < n" using Suc(2) by simp
  then have kz: "k < unat (i_size (ino s dp)) div 16" using Suc.prems(4) by simp
  obtain s1 where 1: "read_dirent p dp (16 * k) s = Some (Inr (16, ?e, s1))" "ftx (d, A, cap, nop) V L H s1" "keeps d H s s1"
    using read_dirent_ok [OF Suc.prems(1-3) kz] by blast
  have en: "fst (es ! k) = get16 ?e 0" using kz Suc.prems(5) by (simp add: nth_entries dir_entry_def Let_def)
  note dev = keepsD [OF 1(3)]
  have up: "[k..<n] = k # [Suc k..<n]" "{k..<n} = insert k {Suc k..<n}" using k by (auto simp: upt_conv_Cons)
  show ?case
  proof (cases "get16 ?e 0 = 0")
    case False
    then show ?thesis using 1 en up by (intro exI [of _ s1]) simp
  next
    case True
    have "m = n - Suc k" using Suc(2) by simp
    from Suc.hyps(1) [OF this 1(2) _ Suc.prems(3)] Suc.prems(2,4,5) dev
    obtain s' where "ftx (d, A, cap, nop) V L H s'" "keeps d H s1 s'"
      "isdirempty_loop p dp (map (\<lambda>i. 16 * i) [Suc k..<n]) s1 = Some (Inr (\<forall>j\<in>{Suc k..<n}. fst (es ! j) = 0, s'))"
      by auto
    then show ?thesis using 1(1) True en up keeps_trans [OF 1(3)] by (intro exI [of _ s']) auto
  qed
qed

lemma isdirempty_ok:
  assumes t: "ftx (d, A, cap, nop) V L H s" and inv: "dir_inv (sb s) A M V H d (ino s dp)" and room: "card (L \<union> {x. H x \<noteq> None}) < NBUF"
  defines "es \<equiv> entries (contents V (ino s dp))"
  shows "\<exists>s'. ftx (d, A, cap, nop) V L H s' \<and> keeps d H s s' \<and> isdirempty p dp s = Some (Inr (\<forall>j\<in>{2..<length es}. fst (es ! j) = 0, s'))"
proof -
  let ?n = "unat (i_size (ino s dp)) div 16"
  have "16 dvd unat (i_size (ino s dp))" using inv by (auto simp: dir_inv_def)
  then have "drop 2 (dirent_offsets (ino s dp)) = map (\<lambda>i. 16 * i) [2..<?n]" by (simp add: dirent_offsets_div drop_map numeral_2_eq_2)
  then show ?thesis using isdirempty_loop_ok [OF t inv room refl refl, of p 2] by (simp add: isdirempty_def es_def)
qed

section \<open>An example\<close>

text \<open>The example disk with a directory of one entry, the name "a" for inode 7, in block 63.\<close>

abbreviation name_a :: "uchar list" where
  "name_a \<equiv> 97 # replicate 13 0"

definition dir_disk :: "uint \<Rightarrow> block" where
  "dir_disk = demo_disk(63 := [7, 0] @ name_a @ replicate 1008 0)"

definition dir_node :: inode where
  "dir_node = demo_inode\<lparr>i_type := T_DIR, i_size := 16, i_addrs := 63 # replicate 12 0\<rparr>"

definition dir_fs :: fs where
  "dir_fs = demo_fs\<lparr>fk := \<lparr>fl = demo_log\<lparr>outstanding := 1, committing := False, lh_n := 0\<rparr>, fc = binit (boot_cache dir_disk)\<rparr>, inodes := [dir_node]\<rparr>"

lemma dir_disk_ok: "disk_ok demo_sb (area demo_log) {32, 45} dir_disk (\<lambda>_. None)"
proof -
  have "used demo_sb dir_disk b = used demo_sb demo_disk b" if "b < 2000" for b using that by (simp add: used_def demo_map_block dir_disk_def)
  then show ?thesis using demo_disk_ok unfolding disk_ok_def bitmap_ok_def demo_size by (simp add: dir_disk_def demo_map_block)
qed

lemma dir_blk: "blk V dir_node k = (if k = 0 then 63 else 0)" if "k \<le> MAXFILE" for V k
  using that by (cases k) (auto simp: blk_def dir_node_def NINDIRECT_256)

lemma dir_facts:
  "ftx (1, area demo_log, 29, 1) dir_disk {} (\<lambda>_. None) dir_fs"
  "dir_inv (sb dir_fs) (area demo_log) {32, 45} dir_disk (\<lambda>_. None) 1 (ino dir_fs 0)"
  "entries (contents dir_disk (ino dir_fs 0)) = [(7, name_a)]"
proof -
  have s: "sb dir_fs = demo_sb" "ino dir_fs 0 = dir_node" "unat (i_size dir_node) = 16" by (simp_all add: dir_fs_def demo_simps dir_node_def)
  have h: "length (dir_disk 2) = BSIZE" "get32 (dir_disk 2) 0 = 0" using demo_header by (simp_all add: dir_disk_def)
  show "ftx (1, area demo_log, 29, 1) dir_disk {} (\<lambda>_. None) dir_fs"
    unfolding ftx_def by (rule txI) (use h binit_inv [of 1 dir_disk] in \<open>simp_all add: dir_fs_def demo_fs_def trans_ok_def logged_def LOGSIZE_30 area_def log_block_def\<close>)
  have "used demo_sb dir_disk 63" using demo_used [of 63] by (simp add: used_def demo_map_block dir_disk_def)
  moreover have "(63 :: uint) \<notin> area demo_log" by (simp add: area_far)
  ultimately have "data_block demo_sb (area demo_log) {32, 45} dir_disk (\<lambda>_. None) 63" by (simp add: data_block_def demo_size dir_disk_def BSIZE_def)
  then have "file_ok demo_sb (area demo_log) {32, 45} dir_disk (\<lambda>_. None) dir_node"
    using dir_blk by (auto simp: file_ok_def) (simp_all add: dir_node_def NDIRECT_def)
  moreover have "IBLOCK (i_inum dir_node) demo_sb = 32" "i_dev dir_node = 1" by (simp_all add: dir_node_def demo_inode_def IBLOCK_def demo_sb_def IPB_def BSIZE_def)
  moreover have "blk dir_disk dir_node (y div BSIZE) \<noteq> 0" if "y < 16" for y using that dir_blk [of 0 dir_disk] by (simp add: BSIZE_def)
  ultimately have "file_inv demo_sb (area demo_log) {32, 45} dir_disk (\<lambda>_. None) 1 dir_node"
    using dir_disk_ok by (simp add: file_inv_def s(3) demo_size demo_map_block NINDIRECT_256 BSIZE_def)
  then show "dir_inv (sb dir_fs) (area demo_log) {32, 45} dir_disk (\<lambda>_. None) 1 (ino dir_fs 0)"
    unfolding s by (simp add: dir_inv_def s(3)) (simp add: dir_node_def)
  have b0: "blk dir_disk dir_node 0 = 63" using dir_blk by simp
  have "cont dir_disk dir_node y = ([7, 0] @ name_a @ replicate 1008 0) ! y" if "y < 16" for y
    using that b0 by (simp add: cont_def BSIZE_def dir_disk_def)
  then have "contents dir_disk dir_node = map (\<lambda>y. ([7, 0] @ name_a @ replicate 1008 0) ! y) [0..<16]" by (auto simp: contents_def s(3))
  also have "\<dots> = [7, 0] @ name_a" by (rule nth_equalityI) (auto simp: nth_append nth_Cons split: nat.split)
  finally show "entries (contents dir_disk (ino dir_fs 0)) = [(7, name_a)]"
    unfolding s by (simp add: entries_def dir_entry_def get16_def slice_def)
qed

theorem unlink_removes_name_witness:
  "\<exists>off s' s''. clear_dirent 3 0 off dir_fs = Some (Inr s') \<and> dirlookup 3 0 name_a s' = Some (Inr (None, s''))"
proof -
  have s: "0 < length (inodes dir_fs)" "finite ({} :: uint set)" "card ({} \<union> {x :: uint. (\<lambda>_. None :: int option) x \<noteq> None}) + 7 < NBUF"
    "card ({} :: uint set) + 7 \<le> 29" "DIRSIZ \<le> length name_a" by (simp_all add: dir_fs_def NBUF_def DIRSIZ_def)
  have es: "names_unique (entries (contents dir_disk (ino dir_fs 0)))" "dir_map (entries (contents dir_disk (ino dir_fs 0))) name_a = Some 7"
    unfolding dir_facts(3) by (simp_all add: names_unique_def dir_map_def dir_find_def matches_def)
  obtain off s' where c: "clear_dirent 3 0 off dir_fs = Some (Inr s')" and l: "\<forall>q. DIRSIZ \<le> length q \<longrightarrow> (\<exists>off s''. dirlookup 3 0 q s' =
       (case (if cname q = cname name_a then None else dir_map (entries (contents dir_disk (ino dir_fs 0))) q) of
          None \<Rightarrow> Some (Inr (None, s''))
        | Some n \<Rightarrow> bind_run (Some (iget 1 (ucast n) s'')) (\<lambda>(ip, s). Some (Inr (Some (ip, off), s)))))"
    using unlink_removes_name [OF dir_facts(1,2) s es, of 3] by (elim exE conjE) (rule that)
  have "\<exists>s''. dirlookup 3 0 name_a s' = Some (Inr (None, s''))" using l [rule_format, OF s(5)] unfolding if_P [OF refl] option.case by blast
  then show ?thesis using c by blast
qed

end
