(* ===== verification/Lifecycle.thy ===== *)
theory Lifecycle
  imports Proc
begin

text \<open>
  The life of a process (\<open>kernel/proc.c\<close>): which entries of the table are in use, under which pid
  and whose children they are, and what the system calls do to that.
\<close>

section \<open>What the operations do to the table\<close>

text \<open>
  The part of the state that the life of a process is about: state, pid and parent of every entry, the next pid
  and the init process. Locks, memory and the other fields do not matter to it.
\<close>

type_synonym row = "procstate \<times> int \<times> nat option"
type_synonym ptable = "row list \<times> int \<times> nat option"

definition prow :: "proc \<Rightarrow> row" where
  "prow p = (p_state p, p_pid p, p_parent p)"

definition core :: "kernel \<Rightarrow> ptable" where
  "core s = (map prow (procs s), nextpid s, initproc s)"

lemma upd_proc_simps [simp]:
  "length (procs (upd_proc i f s)) = length (procs s)" "kram (upd_proc i f s) = kram s" "kcpu (upd_proc i f s) = kcpu s"
  "wait_lock (upd_proc i f s) = wait_lock s" "initproc (upd_proc i f s) = initproc s" "nextpid (upd_proc i f s) = nextpid s"
  by (simp_all add: upd_proc_def)

lemma pr_upd [simp]: "i < length (procs s) \<Longrightarrow> pr (upd_proc i f s) j = (if j = i then f (pr s i) else pr s j)"
  by (simp add: upd_proc_def)

lemma core_upd: "core (upd_proc i f s) = ((map prow (procs s))[i := prow (f (pr s i))], nextpid s, initproc s)"
  by (simp add: core_def upd_proc_def map_update)

lemma core_upd_same:
  assumes "\<And>p. prow (f p) = prow p"
  shows "core (upd_proc i f s) = core s"
proof -
  have "(map prow (procs s))[i := prow (pr s i)] = map prow (procs s)"
    by (cases "i < length (procs s)") (simp_all add: list_update_same_conv list_update_beyond not_less)
  then show ?thesis unfolding core_upd assms by (simp add: core_def)
qed

lemma core_simps [simp]:
  "core (s\<lparr>kcpu := u\<rparr>) = core s" "core (s\<lparr>kram := k\<rparr>) = core s" "core (s\<lparr>calls := cs\<rparr>) = core s"
  "core (s\<lparr>wait_lock := l\<rparr>) = core s" "core (s\<lparr>pid_lock := l\<rparr>) = core s"
  by (simp_all add: core_def)

lemma prow_simps [simp]:
  "prow (p\<lparr>p_lock := l\<rparr>) = prow p" "prow (p\<lparr>p_killed := b\<rparr>) = prow p" "prow (p\<lparr>p_chan := ch\<rparr>) = prow p"
  "prow (p\<lparr>p_trapframe := a\<rparr>) = prow p" "prow (p\<lparr>p_pagetable := a\<rparr>) = prow p" "prow (p\<lparr>p_context := x\<rparr>) = prow p"
  "prow (p\<lparr>p_sz := a\<rparr>) = prow p" "prow (p\<lparr>p_ofile := fs\<rparr>) = prow p" "prow (p\<lparr>p_cwd := d\<rparr>) = prow p"
  "prow (p\<lparr>p_name := nm\<rparr>) = prow p" "prow (p\<lparr>p_xstate := v\<rparr>) = prow p"
  by (simp_all add: prow_def)

lemma acquire_proc_core: "acquire_proc c i s = Some (Inr s') \<Longrightarrow> core s' = core s"
  unfolding acquire_proc_def by (elim bind_run_InrE) (auto simp: core_upd_same split: prod.splits)

lemma release_proc_core: "release_proc c i s = Some (Inr s') \<Longrightarrow> core s' = core s"
  unfolding release_proc_def by (elim bind_run_InrE) (auto simp: core_upd_same split: prod.splits)

lemma acquire_wait_core: "acquire_wait c s = Some (Inr s') \<Longrightarrow> core s' = core s"
  unfolding acquire_wait_def by (elim bind_run_InrE) (auto split: prod.splits)

lemma release_wait_core: "release_wait c s = Some (Inr s') \<Longrightarrow> core s' = core s"
  unfolding release_wait_def by (elim bind_run_InrE) (auto split: prod.splits)

lemmas lock_core = acquire_proc_core release_proc_core acquire_wait_core release_wait_core

lemma core_eqD:
  assumes "core s' = core s"
  shows "length (procs s') = length (procs s)" "nextpid s' = nextpid s" "initproc s' = initproc s"
    "i < length (procs s) \<Longrightarrow> prow (pr s' i) = prow (pr s i)"
proof -
  have m: "map prow (procs s') = map prow (procs s)" using assms by (simp add: core_def)
  then show l: "length (procs s') = length (procs s)" by (metis length_map)
  show "nextpid s' = nextpid s" "initproc s' = initproc s" using assms by (simp_all add: core_def)
  show "prow (pr s' i) = prow (pr s i)" if "i < length (procs s)"
    using arg_cong [OF m, of "\<lambda>xs. xs ! i"] that l by simp
qed

section \<open>Allocation\<close>

text \<open>Writing a row, over a state that is the same up to locks and memory.\<close>

definition set_row :: "nat \<Rightarrow> row \<Rightarrow> ptable \<Rightarrow> ptable" where
  "set_row i r x = (case x of (rows, n, ini) \<Rightarrow> (rows[i := r], n, ini))"

lemma core_upd_row: "core (upd_proc i f s) = set_row i (prow (f (pr s i))) (core s)"
  unfolding core_upd by (simp add: set_row_def core_def)

lemma set_row_twice [simp]: "set_row i r (set_row i r' x) = set_row i r x"
  by (simp add: set_row_def split: prod.splits)

lemma allocpid_core:
  assumes "allocpid c s = Some (Inr (pid, s'))"
  shows "pid = nextpid s" "core s' = (fst (core s), nextpid s + 1, initproc s)"
  using assms unfolding allocpid_def
  by (elim bind_run_InrE; auto simp: core_def Let_def elim!: bind_run_InrE split: prod.splits)+

lemma freeproc_core:
  assumes "freeproc kend i s = Some (Inr s')"
  shows "core s' = set_row i (UNUSED, 0, None) (core s)"
  using assms unfolding freeproc_def
  by (elim bind_run_InrE) (auto simp: core_upd_row clear_proc_def prow_def)

lemma find_unused_core:
  assumes "find_unused c is s = Some (Inr (r, s'))"
  shows "core s' = core s \<and> (case r of None \<Rightarrow> True | Some i \<Rightarrow> i \<in> set is \<and> p_state (pr s' i) = UNUSED)"
  using assms
proof (induction "is" arbitrary: s)
  case (Cons i "is")
  from Cons.prems obtain s1 where 1: "acquire_proc c i s = Some (Inr s1)"
    "(if p_state (pr s1 i) = UNUSED then Some (Inr (Some i, s1)) else bind_run (release_proc c i s1) (find_unused c is)) = Some (Inr (r, s'))"
    by (auto elim: bind_run_InrE)
  have c1: "core s1 = core s" by (rule acquire_proc_core [OF 1(1)])
  show ?case
  proof (cases "p_state (pr s1 i) = UNUSED")
    case True
    then show ?thesis using 1(2) c1 by auto
  next
    case False
    then obtain s2 where 2: "release_proc c i s1 = Some (Inr s2)" "find_unused c is s2 = Some (Inr (r, s'))"
      using 1(2) by (auto elim: bind_run_InrE)
    then show ?thesis using Cons.IH [OF 2(2)] release_proc_core [OF 2(1)] c1 by (auto split: option.splits)
  qed
qed auto

section \<open>The abstract process table\<close>

text \<open>
  What the table promises, over state, pid and parent alone. A process is created by one that runs, under a fresh
  pid; a failed creation uses up a pid; processes move between sleeping, runnable and running; the children of a
  process pass to init before it becomes a zombie; and a zombie's entry is freed.
\<close>

definition moves :: "(procstate \<times> procstate) set" where
  "moves = {(SLEEPING, RUNNABLE), (RUNNABLE, RUNNING), (RUNNING, RUNNABLE), (RUNNING, SLEEPING)}"

inductive tstep :: "ptable \<Rightarrow> ptable \<Rightarrow> bool" where
  spawn: "i < length rows \<Longrightarrow> fst (rows ! i) = UNUSED \<Longrightarrow> p < length rows \<Longrightarrow> fst (rows ! p) = RUNNING \<Longrightarrow>
     tstep (rows, n, ini) (rows[i := (RUNNABLE, n, Some p)], n + 1, ini)"
| fail: "i < length rows \<Longrightarrow> fst (rows ! i) = UNUSED \<Longrightarrow>
     tstep (rows, n, ini) (rows[i := (UNUSED, 0, None)], n + 1, ini)"
| move: "i < length rows \<Longrightarrow> rows ! i = (st, pid, par) \<Longrightarrow> (st, st') \<in> moves \<Longrightarrow>
     tstep (rows, n, ini) (rows[i := (st', pid, par)], n, ini)"
| adopt: "i < length rows \<Longrightarrow> rows ! i = (st, pid, Some p) \<Longrightarrow>
     tstep (rows, n, ini) (rows[i := (st, pid, ini)], n, ini)"
| bury: "p < length rows \<Longrightarrow> rows ! p = (RUNNING, pid, par) \<Longrightarrow> ini \<noteq> Some p \<Longrightarrow>
     (\<And>i. i < length rows \<Longrightarrow> snd (snd (rows ! i)) \<noteq> Some p) \<Longrightarrow>
     tstep (rows, n, ini) (rows[p := (ZOMBIE, pid, par)], n, ini)"
| reap: "i < length rows \<Longrightarrow> fst (rows ! i) = ZOMBIE \<Longrightarrow>
     tstep (rows, n, ini) (rows[i := (UNUSED, 0, None)], n, ini)"

text \<open>
  The invariant: free entries are clear; the pids in use are positive, below the next one and distinct;
  init is alive; and every other process has a living parent, so that somebody can wait for it.
\<close>

definition alive :: "row \<Rightarrow> bool" where "alive r \<longleftrightarrow> fst r \<noteq> UNUSED \<and> fst r \<noteq> ZOMBIE"

definition pid_of :: "row \<Rightarrow> int" where "pid_of r = fst (snd r)"
definition parent_of :: "row \<Rightarrow> nat option" where "parent_of r = snd (snd r)"

definition row_ok :: "ptable \<Rightarrow> nat \<Rightarrow> bool" where
  "row_ok x i = (case x of (rows, n, ini) \<Rightarrow>
     if fst (rows ! i) = UNUSED then rows ! i = (UNUSED, 0, None)
     else 0 < pid_of (rows ! i) \<and> pid_of (rows ! i) < n \<and>
       (if ini = Some i then fst (rows ! i) \<noteq> ZOMBIE
        else case parent_of (rows ! i) of None \<Rightarrow> False | Some q \<Rightarrow> q < length rows \<and> alive (rows ! q)))"

definition table_inv :: "ptable \<Rightarrow> bool" where
  "table_inv x = (case x of (rows, n, ini) \<Rightarrow>
     length rows = NPROC \<and> 0 < n \<and> (case ini of None \<Rightarrow> False | Some i \<Rightarrow> i < NPROC \<and> alive (rows ! i)) \<and>
     (\<forall>i<NPROC. row_ok x i) \<and>
     (\<forall>i<NPROC. \<forall>j<NPROC. fst (rows ! i) \<noteq> UNUSED \<longrightarrow> fst (rows ! j) \<noteq> UNUSED \<longrightarrow>
        pid_of (rows ! i) = pid_of (rows ! j) \<longrightarrow> i = j))"

lemma table_inv_change:
  assumes inv: "table_inv (rows, n, ini)" and i: "i < NPROC" and n: "n \<le> n'"
    and alive: "alive (rows ! i) \<Longrightarrow> alive r \<or> (ini \<noteq> Some i \<and> (\<forall>j<NPROC. parent_of (rows ! j) \<noteq> Some i))"
    and ok: "row_ok (rows[i := r], n', ini) i"
    and pid: "fst r \<noteq> UNUSED \<Longrightarrow> pid_of r = n \<or> (pid_of r = pid_of (rows ! i) \<and> fst (rows ! i) \<noteq> UNUSED)"
  shows "table_inv (rows[i := r], n', ini)"
proof -
  have len: "length rows = NPROC" using inv by (simp add: table_inv_def)
  have new: "rows[i := r] ! j = (if j = i then r else rows ! j)" if "j < NPROC" for j using that len by simp
  have old: "row_ok (rows, n, ini) j" if "j < NPROC" for j using inv that by (simp add: table_inv_def)
  obtain k where k: "ini = Some k" "k < NPROC" "alive (rows ! k)"
    using inv by (auto simp: table_inv_def split: option.splits)
  have low: "pid_of (rows ! j) < n" if "j < NPROC" "fst (rows ! j) \<noteq> UNUSED" for j
    using old [OF that(1)] that(2) by (auto simp: row_ok_def)
  have "row_ok (rows[i := r], n', ini) j" if j: "j < NPROC" for j
  proof (cases "j = i")
    case False
    have "alive (rows[i := r] ! q)" if "parent_of (rows ! j) = Some q" "q < length rows" "alive (rows ! q)" for q
      using alive that j len by (cases "q = i") (auto simp: new)
    then show ?thesis
      using old [OF j] False n new [OF j] len by (auto simp: row_ok_def split: option.splits if_splits)
  qed (use ok in simp)
  moreover have "alive (rows[i := r] ! k)" using alive k len by (cases "k = i") (auto simp: new)
  moreover have "0 < n'" using inv n by (simp add: table_inv_def)
  moreover have "a = b" if "a < NPROC" "b < NPROC" "fst (rows[i := r] ! a) \<noteq> UNUSED" "fst (rows[i := r] ! b) \<noteq> UNUSED"
    "pid_of (rows[i := r] ! a) = pid_of (rows[i := r] ! b)" for a b
    using that pid low [of a] low [of b] inv unfolding table_inv_def
    by (auto simp: new split: if_splits)
  ultimately show ?thesis using k len unfolding table_inv_def by (auto simp: k(1))
qed

lemma table_invD:
  assumes "table_inv (rows, n, ini)"
  shows "length rows = NPROC" "0 < n" "i < NPROC \<Longrightarrow> row_ok (rows, n, ini) i"
    "\<exists>k. ini = Some k \<and> k < NPROC \<and> alive (rows ! k)"
  using assms by (auto simp: table_inv_def split: option.splits)

lemmas row_defs = row_ok_def pid_of_def parent_of_def nth_list_update alive_def

lemma tstep_inv: "tstep x y \<Longrightarrow> table_inv x \<Longrightarrow> table_inv y"
proof (induction rule: tstep.induct)
  case (spawn i rows p n ini)
  note inv = table_invD [OF spawn.prems]
  show ?case
    by (rule table_inv_change [OF spawn.prems]) (use spawn.hyps inv in \<open>auto simp: row_defs\<close>)
next
  case (fail i rows n ini)
  note inv = table_invD [OF fail.prems]
  show ?case
    by (rule table_inv_change [OF fail.prems]) (use fail.hyps inv in \<open>auto simp: row_defs\<close>)
next
  case (move i rows st pid par st' n ini)
  note inv = table_invD [OF move.prems]
  have i: "i < NPROC" using move.hyps(1) inv(1) by simp
  have a: "alive (st', pid, par)" "alive (st, pid, par)" using move.hyps(3) by (auto simp: moves_def alive_def)
  show ?case
    by (rule table_inv_change [OF move.prems i]) (use move.hyps(2) i inv(1) inv(3) [OF i] a in \<open>auto simp: row_defs split: option.splits if_splits\<close>)
next
  case (adopt i rows st pid p n ini)
  note inv = table_invD [OF adopt.prems]
  have i: "i < NPROC" using adopt.hyps(1) inv(1) by simp
  show ?case
    by (rule table_inv_change [OF adopt.prems i])
      (use adopt.hyps(2) i inv(1,4) inv(3) [OF i] in \<open>auto simp: row_defs split: option.splits if_splits\<close>)
next
  case (bury p rows pid par ini n)
  note inv = table_invD [OF bury.prems]
  have i: "p < NPROC" using bury.hyps(1) inv(1) by simp
  have nochild: "parent_of (rows ! j) \<noteq> Some p" if "j < NPROC" for j
    using bury.hyps(4) [of j] inv(1) that by (simp add: parent_of_def)
  show ?case
    by (rule table_inv_change [OF bury.prems i])
      (use bury.hyps(2,3) i inv(1) inv(3) [OF i] nochild nochild [OF i] in \<open>auto simp: row_defs split: option.splits if_splits\<close>)
next
  case (reap i rows n ini)
  note inv = table_invD [OF reap.prems]
  show ?case
    by (rule table_inv_change [OF reap.prems]) (use reap.hyps inv(1) in \<open>auto simp: row_defs\<close>)
qed

lemma tsteps_inv: "tstep\<^sup>*\<^sup>* x y \<Longrightarrow> table_inv x \<Longrightarrow> table_inv y"
  by (induction rule: rtranclp_induct) (auto intro: tstep_inv)

section \<open>The operations implement it\<close>

definition bump :: "ptable \<Rightarrow> ptable" where "bump x = (case x of (rows, n, ini) \<Rightarrow> (rows, n + 1, ini))"

lemma bump_set_row [simp]: "bump (set_row i r x) = set_row i r (bump x)"
  by (simp add: bump_def set_row_def split: prod.splits)

lemma core_rows: "fst (core s) = map prow (procs s)" "snd (core s) = (nextpid s, initproc s)"
  by (simp_all add: core_def)

text \<open>An allocation: a free entry gets the next pid, or the attempt leaves it clear.\<close>

lemma allocproc_core:
  assumes run: "allocproc kend tramp fr c s = Some (Inr (r, s'))" and len: "length (procs s) = NPROC"
  shows "case r of
      None \<Rightarrow> core s' = core s \<or> (\<exists>i<NPROC. p_state (pr s i) = UNUSED \<and> core s' = set_row i (UNUSED, 0, None) (bump (core s)))
    | Some i \<Rightarrow> i < NPROC \<and> p_state (pr s i) = UNUSED \<and>
        core s' = set_row i (USED, nextpid s, p_parent (pr s i)) (bump (core s))"
proof -
  obtain q s1 where f: "find_unused c [0..<NPROC] s = Some (Inr (q, s1))"
    and rest: "(case q of None \<Rightarrow> Some (Inr (None, s1)) | Some i \<Rightarrow>
         bind_run (allocpid c s1) (\<lambda>(pid, s).
         let s = upd_proc i (\<lambda>p. p\<lparr>p_pid := pid, p_state := USED\<rparr>) s;
             (tf, k) = kalloc (kram s);
             s = upd_proc i (\<lambda>p. p\<lparr>p_trapframe := tf\<rparr>) (s\<lparr>kram := k\<rparr>)
         in if tf = 0
            then bind_run (freeproc kend i s) (\<lambda>s. bind_run (release_proc c i s) (\<lambda>s. Some (Inr (None, s))))
            else bind_run (proc_pagetable kend tramp tf (kram s)) (\<lambda>(pt, k).
                 let s = upd_proc i (\<lambda>p. p\<lparr>p_pagetable := pt\<rparr>) (s\<lparr>kram := k\<rparr>)
                 in if pt = 0
                    then bind_run (freeproc kend i s) (\<lambda>s. bind_run (release_proc c i s) (\<lambda>s. Some (Inr (None, s))))
                    else Some (Inr (Some i,
                           upd_proc i (\<lambda>p. p\<lparr>p_context := \<lparr>c_ra = fr, c_sp = p_kstack p + PGSIZE,
                             c_saved = replicate 12 0\<rparr>\<rparr>) s))))) = Some (Inr (r, s'))"
    using run unfolding allocproc_def by (auto elim: bind_run_InrE)
  note f1 = find_unused_core [OF f]
  show ?thesis
  proof (cases q)
    case None
    then show ?thesis using rest f1 by auto
  next
    case (Some i)
    have c1: "core s1 = core s" and i: "i < NPROC" and u1: "p_state (pr s1 i) = UNUSED" using f1 Some by auto
    have row: "prow (pr s1 i) = prow (pr s i)" using core_eqD(4) [OF c1, of i] i len by simp
    then have u: "p_state (pr s i) = UNUSED" and par: "p_parent (pr s1 i) = p_parent (pr s i)" using u1 by (auto simp: prow_def)
    obtain pid s2 where p: "allocpid c s1 = Some (Inr (pid, s2))" using rest Some by (auto elim: bind_run_InrE)
    have pid: "pid = nextpid s" and c2: "core s2 = bump (core s)"
      using allocpid_core [OF p] core_eqD(2,3) [OF c1] c1 by (auto simp: bump_def core_def)
    have par2: "p_parent (pr s2 i) = p_parent (pr s i)" and len2: "i < length (procs s2)"
    proof -
      have "map prow (procs s2) = map prow (procs s)" using c2 by (simp add: core_def bump_def)
      then have "length (procs s2) = length (procs s)" "prow (pr s2 i) = prow (pr s i)"
        using i len by (metis length_map, metis length_map nth_map)
      then show "p_parent (pr s2 i) = p_parent (pr s i)" "i < length (procs s2)" using i len by (simp_all add: prow_def)
    qed
    obtain tf k where k: "kalloc (kram s2) = (tf, k)" by (cases "kalloc (kram s2)")
    define s3 where "s3 = upd_proc i (\<lambda>p. p\<lparr>p_trapframe := tf\<rparr>) ((upd_proc i (\<lambda>p. p\<lparr>p_pid := pid, p_state := USED\<rparr>) s2)\<lparr>kram := k\<rparr>)"
    have c3: "core s3 = set_row i (USED, nextpid s, p_parent (pr s i)) (bump (core s))"
      unfolding s3_def using par2 len2 by (simp add: core_upd_same core_upd_row c2 prow_def pid)
    note rest3 = rest [unfolded Some option.case p bind_run_simps prod.case Let_def upd_proc_simps k s3_def [symmetric]]
    have undo: "core s' = set_row i (UNUSED, 0, None) (bump (core s)) \<and> r = None"
      if "bind_run (freeproc kend i t) (\<lambda>s. bind_run (release_proc c i s) (\<lambda>s. Some (Inr (None, s)))) = Some (Inr (r, s'))"
        "core t = core s3" for t
      using that by (auto elim!: bind_run_InrE dest!: freeproc_core release_proc_core simp: c3)
    show ?thesis
    proof (cases "tf = 0")
      case True
      then show ?thesis using rest3 undo [of s3] i u by auto
    next
      case False
      then obtain pt k' where pt: "proc_pagetable kend tramp tf k = Some (Inr (pt, k'))"
        using rest3 by (auto elim: bind_run_InrE)
      let ?s4 = "upd_proc i (\<lambda>p. p\<lparr>p_pagetable := pt\<rparr>) (s3\<lparr>kram := k'\<rparr>)"
      have c4: "core ?s4 = core s3" by (simp add: core_upd_same)
      show ?thesis
      proof (cases "pt = 0")
        case True
        then show ?thesis using rest3 False pt undo [OF _ c4] i u by auto
      next
        case False
        then show ?thesis using rest3 \<open>tf \<noteq> 0\<close> pt c3 i u by (auto simp: core_upd_same)
      qed
    qed
  qed
qed

lemma row_at:
  assumes "core t = set_row i r x" "i < length (fst x)"
  shows "prow (pr t i) = r" "i < length (procs t)"
proof -
  have m: "map prow (procs t) = (fst x)[i := r]" using assms(1) by (auto simp: core_def set_row_def split: prod.splits)
  then show l: "i < length (procs t)" using assms(2) by (metis length_list_update length_map)
  show "prow (pr t i) = r" using arg_cong [OF m, of "\<lambda>xs. xs ! i"] l assms(2) by simp
qed

lemma bump_core [simp]: "length (fst (bump (core s))) = length (procs s)" "length (fst (core s)) = length (procs s)"
  by (simp_all add: bump_def core_def)

lemma tstep_fail:
  "i < length (procs s) \<Longrightarrow> p_state (pr s i) = UNUSED \<Longrightarrow> tstep (core s) (set_row i (UNUSED, 0, None) (bump (core s)))"
  using tstep.fail [of i "map prow (procs s)" "nextpid s" "initproc s"] by (simp add: core_def set_row_def bump_def prow_def)

lemma tstep_spawn:
  assumes "i < length (procs s)" "p_state (pr s i) = UNUSED" "p < length (procs s)" "p_state (pr s p) = RUNNING"
  shows "tstep (core s) (set_row i (RUNNABLE, nextpid s, Some p) (bump (core s)))"
  using assms tstep.spawn [of i "map prow (procs s)" p "nextpid s" "initproc s"] by (simp add: core_def set_row_def bump_def prow_def)

text \<open>What \<open>fork\<close> and \<open>sfork\<close> with result \<open>r\<close> do to the table.\<close>

definition created :: "nat \<Rightarrow> int \<Rightarrow> kernel \<Rightarrow> kernel \<Rightarrow> bool" where
  "created p r s s' \<longleftrightarrow> r = -1 \<and> core s' = core s \<or>
    (\<exists>i<NPROC. p_state (pr s i) = UNUSED \<and>
      (r = -1 \<and> core s' = set_row i (UNUSED, 0, None) (bump (core s)) \<or>
       r = nextpid s \<and> core s' = set_row i (RUNNABLE, nextpid s, Some p) (bump (core s))))"

lemma created_tsteps:
  assumes "created p r s s'" "length (procs s) = NPROC" "p < NPROC" "p_state (pr s p) = RUNNING"
  shows "tstep\<^sup>*\<^sup>* (core s) (core s')"
  using assms tstep_fail tstep_spawn unfolding created_def by (metis r_into_rtranclp rtranclp.rtrancl_refl)

lemma fork_core:
  assumes run: "fork kend tramp fr c p s = Some (Inr (r, s'))" and len: "length (procs s) = NPROC"
  shows "created p r s s'"
proof -
  obtain q s1 where a: "allocproc kend tramp fr c s = Some (Inr (q, s1))"
    using run unfolding fork_def by (auto elim: bind_run_InrE)
  note run = run [unfolded fork_def a bind_run_simps prod.case]
  note a1 = allocproc_core [OF a len]
  show ?thesis
  proof (cases q)
    case None
    then show ?thesis using run a1 by (auto simp: created_def)
  next
    case (Some np)
    have np: "np < NPROC" "p_state (pr s np) = UNUSED"
      and c1: "core s1 = set_row np (USED, nextpid s, p_parent (pr s np)) (bump (core s))" using a1 Some by auto
    note np1 = row_at [OF c1, simplified len bump_core, OF np(1)]
    note run = run [unfolded Some option.case]
    obtain v k where k: "uvmcopy kend (p_pagetable (pr s1 p)) (p_pagetable (pr s1 np)) (p_sz (pr s1 p)) (kram s1) = Some (Inr (v, k))"
      using run by (auto elim: bind_run_InrE)
    note run = run [unfolded k bind_run_simps prod.case Let_def]
    show ?thesis
    proof (cases "v < 0")
      case True
      then have "r = -1 \<and> core s' = set_row np (UNUSED, 0, None) (bump (core s))"
        using run by (auto elim!: bind_run_InrE dest!: freeproc_core release_proc_core simp: c1)
      then show ?thesis unfolding created_def using np by blast
    next
      case False
      have *: "\<exists>t1 t3. core t1 = core s1 \<and> core t3 = core (upd_proc np (\<lambda>q. q\<lparr>p_parent := Some p\<rparr>) t1) \<and>
          core s' = core (upd_proc np (\<lambda>q. q\<lparr>p_state := RUNNABLE\<rparr>) t3) \<and> r = p_pid (pr s1 np)"
        using run [unfolded if_not_P [OF False]] np1(2)
        by (auto elim!: bind_run_InrE dest!: lock_core simp: core_upd_same) metis
      then obtain t1 t3 where c1': "core t1 = set_row np (USED, nextpid s, p_parent (pr s np)) (bump (core s))"
        and t3: "core t3 = core (upd_proc np (\<lambda>q. q\<lparr>p_parent := Some p\<rparr>) t1)"
        and s': "core s' = core (upd_proc np (\<lambda>q. q\<lparr>p_state := RUNNABLE\<rparr>) t3)" and r: "r = p_pid (pr s1 np)"
        using c1 by auto
      note r1 = row_at [OF c1', simplified len bump_core, OF np(1)]
      have c2: "core t3 = set_row np (USED, nextpid s, Some p) (bump (core s))"
        using t3 c1' r1 by (simp add: core_upd_row prow_def)
      note r2 = row_at [OF c2, simplified len bump_core, OF np(1)]
      have "core s' = set_row np (RUNNABLE, nextpid s, Some p) (bump (core s))"
        using s' c2 r2 by (simp add: core_upd_row prow_def)
      moreover have "r = nextpid s" using r np1(1) by (simp add: prow_def)
      ultimately show ?thesis unfolding created_def using np by blast
    qed
  qed
qed

lemma sfork_core:
  assumes run: "sfork kend tramp fr c p s = Some (Inr (r, s'))" and len: "length (procs s) = NPROC"
  shows "created p r s s'"
proof -
  obtain q s1 where a: "allocproc kend tramp fr c s = Some (Inr (q, s1))"
    using run unfolding sfork_def by (auto elim: bind_run_InrE)
  note run = run [unfolded sfork_def a bind_run_simps prod.case]
  note a1 = allocproc_core [OF a len]
  show ?thesis
  proof (cases q)
    case None
    then show ?thesis using run a1 by (auto simp: created_def)
  next
    case (Some np)
    have np: "np < NPROC" "p_state (pr s np) = UNUSED"
      and c1: "core s1 = set_row np (USED, nextpid s, p_parent (pr s np)) (bump (core s))" using a1 Some by auto
    note np1 = row_at [OF c1, simplified len bump_core, OF np(1)]
    have "r = nextpid s \<and> core s' = set_row np (RUNNABLE, nextpid s, Some p) (bump (core s))"
      using run np1 by (auto simp: Some Let_def core_upd_row c1 prow_def)
    then show ?thesis unfolding created_def using np by blast
  qed
qed

text \<open>A change of state of one process.\<close>

lemma tstep_move:
  assumes "i < length (procs s)" "(p_state (pr s i), st) \<in> moves"
    "prow q = (st, p_pid (pr s i), p_parent (pr s i))"
  shows "tstep (core s) (core (upd_proc i (\<lambda>_. q) s))"
  using assms tstep.move [of i "map prow (procs s)" "p_state (pr s i)" "p_pid (pr s i)" "p_parent (pr s i)" st "nextpid s" "initproc s"]
  by (simp add: core_upd) (simp add: core_def prow_def)

lemma upd_proc_const: "upd_proc i f s = upd_proc i (\<lambda>_. f (pr s i)) s"
  by (simp add: upd_proc_def)

lemma core_move:
  assumes "i < length (procs s)" "(p_state (pr s i), st) \<in> moves"
    "prow (f (pr s i)) = (st, p_pid (pr s i), p_parent (pr s i))" "core s = x" "core s' = core (upd_proc i f s)"
  shows "tstep\<^sup>*\<^sup>* x (core s')"
  using tstep_move [OF assms(1-3)] assms(4,5) upd_proc_const [of i f s] by auto

text \<open>Wake-ups change sleeping processes to runnable ones and nothing else.\<close>

definition wakes :: "ptable \<Rightarrow> ptable \<Rightarrow> bool" where
  "wakes x y \<longleftrightarrow> tstep\<^sup>*\<^sup>* x y \<and> length (fst y) = length (fst x) \<and> snd y = snd x \<and>
     (\<forall>i<length (fst x). snd (fst y ! i) = snd (fst x ! i) \<and>
        (fst (fst x ! i) \<noteq> SLEEPING \<longrightarrow> fst (fst y ! i) = fst (fst x ! i)))"

lemma wakes_refl [simp]: "wakes x x" by (simp add: wakes_def)

lemma wakes_trans: "wakes x y \<Longrightarrow> wakes y z \<Longrightarrow> wakes x z"
  unfolding wakes_def by (auto intro: rtranclp_trans)

lemma wakes_one:
  assumes "i < length (procs s)" "p_state (pr s i) = SLEEPING"
  shows "wakes (core s) (core (upd_proc i (\<lambda>p. p\<lparr>p_state := RUNNABLE\<rparr>) s))"
  unfolding wakes_def
proof (intro conjI)
  show "tstep\<^sup>*\<^sup>* (core s) (core (upd_proc i (\<lambda>p. p\<lparr>p_state := RUNNABLE\<rparr>) s))"
    by (rule core_move [OF assms(1) _ _ refl refl, where st = RUNNABLE]) (use assms in \<open>auto simp: moves_def prow_def\<close>)
qed (use assms in \<open>auto simp: core_def prow_def\<close>)

lemma wake_one_core:
  assumes "wake_one c me ch i s = Some (Inr s')" "i < length (procs s)"
  shows "wakes (core s) (core s')"
proof (cases "me = Some i")
  case False
  then obtain t where t: "acquire_proc c i s = Some (Inr t)"
    and r: "release_proc c i (if p_state (pr t i) = SLEEPING \<and> p_chan (pr t i) = ch
               then upd_proc i (\<lambda>p. p\<lparr>p_state := RUNNABLE\<rparr>) t else t) = Some (Inr s')"
    using assms(1) by (auto simp: wake_one_def elim: bind_run_InrE)
  have c: "core t = core s" and "i < length (procs t)"
    using acquire_proc_core [OF t] core_eqD(1) [OF acquire_proc_core [OF t]] assms(2) by auto
  with wakes_one [of i t] release_proc_core [OF r] show ?thesis by (auto split: if_splits)
qed (use assms in \<open>simp add: wake_one_def\<close>)

lemma wakeup_core:
  assumes "wakeup c me ch s = Some (Inr s')" "length (procs s) = NPROC"
  shows "wakes (core s) (core s')"
proof -
  have "length (procs s') = NPROC \<and> wakes (core s) (core s')"
  proof (rule run_for_keeps [OF assms(1) [unfolded wakeup_def], where P = "\<lambda>i t. length (procs t) = NPROC \<and> wakes (core s) (core t)"])
    fix i t t' assume "i < NPROC" and t: "length (procs t) = NPROC \<and> wakes (core s) (core t)" and "wake_one c me ch i t = Some (Inr t')"
    then have "wakes (core t) (core t')" using wake_one_core [of c me ch i t t'] by simp
    then show "length (procs t') = NPROC \<and> wakes (core s) (core t')"
      using t wakes_trans by (auto simp: wakes_def core_def)
  qed (use assms(2) in simp)
  then show ?thesis by simp
qed

lemma wakesD:
  assumes "wakes (core s) (core s')"
  shows "tstep\<^sup>*\<^sup>* (core s) (core s')" "length (procs s') = length (procs s)" "initproc s' = initproc s"
    "i < length (procs s) \<Longrightarrow> p_parent (pr s' i) = p_parent (pr s i)"
    "i < length (procs s) \<Longrightarrow> p_state (pr s i) \<noteq> SLEEPING \<Longrightarrow> p_state (pr s' i) = p_state (pr s i)"
  using assms by (auto simp: wakes_def core_def prow_def)

lemma sched_same: "sched c p s = Inr s' \<Longrightarrow> s' = s"
  by (auto simp: sched_def split: if_splits)

lemma yield_core:
  assumes "yield c p s = Some (Inr s')" "p < length (procs s)" "p_state (pr s p) = RUNNING"
  shows "tstep\<^sup>*\<^sup>* (core s) (core s')"
proof -
  obtain t where t: "core t = core s" "s' = upd_proc p (\<lambda>q. q\<lparr>p_state := RUNNABLE\<rparr>) t"
    using assms(1) by (auto simp: yield_def elim!: bind_run_InrE dest!: lock_core sched_same)
  note r = core_eqD(1) [OF t(1)] core_eqD(4) [OF t(1) assms(2)]
  show ?thesis
    by (rule core_move [OF _ _ _ t(1), where st = RUNNABLE]) (use r t(2) assms(2,3) in \<open>auto simp: moves_def prow_def\<close>)
qed

lemma sleep_wait_core:
  assumes "sleep_wait c p ch s = Some (Inr s')" "p < length (procs s)" "p_state (pr s p) = RUNNING"
  shows "tstep\<^sup>*\<^sup>* (core s) (core s')"
proof -
  obtain t where t: "core t = core s" "s' = upd_proc p (\<lambda>q. q\<lparr>p_chan := ch, p_state := SLEEPING\<rparr>) t"
    using assms(1) by (auto simp: sleep_wait_def elim!: bind_run_InrE dest!: lock_core sched_same)
  note r = core_eqD(1) [OF t(1)] core_eqD(4) [OF t(1) assms(2)]
  show ?thesis
    by (rule core_move [OF _ _ _ t(1), where st = SLEEPING]) (use r t(2) assms(2,3) in \<open>auto simp: moves_def prow_def\<close>)
qed

lemma resume_wait_core: "resume_wait c p s = Some (Inr s') \<Longrightarrow> core s' = core s"
  by (auto simp: resume_wait_def core_upd_same elim!: bind_run_InrE dest!: lock_core)

lemma killed_core: "killed c p s = Some (Inr (r, s')) \<Longrightarrow> core s' = core s"
  by (auto simp: killed_def elim!: bind_run_InrE dest!: lock_core)

lemma setkilled_core: "setkilled c p s = Some (Inr s') \<Longrightarrow> core s' = core s"
  by (auto simp: setkilled_def core_upd_same elim!: bind_run_InrE dest!: lock_core)

lemma growproc_core: "growproc kend p n s = Some (Inr (r, s')) \<Longrightarrow> core s' = core s"
  by (auto simp: growproc_def Let_def core_upd_same elim!: bind_run_InrE split: if_splits)

lemma kill_scan_core:
  assumes "kill_scan c pid is s = Some (Inr (r, s'))" "set is \<subseteq> {..<length (procs s)}"
  shows "wakes (core s) (core s')"
  using assms
proof (induction "is" arbitrary: s)
  case (Cons i "is")
  obtain t where t: "acquire_proc c i s = Some (Inr t)"
    and r: "(if p_pid (pr t i) = pid
     then let t = upd_proc i (\<lambda>p. p\<lparr>p_killed := 1\<rparr>) t;
              t = (if p_state (pr t i) = SLEEPING then upd_proc i (\<lambda>p. p\<lparr>p_state := RUNNABLE\<rparr>) t else t)
          in bind_run (release_proc c i t) (\<lambda>s. Some (Inr (0, s)))
     else bind_run (release_proc c i t) (kill_scan c pid is)) = Some (Inr (r, s'))"
    using Cons.prems(1) by (auto elim: bind_run_InrE)
  have c: "core t = core s" by (rule acquire_proc_core [OF t])
  have len: "i < length (procs t)" "length (procs t) = length (procs s)" using core_eqD(1) [OF c] Cons.prems(2) by auto
  show ?case
  proof (cases "p_pid (pr t i) = pid")
    case True
    let ?t = "upd_proc i (\<lambda>p. p\<lparr>p_killed := 1\<rparr>) t"
    have "core s' = core (if p_state (pr t i) = SLEEPING then upd_proc i (\<lambda>p. p\<lparr>p_state := RUNNABLE\<rparr>) ?t else ?t)"
      using r True len by (auto simp: Let_def elim!: bind_run_InrE dest!: lock_core split: if_splits)
    moreover have "core ?t = core s" by (simp add: core_upd_same c)
    ultimately show ?thesis using wakes_one [of i ?t] len by (auto split: if_splits)
  next
    case False
    then obtain u where u: "release_proc c i t = Some (Inr u)" "kill_scan c pid is u = Some (Inr (r, s'))"
      using r by (auto elim: bind_run_InrE)
    have c': "core u = core s" using release_proc_core [OF u(1)] c by simp
    then show ?thesis using Cons.IH [OF u(2)] core_eqD(1) [OF c'] Cons.prems(2) by auto
  qed
qed auto

lemma kill_core: "kill c pid s = Some (Inr (r, s')) \<Longrightarrow> length (procs s) = NPROC \<Longrightarrow> wakes (core s) (core s')"
  unfolding kill_def by (rule kill_scan_core) auto

text \<open>\<open>exit\<close>: the children are handed over, the parent is woken, and the process becomes a zombie.\<close>

lemma reparent_core:
  assumes run: "reparent c p s = Some (Inr s')" and len: "length (procs s) = NPROC" and p: "p < NPROC" "p_state (pr s p) = RUNNING"
    and ini: "initproc s \<noteq> Some p"
  shows "tstep\<^sup>*\<^sup>* (core s) (core s') \<and> length (procs s') = NPROC \<and> p_state (pr s' p) = RUNNING \<and>
    initproc s' = initproc s \<and> (\<forall>i<NPROC. p_parent (pr s' i) \<noteq> Some p)"
proof (rule run_for_keeps [OF run [unfolded reparent_def], where P = "\<lambda>k t. tstep\<^sup>*\<^sup>* (core s) (core t) \<and>
    length (procs t) = NPROC \<and> p_state (pr t p) = RUNNING \<and> initproc t = initproc s \<and> (\<forall>i<k. p_parent (pr t i) \<noteq> Some p)"])
  fix i t t' assume i: "i < NPROC" and r: "reparent_one c p i t = Some (Inr t')"
    and t: "tstep\<^sup>*\<^sup>* (core s) (core t) \<and> length (procs t) = NPROC \<and> p_state (pr t p) = RUNNING \<and>
      initproc t = initproc s \<and> (\<forall>j<i. p_parent (pr t j) \<noteq> Some p)"
  show "tstep\<^sup>*\<^sup>* (core s) (core t') \<and> length (procs t') = NPROC \<and> p_state (pr t' p) = RUNNING \<and>
      initproc t' = initproc s \<and> (\<forall>j<Suc i. p_parent (pr t' j) \<noteq> Some p)"
  proof (cases "p_parent (pr t i) = Some p")
    case True
    let ?t = "upd_proc i (\<lambda>q. q\<lparr>p_parent := initproc t\<rparr>) t"
    have w: "wakes (core ?t) (core t')"
      using r True wakeup_core [of c "Some p" "proc_chan (initproc t)" ?t t'] t by (simp add: reparent_one_def)
    have "tstep (core t) (core ?t)"
      using tstep.adopt [of i "map prow (procs t)" "p_state (pr t i)" "p_pid (pr t i)" p "nextpid t" "initproc t"] True i t
      by (simp add: core_upd) (simp add: core_def prow_def)
    then have "tstep\<^sup>*\<^sup>* (core s) (core t')" using t wakesD(1) [OF w] by (meson rtranclp.rtrancl_into_rtrancl rtranclp_trans)
    moreover have "p_state (pr ?t p) = RUNNING" using t i by auto
    moreover have "p_parent (pr t' j) \<noteq> Some p" if "j < Suc i" for j
      using wakesD(4) [OF w, of j] that i t ini by (cases "j = i") auto
    ultimately show ?thesis using wakesD(2,3) [OF w] wakesD(5) [OF w, of p] t p(1) by simp
  next
    case False
    then show ?thesis using r t less_Suc_eq by (auto simp: reparent_one_def)
  qed
qed (use assms in simp)

lemma exit_core:
  assumes run: "exit c p status s = Some (Inr s')" and len: "length (procs s) = NPROC" and p: "p < NPROC" "p_state (pr s p) = RUNNING"
  shows "tstep\<^sup>*\<^sup>* (core s) (core s')"
proof -
  have ini: "initproc s \<noteq> Some p" using run by (auto simp: exit_def split: if_splits)
  obtain t1 t2 t3 t4 where t1: "core t1 = core s" and t2: "reparent c p t1 = Some (Inr t2)"
    and t3: "wakeup c (Some p) (proc_chan (p_parent (pr t2 p))) t2 = Some (Inr t3)"
    and t4: "core t4 = core t3" and s': "core s' = core (upd_proc p (\<lambda>q. q\<lparr>p_xstate := status, p_state := ZOMBIE\<rparr>) t4)"
    using run ini unfolding exit_def
    by (auto simp: Let_def core_upd_same elim!: bind_run_InrE dest!: acquire_wait_core acquire_proc_core release_wait_core sched_same)
  have len1: "length (procs t1) = NPROC" and p1: "p_state (pr t1 p) = RUNNING" and ini1: "initproc t1 \<noteq> Some p"
    using core_eqD [OF t1] core_eqD(4) [OF t1, of p] len p ini by (auto simp: prow_def)
  note r = reparent_core [OF t2 len1 p(1) p1 ini1]
  have w: "wakes (core t2) (core t3)" using wakeup_core [OF t3] r by simp
  have t3': "length (procs t3) = NPROC" "p_state (pr t3 p) = RUNNING" "initproc t3 \<noteq> Some p"
    "\<And>i. i < NPROC \<Longrightarrow> p_parent (pr t3 i) \<noteq> Some p"
    using wakesD(2,3) [OF w] wakesD(4) [OF w] wakesD(5) [OF w, of p] r p(1) ini1 by auto
  have t4': "length (procs t4) = NPROC" "initproc t4 \<noteq> Some p" "\<And>i. i < NPROC \<Longrightarrow> prow (pr t4 i) = prow (pr t3 i)"
    using core_eqD [OF t4] t3' by auto
  have nochild: "p_parent (pr t4 i) \<noteq> Some p" if "i < NPROC" for i
    using t4'(3) [OF that] t3'(4) [OF that] by (simp add: prow_def)
  have p4: "p_state (pr t4 p) = RUNNING" using t4'(3) [OF p(1)] t3'(2) by (simp add: prow_def)
  have "tstep (core t4) (core s')"
    using tstep.bury [of p "map prow (procs t4)" "p_pid (pr t4 p)" "p_parent (pr t4 p)" "initproc t4" "nextpid t4"]
      p(1) t4'(1,2) nochild p4
    by (simp add: s' core_upd) (simp add: core_def prow_def)
  moreover have "tstep\<^sup>*\<^sup>* (core s) (core t4)" using r wakesD(1) [OF w] t1 t4 by (metis rtranclp_trans)
  ultimately show ?thesis by (rule rtranclp.rtrancl_into_rtrancl [rotated])
qed

lemma tstep_reap:
  "i < length (procs s) \<Longrightarrow> p_state (pr s i) = ZOMBIE \<Longrightarrow> tstep (core s) (set_row i (UNUSED, 0, None) (core s))"
  using tstep.reap [of i "map prow (procs s)" "nextpid s" "initproc s"] by (simp add: core_def set_row_def prow_def)

lemma wait_scan_core:
  assumes "wait_scan kend c p addr xout is kids s = Some (Inr (r, s'))" "set is \<subseteq> {..<length (procs s)}"
  shows "(case r of Inl _ \<Rightarrow> tstep\<^sup>*\<^sup>* (core s) (core s') | Inr _ \<Rightarrow> core s' = core s)"
  using assms
proof (induction "is" arbitrary: kids s)
  case (Cons i "is")
  show ?case
  proof (cases "p_parent (pr s i) = Some p")
    case True
    obtain t where t: "acquire_proc c i s = Some (Inr t)" using Cons.prems(1) True by (auto elim: bind_run_InrE)
    have c: "core t = core s" by (rule acquire_proc_core [OF t])
    have len: "i < length (procs t)" "length (procs t) = length (procs s)" using core_eqD(1) [OF c] Cons.prems(2) by auto
    note run = Cons.prems(1) [unfolded wait_scan.simps if_P [OF True] t bind_run_simps]
    show ?thesis
    proof (cases "p_state (pr t i) = ZOMBIE")
      case Z: True
      have "core s' = core t \<or> core s' = set_row i (UNUSED, 0, None) (core t)" and "\<exists>v. r = Inl v"
        using run [unfolded if_P [OF Z]]
        by (auto simp: Let_def elim!: bind_run_InrE dest!: release_proc_core release_wait_core freeproc_core split: if_splits)
      then show ?thesis using tstep_reap [OF len(1) Z] c by auto
    next
      case False
      then obtain u where u: "release_proc c i t = Some (Inr u)" "wait_scan kend c p addr xout is True u = Some (Inr (r, s'))"
        using run by (auto elim: bind_run_InrE)
      have c': "core u = core s" using release_proc_core [OF u(1)] c by simp
      then show ?thesis using Cons.IH [OF u(2)] core_eqD(1) [OF c'] Cons.prems(2) by (auto split: sum.splits)
    qed
  next
    case False
    then show ?thesis using Cons.IH [of kids s] Cons.prems by auto
  qed
qed auto

lemma wait_core:
  assumes run: "wait kend c p addr xout s = Some (Inr (r, s'))" and len: "length (procs s) = NPROC" and p: "p < NPROC" "p_state (pr s p) = RUNNING"
  shows "tstep\<^sup>*\<^sup>* (core s) (core s')"
proof -
  obtain t v u where t: "core t = core s" and u: "wait_scan kend c p addr xout [0..<NPROC] False t = Some (Inr (v, u))"
    and rest: "(case v of
       Inl v \<Rightarrow> Some (Inr (Some v, u))
     | Inr havekids \<Rightarrow>
         bind_run (if \<not> havekids then Some (Inr (1, u)) else killed c p u) (\<lambda>(q, s).
         if q \<noteq> 0 then bind_run (release_wait c s) (\<lambda>s. Some (Inr (Some (-1), s)))
         else bind_run (sleep_wait c p (Proc_chan p) s) (\<lambda>s. Some (Inr (None, s))))) = Some (Inr (r, s'))"
    using run unfolding wait_def wait_turn_def
    by (auto elim!: bind_run_InrE dest!: acquire_wait_core)
  have sub: "set [0..<NPROC] \<subseteq> {..<length (procs t)}" using core_eqD(1) [OF t] len by auto
  note w = wait_scan_core [OF u sub]
  show ?thesis
  proof (cases v)
    case (Inl n)
    then show ?thesis using w rest t by simp
  next
    case (Inr kids)
    then have cu: "core u = core s" using w t by simp
    obtain q x where k: "(if \<not> kids then Some (Inr (1, u)) else killed c p u) = Some (Inr (q, x))" and y: "(if q \<noteq> (0::int) then bind_run (release_wait c x) (\<lambda>s. Some (Inr (Some (-1), s)))
         else bind_run (sleep_wait c p (Proc_chan p) x) (\<lambda>s. Some (Inr (None, s)))) = Some (Inr (r, s'))"
      using rest unfolding Inr sum.case by (auto elim: bind_run_InrE)
    have cx: "core x = core s" using k cu by (auto dest: killed_core split: if_splits)
    have "p < length (procs x)" "p_state (pr x p) = RUNNING" using core_eqD(1) [OF cx] core_eqD(4) [OF cx, of p] len p by (auto simp: prow_def)
    then show ?thesis using y sleep_wait_core [of c p "Proc_chan p" x s'] cx
      by (auto elim!: bind_run_InrE dest!: release_wait_core split: if_splits)
  qed
qed

text \<open>The dispatch of process \<open>i\<close>: one turn of the loop of \<open>scheduler\<close>, up to the switch.\<close>

lemma dispatch_core:
  assumes "sched_pass (\<lambda>i t. Some (Inr t)) c [i] b s = Some (Inr (r, s'))" "i < length (procs s)"
  shows "tstep\<^sup>*\<^sup>* (core s) (core s')"
proof -
  obtain t where a: "acquire_proc c i s = Some (Inr t)" using assms(1) by (auto elim: bind_run_InrE)
  have t: "core t = core s"
    "core s' = core (if p_state (pr t i) = RUNNABLE then upd_proc i (\<lambda>p. p\<lparr>p_state := RUNNING\<rparr>) t else t)"
    using assms(1) acquire_proc_core [OF a] by (auto simp: a elim!: bind_run_InrE dest!: lock_core split: if_splits)
  show ?thesis
  proof (cases "p_state (pr t i) = RUNNABLE")
    case True
    show ?thesis
      by (rule core_move [OF _ _ _ t(1), where st = RUNNING and i = i and f = "\<lambda>p. p\<lparr>p_state := RUNNING\<rparr>"])
        (use True t(2) assms(2) core_eqD(1) [OF t(1)] in \<open>auto simp: moves_def prow_def\<close>)
  qed (use t in simp)
qed

section \<open>System calls and the scheduler\<close>

text \<open>
  What can happen to the table: a system call of the process \<open>p\<close> that runs on CPU \<open>c\<close>, a wake-up from an interrupt,
  and a dispatch by a scheduler. A step is the whole call, up to the switch where the call ends in one.
\<close>

inductive kstep :: "uint64 \<Rightarrow> uint64 \<Rightarrow> uint64 \<Rightarrow> kernel \<Rightarrow> kernel \<Rightarrow> bool" for kend tramp fr where
  k_fork: "p < NPROC \<Longrightarrow> p_state (pr s p) = RUNNING \<Longrightarrow> fork kend tramp fr c p s = Some (Inr (r, s')) \<Longrightarrow> kstep kend tramp fr s s'"
| k_sfork: "p < NPROC \<Longrightarrow> p_state (pr s p) = RUNNING \<Longrightarrow> sfork kend tramp fr c p s = Some (Inr (r, s')) \<Longrightarrow> kstep kend tramp fr s s'"
| k_exit: "p < NPROC \<Longrightarrow> p_state (pr s p) = RUNNING \<Longrightarrow> exit c p status s = Some (Inr s') \<Longrightarrow> kstep kend tramp fr s s'"
| k_wait: "p < NPROC \<Longrightarrow> p_state (pr s p) = RUNNING \<Longrightarrow> wait kend c p addr xout s = Some (Inr (res, s')) \<Longrightarrow> kstep kend tramp fr s s'"
| k_resume: "resume_wait c p s = Some (Inr s') \<Longrightarrow> kstep kend tramp fr s s'"
| k_kill: "kill c pid s = Some (Inr (r, s')) \<Longrightarrow> kstep kend tramp fr s s'"
| k_killed: "killed c p s = Some (Inr (r, s')) \<Longrightarrow> kstep kend tramp fr s s'"
| k_setkilled: "setkilled c p s = Some (Inr s') \<Longrightarrow> kstep kend tramp fr s s'"
| k_growproc: "growproc kend p n s = Some (Inr (r, s')) \<Longrightarrow> kstep kend tramp fr s s'"
| k_yield: "p < NPROC \<Longrightarrow> p_state (pr s p) = RUNNING \<Longrightarrow> yield c p s = Some (Inr s') \<Longrightarrow> kstep kend tramp fr s s'"
| k_wakeup: "wakeup c me ch s = Some (Inr s') \<Longrightarrow> kstep kend tramp fr s s'"
| k_dispatch: "i < NPROC \<Longrightarrow> sched_pass (\<lambda>i t. Some (Inr t)) c [i] b s = Some (Inr (f, s')) \<Longrightarrow> kstep kend tramp fr s s'"

lemma kstep_refines: "kstep kend tramp fr s s' \<Longrightarrow> length (procs s) = NPROC \<Longrightarrow> tstep\<^sup>*\<^sup>* (core s) (core s')"
proof (induction rule: kstep.induct)
  case k_fork
  then show ?case by (blast intro: created_tsteps fork_core)
next
  case k_sfork
  then show ?case by (blast intro: created_tsteps sfork_core)
next
  case k_yield
  then show ?case by (auto intro: yield_core)
next
  case k_dispatch
  then show ?case by (auto intro: dispatch_core)
next
  case k_kill
  then show ?case using wakesD(1) [OF kill_core] by blast
next
  case k_wakeup
  then show ?case using wakesD(1) [OF wakeup_core] by blast
qed (auto intro: exit_core wait_core dest: resume_wait_core killed_core setkilled_core growproc_core)

definition proc_inv :: "kernel \<Rightarrow> bool" where "proc_inv s = table_inv (core s)"

lemma ksteps_inv: "(kstep kend tramp fr)\<^sup>*\<^sup>* s s' \<Longrightarrow> proc_inv s \<Longrightarrow> proc_inv s'"
proof (induction rule: rtranclp_induct)
  case (step y z)
  then have y: "table_inv (core y)" by (simp add: proc_inv_def)
  then have "length (procs y) = NPROC" by (simp add: table_inv_def core_def)
  then show ?case using y kstep_refines [OF step.hyps(2)] tsteps_inv by (auto simp: proc_inv_def)
qed

text \<open>The first process: after \<open>userinit\<close> on a clear table the invariant holds.\<close>

lemma boot_inv:
  assumes run: "userinit kend tramp fr code sz nm root c s = Some (Inr s')" and len: "length (procs s) = NPROC"
    and clear: "\<And>i. i < NPROC \<Longrightarrow> prow (pr s i) = (UNUSED, 0, None)" and pid: "nextpid s = 1"
  shows "proc_inv s'"
proof -
  obtain q s1 where a: "allocproc kend tramp fr c s = Some (Inr (q, s1))"
    using run unfolding userinit_def by (auto elim: bind_run_InrE)
  note run = run [unfolded userinit_def a bind_run_simps prod.case]
  obtain i where q: "q = Some i" using run by (cases q) auto
  have i: "i < NPROC" and c1: "core s1 = set_row i (USED, nextpid s, p_parent (pr s i)) (bump (core s))"
    using allocproc_core [OF a len] q by auto
  note r = row_at [OF c1, simplified len bump_core, OF i]
  have par: "p_parent (pr s i) = None" using clear [OF i] by (simp add: prow_def)
  have rows: "map prow (procs s') = (map prow (procs s))[i := (RUNNABLE, 1, None)] \<and> nextpid s' = 2 \<and> initproc s' = Some i"
    using run unfolding q option.case Let_def
    by (elim bind_run_InrE)
      (use r c1 par pid in \<open>auto dest!: release_proc_core simp: core_def set_row_def bump_def upd_proc_def map_update prow_def\<close>)
  have row: "map prow (procs s') ! j = (if j = i then (RUNNABLE, 1, None) else (UNUSED, 0, None))" if "j < NPROC" for j
    using rows clear [OF that] that len i by (simp add: nth_list_update)
  have "table_inv (R, 2, Some i)" if "length R = NPROC" "\<And>j. j < NPROC \<Longrightarrow> R ! j = (if j = i then (RUNNABLE, 1, None) else (UNUSED, 0, None))" for R
    using that i by (auto simp: table_inv_def row_ok_def alive_def pid_of_def)
  from this [OF _ row] show ?thesis using rows len by (simp add: proc_inv_def core_def)
qed

end
