(* ===== verification/Proc_Run.thy ===== *)
theory Proc_Run
  imports Lifecycle
begin

text \<open>
  The operations of \<open>kernel/proc.c\<close> when no other CPU holds the locks they take: they return, and their result
  is given exactly. A lock that is taken and released is back in its state from before.
\<close>

section \<open>Taking and releasing a lock of the table\<close>

definition lock_free :: "spinlock \<Rightarrow> bool" where
  "lock_free lk \<longleftrightarrow> locked lk = 0 \<and> lcpu lk = None"

definition held_by :: "nat \<Rightarrow> spinlock \<Rightarrow> spinlock" where
  "held_by c lk = lk\<lparr>locked := 1, lcpu := Some c\<rparr>"

lemma holding_held [simp]: "holding c (held_by c lk)"
  by (simp add: holding_def held_by_def)

lemma unlock_held: "lock_free lk \<Longrightarrow> (held_by c lk)\<lparr>lcpu := None, locked := 0\<rparr> = lk"
  by (cases lk) (simp add: lock_free_def held_by_def)

definition lock_row :: "nat \<Rightarrow> nat \<Rightarrow> kernel \<Rightarrow> kernel" where
  "lock_row c i s = upd_proc i (\<lambda>p. p\<lparr>p_lock := held_by c (p_lock p)\<rparr>) (s\<lparr>kcpu := push_off (kcpu s)\<rparr>)"

lemma acquire_free': "lock_free lk \<Longrightarrow> acquire c (lk, u) = Some (Inr (held_by c lk, push_off u))"
  by (simp add: acquire_free lock_free_def held_by_def)

lemma release_free:
  assumes "lock_free lk" "cpu_ok u" "0 < noff u"
  shows "\<exists>u'. release c (held_by c lk, u) = Inr (lk, u') \<and> cpu_ok u' \<and> noff u' = noff u - 1"
  using release_held [OF holding_held assms(2,3)] unlock_held [OF assms(1)] by metis

lemma acquire_proc_free: "lock_free (p_lock (pr s i)) \<Longrightarrow> acquire_proc c i s = Some (Inr (lock_row c i s))"
  by (simp add: acquire_proc_def acquire_free' lock_row_def upd_proc_def)

lemma upd_proc_kcpu: "upd_proc i f (s\<lparr>kcpu := u\<rparr>) = (upd_proc i f s)\<lparr>kcpu := u\<rparr>"
  by (simp add: upd_proc_def)

lemma upd_proc_upd: "i < length (procs s) \<Longrightarrow> upd_proc i g (upd_proc i f s) = upd_proc i (\<lambda>p. g (f p)) s"
  by (simp add: upd_proc_def)

lemma pr_kcpu [simp]: "procs (s\<lparr>kcpu := u\<rparr>) = procs s" by simp

lemma lock_row_simps [simp]:
  "i < length (procs s) \<Longrightarrow> pr (lock_row c i s) j = (if j = i then (pr s i)\<lparr>p_lock := held_by c (p_lock (pr s i))\<rparr> else pr s j)"
  "length (procs (lock_row c i s)) = length (procs s)" "kcpu (lock_row c i s) = push_off (kcpu s)"
  "kram (lock_row c i s) = kram s"
  by (simp_all add: lock_row_def)

text \<open>An update of an entry under its lock.\<close>

lemma release_proc_free:
  assumes i: "i < length (procs s)" and free: "lock_free (p_lock (pr s i))" and cpu: "cpu_ok (kcpu s)"
    and f: "\<And>p l. f (p\<lparr>p_lock := l\<rparr>) = (f p)\<lparr>p_lock := l\<rparr>"
  shows "\<exists>u. release_proc c i (upd_proc i f (lock_row c i s)) = Some (Inr (upd_proc i f (s\<lparr>kcpu := u\<rparr>))) \<and>
    cpu_ok u \<and> noff u = noff (kcpu s)"
proof -
  let ?t = "upd_proc i f (lock_row c i s)"
  have push: "cpu_ok (push_off (kcpu s))" "noff (push_off (kcpu s)) = noff (kcpu s) + 1"
    using push_off_ok [OF cpu] by simp_all
  have "0 < noff (push_off (kcpu s))" using push(2) cpu by (simp add: cpu_ok_def)
  from release_free [OF free push(1) this, of c] obtain u where
    u: "release c (held_by c (p_lock (pr s i)), push_off (kcpu s)) = Inr (p_lock (pr s i), u)" "cpu_ok u" "noff u = noff (kcpu s)"
    using push(2) by auto
  have lock: "p_lock (pr ?t i) = held_by c (p_lock (pr s i))" using i by (simp add: f)
  have same: "(f (pr s i))\<lparr>p_lock := p_lock (pr s i)\<rparr> = f (pr s i)" by (simp flip: f)
  have "release_proc c i ?t = Some (Inr (upd_proc i (\<lambda>p. p\<lparr>p_lock := p_lock (pr s i)\<rparr>) (?t\<lparr>kcpu := u\<rparr>)))"
    unfolding release_proc_def lock using u(1) by simp
  also have "upd_proc i (\<lambda>p. p\<lparr>p_lock := p_lock (pr s i)\<rparr>) (?t\<lparr>kcpu := u\<rparr>) = upd_proc i f (s\<lparr>kcpu := u\<rparr>)"
    using i same by (simp add: upd_proc_def lock_row_def f)
  finally show ?thesis using u by blast
qed

lemma release_unchanged:
  assumes "i < length (procs s)" "lock_free (p_lock (pr s i))" "cpu_ok (kcpu s)"
  shows "\<exists>u. release_proc c i (lock_row c i s) = Some (Inr (s\<lparr>kcpu := u\<rparr>)) \<and> cpu_ok u \<and> noff u = noff (kcpu s)"
  using release_proc_free [OF assms, of "\<lambda>p. p" c] by (simp add: upd_proc_def)

section \<open>Waking sleepers\<close>

definition wake :: "channel \<Rightarrow> proc \<Rightarrow> proc" where
  "wake ch p = (if p_state p = SLEEPING \<and> p_chan p = ch then p\<lparr>p_state := RUNNABLE\<rparr> else p)"

lemma wake_one_free:
  assumes i: "i < length (procs s)" and free: "me \<noteq> Some i \<Longrightarrow> lock_free (p_lock (pr s i))" and cpu: "cpu_ok (kcpu s)"
  shows "\<exists>u. wake_one c me ch i s = Some (Inr (if me = Some i then s\<lparr>kcpu := u\<rparr> else upd_proc i (wake ch) (s\<lparr>kcpu := u\<rparr>))) \<and>
    cpu_ok u \<and> noff u = noff (kcpu s)"
proof (cases "me = Some i")
  case True
  then show ?thesis using cpu by (intro exI [of _ "kcpu s"]) (simp add: wake_one_def)
next
  case False
  have "wake_one c me ch i s = release_proc c i (upd_proc i (wake ch) (lock_row c i s))"
    using False i by (simp add: wake_one_def acquire_proc_free [OF free [OF False]] wake_def upd_proc_def lock_row_def)
  moreover have "wake ch (p\<lparr>p_lock := l\<rparr>) = (wake ch p)\<lparr>p_lock := l\<rparr>" for p l by (simp add: wake_def)
  ultimately show ?thesis using release_proc_free [OF i free [OF False] cpu, of "wake ch" c] False by auto
qed

text \<open>The table after the wake-ups of the entries in \<open>is\<close>.\<close>

definition wake_all :: "nat option \<Rightarrow> channel \<Rightarrow> nat set \<Rightarrow> proc list \<Rightarrow> proc list" where
  "wake_all me ch I ps = map (\<lambda>i. if i \<in> I \<and> me \<noteq> Some i then wake ch (ps ! i) else ps ! i) [0..<length ps]"

lemma wake_all_step:
  "i < length ps \<Longrightarrow> i \<notin> I \<Longrightarrow>
   wake_all me ch (insert i I) ps = (if me = Some i then wake_all me ch I ps else (wake_all me ch I ps)[i := wake ch (wake_all me ch I ps ! i)])"
proof (rule nth_equalityI)
  fix j assume "i < length ps" "i \<notin> I" "j < length (wake_all me ch (insert i I) ps)"
  then show "wake_all me ch (insert i I) ps ! j =
      (if me = Some i then wake_all me ch I ps else (wake_all me ch I ps)[i := wake ch (wake_all me ch I ps ! i)]) ! j"
    by (cases "j = i") (simp_all add: wake_all_def nth_list_update)
qed (simp add: wake_all_def)

lemma wake_all_empty: "wake_all me ch {} ps = ps"
  by (simp add: wake_all_def map_nth)

lemma wake_run:
  assumes "distinct is" "set is \<subseteq> {..<length (procs s)}" "cpu_ok (kcpu s)" "set is \<inter> I = {}"
    "\<And>i. i \<in> set is \<Longrightarrow> me \<noteq> Some i \<Longrightarrow> lock_free (p_lock (pr s i))"
  shows "\<exists>u. run_for (wake_one c me ch) is (s\<lparr>procs := wake_all me ch I (procs s)\<rparr>) =
      Some (Inr (s\<lparr>procs := wake_all me ch (I \<union> set is) (procs s), kcpu := u\<rparr>)) \<and> cpu_ok u \<and> noff u = noff (kcpu s)"
  using assms
proof (induction "is" arbitrary: s I)
  case Nil
  then show ?case by (intro exI [of _ "kcpu s"]) simp
next
  case (Cons i "is")
  let ?t = "s\<lparr>procs := wake_all me ch I (procs s)\<rparr>"
  have i: "i < length (procs s)" "i \<notin> I" using Cons.prems by auto
  have len: "length (wake_all me ch I (procs s)) = length (procs s)" by (simp add: wake_all_def)
  have same: "pr ?t i = pr s i" using i by (simp add: wake_all_def)
  obtain u where u: "wake_one c me ch i ?t = Some (Inr (if me = Some i then ?t\<lparr>kcpu := u\<rparr> else upd_proc i (wake ch) (?t\<lparr>kcpu := u\<rparr>)))"
    "cpu_ok u" "noff u = noff (kcpu s)"
    using wake_one_free [of i ?t me c ch] Cons.prems(3) Cons.prems(5) [of i] i len same by auto
  let ?s = "s\<lparr>kcpu := u\<rparr>"
  have next_s: "(if me = Some i then ?t\<lparr>kcpu := u\<rparr> else upd_proc i (wake ch) (?t\<lparr>kcpu := u\<rparr>)) =
      ?s\<lparr>procs := wake_all me ch (insert i I) (procs ?s)\<rparr>"
    using wake_all_step [OF i, of me ch] by (simp add: upd_proc_def)
  obtain v where v: "run_for (wake_one c me ch) is (?s\<lparr>procs := wake_all me ch (insert i I) (procs ?s)\<rparr>) =
      Some (Inr (?s\<lparr>procs := wake_all me ch (insert i I \<union> set is) (procs ?s), kcpu := v\<rparr>))" "cpu_ok v" "noff v = noff (kcpu s)"
    using Cons.IH [of ?s "insert i I"] Cons.prems u(2,3) by auto
  have "run_for (wake_one c me ch) (i # is) ?t = Some (Inr (s\<lparr>procs := wake_all me ch (I \<union> set (i # is)) (procs s), kcpu := v\<rparr>))"
    using u(1) next_s v(1) by simp
  then show ?case using v(2,3) by blast
qed

lemma wakeup_free:
  assumes "length (procs s) = NPROC" "cpu_ok (kcpu s)" "\<And>i. i < NPROC \<Longrightarrow> me \<noteq> Some i \<Longrightarrow> lock_free (p_lock (pr s i))"
  shows "\<exists>u. wakeup c me ch s = Some (Inr (s\<lparr>procs := wake_all me ch {..<NPROC} (procs s), kcpu := u\<rparr>)) \<and> cpu_ok u \<and> noff u = noff (kcpu s)"
proof -
  have "set [0..<NPROC] = {..<NPROC}" by auto
  then show ?thesis
    using wake_run [of "[0..<NPROC]" s "{}" me c ch] assms by (simp add: wakeup_def wake_all_empty)
qed

section \<open>Allocation\<close>

text \<open>A state between system calls: no lock is held.\<close>

definition quiet :: "kernel \<Rightarrow> bool" where
  "quiet s \<longleftrightarrow> length (procs s) = NPROC \<and> cpu_ok (kcpu s) \<and> (\<forall>i<NPROC. lock_free (p_lock (pr s i))) \<and>
     lock_free (pid_lock s) \<and> lock_free (wait_lock s)"

lemma find_unused_free:
  assumes "set is \<subseteq> {..<length (procs s)}" "cpu_ok (kcpu s)" "\<And>i. i < length (procs s) \<Longrightarrow> lock_free (p_lock (pr s i))"
  shows "\<exists>u. find_unused c is s = Some (Inr (case find (\<lambda>i. p_state (pr s i) = UNUSED) is of
      None \<Rightarrow> (None, s\<lparr>kcpu := u\<rparr>) | Some i \<Rightarrow> (Some i, lock_row c i (s\<lparr>kcpu := u\<rparr>)))) \<and> cpu_ok u \<and> noff u = noff (kcpu s)"
  using assms
proof (induction "is" arbitrary: s)
  case Nil
  then show ?case by (intro exI [of _ "kcpu s"]) simp
next
  case (Cons i "is")
  have i: "i < length (procs s)" "lock_free (p_lock (pr s i))" using Cons.prems by auto
  show ?case
  proof (cases "p_state (pr s i) = UNUSED")
    case True
    then show ?thesis using i Cons.prems(2) by (intro exI [of _ "kcpu s"]) (simp add: acquire_proc_free)
  next
    case False
    obtain u where u: "release_proc c i (lock_row c i s) = Some (Inr (s\<lparr>kcpu := u\<rparr>))" "cpu_ok u" "noff u = noff (kcpu s)"
      using release_unchanged [OF i Cons.prems(2)] by blast
    obtain v where "find_unused c is (s\<lparr>kcpu := u\<rparr>) = Some (Inr (case find (\<lambda>i. p_state (pr s i) = UNUSED) is of
      None \<Rightarrow> (None, s\<lparr>kcpu := v\<rparr>) | Some i \<Rightarrow> (Some i, lock_row c i (s\<lparr>kcpu := v\<rparr>))))" "cpu_ok v" "noff v = noff (kcpu s)"
      using Cons.IH [of "s\<lparr>kcpu := u\<rparr>"] Cons.prems u by (cases "find (\<lambda>i. p_state (pr s i) = UNUSED) is") auto
    then show ?thesis using False i u(1) by (intro exI [of _ v]) (simp add: acquire_proc_free)
  qed
qed

lemma allocpid_free:
  assumes "lock_free (pid_lock s)" "cpu_ok (kcpu s)"
  shows "\<exists>u. allocpid c s = Some (Inr (nextpid s, s\<lparr>kcpu := u, nextpid := nextpid s + 1\<rparr>)) \<and> cpu_ok u \<and> noff u = noff (kcpu s)"
proof -
  have push: "cpu_ok (push_off (kcpu s))" "noff (push_off (kcpu s)) = noff (kcpu s) + 1" "0 < noff (push_off (kcpu s))"
    using push_off_ok [OF assms(2)] assms(2) by (simp_all add: cpu_ok_def)
  obtain u where "release c (held_by c (pid_lock s), push_off (kcpu s)) = Inr (pid_lock s, u)" "cpu_ok u" "noff u = noff (kcpu s)"
    using release_free [OF assms(1) push(1,3)] push(2) by auto
  then show ?thesis by (intro exI [of _ u]) (simp add: allocpid_def acquire_free' [OF assms(1)])
qed

text \<open>A successful allocation: which entry is taken and what is written to it. Its lock stays held.\<close>

lemma allocproc_shape:
  assumes q: "quiet s" and run: "allocproc kend tramp fr c s = Some (Inr (Some i, s'))"
  shows "i < NPROC \<and> p_state (pr s i) = UNUSED \<and> (\<forall>j<i. p_state (pr s j) \<noteq> UNUSED) \<and>
    (\<exists>tf pt ctx u k. cpu_ok u \<and> noff u = noff (kcpu s) + 1 \<and>
      s' = (upd_proc i (\<lambda>p. p\<lparr>p_lock := held_by c (p_lock p), p_pid := nextpid s, p_state := USED, p_trapframe := tf,
        p_pagetable := pt, p_context := ctx\<rparr>) s)\<lparr>kcpu := u, kram := k, nextpid := nextpid s + 1\<rparr>)"
proof -
  have len: "length (procs s) = NPROC" and cpu: "cpu_ok (kcpu s)" and pl: "lock_free (pid_lock s)"
    and free: "\<And>i. i < length (procs s) \<Longrightarrow> lock_free (p_lock (pr s i))" using q by (auto simp: quiet_def)
  have sub: "set [0..<NPROC] \<subseteq> {..<length (procs s)}" using len by auto
  obtain u where u: "find_unused c [0..<NPROC] s = Some (Inr (case find (\<lambda>i. p_state (pr s i) = UNUSED) [0..<NPROC] of
      None \<Rightarrow> (None, s\<lparr>kcpu := u\<rparr>) | Some i \<Rightarrow> (Some i, lock_row c i (s\<lparr>kcpu := u\<rparr>))))" "cpu_ok u" "noff u = noff (kcpu s)"
    using find_unused_free [OF sub cpu free, of c] by blast
  note run = run [unfolded allocproc_def u(1) bind_run_simps]
  obtain j where j: "find (\<lambda>i. p_state (pr s i) = UNUSED) [0..<NPROC] = Some j" using run by (auto split: option.splits)
  then have jp: "j < NPROC" "p_state (pr s j) = UNUSED" "\<forall>l<j. p_state (pr s l) \<noteq> UNUSED"
    by (auto simp: find_Some_iff)
  let ?s1 = "lock_row c j (s\<lparr>kcpu := u\<rparr>)"
  have "lock_free (pid_lock ?s1)" "cpu_ok (kcpu ?s1)" "noff (kcpu ?s1) = noff (kcpu s) + 1"
    using pl push_off_ok [OF u(2)] u(3) by (simp_all add: lock_row_def upd_proc_def)
  then obtain v where v: "allocpid c ?s1 = Some (Inr (nextpid s, ?s1\<lparr>kcpu := v, nextpid := nextpid s + 1\<rparr>))"
      "cpu_ok v" "noff v = noff (kcpu s) + 1"
    using allocpid_free [of ?s1 c] by (auto simp: lock_row_def upd_proc_def)
  obtain tf k where k: "kalloc (kram s) = (tf, k)" by (cases "kalloc (kram s)")
  have k1: "kram ?s1 = kram s" by (simp add: lock_row_def upd_proc_def)
  note run = run [unfolded j option.case prod.case v(1) bind_run_simps Let_def]
  have nz: "tf \<noteq> 0" using run k k1 by (auto elim!: bind_run_InrE)
  obtain pt k' where pt: "proc_pagetable kend tramp tf k = Some (Inr (pt, k'))"
    using run k k1 nz by (auto elim: bind_run_InrE)
  have "pt \<noteq> 0" using run k k1 nz pt by (auto elim!: bind_run_InrE)
  with run k k1 nz pt have ij: "i = j" and s': "s' = upd_proc j (\<lambda>p. p\<lparr>p_context := \<lparr>c_ra = fr, c_sp = p_kstack p + PGSIZE, c_saved = replicate 12 0\<rparr>\<rparr>)
     (upd_proc j (\<lambda>p. p\<lparr>p_pagetable := pt\<rparr>) ((upd_proc j (\<lambda>p. p\<lparr>p_trapframe := tf\<rparr>)
       ((upd_proc j (\<lambda>p. p\<lparr>p_pid := nextpid s, p_state := USED\<rparr>) (?s1\<lparr>kcpu := v, nextpid := nextpid s + 1\<rparr>))\<lparr>kram := k\<rparr>))\<lparr>kram := k'\<rparr>))"
    by auto
  define ctx where "ctx = \<lparr>c_ra = fr, c_sp = p_kstack (pr s j) + PGSIZE, c_saved = replicate 12 0\<rparr>"
  have "s' = (upd_proc j (\<lambda>p. p\<lparr>p_lock := held_by c (p_lock p), p_pid := nextpid s, p_state := USED, p_trapframe := tf,
        p_pagetable := pt, p_context := ctx\<rparr>) s)\<lparr>kcpu := v, kram := k', nextpid := nextpid s + 1\<rparr>"
    unfolding s' using jp(1) len by (simp add: upd_proc_def lock_row_def ctx_def)
  then show ?thesis unfolding ij using jp v(2,3) by blast
qed

text \<open>With seven free pages an allocation succeeds.\<close>

lemma proc_pagetable_ok:
  assumes fp: "free_pages kend k (root # ps)" and n: "4 < length ps"
  shows "\<exists>k'. proc_pagetable kend tramp tf k = Some (Inr (root, k')) \<and> root \<noteq> 0"
proof -
  have root: "root \<noteq> 0" using fp by (auto simp: free_pages_def valid_page_def)
  obtain k1 where k1: "uvmcreate k = (root, k1)" "vm_inv kend k1 root ps" "\<forall>va. leaf (ram k1) root va = 0"
    using uvmcreate_spec [OF fp] by blast
  have u: "unat TRAMPOLINE = 2 ^ 38 - 4096" "unat TRAPFRAME = 2 ^ 38 - 8192" "unat PGSIZE = 4096"
    by (simp_all add: TRAMPOLINE_def TRAPFRAME_def MAXVA_def PGSIZE_def)
  have al: "page_aligned TRAMPOLINE" "page_aligned TRAPFRAME" "page_aligned PGSIZE" "PGSIZE \<noteq> 0"
    by (simp_all add: TRAMPOLINE_def TRAPFRAME_def MAXVA_def PGSIZE_def)
  have b: "unat TRAMPOLINE + unat PGSIZE \<le> 2 ^ 38" "unat TRAPFRAME + unat PGSIZE \<le> 2 ^ 38" using u by simp_all
  have e1: "leaf (ram k1) root a AND PTE_V = 0" for a using k1(3) by simp
  obtain r k2 ps2 where r: "mappages root TRAMPOLINE PGSIZE tramp (PTE_R OR PTE_X) k1 = Some (Inr (r, k2))"
    "grows kend root k1 ps k2 ps2" "r = 0 \<or> r = -1 \<and> ps2 = []" "length ps \<le> length ps2 + 2" "r = 0 \<longrightarrow>
      (\<forall>a<MAXVA. leaf (ram k2) root a = mapped TRAMPOLINE 1 tramp (PTE_R OR PTE_X) (leaf (ram k1) root) a)"
    using mappages_spec [OF k1(2) al(1,3,4) b(1) e1, of tramp "PTE_R OR PTE_X"] u(3) by auto
  have r0: "r = 0" "2 < length ps2" using r(3,4) n by auto
  have e2: "leaf (ram k2) root a AND PTE_V = 0" if "unat TRAPFRAME \<le> unat a" "unat a < unat TRAPFRAME + unat PGSIZE" for a
  proof -
    have "a < MAXVA" "unat a < unat TRAMPOLINE" using that u by (simp_all add: word_less_nat_alt MAXVA_unat)
    then show ?thesis using r(5) r0(1) k1(3) by (simp add: mapped_def)
  qed
  have "\<exists>r' k3 ps3. mappages root TRAPFRAME PGSIZE tf (PTE_R OR PTE_W) k2 = Some (Inr (r', k3)) \<and> grows kend root k2 ps2 k3 ps3 \<and>
      (r' = 0 \<or> r' = -1 \<and> ps3 = []) \<and> length ps2 \<le> length ps3 + 2 * (unat PGSIZE div 4096) \<and>
      (\<exists>j\<le>unat PGSIZE div 4096. (r' = 0 \<longrightarrow> j = unat PGSIZE div 4096) \<and>
        (\<forall>a<MAXVA. leaf (ram k3) root a = mapped TRAPFRAME j tf (PTE_R OR PTE_W) (leaf (ram k2) root) a))"
    by (rule mappages_spec [OF grows_inv [OF r(2)] al(2,3,4) b(2)]) (rule e2)
  then obtain r' :: int and k3 and ps3 :: "uint64 list" where r': "mappages root TRAPFRAME PGSIZE tf (PTE_R OR PTE_W) k2 = Some (Inr (r', k3))"
    "r' = 0 \<or> r' = -1 \<and> ps3 = []" "length ps2 \<le> length ps3 + 2 * (unat PGSIZE div 4096)" by blast
  have "r' = 0" using r'(2,3) u(3) r0(2) by auto
  then show ?thesis using root k1(1) r(1) r0(1) r'(1) by (simp add: proc_pagetable_def)
qed

lemma allocproc_ok:
  assumes q: "quiet s" and i: "i < NPROC" "p_state (pr s i) = UNUSED" "\<forall>j<i. p_state (pr s j) \<noteq> UNUSED"
    and fp: "free_pages kend (kram s) (tf # root # ps)" and n: "4 < length ps"
  shows "\<exists>s'. allocproc kend tramp fr c s = Some (Inr (Some i, s'))"
proof -
  have len: "length (procs s) = NPROC" and cpu: "cpu_ok (kcpu s)" and pl: "lock_free (pid_lock s)"
    and free: "\<And>i. i < length (procs s) \<Longrightarrow> lock_free (p_lock (pr s i))" using q by (auto simp: quiet_def)
  have sub: "set [0..<NPROC] \<subseteq> {..<length (procs s)}" using len by auto
  have f: "find (\<lambda>i. p_state (pr s i) = UNUSED) [0..<NPROC] = Some i"
    using i by (auto simp: find_Some_iff intro!: exI [of _ i])
  obtain u where u: "find_unused c [0..<NPROC] s = Some (Inr (Some i, lock_row c i (s\<lparr>kcpu := u\<rparr>)))" "cpu_ok u"
    using find_unused_free [OF sub cpu free, of c] unfolding f by auto
  let ?s1 = "lock_row c i (s\<lparr>kcpu := u\<rparr>)"
  have "lock_free (pid_lock ?s1)" "cpu_ok (kcpu ?s1)"
    using pl push_off_ok [OF u(2)] by (simp_all add: lock_row_def upd_proc_def)
  then obtain v where v: "allocpid c ?s1 = Some (Inr (nextpid ?s1, ?s1\<lparr>kcpu := v, nextpid := nextpid ?s1 + 1\<rparr>))"
    using allocpid_free [of ?s1 c] by auto
  obtain k where k: "kalloc (kram s) = (tf, k)" "free_pages kend k (root # ps)" using kalloc_allocates [OF fp] by blast
  have "tf \<noteq> 0" using fp by (auto simp: free_pages_def valid_page_def)
  moreover obtain k' where "proc_pagetable kend tramp tf k = Some (Inr (root, k'))" "root \<noteq> 0"
    using proc_pagetable_ok [OF k(2) n] by blast
  ultimately show ?thesis using u(1) v k(1) by (simp add: allocproc_def Let_def)
qed

section \<open>Kill\<close>

definition mark_killed :: "proc \<Rightarrow> proc" where
  "mark_killed p = (if p_state p = SLEEPING then p\<lparr>p_killed := 1, p_state := RUNNABLE\<rparr> else p\<lparr>p_killed := 1\<rparr>)"

lemma kill_scan_free:
  assumes "set is \<subseteq> {..<length (procs s)}" "cpu_ok (kcpu s)" "\<And>i. i < length (procs s) \<Longrightarrow> lock_free (p_lock (pr s i))"
  shows "\<exists>u. kill_scan c pid is s = Some (Inr (case find (\<lambda>i. p_pid (pr s i) = pid) is of
      None \<Rightarrow> (-1, s\<lparr>kcpu := u\<rparr>) | Some i \<Rightarrow> (0, upd_proc i mark_killed (s\<lparr>kcpu := u\<rparr>)))) \<and> cpu_ok u \<and> noff u = noff (kcpu s)"
  using assms
proof (induction "is" arbitrary: s)
  case Nil
  then show ?case by (intro exI [of _ "kcpu s"]) simp
next
  case (Cons i "is")
  have i: "i < length (procs s)" "lock_free (p_lock (pr s i))" using Cons.prems by auto
  show ?case
  proof (cases "p_pid (pr s i) = pid")
    case True
    have "kill_scan c pid (i # is) s =
        bind_run (release_proc c i (upd_proc i mark_killed (lock_row c i s))) (\<lambda>s. Some (Inr (0, s)))"
      using True i by (simp add: acquire_proc_free Let_def mark_killed_def upd_proc_def lock_row_def)
    moreover have "mark_killed (p\<lparr>p_lock := l\<rparr>) = (mark_killed p)\<lparr>p_lock := l\<rparr>" for p l by (simp add: mark_killed_def)
    ultimately show ?thesis using release_proc_free [OF i Cons.prems(2), of mark_killed c] True by auto
  next
    case False
    obtain u where u: "release_proc c i (lock_row c i s) = Some (Inr (s\<lparr>kcpu := u\<rparr>))" "cpu_ok u" "noff u = noff (kcpu s)"
      using release_unchanged [OF i Cons.prems(2)] by blast
    obtain v where "kill_scan c pid is (s\<lparr>kcpu := u\<rparr>) = Some (Inr (case find (\<lambda>i. p_pid (pr s i) = pid) is of
      None \<Rightarrow> (-1, s\<lparr>kcpu := v\<rparr>) | Some i \<Rightarrow> (0, upd_proc i mark_killed (s\<lparr>kcpu := v\<rparr>))))" "cpu_ok v" "noff v = noff (kcpu s)"
      using Cons.IH [of "s\<lparr>kcpu := u\<rparr>"] Cons.prems u by (cases "find (\<lambda>i. p_pid (pr s i) = pid) is") auto
    then show ?thesis using False i u(1) by (intro exI [of _ v]) (simp add: acquire_proc_free)
  qed
qed

lemma kill_free:
  assumes "quiet s"
  shows "\<exists>u. kill c pid s = Some (Inr (case find (\<lambda>i. p_pid (pr s i) = pid) [0..<NPROC] of
      None \<Rightarrow> (-1, s\<lparr>kcpu := u\<rparr>) | Some i \<Rightarrow> (0, upd_proc i mark_killed (s\<lparr>kcpu := u\<rparr>)))) \<and> cpu_ok u \<and> noff u = noff (kcpu s)"
proof -
  have "set [0..<NPROC] \<subseteq> {..<length (procs s)}" using assms by (auto simp: quiet_def)
  then show ?thesis unfolding kill_def using kill_scan_free assms unfolding quiet_def by metis
qed

section \<open>Wait\<close>

lemma lock_row_kram: "(lock_row c i s)\<lparr>kram := k\<rparr> = lock_row c i (s\<lparr>kram := k\<rparr>)"
  by (simp add: lock_row_def upd_proc_def)

lemma release_wait_free:
  assumes "wait_lock s = held_by c wl" "lock_free wl" "cpu_ok (kcpu s)" "0 < noff (kcpu s)"
  shows "\<exists>u. release_wait c s = Some (Inr (s\<lparr>wait_lock := wl, kcpu := u\<rparr>)) \<and> cpu_ok u \<and> noff u = noff (kcpu s) - 1"
  using release_free [OF assms(2-4), of c] by (auto simp: release_wait_def assms(1))

lemma reap_free:
  assumes z: "z < length (procs s)" "lock_free (p_lock (pr s z))" and cpu: "cpu_ok (kcpu s)" "0 < noff (kcpu s)"
    and wl: "wait_lock s = held_by c wl" "lock_free wl"
    and child: "p_parent (pr s z) = Some p" "p_state (pr s z) = ZOMBIE"
    and copy: "report_status p addr xout z s = Some (Inr (r, k0))" "0 \<le> r"
    and mem: "free_memory kend (pr s z) k0 = Some (Inr k)"
  shows "\<exists>u. wait_scan kend c p addr xout (z # is) kids s =
      Some (Inr (Inl (p_pid (pr s z)), (upd_proc z clear_proc s)\<lparr>kram := k, wait_lock := wl, kcpu := u\<rparr>)) \<and>
      cpu_ok u \<and> noff u = noff (kcpu s) - 1"
proof -
  have copy': "report_status p addr xout z (lock_row c z s) = Some (Inr (r, k0))"
    using copy(1) z(1) by (auto simp: report_status_def lock_row_def upd_proc_def nth_list_update)
  have mem': "free_memory kend ((pr s z)\<lparr>p_lock := l\<rparr>) k0 = Some (Inr k)" for l
    using mem by (simp add: free_memory_def cong: if_cong)
  have f: "clear_proc (q\<lparr>p_lock := l\<rparr>) = (clear_proc q)\<lparr>p_lock := l\<rparr>" for q l by (simp add: clear_proc_def)
  let ?s = "s\<lparr>kram := k\<rparr>"
  obtain u where u: "release_proc c z (upd_proc z clear_proc (lock_row c z ?s)) = Some (Inr (upd_proc z clear_proc (?s\<lparr>kcpu := u\<rparr>)))"
    "cpu_ok u" "noff u = noff (kcpu s)"
    using release_proc_free [of z ?s clear_proc c] z cpu(1) f by auto
  obtain v where v: "release_wait c (upd_proc z clear_proc (?s\<lparr>kcpu := u\<rparr>)) =
      Some (Inr ((upd_proc z clear_proc (?s\<lparr>kcpu := u\<rparr>))\<lparr>wait_lock := wl, kcpu := v\<rparr>))" "cpu_ok v" "noff v = noff (kcpu s) - 1"
    using release_wait_free [of "upd_proc z clear_proc (?s\<lparr>kcpu := u\<rparr>)" c wl] wl u cpu(2) by auto
  have "wait_scan kend c p addr xout (z # is) kids s = Some (Inr (Inl (p_pid (pr s z)),
      (upd_proc z clear_proc (?s\<lparr>kcpu := u\<rparr>))\<lparr>wait_lock := wl, kcpu := v\<rparr>))"
    using child copy' copy(2) z(1) mem' u(1) v(1)
    by (simp add: acquire_proc_free [OF z(2)] freeproc_def Let_def lock_row_kram)
  moreover have "(upd_proc z clear_proc (?s\<lparr>kcpu := u\<rparr>))\<lparr>wait_lock := wl, kcpu := v\<rparr> =
      (upd_proc z clear_proc s)\<lparr>kram := k, wait_lock := wl, kcpu := v\<rparr>"
    by (simp add: upd_proc_def)
  ultimately show ?thesis using v by metis
qed

lemma wait_skip:
  assumes "set as \<subseteq> {..<length (procs s)}" "cpu_ok (kcpu s)" "\<And>i. i < length (procs s) \<Longrightarrow> lock_free (p_lock (pr s i))"
    "\<And>i. i \<in> set as \<Longrightarrow> p_parent (pr s i) = Some p \<Longrightarrow> p_state (pr s i) \<noteq> ZOMBIE"
  shows "\<exists>u kids'. wait_scan kend c p addr xout (as @ bs) kids s = wait_scan kend c p addr xout bs kids' (s\<lparr>kcpu := u\<rparr>) \<and>
    cpu_ok u \<and> noff u = noff (kcpu s) \<and> kids' = (kids \<or> (\<exists>i\<in>set as. p_parent (pr s i) = Some p))"
  using assms
proof (induction as arbitrary: s kids)
  case Nil
  then show ?case by (intro exI [of _ "kcpu s"]) simp
next
  case (Cons i as)
  have i: "i < length (procs s)" "lock_free (p_lock (pr s i))" using Cons.prems by auto
  show ?case
  proof (cases "p_parent (pr s i) = Some p")
    case True
    obtain u where u: "release_proc c i (lock_row c i s) = Some (Inr (s\<lparr>kcpu := u\<rparr>))" "cpu_ok u" "noff u = noff (kcpu s)"
      using release_unchanged [OF i Cons.prems(2)] by blast
    have "wait_scan kend c p addr xout ((i # as) @ bs) kids s = wait_scan kend c p addr xout (as @ bs) True (s\<lparr>kcpu := u\<rparr>)"
      using True Cons.prems(4) [of i] i u(1) by (simp add: acquire_proc_free)
    then show ?thesis using Cons.IH [of "s\<lparr>kcpu := u\<rparr>" True] Cons.prems u True by auto
  next
    case False
    then show ?thesis using Cons.IH [of s kids] Cons.prems by auto
  qed
qed

lemma wait_free:
  assumes q: "quiet s" and z: "z < NPROC" and child: "p_parent (pr s z) = Some p" "p_state (pr s z) = ZOMBIE"
    and first: "\<And>i. i < z \<Longrightarrow> p_parent (pr s i) = Some p \<Longrightarrow> p_state (pr s i) \<noteq> ZOMBIE"
    and copy: "report_status p addr xout z s = Some (Inr (r, k0))" "0 \<le> r"
    and mem: "free_memory kend (pr s z) k0 = Some (Inr k)"
  shows "\<exists>u. wait kend c p addr xout s = Some (Inr (Some (p_pid (pr s z)), (upd_proc z clear_proc s)\<lparr>kram := k, kcpu := u\<rparr>)) \<and>
    cpu_ok u \<and> noff u = noff (kcpu s)"
proof -
  have len: "length (procs s) = NPROC" and cpu: "cpu_ok (kcpu s)" and wl: "lock_free (wait_lock s)"
    and free: "\<And>i. i < length (procs s) \<Longrightarrow> lock_free (p_lock (pr s i))" using q by (auto simp: quiet_def)
  let ?s = "s\<lparr>wait_lock := held_by c (wait_lock s), kcpu := push_off (kcpu s)\<rparr>"
  have acq: "acquire_wait c s = Some (Inr ?s)" by (simp add: acquire_wait_def acquire_free' [OF wl])
  have push: "cpu_ok (push_off (kcpu s))" "noff (push_off (kcpu s)) = noff (kcpu s) + 1" "0 \<le> noff (kcpu s)"
    using push_off_ok [OF cpu] cpu by (simp_all add: cpu_ok_def)
  have cut: "[0..<NPROC] = [0..<z] @ z # [Suc z..<NPROC]"
    using z upt_add_eq_append [of 0 z "NPROC - z"] by (simp add: upt_conv_Cons)
  have sub: "set [0..<z] \<subseteq> {..<length (procs ?s)}" using z len by auto
  have "\<exists>u kids'. wait_scan kend c p addr xout ([0..<z] @ z # [Suc z..<NPROC]) False ?s =
      wait_scan kend c p addr xout (z # [Suc z..<NPROC]) kids' (?s\<lparr>kcpu := u\<rparr>) \<and>
      cpu_ok u \<and> noff u = noff (kcpu ?s) \<and> kids' = (False \<or> (\<exists>i\<in>set [0..<z]. p_parent (pr ?s i) = Some p))"
    by (rule wait_skip [OF sub]) (use push(1) free first in \<open>simp_all del: wait_scan.simps\<close>)
  then obtain u kids where u: "wait_scan kend c p addr xout ([0..<z] @ z # [Suc z..<NPROC]) False ?s =
      wait_scan kend c p addr xout (z # [Suc z..<NPROC]) kids (?s\<lparr>kcpu := u\<rparr>)" "cpu_ok u" "noff u = noff (kcpu s) + 1"
    using push(2) by (auto simp del: wait_scan.simps)
  have copy': "report_status p addr xout z (?s\<lparr>kcpu := u\<rparr>) = Some (Inr (r, k0))"
    using copy(1) by (simp add: report_status_def cong: if_cong)
  obtain v where v: "wait_scan kend c p addr xout (z # [Suc z..<NPROC]) kids (?s\<lparr>kcpu := u\<rparr>) =
      Some (Inr (Inl (p_pid (pr s z)), (upd_proc z clear_proc (?s\<lparr>kcpu := u\<rparr>))\<lparr>kram := k, wait_lock := wait_lock s, kcpu := v\<rparr>))"
      "cpu_ok v" "noff v = noff (kcpu s)"
    using reap_free [of z "?s\<lparr>kcpu := u\<rparr>" c "wait_lock s" p addr xout r k0 kend k "[Suc z..<NPROC]" kids]
      z len free u(2,3) push(3) wl child copy' copy(2) mem by (auto simp del: wait_scan.simps)
  have "(upd_proc z clear_proc (?s\<lparr>kcpu := u\<rparr>))\<lparr>kram := k, wait_lock := wait_lock s, kcpu := v\<rparr> =
      (upd_proc z clear_proc s)\<lparr>kram := k, kcpu := v\<rparr>" by (simp add: upd_proc_def)
  then have "wait kend c p addr xout s = Some (Inr (Some (p_pid (pr s z)), (upd_proc z clear_proc s)\<lparr>kram := k, kcpu := v\<rparr>))"
    using v(1) u(1) by (simp add: wait_def wait_turn_def acq cut del: wait_scan.simps)
  then show ?thesis using v(2,3) by blast
qed

section \<open>A table for examples\<close>

definition free_slot :: proc where
  "free_slot = \<lparr>p_lock = initlock ''proc'', p_state = UNUSED, p_chan = Null, p_killed = 0, p_xstate = 0, p_pid = 0,
     p_parent = None, p_kstack = 0, p_sz = 0, p_pagetable = 0, p_trapframe = 0,
     p_context = \<lparr>c_ra = 0, c_sp = 0, c_saved = replicate 12 0\<rparr>, p_ofile = replicate NOFILE None, p_cwd = None,
     p_name = replicate 16 0, p_priority = 0, p_total_time = 0, p_idle_time = 0\<rparr>"

text \<open>Init runs, its child 1 is a zombie and its child 2 sleeps in \<open>wait\<close>.\<close>

definition init_and_children :: kernel where
  "init_and_children = \<lparr>procs =
       [free_slot\<lparr>p_state := RUNNING, p_pid := 1\<rparr>, free_slot\<lparr>p_state := ZOMBIE, p_pid := 2, p_parent := Some 0\<rparr>,
        free_slot\<lparr>p_state := SLEEPING, p_chan := Proc_chan 2, p_pid := 3, p_parent := Some 0\<rparr>] @ replicate 61 free_slot,
     nextpid = 4, initproc = Some 0, wait_lock = initlock ''wait_lock'', pid_lock = initlock ''nextpid'',
     kcpu = \<lparr>noff = 0, intena = False, intr = True\<rparr>, kram = \<lparr>ram = (\<lambda>_. 0), freelist = 0\<rparr>, calls = []\<rparr>"

lemma row_cases: "i < 64 \<Longrightarrow> ([a, b, c] @ replicate 61 d) ! i = (if i = 0 then a else if i = 1 then b else if i = 2 then c else d)"
  by (auto simp: nth_append nth_Cons split: nat.splits)

lemma init_and_children_rows:
  assumes "i < NPROC"
  shows "pr init_and_children i = (if i = 0 then free_slot\<lparr>p_state := RUNNING, p_pid := 1\<rparr>
    else if i = 1 then free_slot\<lparr>p_state := ZOMBIE, p_pid := 2, p_parent := Some 0\<rparr>
    else if i = 2 then free_slot\<lparr>p_state := SLEEPING, p_chan := Proc_chan 2, p_pid := 3, p_parent := Some 0\<rparr> else free_slot)"
  using row_cases [of i] assms unfolding init_and_children_def NPROC_def kernel.simps by simp

lemma init_and_children_quiet: "quiet init_and_children"
proof -
  have "lock_free (p_lock (pr init_and_children i))" if "i < NPROC" for i
    using init_and_children_rows [OF that] by (simp add: free_slot_def lock_free_def initlock_def)
  then show ?thesis by (auto simp: quiet_def init_and_children_def NPROC_def lock_free_def initlock_def cpu_ok_def)
qed

lemma init_and_children_inv: "proc_inv init_and_children"
proof -
  have len: "length (procs init_and_children) = NPROC" by (simp add: init_and_children_def NPROC_def)
  have row: "map prow (procs init_and_children) ! i = (if i = 0 then (RUNNING, 1, None) else if i = 1 then (ZOMBIE, 2, Some 0)
      else if i = 2 then (SLEEPING, 3, Some 0) else (UNUSED, 0, None))" if "i < NPROC" for i
    using init_and_children_rows [OF that] that len by (simp add: prow_def free_slot_def)
  have "table_inv (R, 4, Some 0)" if "length R = NPROC" and "\<And>i. i < NPROC \<Longrightarrow> R ! i = (if i = 0 then (RUNNING, 1, None) else if i = 1 then (ZOMBIE, 2, Some 0)
      else if i = 2 then (SLEEPING, 3, Some 0) else (UNUSED, 0, None))" for R
    using that by (simp add: table_inv_def row_ok_def alive_def pid_of_def parent_of_def NPROC_def)
  from this [OF _ row] show ?thesis
    by (simp add: proc_inv_def core_def init_and_children_def NPROC_def)
qed

lemma init_and_children_wait:
  "\<exists>u. wait kend c 0 0 xout init_and_children =
    Some (Inr (Some 2, (upd_proc 1 clear_proc init_and_children)\<lparr>kram := kram init_and_children, kcpu := u\<rparr>))"
proof -
  have r: "pr init_and_children 0 = free_slot\<lparr>p_state := RUNNING, p_pid := 1\<rparr>"
    "pr init_and_children 1 = free_slot\<lparr>p_state := ZOMBIE, p_pid := 2, p_parent := Some 0\<rparr>"
    using init_and_children_rows [of 0] init_and_children_rows [of 1] by (simp_all add: NPROC_def)
  have "free_memory kend (pr init_and_children 1) (kram init_and_children) = Some (Inr (kram init_and_children))"
    unfolding r by (simp add: free_memory_def free_slot_def)
  from wait_free [OF init_and_children_quiet _ _ _ _ _ _ this, of 0 0 xout 0 c]
  show ?thesis unfolding r by (auto simp: r NPROC_def free_slot_def report_status_def)
qed

section \<open>Properties\<close>



text \<open>
  Property C19 (reaping a zombie): \<open>wait\<close> with no lock contended returns the pid of the first zombie child, after
  copying its exit status to the caller if an address is given; it clears exactly that entry, gives its memory back
  and leaves every lock as it was.
\<close>

theorem wait_reaps_first_zombie:
  assumes "quiet s" "z < NPROC" "p_parent (pr s z) = Some p" "p_state (pr s z) = ZOMBIE"
    "\<forall>i<z. p_parent (pr s i) = Some p \<longrightarrow> p_state (pr s i) \<noteq> ZOMBIE"
    "report_status p addr xout z s = Some (Inr (r, k0))" "0 \<le> r" "free_memory kend (pr s z) k0 = Some (Inr k)"
  shows "\<exists>s'. wait kend c p addr xout s = Some (Inr (Some (p_pid (pr s z)), s')) \<and>
    procs s' = (procs s)[z := clear_proc (pr s z)] \<and> kram s' = k \<and> wait_lock s' = wait_lock s \<and> quiet s'"
proof -
  obtain u where u: "wait kend c p addr xout s = Some (Inr (Some (p_pid (pr s z)), (upd_proc z clear_proc s)\<lparr>kram := k, kcpu := u\<rparr>))"
    "cpu_ok u" using wait_free [OF assms(1-4) _ assms(6-8), of c] assms(5) by blast
  have "quiet ((upd_proc z clear_proc s)\<lparr>kram := k, kcpu := u\<rparr>)"
    using assms(1,2) u(2) by (auto simp: quiet_def upd_proc_def clear_proc_def nth_list_update)
  then show ?thesis using u(1) by (simp add: upd_proc_def)
qed

theorem wait_reaps_first_zombie_witness:
  "\<exists>s'. wait 0 3 0 0 (\<lambda>_. 0) init_and_children = Some (Inr (Some 2, s')) \<and> p_state (pr s' 1) = UNUSED \<and> quiet s'"
proof -
  have r: "pr init_and_children 0 = free_slot\<lparr>p_state := RUNNING, p_pid := 1\<rparr>"
    "pr init_and_children 1 = free_slot\<lparr>p_state := ZOMBIE, p_pid := 2, p_parent := Some 0\<rparr>"
    using init_and_children_rows [of 0] init_and_children_rows [of 1] by (simp_all add: NPROC_def)
  have mem: "free_memory 0 (pr init_and_children 1) (kram init_and_children) = Some (Inr (kram init_and_children))"
    unfolding r by (simp add: free_memory_def free_slot_def)
  have "\<exists>s'. wait 0 3 0 0 (\<lambda>_. 0) init_and_children = Some (Inr (Some (p_pid (pr init_and_children 1)), s')) \<and>
    procs s' = (procs init_and_children)[1 := clear_proc (pr init_and_children 1)] \<and> kram s' = kram init_and_children \<and>
    wait_lock s' = wait_lock init_and_children \<and> quiet s'"
    by (rule wait_reaps_first_zombie [OF init_and_children_quiet _ _ _ _ _ _ mem, where r = 0])
      (simp_all add: r NPROC_def free_slot_def report_status_def flip: One_nat_def)
  moreover have "length (procs init_and_children) = 64" by (simp add: init_and_children_def)
  ultimately show ?thesis unfolding r by (auto simp: clear_proc_def)
qed

text \<open>
  Also proved (waking): \<open>wakeup\<close> with no table lock contended returns; it makes runnable exactly the processes that
  sleep on the channel, the caller excepted, and changes nothing else in the table.
\<close>

theorem wakeup_wakes_exactly:
  assumes "quiet s"
  shows "\<exists>s'. wakeup c me ch s = Some (Inr s') \<and> quiet s' \<and>
    (\<forall>i<NPROC. pr s' i = (if me \<noteq> Some i \<and> p_state (pr s i) = SLEEPING \<and> p_chan (pr s i) = ch
       then (pr s i)\<lparr>p_state := RUNNABLE\<rparr> else pr s i))"
proof -
  have len: "length (procs s) = NPROC" and cpu: "cpu_ok (kcpu s)" and free: "\<And>i. i < NPROC \<Longrightarrow> lock_free (p_lock (pr s i))"
    using assms by (auto simp: quiet_def)
  obtain u where u: "wakeup c me ch s = Some (Inr (s\<lparr>procs := wake_all me ch {..<NPROC} (procs s), kcpu := u\<rparr>))" "cpu_ok u"
    using wakeup_free [OF len cpu free, of me c ch] by blast
  have row: "wake_all me ch {..<NPROC} (procs s) ! i = (if me \<noteq> Some i \<and> p_state (pr s i) = SLEEPING \<and> p_chan (pr s i) = ch
       then (pr s i)\<lparr>p_state := RUNNABLE\<rparr> else pr s i)" if "i < NPROC" for i
    using that len by (simp add: wake_all_def wake_def)
  have "length (wake_all me ch {..<NPROC} (procs s)) = NPROC" by (simp add: wake_all_def len)
  then have "quiet (s\<lparr>procs := wake_all me ch {..<NPROC} (procs s), kcpu := u\<rparr>)"
    using assms u(2) row by (simp add: quiet_def)
  then show ?thesis using u(1) row by simp
qed

theorem wakeup_wakes_exactly_witness:
  "\<exists>s'. wakeup 0 (Some 0) (Proc_chan 2) init_and_children = Some (Inr s') \<and> p_state (pr init_and_children 2) = SLEEPING \<and>
    p_state (pr s' 2) = RUNNABLE \<and> p_state (pr s' 0) = RUNNING \<and> quiet s'"
proof -
  have "p_state (pr init_and_children 2) = SLEEPING \<and> p_chan (pr init_and_children 2) = Proc_chan 2"
    "p_state (pr init_and_children 0) = RUNNING"
    using init_and_children_rows [of 2] init_and_children_rows [of 0] by (simp_all add: NPROC_def)
  moreover have "0 < NPROC" "2 < NPROC" by (simp_all add: NPROC_def)
  ultimately show ?thesis
    using wakeup_wakes_exactly [OF init_and_children_quiet, of 0 "Some 0" "Proc_chan 2"] by fastforce
qed

text \<open>
  Property C20 (killing): \<open>kill\<close> finds the process with the given pid, sets its flag and wakes it if it sleeps,
  and fails with -1 if there is none. But pid 0 also succeeds: it marks the first free entry, whose pid is 0, and
  since \<open>allocproc\<close> does not clear the flag, the next process that is created gets that entry and is born killed.
\<close>

theorem kill_marks_and_zero_dooms_next:
  assumes "quiet s" "proc_inv s"
  shows "(\<forall>i<NPROC. p_state (pr s i) \<noteq> UNUSED \<longrightarrow>
      (\<exists>u. kill c (p_pid (pr s i)) s = Some (Inr (0, upd_proc i mark_killed (s\<lparr>kcpu := u\<rparr>))))) \<and>
    (\<forall>i<NPROC. p_state (pr s i) = UNUSED \<and> (\<forall>j<i. p_state (pr s j) \<noteq> UNUSED) \<longrightarrow>
      (\<exists>s1. kill c 0 s = Some (Inr (0, s1)) \<and> p_state (pr s1 i) = UNUSED \<and>
        (\<forall>np s2. allocproc kend tramp fr c s1 = Some (Inr (Some np, s2)) \<longrightarrow> np = i \<and> p_killed (pr s2 np) = 1)))"
proof -
  have len: "length (procs s) = NPROC" using assms(1) by (simp add: quiet_def)
  have ti: "table_inv (map prow (procs s), nextpid s, initproc s)" using assms(2) by (simp add: proc_inv_def core_def)
  have zero: "p_pid (pr s i) = 0 \<longleftrightarrow> p_state (pr s i) = UNUSED" if "i < NPROC" for i
    using table_invD(3) [OF ti that] that len by (auto simp: row_ok_def prow_def pid_of_def split: if_splits)
  have uniq: "i = j" if "i < NPROC" "j < NPROC" "p_state (pr s i) \<noteq> UNUSED" "p_pid (pr s i) = p_pid (pr s j)" for i j
  proof -
    have "p_state (pr s j) \<noteq> UNUSED" using that zero by metis
    then show ?thesis using ti that len unfolding table_inv_def by (auto simp: prow_def pid_of_def)
  qed
  have find: "find (\<lambda>j. p_pid (pr s j) = pid) [0..<NPROC] = Some i"
    if "i < NPROC" "p_pid (pr s i) = pid" "\<forall>j<i. p_pid (pr s j) \<noteq> pid" for i pid
    using that by (auto simp: find_Some_iff intro!: exI [of _ i])
  show ?thesis
  proof (intro conjI allI impI)
    fix i assume i: "i < NPROC" "p_state (pr s i) \<noteq> UNUSED"
    have "\<forall>j<i. p_pid (pr s j) \<noteq> p_pid (pr s i)" using uniq [OF i(1) _ i(2)] i(1) by (metis order.strict_trans less_irrefl)
    then show "\<exists>u. kill c (p_pid (pr s i)) s = Some (Inr (0, upd_proc i mark_killed (s\<lparr>kcpu := u\<rparr>)))"
      using kill_free [OF assms(1), of c "p_pid (pr s i)"] find [OF i(1) refl] by auto
  next
    fix i assume i: "i < NPROC" and f: "p_state (pr s i) = UNUSED \<and> (\<forall>j<i. p_state (pr s j) \<noteq> UNUSED)"
    have "find (\<lambda>j. p_pid (pr s j) = 0) [0..<NPROC] = Some i"
      by (rule find [OF i]) (use f zero i in auto)
    then obtain u where u: "kill c 0 s = Some (Inr (0, upd_proc i mark_killed (s\<lparr>kcpu := u\<rparr>)))" "cpu_ok u"
      using kill_free [OF assms(1), of c 0] by auto
    let ?s = "upd_proc i mark_killed (s\<lparr>kcpu := u\<rparr>)"
    have rows: "pr ?s j = (if j = i then (pr s i)\<lparr>p_killed := 1\<rparr> else pr s j)" for j
      using i len f by (simp add: mark_killed_def)
    have q: "quiet ?s"
      using assms(1) u(2) rows len unfolding quiet_def by (simp add: upd_proc_def)
    have "np = i \<and> p_killed (pr s2 np) = 1" if a: "allocproc kend tramp fr c ?s = Some (Inr (Some np, s2))" for np s2
    proof -
      note sh = allocproc_shape [OF q a]
      have "\<not> np < i" using sh f rows by auto
      moreover have "\<not> i < np" using sh f rows by auto
      ultimately have np: "np = i" by simp
      have "p_killed (pr s2 i) = p_killed (pr ?s i)" using sh i len unfolding np by (auto simp: upd_proc_def)
      then show ?thesis using np rows by simp
    qed
    then show "\<exists>s1. kill c 0 s = Some (Inr (0, s1)) \<and> p_state (pr s1 i) = UNUSED \<and>
        (\<forall>np s2. allocproc kend tramp fr c s1 = Some (Inr (Some np, s2)) \<longrightarrow> np = i \<and> p_killed (pr s2 np) = 1)"
      using u(1) rows [of i] f by auto
  qed
qed

theorem kill_marks_and_zero_dooms_next_witness:
  "\<exists>s1. kill 0 0 init_and_children = Some (Inr (0, s1)) \<and> p_state (pr s1 3) = UNUSED \<and>
    (\<exists>u. kill 0 3 init_and_children = Some (Inr (0, upd_proc 2 mark_killed (init_and_children\<lparr>kcpu := u\<rparr>))))"
proof -
  have r: "p_state (pr init_and_children 3) = UNUSED" "\<forall>j<3. p_state (pr init_and_children j) \<noteq> UNUSED"
    "p_state (pr init_and_children 2) \<noteq> UNUSED" "p_pid (pr init_and_children 2) = 3"
    using init_and_children_rows by (auto simp: NPROC_def free_slot_def)
  have n: "2 < NPROC" "3 < NPROC" by (simp_all add: NPROC_def)
  note k = kill_marks_and_zero_dooms_next [OF init_and_children_quiet init_and_children_inv, of 0 0 0 0]
  show ?thesis using k [THEN conjunct1, rule_format, OF n(1) r(3)] k [THEN conjunct2, rule_format, OF n(2)] r by auto
qed

text \<open>
  Property C21 (\<open>sfork\<close>): the call gives the child the caller's page table and returns its pid while the child's
  lock is still held. So the next wake-up by the caller runs into the lock and panics, and any other CPU that
  comes to the entry, as its scheduler does, spins for ever.
\<close>

theorem sfork_leaves_child_locked:
  assumes "quiet s" "p < NPROC" "p_state (pr s p) = RUNNING" "0 < nextpid s"
    "sfork kend tramp fr c p s = Some (Inr (pid, s'))" "pid \<noteq> -1"
  shows "\<exists>np<NPROC. pid = nextpid s \<and> p_pid (pr s' np) = pid \<and> p_state (pr s' np) = RUNNABLE \<and>
    p_pagetable (pr s' np) = p_pagetable (pr s' p) \<and> holding c (p_lock (pr s' np)) \<and>
    (\<forall>ch. wakeup c (Some p) ch s' = Some (Inl (Panic ''acquire''))) \<and>
    (\<forall>d. d \<noteq> c \<longrightarrow> acquire_proc d np s' = None)"
proof -
  obtain np t where a: "allocproc kend tramp fr c s = Some (Inr (Some np, t))"
    using assms(5,6) unfolding sfork_def by (auto elim!: bind_run_InrE split: option.splits)
  note sh = allocproc_shape [OF assms(1) a]
  have len: "length (procs s) = NPROC" and np: "np < NPROC" "np \<noteq> p" using assms(1,3) sh by (auto simp: quiet_def)
  from sh obtain tf pt ctx u k where u: "cpu_ok u" and t: "t = (upd_proc np (\<lambda>p. p\<lparr>p_lock := held_by c (p_lock p), p_pid := nextpid s,
      p_state := USED, p_trapframe := tf, p_pagetable := pt, p_context := ctx\<rparr>) s)\<lparr>kcpu := u, kram := k, nextpid := nextpid s + 1\<rparr>" by blast
  have s': "s' = upd_proc np (\<lambda>q. q\<lparr>p_sz := p_sz (pr t p), p_pagetable := p_pagetable (pr t p), p_parent := Some p,
      p_state := RUNNABLE, p_context := p_context (pr t p)\<rparr>) t" and pid: "pid = p_pid (pr s' np)"
    using assms(5) a by (auto simp: sfork_def Let_def)
  have lt: "length (procs t) = NPROC" using t len by simp
  have child: "p_lock (pr s' np) = held_by c (p_lock (pr s np))" "p_pid (pr s' np) = nextpid s" "p_state (pr s' np) = RUNNABLE"
    "p_pagetable (pr s' np) = p_pagetable (pr s' p)"
    using np len lt by (simp_all add: s') (simp_all add: t upd_proc_def)
  have other: "pr s' i = pr s i" if "i \<noteq> np" for i
    using that np len lt by (simp add: s') (simp add: t upd_proc_def)
  have len': "length (procs s') = NPROC" and cpu': "cpu_ok (kcpu s')" using lt u by (simp_all add: s') (simp add: t)
  have busy: "wakeup c (Some p) ch s' = Some (Inl (Panic ''acquire''))" for ch
  proof -
    have cut: "[0..<NPROC] = [0..<np] @ np # [Suc np..<NPROC]"
      using np(1) upt_add_eq_append [of 0 np "NPROC - np"] by (simp add: upt_conv_Cons)
    have sub: "{0..<np} \<subseteq> {..<NPROC}" using np(1) by auto
    have "lock_free (p_lock (pr s' i))" if "i \<in> set [0..<np]" for i
      using that other [of i] np(1) assms(1) by (auto simp: quiet_def)
    then obtain v where v: "run_for (wake_one c (Some p) ch) [0..<np] s' =
        Some (Inr (s'\<lparr>procs := wake_all (Some p) ch {0..<np} (procs s'), kcpu := v\<rparr>))"
      using wake_run [of "[0..<np]" s' "{}" "Some p" c ch] np(1) len' cpu' sub by (auto simp: wake_all_empty)
    let ?w = "s'\<lparr>procs := wake_all (Some p) ch {0..<np} (procs s'), kcpu := v\<rparr>"
    have "pr ?w np = pr s' np" using np(1) len' by (simp add: wake_all_def)
    then have "holding c (p_lock (pr ?w np))" using child(1) by simp
    then have "wake_one c (Some p) ch np ?w = Some (Inl (Panic ''acquire''))"
      using np(2) by (simp add: wake_one_def acquire_proc_def acquire_again)
    then show ?thesis using v by (simp add: wakeup_def cut run_for_append)
  qed
  have "acquire_proc d np s' = None" if "d \<noteq> c" for d
    using that acquire_busy [of "held_by c (p_lock (pr s np))" d] by (simp add: acquire_proc_def child(1) held_by_def)
  then show ?thesis using np(1) child pid busy by auto
qed

theorem sfork_leaves_child_locked_witness:
  "\<exists>s pid s'. quiet s \<and> sfork 0x80021d50 0x80007000 0x80001000 0 0 s = Some (Inr (pid, s')) \<and> pid = 4 \<and>
    wakeup 0 (Some 0) Null s' = Some (Inl (Panic ''acquire''))"
proof -
  obtain k root ps where k: "vm_inv 0x80021d50 k root ps" "length ps = 32733" using booted_table by blast
  then obtain tf r qs where fp: "free_pages 0x80021d50 k (tf # r # qs)" and n: "4 < length qs"
    by (cases ps; cases "tl ps") (auto simp: vm_inv_def)
  let ?s = "init_and_children\<lparr>kram := k\<rparr>"
  have q: "quiet ?s" using init_and_children_quiet by (simp add: quiet_def)
  have r: "p_state (pr ?s 3) = UNUSED" "\<forall>j<3. p_state (pr ?s j) \<noteq> UNUSED" "p_state (pr ?s 0) = RUNNING"
    using init_and_children_rows by (auto simp: NPROC_def free_slot_def)
  have pid: "nextpid ?s = 4" by (simp add: init_and_children_def)
  have n3: "3 < NPROC" by (simp add: NPROC_def)
  have fp': "free_pages 0x80021d50 (kram ?s) (tf # r # qs)" using fp by simp
  obtain t where t: "allocproc 0x80021d50 0x80007000 0x80001000 0 ?s = Some (Inr (Some 3, t))"
    using allocproc_ok [OF q n3 r(1,2) fp' n] by blast
  then obtain p s' where s: "sfork 0x80021d50 0x80007000 0x80001000 0 0 ?s = Some (Inr (p, s'))"
    by (simp add: sfork_def Let_def)
  have "p = 4" using sfork_core [OF s] allocproc_shape [OF q t] s t pid q
    by (auto simp: sfork_def Let_def quiet_def upd_proc_def)
  moreover from sfork_leaves_child_locked [OF q _ r(3) _ s] pid this
  have "wakeup 0 (Some 0) Null s' = Some (Inl (Panic ''acquire''))" by (auto simp: NPROC_def)
  ultimately show ?thesis using q s by blast
qed

end
