(* ===== verification/Uvm.thy ===== *)
theory Uvm
  imports Vm
begin

text \<open>
  User memory seen through a page table: what \<open>copyout\<close>, \<open>copyin\<close> and \<open>copyinstr\<close> of
  \<open>kernel/vm.c\<close> do to the bytes at user addresses.
\<close>

section \<open>User addresses\<close>

definition user_page :: "mem \<Rightarrow> uint64 \<Rightarrow> uint64 \<Rightarrow> bool" where
  "user_page m root va \<longleftrightarrow> va < MAXVA \<and> leaf m root va AND PTE_V \<noteq> 0 \<and> leaf m root va AND PTE_U \<noteq> 0"

definition writable :: "mem \<Rightarrow> uint64 \<Rightarrow> uint64 \<Rightarrow> bool" where
  "writable m root va \<longleftrightarrow> user_page m root va \<and> leaf m root va AND PTE_W \<noteq> 0"

definition uaddr :: "mem \<Rightarrow> uint64 \<Rightarrow> uint64 \<Rightarrow> uint64" where
  "uaddr m root va = PTE2PA (leaf m root va) + (va - PGROUNDDOWN va)"

text \<open>The byte a user program reads at an address; \<open>None\<close> where it faults.\<close>

definition umem :: "mem \<Rightarrow> uint64 \<Rightarrow> uint64 \<Rightarrow> uchar option" where
  "umem m root va = (if user_page m root va then Some (m (uaddr m root va)) else None)"

text \<open>
  Different user pages lie in different physical pages, which are pages of RAM and neither
  free nor part of the table.
\<close>

definition user_inv :: "uint64 \<Rightarrow> mem \<Rightarrow> uint64 \<Rightarrow> uint64 list \<Rightarrow> bool" where
  "user_inv kend m root ps \<longleftrightarrow>
     (\<forall>va. user_page m root va \<longrightarrow> valid_page kend (PTE2PA (leaf m root va)) \<and>
        PTE2PA (leaf m root va) \<notin> tables m root \<and> PTE2PA (leaf m root va) \<notin> set ps) \<and>
     (\<forall>va va'. user_page m root va \<longrightarrow> user_page m root va' \<longrightarrow> PTE2PA (leaf m root va) = PTE2PA (leaf m root va') \<longrightarrow>
        PGROUNDDOWN va = PGROUNDDOWN va')"

lemma of_nat_unat_id: "of_nat (unat (a :: uint64)) = a"
  by simp

lemma offset_diff:
  fixes P :: uint64
  assumes "p < 2 ^ 64" "q < 2 ^ 64"
  shows "unat (P + of_nat p - (P + of_nat q)) = (if q \<le> p then p - q else p + 2 ^ 64 - q)"
proof -
  have "unat (of_nat p :: uint64) = p" "unat (of_nat q :: uint64) = q" using assms by (simp_all add: unat_of_nat_less)
  then show ?thesis by (simp add: unat_sub_if')
qed

lemma page_off: "va - PGROUNDDOWN va = of_nat (unat va mod 4096)" "PGROUNDDOWN va + of_nat (unat va mod 4096) = va"
proof -
  have "PGROUNDDOWN va = of_nat (unat va div 4096 * 4096)" by (metis PGROUNDDOWN_unat of_nat_unat_id)
  then have "PGROUNDDOWN va + of_nat (unat va mod 4096) = of_nat (unat va div 4096 * 4096 + unat va mod 4096)"
    by (simp only: of_nat_add)
  also have "\<dots> = of_nat (unat va)" by (simp only: div_mult_mod_eq)
  finally show e: "PGROUNDDOWN va + of_nat (unat va mod 4096) = va" by simp
  show "va - PGROUNDDOWN va = of_nat (unat va mod 4096)" by (subst (1) e [symmetric]) simp
qed

lemma MAXVA_round: "PGROUNDDOWN va < MAXVA \<longleftrightarrow> va < MAXVA"
proof -
  have "unat va div 4096 * 4096 < 2 ^ 38 \<longleftrightarrow> unat va < 2 ^ 38"
  proof
    assume "unat va div 4096 * 4096 < 2 ^ 38"
    then have "unat va div 4096 * 4096 + unat va mod 4096 < 2 ^ 38" using aligned_room [of "unat va div 4096 * 4096" 4096 "2 ^ 26" "unat va mod 4096"] by simp
    then show "unat va < 2 ^ 38" by (simp only: div_mult_mod_eq)
  qed (use div_times_less_eq_dividend [of "unat va" 4096] in linarith)
  then show ?thesis by (simp add: word_less_nat_alt MAXVA_unat PGROUNDDOWN_unat)
qed

lemma leaf_round: "va < MAXVA \<Longrightarrow> leaf m root (PGROUNDDOWN va) = leaf m root va"
proof -
  assume va: "va < MAXVA"
  have "PGROUNDDOWN (PGROUNDDOWN va) = PGROUNDDOWN va" by (rule aligned_round [OF aligned_PGROUNDDOWN])
  then have "PX 2 (PGROUNDDOWN va) = PX 2 va \<and> PX 1 (PGROUNDDOWN va) = PX 1 va \<and> PX 0 (PGROUNDDOWN va) = PX 0 va"
    using PX_page [of "PGROUNDDOWN va" va] va by (simp add: MAXVA_round)
  then show ?thesis by (simp only: leaf_def)
qed

lemma chunk_unat:
  assumes "len > 0"
  shows "unat (chunk va (PGROUNDDOWN va) len) = min (4096 - unat va mod 4096) (unat len)"
proof -
  let ?o = "unat va mod 4096"
  have o: "?o < 4096" by simp
  have "PGSIZE - of_nat ?o = (of_nat (4096 - ?o) :: uint64)" using o by (simp add: PGSIZE_def)
  then have "unat (PGSIZE - (va - PGROUNDDOWN va)) = 4096 - ?o"
    unfolding page_off by (simp add: unat_of_nat_less del: of_nat_diff)
  then show ?thesis by (auto simp: chunk_def Let_def word_less_nat_alt)
qed

section \<open>Writing part of one page\<close>

lemma page_write:
  assumes inv: "vm_inv kend k root ps" and u: "user_inv kend (ram k) root ps" and w: "user_page (ram k) root va"
    and n: "unat va mod 4096 + n \<le> 4096"
    and m': "\<And>x. m' x = (if unat (x - uaddr (ram k) root va) < n then f (unat (x - uaddr (ram k) root va)) else ram k x)"
  shows "vm_inv kend (k\<lparr>ram := m'\<rparr>) root ps" "user_inv kend m' root ps" "leaf m' root = leaf (ram k) root"
    "umem m' root v = (if user_page (ram k) root v \<and> unat va \<le> unat v \<and> unat v < unat va + n then Some (f (unat v - unat va))
       else umem (ram k) root v)"
    "\<And>x. \<not> unat (x - PTE2PA (leaf (ram k) root va)) < 4096 \<Longrightarrow> m' x = ram k x"
proof -
  let ?m = "ram k" and ?P = "PTE2PA (leaf (ram k) root va)"
  let ?o = "unat va mod 4096"
  have P: "valid_page kend ?P" "?P \<notin> tables ?m root" "?P \<notin> set ps" using u w by (auto simp: user_inv_def)
  have Pa: "page_aligned ?P" using P(1) by (simp add: valid_page_def)
  have ua: "uaddr ?m root va = ?P + of_nat ?o" by (simp add: uaddr_def page_off)
  have pi: "pt_inv kend ?m root" and fp: "free_pages kend k ps" and dj: "set ps \<inter> tables ?m root = {}"
    using inv by (auto simp: vm_inv_def)
  show out: "m' x = ?m x" if "\<not> unat (x - ?P) < 4096" for x
  proof -
    have "\<not> unat (x - uaddr ?m root va) < n"
    proof
      assume a: "unat (x - uaddr ?m root va) < n"
      have "x = uaddr ?m root va + of_nat (unat (x - uaddr ?m root va))" by simp
      also have "\<dots> = ?P + of_nat (?o + unat (x - uaddr ?m root va))" by (simp only: ua of_nat_add add.assoc)
      finally have x: "x = ?P + of_nat (?o + unat (x - uaddr ?m root va))" .
      have l: "?o + unat (x - uaddr ?m root va) < 4096" using a n by simp
      then have "unat (?P + of_nat (?o + unat (x - uaddr ?m root va)) - ?P) < 4096"
        by (subst offset_add) simp_all
      then have "unat (x - ?P) < 4096" unfolding x [symmetric] .
      then show False using that by simp
    qed
    then show ?thesis by (simp add: m')
  qed
  have same: "m' x = ?m x" if "q \<in> tables ?m root" "unat (x - q) < 4096" for q x
  proof (rule out)
    have "q \<noteq> ?P" using P(2) that(1) by blast
    from pages_disjoint [OF pt_invD(2) [OF pi that(1)] Pa this that(2)] show "\<not> unat (x - ?P) < 4096" .
  qed
  have t: "tables m' root = tables ?m root" "\<And>va. leaf m' root va = leaf ?m root va" "pt_inv kend m' root"
    by (rule tables_frame [OF pi], erule (1) same)+
  show l: "leaf m' root = leaf ?m root" using t(2) by (simp add: fun_eq_iff)
  have up: "user_page m' root = user_page ?m root" by (simp add: user_page_def l fun_eq_iff)
  show "user_inv kend m' root ps" using u unfolding user_inv_def up l t(1) .
  have "chain m' (freelist k) ps"
    by (rule chain_other_page [of ?m _ _ ?P]) (use fp P(3) Pa out in \<open>auto simp: free_pages_def valid_page_def\<close>)
  then show "vm_inv kend (k\<lparr>ram := m'\<rparr>) root ps" using fp t dj by (simp add: vm_inv_def free_pages_def)
  show "umem m' root v = (if user_page ?m root v \<and> unat va \<le> unat v \<and> unat v < unat va + n then Some (f (unat v - unat va))
       else umem ?m root v)"
  proof (cases "user_page ?m root v")
    case True
    let ?Q = "PTE2PA (leaf ?m root v)" and ?p = "unat v mod 4096"
    have Q: "valid_page kend ?Q" using u True by (simp add: user_inv_def)
    have uv: "uaddr m' root v = ?Q + of_nat ?p" "uaddr ?m root v = ?Q + of_nat ?p" by (simp_all add: uaddr_def page_off l)
    have in_Q: "unat (?Q + of_nat ?p - ?Q) < 4096" using offset_add [of ?p ?Q] by simp
    show ?thesis
    proof (cases "PGROUNDDOWN v = PGROUNDDOWN va")
      case False
      then have "?Q \<noteq> ?P" using u True w unfolding user_inv_def by blast
      then have "m' (?Q + of_nat ?p) = ?m (?Q + of_nat ?p)"
        using out pages_disjoint [OF _ Pa _ in_Q] Q by (simp add: valid_page_def)
      moreover have "\<not> (unat va \<le> unat v \<and> unat v < unat va + n)"
      proof
        assume a: "unat va \<le> unat v \<and> unat v < unat va + n"
        have "unat va = 4096 * (unat va div 4096) + ?o" by simp
        then have "4096 * (unat va div 4096) \<le> unat v" "unat v < 4096 * (unat va div 4096) + 4096" using a n by linarith+
        then have "unat v div 4096 = unat va div 4096" by (simp add: div_nat_eqI)
        then show False using False by (simp add: word_unat_eq_iff PGROUNDDOWN_unat)
      qed
      ultimately show ?thesis using True by (auto simp: umem_def up uv)
    next
      case page: True
      have d: "unat v div 4096 = unat va div 4096" using page by (simp add: word_unat_eq_iff PGROUNDDOWN_unat)
      then have v: "unat v = unat va - ?o + ?p" "?o \<le> unat va" by (metis div_mult_mod_eq add_diff_cancel_right' mult.commute, simp)
      have "va < MAXVA" "v < MAXVA" using w True by (simp_all add: user_page_def)
      then have QP: "?Q = ?P" using leaf_round [of v ?m root] leaf_round [of va ?m root] page by metis
      have od: "unat (?Q + of_nat ?p - uaddr ?m root va) = (if ?o \<le> ?p then ?p - ?o else ?p + 2 ^ 64 - ?o)"
        unfolding QP ua by (rule offset_diff; rule less_trans [of _ 4096]; simp)
      have "?o < 4096" "?p < 4096" "(8192 :: nat) \<le> 2 ^ 64" by simp_all
      then have "unat (?Q + of_nat ?p - uaddr ?m root va) < n \<longleftrightarrow> ?o \<le> ?p \<and> ?p < ?o + n"
        unfolding od using n by (cases "?o \<le> ?p") (simp_all only: if_True if_False simp_thms, linarith+)
      then have "unat (?Q + of_nat ?p - uaddr ?m root va) < n \<longleftrightarrow> unat va \<le> unat v \<and> unat v < unat va + n"
        using v by linarith
      moreover have "unat (?Q + of_nat ?p - uaddr ?m root va) = unat v - unat va" if "unat va \<le> unat v"
      proof -
        have "?o \<le> ?p" using that v by linarith
        then show ?thesis using v unfolding od by (simp only: if_True) linarith
      qed
      ultimately show ?thesis using True by (simp add: umem_def up uv m')
    qed
  qed (simp add: umem_def up)
qed

lemma same_page_access:
  assumes "unat va mod 4096 + i < 4096" "unat va < 2 ^ 38"
  shows "user_page m root (va + of_nat i) = user_page m root va" "writable m root (va + of_nat i) = writable m root va"
proof -
  have u: "unat (va + of_nat i) = unat va + i" using assms by (intro unat_add_of_nat) simp
  have "unat va = 4096 * (unat va div 4096) + unat va mod 4096" by simp
  then have "4096 * (unat va div 4096) \<le> unat va + i" "unat va + i < 4096 * (unat va div 4096) + 4096"
    using assms(1) by linarith+
  then have "(unat va + i) div 4096 = unat va div 4096" by (simp add: div_nat_eqI)
  then have p: "PGROUNDDOWN (va + of_nat i) = PGROUNDDOWN va" by (simp add: word_unat_eq_iff PGROUNDDOWN_unat u)
  then have m: "va + of_nat i < MAXVA \<longleftrightarrow> va < MAXVA" using MAXVA_round [of va] MAXVA_round [of "va + of_nat i"] by simp
  have l: "leaf m root (va + of_nat i) = leaf m root va" if "va < MAXVA"
    using leaf_round [of va m root] leaf_round [of "va + of_nat i" m root] p that m by simp
  show "user_page m root (va + of_nat i) = user_page m root va" "writable m root (va + of_nat i) = writable m root va"
    using l m by (auto simp: user_page_def writable_def)
qed

lemma uaddr_add:
  assumes "unat va mod 4096 + i < 4096" "unat va < 2 ^ 38" "va < MAXVA"
  shows "uaddr m root (va + of_nat i) = uaddr m root va + of_nat i"
proof -
  have u: "unat (va + of_nat i) = unat va + i" using assms by (intro unat_add_of_nat) simp
  have "unat va = 4096 * (unat va div 4096) + unat va mod 4096" by simp
  then have "4096 * (unat va div 4096) \<le> unat va + i" "unat va + i < 4096 * (unat va div 4096) + 4096"
    using assms(1) by linarith+
  then have d: "(unat va + i) div 4096 = unat va div 4096" by (simp add: div_nat_eqI)
  then have p: "PGROUNDDOWN (va + of_nat i) = PGROUNDDOWN va" by (simp add: word_unat_eq_iff PGROUNDDOWN_unat u)
  then have "leaf m root (va + of_nat i) = leaf m root va"
    using leaf_round [of va m root] leaf_round [of "va + of_nat i" m root] assms(3) MAXVA_round [of va] MAXVA_round [of "va + of_nat i"] by simp
  then show ?thesis unfolding uaddr_def p by simp
qed

text \<open>The next page of a copy starts where the first part ended, unless nothing is left.\<close>

lemma next_page:
  assumes "unat va < 2 ^ 38"
  shows "unat (PGROUNDDOWN va + PGSIZE) = unat va + (4096 - unat va mod 4096)"
    "PGROUNDDOWN va + PGSIZE = va + of_nat (4096 - unat va mod 4096)"
proof -
  have d: "unat va div 4096 * 4096 + unat va mod 4096 = unat va" by simp
  have m: "unat va mod 4096 < 4096" by simp
  have "unat (PGROUNDDOWN va) + 4096 < 2 ^ 64" using assms unfolding PGROUNDDOWN_unat by simp
  from add_page(1) [OF this] have e: "unat (PGROUNDDOWN va + PGSIZE) = unat va div 4096 * 4096 + 4096" by (simp add: PGROUNDDOWN_unat)
  then show u: "unat (PGROUNDDOWN va + PGSIZE) = unat va + (4096 - unat va mod 4096)" using d m by linarith
  have "unat (va + of_nat (4096 - unat va mod 4096)) = unat va + (4096 - unat va mod 4096)"
    using assms by (intro unat_add_of_nat) simp
  then show "PGROUNDDOWN va + PGSIZE = va + of_nat (4096 - unat va mod 4096)" using u by (simp only: word_unat_eq_iff)
qed

section \<open>Copying out\<close>

text \<open>A kernel region that no user page overlaps.\<close>

definition kernel_region :: "mem \<Rightarrow> uint64 \<Rightarrow> uint64 \<Rightarrow> nat \<Rightarrow> bool" where
  "kernel_region m root a n \<longleftrightarrow> unat a + n < 2 ^ 64 \<and>
     (\<forall>i<n. \<forall>va. user_page m root va \<longrightarrow> \<not> unat (a + of_nat i - PTE2PA (leaf m root va)) < 4096)"

lemma kernel_region_tail: "kernel_region m root a n \<Longrightarrow> i \<le> n \<Longrightarrow> kernel_region m root (a + of_nat i) (n - i)"
proof -
  assume k: "kernel_region m root a n" and i: "i \<le> n"
  have u: "unat (a + of_nat i) = unat a + i" using k i by (intro unat_add_of_nat) (simp add: kernel_region_def)
  have "\<not> unat (a + of_nat i + of_nat j - PTE2PA (leaf m root va)) < 4096" if "j < n - i" "user_page m root va" for j va
    using k that by (auto simp: kernel_region_def add.assoc simp flip: of_nat_add)
  then show ?thesis using k i u by (simp add: kernel_region_def)
qed

lemma memmove_page:
  assumes "valid_page kend P" "page_aligned P" "p + n \<le> 4096" "unat src + n < 2 ^ 64" "unat (c :: uint64) = n"
  shows "memmove m (P + of_nat p) src (ucast c) x =
    (if unat (x - (P + of_nat p)) < n then m (src + of_nat (unat (x - (P + of_nat p)))) else m x)"
proof -
  have n: "unat (ucast c :: uint) = n"
    using assms(3,5) by (simp add: unsigned_ucast_eq take_bit_nat_eq_self)
  have "unat P < 2281701376" using assms(1) PHYSTOP_unat by (simp add: valid_page_def word_less_nat_alt)
  then have "unat (P + of_nat p) = unat P + p" using assms(3) by (intro unat_add_of_nat) simp
  then have "unat (P + of_nat p) + unat (ucast c :: uint) < 2 ^ 64" using n assms(3) \<open>unat P < 2281701376\<close> by simp
  then show ?thesis using memmove_at [of src "ucast c" "P + of_nat p" m x] n assms(4) by simp
qed

text \<open>What \<open>copyout\<close> sees at its first page.\<close>

lemma copyout_unfold:
  assumes inv: "vm_inv kend k root ps" and u: "user_inv kend (ram k) root ps" and len: "len > 0"
  shows "\<not> writable (ram k) root va \<Longrightarrow> copyout root va src len k = Some (Inr (-1, k))"
    "writable (ram k) root va \<Longrightarrow> copyout root va src len k = (let n = chunk va (PGROUNDDOWN va) len in
       copyout root (PGROUNDDOWN va + PGSIZE) (src + n) (len - n)
         (k\<lparr>ram := memmove (ram k) (uaddr (ram k) root va) src (ucast n)\<rparr>))"
proof -
  have "(\<not> writable (ram k) root va \<longrightarrow> copyout root va src len k = Some (Inr (-1, k))) \<and>
    (writable (ram k) root va \<longrightarrow> copyout root va src len k = (let n = chunk va (PGROUNDDOWN va) len in
       copyout root (PGROUNDDOWN va + PGSIZE) (src + n) (len - n)
         (k\<lparr>ram := memmove (ram k) (uaddr (ram k) root va) src (ucast n)\<rparr>)))"
  proof (cases "va < MAXVA")
    case False
    then have "\<not> writable (ram k) root va" by (simp add: writable_def user_page_def)
    moreover have "MAXVA \<le> PGROUNDDOWN va" using False MAXVA_round [of va] by (simp add: not_less [symmetric])
    ultimately show ?thesis using len by (simp add: copyout.simps [of root va] Let_def)
  next
    case True
    then have v0: "PGROUNDDOWN va < MAXVA" "leaf (ram k) root (PGROUNDDOWN va) = leaf (ram k) root va"
      by (simp_all add: MAXVA_round leaf_round)
    from walk_leaf [OF inv v0(1)] obtain pte where pte: "walk root (PGROUNDDOWN va) False k = Inr (pte, k)"
      "pte = 0 \<Longrightarrow> leaf (ram k) root va = 0" "pte \<noteq> 0 \<Longrightarrow> load64 (ram k) pte = leaf (ram k) root va"
      unfolding v0(2) by metis
    have c: "copyout root va src len k =
       (let e = load64 (ram k) pte in if pte = 0 \<or> e AND PTE_V = 0 \<or> e AND PTE_U = 0 \<or> e AND PTE_W = 0 then Some (Inr (-1, k))
        else let n = chunk va (PGROUNDDOWN va) len; k = k\<lparr>ram := memmove (ram k) (PTE2PA e + (va - PGROUNDDOWN va)) src (ucast n)\<rparr>
             in copyout root (PGROUNDDOWN va + PGSIZE) (src + n) (len - n) k)"
      using len v0(1) pte(1) by (simp add: copyout.simps [of root va] Let_def not_le [symmetric])
    have w: "writable (ram k) root va \<longleftrightarrow> \<not> (pte = 0 \<or> load64 (ram k) pte AND PTE_V = 0 \<or> load64 (ram k) pte AND PTE_U = 0 \<or> load64 (ram k) pte AND PTE_W = 0)"
      using pte(2,3) True by (cases "pte = 0") (auto simp: writable_def user_page_def)
    show ?thesis unfolding c w using pte(3) by (auto simp: Let_def uaddr_def)
  qed
  then show "\<not> writable (ram k) root va \<Longrightarrow> copyout root va src len k = Some (Inr (-1, k))"
    "writable (ram k) root va \<Longrightarrow> copyout root va src len k = (let n = chunk va (PGROUNDDOWN va) len in
       copyout root (PGROUNDDOWN va + PGSIZE) (src + n) (len - n)
         (k\<lparr>ram := memmove (ram k) (uaddr (ram k) root va) src (ucast n)\<rparr>))" by blast+
qed

lemma copyout_done: "copyout root va src 0 k = Some (Inr (0, k))"
  by (simp add: copyout.simps)

lemma copyout_spec:
  assumes "vm_inv kend k root ps" "user_inv kend (ram k) root ps" "kernel_region (ram k) root src (unat len)"
    and "unat va + unat len < 2 ^ 64"
  shows "\<exists>r k'. copyout root va src len k = Some (Inr (r, k')) \<and>
    vm_inv kend k' root ps \<and> user_inv kend (ram k') root ps \<and> leaf (ram k') root = leaf (ram k) root \<and>
    r = (if \<forall>i<unat len. writable (ram k) root (va + of_nat i) then 0 else -1) \<and>
    (\<forall>x. (\<forall>v. user_page (ram k) root v \<longrightarrow> \<not> unat (x - PTE2PA (leaf (ram k) root v)) < 4096) \<longrightarrow> ram k' x = ram k x) \<and>
    (r = 0 \<longrightarrow> (\<forall>v. umem (ram k') root v = (if unat va \<le> unat v \<and> unat v < unat va + unat len
       then Some (ram k (src + of_nat (unat v - unat va))) else umem (ram k) root v)))"
  using assms
proof (induction "unat len" arbitrary: len va src k rule: less_induct)
  case less
  let ?m = "ram k"
  show ?case
  proof (cases "len = 0")
    case True
    then show ?thesis using less.prems by (intro exI [of _ 0] exI [of _ k]) (auto simp: copyout_done)
  next
    case False
    then have len: "len > 0" by (simp add: word_neq_0_conv)
    then have len0: "0 < unat len" by (simp add: word_less_nat_alt)
    note cu = copyout_unfold [OF less.prems(1,2) len, of va src]
    show ?thesis
    proof (cases "writable ?m root va")
      case nw: False
      then have "\<not> (\<forall>i<unat len. writable ?m root (va + of_nat i))" using len0 by (auto intro!: exI [of _ 0])
      then show ?thesis using cu(1) [OF nw] less.prems by (intro exI [of _ "-1"] exI [of _ k]) auto
    next
      case wr: True
      then have up: "user_page ?m root va" by (simp add: writable_def)
      define n where "n = min (4096 - unat va mod 4096) (unat len)"
      let ?c = "chunk va (PGROUNDDOWN va) len"
      have c: "unat ?c = n" unfolding n_def by (rule chunk_unat [OF len])
      have n: "0 < n" "n \<le> unat len" "unat va mod 4096 + n \<le> 4096" using len0 by (auto simp: n_def)
      have cn: "?c = of_nat n" using c by (metis of_nat_unat_id)
      let ?P = "PTE2PA (leaf ?m root va)"
      have P: "valid_page kend ?P" using less.prems(2) up by (simp add: user_inv_def)
      let ?m1 = "memmove ?m (uaddr ?m root va) src (ucast ?c)" and ?k1 = "k\<lparr>ram := memmove ?m (uaddr ?m root va) src (ucast ?c)\<rparr>"
      have sb: "unat src + n < 2 ^ 64" using less.prems(3) n(2) by (simp add: kernel_region_def)
      have ua: "uaddr ?m root va = ?P + of_nat (unat va mod 4096)" by (simp add: uaddr_def page_off)
      have m1: "?m1 x = (if unat (x - uaddr ?m root va) < n then ?m (src + of_nat (unat (x - uaddr ?m root va))) else ?m x)" for x
        unfolding ua using memmove_page [OF P _ n(3) sb c] P by (simp add: valid_page_def)
      note pw = page_write [OF less.prems(1,2) up n(3) m1]
      have lu: "user_page ?m1 root = user_page ?m root" "writable ?m1 root = writable ?m root"
        by (simp_all add: user_page_def writable_def pw(3) fun_eq_iff)
      have l1: "unat (len - ?c) = unat len - n" using c n(2) by (simp add: unat_sub word_le_nat_alt)
      let ?va = "PGROUNDDOWN va + PGSIZE"
      have vm: "unat va < 2 ^ 38" using up by (simp add: user_page_def word_less_nat_alt MAXVA_unat)
      have sp: "user_page ?m root (va + of_nat i) \<and> writable ?m root (va + of_nat i)" if "i < n" for i
        using same_page_access [of va i ?m root] that n(3) up wr vm by simp
      note nx = next_page [OF vm]
      have kr: "kernel_region ?m1 root (src + ?c) (unat (len - ?c))"
      proof -
        have "kernel_region ?m1 root = kernel_region ?m root" by (simp add: kernel_region_def lu(1) pw(3) fun_eq_iff)
        then show ?thesis using kernel_region_tail [OF less.prems(3) n(2)] by (simp only: l1 cn [symmetric])
      qed
      have b: "unat ?va + unat (len - ?c) < 2 ^ 64"
        using less.prems(4) vm unfolding l1 nx(1) n_def by (cases "4096 - unat va mod 4096 \<le> unat len") simp_all
      have "unat (len - ?c) < unat len" using l1 n by simp
      from less.hyps [OF this pw(1), of "src + ?c" ?va] pw(2) kr b obtain r k' where
        r: "copyout root ?va (src + ?c) (len - ?c) ?k1 = Some (Inr (r, k'))" "vm_inv kend k' root ps"
          "user_inv kend (ram k') root ps" "leaf (ram k') root = leaf ?m1 root"
          "r = (if \<forall>i<unat (len - ?c). writable ?m1 root (?va + of_nat i) then 0 else -1)"
          "\<forall>x. (\<forall>v. user_page ?m1 root v \<longrightarrow> \<not> unat (x - PTE2PA (leaf ?m1 root v)) < 4096) \<longrightarrow> ram k' x = ?m1 x"
          "r = 0 \<longrightarrow> (\<forall>v. umem (ram k') root v = (if unat ?va \<le> unat v \<and> unat v < unat ?va + unat (len - ?c)
             then Some (?m1 (src + ?c + of_nat (unat v - unat ?va))) else umem ?m1 root v))"
        by (auto simp: kernel_region_def)
      have rest: "?va + of_nat i = va + of_nat (n + i) \<and> unat ?va = unat va + n" if "i < unat (len - ?c)" for i
      proof -
        have "n = 4096 - unat va mod 4096" using that l1 by (auto simp: n_def min_def split: if_splits)
        then show ?thesis using nx by (simp add: add.assoc)
      qed
      have all: "(\<forall>i<unat (len - ?c). writable ?m1 root (?va + of_nat i)) \<longleftrightarrow> (\<forall>i<unat len. writable ?m root (va + of_nat i))"
        (is "?A \<longleftrightarrow> ?B")
      proof
        assume ?A
        have "writable ?m root (va + of_nat i)" if "i < unat len" for i
        proof (cases "i < n")
          case False
          then obtain j where j: "i = n + j" using le_Suc_ex not_le by blast
          then have jl: "j < unat (len - ?c)" using that l1 by simp
          then have "writable ?m root (?va + of_nat j)" using \<open>?A\<close> unfolding lu(2) by blast
          then show ?thesis using rest [OF jl] j by simp
        qed (use sp in blast)
        then show ?B by blast
      next
        assume ?B
        have "writable ?m root (?va + of_nat i)" if "i < unat (len - ?c)" for i
          using \<open>?B\<close> rest [OF that] that l1 n(2) by (simp only: simp_thms)
        then show ?A unfolding lu(2) by blast
      qed
      have src: "?m1 (src + ?c + of_nat j) = ?m (src + of_nat (n + j))" if "n + j < unat len" for j
      proof -
        have "\<not> unat (src + of_nat (n + j) - ?P) < 4096" using less.prems(3) that up unfolding kernel_region_def by blast
        from pw(5) [OF this] show ?thesis by (simp add: cn add.assoc)
      qed
      have um: "umem (ram k') root v = (if unat va \<le> unat v \<and> unat v < unat va + unat len
          then Some (?m (src + of_nat (unat v - unat va))) else umem ?m root v)" if "r = 0" for v
      proof -
        have ih: "umem (ram k') root v = (if unat ?va \<le> unat v \<and> unat v < unat ?va + unat (len - ?c)
             then Some (?m1 (src + ?c + of_nat (unat v - unat ?va))) else umem ?m1 root v)" using r(7) that by blast
        consider "unat v < unat va" | "unat va \<le> unat v" "unat v < unat va + n" | "unat va + n \<le> unat v" "unat v < unat va + unat len"
          | "unat va + unat len \<le> unat v" by linarith
        then show ?thesis
        proof cases
          case 1
          then have "\<not> unat ?va \<le> unat v" using nx(1) by linarith
          then show ?thesis using ih pw(4) [of v] 1 by simp
        next
          case 2
          have "v = va + of_nat (unat v - unat va)" using 2(1) by (simp add: of_nat_diff)
          moreover have "user_page ?m root (va + of_nat (unat v - unat va))" using sp [of "unat v - unat va"] 2 by auto
          ultimately have "user_page ?m root v" by metis
          moreover have "\<not> unat ?va \<le> unat v" using 2 nx(1) n(3) by linarith
          ultimately show ?thesis using ih pw(4) [of v] 2 n(2) by simp
        next
          case 3
          then have "0 < unat (len - ?c)" using l1 by simp
          then have va: "unat ?va = unat va + n" using rest by blast
          then have "?m1 (src + ?c + of_nat (unat v - unat ?va)) = ?m (src + of_nat (n + (unat v - unat ?va)))"
            using 3 by (intro src) simp
          moreover have "n + (unat v - unat ?va) = unat v - unat va" using va 3(1) by simp
          ultimately show ?thesis using ih 3 va l1 n(2) by simp
        next
          case 4
          have no: "\<not> (unat ?va \<le> unat v \<and> unat v < unat ?va + unat (len - ?c))"
          proof
            assume a: "unat ?va \<le> unat v \<and> unat v < unat ?va + unat (len - ?c)"
            then have "0 < unat (len - ?c)" by linarith
            then show False using rest a 4 l1 n(2) by fastforce
          qed
          show ?thesis using ih [unfolded if_not_P [OF no]] pw(4) [of v] 4 n(2) by simp
        qed
      qed
      show ?thesis
        by (intro exI [of _ r] exI [of _ k'])
          (use cu(2) [OF wr] r all um pw(3,5) up in \<open>auto simp: Let_def lu\<close>)
    qed
  qed
qed

section \<open>Copying in\<close>

text \<open>A kernel region that overlaps neither user pages nor table pages nor free pages.\<close>

definition kernel_buf :: "kmem \<Rightarrow> uint64 \<Rightarrow> uint64 list \<Rightarrow> uint64 \<Rightarrow> nat \<Rightarrow> bool" where
  "kernel_buf k root ps a n \<longleftrightarrow> kernel_region (ram k) root a n \<and>
     (\<forall>i<n. \<forall>q. q \<in> tables (ram k) root \<union> set ps \<longrightarrow> \<not> unat (a + of_nat i - q) < 4096)"

lemma outside_region:
  fixes a x :: uint64
  assumes "\<And>i. i < n \<Longrightarrow> \<not> unat (a + of_nat i - q) < 4096" "unat (x - q) < 4096"
  shows "\<not> unat (x - a) < n"
  using assms(1) [of "unat (x - a)"] assms(2) by auto

lemma region_write:
  assumes inv: "vm_inv kend k root ps" and u: "user_inv kend (ram k) root ps" and b: "kernel_buf k root ps a n"
    and m': "\<And>x. \<not> unat (x - a) < n \<Longrightarrow> m' x = ram k x"
  shows "vm_inv kend (k\<lparr>ram := m'\<rparr>) root ps" "user_inv kend m' root ps" "leaf m' root = leaf (ram k) root"
    "tables m' root = tables (ram k) root" "user_page m' root = user_page (ram k) root" "umem m' root = umem (ram k) root"
proof -
  let ?m = "ram k"
  have pi: "pt_inv kend ?m root" and fp: "free_pages kend k ps" and dj: "set ps \<inter> tables ?m root = {}"
    using inv by (auto simp: vm_inv_def)
  have same: "m' x = ?m x" if "q \<in> tables ?m root \<union> set ps" "unat (x - q) < 4096" for q x
    by (rule m', rule outside_region [OF _ that(2)]) (use b that(1) in \<open>auto simp: kernel_buf_def\<close>)
  have t: "tables m' root = tables ?m root" "\<And>va. leaf m' root va = leaf ?m root va" "pt_inv kend m' root"
    by (rule tables_frame [OF pi], rule same, blast, assumption)+
  show "tables m' root = tables ?m root" by (rule t(1))
  show l: "leaf m' root = leaf ?m root" using t(2) by (simp add: fun_eq_iff)
  show up: "user_page m' root = user_page ?m root" by (simp add: user_page_def l fun_eq_iff)
  show "user_inv kend m' root ps" using u unfolding user_inv_def up l t(1) .
  have "load64 m' q = load64 ?m q" if q: "q \<in> set ps" for q
  proof -
    have "page_aligned q" using fp q by (simp add: free_pages_def valid_page_def)
    moreover have "entry q 0 = q" by (simp add: entry_def)
    ultimately show ?thesis using load_entry_cong [of q 0 m' ?m] same q by auto
  qed
  then have "chain m' (freelist k) ps" using fp chain_cong [of ps m' ?m] by (simp add: free_pages_def)
  then show "vm_inv kend (k\<lparr>ram := m'\<rparr>) root ps" using fp t dj by (simp add: vm_inv_def free_pages_def)
  have "m' (uaddr m' root v) = ?m (uaddr ?m root v)" if "user_page ?m root v" for v
  proof -
    let ?P = "PTE2PA (leaf ?m root v)"
    have "uaddr m' root v = uaddr ?m root v" by (simp add: uaddr_def l)
    moreover have "unat (uaddr ?m root v - ?P) < 4096"
      using offset_add [of "unat v mod 4096" ?P] by (simp add: uaddr_def page_off)
    moreover have "\<not> unat (uaddr ?m root v - a) < n"
      by (rule outside_region [OF _ calculation(2)]) (use b that in \<open>simp add: kernel_buf_def kernel_region_def\<close>)
    ultimately show ?thesis using m' by simp
  qed
  then show "umem m' root = umem ?m root" by (simp add: umem_def up fun_eq_iff)
qed

lemma copyin_unfold:
  assumes inv: "vm_inv kend k root ps" and u: "user_inv kend (ram k) root ps" and len: "len > 0"
  shows "\<not> user_page (ram k) root va \<Longrightarrow> copyin root dst va len k = Some (Inr (-1, k))"
    "user_page (ram k) root va \<Longrightarrow> copyin root dst va len k = (let n = chunk va (PGROUNDDOWN va) len in
       copyin root (dst + n) (PGROUNDDOWN va + PGSIZE) (len - n)
         (k\<lparr>ram := memmove (ram k) dst (uaddr (ram k) root va) (ucast n)\<rparr>))"
proof -
  have w: "walkaddr root (PGROUNDDOWN va) k = Inr (if user_page (ram k) root va then PTE2PA (leaf (ram k) root va) else 0)"
    unfolding walkaddr_leaf [OF inv] MAXVA_round using leaf_round [of va "ram k" root] by (auto simp: user_page_def)
  show "\<not> user_page (ram k) root va \<Longrightarrow> copyin root dst va len k = Some (Inr (-1, k))"
    using w len by (simp add: copyin.simps [of root dst va] Let_def)
  assume up: "user_page (ram k) root va"
  then have "PTE2PA (leaf (ram k) root va) \<noteq> 0" using u by (auto simp: user_inv_def valid_page_def)
  then show "copyin root dst va len k = (let n = chunk va (PGROUNDDOWN va) len in
       copyin root (dst + n) (PGROUNDDOWN va + PGSIZE) (len - n)
         (k\<lparr>ram := memmove (ram k) dst (uaddr (ram k) root va) (ucast n)\<rparr>))"
    using w len up by (simp add: copyin.simps [of root dst va] Let_def uaddr_def)
qed

lemma all_split_at: "n \<le> l \<Longrightarrow> (\<forall>i<l. Q i) \<longleftrightarrow> (\<forall>i<n. Q i) \<and> (\<forall>i<l - n. Q (n + i))" for l n :: nat
proof (intro iffI conjI allI impI)
  fix i assume a: "n \<le> l" "(\<forall>i<n. Q i) \<and> (\<forall>i<l - n. Q (n + i))" "i < l"
  show "Q i"
  proof (cases "i < n")
    case False
    then obtain j where "i = n + j" using le_Suc_ex not_le by blast
    then show ?thesis using a by simp
  qed (use a in blast)
qed auto

lemma kernel_buf_tail: "kernel_buf k root ps a n \<Longrightarrow> i \<le> n \<Longrightarrow> kernel_buf k root ps (a + of_nat i) (n - i)"
  using kernel_region_tail [of "ram k" root a n i]
  by (auto simp: kernel_buf_def add.assoc simp flip: of_nat_add)

lemma memmove_from_page:
  assumes "valid_page kend P" "p + n \<le> 4096" "unat dst + n < 2 ^ 64" "unat (c :: uint64) = n"
  shows "memmove m dst (P + of_nat p) (ucast c) x = (if unat (x - dst) < n then m (P + of_nat p + (x - dst)) else m x)"
proof -
  have n: "unat (ucast c :: uint) = n" using assms(2,4) by (simp add: unsigned_ucast_eq take_bit_nat_eq_self)
  have P: "unat P < 2281701376" using assms(1) PHYSTOP_unat by (simp add: valid_page_def word_less_nat_alt)
  then have "unat (P + of_nat p) = unat P + p" using assms(2) by (intro unat_add_of_nat) simp
  then have "unat (P + of_nat p) + unat (ucast c :: uint) < 2 ^ 64" using n assms(2) P by simp
  then show ?thesis using memmove_at [of "P + of_nat p" "ucast c" dst m x] n assms(3) by simp
qed

lemma copyin_spec:
  assumes "vm_inv kend k root ps" "user_inv kend (ram k) root ps" "kernel_buf k root ps dst (unat len)"
    and "unat va + unat len < 2 ^ 64"
  shows "\<exists>r k'. copyin root dst va len k = Some (Inr (r, k')) \<and> vm_inv kend k' root ps \<and> user_inv kend (ram k') root ps \<and>
    umem (ram k') root = umem (ram k) root \<and>
    r = (if \<forall>i<unat len. user_page (ram k) root (va + of_nat i) then 0 else -1) \<and>
    (\<forall>x. \<not> unat (x - dst) < unat len \<longrightarrow> ram k' x = ram k x) \<and>
    (r = 0 \<longrightarrow> (\<forall>i<unat len. Some (ram k' (dst + of_nat i)) = umem (ram k) root (va + of_nat i)))"
  using assms
proof (induction "unat len" arbitrary: len va dst k rule: less_induct)
  case less
  let ?m = "ram k"
  show ?case
  proof (cases "len = 0")
    case True
    then show ?thesis using less.prems by (intro exI [of _ 0] exI [of _ k]) (auto simp: copyin.simps)
  next
    case False
    then have len: "len > 0" by (simp add: word_neq_0_conv)
    then have len0: "0 < unat len" by (simp add: word_less_nat_alt)
    note cu = copyin_unfold [OF less.prems(1,2) len, of va dst]
    show ?thesis
    proof (cases "user_page ?m root va")
      case nw: False
      then have "\<not> (\<forall>i<unat len. user_page ?m root (va + of_nat i))" using len0 by (auto intro!: exI [of _ 0])
      then show ?thesis using cu(1) [OF nw] less.prems by (intro exI [of _ "-1"] exI [of _ k]) auto
    next
      case up: True
      define n where "n = min (4096 - unat va mod 4096) (unat len)"
      let ?c = "chunk va (PGROUNDDOWN va) len"
      have c: "unat ?c = n" unfolding n_def by (rule chunk_unat [OF len])
      have n: "0 < n" "n \<le> unat len" "unat va mod 4096 + n \<le> 4096" using len0 by (auto simp: n_def)
      have cn: "?c = of_nat n" using c by (metis of_nat_unat_id)
      let ?P = "PTE2PA (leaf ?m root va)"
      have P: "valid_page kend ?P" using less.prems(2) up by (simp add: user_inv_def)
      let ?m1 = "memmove ?m dst (uaddr ?m root va) (ucast ?c)" and ?k1 = "k\<lparr>ram := memmove ?m dst (uaddr ?m root va) (ucast ?c)\<rparr>"
      have db: "unat dst + n < 2 ^ 64" using less.prems(3) n(2) by (simp add: kernel_buf_def kernel_region_def)
      have ua: "uaddr ?m root va = ?P + of_nat (unat va mod 4096)" by (simp add: uaddr_def page_off)
      have m1: "?m1 x = (if unat (x - dst) < n then ?m (uaddr ?m root va + (x - dst)) else ?m x)" for x
        unfolding ua by (rule memmove_from_page [OF P n(3) db c])
      have o1: "?m1 x = ?m x" if "\<not> unat (x - dst) < unat len" for x using m1 n(2) that by simp
      have rw: "vm_inv kend ?k1 root ps" "user_inv kend ?m1 root ps" "leaf ?m1 root = leaf ?m root"
        "tables ?m1 root = tables ?m root" "user_page ?m1 root = user_page ?m root" "umem ?m1 root = umem ?m root"
        by (rule region_write [OF less.prems(1-3)], erule o1)+
      have l1: "unat (len - ?c) = unat len - n" using c n(2) by (simp add: unat_sub word_le_nat_alt)
      let ?va = "PGROUNDDOWN va + PGSIZE"
      have vm: "unat va < 2 ^ 38" using up by (simp add: user_page_def word_less_nat_alt MAXVA_unat)
      have sp: "user_page ?m root (va + of_nat i)" if "i < n" for i
        using same_page_access(1) [of va i ?m root] that n(3) up vm by simp
      note nx = next_page [OF vm]
      have kb: "kernel_buf ?k1 root ps (dst + ?c) (unat (len - ?c))"
      proof -
        have "kernel_buf ?k1 root ps = kernel_buf k root ps"
          by (simp add: kernel_buf_def kernel_region_def rw(3-5) fun_eq_iff)
        then show ?thesis using kernel_buf_tail [OF less.prems(3) n(2)] by (simp only: l1 cn [symmetric])
      qed
      have b: "unat ?va + unat (len - ?c) < 2 ^ 64"
        using less.prems(4) vm unfolding l1 nx(1) n_def by (cases "4096 - unat va mod 4096 \<le> unat len") simp_all
      have "unat (len - ?c) < unat len" using l1 n by simp
      from less.hyps [OF this rw(1) _ kb b] rw(2) obtain r k' where
        r: "copyin root (dst + ?c) ?va (len - ?c) ?k1 = Some (Inr (r, k'))" "vm_inv kend k' root ps"
          "user_inv kend (ram k') root ps" "umem (ram k') root = umem ?m1 root"
          "r = (if \<forall>i<unat (len - ?c). user_page ?m1 root (?va + of_nat i) then 0 else -1)"
          "\<forall>x. \<not> unat (x - (dst + ?c)) < unat (len - ?c) \<longrightarrow> ram k' x = ?m1 x"
          "r = 0 \<longrightarrow> (\<forall>i<unat (len - ?c). Some (ram k' (dst + ?c + of_nat i)) = umem ?m1 root (?va + of_nat i))"
        by auto
      have rest: "?va + of_nat i = va + of_nat (n + i)" if "i < unat (len - ?c)" for i
      proof -
        have "n = 4096 - unat va mod 4096" using that l1 by (auto simp: n_def min_def split: if_splits)
        then show ?thesis using nx by (simp add: add.assoc)
      qed
      have split: "(\<forall>i<unat len. Q i) \<longleftrightarrow> (\<forall>i<n. Q i) \<and> (\<forall>i<unat (len - ?c). Q (n + i))" for Q
        unfolding l1 by (rule all_split_at [OF n(2)])
      have all: "(\<forall>i<unat (len - ?c). user_page ?m1 root (?va + of_nat i)) \<longleftrightarrow> (\<forall>i<unat len. user_page ?m root (va + of_nat i))"
        unfolding split [where Q = "\<lambda>i. user_page ?m root (va + of_nat i)"] rw(5) using sp rest by (simp add: add.assoc cong: all_cong)
      have dst: "Some (ram k' (dst + of_nat i)) = umem ?m root (va + of_nat i)" if i: "i < n" for i
      proof -
        have "\<not> unat (dst + of_nat i - (dst + ?c)) < unat (len - ?c)"
        proof -
          have "unat (dst + of_nat i - (dst + of_nat n)) = i + 2 ^ 64 - n" using offset_diff [of i n dst] i db by simp
          moreover have "unat len < 2 ^ 64" using less.prems(3) by (simp add: kernel_buf_def kernel_region_def)
          ultimately show ?thesis unfolding l1 unfolding cn using i n(2) by linarith
        qed
        then have "ram k' (dst + of_nat i) = ?m1 (dst + of_nat i)" using r(6) by blast
        also have "\<dots> = ?m (uaddr ?m root va + of_nat i)" using m1 [of "dst + of_nat i"] i db by (simp add: unat_of_nat_less)
        also have "uaddr ?m root va + of_nat i = uaddr ?m root (va + of_nat i)" using uaddr_add [of va i ?m root] i n(3) vm up by (simp add: user_page_def)
        finally show ?thesis using sp [OF i] by (simp add: umem_def)
      qed
      have out: "ram k' x = ?m x" if x: "\<not> unat (x - dst) < unat len" for x
      proof -
        have "unat (dst + of_nat (unat (x - dst)) - (dst + of_nat n)) = unat (x - dst) - n"
          using offset_diff [of "unat (x - dst)" n dst] x n(2) db unat_bound [of "x - dst"] by simp
        then have "\<not> unat (x - (dst + ?c)) < unat (len - ?c)" using x n(2) by (simp add: l1) (simp add: cn)
        then show ?thesis using r(6) o1 [OF x] by simp
      qed
      have "copyin root dst va len k = Some (Inr (r, k'))" using cu(2) [OF up] r(1) by (simp add: Let_def)
      moreover have "\<forall>i<unat len. Some (ram k' (dst + of_nat i)) = umem ?m root (va + of_nat i)" if "r = 0"
      proof -
        have "Some (ram k' (dst + of_nat (n + i))) = umem ?m root (va + of_nat (n + i))" if i: "i < unat (len - ?c)" for i
        proof -
          have "dst + ?c + of_nat i = dst + of_nat (n + i)" by (simp add: cn add.assoc)
          then show ?thesis using r(7) \<open>r = 0\<close> i unfolding rw(6) rest [OF i, symmetric] by metis
        qed
        then show ?thesis
          unfolding split [where Q = "\<lambda>i. Some (ram k' (dst + of_nat i)) = umem ?m root (va + of_nat i)"] using dst by blast
      qed
      ultimately show ?thesis using r(2-5) rw(6) all out by (intro exI [of _ r] exI [of _ k']) auto
    qed
  qed
qed

section \<open>Taking a page for user memory\<close>

lemma kalloc_vm:
  assumes inv: "vm_inv kend k root (p # ps)"
  shows "\<exists>k'. kalloc k = (p, k') \<and> vm_inv kend k' root ps \<and> leaf (ram k') root = leaf (ram k) root \<and>
    tables (ram k') root = tables (ram k) root \<and> valid_page kend p \<and> p \<notin> set ps \<and> p \<notin> tables (ram k) root \<and>
    (\<forall>x. ram k' x = (if unat (x - p) < 4096 then 5 else ram k x))"
proof -
  have fp: "free_pages kend k (p # ps)" and pi: "pt_inv kend (ram k) root" and dj: "p \<notin> tables (ram k) root" "set ps \<inter> tables (ram k) root = {}"
    using inv by (auto simp: vm_inv_def)
  obtain k' where k': "kalloc k = (p, k')" "free_pages kend k' ps" "\<And>x. ram k' x = (if unat (x - p) < 4096 then 5 else ram k x)"
    using kalloc_allocates [OF fp] by auto
  have p: "valid_page kend p" "p \<notin> set ps" "page_aligned p" using fp by (auto simp: free_pages_def valid_page_def)
  have same: "ram k' x = ram k x" if "q \<in> tables (ram k) root" "unat (x - q) < 4096" for q x
  proof -
    have "q \<noteq> p" using dj(1) that(1) by blast
    then have "\<not> unat (x - p) < 4096" using pages_disjoint [OF pt_invD(2) [OF pi that(1)] p(3) _ that(2)] by blast
    then show ?thesis by (simp add: k'(3))
  qed
  have t: "tables (ram k') root = tables (ram k) root" "\<And>va. leaf (ram k') root va = leaf (ram k) root va" "pt_inv kend (ram k') root"
    by (rule tables_frame [OF pi], erule (1) same)+
  then show ?thesis using k' p dj by (auto simp: vm_inv_def fun_eq_iff)
qed

text \<open>Kernel memory below every allocatable page is outside all of them.\<close>

lemma low_address:
  fixes a q :: uint64
  assumes "unat a < unat q" "unat q < 2281701376"
  shows "\<not> unat (a - q) < 4096"
proof -
  have "unat (a - q) = unat a + 2 ^ 64 - unat q" using assms(1) by (simp add: unat_sub_if')
  then show ?thesis using assms by simp
qed

lemma one_user_page:
  "\<exists>k root ps. vm_inv 0x80021d50 k root ps \<and> user_inv 0x80021d50 (ram k) root ps \<and>
    (\<forall>v. user_page (ram k) root v \<longleftrightarrow> 4096 \<le> unat v \<and> unat v < 8192) \<and>
    (\<forall>v. writable (ram k) root v \<longleftrightarrow> 4096 \<le> unat v \<and> unat v < 8192)"
proof -
  let ?kend = "0x80021d50 :: uint64"
  obtain k0 root ps0 where k0: "vm_inv ?kend k0 root ps0" "length ps0 = 32733" "\<forall>va. leaf (ram k0) root va = 0"
    using booted_table by blast
  then obtain p ps where ps: "ps0 = p # ps" "length ps = 32732" by (cases ps0) auto
  obtain k1 where k1: "vm_inv ?kend k1 root ps" "leaf (ram k1) root = leaf (ram k0) root" "valid_page ?kend p" "p \<notin> set ps"
    "p \<notin> tables (ram k1) root" using kalloc_vm [OF k0(1) [unfolded ps(1)]] by auto
  let ?perm = "PTE_W OR PTE_U"
  have b: "page_aligned (0x1000 :: uint64)" "page_aligned PGSIZE" "PGSIZE \<noteq> 0" "unat (0x1000 :: uint64) + unat PGSIZE \<le> 2 ^ 38"
    by (simp_all add: PGSIZE_def)
  have perm: "?perm < 1024" "bit ?perm 4" "bit ?perm 2" by (simp_all add: PTE_W_def PTE_U_def bit_or_iff flag_bits [unfolded PTE_W_def PTE_U_def])
  have f: "leaf (ram k1) root a AND PTE_V = 0" for a using k0(3) k1(2) by simp
  from mappages_spec [OF k1(1) b f, of p ?perm] obtain r :: int and k ps' j where
    r: "grows ?kend root k1 ps k ps'" "r = 0 \<or> r = -1 \<and> ps' = []" "length ps \<le> length ps' + 2 * (unat PGSIZE div 4096)"
      "r = 0 \<longrightarrow> j = unat PGSIZE div 4096" "\<forall>a<MAXVA. leaf (ram k) root a = mapped 0x1000 j p ?perm (leaf (ram k1) root) a"
    by blast
  have "r = 0" using r(2,3) ps(2) by (auto simp: PGSIZE_def)
  then have j: "j = 1" using r(4) by (simp add: PGSIZE_def)
  have pa: "page_aligned p" using k1(3) by (simp add: valid_page_def)
  have lf: "leaf (ram k) root v = (if 4096 \<le> unat v \<and> unat v < 8192 then PA2PTE (p + PGROUNDDOWN (v - 0x1000)) OR ?perm OR PTE_V else 0)"
    if "v < MAXVA" for v using r(5) that k0(3) k1(2) by (simp add: mapped_def j)
  have z: "PGROUNDDOWN (v - 0x1000) = 0" if "4096 \<le> unat v" "unat v < 8192" for v :: uint64
  proof -
    have "unat (v - 0x1000) < 4096" using that by (simp add: unat_sub word_le_nat_alt)
    then show ?thesis by (simp add: word_unat_eq_iff PGROUNDDOWN_unat)
  qed
  note e = PTE2PA_entry [OF pa perm(1)]
  have small: "v < MAXVA" if "unat v < 8192" for v using that by (simp add: word_less_nat_alt MAXVA_unat)
  have up: "user_page (ram k) root v \<longleftrightarrow> 4096 \<le> unat v \<and> unat v < 8192" for v
    using lf [of v] z [of v] e perm small [of v] by (auto simp: user_page_def single_bit_and split: if_splits)
  have pt: "PTE2PA (leaf (ram k) root v) = p" "leaf (ram k) root v AND PTE_W \<noteq> 0" if "user_page (ram k) root v" for v
    using that lf [of v] z [of v] e(1,4) perm(3) up [of v] by (auto simp: user_page_def single_bit_and)
  obtain used where used: "ps = used @ ps'" "tables (ram k) root = tables (ram k1) root \<union> set used" using r(1) by (auto simp: grows_def)
  have "p \<notin> tables (ram k) root" "p \<notin> set ps'" using used k1(4,5) by auto
  moreover have "PGROUNDDOWN v = PGROUNDDOWN v'" if "user_page (ram k) root v" "user_page (ram k) root v'" for v v'
  proof -
    have "unat v div 4096 = 1" "unat v' div 4096 = 1" using that up [of v] up [of v'] by (auto intro!: div_nat_eqI)
    then show ?thesis by (simp only: word_unat_eq_iff PGROUNDDOWN_unat)
  qed
  ultimately have "user_inv ?kend (ram k) root ps'" using pt(1) k1(3) unfolding user_inv_def by metis
  then show ?thesis using grows_inv [OF r(1)] up pt(2) by (intro exI [of _ k] exI [of _ root] exI [of _ ps']) (auto simp: writable_def)
qed

lemma low_kernel_buf:
  assumes "vm_inv 0x80021d50 k root ps" "user_inv 0x80021d50 (ram k) root ps" "unat a + n < 0x80021d50"
  shows "kernel_buf k root ps a n"
proof -
  have low: "\<not> unat (a + of_nat i - q) < 4096" if "i < n" "valid_page 0x80021d50 q" for i q
  proof (rule low_address)
    have "unat (a + of_nat i) = unat a + i" using assms(3) that(1) by (intro unat_add_of_nat) simp
    then show "unat (a + of_nat i) < unat q" using that assms(3) by (simp add: valid_page_def word_le_nat_alt)
    show "unat q < 2281701376" using that(2) PHYSTOP_unat by (simp add: valid_page_def word_less_nat_alt)
  qed
  have "valid_page 0x80021d50 q" if "q \<in> tables (ram k) root \<union> set ps" for q
    using assms(1) that pt_invD(1) [of "0x80021d50" "ram k" root q] by (auto simp: vm_inv_def free_pages_def)
  moreover have "valid_page 0x80021d50 (PTE2PA (leaf (ram k) root v))" if "user_page (ram k) root v" for v
    using assms(2) that by (simp add: user_inv_def)
  ultimately show ?thesis using low assms(3) by (simp add: kernel_buf_def kernel_region_def)
qed

section \<open>Properties\<close>

text \<open>
  Property C23 (\<open>copyout\<close>). Over a well-formed table whose user pages are distinct pages of RAM, \<open>copyout\<close>
  returns 0 exactly when the user may write every byte of the destination, and -1
  otherwise. It changes no translation. On success the user reads the copied
  bytes in the destination and everything else as before; memory outside user pages is
  never touched.
\<close>

theorem copyout_writes:
  assumes "vm_inv kend k root ps" "user_inv kend (ram k) root ps" "kernel_region (ram k) root src (unat len)"
    and "unat va + unat len < 2 ^ 64"
  shows "\<exists>r k'. copyout root va src len k = Some (Inr (r, k')) \<and> leaf (ram k') root = leaf (ram k) root \<and>
    r = (if \<forall>i<unat len. writable (ram k) root (va + of_nat i) then 0 else -1) \<and>
    (\<forall>x. (\<forall>v. user_page (ram k) root v \<longrightarrow> \<not> unat (x - PTE2PA (leaf (ram k) root v)) < 4096) \<longrightarrow> ram k' x = ram k x) \<and>
    (r = 0 \<longrightarrow> (\<forall>v. umem (ram k') root v = (if unat va \<le> unat v \<and> unat v < unat va + unat len
       then Some (ram k (src + of_nat (unat v - unat va))) else umem (ram k) root v)))"
  using copyout_spec [OF assms] by blast

theorem copyout_writes_witness:
  "\<exists>k root k'. copyout root 0x1ffc 0x80001000 4 k = Some (Inr (0, k')) \<and>
     umem (ram k') root 0x1fff = Some (ram k 0x80001003) \<and> copyout root 0x1ffd 0x80001000 4 k \<noteq> Some (Inr (0, k'))"
proof -
  obtain k root ps where k: "vm_inv 0x80021d50 k root ps" "user_inv 0x80021d50 (ram k) root ps"
    "\<forall>v. writable (ram k) root v \<longleftrightarrow> 4096 \<le> unat v \<and> unat v < 8192" using one_user_page by blast
  have kr: "kernel_region (ram k) root 0x80001000 (unat (4 :: uint64))"
    using low_kernel_buf [OF k(1,2), of "0x80001000" 4] by (simp add: kernel_buf_def)
  have w: "\<forall>i<unat (4 :: uint64). writable (ram k) root (0x1ffc + of_nat i)"
  proof (intro allI impI)
    fix i :: nat assume "i < unat (4 :: uint64)"
    then have "unat (0x1ffc + of_nat i :: uint64) = 0x1ffc + i" using unat_add_of_nat [of "0x1ffc" i] by simp
    then show "writable (ram k) root (0x1ffc + of_nat i)" using k(3) \<open>i < unat (4 :: uint64)\<close> by simp
  qed
  have nw: "\<not> (\<forall>i<unat (4 :: uint64). writable (ram k) root (0x1ffd + of_nat i))"
    using k(3) by (auto intro!: exI [of _ 3])
  obtain k' where k': "copyout root 0x1ffc 0x80001000 4 k = Some (Inr (0, k'))"
    "umem (ram k') root 0x1fff = Some (ram k (0x80001000 + of_nat (unat (0x1fff :: uint64) - unat (0x1ffc :: uint64))))"
    using copyout_writes [OF k(1,2) kr, of "0x1ffc"] w by auto
  have "copyout root 0x1ffd 0x80001000 4 k \<noteq> Some (Inr (0, k'))"
  proof -
    have b: "unat (0x1ffd :: uint64) + unat (4 :: uint64) < 2 ^ 64" by simp
    from copyout_writes [OF k(1,2) kr b] nw have "\<exists>k'. copyout root 0x1ffd 0x80001000 4 k = Some (Inr (-1, k'))" by (metis (no_types))
    then show ?thesis by auto
  qed
  then show ?thesis using k' by (intro exI [of _ k] exI [of _ root] exI [of _ k']) simp
qed

text \<open>
  Property C24 (copying out and in again). When \<open>copyout\<close> has succeeded, \<open>copyin\<close> from the same user address into a
  kernel buffer succeeds and delivers exactly the bytes that were copied out, without
  changing user memory.
\<close>

theorem copyout_copyin:
  assumes "vm_inv kend k root ps" "user_inv kend (ram k) root ps" "kernel_region (ram k) root src (unat len)"
    and "unat va + unat len < 2 ^ 64" "copyout root va src len k = Some (Inr (0, k1))" "kernel_buf k1 root ps dst (unat len)"
  shows "\<exists>k2. copyin root dst va len k1 = Some (Inr (0, k2)) \<and> umem (ram k2) root = umem (ram k1) root \<and>
    (\<forall>i<unat len. ram k2 (dst + of_nat i) = ram k (src + of_nat i))"
proof -
  from copyout_spec [OF assms(1-4)] assms(5) have 1: "vm_inv kend k1 root ps" "user_inv kend (ram k1) root ps"
    "leaf (ram k1) root = leaf (ram k) root" "\<forall>i<unat len. writable (ram k) root (va + of_nat i)"
    "\<forall>v. umem (ram k1) root v = (if unat va \<le> unat v \<and> unat v < unat va + unat len
       then Some (ram k (src + of_nat (unat v - unat va))) else umem (ram k) root v)"
    by (auto split: if_splits)
  have up: "user_page (ram k1) root (va + of_nat i)" if "i < unat len" for i
    using 1(4) that by (simp add: writable_def user_page_def 1(3))
  from copyin_spec [OF 1(1,2) assms(6,4)] up obtain k2 where
    2: "copyin root dst va len k1 = Some (Inr (0, k2))" "umem (ram k2) root = umem (ram k1) root"
      "\<forall>i<unat len. Some (ram k2 (dst + of_nat i)) = umem (ram k1) root (va + of_nat i)" by auto
  have "Some (ram k2 (dst + of_nat i)) = Some (ram k (src + of_nat i))" if "i < unat len" for i
  proof -
    have "unat (va + of_nat i) = unat va + i" using that assms(4) by (intro unat_add_of_nat) simp
    then have "umem (ram k1) root (va + of_nat i) = Some (ram k (src + of_nat i))" using 1(5) that by simp
    then show ?thesis using 2(3) that by simp
  qed
  then show ?thesis using 2 by auto
qed

theorem copyout_copyin_witness:
  "\<exists>k root k1 k2. copyout root 0x1ffc 0x80001000 4 k = Some (Inr (0, k1)) \<and>
     copyin root 0x80002000 0x1ffc 4 k1 = Some (Inr (0, k2)) \<and> ram k2 0x80002003 = ram k 0x80001003"
proof -
  obtain k root ps where k: "vm_inv 0x80021d50 k root ps" "user_inv 0x80021d50 (ram k) root ps"
    "\<forall>v. writable (ram k) root v \<longleftrightarrow> 4096 \<le> unat v \<and> unat v < 8192" using one_user_page by blast
  have kr: "kernel_region (ram k) root 0x80001000 (unat (4 :: uint64))"
    using low_kernel_buf [OF k(1,2), of "0x80001000" 4] by (simp add: kernel_buf_def)
  have b: "unat (0x1ffc :: uint64) + unat (4 :: uint64) < 2 ^ 64" by simp
  have w: "\<forall>i<unat (4 :: uint64). writable (ram k) root (0x1ffc + of_nat i)"
  proof (intro allI impI)
    fix i :: nat assume "i < unat (4 :: uint64)"
    then have "unat (0x1ffc + of_nat i :: uint64) = 0x1ffc + i" using unat_add_of_nat [of "0x1ffc" i] by simp
    then show "writable (ram k) root (0x1ffc + of_nat i)" using k(3) \<open>i < unat (4 :: uint64)\<close> by simp
  qed
  obtain k1 where k1: "copyout root 0x1ffc 0x80001000 4 k = Some (Inr (0, k1))" "vm_inv 0x80021d50 k1 root ps"
    "user_inv 0x80021d50 (ram k1) root ps"
    using copyout_spec [OF k(1,2) kr b] w by auto
  have kb: "kernel_buf k1 root ps 0x80002000 (unat (4 :: uint64))" using low_kernel_buf [OF k1(2,3), of "0x80002000" 4] by simp
  obtain k2 where "copyin root 0x80002000 0x1ffc 4 k1 = Some (Inr (0, k2))"
    "\<forall>i<unat (4 :: uint64). ram k2 (0x80002000 + of_nat i) = ram k (0x80001000 + of_nat i)"
    using copyout_copyin [OF k(1,2) kr b k1(1) kb] by blast
  then show ?thesis using k1(1) by (intro exI [of _ k] exI [of _ root] exI [of _ k1] exI [of _ k2]) (auto dest: spec [of _ 3])
qed

end
