(* ===== verification/Syscall.thy ===== *)
theory Syscall
  imports Proc_Run Uvm
begin

text \<open>
  System calls from the trap frame on: fetching arguments and dispatch (\<open>kernel/syscall.c\<close>) and the calls on processes
  (\<open>kernel/sysproc.c\<close>). The clock (\<open>ticks\<close> and \<open>tickslock\<close> of \<open>kernel/trap.c\<close>) is added to the state of \<open>Proc\<close>. \<open>c\<close> is the CPU and
  \<open>p\<close> the process that runs. A call that gives up the CPU (\<open>exit\<close>, or one that sleeps) has the result \<open>None\<close>, and its state is the one at the
  switch. The calls on files work on the state of \<open>Sysfile\<close> and are a parameter here, as are the linker symbols.
\<close>

section \<open>Arguments\<close>

definition TF_A7 :: uint64 where "TF_A7 = 168"

definition argraw :: "nat \<Rightarrow> int \<Rightarrow> kernel \<Rightarrow> uint64 cresult" where
  "argraw p n s =
     (if n \<in> {0..5} then Inr (load64 (ram (kram s)) (p_trapframe (pr s p) + TF_A0 + 8 * word_of_int n))
      else Inl (Panic ''argraw''))"

definition argint :: "nat \<Rightarrow> int \<Rightarrow> kernel \<Rightarrow> uint run" where
  "argint p n s = bind_run (Some (argraw p n s)) (\<lambda>x. Some (Inr (ucast x)))"

definition argaddr :: "nat \<Rightarrow> int \<Rightarrow> kernel \<Rightarrow> uint64 run" where
  "argaddr p n s = Some (argraw p n s)"

definition fetchaddr :: "nat \<Rightarrow> uint64 \<Rightarrow> uint64 \<Rightarrow> kernel \<Rightarrow> (int \<times> kernel) run" where
  "fetchaddr p addr ip s =
     (if addr \<ge> p_sz (pr s p) \<or> addr + 8 > p_sz (pr s p) then Some (Inr (-1, s))
      else bind_run (copyin (p_pagetable (pr s p)) ip addr 8 (kram s)) (\<lambda>(r, k).
           Some (Inr (if r \<noteq> 0 then -1 else 0, s\<lparr>kram := k\<rparr>))))"

definition fetchstr :: "nat \<Rightarrow> uint64 \<Rightarrow> uint64 \<Rightarrow> uint64 \<Rightarrow> kernel \<Rightarrow> (int \<times> kernel) run" where
  "fetchstr p addr buf maxlen s =
     bind_run (copyinstr (p_pagetable (pr s p)) buf addr maxlen (kram s)) (\<lambda>(r, k).
     if r < 0 then Some (Inr (-1, s\<lparr>kram := k\<rparr>))
     else map_option (\<lambda>n. Inr (int n, s\<lparr>kram := k\<rparr>)) (strlen (ram k) buf))"

definition argstr :: "nat \<Rightarrow> int \<Rightarrow> uint64 \<Rightarrow> uint64 \<Rightarrow> kernel \<Rightarrow> (int \<times> kernel) run" where
  "argstr p n buf maxlen s = bind_run (argaddr p n s) (\<lambda>addr. fetchstr p addr buf maxlen s)"

section \<open>Calls on processes\<close>

type_synonym 'a call = "(uint64 option \<times> 'a) run"

text \<open>The linker symbols, where \<open>xstate\<close> of a process and \<open>ticks\<close> lie.\<close>

record linker =
  y_end :: uint64
  y_trampoline :: uint64
  y_forkret :: uint64
  y_xstate :: "nat \<Rightarrow> uint64"
  y_ticks :: uint64

definition ret_int :: "(int \<times> kernel) run \<Rightarrow> kernel call" where
  "ret_int m = bind_run m (\<lambda>(r, s). Some (Inr (Some (word_of_int r), s)))"

definition sys_exit :: "nat \<Rightarrow> nat \<Rightarrow> kernel \<Rightarrow> kernel call" where
  "sys_exit c p s = bind_run (argint p 0 s) (\<lambda>n. bind_run (exit c p (sint n) s) (\<lambda>s. Some (Inr (None, s))))"

definition sys_getpid :: "nat \<Rightarrow> kernel \<Rightarrow> kernel call" where
  "sys_getpid p s = Some (Inr (Some (word_of_int (p_pid (pr s p))), s))"

definition sys_fork :: "linker \<Rightarrow> nat \<Rightarrow> nat \<Rightarrow> kernel \<Rightarrow> kernel call" where
  "sys_fork Y c p s = ret_int (fork (y_end Y) (y_trampoline Y) (y_forkret Y) c p s)"

definition sys_sfork :: "linker \<Rightarrow> nat \<Rightarrow> nat \<Rightarrow> kernel \<Rightarrow> kernel call" where
  "sys_sfork Y c p s = ret_int (sfork (y_end Y) (y_trampoline Y) (y_forkret Y) c p s)"

definition sys_wait :: "linker \<Rightarrow> nat \<Rightarrow> nat \<Rightarrow> kernel \<Rightarrow> kernel call" where
  "sys_wait Y c p s =
     bind_run (argaddr p 0 s) (\<lambda>a. bind_run (wait (y_end Y) c p a (y_xstate Y) s) (\<lambda>(r, s).
     Some (Inr (map_option word_of_int r, s))))"

definition sys_sbrk :: "linker \<Rightarrow> nat \<Rightarrow> kernel \<Rightarrow> kernel call" where
  "sys_sbrk Y p s =
     bind_run (argint p 0 s) (\<lambda>n.
     let addr = p_sz (pr s p)
     in bind_run (growproc (y_end Y) p n s) (\<lambda>(r, s). Some (Inr (Some (if r < 0 then -1 else addr), s))))"

definition sys_kill :: "nat \<Rightarrow> nat \<Rightarrow> kernel \<Rightarrow> kernel call" where
  "sys_kill c p s = bind_run (argint p 0 s) (\<lambda>pid. ret_int (kill c (sint pid) s))"

definition sys_setpriority :: "nat \<Rightarrow> kernel \<Rightarrow> kernel call" where
  "sys_setpriority p s =
     bind_run (argint p 0 s) (\<lambda>pid. bind_run (argint p 1 s) (\<lambda>priority.
     if sint pid < 0 \<or> sint priority < 0 then Some (Inr (Some (-1), s))
     else case find (\<lambda>i. p_pid (pr s i) = sint pid) [0..<NPROC] of
            None \<Rightarrow> Some (Inr (Some (-1), s))
          | Some i \<Rightarrow> Some (Inr (Some 0, upd_proc i (\<lambda>q. q\<lparr>p_priority := sint priority\<rparr>) s))))"

definition sys_cpuutilization :: "kernel \<Rightarrow> kernel call" where
  "sys_cpuutilization s =
     (let total = sum_list (map (\<lambda>i. p_total_time (pr s i)) [0..<NPROC]);
          idle = sum_list (map (\<lambda>i. p_idle_time (pr s i)) [0..<NPROC])
      in Some (Inr (Some (if total = 0 then 0 else (total - idle) * 100 div total), s)))"

definition sys_count_zombies :: "kernel \<Rightarrow> kernel call" where
  "sys_count_zombies s = Some (Inr (Some (of_nat (count_zombies s)), s))"

section \<open>Calls on the clock\<close>

record machine =
  mk :: kernel
  ticks :: uint
  tickslock :: spinlock

definition acquire_ticks :: "nat \<Rightarrow> machine \<Rightarrow> machine run" where
  "acquire_ticks c m = bind_run (acquire c (tickslock m, kcpu (mk m))) (\<lambda>(lk, u). Some (Inr (m\<lparr>tickslock := lk, mk := (mk m)\<lparr>kcpu := u\<rparr>\<rparr>)))"

definition release_ticks :: "nat \<Rightarrow> machine \<Rightarrow> machine run" where
  "release_ticks c m = bind_run (Some (release c (tickslock m, kcpu (mk m)))) (\<lambda>(lk, u). Some (Inr (m\<lparr>tickslock := lk, mk := (mk m)\<lparr>kcpu := u\<rparr>\<rparr>)))"

text \<open>\<open>sleep(&ticks, &tickslock)\<close> up to the switch, and what runs when the process is scheduled again.\<close>

definition sleep_ticks :: "linker \<Rightarrow> nat \<Rightarrow> nat \<Rightarrow> machine \<Rightarrow> machine run" where
  "sleep_ticks Y c p m =
     bind_run (acquire_proc c p (mk m)) (\<lambda>s.
     bind_run (release_ticks c (m\<lparr>mk := s\<rparr>)) (\<lambda>m.
     bind_run (Some (sched c p (upd_proc p (\<lambda>q. q\<lparr>p_chan := Addr_chan (y_ticks Y), p_state := SLEEPING\<rparr>) (mk m)))) (\<lambda>s.
     Some (Inr (m\<lparr>mk := s\<rparr>)))))"

definition resume_ticks :: "nat \<Rightarrow> nat \<Rightarrow> machine \<Rightarrow> machine run" where
  "resume_ticks c p m =
     bind_run (release_proc c p (upd_proc p (\<lambda>q. q\<lparr>p_chan := Null\<rparr>) (mk m))) (\<lambda>s. acquire_ticks c (m\<lparr>mk := s\<rparr>))"

text \<open>One turn of the loop of \<open>sys_sleep\<close>: it returns, or the process sleeps and the turn is repeated.\<close>

definition sleep_turn :: "linker \<Rightarrow> nat \<Rightarrow> nat \<Rightarrow> uint \<Rightarrow> uint \<Rightarrow> machine \<Rightarrow> machine call" where
  "sleep_turn Y c p ticks0 n m =
     (if ticks m - ticks0 < n
      then bind_run (killed c p (mk m)) (\<lambda>(q, s).
           let m = m\<lparr>mk := s\<rparr>
           in if q \<noteq> 0 then bind_run (release_ticks c m) (\<lambda>m. Some (Inr (Some (-1), m)))
              else bind_run (sleep_ticks Y c p m) (\<lambda>m. Some (Inr (None, m))))
      else bind_run (release_ticks c m) (\<lambda>m. Some (Inr (Some 0, m))))"

definition sys_sleep :: "linker \<Rightarrow> nat \<Rightarrow> nat \<Rightarrow> machine \<Rightarrow> machine call" where
  "sys_sleep Y c p m =
     bind_run (argint p 0 (mk m)) (\<lambda>n.
     let n = (if sint n < 0 then 0 else n)
     in bind_run (acquire_ticks c m) (\<lambda>m. sleep_turn Y c p (ticks m) n m))"

definition sys_uptime :: "nat \<Rightarrow> machine \<Rightarrow> machine call" where
  "sys_uptime c m = bind_run (acquire_ticks c m) (\<lambda>m. bind_run (release_ticks c m) (\<lambda>m. Some (Inr (Some (ucast (ticks m)), m))))"

section \<open>Dispatch\<close>

datatype handler =
    Sys_fork | Sys_exit | Sys_wait | Sys_pipe | Sys_read | Sys_kill | Sys_exec | Sys_fstat | Sys_chdir | Sys_dup | Sys_getpid | Sys_sbrk
  | Sys_sleep | Sys_uptime | Sys_open | Sys_write | Sys_mknod | Sys_unlink | Sys_link | Sys_mkdir | Sys_close | Sys_sfork | Sys_setpriority
  | Sys_cpuutilization | Sys_count_zombies | Sys_pipetagged | Sys_pipetagged_write | Sys_pipetagged_read

definition syscalls :: "handler option list" where
  "syscalls = None # map Some
     [Sys_fork, Sys_exit, Sys_wait, Sys_pipe, Sys_read, Sys_kill, Sys_exec, Sys_fstat, Sys_chdir, Sys_dup, Sys_getpid, Sys_sbrk,
      Sys_sleep, Sys_uptime, Sys_open, Sys_write, Sys_mknod, Sys_unlink, Sys_link, Sys_mkdir, Sys_close, Sys_sfork, Sys_setpriority,
      Sys_cpuutilization, Sys_count_zombies, Sys_pipetagged, Sys_pipetagged_write, Sys_pipetagged_read]"

definition on_kernel :: "(kernel \<Rightarrow> kernel call) \<Rightarrow> machine \<Rightarrow> machine call" where
  "on_kernel f m = bind_run (f (mk m)) (\<lambda>(r, s). Some (Inr (r, m\<lparr>mk := s\<rparr>)))"

type_synonym file_calls = "handler \<Rightarrow> nat \<Rightarrow> nat \<Rightarrow> machine \<Rightarrow> machine call"

definition call_handler :: "linker \<Rightarrow> file_calls \<Rightarrow> handler \<Rightarrow> nat \<Rightarrow> nat \<Rightarrow> machine \<Rightarrow> machine call" where
  "call_handler Y files h c p m =
     (case h of
        Sys_fork \<Rightarrow> on_kernel (sys_fork Y c p) m
      | Sys_sfork \<Rightarrow> on_kernel (sys_sfork Y c p) m
      | Sys_exit \<Rightarrow> on_kernel (sys_exit c p) m
      | Sys_wait \<Rightarrow> on_kernel (sys_wait Y c p) m
      | Sys_kill \<Rightarrow> on_kernel (sys_kill c p) m
      | Sys_getpid \<Rightarrow> on_kernel (sys_getpid p) m
      | Sys_sbrk \<Rightarrow> on_kernel (sys_sbrk Y p) m
      | Sys_sleep \<Rightarrow> sys_sleep Y c p m
      | Sys_uptime \<Rightarrow> sys_uptime c m
      | Sys_setpriority \<Rightarrow> on_kernel (sys_setpriority p) m
      | Sys_cpuutilization \<Rightarrow> on_kernel sys_cpuutilization m
      | Sys_count_zombies \<Rightarrow> on_kernel sys_count_zombies m
      | _ \<Rightarrow> files h c p m)"

definition set_tf :: "nat \<Rightarrow> uint64 \<Rightarrow> uint64 \<Rightarrow> machine \<Rightarrow> machine" where
  "set_tf p off v m =
     (let s = mk m in m\<lparr>mk := s\<lparr>kram := (kram s)\<lparr>ram := store64 (ram (kram s)) (p_trapframe (pr s p) + off) v\<rparr>\<rparr>\<rparr>)"

definition get_tf :: "nat \<Rightarrow> uint64 \<Rightarrow> machine \<Rightarrow> uint64" where
  "get_tf p off m = load64 (ram (kram (mk m))) (p_trapframe (pr (mk m) p) + off)"

text \<open>Whether the call has returned, or the process has given up the CPU in it.\<close>

definition syscall :: "linker \<Rightarrow> file_calls \<Rightarrow> nat \<Rightarrow> nat \<Rightarrow> machine \<Rightarrow> (bool \<times> machine) run" where
  "syscall Y files c p m =
     (let num = sint (ucast (get_tf p TF_A7 m) :: uint)
      in if num > 0 \<and> nat num < length syscalls \<and> syscalls ! nat num \<noteq> None
         then bind_run (call_handler Y files (the (syscalls ! nat num)) c p m) (\<lambda>(r, m).
              case r of None \<Rightarrow> Some (Inr (False, m)) | Some v \<Rightarrow> Some (Inr (True, set_tf p TF_A0 v m)))
         else Some (Inr (True, set_tf p TF_A0 (-1) m)))"

end
