(* ===== verification/Trap.thy ===== *)
theory Trap
  imports Syscall
begin

text \<open>
  Traps and interrupts (\<open>kernel/trap.c\<close>). The control registers of the hart are a record; the interrupt enable bit of \<open>sstatus\<close> is the one
  that \<open>Locks\<close> keeps. What the interrupt controller reports and the handlers of the devices are parameters, as is the time.
  A path through \<open>usertrap\<close> ends in user space, with the value for \<open>satp\<close> that \<open>userret\<close> gets, or where the process gives up the CPU.
\<close>

unbundle bit_operations_syntax

section \<open>Registers\<close>

record hart =
  sstatus :: uint64
  scause :: uint64
  sepc :: uint64
  stvec :: uint64
  satp :: uint64
  stimecmp :: uint64

definition SSTATUS_SPP :: uint64 where "SSTATUS_SPP = push_bit 8 1"
definition SSTATUS_SPIE :: uint64 where "SSTATUS_SPIE = push_bit 5 1"
definition SSTATUS_SIE :: uint64 where "SSTATUS_SIE = push_bit 1 1"
definition SATP_SV39 :: uint64 where "SATP_SV39 = push_bit 60 8"
definition MAKE_SATP :: "uint64 \<Rightarrow> uint64" where "MAKE_SATP pagetable = SATP_SV39 OR drop_bit 12 pagetable"

definition r_sstatus :: "hart \<Rightarrow> machine \<Rightarrow> uint64" where
  "r_sstatus h m = (sstatus h AND NOT SSTATUS_SIE) OR (if intr (kcpu (mk m)) then SSTATUS_SIE else 0)"

definition set_intr :: "bool \<Rightarrow> machine \<Rightarrow> machine" where
  "set_intr b m = m\<lparr>mk := (mk m)\<lparr>kcpu := (kcpu (mk m))\<lparr>intr := b\<rparr>\<rparr>\<rparr>"

definition w_sstatus :: "uint64 \<Rightarrow> hart \<times> machine \<Rightarrow> hart \<times> machine" where
  "w_sstatus x = (\<lambda>(h, m). (h\<lparr>sstatus := x\<rparr>, set_intr (x AND SSTATUS_SIE \<noteq> 0) m))"

section \<open>Interrupts\<close>

text \<open>Where the code of the trap handlers lies, and the devices.\<close>

record vectors =
  v_kernelvec :: uint64
  v_uservec :: uint64          \<comment> \<open>\<open>uservec - trampoline\<close>\<close>
  v_usertrap :: uint64

record devices =
  plic_claim :: "nat \<Rightarrow> int"
  uartintr :: "machine \<Rightarrow> machine run"
  virtio_disk_intr :: "machine \<Rightarrow> machine run"
  r_time :: uint64

definition UART0_IRQ :: int where "UART0_IRQ = 10"
definition VIRTIO0_IRQ :: int where "VIRTIO0_IRQ = 1"

definition clockintr :: "linker \<Rightarrow> devices \<Rightarrow> nat \<Rightarrow> nat option \<Rightarrow> hart \<times> machine \<Rightarrow> (hart \<times> machine) run" where
  "clockintr Y D c me = (\<lambda>(h, m).
     bind_run
       (if c = 0
        then bind_run (acquire_ticks c m) (\<lambda>m.
             let m = m\<lparr>ticks := ticks m + 1\<rparr>
             in bind_run (wakeup c me (Addr_chan (y_ticks Y)) (mk m)) (\<lambda>s. release_ticks c (m\<lparr>mk := s\<rparr>)))
        else Some (Inr m))
       (\<lambda>m. Some (Inr (h\<lparr>stimecmp := r_time D + 1000000\<rparr>, m))))"

definition devintr :: "linker \<Rightarrow> devices \<Rightarrow> nat \<Rightarrow> nat option \<Rightarrow> hart \<times> machine \<Rightarrow> (int \<times> hart \<times> machine) run" where
  "devintr Y D c me = (\<lambda>(h, m).
     if scause h = 0x8000000000000009
     then let irq = plic_claim D c
          in bind_run (if irq = UART0_IRQ then uartintr D m else if irq = VIRTIO0_IRQ then virtio_disk_intr D m else Some (Inr m))
               (\<lambda>m. Some (Inr (1, h, m)))
     else if scause h = 0x8000000000000005
     then bind_run (clockintr Y D c me (h, m)) (\<lambda>x. Some (Inr (2, x)))
     else Some (Inr (0, h, m)))"

section \<open>Traps from user space\<close>

definition TF_KERNEL_SATP :: uint64 where "TF_KERNEL_SATP = 0"
definition TF_KERNEL_SP :: uint64 where "TF_KERNEL_SP = 8"
definition TF_KERNEL_TRAP :: uint64 where "TF_KERNEL_TRAP = 16"
definition TF_KERNEL_HARTID :: uint64 where "TF_KERNEL_HARTID = 32"

datatype outcome = User uint64 | Switched

definition usertrapret :: "vectors \<Rightarrow> nat \<Rightarrow> nat \<Rightarrow> hart \<times> machine \<Rightarrow> outcome \<times> hart \<times> machine" where
  "usertrapret V c p = (\<lambda>(h, m).
     let m = set_intr False m;
         h = h\<lparr>stvec := TRAMPOLINE + v_uservec V\<rparr>;
         m = set_tf p TF_KERNEL_SATP (satp h) m;
         m = set_tf p TF_KERNEL_SP (p_kstack (pr (mk m) p) + PGSIZE) m;
         m = set_tf p TF_KERNEL_TRAP (v_usertrap V) m;
         m = set_tf p TF_KERNEL_HARTID (of_nat c) m;
         x = (r_sstatus h m AND NOT SSTATUS_SPP) OR SSTATUS_SPIE;
         (h, m) = w_sstatus x (h, m);
         h = h\<lparr>sepc := get_tf p TF_EPC m\<rparr>
     in (User (MAKE_SATP (p_pagetable (pr (mk m) p))), h, m))"

text \<open>\<open>exit(-1)\<close> and \<open>yield()\<close>, which give up the CPU.\<close>

definition leave :: "hart \<Rightarrow> machine \<Rightarrow> kernel run \<Rightarrow> (outcome \<times> hart \<times> machine) run" where
  "leave h m r = bind_run r (\<lambda>s. Some (Inr (Switched, h, m\<lparr>mk := s\<rparr>)))"

definition usertrap_end :: "vectors \<Rightarrow> nat \<Rightarrow> nat \<Rightarrow> int \<Rightarrow> hart \<times> machine \<Rightarrow> (outcome \<times> hart \<times> machine) run" where
  "usertrap_end V c p which_dev = (\<lambda>(h, m).
     bind_run (killed c p (mk m)) (\<lambda>(q, s).
     let m = m\<lparr>mk := s\<rparr>
     in if q \<noteq> 0 then leave h m (exit c p (-1) s)
        else if which_dev = 2 then leave h m (yield c p s)
        else Some (Inr (usertrapret V c p (h, m)))))"

definition usertrap :: "linker \<Rightarrow> vectors \<Rightarrow> devices \<Rightarrow> file_calls \<Rightarrow> nat \<Rightarrow> nat \<Rightarrow> hart \<times> machine \<Rightarrow> (outcome \<times> hart \<times> machine) run" where
  "usertrap Y V D files c p = (\<lambda>(h, m).
     if r_sstatus h m AND SSTATUS_SPP \<noteq> 0 then Some (Inl (Panic ''usertrap: not from user mode''))
     else let h = h\<lparr>stvec := v_kernelvec V\<rparr>;
              m = set_tf p TF_EPC (sepc h) m
          in if scause h = 8
             then bind_run (killed c p (mk m)) (\<lambda>(q, s).
                  let m = m\<lparr>mk := s\<rparr>
                  in if q \<noteq> 0 then leave h m (exit c p (-1) s)
                     else let m = set_tf p TF_EPC (get_tf p TF_EPC m + 4) m;
                              m = set_intr True m
                          in bind_run (syscall Y files c p m) (\<lambda>(returned, m).
                             if returned then usertrap_end V c p 0 (h, m) else Some (Inr (Switched, h, m))))
             else bind_run (devintr Y D c (Some p) (h, m)) (\<lambda>(which_dev, h, m).
                  if which_dev \<noteq> 0 then usertrap_end V c p which_dev (h, m)
                  else bind_run (setkilled c p (mk m)) (\<lambda>s. usertrap_end V c p 0 (h, m\<lparr>mk := s\<rparr>))))"

section \<open>Traps in the kernel\<close>

text \<open>
  \<open>kerneltrap\<close> up to a possible switch, and from there on: \<open>me\<close> is \<open>myproc()\<close>. The result says whether \<open>yield\<close> was called; the
  registers are restored at the end, or when the process runs again.
\<close>

definition kerneltrap_end :: "uint64 \<Rightarrow> uint64 \<Rightarrow> hart \<times> machine \<Rightarrow> hart \<times> machine" where
  "kerneltrap_end epc st x = w_sstatus st (case x of (h, m) \<Rightarrow> (h\<lparr>sepc := epc\<rparr>, m))"

definition kerneltrap :: "linker \<Rightarrow> devices \<Rightarrow> nat \<Rightarrow> nat option \<Rightarrow> hart \<times> machine \<Rightarrow> (bool \<times> hart \<times> machine) run" where
  "kerneltrap Y D c me = (\<lambda>(h, m).
     let epc = sepc h; st = r_sstatus h m
     in if st AND SSTATUS_SPP = 0 then Some (Inl (Panic ''kerneltrap: not from supervisor mode''))
        else if intr (kcpu (mk m)) then Some (Inl (Panic ''kerneltrap: interrupts enabled''))
        else bind_run (devintr Y D c me (h, m)) (\<lambda>(which_dev, h, m).
             if which_dev = 0 then Some (Inl (Panic ''kerneltrap''))
             else case (which_dev = 2, me) of
                    (True, Some p) \<Rightarrow> bind_run (yield c p (mk m)) (\<lambda>s. Some (Inr (True, h, m\<lparr>mk := s\<rparr>)))
                  | _ \<Rightarrow> Some (Inr (False, kerneltrap_end epc st (h, m)))))"

end
