(* ===== verification/Trap_Run.thy ===== *)
theory Trap_Run
  imports Trap
begin

text \<open>
  System calls from the trap to the return to user space, the clock and sleeping on it, and fetching arguments
  (\<open>kernel/trap.c\<close>, \<open>kernel/syscall.c\<close>, \<open>kernel/sysproc.c\<close>), when the locks that are taken are free.
\<close>

unbundle bit_operations_syntax

lemma unat_sint: "0 \<le> sint n \<Longrightarrow> unat n = nat (sint n)" for n :: uint
proof -
  assume p: "0 \<le> sint n"
  have "sint n < 2 ^ (LENGTH(32) - 1)" by (rule sint_lt)
  then have "take_bit LENGTH(32) (sint n) = sint n" using p by (intro take_bit_int_eq_self) simp_all
  then have "uint n = sint n" using uint_sint [of n] by simp
  then show ?thesis by (simp add: unat_eq_nat_uint)
qed

section \<open>The trap frame\<close>

lemma aligned8_add:
  fixes a b :: uint64
  assumes "unat a mod 8 = 0" "unat b mod 8 = 0"
  shows "unat (a + b) mod 8 = 0"
proof -
  have "unat (a + b) = (unat a + unat b) mod 2 ^ 64" by (simp add: unat_word_ariths)
  then have "unat (a + b) mod 8 = (unat a + unat b) mod 8" by (simp add: mod_mod_cancel)
  then show ?thesis using assms by presburger
qed

lemma set_tf_simps [simp]:
  "procs (mk (set_tf p off v m)) = procs (mk m)" "kcpu (mk (set_tf p off v m)) = kcpu (mk m)" "pid_lock (mk (set_tf p off v m)) = pid_lock (mk m)"
  "wait_lock (mk (set_tf p off v m)) = wait_lock (mk m)" "tickslock (set_tf p off v m) = tickslock m" "ticks (set_tf p off v m) = ticks m"
  by (simp_all add: set_tf_def Let_def)

lemma set_intr_simps [simp]:
  "procs (mk (set_intr b m)) = procs (mk m)" "kram (mk (set_intr b m)) = kram (mk m)" "kcpu (mk (set_intr b m)) = (kcpu (mk m))\<lparr>intr := b\<rparr>"
  "pid_lock (mk (set_intr b m)) = pid_lock (mk m)" "wait_lock (mk (set_intr b m)) = wait_lock (mk m)"
  by (simp_all add: set_intr_def)

lemma get_tf_set:
  assumes "unat (p_trapframe (pr (mk m) p)) mod 8 = 0" "unat off mod 8 = 0" "unat off' mod 8 = 0"
  shows "get_tf p off (set_tf p off' v m) = (if off = off' then v else get_tf p off m)"
proof (cases "off = off'")
  case False
  then have "p_trapframe (pr (mk m) p) + off \<noteq> p_trapframe (pr (mk m) p) + off'" by simp
  then show ?thesis using False load64_store64_other [OF aligned8_add [OF assms(1,2)] aligned8_add [OF assms(1,3)]]
    by (simp add: get_tf_def set_tf_def Let_def)
qed (simp add: get_tf_def set_tf_def Let_def)

lemma get_tf_cong: "procs (mk m) = procs (mk m') \<Longrightarrow> kram (mk m) = kram (mk m') \<Longrightarrow> get_tf p off m = get_tf p off m'"
  by (simp add: get_tf_def)

section \<open>Locks that are free\<close>

lemma killed_free:
  assumes "quiet s" "p < NPROC"
  shows "\<exists>u. killed c p s = Some (Inr (p_killed (pr s p), s\<lparr>kcpu := u\<rparr>)) \<and> cpu_ok u \<and> noff u = noff (kcpu s)"
proof -
  have l: "p < length (procs s)" "lock_free (p_lock (pr s p))" "cpu_ok (kcpu s)" using assms by (auto simp: quiet_def)
  obtain u where "release_proc c p (lock_row c p s) = Some (Inr (s\<lparr>kcpu := u\<rparr>))" "cpu_ok u" "noff u = noff (kcpu s)"
    using release_unchanged [OF l] by blast
  then show ?thesis by (intro exI [of _ u]) (simp add: killed_def acquire_proc_free [OF l(2)])
qed

lemma quiet_cong:
  assumes "quiet s" "procs s' = procs s" "pid_lock s' = pid_lock s" "wait_lock s' = wait_lock s" "cpu_ok (kcpu s')"
  shows "quiet s'"
  using assms by (simp add: quiet_def)

lemma acquire_ticks_free:
  "lock_free (tickslock m) \<Longrightarrow> acquire_ticks c m = Some (Inr (m\<lparr>tickslock := held_by c (tickslock m), mk := (mk m)\<lparr>kcpu := push_off (kcpu (mk m))\<rparr>\<rparr>))"
  by (simp add: acquire_ticks_def acquire_free')

lemma release_ticks_free:
  assumes "lock_free lk" "tickslock m = held_by c lk" "cpu_ok (kcpu (mk m))" "0 < noff (kcpu (mk m))"
  shows "\<exists>u. release_ticks c m = Some (Inr (m\<lparr>tickslock := lk, mk := (mk m)\<lparr>kcpu := u\<rparr>\<rparr>)) \<and> cpu_ok u \<and> noff u = noff (kcpu (mk m)) - 1"
proof -
  obtain u where "release c (held_by c lk, kcpu (mk m)) = Inr (lk, u)" "cpu_ok u" "noff u = noff (kcpu (mk m)) - 1"
    using release_free [OF assms(1,3,4)] by blast
  then show ?thesis by (intro exI [of _ u]) (simp add: release_ticks_def assms(2))
qed

section \<open>The clock\<close>

text \<open>
  Also proved (a clock tick). On CPU 0 a clock interrupt adds one to the tick counter and makes runnable exactly the processes that
  sleep on it; the other CPUs only ask for their next interrupt. The locks that are taken are released again.
\<close>

theorem clockintr_ticks:
  assumes q: "quiet (mk m)" and t: "lock_free (tickslock m)"
  shows "\<exists>u. clockintr Y D c me (h, m) = Some (Inr (h\<lparr>stimecmp := r_time D + 1000000\<rparr>,
      (if c = 0 then m\<lparr>ticks := ticks m + 1, mk := (mk m)\<lparr>procs := wake_all me (Addr_chan (y_ticks Y)) {..<NPROC} (procs (mk m)), kcpu := u\<rparr>\<rparr> else m))) \<and>
    cpu_ok u \<and> noff u = noff (kcpu (mk m))"
proof (cases "c = 0")
  case True
  let ?m = "m\<lparr>tickslock := held_by c (tickslock m), mk := (mk m)\<lparr>kcpu := push_off (kcpu (mk m))\<rparr>, ticks := ticks m + 1\<rparr>"
  have cpu: "cpu_ok (kcpu (mk m))" using q by (simp add: quiet_def)
  have push: "cpu_ok (push_off (kcpu (mk m)))" "noff (push_off (kcpu (mk m))) = noff (kcpu (mk m)) + 1" using push_off_ok [OF cpu] by simp_all
  obtain u where u: "wakeup c me (Addr_chan (y_ticks Y)) (mk ?m) =
      Some (Inr ((mk ?m)\<lparr>procs := wake_all me (Addr_chan (y_ticks Y)) {..<NPROC} (procs (mk ?m)), kcpu := u\<rparr>))" "cpu_ok u" "noff u = noff (kcpu (mk ?m))"
    using wakeup_free [of "mk ?m" me c "Addr_chan (y_ticks Y)"] q push(1) by (auto simp: quiet_def)
  let ?m2 = "?m\<lparr>mk := (mk ?m)\<lparr>procs := wake_all me (Addr_chan (y_ticks Y)) {..<NPROC} (procs (mk ?m)), kcpu := u\<rparr>\<rparr>"
  have "cpu_ok (kcpu (mk ?m2))" "0 < noff (kcpu (mk ?m2))" "tickslock ?m2 = held_by c (tickslock m)"
    using u push(2) cpu by (simp_all add: cpu_ok_def)
  then obtain v where "release_ticks c ?m2 = Some (Inr (?m2\<lparr>tickslock := tickslock m, mk := (mk ?m2)\<lparr>kcpu := v\<rparr>\<rparr>))" "cpu_ok v" "noff v = noff (kcpu (mk ?m2)) - 1"
    using release_ticks_free [OF t, of ?m2 c] by blast
  then show ?thesis using True u push(2) by (intro exI [of _ v]) (simp add: clockintr_def acquire_ticks_free [OF t] Let_def)
next
  case False
  have "cpu_ok (kcpu (mk m))" using q by (simp add: quiet_def)
  then show ?thesis using False by (intro exI [of _ "kcpu (mk m)"]) (simp add: clockintr_def)
qed


section \<open>Sleeping on the clock\<close>

lemma release_held_proc:
  assumes "i < length (procs s)" "lock_free lk" "p_lock (pr s i) = held_by c lk" "cpu_ok (kcpu s)" "0 < noff (kcpu s)"
  shows "\<exists>u. release_proc c i s = Some (Inr (upd_proc i (\<lambda>p. p\<lparr>p_lock := lk\<rparr>) (s\<lparr>kcpu := u\<rparr>))) \<and> cpu_ok u \<and> noff u = noff (kcpu s) - 1"
proof -
  obtain u where "release c (held_by c lk, kcpu s) = Inr (lk, u)" "cpu_ok u" "noff u = noff (kcpu s) - 1"
    using release_free [OF assms(2,4,5)] by blast
  then show ?thesis by (intro exI [of _ u]) (simp add: release_proc_def assms(3))
qed

text \<open>A process that sleeps on the clock, at the switch: it holds its own lock.\<close>

definition dozing :: "linker \<Rightarrow> nat \<Rightarrow> nat \<Rightarrow> kernel \<Rightarrow> kernel \<Rightarrow> bool" where
  "dozing Y c p s s' \<longleftrightarrow> (\<exists>u. cpu_ok u \<and> noff u = 1 \<and>
     s' = upd_proc p (\<lambda>q. q\<lparr>p_lock := held_by c (p_lock q), p_chan := Addr_chan (y_ticks Y), p_state := SLEEPING\<rparr>) (s\<lparr>kcpu := u\<rparr>))"

lemma sleep_ticks_free:
  assumes q: "quiet (mk m)" and p: "p < NPROC" and t: "lock_free lk" "tickslock m = held_by c lk" and n: "noff (kcpu (mk m)) = 1"
  shows "\<exists>s. sleep_ticks Y c p m = Some (Inr (m\<lparr>tickslock := lk, mk := s\<rparr>)) \<and> dozing Y c p (mk m) s"
proof -
  let ?s = "mk m"
  have l: "p < length (procs ?s)" "lock_free (p_lock (pr ?s p))" "cpu_ok (kcpu ?s)" using q p by (auto simp: quiet_def)
  let ?m = "m\<lparr>mk := lock_row c p ?s\<rparr>"
  have push: "cpu_ok (push_off (kcpu ?s))" "noff (push_off (kcpu ?s)) = 2" using push_off_ok [OF l(3)] n by simp_all
  then obtain u where u: "release_ticks c ?m = Some (Inr (?m\<lparr>tickslock := lk, mk := (mk ?m)\<lparr>kcpu := u\<rparr>\<rparr>))" "cpu_ok u" "noff u = 1"
    using release_ticks_free [OF t(1), of ?m c] t(2) by auto
  let ?d = "upd_proc p (\<lambda>q. q\<lparr>p_lock := held_by c (p_lock q), p_chan := Addr_chan (y_ticks Y), p_state := SLEEPING\<rparr>) (?s\<lparr>kcpu := u\<rparr>)"
  have e: "upd_proc p (\<lambda>q. q\<lparr>p_chan := Addr_chan (y_ticks Y), p_state := SLEEPING\<rparr>) ((lock_row c p ?s)\<lparr>kcpu := u\<rparr>) = ?d"
    using l(1) by (simp add: upd_proc_def lock_row_def)
  have "\<not> intr u" using u by (simp add: cpu_ok_def)
  then have "sched c p ?d = Inr ?d" using u l(1) by (simp add: sched_def upd_proc_def)
  then have "sleep_ticks Y c p m = Some (Inr (m\<lparr>tickslock := lk, mk := ?d\<rparr>))"
    using u(1) e by (simp add: sleep_ticks_def acquire_proc_free [OF l(2)])
  then show ?thesis using u(2,3) unfolding dozing_def by blast
qed

lemma sleep_turn_exact:
  assumes q: "quiet (mk m)" and p: "p < NPROC" "p_killed (pr (mk m) p) = 0" and t: "lock_free lk" "tickslock m = held_by c lk" and n: "noff (kcpu (mk m)) = 1"
    and k: "ticks m = t0 + of_nat k" "k < 2 ^ 32"
  shows "k < unat n \<Longrightarrow> \<exists>s. sleep_turn Y c p t0 n m = Some (Inr (None, m\<lparr>tickslock := lk, mk := s\<rparr>)) \<and> dozing Y c p (mk m) s"
    "unat n \<le> k \<Longrightarrow> \<exists>u. sleep_turn Y c p t0 n m = Some (Inr (Some 0, m\<lparr>tickslock := lk, mk := (mk m)\<lparr>kcpu := u\<rparr>\<rparr>)) \<and> cpu_ok u \<and> noff u = 0"
proof -
  have "unat (of_nat k :: uint) = k" using k(2) by (simp add: unsigned_of_nat take_bit_nat_eq_self)
  then have lt: "ticks m - t0 < n \<longleftrightarrow> k < unat n" by (simp add: k(1) word_less_nat_alt)
  have cpu: "cpu_ok (kcpu (mk m))" using q by (simp add: quiet_def)
  show "\<exists>u. sleep_turn Y c p t0 n m = Some (Inr (Some 0, m\<lparr>tickslock := lk, mk := (mk m)\<lparr>kcpu := u\<rparr>\<rparr>)) \<and> cpu_ok u \<and> noff u = 0" if "unat n \<le> k"
    using release_ticks_free [OF t cpu] n lt that by (auto simp: sleep_turn_def)
  assume kn: "k < unat n"
  obtain u where u: "killed c p (mk m) = Some (Inr (0, (mk m)\<lparr>kcpu := u\<rparr>))" "cpu_ok u" "noff u = 1" using killed_free [OF q p(1)] p(2) n by auto
  have q': "quiet (mk (m\<lparr>mk := (mk m)\<lparr>kcpu := u\<rparr>\<rparr>))" by (rule quiet_cong [OF q]) (use u in simp_all)
  from sleep_ticks_free [OF q' p(1) t(1), of c Y] obtain s where
    "sleep_ticks Y c p (m\<lparr>mk := (mk m)\<lparr>kcpu := u\<rparr>\<rparr>) = Some (Inr (m\<lparr>tickslock := lk, mk := s\<rparr>))" "dozing Y c p ((mk m)\<lparr>kcpu := u\<rparr>) s"
    using t(2) u(3) by auto
  moreover from this(2) have "dozing Y c p (mk m) s" by (auto simp: dozing_def)
  ultimately show "\<exists>s. sleep_turn Y c p t0 n m = Some (Inr (None, m\<lparr>tickslock := lk, mk := s\<rparr>)) \<and> dozing Y c p (mk m) s"
    using u(1) lt kn by (auto simp: sleep_turn_def Let_def)
qed

text \<open>
  From one tick to the next: the scheduler, to which the process has switched, releases its lock; CPU 0 takes a clock interrupt; the
  scheduler finds the process runnable and switches to it; and the loop of \<open>sys_sleep\<close> goes on.
\<close>

definition tick_cycle :: "linker \<Rightarrow> devices \<Rightarrow> nat \<Rightarrow> nat \<Rightarrow> uint \<Rightarrow> uint \<Rightarrow> hart \<times> machine \<Rightarrow> (uint64 option \<times> hart \<times> machine) run" where
  "tick_cycle Y D c p ticks0 n = (\<lambda>(h, m).
     bind_run (release_proc c p (mk m)) (\<lambda>s.
     bind_run (clockintr Y D 0 None (h, m\<lparr>mk := s\<rparr>)) (\<lambda>(h, m).
     bind_run (acquire_proc c p (mk m)) (\<lambda>s.
     if p_state (pr s p) \<noteq> RUNNABLE then Some (Inr (None, h, m\<lparr>mk := s\<rparr>))
     else bind_run (resume_ticks c p (m\<lparr>mk := upd_proc p (\<lambda>q. q\<lparr>p_state := RUNNING\<rparr>) s\<rparr>)) (\<lambda>m.
          bind_run (sleep_turn Y c p ticks0 n m) (\<lambda>(r, m). Some (Inr (r, h, m))))))))"

fun sleep_run :: "linker \<Rightarrow> devices \<Rightarrow> nat \<Rightarrow> nat \<Rightarrow> uint \<Rightarrow> uint \<Rightarrow> nat \<Rightarrow> uint64 option \<times> hart \<times> machine \<Rightarrow> (uint64 option \<times> hart \<times> machine) run" where
  "sleep_run Y D c p ticks0 n 0 x = Some (Inr x)"
| "sleep_run Y D c p ticks0 n (Suc j) x = bind_run (sleep_run Y D c p ticks0 n j x) (\<lambda>(r, h, m).
     case r of None \<Rightarrow> tick_cycle Y D c p ticks0 n (h, m) | Some v \<Rightarrow> Some (Inr (r, h, m)))"

lemma wake_all_nth: "i < length ps \<Longrightarrow> wake_all me ch I ps ! i = (if i \<in> I \<and> me \<noteq> Some i then wake ch (ps ! i) else ps ! i)"
  by (simp add: wake_all_def)

lemma wake_all_length [simp]: "length (wake_all me ch I ps) = length ps"
  by (simp add: wake_all_def)


lemma quiet_upd:
  assumes "quiet s" "p < NPROC" "\<And>q. p_lock (f q) = p_lock q" "cpu_ok u"
  shows "quiet ((upd_proc p f s)\<lparr>kcpu := u\<rparr>)"
  using assms by (auto simp: quiet_def upd_proc_def nth_list_update)

lemma wake_simps [simp]: "p_lock (wake ch q) = p_lock q" "p_killed (wake ch q) = p_killed q"
  by (simp_all add: wake_def)

lemma dozing_release:
  assumes q: "quiet s" and p: "p < NPROC" and d: "dozing Y c p s s'"
  shows "\<exists>u. release_proc c p s' = Some (Inr ((upd_proc p (\<lambda>q. q\<lparr>p_chan := Addr_chan (y_ticks Y), p_state := SLEEPING\<rparr>) s)\<lparr>kcpu := u\<rparr>)) \<and> cpu_ok u \<and> noff u = 0"
proof -
  have l: "p < length (procs s)" "lock_free (p_lock (pr s p))" using q p by (auto simp: quiet_def)
  obtain u where u: "cpu_ok u" "noff u = 1" and
    s': "s' = upd_proc p (\<lambda>q. q\<lparr>p_lock := held_by c (p_lock q), p_chan := Addr_chan (y_ticks Y), p_state := SLEEPING\<rparr>) (s\<lparr>kcpu := u\<rparr>)"
    using d unfolding dozing_def by blast
  have "p < length (procs s')" "p_lock (pr s' p) = held_by c (p_lock (pr s p))" "kcpu s' = u" using l(1) by (simp_all add: s' upd_proc_def)
  then obtain v where v: "release_proc c p s' = Some (Inr (upd_proc p (\<lambda>q. q\<lparr>p_lock := p_lock (pr s p)\<rparr>) (s'\<lparr>kcpu := v\<rparr>)))" "cpu_ok v" "noff v = 0"
    using release_held_proc [of p s' "p_lock (pr s p)" c] l(2) u by auto
  have "upd_proc p (\<lambda>q. q\<lparr>p_lock := p_lock (pr s p)\<rparr>) (s'\<lparr>kcpu := v\<rparr>) = (upd_proc p (\<lambda>q. q\<lparr>p_chan := Addr_chan (y_ticks Y), p_state := SLEEPING\<rparr>) s)\<lparr>kcpu := v\<rparr>"
    using l(1) by (simp add: s' upd_proc_def)
  then show ?thesis using v by auto
qed

text \<open>The process wakes up, holding the lock of the clock.\<close>

lemma wake_up:
  assumes q: "quiet s" and p: "p < NPROC" "p_killed (pr s p) = 0" and d: "dozing Y c p s (mk m)" and t: "lock_free (tickslock m)"
  shows "\<exists>h' m'. tick_cycle Y D c p t0 n (h, m) = bind_run (sleep_turn Y c p t0 n m') (\<lambda>(r, m). Some (Inr (r, h', m))) \<and> quiet (mk m') \<and>
    p_killed (pr (mk m') p) = 0 \<and> tickslock m' = held_by c (tickslock m) \<and> noff (kcpu (mk m')) = 1 \<and> ticks m' = ticks m + 1"
proof -
  let ?ch = "Addr_chan (y_ticks Y)"
  obtain u where u: "release_proc c p (mk m) = Some (Inr ((upd_proc p (\<lambda>q. q\<lparr>p_chan := ?ch, p_state := SLEEPING\<rparr>) s)\<lparr>kcpu := u\<rparr>))" "cpu_ok u" "noff u = 0"
    using dozing_release [OF q p(1) d] by blast
  define s1 where "s1 = (upd_proc p (\<lambda>q. q\<lparr>p_chan := ?ch, p_state := SLEEPING\<rparr>) s)\<lparr>kcpu := u\<rparr>"
  have q1: "quiet s1" unfolding s1_def by (rule quiet_upd [OF q p(1)]) (use u in simp_all)
  have l1: "p < length (procs s1)" "length (procs s1) = NPROC" using q1 p(1) by (auto simp: quiet_def)
  have p1: "p_state (pr s1 p) = SLEEPING" "p_chan (pr s1 p) = ?ch" "p_killed (pr s1 p) = 0" "noff (kcpu s1) = 0"
    using l1 p(2) u by (simp_all add: s1_def upd_proc_def)
  have "quiet (mk (m\<lparr>mk := s1\<rparr>))" "lock_free (tickslock (m\<lparr>mk := s1\<rparr>))" using q1 t by simp_all
  from clockintr_ticks [OF this, of Y D 0 None h] obtain v where
    v: "clockintr Y D 0 None (h, m\<lparr>mk := s1\<rparr>) = Some (Inr (h\<lparr>stimecmp := r_time D + 1000000\<rparr>,
        m\<lparr>ticks := ticks m + 1, mk := s1\<lparr>procs := wake_all None ?ch {..<NPROC} (procs s1), kcpu := v\<rparr>\<rparr>))" "cpu_ok v" "noff v = 0"
    using p1(4) by auto
  define s2 where "s2 = s1\<lparr>procs := wake_all None ?ch {..<NPROC} (procs s1), kcpu := v\<rparr>"
  have q2: "quiet s2" using q1 v(2) l1(2) by (auto simp: quiet_def s2_def wake_all_nth)
  have l2: "p < length (procs s2)" "lock_free (p_lock (pr s2 p))" "cpu_ok (kcpu s2)" using q2 p(1) by (auto simp: quiet_def)
  have p2: "p_state (pr s2 p) = RUNNABLE" "p_killed (pr s2 p) = 0" using p1 l1 by (simp_all add: s2_def wake_all_nth wake_def)
  let ?f = "\<lambda>q. q\<lparr>p_state := RUNNING, p_chan := Null\<rparr>"
  obtain w where w: "release_proc c p (upd_proc p ?f (lock_row c p s2)) = Some (Inr (upd_proc p ?f (s2\<lparr>kcpu := w\<rparr>)))" "cpu_ok w" "noff w = noff (kcpu s2)"
    using release_proc_free [OF l2, of ?f c] by auto
  have f: "upd_proc p (\<lambda>q. q\<lparr>p_chan := Null\<rparr>) (upd_proc p (\<lambda>q. q\<lparr>p_state := RUNNING\<rparr>) (lock_row c p s2)) = upd_proc p ?f (lock_row c p s2)"
    using l2(1) by (simp add: upd_proc_def lock_row_def)
  let ?s3 = "upd_proc p ?f (s2\<lparr>kcpu := w\<rparr>)"
  let ?m3 = "m\<lparr>ticks := ticks m + 1, mk := ?s3\<lparr>kcpu := push_off w\<rparr>, tickslock := held_by c (tickslock m)\<rparr>"
  have push: "cpu_ok (push_off w)" "noff (push_off w) = 1" using push_off_ok [OF w(2)] w(3) v(3) by (simp_all add: s2_def)
  have r: "resume_ticks c p (m\<lparr>ticks := ticks m + 1, mk := upd_proc p (\<lambda>q. q\<lparr>p_state := RUNNING\<rparr>) (lock_row c p s2)\<rparr>) = Some (Inr ?m3)"
    using w(1) f t by (simp add: resume_ticks_def acquire_ticks_free upd_proc_def)
  have "quiet ((upd_proc p ?f s2)\<lparr>kcpu := push_off w\<rparr>)" by (rule quiet_upd [OF q2 p(1)]) (use push in simp_all)
  then have q3: "quiet (mk ?m3)" by (simp add: upd_proc_def)
  have "tick_cycle Y D c p t0 n (h, m) = bind_run (sleep_turn Y c p t0 n ?m3) (\<lambda>(r, m). Some (Inr (r, h\<lparr>stimecmp := r_time D + 1000000\<rparr>, m)))"
    using u(1) v(1) r acquire_proc_free [OF l2(2), of c] l2(1) p2(1) unfolding tick_cycle_def s1_def [symmetric] s2_def [symmetric] by simp
  moreover have "p_killed (pr (mk ?m3) p) = 0" using p2 l2(1) by (simp add: upd_proc_def)
  moreover have "noff (kcpu (mk ?m3)) = 1" using push by simp
  ultimately show ?thesis using q3 by (intro exI [of _ "h\<lparr>stimecmp := r_time D + 1000000\<rparr>"] exI [of _ ?m3]) simp
qed

text \<open>The state of a sleeper after \<open>j\<close> ticks.\<close>

definition after_ticks :: "linker \<Rightarrow> nat \<Rightarrow> nat \<Rightarrow> uint \<Rightarrow> uint \<Rightarrow> spinlock \<Rightarrow> nat \<Rightarrow> uint64 option \<times> hart \<times> machine \<Rightarrow> bool" where
  "after_ticks Y c p t0 n lk j = (\<lambda>(r, h, m). tickslock m = lk \<and> ticks m = t0 + of_nat (min j (unat n)) \<and>
     (if j < unat n then r = None \<and> (\<exists>s. quiet s \<and> p_killed (pr s p) = 0 \<and> dozing Y c p s (mk m))
      else r = Some 0 \<and> quiet (mk m) \<and> noff (kcpu (mk m)) = 0))"

lemma sleep_turn_after:
  assumes q: "quiet (mk m)" and p: "p < NPROC" "p_killed (pr (mk m) p) = 0" and t: "lock_free lk" "tickslock m = held_by c lk" and n: "noff (kcpu (mk m)) = 1"
    and k: "ticks m = t0 + of_nat k" "k \<le> unat n"
  shows "\<exists>r m'. sleep_turn Y c p t0 n m = Some (Inr (r, m')) \<and> after_ticks Y c p t0 n lk k (r, h, m')"
proof -
  have "unat n < 2 ^ LENGTH(32)" by (rule unsigned_less)
  then have k32: "k < 2 ^ 32" using k(2) by simp
  note e = sleep_turn_exact [OF q p t n k(1) k32, of n Y]
  show ?thesis
  proof (cases "k < unat n")
    case True
    then obtain s where "sleep_turn Y c p t0 n m = Some (Inr (None, m\<lparr>tickslock := lk, mk := s\<rparr>))" "dozing Y c p (mk m) s" using e(1) by blast
    then show ?thesis using True q p k by (intro exI [of _ None] exI [of _ "m\<lparr>tickslock := lk, mk := s\<rparr>"]) (auto simp: after_ticks_def)
  next
    case False
    then obtain u where u: "sleep_turn Y c p t0 n m = Some (Inr (Some 0, m\<lparr>tickslock := lk, mk := (mk m)\<lparr>kcpu := u\<rparr>\<rparr>))" "cpu_ok u" "noff u = 0" using e(2) by auto
    have "quiet ((mk m)\<lparr>kcpu := u\<rparr>)" by (rule quiet_cong [OF q]) (use u in simp_all)
    then show ?thesis using False u k by (intro exI [of _ "Some 0"] exI [of _ "m\<lparr>tickslock := lk, mk := (mk m)\<lparr>kcpu := u\<rparr>\<rparr>"]) (auto simp: after_ticks_def min_def)
  qed
qed

lemma sleep_run_after:
  assumes p: "p < NPROC" and t: "lock_free lk" and x: "after_ticks Y c p t0 n lk 0 x"
  shows "\<exists>y. sleep_run Y D c p t0 n j x = Some (Inr y) \<and> after_ticks Y c p t0 n lk j y"
proof (induction j)
  case 0
  then show ?case using x by simp
next
  case (Suc j)
  then obtain r h m where y: "sleep_run Y D c p t0 n j x = Some (Inr (r, h, m))" "after_ticks Y c p t0 n lk j (r, h, m)" by auto
  show ?case
  proof (cases "j < unat n")
    case True
    then obtain s where s: "r = None" "quiet s" "p_killed (pr s p) = 0" "dozing Y c p s (mk m)" "tickslock m = lk" "ticks m = t0 + of_nat j"
      using y(2) by (auto simp: after_ticks_def min_def)
    obtain h' m' where w: "tick_cycle Y D c p t0 n (h, m) = bind_run (sleep_turn Y c p t0 n m') (\<lambda>(r, m). Some (Inr (r, h', m)))" "quiet (mk m')"
      "p_killed (pr (mk m') p) = 0" "tickslock m' = held_by c lk" "noff (kcpu (mk m')) = 1" "ticks m' = ticks m + 1"
      using wake_up [OF s(2) p s(3,4)] t s(5) by blast
    have "ticks m' = t0 + of_nat (Suc j)" using w(6) s(6) by simp
    from sleep_turn_after [OF w(2) p w(3) t w(4,5) this, of n Y h'] True obtain r' m'' where
      "sleep_turn Y c p t0 n m' = Some (Inr (r', m''))" "after_ticks Y c p t0 n lk (Suc j) (r', h', m'')" by auto
    then show ?thesis using y(1) s(1) w(1) by auto
  next
    case False
    then have "r = Some 0" "after_ticks Y c p t0 n lk (Suc j) (r, h, m)" using y(2) by (auto simp: after_ticks_def min_def)
    then show ?thesis using y(1) by auto
  qed
qed

text \<open>
  Property C32 (sleep lasts as long as asked). Let a process that is not killed call \<open>sleep(n)\<close>, and let the locks be free. The call returns
  at once when \<open>n\<close> is not positive. Otherwise the process sleeps, every clock tick wakes it, and it goes to sleep again until
  exactly \<open>n\<close> ticks have passed; then the call returns 0. This holds across the wrap-around of the tick counter.
\<close>

theorem sys_sleep_lasts:
  assumes "quiet (mk m)" "noff (kcpu (mk m)) = 0" "p < NPROC" "p_killed (pr (mk m) p) = 0" "lock_free (tickslock m)"
    and n: "argint p 0 (mk m) = Some (Inr n)"
  shows "\<exists>r m1. sys_sleep Y c p m = Some (Inr (r, m1)) \<and>
    (\<forall>j. \<exists>r' h' m'. sleep_run Y D c p (ticks m) (if sint n < 0 then 0 else n) j (r, h, m1) = Some (Inr (r', h', m')) \<and>
       r' = (if int j < sint n then None else Some 0) \<and> ticks m' = ticks m + of_nat (min j (nat (sint n))) \<and> lock_free (tickslock m'))"
proof -
  let ?n = "if sint n < 0 then 0 else n"
  let ?m = "m\<lparr>tickslock := held_by c (tickslock m), mk := (mk m)\<lparr>kcpu := push_off (kcpu (mk m))\<rparr>\<rparr>"
  have un: "unat ?n = nat (sint n)" using unat_sint [of n] by (auto simp: not_less)
  have push: "cpu_ok (push_off (kcpu (mk m)))" "noff (push_off (kcpu (mk m))) = 1" using push_off_ok [of "kcpu (mk m)"] assms(1,2) by (simp_all add: quiet_def)
  have q: "quiet (mk ?m)" by (rule quiet_cong [OF assms(1)]) (use push in simp_all)
  obtain r m1 where r: "sleep_turn Y c p (ticks m) ?n ?m = Some (Inr (r, m1))" "after_ticks Y c p (ticks m) ?n (tickslock m) 0 (r, h, m1)"
    using sleep_turn_after [OF q assms(3) _ assms(5), of c "ticks m" 0 ?n Y h] assms(4) push(2) by auto
  have "sys_sleep Y c p m = Some (Inr (r, m1))" using r(1) n by (simp add: sys_sleep_def acquire_ticks_free [OF assms(5)] Let_def)
  moreover have "\<exists>r' h' m'. sleep_run Y D c p (ticks m) ?n j (r, h, m1) = Some (Inr (r', h', m')) \<and>
       r' = (if int j < sint n then None else Some 0) \<and> ticks m' = ticks m + of_nat (min j (nat (sint n))) \<and> lock_free (tickslock m')" for j
  proof -
    obtain y where y: "sleep_run Y D c p (ticks m) ?n j (r, h, m1) = Some (Inr y)" "after_ticks Y c p (ticks m) ?n (tickslock m) j y"
      using sleep_run_after [OF assms(3,5) r(2), of D j] by blast
    obtain r' h' m' where e: "y = (r', h', m')" by (cases y)
    have "j < unat ?n \<longleftrightarrow> int j < sint n" unfolding un by auto
    then show ?thesis using y assms(5) unfolding e after_ticks_def prod.case un
      by (intro exI [of _ r'] exI [of _ h'] exI [of _ m']) (auto split: if_splits)
  qed
  ultimately show ?thesis by blast
qed


section \<open>System calls from trap to return\<close>

definition frame_ok :: "nat \<Rightarrow> machine \<Rightarrow> bool" where
  "frame_ok p m \<longleftrightarrow> unat (p_trapframe (pr (mk m) p)) mod 8 = 0"

lemma frame_ok_cong [simp]:
  "frame_ok p (set_tf p' off v m) = frame_ok p m" "frame_ok p (set_intr b m) = frame_ok p m"
  by (simp_all add: frame_ok_def)

lemma get_tf_simps [simp]:
  "get_tf p off (set_intr b m) = get_tf p off m" "get_tf p off (m\<lparr>mk := (mk m)\<lparr>kcpu := u\<rparr>\<rparr>) = get_tf p off m"
  by (simp_all add: get_tf_def)

lemma sstatus_bits: "bit SSTATUS_SPP n \<longleftrightarrow> n = 8" "bit SSTATUS_SPIE n \<longleftrightarrow> n = 5" "bit SSTATUS_SIE n \<longleftrightarrow> n = 1"
  unfolding SSTATUS_SPP_def SSTATUS_SPIE_def SSTATUS_SIE_def bit_push_bit_iff bit_1_iff by auto

lemma usertrapret_frame:
  assumes f: "frame_ok p m" and r: "usertrapret V c p (h, m) = (o', h', m')"
  shows "o' = User (MAKE_SATP (p_pagetable (pr (mk m) p)))" "sepc h' = get_tf p TF_EPC m" "stvec h' = TRAMPOLINE + v_uservec V"
    "sstatus h' AND SSTATUS_SPP = 0" "sstatus h' AND SSTATUS_SPIE \<noteq> 0" "\<not> intr (kcpu (mk m'))" "procs (mk m') = procs (mk m)"
    "\<And>off. unat off mod 8 = 0 \<Longrightarrow> 40 \<le> off \<Longrightarrow> get_tf p off m' = get_tf p off m"
proof -
  define m1 where "m1 = set_tf p TF_KERNEL_HARTID (of_nat c) (set_tf p TF_KERNEL_TRAP (v_usertrap V) (set_tf p TF_KERNEL_SP (p_kstack (pr (mk m) p) + PGSIZE)
    (set_tf p TF_KERNEL_SATP (satp h) (set_intr False m))))"
  define x where "x = (r_sstatus h m1 AND NOT SSTATUS_SPP) OR SSTATUS_SPIE"
  have e: "o' = User (MAKE_SATP (p_pagetable (pr (mk m1) p)))" "h' = h\<lparr>stvec := TRAMPOLINE + v_uservec V, sstatus := x, sepc := get_tf p TF_EPC m1\<rparr>"
    "m' = set_intr (x AND SSTATUS_SIE \<noteq> 0) m1"
    using r by (simp_all add: usertrapret_def Let_def m1_def x_def w_sstatus_def r_sstatus_def)
  have pm: "procs (mk m1) = procs (mk m)" by (simp add: m1_def)
  then show "o' = User (MAKE_SATP (p_pagetable (pr (mk m) p)))" "procs (mk m') = procs (mk m)" using e by simp_all
  have off: "get_tf p off m1 = get_tf p off m" if "unat off mod 8 = 0" "off = TF_EPC \<or> 40 \<le> off" for off
  proof -
    have n: "off \<noteq> TF_KERNEL_HARTID" "off \<noteq> TF_KERNEL_TRAP" "off \<noteq> TF_KERNEL_SP" "off \<noteq> TF_KERNEL_SATP"
      using that(2) by (auto simp: TF_KERNEL_HARTID_def TF_KERNEL_TRAP_def TF_KERNEL_SP_def TF_KERNEL_SATP_def TF_EPC_def)
    have a: "unat TF_KERNEL_HARTID mod 8 = 0" "unat TF_KERNEL_TRAP mod 8 = 0" "unat TF_KERNEL_SP mod 8 = 0" "unat TF_KERNEL_SATP mod 8 = 0"
      by (simp_all add: TF_KERNEL_HARTID_def TF_KERNEL_TRAP_def TF_KERNEL_SP_def TF_KERNEL_SATP_def)
    show ?thesis unfolding m1_def using f n that(1) a by (simp add: get_tf_set frame_ok_def)
  qed
  show "sepc h' = get_tf p TF_EPC m" using off [of TF_EPC] e(2) by (simp add: TF_EPC_def)
  show "\<And>off. unat off mod 8 = 0 \<Longrightarrow> 40 \<le> off \<Longrightarrow> get_tf p off m' = get_tf p off m" using off e(3) by simp
  show "stvec h' = TRAMPOLINE + v_uservec V" using e(2) by simp
  have xd: "x = ((sstatus h AND NOT SSTATUS_SIE) AND NOT SSTATUS_SPP) OR SSTATUS_SPIE" by (simp add: x_def r_sstatus_def m1_def)
  have i: "x AND SSTATUS_SIE = 0" "x AND SSTATUS_SPP = 0" "x AND SSTATUS_SPIE = SSTATUS_SPIE" unfolding xd
    by (rule bit_word_eqI, auto simp: bit_and_iff bit_or_iff bit_not_iff sstatus_bits)+
  show "sstatus h' AND SSTATUS_SPP = 0" "sstatus h' AND SSTATUS_SPIE \<noteq> 0" using i(2,3) e(2) by (simp_all add: SSTATUS_SPIE_def)
  show "\<not> intr (kcpu (mk m'))" using i(1) e(3) by simp
qed


lemma syscall_result:
  assumes "sint (ucast (get_tf p TF_A7 m) :: uint) = k" "k = 11 \<or> k \<le> 0 \<or> 28 < k"
  shows "syscall Y files c p m = Some (Inr (True, set_tf p TF_A0 (if k = 11 then word_of_int (p_pid (pr (mk m) p)) else -1) m))"
proof (cases "k = 11")
  case True
  have "syscalls ! 11 = Some Sys_getpid" "11 < length syscalls" by (simp_all add: syscalls_def)
  then show ?thesis using assms(1) True by (simp add: syscall_def Let_def call_handler_def on_kernel_def sys_getpid_def)
next
  case False
  have "length syscalls = 29" by (simp add: syscalls_def)
  then show ?thesis using assms False by (auto simp: syscall_def Let_def)
qed

text \<open>
  Property C31 (a system call from the trap to the return). A process that is not killed executes \<open>ecall\<close> with the number of \<open>getpid\<close> or a
  number that is not in the table, of which only the low 32 bits count. It continues behind the \<open>ecall\<close> instruction in
  user mode, with the result in \<open>a0\<close> (its pid, or -1) and all other saved registers as they were, interrupts are off until the
  return, which enables them, and the process table is unchanged.
\<close>

theorem syscall_returns:
  assumes q: "quiet (mk m)" "noff (kcpu (mk m)) = 0" and p: "p < NPROC" "p_killed (pr (mk m) p) = 0" and f: "frame_ok p m"
    and h: "r_sstatus h m AND SSTATUS_SPP = 0" "scause h = 8"
    and k: "sint (ucast (get_tf p TF_A7 m) :: uint) = k" "k = 11 \<or> k \<le> 0 \<or> 28 < k"
  shows "\<exists>h' m'. usertrap Y V D files c p (h, m) = Some (Inr (User (MAKE_SATP (p_pagetable (pr (mk m) p))), h', m')) \<and>
    sepc h' = sepc h + 4 \<and> stvec h' = TRAMPOLINE + v_uservec V \<and> sstatus h' AND SSTATUS_SPP = 0 \<and> sstatus h' AND SSTATUS_SPIE \<noteq> 0 \<and>
    \<not> intr (kcpu (mk m')) \<and> procs (mk m') = procs (mk m) \<and>
    get_tf p TF_A0 m' = (if k = 11 then word_of_int (p_pid (pr (mk m) p)) else -1) \<and>
    (\<forall>off. unat off mod 8 = 0 \<longrightarrow> 40 \<le> off \<longrightarrow> off \<noteq> TF_A0 \<longrightarrow> get_tf p off m' = get_tf p off m)"
proof -
  let ?h = "h\<lparr>stvec := v_kernelvec V\<rparr>" and ?v = "if k = 11 then word_of_int (p_pid (pr (mk m) p)) else -1"
  define m0 where "m0 = set_tf p TF_EPC (sepc h) m"
  have q0: "quiet (mk m0)" by (rule quiet_cong [OF q(1)]) (use q(1) in \<open>simp_all add: m0_def quiet_def\<close>)
  obtain u where u: "killed c p (mk m0) = Some (Inr (0, (mk m0)\<lparr>kcpu := u\<rparr>))" "cpu_ok u" "noff u = 0"
    using killed_free [OF q0 p(1), of c] p(2) q(2) by (auto simp: m0_def)
  define m1 where "m1 = m0\<lparr>mk := (mk m0)\<lparr>kcpu := u\<rparr>\<rparr>"
  define m3 where "m3 = set_intr True (set_tf p TF_EPC (get_tf p TF_EPC m1 + 4) m1)"
  define m4 where "m4 = set_tf p TF_A0 ?v m3"
  have pr: "procs (mk m4) = procs (mk m)" "procs (mk m3) = procs (mk m)" "procs (mk m1) = procs (mk m)" by (simp_all add: m4_def m3_def m1_def m0_def)
  have fr: "frame_ok p m4" "frame_ok p m3" "frame_ok p m1" using f by (simp_all add: frame_ok_def pr)
  have al: "unat TF_EPC mod 8 = 0" "unat TF_A0 mod 8 = 0" "unat TF_A7 mod 8 = 0" "TF_A0 \<noteq> TF_EPC" "TF_A7 \<noteq> TF_EPC"
    by (simp_all add: TF_EPC_def TF_A0_def TF_A7_def)
  have g1: "get_tf p off m1 = (if off = TF_EPC then sepc h else get_tf p off m)" if "unat off mod 8 = 0" for off
    using f al(1) that by (simp add: m1_def m0_def get_tf_set frame_ok_def)
  have g3: "get_tf p off m3 = (if off = TF_EPC then sepc h + 4 else get_tf p off m)" if "unat off mod 8 = 0" for off
    using fr(3) al(1) that g1 by (simp add: m3_def get_tf_set frame_ok_def)
  have g4: "get_tf p off m4 = (if off = TF_A0 then ?v else get_tf p off m3)" if "unat off mod 8 = 0" for off
    using fr(2) al(2) that by (simp add: m4_def get_tf_set frame_ok_def)
  have q4: "quiet (mk m4)" by (rule quiet_cong [OF q(1)]) (use u pr(1) in \<open>simp_all add: m4_def m3_def m1_def m0_def cpu_ok_def\<close>)
  obtain w where w: "killed c p (mk m4) = Some (Inr (0, (mk m4)\<lparr>kcpu := w\<rparr>))" using killed_free [OF q4 p(1), of c] p(2) pr(1) by auto
  let ?m5 = "m4\<lparr>mk := (mk m4)\<lparr>kcpu := w\<rparr>\<rparr>"
  obtain o' h' m' where r: "usertrapret V c p (?h, ?m5) = (o', h', m')" by (cases "usertrapret V c p (?h, ?m5)")
  have f5: "frame_ok p ?m5" using fr(1) by (simp add: frame_ok_def)
  note ur = usertrapret_frame [OF f5 r]
  have "syscall Y files c p m3 = Some (Inr (True, m4))" using syscall_result [of p m3 k Y files c] g3 [OF al(3)] al(5) k pr(2) by (simp add: m4_def)
  then have "usertrap Y V D files c p (h, m) = Some (Inr (o', h', m'))"
    using h u(1) w r unfolding usertrap_def m0_def [symmetric] m1_def [symmetric] m3_def [symmetric]
    by (simp add: Let_def usertrap_end_def m0_def [symmetric] m1_def [symmetric] m3_def [symmetric])
  moreover have "sepc h' = sepc h + 4" using ur(2) g4 [OF al(1)] g3 [OF al(1)] al(4) by simp
  moreover have "(40 :: uint64) \<le> TF_A0" by (simp add: TF_A0_def)
  moreover have "get_tf p off m' = get_tf p off m" if "unat off mod 8 = 0" "40 \<le> off" "off \<noteq> TF_A0" for off
    using ur(8) [OF that(1,2)] g4 [OF that(1)] g3 [OF that(1)] that by (auto simp: TF_EPC_def)
  ultimately show ?thesis using ur(1,3-7) ur(8) [OF al(2)] g4 [OF al(2)] pr(1) by auto
qed


section \<open>Arguments and accounting\<close>

text \<open>
  Property C33 (fetching a word of user memory). \<open>fetchaddr\<close> succeeds exactly when all eight bytes lie below the size of the process, without
  wrap-around, and in pages that the user may read; then the buffer holds the bytes that the user program sees there. It
  changes no other memory.
\<close>

theorem fetchaddr_reads:
  assumes "vm_inv kend (kram s) (p_pagetable (pr s p)) ps" "user_inv kend (ram (kram s)) (p_pagetable (pr s p)) ps"
    and "kernel_buf (kram s) (p_pagetable (pr s p)) ps ip 8" and sz: "p_sz (pr s p) \<le> MAXVA"
  shows "\<exists>r k. fetchaddr p addr ip s = Some (Inr (r, s\<lparr>kram := k\<rparr>)) \<and>
    r = (if unat addr + 8 \<le> unat (p_sz (pr s p)) \<and> (\<forall>i<8. user_page (ram (kram s)) (p_pagetable (pr s p)) (addr + of_nat i)) then 0 else -1) \<and>
    (\<forall>x. 8 \<le> unat (x - ip) \<longrightarrow> ram k x = ram (kram s) x) \<and>
    (r = 0 \<longrightarrow> (\<forall>i<8. Some (ram k (ip + of_nat i)) = umem (ram (kram s)) (p_pagetable (pr s p)) (addr + of_nat i)))"
proof (cases "unat addr + 8 \<le> unat (p_sz (pr s p))")
  case True
  have sz': "unat (p_sz (pr s p)) \<le> 2 ^ 38" using sz by (simp add: word_le_nat_alt MAXVA_unat)
  then have "unat (addr + 8) = unat addr + 8" using True unat_add_of_nat [of addr 8] by simp
  then have c: "\<not> addr \<ge> p_sz (pr s p)" "\<not> addr + 8 > p_sz (pr s p)" using True by (simp_all add: word_le_nat_alt word_less_nat_alt)
  have u8: "unat (8 :: uint64) = 8" by simp
  have "unat addr + unat (8 :: uint64) < 2 ^ 64" using True sz' by simp
  from copyin_spec [OF assms(1,2) _ this, unfolded u8, OF assms(3)] obtain r k where
    k: "copyin (p_pagetable (pr s p)) ip addr 8 (kram s) = Some (Inr (r, k))"
      "r = (if \<forall>i<8. user_page (ram (kram s)) (p_pagetable (pr s p)) (addr + of_nat i) then 0 else -1)"
      "\<forall>x. \<not> unat (x - ip) < 8 \<longrightarrow> ram k x = ram (kram s) x"
      "r = 0 \<longrightarrow> (\<forall>i<8. Some (ram k (ip + of_nat i)) = umem (ram (kram s)) (p_pagetable (pr s p)) (addr + of_nat i))"
    by blast
  have "fetchaddr p addr ip s = Some (Inr (r, s\<lparr>kram := k\<rparr>))" using c k(1,2) by (simp add: fetchaddr_def)
  then show ?thesis using k(2-4) True by (intro exI [of _ r] exI [of _ k]) (auto simp: not_less)
next
  case False
  have sz': "unat (p_sz (pr s p)) \<le> 2 ^ 38" using sz by (simp add: word_le_nat_alt MAXVA_unat)
  have "addr \<ge> p_sz (pr s p) \<or> addr + 8 > p_sz (pr s p)"
  proof (cases "addr \<ge> p_sz (pr s p)")
    case lt: False
    then have "unat addr < 2 ^ 38" using sz' by (simp add: word_le_nat_alt)
    then have "unat (addr + 8) = unat addr + 8" using unat_add_of_nat [of addr 8] by simp
    then show ?thesis using False by (simp add: word_less_nat_alt)
  qed simp
  then have "fetchaddr p addr ip s = Some (Inr (-1, s\<lparr>kram := kram s\<rparr>))" by (auto simp: fetchaddr_def)
  then show ?thesis using False by (intro exI [of _ "-1"] exI [of _ "kram s"]) auto
qed

lemma unat_sum_list: "sum_list (map (\<lambda>i. unat (g i)) xs) < 2 ^ 64 \<Longrightarrow> unat (sum_list (map g xs)) = sum_list (map (\<lambda>i. unat (g i)) xs)" for g :: "nat \<Rightarrow> uint64"
proof (induction xs)
  case (Cons x xs)
  then have ih: "unat (sum_list (map g xs)) = sum_list (map (\<lambda>i. unat (g i)) xs)" by simp
  then have "unat (g x) + unat (sum_list (map g xs)) < 2 ^ LENGTH(64)" using Cons.prems by simp
  then have "unat (g x + sum_list (map g xs)) = unat (g x) + unat (sum_list (map g xs))" by (rule unat_add_lem [THEN iffD1])
  then show ?case using ih by simp
qed simp

text \<open>
  Also proved (CPU utilisation). As long as no sum overflows and the idle time does not exceed the total time, \<open>cpuutilization\<close> returns the busy
  share of the total time of all processes in percent, rounded down, which is at most 100.
\<close>

theorem cpuutilization_share:
  assumes t: "T = (\<Sum>i\<leftarrow>[0..<NPROC]. unat (p_total_time (pr s i)))" and i: "I = (\<Sum>i\<leftarrow>[0..<NPROC]. unat (p_idle_time (pr s i)))" and le: "I \<le> T" "T * 100 < 2 ^ 64"
  shows "\<exists>v. sys_cpuutilization s = Some (Inr (Some v, s)) \<and> unat v = (if T = 0 then 0 else (T - I) * 100 div T) \<and> unat v \<le> 100"
proof -
  let ?t = "sum_list (map (\<lambda>i. p_total_time (pr s i)) [0..<NPROC])" and ?i = "sum_list (map (\<lambda>i. p_idle_time (pr s i)) [0..<NPROC])"
  have ut: "unat ?t = T" unfolding t by (rule unat_sum_list) (use le t in simp)
  have ui: "unat ?i = I" unfolding i by (rule unat_sum_list) (use le i in simp)
  have d: "unat (?t - ?i) = T - I" using ut ui le(1) by (subst unat_sub) (simp_all add: word_le_nat_alt)
  have "unat (?t - ?i) * unat (100 :: uint64) < 2 ^ LENGTH(64)" using d le by simp
  then have "unat ((?t - ?i) * 100) = (T - I) * 100" using d by (subst unat_mult_lem [THEN iffD1]) simp_all
  then have m: "unat ((?t - ?i) * 100 div ?t) = (T - I) * 100 div T" using ut by (simp add: unat_div)
  have "(T - I) * 100 div T \<le> 100" if "T \<noteq> 0"
  proof -
    have "(T - I) * 100 div T \<le> T * 100 div T" by (intro div_le_mono) simp
    then show ?thesis using that by simp
  qed
  moreover have "?t = 0 \<longleftrightarrow> T = 0" using ut by (metis unat_eq_zero)
  ultimately show ?thesis using m by (auto simp: sys_cpuutilization_def Let_def)
qed

section \<open>Examples\<close>

definition example_machine :: "uint64 \<Rightarrow> uint64 \<Rightarrow> machine" where
  "example_machine off v = \<lparr>mk = init_and_children\<lparr>kram := \<lparr>ram = store64 (\<lambda>_. 0) off v, freelist = 0\<rparr>\<rparr>, ticks = -1, tickslock = initlock ''time''\<rparr>"

lemma example_facts:
  "quiet (mk (example_machine off v))" "noff (kcpu (mk (example_machine off v))) = 0" "p_killed (pr (mk (example_machine off v)) 0) = 0"
  "lock_free (tickslock (example_machine off v))" "p_trapframe (pr (mk (example_machine off v)) 0) = 0" "p_pid (pr (mk (example_machine off v)) 0) = 1"
proof -
  have r: "pr init_and_children 0 = free_slot\<lparr>p_state := RUNNING, p_pid := 1\<rparr>" using init_and_children_rows [of 0] by (simp add: NPROC_def)
  show "quiet (mk (example_machine off v))"
    by (rule quiet_cong [OF init_and_children_quiet]) (use init_and_children_quiet in \<open>simp_all add: example_machine_def quiet_def\<close>)
  show "noff (kcpu (mk (example_machine off v))) = 0" "lock_free (tickslock (example_machine off v))"
    by (simp_all add: example_machine_def init_and_children_def lock_free_def initlock_def)
  show "p_killed (pr (mk (example_machine off v)) 0) = 0" "p_trapframe (pr (mk (example_machine off v)) 0) = 0" "p_pid (pr (mk (example_machine off v)) 0) = 1"
    by (simp_all add: example_machine_def r free_slot_def)
qed

definition example_linker :: linker where
  "example_linker = \<lparr>y_end = 0x80020000, y_trampoline = 0x80008000, y_forkret = 0x80001000, y_xstate = (\<lambda>i. 0x80010000 + of_nat (8 * i)), y_ticks = 0x80009000\<rparr>"

definition example_vectors :: vectors where
  "example_vectors = \<lparr>v_kernelvec = 0x80004000, v_uservec = 0, v_usertrap = 0x80002000\<rparr>"

definition no_devices :: devices where
  "no_devices = \<lparr>plic_claim = (\<lambda>c. 0), uartintr = (\<lambda>m. Some (Inr m)), virtio_disk_intr = (\<lambda>m. Some (Inr m)), r_time = 0\<rparr>"

definition example_hart :: hart where
  "example_hart = \<lparr>sstatus = 0, scause = 8, sepc = 0x1000, stvec = 0, satp = 0, stimecmp = 0\<rparr>"

theorem syscall_returns_witness:
  "\<exists>h' m'. usertrap example_linker example_vectors no_devices (\<lambda>h c p m. Some (Inr (Some (-1), m))) 0 0 (example_hart, example_machine TF_A7 11) =
      Some (Inr (User (MAKE_SATP (p_pagetable (pr (mk (example_machine TF_A7 11)) 0))), h', m')) \<and> sepc h' = 0x1004 \<and> get_tf 0 TF_A0 m' = 1"
proof -
  let ?m = "example_machine TF_A7 11"
  note e = example_facts [of TF_A7 11]
  have "frame_ok 0 ?m" using e(5) by (simp add: frame_ok_def)
  moreover have "r_sstatus example_hart ?m AND SSTATUS_SPP = 0"
    by (rule bit_word_eqI) (auto simp: r_sstatus_def example_hart_def bit_and_iff bit_or_iff bit_not_iff sstatus_bits)
  moreover have "get_tf 0 TF_A7 ?m = 11" using e(5) by (simp add: get_tf_def example_machine_def)
  then have "sint (ucast (get_tf 0 TF_A7 ?m) :: uint) = 11" by simp
  ultimately show ?thesis using syscall_returns [OF e(1,2) _ e(3), of example_hart 11 example_linker example_vectors no_devices "\<lambda>h c p m. Some (Inr (Some (-1), m))" 0] e(6) by (auto simp: example_hart_def NPROC_def)
qed

theorem sys_sleep_lasts_witness:
  "\<exists>r m1 h1 m2. sys_sleep example_linker 0 0 (example_machine TF_A0 2) = Some (Inr (r, m1)) \<and>
    sleep_run example_linker no_devices 0 0 (-1) 2 2 (r, example_hart, m1) = Some (Inr (Some 0, h1, m2)) \<and> ticks m2 = 1"
proof -
  let ?m = "example_machine TF_A0 2"
  note e = example_facts [of TF_A0 2]
  have arg: "argint 0 0 (mk ?m) = Some (Inr 2)" using e(5) by (simp add: argint_def argraw_def) (simp add: example_machine_def)
  have n0: "(0 :: nat) < NPROC" by (simp add: NPROC_def)
  from sys_sleep_lasts [OF e(1,2) n0 e(3,4) arg, of example_linker 0 no_devices example_hart] obtain r m1 where
    "sys_sleep example_linker 0 0 ?m = Some (Inr (r, m1))" and
    "\<forall>j. \<exists>r' h' m'. sleep_run example_linker no_devices 0 0 (ticks ?m) (if sint (2 :: uint) < 0 then 0 else 2) j (r, example_hart, m1) = Some (Inr (r', h', m')) \<and>
       r' = (if int j < sint (2 :: uint) then None else Some 0) \<and> ticks m' = ticks ?m + of_nat (min j (nat (sint (2 :: uint)))) \<and> lock_free (tickslock m')" by blast
  moreover from this(2) [rule_format, of 2] have "\<exists>h1 m2. sleep_run example_linker no_devices 0 0 (-1) 2 2 (r, example_hart, m1) = Some (Inr (Some 0, h1, m2)) \<and> ticks m2 = 1"
    by (auto simp: example_machine_def)
  ultimately show ?thesis by blast
qed


theorem fetchaddr_reads_witness:
  "\<exists>s k1. p_sz (pr s 0) = 0x2000 \<and> fetchaddr 0 0x1ff8 0x80001000 s = Some (Inr (0, s\<lparr>kram := k1\<rparr>)) \<and>
     Some (ram k1 0x80001007) = umem (ram (kram s)) (p_pagetable (pr s 0)) 0x1fff \<and> fetchaddr 0 0x1ff9 0x80001000 s = Some (Inr (-1, s))"
proof -
  obtain k root ps where k: "vm_inv 0x80021d50 k root ps" "user_inv 0x80021d50 (ram k) root ps"
    "\<forall>v. user_page (ram k) root v \<longleftrightarrow> 4096 \<le> unat v \<and> unat v < 8192" using one_user_page by blast
  define s where "s = (upd_proc 0 (\<lambda>q. q\<lparr>p_sz := 0x2000, p_pagetable := root\<rparr>) init_and_children)\<lparr>kram := k\<rparr>"
  have s: "p_sz (pr s 0) = 0x2000" "p_pagetable (pr s 0) = root" "kram s = k" by (simp_all add: s_def upd_proc_def init_and_children_def)
  have kb: "kernel_buf (kram s) (p_pagetable (pr s 0)) ps 0x80001000 8" using low_kernel_buf [OF k(1,2)] s by simp
  have sz: "p_sz (pr s 0) \<le> MAXVA" using s by (simp add: word_le_nat_alt MAXVA_unat)
  have v: "vm_inv 0x80021d50 (kram s) (p_pagetable (pr s 0)) ps" "user_inv 0x80021d50 (ram (kram s)) (p_pagetable (pr s 0)) ps" using k s by simp_all
  have up: "\<forall>i<8. user_page (ram (kram s)) (p_pagetable (pr s 0)) (0x1ff8 + of_nat i)"
  proof (intro allI impI)
    fix i :: nat assume "i < 8"
    moreover from this have "unat (0x1ff8 + of_nat i :: uint64) = 0x1ff8 + i" using unat_add_of_nat [of "0x1ff8" i] by simp
    ultimately show "user_page (ram (kram s)) (p_pagetable (pr s 0)) (0x1ff8 + of_nat i)" using k(3) s by simp
  qed
  obtain k1 where k1: "fetchaddr 0 0x1ff8 0x80001000 s = Some (Inr (0, s\<lparr>kram := k1\<rparr>))"
    "\<forall>i<8. Some (ram k1 (0x80001000 + of_nat i)) = umem (ram (kram s)) (p_pagetable (pr s 0)) (0x1ff8 + of_nat i)"
    using fetchaddr_reads [OF v kb sz, of "0x1ff8"] up s(1) by auto
  have "Some (ram k1 0x80001007) = umem (ram (kram s)) (p_pagetable (pr s 0)) 0x1fff" using k1(2) [rule_format, of 7] by simp
  moreover have "fetchaddr 0 0x1ff9 0x80001000 s = Some (Inr (-1, s))" using s by (simp add: fetchaddr_def)
  ultimately show ?thesis using s(1) k1(1) by blast
qed

theorem cpuutilization_share_witness:
  "\<exists>v. sys_cpuutilization (upd_proc 0 (\<lambda>q. q\<lparr>p_total_time := 4, p_idle_time := 1\<rparr>) init_and_children) =
      Some (Inr (Some v, upd_proc 0 (\<lambda>q. q\<lparr>p_total_time := 4, p_idle_time := 1\<rparr>) init_and_children)) \<and> unat v = 75"
proof -
  let ?s = "upd_proc 0 (\<lambda>q. q\<lparr>p_total_time := 4, p_idle_time := 1\<rparr>) init_and_children"
  have r: "pr ?s i = (if i = 0 then (pr init_and_children 0)\<lparr>p_total_time := 4, p_idle_time := 1\<rparr> else pr init_and_children i)" if "i < NPROC" for i
    using init_and_children_quiet that by (simp add: upd_proc_def quiet_def)
  have z: "p_total_time (pr init_and_children i) = 0 \<and> p_idle_time (pr init_and_children i) = 0" if "i < NPROC" for i
    using init_and_children_rows [OF that] by (simp add: free_slot_def)
  have n: "[0..<NPROC] = 0 # [1..<NPROC]" by (simp add: NPROC_def upt_conv_Cons)
  have zs: "sum_list (map g xs) = (0 :: nat)" if "\<And>x. x \<in> set xs \<Longrightarrow> g x = 0" for g :: "nat \<Rightarrow> nat" and xs using that by (induction xs) auto
  have "(\<Sum>i\<leftarrow>[0..<NPROC]. unat (p_total_time (pr ?s i))) = 4"
    unfolding n using r z by (simp add: NPROC_def zs)
  moreover have "(\<Sum>i\<leftarrow>[0..<NPROC]. unat (p_idle_time (pr ?s i))) = 1"
    unfolding n using r z by (simp add: NPROC_def zs)
  ultimately show ?thesis using cpuutilization_share [OF refl refl, of ?s] by auto
qed

theorem clockintr_ticks_witness:
  "\<exists>m'. clockintr example_linker no_devices 0 None (example_hart, example_machine TF_A0 2) = Some (Inr (example_hart\<lparr>stimecmp := 1000000\<rparr>, m')) \<and> ticks m' = 0"
  using clockintr_ticks [OF example_facts(1) [of TF_A0 2] example_facts(4) [of TF_A0 2], of example_linker no_devices 0 None example_hart]
  by (auto simp: no_devices_def example_machine_def)

end
