(* ===== verification/Lottery.thy ===== *)
theory Lottery
  imports Prelude
begin

text \<open>
  The lottery scheduler of \<open>schedulling_algorithms/sched_algo_lottery_improved.c\<close>
  (\<open>sched_algo_lottery_existing.c\<close> is the same program up to blank lines).
  The linked list of processes is an Isabelle list in link order: nodes are only ever
  appended at the tail and never shared. A pointer into the list is an index.
  \<open>rand()\<close> is a parameter \<open>rnd\<close>: \<open>rnd k\<close> is the value of its \<open>k\<close>-th call;
  the C library documents that the value is never negative. C \<open>int\<close>s are \<open>int\<close>:
  signed overflow has no defined behaviour, and the time bound proved below keeps every
  time in range for inputs whose arrival times and bursts are.
\<close>

section \<open>Data and operations\<close>

record lproc =
  lp_pid :: int
  lp_tt :: int
  lp_at :: int
  lp_bt :: int
  lp_pr :: int
  lp_ct :: int
  lp_tat :: int
  lp_wt :: int
  lp_rt :: int
  lp_remaining_time :: int
  lp_completed :: bool

text \<open>\<open>create_process\<close> with the four values it reads; the new node goes to the tail.\<close>

definition create_lproc :: "lproc list \<Rightarrow> int \<Rightarrow> int \<Rightarrow> int \<Rightarrow> int \<Rightarrow> lproc list" where
  "create_lproc head v1 v2 v3 v4 = head @
     [\<lparr>lp_pid = v1, lp_tt = v2, lp_at = v3, lp_bt = v4, lp_pr = -1, lp_ct = -1, lp_tat = -1,
       lp_wt = -1, lp_rt = -1, lp_remaining_time = v4, lp_completed = False\<rparr>]"

fun assign_lprocessors_from :: "int \<Rightarrow> int \<Rightarrow> lproc list \<Rightarrow> lproc list" where
  "assign_lprocessors_from processors i [] = []"
| "assign_lprocessors_from processors i (p # ps) =
     p\<lparr>lp_pr := i smod processors\<rparr> # assign_lprocessors_from processors (i + 1) ps"

definition assign_lprocessors :: "int \<Rightarrow> lproc list \<Rightarrow> lproc list cresult" where
  "assign_lprocessors processors head =
     (if head \<noteq> [] \<and> processors = 0 then Inl DivByZero
      else Inr (assign_lprocessors_from processors 0 head))"

text \<open>The guard shared by the ticket count and the draw.\<close>

definition eligible :: "int \<Rightarrow> lproc \<Rightarrow> bool" where
  "eligible current_time p \<longleftrightarrow> \<not> lp_completed p \<and> lp_at p \<le> current_time"

fun total_tickets_loop :: "lproc list \<Rightarrow> int \<Rightarrow> int \<Rightarrow> int" where
  "total_tickets_loop [] current_time acc = acc"
| "total_tickets_loop (p # ps) current_time acc =
     total_tickets_loop ps current_time
       (if eligible current_time p then acc + lp_tt p else acc)"

definition calculate_total_tickets :: "lproc list \<Rightarrow> int \<Rightarrow> int" where
  "calculate_total_tickets head current_time = total_tickets_loop head current_time 0"

text \<open>
  The walk of \<open>lottery_draw\<close>: \<open>w\<close> the winning ticket, \<open>c\<close> the ticket count so far,
  \<open>i\<close> the position of the list's first node.
\<close>

fun draw_loop :: "lproc list \<Rightarrow> int \<Rightarrow> int \<Rightarrow> int \<Rightarrow> nat \<Rightarrow> nat option" where
  "draw_loop [] current_time w c i = None"
| "draw_loop (p # ps) current_time w c i =
     (if eligible current_time p
      then if w \<le> c + lp_tt p then Some i
           else draw_loop ps current_time w (c + lp_tt p) (Suc i)
      else draw_loop ps current_time w c (Suc i))"

text \<open>\<open>r\<close> is the value of \<open>rand()\<close>, which is called only when there are tickets.\<close>

definition lottery_draw :: "int \<Rightarrow> lproc list \<Rightarrow> int \<Rightarrow> int \<Rightarrow> nat option" where
  "lottery_draw r head total_tickets current_time =
     (if total_tickets = 0 then None
      else draw_loop head current_time (r smod total_tickets + 1) 0 0)"

definition calculate_lmetrics :: "lproc list \<Rightarrow> lproc list" where
  "calculate_lmetrics = map (\<lambda>p. p\<lparr>lp_tat := lp_ct p - lp_at p,
     lp_wt := (lp_ct p - lp_at p) - lp_bt p,
     lp_rt := (if lp_rt p = -1 then lp_at p else lp_rt p)\<rparr>)"

text \<open>The variables of \<open>main\<close>'s scheduling loop; \<open>l_rng\<close> counts the calls of \<open>rand()\<close>.\<close>

record lstate =
  l_procs :: "lproc list"
  l_active :: int
  l_round :: int
  l_time :: int
  l_rng :: nat

text \<open>What a round does to the process it selects, at time \<open>t\<close>.\<close>

definition run_selected :: "int \<Rightarrow> lproc \<Rightarrow> lproc" where
  "run_selected t p =
     (let p1 = (if lp_rt p = -1 then p\<lparr>lp_rt := t - lp_at p\<rparr> else p);
          p2 = p1\<lparr>lp_remaining_time := lp_remaining_time p1 - 1\<rparr>
      in if lp_remaining_time p2 = 0 then p2\<lparr>lp_completed := True, lp_ct := t + 1\<rparr> else p2)"

definition lottery_round :: "(nat \<Rightarrow> int) \<Rightarrow> lstate \<Rightarrow> lstate" where
  "lottery_round rnd s =
     (let tot = calculate_total_tickets (l_procs s) (l_time s);
          sel = lottery_draw (rnd (l_rng s)) (l_procs s) tot (l_time s);
          s1 = (if tot = 0 then s else s\<lparr>l_rng := Suc (l_rng s)\<rparr>)
      in case sel of
           None \<Rightarrow> s1\<lparr>l_time := l_time s + 1\<rparr>
         | Some i \<Rightarrow>
             (let p = run_selected (l_time s) (l_procs s ! i)
              in s1\<lparr>l_procs := (l_procs s)[i := p], l_time := l_time s + 1,
                   l_active := (if lp_remaining_time p = 0 then l_active s - 1 else l_active s),
                   l_round := l_round s + 1\<rparr>))"

definition lottery_run :: "(nat \<Rightarrow> int) \<Rightarrow> lstate \<Rightarrow> lstate option" where
  "lottery_run rnd = while_option (\<lambda>s. 0 < l_active s) (lottery_round rnd)"

definition read_lprocs :: "(int \<times> int \<times> int \<times> int) list \<Rightarrow> lproc list" where
  "read_lprocs inputs = foldl (\<lambda>h (v1, v2, v3, v4). create_lproc h v1 v2 v3 v4) [] inputs"

definition lottery_init :: "lproc list \<Rightarrow> lstate" where
  "lottery_init ps = \<lparr>l_procs = ps, l_active = int (length ps), l_round = 1, l_time = 0, l_rng = 0\<rparr>"

text \<open>
  \<open>main\<close>: one quadruple of input per process. The result is the process list after
  \<open>calculate_metrics\<close>; \<open>None\<close> when the scheduling loop never ends.
\<close>

definition lottery_main ::
    "(nat \<Rightarrow> int) \<Rightarrow> int \<Rightarrow> (int \<times> int \<times> int \<times> int) list \<Rightarrow> lproc list cresult option" where
  "lottery_main rnd processors inputs =
     (case assign_lprocessors processors (read_lprocs inputs) of
        Inl e \<Rightarrow> Some (Inl e)
      | Inr ps \<Rightarrow> map_option (\<lambda>s. Inr (calculate_lmetrics (l_procs s)))
                    (lottery_run rnd (lottery_init ps)))"

section \<open>Tickets and the draw\<close>

definition tickets :: "int \<Rightarrow> lproc \<Rightarrow> int" where
  "tickets t p = (if eligible t p then lp_tt p else 0)"

lemma total_tickets_loop_sum:
  "total_tickets_loop ps t c = c + sum_list (map (tickets t) ps)"
  by (induction ps arbitrary: c) (auto simp: tickets_def)

lemma calculate_total_tickets_sum:
  "calculate_total_tickets ps t = sum_list (map (tickets t) ps)"
  by (simp add: calculate_total_tickets_def total_tickets_loop_sum)

definition nonneg_tickets :: "lproc list \<Rightarrow> bool" where
  "nonneg_tickets ps \<longleftrightarrow> (\<forall>p\<in>set ps. 0 \<le> lp_tt p)"

lemma nonneg_tickets_Cons [simp]:
  "nonneg_tickets (p # ps) \<longleftrightarrow> 0 \<le> lp_tt p \<and> nonneg_tickets ps"
  by (auto simp: nonneg_tickets_def)

lemma tickets_nonneg: "0 \<le> lp_tt p \<Longrightarrow> 0 \<le> tickets t p"
  by (simp add: tickets_def)

lemma sum_tickets_nonneg: "nonneg_tickets ps \<Longrightarrow> 0 \<le> sum_list (map (tickets t) ps)"
  by (rule sum_list_nonneg_int) (auto simp: nonneg_tickets_def tickets_nonneg)

lemma draw_loop_ge: "draw_loop ps t w c i = Some j \<Longrightarrow> i \<le> j"
  by (induction ps arbitrary: c i) (auto split: if_splits dest: Suc_leD)

lemma draw_loop_Suc [simp]: "draw_loop ps t w c (Suc i) \<noteq> Some i"
  using draw_loop_ge [of ps t w c "Suc i" i] by auto

text \<open>The draw selects the node whose interval of ticket numbers holds the winning ticket.\<close>

lemma draw_loop_Cons:
  "c < w \<Longrightarrow> draw_loop (p # ps) t w c i =
     (if w \<le> c + tickets t p then Some i else draw_loop ps t w (c + tickets t p) (Suc i))"
  by (simp add: tickets_def)

lemma draw_loop_iff:
  assumes "nonneg_tickets ps" "c < w"
  shows "draw_loop ps t w c i = Some (i + k) \<longleftrightarrow>
     k < length ps \<and> c + sum_list (map (tickets t) (take k ps)) < w \<and>
     w \<le> c + sum_list (map (tickets t) (take (Suc k) ps))"
  using assms
proof (induction ps arbitrary: c i k)
  case (Cons p ps)
  have mono: "0 \<le> sum_list (map (tickets t) (take n ps))" for n
    by (rule sum_tickets_nonneg) (use Cons.prems in \<open>auto simp: nonneg_tickets_def dest: in_set_takeD\<close>)
  show ?case
  proof (cases k)
    case 0
    then show ?thesis
      using Cons.prems by (simp add: draw_loop_Cons del: draw_loop.simps)
  next
    case (Suc k')
    then show ?thesis
      using Cons.prems Cons.IH [of "c + tickets t p" "Suc i" k'] mono [of k']
      by (auto simp add: draw_loop_Cons not_le simp del: draw_loop.simps)
  qed
qed simp

lemma lottery_draw_iff:
  assumes "nonneg_tickets ps" "tot = calculate_total_tickets ps t" "0 < tot" "0 \<le> r"
  shows "lottery_draw r ps tot t = Some k \<longleftrightarrow>
     k < length ps \<and> sum_list (map (tickets t) (take k ps)) \<le> r mod tot \<and>
     r mod tot < sum_list (map (tickets t) (take k ps)) + tickets t (ps ! k)"
proof -
  have "r smod tot = r mod tot"
    using assms(3,4) by (simp add: signed_modulo_int_def sgn_if zmod_int)
  moreover have "0 \<le> r mod tot" using assms(3) by simp
  ultimately show ?thesis
    using draw_loop_iff [of ps 0 "r mod tot + 1" t 0 k] assms
    by (auto simp: lottery_draw_def take_Suc_conv_app_nth)
qed

lemma prefix_sum_search:
  fixes f :: "'a \<Rightarrow> int"
  shows "0 \<le> x \<Longrightarrow> x < sum_list (map f xs) \<Longrightarrow>
    \<exists>k<length xs. sum_list (map f (take k xs)) \<le> x \<and> x < sum_list (map f (take k xs)) + f (xs ! k)"
proof (induction xs arbitrary: x)
  case (Cons y ys)
  show ?case
  proof (cases "x < f y")
    case True
    then show ?thesis using Cons.prems by (intro exI [of _ 0]) simp
  next
    case False
    then have "0 \<le> x - f y" "x - f y < sum_list (map f ys)" using Cons.prems by auto
    from Cons.IH [OF this] obtain k where "k < length ys"
      "sum_list (map f (take k ys)) \<le> x - f y \<and> x - f y < sum_list (map f (take k ys)) + f (ys ! k)"
      by blast
    then show ?thesis by (intro exI [of _ "Suc k"]) simp
  qed
qed simp

lemma lottery_draw_succeeds:
  assumes "nonneg_tickets ps" "tot = calculate_total_tickets ps t" "0 < tot" "0 \<le> r"
  obtains k where "lottery_draw r ps tot t = Some k" "k < length ps" "0 < tickets t (ps ! k)"
proof -
  have "0 \<le> r mod tot" "r mod tot < sum_list (map (tickets t) ps)"
    using assms by (auto simp: calculate_total_tickets_sum)
  from prefix_sum_search [OF this] obtain k where "k < length ps"
    "sum_list (map (tickets t) (take k ps)) \<le> r mod tot \<and>
     r mod tot < sum_list (map (tickets t) (take k ps)) + tickets t (ps ! k)"
    by blast
  then show ?thesis using that [of k] assms by (auto simp: lottery_draw_iff)
qed

lemma lottery_draw_tickets:
  assumes "nonneg_tickets ps" "tot = calculate_total_tickets ps t" "0 \<le> r"
    and "lottery_draw r ps tot t = Some k"
  shows "k < length ps \<and> 0 < tickets t (ps ! k)"
proof -
  have "0 \<le> tot" using assms by (simp add: calculate_total_tickets_sum sum_tickets_nonneg)
  moreover have "tot \<noteq> 0" using assms(4) by (auto simp: lottery_draw_def)
  ultimately show ?thesis using assms lottery_draw_iff [of ps tot t r k] by auto
qed

section \<open>The invariant of the scheduling loop\<close>

text \<open>What holds of every process at time \<open>t\<close>, when tickets and bursts are positive.\<close>

definition lp_inv :: "int \<Rightarrow> lproc \<Rightarrow> bool" where
  "lp_inv t p \<longleftrightarrow> 0 < lp_tt p \<and> 0 < lp_bt p \<and>
     0 \<le> lp_remaining_time p \<and> lp_remaining_time p \<le> lp_bt p \<and>
     (lp_completed p \<longleftrightarrow> lp_remaining_time p = 0) \<and>
     (lp_rt p = -1 \<longleftrightarrow> lp_remaining_time p = lp_bt p) \<and>
     (lp_remaining_time p < lp_bt p \<longrightarrow> 0 \<le> lp_rt p \<and>
        lp_at p + lp_rt p + (lp_bt p - lp_remaining_time p) \<le> (if lp_completed p then lp_ct p else t)) \<and>
     (lp_completed p \<longrightarrow> lp_ct p \<le> t)"

lemma lp_inv_later: "lp_inv t p \<Longrightarrow> t \<le> t' \<Longrightarrow> lp_inv t' p"
  by (auto simp: lp_inv_def)

lemma run_selected_static [simp]:
  "lp_pid (run_selected t p) = lp_pid p" "lp_tt (run_selected t p) = lp_tt p"
  "lp_at (run_selected t p) = lp_at p" "lp_bt (run_selected t p) = lp_bt p"
  "lp_pr (run_selected t p) = lp_pr p"
  "lp_remaining_time (run_selected t p) = lp_remaining_time p - 1"
  by (simp_all add: run_selected_def Let_def)

lemma run_selected_inv:
  assumes "lp_inv t p" "eligible t p"
  shows "lp_inv (t + 1) (run_selected t p)"
    and "lp_completed (run_selected t p) \<longleftrightarrow> lp_remaining_time p = 1"
  using assms by (auto simp: lp_inv_def eligible_def run_selected_def Let_def)

definition lstatic :: "lproc \<Rightarrow> int \<times> int \<times> int \<times> int \<times> int" where
  "lstatic p = (lp_pid p, lp_tt p, lp_at p, lp_bt p, lp_pr p)"

definition lwork :: "lproc list \<Rightarrow> int" where
  "lwork ps = sum_list (map (\<lambda>p. lp_bt p - lp_remaining_time p) ps)"

definition lottery_inv :: "int \<Rightarrow> (int \<times> int \<times> int \<times> int \<times> int) list \<Rightarrow> lstate \<Rightarrow> bool" where
  "lottery_inv M st s \<longleftrightarrow> map lstatic (l_procs s) = st \<and>
     (\<forall>p\<in>set (l_procs s). lp_inv (l_time s) p \<and> lp_at p \<le> M) \<and>
     l_active s = int (length (filter (\<lambda>p. \<not> lp_completed p) (l_procs s))) \<and>
     l_round s = 1 + lwork (l_procs s) \<and>
     0 \<le> l_time s \<and> 0 \<le> M \<and> l_time s \<le> M + lwork (l_procs s)"

text \<open>With positive tickets, no tickets means that no unfinished process has arrived.\<close>

lemma no_tickets_iff:
  assumes "\<And>p. p \<in> set ps \<Longrightarrow> 0 < lp_tt p"
  shows "calculate_total_tickets ps t = 0 \<longleftrightarrow> (\<forall>p\<in>set ps. \<not> eligible t p)"
    and "0 \<le> calculate_total_tickets ps t"
proof -
  show "calculate_total_tickets ps t = 0 \<longleftrightarrow> (\<forall>p\<in>set ps. \<not> eligible t p)"
    unfolding calculate_total_tickets_sum using assms
  proof (induction ps)
    case (Cons p ps)
    have "0 \<le> sum_list (map (tickets t) ps)" "0 < lp_tt p"
      using Cons.prems by (auto intro!: sum_tickets_nonneg simp: nonneg_tickets_def order.strict_implies_order)
    moreover have "tickets t p = 0 \<longleftrightarrow> \<not> eligible t p" "0 \<le> tickets t p"
      using \<open>0 < lp_tt p\<close> by (auto simp: tickets_def)
    ultimately show ?case using Cons by (simp add: add_nonneg_eq_0_iff)
  qed simp
  show "0 \<le> calculate_total_tickets ps t"
    unfolding calculate_total_tickets_sum
    by (rule sum_tickets_nonneg) (auto simp: nonneg_tickets_def assms order.strict_implies_order)
qed

definition lmeasure :: "int \<Rightarrow> lstate \<Rightarrow> nat" where
  "lmeasure M s = nat (M - l_time s) + nat (sum_list (map lp_remaining_time (l_procs s)))"

text \<open>The two kinds of round: an idle tick, or one unit of work for an eligible process.\<close>

lemma lottery_round_cases:
  assumes inv: "lottery_inv M st s" and rnd: "\<forall>k. 0 \<le> rnd k"
  obtains
    (idle) "\<forall>p\<in>set (l_procs s). \<not> eligible (l_time s) p"
      "lottery_round rnd s = s\<lparr>l_time := l_time s + 1\<rparr>"
  | (work) i p where "i < length (l_procs s)" "p = l_procs s ! i" "eligible (l_time s) p"
      "lottery_round rnd s = s\<lparr>l_procs := (l_procs s)[i := run_selected (l_time s) p],
         l_active := (if lp_remaining_time p = 1 then l_active s - 1 else l_active s),
         l_round := l_round s + 1, l_time := l_time s + 1, l_rng := Suc (l_rng s)\<rparr>"
proof -
  have pos: "0 < lp_tt p" if "p \<in> set (l_procs s)" for p
    using inv that by (auto simp: lottery_inv_def lp_inv_def)
  let ?tot = "calculate_total_tickets (l_procs s) (l_time s)"
  show thesis
  proof (cases "?tot = 0")
    case True
    then show thesis
      using idle no_tickets_iff(1) [OF pos] by (auto simp: lottery_round_def lottery_draw_def)
  next
    case False
    then have "0 < ?tot" using no_tickets_iff(2) [OF pos, of "l_procs s" "l_time s"] by linarith
    moreover have "nonneg_tickets (l_procs s)"
      using pos by (auto simp: nonneg_tickets_def order.strict_implies_order)
    ultimately obtain k where "lottery_draw (rnd (l_rng s)) (l_procs s) ?tot (l_time s) = Some k"
      "k < length (l_procs s)" "0 < tickets (l_time s) (l_procs s ! k)"
      using lottery_draw_succeeds [OF _ refl, of "l_procs s" "l_time s" "rnd (l_rng s)"] rnd by metis
    then show thesis
      using False by (intro work [of k]) (auto simp: lottery_round_def Let_def tickets_def split: if_splits)
  qed
qed

lemma lottery_round_step:
  assumes inv: "lottery_inv M st s" and rnd: "\<forall>k. 0 \<le> rnd k" and act: "0 < l_active s"
  shows "lottery_inv M st (lottery_round rnd s) \<and> lmeasure M (lottery_round rnd s) < lmeasure M s"
  using inv rnd
proof (cases rule: lottery_round_cases)
  case idle
  obtain p where p: "p \<in> set (l_procs s)" "\<not> lp_completed p"
    using inv act by (fastforce simp: lottery_inv_def filter_empty_conv)
  then have "l_time s < lp_at p" using idle(1) by (auto simp: eligible_def)
  also have "lp_at p \<le> M" using inv p by (auto simp: lottery_inv_def)
  finally have "l_time s < M" .
  moreover have "0 \<le> lwork (l_procs s)"
    unfolding lwork_def by (rule sum_list_nonneg_int) (use inv in \<open>auto simp: lottery_inv_def lp_inv_def\<close>)
  ultimately show ?thesis
    using inv idle(2) by (auto simp: lottery_inv_def lmeasure_def intro: lp_inv_later)
next
  case (work i p)
  have p: "p \<in> set (l_procs s)" "lp_inv (l_time s) p" "lp_at p \<le> M"
    using inv work by (auto simp: lottery_inv_def)
  have q: "lp_inv (l_time s + 1) (run_selected (l_time s) p)"
    "lp_completed (run_selected (l_time s) p) \<longleftrightarrow> lp_remaining_time p = 1"
    using run_selected_inv [OF p(2) work(3)] by auto
  let ?ps = "(l_procs s)[i := run_selected (l_time s) p]"
  have stat: "map lstatic ?ps = map lstatic (l_procs s)"
    using work(1,2) by (auto simp: map_update lstatic_def list_update_same_conv)
  have all: "\<forall>q\<in>set ?ps. lp_inv (l_time s + 1) q \<and> lp_at q \<le> M"
    by (rule all_set_update) (use inv q p in \<open>auto simp: lottery_inv_def intro: lp_inv_later\<close>)
  have cnt: "int (length (filter (\<lambda>p. \<not> lp_completed p) ?ps)) =
      (if lp_remaining_time p = 1 then l_active s - 1 else l_active s)"
    using inv work q(2) by (simp add: length_filter_update lottery_inv_def eligible_def)
  have wrk: "lwork ?ps = lwork (l_procs s) + 1"
    using work by (simp add: lwork_def sum_list_map_update)
  have rem: "sum_list (map lp_remaining_time ?ps) = sum_list (map lp_remaining_time (l_procs s)) - 1"
    using work by (simp add: sum_list_map_update)
  have "1 \<le> lp_remaining_time p" using p(2) work(3) by (auto simp: lp_inv_def eligible_def)
  also have "\<dots> \<le> sum_list (map lp_remaining_time (l_procs s))"
    by (rule member_le_sum_list_int) (use inv p in \<open>auto simp: lottery_inv_def lp_inv_def\<close>)
  finally have "lmeasure M (lottery_round rnd s) < lmeasure M s"
    using work(4) rem by (auto simp: lmeasure_def)
  moreover have "lottery_inv M st (lottery_round rnd s)"
    using inv work(4) stat all cnt wrk by (auto simp: lottery_inv_def)
  ultimately show ?thesis by simp
qed

section \<open>Runs of the whole program\<close>

lemma read_lprocs_map:
  "read_lprocs inputs = map (\<lambda>(v1, v2, v3, v4). \<lparr>lp_pid = v1, lp_tt = v2, lp_at = v3, lp_bt = v4,
     lp_pr = -1, lp_ct = -1, lp_tat = -1, lp_wt = -1, lp_rt = -1, lp_remaining_time = v4,
     lp_completed = False\<rparr>) inputs"
  unfolding read_lprocs_def
  by (induction inputs rule: rev_induct) (auto simp: create_lproc_def split: prod.splits)

lemma assign_lprocessors_from_conv:
  "assign_lprocessors_from processors i ps =
     map (\<lambda>(k, p). p\<lparr>lp_pr := (i + int k) smod processors\<rparr>) (enumerate 0 ps)"
proof (induction ps arbitrary: i)
  case (Cons p ps)
  have "enumerate (Suc 0) ps = map (\<lambda>(k, p). (Suc k, p)) (enumerate 0 ps)"
    by (rule nth_equalityI) (auto simp: nth_enumerate_eq)
  then show ?case using Cons by (simp add: split_def algebra_simps comp_def)
qed simp

definition lstart :: "int \<Rightarrow> (int \<times> int \<times> int \<times> int) list \<Rightarrow> lproc list" where
  "lstart processors inputs = assign_lprocessors_from processors 0 (read_lprocs inputs)"

lemma length_assign_lprocessors_from [simp]:
  "length (assign_lprocessors_from processors i ps) = length ps"
  by (simp add: assign_lprocessors_from_conv)

lemma lstart_nth:
  "k < length inputs \<Longrightarrow> lstart processors inputs ! k =
     (case inputs ! k of (v1, v2, v3, v4) \<Rightarrow> \<lparr>lp_pid = v1, lp_tt = v2, lp_at = v3, lp_bt = v4,
       lp_pr = int k smod processors, lp_ct = -1, lp_tat = -1, lp_wt = -1, lp_rt = -1,
       lp_remaining_time = v4, lp_completed = False\<rparr>)"
  by (simp add: lstart_def assign_lprocessors_from_conv nth_enumerate_eq read_lprocs_map split: prod.split)

lemma length_lstart [simp]: "length (lstart processors inputs) = length inputs"
  by (simp add: lstart_def read_lprocs_map)

lemma in_set_lstart:
  assumes "p \<in> set (lstart processors inputs)"
  obtains v1 v2 v3 v4 k where "(v1, v2, v3, v4) \<in> set inputs" "p = \<lparr>lp_pid = v1, lp_tt = v2,
    lp_at = v3, lp_bt = v4, lp_pr = k, lp_ct = -1, lp_tat = -1, lp_wt = -1, lp_rt = -1,
    lp_remaining_time = v4, lp_completed = False\<rparr>"
  using assms by (auto simp: in_set_conv_nth lstart_nth split: prod.splits) (metis nth_mem)

text \<open>The latest arrival, at least zero: the scheduler idles only before it.\<close>

definition last_arrival :: "(int \<times> int \<times> int \<times> int) list \<Rightarrow> int" where
  "last_arrival inputs = foldr (\<lambda>(v1, v2, v3, v4) m. max v3 m) inputs 0"

lemma last_arrival_ge: "(v1, v2, v3, v4) \<in> set inputs \<Longrightarrow> v3 \<le> last_arrival inputs"
  by (induction inputs) (auto simp: last_arrival_def)

lemma last_arrival_nonneg: "0 \<le> last_arrival inputs"
  by (induction inputs) (auto simp: last_arrival_def)

definition total_burst :: "(int \<times> int \<times> int \<times> int) list \<Rightarrow> int" where
  "total_burst inputs = sum_list (map (\<lambda>(v1, v2, v3, v4). v4) inputs)"

definition positive_input :: "(int \<times> int \<times> int \<times> int) list \<Rightarrow> bool" where
  "positive_input inputs \<longleftrightarrow> list_all (\<lambda>(v1, v2, v3, v4). 0 < v2 \<and> 0 < v4) inputs"

lemma lottery_init_inv:
  assumes "positive_input inputs"
  shows "lottery_inv (last_arrival inputs) (map lstatic (lstart processors inputs))
           (lottery_init (lstart processors inputs))"
proof -
  let ?ps = "lstart processors inputs"
  have "lp_inv 0 p \<and> lp_at p \<le> last_arrival inputs \<and> \<not> lp_completed p \<and> lp_bt p = lp_remaining_time p"
    if "p \<in> set ?ps" for p
    using that assms last_arrival_ge
    by (elim in_set_lstart) (fastforce simp: lp_inv_def positive_input_def list_all_iff)
  moreover from this have "lwork ?ps = 0"
    by (simp add: lwork_def cong: map_cong)
  ultimately show ?thesis
    by (auto simp: lottery_inv_def lottery_init_def last_arrival_nonneg filter_True)
qed

lemma lottery_run_returns:
  assumes "positive_input inputs" "\<forall>k. 0 \<le> rnd k"
  obtains s where "lottery_run rnd (lottery_init (lstart processors inputs)) = Some s"
    "lottery_inv (last_arrival inputs) (map lstatic (lstart processors inputs)) s" "l_active s \<le> 0"
proof -
  let ?inv = "lottery_inv (last_arrival inputs) (map lstatic (lstart processors inputs))"
  show thesis
    by (rule while_option_total [of ?inv "lottery_init (lstart processors inputs)" "\<lambda>s. 0 < l_active s"
          "lottery_round rnd" "lmeasure (last_arrival inputs)"])
      (use assms lottery_init_inv lottery_round_step that in \<open>auto simp: lottery_run_def\<close>)
qed

lemma lottery_final:
  assumes "lottery_inv M st s" "l_active s \<le> 0"
  shows "\<forall>p\<in>set (l_procs s). lp_completed p \<and> lp_remaining_time p = 0"
    and "lwork (l_procs s) = sum_list (map lp_bt (l_procs s))"
proof -
  have "\<forall>p\<in>set (l_procs s). lp_completed p"
    using assms by (auto simp: lottery_inv_def filter_empty_conv)
  then show *: "\<forall>p\<in>set (l_procs s). lp_completed p \<and> lp_remaining_time p = 0"
    using assms by (auto simp: lottery_inv_def lp_inv_def)
  then show "lwork (l_procs s) = sum_list (map lp_bt (l_procs s))"
    by (simp add: lwork_def cong: map_cong)
qed

lemma lottery_main_run:
  assumes "processors \<noteq> 0"
  shows "lottery_main rnd processors inputs =
     map_option (\<lambda>s. Inr (calculate_lmetrics (l_procs s)))
       (lottery_run rnd (lottery_init (lstart processors inputs)))"
  using assms by (simp add: lottery_main_def assign_lprocessors_def lstart_def)

definition linput :: "lproc \<Rightarrow> int \<times> int \<times> int \<times> int" where
  "linput p = (lp_pid p, lp_tt p, lp_at p, lp_bt p)"

lemma lstatic_inputs:
  assumes "map lstatic ps = map lstatic (lstart processors inputs)"
  shows "map linput ps = inputs" "sum_list (map lp_bt ps) = total_burst inputs"
proof -
  have l: "linput p = (case lstatic p of (a, b, c, d, e) \<Rightarrow> (a, b, c, d))" for p
    by (simp add: linput_def lstatic_def)
  have "map linput ps = map (\<lambda>(a, b, c, d, e). (a, b, c, d)) (map lstatic ps)"
    by (simp add: l)
  also have "\<dots> = map linput (lstart processors inputs)"
    unfolding assms by (simp add: l)
  also have "\<dots> = inputs"
    by (rule nth_equalityI) (auto simp: lstart_nth linput_def split: prod.split)
  finally show *: "map linput ps = inputs" .
  show "sum_list (map lp_bt ps) = total_burst inputs"
    unfolding total_burst_def * [symmetric] by (simp add: linput_def comp_def)
qed

section \<open>Properties\<close>



text \<open>
  Also proved (lottery accounting): the printed metrics are the intended ones. The
  turnaround time is completion minus arrival, the waiting time is turnaround minus
  burst, and the response time, the delay to the first unit of service, is between zero
  and the waiting time.
\<close>

theorem lottery_metrics:
  assumes "positive_input inputs" "processors \<noteq> 0" "\<forall>k. 0 \<le> rnd k"
    and "lottery_main rnd processors inputs = Some (Inr ps)" "p \<in> set ps"
  shows "lp_tat p = lp_ct p - lp_at p \<and> lp_wt p = lp_tat p - lp_bt p \<and>
    0 \<le> lp_rt p \<and> lp_rt p \<le> lp_wt p"
proof -
  obtain s where s: "lottery_run rnd (lottery_init (lstart processors inputs)) = Some s"
    "lottery_inv (last_arrival inputs) (map lstatic (lstart processors inputs)) s" "l_active s \<le> 0"
    using lottery_run_returns [OF assms(1,3)] .
  then obtain q where q: "q \<in> set (l_procs s)" "calculate_lmetrics [q] = [p]"
    using assms(2,4,5) by (auto simp: lottery_main_run calculate_lmetrics_def)
  then have "lp_completed q" "lp_remaining_time q = 0" "lp_inv (l_time s) q"
    using lottery_final(1) [OF s(2,3)] s(2) by (auto simp: lottery_inv_def)
  then show ?thesis using q(2) by (auto simp: lp_inv_def calculate_lmetrics_def)
qed

theorem lottery_metrics_witness:
  "lottery_main (\<lambda>k. 7) 2 [(1, 3, 0, 2), (2, 1, 1, 1)] = Some (Inr [
     \<lparr>lp_pid = 1, lp_tt = 3, lp_at = 0, lp_bt = 2, lp_pr = 0, lp_ct = 3, lp_tat = 3, lp_wt = 1,
       lp_rt = 0, lp_remaining_time = 0, lp_completed = True\<rparr>,
     \<lparr>lp_pid = 2, lp_tt = 1, lp_at = 1, lp_bt = 1, lp_pr = 1, lp_ct = 2, lp_tat = 1, lp_wt = 0,
       lp_rt = 0, lp_remaining_time = 0, lp_completed = True\<rparr>]) \<and>
   (3::int) = 3 - 0 \<and> (1::int) = 3 - 2 \<and> (0::int) \<le> 0 \<and> (0::int) \<le> 1"
    (is "?run = Some (Inr [?p, ?q]) \<and> _")
proof -
  have run: "?run = Some (Inr [?p, ?q])" by code_simp
  have "positive_input [(1, 3, 0, 2), (2, 1, 1, 1)]" by (simp add: positive_input_def)
  from lottery_metrics [OF this _ _ run, of ?p] run show ?thesis by simp
qed

text \<open>
  Also proved (lottery share): when the ticket counts are not negative, exactly
  \<open>tt\<close> of the possible draws select an eligible process with \<open>tt\<close> tickets, and no
  draw selects a process that has completed or has not arrived: the processor is shared
  in proportion to the tickets.
\<close>

theorem lottery_share:
  assumes "nonneg_tickets ps" "tot = calculate_total_tickets ps t" "0 < tot" "k < length ps"
  shows "card {r \<in> {0..<tot}. lottery_draw r ps tot t = Some k} =
    (if eligible t (ps ! k) then nat (lp_tt (ps ! k)) else 0)"
proof -
  let ?S = "sum_list (map (tickets t) (take k ps))"
  have split: "ps = take k ps @ ps ! k # drop (Suc k) ps"
    using assms(4) by (rule id_take_nth_drop)
  have "tot = sum_list (map (tickets t) (take k ps @ ps ! k # drop (Suc k) ps))"
    using assms(2) split by (simp add: calculate_total_tickets_sum)
  then have "tot = ?S + tickets t (ps ! k) + sum_list (map (tickets t) (drop (Suc k) ps))"
    by simp
  moreover have "0 \<le> ?S" "0 \<le> sum_list (map (tickets t) (drop (Suc k) ps))"
    using assms(1) by (auto intro!: sum_tickets_nonneg simp: nonneg_tickets_def dest!: in_set_takeD in_set_dropD)
  ultimately have "{r \<in> {0..<tot}. lottery_draw r ps tot t = Some k} = {?S..<?S + tickets t (ps ! k)}"
    using assms by (auto simp: lottery_draw_iff)
  then show ?thesis by (simp add: tickets_def)
qed

theorem lottery_share_witness:
  "card {r \<in> {0..<4}. lottery_draw r (lstart 2 [(1, 3, 0, 2), (2, 1, 0, 1)]) 4 0 = Some 0} = 3"
proof -
  have "nonneg_tickets (lstart 2 [(1, 3, 0, 2), (2, 1, 0, 1)])"
    "4 = calculate_total_tickets (lstart 2 [(1, 3, 0, 2), (2, 1, 0, 1)]) 0"
    "eligible 0 (lstart 2 [(1, 3, 0, 2), (2, 1, 0, 1)] ! 0)"
    "lp_tt (lstart 2 [(1, 3, 0, 2), (2, 1, 0, 1)] ! 0) = 3" by code_simp+
  then show ?thesis
    using lottery_share [of "lstart 2 [(1, 3, 0, 2), (2, 1, 0, 1)]" 4 0 0] by simp
qed

lemma starved_round:
  assumes "\<forall>k. 0 \<le> rnd k" "nonneg_tickets (l_procs s)" "i < length (l_procs s)"
    and "lp_tt (l_procs s ! i) = 0" "\<not> lp_completed (l_procs s ! i)"
    and "l_active s = int (length (filter (\<lambda>p. \<not> lp_completed p) (l_procs s)))"
    and "\<forall>p\<in>set (l_procs s). lp_completed p \<longleftrightarrow> lp_remaining_time p = 0"
  shows "nonneg_tickets (l_procs (lottery_round rnd s)) \<and>
    i < length (l_procs (lottery_round rnd s)) \<and>
    lp_tt (l_procs (lottery_round rnd s) ! i) = 0 \<and>
    \<not> lp_completed (l_procs (lottery_round rnd s) ! i) \<and>
    l_active (lottery_round rnd s) =
      int (length (filter (\<lambda>p. \<not> lp_completed p) (l_procs (lottery_round rnd s)))) \<and>
    (\<forall>p\<in>set (l_procs (lottery_round rnd s)). lp_completed p \<longleftrightarrow> lp_remaining_time p = 0)"
proof (cases "lottery_draw (rnd (l_rng s)) (l_procs s)
    (calculate_total_tickets (l_procs s) (l_time s)) (l_time s)")
  case None
  then show ?thesis using assms by (auto simp: lottery_round_def Let_def)
next
  case (Some k)
  have k: "k < length (l_procs s)" "0 < tickets (l_time s) (l_procs s ! k)"
    using lottery_draw_tickets [OF assms(2) refl _ Some] assms(1) by auto
  then have ki: "k \<noteq> i" "\<not> lp_completed (l_procs s ! k)"
    using assms(4) by (auto simp: tickets_def eligible_def split: if_splits)
  let ?p = "run_selected (l_time s) (l_procs s ! k)"
  have comp: "lp_completed ?p \<longleftrightarrow> lp_remaining_time ?p = 0"
    using ki by (simp add: run_selected_def Let_def)
  have "\<forall>p\<in>set ((l_procs s)[k := ?p]). lp_completed p \<longleftrightarrow> lp_remaining_time p = 0"
    by (rule all_set_update) (use assms comp in auto)
  moreover have "nonneg_tickets ((l_procs s)[k := ?p])"
    unfolding nonneg_tickets_def by (rule all_set_update) (use assms k in \<open>auto simp: nonneg_tickets_def\<close>)
  moreover have "int (length (filter (\<lambda>p. \<not> lp_completed p) ((l_procs s)[k := ?p]))) =
      (if lp_remaining_time ?p = 0 then l_active s - 1 else l_active s)"
    using k ki comp assms(6) by (simp add: length_filter_update)
  ultimately show ?thesis
    using Some k ki assms(3,4,5) by (auto simp: lottery_round_def Let_def)
qed

text \<open>
  Also proved (lottery starvation): a process without tickets is never drawn, so \<open>main\<close>
  does not end as soon as one process of the input has zero tickets. The program reads
  the ticket count without checking it.
\<close>

theorem lottery_starves:
  assumes "list_all (\<lambda>(v1, v2, v3, v4). 0 \<le> v2 \<and> v4 \<noteq> 0) inputs" "processors \<noteq> 0"
    and "\<forall>k. 0 \<le> rnd k" "(v1, 0, v3, v4) \<in> set inputs"
  shows "lottery_main rnd processors inputs = None"
proof -
  obtain i where i: "i < length inputs" "inputs ! i = (v1, 0, v3, v4)"
    using assms(4) by (auto simp: in_set_conv_nth)
  let ?ps = "lstart processors inputs"
  define P where "P s \<longleftrightarrow> nonneg_tickets (l_procs s) \<and> i < length (l_procs s) \<and>
    lp_tt (l_procs s ! i) = 0 \<and> \<not> lp_completed (l_procs s ! i) \<and>
    l_active s = int (length (filter (\<lambda>p. \<not> lp_completed p) (l_procs s))) \<and>
    (\<forall>p\<in>set (l_procs s). lp_completed p \<longleftrightarrow> lp_remaining_time p = 0)" for s :: lstate
  have "\<forall>p\<in>set ?ps. 0 \<le> lp_tt p \<and> \<not> lp_completed p \<and> lp_remaining_time p \<noteq> 0"
    using assms(1) by (fastforce elim: in_set_lstart simp: list_all_iff)
  then have "P (lottery_init ?ps)"
    using i lstart_nth [of i inputs processors]
    by (auto simp: P_def lottery_init_def nonneg_tickets_def filter_True)
  moreover have "0 < l_active s" if "P s" for s
    using that by (auto simp: P_def length_greater_0_conv filter_empty_conv intro!: nth_mem)
  moreover have "P (lottery_round rnd s)" if "P s" for s
    using that starved_round [OF assms(3), of s i] by (simp add: P_def)
  ultimately have "lottery_run rnd (lottery_init ?ps) = None"
    unfolding lottery_run_def by (rule while_option_diverges)
  then show ?thesis using assms(2) by (simp add: lottery_main_run)
qed

theorem lottery_starves_witness:
  "lottery_main (\<lambda>k. 7) 2 [(1, 3, 0, 2), (2, 0, 0, 1)] = None"
  by (rule lottery_starves [of _ _ _ 2 0 1]) simp_all

end
