(* ===== verification/Sched_Process.thy ===== *)
theory Sched_Process
  imports Prelude
begin

text \<open>
  What the two multilevel-feedback simulators of \<open>schedulling_algorithms/\<close> share:
  the process node, lookup by pid, the assignment of processors, the service of one time
  slice, and the contract of their array queues.
\<close>

section \<open>Processes\<close>

record process =
  pid :: int
  arrival :: int    \<comment> \<open>\<open>at\<close>\<close>
  bt :: int
  pr :: int
  ct :: int
  tat :: int
  wt :: int
  rt :: int
  remain :: int

text \<open>\<open>find_process\<close>: the position of the first node with the pid, \<open>None\<close> for \<open>NULL\<close>.\<close>

fun find_process_from :: "nat \<Rightarrow> process list \<Rightarrow> int \<Rightarrow> nat option" where
  "find_process_from i [] p = None"
| "find_process_from i (x # xs) p = (if pid x = p then Some i else find_process_from (Suc i) xs p)"

definition find_process :: "process list \<Rightarrow> int \<Rightarrow> nat option" where
  "find_process head p = find_process_from 0 head p"

fun assign_processors_from :: "int \<Rightarrow> int \<Rightarrow> process list \<Rightarrow> process list" where
  "assign_processors_from processors i [] = []"
| "assign_processors_from processors i (x # xs) =
     x\<lparr>pr := i smod processors\<rparr> # assign_processors_from processors (i + 1) xs"

definition assign_processors :: "int \<Rightarrow> process list \<Rightarrow> process list cresult" where
  "assign_processors processors head =
     (if head \<noteq> [] \<and> processors = 0 then Inl DivByZero
      else Inr (assign_processors_from processors 0 head))"

text \<open>
  The effect of a process's last slice, which ends at \<open>t\<close>: \<open>remain\<close> becomes zero and
  the metrics are set.
\<close>

definition finish :: "int \<Rightarrow> process \<Rightarrow> process" where
  "finish t p = p\<lparr>remain := 0, ct := t, tat := t - arrival p, wt := (t - arrival p) - bt p,
     rt := t - arrival p - bt p\<rparr>"

lemma finish_simps [simp]:
  "pid (finish t p) = pid p" "arrival (finish t p) = arrival p" "bt (finish t p) = bt p"
  "remain (finish t p) = 0" "ct (finish t p) = t" "tat (finish t p) = t - arrival p"
  "wt (finish t p) = t - arrival p - bt p" "rt (finish t p) = t - arrival p - bt p"
  by (simp_all add: finish_def)

section \<open>Array queues\<close>

text \<open>
  \<open>queue\<close>, \<open>front\<close> and \<open>rear\<close>; both simulators use \<open>#define MAX 100\<close>. Slots of the array
  are not reused before the queue runs empty.
\<close>

definition QMAX :: int where "QMAX = 100"

record aqueue =
  q_arr :: "int list"
  q_front :: int
  q_rear :: int

text \<open>The common part of both enqueue functions: advance \<open>rear\<close> and store.\<close>

definition append_rear :: "aqueue \<Rightarrow> int \<Rightarrow> aqueue" where
  "append_rear q p =
     (let q1 = (if q_rear q = -1 then q\<lparr>q_front := 0, q_rear := 0\<rparr>
                else q\<lparr>q_rear := q_rear q + 1\<rparr>)
      in q1\<lparr>q_arr := (q_arr q1)[nat (q_rear q1) := p]\<rparr>)"

definition dequeue :: "aqueue \<Rightarrow> int \<times> aqueue" where
  "dequeue q =
     (if q_front q = -1 then (-1, q)
      else (q_arr q ! nat (q_front q),
            if q_front q = q_rear q then q\<lparr>q_front := -1, q_rear := -1\<rparr>
            else q\<lparr>q_front := q_front q + 1\<rparr>))"

section \<open>Lookup\<close>

lemma find_process_from_Some:
  "find_process_from i xs p = Some k \<Longrightarrow> i \<le> k \<and> k - i < length xs \<and> pid (xs ! (k - i)) = p"
proof (induction xs arbitrary: i)
  case (Cons x xs)
  show ?case
  proof (cases "pid x = p")
    case False
    then have "Suc i \<le> k \<and> k - Suc i < length xs \<and> pid (xs ! (k - Suc i)) = p"
      using Cons by simp
    then show ?thesis by (auto simp: nth_Cons' Suc_diff_Suc)
  qed (use Cons.prems in simp)
qed simp

lemma find_process_Some:
  "find_process xs p = Some k \<Longrightarrow> k < length xs \<and> pid (xs ! k) = p"
  using find_process_from_Some [of 0 xs p k] by (simp add: find_process_def)

lemma find_process_from_exists:
  "p \<in> set (map pid xs) \<Longrightarrow> \<exists>k. find_process_from i xs p = Some k"
  by (induction xs arbitrary: i) auto

lemma find_process_exists:
  assumes "p \<in> set (map pid xs)"
  obtains k where "find_process xs p = Some k" "k < length xs" "pid (xs ! k) = p"
  using find_process_from_exists [OF assms, of 0] find_process_Some [of xs p]
  by (auto simp: find_process_def)

lemma find_process_None: "find_process xs p = None \<longleftrightarrow> p \<notin> set (map pid xs)"
  unfolding find_process_def
proof -
  have "find_process_from i xs p = None \<longleftrightarrow> p \<notin> set (map pid xs)" for i
    by (induction xs arbitrary: i) auto
  then show "find_process_from 0 xs p = None \<longleftrightarrow> p \<notin> set (map pid xs)" .
qed

lemma find_process_cong: "map pid xs = map pid ys \<Longrightarrow> find_process xs p = find_process ys p"
proof -
  have "map pid xs = map pid ys \<Longrightarrow> find_process_from i xs p = find_process_from i ys p" for i
  proof (induction xs arbitrary: ys i)
    case (Cons x xs)
    then show ?case by (cases ys) auto
  qed simp
  then show "map pid xs = map pid ys \<Longrightarrow> find_process xs p = find_process ys p"
    by (simp add: find_process_def)
qed

lemma map_pid_update:
  "k < length xs \<Longrightarrow> pid y = pid (xs ! k) \<Longrightarrow> map pid (xs[k := y]) = map pid xs"
  by (simp add: map_update list_update_same_conv)

text \<open>The remaining time that a pid's lookup reaches; zero for an unknown pid.\<close>

definition remain_of :: "process list \<Rightarrow> int \<Rightarrow> int" where
  "remain_of xs p = (case find_process xs p of None \<Rightarrow> 0 | Some k \<Rightarrow> remain (xs ! k))"

lemma remain_of_update:
  assumes "find_process xs (pid y) = Some k"
  shows "remain_of (xs[k := y]) q = (if q = pid y then remain y else remain_of xs q)"
proof -
  have k: "k < length xs" "pid (xs ! k) = pid y" using find_process_Some [OF assms] by auto
  then have "find_process (xs[k := y]) q = find_process xs q"
    by (intro find_process_cong map_pid_update) auto
  then show ?thesis
    using assms k by (auto simp: remain_of_def nth_list_update dest: find_process_Some split: option.splits)
qed

lemma distinct_find_process:
  assumes "distinct (map pid xs)" "k < length xs"
  shows "find_process xs (pid (xs ! k)) = Some k"
proof -
  have "pid (xs ! k) \<in> set (map pid xs)" using assms(2) by auto
  then obtain j where "find_process xs (pid (xs ! k)) = Some j" "j < length xs" "pid (xs ! j) = pid (xs ! k)"
    by (rule find_process_exists)
  then show ?thesis
    using assms by (metis distinct_conv_nth length_map nth_map)
qed

lemma remain_of_distinct:
  "distinct (map pid xs) \<Longrightarrow> x \<in> set xs \<Longrightarrow> remain_of xs (pid x) = remain x"
  by (auto simp: in_set_conv_nth remain_of_def distinct_find_process)

text \<open>Total unfinished work, the termination measure of both simulators.\<close>

definition work :: "process list \<Rightarrow> nat" where
  "work xs = sum_list (map (\<lambda>x. nat (remain x)) xs)"

lemma work_update:
  assumes "k < length xs"
  shows "int (work (xs[k := y])) = int (work xs) - int (nat (remain (xs ! k))) + int (nat (remain y))"
proof -
  have "int (work zs) = sum_list (map (\<lambda>x. int (nat (remain x))) zs)" for zs
    by (induction zs) (auto simp: work_def)
  then show ?thesis by (simp add: sum_list_map_update assms)
qed

lemma assign_processors_from_static [simp]:
  "length (assign_processors_from n i xs) = length xs"
  "map pid (assign_processors_from n i xs) = map pid xs"
  "map arrival (assign_processors_from n i xs) = map arrival xs"
  "map bt (assign_processors_from n i xs) = map bt xs"
  "map remain (assign_processors_from n i xs) = map remain xs"
  by (induction xs arbitrary: i) auto

lemma assign_processors_from_nth:
  "k < length xs \<Longrightarrow>
   assign_processors_from n i xs ! k = (xs ! k)\<lparr>pr := (i + int k) smod n\<rparr>"
proof (induction xs arbitrary: i k)
  case (Cons x xs)
  then show ?case by (cases k) (auto simp: algebra_simps)
qed simp

section \<open>What holds of a process at a given time\<close>

text \<open>
  Service received so far fits between the arrival and the current time; a finished
  process has consistent metrics.
\<close>

definition proc_ok :: "int \<Rightarrow> process \<Rightarrow> bool" where
  "proc_ok t p \<longleftrightarrow> 0 < bt p \<and> 0 \<le> remain p \<and> remain p \<le> bt p \<and>
     (remain p < bt p \<longrightarrow> arrival p + (bt p - remain p) \<le> t) \<and>
     (remain p = 0 \<longrightarrow> arrival p + bt p \<le> ct p \<and> ct p \<le> t \<and> tat p = ct p - arrival p \<and>
        wt p = tat p - bt p \<and> rt p = wt p)"

lemma proc_ok_finish:
  assumes "proc_ok t x" "max (arrival x) t = u"
  shows "proc_ok (u + remain x) (finish (u + remain x) x)"
  using assms by (auto simp: proc_ok_def)

lemma proc_ok_slice:
  assumes "proc_ok t x" "max (arrival x) t = u" "0 < q" "q < remain x"
  shows "proc_ok (u + q) (x\<lparr>remain := remain x - q\<rparr>)"
  using assms by (auto simp: proc_ok_def)

definition static_of :: "process \<Rightarrow> int \<times> int \<times> int \<times> int" where
  "static_of p = (pid p, arrival p, bt p, pr p)"

text \<open>The three numbers the user enters for a process.\<close>

definition mlfq_input :: "process \<Rightarrow> int \<times> int \<times> int" where
  "mlfq_input p = (pid p, arrival p, bt p)"

lemma mlfq_input_static: "map mlfq_input ps = map (\<lambda>(a, b, c, d). (a, b, c)) (map static_of ps)"
  by (simp add: mlfq_input_def static_of_def)

section \<open>Bounded first-in first-out queues\<close>

text \<open>
  The contract of the array queues that both simulators index by \<open>front\<close> and \<open>rear\<close>:
  as long as there is room at the end of the array, the queue behaves as a list.
\<close>

locale fifo =
  fixes invar :: "'q \<Rightarrow> bool"
    and contents :: "'q \<Rightarrow> int list"
    and room :: "'q \<Rightarrow> nat"
    and empty :: "'q \<Rightarrow> bool"
    and enq :: "'q \<Rightarrow> int \<Rightarrow> 'q"
    and deq :: "'q \<Rightarrow> int \<times> 'q"
  assumes empty_iff: "invar q \<Longrightarrow> empty q \<longleftrightarrow> contents q = []"
    and enq_room: "invar q \<Longrightarrow> 0 < room q \<Longrightarrow>
      invar (enq q x) \<and> contents (enq q x) = contents q @ [x] \<and> Suc (room (enq q x)) = room q"
    and deq_contents: "invar q \<Longrightarrow> contents q = x # xs \<Longrightarrow>
      fst (deq q) = x \<and> invar (snd (deq q)) \<and> contents (snd (deq q)) = xs \<and> room q \<le> room (snd (deq q))"
begin

fun enq_all :: "'q \<Rightarrow> int list \<Rightarrow> 'q" where
  "enq_all q [] = q"
| "enq_all q (x # xs) = enq_all (enq q x) xs"

fun deq_n :: "nat \<Rightarrow> 'q \<Rightarrow> int list \<times> 'q" where
  "deq_n 0 q = ([], q)"
| "deq_n (Suc n) q = (let (x, q') = deq q; (xs, q'') = deq_n n q' in (x # xs, q''))"

lemma enq_all_contents:
  "invar q \<Longrightarrow> length xs \<le> room q \<Longrightarrow>
   invar (enq_all q xs) \<and> contents (enq_all q xs) = contents q @ xs"
proof (induction xs arbitrary: q)
  case (Cons x xs)
  then have "0 < room q" by simp
  with Cons enq_room [of q x] show ?case by auto
qed simp

lemma deq_n_contents:
  "invar q \<Longrightarrow> n \<le> length (contents q) \<Longrightarrow> fst (deq_n n q) = take n (contents q)"
proof (induction n arbitrary: q)
  case (Suc n)
  then obtain x xs where x: "contents q = x # xs" by (cases "contents q") auto
  with Suc deq_contents [of q x xs] show ?case
    by (auto simp: Let_def split_def)
qed simp

text \<open>Elements leave in the order in which they entered.\<close>

lemma first_in_first_out:
  "invar q \<Longrightarrow> contents q = [] \<Longrightarrow> length xs \<le> room q \<Longrightarrow>
   fst (deq_n (length xs) (enq_all q xs)) = xs"
  using enq_all_contents [of q xs] deq_n_contents [of "enq_all q xs" "length xs"] by simp

end

section \<open>The array queue refines a list\<close>

definition aq_inv :: "aqueue \<Rightarrow> bool" where
  "aq_inv q \<longleftrightarrow> length (q_arr q) = nat QMAX \<and>
     (q_front q = -1 \<and> q_rear q = -1 \<or> 0 \<le> q_front q \<and> q_front q \<le> q_rear q \<and> q_rear q < QMAX)"

definition aq_contents :: "aqueue \<Rightarrow> int list" where
  "aq_contents q = (if q_front q = -1 then []
     else take (nat (q_rear q - q_front q + 1)) (drop (nat (q_front q)) (q_arr q)))"

definition aq_room :: "aqueue \<Rightarrow> nat" where
  "aq_room q = nat (QMAX - 1 - q_rear q)"

definition aq_empty :: "aqueue \<Rightarrow> bool" where
  "aq_empty q \<longleftrightarrow> q_front q = -1"

lemma take_drop_snoc:
  assumes "i \<le> j" "j < length xs"
  shows "take (Suc j - i) (drop i (xs[j := x])) = take (j - i) (drop i xs) @ [x]"
proof -
  have "take (Suc j - i) (drop i (xs[j := x])) = take (Suc (j - i)) ((drop i xs)[j - i := x])"
    using assms by (simp add: drop_update_swap Suc_diff_le)
  also have "\<dots> = take (j - i) (drop i xs) @ [x]"
    using assms by (simp add: take_Suc_conv_app_nth)
  finally show ?thesis .
qed

lemma aq_append:
  assumes "aq_inv q" "0 < aq_room q"
  shows "aq_inv (append_rear q x)" "aq_contents (append_rear q x) = aq_contents q @ [x]"
    "Suc (aq_room (append_rear q x)) = aq_room q"
proof -
  have r: "q_rear q < QMAX - 1" using assms(2) by (simp add: aq_room_def)
  show "aq_inv (append_rear q x)" using assms(1) r by (auto simp: aq_inv_def append_rear_def)
  show "Suc (aq_room (append_rear q x)) = aq_room q"
    using assms(1) r by (auto simp: aq_inv_def append_rear_def aq_room_def)
  show "aq_contents (append_rear q x) = aq_contents q @ [x]"
  proof (cases "q_rear q = -1")
    case True
    then show ?thesis using assms(1) r
      by (cases "q_arr q") (auto simp: aq_inv_def append_rear_def aq_contents_def QMAX_def)
  next
    case False
    let ?i = "nat (q_front q)" and ?j = "nat (q_rear q + 1)"
    have ij: "?i \<le> ?j" "?j < length (q_arr q)" "q_front q \<noteq> -1"
      "nat (q_rear q + 1 - q_front q + 1) = Suc ?j - ?i" "nat (q_rear q - q_front q + 1) = ?j - ?i"
      using assms(1) r False by (auto simp: aq_inv_def)
    then show ?thesis
      using take_drop_snoc [OF ij(1,2), of x] False r
      by (simp add: append_rear_def aq_contents_def)
  qed
qed

lemma aq_dequeue:
  assumes "aq_inv q" "aq_contents q = x # xs"
  shows "fst (dequeue q) = x" "aq_inv (snd (dequeue q))" "aq_contents (snd (dequeue q)) = xs"
    "aq_room q \<le> aq_room (snd (dequeue q))"
proof -
  have f: "q_front q \<noteq> -1" using assms(2) by (auto simp: aq_contents_def split: if_splits)
  let ?i = "nat (q_front q)" and ?n = "nat (q_rear q - q_front q)"
  have b: "?i < length (q_arr q)" "nat (q_rear q - q_front q + 1) = Suc ?n" "0 \<le> q_front q"
    using assms(1) f by (auto simp: aq_inv_def)
  have "aq_contents q = q_arr q ! ?i # take ?n (drop (Suc ?i) (q_arr q))"
    using f b by (simp add: aq_contents_def Cons_nth_drop_Suc [symmetric])
  then have x: "x = q_arr q ! ?i" "xs = take ?n (drop (Suc ?i) (q_arr q))" using assms(2) by auto
  show "fst (dequeue q) = x" using f x by (simp add: dequeue_def)
  show "aq_inv (snd (dequeue q))" "aq_room q \<le> aq_room (snd (dequeue q))"
    using assms(1) f by (auto simp: dequeue_def aq_inv_def aq_room_def)
  have "Suc (nat (q_rear q - (q_front q + 1))) = ?n" if "q_front q < q_rear q"
    using that by simp
  then show "aq_contents (snd (dequeue q)) = xs"
    using assms(1) f b x by (auto simp: dequeue_def aq_contents_def aq_inv_def nat_add_distrib)
qed

lemma aq_inv_empty_iff: "aq_inv q \<Longrightarrow> aq_empty q \<longleftrightarrow> aq_contents q = []"
  by (auto simp: aq_inv_def aq_empty_def aq_contents_def QMAX_def)

end
