(* ===== verification/MLFQ_Existing.thy ===== *)
theory MLFQ_Existing
  imports Sched_Process
begin

text \<open>
  The multilevel feedback queue of \<open>schedulling_algorithms/sched_algo_mlfq_existing.c\<close>.
  \<open>bubble_sort\<close> rewrites the links of the process list, so it is modelled on an explicit
  heap of nodes; everything after it walks an unchanged list. A row \<open>queue[level]\<close>
  with \<open>front[level]\<close> and \<open>rear[level]\<close> is one record.
\<close>

section \<open>The process list as a heap\<close>

type_synonym node = "process \<times> nat option"
type_synonym heap = "nat \<Rightarrow> node option"

definition create_process :: "process list \<Rightarrow> int \<Rightarrow> int \<Rightarrow> int \<Rightarrow> process list" where
  "create_process head v1 v2 v3 = head @
     [\<lparr>pid = v1, arrival = v2, bt = v3, pr = 0, ct = -1, tat = -1, wt = -1, rt = -1, remain = v3\<rparr>]"

text \<open>The nodes that \<open>main\<close> has allocated and linked: node \<open>k\<close> of the list is at address \<open>k\<close>.\<close>

definition heap_of :: "process list \<Rightarrow> heap" where
  "heap_of ps k = (if k < length ps
     then Some (ps ! k, if Suc k < length ps then Some (Suc k) else None) else None)"

definition head_of :: "process list \<Rightarrow> nat option" where
  "head_of ps = (if ps = [] then None else Some 0)"

definition deref :: "heap \<Rightarrow> nat option \<Rightarrow> node cresult" where
  "deref h p = (case p of None \<Rightarrow> Inl NullDeref
     | Some a \<Rightarrow> (case h a of None \<Rightarrow> Inl NullDeref | Some n \<Rightarrow> Inr n))"

definition store :: "heap \<Rightarrow> nat option \<Rightarrow> node \<Rightarrow> heap cresult" where
  "store h p n = (case p of None \<Rightarrow> Inl NullDeref
     | Some a \<Rightarrow> (case h a of None \<Rightarrow> Inl NullDeref | Some _ \<Rightarrow> Inr (h(a \<mapsto> n))))"

text \<open>
  The exchange in the body of the inner loop, statement by statement. The second
  assignment through \<open>ptr1->link\<close> comes after \<open>*ptr1\<close> has been overwritten, so it
  already follows the new link.
\<close>

definition bubble_swap :: "heap \<Rightarrow> nat option \<Rightarrow> heap cresult" where
  "bubble_swap h ptr1 =
     bind_result (deref h ptr1) (\<lambda>temp.
     bind_result (deref h (snd temp)) (\<lambda>nxt.
     bind_result (store h ptr1 nxt) (\<lambda>h.
     bind_result (deref h ptr1) (\<lambda>n.
     bind_result (store h (snd n) temp) (\<lambda>h.
     bind_result (deref h ptr1) (\<lambda>n.
     bind_result (deref h (snd n)) (\<lambda>m. let temp_link = snd m in
     bind_result (store h (snd n) (fst m, snd n)) (\<lambda>h.
     bind_result (deref h ptr1) (\<lambda>n.
     store h ptr1 (fst n, temp_link))))))))))"

text \<open>The inner \<open>while (ptr1->link != lptr)\<close> loop.\<close>

partial_function (option) bubble_inner ::
    "nat option \<Rightarrow> heap \<Rightarrow> nat option \<Rightarrow> bool \<Rightarrow> (heap \<times> nat option \<times> bool) cresult option" where
  "bubble_inner lptr h ptr1 swapped =
     (case deref h ptr1 of
        Inl e \<Rightarrow> Some (Inl e)
      | Inr n \<Rightarrow>
          if snd n = lptr then Some (Inr (h, ptr1, swapped))
          else (case deref h (snd n) of
                  Inl e \<Rightarrow> Some (Inl e)
                | Inr m \<Rightarrow>
                    if arrival (fst n) > arrival (fst m)
                    then (case bubble_swap h ptr1 of
                            Inl e \<Rightarrow> Some (Inl e)
                          | Inr h' \<Rightarrow> (case deref h' ptr1 of
                                Inl e \<Rightarrow> Some (Inl e)
                              | Inr n' \<Rightarrow> bubble_inner lptr h' (snd n') True))
                    else bubble_inner lptr h (snd n) swapped))"

text \<open>The outer \<open>do ... while (swapped)\<close> loop.\<close>

partial_function (option) bubble_outer ::
    "nat option \<Rightarrow> heap \<Rightarrow> nat option \<Rightarrow> heap cresult option" where
  "bubble_outer head h lptr =
     Option.bind (bubble_inner lptr h head False) (\<lambda>r.
       case r of Inl e \<Rightarrow> Some (Inl e)
       | Inr (h', ptr1, swapped) \<Rightarrow>
           if swapped then bubble_outer head h' ptr1 else Some (Inr h'))"

declare bubble_inner.simps [code] bubble_outer.simps [code]

definition bubble_sort :: "heap \<Rightarrow> nat option \<Rightarrow> heap cresult option" where
  "bubble_sort h head = bubble_outer head h None"

text \<open>
  Reading the list back from \<open>head\<close>: \<open>None\<close> when the links do not reach \<open>NULL\<close> within
  \<open>n\<close> nodes.
\<close>

fun read_list :: "nat \<Rightarrow> heap \<Rightarrow> nat option \<Rightarrow> process list option" where
  "read_list n h None = Some []"
| "read_list 0 h (Some a) = None"
| "read_list (Suc n) h (Some a) =
     (case h a of None \<Rightarrow> None | Some (p, l) \<Rightarrow> map_option (Cons p) (read_list n h l))"

section \<open>Queues\<close>

definition LEVELS :: nat where "LEVELS = 3"
definition QUANTUM :: "nat \<Rightarrow> int" where "QUANTUM i = [2, 4, 8] ! i"

definition enqueue :: "aqueue \<Rightarrow> int \<Rightarrow> aqueue" where
  "enqueue q p = (if q_rear q = QMAX - 1 then q else append_rear q p)"

definition empty_lqueue :: aqueue where
  "empty_lqueue = \<lparr>q_arr = replicate (nat QMAX) 0, q_front = -1, q_rear = -1\<rparr>"

section \<open>The scheduler\<close>

record mlfq_state =
  m_procs :: "process list"
  m_time :: int
  m_queues :: "aqueue list"
  m_done :: bool       \<comment> \<open>\<open>all_done\<close>\<close>
  m_stop :: bool       \<comment> \<open>the \<open>while (1)\<close> loop has reached its \<open>break\<close>\<close>

text \<open>One turn of the \<open>while (front[i] != -1)\<close> loop.\<close>

definition serve :: "nat \<Rightarrow> mlfq_state \<Rightarrow> mlfq_state run" where
  "serve i s =
     (let (p, q) = dequeue (m_queues s ! i); qs = (m_queues s)[i := q]
      in case find_process (m_procs s) p of
           None \<Rightarrow> Some (Inl NullDeref)
         | Some k \<Rightarrow>
             (let x = m_procs s ! k;
                  t = (if arrival x > m_time s then arrival x else m_time s)
              in if remain x \<le> QUANTUM i
                 then Some (Inr (s\<lparr>m_procs := (m_procs s)[k := finish (t + remain x) x],
                        m_time := t + remain x, m_queues := qs, m_done := False\<rparr>))
                 else (let j = (if i < LEVELS - 1 then i + 1 else i)
                       in Some (Inr (s\<lparr>m_procs := (m_procs s)[k := x\<lparr>remain := remain x - QUANTUM i\<rparr>],
                            m_time := t + QUANTUM i,
                            m_queues := qs[j := enqueue (qs ! j) p], m_done := False\<rparr>)))))"

definition level_loop :: "nat \<Rightarrow> mlfq_state \<Rightarrow> mlfq_state run" where
  "level_loop i = while_run (\<lambda>s. q_front (m_queues s ! i) \<noteq> -1) (serve i)"

text \<open>One turn of the \<open>while (1)\<close> loop.\<close>

definition mlfq_pass :: "mlfq_state \<Rightarrow> mlfq_state run" where
  "mlfq_pass s =
     bind_run (level_loop 0 (s\<lparr>m_done := True\<rparr>)) (\<lambda>s.
     bind_run (level_loop 1 s) (\<lambda>s.
     bind_run (level_loop 2 s) (\<lambda>s.
       Some (Inr (if m_done s then s\<lparr>m_stop := True\<rparr> else s\<lparr>m_time := m_time s + 1\<rparr>)))))"

definition mlfq_start :: "process list \<Rightarrow> mlfq_state" where
  "mlfq_start ps = \<lparr>m_procs = ps, m_time = 0,
     m_queues = [foldl (\<lambda>q x. enqueue q (pid x)) empty_lqueue ps, empty_lqueue, empty_lqueue],
     m_done = True, m_stop = False\<rparr>"

definition mlfq :: "process list \<Rightarrow> mlfq_state run" where
  "mlfq ps = while_run (\<lambda>s. \<not> m_stop s) mlfq_pass (mlfq_start ps)"

definition read_processes :: "(int \<times> int \<times> int) list \<Rightarrow> process list" where
  "read_processes inputs = foldl (\<lambda>h (v1, v2, v3). create_process h v1 v2 v3) [] inputs"

definition mlfq_main :: "int \<Rightarrow> (int \<times> int \<times> int) list \<Rightarrow> process list run" where
  "mlfq_main processors inputs =
     (let ps = read_processes inputs
      in bind_run (bubble_sort (heap_of ps) (head_of ps)) (\<lambda>h.
           case read_list (length ps) h (head_of ps) of
             None \<Rightarrow> None
           | Some ps' \<Rightarrow>
               (case assign_processors processors ps' of
                  Inl e \<Rightarrow> Some (Inl e)
                | Inr ps'' \<Rightarrow> bind_run (mlfq ps'') (\<lambda>s. Some (Inr (m_procs s))))))"

section \<open>The array queue is a bounded queue\<close>

lemma aq_enqueue:
  assumes "aq_inv q" "0 < aq_room q"
  shows "aq_inv (enqueue q x)" "aq_contents (enqueue q x) = aq_contents q @ [x]"
    "Suc (aq_room (enqueue q x)) = aq_room q"
proof -
  have "enqueue q x = append_rear q x" using assms(2) by (simp add: enqueue_def aq_room_def)
  then show "aq_inv (enqueue q x)" "aq_contents (enqueue q x) = aq_contents q @ [x]"
    "Suc (aq_room (enqueue q x)) = aq_room q"
    using aq_append [OF assms, of x] by simp_all
qed

interpretation lq: fifo aq_inv aq_contents aq_room aq_empty enqueue dequeue
  by unfold_locales (use aq_inv_empty_iff aq_enqueue aq_dequeue in auto)

lemma lq_full: "aq_inv q \<Longrightarrow> aq_room q = 0 \<Longrightarrow> enqueue q x = q"
  by (auto simp: aq_inv_def aq_room_def enqueue_def QMAX_def)

lemma lq_enqueue_any:
  assumes "aq_inv q"
  shows "aq_inv (enqueue q x) \<and>
    aq_contents (enqueue q x) = aq_contents q @ (if 0 < aq_room q then [x] else []) \<and>
    aq_room q \<le> Suc (aq_room (enqueue q x))"
  using aq_enqueue [OF assms, of x] lq_full [OF assms, of x] assms by (cases "0 < aq_room q") auto

lemma empty_lqueue_inv [simp]:
  "aq_inv empty_lqueue" "aq_contents empty_lqueue = []" "aq_room empty_lqueue = 100"
  by (simp_all add: aq_inv_def aq_contents_def empty_lqueue_def aq_room_def QMAX_def)

section \<open>What bubble\_sort does\<close>

lemma deref_simps [simp]:
  "deref h None = Inl NullDeref" "h a = Some n \<Longrightarrow> deref h (Some a) = Inr n"
  by (simp_all add: deref_def)

lemma store_simps [simp]:
  "store h None n = Inl NullDeref" "h a = Some m \<Longrightarrow> store h (Some a) n = Inr (h(a \<mapsto> n))"
  by (simp_all add: store_def)

lemma heap_of_simps:
  "k < length ps \<Longrightarrow> heap_of ps k = Some (ps ! k, if Suc k < length ps then Some (Suc k) else None)"
  by (simp add: heap_of_def)

text \<open>In order, the inner loop only walks.\<close>

lemma bubble_inner_walk:
  assumes "Suc k < length ps" "arrival (ps ! k) \<le> arrival (ps ! Suc k)"
  shows "bubble_inner None (heap_of ps) (Some k) sw = bubble_inner None (heap_of ps) (Some (Suc k)) sw"
  using assms by (subst bubble_inner.simps) (simp add: heap_of_simps)

lemma bubble_inner_reach:
  assumes "k \<le> j" "j < length ps" "\<And>i. k \<le> i \<Longrightarrow> i < j \<Longrightarrow> arrival (ps ! i) \<le> arrival (ps ! Suc i)"
  shows "bubble_inner None (heap_of ps) (Some k) sw = bubble_inner None (heap_of ps) (Some j) sw"
  using assms
proof (induction "j - k" arbitrary: k)
  case (Suc d)
  then have "bubble_inner None (heap_of ps) (Some k) sw = bubble_inner None (heap_of ps) (Some (Suc k)) sw"
    by (intro bubble_inner_walk) auto
  also have "\<dots> = bubble_inner None (heap_of ps) (Some j) sw"
    by (rule Suc.hyps(1)) (use Suc in auto)
  finally show ?case .
qed simp

lemma bubble_inner_end:
  assumes "Suc k = length ps"
  shows "bubble_inner None (heap_of ps) (Some k) sw = Some (Inr (heap_of ps, Some k, sw))"
  using assms by (subst bubble_inner.simps) (simp add: heap_of_simps)

text \<open>A node that links to itself, not the stop node, keeps the inner loop forever.\<close>

lemma bubble_inner_self_loop:
  assumes "h a = Some (p, Some a)" "lptr \<noteq> Some a"
  shows "bubble_inner lptr h (Some a) sw = None"
proof (rule ccontr)
  assume "bubble_inner lptr h (Some a) sw \<noteq> None"
  then obtain r where r: "bubble_inner lptr h (Some a) sw = Some r" by blast
  have "\<not> (h a = Some (p, Some a) \<and> lptr \<noteq> Some a \<and> Some a = Some a)"
    by (rule bubble_inner.raw_induct [where P =
        "\<lambda>lptr h q sw r. \<not> (h a = Some (p, Some a) \<and> lptr \<noteq> Some a \<and> q = Some a)", OF _ r])
      (auto split: if_splits, blast)
  with assms show False by simp
qed

text \<open>An exchange at the last pair writes through a null pointer.\<close>

lemma bubble_swap_last:
  assumes "Suc (Suc k) = length ps"
  shows "bubble_swap (heap_of ps) (Some k) = Inl NullDeref"
  using assms by (simp add: bubble_swap_def heap_of_simps deref_def store_def)

text \<open>
  An exchange before the last pair puts the first node's data into the third node, loses
  the third node's own data, and links the third node to itself.
\<close>

lemma bubble_swap_inner:
  assumes "Suc (Suc k) < length ps"
  shows "bubble_swap (heap_of ps) (Some k) = Inr ((heap_of ps)
    (k \<mapsto> (ps ! Suc k, Some (Suc k)), Suc (Suc k) \<mapsto> (ps ! k, Some (Suc (Suc k)))))"
  using assms by (simp add: bubble_swap_def heap_of_simps deref_def store_def Let_def fun_upd_twist)

lemma bubble_inner_inversion:
  assumes "Suc k < length ps" "arrival (ps ! Suc k) < arrival (ps ! k)"
  shows "bubble_inner None (heap_of ps) (Some k) sw =
    (if Suc (Suc k) = length ps then Some (Inl NullDeref) else None)"
proof (cases "Suc (Suc k) = length ps")
  case True
  then show ?thesis
    using assms by (subst bubble_inner.simps) (simp add: heap_of_simps bubble_swap_last)
next
  case False
  let ?h = "(heap_of ps)(k \<mapsto> (ps ! Suc k, Some (Suc k)), Suc (Suc k) \<mapsto> (ps ! k, Some (Suc (Suc k))))"
  have len: "Suc (Suc k) < length ps" using assms(1) False by simp
  have "bubble_inner None (heap_of ps) (Some k) sw = bubble_inner None ?h (Some (Suc k)) True"
    using assms len by (subst bubble_inner.simps) (simp add: heap_of_simps bubble_swap_inner)
  also have "\<dots> = bubble_inner None ?h (Some (Suc (Suc k))) True"
    using assms len by (subst bubble_inner.simps) (simp add: heap_of_simps)
  also have "\<dots> = None" by (rule bubble_inner_self_loop [where p = "ps ! k"]) simp_all
  finally show ?thesis using False by simp
qed

lemma bubble_sort_sorted:
  assumes "ps \<noteq> []" "sorted (map arrival ps)"
  shows "bubble_sort (heap_of ps) (head_of ps) = Some (Inr (heap_of ps))"
proof -
  have adj: "arrival (ps ! i) \<le> arrival (ps ! Suc i)" if "Suc i < length ps" for i
    using assms(2) that by (auto simp: sorted_iff_nth_Suc)
  have "bubble_inner None (heap_of ps) (Some 0) False =
      bubble_inner None (heap_of ps) (Some (length ps - 1)) False"
    by (rule bubble_inner_reach) (use assms(1) adj in auto)
  also have "\<dots> = Some (Inr (heap_of ps, Some (length ps - 1), False))"
    by (rule bubble_inner_end) (use assms(1) in simp)
  finally show ?thesis
    using assms(1) by (simp add: bubble_sort_def head_of_def bubble_outer.simps)
qed

lemma bubble_sort_Nil: "bubble_sort (heap_of []) (head_of []) = Some (Inl NullDeref)"
  unfolding bubble_sort_def head_of_def
  by (subst bubble_outer.simps, subst bubble_inner.simps) simp

lemma bubble_sort_unsorted:
  assumes "Suc j < length ps" "arrival (ps ! Suc j) < arrival (ps ! j)"
    and "\<And>i. i < j \<Longrightarrow> arrival (ps ! i) \<le> arrival (ps ! Suc i)"
  shows "bubble_sort (heap_of ps) (head_of ps) =
    (if Suc (Suc j) = length ps then Some (Inl NullDeref) else None)"
proof -
  have "bubble_inner None (heap_of ps) (Some 0) False = bubble_inner None (heap_of ps) (Some j) False"
    by (rule bubble_inner_reach) (use assms in auto)
  then show ?thesis
    using assms(1) bubble_inner_inversion [OF assms(1,2)]
    by (auto simp: bubble_sort_def head_of_def bubble_outer.simps)
qed

text \<open>
  Also proved (bubble\_sort does not sort): the function returns only when the list is
  non-empty and already in order of arrival, and then changes nothing. On the empty list,
  or when only the last pair is out of order, it dereferences a null pointer; on every
  other list it never returns.
\<close>

theorem bubble_sort_spec:
  "bubble_sort (heap_of ps) (head_of ps) =
     (if ps = [] then Some (Inl NullDeref)
      else if sorted (map arrival ps) then Some (Inr (heap_of ps))
      else if sorted (map arrival (butlast ps)) then Some (Inl NullDeref)
      else None)"
proof (cases "ps = [] \<or> sorted (map arrival ps)")
  case True
  then show ?thesis using bubble_sort_sorted [of ps] bubble_sort_Nil by auto
next
  case False
  define inv where "inv i \<longleftrightarrow> Suc i < length ps \<and> arrival (ps ! Suc i) < arrival (ps ! i)" for i
  obtain i where "inv i" using False by (auto simp: sorted_iff_nth_Suc inv_def not_le)
  define j where "j = (LEAST i. inv i)"
  have j: "inv j" "\<And>i. i < j \<Longrightarrow> \<not> inv i"
    unfolding j_def by (rule LeastI [of inv, OF \<open>inv i\<close>], rule not_less_Least)
  have "sorted (map arrival (butlast ps)) \<longleftrightarrow> Suc (Suc j) = length ps"
  proof
    assume s: "sorted (map arrival (butlast ps))"
    show "Suc (Suc j) = length ps"
    proof (rule ccontr)
      assume "Suc (Suc j) \<noteq> length ps"
      then have "Suc j < length (butlast ps)" using j(1) by (auto simp: inv_def)
      then have "map arrival (butlast ps) ! j \<le> map arrival (butlast ps) ! Suc j"
        using s by (simp add: sorted_iff_nth_Suc)
      then show False using j(1) \<open>Suc j < length (butlast ps)\<close> by (simp add: inv_def nth_butlast)
    qed
  next
    assume "Suc (Suc j) = length ps"
    then have "\<not> inv i" if "Suc i < length (butlast ps)" for i using j(2) that by auto
    then have "arrival (ps ! i) \<le> arrival (ps ! Suc i)" if "Suc i < length (butlast ps)" for i
      using that by (fastforce simp: inv_def not_less)
    then show "sorted (map arrival (butlast ps))"
      by (simp add: sorted_iff_nth_Suc nth_butlast)
  qed
  then show ?thesis
    using False bubble_sort_unsorted [of j ps] j by (auto simp: inv_def not_less)
qed

section \<open>Termination of the scheduler\<close>

definition level :: "mlfq_state \<Rightarrow> nat \<Rightarrow> int list" where
  "level s i = aq_contents (m_queues s ! i)"

definition space :: "mlfq_state \<Rightarrow> nat \<Rightarrow> nat" where
  "space s i = aq_room (m_queues s ! i)"

definition mlfq_wf :: "mlfq_state \<Rightarrow> bool" where
  "mlfq_wf s \<longleftrightarrow> length (m_queues s) = LEVELS \<and> (\<forall>q\<in>set (m_queues s). aq_inv q) \<and>
     (\<forall>i<LEVELS. set (level s i) \<subseteq> set (map pid (m_procs s)))"

definition next_level :: "nat \<Rightarrow> nat" where
  "next_level i = (if i < LEVELS - 1 then i + 1 else i)"

lemma next_level_less: "i < LEVELS \<Longrightarrow> next_level i < LEVELS"
  by (auto simp: next_level_def LEVELS_def)

definition slice_start :: "mlfq_state \<Rightarrow> process \<Rightarrow> int" where
  "slice_start s x = max (arrival x) (m_time s)"

text \<open>The two outcomes of a slice: the process finishes, or goes on to the next level.\<close>

lemma serve_cases:
  assumes wf: "mlfq_wf s" and i: "i < LEVELS" and ne: "q_front (m_queues s ! i) \<noteq> -1"
  obtains (last) p rest k x s' where "level s i = p # rest" "find_process (m_procs s) p = Some k"
      "x = m_procs s ! k" "remain x \<le> QUANTUM i" "serve i s = Some (Inr s')" "mlfq_wf s'"
      "m_procs s' = (m_procs s)[k := finish (slice_start s x + remain x) x]"
      "m_time s' = slice_start s x + remain x" "m_done s' = False" "m_stop s' = m_stop s"
      "\<And>j. j < LEVELS \<Longrightarrow> level s' j = (if j = i then rest else level s j)"
      "\<And>j. j < LEVELS \<Longrightarrow> space s j \<le> space s' j"
  | (demote) p rest k x s' b where "level s i = p # rest" "find_process (m_procs s) p = Some k"
      "x = m_procs s ! k" "QUANTUM i < remain x" "serve i s = Some (Inr s')" "mlfq_wf s'"
      "m_procs s' = (m_procs s)[k := x\<lparr>remain := remain x - QUANTUM i\<rparr>]"
      "m_time s' = slice_start s x + QUANTUM i" "m_done s' = False" "m_stop s' = m_stop s"
      "\<And>j. j < LEVELS \<Longrightarrow> level s' j = (if j = i then rest else level s j) @
         (if j = next_level i \<and> b then [p] else [])"
      "\<And>j. j < LEVELS \<Longrightarrow> j \<noteq> next_level i \<Longrightarrow> space s j \<le> space s' j"
      "space s (next_level i) \<le> Suc (space s' (next_level i))"
      "0 < space s (next_level i) \<Longrightarrow> b"
proof -
  let ?q = "m_queues s ! i" and ?ps = "m_procs s"
  have inv: "aq_inv ?q" "length (m_queues s) = LEVELS" "\<And>j. j < LEVELS \<Longrightarrow> aq_inv (m_queues s ! j)"
    using wf i by (auto simp: mlfq_wf_def)
  have "aq_contents ?q \<noteq> []" using aq_inv_empty_iff [OF inv(1)] ne by (simp add: aq_empty_def)
  then obtain p rest where c: "aq_contents ?q = p # rest" by (cases "aq_contents ?q") auto
  note d = aq_dequeue [OF inv(1) c]
  have "p \<in> set (map pid ?ps)" using wf i c by (auto simp: mlfq_wf_def level_def)
  then obtain k where k: "find_process ?ps p = Some k" "k < length ?ps" "pid (?ps ! k) = p"
    by (rule find_process_exists)
  define x where "x = ?ps ! k"
  define qs where "qs = (m_queues s)[i := snd (dequeue ?q)]"
  have qs: "length qs = LEVELS" "\<And>j. j < LEVELS \<Longrightarrow> aq_inv (qs ! j)"
    "\<And>j. j < LEVELS \<Longrightarrow> aq_contents (qs ! j) = (if j = i then rest else level s j)"
    "\<And>j. j < LEVELS \<Longrightarrow> space s j \<le> aq_room (qs ! j)"
    using inv d i by (auto simp: qs_def level_def space_def nth_list_update)
  have sub: "set (level s j) \<subseteq> set (map pid ?ps)" if "j < LEVELS" for j
    using wf that by (auto simp: mlfq_wf_def)
  moreover have "set rest \<subseteq> set (level s i)" using c by (auto simp: level_def)
  ultimately have rest: "set rest \<subseteq> set (map pid ?ps)" using i by blast
  show thesis
  proof (cases "remain x \<le> QUANTUM i")
    case True
    let ?s = "s\<lparr>m_procs := ?ps[k := finish (slice_start s x + remain x) x],
      m_time := slice_start s x + remain x, m_queues := qs, m_done := False\<rparr>"
    have "serve i s = Some (Inr ?s)"
      using True k d(1) by (simp add: serve_def split_def x_def qs_def slice_start_def max_def Let_def)
    moreover have "map pid (?ps[k := finish (slice_start s x + remain x) x]) = map pid ?ps"
      using k by (intro map_pid_update) (auto simp: x_def)
    then have "set (map pid (m_procs ?s)) = set (map pid ?ps)" by (simp del: set_map)
    then have "mlfq_wf ?s"
      using qs sub rest by (auto simp: mlfq_wf_def level_def in_set_conv_nth simp del: set_map)
    ultimately show thesis
      using c k True qs by (intro last [of p rest k x ?s]) (auto simp: level_def space_def x_def)
  next
    case False
    let ?j = "next_level i"
    have j: "?j < LEVELS" using i by (rule next_level_less)
    let ?qs = "qs[?j := enqueue (qs ! ?j) p]"
    let ?s = "s\<lparr>m_procs := ?ps[k := x\<lparr>remain := remain x - QUANTUM i\<rparr>],
      m_time := slice_start s x + QUANTUM i, m_queues := ?qs, m_done := False\<rparr>"
    define b where "b \<longleftrightarrow> 0 < aq_room (qs ! ?j)"
    have e: "aq_inv (enqueue (qs ! ?j) p)"
      "aq_contents (enqueue (qs ! ?j) p) = aq_contents (qs ! ?j) @ (if b then [p] else [])"
      "aq_room (qs ! ?j) \<le> Suc (aq_room (enqueue (qs ! ?j) p))"
      using lq_enqueue_any [OF qs(2) [OF j], of p] by (auto simp: b_def)
    have "serve i s = Some (Inr ?s)"
      using False k d(1) by (simp add: serve_def split_def x_def qs_def slice_start_def max_def Let_def next_level_def)
    moreover have "map pid (?ps[k := x\<lparr>remain := remain x - QUANTUM i\<rparr>]) = map pid ?ps"
      using k by (intro map_pid_update) (auto simp: x_def)
    then have pids: "set (map pid (m_procs ?s)) = set (map pid ?ps)" by (simp del: set_map)
    have lev: "level ?s l = (if l = i then rest else level s l) @ (if l = ?j \<and> b then [p] else [])"
      if "l < LEVELS" for l
      using that j qs e by (auto simp: level_def nth_list_update)
    have "mlfq_wf ?s"
      unfolding mlfq_wf_def pids
      using qs e j lev sub rest \<open>p \<in> set (map pid ?ps)\<close>
      by (auto simp: all_set_conv_all_nth nth_list_update simp del: set_map)
    ultimately show thesis
      using c k False qs e j lev
      by (intro demote [of p rest k x ?s b])
        (auto simp: level_def space_def x_def nth_list_update b_def intro: order.strict_trans2 le_trans)
  qed
qed

definition pending :: "mlfq_state \<Rightarrow> nat" where
  "pending s = (\<Sum>i<LEVELS. length (level s i))"

lemma LEVELS_cases: "i < LEVELS \<longleftrightarrow> i = 0 \<or> i = 1 \<or> i = 2"
  by (auto simp: LEVELS_def)

lemma QUANTUM_pos: "i < LEVELS \<Longrightarrow> 0 < QUANTUM i"
  by (auto simp: LEVELS_cases QUANTUM_def)

lemma pending_eq: "pending s = length (level s 0) + length (level s 1) + length (level s 2)"
  by (simp add: pending_def LEVELS_def numeral_eq_Suc)

text \<open>Every slice finishes a queue entry or shortens a remaining time.\<close>

lemma serve_decreases:
  assumes "mlfq_wf s" "i < LEVELS" "q_front (m_queues s ! i) \<noteq> -1"
  obtains s' where "serve i s = Some (Inr s')" "mlfq_wf s'" "m_stop s' = m_stop s" "m_done s' = False"
    "work (m_procs s') + pending s' < work (m_procs s) + pending s"
    "\<And>j. j < i \<Longrightarrow> level s j = [] \<Longrightarrow> level s' j = []"
  using assms
proof (cases rule: serve_cases)
  case (last p rest k x s')
  have k: "k < length (m_procs s)" using find_process_Some [OF last(2)] by simp
  have "pending s' < pending s"
    using last(1,11) assms(2) by (auto simp: pending_eq LEVELS_cases)
  moreover have "work (m_procs s') \<le> work (m_procs s)"
    using work_update [OF k, of "finish (slice_start s x + remain x) x"]
    by (simp add: last(7) split: if_splits)
  ultimately show ?thesis using that [OF last(5,6,10,9)] last(11) assms(2) by auto
next
  case (demote p rest k x s' b)
  have k: "k < length (m_procs s)" using find_process_Some [OF demote(2)] by simp
  have j: "next_level i < LEVELS" "i \<le> next_level i"
    using assms(2) next_level_less by (auto simp: next_level_def)
  have len: "length (level s' l) = length (if l = i then rest else level s l) +
      (if l = next_level i \<and> b then 1 else 0)" if "l < LEVELS" for l
    using demote(11) [OF that] by simp
  consider "i = 0" | "i = 1" | "i = 2" using assms(2) by (auto simp: LEVELS_cases)
  then have "pending s' \<le> pending s"
    using len [of 0] len [of 1] len [of 2] demote(1)
    by cases (simp_all add: pending_eq next_level_def LEVELS_def)
  moreover have "work (m_procs s') < work (m_procs s)"
    using work_update [OF k, of "x\<lparr>remain := remain x - QUANTUM i\<rparr>"] demote(3,4) QUANTUM_pos [OF assms(2)]
    by (simp add: demote(7))
  ultimately show ?thesis using that [OF demote(5,6,10,9)] demote(11) assms(2) j by auto
qed

text \<open>
  A level's loop ends with the level empty, and keeps whatever every slice keeps: the
  predicate \<open>I\<close> is an invariant of the slices.
\<close>

definition slice_invariant :: "(mlfq_state \<Rightarrow> bool) \<Rightarrow> bool" where
  "slice_invariant I \<longleftrightarrow>
     (\<forall>s i s'. mlfq_wf s \<longrightarrow> I s \<longrightarrow> i < LEVELS \<longrightarrow> q_front (m_queues s ! i) \<noteq> -1 \<longrightarrow>
        serve i s = Some (Inr s') \<longrightarrow> I s') \<and>
     (\<forall>s b. I s \<longrightarrow> I (s\<lparr>m_done := b\<rparr>) \<and> I (s\<lparr>m_stop := b\<rparr>) \<and> I (s\<lparr>m_time := m_time s + 1\<rparr>))"

lemma front_empty: "mlfq_wf s \<Longrightarrow> i < LEVELS \<Longrightarrow> q_front (m_queues s ! i) = -1 \<longleftrightarrow> level s i = []"
  using aq_inv_empty_iff [of "m_queues s ! i"] by (auto simp: mlfq_wf_def level_def aq_empty_def)

lemma level_loop_ends:
  assumes I: "slice_invariant I" and s: "mlfq_wf s" "I s" "i < LEVELS" "\<forall>j<i. level s j = []"
  obtains t where "level_loop i s = Some (Inr t)" "mlfq_wf t" "I t" "\<forall>j\<le>i. level t j = []"
    "level s i = [] \<Longrightarrow> t = s"
proof -
  define P where "P u \<longleftrightarrow> mlfq_wf u \<and> I u \<and> (\<forall>j<i. level u j = [])" for u :: mlfq_state
  obtain t where t: "level_loop i s = Some (Inr t)" "P t" "\<not> q_front (m_queues t ! i) \<noteq> -1"
    unfolding level_loop_def
  proof (rule while_run_total [of P s "\<lambda>s. q_front (m_queues s ! i) \<noteq> -1" "serve i"
        "\<lambda>s. work (m_procs s) + pending s"])
    show "P s" using s by (simp add: P_def)
  next
    fix u :: mlfq_state
    assume u: "P u" "q_front (m_queues u ! i) \<noteq> -1"
    then obtain u' where "serve i u = Some (Inr u')" "mlfq_wf u'" "m_stop u' = m_stop u" "m_done u' = False"
      "work (m_procs u') + pending u' < work (m_procs u) + pending u"
      "\<And>j. j < i \<Longrightarrow> level u j = [] \<Longrightarrow> level u' j = []"
      using serve_decreases [of u i] s(3) by (auto simp: P_def)
    moreover from this have "I u'"
      using I u s(3) by (auto simp: slice_invariant_def P_def)
    ultimately show "\<exists>u'. serve i u = Some (Inr u') \<and> P u' \<and>
        work (m_procs u') + pending u' < work (m_procs u) + pending u"
      using u(1) by (auto simp: P_def)
  qed blast
  have e: "level t i = []" using t(2,3) front_empty [of t i] s(3) by (auto simp: P_def)
  have "t = s" if "level s i = []"
    using that t(1) front_empty [OF s(1,3)] by (simp add: level_loop_def)
  moreover have "\<forall>j\<le>i. level t j = []" using t(2) e by (auto simp: P_def le_less)
  ultimately show thesis using that [OF t(1)] t(2) by (auto simp: P_def)
qed

lemma mlfq_pass_ends:
  assumes I: "slice_invariant I" and s: "mlfq_wf s" "I s" "\<not> m_stop s"
  obtains t where "mlfq_pass s = Some (Inr t)" "mlfq_wf t" "I t" "pending t = 0"
    "m_stop t \<or> pending s \<noteq> 0"
proof -
  let ?s = "s\<lparr>m_done := True\<rparr>"
  have wf: "mlfq_wf ?s" "I ?s" using s I by (auto simp: mlfq_wf_def level_def slice_invariant_def)
  obtain s1 where s1: "level_loop 0 ?s = Some (Inr s1)" "mlfq_wf s1" "I s1" "level s1 0 = []"
    "level ?s 0 = [] \<Longrightarrow> s1 = ?s"
    using level_loop_ends [OF I wf, of 0] by (auto simp: LEVELS_def)
  obtain s2 where s2: "level_loop 1 s1 = Some (Inr s2)" "mlfq_wf s2" "I s2" "\<forall>j\<le>1. level s2 j = []"
    "level s1 1 = [] \<Longrightarrow> s2 = s1"
    using level_loop_ends [OF I s1(2,3), of 1] s1(4) by (auto simp: LEVELS_def)
  obtain s3 where s3: "level_loop 2 s2 = Some (Inr s3)" "mlfq_wf s3" "I s3" "\<forall>j\<le>2. level s3 j = []"
    "level s2 2 = [] \<Longrightarrow> s3 = s2"
    by (rule level_loop_ends [OF I s2(2,3), of 2]) (use s2(4) in \<open>auto simp: LEVELS_def\<close>)
  let ?t = "if m_done s3 then s3\<lparr>m_stop := True\<rparr> else s3\<lparr>m_time := m_time s3 + 1\<rparr>"
  have "mlfq_pass s = Some (Inr ?t)" using s1(1) s2(1) s3(1) by (simp add: mlfq_pass_def)
  moreover have "mlfq_wf ?t" "I ?t" "pending ?t = 0"
    using s3 I by (auto simp: mlfq_wf_def level_def slice_invariant_def pending_eq)
  moreover have "s3 = ?s" if "pending s = 0"
    using that s1(5) s2(5) s3(5) by (auto simp: pending_eq level_def)
  then have "m_stop ?t \<or> pending s \<noteq> 0" by auto
  ultimately show thesis by (rule that)
qed

lemma mlfq_ends:
  assumes I: "slice_invariant I" and s: "mlfq_wf (mlfq_start ps)" "I (mlfq_start ps)"
  obtains t where "mlfq ps = Some (Inr t)" "mlfq_wf t" "I t" "pending t = 0"
proof -
  define P where "P s \<longleftrightarrow> mlfq_wf s \<and> I s \<and> (m_stop s \<longrightarrow> pending s = 0)" for s :: mlfq_state
  obtain t where "mlfq ps = Some (Inr t)" "P t" "\<not> \<not> m_stop t"
    unfolding mlfq_def
  proof (rule while_run_total [of P "mlfq_start ps" "\<lambda>s. \<not> m_stop s" mlfq_pass
        "\<lambda>s. if m_stop s then 0 else Suc (pending s)"])
    show "P (mlfq_start ps)" using s by (simp add: P_def mlfq_start_def)
  next
    fix u :: mlfq_state
    assume "P u" "\<not> m_stop u"
    then obtain u' where "mlfq_pass u = Some (Inr u')" "mlfq_wf u'" "I u'" "pending u' = 0"
      "m_stop u' \<or> pending u \<noteq> 0"
      using mlfq_pass_ends [OF I, of u] by (auto simp: P_def)
    then show "\<exists>u'. mlfq_pass u = Some (Inr u') \<and> P u' \<and>
        (if m_stop u' then 0 else Suc (pending u')) < (if m_stop u then 0 else Suc (pending u))"
      using \<open>\<not> m_stop u\<close> by (auto simp: P_def)
  qed blast
  then show thesis using that by (auto simp: P_def)
qed

lemma enqueue_all:
  "aq_inv q \<Longrightarrow> aq_inv (foldl (\<lambda>q x. enqueue q (pid x)) q ps) \<and>
   aq_contents (foldl (\<lambda>q x. enqueue q (pid x)) q ps) = aq_contents q @ take (aq_room q) (map pid ps) \<and>
   aq_room q - length ps \<le> aq_room (foldl (\<lambda>q x. enqueue q (pid x)) q ps)"
proof (induction ps arbitrary: q)
  case (Cons x ps)
  then show ?case
    using aq_enqueue [OF Cons.prems, of "pid x"] lq_full [OF Cons.prems, of "pid x"]
    by (cases "aq_room q") auto
qed simp

lemma mlfq_start_levels:
  "level (mlfq_start ps) 0 = take 100 (map pid ps)" "level (mlfq_start ps) 1 = []"
  "level (mlfq_start ps) 2 = []" "space (mlfq_start ps) 1 = 100" "space (mlfq_start ps) 2 = 100"
  "m_procs (mlfq_start ps) = ps" "m_time (mlfq_start ps) = 0"
  using enqueue_all [of empty_lqueue ps] by (simp_all add: level_def space_def mlfq_start_def)

lemma mlfq_start_wf: "mlfq_wf (mlfq_start ps)"
  using enqueue_all [of empty_lqueue ps] mlfq_start_levels [of ps]
  by (auto simp: mlfq_wf_def LEVELS_cases dest: in_set_takeD) (auto simp: mlfq_start_def LEVELS_def)

text \<open>
  Property C37 (termination of mlfq): the scheduler ends on every list of processes,
  whatever the pids, arrivals and bursts, and never follows a null pointer.
\<close>

theorem mlfq_terminates: "\<exists>s. mlfq ps = Some (Inr s) \<and> length (m_procs s) = length ps"
proof -
  have "slice_invariant (\<lambda>s. length (m_procs s) = length ps)"
    unfolding slice_invariant_def
  proof (intro conjI allI impI)
    fix s s' i
    assume wf: "mlfq_wf s" "i < LEVELS" "q_front (m_queues s ! i) \<noteq> -1"
      and s: "length (m_procs s) = length ps" "serve i s = Some (Inr s')"
    from wf show "length (m_procs s') = length ps"
    proof (cases rule: serve_cases)
      case (last p rest k x s'')
      then show ?thesis using s by simp
    next
      case (demote p rest k x s'' b)
      then show ?thesis using s by simp
    qed
  qed auto
  then obtain s where "mlfq ps = Some (Inr s)" "length (m_procs s) = length ps"
    by (rule mlfq_ends [OF _ mlfq_start_wf, of _ ps]) (auto simp: mlfq_start_levels)
  then show ?thesis by blast
qed

section \<open>Completion\<close>

text \<open>
  Future enqueues at the last level caused by a process with remaining time \<open>r\<close> that
  waits at level \<open>i\<close>.
\<close>

definition demand :: "nat \<Rightarrow> int \<Rightarrow> nat" where
  "demand i r = nat ((r + [1, 3, -1] ! i) div 8)"

lemma demand_mono: "r \<le> r' \<Longrightarrow> demand i r \<le> demand i r'"
  by (simp add: demand_def nat_mono zdiv_mono1)

definition demands :: "process list \<Rightarrow> nat \<Rightarrow> int list \<Rightarrow> nat" where
  "demands ps i xs = sum_list (map (\<lambda>p. demand i (remain_of ps p)) xs)"

lemma demands_simps [simp]:
  "demands ps i [] = 0" "demands ps i (x # xs) = demand i (remain_of ps x) + demands ps i xs"
  "demands ps i (xs @ ys) = demands ps i xs + demands ps i ys"
  by (simp_all add: demands_def)

lemma demands_mono:
  assumes "\<And>p. remain_of ps' p \<le> remain_of ps p"
  shows "demands ps' i xs \<le> demands ps i xs"
  unfolding demands_def by (rule sum_list_mono) (simp add: demand_mono assms)

lemma demand_step:
  "2 < r \<Longrightarrow> demand 1 (r - 2) = demand 0 r"
  "4 < r \<Longrightarrow> Suc (demand 2 (r - 4)) = demand 1 r"
  "8 < r \<Longrightarrow> Suc (demand 2 (r - 8)) = demand 2 r"
  by (simp_all add: demand_def)

definition capacity_ok :: "mlfq_state \<Rightarrow> bool" where
  "capacity_ok s \<longleftrightarrow> length (level s 0) \<le> space s 1 \<and>
     demands (m_procs s) 0 (level s 0) + demands (m_procs s) 1 (level s 1)
       + demands (m_procs s) 2 (level s 2) \<le> space s 2"

definition complete_inv :: "(int \<times> int \<times> int \<times> int) list \<Rightarrow> mlfq_state \<Rightarrow> bool" where
  "complete_inv st s \<longleftrightarrow> map static_of (m_procs s) = st \<and> distinct (map pid (m_procs s)) \<and>
     (\<forall>p\<in>set (m_procs s). proc_ok (m_time s) p) \<and>
     (\<forall>p\<in>set (m_procs s). 0 < remain p \<longrightarrow> (\<exists>i<LEVELS. pid p \<in> set (level s i))) \<and>
     capacity_ok s"

text \<open>A slice that changes process \<open>k\<close> to \<open>y\<close> keeps the part about processes.\<close>

lemma complete_inv_update:
  assumes inv: "complete_inv st s" and k: "find_process (m_procs s) p = Some k" "x = m_procs s ! k"
    and y: "static_of y = static_of x" "proc_ok t y" "m_time s \<le> t" "remain y \<le> remain x"
    and s': "m_procs s' = (m_procs s)[k := y]" "m_time s' = t"
    and lev: "\<And>q i. i < LEVELS \<Longrightarrow> q \<in> set (level s i) \<Longrightarrow> q \<noteq> p \<Longrightarrow> \<exists>i<LEVELS. q \<in> set (level s' i)"
    and p: "0 < remain y \<Longrightarrow> \<exists>i<LEVELS. p \<in> set (level s' i)"
    and cap: "(\<And>q. remain_of (m_procs s') q = (if q = p then remain y else remain_of (m_procs s) q)) \<Longrightarrow>
        remain_of (m_procs s) p = remain x \<Longrightarrow> capacity_ok s'"
  shows "complete_inv st s'"
proof -
  have k': "k < length (m_procs s)" "pid x = p" using find_process_Some [OF k(1)] k(2) by auto
  have pid: "pid y = pid x" using y(1) by (simp add: static_of_def)
  have upd: "\<And>q. remain_of (m_procs s') q = (if q = p then remain y else remain_of (m_procs s) q)"
    using remain_of_update [of "m_procs s" y k] k k' pid by (simp add: s')
  have "remain_of (m_procs s) p = remain x" using k by (simp add: remain_of_def)
  with cap upd have "capacity_ok s'" by blast
  moreover have "map static_of (m_procs s') = map static_of (m_procs s)"
    using k' k(2) y(1) by (simp add: s' map_update list_update_same_conv)
  moreover have "map pid (m_procs s') = map pid (m_procs s)"
    unfolding s' using k' k(2) pid by (intro map_pid_update) auto
  moreover have "\<forall>p\<in>set (m_procs s'). proc_ok (m_time s') p"
    unfolding s' by (rule all_set_update) (use inv y in \<open>fastforce simp: complete_inv_def proc_ok_def\<close>)+
  moreover have "\<exists>i<LEVELS. pid z \<in> set (level s' i)" if z: "z \<in> set (m_procs s')" "0 < remain z" for z
  proof (cases "pid z = p")
    case True
    have "remain z = remain_of (m_procs s') p"
      using remain_of_distinct [of "m_procs s'" z] z inv \<open>map pid (m_procs s') = _\<close> True
      by (simp add: complete_inv_def)
    then show ?thesis using p upd z True by simp
  next
    case False
    then have "z \<in> set (m_procs s)"
      using z k' pid set_update_subset_insert [of "m_procs s" k y] by (auto simp: s')
    then show ?thesis using inv z(2) False lev by (fastforce simp: complete_inv_def)
  qed
  ultimately show ?thesis using inv by (simp add: complete_inv_def)
qed

lemma capacity_last:
  assumes "capacity_ok s" "i < LEVELS" "level s i = p # rest"
    and lev: "\<And>j. j < LEVELS \<Longrightarrow> level s' j = (if j = i then rest else level s j)"
    and sp: "\<And>j. j < LEVELS \<Longrightarrow> space s j \<le> space s' j"
    and rem: "\<And>q. remain_of (m_procs s') q \<le> remain_of (m_procs s) q"
  shows "capacity_ok s'"
proof -
  have d: "demands (m_procs s') j (level s' j) \<le> demands (m_procs s) j (level s j)" if "j < LEVELS" for j
    using demands_mono [OF rem, of j "level s' j"] lev [OF that] assms(3) by auto
  have "length (level s' 0) \<le> length (level s 0)" using lev [of 0] assms(3) by (auto simp: LEVELS_def)
  then show ?thesis
    using assms(1) d [of 0] d [of 1] d [of 2] sp [of 1] sp [of 2] by (simp add: capacity_ok_def LEVELS_def)
qed

lemma next_level_simps: "next_level 0 = 1" "next_level (Suc 0) = 2" "next_level 2 = 2"
  by (simp_all add: next_level_def LEVELS_def)

lemma capacity_demote:
  assumes "capacity_ok s" "i < LEVELS" "level s i = p # rest" "QUANTUM i < r" "remain_of (m_procs s) p = r"
    and lev: "\<And>j. j < LEVELS \<Longrightarrow> level s' j = (if j = i then rest else level s j) @
         (if j = next_level i \<and> b then [p] else [])"
    and sp: "\<And>j. j < LEVELS \<Longrightarrow> j \<noteq> next_level i \<Longrightarrow> space s j \<le> space s' j"
      "space s (next_level i) \<le> Suc (space s' (next_level i))"
    and upd: "\<And>q. remain_of (m_procs s') q = (if q = p then r - QUANTUM i else remain_of (m_procs s) q)"
  shows "capacity_ok s'" "0 < space s (next_level i)"
proof -
  have rem: "\<And>q. remain_of (m_procs s') q \<le> remain_of (m_procs s) q"
    using upd assms(2,5) QUANTUM_pos [OF assms(2)] by auto
  have d: "demands (m_procs s') j xs \<le> demands (m_procs s) j xs" for j xs
    by (rule demands_mono [OF rem])
  have p: "remain_of (m_procs s') p = r - QUANTUM i" using upd by simp
  consider "i = 0" | "i = 1" | "i = 2" using assms(2) by (auto simp: LEVELS_cases)
  then have "capacity_ok s' \<and> 0 < space s (next_level i)"
  proof cases
    case 1
    then show ?thesis
      using assms(1,3,4,5) lev [of 0] lev [of 1] lev [of 2] sp(2) p demand_step(1) [of r]
        d [of 0 rest] d [of 1 "level s 1"] d [of 2 "level s 2"] sp(1) [of 2]
      by (simp add: capacity_ok_def LEVELS_def next_level_simps QUANTUM_def)
  next
    case 2
    then show ?thesis
      using assms(1,3,4,5) lev [of 0] lev [of 1] lev [of 2] sp(2) p demand_step(2) [of r]
        d [of 0 "level s 0"] d [of 1 rest] d [of 2 "level s 2"] sp(1) [of 1]
      by (simp add: capacity_ok_def LEVELS_def next_level_simps QUANTUM_def)
  next
    case 3
    then show ?thesis
      using assms(1,3,4,5) lev [of 0] lev [of 1] lev [of 2] sp(2) p demand_step(3) [of r]
        d [of 0 "level s 0"] d [of 1 "level s 1"] d [of 2 rest] sp(1) [of 1]
      by (simp add: capacity_ok_def LEVELS_def next_level_simps QUANTUM_def)
  qed
  then show "capacity_ok s'" "0 < space s (next_level i)" by auto
qed

lemma complete_inv_slice: "slice_invariant (complete_inv st)"
  unfolding slice_invariant_def
proof (intro conjI allI impI)
  fix s s' i
  assume wf: "mlfq_wf s" "i < LEVELS" "q_front (m_queues s ! i) \<noteq> -1"
    and inv: "complete_inv st s" and s': "serve i s = Some (Inr s')"
  from wf show "complete_inv st s'"
  proof (cases rule: serve_cases)
    case (last p rest k x s'')
    have x: "x \<in> set (m_procs s)" "s'' = s'" using find_process_Some last(2,3,5) s' by auto
    then have ok: "proc_ok (m_time s) x" "0 \<le> remain x" using inv by (auto simp: complete_inv_def proc_ok_def)
    show ?thesis
    proof (rule complete_inv_update [OF inv last(2,3), where y = "finish (slice_start s x + remain x) x"])
      show "proc_ok (slice_start s x + remain x) (finish (slice_start s x + remain x) x)"
        by (rule proc_ok_finish [OF ok(1)]) (simp add: slice_start_def)
      show "\<exists>i<LEVELS. q \<in> set (level s' i)" if "j < LEVELS" "q \<in> set (level s j)" "q \<noteq> p" for q j
        using that last(1) last(11) x by (cases "j = i") auto
      show "capacity_ok s'"
        if "\<And>q. remain_of (m_procs s') q =
              (if q = p then remain (finish (slice_start s x + remain x) x) else remain_of (m_procs s) q)"
          "remain_of (m_procs s) p = remain x"
        by (rule capacity_last [OF _ wf(2) last(1)])
          (use inv last(11,12) x that ok in \<open>auto simp: complete_inv_def\<close>)
    qed (use last x ok in \<open>auto simp: static_of_def finish_def slice_start_def\<close>)
  next
    case (demote p rest k x s'' b)
    have x: "x \<in> set (m_procs s)" "s'' = s'" using find_process_Some demote(2,3,5) s' by auto
    have ok: "proc_ok (m_time s) x" using inv x by (auto simp: complete_inv_def)
    have q: "0 < QUANTUM i" using wf(2) by (rule QUANTUM_pos)
    have rp: "remain_of (m_procs s) p = remain x" using demote(2,3) by (simp add: remain_of_def)
    let ?y = "x\<lparr>remain := remain x - QUANTUM i\<rparr>"
    have kp: "pid ?y = p" using find_process_Some [OF demote(2)] demote(3) by simp
    have upd: "remain_of (m_procs s') q = (if q = p then remain x - QUANTUM i else remain_of (m_procs s) q)" for q
      using remain_of_update [of "m_procs s" ?y k q] demote(2,7) x kp by simp
    have cap: "capacity_ok s'" "0 < space s (next_level i)"
      using capacity_demote [OF _ wf(2) demote(1,4) rp, of s' b] demote(11,12,13) x upd inv
      by (auto simp: complete_inv_def)
    then have b: b using demote(14) by simp
    show ?thesis
    proof (rule complete_inv_update [OF inv demote(2,3), where y = ?y])
      show "proc_ok (slice_start s x + QUANTUM i) ?y"
        by (rule proc_ok_slice [OF ok _ q demote(4)]) (simp add: slice_start_def)
      show "\<exists>i<LEVELS. z \<in> set (level s' i)" if "j < LEVELS" "z \<in> set (level s j)" "z \<noteq> p" for z j
        using that demote(1) demote(11) [OF that(1)] x by (intro exI [of _ j]) auto
      show "\<exists>i<LEVELS. p \<in> set (level s' i)"
        using demote(11) [OF next_level_less [OF wf(2)]] b x next_level_less [OF wf(2)]
        by (intro exI [of _ "next_level i"]) auto
    qed (use demote x ok q cap in \<open>auto simp: static_of_def slice_start_def\<close>)
  qed
next
  fix s and b
  assume "complete_inv st s"
  then show "complete_inv st (s\<lparr>m_done := b\<rparr>)" "complete_inv st (s\<lparr>m_stop := b\<rparr>)"
    "complete_inv st (s\<lparr>m_time := m_time s + 1\<rparr>)"
    by (fastforce simp: complete_inv_def level_def capacity_ok_def space_def proc_ok_def)+
qed

lemma fresh_complete_inv:
  assumes "distinct (map pid ps)" "\<forall>p\<in>set ps. 0 < bt p \<and> remain p = bt p" "length ps \<le> 100"
    and "sum_list (map (\<lambda>p. (bt p + 1) div 8) ps) \<le> 100"
  shows "complete_inv (map static_of ps) (mlfq_start ps)"
proof -
  have "int (demands ps 0 (map pid ps)) = sum_list (map (\<lambda>p. int (demand 0 (remain_of ps (pid p)))) ps)"
    by (simp add: demands_def comp_def sum_list_of_nat [symmetric])
  also have "\<dots> = sum_list (map (\<lambda>p. (bt p + 1) div 8) ps)"
    using assms(1,2) by (intro arg_cong [where f = sum_list] map_cong) (auto simp: remain_of_distinct demand_def)
  finally have "demands ps 0 (map pid ps) \<le> 100" using assms(4) by simp
  then show ?thesis
    using assms mlfq_start_levels [of ps]
    by (auto simp: complete_inv_def capacity_ok_def proc_ok_def LEVELS_def intro!: exI [of _ 0])
qed

lemma read_processes_map:
  "read_processes inputs = map (\<lambda>(v1, v2, v3). \<lparr>pid = v1, arrival = v2, bt = v3, pr = 0, ct = -1,
     tat = -1, wt = -1, rt = -1, remain = v3\<rparr>) inputs"
  unfolding read_processes_def
  by (induction inputs rule: rev_induct) (auto simp: create_process_def split: prod.splits)

lemma read_list_suffix:
  "k \<le> length ps \<Longrightarrow> length ps - k \<le> n \<Longrightarrow>
   read_list n (heap_of ps) (if k < length ps then Some k else None) = Some (drop k ps)"
proof (induction n arbitrary: k)
  case (Suc n)
  show ?case
  proof (cases "k < length ps")
    case True
    then show ?thesis using Suc.IH [of "Suc k"] Suc.prems by (simp add: heap_of_simps Cons_nth_drop_Suc)
  qed (use Suc.prems in simp)
qed auto

lemma read_list_heap_of: "read_list (length ps) (heap_of ps) (head_of ps) = Some ps"
  using read_list_suffix [of 0 ps "length ps"] by (auto simp: head_of_def split: if_splits)

text \<open>
  Property C38 (completion under \<open>mlfq\<close>): when the input is in order of arrival, with
  distinct pids and positive bursts, at most a hundred processes and at most a hundred
  slices at the last level, \<open>main\<close> ends with every process finished: no process is
  lost, none finishes before its arrival plus its burst, and turnaround and waiting time
  are as intended. (The printed response time always equals the waiting time.)
\<close>

theorem mlfq_completes:
  assumes "inputs \<noteq> []" "sorted (map (\<lambda>(v1, v2, v3). v2) inputs)" "distinct (map fst inputs)"
    and "\<forall>(v1, v2, v3)\<in>set inputs. 0 < v3" "length inputs \<le> 100" "processors \<noteq> 0"
    and "sum_list (map (\<lambda>(v1, v2, v3). (v3 + 1) div 8) inputs) \<le> 100"
  shows "\<exists>ps. mlfq_main processors inputs = Some (Inr ps) \<and> map mlfq_input ps = inputs \<and>
    (\<forall>p\<in>set ps. remain p = 0 \<and> arrival p + bt p \<le> ct p \<and> tat p = ct p - arrival p \<and>
       wt p = tat p - bt p \<and> rt p = wt p)"
proof -
  let ?ps = "read_processes inputs"
  let ?qs = "assign_processors_from processors 0 ?ps"
  have "map arrival ?ps = map (\<lambda>(v1, v2, v3). v2) inputs" "?ps \<noteq> []"
    using assms(1) by (auto simp: read_processes_map)
  then have "bubble_sort (heap_of ?ps) (head_of ?ps) = Some (Inr (heap_of ?ps))"
    using assms(2) by (intro bubble_sort_sorted) simp_all
  then have main: "mlfq_main processors inputs = bind_run (mlfq ?qs) (\<lambda>s. Some (Inr (m_procs s)))"
    using assms(6) by (simp add: mlfq_main_def Let_def read_list_heap_of assign_processors_def)
  have pids: "map pid ?qs = map fst inputs" by (simp add: read_processes_map split_def)
  have fresh: "\<forall>p\<in>set ?qs. 0 < bt p \<and> remain p = bt p"
    using assms(4) by (fastforce simp: in_set_conv_nth assign_processors_from_nth read_processes_map split_def)
  have "sum_list (map (\<lambda>p. (bt p + 1) div 8) ?qs) = sum_list (map (\<lambda>b. (b + 1) div 8) (map bt ?qs))"
    by (simp only: map_map comp_def)
  also have "\<dots> = sum_list (map (\<lambda>(v1, v2, v3). (v3 + 1) div 8) inputs)"
    by (simp add: read_processes_map split_def comp_def)
  finally have dem: "sum_list (map (\<lambda>p. (bt p + 1) div 8) ?qs) \<le> 100" using assms(7) by simp
  have "complete_inv (map static_of ?qs) (mlfq_start ?qs)"
  proof (rule fresh_complete_inv)
    show "distinct (map pid ?qs)" unfolding pids by (rule assms(3))
    show "length ?qs \<le> 100" using assms(5) by (simp add: read_processes_map)
  qed (rule fresh, rule dem)
  then obtain s where s: "mlfq ?qs = Some (Inr s)" "complete_inv (map static_of ?qs) s" "pending s = 0"
    using mlfq_ends [OF complete_inv_slice mlfq_start_wf] by metis
  have "level s i = []" if "i < LEVELS" for i
    using s(3) that by (auto simp: pending_def)
  then have "\<forall>p\<in>set (m_procs s). remain p = 0 \<and> arrival p + bt p \<le> ct p \<and> tat p = ct p - arrival p \<and>
       wt p = tat p - bt p \<and> rt p = wt p"
    using s(2) by (force simp: complete_inv_def proc_ok_def)
  moreover have "map mlfq_input (m_procs s) = map (\<lambda>(a, b, c, d). (a, b, c)) (map static_of ?qs)"
    using s(2) by (simp add: complete_inv_def mlfq_input_static map_map [symmetric] del: map_map)
  moreover have "map (\<lambda>(a, b, c, d). (a, b, c)) (map static_of ?qs) = inputs"
    by (rule nth_equalityI) (auto simp: static_of_def assign_processors_from_nth read_processes_map split_def)
  ultimately show ?thesis using main s(1) by auto
qed

theorem mlfq_completes_witness:
  "\<exists>ps. mlfq_main 2 [(1, 0, 3), (2, 0, 20), (3, 4, 9)] = Some (Inr ps) \<and>
    map mlfq_input ps = [(1, 0, 3), (2, 0, 20), (3, 4, 9)] \<and>
    (\<forall>p\<in>set ps. remain p = 0 \<and> arrival p + bt p \<le> ct p \<and> tat p = ct p - arrival p \<and>
       wt p = tat p - bt p \<and> rt p = wt p)"
  by (rule mlfq_completes) simp_all

text \<open>
  Also proved (lost process): the rows of the queue array are never reused before a
  level runs empty, so two long processes fill the last level; the process whose turn it
  is when the row is full is dropped by \<open>enqueue\<close> and never finishes. Here process 1 is
  left with 594 units of its burst of 1000.
\<close>

theorem mlfq_loses_process:
  "map_option (map_sum id (map (\<lambda>p. (pid p, remain p, ct p)))) (mlfq_main 2 [(1, 0, 1000), (2, 0, 1000)])
     = Some (Inr [(1, 594, -1), (2, 0, 1406)])"
  by code_simp

end
