(* ===== verification/MLFQ_Improved.thy ===== *)
theory MLFQ_Improved
  imports Sched_Process
begin

text \<open>
  The "improved" scheduler of \<open>schedulling_algorithms/sched_algo_mlfqs_improved.c\<close>:
  round robin, then "shortest job first" with a dynamic time quantum, over a linear array
  queue. The membership test of \<open>enqueue\<close> scans the array from \<open>front\<close> to \<open>rear\<close>;
  on an empty queue both are \<open>-1\<close>, so it reads \<open>queue[-1]\<close>, outside the array. That
  read yields whatever the stack holds there: the model takes the value as the parameter
  \<open>junk\<close>. A write outside the array is the fault \<open>OutOfBounds\<close>. The array is not
  initialised by the code; its first contents are the parameter \<open>arr0\<close>.
\<close>

section \<open>Queue operations\<close>

definition icreate_process :: "process list \<Rightarrow> int \<Rightarrow> int \<Rightarrow> int \<Rightarrow> process list" where
  "icreate_process head v1 v2 v3 = head @
     [\<lparr>pid = v1, arrival = v2, bt = v3, pr = -1, ct = -1, tat = -1, wt = -1, rt = -1, remain = v3\<rparr>]"

definition iq_read :: "int \<Rightarrow> aqueue \<Rightarrow> int \<Rightarrow> int" where
  "iq_read junk q i = (if i = -1 then junk else q_arr q ! nat i)"

text \<open>The scan for a pid from index \<open>i\<close> up to \<open>rear\<close>.\<close>

function is_in_queue :: "int \<Rightarrow> aqueue \<Rightarrow> int \<Rightarrow> int \<Rightarrow> bool" where
  "is_in_queue junk q p i =
     (if i \<le> q_rear q
      then if iq_read junk q i = p then True else is_in_queue junk q p (i + 1)
      else False)"
  by pat_completeness auto
termination
  by (relation "measure (\<lambda>(junk, q, p, i). nat (q_rear q + 1 - i))") auto

declare is_in_queue.simps [simp del]

definition iq_push :: "aqueue \<Rightarrow> int \<Rightarrow> aqueue cresult" where
  "iq_push q p =
     (if q_rear (append_rear q p) < QMAX then Inr (append_rear q p)
      else Inl (OutOfBounds (q_rear (append_rear q p))))"

text \<open>The loop of \<open>enqueue\<close> over all processes.\<close>

fun enqueue_scan :: "int \<Rightarrow> int \<Rightarrow> process list \<Rightarrow> aqueue \<Rightarrow> aqueue cresult" where
  "enqueue_scan junk current_time [] q = Inr q"
| "enqueue_scan junk current_time (x # xs) q =
     (if arrival x \<le> current_time \<and> remain x > 0 \<and> \<not> is_in_queue junk q (pid x) (q_front q)
      then bind_result (iq_push q (pid x)) (enqueue_scan junk current_time xs)
      else enqueue_scan junk current_time xs q)"

definition ienqueue :: "int \<Rightarrow> int \<Rightarrow> process list \<Rightarrow> aqueue \<Rightarrow> int \<Rightarrow> aqueue cresult" where
  "ienqueue junk current_time head q p =
     bind_result (enqueue_scan junk current_time head q) (\<lambda>q.
       if p \<noteq> -1 \<and> \<not> is_in_queue junk q p (q_front q) then iq_push q p else Inr q)"

section \<open>The dynamic time quantum\<close>

text \<open>One comparison of the bubble sort, one row of comparisons, and all rows.\<close>

definition bubble_cmp :: "process list \<Rightarrow> nat \<Rightarrow> process list" where
  "bubble_cmp xs k = (if remain (xs ! k) > remain (xs ! (k + 1))
     then xs[k := xs ! (k + 1), k + 1 := xs ! k] else xs)"

definition bubble_row :: "nat \<Rightarrow> process list \<Rightarrow> process list" where
  "bubble_row n xs = foldl bubble_cmp xs [0..<n]"

definition bubble_rows :: "nat \<Rightarrow> process list \<Rightarrow> process list" where
  "bubble_rows cnt xs = foldl (\<lambda>xs j. bubble_row (cnt - j - 1) xs) xs [0..<cnt - 1]"

definition dynamic_time_quantum :: "process list \<Rightarrow> int \<Rightarrow> int" where
  "dynamic_time_quantum head time_quantum =
     (let ready = filter (\<lambda>x. remain x > 0) head; cnt = length ready
      in if cnt > 0
         then let sorted_ps = bubble_rows cnt ready;
                  position = (2 * cnt) div 3;
                  position = (if position \<ge> cnt then cnt - 1 else position)
              in remain (sorted_ps ! position)
         else time_quantum)"

section \<open>The schedulers\<close>

definition all_processes_completed :: "process list \<Rightarrow> bool" where
  "all_processes_completed head = list_all (\<lambda>x. \<not> remain x > 0) head"

record imlfq =
  i_procs :: "process list"
  i_time :: int        \<comment> \<open>\<open>current_time\<close>\<close>
  i_queue :: aqueue

text \<open>
  One turn of the loops of \<open>rr\<close> and \<open>sjf\<close>, which differ only in their quantum.
\<close>

definition rr_turn :: "int \<Rightarrow> int \<Rightarrow> imlfq \<Rightarrow> imlfq run" where
  "rr_turn junk quantum s =
     (let (p, q) = dequeue (i_queue s)
      in if p = -1
         then (case ienqueue junk (i_time s + 1) (i_procs s) q (-1) of
                 Inl e \<Rightarrow> Some (Inl e)
               | Inr q' \<Rightarrow> Some (Inr (s\<lparr>i_time := i_time s + 1, i_queue := q'\<rparr>)))
         else case find_process (i_procs s) p of
                None \<Rightarrow> Some (Inl NullDeref)
              | Some k \<Rightarrow>
                  (let x = i_procs s ! k
                   in if remain x \<le> quantum
                      then Some (Inr (s\<lparr>i_time := i_time s + remain x,
                             i_procs := (i_procs s)[k := finish (i_time s + remain x) x],
                             i_queue := q\<rparr>))
                      else let t = i_time s + quantum;
                               ps = (i_procs s)[k := x\<lparr>remain := remain x - quantum\<rparr>]
                           in (case ienqueue junk t ps q (pid x) of
                                 Inl e \<Rightarrow> Some (Inl e)
                               | Inr q' \<Rightarrow> Some (Inr (s\<lparr>i_time := t, i_procs := ps, i_queue := q'\<rparr>)))))"

definition rr_loop :: "int \<Rightarrow> int \<Rightarrow> imlfq \<Rightarrow> imlfq run" where
  "rr_loop junk quantum =
     while_run (\<lambda>s. \<not> all_processes_completed (i_procs s)) (rr_turn junk quantum)"

definition time_quantum_rr :: int where "time_quantum_rr = 2"

definition rr :: "int \<Rightarrow> int list \<Rightarrow> process list \<Rightarrow> int \<Rightarrow> imlfq run" where
  "rr junk arr0 head current_time =
     (case ienqueue junk current_time head \<lparr>q_arr = arr0, q_front = -1, q_rear = -1\<rparr> (-1) of
        Inl e \<Rightarrow> Some (Inl e)
      | Inr q \<Rightarrow> rr_loop junk time_quantum_rr \<lparr>i_procs = head, i_time = current_time, i_queue = q\<rparr>)"

text \<open>\<open>time_quantum_sjf\<close> is a global that starts at 0.\<close>

definition sjf :: "int \<Rightarrow> int list \<Rightarrow> process list \<Rightarrow> int \<Rightarrow> imlfq run" where
  "sjf junk arr0 head current_time =
     (case ienqueue junk current_time head \<lparr>q_arr = arr0, q_front = -1, q_rear = -1\<rparr> (-1) of
        Inl e \<Rightarrow> Some (Inl e)
      | Inr q \<Rightarrow> rr_loop junk (dynamic_time_quantum head 0)
                   \<lparr>i_procs = head, i_time = current_time, i_queue = q\<rparr>)"

definition iread_processes :: "(int \<times> int \<times> int) list \<Rightarrow> process list" where
  "iread_processes inputs = foldl (\<lambda>h (v1, v2, v3). icreate_process h v1 v2 v3) [] inputs"

definition imlfq_main :: "int \<Rightarrow> int list \<Rightarrow> int list \<Rightarrow> int \<Rightarrow> (int \<times> int \<times> int) list \<Rightarrow> process list run" where
  "imlfq_main junk arr0 arr1 processors inputs =
     (case assign_processors processors (iread_processes inputs) of
        Inl e \<Rightarrow> Some (Inl e)
      | Inr ps \<Rightarrow>
          bind_run (rr junk arr0 ps 0) (\<lambda>s.
          bind_run (sjf junk arr1 (i_procs s) (i_time s)) (\<lambda>s. Some (Inr (i_procs s)))))"

section \<open>The queue\<close>

lemma iq_push_cases:
  assumes "aq_inv q"
  shows "iq_push q p = (if 0 < aq_room q then Inr (append_rear q p) else Inl (OutOfBounds 100))"
  using assms by (auto simp: iq_push_def append_rear_def aq_inv_def aq_room_def QMAX_def Let_def)

definition iq_enq :: "aqueue \<Rightarrow> int \<Rightarrow> aqueue" where
  "iq_enq q p = (case iq_push q p of Inl _ \<Rightarrow> q | Inr q' \<Rightarrow> q')"

interpretation iq: fifo aq_inv aq_contents aq_room aq_empty iq_enq dequeue
  by unfold_locales (use aq_inv_empty_iff aq_append aq_dequeue in \<open>auto simp: iq_enq_def iq_push_cases\<close>)

lemma is_in_queue_from:
  assumes "0 \<le> i" "q_rear q < int (length (q_arr q))"
  shows "is_in_queue junk q p i \<longleftrightarrow> p \<in> set (take (nat (q_rear q + 1 - i)) (drop (nat i) (q_arr q)))"
  using assms
proof (induction junk q p i rule: is_in_queue.induct)
  case (1 junk q p i)
  show ?case
  proof (cases "i \<le> q_rear q")
    case True
    have d: "drop (nat i) (q_arr q) = q_arr q ! nat i # drop (Suc (nat i)) (q_arr q)"
      using 1(2,3) True by (simp add: Cons_nth_drop_Suc)
    have n: "nat (q_rear q + 1 - i) = Suc (nat (q_rear q - i))" "nat (i + 1) = Suc (nat i)"
      "nat (q_rear q + 1 - (i + 1)) = nat (q_rear q - i)"
      using True 1(2) by auto
    show ?thesis
      using 1 True n by (subst is_in_queue.simps) (auto simp: d iq_read_def)
  next
    case False
    then show ?thesis by (subst is_in_queue.simps) simp
  qed
qed

lemma is_in_queue_iff:
  assumes "aq_inv q" "junk \<noteq> p"
  shows "is_in_queue junk q p (q_front q) \<longleftrightarrow> p \<in> set (aq_contents q)"
proof (cases "q_front q = -1")
  case True
  then have "q_rear q = -1" using assms(1) by (auto simp: aq_inv_def)
  with True assms(2) show ?thesis
    by (simp add: aq_contents_def is_in_queue.simps [of _ q] iq_read_def)
next
  case False
  then show ?thesis
    using assms is_in_queue_from [of "q_front q" q junk p]
    by (auto simp: aq_inv_def aq_contents_def algebra_simps)
qed

text \<open>What the scan of \<open>enqueue\<close> appends: the ready processes not yet queued, in list order.\<close>

definition newly_ready :: "int \<Rightarrow> process list \<Rightarrow> int list \<Rightarrow> int list" where
  "newly_ready t xs c = map pid (filter (\<lambda>x. arrival x \<le> t \<and> 0 < remain x \<and> pid x \<notin> set c) xs)"

lemma enqueue_scan_spec:
  assumes "aq_inv q" "junk \<notin> set (map pid xs)" "distinct (map pid xs)"
  shows "(\<exists>q'. enqueue_scan junk t xs q = Inr q' \<and> aq_inv q' \<and>
      aq_contents q' = aq_contents q @ newly_ready t xs (aq_contents q) \<and>
      aq_room q' + length (newly_ready t xs (aq_contents q)) = aq_room q) \<or>
    enqueue_scan junk t xs q = Inl (OutOfBounds 100) \<and>
      aq_room q < length (newly_ready t xs (aq_contents q))"
  using assms
proof (induction xs arbitrary: q)
  case Nil
  then show ?case by (simp add: newly_ready_def)
next
  case (Cons x xs)
  have mem: "is_in_queue junk q (pid x) (q_front q) \<longleftrightarrow> pid x \<in> set (aq_contents q)"
    using Cons.prems by (intro is_in_queue_iff) auto
  show ?case
  proof (cases "arrival x \<le> t \<and> 0 < remain x \<and> pid x \<notin> set (aq_contents q)")
    case False
    then show ?thesis using Cons mem by (auto simp: newly_ready_def)
  next
    case True
    show ?thesis
    proof (cases "0 < aq_room q")
      case False
      then show ?thesis
        using True mem Cons.prems by (simp add: iq_push_cases newly_ready_def)
    next
      case room: True
      note app = aq_append [OF Cons.prems(1) room, of "pid x"]
      have "newly_ready t xs (aq_contents (append_rear q (pid x))) = newly_ready t xs (aq_contents q)"
        unfolding newly_ready_def app(2)
        using Cons.prems(3) by (intro arg_cong [where f = "map pid"] filter_cong) (force simp: image_iff)+
      then show ?thesis
        using Cons.IH [of "append_rear q (pid x)"] Cons.prems True room mem app
        by (auto simp: iq_push_cases newly_ready_def)
    qed
  qed
qed

lemma ienqueue_eq_scan:
  assumes "aq_inv q" "junk \<notin> set (map pid xs)" "distinct (map pid xs)"
    and "p = -1 \<or> (\<exists>x\<in>set xs. pid x = p \<and> arrival x \<le> t \<and> 0 < remain x)"
  shows "ienqueue junk t xs q p = enqueue_scan junk t xs q"
proof (cases "enqueue_scan junk t xs q")
  case (Inr q')
  have q': "aq_inv q'" "aq_contents q' = aq_contents q @ newly_ready t xs (aq_contents q)"
    using enqueue_scan_spec [OF assms(1-3), of t] Inr by auto
  show ?thesis
  proof (cases "p = -1")
    case False
    with assms(4) obtain x where x: "x \<in> set xs" "pid x = p" "arrival x \<le> t" "0 < remain x" by blast
    then have "p \<in> set (aq_contents q')" by (auto simp: q' newly_ready_def)
    moreover have "junk \<noteq> p" using assms(2) x by auto
    ultimately show ?thesis using q'(1) Inr by (simp add: ienqueue_def is_in_queue_iff)
  qed (simp add: ienqueue_def Inr)
qed (simp add: ienqueue_def)

section \<open>The dynamic quantum is an order statistic\<close>

lemma bubble_cmp_facts:
  assumes "Suc k < length xs"
  shows "length (bubble_cmp xs k) = length xs" "mset (bubble_cmp xs k) = mset xs"
    "remain (bubble_cmp xs k ! k) \<le> remain (bubble_cmp xs k ! Suc k)"
    "drop (Suc (Suc k)) (bubble_cmp xs k) = drop (Suc (Suc k)) xs"
    "take k (bubble_cmp xs k) = take k xs"
    "remain (xs ! k) \<le> remain (bubble_cmp xs k ! Suc k)"
  using assms by (auto simp: bubble_cmp_def mset_swap)

text \<open>After a row of \<open>n\<close> comparisons, position \<open>n\<close> holds a largest of the first \<open>n + 1\<close>.\<close>

lemma bubble_row_facts:
  "n < length xs \<Longrightarrow> length (bubble_row n xs) = length xs \<and> mset (bubble_row n xs) = mset xs \<and>
   drop (Suc n) (bubble_row n xs) = drop (Suc n) xs \<and>
   (\<forall>i\<le>n. remain (bubble_row n xs ! i) \<le> remain (bubble_row n xs ! n))"
proof (induction n)
  case 0
  then show ?case by (simp add: bubble_row_def)
next
  case (Suc n)
  let ?ys = "bubble_row n xs"
  have ys: "length ?ys = length xs" "mset ?ys = mset xs" "drop (Suc n) ?ys = drop (Suc n) xs"
    "\<And>i. i \<le> n \<Longrightarrow> remain (?ys ! i) \<le> remain (?ys ! n)"
    using Suc by auto
  have row: "bubble_row (Suc n) xs = bubble_cmp ?ys n" by (simp add: bubble_row_def)
  have lt: "Suc n < length ?ys" using Suc.prems ys(1) by simp
  note f = bubble_cmp_facts [OF lt]
  have "drop (Suc (Suc n)) ?ys = drop (Suc (Suc n)) xs"
    using arg_cong [OF ys(3), of "drop 1"] by simp
  moreover have "remain (bubble_cmp ?ys n ! i) \<le> remain (bubble_cmp ?ys n ! Suc n)" if "i < n" for i
  proof -
    have "bubble_cmp ?ys n ! i = ?ys ! i" using f(5) that lt by (metis nth_take)
    then show ?thesis using ys(4) [of i] f(6) that by simp
  qed
  then have "\<forall>i\<le>Suc n. remain (bubble_cmp ?ys n ! i) \<le> remain (bubble_cmp ?ys n ! Suc n)"
    using f(3) by (metis le_Suc_eq le_neq_implies_less order_refl)
  ultimately show ?case
    using ys f unfolding row by simp
qed

text \<open>After \<open>j\<close> rows the last \<open>j\<close> positions are final.\<close>

definition rows_done :: "nat \<Rightarrow> process list \<Rightarrow> process list \<Rightarrow> bool" where
  "rows_done j xs ys \<longleftrightarrow> length ys = length xs \<and> mset ys = mset xs \<and>
     sorted (map remain (drop (length xs - j) ys)) \<and>
     (\<forall>x\<in>set (take (length xs - j) ys). \<forall>y\<in>set (drop (length xs - j) ys). remain x \<le> remain y)"

lemma rows_done_step:
  assumes "rows_done j xs ys" "Suc j < length xs"
  shows "rows_done (Suc j) xs (bubble_row (length xs - j - 1) ys)"
proof -
  let ?n = "length xs - j - 1"
  let ?zs = "bubble_row ?n ys"
  have ys: "length ys = length xs" "mset ys = mset xs" using assms(1) by (auto simp: rows_done_def)
  have n: "?n < length ys" "length xs - j = Suc ?n" "length xs - Suc j = ?n" using ys assms(2) by auto
  have z: "length ?zs = length xs" "mset ?zs = mset xs" "drop (Suc ?n) ?zs = drop (Suc ?n) ys"
    "\<And>i. i \<le> ?n \<Longrightarrow> remain (?zs ! i) \<le> remain (?zs ! ?n)"
    using bubble_row_facts [OF n(1)] ys by auto
  have "mset (take (Suc ?n) ?zs) + mset (drop (Suc ?n) ?zs) = mset (take (Suc ?n) ys) + mset (drop (Suc ?n) ys)"
    using z(2) ys(2) by (metis append_take_drop_id mset_append)
  then have "mset (take (Suc ?n) ?zs) = mset (take (Suc ?n) ys)" using z(3) by simp
  then have tk: "set (take (Suc ?n) ?zs) = set (take (Suc ?n) ys)" by (metis set_mset_mset)
  have dz: "drop ?n ?zs = ?zs ! ?n # drop (Suc ?n) ys"
    using z(1,3) n(1) ys(1) by (simp add: Cons_nth_drop_Suc [symmetric])
  have top: "?zs ! ?n \<in> set (take (Suc ?n) ys)"
    using tk z(1) n(1) ys(1) by (metis in_set_conv_nth length_take lessI min_less_iff_conj nth_take)
  have lo: "remain x \<le> remain (?zs ! ?n)" if "x \<in> set (take ?n ?zs)" for x
    using that z(4) by (auto simp: in_set_conv_nth)
  have sub: "set (take ?n ?zs) \<subseteq> set (take (Suc ?n) ys)"
    unfolding tk [symmetric] by (rule set_take_subset_set_take) simp
  have old: "sorted (map remain (drop (Suc ?n) ys))"
    "\<And>x y. x \<in> set (take (Suc ?n) ys) \<Longrightarrow> y \<in> set (drop (Suc ?n) ys) \<Longrightarrow> remain x \<le> remain y"
    using assms(1) n(2) by (auto simp: rows_done_def)
  show ?thesis
    unfolding rows_done_def n(3) dz using z(1,2) old top lo sub by auto
qed

lemma bubble_rows_done:
  "j \<le> length xs - 1 \<Longrightarrow> rows_done j xs (foldl (\<lambda>ys j. bubble_row (length xs - j - 1) ys) xs [0..<j])"
proof (induction j)
  case (Suc j)
  then show ?case using rows_done_step [of j xs] by simp
qed (simp add: rows_done_def)

lemma bubble_rows_sorts: "map remain (bubble_rows (length xs) xs) = sort (map remain xs)"
proof (cases "xs = []")
  case False
  let ?ys = "bubble_rows (length xs) xs"
  have d: "rows_done (length xs - 1) xs ?ys"
    using bubble_rows_done [of "length xs - 1" xs] by (simp add: bubble_rows_def)
  have "length xs - (length xs - 1) = 1" using False by (cases xs) auto
  then have "sorted (map remain (drop 1 ?ys))"
    "\<forall>x\<in>set (take 1 ?ys). \<forall>y\<in>set (drop 1 ?ys). remain x \<le> remain y" "mset ?ys = mset xs"
    using d by (auto simp: rows_done_def)
  moreover from this have "sorted (map remain (take 1 ?ys @ drop 1 ?ys))"
    unfolding map_append sorted_append by (cases ?ys) auto
  ultimately show ?thesis
    by (intro properties_for_sort [symmetric]) (simp_all add: mset_map [symmetric] del: mset_map, simp)
qed (simp add: bubble_rows_def)

text \<open>
  Also proved (dynamic quantum): \<open>dynamic_time_quantum\<close> is the remaining time at two
  thirds of the ascending order of the unfinished processes' remaining times, and leaves
  the quantum alone when every process is finished.
\<close>

theorem dynamic_time_quantum_spec:
  "dynamic_time_quantum ps tq =
     (let rs = map remain (filter (\<lambda>x. 0 < remain x) ps)
      in if rs = [] then tq else sort rs ! (2 * length rs div 3))"
proof -
  let ?xs = "filter (\<lambda>x. 0 < remain x) ps"
  have "remain (bubble_rows (length ?xs) ?xs ! k) = sort (map remain ?xs) ! k" if "k < length ?xs" for k
  proof -
    have "length (bubble_rows (length ?xs) ?xs) = length ?xs"
      by (metis bubble_rows_sorts length_map length_sort)
    then show ?thesis using that by (metis bubble_rows_sorts nth_map)
  qed
  then show ?thesis by (auto simp: dynamic_time_quantum_def Let_def filter_empty_conv)
qed

section \<open>The round-robin loop\<close>

text \<open>
  Enqueues that process \<open>x\<close> still causes with quantum \<open>Q\<close>, when \<open>c\<close> is queued.
\<close>

definition need :: "int \<Rightarrow> int list \<Rightarrow> process \<Rightarrow> int" where
  "need Q c x = (if remain x \<le> 0 then 0 else (remain x - 1) div Q + (if pid x \<in> set c then 0 else 1))"

definition room_ok :: "int \<Rightarrow> process list \<Rightarrow> aqueue \<Rightarrow> bool" where
  "room_ok Q xs q \<longleftrightarrow> sum_list (map (need Q (aq_contents q)) xs) \<le> int (aq_room q)"

definition good_pids :: "int \<Rightarrow> process list \<Rightarrow> bool" where
  "good_pids junk xs \<longleftrightarrow> distinct (map pid xs) \<and> -1 \<notin> set (map pid xs) \<and> junk \<notin> set (map pid xs)"

definition queue_ok :: "int \<Rightarrow> process list \<Rightarrow> aqueue \<Rightarrow> bool" where
  "queue_ok t xs q \<longleftrightarrow> aq_inv q \<and> distinct (aq_contents q) \<and>
     (\<forall>p\<in>set (aq_contents q). \<exists>x\<in>set xs. pid x = p \<and> 0 < remain x \<and> arrival x \<le> t)"

definition rr_inv :: "int \<Rightarrow> int \<Rightarrow> (int \<times> int \<times> int \<times> int) list \<Rightarrow> imlfq \<Rightarrow> bool" where
  "rr_inv junk M st s \<longleftrightarrow> map static_of (i_procs s) = st \<and> good_pids junk (i_procs s) \<and>
     queue_ok (i_time s) (i_procs s) (i_queue s) \<and>
     (\<forall>x\<in>set (i_procs s). proc_ok (i_time s) x \<and> arrival x \<le> M)"

text \<open>The scan fills the queue up with everything that is ready, if there is room.\<close>

lemma need_append:
  assumes "distinct (map pid xs)"
  shows "sum_list (map (need Q (c @ newly_ready t xs c)) xs) =
    sum_list (map (need Q c) xs) - int (length (newly_ready t xs c))"
proof -
  let ?R = "\<lambda>x. arrival x \<le> t \<and> 0 < remain x \<and> pid x \<notin> set c"
  have "need Q (c @ newly_ready t xs c) x = need Q c x - (if ?R x then 1 else 0)" if "x \<in> set xs" for x
  proof -
    have "pid x \<in> set (newly_ready t xs c) \<longleftrightarrow> ?R x"
      using assms that by (auto simp: newly_ready_def distinct_map inj_on_def)
    then show ?thesis by (auto simp: need_def)
  qed
  then have "sum_list (map (need Q (c @ newly_ready t xs c)) xs) =
      sum_list (map (\<lambda>x. need Q c x - (if ?R x then 1 else 0)) xs)"
    by (intro arg_cong [where f = sum_list] map_cong) auto
  also have "\<dots> = sum_list (map (need Q c) xs) - int (length (newly_ready t xs c))"
    by (simp add: sum_list_subtractf newly_ready_def int_length_filter)
  finally show ?thesis .
qed

lemma need_nonneg: "0 < Q \<Longrightarrow> 0 \<le> need Q c x"
  by (simp add: need_def pos_imp_zdiv_nonneg_iff)

lemma scan_ok:
  assumes "queue_ok t xs q" "good_pids junk xs" "0 < Q" "t \<le> u"
  shows "(\<exists>q'. enqueue_scan junk u xs q = Inr q' \<and> queue_ok u xs q' \<and> (room_ok Q xs q \<longrightarrow> room_ok Q xs q') \<and>
      (\<forall>x\<in>set xs. arrival x \<le> u \<longrightarrow> 0 < remain x \<longrightarrow> pid x \<in> set (aq_contents q'))) \<or>
    enqueue_scan junk u xs q = Inl (OutOfBounds 100) \<and> \<not> room_ok Q xs q"
proof -
  have q: "aq_inv q" "junk \<notin> set (map pid xs)" "distinct (map pid xs)"
    using assms by (auto simp: queue_ok_def good_pids_def)
  let ?new = "newly_ready u xs (aq_contents q)"
  have nd: "distinct ?new" "set ?new \<inter> set (aq_contents q) = {}"
    using q(3) by (auto simp: newly_ready_def distinct_map_filter)
  have sum: "sum_list (map (need Q (aq_contents q @ ?new)) xs) =
      sum_list (map (need Q (aq_contents q)) xs) - int (length ?new)"
    by (rule need_append [OF q(3)])
  have pos: "0 \<le> sum_list (map (need Q (aq_contents q @ ?new)) xs)"
    by (rule sum_list_nonneg_int) (rule need_nonneg [OF assms(3)])
  from enqueue_scan_spec [OF q, of u] show ?thesis
  proof (elim disjE exE conjE)
    fix q' assume q': "enqueue_scan junk u xs q = Inr q'" "aq_inv q'" "aq_contents q' = aq_contents q @ ?new"
      "aq_room q' + length ?new = aq_room q"
    have "queue_ok u xs q'"
      using assms(1,4) q' nd by (fastforce simp: queue_ok_def newly_ready_def)
    moreover have "room_ok Q xs q \<longrightarrow> room_ok Q xs q'"
      using sum q'(3,4) by (simp add: room_ok_def)
    moreover have "\<forall>x\<in>set xs. arrival x \<le> u \<longrightarrow> 0 < remain x \<longrightarrow> pid x \<in> set (aq_contents q')"
      by (auto simp: q' newly_ready_def)
    ultimately show ?thesis using q'(1) by blast
  next
    assume "enqueue_scan junk u xs q = Inl (OutOfBounds 100)" "aq_room q < length ?new"
    then show ?thesis using sum pos by (auto simp: room_ok_def)
  qed
qed

text \<open>Taking the first process off the queue and running it for a slice or to its end.\<close>

lemma dequeue_update_ok:
  assumes "queue_ok t xs q" "good_pids junk xs" "aq_contents q = p # rest" "0 < Q"
    and k: "find_process xs p = Some k" "x = xs ! k"
    and y: "pid y = p" "remain y = (if remain x \<le> Q then 0 else remain x - Q)" "arrival y = arrival x"
    and u: "t \<le> u"
  shows "queue_ok u (xs[k := y]) (snd (dequeue q))" "good_pids junk (xs[k := y])"
    "room_ok Q xs q \<Longrightarrow> room_ok Q (xs[k := y]) (snd (dequeue q))"
    "0 < remain x" "arrival x \<le> t"
proof -
  have k': "k < length xs" "pid x = p" using find_process_Some [OF k(1)] k(2) by auto
  have inv: "aq_inv q" "distinct (p # rest)" using assms(1,3) by (auto simp: queue_ok_def)
  note d = aq_dequeue [OF inv(1) assms(3)]
  obtain z where z: "z \<in> set xs" "pid z = p" "0 < remain z" "arrival z \<le> t"
    using assms(1,3) by (auto simp: queue_ok_def)
  have "z = x"
  proof -
    have "x \<in> set xs" using k' k(2) by auto
    then show ?thesis using z k' assms(2) by (auto simp: good_pids_def distinct_map inj_on_def)
  qed
  with z show rem: "0 < remain x" "arrival x \<le> t" by auto
  have pids: "map pid (xs[k := y]) = map pid xs" using k' k y(1) by (intro map_pid_update) auto
  then show good: "good_pids junk (xs[k := y])" using assms(2) by (simp add: good_pids_def del: set_map)
  show "queue_ok u (xs[k := y]) (snd (dequeue q))"
    unfolding queue_ok_def d(3)
  proof (intro conjI ballI)
    fix r assume r: "r \<in> set rest"
    then obtain w where w: "w \<in> set xs" "pid w = r" "0 < remain w" "arrival w \<le> t"
      using assms(1,3) by (auto simp: queue_ok_def)
    then obtain l where l: "l < length xs" "w = xs ! l" by (auto simp: in_set_conv_nth)
    then have "l \<noteq> k" using w(2) r k' k(2) inv(2) by auto
    then have "w \<in> set (xs[k := y])" using l by (metis length_list_update nth_list_update_neq nth_mem)
    then show "\<exists>x\<in>set (xs[k := y]). pid x = r \<and> 0 < remain x \<and> arrival x \<le> u"
      using w u by force
  qed (use d inv in auto)
  have nx: "need Q (p # rest) x = (remain x - 1) div Q" using rem k'(2) by (simp add: need_def)
  have ny: "need Q rest y \<le> (remain x - 1) div Q"
  proof (cases "remain x \<le> Q")
    case True
    then show ?thesis using y(2) rem assms(4) by (simp add: need_def pos_imp_zdiv_nonneg_iff)
  next
    case False
    then have "(remain x - 1) div Q = (remain x - Q - 1) div Q + 1"
      using assms(4) div_add_self2 [of Q "remain x - Q - 1"] by (simp add: algebra_simps)
    then show ?thesis using False y inv(2) by (simp add: need_def)
  qed
  have other: "need Q rest (xs ! l) = need Q (p # rest) (xs ! l)" if "l < length xs" "l \<noteq> k" for l
  proof -
    have "pid (xs ! l) \<noteq> p"
      using that k' k(2) assms(2) by (metis distinct_conv_nth good_pids_def length_map nth_map)
    then show ?thesis by (auto simp: need_def)
  qed
  have "sum_list (map (need Q rest) (xs[k := y])) \<le> sum_list (map (need Q (p # rest)) xs)"
    by (rule sum_list_mono_nth) (use other ny nx k' k(2) in \<open>auto simp: nth_list_update\<close>)
  then show "room_ok Q (xs[k := y]) (snd (dequeue q))" if "room_ok Q xs q"
    using that d(3,4) assms(3) by (simp add: room_ok_def)
qed

definition rr_measure :: "int \<Rightarrow> imlfq \<Rightarrow> nat" where
  "rr_measure M s = 2 * work (i_procs s) + nat (M - i_time s) + (if aq_contents (i_queue s) = [] then 1 else 0)"

definition rr_progress :: "int \<Rightarrow> int \<Rightarrow> int \<Rightarrow> (int \<times> int \<times> int \<times> int) list \<Rightarrow> imlfq \<Rightarrow> bool" where
  "rr_progress junk Q M st s \<longleftrightarrow>
     rr_turn junk Q s = Some (Inl (OutOfBounds 100)) \<and> \<not> room_ok Q (i_procs s) (i_queue s) \<or>
     (\<exists>s'. rr_turn junk Q s = Some (Inr s') \<and> rr_inv junk M st s' \<and> rr_measure M s' < rr_measure M s \<and>
        (room_ok Q (i_procs s) (i_queue s) \<longrightarrow> room_ok Q (i_procs s') (i_queue s')))"

lemma rr_turn_idle:
  assumes inv: "rr_inv junk M st s" and todo: "\<not> all_processes_completed (i_procs s)" and Q: "0 < Q"
    and empty: "aq_contents (i_queue s) = []"
  shows "rr_progress junk Q M st s"
proof -
  let ?q = "i_queue s" and ?ps = "i_procs s" and ?t = "i_time s + 1"
  have q: "queue_ok (i_time s) ?ps ?q" "good_pids junk ?ps" using inv by (auto simp: rr_inv_def)
  then have "q_front ?q = -1" using empty aq_inv_empty_iff [of ?q] by (auto simp: queue_ok_def aq_empty_def)
  moreover have "ienqueue junk ?t ?ps ?q (-1) = enqueue_scan junk ?t ?ps ?q"
    by (rule ienqueue_eq_scan) (use q in \<open>auto simp: queue_ok_def good_pids_def\<close>)
  ultimately have turn: "rr_turn junk Q s = (case enqueue_scan junk ?t ?ps ?q of
      Inl e \<Rightarrow> Some (Inl e) | Inr q' \<Rightarrow> Some (Inr (s\<lparr>i_time := ?t, i_queue := q'\<rparr>)))"
    by (simp add: rr_turn_def dequeue_def)
  have "i_time s \<le> ?t" by simp
  from scan_ok [OF q Q this] show ?thesis
  proof (elim disjE exE conjE)
    fix q' assume q': "enqueue_scan junk ?t ?ps ?q = Inr q'" "queue_ok ?t ?ps q'"
      "room_ok Q ?ps ?q \<longrightarrow> room_ok Q ?ps q'"
      "\<forall>x\<in>set ?ps. arrival x \<le> ?t \<longrightarrow> 0 < remain x \<longrightarrow> pid x \<in> set (aq_contents q')"
    obtain x where x: "x \<in> set ?ps" "0 < remain x" "arrival x \<le> M"
      using todo inv by (auto simp: all_processes_completed_def list_all_iff rr_inv_def)
    have "?t < M" if "aq_contents q' = []"
      using that q'(4) x by (auto simp: not_le)
    then have "rr_measure M (s\<lparr>i_time := ?t, i_queue := q'\<rparr>) < rr_measure M s"
      using empty by (auto simp: rr_measure_def)
    moreover have "rr_inv junk M st (s\<lparr>i_time := ?t, i_queue := q'\<rparr>)"
      using inv q'(2) by (fastforce simp: rr_inv_def proc_ok_def)
    ultimately show ?thesis using turn q' by (simp add: rr_progress_def)
  next
    assume "enqueue_scan junk ?t ?ps ?q = Inl (OutOfBounds 100)" "\<not> room_ok Q ?ps ?q"
    then show ?thesis using turn by (simp add: rr_progress_def)
  qed
qed

lemma rr_turn_run:
  assumes inv: "rr_inv junk M st s" and Q: "0 < Q" and c: "aq_contents (i_queue s) = p # rest"
  shows "rr_progress junk Q M st s"
proof -
  let ?q = "i_queue s" and ?ps = "i_procs s" and ?t = "i_time s"
  have q: "queue_ok ?t ?ps ?q" "good_pids junk ?ps" using inv by (auto simp: rr_inv_def)
  have "p \<in> set (map pid ?ps)" using q(1) c by (auto simp: queue_ok_def)
  then obtain k where k: "find_process ?ps p = Some k" "k < length ?ps" "pid (?ps ! k) = p"
    by (rule find_process_exists)
  define x where "x = ?ps ! k"
  have x: "x \<in> set ?ps" "pid x = p" "proc_ok ?t x" using k inv by (auto simp: x_def rr_inv_def)
  have deq: "fst (dequeue ?q) = p" using aq_dequeue [OF _ c] q(1) by (simp add: queue_ok_def)
  have p: "p \<noteq> -1" using q(2) \<open>p \<in> set (map pid ?ps)\<close> by (auto simp: good_pids_def simp del: set_map)
  define u where "u = (if remain x \<le> Q then ?t + remain x else ?t + Q)"
  define y where "y = (if remain x \<le> Q then finish u x else x\<lparr>remain := remain x - Q\<rparr>)"
  have tu: "?t \<le> u" using x(3) Q by (auto simp: u_def proc_ok_def)
  have y: "pid y = p" "remain y = (if remain x \<le> Q then 0 else remain x - Q)" "arrival y = arrival x"
    "static_of y = static_of x" by (auto simp: y_def x static_of_def finish_def)
  note d = dequeue_update_ok [OF q c Q k(1) x_def y(1-3) tu]
  have ok: "proc_ok u y"
    using proc_ok_finish [OF x(3), of ?t] proc_ok_slice [OF x(3), of ?t Q] d(5) Q
    by (auto simp: y_def u_def max_def)
  let ?ps' = "?ps[k := y]"
  have inv': "rr_inv junk M st (s\<lparr>i_time := u, i_procs := ?ps', i_queue := q'\<rparr>)" if "queue_ok u ?ps' q'" for q'
  proof -
    have "map static_of ?ps' = map static_of ?ps"
      using k y(4) by (simp add: map_update list_update_same_conv x_def)
    moreover have "\<forall>x\<in>set ?ps'. proc_ok u x \<and> arrival x \<le> M"
      by (rule all_set_update) (use inv ok y(3) x tu in \<open>fastforce simp: rr_inv_def proc_ok_def\<close>)+
    ultimately show ?thesis using inv that d(2) by (simp add: rr_inv_def)
  qed
  have wk: "work ?ps' < work ?ps"
    using work_update [OF k(2), of y] y(2) d(4) Q by (auto simp: x_def split: if_splits)
  have meas: "rr_measure M (s\<lparr>i_time := u, i_procs := ?ps', i_queue := q'\<rparr>) < rr_measure M s" for q'
    using wk tu c by (auto simp: rr_measure_def)
  show ?thesis
  proof (cases "remain x \<le> Q")
    case True
    have "rr_turn junk Q s = Some (Inr (s\<lparr>i_time := u, i_procs := ?ps', i_queue := snd (dequeue ?q)\<rparr>))"
      using True deq p k by (simp add: rr_turn_def split_def x_def u_def y_def Let_def)
    then show ?thesis using inv' [OF d(1)] meas d(3) by (simp add: rr_progress_def)
  next
    case False
    then have uy: "u = ?t + Q" "y = x\<lparr>remain := remain x - Q\<rparr>" by (simp_all add: u_def y_def)
    have "y \<in> set ?ps'" "arrival y \<le> u" "0 < remain y"
      using k False y d(5) tu by (auto simp: set_update_memI)
    then have "ienqueue junk u ?ps' (snd (dequeue ?q)) p = enqueue_scan junk u ?ps' (snd (dequeue ?q))"
      using d(1,2) y(1) by (intro ienqueue_eq_scan) (auto simp: queue_ok_def good_pids_def)
    then have turn: "rr_turn junk Q s = (case enqueue_scan junk u ?ps' (snd (dequeue ?q)) of
        Inl e \<Rightarrow> Some (Inl e) | Inr q' \<Rightarrow> Some (Inr (s\<lparr>i_time := u, i_procs := ?ps', i_queue := q'\<rparr>)))"
      unfolding uy using False deq p k x(2) unfolding x_def by (simp add: rr_turn_def split_def Let_def)
    from scan_ok [OF d(1,2) Q order_refl] show ?thesis
    proof (elim disjE exE conjE)
      fix q' assume "enqueue_scan junk u ?ps' (snd (dequeue ?q)) = Inr q'" "queue_ok u ?ps' q'"
        "room_ok Q ?ps' (snd (dequeue ?q)) \<longrightarrow> room_ok Q ?ps' q'"
      then show ?thesis using turn inv' [of q'] meas [of q'] d(3) by (simp add: rr_progress_def)
    next
      assume "enqueue_scan junk u ?ps' (snd (dequeue ?q)) = Inl (OutOfBounds 100)"
        "\<not> room_ok Q ?ps' (snd (dequeue ?q))"
      then show ?thesis using turn d(3) by (auto simp: rr_progress_def)
    qed
  qed
qed

lemma rr_turn_progress:
  assumes "rr_inv junk M st s" "\<not> all_processes_completed (i_procs s)" "0 < Q"
  shows "rr_progress junk Q M st s"
  using assms rr_turn_idle rr_turn_run by (cases "aq_contents (i_queue s)") auto

lemma rr_loop_ends:
  assumes "rr_inv junk M st s" "0 < Q"
  shows "rr_loop junk Q s = Some (Inl (OutOfBounds 100)) \<and> \<not> room_ok Q (i_procs s) (i_queue s) \<or>
    (\<exists>t. rr_loop junk Q s = Some (Inr t) \<and> rr_inv junk M st t \<and> all_processes_completed (i_procs t))"
proof -
  define r where "r \<longleftrightarrow> room_ok Q (i_procs s) (i_queue s)"
  define P where "P u \<longleftrightarrow> rr_inv junk M st u \<and> (r \<longrightarrow> room_ok Q (i_procs u) (i_queue u))" for u
  have "(\<exists>e. rr_loop junk Q s = Some (Inl e) \<and> (e = OutOfBounds 100 \<and> \<not> r)) \<or>
      (\<exists>t. rr_loop junk Q s = Some (Inr t) \<and> P t \<and> \<not> \<not> all_processes_completed (i_procs t))"
    unfolding rr_loop_def
  proof (rule while_run_ends [where m = "rr_measure M" and P = P])
    show "P s" using assms(1) by (simp add: P_def r_def)
    fix u assume "P u" "\<not> all_processes_completed (i_procs u)"
    then show "(\<exists>e. rr_turn junk Q u = Some (Inl e) \<and> (e = OutOfBounds 100 \<and> \<not> r)) \<or>
        (\<exists>u'. rr_turn junk Q u = Some (Inr u') \<and> P u' \<and> rr_measure M u' < rr_measure M u)"
      using rr_turn_progress [of junk M st u Q] assms(2) by (auto simp: P_def rr_progress_def)
  qed
  then show ?thesis by (auto simp: P_def r_def)
qed

section \<open>Runs of rr, sjf and main\<close>

definition fresh :: "int \<Rightarrow> process list \<Rightarrow> bool" where
  "fresh junk ps \<longleftrightarrow> good_pids junk ps \<and> (\<forall>p\<in>set ps. 0 < bt p \<and> remain p = bt p)"

lemma rr_ends:
  assumes "fresh junk ps" "length arr0 = 100"
  shows "rr junk arr0 ps t = Some (Inl (OutOfBounds 100)) \<and> 100 < sum_list (map (\<lambda>p. (bt p + 1) div 2) ps) \<or>
    (\<exists>s. rr junk arr0 ps t = Some (Inr s) \<and> map static_of (i_procs s) = map static_of ps \<and>
       (\<forall>p\<in>set (i_procs s). remain p = 0 \<and> proc_ok (i_time s) p))"
proof -
  let ?q = "\<lparr>q_arr = arr0, q_front = -1, q_rear = -1\<rparr>"
  have g: "good_pids junk ps" "\<And>p. p \<in> set ps \<Longrightarrow> 0 < bt p \<and> remain p = bt p"
    using assms(1) by (auto simp: fresh_def)
  have q: "aq_inv ?q" "aq_contents ?q = []" "aq_room ?q = 100"
    using assms(2) by (simp_all add: aq_inv_def aq_contents_def aq_room_def QMAX_def)
  then have qok: "queue_ok t ps ?q" by (simp add: queue_ok_def)
  have "need 2 [] p = (bt p + 1) div 2" if "p \<in> set ps" for p
    using g(2) [OF that] by (simp add: need_def)
  then have need: "sum_list (map (need 2 []) ps) = sum_list (map (\<lambda>p. (bt p + 1) div 2) ps)"
    by (intro arg_cong [where f = sum_list] map_cong) auto
  have room: "room_ok 2 ps ?q \<longleftrightarrow> sum_list (map (\<lambda>p. (bt p + 1) div 2) ps) \<le> 100"
    by (simp add: room_ok_def q need)
  have en: "ienqueue junk t ps ?q (-1) = enqueue_scan junk t ps ?q"
    by (rule ienqueue_eq_scan) (use q g in \<open>auto simp: good_pids_def\<close>)
  define M where "M = Max (insert 0 (arrival ` set ps))"
  have M: "arrival p \<le> M" if "p \<in> set ps" for p using that by (simp add: M_def)
  have "(0::int) < 2" by simp
  from scan_ok [OF qok g(1) this order_refl] show ?thesis
  proof (elim disjE exE conjE)
    fix q' assume q': "enqueue_scan junk t ps ?q = Inr q'" "queue_ok t ps q'"
      "room_ok 2 ps ?q \<longrightarrow> room_ok 2 ps q'"
    let ?s = "\<lparr>i_procs = ps, i_time = t, i_queue = q'\<rparr>"
    have "rr_inv junk M (map static_of ps) ?s"
      using g M q'(2) by (fastforce simp: rr_inv_def proc_ok_def)
    moreover have "rr junk arr0 ps t = rr_loop junk 2 ?s"
      by (simp add: rr_def en q' time_quantum_rr_def)
    ultimately show ?thesis
      using rr_loop_ends [of junk M "map static_of ps" ?s 2] q'(3) room
      by (fastforce simp: rr_inv_def all_processes_completed_def list_all_iff not_less proc_ok_def)
  next
    assume "enqueue_scan junk t ps ?q = Inl (OutOfBounds 100)" "\<not> room_ok 2 ps ?q"
    then show ?thesis using en room by (simp add: rr_def)
  qed
qed

text \<open>Once no process has anything left, an enqueue finds nothing and the loops do nothing.\<close>

lemma enqueue_scan_completed:
  "all_processes_completed ps \<Longrightarrow> enqueue_scan junk t ps q = Inr q"
  by (induction ps) (auto simp: all_processes_completed_def)

lemma sjf_completed:
  "all_processes_completed ps \<Longrightarrow> \<exists>q. sjf junk arr ps t = Some (Inr \<lparr>i_procs = ps, i_time = t, i_queue = q\<rparr>)"
  by (simp add: sjf_def ienqueue_def enqueue_scan_completed rr_loop_def)

lemma rr_returns_completed:
  assumes "rr junk arr0 ps t = Some (Inr s)"
  shows "all_processes_completed (i_procs s)"
proof -
  have "while_run b c u = Some (Inr v) \<Longrightarrow> \<not> b v" for b :: "imlfq \<Rightarrow> bool" and c u v
    by (rule while_run_post)
  then show ?thesis using assms by (auto simp: rr_def rr_loop_def split: sum.splits)
qed

text \<open>
  Also proved (\<open>sjf\<close> is dead code): \<open>main\<close> runs \<open>sjf\<close> after \<open>rr\<close> on the same list. Whenever
  \<open>rr\<close> returns, every process is finished, so \<open>sjf\<close> schedules nothing and \<open>main\<close> prints
  exactly what \<open>rr\<close> left.
\<close>

theorem sjf_after_rr:
  assumes "assign_processors processors (iread_processes inputs) = Inr ps"
    and "rr junk arr0 ps 0 = Some (Inr s)"
  shows "imlfq_main junk arr0 arr1 processors inputs = Some (Inr (i_procs s)) \<and>
    dynamic_time_quantum (i_procs s) 0 = 0"
proof -
  have c: "all_processes_completed (i_procs s)" using rr_returns_completed [OF assms(2)] .
  then have "filter (\<lambda>x. 0 < remain x) (i_procs s) = []"
    by (auto simp: all_processes_completed_def list_all_iff filter_empty_conv)
  then show ?thesis
    using sjf_completed [OF c, of junk arr1 "i_time s"] assms
    by (auto simp: imlfq_main_def dynamic_time_quantum_def)
qed

theorem sjf_after_rr_witness:
  "imlfq_main 0 (replicate 100 77) (replicate 100 77) 2 [(1, 0, 3)]
     = Some (Inr (i_procs (the (Option.bind (rr 0 (replicate 100 77)
         (assign_processors_from 2 0 (iread_processes [(1, 0, 3)])) 0) (\<lambda>r. case r of Inr s \<Rightarrow> Some s))))) \<and>
   dynamic_time_quantum (i_procs (the (Option.bind (rr 0 (replicate 100 77)
         (assign_processors_from 2 0 (iread_processes [(1, 0, 3)])) 0) (\<lambda>r. case r of Inr s \<Rightarrow> Some s)))) 0 = 0"
  by (rule sjf_after_rr) code_simp+

lemma iread_processes_map:
  "iread_processes inputs = map (\<lambda>(v1, v2, v3). \<lparr>pid = v1, arrival = v2, bt = v3, pr = -1, ct = -1,
     tat = -1, wt = -1, rt = -1, remain = v3\<rparr>) inputs"
proof -
  have "foldl (\<lambda>h (v1, v2, v3). icreate_process h v1 v2 v3) acc inputs = acc @
      map (\<lambda>(v1, v2, v3). \<lparr>pid = v1, arrival = v2, bt = v3, pr = -1, ct = -1, tat = -1, wt = -1,
        rt = -1, remain = v3\<rparr>) inputs" for acc
    by (induction inputs arbitrary: acc) (auto simp: icreate_process_def)
  then show ?thesis by (simp add: iread_processes_def)
qed



text \<open>
  Also proved (overflow): \<open>enqueue\<close> advances \<open>rear\<close> without a bound, and \<open>rear\<close> goes back
  only when the queue runs empty. Two processes of 200 units need two hundred places: the
  hundred-and-first write is outside the array.
\<close>

theorem rr_overflow:
  "imlfq_main 0 (replicate 100 77) (replicate 100 77) 2 [(1, 0, 200), (2, 0, 200)] = Some (Inl (OutOfBounds 100))"
  by code_simp

end
