(* ===== verification/SA.thy ===== *)
theory SA
  imports Prelude Complex_Main
begin

text \<open>
  The simulated-annealing scheduler of \<open>schedulling_algorithms/sched_algo_sa.c\<close>: an
  assignment of processes to processors is improved by random swaps while a temperature
  cools down. \<open>rand()\<close> is the parameter \<open>rnd\<close> (\<open>rnd k\<close> is the value of its
  \<open>k\<close>-th call) with its bound \<open>rand_max\<close> (\<open>RAND_MAX\<close>), and the C library's \<open>exp\<close> is the
  parameter \<open>cexp\<close>. Temperatures and the arguments of \<open>exp\<close> are exact rationals here,
  doubles in the code. The \<open>int\<close> values are unbounded.
\<close>

section \<open>Processes and metrics\<close>

record sproc =
  sp_pid :: int
  sp_at :: int
  sp_bt :: int
  sp_pr :: int
  sp_ct :: int
  sp_tat :: int
  sp_wt :: int
  sp_rt :: int

definition screate_process :: "sproc list \<Rightarrow> int \<Rightarrow> int \<Rightarrow> int \<Rightarrow> sproc list" where
  "screate_process head v1 v2 v3 = head @ [\<lparr>sp_pid = v1, sp_at = v2, sp_bt = v3, sp_pr = -1,
     sp_ct = -1, sp_tat = -1, sp_wt = -1, sp_rt = -1\<rparr>]"

text \<open>The loop of \<open>calculate_metrics\<close> over the processes, with the load of each processor.\<close>

fun metrics_loop :: "sproc list \<Rightarrow> int list \<Rightarrow> int list \<Rightarrow> (sproc list \<times> int list) cresult" where
  "metrics_loop (p # ps) (processor # assignments) load =
     (if processor < 0 \<or> int (length load) \<le> processor then Inl (OutOfBounds processor)
      else let start_time = (if load ! nat processor > sp_at p then load ! nat processor else sp_at p);
               c = start_time + sp_bt p;
               p' = p\<lparr>sp_ct := c, sp_tat := c - sp_at p, sp_wt := c - sp_at p - sp_bt p,
                      sp_rt := start_time - sp_at p, sp_pr := processor\<rparr>
           in bind_result (metrics_loop ps assignments (load[nat processor := c]))
                (\<lambda>(ps', load'). Inr (p' # ps', load')))"
| "metrics_loop ps assignments load = Inr (ps, load)"

text \<open>The final loop: the largest load, starting from \<open>load[0]\<close>.\<close>

fun max_load :: "int list \<Rightarrow> int cresult" where
  "max_load [] = Inl (OutOfBounds 0)"
| "max_load (l # ls) = Inr (fold (\<lambda>x interval. if x > interval then x else interval) ls l)"

definition calculate_metrics :: "int \<Rightarrow> sproc list \<Rightarrow> int list \<Rightarrow> (int \<times> sproc list) cresult" where
  "calculate_metrics processors proc_array assignments =
     bind_result (metrics_loop proc_array assignments (replicate (nat processors) 0)) (\<lambda>(ps, load).
     bind_result (max_load load) (\<lambda>interval. Inr (interval, ps)))"

section \<open>Neighbours\<close>

text \<open>The second draw is repeated until it differs from the first.\<close>

definition draw_other :: "(nat \<Rightarrow> int) \<Rightarrow> int \<Rightarrow> int \<Rightarrow> int \<times> nat \<Rightarrow> (int \<times> nat) run" where
  "draw_other rnd processes process1 =
     while_run (\<lambda>(process2, k). process1 = process2)
       (\<lambda>(process2, k). Some (Inr (rnd k smod processes, Suc k)))"

definition generate_neighbor :: "(nat \<Rightarrow> int) \<Rightarrow> nat \<Rightarrow> int list \<Rightarrow> (int list \<times> nat) run" where
  "generate_neighbor rnd k assignments =
     (let processes = int (length assignments)
      in if processes = 0 then Some (Inl DivByZero)
         else let process1 = rnd k smod processes
              in bind_run (draw_other rnd processes process1 (rnd (Suc k) smod processes, k + 2))
                   (\<lambda>(process2, k).
                      Some (Inr (assignments[nat process1 := assignments ! nat process2,
                                   nat process2 := assignments ! nat process1], k))))"

section \<open>Annealing\<close>

definition INITIAL_TEMPERATURE :: rat where "INITIAL_TEMPERATURE = 1000"
definition FINAL_TEMPERATURE :: rat where "FINAL_TEMPERATURE = 1 / 10"
definition COOLING_RATE :: rat where "COOLING_RATE = 99 / 100"

record annealing =
  sa_temperature :: rat
  sa_current :: "int list"       \<comment> \<open>\<open>current_assignments\<close>\<close>
  sa_best :: "int list"          \<comment> \<open>\<open>best_assignments\<close>\<close>
  sa_best_interval :: int
  sa_procs :: "sproc list"       \<comment> \<open>\<open>proc_array\<close>\<close>
  sa_rng :: nat                  \<comment> \<open>calls of \<open>rand\<close> so far\<close>

text \<open>
  The acceptance test; \<open>rand\<close> is called only when the new interval is not smaller. The
  result is the verdict and the number of calls of \<open>rand\<close> so far.
\<close>

definition accept :: "(rat \<Rightarrow> rat) \<Rightarrow> int \<Rightarrow> (nat \<Rightarrow> int) \<Rightarrow> rat \<Rightarrow> int \<Rightarrow> int \<Rightarrow> nat \<Rightarrow> bool \<times> nat" where
  "accept cexp rand_max rnd temperature current_interval new_interval k =
     (if new_interval < current_interval then (True, k)
      else (cexp (of_int (current_interval - new_interval) / temperature)
              > of_int (rnd k) / of_int rand_max, Suc k))"

text \<open>One turn of the annealing loop.\<close>

definition anneal_step ::
    "(rat \<Rightarrow> rat) \<Rightarrow> int \<Rightarrow> (nat \<Rightarrow> int) \<Rightarrow> int \<Rightarrow> annealing \<Rightarrow> annealing run" where
  "anneal_step cexp rand_max rnd processors s =
     bind_run (generate_neighbor rnd (sa_rng s) (sa_current s)) (\<lambda>(new_assignments, k).
     bind_run (Some (calculate_metrics processors (sa_procs s) (sa_current s))) (\<lambda>(current_interval, ps).
     bind_run (Some (calculate_metrics processors ps new_assignments)) (\<lambda>(new_interval, ps).
       let (ok, k) = accept cexp rand_max rnd (sa_temperature s) current_interval new_interval k;
           current_assignments = (if ok then new_assignments else sa_current s);
           current_interval = (if ok then new_interval else current_interval);
           better = (current_interval < sa_best_interval s)
       in Some (Inr \<lparr>sa_temperature = sa_temperature s * COOLING_RATE,
            sa_current = current_assignments,
            sa_best = (if better then current_assignments else sa_best s),
            sa_best_interval = (if better then current_interval else sa_best_interval s),
            sa_procs = ps, sa_rng = k\<rparr>))))"

definition anneal_loop ::
    "(rat \<Rightarrow> rat) \<Rightarrow> int \<Rightarrow> (nat \<Rightarrow> int) \<Rightarrow> int \<Rightarrow> annealing \<Rightarrow> annealing run" where
  "anneal_loop cexp rand_max rnd processors =
     while_run (\<lambda>s. sa_temperature s > FINAL_TEMPERATURE) (anneal_step cexp rand_max rnd processors)"

definition initial_assignments :: "int \<Rightarrow> nat \<Rightarrow> int list" where
  "initial_assignments processors n = map (\<lambda>i. int i smod processors) [0..<n]"

definition copy_back :: "sproc \<Rightarrow> sproc \<Rightarrow> sproc" where
  "copy_back h p = h\<lparr>sp_pr := sp_pr p, sp_ct := sp_ct p, sp_tat := sp_tat p, sp_wt := sp_wt p, sp_rt := sp_rt p\<rparr>"

text \<open>The result is the printed best interval and the updated list.\<close>

definition simulated_annealing ::
    "(rat \<Rightarrow> rat) \<Rightarrow> int \<Rightarrow> (nat \<Rightarrow> int) \<Rightarrow> int \<Rightarrow> sproc list \<Rightarrow> (int \<times> sproc list) run" where
  "simulated_annealing cexp rand_max rnd processors head =
     (let processes = length head
      in if processes > 0 \<and> processors = 0 then Some (Inl DivByZero)
         else let current_assignments = initial_assignments processors processes
              in bind_run (Some (calculate_metrics processors head current_assignments)) (\<lambda>(best_interval, ps).
                 bind_run (anneal_loop cexp rand_max rnd processors
                     \<lparr>sa_temperature = INITIAL_TEMPERATURE, sa_current = current_assignments,
                      sa_best = current_assignments, sa_best_interval = best_interval,
                      sa_procs = ps, sa_rng = 0\<rparr>) (\<lambda>s.
                 bind_run (Some (calculate_metrics processors (sa_procs s) (sa_best s))) (\<lambda>(_, ps).
                   Some (Inr (sa_best_interval s, map2 copy_back head ps))))))"

definition sread_processes :: "(int \<times> int \<times> int) list \<Rightarrow> sproc list" where
  "sread_processes inputs = foldl (\<lambda>h (v1, v2, v3). screate_process h v1 v2 v3) [] inputs"

definition sa_main ::
    "(rat \<Rightarrow> rat) \<Rightarrow> int \<Rightarrow> (nat \<Rightarrow> int) \<Rightarrow> int \<Rightarrow> (int \<times> int \<times> int) list \<Rightarrow> (int \<times> sproc list) run" where
  "sa_main cexp rand_max rnd processors inputs =
     simulated_annealing cexp rand_max rnd processors (sread_processes inputs)"

section \<open>Metrics are a schedule\<close>

definition sa_static :: "sproc \<Rightarrow> int \<times> int \<times> int" where
  "sa_static p = (sp_pid p, sp_at p, sp_bt p)"

text \<open>The old metrics of the processes are all overwritten.\<close>

lemma metrics_loop_cong:
  "map sa_static ps = map sa_static ps' \<Longrightarrow> length assignments = length ps \<Longrightarrow>
   metrics_loop ps assignments load = metrics_loop ps' assignments load"
proof (induction ps arbitrary: ps' assignments load)
  case (Cons p ps)
  then obtain a as where as: "assignments = a # as" by (cases assignments) auto
  from Cons.prems obtain q qs where
    q: "ps' = q # qs" "sa_static p = sa_static q" "map sa_static ps = map sa_static qs" by auto
  have "p\<lparr>sp_ct := c, sp_tat := t, sp_wt := w, sp_rt := r, sp_pr := a\<rparr>
      = q\<lparr>sp_ct := c, sp_tat := t, sp_wt := w, sp_rt := r, sp_pr := a\<rparr>" for c t w r
    using q(2) by (cases p; cases q) (simp add: sa_static_def)
  moreover have "sp_at p = sp_at q" "sp_bt p = sp_bt q" using q(2) by (simp_all add: sa_static_def)
  ultimately show ?case
    using Cons.IH [OF q(3)] Cons.prems(2) q(1) as by (simp add: Let_def)
qed auto

lemma calculate_metrics_cong:
  "map sa_static ps = map sa_static ps' \<Longrightarrow> length assignments = length ps \<Longrightarrow>
   calculate_metrics m ps assignments = calculate_metrics m ps' assignments"
  unfolding calculate_metrics_def by (simp add: metrics_loop_cong)

text \<open>What \<open>calculate_metrics\<close> promises of the processes, in the order of the array.\<close>

definition slot_ok :: "sproc \<Rightarrow> bool" where
  "slot_ok p \<longleftrightarrow> sp_at p \<le> sp_ct p - sp_bt p \<and> sp_tat p = sp_ct p - sp_at p \<and>
     sp_wt p = sp_tat p - sp_bt p \<and> sp_rt p = sp_ct p - sp_bt p - sp_at p"

definition one_at_a_time :: "sproc list \<Rightarrow> bool" where
  "one_at_a_time ps \<longleftrightarrow> sorted_wrt (\<lambda>p q. sp_pr p = sp_pr q \<longrightarrow> sp_ct p \<le> sp_ct q - sp_bt q) ps"

definition valid_assignment :: "int \<Rightarrow> int list \<Rightarrow> bool" where
  "valid_assignment m as \<longleftrightarrow> (\<forall>a\<in>set as. 0 \<le> a \<and> a < m)"

lemma metrics_loop_ok:
  assumes "length as = length ps" "valid_assignment (int (length load)) as" "\<forall>p\<in>set ps. 0 \<le> sp_bt p"
  shows "\<exists>qs l. metrics_loop ps as load = Inr (qs, l) \<and> map sa_static qs = map sa_static ps \<and>
    map sp_pr qs = as \<and> length l = length load \<and> (\<forall>q\<in>set qs. slot_ok q \<and>
      load ! nat (sp_pr q) \<le> sp_ct q - sp_bt q \<and> sp_ct q \<le> l ! nat (sp_pr q)) \<and>
    one_at_a_time qs \<and> (\<forall>k<length load. load ! k \<le> l ! k \<and> (l ! k = load ! k \<or> l ! k \<in> sp_ct ` set qs))"
  using assms
proof (induction ps arbitrary: as load)
  case (Cons p ps as0)
  then obtain a as where as0: "as0 = a # as" by (cases as0) auto
  let ?st = "if load ! nat a > sp_at p then load ! nat a else sp_at p"
  let ?c = "?st + sp_bt p"
  let ?load = "load[nat a := ?c]"
  have a: "0 \<le> a" "a < int (length load)" using Cons.prems(2) by (auto simp: valid_assignment_def as0)
  obtain qs l where IH: "metrics_loop ps as ?load = Inr (qs, l)"
    "map sa_static qs = map sa_static ps" "map sp_pr qs = as" "length l = length load"
    "\<forall>q\<in>set qs. slot_ok q \<and> ?load ! nat (sp_pr q) \<le> sp_ct q - sp_bt q \<and> sp_ct q \<le> l ! nat (sp_pr q)"
    "one_at_a_time qs"
    "\<forall>k<length load. ?load ! k \<le> l ! k \<and> (l ! k = ?load ! k \<or> l ! k \<in> sp_ct ` set qs)"
    using Cons.IH [of as ?load] Cons.prems by (fastforce simp: valid_assignment_def as0)
  let ?p = "p\<lparr>sp_ct := ?c, sp_tat := ?c - sp_at p, sp_wt := ?c - sp_at p - sp_bt p,
    sp_rt := ?st - sp_at p, sp_pr := a\<rparr>"
  have ret: "metrics_loop (p # ps) (a # as) load = Inr (?p # qs, l)"
    using a IH(1) by (simp add: Let_def)
  have na: "nat a < length load" using a by simp
  have pos: "0 \<le> sp_bt p" using Cons.prems(3) by simp
  have mono: "load ! k \<le> ?load ! k" if "k < length load" for k
    using that pos by (cases "k = nat a") auto
  have prs: "nat (sp_pr q) < length load" if "q \<in> set qs" for q
    using that Cons.prems(2) IH(3) by (force simp: valid_assignment_def as0)
  have slots: "slot_ok q \<and> load ! nat (sp_pr q) \<le> sp_ct q - sp_bt q \<and> sp_ct q \<le> l ! nat (sp_pr q)"
    if "q \<in> set (?p # qs)" for q
  proof (cases "q \<in> set qs")
    case True
    then show ?thesis using IH(5) mono [OF prs [OF True]] by fastforce
  next
    case False
    then have "q = ?p" using that by simp
    moreover have "?c \<le> l ! nat a" using IH(7) na by force
    ultimately show ?thesis by (auto simp: slot_ok_def)
  qed
  have "one_at_a_time (?p # qs)"
    using IH(5,6) na by (fastforce simp: one_at_a_time_def)
  moreover have "load ! k \<le> l ! k \<and> (l ! k = load ! k \<or> l ! k \<in> sp_ct ` set (?p # qs))"
    if k: "k < length load" for k
    using IH(7) k mono [OF k] by (cases "k = nat a") fastforce+
  moreover have "sa_static ?p = sa_static p" by (simp add: sa_static_def)
  ultimately show ?case
    using ret IH(3,4) slots IH(2) unfolding as0 by (intro exI [of _ "?p # qs"] exI [of _ l]) simp
qed (auto simp: one_at_a_time_def valid_assignment_def)

lemma max_load_Max: "ls \<noteq> [] \<Longrightarrow> max_load ls = Inr (Max (set ls))"
proof (cases ls)
  case (Cons l ks)
  have "(\<lambda>x interval. if x > interval then x else interval) = (max :: int \<Rightarrow> int \<Rightarrow> int)"
    by (auto simp: fun_eq_iff)
  then show ?thesis using Cons Max.set_eq_fold [of l ks] by simp
qed simp

lemma calculate_metrics_ok:
  assumes "length as = length ps" "ps \<noteq> []" "valid_assignment m as" "\<forall>p\<in>set ps. 0 \<le> sp_bt p"
  shows "\<exists>qs. calculate_metrics m ps as = Inr (Max (sp_ct ` set qs), qs) \<and>
    map sa_static qs = map sa_static ps \<and> map sp_pr qs = as \<and>
    (\<forall>q\<in>set qs. slot_ok q) \<and> one_at_a_time qs"
proof -
  let ?load = "replicate (nat m) 0 :: int list"
  obtain a where "a \<in> set as" using assms(1,2) by (cases as) auto
  then have m: "0 < m" using assms(3) by (auto simp: valid_assignment_def)
  then obtain qs l where ql: "metrics_loop ps as ?load = Inr (qs, l)"
    "map sa_static qs = map sa_static ps" "map sp_pr qs = as" "length l = nat m"
    "\<forall>q\<in>set qs. slot_ok q \<and> ?load ! nat (sp_pr q) \<le> sp_ct q - sp_bt q \<and> sp_ct q \<le> l ! nat (sp_pr q)"
    "one_at_a_time qs"
    "\<forall>k<nat m. ?load ! k \<le> l ! k \<and> (l ! k = ?load ! k \<or> l ! k \<in> sp_ct ` set qs)"
    using metrics_loop_ok [of as ps ?load] assms by auto
  have bts: "map sp_bt qs = map sp_bt ps"
    using arg_cong [OF ql(2), of "map (\<lambda>(a, b, c). c)"] by (simp add: sa_static_def comp_def)
  have qs: "set qs \<noteq> {}" using ql(2) assms(2) by auto
  have ct: "0 \<le> sp_ct q \<and> sp_ct q \<le> Max (set l)" if q: "q \<in> set qs" for q
  proof -
    have k: "nat (sp_pr q) < nat m" using assms(3) ql(3) q m by (force simp: valid_assignment_def)
    have "sp_bt q \<in> sp_bt ` set ps"
      using q bts by (metis image_eqI list.set_map)
    then have "0 \<le> sp_bt q" using assms(4) by auto
    moreover have "l ! nat (sp_pr q) \<le> Max (set l)" using k ql(4) by simp
    ultimately show ?thesis using ql(5) q k by fastforce
  qed
  have l: "l \<noteq> []" using ql(4) m by auto
  have "Max (set l) \<in> insert 0 (sp_ct ` set qs)"
  proof -
    obtain k where "k < nat m" "l ! k = Max (set l)"
      using Max_in [of "set l"] l ql(4) by (metis List.finite_set in_set_conv_nth set_empty)
    then show ?thesis using ql(7) by (metis insertCI nth_replicate)
  qed
  moreover obtain q where "q \<in> set qs" using qs by (metis ex_in_conv)
  ultimately have "Max (set l) \<in> sp_ct ` set qs" using ct by force
  then have "Max (sp_ct ` set qs) = Max (set l)" using ct by (intro Max_eqI) auto
  then have "calculate_metrics m ps as = Inr (Max (sp_ct ` set qs), qs)"
    using ql(1) max_load_Max [OF l] by (simp add: calculate_metrics_def)
  then show ?thesis using ql by blast
qed

section \<open>Neighbours are permutations\<close>

lemma smod_range:
  assumes "0 < (n :: int)" "0 \<le> r"
  shows "0 \<le> r smod n" "r smod n < n"
  using assms by (simp_all add: smod_nonneg)

lemma draw_other_returns:
  assumes "rnd (k + j) smod n \<noteq> p1" "0 < n" "\<forall>k. 0 \<le> rnd k" "0 \<le> p2" "p2 < n"
  shows "\<exists>p2' k'. draw_other rnd n p1 (p2, k) = Some (Inr (p2', k')) \<and> p2' \<noteq> p1 \<and> 0 \<le> p2' \<and> p2' < n"
  using assms
proof (induction j arbitrary: k p2)
  case 0
  show ?case
  proof (cases "p1 = p2")
    case True
    then have "draw_other rnd n p1 (p2, k) = draw_other rnd n p1 (rnd k smod n, Suc k)"
      unfolding draw_other_def by (intro while_run_step) auto
    also have "\<dots> = Some (Inr (rnd k smod n, Suc k))"
      unfolding draw_other_def by (rule while_run_stop) (use 0 in auto)
    finally show ?thesis using 0 smod_range [of n "rnd k"] by auto
  next
    case False
    then have "draw_other rnd n p1 (p2, k) = Some (Inr (p2, k))"
      unfolding draw_other_def by (intro while_run_stop) auto
    then show ?thesis using 0 False by auto
  qed
next
  case (Suc j)
  show ?case
  proof (cases "p1 = p2")
    case True
    then have "draw_other rnd n p1 (p2, k) = draw_other rnd n p1 (rnd k smod n, Suc k)"
      unfolding draw_other_def by (intro while_run_step) auto
    then show ?thesis
      using Suc.IH [of "Suc k" "rnd k smod n"] Suc.prems smod_range [of n "rnd k"] by auto
  next
    case False
    then have "draw_other rnd n p1 (p2, k) = Some (Inr (p2, k))"
      unfolding draw_other_def by (intro while_run_stop) auto
    then show ?thesis using Suc False by auto
  qed
qed

text \<open>\<open>rand\<close> is fair enough when, modulo \<open>n\<close>, it never sticks to one value.\<close>

definition unstuck :: "(nat \<Rightarrow> int) \<Rightarrow> int \<Rightarrow> bool" where
  "unstuck rnd n \<longleftrightarrow> (\<forall>k. 0 \<le> rnd k) \<and> (\<forall>k v. \<exists>j. rnd (k + j) smod n \<noteq> v)"

lemma generate_neighbor_swaps:
  assumes "unstuck rnd (int (length as))" "as \<noteq> []"
  shows "\<exists>as' k'. generate_neighbor rnd k as = Some (Inr (as', k')) \<and> mset as' = mset as"
proof -
  let ?n = "int (length as)"
  have n: "0 < ?n" and nn: "\<forall>k. 0 \<le> rnd k" using assms by (auto simp: unstuck_def)
  obtain j where "rnd (k + 2 + j) smod ?n \<noteq> rnd k smod ?n" using assms(1) unfolding unstuck_def by blast
  then obtain p2 k' where
    p2: "draw_other rnd ?n (rnd k smod ?n) (rnd (Suc k) smod ?n, k + 2) = Some (Inr (p2, k'))" "0 \<le> p2" "p2 < ?n"
    using draw_other_returns [OF _ n nn] smod_range [OF n, of "rnd (Suc k)"] nn by metis
  have p1: "nat (rnd k smod ?n) < length as" "nat p2 < length as"
    using smod_range [OF n, of "rnd k"] nn p2 by auto
  show ?thesis
    using p2 p1 assms(2) by (auto simp: generate_neighbor_def Let_def mset_swap)
qed

text \<open>
  Also proved (a single process): with one process there is no second process to swap
  with, and \<open>generate_neighbor\<close> draws forever: \<open>main\<close> never returns, whatever \<open>rand\<close> and \<open>exp\<close> do.
\<close>

theorem one_process_hangs:
  assumes "0 < processors"
  shows "sa_main cexp rand_max rnd processors [(v1, v2, v3)] = None"
proof -
  have one: "r smod 1 = 0" for r :: int by (simp add: signed_modulo_int_def)
  have "draw_other rnd 1 0 (0, k) = None" for k
    unfolding draw_other_def
    by (rule while_run_diverges [where P = "\<lambda>s. fst s = 0"]) (auto simp: one)
  then have "generate_neighbor rnd k [a] = None" for k a
    by (simp add: generate_neighbor_def one)
  moreover have "initial_assignments processors 1 = [0]"
    by (simp add: initial_assignments_def signed_modulo_int_def)
  moreover have "FINAL_TEMPERATURE < INITIAL_TEMPERATURE"
    by (simp add: INITIAL_TEMPERATURE_def FINAL_TEMPERATURE_def)
  moreover obtain l ls where "replicate (nat processors) (0 :: int) = l # ls"
    using assms by (cases "nat processors") auto
  ultimately show ?thesis
    using assms
    by (simp add: sa_main_def sread_processes_def screate_process_def simulated_annealing_def anneal_loop_def
        calculate_metrics_def Let_def anneal_step_def while_run_step(3))
qed

theorem one_process_hangs_witness: "0 < (2 :: int) \<and> sa_main (\<lambda>x. 1) 32767 int 2 [(1, 0, 5)] = None"
  using one_process_hangs [of 2] by simp

section \<open>Annealing returns a schedule no worse than round robin\<close>

lemma valid_assignment_mset: "mset as = mset bs \<Longrightarrow> valid_assignment m as \<longleftrightarrow> valid_assignment m bs"
  unfolding valid_assignment_def by (metis set_mset_mset)

lemma initial_valid: "0 < m \<Longrightarrow> valid_assignment m (initial_assignments m n)"
  by (auto simp: initial_assignments_def valid_assignment_def smod_nonneg)

text \<open>
  The invariant of the annealing loop for the processes \<open>head\<close>: the assignments are
  permutations of the initial one, and \<open>best_interval\<close> is the interval of
  \<open>best_assignments\<close> and at most the interval \<open>b\<close> of the initial one.
\<close>

definition anneal_inv :: "int \<Rightarrow> sproc list \<Rightarrow> int \<Rightarrow> annealing \<Rightarrow> bool" where
  "anneal_inv m head b s \<longleftrightarrow> map sa_static (sa_procs s) = map sa_static head \<and>
     mset (sa_current s) = mset (initial_assignments m (length head)) \<and>
     mset (sa_best s) = mset (initial_assignments m (length head)) \<and>
     (\<exists>ps. calculate_metrics m head (sa_best s) = Inr (sa_best_interval s, ps)) \<and> sa_best_interval s \<le> b"

definition annealable :: "(nat \<Rightarrow> int) \<Rightarrow> int \<Rightarrow> sproc list \<Rightarrow> bool" where
  "annealable rnd m head \<longleftrightarrow> 0 < m \<and> unstuck rnd (int (length head)) \<and> head \<noteq> [] \<and> (\<forall>p\<in>set head. 0 \<le> sp_bt p)"

text \<open>All metrics the loop computes are those of the processes as they were entered.\<close>

lemma anneal_metrics:
  assumes "annealable rnd m head" "map sa_static ps = map sa_static head"
    and "mset as = mset (initial_assignments m (length head))"
  shows "\<exists>qs. calculate_metrics m ps as = Inr (Max (sp_ct ` set qs), qs) \<and>
    calculate_metrics m head as = Inr (Max (sp_ct ` set qs), qs) \<and>
    map sa_static qs = map sa_static head \<and> map sp_pr qs = as \<and> (\<forall>q\<in>set qs. slot_ok q) \<and> one_at_a_time qs"
proof -
  have "length as = length head" using mset_eq_length [OF assms(3)] by (simp add: initial_assignments_def)
  moreover have "valid_assignment m as"
    using valid_assignment_mset [OF assms(3)] initial_valid [of m] assms(1) by (simp add: annealable_def)
  moreover have "length ps = length head" using assms(2) by (metis length_map)
  ultimately have "calculate_metrics m ps as = calculate_metrics m head as"
    "\<exists>qs. calculate_metrics m head as = Inr (Max (sp_ct ` set qs), qs) \<and>
       map sa_static qs = map sa_static head \<and> map sp_pr qs = as \<and> (\<forall>q\<in>set qs. slot_ok q) \<and> one_at_a_time qs"
    using assms by (auto intro!: calculate_metrics_cong calculate_metrics_ok simp: annealable_def)
  then show ?thesis by simp
qed

lemma anneal_step_inv:
  assumes ok: "annealable rnd m head" and inv: "anneal_inv m head b s"
  shows "\<exists>s'. anneal_step cexp rand_max rnd m s = Some (Inr s') \<and> anneal_inv m head b s' \<and>
    sa_temperature s' = sa_temperature s * COOLING_RATE"
proof -
  let ?init = "initial_assignments m (length head)"
  have cur: "mset (sa_current s) = mset ?init" using inv by (simp add: anneal_inv_def)
  then have len: "length (sa_current s) = length head"
    by (metis initial_assignments_def length_map length_upt mset_eq_length diff_zero)
  then have "sa_current s \<noteq> []" "unstuck rnd (int (length (sa_current s)))"
    using ok by (auto simp: annealable_def)
  then obtain as' k where nb: "generate_neighbor rnd (sa_rng s) (sa_current s) = Some (Inr (as', k))"
    "mset as' = mset ?init"
    using generate_neighbor_swaps [of rnd "sa_current s" "sa_rng s"] cur by metis
  obtain ps where ps: "calculate_metrics m (sa_procs s) (sa_current s) = Inr (Max (sp_ct ` set ps), ps)"
    "calculate_metrics m head (sa_current s) = Inr (Max (sp_ct ` set ps), ps)" "map sa_static ps = map sa_static head"
    using anneal_metrics [OF ok _ cur] inv by (metis anneal_inv_def)
  obtain qs where qs: "calculate_metrics m ps as' = Inr (Max (sp_ct ` set qs), qs)"
    "calculate_metrics m head as' = Inr (Max (sp_ct ` set qs), qs)" "map sa_static qs = map sa_static head"
    using anneal_metrics [OF ok ps(3) nb(2)] by metis
  obtain v k' where "accept cexp rand_max rnd (sa_temperature s) (Max (sp_ct ` set ps)) (Max (sp_ct ` set qs)) k = (v, k')"
    by (cases "accept cexp rand_max rnd (sa_temperature s) (Max (sp_ct ` set ps)) (Max (sp_ct ` set qs)) k")
  then show ?thesis
    using inv nb ps qs by (auto simp: anneal_step_def anneal_inv_def Let_def)
qed

lemma anneal_loop_returns:
  assumes "annealable rnd m head" "anneal_inv m head b s" "sa_temperature s * COOLING_RATE ^ n \<le> FINAL_TEMPERATURE"
  shows "\<exists>t. anneal_loop cexp rand_max rnd m s = Some (Inr t) \<and> anneal_inv m head b t"
  using assms(2,3)
proof (induction n arbitrary: s)
  case 0
  then show ?case by (auto simp: anneal_loop_def)
next
  case (Suc n)
  show ?case
  proof (cases "sa_temperature s > FINAL_TEMPERATURE")
    case True
    obtain s' where s': "anneal_step cexp rand_max rnd m s = Some (Inr s')" "anneal_inv m head b s'"
      "sa_temperature s' = sa_temperature s * COOLING_RATE"
      using anneal_step_inv [OF assms(1) Suc.prems(1), of cexp rand_max] by blast
    then have "anneal_loop cexp rand_max rnd m s = anneal_loop cexp rand_max rnd m s'"
      unfolding anneal_loop_def using True by (intro while_run_step) auto
    then show ?thesis using Suc.IH [OF s'(2)] Suc.prems(2) s'(3) by (simp add: algebra_simps)
  qed (use Suc in \<open>auto simp: anneal_loop_def\<close>)
qed

text \<open>980 turns are enough to cool the temperature down: 70 of them halve it.\<close>

lemma cooled_down: "INITIAL_TEMPERATURE * COOLING_RATE ^ 980 \<le> FINAL_TEMPERATURE"
proof -
  have "COOLING_RATE ^ 70 \<le> 1 / 2" "0 \<le> COOLING_RATE ^ 70"
    by (simp_all add: COOLING_RATE_def power_divide)
  then have "(COOLING_RATE ^ 70) ^ 14 \<le> (1 / 2) ^ 14" by (rule power_mono)
  moreover have "COOLING_RATE ^ 980 = (COOLING_RATE ^ 70) ^ 14"
    unfolding power_mult [symmetric] by (rule arg_cong [where f = "power COOLING_RATE"]) simp
  moreover have "1000 * (1 / 2) ^ 14 \<le> FINAL_TEMPERATURE"
    by (simp add: FINAL_TEMPERATURE_def power_divide)
  ultimately show ?thesis unfolding INITIAL_TEMPERATURE_def by linarith
qed

lemma sread_processes_map:
  "sread_processes inputs = map (\<lambda>(v1, v2, v3). \<lparr>sp_pid = v1, sp_at = v2, sp_bt = v3, sp_pr = -1,
     sp_ct = -1, sp_tat = -1, sp_wt = -1, sp_rt = -1\<rparr>) inputs"
proof -
  have "foldl (\<lambda>h (v1, v2, v3). screate_process h v1 v2 v3) acc inputs = acc @
      map (\<lambda>(v1, v2, v3). \<lparr>sp_pid = v1, sp_at = v2, sp_bt = v3, sp_pr = -1,
        sp_ct = -1, sp_tat = -1, sp_wt = -1, sp_rt = -1\<rparr>) inputs" for acc
    by (induction inputs arbitrary: acc) (auto simp: screate_process_def)
  then show ?thesis by (simp add: sread_processes_def)
qed

lemma copy_back_static:
  "map sa_static qs = map sa_static head \<Longrightarrow> map2 copy_back head qs = qs"
proof (induction head arbitrary: qs)
  case (Cons h head)
  then obtain q qs' where q: "qs = q # qs'" "sa_static q = sa_static h" "map sa_static qs' = map sa_static head"
    by auto
  then have "copy_back h q = q" by (cases h; cases q) (simp add: copy_back_def sa_static_def)
  then show ?case using Cons.IH [OF q(3)] q(1) by simp
qed simp

lemma simulated_annealing_returns:
  assumes ok: "annealable rnd m head"
    and b: "calculate_metrics m head (initial_assignments m (length head)) = Inr (b, ps0)"
  shows "\<exists>qs. simulated_annealing cexp rand_max rnd m head = Some (Inr (Max (sp_ct ` set qs), qs)) \<and>
    Max (sp_ct ` set qs) \<le> b \<and> map sa_static qs = map sa_static head \<and>
    mset (map sp_pr qs) = mset (initial_assignments m (length head)) \<and> (\<forall>q\<in>set qs. slot_ok q) \<and> one_at_a_time qs"
proof -
  let ?init = "initial_assignments m (length head)"
  let ?s = "\<lparr>sa_temperature = INITIAL_TEMPERATURE, sa_current = ?init, sa_best = ?init,
    sa_best_interval = b, sa_procs = ps0, sa_rng = 0\<rparr>"
  have "map sa_static ps0 = map sa_static head" using anneal_metrics [OF ok refl refl] b by auto
  then have "anneal_inv m head b ?s" using b by (auto simp: anneal_inv_def)
  moreover have "sa_temperature ?s * COOLING_RATE ^ 980 \<le> FINAL_TEMPERATURE"
    using cooled_down by simp
  ultimately obtain t where t: "anneal_loop cexp rand_max rnd m ?s = Some (Inr t)" "anneal_inv m head b t"
    using anneal_loop_returns [OF ok] by blast
  obtain qs where qs: "calculate_metrics m (sa_procs t) (sa_best t) = Inr (Max (sp_ct ` set qs), qs)"
    "calculate_metrics m head (sa_best t) = Inr (Max (sp_ct ` set qs), qs)"
    "map sa_static qs = map sa_static head" "map sp_pr qs = sa_best t" "\<forall>q\<in>set qs. slot_ok q" "one_at_a_time qs"
    using anneal_metrics [OF ok, of "sa_procs t" "sa_best t"] t(2) unfolding anneal_inv_def by blast
  have "sa_best_interval t = Max (sp_ct ` set qs)" "sa_best_interval t \<le> b" "mset (sa_best t) = mset ?init"
    using t(2) qs(2) by (auto simp: anneal_inv_def)
  moreover have "m \<noteq> 0" using ok by (simp add: annealable_def)
  ultimately have "simulated_annealing cexp rand_max rnd m head = Some (Inr (Max (sp_ct ` set qs), qs))"
    using b t(1) qs(1) copy_back_static [OF qs(3)] by (simp add: simulated_annealing_def Let_def)
  then show ?thesis
    using qs(3-6) \<open>sa_best_interval t = _\<close> \<open>sa_best_interval t \<le> b\<close> \<open>mset (sa_best t) = _\<close>
    by (intro exI [of _ qs]) (simp del: mset_map)
qed



end
