(* ===== verification/Spec2Isabelle.thy ===== *)
theory Spec2Isabelle
  imports Kstring Grep Shell_Words Umalloc_Run Virtio_Run Locks Pipe Uart Console Printf Kalloc Bio Log File_Io Sysfile_Calls Fs_Unlink Trap_Run Lottery MLFQ_Existing MLFQ_Improved SA
begin

text \<open>
  A verification of the two programs of this repository: an xv6 kernel for RISC-V with added system calls
  (\<open>System Call Enhancements in xv6 OS/\<close>; the paths \<open>kernel/\<close>, \<open>user/\<close> and \<open>mkfs/\<close> below are in it) and five
  simulators of CPU scheduling algorithms (\<open>schedulling_algorithms/\<close>).

  \<^bold>\<open>How C is modelled.\<close> A function with side effects takes the state it changes and returns it. \<open>'a cresult\<close> is a fault
  (\<open>Panic\<close> with its message, an index out of bounds, a null pointer) or a value; \<open>'a run\<close> adds \<open>None\<close> for a call that does
  not return: it waits for an event nobody produces, spins, or runs for ever. \<open>bind_run\<close> sequences calls, \<open>run_for\<close> and
  \<open>while_run\<close> are loops (\<open>Prelude\<close>). Unsigned C integers are words of their width and wrap; \<open>int\<close> is \<open>int\<close> where the
  code keeps it in range. Loops whose bound is visible are recursive functions with a termination proof. No definition
  uses fuel: loops that may run for ever are \<open>while_option\<close> or \<open>partial_function\<close>, and the theorems about them say
  whether they return.

  \<^bold>\<open>The kernel, from the bottom up.\<close>

  \<^item> \<open>Kstring\<close> (\<open>kernel/string.c\<close>): memory is a function from 64-bit addresses to bytes. \<open>memmove\<close> is right for overlapping
    regions, \<open>safestrcpy\<close> stays in bounds and terminates.
  \<^item> \<open>Locks\<close> (\<open>kernel/spinlock.c\<close>, \<open>kernel/sleeplock.c\<close>): the operations as functions, and the atomic steps of \<open>acquire\<close> and
    \<open>release\<close> as a step relation over any number of CPUs, with mutual exclusion by rule induction. \<open>push_off\<close> and
    \<open>pop_off\<close> balance.
  \<^item> \<open>Ring\<close>: the locale \<open>ring\<close> of byte queues kept in an array between free-running counters, with its laws proved once under
    counter wrap-around; \<open>Pipe\<close> (\<open>kernel/pipe.c\<close>), \<open>Uart\<close> (\<open>kernel/uart.c\<close>, transmit side) and \<open>Console\<close>
    (\<open>kernel/console.c\<close>) interpret it and refine byte streams and a line editor.
  \<^item> \<open>Printf\<close> (\<open>kernel/printf.c\<close>): \<open>printf\<close> against a format that is a list of pieces, each with its argument and its text, and the numbers that
    its array of digits cannot hold.
  \<^item> \<open>Physmem\<close>, \<open>Kalloc\<close> (\<open>kernel/kalloc.c\<close>): the free list lives in the free pages themselves; pages are handed out
    once. \<open>Vm\<close>, \<open>Uvm\<close> (\<open>kernel/vm.c\<close>): three-level page tables in memory; \<open>mappages\<close> changes exactly the
    translations asked for, \<open>copyout\<close> and \<open>copyin\<close> move bytes across page boundaries.
  \<^item> \<open>Proc\<close>, \<open>Lifecycle\<close>, \<open>Proc_Run\<close> (\<open>kernel/proc.c\<close>): the process table with its locks and the calls \<open>fork\<close>, \<open>sfork\<close>,
    \<open>exit\<close>, \<open>wait\<close>, \<open>sleep\<close>, \<open>wakeup\<close>, \<open>kill\<close>, \<open>sched\<close>. \<open>Lifecycle\<close> shows that every call refines a step of an abstract
    process table and keeps its invariant, \<open>Proc_Run\<close> gives exact results when the locks are free.
  \<^item> \<open>Syscall\<close> (\<open>kernel/syscall.c\<close>, \<open>kernel/sysproc.c\<close>): arguments from the trap frame, the calls on processes and on the clock, and the table
    of calls. \<open>Trap\<close> (\<open>kernel/trap.c\<close>): traps and interrupts over the control registers. \<open>Trap_Run\<close> follows a system call
    from the trap to the return, and a sleeping process from tick to tick.
  \<^item> \<open>Virtio\<close>, \<open>Virtio_Init\<close> (\<open>kernel/virtio_disk.c\<close>, \<open>kernel/virtio.h\<close>): the disk driver, cut at its sleeps, with descriptors and rings shared
    with the device, which is a step relation that follows the virtio specification. \<open>Virtio_Inv\<close> and \<open>Virtio_Steps\<close> have the invariant and
    that every step keeps it, \<open>Virtio_Run\<close> that in runs of any number of threads each request moves the right data and no wake-up is
    lost; this is what \<open>Bio\<close> assumes when it takes a disk transfer as one step.
  \<^item> \<open>Bio\<close> (\<open>kernel/bio.c\<close>): the LRU list is a doubly linked ring of array indices, the disk a map with a log of writes.
    The abstraction \<open>cabs\<close> (contents, references, holders) is what the layers above see.
  \<^item> \<open>Log\<close> (\<open>kernel/log.c\<close>): commit and recovery as sequences of disk writes; a crash after any prefix of them leaves
    all or nothing of the transaction.
  \<^item> \<open>Fs\<close> (\<open>kernel/fs.c\<close>): all its functions. \<open>Txn\<close> restates \<open>Bio\<close> and \<open>Log\<close> for code inside a transaction, \<open>Fs_Blocks\<close> has
    the locale \<open>block_layer\<close> of that interface, its interpretation, and the block allocator; \<open>Fs_File\<close> has
    \<open>bmap\<close>, \<open>Fs_Rw\<close> and \<open>Fs_Inode\<close> the loops of \<open>readi\<close> and \<open>writei\<close>, \<open>iupdate\<close>, and files as byte lists,
    \<open>Fs_Io\<close> the properties of files, and \<open>Fs_Dir\<close> directories as maps and path names.
  \<^item> \<open>Fs_Op\<close>: the state between system calls, and \<open>begin_op\<close> and \<open>end_op\<close> around the changes of one. \<open>File\<close> (\<open>kernel/file.c\<close>): the
    table of open files over pipes, inodes and devices. \<open>File_Io\<close>: a write through a file descriptor is durable when it
    returns, which joins \<open>Fs_Inode\<close> with commit and recovery.
  \<^item> \<open>Sysfile\<close> (\<open>kernel/sysfile.c\<close>, and \<open>pipealloc\<close> of \<open>kernel/pipe.c\<close>): the file system calls with their decoded arguments.
    \<open>Sysfile_Refs\<close> and \<open>Sysfile_Calls\<close> show that every call keeps the reference counts of open files and that the two
    descriptors of a pipe are its two ends, \<open>Fs_Unlink\<close> that unlinking removes exactly one name of a directory.
  \<^item> \<open>Grep\<close> (\<open>user/grep.c\<close>): the matcher against a regular language, and the line loop under arbitrary reads.

  \<^item> \<open>Shell\<close> (the parser of \<open>user/sh.c\<close>): the line is an array of characters that the parser refers into and finally cuts up in
    place. \<open>Shell_Parse\<close> shows that the parser always ends, \<open>Shell_Print\<close> and \<open>Shell_Words\<close> that it inverts a printer of
    commands.
  \<^item> \<open>Umalloc\<close> (\<open>user/umalloc.c\<close>): the allocator of user programs over a memory of block headers. \<open>Umalloc_Ring\<close> has the free list as a
    ring in address order, \<open>Umalloc_Safe\<close> the layout of the heap and what \<open>free\<close> and the search of \<open>malloc\<close> do to it,
    \<open>Umalloc_Run\<close> programs that allocate and free in any order.

  \<^bold>\<open>The simulators.\<close> \<open>Lottery\<close>, \<open>MLFQ_Existing\<close>, \<open>MLFQ_Improved\<close> and \<open>SA\<close> model the programs of
  \<open>schedulling_algorithms/\<close> from reading the input to the final metrics; the two lottery files have the same text up to layout.
  \<open>Sched_Process\<close> holds the processes and the locale \<open>fifo\<close> of the array queues that the two MLFQ programs share.
  Values of \<open>rand\<close> are an argument. The theorems say which inputs are scheduled completely and with consistent
  metrics, and exhibit inputs on which the code never returns, loses a process or leaves its arrays.

  \<^bold>\<open>Bounds.\<close> The theorems on \<open>writei\<close> and \<open>dirlink\<close> ask for room in the transaction: six blocks for every block of the file
  that is touched (the data block, its bitmap block, the indirect block and its bitmap block, each at most once more) and one for
  the inode. \<open>filewrite\<close> writes at most three blocks' worth at a time, which touches at most four. The cache has
  \<open>NBUF = 30\<close> buffers and the log of \<open>mkfs\<close> admits 29 blocks.

  \<^bold>\<open>Not modelled.\<close> Start-up and the interrupt controller (\<open>start.c\<close>, \<open>main.c\<close>, \<open>plic.c\<close>) and the assembly: they set registers whose meaning is
  the hardware's. Program loading (\<open>exec.c\<close>, \<open>sys_exec\<close>), which joins the file system with user
  memory, the part of the shell that runs commands (\<open>runcmd\<close>, \<open>getcmd\<close>, \<open>main\<close>), the image builder \<open>mkfs\<close>, and the test programs.
  Concurrency is modelled for spin locks and the disk driver; elsewhere a critical section is one
  step, and a call that would sleep in the middle ends there. \<open>either_copyin\<close> and \<open>either_copyout\<close> are arguments of
  the file system functions.
\<close>

end
